(* ===== verification/Prelude.thy ===== *)
theory Prelude
  imports Main "HOL-Library.Word"
begin

unbundle bit_operations_syntax

text \<open>
  Shared vocabulary of the development: the machine types of the code, the status
  codes of \<^verbatim>\<open>include/combotree/combotree.h\<close>, and the generic facts on lists that
  more than one component uses.  Key-value storage is always abstracted to a list of
  pairs in slot order, so the list operations below (insert at a position, remove a
  position) are the abstract counterparts of the code's slot moves, and the lemmas
  relate them to the finite map that the list stands for.
\<close>

type_synonym u8 = "8 word"
type_synonym u32 = "32 word"
type_synonym u64 = "64 word"
type_synonym kv = "u64 \<times> u64"

text \<open>\<open>enum status\<close>: the integer values matter where the code converts a status to
  \<open>bool\<close> (\<open>OK\<close> is 0, hence false).\<close>

datatype status = Failed | OK | Full | Exist | NoExist

definition status_int :: "status \<Rightarrow> int" where
  "status_int s = (case s of Failed \<Rightarrow> -1 | OK \<Rightarrow> 0 | Full \<Rightarrow> 1 | Exist \<Rightarrow> 2 | NoExist \<Rightarrow> 3)"

text \<open>The implicit conversion of a status to \<open>bool\<close>, as C++ does it.\<close>

definition status_bool :: "status \<Rightarrow> bool" where
  "status_bool s \<longleftrightarrow> status_int s \<noteq> 0"

lemma status_bool_iff: "status_bool s \<longleftrightarrow> s \<noteq> OK"
  by (cases s) (simp_all add: status_bool_def status_int_def)

named_theorems layout "offsets and sizes of the byte layouts"
named_theorems refine "operations commute with the abstraction functions"
named_theorems keeps "operations keep the invariants"

subsection \<open>Positions in lists\<close>

definition insert_at :: "nat \<Rightarrow> 'a \<Rightarrow> 'a list \<Rightarrow> 'a list" where
  "insert_at i x xs = take i xs @ x # drop i xs"

definition remove_at :: "nat \<Rightarrow> 'a list \<Rightarrow> 'a list" where
  "remove_at i xs = take i xs @ drop (Suc i) xs"

lemma length_insert_at [simp]: "length (insert_at i x xs) = Suc (length xs)"
  by (simp add: insert_at_def)

lemma length_remove_at [simp]: "i < length xs \<Longrightarrow> length (remove_at i xs) = length xs - 1"
  by (simp add: remove_at_def)

lemma nth_insert_at:
  "i \<le> length xs \<Longrightarrow> j \<le> length xs \<Longrightarrow>
   insert_at i x xs ! j = (if j < i then xs ! j else if j = i then x else xs ! (j - 1))"
  by (auto simp: insert_at_def nth_append nth_Cons' min_def)

lemma nth_remove_at:
  "i < length xs \<Longrightarrow> j < length xs - 1 \<Longrightarrow>
   remove_at i xs ! j = (if j < i then xs ! j else xs ! Suc j)"
  by (auto simp: remove_at_def nth_append min_def)

lemma set_insert_at [simp]: "set (insert_at i x xs) = insert x (set xs)"
  by (metis Un_insert_right append_take_drop_id insert_at_def list.simps(15) set_append)

lemma map_insert_at: "map f (insert_at i x xs) = insert_at i (f x) (map f xs)"
  by (simp add: insert_at_def take_map drop_map)

lemma map_remove_at: "map f (remove_at i xs) = remove_at i (map f xs)"
  by (simp add: remove_at_def take_map drop_map)

lemma set_remove_at_subset: "set (remove_at i xs) \<subseteq> set xs"
  by (auto simp: remove_at_def dest: in_set_takeD in_set_dropD)

lemma nth_list_ext:
  assumes "length xs = length ys" and "\<And>i. i < length ys \<Longrightarrow> xs ! i = ys ! i"
  shows "xs = ys"
  using assms by (simp add: list_eq_iff_nth_eq)

subsection \<open>Key-sorted association lists\<close>

definition keys_sorted :: "('k::linorder \<times> 'v) list \<Rightarrow> bool" where
  "keys_sorted xs \<longleftrightarrow> sorted_wrt (<) (map fst xs)"

lemma keys_sorted_nth:
  "keys_sorted xs \<Longrightarrow> i < j \<Longrightarrow> j < length xs \<Longrightarrow> fst (xs ! i) < fst (xs ! j)"
  by (simp add: keys_sorted_def sorted_wrt_iff_nth_less)

lemma keys_sorted_distinct: "keys_sorted xs \<Longrightarrow> distinct (map fst xs)"
  by (simp add: keys_sorted_def strict_sorted_iff)

lemma keys_sorted_append:
  "keys_sorted (xs @ ys) \<longleftrightarrow>
   keys_sorted xs \<and> keys_sorted ys \<and> (\<forall>a\<in>set xs. \<forall>b\<in>set ys. fst a < fst b)"
  by (auto simp: keys_sorted_def sorted_wrt_append)

lemma keys_sorted_Cons:
  "keys_sorted (x # xs) \<longleftrightarrow> (\<forall>b\<in>set xs. fst x < fst b) \<and> keys_sorted xs"
  by (simp add: keys_sorted_def)

lemma keys_sorted_Nil [simp]: "keys_sorted []"
  by (simp add: keys_sorted_def)

lemma keys_sorted_take: "keys_sorted xs \<Longrightarrow> keys_sorted (take n xs)"
  by (metis append_take_drop_id keys_sorted_append)

lemma keys_sorted_drop: "keys_sorted xs \<Longrightarrow> keys_sorted (drop n xs)"
  by (metis append_take_drop_id keys_sorted_append)

lemma keys_sorted_insert_at:
  assumes "keys_sorted xs" "\<forall>a\<in>set (take i xs). fst a < k" "\<forall>b\<in>set (drop i xs). k < fst b"
  shows "keys_sorted (insert_at i (k, v) xs)"
proof -
  have "keys_sorted (take i xs)" "keys_sorted (drop i xs)"
    using assms(1) by (auto intro: keys_sorted_take keys_sorted_drop)
  moreover have "\<forall>a\<in>set (take i xs). \<forall>b\<in>set (drop i xs). fst a < fst b"
    using assms(1) by (metis append_take_drop_id keys_sorted_append)
  ultimately show ?thesis
    using assms(2,3) by (auto simp: insert_at_def keys_sorted_append keys_sorted_Cons)
qed

lemma keys_sorted_remove_at: "keys_sorted xs \<Longrightarrow> keys_sorted (remove_at i xs)"
proof -
  assume s: "keys_sorted xs"
  then have "keys_sorted (take i xs @ drop i xs)" by simp
  then have "\<forall>a\<in>set (take i xs). \<forall>b\<in>set (drop i xs). fst a < fst b"
    unfolding keys_sorted_append by blast
  moreover have "set (drop (Suc i) xs) \<subseteq> set (drop i xs)"
    by (simp add: set_drop_subset_set_drop)
  ultimately show ?thesis
    using s unfolding remove_at_def keys_sorted_append
    by (meson keys_sorted_drop keys_sorted_take subsetD)
qed

lemma keys_sorted_update:
  assumes "keys_sorted xs" "i < length xs"
  shows "keys_sorted (xs[i := (fst (xs ! i), v)])"
proof -
  have "map fst (xs[i := (fst (xs ! i), v)]) = map fst xs"
    using assms(2) by (simp add: list_eq_iff_nth_eq nth_list_update)
  then show ?thesis using assms(1) by (simp add: keys_sorted_def)
qed

lemma dropWhile_sorted:
  "keys_sorted xs \<Longrightarrow> dropWhile (\<lambda>x. fst x < start) xs = filter (\<lambda>x. start \<le> fst x) xs"
proof (induction xs)
  case (Cons x xs)
  show ?case
  proof (cases "fst x < start")
    case True
    then show ?thesis using Cons by (simp add: keys_sorted_Cons)
  next
    case False
    then have "\<forall>y \<in> set xs. start \<le> fst y" using Cons.prems by (auto simp: keys_sorted_Cons)
    then show ?thesis using False by (simp add: filter_id_conv)
  qed
qed simp

lemma map_sort_key: "map f (sort_key (g \<circ> f) xs) = sort_key g (map f xs)"
proof -
  have "map f (insort_key (g \<circ> f) x ys) = insort_key g (f x) (map f ys)" for x ys
    by (induction ys) auto
  then show ?thesis by (induction xs) auto
qed

lemma map_of_notin_range:
  assumes "\<forall>a\<in>set xs. fst a \<noteq> k"
  shows "map_of xs k = None"
  using assms by (metis map_of_eq_None_iff image_iff)

lemma map_of_insert_at:
  assumes "\<forall>a\<in>set xs. fst a \<noteq> k"
  shows "map_of (insert_at i (k, v) xs) = (map_of xs)(k \<mapsto> v)"
proof
  fix x
  have "map_of (take i xs) k = None"
    using assms by (intro map_of_notin_range) (auto dest: in_set_takeD)
  moreover have "map_of xs x = map_of (take i xs @ drop i xs) x" by simp
  ultimately show "map_of (insert_at i (k, v) xs) x = ((map_of xs)(k \<mapsto> v)) x"
    unfolding insert_at_def map_of_append
    by (cases "x = k") (auto simp: map_add_def split: option.splits)
qed

lemma map_of_nth_eq:
  assumes "distinct (map fst xs)" "i < length xs"
  shows "map_of xs (fst (xs ! i)) = Some (snd (xs ! i))"
  using assms by (metis map_of_is_SomeI nth_mem prod.collapse)

lemma map_of_remove_at:
  assumes "distinct (map fst xs)" "i < length xs"
  shows "map_of (remove_at i xs) = (map_of xs)(fst (xs ! i) := None)"
proof
  fix x
  have split: "xs = take i xs @ xs ! i # drop (Suc i) xs"
    using assms(2) by (simp add: id_take_nth_drop)
  then have "distinct (map fst (take i xs @ xs ! i # drop (Suc i) xs))"
    using assms(1) by metis
  then have nin: "fst (xs ! i) \<notin> fst ` set (take i xs)" "fst (xs ! i) \<notin> fst ` set (drop (Suc i) xs)"
    by auto
  have eq: "map_of xs x = map_of (take i xs @ xs ! i # drop (Suc i) xs) x"
    using split by metis
  show "map_of (remove_at i xs) x = ((map_of xs)(fst (xs ! i) := None)) x"
  proof (cases "x = fst (xs ! i)")
    case True
    then have "map_of (take i xs) x = None" "map_of (drop (Suc i) xs) x = None"
      using nin by (simp_all add: map_of_eq_None_iff)
    then show ?thesis using True by (simp add: remove_at_def map_add_def)
  next
    case False
    then have "map_of (take i xs @ xs ! i # drop (Suc i) xs) x = map_of (take i xs @ drop (Suc i) xs) x"
      by (cases "xs ! i") (simp add: map_add_def split: option.splits)
    then show ?thesis using False eq by (simp add: remove_at_def)
  qed
qed

lemma map_of_update_at:
  assumes "distinct (map fst xs)" "i < length xs"
  shows "map_of (xs[i := (fst (xs ! i), v)]) = (map_of xs)(fst (xs ! i) \<mapsto> v)"
proof
  fix x
  let ?k = "fst (xs ! i)"
  have upd: "xs[i := (?k, v)] = take i xs @ (?k, v) # drop (Suc i) xs"
    using assms(2) by (simp add: upd_conv_take_nth_drop)
  have split: "xs = take i xs @ xs ! i # drop (Suc i) xs"
    using assms(2) by (simp add: id_take_nth_drop)
  then have "distinct (map fst (take i xs @ xs ! i # drop (Suc i) xs))"
    using assms(1) by metis
  then have "map_of (take i xs) ?k = None"
    by (auto simp: map_of_eq_None_iff)
  moreover have "map_of xs x = map_of (take i xs @ xs ! i # drop (Suc i) xs) x"
    using split by metis
  ultimately show "map_of (xs[i := (?k, v)]) x = ((map_of xs)(?k \<mapsto> v)) x"
    unfolding upd by (cases "xs ! i"; cases "x = ?k") (auto simp: map_add_def split: option.splits)
qed

lemma map_of_concat:
  assumes "j < length xss" "\<forall>i < length xss. i \<noteq> j \<longrightarrow> k \<notin> fst ` set (xss ! i)"
  shows "map_of (concat xss) k = map_of (xss ! j) k"
proof -
  have no: "map_of (concat ys) k = None" if "\<forall>y \<in> set ys. k \<notin> fst ` set y" for ys
    using that by (auto simp: map_of_eq_None_iff)
  have "k \<notin> fst ` set y" if y: "y \<in> set (take j xss)" for y
  proof -
    obtain i where "i < length (take j xss)" "y = take j xss ! i" using y unfolding in_set_conv_nth by blast
    then have "i < length xss" "i \<noteq> j" "y = xss ! i" using assms(1) by auto
    then show ?thesis using assms(2) by blast
  qed
  moreover have "k \<notin> fst ` set y" if y: "y \<in> set (drop (Suc j) xss)" for y
  proof -
    obtain i where "i < length (drop (Suc j) xss)" "y = drop (Suc j) xss ! i" using y unfolding in_set_conv_nth by blast
    then have "Suc j + i < length xss" "Suc j + i \<noteq> j" "y = xss ! (Suc j + i)" using assms(1) by auto
    then show ?thesis using assms(2) by blast
  qed
  ultimately have "map_of (concat (take j xss)) k = None" "map_of (concat (drop (Suc j) xss)) k = None"
    by (intro no ballI; blast)+
  moreover have "concat xss = concat (take j xss) @ xss ! j @ concat (drop (Suc j) xss)"
    using id_take_nth_drop[OF assms(1)] by (metis concat.simps(2) concat_append)
  ultimately show ?thesis by (simp add: map_add_def split: option.splits)
qed

end
