(* ===== verification/Search.thy ===== *)
theory Search
  imports Prelude
begin

text \<open>
  The search loops that the containers of the code share: the binary search of
  \<^verbatim>\<open>Find\<close> (KVBuffer, SortBuffer, the buckets), the linear scan of \<^verbatim>\<open>FindLE\<close>, the binary
  search for the last key that is not greater (\<^verbatim>\<open>BLevel::BinarySearch_\<close>), and the two
  one-step scans of the learned lookups.  Indices are C \<open>int\<close>s, since the loops let
  \<open>right\<close> become \<open>-1\<close>; no index exceeds the size of the array, so no loop overflows.

  The locale \<open>ordered_slots\<close> is the contract under which the loops are right: a state
  with an invariant and a strictly sorted run of keys.  \<open>ordered_buffer\<close> extends it with
  the operations of a node buffer; what a client may conclude about lookups is proved
  once there.
\<close>

subsection \<open>The loops\<close>

function bsearch :: "(nat \<Rightarrow> 'k::linorder) \<Rightarrow> 'k \<Rightarrow> int \<Rightarrow> int \<Rightarrow> int \<times> bool" where
  "bsearch f t l r =
     (if l \<le> r then
        let m = (l + r) div 2; mid_key = f (nat m) in
        if mid_key = t then (m, True)
        else if t < mid_key then bsearch f t l (m - 1)
        else bsearch f t (m + 1) r
      else (l, False))"
  by pat_completeness auto
termination
  by (relation "measure (\<lambda>(f, t, l, r). nat (r - l + 1))") auto

function find_le_loop :: "(nat \<Rightarrow> 'k::linorder) \<Rightarrow> 'k \<Rightarrow> nat \<Rightarrow> nat \<Rightarrow> int \<times> bool" where
  "find_le_loop f t i n =
     (if i < n then
        if f i = t then (int i, True)
        else if t < f i then (int i - 1, False)
        else find_le_loop f t (Suc i) n
      else (int n - 1, False))"
  by pat_completeness auto
termination
  by (relation "measure (\<lambda>(f, t, i, n). n - i)") auto

declare bsearch.simps [simp del] find_le_loop.simps [simp del]

subsection \<open>What the loops return on sorted keys\<close>

text \<open>The answer every exact search must give: the position of the key if it is there,
  else the position where it would be inserted.\<close>

definition search_result :: "(nat \<Rightarrow> 'k::linorder) \<Rightarrow> nat \<Rightarrow> 'k \<Rightarrow> int \<times> bool \<Rightarrow> bool" where
  "search_result f n t pb \<longleftrightarrow>
     (if snd pb then 0 \<le> fst pb \<and> fst pb < int n \<and> f (nat (fst pb)) = t
      else 0 \<le> fst pb \<and> fst pb \<le> int n \<and>
        (\<forall>i < nat (fst pb). f i < t) \<and> (\<forall>i. nat (fst pb) \<le> i \<and> i < n \<longrightarrow> t < f i))"

lemma search_result_cong:
  "(\<And>i. i < n \<Longrightarrow> f i = g i) \<Longrightarrow> search_result f n t pb \<longleftrightarrow> search_result g n t pb"
  by (auto simp: search_result_def)

text \<open>The answer of the less-or-equal search: the last position whose key is not greater,
  \<open>-1\<close> if there is none.\<close>

definition le_result :: "(nat \<Rightarrow> 'k::linorder) \<Rightarrow> nat \<Rightarrow> 'k \<Rightarrow> int \<Rightarrow> bool" where
  "le_result f n t p \<longleftrightarrow>
     -1 \<le> p \<and> p < int n \<and> (\<forall>i. int i \<le> p \<longrightarrow> f i \<le> t) \<and> (\<forall>i < n. p < int i \<longrightarrow> t < f i)"

lemma le_result_unique:
  assumes "le_result f n t p" "le_result f n t q"
  shows "p = q"
proof (rule ccontr)
  have aux: False if "le_result f n t p" "le_result f n t q" "p < q" for p q
  proof -
    have "0 \<le> q" using that by (simp add: le_result_def)
    then have "f (nat q) \<le> t" "t < f (nat q)"
      using that by (auto simp: le_result_def)
    then show False by simp
  qed
  assume "p \<noteq> q"
  then show False using aux assms by (meson linorder_neqE)
qed

locale ordered_slots =
  fixes inv :: "'s \<Rightarrow> bool"
    and count :: "'s \<Rightarrow> nat"
    and key_at :: "'s \<Rightarrow> nat \<Rightarrow> 'k::linorder"
  assumes slots_sorted: "inv s \<Longrightarrow> i < j \<Longrightarrow> j < count s \<Longrightarrow> key_at s i < key_at s j"
begin

lemma slots_le: "inv s \<Longrightarrow> i \<le> j \<Longrightarrow> j < count s \<Longrightarrow> key_at s i \<le> key_at s j"
  by (metis le_neq_implies_less less_imp_le order_refl slots_sorted)

lemma bsearch_gen:
  assumes "inv s" "0 \<le> l" "r < int (count s)" "l \<le> r + 1"
    and "\<forall>i < nat l. key_at s i < t"
    and "\<forall>i. r < int i \<and> i < count s \<longrightarrow> t < key_at s i"
  shows "search_result (key_at s) (count s) t (bsearch (key_at s) t l r)"
  using assms(2-)
proof (induction "key_at s" t l r rule: bsearch.induct)
  case (1 t l r)
  define m where "m = (l + r) div 2"
  show ?case
  proof (cases "l \<le> r")
    case False
    then have "bsearch (key_at s) t l r = (l, False)" by (simp add: bsearch.simps)
    moreover have "t < key_at s i" if "nat l \<le> i" "i < count s" for i
      using "1.prems"(5) that False by auto
    ultimately show ?thesis
      using "1.prems" False by (auto simp: search_result_def)
  next
    case True
    then have m: "l \<le> m" "m \<le> r" by (auto simp: m_def)
    consider "key_at s (nat m) = t" | "t < key_at s (nat m)" | "key_at s (nat m) < t" by fastforce
    then show ?thesis
    proof cases
      case 1
      then show ?thesis using True m "1.prems"
        by (subst bsearch.simps) (simp add: m_def[symmetric] search_result_def Let_def)
    next
      case 2
      have "search_result (key_at s) (count s) t (bsearch (key_at s) t l (m - 1))"
      proof (rule "1.hyps"(1)[OF True m_def refl])
        show "key_at s (nat m) \<noteq> t" "t < key_at s (nat m)" using 2 by auto
        show "\<forall>i. m - 1 < int i \<and> i < count s \<longrightarrow> t < key_at s i"
        proof (intro allI impI)
          fix i assume "m - 1 < int i \<and> i < count s"
          then have "key_at s (nat m) \<le> key_at s i" by (intro slots_le[OF assms(1)]) auto
          then show "t < key_at s i" using 2 by simp
        qed
      qed (use "1.prems" m in auto)
      then show ?thesis using True 2
        by (subst bsearch.simps) (auto simp add: m_def[symmetric] Let_def)
    next
      case 3
      have "search_result (key_at s) (count s) t (bsearch (key_at s) t (m + 1) r)"
      proof (rule "1.hyps"(2)[OF True m_def refl])
        show "key_at s (nat m) \<noteq> t" "\<not> t < key_at s (nat m)" using 3 by auto
        show "\<forall>i < nat (m + 1). key_at s i < t"
        proof (intro allI impI)
          fix i assume "i < nat (m + 1)"
          then have "key_at s i \<le> key_at s (nat m)"
            using m "1.prems" by (intro slots_le[OF assms(1)]) auto
          then show "key_at s i < t" using 3 by simp
        qed
      qed (use "1.prems" m in auto)
      moreover have "\<not> t < key_at s (nat m)" "key_at s (nat m) \<noteq> t" using 3 by auto
      ultimately show ?thesis using True
        by (subst bsearch.simps) (simp add: m_def[symmetric] Let_def)
    qed
  qed
qed

lemma bsearch_correct:
  "inv s \<Longrightarrow> search_result (key_at s) (count s) t (bsearch (key_at s) t 0 (int (count s) - 1))"
  by (rule bsearch_gen) auto

lemma find_le_loop_gen:
  assumes "inv s" "i \<le> count s" "\<forall>j < i. key_at s j < t"
  shows "le_result (key_at s) (count s) t (fst (find_le_loop (key_at s) t i (count s))) \<and>
         (snd (find_le_loop (key_at s) t i (count s)) \<longleftrightarrow> (\<exists>j. i \<le> j \<and> j < count s \<and> key_at s j = t))"
  using assms(2-)
proof (induction "key_at s" t i "count s" rule: find_le_loop.induct)
  case (1 t i)
  show ?case
  proof (cases "i < count s")
    case False
    then have "find_le_loop (key_at s) t i (count s) = (int (count s) - 1, False)"
      by (simp add: find_le_loop.simps)
    moreover have "i = count s" using False 1(2) by simp
    ultimately show ?thesis using 1(3) by (auto simp: le_result_def less_imp_le)
  next
    case lt: True
    consider (eq) "key_at s i = t" | (gt) "t < key_at s i" | (less) "key_at s i < t" by fastforce
    then show ?thesis
    proof cases
      case eq
      then have "find_le_loop (key_at s) t i (count s) = (int i, True)"
        using lt by (simp add: find_le_loop.simps)
      moreover have "key_at s j \<le> t" if "j \<le> i" for j
        using that eq lt slots_le[OF assms(1), of j i] by simp
      moreover have "t < key_at s j" if "i < j" "j < count s" for j
        using that eq slots_sorted[OF assms(1), of i j] by simp
      ultimately show ?thesis using lt eq by (auto simp: le_result_def)
    next
      case gt
      then have "find_le_loop (key_at s) t i (count s) = (int i - 1, False)"
        using lt by (simp add: find_le_loop.simps)
      moreover have above: "t < key_at s j" if "i \<le> j" "j < count s" for j
        using that gt slots_le[OF assms(1), of i j] by simp
      ultimately show ?thesis using lt gt 1(3) less_imp_le
        by (fastforce simp: le_result_def)
    next
      case less
      have "le_result (key_at s) (count s) t (fst (find_le_loop (key_at s) t (Suc i) (count s))) \<and>
            (snd (find_le_loop (key_at s) t (Suc i) (count s)) \<longleftrightarrow>
              (\<exists>j. Suc i \<le> j \<and> j < count s \<and> key_at s j = t))"
        using 1(1)[OF lt] less lt 1(3) by (auto simp: less_Suc_eq)
      moreover have "(\<exists>j. Suc i \<le> j \<and> j < count s \<and> key_at s j = t) \<longleftrightarrow>
                     (\<exists>j. i \<le> j \<and> j < count s \<and> key_at s j = t)"
        using less by (metis Suc_leD le_antisym not_less_eq_eq order_less_irrefl)
      moreover have "\<not> t < key_at s i" "key_at s i \<noteq> t" using less by auto
      ultimately show ?thesis using lt by (simp add: find_le_loop.simps[of _ _ i])
    qed
  qed
qed

lemma find_le_loop_correct:
  assumes "inv s"
  shows "le_result (key_at s) (count s) t (fst (find_le_loop (key_at s) t 0 (count s)))"
    and "snd (find_le_loop (key_at s) t 0 (count s)) \<longleftrightarrow> (\<exists>j < count s. key_at s j = t)"
  using find_le_loop_gen[OF assms, of 0 t] by auto

end

subsection \<open>The contract of an ordered node buffer\<close>

text \<open>A buffer of key-value slots in key order.  \<open>wf\<close> is its structural invariant,
  \<open>items\<close> the pairs it holds in order, \<open>storable\<close> says which pairs its slots can hold
  (keys with the buffer's prefix, values of the slot's width).  \<open>None\<close> from an operation
  is a failed assertion of the code.\<close>

locale ordered_buffer =
  fixes wf :: "'s \<Rightarrow> bool"
    and items :: "'s \<Rightarrow> kv list"
    and room :: "'s \<Rightarrow> bool"
    and storable :: "'s \<Rightarrow> kv \<Rightarrow> bool"
    and find :: "'s \<Rightarrow> u64 \<Rightarrow> int \<times> bool"
    and value_at :: "'s \<Rightarrow> nat \<Rightarrow> u64"
    and put :: "'s \<Rightarrow> nat \<Rightarrow> u64 \<Rightarrow> u64 \<Rightarrow> 's option"
    and revalue :: "'s \<Rightarrow> nat \<Rightarrow> u64 \<Rightarrow> 's"
    and erase :: "'s \<Rightarrow> nat \<Rightarrow> 's option"
  assumes find_result: "wf s \<Longrightarrow> keys_sorted (items s) \<Longrightarrow> storable s (k, v) \<Longrightarrow>
      search_result (\<lambda>i. fst (items s ! i)) (length (items s)) k (find s k)"
    and value_at_items: "wf s \<Longrightarrow> p < length (items s) \<Longrightarrow> value_at s p = snd (items s ! p)"
    and put_items: "wf s \<Longrightarrow> room s \<Longrightarrow> storable s (k, v) \<Longrightarrow> p \<le> length (items s) \<Longrightarrow>
      \<exists>s'. put s p k v = Some s' \<and> wf s' \<and> items s' = insert_at p (k, v) (items s)"
    and revalue_items: "wf s \<Longrightarrow> storable s (k, v) \<Longrightarrow> p < length (items s) \<Longrightarrow>
      wf (revalue s p v) \<and> items (revalue s p v) = (items s)[p := (fst (items s ! p), v)]"
    and erase_items: "wf s \<Longrightarrow> p < length (items s) \<Longrightarrow>
      \<exists>s'. erase s p = Some s' \<and> wf s' \<and> items s' = remove_at p (items s)"
begin

lemma find_hit:
  assumes "wf s" "keys_sorted (items s)" "storable s (k, v)" "find s k = (p, True)"
  shows "0 \<le> p" "nat p < length (items s)" "fst (items s ! nat p) = k"
    "map_of (items s) k = Some (value_at s (nat p))"
proof -
  show p: "0 \<le> p" "nat p < length (items s)" "fst (items s ! nat p) = k"
    using find_result[OF assms(1-3)] assms(4) by (auto simp: search_result_def)
  show "map_of (items s) k = Some (value_at s (nat p))"
    using map_of_nth_eq[OF keys_sorted_distinct[OF assms(2)] p(2)] p(3)
      value_at_items[OF assms(1) p(2)] by simp
qed

lemma find_miss:
  assumes "wf s" "keys_sorted (items s)" "storable s (k, v)" "find s k = (p, False)"
  shows "0 \<le> p" "nat p \<le> length (items s)"
    "\<forall>a \<in> set (take (nat p) (items s)). fst a < k" "\<forall>a \<in> set (drop (nat p) (items s)). k < fst a"
    "\<forall>a \<in> set (items s). fst a \<noteq> k" "map_of (items s) k = None"
proof -
  have r: "0 \<le> p" "p \<le> int (length (items s))" "\<And>i. i < nat p \<Longrightarrow> fst (items s ! i) < k"
    "\<And>i. nat p \<le> i \<Longrightarrow> i < length (items s) \<Longrightarrow> k < fst (items s ! i)"
    using find_result[OF assms(1-3)] assms(4) by (auto simp: search_result_def)
  then show "0 \<le> p" "nat p \<le> length (items s)" by auto
  show lt: "\<forall>a \<in> set (take (nat p) (items s)). fst a < k"
    using r by (fastforce simp: in_set_conv_nth)
  show gt: "\<forall>a \<in> set (drop (nat p) (items s)). k < fst a"
  proof
    fix a assume "a \<in> set (drop (nat p) (items s))"
    then obtain i where "i < length (items s) - nat p" "a = items s ! (nat p + i)"
      by (auto simp: in_set_conv_nth)
    then show "k < fst a" using r(4)[of "nat p + i"] by auto
  qed
  have "set (items s) = set (take (nat p) (items s)) \<union> set (drop (nat p) (items s))"
    by (metis append_take_drop_id set_append)
  then show ne: "\<forall>a \<in> set (items s). fst a \<noteq> k" using lt gt by fastforce
  then show "map_of (items s) k = None" by (rule map_of_notin_range)
qed

lemma find_lookup:
  assumes "wf s" "keys_sorted (items s)" "storable s (k, v)"
  shows "map_of (items s) k =
    (if snd (find s k) then Some (value_at s (nat (fst (find s k)))) else None)"
  using find_hit(4)[OF assms] find_miss(6)[OF assms] by (cases "find s k") auto

lemma put_miss:
  assumes "wf s" "keys_sorted (items s)" "room s" "storable s (k, v)" "find s k = (p, False)"
  shows "\<exists>s'. put s (nat p) k v = Some s' \<and> wf s' \<and> keys_sorted (items s') \<and>
    items s' = insert_at (nat p) (k, v) (items s) \<and> map_of (items s') = (map_of (items s))(k \<mapsto> v)"
proof -
  note m = find_miss[OF assms(1,2,4,5)]
  obtain s' where s': "put s (nat p) k v = Some s'" "wf s'"
    "items s' = insert_at (nat p) (k, v) (items s)"
    using put_items[OF assms(1,3,4) m(2)] by blast
  then show ?thesis
    using keys_sorted_insert_at[OF assms(2) m(3,4)] map_of_insert_at[OF m(5)] by auto
qed

lemma revalue_hit:
  assumes "wf s" "keys_sorted (items s)" "storable s (k, v)" "find s k = (p, True)"
  shows "wf (revalue s (nat p) v)" "keys_sorted (items (revalue s (nat p) v))"
    "items (revalue s (nat p) v) = (items s)[nat p := (k, v)]"
    "map_of (items (revalue s (nat p) v)) = (map_of (items s))(k \<mapsto> v)"
proof -
  note h = find_hit[OF assms]
  note r = revalue_items[OF assms(1,3) h(2)]
  show "wf (revalue s (nat p) v)" using r by simp
  show eq: "items (revalue s (nat p) v) = (items s)[nat p := (k, v)]" using r h(3) by simp
  show "keys_sorted (items (revalue s (nat p) v))"
    using r keys_sorted_update[OF assms(2) h(2)] by simp
  show "map_of (items (revalue s (nat p) v)) = (map_of (items s))(k \<mapsto> v)"
    using r map_of_update_at[OF keys_sorted_distinct[OF assms(2)] h(2)] h(3) by simp
qed

lemma erase_hit:
  assumes "wf s" "keys_sorted (items s)" "storable s (k, v)" "find s k = (p, True)"
  shows "\<exists>s'. erase s (nat p) = Some s' \<and> wf s' \<and> keys_sorted (items s') \<and>
    items s' = remove_at (nat p) (items s) \<and> map_of (items s') = (map_of (items s))(k := None)"
proof -
  note h = find_hit[OF assms]
  obtain s' where "erase s (nat p) = Some s'" "wf s'" "items s' = remove_at (nat p) (items s)"
    using erase_items[OF assms(1) h(2)] by blast
  then show ?thesis
    using keys_sorted_remove_at[OF assms(2)] h(3)
      map_of_remove_at[OF keys_sorted_distinct[OF assms(2)] h(2)] by auto
qed

end

end
