(* ===== verification/Bytes.thy ===== *)
theory Bytes
  imports Search
begin

text \<open>
  Byte arrays and the memory operations of the code on them: little-endian 8-byte
  loads (\<^verbatim>\<open>*(uint64_t*)p\<close>), \<^verbatim>\<open>memcpy\<close> and \<^verbatim>\<open>memmove\<close>.  A load may run past the end of
  the array (the code masks the surplus away); the bytes beyond the end read as 0 here,
  and the lemmas of SlotBuffer show that no result depends on them.  A store past the
  end would corrupt memory in C; the model drops it, and the in-bounds lemmas of the
  components show that no store of a well-formed buffer does so.
\<close>

type_synonym bytes = "u8 list"

definition byte_at :: "bytes \<Rightarrow> nat \<Rightarrow> u8" where
  "byte_at bs i = (if i < length bs then bs ! i else 0)"

definition load64 :: "bytes \<Rightarrow> nat \<Rightarrow> u64" where
  "load64 bs off = foldr (\<lambda>i w. push_bit 8 w OR ucast (byte_at bs (off + i))) [0..<8] 0"

definition bytes_of :: "u64 \<Rightarrow> bytes" where
  "bytes_of w = map (\<lambda>i. ucast (drop_bit (8 * i) w)) [0..<8]"

definition read_bytes :: "bytes \<Rightarrow> nat \<Rightarrow> nat \<Rightarrow> bytes" where
  "read_bytes bs off n = map (\<lambda>i. byte_at bs (off + i)) [0..<n]"

definition memcpy :: "bytes \<Rightarrow> nat \<Rightarrow> bytes \<Rightarrow> bytes" where
  "memcpy bs off src =
     map (\<lambda>i. if off \<le> i \<and> i < off + length src then src ! (i - off) else bs ! i) [0..<length bs]"

text \<open>\<^verbatim>\<open>memmove\<close> inside one array: the source is read before the destination is written.\<close>

definition memmove :: "bytes \<Rightarrow> nat \<Rightarrow> nat \<Rightarrow> nat \<Rightarrow> bytes" where
  "memmove bs dst src n = memcpy bs dst (read_bytes bs src n)"

lemma length_memcpy [simp]: "length (memcpy bs off src) = length bs"
  by (simp add: memcpy_def)

lemma length_memmove [simp]: "length (memmove bs dst src n) = length bs"
  by (simp add: memmove_def)

lemma length_read_bytes [simp]: "length (read_bytes bs off n) = n"
  by (simp add: read_bytes_def)

lemma length_bytes_of [simp]: "length (bytes_of w) = 8"
  by (simp add: bytes_of_def)

lemma nth_read_bytes: "i < n \<Longrightarrow> read_bytes bs off n ! i = byte_at bs (off + i)"
  by (simp add: read_bytes_def)

lemma nth_bytes_of: "i < 8 \<Longrightarrow> bytes_of w ! i = ucast (drop_bit (8 * i) w)"
  by (simp add: bytes_of_def)

lemma byte_at_memcpy:
  "byte_at (memcpy bs off src) i =
     (if i < length bs \<and> off \<le> i \<and> i < off + length src then src ! (i - off) else byte_at bs i)"
  by (auto simp: byte_at_def memcpy_def)

lemma byte_at_memmove:
  "byte_at (memmove bs dst src n) i =
     (if i < length bs \<and> dst \<le> i \<and> i < dst + n then byte_at bs (src + (i - dst)) else byte_at bs i)"
  by (auto simp: memmove_def byte_at_memcpy nth_read_bytes)

lemma byte_at_memmove_out:
  "\<not> (dst \<le> i \<and> i < dst + n) \<Longrightarrow> byte_at (memmove bs dst src n) i = byte_at bs i"
  by (auto simp: byte_at_memmove)

lemma byte_at_memmove_in:
  "dst \<le> i \<Longrightarrow> i < dst + n \<Longrightarrow> i < length bs \<Longrightarrow> src + (i - dst) = j \<Longrightarrow>
   byte_at (memmove bs dst src n) i = byte_at bs j"
  by (auto simp: byte_at_memmove)

lemma memmove_0 [simp]: "memmove bs dst src 0 = bs"
proof -
  have "memcpy bs off [] = map ((!) bs) [0..<length bs]" for off
    unfolding memcpy_def by (rule map_cong) auto
  then show ?thesis by (simp add: memmove_def read_bytes_def map_nth)
qed

lemma bit_foldr_bytes:
  "bit (foldr (\<lambda>i w. push_bit 8 w OR ucast (f i)) [a..<b] (0::u64)) k \<longleftrightarrow>
     k < 64 \<and> a + k div 8 < b \<and> bit (f (a + k div 8) :: u8) (k mod 8)"
proof (induction "b - a" arbitrary: a k)
  case 0
  then show ?case by simp
next
  case (Suc n)
  then have ab: "a < b" by simp
  have IH: "bit (foldr (\<lambda>i w. push_bit 8 w OR ucast (f i)) [Suc a..<b] (0::u64)) j \<longleftrightarrow>
      j < 64 \<and> Suc a + j div 8 < b \<and> bit (f (Suc a + j div 8)) (j mod 8)" for j
    using Suc by (intro Suc.hyps(1)) simp
  have small: "bit (ucast (f a) :: u64) k \<longleftrightarrow> k < 8 \<and> bit (f a) k"
    by (auto simp: bit_simps dest: bit_imp_le_length)
  show ?case
  proof (cases "k < 8")
    case True
    then show ?thesis using ab by (simp add: upt_conv_Cons bit_simps small)
  next
    case False
    then have "k div 8 = Suc ((k - 8) div 8)" "k mod 8 = (k - 8) mod 8"
      by (simp_all add: le_div_geq le_mod_geq)
    moreover have "\<not> bit (f a) k" using False by (auto dest: bit_imp_le_length)
    ultimately show ?thesis using ab False
      by (auto simp: upt_conv_Cons bit_simps small IH)
  qed
qed

lemma bit_load64:
  "bit (load64 bs off) k \<longleftrightarrow> k < 64 \<and> bit (byte_at bs (off + k div 8)) (k mod 8)"
  by (auto simp: load64_def bit_foldr_bytes)

lemma bit_bytes_of:
  "i < 8 \<Longrightarrow> j < 8 \<Longrightarrow> bit (bytes_of w ! i) j \<longleftrightarrow> bit w (8 * i + j)"
  by (simp add: nth_bytes_of bit_simps)

end
