(* ===== verification/SlotBuffer.thy ===== *)
theory SlotBuffer
  imports Bytes
begin

text \<open>
  The layout that \<^verbatim>\<open>src/kvbuffer.h\<close> and \<^verbatim>\<open>src/sortbuffer.h\<close> share: one byte array with
  the key suffixes growing up from the start (slot \<open>i\<close> at \<open>i * suffix_bytes\<close>) and the
  values growing down from the end (slot \<open>i\<close> at \<open>buf_size - (i + 1) * value_size\<close>).
  A key is stored without its common prefix; reading one puts the prefix of a key of
  the same entry back.  The lemmas are the read-over-write laws of this layout, and the
  bit-level facts they rest on.
\<close>

definition prefix_mask :: "nat \<Rightarrow> u64" where
  "prefix_mask n = [0x0000000000000000, 0xFF00000000000000, 0xFFFF000000000000,
     0xFFFFFF0000000000, 0xFFFFFFFF00000000, 0xFFFFFFFFFF000000, 0xFFFFFFFFFFFF0000,
     0xFFFFFFFFFFFFFF00, 0xFFFFFFFFFFFFFFFF] ! n"

definition suffix_mask :: "nat \<Rightarrow> u64" where
  "suffix_mask n = [0x0000000000000000, 0x00000000000000FF, 0x000000000000FFFF,
     0x0000000000FFFFFF, 0x00000000FFFFFFFF, 0x000000FFFFFFFFFF, 0x0000FFFFFFFFFFFF,
     0x00FFFFFFFFFFFFFF, 0xFFFFFFFFFFFFFFFF] ! n"

definition pkey :: "nat \<Rightarrow> nat \<Rightarrow> nat" where
  "pkey suffix idx = idx * suffix"

definition pvalue :: "nat \<Rightarrow> nat \<Rightarrow> nat \<Rightarrow> nat" where
  "pvalue buf_size value_size idx = buf_size - (idx + 1) * value_size"

definition slot_key :: "nat \<Rightarrow> nat \<Rightarrow> bytes \<Rightarrow> nat \<Rightarrow> u64 \<Rightarrow> u64" where
  "slot_key prefix suffix buf idx key_prefix =
     (key_prefix AND prefix_mask prefix) OR (load64 buf (pkey suffix idx) AND suffix_mask suffix)"

definition slot_value :: "nat \<Rightarrow> bytes \<Rightarrow> nat \<Rightarrow> u64" where
  "slot_value value_size buf idx =
     load64 buf (pvalue (length buf) value_size idx) AND drop_bit ((8 - value_size) * 8) (-1)"

definition put_key :: "nat \<Rightarrow> bytes \<Rightarrow> nat \<Rightarrow> u64 \<Rightarrow> bytes" where
  "put_key suffix buf idx k = memcpy buf (pkey suffix idx) (take suffix (bytes_of k))"

definition put_value :: "nat \<Rightarrow> bytes \<Rightarrow> nat \<Rightarrow> u64 \<Rightarrow> bytes" where
  "put_value value_size buf idx v =
     memcpy buf (pvalue (length buf) value_size idx) (take value_size (bytes_of v))"

text \<open>Keys that agree on the first \<open>n\<close> bytes, and values that a slot can hold.\<close>

definition same_prefix :: "nat \<Rightarrow> u64 \<Rightarrow> u64 \<Rightarrow> bool" where
  "same_prefix n a b \<longleftrightarrow> a AND prefix_mask n = b AND prefix_mask n"

definition value_fits :: "nat \<Rightarrow> u64 \<Rightarrow> bool" where
  "value_fits value_size v \<longleftrightarrow> take_bit (8 * value_size) v = v"

lemma length_put_key [simp]: "length (put_key s buf i k) = length buf"
  by (simp add: put_key_def)

lemma length_put_value [simp]: "length (put_value vs buf i v) = length buf"
  by (simp add: put_value_def)

subsection \<open>Bits of the masks, of a key slot and of a value slot\<close>

lemma suffix_mask_eq: "n \<le> 8 \<Longrightarrow> suffix_mask n = mask (8 * n)"
proof -
  assume "n \<le> 8"
  then have "n \<in> {0, 1, 2, 3, 4, 5, 6, 7, 8}" by auto
  then show ?thesis by (auto simp: suffix_mask_def mask_eq_exp_minus_1)
qed

lemma prefix_mask_eq: "n \<le> 8 \<Longrightarrow> prefix_mask n = NOT (mask (64 - 8 * n))"
proof -
  assume "n \<le> 8"
  then have "n \<in> {0, 1, 2, 3, 4, 5, 6, 7, 8}" by auto
  then show ?thesis by (auto simp: prefix_mask_def mask_eq_exp_minus_1)
qed

lemma bit_prefix_mask: "n \<le> 8 \<Longrightarrow> bit (prefix_mask n) k \<longleftrightarrow> k < 64 \<and> 64 - 8 * n \<le> k"
  by (auto simp: prefix_mask_eq bit_simps)

lemma bit_suffix_mask: "n \<le> 8 \<Longrightarrow> bit (suffix_mask n) k \<longleftrightarrow> k < 8 * n"
  by (auto simp: suffix_mask_eq bit_simps)

lemma bit_slot_key:
  assumes "pb + sb = 8"
  shows "bit (slot_key pb sb buf i p) k \<longleftrightarrow>
    k < 64 \<and> (if 8 * sb \<le> k then bit p k else bit (byte_at buf (i * sb + k div 8)) (k mod 8))"
proof -
  have "64 - 8 * pb = 8 * sb" using assms by arith
  then show ?thesis
    using assms by (auto simp: slot_key_def bit_simps bit_prefix_mask bit_suffix_mask bit_load64 pkey_def)
qed

lemma bit_slot_value:
  assumes "vs \<le> 8"
  shows "bit (slot_value vs buf i) k \<longleftrightarrow>
    k < 8 * vs \<and> bit (byte_at buf (length buf - (i + 1) * vs + k div 8)) (k mod 8)"
  using assms by (auto simp: slot_value_def bit_simps bit_load64 pvalue_def)

lemma same_prefix_bits:
  assumes "pb + sb = 8"
  shows "same_prefix pb a b \<longleftrightarrow> (\<forall>k < 64. 8 * sb \<le> k \<longrightarrow> bit a k = bit b k)"
proof -
  have "64 - 8 * pb = 8 * sb" "pb \<le> 8" using assms by arith+
  then show ?thesis
    by (auto simp: same_prefix_def bit_eq_iff[where 'a = u64] bit_simps bit_prefix_mask)
qed

lemma same_prefix_refl [simp]: "same_prefix n a a"
  by (simp add: same_prefix_def)

lemma same_prefix_sym: "same_prefix n a b \<Longrightarrow> same_prefix n b a"
  by (simp add: same_prefix_def)

lemma same_prefix_trans: "same_prefix n a b \<Longrightarrow> same_prefix n b c \<Longrightarrow> same_prefix n a c"
  by (simp add: same_prefix_def)

lemma value_fits_bits: "value_fits vs v \<longleftrightarrow> (\<forall>k. bit v k \<longrightarrow> k < 8 * vs)"
proof -
  have "bit v k \<Longrightarrow> k < 64" for k using bit_imp_le_length[of v k] by simp
  then show ?thesis
    by (auto simp: value_fits_def bit_eq_iff[where 'a = u64] bit_simps)
qed

lemma value_fits_8 [simp]: "value_fits 8 v"
  by (auto simp: value_fits_bits dest: bit_imp_le_length)

subsection \<open>Read over write\<close>

lemma slot_disjoint: "i \<noteq> j \<Longrightarrow> d < s \<Longrightarrow> e < s \<Longrightarrow> i * s + d \<noteq> j * s + (e::nat)"
  by (metis add.commute div_less div_mult_self3 gr_zeroI not_less_zero add.right_neutral mult.commute)

lemma slot_key_prefix:
  assumes "pb + sb = 8" "same_prefix pb p q"
  shows "slot_key pb sb buf i p = slot_key pb sb buf i q"
  using assms by (intro bit_word_eqI) (auto simp: bit_slot_key same_prefix_bits)

lemma slot_key_same_prefix:
  assumes "pb + sb = 8"
  shows "same_prefix pb (slot_key pb sb buf i p) p"
  using assms by (auto simp: bit_slot_key same_prefix_bits)

lemma slot_key_put_key_same:
  assumes "pb + sb = 8" "(i + 1) * sb \<le> length buf" "same_prefix pb p k"
  shows "slot_key pb sb (put_key sb buf i k) i p = k"
proof (rule bit_word_eqI)
  fix n assume n: "n < LENGTH(64)"
  show "bit (slot_key pb sb (put_key sb buf i k) i p) n = bit k n"
  proof (cases "8 * sb \<le> n")
    case True
    then show ?thesis using n assms by (auto simp: bit_slot_key same_prefix_bits)
  next
    case False
    then have "n div 8 < sb" "n div 8 < 8" using n by auto
    moreover have "i * sb + n div 8 < length buf" using calculation(1) assms(2) by simp
    moreover have "8 * (n div 8) + n mod 8 = n" by simp
    ultimately show ?thesis
      using False n assms
      by (auto simp: bit_slot_key put_key_def byte_at_memcpy pkey_def bit_bytes_of min_def)
  qed
qed

lemma slot_key_put_key_other:
  assumes "pb + sb = 8" "i \<noteq> j"
  shows "slot_key pb sb (put_key sb buf i k) j p = slot_key pb sb buf j p"
proof (rule bit_word_eqI)
  fix n assume n: "n < LENGTH(64)"
  have "byte_at (put_key sb buf i k) (j * sb + n div 8) = byte_at buf (j * sb + n div 8)"
    if "n < 8 * sb"
  proof -
    have d: "n div 8 < sb" using that by auto
    have "\<not> (i * sb \<le> j * sb + n div 8 \<and> j * sb + n div 8 < i * sb + sb)"
    proof
      assume a: "i * sb \<le> j * sb + n div 8 \<and> j * sb + n div 8 < i * sb + sb"
      then have "j * sb + n div 8 = i * sb + (j * sb + n div 8 - i * sb)"
        "j * sb + n div 8 - i * sb < sb" by auto
      then show False using slot_disjoint[OF assms(2)[symmetric] d] by metis
    qed
    moreover have "min 8 sb = sb" using assms(1) by simp
    ultimately show ?thesis
      by (auto simp: put_key_def byte_at_memcpy pkey_def)
  qed
  then show "bit (slot_key pb sb (put_key sb buf i k) j p) n = bit (slot_key pb sb buf j p) n"
    using assms(1) by (auto simp: bit_slot_key)
qed

lemma slot_key_put_value:
  assumes "pb + sb = 8" "(j + 1) * sb \<le> length buf - (i + 1) * vs"
  shows "slot_key pb sb (put_value vs buf i v) j p = slot_key pb sb buf j p"
proof (rule bit_word_eqI)
  fix n assume n: "n < LENGTH(64)"
  have "byte_at (put_value vs buf i v) (j * sb + n div 8) = byte_at buf (j * sb + n div 8)"
    if "n < 8 * sb"
  proof -
    have "n div 8 < sb" using that by auto
    then have "j * sb + n div 8 < length buf - (i + 1) * vs" using assms(2) by simp
    then show ?thesis by (simp add: put_value_def byte_at_memcpy pvalue_def)
  qed
  then show "bit (slot_key pb sb (put_value vs buf i v) j p) n = bit (slot_key pb sb buf j p) n"
    using assms(1) by (auto simp: bit_slot_key)
qed

lemma slot_value_put_key:
  assumes "vs \<le> 8" "(i + 1) * sb \<le> length buf - (j + 1) * vs" "sb \<le> 8"
  shows "slot_value vs (put_key sb buf i k) j = slot_value vs buf j"
proof (rule bit_word_eqI)
  fix n assume n: "n < LENGTH(64)"
  have "i * sb + sb \<le> length buf - (j + 1) * vs + n div 8" using assms(2) by simp
  then have "byte_at (put_key sb buf i k) (length buf - (j + 1) * vs + n div 8) =
        byte_at buf (length buf - (j + 1) * vs + n div 8)"
    using assms(3) by (simp add: put_key_def byte_at_memcpy pkey_def min_def)
  then show "bit (slot_value vs (put_key sb buf i k) j) n = bit (slot_value vs buf j) n"
    using assms(1) by (auto simp: bit_slot_value)
qed

lemma slot_value_put_value_same:
  assumes "vs \<le> 8" "(i + 1) * vs \<le> length buf" "value_fits vs v"
  shows "slot_value vs (put_value vs buf i v) i = v"
proof (rule bit_word_eqI)
  fix n assume n: "n < LENGTH(64)"
  show "bit (slot_value vs (put_value vs buf i v) i) n = bit v n"
  proof (cases "n < 8 * vs")
    case False
    then show ?thesis using assms by (auto simp: bit_slot_value value_fits_bits)
  next
    case True
    then have d: "n div 8 < vs" "n div 8 < 8" using n by auto
    moreover have "length buf - (i + 1) * vs + n div 8 < length buf"
      using assms(2) d(1) by simp
    moreover have "8 * (n div 8) + n mod 8 = n" by simp
    ultimately show ?thesis
      using True n assms
      by (auto simp: bit_slot_value put_value_def byte_at_memcpy pvalue_def bit_bytes_of min_def)
  qed
qed

lemma value_slot_offset:
  assumes "(i + 1) * vs \<le> (n::nat)" "d < vs"
  shows "n - (i + 1) * vs + d < n - i * vs" "n - (i + 1) * vs + vs = n - i * vs"
  using assms by (auto simp: algebra_simps)

lemma slot_value_put_value_other:
  assumes "vs \<le> 8" "i \<noteq> j" "(i + 1) * vs \<le> length buf" "(j + 1) * vs \<le> length buf"
  shows "slot_value vs (put_value vs buf i v) j = slot_value vs buf j"
proof (rule bit_word_eqI)
  fix n assume n: "n < LENGTH(64)"
  have "byte_at (put_value vs buf i v) (length buf - (j + 1) * vs + n div 8) =
        byte_at buf (length buf - (j + 1) * vs + n div 8)" if "n < 8 * vs"
  proof -
    have d: "n div 8 < vs" using that by auto
    consider "i < j" | "j < i" using assms(2) by linarith
    then have "length buf - (j + 1) * vs + n div 8 < length buf - (i + 1) * vs \<or>
               length buf - (i + 1) * vs + vs \<le> length buf - (j + 1) * vs + n div 8"
    proof cases
      case 1
      then have "(i + 1) * vs \<le> j * vs" by (intro mult_le_mono1) simp
      then show ?thesis using value_slot_offset[OF assms(4) d] assms(4) by auto
    next
      case 2
      then have "(j + 1) * vs \<le> i * vs" by (intro mult_le_mono1) simp
      then show ?thesis using value_slot_offset(2)[OF assms(3) d] assms(3) by auto
    qed
    moreover have "min 8 vs = vs" using assms(1) by simp
    ultimately show ?thesis by (auto simp: put_value_def byte_at_memcpy pvalue_def)
  qed
  then show "bit (slot_value vs (put_value vs buf i v) j) n = bit (slot_value vs buf j) n"
    using assms(1) by (auto simp: bit_slot_value)
qed

text \<open>The two areas do not meet as long as the buffer has room for all slots in use.\<close>

lemma areas_disjoint [layout]:
  assumes "m * (sb + vs) \<le> (n::nat)" "i < m" "j < m"
  shows "(i + 1) * sb \<le> n - (j + 1) * vs" "(i + 1) * sb \<le> n" "(j + 1) * vs \<le> n"
proof -
  have "(i + 1) * sb \<le> m * sb" "(j + 1) * vs \<le> m * vs"
    using assms by (intro mult_le_mono1; simp)+
  moreover have "m * sb + m * vs \<le> n" using assms(1) by (simp add: algebra_simps)
  ultimately show "(i + 1) * sb \<le> n - (j + 1) * vs" "(i + 1) * sb \<le> n" "(j + 1) * vs \<le> n"
    by linarith+
qed

subsection \<open>Block moves\<close>

lemma slot_key_memcpy_above:
  assumes "pb + sb = 8" "(j + 1) * sb \<le> off"
  shows "slot_key pb sb (memcpy buf off src) j p = slot_key pb sb buf j p"
proof (rule bit_word_eqI)
  fix n assume n: "n < LENGTH(64)"
  have "byte_at (memcpy buf off src) (j * sb + n div 8) = byte_at buf (j * sb + n div 8)"
    if "n < 8 * sb"
  proof -
    have "n div 8 < sb" using that by auto
    then have "j * sb + n div 8 < off" using assms(2) by simp
    then show ?thesis by (simp add: byte_at_memcpy)
  qed
  then show "bit (slot_key pb sb (memcpy buf off src) j p) n = bit (slot_key pb sb buf j p) n"
    using assms(1) by (auto simp: bit_slot_key)
qed

lemma slot_value_memcpy_below:
  assumes "vs \<le> 8" "off + length src \<le> length buf - (j + 1) * vs"
  shows "slot_value vs (memcpy buf off src) j = slot_value vs buf j"
proof (rule bit_word_eqI)
  fix n assume n: "n < LENGTH(64)"
  have "byte_at (memcpy buf off src) (length buf - (j + 1) * vs + n div 8) =
        byte_at buf (length buf - (j + 1) * vs + n div 8)"
    using assms(2) by (simp add: byte_at_memcpy)
  then show "bit (slot_value vs (memcpy buf off src) j) n = bit (slot_value vs buf j) n"
    using assms(1) by (auto simp: bit_slot_value)
qed

lemma slot_in_block:
  assumes "e < (s::nat)"
  shows "d * s \<le> j * s + e \<and> j * s + e < d * s + s * c \<longleftrightarrow> d \<le> j \<and> j < d + c"
proof -
  define D J C where "D = d * s" and "J = j * s" and "C = s * c"
  have lo: "D \<le> J + e \<longleftrightarrow> d \<le> j"
  proof (cases "d \<le> j")
    case True
    then show ?thesis unfolding D_def J_def by (simp add: trans_le_add1)
  next
    case False
    then have "(j + 1) * s \<le> d * s" by (intro mult_le_mono1) simp
    then have "J + s \<le> D" by (simp add: D_def J_def)
    then show ?thesis using False assms by linarith
  qed
  have hi: "J + e < D + C \<longleftrightarrow> j < d + c"
  proof (cases "j < d + c")
    case True
    then have "(j + 1) * s \<le> (d + c) * s" by (intro mult_le_mono1) simp
    then have "J + s \<le> D + C" by (simp add: D_def J_def C_def algebra_simps)
    then show ?thesis using True assms by linarith
  next
    case False
    then have "(d + c) * s \<le> j * s" by (intro mult_le_mono1) simp
    then have "D + C \<le> J" by (simp add: D_def J_def C_def algebra_simps)
    then show ?thesis using False by linarith
  qed
  show ?thesis using lo hi unfolding D_def J_def C_def by simp
qed

lemma slot_key_move:
  assumes "pb + sb = 8" "(d + c) * sb \<le> length buf"
  shows "slot_key pb sb (memmove buf (pkey sb d) (pkey sb s) (sb * c)) j p =
         slot_key pb sb buf (if d \<le> j \<and> j < d + c then s + (j - d) else j) p"
proof (rule bit_word_eqI)
  fix n assume n: "n < LENGTH(64)"
  let ?j = "if d \<le> j \<and> j < d + c then s + (j - d) else j"
  have "byte_at (memmove buf (pkey sb d) (pkey sb s) (sb * c)) (j * sb + n div 8) =
        byte_at buf (?j * sb + n div 8)" if "n < 8 * sb"
  proof -
    have e: "n div 8 < sb" using that by auto
    note blk = slot_in_block[OF e, of d j c]
    show ?thesis
    proof (cases "d \<le> j \<and> j < d + c")
      case False
      then have "\<not> (d * sb \<le> j * sb + n div 8 \<and> j * sb + n div 8 < d * sb + sb * c)"
        using blk by blast
      then show ?thesis unfolding pkey_def if_not_P[OF False] by (rule byte_at_memmove_out)
    next
      case True
      then obtain t where t: "j = d + t" using le_Suc_ex by blast
      have "j * sb + n div 8 < length buf"
        using True blk assms(2) by (simp add: algebra_simps)
      moreover have "s * sb + (j * sb + n div 8 - d * sb) = (s + (j - d)) * sb + n div 8"
        unfolding t by (simp add: add_mult_distrib)
      ultimately have "byte_at (memmove buf (d * sb) (s * sb) (sb * c)) (j * sb + n div 8) =
          byte_at buf ((s + (j - d)) * sb + n div 8)"
        using True blk by (intro byte_at_memmove_in) blast+
      then show ?thesis unfolding pkey_def if_P[OF True] .
    qed
  qed
  then show "bit (slot_key pb sb (memmove buf (pkey sb d) (pkey sb s) (sb * c)) j p) n =
             bit (slot_key pb sb buf ?j p) n"
    using assms(1) by (simp add: bit_slot_key)
qed

lemma value_slot_in_block:
  assumes "e < (s::nat)" "(j + 1) * s \<le> n" "(d + c) * s \<le> n"
  shows "n - (d + c) * s \<le> n - (j + 1) * s + e \<and> n - (j + 1) * s + e < n - (d + c) * s + s * c
     \<longleftrightarrow> d \<le> j \<and> j < d + c"
proof -
  define A J D K where "A = (d + c) * s" and "J = (j + 1) * s" and "D = d * s" and "K = j * s"
  have dc: "A = D + s * c" by (simp add: A_def D_def add_mult_distrib)
  have js: "J = K + s" by (simp add: J_def K_def)
  have b: "J \<le> n" "A \<le> n" using assms by (simp_all add: A_def J_def)
  have up: "n - A + s * c = n - D" using b dc by arith
  have "n - A \<le> n - J + e \<and> n - J + e < n - A + s * c \<longleftrightarrow> d \<le> j \<and> j < d + c"
  proof -
    consider "j < d" | "d \<le> j" "j < d + c" | "d + c \<le> j" by linarith
    then show ?thesis
    proof cases
      case 1
      then have "J \<le> D" unfolding J_def D_def by (intro mult_le_mono1) simp
      then show ?thesis using 1 unfolding up by auto
    next
      case 2
      then have "J \<le> A" "D \<le> K" unfolding J_def A_def D_def K_def by (intro mult_le_mono1; simp)+
      then show ?thesis using 2 assms(1) b js unfolding up by auto
    next
      case 3
      then have "A \<le> K" unfolding A_def K_def by (intro mult_le_mono1) simp
      then show ?thesis using 3 assms(1) b js unfolding up by auto
    qed
  qed
  then show ?thesis by (simp add: A_def J_def)
qed

lemma slot_value_move:
  assumes "vs \<le> 8" "0 < c" "(d + c) * vs \<le> length buf" "(s + c) * vs \<le> length buf"
    "(j + 1) * vs \<le> length buf"
  shows "slot_value vs (memmove buf (pvalue (length buf) vs (d + c - 1))
            (pvalue (length buf) vs (s + c - 1)) (vs * c)) j =
         slot_value vs buf (if d \<le> j \<and> j < d + c then s + (j - d) else j)"
proof (rule bit_word_eqI)
  fix n assume n: "n < LENGTH(64)"
  define L where "L = length buf"
  let ?j = "if d \<le> j \<and> j < d + c then s + (j - d) else j"
  let ?m = "memmove buf (pvalue L vs (d + c - 1)) (pvalue L vs (s + c - 1)) (vs * c)"
  have dc: "d + c - 1 + 1 = d + c" "s + c - 1 + 1 = s + c" using assms(2) by auto
  note bounds = assms(3-5)[folded L_def]
  have eq: "byte_at ?m (L - (j + 1) * vs + n div 8) = byte_at buf (L - (?j + 1) * vs + n div 8)"
    if "n < 8 * vs"
  proof -
    have e: "n div 8 < vs" using that by auto
    note blk = value_slot_in_block[OF e bounds(3,1)]
    show ?thesis
    proof (cases "d \<le> j \<and> j < d + c")
      case False
      then have "\<not> (L - (d + c) * vs \<le> L - (j + 1) * vs + n div 8 \<and>
          L - (j + 1) * vs + n div 8 < L - (d + c) * vs + vs * c)"
        using blk by blast
      then show ?thesis unfolding pvalue_def dc if_not_P[OF False] by (rule byte_at_memmove_out)
    next
      case True
      then obtain t where t: "j = d + t" using le_Suc_ex by blast
      have jm: "(j + 1) * vs + (s + c) * vs = (d + c) * vs + (s + (j - d) + 1) * vs"
        unfolding t by (simp add: add_mult_distrib)
      have "(s + (j - d) + 1) * vs \<le> (s + c) * vs" using True by (intro mult_le_mono1) auto
      then have src: "L - (s + c) * vs + (L - (j + 1) * vs + n div 8 - (L - (d + c) * vs)) =
            L - (s + (j - d) + 1) * vs + n div 8"
        using True blk jm bounds by linarith
      have "L - (j + 1) * vs + n div 8 < length buf"
        using value_slot_offset(1)[OF bounds(3) e] unfolding L_def by linarith
      then have "byte_at (memmove buf (L - (d + c) * vs) (L - (s + c) * vs) (vs * c))
            (L - (j + 1) * vs + n div 8) = byte_at buf (L - (s + (j - d) + 1) * vs + n div 8)"
        using True blk src by (intro byte_at_memmove_in) blast+
      then show ?thesis unfolding pvalue_def dc if_P[OF True] .
    qed
  qed
  show "bit (slot_value vs (memmove buf (pvalue (length buf) vs (d + c - 1))
            (pvalue (length buf) vs (s + c - 1)) (vs * c)) j) n = bit (slot_value vs buf ?j) n"
    unfolding bit_slot_value[OF assms(1)] length_memmove L_def[symmetric]
    by (cases "n < 8 * vs") (simp_all only: simp_thms eq)
qed

end
