(* ===== verification/KVBuffer.thy ===== *)
theory KVBuffer
  imports SlotBuffer
begin

text \<open>
  \<^verbatim>\<open>src/kvbuffer.h\<close>: \<^verbatim>\<open>KVBuffer<112, 8>\<close>, the write buffer of a B-level entry.  The four
  4-bit fields of the meta word and the 112-byte array are the record; the operations
  are those of both build variants: with \<^verbatim>\<open>BUF_SORT\<close> the slots are kept in key order
  (suffix \<open>_sorted\<close> here), without it a new pair is appended and the newest pair of a
  key is found first (suffix \<open>_append\<close>).  The cache-line flushes and fences have no
  effect on the contents and are not modelled.

  The abstraction \<open>kv_items\<close> is the list of pairs in slot order; every operation is
  shown to act on it as the corresponding list operation, and the sorted variant is an
  instance of the locale \<open>ordered_buffer\<close>.
\<close>

record kvbuffer =
  prefix_bytes :: nat
  suffix_bytes :: nat
  entries :: nat
  max_entries :: nat
  kv_buf :: bytes

definition kv_buf_size :: nat where "kv_buf_size = 112"
definition kv_value_size :: nat where "kv_value_size = 8"

text \<open>Assignment to a 4-bit field keeps the low four bits.\<close>

definition bits4 :: "int \<Rightarrow> nat" where
  "bits4 n = nat (n mod 16)"

definition kv_max_entries :: "kvbuffer \<Rightarrow> nat" where
  "kv_max_entries b = kv_buf_size div (kv_value_size + suffix_bytes b)"

definition kv_full :: "kvbuffer \<Rightarrow> bool" where
  "kv_full b \<longleftrightarrow> entries b \<ge> max_entries b"

definition kv_empty :: "kvbuffer \<Rightarrow> bool" where
  "kv_empty b \<longleftrightarrow> entries b = 0"

definition kv_pkey :: "kvbuffer \<Rightarrow> nat \<Rightarrow> nat" where
  "kv_pkey b idx = pkey (suffix_bytes b) idx"

definition kv_pvalue :: "nat \<Rightarrow> nat" where
  "kv_pvalue idx = pvalue kv_buf_size kv_value_size idx"

definition kv_key :: "kvbuffer \<Rightarrow> nat \<Rightarrow> u64 \<Rightarrow> u64" where
  "kv_key b idx key_prefix = slot_key (prefix_bytes b) (suffix_bytes b) (kv_buf b) idx key_prefix"

definition kv_value :: "kvbuffer \<Rightarrow> nat \<Rightarrow> u64" where
  "kv_value b idx = slot_value kv_value_size (kv_buf b) idx"

subsection \<open>Lookup\<close>

definition kv_find_sorted :: "kvbuffer \<Rightarrow> u64 \<Rightarrow> int \<times> bool" where
  "kv_find_sorted b target =
     bsearch (\<lambda>i. kv_key b i target) target 0 (int (entries b) - 1)"

text \<open>\<^verbatim>\<open>memcmp(pkey(i), &target, suffix_bytes) == 0\<close>\<close>

definition kv_suffix_eq :: "kvbuffer \<Rightarrow> nat \<Rightarrow> u64 \<Rightarrow> bool" where
  "kv_suffix_eq b i target \<longleftrightarrow>
     read_bytes (kv_buf b) (kv_pkey b i) (suffix_bytes b) = take (suffix_bytes b) (bytes_of target)"

fun kv_find_back :: "kvbuffer \<Rightarrow> u64 \<Rightarrow> nat \<Rightarrow> nat option" where
  "kv_find_back b target 0 = None"
| "kv_find_back b target (Suc i) =
     (if kv_suffix_eq b i target then Some i else kv_find_back b target i)"

definition kv_find_append :: "kvbuffer \<Rightarrow> u64 \<Rightarrow> int \<times> bool" where
  "kv_find_append b target =
     (case kv_find_back b target (entries b) of
        Some i \<Rightarrow> (int i, True)
      | None \<Rightarrow> (int (entries b), False))"

definition kv_find_le_sorted :: "kvbuffer \<Rightarrow> u64 \<Rightarrow> int \<times> bool" where
  "kv_find_le_sorted b target = find_le_loop (\<lambda>i. kv_key b i target) target 0 (entries b)"

fun kv_find_le_scan :: "kvbuffer \<Rightarrow> u64 \<Rightarrow> nat list \<Rightarrow> int \<Rightarrow> u64 \<Rightarrow> int \<times> bool" where
  "kv_find_le_scan b target [] index max_smaller_key = (index, False)"
| "kv_find_le_scan b target (i # is) index max_smaller_key =
     (let cur_key = kv_key b i target in
      if cur_key = target then (int i, True)
      else if cur_key < target \<and> max_smaller_key < cur_key
        then kv_find_le_scan b target is (int i) cur_key
      else kv_find_le_scan b target is index max_smaller_key)"

definition kv_find_le_append :: "kvbuffer \<Rightarrow> u64 \<Rightarrow> int \<times> bool" where
  "kv_find_le_append b target = kv_find_le_scan b target [0..<entries b] (-1) 0"

subsection \<open>Updates\<close>

definition kv_clear :: "kvbuffer \<Rightarrow> kvbuffer" where
  "kv_clear b = b\<lparr>entries := 0\<rparr>"

definition kv_put_append :: "kvbuffer \<Rightarrow> nat \<Rightarrow> u64 \<Rightarrow> u64 \<Rightarrow> kvbuffer" where
  "kv_put_append b pos new_key value =
     (let buf1 = put_key (suffix_bytes b) (kv_buf b) pos new_key;
          buf2 = put_value kv_value_size buf1 pos value
      in b\<lparr>kv_buf := buf2, entries := bits4 (int (entries b) + 1)\<rparr>)"

definition kv_put_sorted :: "kvbuffer \<Rightarrow> nat \<Rightarrow> u64 \<Rightarrow> u64 \<Rightarrow> kvbuffer" where
  "kv_put_sorted b pos new_key value =
     (let n = entries b;
          buf1 = memmove (kv_buf b) (kv_pkey b (pos + 1)) (kv_pkey b pos) (suffix_bytes b * (n - pos));
          buf2 = (if n = 0 then buf1
                  else memmove buf1 (kv_pvalue n) (kv_pvalue (n - 1)) (kv_value_size * (n - pos)));
          buf3 = put_value kv_value_size buf2 pos value;
          buf4 = put_key (suffix_bytes b) buf3 pos new_key
      in b\<lparr>kv_buf := buf4, entries := bits4 (int n + 1)\<rparr>)"

definition kv_update :: "kvbuffer \<Rightarrow> nat \<Rightarrow> u64 \<Rightarrow> kvbuffer" where
  "kv_update b pos value = b\<lparr>kv_buf := put_value kv_value_size (kv_buf b) pos value\<rparr>"

text \<open>The assertion \<^verbatim>\<open>pos < entries && pos >= 0\<close> of the sorted variant is the \<open>None\<close> branch.
  When the last pair is deleted the two moves have length 0, and \<^verbatim>\<open>pvalue(entries-2)\<close> is
  not used.\<close>

definition kv_delete_sorted :: "kvbuffer \<Rightarrow> nat \<Rightarrow> kvbuffer option" where
  "kv_delete_sorted b pos =
     (if pos < entries b then
        let n = entries b;
            buf1 = memmove (kv_buf b) (kv_pkey b pos) (kv_pkey b (pos + 1)) (suffix_bytes b * (n - pos - 1));
            buf2 = (if n - pos - 1 = 0 then buf1
                    else memmove buf1 (kv_pvalue (n - 2)) (kv_pvalue (n - 1)) (kv_value_size * (n - pos - 1)))
        in Some (b\<lparr>kv_buf := buf2, entries := n - 1\<rparr>)
      else None)"

definition kv_delete_append :: "kvbuffer \<Rightarrow> nat \<Rightarrow> kvbuffer" where
  "kv_delete_append b pos =
     (let n = entries b;
          buf = (if int pos \<noteq> int n - 1 then
                   let buf1 = memmove (kv_buf b) (kv_pkey b pos) (kv_pkey b (n - 1)) (suffix_bytes b)
                   in memmove buf1 (kv_pvalue pos) (kv_pvalue (n - 1)) kv_value_size
                 else kv_buf b)
      in b\<lparr>kv_buf := buf, entries := bits4 (int n - 1)\<rparr>)"

subsection \<open>Moving and copying runs of pairs\<close>

text \<open>\<^verbatim>\<open>MoveData\<close> of the sorted variant: the pairs from \<open>start_pos\<close> on go to the front of
  \<open>dest\<close>; the result is the source and the destination.\<close>

definition kv_move_data :: "kvbuffer \<Rightarrow> kvbuffer \<Rightarrow> nat \<Rightarrow> kvbuffer \<times> kvbuffer" where
  "kv_move_data b dest start_pos =
     (let c = entries b - start_pos;
          d1 = memcpy (kv_buf dest) (kv_pkey dest 0)
                 (read_bytes (kv_buf b) (kv_pkey b start_pos) (suffix_bytes b * c));
          d2 = (if c = 0 then d1 else memcpy d1 (kv_pvalue (c - 1))
                 (read_bytes (kv_buf b) (kv_pvalue (start_pos + c - 1)) (kv_value_size * c)))
      in (b\<lparr>entries := entries b - c\<rparr>, dest\<lparr>kv_buf := d2, entries := bits4 (int c)\<rparr>))"

text \<open>\<^verbatim>\<open>GetSortedIndex\<close>: the slots in key order.  For one-byte suffixes the code compares the
  bytes of the array directly, else the keys with prefix 0.  \<^verbatim>\<open>std::sort\<close> is some sort; on
  pairwise distinct keys its result is the one of the (stable) library sort.\<close>

definition kv_get_sorted_index :: "kvbuffer \<Rightarrow> nat list" where
  "kv_get_sorted_index b =
     (if suffix_bytes b = 1
      then sort_key (\<lambda>i. ucast (byte_at (kv_buf b) i) :: u64) [0..<entries b]
      else sort_key (\<lambda>i. kv_key b i 0) [0..<entries b])"

fun kv_copy_loop :: "kvbuffer \<Rightarrow> nat list \<Rightarrow> nat \<Rightarrow> bytes \<Rightarrow> nat \<Rightarrow> bytes" where
  "kv_copy_loop b [] i d dsuffix = d"
| "kv_copy_loop b (src # srcs) i d dsuffix =
     (let d1 = memcpy d (pkey dsuffix i) (read_bytes (kv_buf b) (kv_pkey b src) (suffix_bytes b));
          d2 = memcpy d1 (kv_pvalue i) (read_bytes (kv_buf b) (kv_pvalue src) kv_value_size)
      in kv_copy_loop b srcs (i + 1) d2 dsuffix)"

definition kv_copy_data :: "kvbuffer \<Rightarrow> kvbuffer \<Rightarrow> nat \<Rightarrow> nat list \<Rightarrow> kvbuffer" where
  "kv_copy_data b dest start_pos sorted_index =
     dest\<lparr>kv_buf := kv_copy_loop b (drop start_pos (take (entries b) sorted_index)) 0
                      (kv_buf dest) (suffix_bytes dest),
          entries := bits4 (int (entries b) - int start_pos)\<rparr>"

definition kv_delete_data :: "kvbuffer \<Rightarrow> nat \<Rightarrow> nat list \<Rightarrow> kvbuffer" where
  "kv_delete_data b start_pos sorted_index =
     (let index = sort (take (entries b - start_pos) (drop start_pos sorted_index))
      in foldl kv_delete_append b (rev index))"

subsection \<open>Invariant and abstraction\<close>

definition kv_wf :: "kvbuffer \<Rightarrow> bool" where
  "kv_wf b \<longleftrightarrow> length (kv_buf b) = kv_buf_size \<and> prefix_bytes b + suffix_bytes b = 8 \<and>
     0 < suffix_bytes b \<and> max_entries b = kv_max_entries b \<and> entries b \<le> max_entries b"

definition kv_items :: "u64 \<Rightarrow> kvbuffer \<Rightarrow> kv list" where
  "kv_items p b = map (\<lambda>i. (kv_key b i p, kv_value b i)) [0..<entries b]"

lemma length_kv_items [simp]: "length (kv_items p b) = entries b"
  by (simp add: kv_items_def)

lemma nth_kv_items: "i < entries b \<Longrightarrow> kv_items p b ! i = (kv_key b i p, kv_value b i)"
  by (simp add: kv_items_def)

lemma kv_wf_room [layout]:
  assumes "kv_wf b" "\<not> kv_full b"
  shows "max_entries b * (suffix_bytes b + kv_value_size) \<le> length (kv_buf b)"
    "entries b < max_entries b" "max_entries b < 16" "bits4 (int (entries b) + 1) = entries b + 1"
proof -
  show 1: "max_entries b * (suffix_bytes b + kv_value_size) \<le> length (kv_buf b)"
    using assms by (simp add: kv_wf_def kv_max_entries_def add.commute)
  show 2: "entries b < max_entries b" using assms(2) by (simp add: kv_full_def)
  have "max_entries b * 9 \<le> max_entries b * (suffix_bytes b + kv_value_size)"
    using assms by (intro mult_le_mono2) (simp add: kv_wf_def kv_value_size_def)
  with 1 have "max_entries b * 9 \<le> length (kv_buf b)" by (rule order_trans[rotated])
  with assms(1) show 3: "max_entries b < 16" by (simp add: kv_wf_def kv_buf_size_def)
  show "bits4 (int (entries b) + 1) = entries b + 1" using 2 3 by (simp add: bits4_def)
qed

lemma kv_wf_areas:
  assumes "kv_wf b" "i < max_entries b" "j < max_entries b"
  shows "(i + 1) * suffix_bytes b \<le> length (kv_buf b) - (j + 1) * 8"
    "(i + 1) * suffix_bytes b \<le> length (kv_buf b)" "(j + 1) * 8 \<le> length (kv_buf b)"
proof -
  have "max_entries b * (suffix_bytes b + 8) \<le> length (kv_buf b)"
    using assms(1) by (simp add: kv_wf_def kv_max_entries_def kv_value_size_def add.commute)
  from areas_disjoint[OF this assms(2,3)]
  show "(i + 1) * suffix_bytes b \<le> length (kv_buf b) - (j + 1) * 8"
    "(i + 1) * suffix_bytes b \<le> length (kv_buf b)" "(j + 1) * 8 \<le> length (kv_buf b)" by blast+
qed

text \<open>In-bounds: no store of a well-formed buffer with room leaves the array.\<close>

lemma kv_stores_in_bounds:
  assumes "kv_wf b" "\<not> kv_full b" "pos \<le> entries b"
  shows "kv_pkey b pos + suffix_bytes b \<le> kv_pvalue pos" "kv_pvalue pos + kv_value_size \<le> kv_buf_size"
proof -
  have "pos < max_entries b" using assms kv_wf_room[OF assms(1,2)] by linarith
  note a = kv_wf_areas[OF assms(1) this this]
  have L: "length (kv_buf b) = 112" using assms(1) by (simp add: kv_wf_def kv_buf_size_def)
  show "kv_pkey b pos + suffix_bytes b \<le> kv_pvalue pos" "kv_pvalue pos + kv_value_size \<le> kv_buf_size"
    using a L by (auto simp: kv_pkey_def pkey_def kv_pvalue_def pvalue_def kv_buf_size_def kv_value_size_def)
qed

subsection \<open>The append variant\<close>

lemma kv_put_append_refines:
  assumes "kv_wf b" "\<not> kv_full b" "same_prefix (prefix_bytes b) p k"
  shows "kv_wf (kv_put_append b (entries b) k v)"
    "kv_items p (kv_put_append b (entries b) k v) = kv_items p b @ [(k, v)]"
proof -
  let ?n = "entries b" and ?sb = "suffix_bytes b" and ?pb = "prefix_bytes b"
  let ?b1 = "put_key ?sb (kv_buf b) ?n k"
  let ?b2 = "put_value 8 ?b1 ?n v"
  note room = kv_wf_room[OF assms(1,2)]
  have w: "?pb + ?sb = 8" "?sb \<le> 8" using assms(1) by (auto simp: kv_wf_def)
  have put: "kv_put_append b ?n k v = b\<lparr>kv_buf := ?b2, entries := ?n + 1\<rparr>"
    using room(4) by (simp add: kv_put_append_def kv_value_size_def Let_def)
  show "kv_wf (kv_put_append b ?n k v)"
    using assms(1) room(2) unfolding put by (simp add: kv_wf_def kv_max_entries_def)
  note a = kv_wf_areas[OF assms(1)]
  have keys: "slot_key ?pb ?sb ?b2 j p = (if j = ?n then k else slot_key ?pb ?sb (kv_buf b) j p)"
    if "j \<le> ?n" for j
  proof -
    have jm: "j < max_entries b" using that room(2) by simp
    have "slot_key ?pb ?sb ?b2 j p = slot_key ?pb ?sb ?b1 j p"
      using a(1)[OF jm room(2)] by (intro slot_key_put_value[OF w(1)]) simp
    then show ?thesis
      using slot_key_put_key_same[OF w(1) a(2)[OF room(2) room(2)] assms(3)]
        slot_key_put_key_other[OF w(1), of ?n j] by auto
  qed
  have vals: "slot_value 8 ?b2 j = (if j = ?n then v else slot_value 8 (kv_buf b) j)"
    if "j \<le> ?n" for j
  proof (cases "j = ?n")
    case True
    then show ?thesis
      using slot_value_put_value_same[of 8 ?n ?b1 v] a(3)[OF room(2) room(2)] by simp
  next
    case False
    have jm: "j < max_entries b" using that room(2) by simp
    have "slot_value 8 ?b2 j = slot_value 8 ?b1 j"
      using False a(3)[OF jm jm] a(3)[OF room(2) room(2)] by (intro slot_value_put_value_other) auto
    also have "\<dots> = slot_value 8 (kv_buf b) j"
      using a(1)[OF room(2) jm] w(2) by (intro slot_value_put_key) auto
    finally show ?thesis using False by simp
  qed
  show "kv_items p (kv_put_append b ?n k v) = kv_items p b @ [(k, v)]"
    unfolding put using keys vals
    by (simp add: kv_items_def kv_key_def kv_value_def kv_value_size_def)
qed

text \<open>\<^verbatim>\<open>memcmp\<close> on the suffix bytes compares the keys, for a target of the same prefix.\<close>

lemma kv_suffix_eq_iff:
  assumes "kv_wf b" "same_prefix (prefix_bytes b) p t"
  shows "kv_suffix_eq b i t \<longleftrightarrow> kv_key b i p = t"
proof -
  let ?sb = "suffix_bytes b"
  have w: "prefix_bytes b + ?sb = 8" "?sb \<le> 8" using assms(1) by (auto simp: kv_wf_def)
  have "kv_suffix_eq b i t \<longleftrightarrow> (\<forall>m < ?sb. byte_at (kv_buf b) (i * ?sb + m) = bytes_of t ! m)"
    using w by (auto simp: kv_suffix_eq_def list_eq_iff_nth_eq nth_read_bytes kv_pkey_def pkey_def min_def)
  also have "\<dots> \<longleftrightarrow> (\<forall>m < ?sb. \<forall>d < 8. bit (byte_at (kv_buf b) (i * ?sb + m)) d = bit t (8 * m + d))"
    using w by (auto simp: bit_eq_iff[where 'a = u8] bit_bytes_of)
  also have "\<dots> \<longleftrightarrow> (\<forall>n < 8 * ?sb. bit (byte_at (kv_buf b) (i * ?sb + n div 8)) (n mod 8) = bit t n)"
  proof (rule iffI; intro allI impI)
    fix n assume a: "\<forall>m < ?sb. \<forall>d < 8. bit (byte_at (kv_buf b) (i * ?sb + m)) d = bit t (8 * m + d)"
      and n: "n < 8 * ?sb"
    have "n div 8 < ?sb" using n by auto
    moreover have "8 * (n div 8) + n mod 8 = n" by simp
    ultimately show "bit (byte_at (kv_buf b) (i * ?sb + n div 8)) (n mod 8) = bit t n"
      using a by (metis mod_less_divisor zero_less_numeral)
  next
    fix m d :: nat
    assume a: "\<forall>n < 8 * ?sb. bit (byte_at (kv_buf b) (i * ?sb + n div 8)) (n mod 8) = bit t n"
      and m: "m < ?sb" and d: "d < 8"
    have "8 * m + d < 8 * ?sb" "(8 * m + d) div 8 = m" "(8 * m + d) mod 8 = d" using m d by auto
    then show "bit (byte_at (kv_buf b) (i * ?sb + m)) d = bit t (8 * m + d)" using a by metis
  qed
  also have "\<dots> \<longleftrightarrow> kv_key b i p = t"
    using assms(2) w
    by (auto simp: kv_key_def bit_eq_iff[where 'a = u64] bit_slot_key same_prefix_bits)
  finally show ?thesis .
qed

lemma kv_find_back_spec:
  assumes "kv_wf b" "same_prefix (prefix_bytes b) p t"
  shows "(case kv_find_back b t n of
      Some i \<Rightarrow> i < n \<and> kv_key b i p = t \<and> (\<forall>j < n. i < j \<longrightarrow> kv_key b j p \<noteq> t)
    | None \<Rightarrow> \<forall>j < n. kv_key b j p \<noteq> t)"
  by (induction n) (auto simp: kv_suffix_eq_iff[OF assms] less_Suc_eq split: option.splits)

text \<open>The newest pair of a key wins: the abstraction of a lookup reads the item list
  from its end.\<close>

lemma map_of_rev_last:
  assumes "i < length xs" "fst (xs ! i) = k" "\<forall>j < length xs. i < j \<longrightarrow> fst (xs ! j) \<noteq> k"
  shows "map_of (rev xs) k = Some (snd (xs ! i))"
  using assms
proof (induction xs arbitrary: i rule: rev_induct)
  case Nil
  then show ?case by simp
next
  case (snoc x xs)
  show ?case
  proof (cases "i = length xs")
    case True
    then show ?thesis using snoc.prems by (cases x) (auto simp: nth_append)
  next
    case False
    then have i: "i < length xs" using snoc.prems(1) by simp
    have "fst x \<noteq> k" using snoc.prems(3) i by (auto dest!: spec[of _ "length xs"])
    moreover have "fst (xs ! j) \<noteq> k" if "j < length xs" "i < j" for j
      using snoc.prems(3)[rule_format, of j] that by (simp add: nth_append)
    then have "map_of (rev xs) k = Some (snd (xs ! i))"
      using snoc.prems(2) i by (intro snoc.IH) (auto simp: nth_append)
    ultimately show ?thesis using i by (cases x) (auto simp: nth_append)
  qed
qed

lemma kv_find_append_lookup:
  assumes "kv_wf b" "same_prefix (prefix_bytes b) p k"
  shows "map_of (rev (kv_items p b)) k =
    (if snd (kv_find_append b k) then Some (kv_value b (nat (fst (kv_find_append b k)))) else None)"
    and "snd (kv_find_append b k) \<Longrightarrow> nat (fst (kv_find_append b k)) < entries b"
proof -
  note spec = kv_find_back_spec[OF assms, of "entries b"]
  show "map_of (rev (kv_items p b)) k =
    (if snd (kv_find_append b k) then Some (kv_value b (nat (fst (kv_find_append b k)))) else None)"
  proof (cases "kv_find_back b k (entries b)")
    case None
    then have "\<forall>a \<in> set (rev (kv_items p b)). fst a \<noteq> k"
      using spec by (auto simp: kv_items_def)
    from map_of_notin_range[OF this] show ?thesis using None by (simp add: kv_find_append_def)
  next
    case (Some i)
    then show ?thesis
      using spec map_of_rev_last[of i "kv_items p b" k]
      by (simp add: kv_find_append_def nth_kv_items)
  qed
  show "snd (kv_find_append b k) \<Longrightarrow> nat (fst (kv_find_append b k)) < entries b"
    using spec by (auto simp: kv_find_append_def split: option.splits)
qed

text \<open>Deleting a position moves the last pair into it.\<close>

lemma kv_key_memmove_keys:
  assumes "kv_wf b" "d + c \<le> max_entries b" "length buf = kv_buf_size"
  shows "slot_key (prefix_bytes b) (suffix_bytes b)
      (memmove buf (kv_pkey b d) (kv_pkey b s) (suffix_bytes b * c)) j p =
    slot_key (prefix_bytes b) (suffix_bytes b) buf (if d \<le> j \<and> j < d + c then s + (j - d) else j) p"
proof -
  have w: "prefix_bytes b + suffix_bytes b = 8" using assms(1) by (simp add: kv_wf_def)
  have "(d + c) * suffix_bytes b \<le> length buf"
  proof (cases "d + c")
    case 0
    then show ?thesis by simp
  next
    case (Suc m)
    then show ?thesis using kv_wf_areas(2)[OF assms(1), of m m] assms by (simp add: kv_wf_def)
  qed
  from slot_key_move[OF w this] show ?thesis by (simp add: kv_pkey_def)
qed

lemma kv_value_memmove_values:
  assumes "kv_wf b" "0 < c" "d + c \<le> max_entries b" "s + c \<le> max_entries b" "j < max_entries b"
    "length buf = kv_buf_size"
  shows "slot_value 8 (memmove buf (kv_pvalue (d + c - 1)) (kv_pvalue (s + c - 1)) (8 * c)) j =
    slot_value 8 buf (if d \<le> j \<and> j < d + c then s + (j - d) else j)"
proof -
  have a: "(m + 1) * 8 \<le> length buf" if "m < max_entries b" for m
    using kv_wf_areas(3)[OF assms(1) that that] assms(1,6) by (simp add: kv_wf_def)
  have "(d + c) * 8 \<le> length buf" "(s + c) * 8 \<le> length buf"
    using a[of "d + c - 1"] a[of "s + c - 1"] assms(2-4) by auto
  from slot_value_move[OF _ assms(2) this a[OF assms(5)]]
  show ?thesis using assms(6) by (simp add: kv_pvalue_def kv_value_size_def)
qed

lemma kv_value_memmove_keys:
  assumes "kv_wf b" "d + c \<le> max_entries b" "j < max_entries b" "length buf = kv_buf_size"
  shows "slot_value 8 (memmove buf (kv_pkey b d) (kv_pkey b s) (suffix_bytes b * c)) j = slot_value 8 buf j"
  unfolding memmove_def
proof (rule slot_value_memcpy_below)
  show "kv_pkey b d + length (read_bytes buf (kv_pkey b s) (suffix_bytes b * c)) \<le> length buf - (j + 1) * 8"
  proof (cases "d + c")
    case 0
    then show ?thesis by (simp add: kv_pkey_def pkey_def)
  next
    case (Suc m)
    then have "d * suffix_bytes b + suffix_bytes b * c = (m + 1) * suffix_bytes b"
      by (metis Suc_eq_plus1 add_mult_distrib mult.commute)
    then show ?thesis using kv_wf_areas(1)[OF assms(1), of m j] assms Suc
      by (simp add: kv_wf_def kv_pkey_def pkey_def)
  qed
qed simp

lemma kv_key_memmove_values:
  assumes "kv_wf b" "0 < c" "d + c \<le> max_entries b" "j < max_entries b" "length buf = kv_buf_size"
  shows "slot_key (prefix_bytes b) (suffix_bytes b)
      (memmove buf (kv_pvalue (d + c - 1)) off n) j p = slot_key (prefix_bytes b) (suffix_bytes b) buf j p"
  unfolding memmove_def
proof (rule slot_key_memcpy_above)
  show "prefix_bytes b + suffix_bytes b = 8" using assms(1) by (simp add: kv_wf_def)
  have "d + c - 1 < max_entries b" using assms(2,3) by simp
  from kv_wf_areas(1)[OF assms(1,4) this]
  show "(j + 1) * suffix_bytes b \<le> kv_pvalue (d + c - 1)"
    using assms(1,2) by (simp add: kv_pvalue_def pvalue_def kv_value_size_def kv_wf_def)
qed

lemma kv_delete_append_refines:
  assumes "kv_wf b" "pos < entries b"
  shows "kv_wf (kv_delete_append b pos)"
    "kv_items p (kv_delete_append b pos) = butlast ((kv_items p b)[pos := last (kv_items p b)])"
proof -
  let ?n = "entries b" and ?sb = "suffix_bytes b" and ?pb = "prefix_bytes b"
  have n: "0 < ?n" "?n \<le> max_entries b" using assms by (auto simp: kv_wf_def)
  have L: "length (kv_buf b) = kv_buf_size" using assms(1) by (simp add: kv_wf_def)
  have m16: "max_entries b < 16"
  proof -
    have "kv_wf (b\<lparr>entries := 0\<rparr>)" "\<not> kv_full (b\<lparr>entries := 0\<rparr>)"
      using assms(1) n by (auto simp: kv_wf_def kv_full_def kv_max_entries_def)
    from kv_wf_room(3)[OF this] show ?thesis by simp
  qed
  have e: "bits4 (int ?n - 1) = ?n - 1" using n m16 by (simp add: bits4_def)
  define buf where "buf = (if int pos \<noteq> int ?n - 1 then
      memmove (memmove (kv_buf b) (kv_pkey b pos) (kv_pkey b (?n - 1)) ?sb)
        (kv_pvalue pos) (kv_pvalue (?n - 1)) kv_value_size else kv_buf b)"
  have del: "kv_delete_append b pos = b\<lparr>kv_buf := buf, entries := ?n - 1\<rparr>"
    using e by (simp add: kv_delete_append_def buf_def Let_def)
  have lb: "length buf = kv_buf_size" using L by (simp add: buf_def)
  show "kv_wf (kv_delete_append b pos)"
    unfolding del using assms(1) lb by (auto simp: kv_wf_def kv_max_entries_def)
  have slots: "slot_key ?pb ?sb buf j p = slot_key ?pb ?sb (kv_buf b) (if j = pos then ?n - 1 else j) p \<and>
      slot_value 8 buf j = slot_value 8 (kv_buf b) (if j = pos then ?n - 1 else j)" if j: "j < ?n - 1" for j
  proof (cases "int pos \<noteq> int ?n - 1")
    case False
    then have "pos = ?n - 1" by simp
    then have "j \<noteq> pos" using j by simp
    then show ?thesis using False by (simp add: buf_def)
  next
    case True
    let ?b1 = "memmove (kv_buf b) (kv_pkey b pos) (kv_pkey b (?n - 1)) ?sb"
    have jm: "j < max_entries b" "pos + 1 \<le> max_entries b" "?n - 1 + 1 \<le> max_entries b" "0 < (1::nat)"
      using j n assms(2) by auto
    have l1: "length ?b1 = kv_buf_size" using L by simp
    have b: "buf = memmove ?b1 (kv_pvalue pos) (kv_pvalue (?n - 1)) 8"
      using True by (simp add: buf_def kv_value_size_def)
    have "slot_key ?pb ?sb buf j p = slot_key ?pb ?sb ?b1 j p"
      using kv_key_memmove_values[OF assms(1) jm(4,2,1) l1, of "kv_pvalue (?n - 1)" 8] by (simp add: b)
    moreover have "slot_key ?pb ?sb ?b1 j p = slot_key ?pb ?sb (kv_buf b) (if j = pos then ?n - 1 else j) p"
      using kv_key_memmove_keys[OF assms(1) jm(2) L, of "?n - 1" j p] by (auto simp: less_Suc_eq_le)
    moreover have "slot_value 8 buf j = slot_value 8 ?b1 (if j = pos then ?n - 1 else j)"
      using kv_value_memmove_values[OF assms(1) jm(4,2,3,1) l1] by (auto simp: b less_Suc_eq_le)
    moreover have "slot_value 8 ?b1 i = slot_value 8 (kv_buf b) i" if "i < max_entries b" for i
      using kv_value_memmove_keys[OF assms(1) jm(2) that L, of "?n - 1"] by simp
    moreover have "(if j = pos then ?n - 1 else j) < max_entries b" using jm n by auto
    ultimately show ?thesis by simp
  qed
  show "kv_items p (kv_delete_append b pos) = butlast ((kv_items p b)[pos := last (kv_items p b)])"
  proof (rule nth_list_ext)
    show "length (kv_items p (kv_delete_append b pos)) =
        length (butlast ((kv_items p b)[pos := last (kv_items p b)]))" by (simp add: del)
    fix i assume "i < length (butlast ((kv_items p b)[pos := last (kv_items p b)]))"
    then have i: "i < ?n - 1" by simp
    have "last (kv_items p b) = (kv_key b (?n - 1) p, kv_value b (?n - 1))"
      using n by (subst last_conv_nth) (auto simp: nth_kv_items simp flip: length_0_conv)
    then show "kv_items p (kv_delete_append b pos) ! i =
        butlast ((kv_items p b)[pos := last (kv_items p b)]) ! i"
      using slots[OF i] i
      by (auto simp: del kv_items_def kv_key_def kv_value_def kv_value_size_def nth_butlast nth_list_update)
  qed
qed

subsection \<open>The sorted variant\<close>

lemma kv_items_eqI:
  assumes "entries b = length xs"
    and "\<And>i. i < length xs \<Longrightarrow> kv_key b i p = fst (xs ! i) \<and> kv_value b i = snd (xs ! i)"
  shows "kv_items p b = xs"
  using assms by (auto intro!: nth_list_ext simp: nth_kv_items prod_eq_iff)

lemma kv_find_sorted_eq:
  assumes "kv_wf b" "same_prefix (prefix_bytes b) p t"
  shows "kv_find_sorted b t = bsearch (\<lambda>i. kv_key b i p) t 0 (int (entries b) - 1)"
proof -
  have "kv_key b i t = kv_key b i p" for i
    using slot_key_prefix[OF _ same_prefix_sym[OF assms(2)]] assms(1) by (simp add: kv_key_def kv_wf_def)
  then show ?thesis by (simp add: kv_find_sorted_def)
qed

lemma kv_shift_up:
  fixes p :: u64
  assumes "kv_wf b" "\<not> kv_full b" "pos \<le> entries b" "j < max_entries b"
  defines "n \<equiv> entries b"
  defines "buf1 \<equiv> memmove (kv_buf b) (kv_pkey b (pos + 1)) (kv_pkey b pos) (suffix_bytes b * (n - pos))"
  defines "buf2 \<equiv> (if n = 0 then buf1
                  else memmove buf1 (kv_pvalue n) (kv_pvalue (n - 1)) (kv_value_size * (n - pos)))"
  shows "slot_key (prefix_bytes b) (suffix_bytes b) buf2 j p =
      kv_key b (if pos + 1 \<le> j \<and> j \<le> n then j - 1 else j) p"
    and "slot_value 8 buf2 j = kv_value b (if pos + 1 \<le> j \<and> j \<le> n then j - 1 else j)"
    and "length buf2 = kv_buf_size"
proof -
  note room = kv_wf_room[OF assms(1,2)]
  have L: "length (kv_buf b) = kv_buf_size" using assms(1) by (simp add: kv_wf_def)
  have l1: "length buf1 = kv_buf_size" using L by (simp add: buf1_def)
  have idx: "(if pos + 1 \<le> i \<and> i < pos + 1 + (n - pos) then pos + (i - (pos + 1)) else i) =
      (if pos + 1 \<le> i \<and> i \<le> n then i - 1 else i)" for i
    using assms(3) by (auto simp: n_def)
  have top: "pos + 1 + (n - pos) \<le> max_entries b" using room(2) assms(3) by (simp add: n_def)
  have k1: "slot_key (prefix_bytes b) (suffix_bytes b) buf1 j p =
      kv_key b (if pos + 1 \<le> j \<and> j \<le> n then j - 1 else j) p"
    using kv_key_memmove_keys[OF assms(1) top L, of pos j p] unfolding idx
    by (simp add: buf1_def kv_key_def)
  have v1: "slot_value 8 buf1 i = slot_value 8 (kv_buf b) i" if "i < max_entries b" for i
    using kv_value_memmove_keys[OF assms(1) top that L, of pos] by (simp add: buf1_def)
  show "length buf2 = kv_buf_size" using l1 by (simp add: buf2_def)
  show "slot_key (prefix_bytes b) (suffix_bytes b) buf2 j p =
      kv_key b (if pos + 1 \<le> j \<and> j \<le> n then j - 1 else j) p"
  proof (cases "n - pos = 0")
    case True
    then have "buf2 = buf1" by (auto simp: buf2_def)
    then show ?thesis using k1 by simp
  next
    case False
    then have c: "0 < n - pos" "n = pos + 1 + (n - pos) - 1" by auto
    show ?thesis using kv_key_memmove_values[OF assms(1) c(1) top assms(4) l1, of _ _ p] k1 c
      by (simp add: buf2_def)
  qed
  show "slot_value 8 buf2 j = kv_value b (if pos + 1 \<le> j \<and> j \<le> n then j - 1 else j)"
  proof (cases "n - pos = 0")
    case True
    then show ?thesis using v1[OF assms(4)]
      by (auto simp: buf2_def kv_value_def kv_value_size_def n_def)
  next
    case False
    then have c: "0 < n - pos" "pos + 1 + (n - pos) - 1 = n" "pos + (n - pos) - 1 = n - 1" by auto
    have top': "pos + (n - pos) \<le> max_entries b" using top by simp
    have "slot_value 8 buf2 j = slot_value 8 buf1 (if pos + 1 \<le> j \<and> j \<le> n then j - 1 else j)"
      using kv_value_memmove_values[OF assms(1) c(1) top top' assms(4) l1] c
      unfolding idx by (simp add: buf2_def kv_value_size_def)
    moreover have "(if pos + 1 \<le> j \<and> j \<le> n then j - 1 else j) < max_entries b"
      using assms(4) by auto
    ultimately show ?thesis using v1 by (simp add: kv_value_def kv_value_size_def)
  qed
qed

lemma kv_put_sorted_refines:
  assumes "kv_wf b" "\<not> kv_full b" "same_prefix (prefix_bytes b) p k" "pos \<le> entries b"
  shows "kv_wf (kv_put_sorted b pos k v)"
    "kv_items p (kv_put_sorted b pos k v) = insert_at pos (k, v) (kv_items p b)"
proof -
  let ?n = "entries b" and ?sb = "suffix_bytes b" and ?pb = "prefix_bytes b"
  define b1 where "b1 = memmove (kv_buf b) (kv_pkey b (pos + 1)) (kv_pkey b pos) (?sb * (?n - pos))"
  define b2 where "b2 = (if ?n = 0 then b1
                  else memmove b1 (kv_pvalue ?n) (kv_pvalue (?n - 1)) (kv_value_size * (?n - pos)))"
  define b3 where "b3 = put_value 8 b2 pos v"
  define b4 where "b4 = put_key ?sb b3 pos k"
  note room = kv_wf_room[OF assms(1,2)]
  have w: "?pb + ?sb = 8" "?sb \<le> 8" using assms(1) by (auto simp: kv_wf_def)
  have L: "length (kv_buf b) = kv_buf_size" using assms(1) by (simp add: kv_wf_def)
  have put: "kv_put_sorted b pos k v = b\<lparr>kv_buf := b4, entries := ?n + 1\<rparr>"
    using room(4) by (simp add: kv_put_sorted_def kv_value_size_def Let_def b1_def b2_def b3_def b4_def)
  have pm: "pos < max_entries b" using assms(4) room(2) by simp
  note up = kv_shift_up[OF assms(1,2,4), folded b1_def, folded b2_def]
  have l2: "length b2 = kv_buf_size" using up(3)[OF pm] .
  then have l3: "length b3 = kv_buf_size" and l4: "length b4 = kv_buf_size"
    by (simp_all add: b3_def b4_def)
  show "kv_wf (kv_put_sorted b pos k v)"
    using assms(1) room(2) l4 unfolding put by (simp add: kv_wf_def kv_max_entries_def)
  note a = kv_wf_areas[OF assms(1), unfolded L]
  have keys: "slot_key ?pb ?sb b4 j p =
      (if j < pos then kv_key b j p else if j = pos then k else kv_key b (j - 1) p)"
    if "j \<le> ?n" for j
  proof -
    have jm: "j < max_entries b" using that room(2) by simp
    have "slot_key ?pb ?sb b4 j p = (if j = pos then k else slot_key ?pb ?sb b3 j p)"
      using slot_key_put_key_same[OF w(1) _ assms(3), of pos b3] a(2)[OF pm pm] l3
        slot_key_put_key_other[OF w(1), of pos j] by (auto simp: b4_def)
    moreover have "slot_key ?pb ?sb b3 j p = slot_key ?pb ?sb b2 j p"
      unfolding b3_def using a(1)[OF jm pm] l2 by (intro slot_key_put_value[OF w(1)]) simp
    ultimately show ?thesis using up(1)[OF jm, of p] that by auto
  qed
  have vals: "slot_value 8 b4 j =
      (if j < pos then kv_value b j else if j = pos then v else kv_value b (j - 1))"
    if "j \<le> ?n" for j
  proof -
    have jm: "j < max_entries b" using that room(2) by simp
    have "slot_value 8 b4 j = slot_value 8 b3 j"
      unfolding b4_def using a(1)[OF pm jm] w(2) l3 by (intro slot_value_put_key) auto
    moreover have "slot_value 8 b3 j = (if j = pos then v else slot_value 8 b2 j)"
      using slot_value_put_value_same[of 8 pos b2 v] slot_value_put_value_other[of 8 pos j b2 v]
        a(3)[OF pm pm] a(3)[OF jm jm] l2 by (auto simp: b3_def)
    ultimately show ?thesis using up(2)[OF jm] that by auto
  qed
  show "kv_items p (kv_put_sorted b pos k v) = insert_at pos (k, v) (kv_items p b)"
  proof (rule kv_items_eqI)
    fix i assume "i < length (insert_at pos (k, v) (kv_items p b))"
    then have i: "i \<le> ?n" by simp
    show "kv_key (kv_put_sorted b pos k v) i p = fst (insert_at pos (k, v) (kv_items p b) ! i) \<and>
        kv_value (kv_put_sorted b pos k v) i = snd (insert_at pos (k, v) (kv_items p b) ! i)"
      using keys[OF i] vals[OF i] i assms(4)
      by (auto simp: put kv_key_def kv_value_def kv_value_size_def nth_insert_at nth_kv_items)
  qed (simp add: put)
qed

lemma kv_update_refines:
  assumes "kv_wf b" "pos < entries b"
  shows "kv_wf (kv_update b pos v)"
    "kv_items p (kv_update b pos v) = (kv_items p b)[pos := (fst (kv_items p b ! pos), v)]"
proof -
  have w: "prefix_bytes b + suffix_bytes b = 8" using assms(1) by (auto simp: kv_wf_def)
  have em: "entries b \<le> max_entries b" using assms(1) by (simp add: kv_wf_def)
  show "kv_wf (kv_update b pos v)" using assms(1) by (simp add: kv_update_def kv_wf_def kv_max_entries_def)
  note a = kv_wf_areas[OF assms(1)]
  show "kv_items p (kv_update b pos v) = (kv_items p b)[pos := (fst (kv_items p b ! pos), v)]"
  proof (rule kv_items_eqI)
    fix i assume "i < length ((kv_items p b)[pos := (fst (kv_items p b ! pos), v)])"
    then have i: "i < entries b" "i < max_entries b" "pos < max_entries b" using em assms(2) by auto
    have "kv_key (kv_update b pos v) i p = kv_key b i p"
      using a(1)[OF i(2,3)] slot_key_put_value[OF w]
      by (simp add: kv_key_def kv_update_def kv_value_size_def)
    moreover have "kv_value (kv_update b pos v) i = (if i = pos then v else kv_value b i)"
      using slot_value_put_value_same[of 8 pos "kv_buf b" v]
        slot_value_put_value_other[of 8 pos i "kv_buf b" v] a(3)[OF i(2,2)] a(3)[OF i(3,3)]
      by (auto simp: kv_value_def kv_update_def kv_value_size_def)
    ultimately show "kv_key (kv_update b pos v) i p =
          fst ((kv_items p b)[pos := (fst (kv_items p b ! pos), v)] ! i) \<and>
        kv_value (kv_update b pos v) i = snd ((kv_items p b)[pos := (fst (kv_items p b ! pos), v)] ! i)"
      using i(1) by (auto simp: nth_list_update nth_kv_items)
  qed (simp add: kv_update_def)
qed

lemma kv_delete_sorted_refines:
  assumes "kv_wf b" "pos < entries b"
  shows "\<exists>b'. kv_delete_sorted b pos = Some b' \<and> kv_wf b' \<and> prefix_bytes b' = prefix_bytes b \<and>
    kv_items p b' = remove_at pos (kv_items p b)"
proof -
  let ?n = "entries b" and ?sb = "suffix_bytes b" and ?pb = "prefix_bytes b"
  define c where "c = ?n - pos - 1"
  define b1 where "b1 = memmove (kv_buf b) (kv_pkey b pos) (kv_pkey b (pos + 1)) (?sb * c)"
  define b2 where "b2 = (if c = 0 then b1
                    else memmove b1 (kv_pvalue (?n - 2)) (kv_pvalue (?n - 1)) (kv_value_size * c))"
  define b' where "b' = b\<lparr>kv_buf := b2, entries := ?n - 1\<rparr>"
  have del: "kv_delete_sorted b pos = Some b'"
    using assms(2) by (simp add: kv_delete_sorted_def Let_def b1_def b2_def b'_def c_def)
  have L: "length (kv_buf b) = kv_buf_size" and em: "?n \<le> max_entries b"
    using assms(1) by (simp_all add: kv_wf_def)
  have l1: "length b1 = kv_buf_size" and l2: "length b2 = kv_buf_size"
    using L by (simp_all add: b1_def b2_def)
  have wf: "kv_wf b'" using assms l2 by (auto simp: b'_def kv_wf_def kv_max_entries_def)
  have top: "pos + c \<le> max_entries b" "pos + 1 + c \<le> max_entries b" using em assms(2) by (auto simp: c_def)
  have idx: "(if pos \<le> i \<and> i < pos + c then pos + 1 + (i - pos) else i) = (if i < pos then i else Suc i)"
    if "i < ?n - 1" for i
    using that by (auto simp: c_def)
  have slots: "kv_key b' i p = kv_key b (if i < pos then i else Suc i) p \<and>
      kv_value b' i = kv_value b (if i < pos then i else Suc i)" if i: "i < ?n - 1" for i
  proof -
    have im: "i < max_entries b" "(if i < pos then i else Suc i) < max_entries b" using i em by auto
    have k1: "slot_key ?pb ?sb b1 i p = kv_key b (if i < pos then i else Suc i) p"
      using kv_key_memmove_keys[OF assms(1) top(1) L, of "pos + 1" i p] unfolding idx[OF i]
      by (simp add: b1_def kv_key_def)
    have v1: "slot_value 8 b1 m = slot_value 8 (kv_buf b) m" if "m < max_entries b" for m
      using kv_value_memmove_keys[OF assms(1) top(1) that L, of "pos + 1"] by (simp add: b1_def)
    show ?thesis
    proof (cases "c = 0")
      case True
      then have "i < pos" using i by (simp add: c_def)
      then show ?thesis using k1 v1[OF im(1)] True
        by (simp add: b'_def b2_def kv_key_def kv_value_def kv_value_size_def)
    next
      case False
      then have d: "0 < c" "pos + c - 1 = ?n - 2" "pos + 1 + c - 1 = ?n - 1"
        using assms(2) by (auto simp: c_def)
      have "slot_key ?pb ?sb b2 i p = slot_key ?pb ?sb b1 i p"
        using kv_key_memmove_values[OF assms(1) d(1) top(1) im(1) l1, unfolded d(2)] False
        by (simp add: b2_def)
      moreover have "slot_value 8 b2 i = slot_value 8 b1 (if i < pos then i else Suc i)"
        using kv_value_memmove_values[OF assms(1) d(1) top im(1) l1] False
        unfolding idx[OF i] d(2,3) by (simp add: b2_def kv_value_size_def)
      ultimately show ?thesis using k1 v1[OF im(2)]
        by (simp add: b'_def kv_key_def kv_value_def kv_value_size_def)
    qed
  qed
  have "kv_items p b' = remove_at pos (kv_items p b)"
  proof (rule kv_items_eqI)
    show "entries b' = length (remove_at pos (kv_items p b))" using assms(2) by (simp add: b'_def)
    fix i assume "i < length (remove_at pos (kv_items p b))"
    then have i: "i < ?n - 1" using assms(2) by simp
    then show "kv_key b' i p = fst (remove_at pos (kv_items p b) ! i) \<and>
        kv_value b' i = snd (remove_at pos (kv_items p b) ! i)"
      using slots[OF i] assms(2) by (auto simp: nth_remove_at nth_kv_items)
  qed
  then show ?thesis using del wf by (simp add: b'_def)
qed

text \<open>The operations of the sorted variant with the key prefix of the entry that owns the
  buffer; with it the buffer is an ordered node buffer.\<close>

definition kv_sorted :: "u64 \<times> kvbuffer \<Rightarrow> bool" where
  "kv_sorted pb \<longleftrightarrow> kv_wf (snd pb) \<and> keys_sorted (kv_items (fst pb) (snd pb))"

interpretation kv_slots: ordered_slots kv_sorted "\<lambda>pb. entries (snd pb)" "\<lambda>pb i. kv_key (snd pb) i (fst pb)"
proof unfold_locales
  fix s :: "u64 \<times> kvbuffer" and i j
  assume "kv_sorted s" "i < j" "j < entries (snd s)"
  then show "kv_key (snd s) i (fst s) < kv_key (snd s) j (fst s)"
    using keys_sorted_nth[of "kv_items (fst s) (snd s)" i j] by (simp add: kv_sorted_def nth_kv_items)
qed

interpretation kv_ordered: ordered_buffer "\<lambda>pb. kv_wf (snd pb)" "\<lambda>pb. kv_items (fst pb) (snd pb)"
  "\<lambda>pb. \<not> kv_full (snd pb)" "\<lambda>pb kv. same_prefix (prefix_bytes (snd pb)) (fst pb) (fst kv)"
  "\<lambda>pb. kv_find_sorted (snd pb)" "\<lambda>pb. kv_value (snd pb)"
  "\<lambda>pb pos k v. Some (fst pb, kv_put_sorted (snd pb) pos k v)"
  "\<lambda>pb pos v. (fst pb, kv_update (snd pb) pos v)"
  "\<lambda>pb pos. map_option (Pair (fst pb)) (kv_delete_sorted (snd pb) pos)"
proof (unfold_locales, goal_cases)
  case (1 s k v)
  then have "search_result (\<lambda>i. kv_key (snd s) i (fst s)) (entries (snd s)) k (kv_find_sorted (snd s) k)"
    using kv_slots.bsearch_correct[of s k] by (simp add: kv_find_sorted_eq kv_sorted_def)
  then show ?case by (subst search_result_cong) (auto simp: nth_kv_items)
next
  case (2 s p)
  then show ?case by (simp add: nth_kv_items)
next
  case (3 s k v p)
  then show ?case using kv_put_sorted_refines[of "snd s" "fst s" k p v] by auto
next
  case (4 s k v p)
  then show ?case using kv_update_refines(1)[of "snd s" p v] kv_update_refines(2)[of "snd s" p "fst s" v] by simp
next
  case (5 s p)
  then show ?case using kv_delete_sorted_refines[of "snd s" p "fst s"] by auto
qed

end
