(* ===== verification/SortBuffer.thy ===== *)
theory SortBuffer
  imports KVBuffer
begin

text \<open>
  \<^verbatim>\<open>src/sortbuffer.h\<close>: \<^verbatim>\<open>SortBuffer<112, value_size>\<close>, the node buffer of the C-level tree.
  Its slots never move: the key order is a permutation of the twelve slot numbers, kept as
  twelve nibbles above the four 4-bit fields in one 64-bit header word, and an insert or a
  delete only rotates a tail of that word.  The model keeps the header as one word, so the
  rotations are the ones of the code, and shows that on the nibble list they are list
  rotations.  \<open>vs\<close> is the template parameter \<^verbatim>\<open>value_size\<close> (8 in a leaf, 6 in an index node).

  The invariant \<open>sb_wf\<close> holds what the code relies on without saying so: the free slot that
  \<^verbatim>\<open>Put\<close> takes from the last nibble is below \<^verbatim>\<open>max_entries\<close>.  With it the buffer is an
  instance of the locale \<open>ordered_buffer\<close>.
\<close>

subsection \<open>The header word as sixteen nibbles\<close>

definition nib :: "u64 \<Rightarrow> nat \<Rightarrow> nat" where
  "nib w i = unat (take_bit 4 (drop_bit (4 * i) w))"

definition set_nib :: "u64 \<Rightarrow> nat \<Rightarrow> nat \<Rightarrow> u64" where
  "set_nib w i n = (w AND NOT (push_bit (4 * i) (mask 4))) OR push_bit (4 * i) (take_bit 4 (of_nat n))"

text \<open>\<^verbatim>\<open>_bzhi_u64\<close>, and the shifts of a 64-bit operand, whose count the processor takes modulo 64.\<close>

definition bzhi :: "u64 \<Rightarrow> nat \<Rightarrow> u64" where
  "bzhi src n = (if n < 64 then take_bit n src else src)"

definition shl64 :: "u64 \<Rightarrow> nat \<Rightarrow> u64" where
  "shl64 w n = push_bit (n mod 64) w"

definition shr64 :: "u64 \<Rightarrow> nat \<Rightarrow> u64" where
  "shr64 w n = drop_bit (n mod 64) w"

definition circular_lshift :: "u64 \<Rightarrow> nat \<Rightarrow> nat \<Rightarrow> u64" where
  "circular_lshift src start_pos count =
     (let dst = bzhi src start_pos;
          need_rotate = src XOR dst
      in dst OR (shl64 need_rotate count OR shl64 (shr64 need_rotate (64 - count)) start_pos))"

definition circular_rshift :: "u64 \<Rightarrow> nat \<Rightarrow> nat \<Rightarrow> u64" where
  "circular_rshift src start_pos count =
     (let dst = bzhi src start_pos;
          need_rotate = src XOR dst
      in dst OR (shl64 need_rotate (64 - start_pos - count) OR
                 shl64 (shr64 need_rotate (count + start_pos)) start_pos))"

lemma bit_bzhi: "bit (bzhi w n) k \<longleftrightarrow> (k < n \<or> 64 \<le> n) \<and> bit w k"
  by (auto simp: bzhi_def bit_simps)

lemma bit_shl64: "n < 64 \<Longrightarrow> bit (shl64 w n) k \<longleftrightarrow> n \<le> k \<and> k < 64 \<and> bit w (k - n)"
  by (auto simp: shl64_def bit_simps)

lemma bit_shr64: "n < 64 \<Longrightarrow> bit (shr64 w n) k \<longleftrightarrow> bit w (n + k)"
  by (auto simp: shr64_def bit_simps)

lemma word_bit_bound: "bit (w :: u64) k \<Longrightarrow> k < 64"
  using bit_imp_le_length[of w k] by simp

lemma bit_circular_lshift:
  assumes "0 < count" "start_pos + count \<le> 64" "k < 64"
  shows "bit (circular_lshift src start_pos count) k \<longleftrightarrow>
    (if k < start_pos then bit src k
     else if k < start_pos + count then bit src (64 + k - start_pos - count)
     else bit src (k - count))"
proof -
  consider "start_pos = 64" | "start_pos < 64" "count = 64" | "start_pos < 64" "count < 64"
    using assms by linarith
  then show ?thesis
  proof cases
    case 3
    then have c: "64 - count < 64" using assms by simp
    show ?thesis
      unfolding circular_lshift_def Let_def bit_or_iff bit_shl64[OF 3(1)] bit_shl64[OF 3(2)]
        bit_shr64[OF c] bit_xor_iff bit_bzhi
      using assms 3 by (auto dest: word_bit_bound simp: not_less)
  qed (use assms in \<open>auto simp: circular_lshift_def Let_def bit_simps bit_bzhi shl64_def shr64_def\<close>)
qed

text \<open>With \<open>start_pos + count = 64\<close> the code shifts by 64, which C++ leaves undefined; from
  \<open>start_pos = 32\<close> on the surplus bits are shifted out and the result is the rotation anyway.\<close>

lemma bit_circular_rshift:
  assumes "0 < count" "0 < start_pos" "start_pos + count < 64 \<or> start_pos + count = 64 \<and> 32 \<le> start_pos"
    and "k < 64"
  shows "bit (circular_rshift src start_pos count) k \<longleftrightarrow>
    (if k < start_pos then bit src k
     else if k < 64 - count then bit src (k + count)
     else bit src (k - (64 - start_pos - count)))"
proof -
  have s: "start_pos < 64" "64 - start_pos - count < 64" using assms by auto
  note unf = circular_rshift_def Let_def bit_or_iff bit_shl64[OF s(1)] bit_shl64[OF s(2)] bit_xor_iff bit_bzhi
  show ?thesis
  proof (cases "start_pos + count < 64")
    case True
    then have c: "count + start_pos < 64" by simp
    show ?thesis unfolding unf bit_shr64[OF c]
      using assms True by (auto dest: word_bit_bound simp: not_less add.commute)
  next
    case False
    then have e: "start_pos + count = 64" "32 \<le> start_pos" using assms by auto
    have "shr64 w (count + start_pos) = w" for w using e by (simp add: shr64_def add.commute)
    then show ?thesis unfolding unf using assms e by (auto dest: word_bit_bound simp: not_less bit_bzhi bit_xor_iff)
  qed
qed

lemma nib_eq:
  assumes "\<And>d. d < 4 \<Longrightarrow> bit v (4 * i + d) = bit w (4 * j + d)"
  shows "nib v i = nib w j"
proof -
  have "take_bit 4 (drop_bit (4 * i) v) = take_bit 4 (drop_bit (4 * j) w)"
    by (rule bit_word_eqI) (auto simp: bit_simps assms)
  then show ?thesis by (simp add: nib_def)
qed

lemma nib_less: "nib w i < 16"
proof -
  have "unat (take_bit 4 (drop_bit (4 * i) w)) = take_bit 4 (unat (drop_bit (4 * i) w))"
    by (simp add: unsigned_take_bit_eq)
  then show ?thesis by (simp add: nib_def take_bit_eq_mod)
qed

lemma of_nat_take_bit_16: "unat (take_bit 4 (of_nat n :: u64)) = n mod 16"
proof -
  have "unat (take_bit 4 (of_nat n :: u64)) = take_bit 4 (take_bit 64 n)"
    by (simp only: unsigned_take_bit_eq unsigned_of_nat) simp
  then show ?thesis by (simp add: take_bit_eq_mod[where 'a = nat] mod_mod_cancel)
qed

lemma nib_set_nib:
  assumes "i < 16" "j < 16"
  shows "nib (set_nib w i n) j = (if i = j then n mod 16 else nib w j)"
proof (cases "i = j")
  case True
  have "take_bit 4 (drop_bit (4 * i) (set_nib w i n)) = take_bit 4 (of_nat n)"
    using assms by (intro bit_word_eqI) (auto simp: set_nib_def bit_simps)
  then show ?thesis using True by (simp add: nib_def of_nat_take_bit_16)
next
  case False
  have "nib (set_nib w i n) j = nib w j"
  proof (rule nib_eq)
    fix d :: nat assume d: "d < 4"
    consider "i < j" | "j < i" using False by linarith
    then show "bit (set_nib w i n) (4 * j + d) = bit w (4 * j + d)"
      using d by cases (auto simp: set_nib_def bit_simps  dest: word_bit_bound)
  qed
  then show ?thesis using False by simp
qed

lemma nib_lshift:
  assumes "0 < c" "s + c \<le> 16" "i < 16"
  shows "nib (circular_lshift w (4 * s) (4 * c)) i =
    nib w (if i < s then i else if i < s + c then 16 + i - s - c else i - c)"
proof (rule nib_eq)
  fix d :: nat assume "d < 4"
  then show "bit (circular_lshift w (4 * s) (4 * c)) (4 * i + d) =
      bit w (4 * (if i < s then i else if i < s + c then 16 + i - s - c else i - c) + d)"
    using assms by (subst bit_circular_lshift) (auto simp: diff_mult_distrib2 algebra_simps intro!: arg_cong[of _ _ "bit w"])
qed

lemma nib_rshift:
  assumes "0 < c" "0 < s" "s + c < 16 \<or> s + c = 16 \<and> 8 \<le> s" "i < 16"
  shows "nib (circular_rshift w (4 * s) (4 * c)) i =
    nib w (if i < s then i else if i < 16 - c then i + c else i - (16 - s - c))"
proof (rule nib_eq)
  fix d :: nat assume "d < 4"
  then show "bit (circular_rshift w (4 * s) (4 * c)) (4 * i + d) =
      bit w (4 * (if i < s then i else if i < 16 - c then i + c else i - (16 - s - c)) + d)"
    using assms by (subst bit_circular_rshift) (auto simp: diff_mult_distrib2 algebra_simps intro!: arg_cong[of _ _ "bit w"])
qed

subsection \<open>The buffer\<close>

record sortbuffer =
  header :: u64
  sb_buf :: bytes

definition sb_prefix_bytes :: "sortbuffer \<Rightarrow> nat" where "sb_prefix_bytes b = nib (header b) 0"
definition sb_suffix_bytes :: "sortbuffer \<Rightarrow> nat" where "sb_suffix_bytes b = nib (header b) 1"
definition sb_entries :: "sortbuffer \<Rightarrow> nat" where "sb_entries b = nib (header b) 2"
definition sb_max_entries :: "sortbuffer \<Rightarrow> nat" where "sb_max_entries b = nib (header b) 3"

definition sb_set_entries :: "sortbuffer \<Rightarrow> nat \<Rightarrow> sortbuffer" where
  "sb_set_entries b n = b\<lparr>header := set_nib (header b) 2 n\<rparr>"

definition fresh_header :: u64 where "fresh_header = 0x0123456789AB0000"

definition sb_MaxEntries :: "nat \<Rightarrow> sortbuffer \<Rightarrow> nat" where
  "sb_MaxEntries vs b = kv_buf_size div (vs + sb_suffix_bytes b)"

definition sb_full :: "sortbuffer \<Rightarrow> bool" where
  "sb_full b \<longleftrightarrow> sb_entries b \<ge> sb_max_entries b"

definition sb_empty :: "sortbuffer \<Rightarrow> bool" where
  "sb_empty b \<longleftrightarrow> sb_entries b = 0"

definition sb_pkey :: "sortbuffer \<Rightarrow> nat \<Rightarrow> nat" where
  "sb_pkey b idx = pkey (sb_suffix_bytes b) idx"

definition sb_pvalue :: "nat \<Rightarrow> nat \<Rightarrow> nat" where
  "sb_pvalue vs idx = pvalue kv_buf_size vs idx"

definition sb_key :: "sortbuffer \<Rightarrow> nat \<Rightarrow> u64 \<Rightarrow> u64" where
  "sb_key b idx key_prefix = slot_key (sb_prefix_bytes b) (sb_suffix_bytes b) (sb_buf b) idx key_prefix"

definition sb_value :: "nat \<Rightarrow> sortbuffer \<Rightarrow> nat \<Rightarrow> u64" where
  "sb_value vs b idx = slot_value vs (sb_buf b) idx"

text \<open>\<^verbatim>\<open>_bextr_u64(header, 16+sorted_idx*4, 4)\<close>\<close>

definition sb_index :: "sortbuffer \<Rightarrow> nat \<Rightarrow> nat" where
  "sb_index b sorted_idx = nib (header b) (4 + sorted_idx)"

definition sb_sort_key :: "sortbuffer \<Rightarrow> nat \<Rightarrow> u64 \<Rightarrow> u64" where
  "sb_sort_key b sorted_idx key_prefix = sb_key b (sb_index b sorted_idx) key_prefix"

definition sb_sort_value :: "nat \<Rightarrow> sortbuffer \<Rightarrow> nat \<Rightarrow> u64" where
  "sb_sort_value vs b sorted_idx = sb_value vs b (sb_index b sorted_idx)"

definition sb_find :: "sortbuffer \<Rightarrow> u64 \<Rightarrow> int \<times> bool" where
  "sb_find b target = bsearch (\<lambda>i. sb_sort_key b i target) target 0 (int (sb_entries b) - 1)"

definition sb_find_le :: "sortbuffer \<Rightarrow> u64 \<Rightarrow> int \<times> bool" where
  "sb_find_le b target = find_le_loop (\<lambda>i. sb_sort_key b i target) target 0 (sb_entries b)"

definition sb_clear :: "sortbuffer \<Rightarrow> sortbuffer" where
  "sb_clear b = sb_set_entries (b\<lparr>header := (header b AND 0xFFFF) OR fresh_header\<rparr>) 0"

text \<open>The two stores into a slot that \<^verbatim>\<open>Put\<close> does.\<close>

definition sb_store :: "nat \<Rightarrow> sortbuffer \<Rightarrow> nat \<Rightarrow> u64 \<Rightarrow> u64 \<Rightarrow> sortbuffer" where
  "sb_store vs b idx new_key value =
     b\<lparr>sb_buf := put_key (sb_suffix_bytes b) (put_value vs (sb_buf b) idx value) idx new_key\<rparr>"

definition sb_put :: "nat \<Rightarrow> sortbuffer \<Rightarrow> nat \<Rightarrow> u64 \<Rightarrow> u64 \<Rightarrow> sortbuffer option" where
  "sb_put vs b pos new_key value =
     (let target_idx = sb_index b 11 in
      if target_idx < sb_max_entries b then
        let b1 = sb_store vs b target_idx new_key value;
            b2 = b1\<lparr>header := circular_lshift (header b1) (16 + 4 * pos) 4\<rparr>
        in Some (sb_set_entries b2 (sb_entries b2 + 1))
      else None)"

definition sb_update :: "nat \<Rightarrow> sortbuffer \<Rightarrow> nat \<Rightarrow> u64 \<Rightarrow> sortbuffer" where
  "sb_update vs b pos value = b\<lparr>sb_buf := put_value vs (sb_buf b) (sb_index b pos) value\<rparr>"

definition sb_delete :: "sortbuffer \<Rightarrow> nat \<Rightarrow> sortbuffer" where
  "sb_delete b pos =
     (let b1 = b\<lparr>header := circular_rshift (header b) (16 + 4 * pos) 4\<rparr>
      in sb_set_entries b1 (sb_entries b1 - 1))"

text \<open>\<^verbatim>\<open>CopyData\<close>: the pairs at sorted positions \<open>start_pos\<close> on, written to the slots of \<open>dest\<close>
  from \<open>entries - 1 - start_pos\<close> down; then the free tail of \<open>dest\<close> is rotated to the front.\<close>

fun sb_copy_loop :: "nat \<Rightarrow> sortbuffer \<Rightarrow> sortbuffer \<Rightarrow> nat list \<Rightarrow> sortbuffer" where
  "sb_copy_loop vs b dest [] = dest"
| "sb_copy_loop vs b dest (i # is) =
     (let slot = sb_entries b - 1 - i;
          d1 = memcpy (sb_buf dest) (sb_pkey dest slot)
                 (read_bytes (sb_buf b) (sb_pkey b (sb_index b i)) (sb_suffix_bytes b));
          d2 = memcpy d1 (sb_pvalue vs slot) (read_bytes (sb_buf b) (sb_pvalue vs (sb_index b i)) vs)
      in sb_copy_loop vs b (dest\<lparr>sb_buf := d2\<rparr>) is)"

definition sb_copy_data :: "nat \<Rightarrow> sortbuffer \<Rightarrow> sortbuffer \<Rightarrow> nat \<Rightarrow> sortbuffer" where
  "sb_copy_data vs b dest start_pos =
     (let d1 = sb_copy_loop vs b dest [start_pos..<sb_entries b];
          d2 = sb_set_entries d1 (sb_entries b - start_pos)
      in d2\<lparr>header := circular_lshift (header d2) 16 (4 * sb_entries d2)\<rparr>)"

definition sb_delete_data :: "sortbuffer \<Rightarrow> nat \<Rightarrow> sortbuffer" where
  "sb_delete_data b start_pos =
     sb_set_entries
       (b\<lparr>header := circular_rshift (header b) (16 + 4 * start_pos) (4 * (sb_entries b - start_pos))\<rparr>)
       start_pos"

text \<open>\<^verbatim>\<open>FromKVBuffer\<close> of both build variants; the last step writes the six bytes of
  \<^verbatim>\<open>sorted_index\<close> and leaves the low 16 bits of the header.\<close>

definition push_nibbles :: "u64 \<Rightarrow> nat list \<Rightarrow> u64" where
  "push_nibbles w is = foldl (\<lambda>acc i. push_bit 4 acc OR of_nat i) w is"

definition sb_from_kv :: "nat list \<Rightarrow> sortbuffer \<Rightarrow> kvbuffer \<Rightarrow> sortbuffer" where
  "sb_from_kv nibbles b kvb =
     (let b1 = sb_set_entries b (entries kvb);
          b2 = b1\<lparr>sb_buf := kv_buf kvb\<rparr>;
          new_sorted_index = push_nibbles 0 nibbles
      in b2\<lparr>header := take_bit 16 (header b2) OR push_bit 16 new_sorted_index\<rparr>)"

definition sb_from_kvbuffer :: "sortbuffer \<Rightarrow> kvbuffer \<Rightarrow> sortbuffer" where
  "sb_from_kvbuffer b kvb = sb_from_kv ([entries kvb..<12] @ rev (kv_get_sorted_index kvb)) b kvb"

definition sb_from_kvbuffer_sorted :: "sortbuffer \<Rightarrow> kvbuffer \<Rightarrow> sortbuffer" where
  "sb_from_kvbuffer_sorted b kvb = sb_from_kv (rev [0..<entries kvb]) b kvb"

subsection \<open>Invariant and abstraction\<close>

definition sb_perm :: "sortbuffer \<Rightarrow> nat list" where
  "sb_perm b = map (sb_index b) [0..<12]"

definition sb_wf :: "nat \<Rightarrow> sortbuffer \<Rightarrow> bool" where
  "sb_wf vs b \<longleftrightarrow> vs \<le> 8 \<and> length (sb_buf b) = kv_buf_size \<and>
     sb_prefix_bytes b + sb_suffix_bytes b = 8 \<and> 0 < sb_suffix_bytes b \<and>
     sb_max_entries b * (sb_suffix_bytes b + vs) \<le> kv_buf_size \<and> sb_max_entries b \<le> 12 \<and>
     sb_entries b \<le> sb_max_entries b \<and> distinct (sb_perm b) \<and> set (sb_perm b) = {0..<12} \<and>
     (\<forall>j < 12 - sb_max_entries b. sb_perm b ! (sb_entries b + j) = 11 - j)"

definition sb_items :: "nat \<Rightarrow> u64 \<Rightarrow> sortbuffer \<Rightarrow> kv list" where
  "sb_items vs p b = map (\<lambda>i. (sb_sort_key b i p, sb_sort_value vs b i)) [0..<sb_entries b]"

lemma length_sb_perm [simp]: "length (sb_perm b) = 12"
  by (simp add: sb_perm_def)

lemma nth_sb_perm: "j < 12 \<Longrightarrow> sb_perm b ! j = sb_index b j"
  by (simp add: sb_perm_def)

lemma length_sb_items [simp]: "length (sb_items vs p b) = sb_entries b"
  by (simp add: sb_items_def)

lemma nth_sb_items:
  "i < sb_entries b \<Longrightarrow> sb_items vs p b ! i = (sb_sort_key b i p, sb_sort_value vs b i)"
  by (simp add: sb_items_def)

lemma sb_items_eqI:
  assumes "sb_entries b = length xs"
    and "\<And>i. i < length xs \<Longrightarrow> sb_sort_key b i p = fst (xs ! i) \<and> sb_sort_value vs b i = snd (xs ! i)"
  shows "sb_items vs p b = xs"
  using assms by (auto intro!: nth_list_ext simp: nth_sb_items prod_eq_iff)

text \<open>The four fields and the permutation after each header update.\<close>

lemma sb_set_entries_fields [simp]:
  "sb_entries (sb_set_entries b n) = n mod 16" "sb_prefix_bytes (sb_set_entries b n) = sb_prefix_bytes b"
  "sb_suffix_bytes (sb_set_entries b n) = sb_suffix_bytes b"
  "sb_max_entries (sb_set_entries b n) = sb_max_entries b" "sb_buf (sb_set_entries b n) = sb_buf b"
  by (simp_all add: sb_set_entries_def sb_entries_def sb_prefix_bytes_def sb_suffix_bytes_def
      sb_max_entries_def nib_set_nib)

lemma sb_set_entries_index [simp]: "j < 12 \<Longrightarrow> sb_index (sb_set_entries b n) j = sb_index b j"
  by (simp add: sb_set_entries_def sb_index_def nib_set_nib)

lemma sb_set_entries_perm [simp]: "sb_perm (sb_set_entries b n) = sb_perm b"
  by (simp add: sb_perm_def)

lemma sb_buf_upd_fields [simp]:
  "sb_entries (b\<lparr>sb_buf := x\<rparr>) = sb_entries b" "sb_prefix_bytes (b\<lparr>sb_buf := x\<rparr>) = sb_prefix_bytes b"
  "sb_suffix_bytes (b\<lparr>sb_buf := x\<rparr>) = sb_suffix_bytes b"
  "sb_max_entries (b\<lparr>sb_buf := x\<rparr>) = sb_max_entries b" "sb_index (b\<lparr>sb_buf := x\<rparr>) j = sb_index b j"
  "sb_perm (b\<lparr>sb_buf := x\<rparr>) = sb_perm b"
  by (simp_all add: sb_entries_def sb_prefix_bytes_def sb_suffix_bytes_def
      sb_max_entries_def sb_index_def sb_perm_def)

lemma sb_lshift_fields:
  fixes b :: sortbuffer
  assumes "0 < c" "p + c \<le> 12"
  defines "b' \<equiv> b\<lparr>header := circular_lshift (header b) (16 + 4 * p) (4 * c)\<rparr>"
  shows "sb_entries b' = sb_entries b" "sb_prefix_bytes b' = sb_prefix_bytes b"
    "sb_suffix_bytes b' = sb_suffix_bytes b" "sb_max_entries b' = sb_max_entries b"
    "j < 12 \<Longrightarrow> sb_index b' j =
      sb_index b (if j < p then j else if j < p + c then 12 + j - p - c else j - c)"
proof -
  have s: "16 + 4 * p = 4 * (4 + p)" by simp
  have n: "nib (header b') i =
      nib (header b) (if i < 4 + p then i else if i < 4 + p + c then 16 + i - (4 + p) - c else i - c)"
    if "i < 16" for i
    using nib_lshift[of c "4 + p" i] assms(1,2) that unfolding b'_def s by simp
  show "sb_entries b' = sb_entries b" "sb_prefix_bytes b' = sb_prefix_bytes b"
    "sb_suffix_bytes b' = sb_suffix_bytes b" "sb_max_entries b' = sb_max_entries b"
    by (simp_all add: sb_entries_def sb_prefix_bytes_def sb_suffix_bytes_def sb_max_entries_def n)
  show "sb_index b' j =
      sb_index b (if j < p then j else if j < p + c then 12 + j - p - c else j - c)" if "j < 12"
    using n[of "4 + j"] that assms(1,2) by (auto simp: sb_index_def intro!: arg_cong[of _ _ "nib (header b)"])
qed

lemma sb_rshift_fields:
  fixes b :: sortbuffer
  assumes "0 < c" "p + c < 12 \<or> p + c = 12 \<and> 4 \<le> p"
  defines "b' \<equiv> b\<lparr>header := circular_rshift (header b) (16 + 4 * p) (4 * c)\<rparr>"
  shows "sb_entries b' = sb_entries b" "sb_prefix_bytes b' = sb_prefix_bytes b"
    "sb_suffix_bytes b' = sb_suffix_bytes b" "sb_max_entries b' = sb_max_entries b"
    "j < 12 \<Longrightarrow> sb_index b' j =
      sb_index b (if j < p then j else if j < 12 - c then j + c else j - (12 - p - c))"
proof -
  have s: "16 + 4 * p = 4 * (4 + p)" by simp
  have n: "nib (header b') i =
      nib (header b) (if i < 4 + p then i else if i < 16 - c then i + c else i - (16 - (4 + p) - c))"
    if "i < 16" for i
    using nib_rshift[of c "4 + p" i] assms(1,2) that unfolding b'_def s by auto
  show "sb_entries b' = sb_entries b" "sb_prefix_bytes b' = sb_prefix_bytes b"
    "sb_suffix_bytes b' = sb_suffix_bytes b" "sb_max_entries b' = sb_max_entries b"
    by (simp_all add: sb_entries_def sb_prefix_bytes_def sb_suffix_bytes_def sb_max_entries_def n)
  show "sb_index b' j =
      sb_index b (if j < p then j else if j < 12 - c then j + c else j - (12 - p - c))" if "j < 12"
    using n[of "4 + j"] that assms(1,2) by (auto simp: sb_index_def intro!: arg_cong[of _ _ "nib (header b)"])
qed

lemma sb_header_upd_buf [simp]: "sb_buf (b\<lparr>header := h\<rparr>) = sb_buf b"
  by simp

text \<open>What the invariant says of a used slot and of the slot that \<^verbatim>\<open>Put\<close> takes.\<close>

lemma sb_index_inj:
  assumes "sb_wf vs b" "i < 12" "j < 12" "sb_index b i = sb_index b j"
  shows "i = j"
  using assms nth_eq_iff_index_eq[of "sb_perm b" i j] by (simp add: sb_wf_def nth_sb_perm)

lemma sb_index_lt12: "sb_wf vs b \<Longrightarrow> j < 12 \<Longrightarrow> sb_index b j < 12"
  using nth_mem[of j "sb_perm b"] by (auto simp: sb_wf_def nth_sb_perm)

lemma sb_index_lt_max:
  assumes "sb_wf vs b" "j < 12" "j < sb_entries b \<or> sb_entries b + (12 - sb_max_entries b) \<le> j"
  shows "sb_index b j < sb_max_entries b"
proof (rule ccontr)
  assume c: "\<not> sb_index b j < sb_max_entries b"
  define d where "d = 11 - sb_index b j"
  have i12: "sb_index b j < 12" using sb_index_lt12[OF assms(1,2)] .
  then have d: "d < 12 - sb_max_entries b" using c by (simp add: d_def)
  have e: "sb_entries b + d < 12" using d assms(1) by (auto simp: sb_wf_def)
  have "sb_index b (sb_entries b + d) = 11 - d"
    using assms(1) d e by (metis nth_sb_perm sb_wf_def)
  also have "\<dots> = sb_index b j" using i12 by (simp add: d_def)
  finally have "sb_entries b + d = j" using sb_index_inj[OF assms(1) e assms(2)] by simp
  then show False using assms(3) d by auto
qed

lemma sb_used_slot:
  assumes "sb_wf vs b" "j < sb_entries b"
  shows "sb_index b j < sb_max_entries b" "j < 12"
  using assms sb_index_lt_max[OF assms(1), of j] by (auto simp: sb_wf_def)

lemma sb_free_slot:
  assumes "sb_wf vs b" "\<not> sb_full b"
  shows "sb_index b 11 < sb_max_entries b" "j < sb_entries b \<Longrightarrow> sb_index b j \<noteq> sb_index b 11"
proof -
  have e: "sb_entries b < sb_max_entries b" "sb_max_entries b \<le> 12"
    using assms by (auto simp: sb_full_def sb_wf_def)
  then show "sb_index b 11 < sb_max_entries b" using sb_index_lt_max[OF assms(1), of 11] by simp
  show "sb_index b j \<noteq> sb_index b 11" if "j < sb_entries b"
    using sb_index_inj[OF assms(1), of j 11] that e by auto
qed

lemma perm_reindex:
  assumes "length xs = n" "length ys = n" "distinct xs" "set xs = {0..<n}"
    and f: "\<And>j. j < n \<Longrightarrow> f j < n \<and> ys ! j = xs ! f j" and inj: "inj_on f {0..<n}"
  shows "distinct ys" "set ys = {0..<n}"
proof -
  show d: "distinct ys"
    unfolding distinct_conv_nth
  proof (intro allI impI)
    fix i j assume ij: "i < length ys" "j < length ys" "i \<noteq> j"
    then have "f i \<noteq> f j" using inj assms(2) by (auto dest: inj_onD)
    then show "ys ! i \<noteq> ys ! j"
      using f[of i] f[of j] ij assms(1-3) by (simp add: nth_eq_iff_index_eq)
  qed
  have "set ys \<subseteq> {0..<n}"
  proof
    fix y assume "y \<in> set ys"
    then obtain j where "j < n" "y = ys ! j" using assms(2) by (auto simp: in_set_conv_nth)
    then show "y \<in> {0..<n}" using f[of j] assms(1,4) nth_mem[of "f j" xs] by auto
  qed
  moreover have "card (set ys) = n" using d assms(2) by (simp add: distinct_card)
  ultimately show "set ys = {0..<n}" by (intro card_subset_eq) auto
qed

text \<open>A header whose permutation is the old one read through a bijection of positions, and
  whose free run moved along, keeps the invariant.\<close>

lemma sb_wf_reindex:
  assumes "sb_wf vs b" "length (sb_buf b') = kv_buf_size" "sb_prefix_bytes b' = sb_prefix_bytes b"
    "sb_suffix_bytes b' = sb_suffix_bytes b" "sb_max_entries b' = sb_max_entries b"
    "sb_entries b' \<le> sb_max_entries b"
    and f: "\<And>j. j < 12 \<Longrightarrow> f j < 12 \<and> sb_index b' j = sb_index b (f j)"
    and inj: "inj_on f {0..<12}"
    and run: "\<And>j. j < 12 - sb_max_entries b \<Longrightarrow> f (sb_entries b' + j) = sb_entries b + j"
  shows "sb_wf vs b'"
proof -
  have "distinct (sb_perm b')" "set (sb_perm b') = {0..<12}"
    using perm_reindex[of "sb_perm b" 12 "sb_perm b'" f] f inj assms(1)
    by (auto simp: sb_wf_def nth_sb_perm)
  moreover have "sb_perm b' ! (sb_entries b' + j) = 11 - j" if j: "j < 12 - sb_max_entries b" for j
  proof -
    have "sb_entries b' + j < 12" "sb_entries b + j < 12"
      using j assms(1,6) by (auto simp: sb_wf_def)
    then have "sb_perm b' ! (sb_entries b' + j) = sb_perm b ! (sb_entries b + j)"
      using f run[OF j] by (simp add: nth_sb_perm)
    then show ?thesis using assms(1) j by (simp add: sb_wf_def)
  qed
  ultimately show ?thesis using assms by (simp add: sb_wf_def)
qed

lemma sb_wf_areas:
  assumes "sb_wf vs b" "i < sb_max_entries b" "j < sb_max_entries b"
  shows "(i + 1) * sb_suffix_bytes b \<le> length (sb_buf b) - (j + 1) * vs"
    "(i + 1) * sb_suffix_bytes b \<le> length (sb_buf b)" "(j + 1) * vs \<le> length (sb_buf b)"
proof -
  have "sb_max_entries b * (sb_suffix_bytes b + vs) \<le> length (sb_buf b)"
    using assms(1) by (simp add: sb_wf_def)
  from areas_disjoint[OF this assms(2,3)]
  show "(i + 1) * sb_suffix_bytes b \<le> length (sb_buf b) - (j + 1) * vs"
    "(i + 1) * sb_suffix_bytes b \<le> length (sb_buf b)" "(j + 1) * vs \<le> length (sb_buf b)" by blast+
qed

lemma sb_wf_sizes:
  "sb_wf vs b \<Longrightarrow> sb_prefix_bytes b + sb_suffix_bytes b = 8" "sb_wf vs b \<Longrightarrow> vs \<le> 8"
  "sb_wf vs b \<Longrightarrow> length (sb_buf b) = kv_buf_size" "sb_wf vs b \<Longrightarrow> sb_entries b \<le> 12"
  by (auto simp: sb_wf_def)

text \<open>A store into slot \<open>t\<close> changes that slot and no other.\<close>

lemma sb_slots_after_store:
  assumes "sb_wf vs b" "t < sb_max_entries b" "same_prefix (sb_prefix_bytes b) p k" "value_fits vs v"
    "i < sb_max_entries b"
  defines "buf \<equiv> put_key (sb_suffix_bytes b) (put_value vs (sb_buf b) t v) t k"
  shows "slot_key (sb_prefix_bytes b) (sb_suffix_bytes b) buf i p = (if i = t then k else sb_key b i p)"
    "slot_value vs buf i = (if i = t then v else sb_value vs b i)"
proof -
  let ?pb = "sb_prefix_bytes b" and ?sb = "sb_suffix_bytes b"
  let ?b1 = "put_value vs (sb_buf b) t v"
  have w: "?pb + ?sb = 8" "?sb \<le> 8" "vs \<le> 8" using sb_wf_sizes[OF assms(1)] by auto
  note a = sb_wf_areas[OF assms(1)]
  have "slot_key ?pb ?sb buf i p = (if i = t then k else slot_key ?pb ?sb ?b1 i p)"
    using slot_key_put_key_same[OF w(1) _ assms(3), of t ?b1] a(2)[OF assms(2,2)]
      slot_key_put_key_other[OF w(1), of t i] by (auto simp: buf_def)
  moreover have "slot_key ?pb ?sb ?b1 i p = slot_key ?pb ?sb (sb_buf b) i p"
    using a(1)[OF assms(5,2)] by (rule slot_key_put_value[OF w(1)])
  ultimately show "slot_key ?pb ?sb buf i p = (if i = t then k else sb_key b i p)"
    by (simp add: sb_key_def)
  have "slot_value vs buf i = slot_value vs ?b1 i"
    unfolding buf_def using a(1)[OF assms(2,5)] w by (intro slot_value_put_key) auto
  moreover have "slot_value vs ?b1 i = (if i = t then v else slot_value vs (sb_buf b) i)"
    using slot_value_put_value_same[OF w(3) a(3)[OF assms(2,2)] assms(4)]
      slot_value_put_value_other[OF w(3), of t i] a(3)[OF assms(2,2)] a(3)[OF assms(5,5)] by auto
  ultimately show "slot_value vs buf i = (if i = t then v else sb_value vs b i)"
    by (simp add: sb_value_def)
qed

lemma sb_store_slots:
  assumes "sb_wf vs b" "t < sb_max_entries b" "same_prefix (sb_prefix_bytes b) p k" "value_fits vs v"
    "i < sb_max_entries b"
  shows "sb_key (sb_store vs b t k v) i p = (if i = t then k else sb_key b i p)"
    "sb_value vs (sb_store vs b t k v) i = (if i = t then v else sb_value vs b i)"
  using sb_slots_after_store[OF assms] by (simp_all add: sb_store_def sb_key_def sb_value_def)

subsection \<open>The operations on the item list\<close>

lemma sb_put_refines:
  assumes "sb_wf vs b" "\<not> sb_full b" "same_prefix (sb_prefix_bytes b) p k" "value_fits vs v"
    "pos \<le> sb_entries b"
  shows "\<exists>b'. sb_put vs b pos k v = Some b' \<and> sb_wf vs b' \<and>
    sb_items vs p b' = insert_at pos (k, v) (sb_items vs p b) \<and>
    sb_prefix_bytes b' = sb_prefix_bytes b \<and> sb_suffix_bytes b' = sb_suffix_bytes b \<and>
    sb_max_entries b' = sb_max_entries b"
proof -
  define t where "t = sb_index b 11"
  define b1 where "b1 = sb_store vs b t k v"
  define b2 where "b2 = b1\<lparr>header := circular_lshift (header b1) (16 + 4 * pos) (4 * 1)\<rparr>"
  define b' where "b' = sb_set_entries b2 (sb_entries b2 + 1)"
  note free = sb_free_slot[OF assms(1,2), folded t_def]
  have e: "sb_entries b < sb_max_entries b" "sb_max_entries b \<le> 12"
    using assms(1,2) by (auto simp: sb_full_def sb_wf_def)
  have put: "sb_put vs b pos k v = Some b'"
    using free(1) by (simp add: sb_put_def Let_def t_def[symmetric] b1_def b2_def b'_def)
  have p1: "(0::nat) < 1" "pos + 1 \<le> 12" using assms(5) e by auto
  note sh = sb_lshift_fields[OF p1, where b = b1, folded b2_def]
  have f1: "sb_entries b1 = sb_entries b" "sb_prefix_bytes b1 = sb_prefix_bytes b"
    "sb_suffix_bytes b1 = sb_suffix_bytes b" "sb_max_entries b1 = sb_max_entries b"
    "\<And>j. sb_index b1 j = sb_index b j"
    by (simp_all add: b1_def sb_store_def)
  have f': "sb_prefix_bytes b' = sb_prefix_bytes b" "sb_suffix_bytes b' = sb_suffix_bytes b"
    "sb_max_entries b' = sb_max_entries b" "sb_entries b' = sb_entries b + 1"
    using e by (simp_all add: b'_def sh f1)
  define g where "g j = (if j < pos then j else if j < pos + 1 then 12 + j - pos - 1 else j - 1)" for j
  have ix: "sb_index b' j = sb_index b (g j)" if "j < 12" for j
    using sh(5)[OF that] that by (simp add: b'_def f1 g_def)
  have g: "g j < 12" if "j < 12" for j using that by (auto simp: g_def)
  have gi: "inj_on g {0..<12}" using assms(5) e
    by (auto simp: inj_on_def g_def split: if_splits)
  have run: "g (sb_entries b' + j) = sb_entries b + j" for j
    using assms(5) f'(4) by (auto simp: g_def)
  have bl: "sb_buf b' = sb_buf b1" by (simp add: b'_def b2_def)
  have lb: "length (sb_buf b') = kv_buf_size"
    using assms(1) unfolding bl by (simp add: b1_def sb_store_def sb_wf_def)
  have wf: "sb_wf vs b'"
    using sb_wf_reindex[OF assms(1) lb f'(1-3), of g] ix g gi run f'(4) e by auto
  have keys: "sb_key b' i p = (if i = t then k else sb_key b i p)"
    "sb_value vs b' i = (if i = t then v else sb_value vs b i)" if "i < sb_max_entries b" for i
    using sb_store_slots[OF assms(1) free(1) assms(3,4) that] bl f' f1
    by (simp_all add: b1_def[symmetric] sb_key_def sb_value_def)
  have "sb_items vs p b' = insert_at pos (k, v) (sb_items vs p b)"
  proof (rule sb_items_eqI)
    fix i assume "i < length (insert_at pos (k, v) (sb_items vs p b))"
    then have i: "i \<le> sb_entries b" "i < 12" using e by auto
    show "sb_sort_key b' i p = fst (insert_at pos (k, v) (sb_items vs p b) ! i) \<and>
        sb_sort_value vs b' i = snd (insert_at pos (k, v) (sb_items vs p b) ! i)"
    proof (cases "i = pos")
      case True
      then have "sb_index b' i = t" using ix[OF i(2)] by (simp add: g_def t_def)
      then show ?thesis using keys[OF free(1)] True assms(5)
        by (simp add: sb_sort_key_def sb_sort_value_def nth_insert_at)
    next
      case False
      define j where "j = (if i < pos then i else i - 1)"
      have j: "j < sb_entries b" using False i(1) assms(5) by (auto simp: j_def)
      have "sb_index b' i = sb_index b j" using ix[OF i(2)] False by (simp add: g_def j_def)
      moreover have "insert_at pos (k, v) (sb_items vs p b) ! i = sb_items vs p b ! j"
        using False i(1) assms(5) by (simp add: nth_insert_at j_def)
      ultimately show ?thesis
        using keys[OF sb_used_slot(1)[OF assms(1) j]] free(2)[OF j] j
        by (simp add: sb_sort_key_def sb_sort_value_def nth_sb_items)
    qed
  qed (simp add: f')
  then show ?thesis using put wf f' by blast
qed

lemma sb_update_refines:
  assumes "sb_wf vs b" "pos < sb_entries b" "value_fits vs v"
  shows "sb_wf vs (sb_update vs b pos v)"
    "sb_items vs p (sb_update vs b pos v) = (sb_items vs p b)[pos := (fst (sb_items vs p b ! pos), v)]"
proof -
  let ?b' = "sb_update vs b pos v"
  have w: "sb_prefix_bytes b + sb_suffix_bytes b = 8" "vs \<le> 8" using sb_wf_sizes[OF assms(1)] by auto
  have f: "sb_entries ?b' = sb_entries b" "sb_prefix_bytes ?b' = sb_prefix_bytes b"
    "sb_suffix_bytes ?b' = sb_suffix_bytes b" "sb_max_entries ?b' = sb_max_entries b"
    "\<And>j. sb_index ?b' j = sb_index b j" "sb_perm ?b' = sb_perm b"
    by (simp_all add: sb_update_def)
  show "sb_wf vs ?b'" using assms(1) f by (simp add: sb_wf_def) (simp add: sb_update_def)
  note a = sb_wf_areas[OF assms(1)]
  note pu = sb_used_slot[OF assms(1,2)]
  show "sb_items vs p ?b' = (sb_items vs p b)[pos := (fst (sb_items vs p b ! pos), v)]"
  proof (rule sb_items_eqI)
    fix i assume "i < length ((sb_items vs p b)[pos := (fst (sb_items vs p b ! pos), v)])"
    then have i: "i < sb_entries b" by simp
    note iu = sb_used_slot[OF assms(1) i]
    have "sb_sort_key ?b' i p = sb_sort_key b i p"
      using slot_key_put_value[OF w(1) a(1)[OF iu(1) pu(1)]]
      unfolding sb_sort_key_def sb_key_def f by (simp add: sb_update_def)
    moreover have "sb_sort_value vs ?b' i = (if i = pos then v else sb_sort_value vs b i)"
    proof (cases "i = pos")
      case True
      then show ?thesis using slot_value_put_value_same[OF w(2) a(3)[OF pu(1,1)] assms(3)]
        unfolding sb_sort_value_def sb_value_def f by (simp add: sb_update_def)
    next
      case False
      then have "sb_index b pos \<noteq> sb_index b i" using sb_index_inj[OF assms(1) pu(2) iu(2)] by blast
      then show ?thesis using False
          slot_value_put_value_other[OF w(2) _ a(3)[OF pu(1,1)] a(3)[OF iu(1,1)]]
        unfolding sb_sort_value_def sb_value_def f by (simp add: sb_update_def)
    qed
    ultimately show "sb_sort_key ?b' i p = fst ((sb_items vs p b)[pos := (fst (sb_items vs p b ! pos), v)] ! i) \<and>
        sb_sort_value vs ?b' i = snd ((sb_items vs p b)[pos := (fst (sb_items vs p b ! pos), v)] ! i)"
      using i by (auto simp: nth_list_update nth_sb_items)
  qed (simp add: f)
qed

lemma sb_delete_refines:
  assumes "sb_wf vs b" "pos < sb_entries b"
  shows "sb_wf vs (sb_delete b pos)"
    "sb_items vs p (sb_delete b pos) = remove_at pos (sb_items vs p b)"
    "sb_prefix_bytes (sb_delete b pos) = sb_prefix_bytes b"
    "sb_suffix_bytes (sb_delete b pos) = sb_suffix_bytes b"
    "sb_max_entries (sb_delete b pos) = sb_max_entries b"
proof -
  define b1 where "b1 = b\<lparr>header := circular_rshift (header b) (16 + 4 * pos) (4 * 1)\<rparr>"
  let ?b' = "sb_delete b pos"
  have del: "?b' = sb_set_entries b1 (sb_entries b1 - 1)" by (simp add: sb_delete_def b1_def Let_def)
  have e: "sb_entries b \<le> sb_max_entries b" "sb_max_entries b \<le> 12" using assms by (auto simp: sb_wf_def)
  have p1: "(0::nat) < 1" "pos + 1 < 12 \<or> pos + 1 = 12 \<and> 4 \<le> pos" using assms(2) e by auto
  note sh = sb_rshift_fields[OF p1, where b = b, folded b1_def]
  show f: "sb_prefix_bytes ?b' = sb_prefix_bytes b" "sb_suffix_bytes ?b' = sb_suffix_bytes b"
    "sb_max_entries ?b' = sb_max_entries b" by (simp_all add: del sh)
  have n: "sb_entries ?b' = sb_entries b - 1" using e by (simp add: del sh)
  define g where "g j = (if j < pos then j else if j < 12 - 1 then j + 1 else j - (12 - pos - 1))" for j
  have ix: "sb_index ?b' j = sb_index b (g j)" if "j < 12" for j
    using sh(5)[OF that] that by (simp add: del g_def)
  have gb: "g j < 12" if "j < 12" for j using that p1 by (auto simp: g_def)
  have gi: "inj_on g {0..<12}" using p1 by (auto simp: inj_on_def g_def split: if_splits)
  have run: "g (sb_entries ?b' + j) = sb_entries b + j" if "j < 12 - sb_max_entries b" for j
    using assms(2) n that e by (auto simp: g_def)
  have bl: "sb_buf ?b' = sb_buf b" by (simp add: del b1_def)
  then have lb: "length (sb_buf ?b') = kv_buf_size" using assms(1) by (simp add: sb_wf_def)
  show "sb_wf vs ?b'" using sb_wf_reindex[OF assms(1) lb f, of g] ix gb gi run n e by auto
  show "sb_items vs p ?b' = remove_at pos (sb_items vs p b)"
  proof (rule sb_items_eqI)
    fix i assume "i < length (remove_at pos (sb_items vs p b))"
    then have i: "i < sb_entries b - 1" "i < 12" using assms(2) e by auto
    have "sb_index ?b' i = sb_index b (if i < pos then i else Suc i)"
      using ix[OF i(2)] i e by (auto simp: g_def)
    then show "sb_sort_key ?b' i p = fst (remove_at pos (sb_items vs p b) ! i) \<and>
        sb_sort_value vs ?b' i = snd (remove_at pos (sb_items vs p b) ! i)"
      using i assms(2) bl f
      by (auto simp: nth_remove_at nth_sb_items sb_sort_key_def sb_sort_value_def sb_key_def sb_value_def)
  qed (use assms(2) n in simp)
qed

text \<open>Lookup, and the interpretation of the two contracts.\<close>

definition sb_sorted :: "nat \<times> u64 \<times> sortbuffer \<Rightarrow> bool" where
  "sb_sorted s = (case s of (vs, p, b) \<Rightarrow> sb_wf vs b \<and> keys_sorted (sb_items vs p b))"

lemma sb_sort_key_prefix:
  assumes "sb_wf vs b" "same_prefix (sb_prefix_bytes b) p t"
  shows "sb_sort_key b i t = sb_sort_key b i p"
  using slot_key_prefix[OF sb_wf_sizes(1)[OF assms(1)] same_prefix_sym[OF assms(2)]]
  by (simp add: sb_sort_key_def sb_key_def)

lemma sb_find_eq:
  assumes "sb_wf vs b" "same_prefix (sb_prefix_bytes b) p t"
  shows "sb_find b t = bsearch (\<lambda>i. sb_sort_key b i p) t 0 (int (sb_entries b) - 1)"
  using sb_sort_key_prefix[OF assms] by (simp add: sb_find_def)

interpretation sb_slots: ordered_slots sb_sorted "\<lambda>(vs, p, b). sb_entries b"
  "\<lambda>(vs, p, b) i. sb_sort_key b i p"
proof unfold_locales
  fix s :: "nat \<times> u64 \<times> sortbuffer" and i j
  assume a: "sb_sorted s" "i < j" "j < (case s of (vs, p, b) \<Rightarrow> sb_entries b)"
  obtain vs p b where s: "s = (vs, p, b)" by (metis prod_cases3)
  show "(case s of (vs, p, b) \<Rightarrow> \<lambda>i. sb_sort_key b i p) i < (case s of (vs, p, b) \<Rightarrow> \<lambda>i. sb_sort_key b i p) j"
    using a keys_sorted_nth[of "sb_items vs p b" i j] unfolding s by (simp add: sb_sorted_def nth_sb_items)
qed

text \<open>The less-or-equal search of an index node.\<close>

lemma sb_find_le_correct:
  assumes "sb_wf vs b" "keys_sorted (sb_items vs p b)" "same_prefix (sb_prefix_bytes b) p t"
  shows "le_result (\<lambda>i. sb_sort_key b i p) (sb_entries b) t (fst (sb_find_le b t))"
    "snd (sb_find_le b t) \<longleftrightarrow> (\<exists>j < sb_entries b. sb_sort_key b j p = t)"
  using sb_slots.find_le_loop_correct[of "(vs, p, b)" t] assms sb_sort_key_prefix[OF assms(1,3)]
  by (simp_all add: sb_sorted_def sb_find_le_def)

interpretation sb_ordered: ordered_buffer "\<lambda>(vs, p, b). sb_wf vs b" "\<lambda>(vs, p, b). sb_items vs p b"
  "\<lambda>(vs, p, b). \<not> sb_full b"
  "\<lambda>(vs, p, b) kv. same_prefix (sb_prefix_bytes b) p (fst kv) \<and> value_fits vs (snd kv)"
  "\<lambda>(vs, p, b). sb_find b" "\<lambda>(vs, p, b). sb_sort_value vs b"
  "\<lambda>(vs, p, b) pos k v. map_option (\<lambda>b'. (vs, p, b')) (sb_put vs b pos k v)"
  "\<lambda>(vs, p, b) pos v. (vs, p, sb_update vs b pos v)"
  "\<lambda>(vs, p, b) pos. Some (vs, p, sb_delete b pos)"
proof (unfold_locales, goal_cases)
  case (1 s k v)
  obtain vs p b where s: "s = (vs, p, b)" by (metis prod_cases3)
  then have w: "sb_wf vs b" "keys_sorted (sb_items vs p b)" "same_prefix (sb_prefix_bytes b) p k"
    using 1 by auto
  then have "search_result (\<lambda>i. sb_sort_key b i p) (sb_entries b) k (sb_find b k)"
    using sb_slots.bsearch_correct[of "(vs, p, b)" k] by (simp add: sb_find_eq sb_sorted_def)
  then show ?case unfolding s by (subst search_result_cong) (auto simp: nth_sb_items)
next
  case (2 s p)
  then show ?case by (auto simp: nth_sb_items)
next
  case (3 s k v q)
  obtain vs p b where s: "s = (vs, p, b)" by (metis prod_cases3)
  then show ?case using 3 sb_put_refines[of vs b p k v q] by auto
next
  case (4 s k v q)
  obtain vs p b where s: "s = (vs, p, b)" by (metis prod_cases3)
  then show ?case using 4 sb_update_refines(1)[of vs b q v] sb_update_refines(2)[of vs b q v p] by auto
next
  case (5 s q)
  obtain vs p b where s: "s = (vs, p, b)" by (metis prod_cases3)
  then show ?case using 5 sb_delete_refines(1)[of vs b q] sb_delete_refines(2)[of vs b q p] by auto
qed

subsection \<open>Moving runs of pairs\<close>

lemma put_key_slot:
  assumes "pb + sb = 8"
  shows "memcpy buf (pkey sb i) (read_bytes src (pkey sb j) sb) = put_key sb buf i (slot_key pb sb src j p)"
proof -
  have "read_bytes src (pkey sb j) sb = take sb (bytes_of (slot_key pb sb src j p))"
  proof (rule nth_list_ext)
    fix m assume "m < length (take sb (bytes_of (slot_key pb sb src j p)))"
    then have m: "m < sb" "m < 8" by auto
    have "byte_at src (j * sb + m) = bytes_of (slot_key pb sb src j p) ! m"
    proof (rule bit_word_eqI)
      fix d assume "d < LENGTH(8)"
      then have d: "d < 8" by simp
      then have "8 * m + d < 8 * sb" "8 * m + d < 64" using m by auto
      then show "bit (byte_at src (j * sb + m)) d = bit (bytes_of (slot_key pb sb src j p) ! m) d"
        using d by (simp add: bit_bytes_of[OF m(2) d] bit_slot_key[OF assms])
    qed
    then show "read_bytes src (pkey sb j) sb ! m = take sb (bytes_of (slot_key pb sb src j p)) ! m"
      using m by (simp add: nth_read_bytes pkey_def)
  qed (use assms in simp)
  then show ?thesis by (simp add: put_key_def)
qed

lemma put_value_slot:
  assumes "vs \<le> 8" "length src = length buf"
  shows "memcpy buf (pvalue (length buf) vs i) (read_bytes src (pvalue (length buf) vs j) vs) =
    put_value vs buf i (slot_value vs src j)"
proof -
  have "read_bytes src (pvalue (length buf) vs j) vs = take vs (bytes_of (slot_value vs src j))"
  proof (rule nth_list_ext)
    fix m assume "m < length (take vs (bytes_of (slot_value vs src j)))"
    then have m: "m < vs" "m < 8" by auto
    have "byte_at src (length buf - (j + 1) * vs + m) = bytes_of (slot_value vs src j) ! m"
    proof (rule bit_word_eqI)
      fix d assume "d < LENGTH(8)"
      then have d: "d < 8" by simp
      then have "8 * m + d < 8 * vs" using m by auto
      then show "bit (byte_at src (length buf - (j + 1) * vs + m)) d =
          bit (bytes_of (slot_value vs src j) ! m) d"
        using d assms by (simp add: bit_bytes_of[OF m(2) d] bit_slot_value[OF assms(1)])
    qed
    then show "read_bytes src (pvalue (length buf) vs j) vs ! m =
        take vs (bytes_of (slot_value vs src j)) ! m"
      using m by (simp add: nth_read_bytes pvalue_def)
  qed (use assms in simp)
  then show ?thesis by (simp add: put_value_def)
qed

lemma put_value_put_key_commute:
  assumes "(i + 1) * sb \<le> length buf - (i + 1) * vs" "sb \<le> 8"
  shows "put_value vs (put_key sb buf i k) i v = put_key sb (put_value vs buf i v) i k"
proof -
  have "i * sb + sb \<le> length buf - (i + 1) * vs" using assms(1) by simp
  then show ?thesis
    unfolding put_value_def put_key_def memcpy_def pkey_def pvalue_def using assms(2)
    by (intro nth_list_ext) (auto simp: min_def)
qed

lemma value_fits_slot: "vs \<le> 8 \<Longrightarrow> value_fits vs (slot_value vs buf i)"
  by (auto simp: value_fits_bits bit_slot_value)

text \<open>One step of the copy loop is a store of the pair.\<close>

lemma sb_copy_step:
  assumes "sb_wf vs dest" "slot < sb_max_entries dest" "vs \<le> 8" "length (sb_buf b) = kv_buf_size"
    "sb_prefix_bytes b = sb_prefix_bytes dest" "sb_suffix_bytes b = sb_suffix_bytes dest"
  shows "dest\<lparr>sb_buf := memcpy (memcpy (sb_buf dest) (sb_pkey dest slot)
                 (read_bytes (sb_buf b) (sb_pkey b (sb_index b i)) (sb_suffix_bytes b)))
      (sb_pvalue vs slot) (read_bytes (sb_buf b) (sb_pvalue vs (sb_index b i)) vs)\<rparr> =
    sb_store vs dest slot (sb_sort_key b i p) (sb_sort_value vs b i)"
proof -
  let ?sb = "sb_suffix_bytes dest" and ?k = "sb_sort_key b i p" and ?v = "sb_sort_value vs b i"
  have w: "sb_prefix_bytes dest + ?sb = 8" "?sb \<le> 8" using sb_wf_sizes[OF assms(1)] by auto
  have L: "length (sb_buf dest) = kv_buf_size" using sb_wf_sizes[OF assms(1)] by simp
  have k: "memcpy (sb_buf dest) (sb_pkey dest slot)
      (read_bytes (sb_buf b) (sb_pkey b (sb_index b i)) (sb_suffix_bytes b)) =
      put_key ?sb (sb_buf dest) slot ?k" (is "?b1 = _")
    using put_key_slot[OF w(1)] by (simp add: sb_pkey_def sb_sort_key_def sb_key_def assms(5,6))
  have "memcpy ?b1 (sb_pvalue vs slot) (read_bytes (sb_buf b) (sb_pvalue vs (sb_index b i)) vs) =
      put_value vs ?b1 slot ?v"
    using put_value_slot[OF assms(3), of "sb_buf b" ?b1 slot "sb_index b i"] assms(4) L
    by (simp add: sb_pvalue_def sb_sort_value_def sb_value_def)
  also have "\<dots> = put_key ?sb (put_value vs (sb_buf dest) slot ?v) slot ?k"
    unfolding k using sb_wf_areas(1)[OF assms(1,2,2)] w(2) by (rule put_value_put_key_commute)
  finally show ?thesis by (simp add: sb_store_def)
qed

lemma sb_wf_store:
  assumes "sb_wf vs b"
  shows "sb_wf vs (sb_store vs b t k v)" "header (sb_store vs b t k v) = header b"
  using assms by (auto simp: sb_wf_def sb_store_def)

lemma header_fields:
  assumes "header a = header b"
  shows "sb_prefix_bytes a = sb_prefix_bytes b" "sb_suffix_bytes a = sb_suffix_bytes b"
    "sb_entries a = sb_entries b" "sb_max_entries a = sb_max_entries b" "sb_index a = sb_index b"
    "sb_perm a = sb_perm b"
  using assms by (auto simp: sb_prefix_bytes_def sb_suffix_bytes_def sb_entries_def sb_max_entries_def
      sb_index_def sb_perm_def fun_eq_iff)

lemma sb_copy_loop_slots:
  assumes "sb_wf vs dest" "sb_wf vs b" "header dest = h0"
    "sb_prefix_bytes b = sb_prefix_bytes dest" "sb_suffix_bytes b = sb_suffix_bytes dest"
    "\<forall>i \<in> set is. i < sb_entries b \<and> sb_entries b - 1 - i < sb_max_entries dest" "distinct is"
  shows "sb_wf vs (sb_copy_loop vs b dest is) \<and> header (sb_copy_loop vs b dest is) = h0 \<and>
    (\<forall>i < sb_entries b. sb_entries b - 1 - i < sb_max_entries dest \<longrightarrow>
      sb_key (sb_copy_loop vs b dest is) (sb_entries b - 1 - i) p =
        (if i \<in> set is then sb_sort_key b i p else sb_key dest (sb_entries b - 1 - i) p) \<and>
      sb_value vs (sb_copy_loop vs b dest is) (sb_entries b - 1 - i) =
        (if i \<in> set is then sb_sort_value vs b i else sb_value vs dest (sb_entries b - 1 - i)))"
  using assms
proof (induction "is" arbitrary: dest)
  case Nil
  then show ?case by simp
next
  case (Cons x xs)
  let ?n = "sb_entries b"
  define d where "d = sb_store vs dest (?n - 1 - x) (sb_sort_key b x p) (sb_sort_value vs b x)"
  have x: "x < ?n" "?n - 1 - x < sb_max_entries dest" using Cons.prems(6) by auto
  note sz = sb_wf_sizes[OF Cons.prems(2)]
  have step: "sb_copy_loop vs b dest (x # xs) = sb_copy_loop vs b d xs"
    using sb_copy_step[OF Cons.prems(1) x(2) sz(2,3) Cons.prems(4,5), of x p]
    by (simp add: d_def Let_def)
  have dw: "sb_wf vs d" "header d = header dest" using sb_wf_store[OF Cons.prems(1)] by (auto simp: d_def)
  note hf = header_fields[OF dw(2)]
  have pre: "same_prefix (sb_prefix_bytes dest) p (sb_sort_key b x p)"
    using slot_key_same_prefix[OF sz(1)] Cons.prems(4)
    by (simp add: sb_sort_key_def sb_key_def same_prefix_sym)
  have vf: "value_fits vs (sb_sort_value vs b x)"
    using value_fits_slot[OF sz(2)] by (simp add: sb_sort_value_def sb_value_def)
  note st = sb_store_slots[OF Cons.prems(1) x(2) pre vf, folded d_def]
  have IH: "sb_wf vs (sb_copy_loop vs b d xs) \<and> header (sb_copy_loop vs b d xs) = h0 \<and>
    (\<forall>i < ?n. ?n - 1 - i < sb_max_entries d \<longrightarrow>
      sb_key (sb_copy_loop vs b d xs) (?n - 1 - i) p =
        (if i \<in> set xs then sb_sort_key b i p else sb_key d (?n - 1 - i) p) \<and>
      sb_value vs (sb_copy_loop vs b d xs) (?n - 1 - i) =
        (if i \<in> set xs then sb_sort_value vs b i else sb_value vs d (?n - 1 - i)))"
    using Cons.prems dw hf by (intro Cons.IH) auto
  have ne: "(?n - 1 - i = ?n - 1 - x) = (i = x)" if "i < ?n" for i using that x(1) by auto
  have "sb_key (sb_copy_loop vs b d xs) (?n - 1 - i) p =
        (if i \<in> set (x # xs) then sb_sort_key b i p else sb_key dest (?n - 1 - i) p) \<and>
      sb_value vs (sb_copy_loop vs b d xs) (?n - 1 - i) =
        (if i \<in> set (x # xs) then sb_sort_value vs b i else sb_value vs dest (?n - 1 - i))"
    if i: "i < ?n" "?n - 1 - i < sb_max_entries dest" for i
    using IH[THEN conjunct2, THEN conjunct2, rule_format, OF i(1)] i(2) hf(4) Cons.prems(7)
    unfolding st[OF i(2)] ne[OF i(1)] by (cases "i = x") simp_all
  then show ?case unfolding step using IH dw(2) Cons.prems(3) by blast
qed

lemma sb_copy_data_refines:
  assumes "sb_wf vs b" "sb_wf vs dest" "sb_entries dest = 0" "s < sb_entries b"
    "sb_prefix_bytes b = sb_prefix_bytes dest" "sb_suffix_bytes b = sb_suffix_bytes dest"
    "sb_max_entries b \<le> sb_max_entries dest"
    and fresh: "\<And>j. j < 12 \<Longrightarrow> sb_index dest j = 11 - j"
  shows "sb_wf vs (sb_copy_data vs b dest s)"
    "sb_items vs p (sb_copy_data vs b dest s) = drop s (sb_items vs p b)"
    "sb_prefix_bytes (sb_copy_data vs b dest s) = sb_prefix_bytes dest"
    "sb_suffix_bytes (sb_copy_data vs b dest s) = sb_suffix_bytes dest"
    "sb_max_entries (sb_copy_data vs b dest s) = sb_max_entries dest"
proof -
  let ?n = "sb_entries b"
  define c where "c = ?n - s"
  define d1 where "d1 = sb_copy_loop vs b dest [s..<?n]"
  define d2 where "d2 = sb_set_entries d1 c"
  define d3 where "d3 = d2\<lparr>header := circular_lshift (header d2) (16 + 4 * 0) (4 * c)\<rparr>"
  have e: "?n \<le> sb_max_entries b" "sb_max_entries dest \<le> 12" "?n \<le> 12"
    using assms(1,2) by (auto simp: sb_wf_def)
  have c: "0 < c" "c \<le> 12" "c \<le> ?n" using assms(4) e by (auto simp: c_def)
  have cp: "sb_copy_data vs b dest s = d3"
    using c by (simp add: sb_copy_data_def Let_def d1_def[symmetric] d2_def d3_def c_def)
  have room: "?n - 1 - i < sb_max_entries dest" if "i < ?n" for i
    using that e(1) assms(7) by linarith
  then have "\<forall>i \<in> set [s..<?n]. i < ?n \<and> ?n - 1 - i < sb_max_entries dest" by simp
  note slots = sb_copy_loop_slots[OF assms(2,1) refl assms(5,6) this distinct_upt, of p, folded d1_def]
  have loop: "sb_wf vs d1" "header d1 = header dest" using slots by blast+
  have slot: "sb_key d1 (?n - 1 - i) p = sb_sort_key b i p \<and>
      sb_value vs d1 (?n - 1 - i) = sb_sort_value vs b i" if "i < ?n" "s \<le> i" for i
  proof -
    have "i \<in> set [s..<?n]" using that by simp
    then show ?thesis using slots room[OF that(1)] that(1) by simp
  qed
  note hf = header_fields[OF loop(2)]
  have p1: "0 + c \<le> 12" using c by simp
  note sh = sb_lshift_fields[OF c(1) p1, where b = d2, folded d3_def]
  have f: "sb_prefix_bytes d3 = sb_prefix_bytes dest" "sb_suffix_bytes d3 = sb_suffix_bytes dest"
    "sb_max_entries d3 = sb_max_entries dest" "sb_entries d3 = c"
    unfolding sh using hf c by (simp_all add: d2_def)
  then show "sb_prefix_bytes (sb_copy_data vs b dest s) = sb_prefix_bytes dest"
    "sb_suffix_bytes (sb_copy_data vs b dest s) = sb_suffix_bytes dest"
    "sb_max_entries (sb_copy_data vs b dest s) = sb_max_entries dest" by (simp_all add: cp)
  have ix: "sb_index d3 j = (if j < c then c - 1 - j else 11 - (j - c))" if "j < 12" for j
    using sh(5)[OF that] that c fresh hf(5) by (auto simp: d2_def)
  define g where "g j = (if j < c then 12 + j - c else j - c)" for j
  have ig: "sb_index d3 j = sb_index dest (g j)" if "j < 12" for j
    using sh(5)[OF that] that c hf(5) by (auto simp: d2_def g_def)
  have bl: "sb_buf d3 = sb_buf d1" by (simp add: d3_def d2_def)
  have lb: "length (sb_buf d3) = kv_buf_size" using loop(1) unfolding bl by (simp add: sb_wf_def)
  have gi: "inj_on g {0..<12}" using c by (auto simp: inj_on_def g_def split: if_splits)
  have gb: "g j < 12" if "j < 12" for j using that c by (auto simp: g_def)
  have run: "g (sb_entries d3 + j) = sb_entries dest + j" for j
    using f(4) assms(3) by (simp add: g_def)
  have "sb_entries d3 \<le> sb_max_entries dest" using f(4) c(3) e(1) assms(7) by linarith
  then have "sb_wf vs d3"
    using sb_wf_reindex[OF assms(2) lb f(1-3), of g] gi ig gb run by blast
  then show "sb_wf vs (sb_copy_data vs b dest s)" by (simp add: cp)
  have "sb_items vs p d3 = drop s (sb_items vs p b)"
  proof (rule sb_items_eqI)
    fix i assume "i < length (drop s (sb_items vs p b))"
    then have i: "i < c" "s + i < ?n" by (auto simp: c_def)
    then have "sb_index d3 i = ?n - 1 - (s + i)" using ix[of i] c by (simp add: c_def)
    then show "sb_sort_key d3 i p = fst (drop s (sb_items vs p b) ! i) \<and>
        sb_sort_value vs d3 i = snd (drop s (sb_items vs p b) ! i)"
      using slot[OF i(2)] i bl f(1,2) hf(1,2)
      by (simp add: sb_sort_key_def sb_sort_value_def sb_key_def sb_value_def nth_sb_items)
  qed (simp add: f c_def)
  then show "sb_items vs p (sb_copy_data vs b dest s) = drop s (sb_items vs p b)" by (simp add: cp)
qed

lemma sb_delete_data_refines:
  assumes "sb_wf vs b" "s < sb_entries b" "sb_entries b < 12 \<or> 4 \<le> s"
  shows "sb_wf vs (sb_delete_data b s)" "sb_items vs p (sb_delete_data b s) = take s (sb_items vs p b)"
    "sb_prefix_bytes (sb_delete_data b s) = sb_prefix_bytes b"
    "sb_suffix_bytes (sb_delete_data b s) = sb_suffix_bytes b"
    "sb_max_entries (sb_delete_data b s) = sb_max_entries b"
proof -
  define c where "c = sb_entries b - s"
  define b1 where "b1 = b\<lparr>header := circular_rshift (header b) (16 + 4 * s) (4 * c)\<rparr>"
  let ?b' = "sb_delete_data b s"
  have del: "?b' = sb_set_entries b1 s" by (simp add: sb_delete_data_def b1_def c_def)
  have e: "sb_entries b \<le> sb_max_entries b" "sb_max_entries b \<le> 12" using assms by (auto simp: sb_wf_def)
  have c: "0 < c" "s + c < 12 \<or> s + c = 12 \<and> 4 \<le> s" using assms(2,3) e by (auto simp: c_def)
  note sh = sb_rshift_fields[OF c, where b = b, folded b1_def]
  show f: "sb_prefix_bytes ?b' = sb_prefix_bytes b" "sb_suffix_bytes ?b' = sb_suffix_bytes b"
    "sb_max_entries ?b' = sb_max_entries b" by (simp_all add: del sh)
  have n: "sb_entries ?b' = s" using e assms(2) by (simp add: del)
  define g where "g j = (if j < s then j else if j < 12 - c then j + c else j - (12 - s - c))" for j
  have ix: "sb_index ?b' j = sb_index b (g j)" if "j < 12" for j
    using sh(5)[OF that] that by (simp add: del g_def)
  have gb: "g j < 12" if "j < 12" for j using that c by (auto simp: g_def)
  have gi: "inj_on g {0..<12}" using c by (auto simp: inj_on_def g_def split: if_splits)
  have run: "g (sb_entries ?b' + j) = sb_entries b + j" if "j < 12 - sb_max_entries b" for j
    using assms(2) n that e by (auto simp: g_def c_def)
  have bl: "sb_buf ?b' = sb_buf b" by (simp add: del b1_def)
  then have lb: "length (sb_buf ?b') = kv_buf_size" using assms(1) by (simp add: sb_wf_def)
  show "sb_wf vs ?b'" using sb_wf_reindex[OF assms(1) lb f, of g] ix gb gi run n e assms(2) by auto
  show "sb_items vs p ?b' = take s (sb_items vs p b)"
  proof (rule sb_items_eqI)
    fix i assume "i < length (take s (sb_items vs p b))"
    then have i: "i < s" "i < 12" "i < sb_entries b" using assms(2) e by auto
    have "sb_index ?b' i = sb_index b i" using ix[OF i(2)] i by (simp add: g_def)
    then show "sb_sort_key ?b' i p = fst (take s (sb_items vs p b) ! i) \<and>
        sb_sort_value vs ?b' i = snd (take s (sb_items vs p b) ! i)"
      using i bl f by (simp add: nth_sb_items sb_sort_key_def sb_sort_value_def sb_key_def sb_value_def)
  qed (use assms(2) n in simp)
qed

subsection \<open>Building a leaf from a write buffer\<close>

lemma nib_push_step:
  assumes "i < 16" "j < 16"
  shows "nib (push_bit 4 w OR of_nat i) j = (if j = 0 then i else nib w (j - 1))"
proof (cases "j = 0")
  case True
  have "take_bit 4 (push_bit 4 w OR of_nat i) = take_bit 4 (of_nat i :: u64)"
    by (rule bit_word_eqI) (auto simp: bit_simps)
  then show ?thesis using True assms of_nat_take_bit_16[of i] by (simp add: nib_def)
next
  case False
  have "take_bit 4 (of_nat i) = (of_nat i :: u64)" using assms(1) by (simp add: take_bit_of_nat take_bit_nat_eq_self)
  then have "bit (of_nat i :: u64) d \<Longrightarrow> d < 4" for d by (metis bit_take_bit_iff)
  then have low: "\<not> bit (of_nat i :: u64) (4 * j + d)" for d using False by force
  have "nib (push_bit 4 w OR of_nat i) j = nib w (j - 1)"
  proof (rule nib_eq)
    fix d :: nat assume "d < 4"
    moreover have "4 * j + d - 4 = 4 * (j - 1) + d" using False by simp
    ultimately show "bit (push_bit 4 w OR of_nat i) (4 * j + d) = bit w (4 * (j - 1) + d)"
      using False assms(2) low by (simp add: bit_or_iff bit_push_bit_iff)
  qed
  then show ?thesis using False by simp
qed

lemma nib_0 [simp]: "nib 0 j = 0"
  by (simp add: nib_def)

lemma nib_push_nibbles:
  assumes "\<forall>i \<in> set is. i < 16" "j < 16"
  shows "nib (push_nibbles 0 is) j = (if j < length is then rev is ! j else 0)"
  using assms
proof (induction "is" arbitrary: j rule: rev_induct)
  case Nil
  then show ?case by (simp add: push_nibbles_def)
next
  case (snoc x xs)
  then have "push_nibbles 0 (xs @ [x]) = push_bit 4 (push_nibbles 0 xs) OR of_nat x"
    by (simp add: push_nibbles_def)
  then show ?case using snoc by (auto simp: nib_push_step nth_Cons' simp del: of_nat_id)
qed

lemma nib_set_index:
  assumes "j < 16"
  shows "nib (take_bit 16 h OR push_bit 16 w) j = (if j < 4 then nib h j else nib w (j - 4))"
  using assms by (cases "j < 4") (auto intro!: nib_eq simp: bit_simps diff_mult_distrib2)

lemma sb_from_kv_fields:
  fixes b :: sortbuffer and kvb :: kvbuffer
  assumes "\<forall>i \<in> set ns. i < 16"
  defines "b' \<equiv> sb_from_kv ns b kvb"
  shows "sb_prefix_bytes b' = sb_prefix_bytes b" "sb_suffix_bytes b' = sb_suffix_bytes b"
    "sb_max_entries b' = sb_max_entries b" "sb_entries b' = entries kvb mod 16"
    "sb_buf b' = kv_buf kvb"
    "j < 12 \<Longrightarrow> sb_index b' j = (if j < length ns then rev ns ! j else 0)"
  using assms(1)
  by (simp_all add: b'_def sb_from_kv_def Let_def sb_prefix_bytes_def sb_suffix_bytes_def
      sb_max_entries_def sb_entries_def sb_index_def nib_set_index nib_push_nibbles
      sb_set_entries_def nib_set_nib)

text \<open>The order of the keys does not depend on the prefix they are read with.\<close>

lemma slot_key_unat:
  assumes "pb + sb = 8"
  shows "unat (slot_key pb sb buf i p) =
    unat (p AND prefix_mask pb) + unat (load64 buf (pkey sb i) AND suffix_mask sb)"
proof -
  have "(p AND prefix_mask pb) AND (load64 buf (pkey sb i) AND suffix_mask sb) = 0"
    using assms by (intro bit_word_eqI) (auto simp: bit_simps bit_prefix_mask bit_suffix_mask)
  then have z: "unat (p AND prefix_mask pb) AND unat (load64 buf (pkey sb i) AND suffix_mask sb) = 0"
    by (metis unsigned_0 unsigned_and_eq)
  have "unat (slot_key pb sb buf i p) =
      unat (p AND prefix_mask pb) OR unat (load64 buf (pkey sb i) AND suffix_mask sb)"
    unfolding slot_key_def by (rule unsigned_or_eq)
  then show ?thesis using disjunctive_add_eq_or[OF z] by simp
qed

lemma slot_key_less_iff:
  assumes "pb + sb = 8"
  shows "slot_key pb sb buf i p \<le> slot_key pb sb buf j p \<longleftrightarrow> slot_key pb sb buf i q \<le> slot_key pb sb buf j q"
  by (simp add: word_le_nat_alt slot_key_unat[OF assms])

lemma sort_key_cong_le:
  fixes f :: "'a \<Rightarrow> 'k::linorder" and g :: "'a \<Rightarrow> 'l::linorder"
  assumes "\<And>x y. x \<in> set xs \<Longrightarrow> y \<in> set xs \<Longrightarrow> f x \<le> f y \<longleftrightarrow> g x \<le> g y"
  shows "sort_key f xs = sort_key g xs"
proof -
  have ins: "insort_key f x ys = insort_key g x ys"
    if "\<And>y. y \<in> set ys \<Longrightarrow> f x \<le> f y \<longleftrightarrow> g x \<le> g y" for x ys
    using that by (induction ys) auto
  show ?thesis using assms
  proof (induction xs)
    case (Cons x xs)
    then have "sort_key f xs = sort_key g xs" by simp
    moreover have "insort_key f x (sort_key g xs) = insort_key g x (sort_key g xs)"
      using Cons.prems by (intro ins) simp
    ultimately show ?case by simp
  qed simp
qed

lemma kv_get_sorted_index_eq:
  assumes "kv_wf b"
  shows "kv_get_sorted_index b = sort_key (\<lambda>i. kv_key b i p) [0..<entries b]"
proof -
  have w: "prefix_bytes b + suffix_bytes b = 8" using assms by (simp add: kv_wf_def)
  have le: "kv_key b i q \<le> kv_key b j q \<longleftrightarrow> kv_key b i p \<le> kv_key b j p" for i j q
    using slot_key_less_iff[OF w] by (simp add: kv_key_def)
  show ?thesis
  proof (cases "suffix_bytes b = 1")
    case True
    have v: "load64 (kv_buf b) i AND 0xFF = (ucast (byte_at (kv_buf b) i) :: u64)" for i
    proof -
      have "bit (byte_at (kv_buf b) i) n \<Longrightarrow> n < 8" for n
        using bit_imp_le_length[of "byte_at (kv_buf b) i" n] by simp
      then have "load64 (kv_buf b) i AND mask 8 = (ucast (byte_at (kv_buf b) i) :: u64)"
        by (intro bit_word_eqI) (auto simp: bit_simps bit_load64)
      then show ?thesis by (simp add: mask_eq_exp_minus_1)
    qed
    have "kv_key b i 0 = ucast (byte_at (kv_buf b) i)" for i
      using True by (simp add: kv_key_def slot_key_def suffix_mask_def pkey_def v)
    then have "(ucast (byte_at (kv_buf b) i) :: u64) \<le> ucast (byte_at (kv_buf b) j) \<longleftrightarrow>
        kv_key b i p \<le> kv_key b j p" for i j
      using le[of i 0 j] by simp
    then show ?thesis using True by (simp add: kv_get_sorted_index_def cong: sort_key_cong_le)
  next
    case False
    then show ?thesis using le[of _ 0] by (simp add: kv_get_sorted_index_def cong: sort_key_cong_le)
  qed
qed

text \<open>A fresh leaf filled from a well-formed write buffer holds its pairs in key order.\<close>

lemma sb_from_kvbuffer_refines:
  assumes "kv_wf kvb" "sb_wf 8 b" "sb_prefix_bytes b = prefix_bytes kvb"
    "sb_max_entries b = max_entries kvb"
  shows "sb_wf 8 (sb_from_kvbuffer b kvb)"
    "sb_items 8 p (sb_from_kvbuffer b kvb) = sort_key fst (kv_items p kvb)"
    "sb_prefix_bytes (sb_from_kvbuffer b kvb) = sb_prefix_bytes b"
    "sb_suffix_bytes (sb_from_kvbuffer b kvb) = sb_suffix_bytes b"
    "sb_max_entries (sb_from_kvbuffer b kvb) = sb_max_entries b"
proof -
  let ?b' = "sb_from_kvbuffer b kvb" and ?n = "entries kvb"
  define idx where "idx = kv_get_sorted_index kvb"
  define ns where "ns = [?n..<12] @ rev idx"
  have e: "?n \<le> max_entries kvb" "sb_max_entries b \<le> 12" using assms(1,2) by (auto simp: kv_wf_def sb_wf_def)
  then have n12: "?n \<le> 12" using assms(4) by simp
  have idx: "idx = sort_key (\<lambda>i. kv_key kvb i p) [0..<?n]"
    using kv_get_sorted_index_eq[OF assms(1)] by (simp add: idx_def)
  have ip: "set idx = {0..<?n}" "distinct idx" "length idx = ?n" by (simp_all add: idx)
  have ns16: "\<forall>i \<in> set ns. i < 16" using ip n12 by (auto simp: ns_def)
  have lns: "length ns = 12" using ip n12 by (simp add: ns_def)
  note f = sb_from_kv_fields[OF ns16, where b = b and kvb = kvb]
  have b': "?b' = sb_from_kv ns b kvb" by (simp add: sb_from_kvbuffer_def ns_def idx_def)
  have perm: "sb_perm ?b' = idx @ rev [?n..<12]"
  proof (rule nth_list_ext)
    show "length (sb_perm ?b') = length (idx @ rev [?n..<12])" using ip n12 by simp
    fix j assume "j < length (idx @ rev [?n..<12])"
    then have "j < 12" using ip n12 by simp
    then show "sb_perm ?b' ! j = (idx @ rev [?n..<12]) ! j"
      using f(6)[of j] lns by (simp add: b' nth_sb_perm) (simp add: ns_def)
  qed
  show fs: "sb_prefix_bytes ?b' = sb_prefix_bytes b" "sb_suffix_bytes ?b' = sb_suffix_bytes b"
    "sb_max_entries ?b' = sb_max_entries b" using f by (simp_all add: b')
  have en: "sb_entries ?b' = ?n" "sb_buf ?b' = kv_buf kvb" using f n12 by (simp_all add: b')
  have "sb_perm ?b' ! (?n + j) = 11 - j" if "j < 12 - sb_max_entries b" for j
  proof -
    have j: "?n + j < 12" using that e assms(4) by simp
    have "sb_perm ?b' ! (?n + j) = rev [?n..<12] ! j"
      using ip(3) nth_append_length_plus[of idx "rev [?n..<12]" j] by (simp only: perm)
    also have "\<dots> = 11 - j" using j by (simp add: rev_nth)
    finally show ?thesis .
  qed
  moreover have "set (sb_perm ?b') = {0..<12}" unfolding perm set_append ip(1) set_rev set_upt using n12 by auto
  moreover have "distinct (sb_perm ?b')" unfolding perm distinct_append ip(1) using ip(2) by simp
  moreover have "length (kv_buf kvb) = kv_buf_size" using assms(1) by (simp add: kv_wf_def)
  moreover have "sb_prefix_bytes b + sb_suffix_bytes b = 8" "0 < sb_suffix_bytes b"
    "sb_max_entries b * (sb_suffix_bytes b + 8) \<le> kv_buf_size" using assms(2) by (simp_all add: sb_wf_def)
  moreover have "?n \<le> sb_max_entries b" using e(1) assms(4) by simp
  ultimately show "sb_wf 8 ?b'" unfolding sb_wf_def fs en using e(2) by blast
  have suf: "sb_suffix_bytes b = suffix_bytes kvb"
    using assms(1-3) by (simp add: sb_wf_def kv_wf_def)
  have "sb_items 8 p ?b' = map (\<lambda>i. (kv_key kvb i p, kv_value kvb i)) idx"
  proof (rule sb_items_eqI)
    fix i assume "i < length (map (\<lambda>i. (kv_key kvb i p, kv_value kvb i)) idx)"
    then have i: "i < ?n" "i < 12" using ip n12 by auto
    then have "sb_index ?b' i = idx ! i" using perm ip by (simp add: nth_sb_perm[symmetric] nth_append)
    then show "sb_sort_key ?b' i p = fst (map (\<lambda>i. (kv_key kvb i p, kv_value kvb i)) idx ! i) \<and>
        sb_sort_value 8 ?b' i = snd (map (\<lambda>i. (kv_key kvb i p, kv_value kvb i)) idx ! i)"
      using i ip en fs suf assms(3)
      by (simp add: sb_sort_key_def sb_key_def kv_key_def sb_sort_value_def sb_value_def kv_value_def kv_value_size_def)
  qed (use en ip in simp)
  also have "\<dots> = sort_key fst (kv_items p kvb)"
    using map_sort_key[of "\<lambda>i. (kv_key kvb i p, kv_value kvb i)" fst "[0..<?n]"]
    unfolding kv_items_def idx by (simp only: comp_def fst_conv)
  finally show "sb_items 8 p ?b' = sort_key fst (kv_items p kvb)" .
qed

end
