(* ===== verification/CLevel.thy ===== *)
theory CLevel
  imports SortBuffer "HOL-Library.Monad_Syntax"
begin

text \<open>
  \<^verbatim>\<open>src/clevel.h\<close>, \<^verbatim>\<open>src/clevel.cc\<close>: the C-level, a B+ tree of 128-byte nodes in one memory
  region.  A node has a type, a six-byte link (the next leaf of a leaf, the first child of an
  index node) and a \<open>SortBuffer\<close>.  The region is a bump allocator; addresses are kept
  relative to \<^verbatim>\<open>BaseAddr()\<close>, as every link in the nodes is, so the heap is a map from offsets
  to nodes.  A fresh region is a newly created file, hence zero-filled.

  A result \<open>None\<close> is a failed assertion of the code (region exhausted, node without room,
  invalid node type) or an exhausted recursion bound; the theorems of CLevelProofs show that
  neither happens on a well-formed tree with enough memory left.
\<close>

datatype node_type = INVALID | INDEX | LEAF

record clnode =
  ntype :: node_type
  nlink :: u64
  nbuf :: sortbuffer

record clmem =
  cur_addr :: nat
  end_addr :: nat
  heap :: "nat \<Rightarrow> clnode option"

definition node_size :: nat where "node_size = 128"

subsection \<open>Memory\<close>

definition set_node :: "clmem \<Rightarrow> nat \<Rightarrow> clnode \<Rightarrow> clmem" where
  "set_node m a nd = m\<lparr>heap := (heap m)(a \<mapsto> nd)\<rparr>"

definition mod_node :: "clmem \<Rightarrow> nat \<Rightarrow> (clnode \<Rightarrow> clnode) \<Rightarrow> clmem option" where
  "mod_node m a f = map_option (\<lambda>nd. set_node m a (f nd)) (heap m a)"

text \<open>\<^verbatim>\<open>MemControl::NewNode\<close>: every node gets the slot count of a leaf.\<close>

definition new_node_buf :: "nat \<Rightarrow> sortbuffer" where
  "new_node_buf suffix_len =
     (let h1 = set_nib fresh_header 1 suffix_len;
          h2 = set_nib h1 0 (8 - suffix_len);
          h3 = set_nib h2 2 0;
          b = \<lparr>header = h3, sb_buf = replicate kv_buf_size 0\<rparr>
      in b\<lparr>header := set_nib h3 3 (sb_MaxEntries 8 b)\<rparr>)"

definition cl_new_node :: "clmem \<Rightarrow> node_type \<Rightarrow> nat \<Rightarrow> (clmem \<times> nat) option" where
  "cl_new_node m t suffix_len =
     (if 0 < suffix_len \<and> suffix_len \<le> 8 \<and> cur_addr m + node_size < end_addr m then
        let ret = cur_addr m;
            m1 = m\<lparr>cur_addr := ret + node_size\<rparr>
        in Some (set_node m1 ret \<lparr>ntype = t, nlink = 0, nbuf = new_node_buf suffix_len\<rparr>, ret)
      else None)"

text \<open>\<^verbatim>\<open>MemControl::Allocate<T>\<close> for an object of the given size, and \<^verbatim>\<open>Usage\<close>.\<close>

definition cl_allocate :: "clmem \<Rightarrow> nat \<Rightarrow> (clmem \<times> nat) option" where
  "cl_allocate m sz =
     (if cur_addr m + sz < end_addr m then Some (m\<lparr>cur_addr := cur_addr m + sz\<rparr>, cur_addr m) else None)"

definition cl_usage :: "clmem \<Rightarrow> nat" where
  "cl_usage m = cur_addr m"

subsection \<open>Links\<close>

definition six_bytes :: "nat \<Rightarrow> u64" where
  "six_bytes a = take_bit 48 (of_nat a)"

definition read_six :: "u64 \<Rightarrow> nat" where
  "read_six w = unat (take_bit 48 w)"

definition cl_get_child :: "clnode \<Rightarrow> nat \<Rightarrow> nat" where
  "cl_get_child nd pos =
     (if pos = 0 then read_six (nlink nd) else unat (sb_sort_value 6 (nbuf nd) (pos - 1)))"

definition cl_get_next :: "clnode \<Rightarrow> nat option" where
  "cl_get_next nd = (if bit (nlink nd) 0 then None else Some (read_six (nlink nd)))"

text \<open>\<^verbatim>\<open>FindLeaf\<close> and \<^verbatim>\<open>FindHead\<close>, with a bound on the height.\<close>

fun cl_find_leaf :: "nat \<Rightarrow> clmem \<Rightarrow> nat \<Rightarrow> u64 \<Rightarrow> nat option" where
  "cl_find_leaf 0 m a key = None"
| "cl_find_leaf (Suc f) m a key =
     do {
       nd \<leftarrow> heap m a;
       if ntype nd = LEAF then Some a
       else if ntype nd = INVALID then None
       else cl_find_leaf f m (cl_get_child nd (nat (fst (sb_find_le (nbuf nd) key) + 1))) key
     }"

fun cl_find_head :: "nat \<Rightarrow> clmem \<Rightarrow> nat \<Rightarrow> nat option" where
  "cl_find_head 0 m a = None"
| "cl_find_head (Suc f) m a =
     do {
       nd \<leftarrow> heap m a;
       if ntype nd = LEAF then Some a
       else if ntype nd = INVALID then None
       else cl_find_head f m (cl_get_child nd 0)
     }"

subsection \<open>Insertion\<close>

definition cl_put_child :: "clmem \<Rightarrow> nat \<Rightarrow> u64 \<Rightarrow> nat \<Rightarrow> clmem option" where
  "cl_put_child m self key child =
     do {
       nd \<leftarrow> heap m self;
       if ntype nd = INDEX \<and> sb_entries (nbuf nd) < sb_max_entries (nbuf nd) then do {
         let pos = nat (fst (sb_find (nbuf nd) key));
         b \<leftarrow> sb_put 6 (nbuf nd) pos key (of_nat child);
         Some (set_node m self (nd\<lparr>nbuf := b\<rparr>))
       } else None
     }"

text \<open>The two splits of \<^verbatim>\<open>Node::Put\<close>; \<open>nd\<close> is the content of the full node \<open>self\<close>.\<close>

definition cl_new_root :: "clmem \<Rightarrow> nat \<Rightarrow> nat \<Rightarrow> u64 \<Rightarrow> nat \<Rightarrow> (clmem \<times> nat) option" where
  "cl_new_root m self suffix_len sep child =
     do {
       (m1, r) \<leftarrow> cl_new_node m INDEX suffix_len;
       m2 \<leftarrow> mod_node m1 r (\<lambda>n. n\<lparr>nlink := six_bytes self\<rparr>);
       m3 \<leftarrow> cl_put_child m2 r sep child;
       Some (m3, r)
     }"

text \<open>The new node goes into the parent, or with the old one under a new root; the address is
  what \<^verbatim>\<open>Put\<close> returns.\<close>

definition cl_attach :: "clmem \<Rightarrow> nat \<Rightarrow> nat \<Rightarrow> u64 \<Rightarrow> nat \<Rightarrow> nat option \<Rightarrow> (clmem \<times> nat) option" where
  "cl_attach m self suffix_len sep new_node parent =
     (case parent of
        None \<Rightarrow> cl_new_root m self suffix_len sep new_node
      | Some pa \<Rightarrow> do { m1 \<leftarrow> cl_put_child m pa sep new_node; Some (m1, new_node) })"

definition cl_leaf_split :: "clmem \<Rightarrow> nat \<Rightarrow> clnode \<Rightarrow> u64 \<Rightarrow> nat option \<Rightarrow> (clmem \<times> nat) option" where
  "cl_leaf_split m self nd key parent =
     do {
       let n = sb_entries (nbuf nd);
       let suf = sb_suffix_bytes (nbuf nd);
       (m1, new_node) \<leftarrow> cl_new_node m LEAF suf;
       let nb = sb_copy_data 8 (nbuf nd) (new_node_buf suf) (n div 2);
       let m2 = set_node m1 new_node \<lparr>ntype = LEAF, nlink = nlink nd, nbuf = nb\<rparr>;
       let sep = sb_sort_key nb 0 key;
       (m3, ret) \<leftarrow> cl_attach m2 self suf sep new_node parent;
       m4 \<leftarrow> mod_node m3 self (\<lambda>x. x\<lparr>nlink := six_bytes new_node, nbuf := sb_delete_data (nbuf x) (n div 2)\<rparr>);
       Some (m4, ret)
     }"

definition cl_index_split :: "clmem \<Rightarrow> nat \<Rightarrow> clnode \<Rightarrow> u64 \<Rightarrow> nat option \<Rightarrow> (clmem \<times> nat) option" where
  "cl_index_split m self nd key parent =
     do {
       let h = (sb_entries (nbuf nd) + 1) div 2;
       let suf = sb_suffix_bytes (nbuf nd);
       (m1, new_node) \<leftarrow> cl_new_node m INDEX suf;
       let nb = sb_copy_data 6 (nbuf nd) (new_node_buf suf) h;
       let m2 = set_node m1 new_node
                  \<lparr>ntype = INDEX, nlink = sb_sort_value 6 (nbuf nd) (h - 1), nbuf = nb\<rparr>;
       let sep = sb_sort_key (nbuf nd) (h - 1) key;
       (m3, ret) \<leftarrow> cl_attach m2 self suf sep new_node parent;
       m4 \<leftarrow> mod_node m3 self (\<lambda>x. x\<lparr>nbuf := sb_delete_data (nbuf x) (h - 1)\<rparr>);
       Some (m4, ret)
     }"

definition cl_leaf_put :: "clmem \<Rightarrow> nat \<Rightarrow> clnode \<Rightarrow> u64 \<Rightarrow> u64 \<Rightarrow> nat option \<Rightarrow> (clmem \<times> nat) option" where
  "cl_leaf_put m self nd key value parent =
     (let (pos, exist) = sb_find (nbuf nd) key in
      if exist then
        Some (set_node m self (nd\<lparr>nbuf := sb_update 8 (nbuf nd) (nat pos) value\<rparr>), self)
      else do {
        b \<leftarrow> sb_put 8 (nbuf nd) (nat pos) key value;
        let nd1 = nd\<lparr>nbuf := b\<rparr>;
        let m1 = set_node m self nd1;
        if sb_entries b = sb_max_entries b then cl_leaf_split m1 self nd1 key parent
        else Some (m1, self)
      })"

fun cl_node_put :: "nat \<Rightarrow> clmem \<Rightarrow> nat \<Rightarrow> u64 \<Rightarrow> u64 \<Rightarrow> nat option \<Rightarrow> (clmem \<times> nat) option" where
  "cl_node_put 0 m self key value parent = None"
| "cl_node_put (Suc f) m self key value parent =
     do {
       nd \<leftarrow> heap m self;
       case ntype nd of
         LEAF \<Rightarrow> cl_leaf_put m self nd key value parent
       | INDEX \<Rightarrow> do {
           let child = cl_get_child nd (nat (fst (sb_find_le (nbuf nd) key) + 1));
           (m1, new_child) \<leftarrow> cl_node_put f m child key value (Some self);
           if new_child \<noteq> child then do {
             nd1 \<leftarrow> heap m1 self;
             if sb_entries (nbuf nd1) = sb_max_entries (nbuf nd1)
             then cl_index_split m1 self nd1 key parent
             else Some (m1, self)
           } else Some (m1, self)
         }
       | INVALID \<Rightarrow> None
     }"

subsection \<open>Lookup, update and deletion\<close>

definition cl_node_update :: "nat \<Rightarrow> clmem \<Rightarrow> nat \<Rightarrow> u64 \<Rightarrow> u64 \<Rightarrow> (clmem \<times> bool) option" where
  "cl_node_update f m self key value =
     do {
       leaf \<leftarrow> cl_find_leaf f m self key;
       nd \<leftarrow> heap m leaf;
       let (pos, exist) = sb_find (nbuf nd) key;
       if exist then Some (set_node m leaf (nd\<lparr>nbuf := sb_update 8 (nbuf nd) (nat pos) value\<rparr>), True)
       else None
     }"

definition cl_node_get :: "nat \<Rightarrow> clmem \<Rightarrow> nat \<Rightarrow> u64 \<Rightarrow> (u64 option) option" where
  "cl_node_get f m self key =
     do {
       leaf \<leftarrow> cl_find_leaf f m self key;
       nd \<leftarrow> heap m leaf;
       let (pos, exist) = sb_find (nbuf nd) key;
       Some (if exist then Some (sb_sort_value 8 (nbuf nd) (nat pos)) else None)
     }"

text \<open>\<^verbatim>\<open>Delete\<close>: the returned flag (always true) and the value it stores through the pointer.\<close>

definition cl_node_delete :: "nat \<Rightarrow> clmem \<Rightarrow> nat \<Rightarrow> u64 \<Rightarrow> (clmem \<times> bool \<times> u64 option) option" where
  "cl_node_delete f m self key =
     do {
       leaf \<leftarrow> cl_find_leaf f m self key;
       nd \<leftarrow> heap m leaf;
       let (pos, exist) = sb_find (nbuf nd) key;
       if exist then
         Some (set_node m leaf (nd\<lparr>nbuf := sb_delete (nbuf nd) (nat pos)\<rparr>), True,
               Some (sb_sort_value 8 (nbuf nd) (nat pos)))
       else Some (m, True, None)
     }"

subsection \<open>The tree\<close>

text \<open>\<^verbatim>\<open>CLevel\<close> is the six bytes of its root link; an odd link is NULL.\<close>

type_synonym clevel = u64

definition cl_null :: clevel where "cl_null = 1"

definition cl_has_setup :: "clevel \<Rightarrow> bool" where
  "cl_has_setup c \<longleftrightarrow> \<not> bit c 0"

definition cl_root :: "clevel \<Rightarrow> nat" where
  "cl_root c = read_six c"

text \<open>Storing 1 into the first byte of a link.\<close>

definition null_link :: "u64 \<Rightarrow> u64" where
  "null_link w = (w AND NOT (mask 8)) OR 1"

definition cl_setup :: "clmem \<Rightarrow> nat \<Rightarrow> (clmem \<times> clevel) option" where
  "cl_setup m suffix_len =
     do {
       (m1, r) \<leftarrow> cl_new_node m LEAF suffix_len;
       m2 \<leftarrow> mod_node m1 r (\<lambda>n. n\<lparr>nlink := null_link (nlink n)\<rparr>);
       Some (m2, six_bytes r)
     }"

definition cl_setup_kv :: "clmem \<Rightarrow> kvbuffer \<Rightarrow> (clmem \<times> clevel) option" where
  "cl_setup_kv m kvb =
     do {
       (m1, r) \<leftarrow> cl_new_node m LEAF (suffix_bytes kvb);
       m2 \<leftarrow> mod_node m1 r (\<lambda>n. n\<lparr>nbuf := sb_from_kvbuffer (nbuf n) kvb, nlink := null_link (nlink n)\<rparr>);
       Some (m2, six_bytes r)
     }"

definition cl_put :: "nat \<Rightarrow> clmem \<Rightarrow> clevel \<Rightarrow> u64 \<Rightarrow> u64 \<Rightarrow> (clmem \<times> clevel \<times> bool) option" where
  "cl_put f m c key value =
     do {
       let old_root = cl_root c;
       (m1, new_root) \<leftarrow> cl_node_put f m old_root key value None;
       Some (m1, if old_root \<noteq> new_root then six_bytes new_root else c, True)
     }"

definition cl_update :: "nat \<Rightarrow> clmem \<Rightarrow> clevel \<Rightarrow> u64 \<Rightarrow> u64 \<Rightarrow> (clmem \<times> bool) option" where
  "cl_update f m c key value = cl_node_update f m (cl_root c) key value"

definition cl_get :: "nat \<Rightarrow> clmem \<Rightarrow> clevel \<Rightarrow> u64 \<Rightarrow> (u64 option) option" where
  "cl_get f m c key = cl_node_get f m (cl_root c) key"

definition cl_delete :: "nat \<Rightarrow> clmem \<Rightarrow> clevel \<Rightarrow> u64 \<Rightarrow> (clmem \<times> bool \<times> u64 option) option" where
  "cl_delete f m c key = cl_node_delete f m (cl_root c) key"

subsection \<open>Iteration\<close>

text \<open>\<^verbatim>\<open>CLevel::Iter\<close>: the current leaf (\<open>None\<close> at the end) and the sorted position in it.  The
  loops that skip empty leaves get a bound on the number of leaves.\<close>

record cliter =
  it_cur :: "nat option"
  it_idx :: nat

fun cl_skip_empty :: "nat \<Rightarrow> clmem \<Rightarrow> nat option \<Rightarrow> nat option option" where
  "cl_skip_empty 0 m cur = None"
| "cl_skip_empty (Suc f) m cur =
     (case cur of
        None \<Rightarrow> Some None
      | Some a \<Rightarrow> do {
          nd \<leftarrow> heap m a;
          if sb_empty (nbuf nd) then cl_skip_empty f m (cl_get_next nd) else Some (Some a)
        })"

text \<open>The constructor without a start key, and the one with a start key.\<close>

definition cl_iter_begin :: "nat \<Rightarrow> clmem \<Rightarrow> clevel \<Rightarrow> cliter option" where
  "cl_iter_begin f m c =
     do {
       a \<leftarrow> cl_find_head f m (cl_root c);
       cur \<leftarrow> cl_skip_empty f m (Some a);
       Some \<lparr>it_cur = cur, it_idx = 0\<rparr>
     }"

definition cl_iter_from :: "nat \<Rightarrow> clmem \<Rightarrow> clevel \<Rightarrow> u64 \<Rightarrow> u64 \<Rightarrow> cliter option" where
  "cl_iter_from f m c prefix_key start_key =
     (if start_key \<le> prefix_key then do {
        a \<leftarrow> cl_find_leaf f m (cl_root c) prefix_key;
        cur \<leftarrow> cl_skip_empty f m (Some a);
        Some \<lparr>it_cur = cur, it_idx = 0\<rparr>
      } else do {
        a \<leftarrow> cl_find_leaf f m (cl_root c) start_key;
        cur \<leftarrow> cl_skip_empty f m (Some a);
        case cur of
          None \<Rightarrow> Some \<lparr>it_cur = None, it_idx = 0\<rparr>
        | Some b \<Rightarrow> do {
            nd \<leftarrow> heap m b;
            let (pos, exist) = sb_find_le (nbuf nd) start_key;
            let idx = (if exist then pos else pos + 1);
            if idx \<ge> int (sb_entries (nbuf nd)) then do {
              cur2 \<leftarrow> cl_skip_empty f m (cl_get_next nd);
              Some \<lparr>it_cur = cur2, it_idx = 0\<rparr>
            } else Some \<lparr>it_cur = Some b, it_idx = nat idx\<rparr>
          }
      })"

definition cl_iter_end :: "cliter \<Rightarrow> bool" where
  "cl_iter_end it \<longleftrightarrow> it_cur it = None"

definition cl_iter_key :: "clmem \<Rightarrow> u64 \<Rightarrow> cliter \<Rightarrow> u64 option" where
  "cl_iter_key m prefix_key it =
     do { a \<leftarrow> it_cur it; nd \<leftarrow> heap m a; Some (sb_sort_key (nbuf nd) (it_idx it) prefix_key) }"

definition cl_iter_value :: "clmem \<Rightarrow> cliter \<Rightarrow> u64 option" where
  "cl_iter_value m it =
     do { a \<leftarrow> it_cur it; nd \<leftarrow> heap m a; Some (sb_sort_value 8 (nbuf nd) (it_idx it)) }"

definition cl_iter_next :: "nat \<Rightarrow> clmem \<Rightarrow> cliter \<Rightarrow> (cliter \<times> bool) option" where
  "cl_iter_next f m it =
     do {
       a \<leftarrow> it_cur it;
       nd \<leftarrow> heap m a;
       let idx = it_idx it + 1;
       if idx \<ge> sb_entries (nbuf nd) then do {
         cur \<leftarrow> cl_skip_empty f m (cl_get_next nd);
         Some (\<lparr>it_cur = cur, it_idx = 0\<rparr>, cur \<noteq> None)
       } else Some (it\<lparr>it_idx := idx\<rparr>, True)
     }"

text \<open>\<^verbatim>\<open>NoSortIter\<close> differs only in the constructor with a start key, which does not search
  inside the leaf.\<close>

definition cl_nosort_iter_from :: "nat \<Rightarrow> clmem \<Rightarrow> clevel \<Rightarrow> u64 \<Rightarrow> cliter option" where
  "cl_nosort_iter_from f m c start_key =
     do {
       a \<leftarrow> cl_find_leaf f m (cl_root c) start_key;
       cur \<leftarrow> cl_skip_empty f m (Some a);
       Some \<lparr>it_cur = cur, it_idx = 0\<rparr>
     }"

text \<open>What a client loop \<^verbatim>\<open>do ... while (it.next())\<close> reads, with a bound on the pairs.\<close>

fun cl_iter_collect :: "nat \<Rightarrow> nat \<Rightarrow> clmem \<Rightarrow> u64 \<Rightarrow> cliter \<Rightarrow> kv list option" where
  "cl_iter_collect f 0 m p it = (if cl_iter_end it then Some [] else None)"
| "cl_iter_collect f (Suc n) m p it =
     (if cl_iter_end it then Some []
      else do {
        k \<leftarrow> cl_iter_key m p it;
        v \<leftarrow> cl_iter_value m it;
        (it', more) \<leftarrow> cl_iter_next f m it;
        rest \<leftarrow> cl_iter_collect f n m p it';
        Some ((k, v) # rest)
      })"

end
