(* ===== verification/CLevelTree.thy ===== *)
theory CLevelTree
  imports CLevel
begin

text \<open>
  The tree that a C-level region holds, as a value: \<open>ct\<close> gives every node its address, a leaf
  its pairs and its link, an index node its separators and its children.  This theory has the
  order invariant of such a tree, the pairs it holds from left to right, and what replacing or
  splitting one child does to both.  CLevelProofs connects the trees to the heap.
\<close>

datatype ct = Lf nat "kv list" u64 | Ix nat "u64 list" "ct list"

fun ct_addr :: "ct \<Rightarrow> nat" where
  "ct_addr (Lf a xs n) = a"
| "ct_addr (Ix a ks cs) = a"

fun ct_addrs :: "ct \<Rightarrow> nat list" where
  "ct_addrs (Lf a xs n) = [a]"
| "ct_addrs (Ix a ks cs) = a # concat (map ct_addrs cs)"

fun ct_flat :: "ct \<Rightarrow> kv list" where
  "ct_flat (Lf a xs n) = xs"
| "ct_flat (Ix a ks cs) = concat (map ct_flat cs)"

text \<open>The leaves with their links, from left to right.\<close>

fun ct_leaves :: "ct \<Rightarrow> (nat \<times> kv list \<times> u64) list" where
  "ct_leaves (Lf a xs n) = [(a, xs, n)]"
| "ct_leaves (Ix a ks cs) = concat (map ct_leaves cs)"

text \<open>The keys of a tree lie in \<open>[lo, hi)\<close>; a separator is above the keys to its left and not
  above those to its right.\<close>

fun ordd :: "nat \<Rightarrow> nat \<Rightarrow> ct \<Rightarrow> bool"
  and ords :: "nat \<Rightarrow> nat \<Rightarrow> u64 list \<Rightarrow> ct list \<Rightarrow> bool" where
  "ordd lo hi (Lf a xs n) \<longleftrightarrow> keys_sorted xs \<and> (\<forall>x \<in> set xs. lo \<le> unat (fst x) \<and> unat (fst x) < hi)"
| "ordd lo hi (Ix a ks cs) \<longleftrightarrow> ords lo hi ks cs"
| "ords lo hi [] [] \<longleftrightarrow> False"
| "ords lo hi (k # ks) [] \<longleftrightarrow> False"
| "ords lo hi [] (c # cs) \<longleftrightarrow> cs = [] \<and> ordd lo hi c"
| "ords lo hi (k # ks) (c # cs) \<longleftrightarrow>
     lo < unat k \<and> unat k < hi \<and> ordd lo (unat k) c \<and> ords (unat k) hi ks cs"

lemma ords_length: "ords lo hi ks cs \<Longrightarrow> length cs = Suc (length ks)"
proof (induction ks arbitrary: lo cs)
  case Nil
  then show ?case by (cases cs) auto
next
  case (Cons k ks)
  then show ?case by (cases cs) auto
qed

lemma ord_bounds:
  "ordd lo hi t \<Longrightarrow> lo \<le> hi \<Longrightarrow> keys_sorted (ct_flat t) \<and> (\<forall>x \<in> set (ct_flat t). lo \<le> unat (fst x) \<and> unat (fst x) < hi)"
  "ords lo hi ks cs \<Longrightarrow> lo \<le> hi \<Longrightarrow> keys_sorted (concat (map ct_flat cs)) \<and>
    (\<forall>x \<in> set (concat (map ct_flat cs)). lo \<le> unat (fst x) \<and> unat (fst x) < hi)"
proof (induction lo hi t and lo hi ks cs rule: ordd_ords.induct)
  case (6 lo hi k ks c cs)
  then have l: "keys_sorted (ct_flat c)" "\<forall>x \<in> set (ct_flat c). lo \<le> unat (fst x) \<and> unat (fst x) < unat k"
    and r: "keys_sorted (concat (map ct_flat cs))"
      "\<forall>x \<in> set (concat (map ct_flat cs)). unat k \<le> unat (fst x) \<and> unat (fst x) < hi"
    and k: "lo < unat k" "unat k < hi" by auto
  have "keys_sorted (ct_flat c @ concat (map ct_flat cs))"
    unfolding keys_sorted_append using l r by (fastforce simp: word_less_nat_alt)
  moreover have "lo \<le> unat (fst x) \<and> unat (fst x) < hi" if "x \<in> set (ct_flat c @ concat (map ct_flat cs))" for x
    using that l(2) r(2) k by (metis (no_types, lifting) Un_iff dual_order.strict_trans1 less_imp_le order_trans set_append)
  ultimately show ?case by simp
qed auto

text \<open>Insertion into the sorted list of all pairs.\<close>

definition ins :: "u64 \<Rightarrow> u64 \<Rightarrow> kv list \<Rightarrow> kv list" where
  "ins k v xs = takeWhile (\<lambda>x. fst x < k) xs @ (k, v) # dropWhile (\<lambda>x. fst x \<le> k) xs"

lemma ins_below:
  assumes "\<forall>x \<in> set xs. fst x < k"
  shows "ins k v (xs @ ys) = xs @ ins k v ys"
proof -
  have "\<forall>x \<in> set xs. fst x \<le> k" using assms by (auto simp: less_imp_le)
  then show ?thesis using assms by (simp add: ins_def)
qed

lemma ins_above:
  assumes "\<forall>x \<in> set ys. k < fst x"
  shows "ins k v (xs @ ys) = ins k v xs @ ys"
proof -
  have tw: "takeWhile (\<lambda>x. fst x < k) (xs @ ys) = takeWhile (\<lambda>x. fst x < k) xs"
    using assms by (induction xs) (cases ys, auto)
  have "dropWhile (\<lambda>x. fst x \<le> k) (xs @ ys) = dropWhile (\<lambda>x. fst x \<le> k) xs @ ys"
    using assms by (induction xs) (cases ys, auto)
  with tw show ?thesis by (simp add: ins_def)
qed

lemma ins_insert_at:
  assumes "keys_sorted xs" "\<forall>a \<in> set (take i xs). fst a < k" "\<forall>b \<in> set (drop i xs). k < fst b"
  shows "ins k v xs = insert_at i (k, v) xs"
proof -
  have "ins k v (take i xs @ drop i xs) = take i xs @ ins k v (drop i xs)" using assms(2) by (rule ins_below)
  also have "ins k v (drop i xs) = (k, v) # drop i xs"
    using ins_above[of "drop i xs" k v "[]"] assms(3) by (simp add: ins_def)
  finally show ?thesis by (simp add: insert_at_def)
qed

lemma ins_update:
  assumes "keys_sorted xs" "i < length xs" "fst (xs ! i) = k"
  shows "ins k v xs = xs[i := (k, v)]"
proof -
  have split: "xs = take i xs @ xs ! i # drop (Suc i) xs" using assms(2) by (rule id_take_nth_drop)
  then have s: "keys_sorted (take i xs @ xs ! i # drop (Suc i) xs)" using assms(1) by metis
  then have "\<forall>a \<in> set (take i xs). fst a < k" "\<forall>b \<in> set (drop (Suc i) xs). k < fst b"
    using assms(3) by (auto simp: keys_sorted_append keys_sorted_Cons)
  then have "ins k v (take i xs @ [xs ! i] @ drop (Suc i) xs) = take i xs @ ins k v [xs ! i] @ drop (Suc i) xs"
    using ins_below ins_above by metis
  also have "ins k v [xs ! i] = [(k, v)]" using assms(3) by (simp add: ins_def)
  finally show ?thesis using split assms(2) by (simp add: upd_conv_take_nth_drop)
qed

lemma ins_spec:
  assumes "keys_sorted xs"
  shows "keys_sorted (ins k v xs)" "map_of (ins k v xs) = (map_of xs)(k \<mapsto> v)"
    "set (ins k v xs) \<subseteq> insert (k, v) (set xs)" "(k, v) \<in> set (ins k v xs)"
proof -
  show "(k, v) \<in> set (ins k v xs)" "set (ins k v xs) \<subseteq> insert (k, v) (set xs)"
    by (auto simp: ins_def dest: set_takeWhileD set_dropWhileD)
  have "keys_sorted (ins k v xs) \<and> map_of (ins k v xs) = (map_of xs)(k \<mapsto> v)"
  proof (cases "\<exists>i < length xs. fst (xs ! i) = k")
    case True
    then obtain i where i: "i < length xs" "fst (xs ! i) = k" by blast
    then show ?thesis using ins_update[OF assms i] keys_sorted_update[OF assms i(1), of v]
        map_of_update_at[OF keys_sorted_distinct[OF assms] i(1), of v] by simp
  next
    case False
    define i where "i = length (takeWhile (\<lambda>x. fst x < k) xs)"
    have tk: "take i xs = takeWhile (\<lambda>x. fst x < k) xs" by (metis i_def takeWhile_eq_take)
    have dr: "drop i xs = dropWhile (\<lambda>x. fst x < k) xs" by (metis i_def dropWhile_eq_drop)
    have lo: "\<forall>a \<in> set (take i xs). fst a < k" unfolding tk by (auto dest: set_takeWhileD)
    have hi: "\<forall>b \<in> set (drop i xs). k < fst b"
    proof (cases "drop i xs")
      case (Cons y ys)
      then have y: "\<not> fst y < k" unfolding dr by (metis dropWhile_eq_Cons_conv)
      have "y \<in> set xs" using Cons by (metis in_set_dropD list.set_intros(1))
      then have "fst y \<noteq> k" using False by (auto simp: in_set_conv_nth)
      with y have "k < fst y" by auto
      moreover have "keys_sorted (y # ys)" using keys_sorted_drop[OF assms, of i] Cons by simp
      ultimately show ?thesis unfolding Cons by (auto simp: keys_sorted_Cons)
    qed simp
    have "\<forall>a \<in> set xs. fst a \<noteq> k" using False by (metis in_set_conv_nth)
    then show ?thesis unfolding ins_insert_at[OF assms lo hi]
      using keys_sorted_insert_at[OF assms lo hi] by (simp add: map_of_insert_at)
  qed
  then show "keys_sorted (ins k v xs)" "map_of (ins k v xs) = (map_of xs)(k \<mapsto> v)" by blast+
qed

subsection \<open>One child among its siblings\<close>

definition low_of :: "nat \<Rightarrow> u64 list \<Rightarrow> nat \<Rightarrow> nat" where
  "low_of lo ks i = (lo # map unat ks) ! i"

definition high_of :: "nat \<Rightarrow> u64 list \<Rightarrow> nat \<Rightarrow> nat" where
  "high_of hi ks i = (map unat ks @ [hi]) ! i"

lemma ords_child:
  assumes "ords lo hi ks cs" "i < length cs" "lo < hi"
  shows "ordd (low_of lo ks i) (high_of hi ks i) (cs ! i)" "lo \<le> low_of lo ks i"
    "low_of lo ks i < high_of hi ks i" "high_of hi ks i \<le> hi"
    "ordd (low_of lo ks i) (high_of hi ks i) t1 \<Longrightarrow> ords lo hi ks (cs[i := t1])"
    "low_of lo ks i < unat k \<Longrightarrow> unat k < high_of hi ks i \<Longrightarrow> ordd (low_of lo ks i) (unat k) t1 \<Longrightarrow>
      ordd (unat k) (high_of hi ks i) t2 \<Longrightarrow>
      ords lo hi (insert_at i k ks) (insert_at (Suc i) t2 (cs[i := t1]))"
proof -
  have "ordd (low_of lo ks i) (high_of hi ks i) (cs ! i) \<and> lo \<le> low_of lo ks i \<and>
    low_of lo ks i < high_of hi ks i \<and> high_of hi ks i \<le> hi \<and>
    (ordd (low_of lo ks i) (high_of hi ks i) t1 \<longrightarrow> ords lo hi ks (cs[i := t1])) \<and>
    (low_of lo ks i < unat k \<longrightarrow> unat k < high_of hi ks i \<longrightarrow> ordd (low_of lo ks i) (unat k) t1 \<longrightarrow>
      ordd (unat k) (high_of hi ks i) t2 \<longrightarrow>
      ords lo hi (insert_at i k ks) (insert_at (Suc i) t2 (cs[i := t1])))"
    using assms
  proof (induction ks arbitrary: lo cs i)
    case Nil
    then show ?case by (cases cs) (auto simp: low_of_def high_of_def insert_at_def)
  next
    case (Cons x ks)
    then obtain c cs' where cs: "cs = c # cs'" by (cases cs) auto
    note pr = Cons.prems(1)[unfolded cs ords.simps]
    show ?case
    proof (cases i)
      case 0
      then show ?thesis using pr unfolding cs
        by (auto simp: low_of_def high_of_def insert_at_def)
    next
      case (Suc j)
      have "ords (unat x) hi ks cs'" "j < length cs'" "unat x < hi" using pr Cons.prems(2) Suc cs by auto
      note IH = Cons.IH[OF this]
      have "low_of lo (x # ks) i = low_of (unat x) ks j" "high_of hi (x # ks) i = high_of hi ks j"
        using Suc by (simp_all add: low_of_def high_of_def)
      then show ?thesis using IH pr unfolding cs Suc by (auto simp: insert_at_def)
    qed
  qed
  then show "ordd (low_of lo ks i) (high_of hi ks i) (cs ! i)" "lo \<le> low_of lo ks i"
    "low_of lo ks i < high_of hi ks i" "high_of hi ks i \<le> hi"
    "ordd (low_of lo ks i) (high_of hi ks i) t1 \<Longrightarrow> ords lo hi ks (cs[i := t1])"
    "low_of lo ks i < unat k \<Longrightarrow> unat k < high_of hi ks i \<Longrightarrow> ordd (low_of lo ks i) (unat k) t1 \<Longrightarrow>
      ordd (unat k) (high_of hi ks i) t2 \<Longrightarrow>
      ords lo hi (insert_at i k ks) (insert_at (Suc i) t2 (cs[i := t1]))" by blast+
qed

text \<open>Cutting an index node at separator \<open>i\<close>.\<close>

lemma ords_cut:
  assumes "ords lo hi ks cs" "i < length ks"
  shows "lo < unat (ks ! i)" "unat (ks ! i) < hi" "ords lo (unat (ks ! i)) (take i ks) (take (Suc i) cs)"
    "ords (unat (ks ! i)) hi (drop (Suc i) ks) (drop (Suc i) cs)"
proof -
  have "lo < unat (ks ! i) \<and> unat (ks ! i) < hi \<and>
    ords lo (unat (ks ! i)) (take i ks) (take (Suc i) cs) \<and>
    ords (unat (ks ! i)) hi (drop (Suc i) ks) (drop (Suc i) cs)"
    using assms
  proof (induction ks arbitrary: lo cs i)
    case (Cons x ks)
    then obtain c cs' where cs: "cs = c # cs'" by (cases cs) auto
    note pr = Cons.prems(1)[unfolded cs ords.simps]
    show ?case
    proof (cases i)
      case 0
      then show ?thesis using pr unfolding cs by auto
    next
      case (Suc j)
      then have "j < length ks" using Cons.prems(2) by simp
      with pr Cons.IH[of "unat x" cs' j] show ?thesis unfolding cs Suc by auto
    qed
  qed simp
  then show "lo < unat (ks ! i)" "unat (ks ! i) < hi"
    "ords lo (unat (ks ! i)) (take i ks) (take (Suc i) cs)"
    "ords (unat (ks ! i)) hi (drop (Suc i) ks) (drop (Suc i) cs)" by blast+
qed

lemma ords_flat_sides:
  assumes "ords lo hi ks cs" "i < length cs" "lo < hi"
  shows "\<forall>x \<in> set (concat (map ct_flat (take i cs))). unat (fst x) < low_of lo ks i"
    "\<forall>x \<in> set (concat (map ct_flat (drop (Suc i) cs))). high_of hi ks i \<le> unat (fst x)"
proof -
  have "(\<forall>x \<in> set (concat (map ct_flat (take i cs))). unat (fst x) < low_of lo ks i) \<and>
    (\<forall>x \<in> set (concat (map ct_flat (drop (Suc i) cs))). high_of hi ks i \<le> unat (fst x))"
    using assms
  proof (induction ks arbitrary: lo cs i)
    case Nil
    then show ?case by (cases cs) auto
  next
    case (Cons x ks)
    then obtain c cs' where cs: "cs = c # cs'" by (cases cs) auto
    note pr = Cons.prems(1)[unfolded cs ords.simps]
    show ?case
    proof (cases i)
      case 0
      then show ?thesis using pr ord_bounds(2)[of "unat x" hi ks cs'] unfolding cs
        by (auto simp: high_of_def)
    next
      case (Suc j)
      have j: "ords (unat x) hi ks cs'" "j < length cs'" "unat x < hi" using pr Cons.prems(2) Suc cs by auto
      note IH = Cons.IH[OF this]
      have eq: "low_of lo (x # ks) i = low_of (unat x) ks j" "high_of hi (x # ks) i = high_of hi ks j"
        using Suc by (simp_all add: low_of_def high_of_def)
      have "unat (fst y) < low_of (unat x) ks j" if "y \<in> set (ct_flat c)" for y
        using ord_bounds(1)[of lo "unat x" c] pr that ords_child(2)[OF j] by fastforce
      then show ?thesis using IH unfolding cs Suc eq[unfolded Suc] by auto
    qed
  qed
  then show "\<forall>x \<in> set (concat (map ct_flat (take i cs))). unat (fst x) < low_of lo ks i"
    "\<forall>x \<in> set (concat (map ct_flat (drop (Suc i) cs))). high_of hi ks i \<le> unat (fst x)" by blast+
qed

lemma concat_split_at:
  "i < length xs \<Longrightarrow> concat xs = concat (take i xs) @ xs ! i @ concat (drop (Suc i) xs)"
  by (metis concat.simps(2) concat_append id_take_nth_drop)

text \<open>Inserting into one child inserts into the whole.\<close>

lemma ins_child:
  assumes "ords lo hi ks cs" "i < length cs" "lo < hi"
    "low_of lo ks i \<le> unat k" "unat k < high_of hi ks i"
  shows "ins k v (concat (map ct_flat cs)) =
    concat (map ct_flat (take i cs)) @ ins k v (ct_flat (cs ! i)) @ concat (map ct_flat (drop (Suc i) cs))"
proof -
  have l: "\<forall>x \<in> set (concat (map ct_flat (take i cs))). fst x < k"
    using ords_flat_sides(1)[OF assms(1-3)] assms(4) by (fastforce simp: word_less_nat_alt)
  have r: "\<forall>x \<in> set (concat (map ct_flat (drop (Suc i) cs))). k < fst x"
    using ords_flat_sides(2)[OF assms(1-3)] assms(5) by (fastforce simp: word_less_nat_alt)
  have "concat (map ct_flat cs) =
      concat (map ct_flat (take i cs)) @ ct_flat (cs ! i) @ concat (map ct_flat (drop (Suc i) cs))"
    using concat_split_at[of i "map ct_flat cs"] assms(2) by (simp add: take_map drop_map)
  then show ?thesis using ins_below[OF l] ins_above[OF r] by simp
qed

lemma map_of_child:
  assumes "ords lo hi ks cs" "i < length cs" "lo < hi"
    "low_of lo ks i \<le> unat k" "unat k < high_of hi ks i"
  shows "map_of (concat (map ct_flat cs)) k = map_of (ct_flat (cs ! i)) k"
proof -
  have l: "map_of (concat (map ct_flat (take i cs))) k = None"
    using ords_flat_sides(1)[OF assms(1-3)] assms(4) by (intro map_of_notin_range) fastforce
  have r: "map_of (concat (map ct_flat (drop (Suc i) cs))) k = None"
    using ords_flat_sides(2)[OF assms(1-3)] assms(5) by (intro map_of_notin_range) fastforce
  have "concat (map ct_flat cs) =
      concat (map ct_flat (take i cs)) @ ct_flat (cs ! i) @ concat (map ct_flat (drop (Suc i) cs))"
    using concat_split_at[of i "map ct_flat cs"] assms(2) by (simp add: take_map drop_map)
  then show ?thesis using l r by (auto simp: map_add_def split: option.splits)
qed

subsection \<open>The chain of leaves\<close>

text \<open>Every leaf links to the next one, the last to \<open>e\<close>.\<close>

fun chained :: "(nat \<times> kv list \<times> u64) list \<Rightarrow> u64 \<Rightarrow> bool" where
  "chained [] e = True"
| "chained [(a, xs, n)] e = (n = e)"
| "chained ((a, xs, n) # (b, ys, n') # ls) e = (n = six_bytes b \<and> chained ((b, ys, n') # ls) e)"

lemma chained_append:
  "ys \<noteq> [] \<Longrightarrow> chained (xs @ ys) e \<longleftrightarrow> chained xs (six_bytes (fst (hd ys))) \<and> chained ys e"
proof (induction xs e rule: chained.induct)
  case (2 a xs n e)
  then show ?case by (cases ys) auto
qed auto

lemma concat_leaves: "concat (map (\<lambda>l. fst (snd l)) (ct_leaves t)) = ct_flat t"
proof (induction t)
  case (Ix a ks cs)
  then show ?case by (induction cs) auto
qed simp

end
