(* ===== verification/CLevelProofs.thy ===== *)
theory CLevelProofs
  imports CLevelTree
begin

text \<open>
  The heap of a C-level region holds a tree: \<open>rep\<close> says that the node at every address has the
  pairs, separators and links of the abstract tree, at uniform depth.  The main result is that
  \<^verbatim>\<open>Node::Put\<close> acts on the list of all pairs as sorted insertion, keeps every invariant, keeps
  the leaf chain, and needs no more than one new node per level; lookups, updates, deletions
  and the iterators follow.
\<close>

definition max_of :: "nat \<Rightarrow> nat" where
  "max_of s = kv_buf_size div (8 + s)"

definition node_ok :: "nat \<Rightarrow> nat \<Rightarrow> sortbuffer \<Rightarrow> bool" where
  "node_ok vs s b \<longleftrightarrow> sb_wf vs b \<and> sb_prefix_bytes b = 8 - s \<and> sb_suffix_bytes b = s \<and>
     sb_max_entries b = max_of s"

definition leaf_at :: "u64 \<Rightarrow> nat \<Rightarrow> clmem \<Rightarrow> nat \<Rightarrow> kv list \<Rightarrow> u64 \<Rightarrow> bool" where
  "leaf_at p s m a xs n \<longleftrightarrow> (\<exists>nd. heap m a = Some nd \<and> ntype nd = LEAF \<and> nlink nd = n \<and>
     node_ok 8 s (nbuf nd) \<and> sb_items 8 p (nbuf nd) = xs)"

definition index_at :: "u64 \<Rightarrow> nat \<Rightarrow> clmem \<Rightarrow> nat \<Rightarrow> u64 list \<Rightarrow> ct list \<Rightarrow> bool" where
  "index_at p s m a ks cs \<longleftrightarrow> (\<exists>nd. heap m a = Some nd \<and> ntype nd = INDEX \<and>
     nlink nd = six_bytes (ct_addr (hd cs)) \<and> node_ok 6 s (nbuf nd) \<and>
     sb_items 6 p (nbuf nd) = zip ks (map (\<lambda>c. six_bytes (ct_addr c)) (tl cs)))"

fun rep :: "u64 \<Rightarrow> nat \<Rightarrow> clmem \<Rightarrow> nat \<Rightarrow> ct \<Rightarrow> bool" where
  "rep p s m d (Lf a xs n) \<longleftrightarrow> d = 0 \<and> leaf_at p s m a xs n \<and> length xs < max_of s"
| "rep p s m d (Ix a ks cs) \<longleftrightarrow> d \<noteq> 0 \<and> index_at p s m a ks cs \<and> length ks < max_of s \<and>
     length cs = Suc (length ks) \<and> (\<forall>c \<in> set cs. rep p s m (d - 1) c)"

definition mem_ok :: "clmem \<Rightarrow> bool" where
  "mem_ok m \<longleftrightarrow> node_size dvd cur_addr m \<and> end_addr m \<le> 2 ^ 48"

definition addrs_ok :: "clmem \<Rightarrow> nat list \<Rightarrow> bool" where
  "addrs_ok m as \<longleftrightarrow> distinct as \<and> (\<forall>a \<in> set as. a < cur_addr m \<and> node_size dvd a)"

subsection \<open>Sizes and links\<close>

lemma max_of_bounds:
  assumes "0 < s" "s \<le> 8"
  shows "7 \<le> max_of s" "max_of s \<le> 12" "vs \<le> 8 \<Longrightarrow> max_of s * (s + vs) \<le> kv_buf_size"
proof -
  have "s \<in> {1, 2, 3, 4, 5, 6, 7, 8}" using assms by auto
  then show "7 \<le> max_of s" "max_of s \<le> 12" by (auto simp: max_of_def kv_buf_size_def)
  show "max_of s * (s + vs) \<le> kv_buf_size" if "vs \<le> 8"
  proof -
    have "max_of s * (s + vs) \<le> max_of s * (8 + s)" using that by (intro mult_le_mono2) simp
    also have "\<dots> \<le> kv_buf_size" by (simp add: max_of_def)
    finally show ?thesis .
  qed
qed

lemma six_bytes_facts:
  assumes "a < 2 ^ 48"
  shows "six_bytes a = of_nat a" "read_six (six_bytes a) = a" "unat (six_bytes a) = a"
    "value_fits 6 (six_bytes a)" "even a \<Longrightarrow> \<not> bit (six_bytes a) 0"
proof -
  have t: "take_bit 48 a = a" using assms by (simp add: take_bit_nat_eq_self)
  show 1: "six_bytes a = of_nat a" unfolding six_bytes_def by (simp add: take_bit_of_nat t)
  show 2: "unat (six_bytes a) = a" using assms unfolding 1 by (simp add: unat_of_nat)
  have u: "unat (take_bit 48 w) = take_bit 48 (unat w)" for w :: u64
    by (rule unsigned_take_bit_eq)
  show "read_six (six_bytes a) = a" by (simp only: read_six_def u 2 t)
  show "value_fits 6 (six_bytes a)" by (simp add: value_fits_def six_bytes_def)
  show "\<not> bit (six_bytes a) 0" if "even a"
    using that unfolding six_bytes_def by (simp add: bit_take_bit_iff bit_0 even_of_nat_iff)
qed

lemma node_size_even: "node_size dvd a \<Longrightarrow> even a"
  by (auto simp: node_size_def)

subsection \<open>Node buffers\<close>

lemma new_node_buf_ok:
  assumes "0 < s" "s \<le> 8" "vs \<le> 8"
  shows "node_ok vs s (new_node_buf s)" "sb_entries (new_node_buf s) = 0"
    "j < 12 \<Longrightarrow> sb_index (new_node_buf s) j = 11 - j" "sb_items vs p (new_node_buf s) = []"
proof -
  let ?b = "new_node_buf s"
  have m: "max_of s < 16" "s < 16" "8 - s < 16" using max_of_bounds[OF assms(1,2)] assms by auto
  have f: "sb_suffix_bytes ?b = s" "sb_prefix_bytes ?b = 8 - s" "sb_max_entries ?b = max_of s"
    using m by (simp_all add: new_node_buf_def Let_def sb_suffix_bytes_def sb_prefix_bytes_def
        sb_max_entries_def sb_MaxEntries_def nib_set_nib max_of_def)
  show e: "sb_entries ?b = 0"
    by (simp add: new_node_buf_def Let_def sb_entries_def nib_set_nib)
  have fresh: "nib fresh_header (4 + j) = 11 - j" if "j < 12" for j
  proof -
    have "j \<in> {0, 1, 2, 3, 4, 5, 6, 7, 8, 9, 10, 11}" using that by simp arith
    then show ?thesis by (auto simp: nib_def fresh_header_def)
  qed
  show ix: "sb_index ?b j = 11 - j" if "j < 12" for j
    using fresh[OF that] that by (simp add: new_node_buf_def Let_def sb_index_def nib_set_nib)
  have p: "sb_perm ?b = rev [0..<12]"
    by (intro nth_list_ext) (simp_all add: nth_sb_perm ix rev_nth)
  have "length (sb_buf ?b) = kv_buf_size" by (simp add: new_node_buf_def Let_def)
  then have "sb_wf vs ?b"
    using f e p max_of_bounds[OF assms(1,2)] assms by (simp add: sb_wf_def rev_nth)
  then show "node_ok vs s ?b" using f by (simp add: node_ok_def)
  show "sb_items vs p ?b = []" using e by (simp add: sb_items_def)
qed

lemma node_put:
  assumes "node_ok vs s b" "sb_entries b < max_of s" "same_prefix (8 - s) p k" "value_fits vs v"
    "pos \<le> sb_entries b"
  shows "\<exists>b'. sb_put vs b pos k v = Some b' \<and> node_ok vs s b' \<and>
    sb_items vs p b' = insert_at pos (k, v) (sb_items vs p b)"
  using sb_put_refines[of vs b p k v pos] assms by (auto simp: node_ok_def sb_full_def)

lemma node_sort_key_prefix:
  assumes "node_ok vs s b" "s \<le> 8"
  shows "same_prefix (8 - s) p (sb_sort_key b i p)"
proof -
  have "8 - s + s = 8" using assms(2) by simp
  from slot_key_same_prefix[OF this] show ?thesis
    using assms(1) by (auto simp: node_ok_def sb_sort_key_def sb_key_def intro: same_prefix_sym)
qed

lemma node_entries: "sb_items vs p b = xs \<Longrightarrow> sb_entries b = length xs"
  by auto

lemma sb_update_fields [simp]:
  "sb_prefix_bytes (sb_update vs b i v) = sb_prefix_bytes b"
  "sb_suffix_bytes (sb_update vs b i v) = sb_suffix_bytes b"
  "sb_max_entries (sb_update vs b i v) = sb_max_entries b"
  by (simp_all add: sb_update_def)

lemma node_update:
  assumes "node_ok vs s b" "pos < sb_entries b" "value_fits vs v"
  shows "node_ok vs s (sb_update vs b pos v)"
    "sb_items vs p (sb_update vs b pos v) = (sb_items vs p b)[pos := (fst (sb_items vs p b ! pos), v)]"
  using sb_update_refines[of vs b pos v] assms by (auto simp: node_ok_def)

lemma node_delete:
  assumes "node_ok vs s b" "pos < sb_entries b"
  shows "node_ok vs s (sb_delete b pos)"
    "sb_items vs p (sb_delete b pos) = remove_at pos (sb_items vs p b)"
  using sb_delete_refines[of vs b pos] assms by (auto simp: node_ok_def)

lemma node_cut:
  assumes "node_ok vs s b" "sb_items vs p b = xs" "length xs = max_of s" "0 < s" "s \<le> 8"
    "length xs < 12 \<or> 4 \<le> i" "i < length xs"
  shows "node_ok vs s (sb_copy_data vs b (new_node_buf s) i)"
    "sb_items vs p (sb_copy_data vs b (new_node_buf s) i) = drop i xs"
    "node_ok vs s (sb_delete_data b i)" "sb_items vs p (sb_delete_data b i) = take i xs"
proof -
  have e: "i < sb_entries b" using assms(7) node_entries[OF assms(2)] by simp
  have vs: "vs \<le> 8" using assms(1) by (simp add: node_ok_def sb_wf_def)
  note nb = new_node_buf_ok[OF assms(4,5) vs]
  have w: "sb_wf vs b" "sb_wf vs (new_node_buf s)" "sb_prefix_bytes b = sb_prefix_bytes (new_node_buf s)"
    "sb_suffix_bytes b = sb_suffix_bytes (new_node_buf s)"
    "sb_max_entries b \<le> sb_max_entries (new_node_buf s)"
    using assms(1) nb(1) by (auto simp: node_ok_def)
  note c = sb_copy_data_refines[OF w(1,2) nb(2) e w(3-5) nb(3)]
  show "node_ok vs s (sb_copy_data vs b (new_node_buf s) i)" using c nb(1) by (simp add: node_ok_def)
  show "sb_items vs p (sb_copy_data vs b (new_node_buf s) i) = drop i xs" using c(2) assms(2) by simp
  have "sb_entries b < 12 \<or> 4 \<le> i" using assms(6) node_entries[OF assms(2)] by simp
  note dl = sb_delete_data_refines[OF w(1) e this]
  show "node_ok vs s (sb_delete_data b i)" using dl assms(1) by (simp add: node_ok_def)
  show "sb_items vs p (sb_delete_data b i) = take i xs" using dl(2) assms(2) by simp
qed

lemma node_find:
  assumes "node_ok vs s b" "keys_sorted (sb_items vs p b)" "same_prefix (8 - s) p k" "value_fits vs v"
  shows "sb_find b k = (q, True) \<Longrightarrow> 0 \<le> q \<and> nat q < sb_entries b \<and> fst (sb_items vs p b ! nat q) = k \<and>
      map_of (sb_items vs p b) k = Some (sb_sort_value vs b (nat q))"
    and "sb_find b k = (q, False) \<Longrightarrow> 0 \<le> q \<and> nat q \<le> sb_entries b \<and>
      (\<forall>a \<in> set (take (nat q) (sb_items vs p b)). fst a < k) \<and>
      (\<forall>a \<in> set (drop (nat q) (sb_items vs p b)). k < fst a) \<and> map_of (sb_items vs p b) k = None"
proof -
  have pre: "case (vs, p, b) of (vs, p, b) \<Rightarrow> sb_wf vs b" "keys_sorted (case (vs, p, b) of (vs, p, b) \<Rightarrow> sb_items vs p b)"
    "(case (vs, p, b) of (vs, p, b) \<Rightarrow> \<lambda>kv. same_prefix (sb_prefix_bytes b) p (fst kv) \<and> value_fits vs (snd kv)) (k, v)"
    using assms by (auto simp: node_ok_def)
  show "sb_find b k = (q, True) \<Longrightarrow> 0 \<le> q \<and> nat q < sb_entries b \<and> fst (sb_items vs p b ! nat q) = k \<and>
      map_of (sb_items vs p b) k = Some (sb_sort_value vs b (nat q))"
    using sb_ordered.find_hit[OF pre, of q] by simp
  show "sb_find b k = (q, False) \<Longrightarrow> 0 \<le> q \<and> nat q \<le> sb_entries b \<and>
      (\<forall>a \<in> set (take (nat q) (sb_items vs p b)). fst a < k) \<and>
      (\<forall>a \<in> set (drop (nat q) (sb_items vs p b)). k < fst a) \<and> map_of (sb_items vs p b) k = None"
    using sb_ordered.find_miss[OF pre, of q] by simp
qed

subsection \<open>Frames\<close>

lemma ct_addr_in [simp]: "ct_addr t \<in> set (ct_addrs t)"
  by (cases t) auto

lemma rep_frame:
  "rep p s m d t \<Longrightarrow> (\<And>a. a \<in> set (ct_addrs t) \<Longrightarrow> heap m' a = heap m a) \<Longrightarrow> rep p s m' d t"
proof (induction t arbitrary: d)
  case (Lf a xs n)
  then show ?case by (simp add: leaf_at_def)
next
  case (Ix a ks cs)
  have "rep p s m' (d - 1) c" if "c \<in> set cs" for c
    using Ix.prems that by (intro Ix.IH[OF that]) auto
  then show ?case using Ix.prems by (simp add: index_at_def)
qed

lemma set_node_simps [simp]:
  "heap (set_node m a nd) x = (if x = a then Some nd else heap m x)"
  "cur_addr (set_node m a nd) = cur_addr m" "end_addr (set_node m a nd) = end_addr m"
  by (simp_all add: set_node_def)

text \<open>What a region has after an operation on the tree \<open>t\<close>: no other old node is touched, and the
  trees that \<open>t\<close> became use its addresses and fresh ones.\<close>

definition grown :: "clmem \<Rightarrow> clmem \<Rightarrow> nat list \<Rightarrow> nat list \<Rightarrow> bool" where
  "grown m m' as bs \<longleftrightarrow> mem_ok m' \<and> cur_addr m \<le> cur_addr m' \<and> end_addr m' = end_addr m \<and>
     (\<forall>x < cur_addr m. x \<notin> set as \<longrightarrow> heap m' x = heap m x) \<and>
     addrs_ok m' bs \<and> (\<forall>x \<in> set bs. x \<in> set as \<or> cur_addr m \<le> x)"

definition linked_like :: "ct list \<Rightarrow> ct list \<Rightarrow> bool" where
  "linked_like ts us \<longleftrightarrow> concat (map ct_leaves us) \<noteq> [] \<and>
     fst (hd (concat (map ct_leaves us))) = fst (hd (concat (map ct_leaves ts))) \<and>
     (\<forall>e. chained (concat (map ct_leaves ts)) e \<longrightarrow> chained (concat (map ct_leaves us)) e)"

definition put_ok :: "u64 \<Rightarrow> nat \<Rightarrow> nat \<Rightarrow> nat \<Rightarrow> nat \<Rightarrow> u64 \<Rightarrow> u64 \<Rightarrow> clmem \<Rightarrow> ct \<Rightarrow> clmem \<Rightarrow> ct list \<Rightarrow> u64 list \<Rightarrow> bool" where
  "put_ok p s d lo hi k v m t m' ts seps \<longleftrightarrow> ords lo hi seps ts \<and> (\<forall>c \<in> set ts. rep p s m' d c) \<and>
     concat (map ct_flat ts) = ins k v (ct_flat t) \<and> ct_addr (hd ts) = ct_addr t \<and>
     grown m m' (ct_addrs t) (concat (map ct_addrs ts)) \<and> linked_like [t] ts"

definition tree_ok :: "u64 \<Rightarrow> nat \<Rightarrow> clmem \<Rightarrow> nat \<Rightarrow> nat \<Rightarrow> nat \<Rightarrow> ct \<Rightarrow> bool" where
  "tree_ok p s m d lo hi t \<longleftrightarrow> rep p s m d t \<and> ordd lo hi t \<and> addrs_ok m (ct_addrs t)"

lemma leaves_nonempty: "rep p s m d t \<Longrightarrow> ct_leaves t \<noteq> []"
proof (induction t arbitrary: d)
  case (Ix a ks cs)
  then obtain c cs' where "cs = c # cs'" by (cases cs) auto
  then show ?case using Ix by auto
qed simp

lemma linked_like_context:
  assumes "linked_like ts us" "concat (map ct_leaves ts) \<noteq> []"
  shows "linked_like (as @ ts @ bs) (as @ us @ bs)"
proof -
  define A T U B where "A = concat (map ct_leaves as)" and "T = concat (map ct_leaves ts)"
    and "U = concat (map ct_leaves us)" and "B = concat (map ct_leaves bs)"
  have l: "T \<noteq> []" "U \<noteq> []" "fst (hd U) = fst (hd T)" "\<And>e. chained T e \<Longrightarrow> chained U e"
    using assms by (auto simp: linked_like_def T_def U_def)
  have "chained (A @ U @ B) e" if "chained (A @ T @ B) e" for e
    using that l by (cases "B = []") (simp_all add: chained_append)
  moreover have "fst (hd (A @ U @ B)) = fst (hd (A @ T @ B))" using l by (cases A) simp_all
  ultimately show ?thesis using l by (simp add: linked_like_def A_def T_def U_def B_def)
qed

text \<open>A leaf after an update, an insertion and a deletion.\<close>

lemma rep_leaf:
  "rep p s m d (Lf a xs n) \<Longrightarrow> \<exists>nd. heap m a = Some nd \<and> ntype nd = LEAF \<and> nlink nd = n \<and>
     node_ok 8 s (nbuf nd) \<and> sb_items 8 p (nbuf nd) = xs \<and> sb_entries (nbuf nd) = length xs \<and>
     length xs < max_of s \<and> d = 0"
  by (auto simp: leaf_at_def)

lemma cl_new_node_eq:
  assumes "0 < s" "s \<le> 8" "cur_addr m + node_size < end_addr m"
  shows "cl_new_node m t s =
    Some (set_node (m\<lparr>cur_addr := cur_addr m + node_size\<rparr>) (cur_addr m)
            \<lparr>ntype = t, nlink = 0, nbuf = new_node_buf s\<rparr>, cur_addr m)"
  using assms by (simp add: cl_new_node_def Let_def)

lemma take_bit_six: "unat (w :: u64) = a \<Longrightarrow> a < 2 ^ 48 \<Longrightarrow> w = six_bytes a"
  using six_bytes_facts(3)[of a] by (simp add: word_unat_eq_iff)

text \<open>A full leaf split in two: the state before the new node is attached, and what becomes of
  it when the old leaf is cut.\<close>

definition leaf_cut :: "nat \<Rightarrow> nat \<Rightarrow> clnode \<Rightarrow> clnode" where
  "leaf_cut b h nd = nd\<lparr>nlink := six_bytes b, nbuf := sb_delete_data (nbuf nd) h\<rparr>"

lemma leaf_split_refines:
  assumes s: "0 < s" "s \<le> 8" and nd: "ntype nd = LEAF" "node_ok 8 s (nbuf nd)" "sb_items 8 p (nbuf nd) = xs"
    and h: "heap m a = Some nd" and full: "length xs = max_of s"
    and ord: "keys_sorted xs" "\<forall>x \<in> set xs. lo \<le> unat (fst x) \<and> unat (fst x) < hi"
    and m: "mem_ok m" "a < cur_addr m" "node_size dvd a" "cur_addr m + node_size < end_addr m"
    and key: "same_prefix (8 - s) p key"
  shows "\<exists>m2 sep ys zs.
    (\<forall>parent. cl_leaf_split m a nd key parent = do {
       (m3, ret) \<leftarrow> cl_attach m2 a s sep (cur_addr m) parent;
       m4 \<leftarrow> mod_node m3 a (leaf_cut (cur_addr m) (max_of s div 2));
       Some (m4, ret) }) \<and>
    heap m2 a = Some nd \<and> same_prefix (8 - s) p sep \<and> ys @ zs = xs \<and>
    cur_addr m2 = cur_addr m + node_size \<and> end_addr m2 = end_addr m \<and>
    (\<forall>x. x \<noteq> cur_addr m \<longrightarrow> heap m2 x = heap m x) \<and>
    rep p s (set_node m2 a (leaf_cut (cur_addr m) (max_of s div 2) nd)) 0 (Lf a ys (six_bytes (cur_addr m))) \<and>
    rep p s (set_node m2 a (leaf_cut (cur_addr m) (max_of s div 2) nd)) 0 (Lf (cur_addr m) zs (nlink nd)) \<and>
    ords lo hi [sep] [Lf a ys (six_bytes (cur_addr m)), Lf (cur_addr m) zs (nlink nd)]"
proof -
  let ?h = "max_of s div 2" and ?n = "cur_addr m"
  define nb where "nb = sb_copy_data 8 (nbuf nd) (new_node_buf s) ?h"
  define m1 where "m1 = set_node (m\<lparr>cur_addr := ?n + node_size\<rparr>) ?n
            \<lparr>ntype = LEAF, nlink = 0, nbuf = new_node_buf s\<rparr>"
  define m2 where "m2 = set_node m1 ?n \<lparr>ntype = LEAF, nlink = nlink nd, nbuf = nb\<rparr>"
  define sep where "sep = sb_sort_key nb 0 key"
  have e: "sb_entries (nbuf nd) = max_of s" "sb_suffix_bytes (nbuf nd) = s"
    using node_entries[OF nd(3)] full nd(2) by (auto simp: node_ok_def)
  have mx: "7 \<le> max_of s" "max_of s \<le> 12" using max_of_bounds[OF s] by auto
  have hb: "?h < length xs" using mx full by simp
  have "length xs < 12 \<or> 4 \<le> ?h" using mx full by auto
  note cut = node_cut[OF nd(2,3) full s this hb, folded nb_def]
  have sepk: "sep = fst (xs ! ?h)" "same_prefix (8 - s) p sep"
  proof -
    have "sb_entries nb = length xs - ?h" using node_entries[OF cut(2)] by simp
    then have "0 < sb_entries nb" using hb by simp
    then have "sb_sort_key nb 0 p = fst (drop ?h xs ! 0)" using nth_sb_items[of 0 nb 8 p] cut(2) by simp
    moreover have "sep = sb_sort_key nb 0 p" unfolding sep_def
      using cut(1) key by (intro sb_sort_key_prefix[of 8]) (auto simp: node_ok_def)
    ultimately show "sep = fst (xs ! ?h)" using hb by simp
    show "same_prefix (8 - s) p sep" using \<open>sep = sb_sort_key nb 0 p\<close> node_sort_key_prefix[OF cut(1) s(2)] by simp
  qed
  have split: "cl_leaf_split m a nd key parent = do {
       (m3, ret) \<leftarrow> cl_attach m2 a s sep ?n parent;
       m4 \<leftarrow> mod_node m3 a (leaf_cut ?n ?h);
       Some (m4, ret) }" for parent
    using cl_new_node_eq[OF s m(4), of LEAF]
    by (simp add: cl_leaf_split_def e nb_def[symmetric] m1_def[symmetric] m2_def[symmetric] sep_def[symmetric]
        Let_def leaf_cut_def[abs_def])
  have an: "a \<noteq> ?n" using m(2) by simp
  have h2: "heap m2 a = Some nd" using h an by (simp add: m2_def m1_def)
  have r1: "rep p s (set_node m2 a (leaf_cut ?n ?h nd)) 0 (Lf a (take ?h xs) (six_bytes ?n))"
    using cut nd(1) hb full mx by (auto simp: leaf_at_def leaf_cut_def min_def)
  have r2: "rep p s (set_node m2 a (leaf_cut ?n ?h nd)) 0 (Lf ?n (drop ?h xs) (nlink nd))"
    using cut an full mx hb by (auto simp: leaf_at_def m2_def)
  have o: "ords lo hi [sep] [Lf a (take ?h xs) (six_bytes ?n), Lf ?n (drop ?h xs) (nlink nd)]"
  proof -
    have sp: "fst (xs ! i) < sep" if "i < ?h" for i
      using keys_sorted_nth[OF ord(1) that hb] by (simp add: sepk)
    have above: "sep \<le> fst x" if x: "x \<in> set (drop ?h xs)" for x
    proof -
      obtain i where i: "i < length xs - ?h" "x = xs ! (?h + i)" using x by (auto simp: in_set_conv_nth)
      then have "?h + i < length xs" by linarith
      then show ?thesis using i keys_sorted_nth[OF ord(1), of ?h "?h + i"] by (cases "i = 0") (auto simp: sepk)
    qed
    have below: "fst x < sep" if "x \<in> set (take ?h xs)" for x
      using that sp by (auto simp: in_set_conv_nth)
    have "lo \<le> unat (fst (xs ! 0))" "0 < ?h" using ord(2) mx full by (auto intro!: bspec[OF ord(2), THEN conjunct1])
    then have "lo < unat sep" using sp[of 0] by (simp add: word_less_nat_alt)
    moreover have "unat sep < hi" using ord(2) nth_mem[OF hb] by (simp add: sepk)
    moreover have "keys_sorted (take ?h xs)" "keys_sorted (drop ?h xs)"
      using ord(1) by (auto intro: keys_sorted_take keys_sorted_drop)
    ultimately show ?thesis using below above ord(2)
      by (auto simp: word_less_nat_alt word_le_nat_alt dest: in_set_takeD in_set_dropD)
  qed
  have "cur_addr m2 = ?n + node_size" "end_addr m2 = end_addr m" "\<forall>x. x \<noteq> ?n \<longrightarrow> heap m2 x = heap m x"
    by (simp_all add: m2_def m1_def)
  then show ?thesis using split h2 sepk(2) r1 r2 o append_take_drop_id[of ?h xs] by blast
qed

text \<open>A full index node split in two.\<close>

definition index_cut :: "nat \<Rightarrow> clnode \<Rightarrow> clnode" where
  "index_cut h nd = nd\<lparr>nbuf := sb_delete_data (nbuf nd) h\<rparr>"

lemma map_tl_take_drop:
  "h < length cs \<Longrightarrow> drop h (map f (tl cs)) = map f (tl (drop h cs))"
  "take h (map f (tl cs)) = map f (tl (take (Suc h) cs))"
  by (cases cs; simp add: drop_map take_map tl_drop)+

lemma index_split_refines:
  assumes s: "0 < s" "s \<le> 8"
    and at: "index_at p s m a ks cs" "length ks = max_of s" "length cs = Suc (length ks)"
    and nd: "heap m a = Some nd"
    and sub: "\<forall>c \<in> set cs. rep p s m d c \<and> ct_addr c < 2 ^ 48 \<and> a \<notin> set (ct_addrs c) \<and>
      (\<forall>x \<in> set (ct_addrs c). x < cur_addr m)"
    and ord: "ords lo hi ks cs"
    and m: "mem_ok m" "a < cur_addr m" "cur_addr m + node_size < end_addr m"
    and key: "same_prefix (8 - s) p key"
  shows "\<exists>m2 sep h.
    (\<forall>parent. cl_index_split m a nd key parent = do {
       (m3, ret) \<leftarrow> cl_attach m2 a s sep (cur_addr m) parent;
       m4 \<leftarrow> mod_node m3 a (index_cut h);
       Some (m4, ret) }) \<and>
    heap m2 a = Some nd \<and> same_prefix (8 - s) p sep \<and>
    cur_addr m2 = cur_addr m + node_size \<and> end_addr m2 = end_addr m \<and>
    (\<forall>x. x \<noteq> cur_addr m \<longrightarrow> heap m2 x = heap m x) \<and> Suc h < length cs \<and>
    rep p s (set_node m2 a (index_cut h nd)) (Suc d) (Ix a (take h ks) (take (Suc h) cs)) \<and>
    rep p s (set_node m2 a (index_cut h nd)) (Suc d) (Ix (cur_addr m) (drop (Suc h) ks) (drop (Suc h) cs)) \<and>
    ords lo hi [sep] [Ix a (take h ks) (take (Suc h) cs), Ix (cur_addr m) (drop (Suc h) ks) (drop (Suc h) cs)]"
proof -
  let ?n = "cur_addr m"
  define xs where "xs = zip ks (map (\<lambda>c. six_bytes (ct_addr c)) (tl cs))"
  have n: "ntype nd = INDEX" "nlink nd = six_bytes (ct_addr (hd cs))" "node_ok 6 s (nbuf nd)"
    "sb_items 6 p (nbuf nd) = xs"
    using at(1) nd by (auto simp: index_at_def xs_def)
  have lx: "length xs = max_of s" using at(2,3) by (simp add: xs_def)
  have e: "sb_entries (nbuf nd) = max_of s" "sb_suffix_bytes (nbuf nd) = s"
    using node_entries[OF n(4)] lx n(3) by (auto simp: node_ok_def)
  have mx: "7 \<le> max_of s" "max_of s \<le> 12" using max_of_bounds[OF s] by auto
  define h where "h = (max_of s + 1) div 2 - 1"
  have h: "(max_of s + 1) div 2 = Suc h" "3 \<le> h" "Suc h < length xs" "length xs < 12 \<or> 4 \<le> h"
    "length xs < 12 \<or> 4 \<le> Suc h" "h < length xs" using mx lx by (auto simp: h_def)
  define nb where "nb = sb_copy_data 6 (nbuf nd) (new_node_buf s) (Suc h)"
  define m1 where "m1 = set_node (m\<lparr>cur_addr := ?n + node_size\<rparr>) ?n
            \<lparr>ntype = INDEX, nlink = 0, nbuf = new_node_buf s\<rparr>"
  define m2 where "m2 = set_node m1 ?n \<lparr>ntype = INDEX, nlink = sb_sort_value 6 (nbuf nd) h, nbuf = nb\<rparr>"
  define sep where "sep = sb_sort_key (nbuf nd) h key"
  have copy: "node_ok 6 s nb" "sb_items 6 p nb = drop (Suc h) xs"
    using node_cut(1,2)[OF n(3,4) lx s h(5,3), folded nb_def] by auto
  have cut: "node_ok 6 s (sb_delete_data (nbuf nd) h)" "sb_items 6 p (sb_delete_data (nbuf nd) h) = take h xs"
    using node_cut(3,4)[OF n(3,4) lx s h(4,6)] by auto
  have hx: "xs ! h = (ks ! h, six_bytes (ct_addr (cs ! Suc h)))"
    using h(6) lx at(2,3) by (simp add: xs_def nth_tl)
  have it: "sb_sort_key (nbuf nd) h p = ks ! h" "sb_sort_value 6 (nbuf nd) h = six_bytes (ct_addr (cs ! Suc h))"
    using nth_sb_items[of h "nbuf nd" 6 p] n(4) e h(6) lx hx by auto
  have sepk: "sep = ks ! h" "same_prefix (8 - s) p sep"
  proof -
    have "sep = sb_sort_key (nbuf nd) h p" unfolding sep_def
      using n(3) key by (intro sb_sort_key_prefix[of 6]) (auto simp: node_ok_def)
    then show "sep = ks ! h" "same_prefix (8 - s) p sep"
      using it(1) node_sort_key_prefix[OF n(3) s(2), of p h] by auto
  qed
  have split: "cl_index_split m a nd key parent = do {
       (m3, ret) \<leftarrow> cl_attach m2 a s sep ?n parent;
       m4 \<leftarrow> mod_node m3 a (index_cut h);
       Some (m4, ret) }" for parent
    using cl_new_node_eq[OF s m(3), of INDEX] h(1)
    by (simp add: cl_index_split_def e nb_def[symmetric] m1_def[symmetric] m2_def[symmetric] sep_def[symmetric]
        Let_def index_cut_def[abs_def])
  have an: "a \<noteq> ?n" using m(2) by simp
  have h2: "heap m2 a = Some nd" using nd an by (simp add: m2_def m1_def)
  let ?m = "set_node m2 a (index_cut h nd)"
  have subs: "rep p s ?m d c" if "c \<in> set cs" for c
  proof (rule rep_frame)
    show "rep p s m d c" using sub that by blast
    fix x assume "x \<in> set (ct_addrs c)"
    then have "x \<noteq> a" "x < ?n" using sub that by auto
    then show "heap ?m x = heap m x" by (simp add: m2_def m1_def)
  qed
  have lk: "length ks = max_of s" "length cs = Suc (max_of s)" using at(2,3) by auto
  have hc: "Suc h < length cs" using h(6) lx lk by simp
  have hd1: "hd (take (Suc h) cs) = hd cs" using lk by (cases cs) auto
  have hd2: "hd (drop (Suc h) cs) = cs ! Suc h" using hc by (simp add: hd_drop_conv_nth)
  have i1: "index_at p s ?m a (take h ks) (take (Suc h) cs)"
  proof -
    have "take h xs = zip (take h ks) (map (\<lambda>c. six_bytes (ct_addr c)) (tl (take (Suc h) cs)))"
      using map_tl_take_drop(2)[of h "\<lambda>c. six_bytes (ct_addr c)" cs] by (simp only: xs_def take_zip)
    then show ?thesis unfolding index_at_def using n cut hd1 by (simp add: index_cut_def)
  qed
  have i2: "index_at p s ?m ?n (drop (Suc h) ks) (drop (Suc h) cs)"
  proof -
    have "drop (Suc h) xs = zip (drop (Suc h) ks) (map (\<lambda>c. six_bytes (ct_addr c)) (tl (drop (Suc h) cs)))"
      using map_tl_take_drop(1)[OF hc, of "\<lambda>c. six_bytes (ct_addr c)"] by (simp only: xs_def drop_zip)
    then show ?thesis unfolding index_at_def using copy an hd2 it by (simp add: m2_def)
  qed
  have r1: "rep p s ?m (Suc d) (Ix a (take h ks) (take (Suc h) cs))"
    using i1 subs lk h(6) lx by (auto dest: in_set_takeD simp: min_def)
  have r2: "rep p s ?m (Suc d) (Ix ?n (drop (Suc h) ks) (drop (Suc h) cs))"
    using i2 subs lk mx h(6) lx by (auto dest: in_set_dropD)
  have o: "ords lo hi [sep] [Ix a (take h ks) (take (Suc h) cs), Ix ?n (drop (Suc h) ks) (drop (Suc h) cs)]"
    using ords_cut[OF ord, of h] h(6) lx lk by (simp add: sepk)
  have "cur_addr m2 = ?n + node_size" "end_addr m2 = end_addr m" "\<forall>x. x \<noteq> ?n \<longrightarrow> heap m2 x = heap m x"
    by (simp_all add: m2_def m1_def)
  then show ?thesis using split h2 sepk(2) r1 r2 o hc by blast
qed

text \<open>One child replaced by the one or two trees it became.\<close>

lemma ords_replace:
  assumes "ords lo hi ks cs" "i < length cs" "lo < hi" "ords (low_of lo ks i) (high_of hi ks i) seps ts"
    "(\<exists>t1. ts = [t1]) \<or> (\<exists>t1 t2. ts = [t1, t2])"
  shows "ords lo hi (take i ks @ seps @ drop i ks) (take i cs @ ts @ drop (Suc i) cs)"
  using assms(5)
proof
  assume "\<exists>t1. ts = [t1]"
  then obtain t1 where t: "ts = [t1]" by blast
  then have sn: "seps = []" using ords_length[OF assms(4)] by simp
  then have "ordd (low_of lo ks i) (high_of hi ks i) t1" using assms(4) t by simp
  then show ?thesis using ords_child(5)[OF assms(1-3), of t1] assms(2) t sn
    by (simp add: upd_conv_take_nth_drop)
next
  assume "\<exists>t1 t2. ts = [t1, t2]"
  then obtain t1 t2 where t: "ts = [t1, t2]" by blast
  then obtain k where k: "seps = [k]" using ords_length[OF assms(4)] by (cases seps) auto
  have "take (Suc i) (cs[i := t1]) = take i cs @ [t1]" "drop (Suc i) (cs[i := t1]) = drop (Suc i) cs"
    using assms(2) by (simp_all add: take_Suc_conv_app_nth)
  then have eq: "insert_at (Suc i) t2 (cs[i := t1]) = take i cs @ ts @ drop (Suc i) cs"
    by (simp add: insert_at_def t)
  have "ords lo hi (insert_at i k ks) (insert_at (Suc i) t2 (cs[i := t1]))"
    using assms(4) unfolding t k by (intro ords_child(6)[OF assms(1-3)]) auto
  then show ?thesis unfolding eq by (simp add: insert_at_def k)
qed

lemma child_step:
  assumes ord: "ords lo hi ks cs" "i < length cs" "lo < hi"
    and k: "low_of lo ks i \<le> unat k" "unat k < high_of hi ks i"
    and ok: "addrs_ok m (a # concat (map ct_addrs cs))"
    and reps: "\<forall>c \<in> set cs. rep p s m d c"
    and put: "put_ok p s d (low_of lo ks i) (high_of hi ks i) k v m (cs ! i) m' ts seps"
    and two: "(\<exists>t1. ts = [t1]) \<or> (\<exists>t1 t2. ts = [t1, t2])"
    and m'': "\<And>x. x \<noteq> a \<Longrightarrow> heap m'' x = heap m' x" "cur_addr m'' = cur_addr m'" "end_addr m'' = end_addr m'"
  defines "ks' \<equiv> take i ks @ seps @ drop i ks" and "cs' \<equiv> take i cs @ ts @ drop (Suc i) cs"
  shows "ords lo hi ks' cs'" "\<forall>c \<in> set cs'. rep p s m'' d c"
    "concat (map ct_flat cs') = ins k v (concat (map ct_flat cs))" "ct_addr (hd cs') = ct_addr (hd cs)"
    "grown m m'' (a # concat (map ct_addrs cs)) (a # concat (map ct_addrs cs'))" "linked_like cs cs'"
proof -
  note P = put[unfolded put_ok_def]
  define A C B T where "A = concat (map ct_addrs (take i cs))" and "C = ct_addrs (cs ! i)"
    and "B = concat (map ct_addrs (drop (Suc i) cs))" and "T = concat (map ct_addrs ts)"
  have split: "cs = take i cs @ [cs ! i] @ drop (Suc i) cs" using id_take_nth_drop[OF ord(2)] by simp
  have all: "concat (map ct_addrs cs) = A @ C @ B"
    using concat_split_at[of i "map ct_addrs cs"] ord(2) by (simp add: A_def B_def C_def take_map drop_map)
  have all': "concat (map ct_addrs cs') = A @ T @ B" by (simp add: cs'_def A_def B_def T_def)
  have g: "grown m m' C T" using P by (simp add: C_def T_def)
  have d: "distinct (a # A @ C @ B)" "\<And>x. x \<in> set (a # A @ C @ B) \<Longrightarrow> x < cur_addr m \<and> node_size dvd x"
    using ok unfolding all addrs_ok_def by auto
  have gT: "distinct T" "\<And>x. x \<in> set T \<Longrightarrow> (x \<in> set C \<or> cur_addr m \<le> x) \<and> x < cur_addr m' \<and> node_size dvd x"
    using g by (auto simp: grown_def addrs_ok_def)
  have cur: "cur_addr m \<le> cur_addr m'" using g by (simp add: grown_def)
  show "ords lo hi ks' cs'" unfolding ks'_def cs'_def
    using P by (intro ords_replace[OF ord _ two]) simp
  have notin: "x \<notin> set T" if "x = a \<or> x \<in> set A \<or> x \<in> set B" for x
  proof -
    have "x \<notin> set C" using that d(1) by auto
    moreover have "x < cur_addr m" using that d(2)[of x] by auto
    ultimately show ?thesis using gT(2)[of x] by auto
  qed
  show "\<forall>c \<in> set cs'. rep p s m'' d c"
  proof
    fix c assume "c \<in> set cs'"
    then consider "c \<in> set ts" | "c \<in> set (take i cs) \<union> set (drop (Suc i) cs)" by (auto simp: cs'_def)
    then show "rep p s m'' d c"
    proof cases
      case 1
      then have "a \<notin> set (ct_addrs c)" using notin[of a] by (auto simp: T_def)
      moreover have "rep p s m' d c" using P 1 by simp
      ultimately show ?thesis by (metis m''(1) rep_frame)
    next
      case 2
      then have c: "c \<in> set cs" by (auto dest: in_set_takeD in_set_dropD)
      have sub: "set (ct_addrs c) \<subseteq> set (A @ B)" using 2 by (auto simp: A_def B_def)
      show ?thesis
      proof (rule rep_frame)
        show "rep p s m d c" using reps c by blast
        fix x assume "x \<in> set (ct_addrs c)"
        then have x: "x \<in> set (A @ B)" using sub by blast
        then have "x \<noteq> a" "x \<notin> set C" "x < cur_addr m" using d by auto
        then show "heap m'' x = heap m x" using g m''(1) by (simp add: grown_def)
      qed
    qed
  qed
  show "concat (map ct_flat cs') = ins k v (concat (map ct_flat cs))"
    using ins_child[OF ord k, of v] P by (simp add: cs'_def)
  show "ct_addr (hd cs') = ct_addr (hd cs)"
    using two P split ord(2) unfolding cs'_def by (cases i; cases cs) auto
  have "addrs_ok m'' (a # A @ T @ B)"
    unfolding addrs_ok_def
  proof
    show "distinct (a # A @ T @ B)" using d(1) gT(1) notin by auto
    show "\<forall>x \<in> set (a # A @ T @ B). x < cur_addr m'' \<and> node_size dvd x"
      using d(2) gT(2) cur unfolding m''(2) by (fastforce intro: less_le_trans)
  qed
  moreover have "\<forall>x \<in> set (a # A @ T @ B). x \<in> set (a # A @ C @ B) \<or> cur_addr m \<le> x" using gT(2) by auto
  moreover have "\<forall>x < cur_addr m. x \<notin> set (a # A @ C @ B) \<longrightarrow> heap m'' x = heap m x"
    using g m''(1) by (simp add: grown_def)
  moreover have "mem_ok m''" using g m''(2,3) by (simp add: grown_def mem_ok_def)
  ultimately show "grown m m'' (a # concat (map ct_addrs cs)) (a # concat (map ct_addrs cs'))"
    unfolding all all' using g m''(2,3) cur by (simp add: grown_def)
  have c: "cs ! i \<in> set cs" using ord(2) by simp
  have "concat (map ct_leaves [cs ! i]) \<noteq> []" using leaves_nonempty reps c by auto
  then have "linked_like (take i cs @ [cs ! i] @ drop (Suc i) cs) cs'"
    unfolding cs'_def using P by (intro linked_like_context) simp_all
  then show "linked_like cs cs'" using split by simp
qed

subsection \<open>Choosing a child\<close>

lemma index_items:
  assumes "index_at p s m a ks cs" "heap m a = Some nd" "length cs = Suc (length ks)"
  shows "sb_entries (nbuf nd) = length ks" "ntype nd = INDEX" "node_ok 6 s (nbuf nd)"
    "j < length ks \<Longrightarrow> sb_sort_key (nbuf nd) j p = ks ! j"
    "j < length ks \<Longrightarrow> sb_sort_value 6 (nbuf nd) j = six_bytes (ct_addr (cs ! Suc j))"
proof -
  have i: "sb_items 6 p (nbuf nd) = zip ks (map (\<lambda>c. six_bytes (ct_addr c)) (tl cs))"
    using assms(1,2) by (auto simp: index_at_def)
  then show e: "sb_entries (nbuf nd) = length ks" using node_entries[OF i] assms(3) by simp
  show "ntype nd = INDEX" "node_ok 6 s (nbuf nd)" using assms(1,2) by (auto simp: index_at_def)
  show "sb_sort_key (nbuf nd) j p = ks ! j" if "j < length ks"
    using nth_sb_items[of j "nbuf nd" 6 p] i e that assms(3) by (simp add: nth_tl)
  show "sb_sort_value 6 (nbuf nd) j = six_bytes (ct_addr (cs ! Suc j))" if "j < length ks"
    using nth_sb_items[of j "nbuf nd" 6 p] i e that assms(3) by (simp add: nth_tl)
qed

lemma ords_sorted_keys: "ords lo hi ks cs \<Longrightarrow> sorted_wrt (<) ks \<and> (\<forall>k \<in> set ks. lo < unat k \<and> unat k < hi)"
proof (induction ks arbitrary: lo cs)
  case (Cons x ks)
  then obtain c cs' where cs: "cs = c # cs'" by (cases cs) auto
  note pr = Cons.prems[unfolded cs ords.simps]
  then have IH: "sorted_wrt (<) ks" "\<forall>k \<in> set ks. unat x < unat k \<and> unat k < hi" using Cons.IH by blast+
  then have "\<forall>k \<in> set ks. x < k" by (simp add: word_less_nat_alt)
  moreover have "lo < unat k" if "k \<in> set ks" for k using IH(2) pr that by fastforce
  ultimately show ?case using IH pr by simp
qed simp

lemma index_sorted:
  assumes "index_at p s m a ks cs" "heap m a = Some nd" "ords lo hi ks cs"
  shows "keys_sorted (sb_items 6 p (nbuf nd))"
proof -
  have "map fst (zip ks (map (\<lambda>c. six_bytes (ct_addr c)) (tl cs))) = ks"
    using ords_length[OF assms(3)] by simp
  then show ?thesis using assms(1,2) ords_sorted_keys[OF assms(3)] by (auto simp: index_at_def keys_sorted_def)
qed

lemma index_child:
  assumes at: "index_at p s m a ks cs" "heap m a = Some nd" and ord: "ords lo hi ks cs"
    and k: "lo \<le> unat k" "unat k < hi" "same_prefix (8 - s) p k"
    and adr: "\<forall>c \<in> set cs. ct_addr c < 2 ^ 48"
  defines "i \<equiv> nat (fst (sb_find_le (nbuf nd) k) + 1)"
  shows "i < length cs" "low_of lo ks i \<le> unat k" "unat k < high_of hi ks i"
    "cl_get_child nd i = ct_addr (cs ! i)"
proof -
  define pos where "pos = fst (sb_find_le (nbuf nd) k)"
  have len: "length cs = Suc (length ks)" using ords_length[OF ord] .
  note it = index_items[OF at len]
  have "le_result (\<lambda>j. sb_sort_key (nbuf nd) j p) (length ks) k pos"
    using sb_find_le_correct(1)[OF _ index_sorted[OF at ord], of k] it(1,3) k(3)
    by (simp add: node_ok_def pos_def)
  then have le: "-1 \<le> pos" "pos < int (length ks)" "\<And>j. int j \<le> pos \<Longrightarrow> ks ! j \<le> k"
    "\<And>j. j < length ks \<Longrightarrow> pos < int j \<Longrightarrow> k < ks ! j"
    using it(4) by (fastforce simp: le_result_def)+
  have i: "i = nat (pos + 1)" by (simp add: i_def pos_def)
  show il: "i < length cs" using le(1,2) len by (simp add: i)
  show "low_of lo ks i \<le> unat k"
  proof (cases i)
    case (Suc j)
    then have "int j \<le> pos" "j < length ks" using i il len by auto
    then show ?thesis using le(3)[of j] Suc by (simp add: low_of_def word_le_nat_alt)
  qed (use k in \<open>simp add: low_of_def\<close>)
  show "unat k < high_of hi ks i"
  proof (cases "i < length ks")
    case True
    then have "pos < int i" using i by simp
    then show ?thesis using le(4)[of i] True by (simp add: high_of_def nth_append word_less_nat_alt)
  next
    case False
    then have "i = length ks" using il len by simp
    then show ?thesis using k(2) by (simp add: high_of_def nth_append)
  qed
  show "cl_get_child nd i = ct_addr (cs ! i)"
  proof (cases i)
    case 0
    have "nlink nd = six_bytes (ct_addr (hd cs))" using at by (auto simp: index_at_def)
    moreover have "hd cs = cs ! 0" "hd cs \<in> set cs" using len by (cases cs; simp)+
    ultimately show ?thesis using adr 0 by (simp add: cl_get_child_def six_bytes_facts(2))
  next
    case (Suc j)
    then have "j < length ks" using il len by simp
    moreover have "cs ! i \<in> set cs" using il by simp
    ultimately show ?thesis using it(5)[of j] adr Suc by (simp add: cl_get_child_def six_bytes_facts(3))
  qed
qed

text \<open>Attaching a node to a parent with room: \<^verbatim>\<open>PutChild\<close>.\<close>

lemma put_child_refines:
  assumes at: "heap m a = Some nd" "ntype nd = INDEX" "node_ok 6 s (nbuf nd)" "sb_items 6 p (nbuf nd) = xs"
    "keys_sorted xs" "length xs < max_of s"
    and k: "same_prefix (8 - s) p k" "b < 2 ^ 48"
    and pos: "j \<le> length xs" "\<forall>x \<in> set (take j xs). fst x < k" "\<forall>x \<in> set (drop j xs). k < fst x"
  shows "\<exists>buf. cl_put_child m a k b = Some (set_node m a (nd\<lparr>nbuf := buf\<rparr>)) \<and> node_ok 6 s buf \<and>
    sb_items 6 p buf = insert_at j (k, six_bytes b) xs"
proof -
  note e = node_entries[OF at(4)]
  have mx: "sb_max_entries (nbuf nd) = max_of s" using at(3) by (simp add: node_ok_def)
  have fits: "value_fits 6 (of_nat b)" "six_bytes b = of_nat b" using six_bytes_facts[OF k(2)] by auto
  obtain q ex where f: "sb_find (nbuf nd) k = (q, ex)" by fastforce
  have "set xs = set (take j xs) \<union> set (drop j xs)" by (metis append_take_drop_id set_append)
  then have nk: "\<forall>x \<in> set xs. fst x \<noteq> k" using pos by fastforce
  have ks: "keys_sorted (sb_items 6 p (nbuf nd))" using at(4,5) by simp
  have ex: "\<not> ex" using node_find(1)[OF at(3) ks k(1) fits(1), of q] f nk at(4) e
    by (metis (full_types) nth_mem)
  have q: "nat q \<le> length xs" "\<forall>x \<in> set (take (nat q) xs). fst x < k" "\<forall>x \<in> set (drop (nat q) xs). k < fst x"
    using node_find(2)[OF at(3) ks k(1) fits(1), of q] f ex at(4) e by auto
  have qj: "nat q = j"
  proof (rule ccontr)
    assume "nat q \<noteq> j"
    then consider "nat q < j" | "j < nat q" by linarith
    then show False
    proof cases
      case 1
      then have "xs ! nat q \<in> set (take j xs)" "xs ! nat q \<in> set (drop (nat q) xs)"
        using pos(1) by (auto simp: in_set_conv_nth Cons_nth_drop_Suc[symmetric])
      then show False using pos(2) q(3) by fastforce
    next
      case 2
      then have "xs ! j \<in> set (take (nat q) xs)" "xs ! j \<in> set (drop j xs)"
        using q(1) by (auto simp: in_set_conv_nth Cons_nth_drop_Suc[symmetric])
      then show False using pos(3) q(2) by fastforce
    qed
  qed
  obtain buf where "sb_put 6 (nbuf nd) j k (of_nat b) = Some buf" "node_ok 6 s buf"
    "sb_items 6 p buf = insert_at j (k, of_nat b) xs"
    using node_put[OF at(3) _ k(1) fits(1), of j] at(4,6) e pos(1) by auto
  moreover from this(1) have "cl_put_child m a k b = Some (set_node m a (nd\<lparr>nbuf := buf\<rparr>))"
    using at(1,2,6) e mx f qj by (simp add: cl_put_child_def Let_def)
  ultimately show ?thesis using fits(2) by auto
qed

subsection \<open>Insertion\<close>

definition put_done :: "u64 \<Rightarrow> nat \<Rightarrow> nat \<Rightarrow> nat \<Rightarrow> nat \<Rightarrow> u64 \<Rightarrow> u64 \<Rightarrow> clmem \<Rightarrow> ct \<Rightarrow> bool" where
  "put_done p s d lo hi k v m t \<longleftrightarrow> (\<exists>m' t1.
     (\<forall>parent. cl_node_put (Suc d) m (ct_addr t) k v parent = Some (m', ct_addr t)) \<and>
     put_ok p s d lo hi k v m t m' [t1] [] \<and> cur_addr m' \<le> cur_addr m + d * node_size)"

definition put_split :: "u64 \<Rightarrow> nat \<Rightarrow> nat \<Rightarrow> nat \<Rightarrow> nat \<Rightarrow> u64 \<Rightarrow> u64 \<Rightarrow> clmem \<Rightarrow> ct \<Rightarrow> bool" where
  "put_split p s d lo hi k v m t \<longleftrightarrow> (\<exists>m2 nd g sep t1 t2.
     (\<forall>parent. cl_node_put (Suc d) m (ct_addr t) k v parent = do {
        (m3, ret) \<leftarrow> cl_attach m2 (ct_addr t) s sep (ct_addr t2) parent;
        m4 \<leftarrow> mod_node m3 (ct_addr t) g;
        Some (m4, ret) }) \<and>
     heap m2 (ct_addr t) = Some nd \<and> same_prefix (8 - s) p sep \<and> cur_addr m \<le> ct_addr t2 \<and>
     put_ok p s d lo hi k v m t (set_node m2 (ct_addr t) (g nd)) [t1, t2] [sep] \<and>
     cur_addr m2 \<le> cur_addr m + Suc d * node_size)"

lemma addrs_ok_fresh:
  assumes "mem_ok m" "addrs_ok m as" "m' = m\<lparr>cur_addr := cur_addr m + node_size\<rparr>"
  shows "addrs_ok m' (as @ [cur_addr m])" "mem_ok m'"
  using assms by (auto simp: addrs_ok_def mem_ok_def node_size_def)

lemma leaf_put_core:
  assumes s: "0 < s" "s \<le> 8" and t: "tree_ok p s m 0 lo hi (Lf a xs n)" and m: "mem_ok m"
    and k: "lo \<le> unat k" "unat k < hi" "same_prefix (8 - s) p k"
    and room: "cur_addr m + node_size < end_addr m"
  shows "put_done p s 0 lo hi k v m (Lf a xs n) \<or> put_split p s 0 lo hi k v m (Lf a xs n)"
proof -
  have t': "rep p s m 0 (Lf a xs n)" "ordd lo hi (Lf a xs n)" "addrs_ok m [a]"
    using t by (auto simp: tree_ok_def)
  from rep_leaf[OF t'(1)] obtain nd where nd: "heap m a = Some nd" "ntype nd = LEAF" "nlink nd = n"
    "node_ok 8 s (nbuf nd)" "sb_items 8 p (nbuf nd) = xs" "sb_entries (nbuf nd) = length xs"
    "length xs < max_of s" by blast
  have srt: "keys_sorted xs" "\<forall>x \<in> set xs. lo \<le> unat (fst x) \<and> unat (fst x) < hi" using t'(2) by auto
  have mx: "sb_max_entries (nbuf nd) = max_of s" using nd(4) by (simp add: node_ok_def)
  have am: "a < cur_addr m" "node_size dvd a" using t'(3) by (auto simp: addrs_ok_def)
  obtain q ex where f: "sb_find (nbuf nd) k = (q, ex)" by fastforce
  have put: "cl_node_put (Suc 0) m a k v parent = cl_leaf_put m a nd k v parent" for parent
    using nd by simp
  define ys where "ys = ins k v xs"
  have ysr: "keys_sorted ys" "\<forall>x \<in> set ys. lo \<le> unat (fst x) \<and> unat (fst x) < hi"
    using ins_spec(1,3)[OF srt(1), of k v] srt(2) k by (auto simp: ys_def)
  have gr: "grown m m' [a] [a]" if "m' = set_node m a x" for m' x
    using that m t'(3) by (auto simp: grown_def mem_ok_def addrs_ok_def)
  have lk: "linked_like [Lf a xs n] [Lf a ys n]" by (simp add: linked_like_def)
  have "sb_items 8 p (nbuf nd) = xs \<Longrightarrow> keys_sorted (sb_items 8 p (nbuf nd))" using srt by simp
  note find = node_find[OF nd(4) this[OF nd(5)] k(3) value_fits_8, unfolded nd(5,6)]
  show ?thesis
  proof (cases ex)
    case True
    then have q: "nat q < length xs" "fst (xs ! nat q) = k" using find(1) f by auto
    define m' where "m' = set_node m a (nd\<lparr>nbuf := sb_update 8 (nbuf nd) (nat q) v\<rparr>)"
    have ys: "ys = xs[nat q := (k, v)]" using ins_update[OF srt(1) q] by (simp add: ys_def)
    have "leaf_at p s m' a ys n"
      using nd node_update[OF nd(4), of "nat q" v] q by (simp add: leaf_at_def m'_def ys)
    then have "put_ok p s 0 lo hi k v m (Lf a xs n) m' [Lf a ys n] []"
      using ysr lk gr[OF m'_def] nd(7) by (simp add: put_ok_def ys_def[symmetric]) (simp add: ys)
    then show ?thesis unfolding put_done_def using put f True
      by (intro disjI1 exI[of _ m'] exI[of _ "Lf a ys n"]) (simp add: cl_leaf_put_def m'_def)
  next
    case False
    then have q: "nat q \<le> length xs" "\<forall>a \<in> set (take (nat q) xs). fst a < k" "\<forall>a \<in> set (drop (nat q) xs). k < fst a"
      using find(2) f by auto
    have ys: "ys = insert_at (nat q) (k, v) xs" using ins_insert_at[OF srt(1) q(2,3)] by (simp add: ys_def)
    obtain b where b: "sb_put 8 (nbuf nd) (nat q) k v = Some b" "node_ok 8 s b" "sb_items 8 p b = ys"
      using node_put[OF nd(4) _ k(3) value_fits_8, of "nat q" v] nd(5,6,7) q(1) by (auto simp: ys)
    have eb: "sb_entries b = Suc (length xs)" "sb_max_entries b = max_of s"
      using node_entries[OF b(3)] b(2) by (auto simp: ys node_ok_def)
    define nd1 where "nd1 = nd\<lparr>nbuf := b\<rparr>"
    define m1 where "m1 = set_node m a nd1"
    have put1: "cl_node_put (Suc 0) m a k v parent =
        (if Suc (length xs) = max_of s then cl_leaf_split m1 a nd1 k parent else Some (m1, a))" for parent
      using put f False b(1) eb by (simp add: cl_leaf_put_def Let_def nd1_def m1_def)
    show ?thesis
    proof (cases "Suc (length xs) = max_of s")
      case False
      then have l: "length ys < max_of s" using nd(7) by (simp add: ys)
      have "leaf_at p s m1 a ys n" using nd(2,3) b(2,3) by (simp add: leaf_at_def m1_def nd1_def)
      then have "put_ok p s 0 lo hi k v m (Lf a xs n) m1 [Lf a ys n] []"
        using ysr lk gr[OF m1_def] l by (simp add: put_ok_def ys_def[symmetric])
      then show ?thesis unfolding put_done_def using put1 False
        by (intro disjI1 exI[of _ m1] exI[of _ "Lf a ys n"]) (simp add: m1_def)
    next
      case True
      have h1: "heap m1 a = Some nd1" "length ys = max_of s" using True by (simp_all add: m1_def ys)
      have m1ok: "mem_ok m1" "a < cur_addr m1" "cur_addr m1 + node_size < end_addr m1"
        using m am room by (simp_all add: m1_def mem_ok_def)
      have nd1: "ntype nd1 = LEAF" "node_ok 8 s (nbuf nd1)" "sb_items 8 p (nbuf nd1) = ys" "nlink nd1 = n"
        using nd b by (simp_all add: nd1_def)
      let ?c = "cur_addr m" and ?g = "leaf_cut (cur_addr m) (max_of s div 2)"
      obtain m2 sep us zs where S: "\<And>parent. cl_leaf_split m1 a nd1 k parent = do {
           (m3, ret) \<leftarrow> cl_attach m2 a s sep ?c parent;
           m4 \<leftarrow> mod_node m3 a ?g; Some (m4, ret) }"
        "heap m2 a = Some nd1" "same_prefix (8 - s) p sep" "us @ zs = ys"
        "cur_addr m2 = ?c + node_size" "end_addr m2 = end_addr m" "\<And>x. x \<noteq> ?c \<Longrightarrow> heap m2 x = heap m1 x"
        "rep p s (set_node m2 a (?g nd1)) 0 (Lf a us (six_bytes ?c))"
        "rep p s (set_node m2 a (?g nd1)) 0 (Lf ?c zs n)"
        "ords lo hi [sep] [Lf a us (six_bytes ?c), Lf ?c zs n]"
        using leaf_split_refines[OF s nd1(1,2,3) h1 ysr m1ok(1,2) am(2) m1ok(3) k(3)] nd1(4)
        by (auto simp: m1_def)
      have lk2: "linked_like [Lf a xs n] [Lf a us (six_bytes ?c), Lf ?c zs n]" by (simp add: linked_like_def)
      have ao: "addrs_ok (set_node m2 a (?g nd1)) [a, ?c]" "mem_ok (set_node m2 a (?g nd1))"
        using m am S(5,6) by (auto simp: addrs_ok_def mem_ok_def node_size_def)
      have fr: "heap m2 x = heap m x" if "x < ?c" "x \<noteq> a" for x
        using S(7)[of x] that by (simp add: m1_def)
      have "grown m (set_node m2 a (?g nd1)) [a] [a, ?c]"
        using ao S(5,6) fr by (auto simp: grown_def)
      then have "put_ok p s 0 lo hi k v m (Lf a xs n) (set_node m2 a (?g nd1))
          [Lf a us (six_bytes ?c), Lf ?c zs n] [sep]"
        using S(4,8,9,10) lk2 by (simp add: put_ok_def ys_def[symmetric] del: rep.simps ords.simps)
      then show ?thesis unfolding put_split_def using put1 True S(1,2,3,5)
        by (intro disjI2 exI[of _ m2] exI[of _ nd1] exI[of _ ?g] exI[of _ sep]
            exI[of _ "Lf a us (six_bytes ?c)"] exI[of _ "Lf ?c zs n"]) simp
    qed
  qed
qed

lemma addr_small: "mem_ok m \<Longrightarrow> cur_addr m \<le> end_addr m \<Longrightarrow> a < cur_addr m \<Longrightarrow> a < 2 ^ 48"
  by (auto simp: mem_ok_def)

lemma put_ok_single:
  assumes "ordd lo hi t'" "rep p s m' d t'" "ct_flat t' = ins k v (ct_flat t)" "ct_addr t' = ct_addr t"
    "grown m m' (ct_addrs t) (ct_addrs t')" "linked_like [t] [t']"
  shows "put_ok p s d lo hi k v m t m' [t'] []"
  using assms by (simp add: put_ok_def)

text \<open>What is common to both outcomes of the recursive call: the index node with its child list
  updated, in a heap that differs from the child's only at the node itself.\<close>

lemma index_after_child:
  assumes t: "tree_ok p s m (Suc d) lo hi (Ix a ks cs)" and i: "i < length cs" "lo < hi"
    and k: "low_of lo ks i \<le> unat k" "unat k < high_of hi ks i"
    and put: "put_ok p s d (low_of lo ks i) (high_of hi ks i) k v m (cs ! i) m' ts seps"
    and two: "(\<exists>t1. ts = [t1]) \<or> (\<exists>t1 t2. ts = [t1, t2])"
    and m'': "\<And>x. x \<noteq> a \<Longrightarrow> heap m'' x = heap m' x" "cur_addr m'' = cur_addr m'" "end_addr m'' = end_addr m'"
  defines "ks' \<equiv> take i ks @ seps @ drop i ks" and "cs' \<equiv> take i cs @ ts @ drop (Suc i) cs"
  assumes at: "index_at p s m'' a ks' cs'"
  shows "ords lo hi ks' cs'" "length cs' = Suc (length ks')" "\<forall>c \<in> set cs'. rep p s m'' d c"
    "ct_flat (Ix a ks' cs') = ins k v (ct_flat (Ix a ks cs))"
    "grown m m'' (ct_addrs (Ix a ks cs)) (ct_addrs (Ix a ks' cs'))"
    "linked_like [Ix a ks cs] [Ix a ks' cs']"
    "length ks' < max_of s \<Longrightarrow> put_ok p s (Suc d) lo hi k v m (Ix a ks cs) m'' [Ix a ks' cs'] []"
proof -
  have o: "ords lo hi ks cs" and ok: "addrs_ok m (a # concat (map ct_addrs cs))"
    and reps: "\<forall>c \<in> set cs. rep p s m d c" using t by (auto simp: tree_ok_def)
  note st = child_step[OF o i k ok reps put two m'', folded ks'_def cs'_def]
  show 1: "ords lo hi ks' cs'" "length cs' = Suc (length ks')" "\<forall>c \<in> set cs'. rep p s m'' d c"
    "ct_flat (Ix a ks' cs') = ins k v (ct_flat (Ix a ks cs))"
    "grown m m'' (ct_addrs (Ix a ks cs)) (ct_addrs (Ix a ks' cs'))"
    using st ords_length[OF st(1)] by simp_all
  show lk: "linked_like [Ix a ks cs] [Ix a ks' cs']" using st(6) by (simp add: linked_like_def)
  show "put_ok p s (Suc d) lo hi k v m (Ix a ks cs) m'' [Ix a ks' cs'] []" if "length ks' < max_of s"
    using 1 lk at that by (intro put_ok_single) simp_all
qed

lemma heads_after_child:
  assumes "length cs = Suc (length ks)" "i < length cs" "ct_addr (hd ts) = ct_addr (cs ! i)"
  shows "ts = [t1] \<Longrightarrow> ct_addr (hd (take i cs @ ts @ drop (Suc i) cs)) = ct_addr (hd cs)"
    "ts = [t1] \<Longrightarrow> map (\<lambda>c. six_bytes (ct_addr c)) (tl (take i cs @ ts @ drop (Suc i) cs)) =
      map (\<lambda>c. six_bytes (ct_addr c)) (tl cs)"
    "ts = [t1, t2] \<Longrightarrow> ct_addr (hd (take i cs @ ts @ drop (Suc i) cs)) = ct_addr (hd cs)"
    "ts = [t1, t2] \<Longrightarrow> zip (take i ks @ [sep] @ drop i ks)
        (map (\<lambda>c. six_bytes (ct_addr c)) (tl (take i cs @ ts @ drop (Suc i) cs))) =
      insert_at i (sep, six_bytes (ct_addr t2)) (zip ks (map (\<lambda>c. six_bytes (ct_addr c)) (tl cs)))"
proof -
  let ?f = "\<lambda>c. six_bytes (ct_addr c)"
  have eq: "take i cs @ [cs ! i] @ drop (Suc i) cs = cs" using id_take_nth_drop[OF assms(2)] by simp
  show "ct_addr (hd (take i cs @ ts @ drop (Suc i) cs)) = ct_addr (hd cs)" if "ts = [t1]"
    using that assms(2,3) by (cases i; cases cs) auto
  show "ct_addr (hd (take i cs @ ts @ drop (Suc i) cs)) = ct_addr (hd cs)" if "ts = [t1, t2]"
    using that assms(2,3) by (cases i; cases cs) auto
  have same: "map ?f (take i cs @ [t1] @ drop (Suc i) cs) = map ?f cs" if "ct_addr t1 = ct_addr (cs ! i)"
    using that arg_cong[OF eq, of "map ?f"] by simp
  show "map ?f (tl (take i cs @ ts @ drop (Suc i) cs)) = map ?f (tl cs)" if "ts = [t1]"
    using same assms(3) that by (metis list.sel(1) map_tl)
  show "zip (take i ks @ [sep] @ drop i ks) (map ?f (tl (take i cs @ ts @ drop (Suc i) cs))) =
      insert_at i (sep, ?f t2) (zip ks (map ?f (tl cs)))" if "ts = [t1, t2]"
  proof -
    have tl: "map ?f (tl (take i cs @ ts @ drop (Suc i) cs)) =
        take i (map ?f (tl cs)) @ [?f t2] @ drop i (map ?f (tl cs))"
    proof -
      obtain c0 cs0 where cs: "cs = c0 # cs0" using assms(1) by (cases cs) auto
      have "map ?f (take i cs @ [t1]) = take (Suc i) (map ?f cs)"
        using assms(2,3) that by (simp add: take_Suc_conv_app_nth take_map)
      then have "map ?f (take i cs @ ts @ drop (Suc i) cs) =
          take (Suc i) (map ?f cs) @ [?f t2] @ drop (Suc i) (map ?f cs)"
        using that by (simp add: drop_map)
      then have "tl (map ?f (take i cs @ ts @ drop (Suc i) cs)) =
          take i (map ?f cs0) @ [?f t2] @ drop i (map ?f cs0)"
        by (simp only: cs list.map take_Suc_Cons drop_Suc_Cons append_Cons list.sel)
      then show ?thesis by (simp only: cs map_tl list.sel)
    qed
    have l: "length (take i ks) = length (take i (map ?f (tl cs)))" using assms(1) by simp
    show ?thesis unfolding tl insert_at_def using l by (simp add: take_zip drop_zip)
  qed
qed

lemma node_put_core:
  assumes s: "0 < s" "s \<le> 8" and "tree_ok p s m d lo hi t" and "mem_ok m"
    and "lo \<le> unat k" "unat k < hi" "same_prefix (8 - s) p k"
    and "cur_addr m + Suc d * node_size < end_addr m"
  shows "put_done p s d lo hi k v m t \<or> put_split p s d lo hi k v m t"
  using assms(3-)
proof (induction d arbitrary: t lo hi m)
  case 0
  then obtain a xs n where "t = Lf a xs n" by (cases t) (auto simp: tree_ok_def)
  then show ?case using leaf_put_core[OF s, of p m lo hi a xs n k v] 0 by simp
next
  case (Suc d)
  obtain a ks cs where t: "t = Ix a ks cs" using Suc.prems(1) by (cases t) (auto simp: tree_ok_def)
  note T = Suc.prems(1)[unfolded t]
  have r: "index_at p s m a ks cs" "length ks < max_of s" "length cs = Suc (length ks)"
    "\<forall>c \<in> set cs. rep p s m d c" and o: "ords lo hi ks cs"
    and ok: "addrs_ok m (a # concat (map ct_addrs cs))"
    using T by (auto simp: tree_ok_def)
  have lh: "lo < hi" using Suc.prems(3,4) by simp
  obtain nd where nd: "heap m a = Some nd" using r(1) by (auto simp: index_at_def)
  have ends: "cur_addr m \<le> end_addr m" using Suc.prems(6) by simp
  have am: "a < cur_addr m" "\<And>c x. c \<in> set cs \<Longrightarrow> x \<in> set (ct_addrs c) \<Longrightarrow> x < cur_addr m \<and> x \<noteq> a"
    using ok by (auto simp: addrs_ok_def)
  have adr: "\<forall>c \<in> set cs. ct_addr c < 2 ^ 48"
    using am(2) addr_small[OF Suc.prems(2) ends] ct_addr_in by blast
  define i where "i = nat (fst (sb_find_le (nbuf nd) k) + 1)"
  note ch = index_child[OF r(1) nd o Suc.prems(3,4,5) adr, folded i_def]
  note it = index_items[OF r(1) nd r(3)]
  let ?c = "cs ! i"
  have c: "?c \<in> set cs" using ch(1) by simp
  have cok: "tree_ok p s m d (low_of lo ks i) (high_of hi ks i) ?c"
  proof -
    have "addrs_ok m (ct_addrs ?c)"
      using ok concat_split_at[of i "map ct_addrs cs"] ch(1) by (auto simp: addrs_ok_def)
    then show ?thesis using r(4) c ords_child(1)[OF o ch(1) lh] by (simp add: tree_ok_def)
  qed
  have put: "cl_node_put (Suc (Suc d)) m a k v parent = do {
       (m1, new_child) \<leftarrow> cl_node_put (Suc d) m (ct_addr ?c) k v (Some a);
       if new_child \<noteq> ct_addr ?c then do {
         nd1 \<leftarrow> heap m1 a;
         if sb_entries (nbuf nd1) = sb_max_entries (nbuf nd1) then cl_index_split m1 a nd1 k parent
         else Some (m1, a)
       } else Some (m1, a) }" for parent
    unfolding cl_node_put.simps(2)[of "Suc d"] using nd it(2) ch(4) i_def
    by (simp add: Let_def del: cl_node_put.simps)
  have rm: "cur_addr m + Suc d * node_size < end_addr m" using Suc.prems(6) by simp
  from Suc.IH[OF cok Suc.prems(2) ch(2,3) Suc.prems(5) rm] show ?case
  proof
    assume "put_done p s d (low_of lo ks i) (high_of hi ks i) k v m ?c"
    then obtain m' t1 where D: "\<And>parent. cl_node_put (Suc d) m (ct_addr ?c) k v parent = Some (m', ct_addr ?c)"
      "put_ok p s d (low_of lo ks i) (high_of hi ks i) k v m ?c m' [t1] []"
      "cur_addr m' \<le> cur_addr m + d * node_size" unfolding put_done_def by blast
    let ?cs = "take i cs @ [t1] @ drop (Suc i) cs"
    have P: "ct_addr t1 = ct_addr ?c" "grown m m' (ct_addrs ?c) (ct_addrs t1)" using D(2) by (auto simp: put_ok_def)
    have "a \<notin> set (ct_addrs ?c)" using am(2)[OF c] by blast
    then have nd': "heap m' a = Some nd" using P(2) nd am(1) by (simp add: grown_def)
    have "index_at p s m' a (take i ks @ [] @ drop i ks) ?cs"
      using r(1) nd nd' heads_after_child(1,2)[OF r(3) ch(1), of "[t1]" t1] P(1) by (simp add: index_at_def)
    from index_after_child(7)[OF T ch(1) lh ch(2,3) D(2) _ _ _ _ this] r(2)
    have "put_ok p s (Suc d) lo hi k v m (Ix a ks cs) m' [Ix a ks ?cs] []" by simp
    then have "put_done p s (Suc d) lo hi k v m t"
      unfolding put_done_def t using put D(1,3)
      by (intro exI[of _ m'] exI[of _ "Ix a ks ?cs"]) (simp del: cl_node_put.simps)
    then show ?case ..
  next
    assume "put_split p s d (low_of lo ks i) (high_of hi ks i) k v m ?c"
    then obtain m2 cnd g sep t1 t2 where D: "\<And>parent. cl_node_put (Suc d) m (ct_addr ?c) k v parent = do {
        (m3, ret) \<leftarrow> cl_attach m2 (ct_addr ?c) s sep (ct_addr t2) parent;
        m4 \<leftarrow> mod_node m3 (ct_addr ?c) g; Some (m4, ret) }"
      "heap m2 (ct_addr ?c) = Some cnd" "same_prefix (8 - s) p sep" "cur_addr m \<le> ct_addr t2"
      "put_ok p s d (low_of lo ks i) (high_of hi ks i) k v m ?c (set_node m2 (ct_addr ?c) (g cnd)) [t1, t2] [sep]"
      "cur_addr m2 \<le> cur_addr m + Suc d * node_size" unfolding put_split_def by blast
    let ?m' = "set_node m2 (ct_addr ?c) (g cnd)"
    let ?ks = "take i ks @ [sep] @ drop i ks" and ?cs = "take i cs @ [t1, t2] @ drop (Suc i) cs"
    have P: "ct_addr t1 = ct_addr ?c" "grown m ?m' (ct_addrs ?c) (ct_addrs t1 @ ct_addrs t2)"
      "ords (low_of lo ks i) (high_of hi ks i) [sep] [t1, t2]" using D(5) by (auto simp: put_ok_def)
    have ca: "ct_addr ?c \<noteq> a" using am(2)[OF c ct_addr_in] by simp
    have "a < cur_addr m" "a \<notin> set (ct_addrs ?c)" using am(1) am(2)[OF c] by auto
    then have "heap ?m' a = heap m a" using P(2) by (simp add: grown_def)
    then have nd2: "heap m2 a = Some nd" using nd ca by simp
    have m2: "cur_addr m2 < end_addr m2" "mem_ok m2" "end_addr m2 = end_addr m" "ct_addr t2 < cur_addr m2"
      using P(2) D(6) Suc.prems(6) ct_addr_in[of t2]
      by (auto simp: grown_def mem_ok_def addrs_ok_def node_size_def)
    have t2: "ct_addr t2 < 2 ^ 48" using addr_small[OF m2(2) less_imp_le[OF m2(1)] m2(4)] .
    have so: "ords lo hi ?ks ?cs" using ords_replace[OF o ch(1) lh P(3)] by simp
    then have sk: "sorted_wrt (<) ?ks" using ords_sorted_keys by blast
    let ?xs = "zip ks (map (\<lambda>c. six_bytes (ct_addr c)) (tl cs))"
    have xs: "sb_items 6 p (nbuf nd) = ?xs" "length ?xs = length ks" "map fst ?xs = ks"
      using r(1,3) nd by (auto simp: index_at_def)
    have il: "i \<le> length ks" using ch(1) r(3) by simp
    have side: "\<forall>x \<in> set (take i ?xs). fst x < sep" "\<forall>x \<in> set (drop i ?xs). sep < fst x"
    proof -
      have "set (map fst (take i ?xs)) = set (take i ks)" "set (map fst (drop i ?xs)) = set (drop i ks)"
        using xs(3) by (metis take_map, metis drop_map)
      then show "\<forall>x \<in> set (take i ?xs). fst x < sep" "\<forall>x \<in> set (drop i ?xs). sep < fst x"
        using sk by (auto simp: sorted_wrt_append)
    qed
    have lx: "length ?xs < max_of s" "i \<le> length ?xs" using xs(2) r(2) il by auto
    have kx: "keys_sorted ?xs" using index_sorted[OF r(1) nd o] xs(1) by simp
    obtain buf where B: "cl_put_child m2 a sep (ct_addr t2) = Some (set_node m2 a (nd\<lparr>nbuf := buf\<rparr>))"
      "node_ok 6 s buf" "sb_items 6 p buf = insert_at i (sep, six_bytes (ct_addr t2)) ?xs"
      using put_child_refines[OF nd2 it(2,3) xs(1) kx lx(1) D(3) t2 lx(2) side] by blast
    let ?nd1 = "nd\<lparr>nbuf := buf\<rparr>"
    define m4 where "m4 = set_node (set_node m2 a ?nd1) (ct_addr ?c) (g cnd)"
    have child: "cl_node_put (Suc d) m (ct_addr ?c) k v (Some a) = Some (m4, ct_addr t2)"
      using D(1)[of "Some a"] B(1) D(2) ca by (simp add: cl_attach_def mod_node_def m4_def)
    have new: "ct_addr t2 \<noteq> ct_addr ?c" using D(4) am(2)[OF c ct_addr_in] by simp
    have nd4: "heap m4 a = Some ?nd1" using ca by (simp add: m4_def)
    have m4: "\<And>x. x \<noteq> a \<Longrightarrow> heap m4 x = heap ?m' x" "cur_addr m4 = cur_addr ?m'" "end_addr m4 = end_addr ?m'"
      by (simp_all add: m4_def)
    have at: "index_at p s m4 a ?ks ?cs"
      using r(1) nd nd4 B(2,3) it(2) P(1)
        heads_after_child(3)[OF r(3) ch(1), where ts = "[t1, t2]" and ?t1.0 = t1 and ?t2.0 = t2]
        heads_after_child(4)[OF r(3) ch(1), where ts = "[t1, t2]" and ?t1.0 = t1 and ?t2.0 = t2 and sep = sep]
      by (simp add: index_at_def)
    note AC = index_after_child[OF T ch(1) lh ch(2,3) D(5) _ m4 at]
    have e4: "sb_entries buf = Suc (length ks)" "sb_max_entries buf = max_of s"
      using node_entries[OF B(3)] xs(2) B(2) by (auto simp: node_ok_def)
    have put1: "cl_node_put (Suc (Suc d)) m a k v parent =
        (if Suc (length ks) = max_of s then cl_index_split m4 a ?nd1 k parent else Some (m4, a))" for parent
      unfolding put child using new nd4 e4 by simp
    have lks: "length ?ks = Suc (length ks)" using il by simp
    have cur4: "cur_addr m4 \<le> cur_addr m + Suc d * node_size" using D(6) by (simp add: m4_def)
    show ?case
    proof (cases "Suc (length ks) = max_of s")
      case False
      then have "length ?ks < max_of s" using r(2) lks by simp
      then have "put_ok p s (Suc d) lo hi k v m (Ix a ks cs) m4 [Ix a ?ks ?cs] []" using AC(7) by blast
      then have "put_done p s (Suc d) lo hi k v m t"
        unfolding put_done_def t using put1 False cur4
        by (intro exI[of _ m4] exI[of _ "Ix a ?ks ?cs"]) (simp del: cl_node_put.simps)
      then show ?thesis ..
    next
      case True
      have g4: "grown m m4 (ct_addrs t) (a # concat (map ct_addrs ?cs))" using AC(5) by (simp add: t)
      have sub4: "\<forall>c \<in> set ?cs. rep p s m4 d c \<and> ct_addr c < 2 ^ 48 \<and> a \<notin> set (ct_addrs c) \<and>
        (\<forall>x \<in> set (ct_addrs c). x < cur_addr m4)"
      proof
        fix c assume c: "c \<in> set ?cs"
        then have sub: "set (ct_addrs c) \<subseteq> set (concat (map ct_addrs ?cs))" by auto
        have "addrs_ok m4 (a # concat (map ct_addrs ?cs))" using g4 by (simp add: grown_def)
        then have x: "\<forall>x \<in> set (ct_addrs c). x < cur_addr m4 \<and> x \<noteq> a" using sub by (auto simp: addrs_ok_def)
        have "mem_ok m4" "cur_addr m4 \<le> end_addr m4" using m2 by (auto simp: m4_def mem_ok_def)
        then have "ct_addr c < 2 ^ 48" using addr_small x ct_addr_in by blast
        then show "rep p s m4 d c \<and> ct_addr c < 2 ^ 48 \<and> a \<notin> set (ct_addrs c) \<and>
            (\<forall>x \<in> set (ct_addrs c). x < cur_addr m4)"
          using AC(3) c x by blast
      qed
      have m4ok: "mem_ok m4" "a < cur_addr m4" "cur_addr m4 + node_size < end_addr m4"
        using m2 am(1) g4 cur4 Suc.prems(6) by (auto simp: m4_def mem_ok_def grown_def)
      have lks2: "length ?ks = max_of s" using lks True by simp
      let ?n = "cur_addr m4"
      obtain m5 sep' h where S: "\<And>parent. cl_index_split m4 a ?nd1 k parent = do {
           (m3, ret) \<leftarrow> cl_attach m5 a s sep' ?n parent;
           m4 \<leftarrow> mod_node m3 a (index_cut h); Some (m4, ret) }"
        "heap m5 a = Some ?nd1" "same_prefix (8 - s) p sep'" "cur_addr m5 = ?n + node_size"
        "end_addr m5 = end_addr m4" "\<And>x. x \<noteq> ?n \<Longrightarrow> heap m5 x = heap m4 x" "Suc h < length ?cs"
        "rep p s (set_node m5 a (index_cut h ?nd1)) (Suc d) (Ix a (take h ?ks) (take (Suc h) ?cs))"
        "rep p s (set_node m5 a (index_cut h ?nd1)) (Suc d) (Ix ?n (drop (Suc h) ?ks) (drop (Suc h) ?cs))"
        "ords lo hi [sep'] [Ix a (take h ?ks) (take (Suc h) ?cs), Ix ?n (drop (Suc h) ?ks) (drop (Suc h) ?cs)]"
        using index_split_refines[OF s at lks2 _ nd4 sub4 so m4ok Suc.prems(5)] AC(2) by blast
      let ?u1 = "Ix a (take h ?ks) (take (Suc h) ?cs)" and ?u2 = "Ix ?n (drop (Suc h) ?ks) (drop (Suc h) ?cs)"
      let ?m6 = "set_node m5 a (index_cut h ?nd1)"
      have cat: "concat (map f (take (Suc h) ?cs)) @ concat (map f (drop (Suc h) ?cs)) = concat (map f ?cs)"
        for f :: "ct \<Rightarrow> 'a list"
        by (metis append_take_drop_id concat_append map_append)
      have flat: "concat (map ct_flat [?u1, ?u2]) = ins k v (ct_flat t)"
        using AC(4) cat[of ct_flat] by (simp add: t)
      have lk: "linked_like [t] [?u1, ?u2]"
        using AC(6) cat[of ct_leaves] by (simp add: t linked_like_def)
      have gr: "grown m ?m6 (ct_addrs t) (concat (map ct_addrs [?u1, ?u2]))"
      proof -
        have adr: "set (concat (map ct_addrs [?u1, ?u2])) = insert ?n (set (a # concat (map ct_addrs ?cs)))"
          using arg_cong[OF cat[of ct_addrs], of set] by auto
        have d4: "addrs_ok m4 (a # concat (map ct_addrs ?cs))" using g4 by (simp add: grown_def)
        then have "distinct (concat (map ct_addrs (take (Suc h) ?cs)) @ concat (map ct_addrs (drop (Suc h) ?cs)))"
          "a \<notin> set (concat (map ct_addrs (take (Suc h) ?cs)) @ concat (map ct_addrs (drop (Suc h) ?cs)))"
          "?n \<notin> set (a # concat (map ct_addrs (take (Suc h) ?cs)) @ concat (map ct_addrs (drop (Suc h) ?cs)))"
          unfolding cat addrs_ok_def by auto
        then have "distinct (concat (map ct_addrs [?u1, ?u2]))" by auto
        moreover have "\<forall>x \<in> set (concat (map ct_addrs [?u1, ?u2])). x < cur_addr ?m6 \<and> node_size dvd x"
        proof
          fix x assume "x \<in> set (concat (map ct_addrs [?u1, ?u2]))"
          then consider "x = ?n" | "x \<in> set (a # concat (map ct_addrs ?cs))" unfolding adr by blast
          then show "x < cur_addr ?m6 \<and> node_size dvd x"
          proof cases
            case 1
            then show ?thesis using S(4) m4ok(1) by (simp add: mem_ok_def node_size_def)
          next
            case 2
            then have "x < cur_addr m4 \<and> node_size dvd x" using d4 unfolding addrs_ok_def by blast
            then show ?thesis using S(4) by simp
          qed
        qed
        ultimately have "addrs_ok ?m6 (concat (map ct_addrs [?u1, ?u2]))" unfolding addrs_ok_def by blast
        moreover have "mem_ok ?m6" using m4ok(1) S(4,5) by (simp add: mem_ok_def)
        moreover have "heap ?m6 x = heap m x" if "x < cur_addr m" "x \<notin> set (ct_addrs t)" for x
        proof -
          have "x \<noteq> a" "x \<noteq> ?n" using that g4 by (auto simp: t grown_def)
          then show ?thesis using S(6)[of x] that g4 by (simp add: grown_def)
        qed
        ultimately show ?thesis using g4 S(4,5) unfolding grown_def adr by auto
      qed
      have "put_ok p s (Suc d) lo hi k v m t ?m6 [?u1, ?u2] [sep']"
        unfolding put_ok_def using S(8,9,10) flat lk gr
        by (simp add: t del: rep.simps ords.simps ct_flat.simps ct_addrs.simps)
      then have "put_split p s (Suc d) lo hi k v m t"
        unfolding put_split_def t using put1 True S(1,2,3,4) cur4 g4
        by (intro exI[of _ m5] exI[of _ ?nd1] exI[of _ "index_cut h"] exI[of _ sep'] exI[of _ ?u1] exI[of _ ?u2])
          (simp add: grown_def del: cl_node_put.simps)
      then show ?thesis ..
    qed
  qed
qed

end
