(* ===== verification/CLevelTop.thy ===== *)
theory CLevelTop
  imports CLevelProofs
begin

text \<open>
  The operations of \<^verbatim>\<open>CLevel\<close> on the list of pairs that the tree holds: \<open>cl_holds\<close> ties a
  region and a root link to that list (strictly sorted, one pair per key), and insertion,
  lookup, update, deletion, set-up and iteration are shown to act on it as their names say.
\<close>

definition cl_tree :: "u64 \<Rightarrow> nat \<Rightarrow> clmem \<Rightarrow> nat \<Rightarrow> ct \<Rightarrow> bool" where
  "cl_tree p s m d t \<longleftrightarrow> 0 < s \<and> s \<le> 8 \<and> mem_ok m \<and> cur_addr m \<le> end_addr m \<and>
     tree_ok p s m d 0 (2 ^ 64) t \<and> (\<exists>e. bit e 0 \<and> chained (ct_leaves t) e)"

definition cl_holds :: "u64 \<Rightarrow> nat \<Rightarrow> clmem \<Rightarrow> clevel \<Rightarrow> nat \<Rightarrow> kv list \<Rightarrow> bool" where
  "cl_holds p s m c d xs \<longleftrightarrow> (\<exists>t. cl_tree p s m d t \<and> c = six_bytes (ct_addr t) \<and> ct_flat t = xs)"

lemma u64_range [simp]: "unat (k :: u64) < 2 ^ 64"
  using unsigned_less[of k] by simp

lemma cl_holds_root:
  assumes "cl_tree p s m d t" "c = six_bytes (ct_addr t)"
  shows "cl_root c = ct_addr t" "cl_has_setup c"
proof -
  have a: "ct_addr t < cur_addr m" "node_size dvd ct_addr t"
    using assms(1) ct_addr_in[of t] by (auto simp: cl_tree_def tree_ok_def addrs_ok_def)
  then have "ct_addr t < 2 ^ 48" using assms(1) addr_small by (auto simp: cl_tree_def)
  then show "cl_root c = ct_addr t" "cl_has_setup c"
    using six_bytes_facts(2,5)[of "ct_addr t"] node_size_even[OF a(2)] assms(2)
    by (auto simp: cl_root_def cl_has_setup_def)
qed

lemma cl_holds_sorted: "cl_holds p s m c d xs \<Longrightarrow> keys_sorted xs"
  using ord_bounds(1)[of 0 "2 ^ 64"] by (auto simp: cl_holds_def cl_tree_def tree_ok_def)

lemma u64_range_numeral [simp]: "unat (k :: u64) < 18446744073709551616"
  using u64_range[of k] by simp

subsection \<open>Insertion\<close>

lemma cl_node_put_mono:
  "cl_node_put f m a k v parent = Some r \<Longrightarrow> f \<le> f' \<Longrightarrow> cl_node_put f' m a k v parent = Some r"
proof (induction f arbitrary: f' m a parent r)
  case (Suc f)
  then obtain g where g: "f' = Suc g" "f \<le> g" by (cases f') auto
  obtain nd where nd: "heap m a = Some nd" using Suc.prems(1) by (cases "heap m a") auto
  show ?case
  proof (cases "ntype nd")
    case INDEX
    define child where "child = cl_get_child nd (nat (fst (sb_find_le (nbuf nd) k) + 1))"
    obtain q where q: "cl_node_put f m child k v (Some a) = Some q"
      using Suc.prems(1) nd INDEX by (cases "cl_node_put f m child k v (Some a)") (auto simp: child_def Let_def)
    with Suc.IH[OF q g(2)] show ?thesis using Suc.prems(1) nd INDEX g(1) by (simp add: child_def Let_def)
  qed (use Suc.prems(1) nd g(1) in simp_all)
qed simp

lemma linked_chained: "linked_like [t] ts \<Longrightarrow> chained (ct_leaves t) e \<Longrightarrow> chained (concat (map ct_leaves ts)) e"
  by (simp add: linked_like_def)

lemma addrs_ok_cons:
  assumes "addrs_ok m as" "mem_ok m" "cur_addr m' = cur_addr m + node_size"
  shows "addrs_ok m' (cur_addr m # as)"
proof -
  have "x < cur_addr m' \<and> node_size dvd x" if "x \<in> set as" for x
    using assms(1,3) that by (auto simp: addrs_ok_def)
  moreover have "cur_addr m < cur_addr m'" "node_size dvd cur_addr m"
    using assms(2,3) by (simp_all add: mem_ok_def node_size_def)
  ultimately show ?thesis using assms(1) by (auto simp: addrs_ok_def)
qed

lemma new_root_refines:
  assumes s: "0 < s" "s \<le> 8" and m: "mem_ok m" "cur_addr m + node_size < end_addr m"
    and k: "same_prefix (8 - s) p sep" "b < 2 ^ 48"
  shows "\<exists>m3 buf. cl_new_root m a s sep b = Some (m3, cur_addr m) \<and> cur_addr m3 = cur_addr m + node_size \<and>
    end_addr m3 = end_addr m \<and> (\<forall>x. x \<noteq> cur_addr m \<longrightarrow> heap m3 x = heap m x) \<and>
    heap m3 (cur_addr m) = Some \<lparr>ntype = INDEX, nlink = six_bytes a, nbuf = buf\<rparr> \<and>
    node_ok 6 s buf \<and> sb_items 6 p buf = [(sep, six_bytes b)]"
proof -
  let ?r = "cur_addr m"
  let ?nd = "\<lparr>ntype = INDEX, nlink = six_bytes a, nbuf = new_node_buf s\<rparr>"
  define m1 where "m1 = set_node (m\<lparr>cur_addr := ?r + node_size\<rparr>) ?r
            \<lparr>ntype = INDEX, nlink = 0, nbuf = new_node_buf s\<rparr>"
  define m2 where "m2 = set_node m1 ?r ?nd"
  note nb = new_node_buf_ok[OF s, of 6]
  have "heap m2 ?r = Some ?nd" "length ([] :: kv list) < max_of s" using max_of_bounds[OF s] by (simp_all add: m2_def)
  then obtain buf where b: "cl_put_child m2 ?r sep b = Some (set_node m2 ?r (?nd\<lparr>nbuf := buf\<rparr>))"
    "node_ok 6 s buf" "sb_items 6 p buf = insert_at 0 (sep, six_bytes b) []"
    using put_child_refines[of m2 ?r ?nd s p "[]" sep b 0] nb k by auto
  have "cl_new_root m a s sep b = Some (set_node m2 ?r (?nd\<lparr>nbuf := buf\<rparr>), ?r)"
    using cl_new_node_eq[OF s m(2), of INDEX] b(1)
    by (simp add: cl_new_root_def mod_node_def m1_def[symmetric] m2_def[symmetric])
      (simp add: m1_def m2_def set_node_def)
  then show ?thesis using b(2,3)
    by (intro exI[of _ "set_node m2 ?r (?nd\<lparr>nbuf := buf\<rparr>)"] exI[of _ buf])
      (simp add: m2_def m1_def insert_at_def)
qed

lemma cl_tree_put:
  assumes t: "cl_tree p s m d t" and k: "same_prefix (8 - s) p k" and f: "d < f"
    and room: "cur_addr m + (d + 2) * node_size < end_addr m"
  shows "\<exists>m' d' t'. cl_node_put f m (ct_addr t) k v None = Some (m', ct_addr t') \<and> cl_tree p s m' d' t' \<and>
    ct_flat t' = ins k v (ct_flat t) \<and> d' \<le> Suc d \<and> cur_addr m' \<le> cur_addr m + (d + 2) * node_size \<and>
    end_addr m' = end_addr m \<and> (\<forall>x < cur_addr m. x \<notin> set (ct_addrs t) \<longrightarrow> heap m' x = heap m x) \<and>
    (\<forall>x \<in> set (ct_addrs t'). x \<in> set (ct_addrs t) \<or> cur_addr m \<le> x) \<and> cur_addr m \<le> cur_addr m'"
proof -
  have s: "0 < s" "s \<le> 8" and T: "tree_ok p s m d 0 (2 ^ 64) t" and mk: "mem_ok m"
    and ch: "\<exists>e. bit e 0 \<and> chained (ct_leaves t) e" using t by (auto simp: cl_tree_def)
  have r1: "cur_addr m + Suc d * node_size < end_addr m" using room by simp
  from node_put_core[OF s T mk le0 u64_range k r1, of v] show ?thesis
  proof
    assume "put_done p s d 0 (2 ^ 64) k v m t"
    then obtain m' t1 where D: "cl_node_put (Suc d) m (ct_addr t) k v None = Some (m', ct_addr t)"
      "put_ok p s d 0 (2 ^ 64) k v m t m' [t1] []" "cur_addr m' \<le> cur_addr m + d * node_size"
      unfolding put_done_def by blast
    have "cl_node_put f m (ct_addr t) k v None = Some (m', ct_addr t1)"
      using cl_node_put_mono[OF D(1), of f] f D(2) by (simp add: put_ok_def del: cl_node_put.simps)
    moreover have "cl_tree p s m' d t1"
      using D(2,3) s ch room linked_chained[of t "[t1]"]
      by (auto simp: put_ok_def cl_tree_def tree_ok_def grown_def)
    moreover have "grown m m' (ct_addrs t) (ct_addrs t1)" "ct_flat t1 = ins k v (ct_flat t)"
      using D(2) by (simp_all add: put_ok_def)
    ultimately show ?thesis using D(3) unfolding grown_def
      by (intro exI[of _ m'] exI[of _ d] exI[of _ t1]) simp
  next
    assume "put_split p s d 0 (2 ^ 64) k v m t"
    then obtain m2 nd g sep t1 t2 where D: "cl_node_put (Suc d) m (ct_addr t) k v None = do {
        (m3, ret) \<leftarrow> cl_attach m2 (ct_addr t) s sep (ct_addr t2) None;
        m4 \<leftarrow> mod_node m3 (ct_addr t) g; Some (m4, ret) }"
      "heap m2 (ct_addr t) = Some nd" "same_prefix (8 - s) p sep" "cur_addr m \<le> ct_addr t2"
      "put_ok p s d 0 (2 ^ 64) k v m t (set_node m2 (ct_addr t) (g nd)) [t1, t2] [sep]"
      "cur_addr m2 \<le> cur_addr m + Suc d * node_size" unfolding put_split_def by blast
    let ?a = "ct_addr t" and ?r = "cur_addr m2"
    let ?m2' = "set_node m2 ?a (g nd)"
    note P = D(5)[unfolded put_ok_def]
    have gr: "grown m ?m2' (ct_addrs t) (ct_addrs t1 @ ct_addrs t2)" using P by simp
    have ao: "addrs_ok ?m2' (ct_addrs t1 @ ct_addrs t2)" using gr by (simp add: grown_def)
    have m2: "mem_ok m2" "end_addr m2 = end_addr m" "cur_addr m2 + node_size < end_addr m2"
      using gr D(6) room by (auto simp: grown_def mem_ok_def node_size_def)
    have t2: "ct_addr t2 < 2 ^ 48"
      using ao ct_addr_in[of t2] addr_small[OF m2(1)] m2(3) by (auto simp: addrs_ok_def)
    obtain m3 buf where N: "cl_new_root m2 ?a s sep (ct_addr t2) = Some (m3, ?r)"
      "cur_addr m3 = ?r + node_size" "end_addr m3 = end_addr m2" "\<And>x. x \<noteq> ?r \<Longrightarrow> heap m3 x = heap m2 x"
      "heap m3 ?r = Some \<lparr>ntype = INDEX, nlink = six_bytes ?a, nbuf = buf\<rparr>" "node_ok 6 s buf"
      "sb_items 6 p buf = [(sep, six_bytes (ct_addr t2))]"
      using new_root_refines[OF s m2(1,3) D(3) t2, of ?a] by blast
    have ar: "?a \<noteq> ?r" using ao P ct_addr_in[of t1] by (auto simp: addrs_ok_def)
    define m4 where "m4 = set_node m3 ?a (g nd)"
    have h3: "heap m3 ?a = Some nd" using N(4)[OF ar] D(2) by simp
    have "cl_node_put (Suc d) m ?a k v None = Some (m4, ?r)"
      unfolding D(1) by (simp add: cl_attach_def N(1) mod_node_def h3 m4_def)
    then have put: "cl_node_put f m ?a k v None = Some (m4, ?r)" by (rule cl_node_put_mono) (use f in simp)
    let ?t = "Ix ?r [sep] [t1, t2]"
    have h4: "heap m4 x = heap ?m2' x" if "x \<noteq> ?r" for x using N(4) that by (simp add: m4_def)
    have nr: "?r \<notin> set (ct_addrs t1 @ ct_addrs t2)" using ao by (auto simp: addrs_ok_def)
    have sub: "rep p s m4 d c" if "c \<in> {t1, t2}" for c
    proof (rule rep_frame)
      show "rep p s ?m2' d c" using that P by auto
      fix x assume "x \<in> set (ct_addrs c)"
      then have "x \<noteq> ?r" using nr that by auto
      then show "heap m4 x = heap ?m2' x" by (rule h4)
    qed
    have "index_at p s m4 ?r [sep] [t1, t2]"
      using N(5,6,7) ar P by (simp add: index_at_def m4_def)
    then have "rep p s m4 (Suc d) ?t" using sub max_of_bounds[OF s] by simp
    moreover have "ordd 0 (2 ^ 64) ?t" using P by simp
    moreover have "addrs_ok m4 (ct_addrs ?t)"
      using addrs_ok_cons[OF _ m2(1), of "ct_addrs t1 @ ct_addrs t2" m4] ao N(2)
      by (simp add: m4_def addrs_ok_def)
    moreover have "mem_ok m4" "cur_addr m4 \<le> end_addr m4"
      using m2 N(2,3) by (auto simp: m4_def mem_ok_def node_size_def)
    moreover have "\<exists>e. bit e 0 \<and> chained (ct_leaves ?t) e"
      using ch linked_chained[of t "[t1, t2]"] P by auto
    ultimately have "cl_tree p s m4 (Suc d) ?t" using s by (simp add: cl_tree_def tree_ok_def)
    moreover have "ct_flat ?t = ins k v (ct_flat t)" using P by simp
    moreover have "heap m4 x = heap m x" if "x < cur_addr m" "x \<notin> set (ct_addrs t)" for x
      using gr h4[of x] that by (auto simp: grown_def)
    moreover have "cur_addr m4 = cur_addr m2 + node_size" "end_addr m4 = end_addr m" "cur_addr m \<le> cur_addr m2"
      using N(2,3) m2(2) gr by (simp_all add: m4_def grown_def)
    moreover have "\<forall>x \<in> set (ct_addrs ?t). x \<in> set (ct_addrs t) \<or> cur_addr m \<le> x"
      using gr by (auto simp: grown_def)
    ultimately show ?thesis using put D(6)
      by (intro exI[of _ m4] exI[of _ "Suc d"] exI[of _ ?t]) simp
  qed
qed

theorem cl_put_holds:
  assumes "cl_holds p s m c d xs" "same_prefix (8 - s) p k" "d < f"
    "cur_addr m + (d + 2) * node_size < end_addr m"
  shows "\<exists>m' c' d'. cl_put f m c k v = Some (m', c', True) \<and> cl_holds p s m' c' d' (ins k v xs) \<and>
    d' \<le> Suc d \<and> cur_addr m' \<le> cur_addr m + (d + 2) * node_size \<and> end_addr m' = end_addr m"
proof -
  obtain t where t: "cl_tree p s m d t" "c = six_bytes (ct_addr t)" "ct_flat t = xs"
    using assms(1) by (auto simp: cl_holds_def)
  obtain m' d' t' where P: "cl_node_put f m (ct_addr t) k v None = Some (m', ct_addr t')"
    "cl_tree p s m' d' t'" "ct_flat t' = ins k v xs" "d' \<le> Suc d"
    "cur_addr m' \<le> cur_addr m + (d + 2) * node_size" "end_addr m' = end_addr m"
    using cl_tree_put[OF t(1) assms(2-4)] t(3) by blast
  have rt: "cl_root c = ct_addr t" using cl_holds_root(1)[OF t(1,2)] .
  have "cl_put f m c k v = Some (m', six_bytes (ct_addr t'), True)"
    unfolding cl_put_def Let_def rt P(1) by (simp add: t(2))
  moreover have "cl_holds p s m' (six_bytes (ct_addr t')) d' (ins k v xs)"
    using P(2,3) by (auto simp: cl_holds_def)
  ultimately show ?thesis using P(4-6) by blast
qed

subsection \<open>Finding the leaf of a key\<close>

definition flat_of :: "(nat \<times> kv list \<times> u64) list \<Rightarrow> kv list" where
  "flat_of ls = concat (map (\<lambda>l. fst (snd l)) ls)"

lemma flat_of_simps [simp]:
  "flat_of [] = []" "flat_of ((a, xs, n) # ls) = xs @ flat_of ls" "flat_of (ls @ ls') = flat_of ls @ flat_of ls'"
  by (simp_all add: flat_of_def)

lemma flat_of_leaves: "flat_of (ct_leaves t) = ct_flat t"
  by (simp add: flat_of_def concat_leaves)

lemma flat_of_concat: "flat_of (concat (map ct_leaves cs)) = concat (map ct_flat cs)"
  by (induction cs) (simp_all add: flat_of_leaves)

text \<open>The leaf of a key: the pairs left of it are smaller, those right of it greater, and the
  leaf can be replaced by one whose keys it had.\<close>

definition leaf_repl :: "u64 \<Rightarrow> nat \<Rightarrow> clmem \<Rightarrow> nat \<Rightarrow> nat \<Rightarrow> nat \<Rightarrow> ct \<Rightarrow> nat \<Rightarrow> kv list \<Rightarrow> u64 \<Rightarrow>
    (nat \<times> kv list \<times> u64) list \<Rightarrow> (nat \<times> kv list \<times> u64) list \<Rightarrow> bool" where
  "leaf_repl p s m d lo hi t a xs n L1 L2 \<longleftrightarrow>
     (\<forall>m' xs'. leaf_at p s m' a xs' n \<and> length xs' < max_of s \<and> keys_sorted xs' \<and>
        fst ` set xs' \<subseteq> fst ` set xs \<and> (\<forall>x. x \<noteq> a \<longrightarrow> heap m' x = heap m x) \<longrightarrow>
        (\<exists>t'. rep p s m' d t' \<and> ordd lo hi t' \<and> ct_addr t' = ct_addr t \<and> ct_addrs t' = ct_addrs t \<and>
           ct_leaves t' = L1 @ (a, xs', n) # L2))"

definition leaf_found :: "u64 \<Rightarrow> nat \<Rightarrow> clmem \<Rightarrow> nat \<Rightarrow> nat \<Rightarrow> nat \<Rightarrow> ct \<Rightarrow> u64 \<Rightarrow> nat \<Rightarrow> kv list \<Rightarrow> u64 \<Rightarrow>
    (nat \<times> kv list \<times> u64) list \<Rightarrow> (nat \<times> kv list \<times> u64) list \<Rightarrow> bool" where
  "leaf_found p s m d lo hi t k a xs n L1 L2 \<longleftrightarrow>
     a \<in> set (ct_addrs t) \<and> leaf_at p s m a xs n \<and> length xs < max_of s \<and> keys_sorted xs \<and>
     ct_leaves t = L1 @ (a, xs, n) # L2 \<and> (\<forall>x \<in> set (flat_of L1). fst x < k) \<and>
     (\<forall>x \<in> set (flat_of L2). k < fst x) \<and> leaf_repl p s m d lo hi t a xs n L1 L2"

lemma find_leaf_found:
  assumes "tree_ok p s m d lo hi t" "mem_ok m" "cur_addr m \<le> end_addr m" "lo \<le> unat k" "unat k < hi"
    "same_prefix (8 - s) p k" "d < f"
  shows "\<exists>a xs n L1 L2. cl_find_leaf f m (ct_addr t) k = Some a \<and> leaf_found p s m d lo hi t k a xs n L1 L2"
  using assms
proof (induction f arbitrary: d lo hi t)
  case 0
  then show ?case by simp
next
  case (Suc f)
  show ?case
  proof (cases t)
    case (Lf a xs n)
    note T = Suc.prems(1)[unfolded Lf]
    obtain nd where nd: "heap m a = Some nd" "ntype nd = LEAF" "d = 0"
      using T by (auto simp: tree_ok_def leaf_at_def)
    have "leaf_repl p s m d lo hi t a xs n [] []"
      unfolding leaf_repl_def
    proof (intro allI impI, elim conjE)
      fix m' xs'
      assume x: "leaf_at p s m' a xs' n" "length xs' < max_of s" "keys_sorted xs'" "fst ` set xs' \<subseteq> fst ` set xs"
      have b: "\<forall>y \<in> fst ` set xs. lo \<le> unat y \<and> unat y < hi" using T by (auto simp: tree_ok_def)
      have "\<forall>y \<in> set xs'. lo \<le> unat (fst y) \<and> unat (fst y) < hi" using b x(4) by blast
      then show "\<exists>t'. rep p s m' d t' \<and> ordd lo hi t' \<and> ct_addr t' = ct_addr t \<and> ct_addrs t' = ct_addrs t \<and>
           ct_leaves t' = [] @ (a, xs', n) # []"
        using x nd(3) by (intro exI[of _ "Lf a xs' n"]) (simp add: Lf)
    qed
    then show ?thesis using T nd(1,2)
      by (intro exI[of _ a] exI[of _ xs] exI[of _ n] exI[of _ "[]"]) (simp add: Lf leaf_found_def tree_ok_def)
  next
    case (Ix a ks cs)
    note T = Suc.prems(1)[unfolded Ix]
    obtain d' where d': "d = Suc d'" using T by (cases d) (auto simp: tree_ok_def)
    have r: "index_at p s m a ks cs" "length ks < max_of s" "length cs = Suc (length ks)"
      "\<forall>c \<in> set cs. rep p s m d' c" and o: "ords lo hi ks cs"
      and ok: "addrs_ok m (a # concat (map ct_addrs cs))"
      using T d' by (auto simp: tree_ok_def)
    have lh: "lo < hi" using Suc.prems(4,5) by simp
    obtain nd where nd: "heap m a = Some nd" using r(1) by (auto simp: index_at_def)
    have adr: "\<forall>c \<in> set cs. ct_addr c < 2 ^ 48"
    proof
      fix c assume "c \<in> set cs"
      then have "ct_addr c \<in> set (a # concat (map ct_addrs cs))" by (auto intro!: bexI[of _ c])
      then show "ct_addr c < 2 ^ 48" using ok addr_small[OF Suc.prems(2,3)] by (auto simp: addrs_ok_def)
    qed
    define i where "i = nat (fst (sb_find_le (nbuf nd) k) + 1)"
    note ch = index_child[OF r(1) nd o Suc.prems(4,5,6) adr, folded i_def]
    let ?c = "cs ! i"
    let ?l = "low_of lo ks i" and ?h = "high_of hi ks i"
    have c: "?c \<in> set cs" using ch(1) by simp
    have split: "concat (map g cs) = concat (map g (take i cs)) @ g ?c @ concat (map g (drop (Suc i) cs))"
      for g :: "ct \<Rightarrow> 'z list"
      using concat_split_at[of i "map g cs"] ch(1) by (simp add: take_map drop_map)
    have cok: "tree_ok p s m d' ?l ?h ?c"
      using ok r(4) c ords_child(1)[OF o ch(1) lh] unfolding split by (auto simp: tree_ok_def addrs_ok_def)
    have "d' < f" using Suc.prems(7) d' by simp
    from Suc.IH[OF cok Suc.prems(2,3) ch(2,3) Suc.prems(6) this] obtain b xs n L1 L2 where
      F: "cl_find_leaf f m (ct_addr ?c) k = Some b" "leaf_found p s m d' ?l ?h ?c k b xs n L1 L2" by blast
    note F' = F(2)[unfolded leaf_found_def]
    let ?A = "concat (map ct_leaves (take i cs))" and ?B = "concat (map ct_leaves (drop (Suc i) cs))"
    have find: "cl_find_leaf (Suc f) m (ct_addr t) k = Some b"
      using nd index_items(2)[OF r(1) nd r(3)] F(1) ch(4) by (simp add: Ix i_def)
    have sides: "\<forall>x \<in> set (flat_of ?A). fst x < k" "\<forall>x \<in> set (flat_of ?B). k < fst x"
      using ords_flat_sides[OF o ch(1) lh] ch(2,3) unfolding flat_of_concat
      by (fastforce simp: word_less_nat_alt)+
    have "leaf_repl p s m d lo hi t b xs n (?A @ L1) (L2 @ ?B)"
      unfolding leaf_repl_def
    proof (intro allI impI, elim conjE)
      fix m' xs'
      assume x: "leaf_at p s m' b xs' n" "length xs' < max_of s" "keys_sorted xs'"
        "fst ` set xs' \<subseteq> fst ` set xs" "\<forall>x. x \<noteq> b \<longrightarrow> heap m' x = heap m x"
      then obtain u where u: "rep p s m' d' u" "ordd ?l ?h u" "ct_addr u = ct_addr ?c"
        "ct_addrs u = ct_addrs ?c" "ct_leaves u = L1 @ (b, xs', n) # L2"
        using F' unfolding leaf_repl_def by blast
      let ?cs = "cs[i := u]"
      have dis: "distinct (a # concat (map ct_addrs (take i cs)) @ ct_addrs ?c @ concat (map ct_addrs (drop (Suc i) cs)))"
        using ok unfolding addrs_ok_def split by simp
      have bc: "b \<in> set (ct_addrs ?c)" using F' by blast
      have cs': "?cs = take i cs @ u # drop (Suc i) cs" using ch(1) by (simp add: upd_conv_take_nth_drop)
      have o': "ords lo hi ks ?cs" using u(2) by (rule ords_child(5)[OF o ch(1) lh])
      have "rep p s m' d' w" if "w \<in> set ?cs" for w
      proof (cases "w = u")
        case False
        then have w: "w \<in> set (take i cs) \<union> set (drop (Suc i) cs)" using that unfolding cs' by auto
        have "b \<notin> set (ct_addrs w)" using w bc dis by auto
        have "w \<in> set cs" using w by (auto dest: in_set_takeD in_set_dropD)
        then have "rep p s m d' w" using r(4) by blast
        then show ?thesis
        proof (rule rep_frame)
          fix y assume "y \<in> set (ct_addrs w)"
          then have "y \<noteq> b" using \<open>b \<notin> set (ct_addrs w)\<close> by blast
          then show "heap m' y = heap m y" using x(5) by blast
        qed
      qed (use u in simp)
      moreover have "index_at p s m' a ks ?cs"
      proof -
        have "heap m' a = Some nd" using x(5) nd bc dis by auto
        moreover have "map ct_addr ?cs = map ct_addr cs" using u(3) ch(1)
          by (simp add: map_update list_update_same_conv)
        then have "ct_addr (hd ?cs) = ct_addr (hd cs)" "map ct_addr (tl ?cs) = map ct_addr (tl cs)"
          using r(3) by (metis length_list_update list.map_sel(1) list.size(3) nat.distinct(1), metis map_tl)
        then have "ct_addr (hd ?cs) = ct_addr (hd cs)"
          "map (\<lambda>c. six_bytes (ct_addr c)) (tl ?cs) = map (\<lambda>c. six_bytes (ct_addr c)) (tl cs)"
          by (auto dest: arg_cong[of _ _ "map six_bytes"] simp: comp_def)
        ultimately show ?thesis using r(1) nd by (simp add: index_at_def)
      qed
      moreover have "concat (map ct_addrs ?cs) = concat (map ct_addrs cs)"
        unfolding split cs' using u(4) by simp
      moreover have "concat (map ct_leaves ?cs) = (?A @ L1) @ (b, xs', n) # (L2 @ ?B)"
        unfolding cs' using u(5) by simp
      ultimately show "\<exists>t'. rep p s m' d t' \<and> ordd lo hi t' \<and> ct_addr t' = ct_addr t \<and> ct_addrs t' = ct_addrs t \<and>
           ct_leaves t' = (?A @ L1) @ (b, xs', n) # (L2 @ ?B)"
        using o' r(2,3) d' by (intro exI[of _ "Ix a ks ?cs"]) (simp add: Ix)
    qed
    moreover have "ct_leaves t = (?A @ L1) @ (b, xs, n) # (L2 @ ?B)"
      using F' unfolding Ix ct_leaves.simps split by simp
    moreover have "b \<in> set (ct_addrs t)" using F' c by (auto simp: Ix)
    ultimately have "leaf_found p s m d lo hi t k b xs n (?A @ L1) (L2 @ ?B)"
      using F' sides unfolding leaf_found_def by auto
    then show ?thesis using find by blast
  qed
qed

lemma cl_holds_leaf:
  assumes "cl_tree p s m d t" "same_prefix (8 - s) p k" "d < f"
  shows "\<exists>a xs n L1 L2 nd. cl_find_leaf f m (ct_addr t) k = Some a \<and>
    leaf_found p s m d 0 (2 ^ 64) t k a xs n L1 L2 \<and> heap m a = Some nd \<and> ntype nd = LEAF \<and> nlink nd = n \<and>
    node_ok 8 s (nbuf nd) \<and> sb_items 8 p (nbuf nd) = xs \<and> sb_entries (nbuf nd) = length xs \<and>
    keys_sorted xs \<and> ct_flat t = flat_of L1 @ xs @ flat_of L2"
proof -
  have T: "tree_ok p s m d 0 (2 ^ 64) t" "mem_ok m" "cur_addr m \<le> end_addr m"
    using assms(1) by (auto simp: cl_tree_def)
  obtain a xs n L1 L2 where F: "cl_find_leaf f m (ct_addr t) k = Some a"
    "leaf_found p s m d 0 (2 ^ 64) t k a xs n L1 L2"
    using find_leaf_found[OF T le0 u64_range assms(2,3)] by blast
  then obtain nd where nd: "heap m a = Some nd" "ntype nd = LEAF" "nlink nd = n" "node_ok 8 s (nbuf nd)"
    "sb_items 8 p (nbuf nd) = xs" by (auto simp: leaf_found_def leaf_at_def)
  have "ct_leaves t = L1 @ (a, xs, n) # L2" "keys_sorted xs" using F(2) by (auto simp: leaf_found_def)
  then have "ct_flat t = flat_of L1 @ xs @ flat_of L2" using flat_of_leaves[of t] by simp
  then show ?thesis using F nd node_entries[OF nd(5)] \<open>keys_sorted xs\<close> by blast
qed

lemma leaf_found_map:
  assumes "leaf_found p s m d lo hi t k a xs n L1 L2"
  shows "map_of (flat_of L1 @ ys @ flat_of L2) k = map_of ys k"
proof -
  have l: "map_of (flat_of L1) k = None" and r: "map_of (flat_of L2) k = None"
    using assms by (auto simp: leaf_found_def intro!: map_of_notin_range)
  then show ?thesis by (auto simp: map_add_def split: option.splits)
qed

theorem cl_get_holds:
  assumes "cl_holds p s m c d xs" "same_prefix (8 - s) p k" "d < f"
  shows "cl_get f m c k = Some (map_of xs k)"
proof -
  obtain t where t: "cl_tree p s m d t" "c = six_bytes (ct_addr t)" "ct_flat t = xs"
    using assms(1) by (auto simp: cl_holds_def)
  obtain a ys n L1 L2 nd where F: "cl_find_leaf f m (ct_addr t) k = Some a"
    "leaf_found p s m d 0 (2 ^ 64) t k a ys n L1 L2" "heap m a = Some nd" "node_ok 8 s (nbuf nd)"
    "sb_items 8 p (nbuf nd) = ys" "keys_sorted ys" "ct_flat t = flat_of L1 @ ys @ flat_of L2"
    using cl_holds_leaf[OF t(1) assms(2,3)] by blast
  have x: "map_of xs k = map_of ys k" using leaf_found_map[OF F(2)] F(7) t(3) by metis
  have ks: "keys_sorted (sb_items 8 p (nbuf nd))" using F(5,6) by simp
  note find = node_find[OF F(4) ks assms(2) value_fits_8, unfolded F(5)]
  have rt: "cl_root c = ct_addr t" using cl_holds_root(1)[OF t(1,2)] .
  obtain q ex where q: "sb_find (nbuf nd) k = (q, ex)" by fastforce
  then show ?thesis unfolding cl_get_def cl_node_get_def rt x
    using F(1,3) find[of q] by (cases ex) auto
qed

text \<open>Replacing the leaf in place keeps the tree.\<close>

lemma cl_tree_leaf_repl:
  assumes t: "cl_tree p s m d t" and F: "leaf_found p s m d 0 (2 ^ 64) t k a xs n L1 L2"
    and nd: "ntype nd = LEAF" "nlink nd = n" "node_ok 8 s (nbuf nd)" "sb_items 8 p (nbuf nd) = xs'"
    and xs': "length xs' < max_of s" "keys_sorted xs'" "fst ` set xs' \<subseteq> fst ` set xs"
  shows "\<exists>t'. cl_tree p s (set_node m a nd) d t' \<and> ct_addr t' = ct_addr t \<and> ct_addrs t' = ct_addrs t \<and>
    ct_flat t' = flat_of L1 @ xs' @ flat_of L2"
proof -
  have "leaf_at p s (set_node m a nd) a xs' n" using nd by (simp add: leaf_at_def)
  moreover have "\<forall>x. x \<noteq> a \<longrightarrow> heap (set_node m a nd) x = heap m x" by simp
  ultimately obtain t' where u: "rep p s (set_node m a nd) d t'" "ordd 0 (2 ^ 64) t'" "ct_addr t' = ct_addr t"
    "ct_addrs t' = ct_addrs t" "ct_leaves t' = L1 @ (a, xs', n) # L2"
    using F xs' unfolding leaf_found_def leaf_repl_def by blast
  have lv: "ct_leaves t = L1 @ (a, xs, n) # L2" using F by (simp add: leaf_found_def)
  have "chained (ct_leaves t') e \<longleftrightarrow> chained (ct_leaves t) e" for e
    unfolding lv u(5) by (cases L2) (auto simp: chained_append)
  then have "cl_tree p s (set_node m a nd) d t'"
    using t u by (auto simp: cl_tree_def tree_ok_def mem_ok_def addrs_ok_def)
  moreover have "ct_flat t' = flat_of L1 @ xs' @ flat_of L2" using u(5) flat_of_leaves[of t'] by simp
  ultimately show ?thesis using u(3,4) by blast
qed

lemma flat_of_context:
  assumes "leaf_found p s m d lo hi t k a xs n L1 L2"
  shows "ins k v (flat_of L1 @ xs @ flat_of L2) = flat_of L1 @ ins k v xs @ flat_of L2"
    "filter (\<lambda>x. fst x \<noteq> k) (flat_of L1 @ xs @ flat_of L2) =
     flat_of L1 @ filter (\<lambda>x. fst x \<noteq> k) xs @ flat_of L2"
proof -
  have b: "\<forall>x \<in> set (flat_of L1). fst x < k" "\<forall>x \<in> set (flat_of L2). k < fst x"
    using assms by (auto simp: leaf_found_def)
  then show "ins k v (flat_of L1 @ xs @ flat_of L2) = flat_of L1 @ ins k v xs @ flat_of L2"
    by (simp add: ins_below ins_above)
  have "filter (\<lambda>x. fst x \<noteq> k) (flat_of L1) = flat_of L1" "filter (\<lambda>x. fst x \<noteq> k) (flat_of L2) = flat_of L2"
    using b by (auto simp: filter_id_conv)
  then show "filter (\<lambda>x. fst x \<noteq> k) (flat_of L1 @ xs @ flat_of L2) =
     flat_of L1 @ filter (\<lambda>x. fst x \<noteq> k) xs @ flat_of L2" by simp
qed

text \<open>An update of a key that is there; of one that is not, the assertion fails.\<close>

definition same_outside :: "nat list \<Rightarrow> clmem \<Rightarrow> clmem \<Rightarrow> bool" where
  "same_outside as m m' \<longleftrightarrow> cur_addr m' = cur_addr m \<and> end_addr m' = end_addr m \<and>
     (\<forall>x. x \<notin> set as \<longrightarrow> heap m' x = heap m x)"

lemma cl_tree_update:
  assumes t: "cl_tree p s m d t" and k: "same_prefix (8 - s) p k" and f: "d < f"
  shows "map_of (ct_flat t) k \<noteq> None \<Longrightarrow> \<exists>m' t'. cl_node_update f m (ct_addr t) k v = Some (m', True) \<and>
      cl_tree p s m' d t' \<and> ct_addr t' = ct_addr t \<and> ct_addrs t' = ct_addrs t \<and>
      ct_flat t' = ins k v (ct_flat t) \<and> same_outside (ct_addrs t) m m'"
    "map_of (ct_flat t) k = None \<Longrightarrow> cl_node_update f m (ct_addr t) k v = None"
proof -
  obtain a ys n L1 L2 nd where F: "cl_find_leaf f m (ct_addr t) k = Some a"
    "leaf_found p s m d 0 (2 ^ 64) t k a ys n L1 L2" "heap m a = Some nd" "node_ok 8 s (nbuf nd)"
    "sb_items 8 p (nbuf nd) = ys" "keys_sorted ys" "ct_flat t = flat_of L1 @ ys @ flat_of L2"
    "ntype nd = LEAF" "nlink nd = n" "sb_entries (nbuf nd) = length ys"
    using cl_holds_leaf[OF t k f] by blast
  have x: "map_of (ct_flat t) k = map_of ys k" using leaf_found_map[OF F(2)] F(7) by metis
  have ks: "keys_sorted (sb_items 8 p (nbuf nd))" using F(5,6) by simp
  note find = node_find[OF F(4) ks k value_fits_8, unfolded F(5)]
  obtain q ex where q: "sb_find (nbuf nd) k = (q, ex)" by fastforce
  show "cl_node_update f m (ct_addr t) k v = None" if "map_of (ct_flat t) k = None"
    using that x F(1,3) find(1)[of q] q unfolding cl_node_update_def by (cases ex) auto
  assume "map_of (ct_flat t) k \<noteq> None"
  then have e: "ex" using x find(2)[of q] q by (cases ex) auto
  then have h: "nat q < length ys" "fst (ys ! nat q) = k" using find(1)[of q] q F(10) by auto
  define nd' where "nd' = nd\<lparr>nbuf := sb_update 8 (nbuf nd) (nat q) v\<rparr>"
  have ys': "ins k v ys = ys[nat q := (k, v)]" using ins_update[OF F(6) h] .
  have "node_ok 8 s (nbuf nd')" "sb_items 8 p (nbuf nd') = ins k v ys"
    using node_update(1)[OF F(4), of "nat q" v] node_update(2)[OF F(4), of "nat q" v p] h F(5,10)
    by (simp_all add: nd'_def ys')
  moreover have "length (ins k v ys) < max_of s" using F(2) by (simp add: ys' leaf_found_def)
  moreover have "fst ` set (ins k v ys) \<subseteq> fst ` set ys"
  proof -
    have "k \<in> fst ` set ys" using h nth_mem[OF h(1)] by (metis imageI)
    moreover have "fst ` set (ins k v ys) \<subseteq> insert k (fst ` set ys)"
      using image_mono[OF ins_spec(3)[OF F(6), of k v], of fst] by simp
    ultimately show ?thesis by blast
  qed
  ultimately obtain t' where t': "cl_tree p s (set_node m a nd') d t'" "ct_addr t' = ct_addr t"
    "ct_addrs t' = ct_addrs t" "ct_flat t' = flat_of L1 @ ins k v ys @ flat_of L2"
    using cl_tree_leaf_repl[OF t F(2), of nd' "ins k v ys"] F(8,9) ins_spec(1)[OF F(6)]
    by (auto simp: nd'_def)
  have "cl_node_update f m (ct_addr t) k v = Some (set_node m a nd', True)"
    unfolding cl_node_update_def using F(1,3) q e by (simp add: nd'_def)
  moreover have "ct_flat t' = ins k v (ct_flat t)" using t'(4) F(7) flat_of_context(1)[OF F(2)] by simp
  moreover have "same_outside (ct_addrs t) m (set_node m a nd')"
    using F(2) by (auto simp: same_outside_def leaf_found_def)
  ultimately show "\<exists>m' t'. cl_node_update f m (ct_addr t) k v = Some (m', True) \<and>
      cl_tree p s m' d t' \<and> ct_addr t' = ct_addr t \<and> ct_addrs t' = ct_addrs t \<and>
      ct_flat t' = ins k v (ct_flat t) \<and> same_outside (ct_addrs t) m m'" using t' by blast
qed

theorem cl_update_holds:
  assumes "cl_holds p s m c d xs" "same_prefix (8 - s) p k" "d < f"
  shows "map_of xs k \<noteq> None \<Longrightarrow> \<exists>m'. cl_update f m c k v = Some (m', True) \<and> cl_holds p s m' c d (ins k v xs) \<and>
      cur_addr m' = cur_addr m \<and> end_addr m' = end_addr m"
    "map_of xs k = None \<Longrightarrow> cl_update f m c k v = None"
proof -
  obtain t where t: "cl_tree p s m d t" "c = six_bytes (ct_addr t)" "ct_flat t = xs"
    using assms(1) by (auto simp: cl_holds_def)
  have rt: "cl_root c = ct_addr t" using cl_holds_root(1)[OF t(1,2)] .
  note u = cl_tree_update[OF t(1) assms(2,3), unfolded t(3), of v]
  show "cl_update f m c k v = None" if "map_of xs k = None"
    using u(2)[OF that] by (simp add: cl_update_def rt)
  show "\<exists>m'. cl_update f m c k v = Some (m', True) \<and> cl_holds p s m' c d (ins k v xs) \<and>
      cur_addr m' = cur_addr m \<and> end_addr m' = end_addr m" if "map_of xs k \<noteq> None"
    using u(1)[OF that] t(2) unfolding cl_update_def rt cl_holds_def same_outside_def by metis
qed

text \<open>Deletion reports success and hands out the old value; of an absent key it does nothing.\<close>

lemma remove_at_filter:
  assumes "keys_sorted xs" "i < length xs" "fst (xs ! i) = k"
  shows "remove_at i xs = filter (\<lambda>x. fst x \<noteq> k) xs"
proof -
  have split: "xs = take i xs @ xs ! i # drop (Suc i) xs" using assms(2) by (rule id_take_nth_drop)
  then have s: "keys_sorted (take i xs @ xs ! i # drop (Suc i) xs)" using assms(1) by metis
  then have "\<forall>a \<in> set (take i xs). fst a \<noteq> k" "\<forall>b \<in> set (drop (Suc i) xs). fst b \<noteq> k"
    using assms(3) by (auto simp: keys_sorted_append keys_sorted_Cons)
  then have "filter (\<lambda>x. fst x \<noteq> k) (take i xs @ xs ! i # drop (Suc i) xs) = remove_at i xs"
    using assms(3) by (simp add: remove_at_def filter_id_conv)
  then show ?thesis using split by metis
qed

lemma cl_tree_delete:
  assumes t: "cl_tree p s m d t" and k: "same_prefix (8 - s) p k" and f: "d < f"
  shows "\<exists>m' t'. cl_node_delete f m (ct_addr t) k = Some (m', True, map_of (ct_flat t) k) \<and>
      cl_tree p s m' d t' \<and> ct_addr t' = ct_addr t \<and> ct_addrs t' = ct_addrs t \<and>
      ct_flat t' = filter (\<lambda>x. fst x \<noteq> k) (ct_flat t) \<and> same_outside (ct_addrs t) m m'"
proof -
  obtain a ys n L1 L2 nd where F: "cl_find_leaf f m (ct_addr t) k = Some a"
    "leaf_found p s m d 0 (2 ^ 64) t k a ys n L1 L2" "heap m a = Some nd" "node_ok 8 s (nbuf nd)"
    "sb_items 8 p (nbuf nd) = ys" "keys_sorted ys" "ct_flat t = flat_of L1 @ ys @ flat_of L2"
    "ntype nd = LEAF" "nlink nd = n" "sb_entries (nbuf nd) = length ys"
    using cl_holds_leaf[OF t k f] by blast
  have x: "map_of (ct_flat t) k = map_of ys k" using leaf_found_map[OF F(2)] F(7) by metis
  have ks: "keys_sorted (sb_items 8 p (nbuf nd))" using F(5,6) by simp
  note find = node_find[OF F(4) ks k value_fits_8, unfolded F(5)]
  obtain q ex where q: "sb_find (nbuf nd) k = (q, ex)" by fastforce
  show ?thesis
  proof (cases ex)
    case False
    then have none: "map_of ys k = None" using find(2)[of q] q by auto
    then have "\<forall>z \<in> set ys. fst z \<noteq> k" by (auto simp: map_of_eq_None_iff)
    then have "filter (\<lambda>x. fst x \<noteq> k) (ct_flat t) = ct_flat t"
      using flat_of_context(2)[OF F(2)] F(7) by (simp add: filter_id_conv)
    moreover have "cl_node_delete f m (ct_addr t) k = Some (m, True, None)"
      unfolding cl_node_delete_def using F(1,3) q False by simp
    ultimately show ?thesis using t none x by (auto simp: same_outside_def)
  next
    case True
    then have h: "nat q < length ys" "fst (ys ! nat q) = k" "map_of ys k = Some (sb_sort_value 8 (nbuf nd) (nat q))"
      using find(1)[of q] q F(10) by auto
    define nd' where "nd' = nd\<lparr>nbuf := sb_delete (nbuf nd) (nat q)\<rparr>"
    let ?ys = "filter (\<lambda>x. fst x \<noteq> k) ys"
    have ys': "remove_at (nat q) ys = ?ys" using remove_at_filter[OF F(6) h(1,2)] .
    have ok: "node_ok 8 s (nbuf nd')" "sb_items 8 p (nbuf nd') = ?ys"
      using node_delete(1)[OF F(4), of "nat q"] node_delete(2)[OF F(4), of "nat q" p] h F(5,10) ys'
      by (simp_all add: nd'_def)
    have "length ys < max_of s" using F(2) by (simp add: leaf_found_def)
    then have "length ?ys < max_of s" by (rule le_less_trans[OF length_filter_le])
    moreover have "keys_sorted ?ys" using keys_sorted_remove_at[OF F(6), of "nat q"] ys' by simp
    moreover have "fst ` set ?ys \<subseteq> fst ` set ys" by auto
    ultimately obtain t' where t': "cl_tree p s (set_node m a nd') d t'" "ct_addr t' = ct_addr t"
      "ct_addrs t' = ct_addrs t" "ct_flat t' = flat_of L1 @ ?ys @ flat_of L2"
      using cl_tree_leaf_repl[OF t F(2), of nd' ?ys] F(8,9) ok by (auto simp: nd'_def)
    have "cl_node_delete f m (ct_addr t) k = Some (set_node m a nd', True, map_of (ct_flat t) k)"
      unfolding cl_node_delete_def using F(1,3) q True h(3) x by (simp add: nd'_def)
    moreover have "ct_flat t' = filter (\<lambda>x. fst x \<noteq> k) (ct_flat t)"
      using t'(4) F(7) flat_of_context(2)[OF F(2)] by simp
    moreover have "same_outside (ct_addrs t) m (set_node m a nd')"
      using F(2) by (auto simp: same_outside_def leaf_found_def)
    ultimately show ?thesis using t' by blast
  qed
qed

theorem cl_delete_holds:
  assumes "cl_holds p s m c d xs" "same_prefix (8 - s) p k" "d < f"
  shows "\<exists>m'. cl_delete f m c k = Some (m', True, map_of xs k) \<and>
    cl_holds p s m' c d (filter (\<lambda>x. fst x \<noteq> k) xs) \<and> cur_addr m' = cur_addr m \<and> end_addr m' = end_addr m"
proof -
  obtain t where t: "cl_tree p s m d t" "c = six_bytes (ct_addr t)" "ct_flat t = xs"
    using assms(1) by (auto simp: cl_holds_def)
  have rt: "cl_root c = ct_addr t" using cl_holds_root(1)[OF t(1,2)] .
  show ?thesis using cl_tree_delete[OF t(1) assms(2,3), unfolded t(3)] t(2)
    unfolding cl_delete_def rt cl_holds_def same_outside_def by metis
qed

subsection \<open>Setting up\<close>

lemma null_link_bit: "bit (null_link w) 0"
  by (simp add: null_link_def bit_or_iff bit_1_iff)

lemma cl_setup_leaf:
  assumes s: "0 < s" "s \<le> 8" and m: "mem_ok m" "cur_addr m + node_size < end_addr m"
    and nd: "ntype nd = LEAF" "bit (nlink nd) 0" "node_ok 8 s (nbuf nd)" "sb_items 8 p (nbuf nd) = xs"
      "length xs < max_of s" "keys_sorted xs"
    and m': "heap m' (cur_addr m) = Some nd" "cur_addr m' = cur_addr m + node_size" "end_addr m' = end_addr m"
  shows "cl_holds p s m' (six_bytes (cur_addr m)) 0 xs"
proof -
  let ?t = "Lf (cur_addr m) xs (nlink nd)"
  have "leaf_at p s m' (cur_addr m) xs (nlink nd)" using nd m' by (simp add: leaf_at_def)
  moreover have "addrs_ok m' [cur_addr m]" "mem_ok m'" using m m' by (auto simp: addrs_ok_def mem_ok_def node_size_def)
  ultimately have "cl_tree p s m' 0 ?t"
    using s m m' nd by (auto simp: cl_tree_def tree_ok_def)
  then show ?thesis unfolding cl_holds_def by (intro exI[of _ ?t]) simp
qed

theorem cl_setup_holds:
  assumes "0 < s" "s \<le> 8" "mem_ok m" "cur_addr m + node_size < end_addr m"
  shows "\<exists>m' c. cl_setup m s = Some (m', c) \<and> cl_holds p s m' c 0 [] \<and> c = six_bytes (cur_addr m) \<and>
    cur_addr m' = cur_addr m + node_size \<and> end_addr m' = end_addr m \<and>
    (\<forall>x < cur_addr m. heap m' x = heap m x)"
proof -
  let ?m1 = "set_node (m\<lparr>cur_addr := cur_addr m + node_size\<rparr>) (cur_addr m)
            \<lparr>ntype = LEAF, nlink = 0, nbuf = new_node_buf s\<rparr>"
  let ?nd = "\<lparr>ntype = LEAF, nlink = null_link 0, nbuf = new_node_buf s\<rparr>"
  let ?m' = "set_node ?m1 (cur_addr m) ?nd"
  have "cl_setup m s = Some (?m', six_bytes (cur_addr m))"
    using cl_new_node_eq[OF assms(1,2,4), of LEAF] by (simp add: cl_setup_def mod_node_def)
  moreover have "cl_holds p s ?m' (six_bytes (cur_addr m)) 0 []"
    using new_node_buf_ok[OF assms(1,2), of 8] max_of_bounds[OF assms(1,2)]
    by (intro cl_setup_leaf[OF assms, of ?nd]) (simp_all add: null_link_bit)
  ultimately show ?thesis
    by (intro exI[of _ ?m'] exI[of _ "six_bytes (cur_addr m)"]) auto
qed

text \<open>Set-up from a write buffer with pairwise distinct keys and one free slot, as
  \<^verbatim>\<open>BEntry::Put\<close> guarantees.\<close>

theorem cl_setup_kv_holds:
  assumes "kv_wf kvb" "entries kvb < max_entries kvb" "distinct (map fst (kv_items p kvb))"
    and m: "mem_ok m" "cur_addr m + node_size < end_addr m"
  shows "\<exists>m' c. cl_setup_kv m kvb = Some (m', c) \<and> c = six_bytes (cur_addr m) \<and>
    cl_holds p (suffix_bytes kvb) m' c 0 (sort_key fst (kv_items p kvb)) \<and>
    cur_addr m' = cur_addr m + node_size \<and> end_addr m' = end_addr m \<and> (\<forall>x < cur_addr m. heap m' x = heap m x)"
proof -
  let ?s = "suffix_bytes kvb"
  have s: "0 < ?s" "?s \<le> 8" and pb: "prefix_bytes kvb = 8 - ?s" and mx: "max_entries kvb = max_of ?s"
    using assms(1) by (auto simp: kv_wf_def kv_max_entries_def max_of_def kv_value_size_def)
  let ?m1 = "set_node (m\<lparr>cur_addr := cur_addr m + node_size\<rparr>) (cur_addr m)
            \<lparr>ntype = LEAF, nlink = 0, nbuf = new_node_buf ?s\<rparr>"
  let ?nd = "\<lparr>ntype = LEAF, nlink = null_link 0, nbuf = sb_from_kvbuffer (new_node_buf ?s) kvb\<rparr>"
  let ?m' = "set_node ?m1 (cur_addr m) ?nd"
  have "cl_setup_kv m kvb = Some (?m', six_bytes (cur_addr m))"
    using cl_new_node_eq[OF s m(2), of LEAF] by (simp add: cl_setup_kv_def mod_node_def)
  moreover have "cl_holds p ?s ?m' (six_bytes (cur_addr m)) 0 (sort_key fst (kv_items p kvb))"
  proof (rule cl_setup_leaf[OF s m, of ?nd])
    note nb = new_node_buf_ok[OF s, of 8]
    have w: "sb_wf 8 (new_node_buf ?s)" "sb_prefix_bytes (new_node_buf ?s) = prefix_bytes kvb"
      "sb_max_entries (new_node_buf ?s) = max_entries kvb" using nb(1) pb mx by (auto simp: node_ok_def)
    note fr = sb_from_kvbuffer_refines[OF assms(1) w]
    show "node_ok 8 ?s (nbuf ?nd)" using fr nb(1) by (simp add: node_ok_def)
    show "sb_items 8 p (nbuf ?nd) = sort_key fst (kv_items p kvb)" using fr(2) by simp
    show "length (sort_key fst (kv_items p kvb)) < max_of ?s" using assms(2) mx by simp
    have "distinct (map fst (sort_key fst (kv_items p kvb)))" using assms(3) by (simp add: distinct_map)
    moreover have "sorted (map fst (sort_key fst (kv_items p kvb)))" by (rule sorted_sort_key)
    ultimately show "keys_sorted (sort_key fst (kv_items p kvb))" by (simp add: keys_sorted_def strict_sorted_iff)
  qed (simp_all add: null_link_bit)
  ultimately show ?thesis
    by (intro exI[of _ ?m'] exI[of _ "six_bytes (cur_addr m)"]) auto
qed

subsection \<open>Iteration\<close>

text \<open>A run of leaves of the heap, linked in order up to a NULL link.\<close>

definition leaf_run :: "u64 \<Rightarrow> nat \<Rightarrow> clmem \<Rightarrow> (nat \<times> kv list \<times> u64) list \<Rightarrow> bool" where
  "leaf_run p s m ls \<longleftrightarrow> (\<forall>(a, xs, n) \<in> set ls. leaf_at p s m a xs n \<and> a < 2 ^ 48 \<and> even a) \<and>
     (\<exists>e. bit e 0 \<and> chained ls e)"

lemma leaf_run_next:
  assumes "leaf_run p s m ((a, xs, n) # ls)" "heap m a = Some nd"
  shows "leaf_run p s m ls" "cl_get_next nd = (case ls of [] \<Rightarrow> None | l # _ \<Rightarrow> Some (fst l))"
    "sb_items 8 p (nbuf nd) = xs" "sb_empty (nbuf nd) \<longleftrightarrow> xs = []" "sb_entries (nbuf nd) = length xs"
proof -
  have at: "nlink nd = n" "sb_items 8 p (nbuf nd) = xs" using assms by (auto simp: leaf_run_def leaf_at_def)
  then show "sb_items 8 p (nbuf nd) = xs" "sb_entries (nbuf nd) = length xs" using node_entries by auto
  then show "sb_empty (nbuf nd) \<longleftrightarrow> xs = []" by (simp add: sb_empty_def)
  obtain e where e: "bit e 0" "chained ((a, xs, n) # ls) e" using assms(1) by (auto simp: leaf_run_def)
  show "leaf_run p s m ls"
    using assms(1) e by (cases ls) (auto simp: leaf_run_def intro: exI[of _ 1])
  show "cl_get_next nd = (case ls of [] \<Rightarrow> None | l # _ \<Rightarrow> Some (fst l))"
  proof (cases ls)
    case Nil
    then show ?thesis using e at by (simp add: cl_get_next_def)
  next
    case (Cons l ls')
    obtain b ys n' where l: "l = (b, ys, n')" by (cases l) auto
    then have "n = six_bytes b" "b < 2 ^ 48" "even b"
      using e assms(1) Cons by (auto simp: leaf_run_def)
    then show ?thesis using at Cons l six_bytes_facts(2,5)[of b] by (simp add: cl_get_next_def)
  qed
qed

text \<open>Where an iterator stands: \<open>rest\<close> are the pairs it has still to deliver.\<close>

definition iter_at :: "u64 \<Rightarrow> nat \<Rightarrow> clmem \<Rightarrow> cliter \<Rightarrow> kv list \<Rightarrow> nat \<Rightarrow> bool" where
  "iter_at p s m it rest leaves \<longleftrightarrow> (it_cur it = None \<and> rest = []) \<or>
     (\<exists>a xs n ls. it_cur it = Some a \<and> leaf_run p s m ((a, xs, n) # ls) \<and> it_idx it < length xs \<and>
        rest = drop (it_idx it) xs @ flat_of ls \<and> length ls \<le> leaves)"

lemma iter_atI:
  assumes "it_cur it = Some a" "leaf_run p s m ((a, xs, n) # ls)" "it_idx it < length xs" "length ls \<le> L"
    "rest = drop (it_idx it) xs @ flat_of ls"
  shows "iter_at p s m it rest L"
  unfolding iter_at_def using assms by blast

lemma iter_at_mono:
  assumes "iter_at p s m it rest L" "L \<le> L'"
  shows "iter_at p s m it rest L'"
proof (cases "it_cur it")
  case None
  then show ?thesis using assms(1) by (simp add: iter_at_def)
next
  case (Some a)
  then obtain xs n ls where "leaf_run p s m ((a, xs, n) # ls)" "it_idx it < length xs" "length ls \<le> L"
    "rest = drop (it_idx it) xs @ flat_of ls" using assms(1) by (auto simp: iter_at_def)
  then show ?thesis using Some assms(2) by (intro iter_atI[of it a p s m xs n ls]) simp_all
qed

definition head_addr :: "(nat \<times> kv list \<times> u64) list \<Rightarrow> nat option" where
  "head_addr ls = (case ls of [] \<Rightarrow> None | l # _ \<Rightarrow> Some (fst l))"

lemma skip_empty_run:
  assumes "leaf_run p s m ls" "length ls < f"
  shows "\<exists>cur. cl_skip_empty f m (head_addr ls) = Some cur \<and>
    iter_at p s m \<lparr>it_cur = cur, it_idx = 0\<rparr> (flat_of ls) (length ls) \<and> (cur = None \<longleftrightarrow> flat_of ls = [])"
  using assms
proof (induction ls arbitrary: f)
  case Nil
  then show ?case by (cases f) (auto simp: iter_at_def head_addr_def)
next
  case (Cons l ls)
  obtain a xs n where l: "l = (a, xs, n)" by (cases l) auto
  obtain g where f: "f = Suc g" "length ls < g" using Cons.prems(2) by (cases f) auto
  obtain nd where nd: "heap m a = Some nd" using Cons.prems(1) l by (auto simp: leaf_run_def leaf_at_def)
  note nx = leaf_run_next[OF Cons.prems(1)[unfolded l] nd]
  show ?case
  proof (cases "xs = []")
    case True
    then have "cl_skip_empty f m (head_addr (l # ls)) = cl_skip_empty g m (head_addr ls)"
      using nd nx(2,4) f l by (simp add: head_addr_def)
    then show ?thesis using Cons.IH[OF nx(1) f(2)] True l by (fastforce simp: iter_at_def)
  next
    case False
    then have "cl_skip_empty f m (head_addr (l # ls)) = Some (Some a)"
      using nd nx(4) f l by (simp add: head_addr_def)
    moreover have "iter_at p s m \<lparr>it_cur = Some a, it_idx = 0\<rparr> (flat_of (l # ls)) (length (l # ls))"
      using Cons.prems(1) False l by (intro iter_atI[of _ a p s m xs n ls]) simp_all
    ultimately show ?thesis using False l by auto
  qed
qed

lemma iter_at_values:
  assumes "iter_at p s m it rest L" "rest \<noteq> []"
  shows "cl_iter_key m p it = Some (fst (hd rest))" "cl_iter_value m it = Some (snd (hd rest))"
    "\<not> cl_iter_end it"
proof -
  obtain a xs n ls where A: "it_cur it = Some a" "leaf_run p s m ((a, xs, n) # ls)" "it_idx it < length xs"
    "rest = drop (it_idx it) xs @ flat_of ls" using assms by (auto simp: iter_at_def)
  obtain nd where nd: "heap m a = Some nd" using A(2) by (auto simp: leaf_run_def leaf_at_def)
  note nx = leaf_run_next[OF A(2) nd]
  have "hd rest = xs ! it_idx it" using A(3,4) by (simp add: hd_append hd_drop_conv_nth)
  moreover have "xs ! it_idx it = (sb_sort_key (nbuf nd) (it_idx it) p, sb_sort_value 8 (nbuf nd) (it_idx it))"
    using nth_sb_items[of "it_idx it" "nbuf nd" 8 p] nx(3,5) A(3) by simp
  ultimately show "cl_iter_key m p it = Some (fst (hd rest))" "cl_iter_value m it = Some (snd (hd rest))"
    using A(1) nd by (simp_all add: cl_iter_key_def cl_iter_value_def)
  show "\<not> cl_iter_end it" using A(1) by (simp add: cl_iter_end_def)
qed

lemma iter_at_next:
  assumes "iter_at p s m it rest L" "rest \<noteq> []" "L < f"
  shows "\<exists>it'. cl_iter_next f m it = Some (it', tl rest \<noteq> []) \<and> iter_at p s m it' (tl rest) L"
proof -
  obtain a xs n ls where A: "it_cur it = Some a" "leaf_run p s m ((a, xs, n) # ls)" "it_idx it < length xs"
    "rest = drop (it_idx it) xs @ flat_of ls" "length ls \<le> L" using assms by (auto simp: iter_at_def)
  obtain nd where nd: "heap m a = Some nd" using A(2) by (auto simp: leaf_run_def leaf_at_def)
  note nx = leaf_run_next[OF A(2) nd]
  have tl: "tl rest = drop (it_idx it + 1) xs @ flat_of ls"
    using A(3,4) by (simp add: tl_append2 tl_drop drop_Suc)
  show ?thesis
  proof (cases "it_idx it + 1 \<ge> length xs")
    case True
    have "length ls < f" using A(5) assms(3) by simp
    from skip_empty_run[OF nx(1) this] obtain cur where C:
      "cl_skip_empty f m (head_addr ls) = Some cur" "iter_at p s m \<lparr>it_cur = cur, it_idx = 0\<rparr> (flat_of ls) (length ls)"
      "cur = None \<longleftrightarrow> flat_of ls = []" by blast
    have "iter_at p s m \<lparr>it_cur = cur, it_idx = 0\<rparr> (flat_of ls) L"
      using C(2) A(5) by (rule iter_at_mono)
    then show ?thesis using A(1) nd True nx(2,5) C(1,3) tl
      by (auto simp: cl_iter_next_def Let_def head_addr_def)
  next
    case False
    then have "cl_iter_next f m it = Some (it\<lparr>it_idx := it_idx it + 1\<rparr>, True)"
      using A(1) nd nx(5) by (simp add: cl_iter_next_def Let_def)
    moreover have "iter_at p s m (it\<lparr>it_idx := it_idx it + 1\<rparr>) (tl rest) L"
      using A False tl by (intro iter_atI[of _ a p s m xs n ls]) simp_all
    ultimately show ?thesis using False tl by auto
  qed
qed

lemma iter_collect_rest:
  assumes "iter_at p s m it rest L" "length rest \<le> n" "L < f"
  shows "cl_iter_collect f n m p it = Some rest"
  using assms
proof (induction n arbitrary: it rest)
  case 0
  then have "rest = []" "cl_iter_end it" by (auto simp: iter_at_def cl_iter_end_def)
  then show ?case by simp
next
  case (Suc n)
  show ?case
  proof (cases "rest = []")
    case True
    then have "cl_iter_end it" using Suc.prems(1) by (auto simp: iter_at_def cl_iter_end_def)
    then show ?thesis using True by simp
  next
    case False
    note v = iter_at_values[OF Suc.prems(1) False]
    obtain it' where N: "cl_iter_next f m it = Some (it', tl rest \<noteq> [])" "iter_at p s m it' (tl rest) L"
      using iter_at_next[OF Suc.prems(1) False Suc.prems(3)] by blast
    have "length (tl rest) \<le> n" using Suc.prems(2) by simp
    from Suc.IH[OF N(2) this Suc.prems(3)] show ?thesis
      using v N(1) False by (cases rest) auto
  qed
qed

text \<open>All leaves of a tree form a run from its leftmost leaf.\<close>

lemma rep_leaves: "rep p s m d t \<Longrightarrow> (a, xs, n) \<in> set (ct_leaves t) \<Longrightarrow> leaf_at p s m a xs n \<and> a \<in> set (ct_addrs t)"
proof (induction t arbitrary: d)
  case (Ix b ks cs)
  then show ?case by fastforce
qed simp

lemma tree_leaf_run: "cl_tree p s m d t \<Longrightarrow> leaf_run p s m (ct_leaves t)"
  using rep_leaves[of p s m d t] addr_small[of m] node_size_even
  by (fastforce simp: leaf_run_def cl_tree_def tree_ok_def addrs_ok_def)

lemma leaf_run_suffix: "leaf_run p s m (ls @ l # ls') \<Longrightarrow> leaf_run p s m (l # ls')"
  by (auto simp: leaf_run_def chained_append)

lemma find_head_leaf:
  assumes "rep p s m d t" "d < f" "\<forall>a \<in> set (ct_addrs t). a < 2 ^ 48"
  shows "cl_find_head f m (ct_addr t) = head_addr (ct_leaves t)"
  using assms
proof (induction f arbitrary: d t)
  case (Suc f)
  show ?case
  proof (cases t)
    case (Lf a xs n)
    then show ?thesis using Suc.prems(1) by (auto simp: leaf_at_def head_addr_def)
  next
    case (Ix a ks cs)
    then obtain c cs' where cs: "cs = c # cs'" using Suc.prems(1) by (cases cs) auto
    have r: "index_at p s m a ks cs" "rep p s m (d - 1) c" "d - 1 < f"
      using Suc.prems(1,2) Ix cs by auto
    then obtain nd where nd: "heap m a = Some nd" "ntype nd = INDEX" "nlink nd = six_bytes (ct_addr c)"
      using cs by (auto simp: index_at_def)
    have "ct_addr c < 2 ^ 48" using Suc.prems(3) Ix cs by simp
    then have "cl_find_head (Suc f) m a = cl_find_head f m (ct_addr c)"
      using nd by (simp add: cl_get_child_def six_bytes_facts(2))
    also have "\<dots> = head_addr (ct_leaves c)" using Suc.IH[OF r(2,3)] Suc.prems(3) Ix cs by simp
    also have "\<dots> = head_addr (ct_leaves t)" using leaves_nonempty[OF r(2)] Ix cs
      by (cases "ct_leaves c") (simp_all add: head_addr_def)
    finally show ?thesis by (simp add: Ix)
  qed
qed simp

definition cl_leaf_count :: "ct \<Rightarrow> nat" where
  "cl_leaf_count t = length (ct_leaves t)"

text \<open>Iterating from the first pair delivers all pairs in key order.\<close>

lemma cl_iter_begin_tree:
  assumes "cl_tree p s m d t" "d < f" "cl_leaf_count t < f"
  shows "\<exists>it. cl_iter_begin f m (six_bytes (ct_addr t)) = Some it \<and> iter_at p s m it (ct_flat t) (cl_leaf_count t)"
proof -
  have r: "rep p s m d t" "\<forall>a \<in> set (ct_addrs t). a < 2 ^ 48"
    using assms(1) addr_small by (auto simp: cl_tree_def tree_ok_def addrs_ok_def)
  have hd: "cl_find_head f m (ct_addr t) = head_addr (ct_leaves t)" using find_head_leaf[OF r(1) assms(2) r(2)] .
  obtain cur where C: "cl_skip_empty f m (head_addr (ct_leaves t)) = Some cur"
    "iter_at p s m \<lparr>it_cur = cur, it_idx = 0\<rparr> (ct_flat t) (cl_leaf_count t)"
    using skip_empty_run[OF tree_leaf_run[OF assms(1)], of f] assms(3) by (auto simp: cl_leaf_count_def flat_of_leaves)
  obtain a where a: "head_addr (ct_leaves t) = Some a"
    using leaves_nonempty[OF r(1)] by (cases "ct_leaves t") (auto simp: head_addr_def)
  then show ?thesis using C hd
    by (simp add: cl_iter_begin_def cl_holds_root(1)[OF assms(1) refl])
qed

text \<open>Iterating from a start key delivers the pairs from that key on.\<close>

lemma drop_sorted_prefix:
  assumes "keys_sorted xs" "i \<le> length xs" "\<forall>j < i. fst (xs ! j) < k" "\<forall>j. i \<le> j \<and> j < length xs \<longrightarrow> k \<le> fst (xs ! j)"
  shows "drop i xs = filter (\<lambda>x. k \<le> fst x) xs"
proof -
  have "fst x < k" if x: "x \<in> set (take i xs)" for x
  proof -
    obtain j where "j < i" "x = xs ! j" using x by (auto simp: in_set_conv_nth)
    then show ?thesis using assms(3) by simp
  qed
  then have "filter (\<lambda>x. k \<le> fst x) (take i xs) = []" by (auto simp: filter_empty_conv not_le[symmetric])
  moreover have "k \<le> fst x" if x: "x \<in> set (drop i xs)" for x
  proof -
    obtain j where j: "j < length xs - i" "x = xs ! (i + j)" using x by (auto simp: in_set_conv_nth)
    then have "i + j < length xs" by linarith
    then show ?thesis using assms(4)[rule_format, of "i + j"] j(2) by simp
  qed
  then have "filter (\<lambda>x. k \<le> fst x) (drop i xs) = drop i xs" by (auto simp: filter_id_conv)
  ultimately have "filter (\<lambda>x. k \<le> fst x) (take i xs @ drop i xs) = drop i xs"
    by (simp only: filter_append append_Nil)
  then show ?thesis by simp
qed

lemma find_le_start:
  assumes "node_ok 8 s b" "sb_items 8 p b = xs" "keys_sorted xs" "same_prefix (8 - s) p start"
    "sb_find_le b start = (pos, ex)"
  defines "idx \<equiv> (if ex then pos else pos + 1)"
  shows "0 \<le> idx" "idx \<le> int (length xs)" "drop (nat idx) xs = filter (\<lambda>x. start \<le> fst x) xs"
proof -
  have e: "sb_entries b = length xs" using node_entries[OF assms(2)] .
  have key: "sb_sort_key b j p = fst (xs ! j)" if "j < length xs" for j
    using nth_sb_items[of j b 8 p] that e assms(2) by simp
  have w: "sb_wf 8 b" "keys_sorted (sb_items 8 p b)" "same_prefix (sb_prefix_bytes b) p start"
    using assms(1-4) by (auto simp: node_ok_def)
  have le: "-1 \<le> pos" "pos < int (length xs)" "\<And>j. int j \<le> pos \<Longrightarrow> fst (xs ! j) \<le> start"
    "\<And>j. j < length xs \<Longrightarrow> pos < int j \<Longrightarrow> start < fst (xs ! j)"
    using sb_find_le_correct(1)[OF w] assms(5) e key by (fastforce simp: le_result_def)+
  have ex: "ex \<longleftrightarrow> (\<exists>j < length xs. fst (xs ! j) = start)"
    using sb_find_le_correct(2)[OF w] assms(5) e key by auto
  have at: "fst (xs ! nat pos) = start \<and> 0 \<le> pos" if e: ex
  proof -
    obtain j where j: "j < length xs" "fst (xs ! j) = start" using e ex by blast
    then have "int j \<le> pos" using le(4)[of j] by force
    moreover have "nat pos \<le> j"
    proof (rule ccontr)
      assume "\<not> nat pos \<le> j"
      then have "fst (xs ! j) < fst (xs ! nat pos)" using le(2) by (intro keys_sorted_nth[OF assms(3)]) auto
      then show False using le(3)[of "nat pos"] j(2) \<open>int j \<le> pos\<close> by simp
    qed
    ultimately have "nat pos = j" "0 \<le> pos" by auto
    then show ?thesis using j(2) by simp
  qed
  show i: "0 \<le> idx" "idx \<le> int (length xs)" using le(1,2) at by (auto simp: idx_def)
  show "drop (nat idx) xs = filter (\<lambda>x. start \<le> fst x) xs"
  proof (rule drop_sorted_prefix[OF assms(3)])
    show "nat idx \<le> length xs" using i by simp
    show "\<forall>j < nat idx. fst (xs ! j) < start"
    proof (intro allI impI)
      fix j assume j: "j < nat idx"
      have "fst (xs ! j) \<noteq> start" if "\<not> ex" using that ex j i(2) by auto
      moreover have "fst (xs ! j) < start" if "ex"
        using at[OF that] j le(2) that keys_sorted_nth[OF assms(3), of j "nat pos"] by (simp add: idx_def)
      moreover have "fst (xs ! j) \<le> start" using j by (intro le(3)) (auto simp: idx_def split: if_splits)
      ultimately show "fst (xs ! j) < start" by fastforce
    qed
    show "\<forall>j. nat idx \<le> j \<and> j < length xs \<longrightarrow> start \<le> fst (xs ! j)"
    proof (intro allI impI)
      fix j assume j: "nat idx \<le> j \<and> j < length xs"
      show "start \<le> fst (xs ! j)"
      proof (cases "pos < int j")
        case True
        then show ?thesis using le(4)[of j] j by simp
      next
        case False
        then have "ex" "j = nat pos" using j le(1) by (auto simp: idx_def split: if_splits)
        then show ?thesis using at by simp
      qed
    qed
  qed
qed

lemma cl_iter_from_tree:
  assumes "cl_tree p s m d t" "d < f" "cl_leaf_count t < f" "same_prefix (8 - s) p start"
    "\<forall>x \<in> set (ct_flat t). p \<le> fst x"
  shows "\<exists>it. cl_iter_from f m (six_bytes (ct_addr t)) p start = Some it \<and>
    iter_at p s m it (filter (\<lambda>x. start \<le> fst x) (ct_flat t)) (cl_leaf_count t)"
proof -
  define k where "k = (if start \<le> p then p else start)"
  have kp: "same_prefix (8 - s) p k" using assms(4) by (simp add: k_def)
  obtain a xs n L1 L2 nd where F: "cl_find_leaf f m (ct_addr t) k = Some a"
    "leaf_found p s m d 0 (2 ^ 64) t k a xs n L1 L2" "heap m a = Some nd" "node_ok 8 s (nbuf nd)"
    "sb_items 8 p (nbuf nd) = xs" "sb_entries (nbuf nd) = length xs" "keys_sorted xs"
    "ct_flat t = flat_of L1 @ xs @ flat_of L2"
    using cl_holds_leaf[OF assms(1) kp assms(2)] by blast
  have lv: "ct_leaves t = L1 @ (a, xs, n) # L2" using F(2) by (simp add: leaf_found_def)
  have run: "leaf_run p s m ((a, xs, n) # L2)" using tree_leaf_run[OF assms(1)] leaf_run_suffix unfolding lv by blast
  have len: "length ((a, xs, n) # L2) < f" "length L2 < f" "length ((a, xs, n) # L2) \<le> cl_leaf_count t"
    using assms(3) lv by (simp_all add: cl_leaf_count_def)
  note mono = iter_at_mono
  have rt: "cl_root (six_bytes (ct_addr t)) = ct_addr t" using cl_holds_root(1)[OF assms(1) refl] .
  obtain cur where C: "cl_skip_empty f m (Some a) = Some cur"
    "iter_at p s m \<lparr>it_cur = cur, it_idx = 0\<rparr> (xs @ flat_of L2) (cl_leaf_count t)"
    "cur = None \<longleftrightarrow> xs @ flat_of L2 = []"
    using skip_empty_run[OF run len(1)] mono len(3) by (fastforce simp: head_addr_def)
  have sk: "start \<le> k" by (simp add: k_def)
  have "\<forall>x \<in> set (flat_of L1). fst x < k" "\<forall>x \<in> set (flat_of L2). k < fst x"
    using F(2) by (auto simp: leaf_found_def)
  then have l1: "\<not> start \<le> p \<Longrightarrow> filter (\<lambda>x. start \<le> fst x) (flat_of L1) = []"
    and l2: "filter (\<lambda>x. start \<le> fst x) (flat_of L2) = flat_of L2"
    using sk by (auto simp: k_def filter_id_conv filter_empty_conv not_le split: if_splits intro: less_imp_le dest!: bspec)
  show ?thesis
  proof (cases "start \<le> p")
    case True
    then have "flat_of L1 = []" using F(2,8) assms(5)
      by (cases "flat_of L1") (auto simp: leaf_found_def k_def)
    moreover have "filter (\<lambda>x. start \<le> fst x) (ct_flat t) = ct_flat t"
      using True assms(5) by (auto simp: filter_id_conv)
    ultimately show ?thesis using True F(1,8) C(1,2) by (simp add: cl_iter_from_def rt k_def)
  next
    case False
    have target: "filter (\<lambda>x. start \<le> fst x) (ct_flat t) = filter (\<lambda>x. start \<le> fst x) xs @ flat_of L2"
      using F(8) l1 l2 False by simp
    have k: "k = start" using False by (simp add: k_def)
    have L2: "\<forall>x \<in> set (flat_of L2). start < fst x" using F(2) k by (simp add: leaf_found_def)
    have from_eq: "cl_iter_from f m (six_bytes (ct_addr t)) p start = (case cur of
          None \<Rightarrow> Some \<lparr>it_cur = None, it_idx = 0\<rparr>
        | Some b \<Rightarrow> do {
            nd \<leftarrow> heap m b;
            let (pos, exist) = sb_find_le (nbuf nd) start;
            let idx = (if exist then pos else pos + 1);
            if idx \<ge> int (sb_entries (nbuf nd)) then do {
              cur2 \<leftarrow> cl_skip_empty f m (cl_get_next nd);
              Some \<lparr>it_cur = cur2, it_idx = 0\<rparr>
            } else Some \<lparr>it_cur = Some b, it_idx = nat idx\<rparr>
          })"
      using False F(1) C(1) unfolding cl_iter_from_def rt k by (cases cur) (simp_all add: Let_def)
    show ?thesis
    proof (cases cur)
      case None
      then have "filter (\<lambda>x. start \<le> fst x) (ct_flat t) = []" using C(3) target by simp
      then show ?thesis unfolding from_eq by (simp add: None iter_at_def)
    next
      case (Some b)
      obtain ys n' ls where R: "leaf_run p s m ((b, ys, n') # ls)" "ys \<noteq> []"
        "xs @ flat_of L2 = ys @ flat_of ls" "length ls \<le> cl_leaf_count t"
        "\<forall>x \<in> set (flat_of ls). start < fst x" "length ls < f"
      proof (cases "xs = []")
        case True
        then obtain ys n' ls where R: "leaf_run p s m ((b, ys, n') # ls)" "ys \<noteq> []"
          "flat_of L2 = ys @ flat_of ls" "length ls \<le> cl_leaf_count t"
          using C(2) Some by (auto simp: iter_at_def)
        moreover have "\<forall>x \<in> set (flat_of ls). start < fst x" using L2 unfolding R(3) by simp
        ultimately show ?thesis using that True assms(3) by simp
      next
        case False
        have "cl_skip_empty f m (Some a) = Some (Some a)"
          using len(2) F(3) leaf_run_next(4)[OF run F(3)] False by (cases f) auto
        then have "b = a" using C(1) Some by simp
        then show ?thesis using that[OF _ False refl _ L2 len(2)] run len(3) by simp
      qed
      obtain bd where bd: "heap m b = Some bd" "node_ok 8 s (nbuf bd)" "sb_items 8 p (nbuf bd) = ys"
        using R(1) by (auto simp: leaf_run_def leaf_at_def)
      note nx = leaf_run_next[OF R(1) bd(1)]
      have "keys_sorted (ct_flat t)" using ord_bounds(1)[of 0 "2 ^ 64" t] assms(1) by (auto simp: cl_tree_def tree_ok_def)
      then have ks: "keys_sorted ys" unfolding F(8) R(3) by (simp add: keys_sorted_append)
      obtain pos ex where fl: "sb_find_le (nbuf bd) start = (pos, ex)" by fastforce
      define idx where "idx = (if ex then pos else pos + 1)"
      note fs = find_le_start[OF bd(2,3) ks assms(4) fl, folded idx_def]
      have tgt: "filter (\<lambda>x. start \<le> fst x) (ct_flat t) = drop (nat idx) ys @ flat_of ls"
      proof -
        have "filter (\<lambda>x. start \<le> fst x) (flat_of ls) = flat_of ls"
          using R(5) by (auto simp: filter_id_conv)
        moreover have "filter (\<lambda>x. start \<le> fst x) (ct_flat t) = filter (\<lambda>x. start \<le> fst x) (xs @ flat_of L2)"
          using target l2 by simp
        ultimately show ?thesis unfolding R(3) using fs(3) by simp
      qed
      show ?thesis
      proof (cases "idx \<ge> int (length ys)")
        case True
        from skip_empty_run[OF nx(1) R(6)] obtain cur2 where S: "cl_skip_empty f m (head_addr ls) = Some cur2"
          "iter_at p s m \<lparr>it_cur = cur2, it_idx = 0\<rparr> (flat_of ls) (length ls)" by blast
        have "cl_iter_from f m (six_bytes (ct_addr t)) p start = Some \<lparr>it_cur = cur2, it_idx = 0\<rparr>"
          unfolding from_eq using Some bd(1) fl True nx(2,5) S(1)
          by (simp add: idx_def[symmetric] Let_def head_addr_def)
        then show ?thesis using tgt True mono[OF S(2) R(4)] by simp
      next
        case False
        have "cl_iter_from f m (six_bytes (ct_addr t)) p start = Some \<lparr>it_cur = Some b, it_idx = nat idx\<rparr>"
          unfolding from_eq using Some bd(1) fl False nx(5) by (simp add: idx_def[symmetric] Let_def)
        moreover have "iter_at p s m \<lparr>it_cur = Some b, it_idx = nat idx\<rparr>
            (filter (\<lambda>x. start \<le> fst x) (ct_flat t)) (cl_leaf_count t)"
          using tgt R(1,4) False fs(1) by (intro iter_atI[of _ b p s m ys n' ls]) simp_all
        ultimately show ?thesis by blast
      qed
    qed
  qed
qed

text \<open>What a client loop over an iterator reads.\<close>

theorem cl_scan_all:
  assumes "cl_holds p s m c d xs"
  shows "\<exists>N. \<forall>f \<ge> N. \<exists>it. cl_iter_begin f m c = Some it \<and> cl_iter_collect f (length xs) m p it = Some xs"
proof -
  obtain t where t: "cl_tree p s m d t" "c = six_bytes (ct_addr t)" "ct_flat t = xs"
    using assms(1) by (auto simp: cl_holds_def)
  have "\<exists>it. cl_iter_begin f m c = Some it \<and> cl_iter_collect f (length xs) m p it = Some xs"
    if f: "d < f" "cl_leaf_count t < f" for f
    using cl_iter_begin_tree[OF t(1) f] iter_collect_rest[OF _ order_refl f(2)] t(2,3) by blast
  then show ?thesis by (intro exI[of _ "Suc (d + cl_leaf_count t)"]) simp
qed

theorem cl_scan_from:
  assumes "cl_holds p s m c d xs" "same_prefix (8 - s) p start" "\<forall>x \<in> set xs. p \<le> fst x"
  shows "\<exists>N. \<forall>f \<ge> N. \<exists>it. cl_iter_from f m c p start = Some it \<and>
    cl_iter_collect f (length xs) m p it = Some (filter (\<lambda>x. start \<le> fst x) xs)"
proof -
  obtain t where t: "cl_tree p s m d t" "c = six_bytes (ct_addr t)" "ct_flat t = xs"
    using assms(1) by (auto simp: cl_holds_def)
  have "\<exists>it. cl_iter_from f m c p start = Some it \<and>
      cl_iter_collect f (length xs) m p it = Some (filter (\<lambda>x. start \<le> fst x) xs)"
    if f: "d < f" "cl_leaf_count t < f" for f
    using cl_iter_from_tree[OF t(1) f assms(2)] iter_collect_rest[OF _ length_filter_le f(2)] t(2,3) assms(3)
    by blast
  then show ?thesis by (intro exI[of _ "Suc (d + cl_leaf_count t)"]) simp
qed

end
