(* ===== verification/Forest.thy ===== *)
theory Forest
  imports CLevelTop
begin

text \<open>
  Many C-levels in one region.  The B-level keeps one tree per entry and all of them
  allocate from the same \<^verbatim>\<open>MemControl\<close>; an operation on one tree must leave the others
  alone.  \<open>cl_own\<close> says that a root link leads to a tree with the given pairs whose nodes
  are exactly the given addresses, \<open>region_step\<close> what an operation on that tree may change
  of the region; together they give the frame rule \<open>cl_own_frame\<close>.

  The bounds on recursion depth and list walks (\<open>cl_fuel\<close>) come from the region: a tree
  has no more levels or leaves than nodes, and no more nodes than fit below \<open>cur_addr\<close>.
\<close>

definition cl_fuel :: "clmem \<Rightarrow> nat" where
  "cl_fuel m = cur_addr m div node_size + 1"

definition region_ok :: "clmem \<Rightarrow> bool" where
  "region_ok m \<longleftrightarrow> mem_ok m \<and> cur_addr m \<le> end_addr m"

definition cl_own :: "u64 \<Rightarrow> nat \<Rightarrow> clmem \<Rightarrow> clevel \<Rightarrow> nat \<Rightarrow> nat set \<Rightarrow> kv list \<Rightarrow> bool" where
  "cl_own p s m c d as xs \<longleftrightarrow>
     (\<exists>t. cl_tree p s m d t \<and> c = six_bytes (ct_addr t) \<and> ct_flat t = xs \<and> set (ct_addrs t) = as)"

definition region_step :: "nat set \<Rightarrow> clmem \<Rightarrow> nat set \<Rightarrow> clmem \<Rightarrow> bool" where
  "region_step as m bs m' \<longleftrightarrow> region_ok m' \<and> cur_addr m \<le> cur_addr m' \<and> end_addr m' = end_addr m \<and>
     (\<forall>x < cur_addr m. x \<notin> as \<longrightarrow> heap m' x = heap m x) \<and> (\<forall>x \<in> bs. x \<in> as \<or> cur_addr m \<le> x)"

lemma map_of_filter_ne: "map_of (filter (\<lambda>x. fst x \<noteq> k) xs) = (map_of xs)(k := None)"
  by (induction xs) (auto simp: fun_eq_iff)

subsection \<open>Fuel\<close>

lemma height_lt_nodes: "rep p s m d t \<Longrightarrow> d < length (ct_addrs t)"
proof (induction t arbitrary: d)
  case (Ix a ks cs)
  then obtain c cs' where c: "cs = c # cs'" by (cases cs) auto
  then have "d - 1 < length (ct_addrs c)" using Ix by auto
  then show ?case using c by auto
qed simp

lemma length_concat_le:
  "(\<And>c. c \<in> set cs \<Longrightarrow> length (f c) \<le> length (g c)) \<Longrightarrow> length (concat (map f cs)) \<le> length (concat (map g cs))"
  by (induction cs) (auto intro: add_mono)

lemma leaves_le_nodes: "length (ct_leaves t) \<le> length (ct_addrs t)"
proof (induction t)
  case (Ix a ks cs)
  then have "length (concat (map ct_leaves cs)) \<le> length (concat (map ct_addrs cs))"
    by (intro length_concat_le) auto
  then show ?case by simp
qed simp

lemma nodes_lt_fuel:
  assumes "cl_tree p s m d t"
  shows "length (ct_addrs t) < cl_fuel m"
proof -
  have a: "distinct (ct_addrs t)" "\<forall>a \<in> set (ct_addrs t). a < cur_addr m \<and> node_size dvd a"
    and m: "node_size dvd cur_addr m"
    using assms by (auto simp: cl_tree_def tree_ok_def addrs_ok_def mem_ok_def)
  have pos: "0 < node_size" by (simp add: node_size_def)
  have "inj_on (\<lambda>a. a div node_size) (set (ct_addrs t))"
    using a(2) by (intro inj_onI) (metis dvd_mult_div_cancel)
  moreover have "(\<lambda>a. a div node_size) ` set (ct_addrs t) \<subseteq> {..<cur_addr m div node_size}"
  proof
    fix x assume "x \<in> (\<lambda>a. a div node_size) ` set (ct_addrs t)"
    then obtain a where b: "x = a div node_size" "a < cur_addr m" "node_size dvd a" using a(2) by auto
    then have "a div node_size * node_size < cur_addr m div node_size * node_size" using m by simp
    then show "x \<in> {..<cur_addr m div node_size}" using b(1) by simp
  qed
  ultimately have "card (set (ct_addrs t)) \<le> card {..<cur_addr m div node_size}"
    using card_inj_on_le by blast
  then show ?thesis using a(1) by (simp add: distinct_card cl_fuel_def)
qed

lemma tree_fuel:
  assumes "cl_tree p s m d t"
  shows "d < cl_fuel m" "cl_leaf_count t < cl_fuel m"
proof -
  have "rep p s m d t" using assms by (simp add: cl_tree_def tree_ok_def)
  from height_lt_nodes[OF this] leaves_le_nodes[of t] nodes_lt_fuel[OF assms]
  show "d < cl_fuel m" "cl_leaf_count t < cl_fuel m" by (simp_all add: cl_leaf_count_def)
qed

subsection \<open>Ownership\<close>

lemma cl_own_holds: "cl_own p s m c d as xs \<Longrightarrow> cl_holds p s m c d xs"
  by (auto simp: cl_own_def cl_holds_def)

lemma cl_own_region: "cl_own p s m c d as xs \<Longrightarrow> region_ok m"
  by (auto simp: cl_own_def cl_tree_def region_ok_def)

lemma cl_own_sorted: "cl_own p s m c d as xs \<Longrightarrow> keys_sorted xs"
  using cl_own_holds cl_holds_sorted by blast

lemma cl_own_fuel: "cl_own p s m c d as xs \<Longrightarrow> d < cl_fuel m"
  using tree_fuel(1) by (auto simp: cl_own_def)

lemma cl_own_setup: "cl_own p s m c d as xs \<Longrightarrow> cl_has_setup c"
  using cl_holds_root(2) by (auto simp: cl_own_def)

lemma cl_own_addrs: "cl_own p s m c d as xs \<Longrightarrow> x \<in> as \<Longrightarrow> x < cur_addr m"
  by (auto simp: cl_own_def cl_tree_def tree_ok_def addrs_ok_def)

text \<open>The frame rule.\<close>

lemma cl_own_frame:
  assumes "cl_own p s m c d as xs" "region_step bs m bs' m'" "as \<inter> bs = {}"
  shows "cl_own p s m' c d as xs" "as \<inter> bs' = {}"
proof -
  obtain t where t: "cl_tree p s m d t" "c = six_bytes (ct_addr t)" "ct_flat t = xs" "set (ct_addrs t) = as"
    using assms(1) by (auto simp: cl_own_def)
  have R: "rep p s m d t" "ordd 0 (2 ^ 64) t" "addrs_ok m (ct_addrs t)"
    using t(1) by (auto simp: cl_tree_def tree_ok_def)
  have "rep p s m' d t"
  proof (rule rep_frame[OF R(1)])
    fix a assume "a \<in> set (ct_addrs t)"
    then show "heap m' a = heap m a" using assms R(3) t(4) by (auto simp: region_step_def addrs_ok_def)
  qed
  moreover have "addrs_ok m' (ct_addrs t)"
    using R(3) assms(2) by (auto simp: addrs_ok_def region_step_def intro: less_le_trans)
  ultimately have "cl_tree p s m' d t"
    using t(1) R(2) assms(2) by (simp add: cl_tree_def tree_ok_def region_step_def region_ok_def)
  then show "cl_own p s m' c d as xs" using t by (auto simp: cl_own_def)
  have "x \<notin> bs'" if "x \<in> as" for x
  proof
    assume "x \<in> bs'"
    then have "x \<in> bs \<or> cur_addr m \<le> x" using assms(2) by (simp add: region_step_def)
    then show False using that assms(3) cl_own_addrs[OF assms(1) that] by auto
  qed
  then show "as \<inter> bs' = {}" by blast
qed

text \<open>The same for a region that only lost free space, with nothing else changed.\<close>

lemma region_step_refl: "region_ok m \<Longrightarrow> region_step as m as m"
  by (simp add: region_step_def)

lemma region_step_trans:
  assumes "region_step as m bs m1" "region_step bs m1 cs m2"
  shows "region_step as m cs m2"
  unfolding region_step_def
proof (intro conjI allI ballI impI)
  fix x assume x: "x < cur_addr m" "x \<notin> as"
  then have "x \<notin> bs" "x < cur_addr m1" "heap m1 x = heap m x"
    using assms(1) by (auto simp: region_step_def)
  then show "heap m2 x = heap m x" using assms(2) by (simp add: region_step_def)
next
  fix x assume "x \<in> cs"
  then have "x \<in> bs \<or> cur_addr m1 \<le> x" using assms(2) by (simp add: region_step_def)
  then show "x \<in> as \<or> cur_addr m \<le> x"
    using assms(1) unfolding region_step_def by (meson order_trans)
qed (use assms in \<open>auto simp: region_step_def\<close>)

subsection \<open>The operations\<close>

lemma cl_get_own:
  assumes "cl_own p s m c d as xs" "same_prefix (8 - s) p k"
  shows "cl_get (cl_fuel m) m c k = Some (map_of xs k)"
  using cl_get_holds[OF cl_own_holds[OF assms(1)] assms(2) cl_own_fuel[OF assms(1)]] .

lemma cl_put_own:
  assumes "cl_own p s m c d as xs" "same_prefix (8 - s) p k"
    "cur_addr m + (d + 2) * node_size < end_addr m"
  shows "\<exists>m' c' d' bs. cl_put (cl_fuel m) m c k v = Some (m', c', True) \<and>
    cl_own p s m' c' d' bs (ins k v xs) \<and> region_step as m bs m' \<and> d' \<le> Suc d \<and>
    cur_addr m' \<le> cur_addr m + (d + 2) * node_size"
proof -
  obtain t where t: "cl_tree p s m d t" "c = six_bytes (ct_addr t)" "ct_flat t = xs" "set (ct_addrs t) = as"
    using assms(1) by (auto simp: cl_own_def)
  obtain m' d' t' where P: "cl_node_put (cl_fuel m) m (ct_addr t) k v None = Some (m', ct_addr t')"
    "cl_tree p s m' d' t'" "ct_flat t' = ins k v (ct_flat t)" "d' \<le> Suc d"
    "cur_addr m' \<le> cur_addr m + (d + 2) * node_size" "end_addr m' = end_addr m"
    "\<forall>x < cur_addr m. x \<notin> set (ct_addrs t) \<longrightarrow> heap m' x = heap m x"
    "\<forall>x \<in> set (ct_addrs t'). x \<in> set (ct_addrs t) \<or> cur_addr m \<le> x" "cur_addr m \<le> cur_addr m'"
    using cl_tree_put[OF t(1) assms(2) tree_fuel(1)[OF t(1)] assms(3), of v] by blast
  have rt: "cl_root c = ct_addr t" using cl_holds_root(1)[OF t(1,2)] .
  have "cl_put (cl_fuel m) m c k v = Some (m', six_bytes (ct_addr t'), True)"
    unfolding cl_put_def Let_def rt P(1) by (simp add: t(2))
  moreover have "cl_own p s m' (six_bytes (ct_addr t')) d' (set (ct_addrs t')) (ins k v xs)"
    using P(2,3) t(3) by (auto simp: cl_own_def)
  moreover have "region_step as m (set (ct_addrs t')) m'"
    using P t(4) by (auto simp: region_step_def region_ok_def cl_tree_def)
  ultimately show ?thesis using P(4,5) by blast
qed

lemma cl_own_same:
  assumes "cl_tree p s m' d t'" "set (ct_addrs t') = as" "same_outside (ct_addrs t) m m'" "set (ct_addrs t) = as"
  shows "region_step as m as m'"
  using assms by (auto simp: region_step_def region_ok_def cl_tree_def same_outside_def)

lemma cl_update_own:
  assumes "cl_own p s m c d as xs" "same_prefix (8 - s) p k"
  shows "map_of xs k \<noteq> None \<Longrightarrow> \<exists>m'. cl_update (cl_fuel m) m c k v = Some (m', True) \<and>
      cl_own p s m' c d as (ins k v xs) \<and> region_step as m as m' \<and> cur_addr m' = cur_addr m"
    "map_of xs k = None \<Longrightarrow> cl_update (cl_fuel m) m c k v = None"
proof -
  obtain t where t: "cl_tree p s m d t" "c = six_bytes (ct_addr t)" "ct_flat t = xs" "set (ct_addrs t) = as"
    using assms(1) by (auto simp: cl_own_def)
  have rt: "cl_root c = ct_addr t" using cl_holds_root(1)[OF t(1,2)] .
  note u = cl_tree_update[OF t(1) assms(2) tree_fuel(1)[OF t(1)], of v]
  show "cl_update (cl_fuel m) m c k v = None" if "map_of xs k = None"
    using u(2) that t(3) rt by (simp add: cl_update_def)
  assume "map_of xs k \<noteq> None"
  then obtain m' t' where U: "cl_node_update (cl_fuel m) m (ct_addr t) k v = Some (m', True)"
    "cl_tree p s m' d t'" "ct_addr t' = ct_addr t" "ct_addrs t' = ct_addrs t"
    "ct_flat t' = ins k v xs" "same_outside (ct_addrs t) m m'" using u(1) t(3) by blast
  have "cl_own p s m' c d as (ins k v xs)" using U t by (auto simp: cl_own_def)
  then show "\<exists>m'. cl_update (cl_fuel m) m c k v = Some (m', True) \<and>
      cl_own p s m' c d as (ins k v xs) \<and> region_step as m as m' \<and> cur_addr m' = cur_addr m"
    using U cl_own_same[OF U(2) _ U(6) t(4)] t(4) rt by (auto simp: cl_update_def same_outside_def)
qed

lemma cl_delete_own:
  assumes "cl_own p s m c d as xs" "same_prefix (8 - s) p k"
  shows "\<exists>m'. cl_delete (cl_fuel m) m c k = Some (m', True, map_of xs k) \<and>
    cl_own p s m' c d as (filter (\<lambda>x. fst x \<noteq> k) xs) \<and> region_step as m as m' \<and> cur_addr m' = cur_addr m"
proof -
  obtain t where t: "cl_tree p s m d t" "c = six_bytes (ct_addr t)" "ct_flat t = xs" "set (ct_addrs t) = as"
    using assms(1) by (auto simp: cl_own_def)
  have rt: "cl_root c = ct_addr t" using cl_holds_root(1)[OF t(1,2)] .
  obtain m' t' where D: "cl_node_delete (cl_fuel m) m (ct_addr t) k = Some (m', True, map_of xs k)"
    "cl_tree p s m' d t'" "ct_addr t' = ct_addr t" "ct_addrs t' = ct_addrs t"
    "ct_flat t' = filter (\<lambda>x. fst x \<noteq> k) xs" "same_outside (ct_addrs t) m m'"
    using cl_tree_delete[OF t(1) assms(2) tree_fuel(1)[OF t(1)]] t(3) by blast
  have "cl_own p s m' c d as (filter (\<lambda>x. fst x \<noteq> k) xs)" using D t by (auto simp: cl_own_def)
  then show ?thesis
    using D cl_own_same[OF D(2) _ D(6) t(4)] t(4) rt by (auto simp: cl_delete_def same_outside_def)
qed

text \<open>A new tree.\<close>

lemma cl_own_fresh:
  assumes "cl_holds p s m' (six_bytes a) 0 xs" "a < cur_addr m'" "a < 2 ^ 48"
  shows "cl_own p s m' (six_bytes a) 0 {a} xs"
proof -
  obtain t where t: "cl_tree p s m' 0 t" "six_bytes a = six_bytes (ct_addr t)" "ct_flat t = xs"
    using assms(1) by (auto simp: cl_holds_def)
  then have "rep p s m' 0 t" by (simp add: cl_tree_def tree_ok_def)
  then have l: "ct_addrs t = [ct_addr t]" by (cases t) auto
  have "cl_root (six_bytes a) = ct_addr t" using cl_holds_root(1)[OF t(1,2)] .
  then have "ct_addr t = a" using six_bytes_facts(2)[OF assms(3)] by (simp add: cl_root_def)
  then show ?thesis using t l unfolding cl_own_def by (intro exI[of _ t]) simp
qed

lemma region_fresh:
  assumes "mem_ok m" "cur_addr m + node_size < end_addr m" "cur_addr m' = cur_addr m + node_size"
    "end_addr m' = end_addr m" "\<forall>x < cur_addr m. heap m' x = heap m x"
  shows "region_step {} m {cur_addr m} m'" "cur_addr m < 2 ^ 48"
  using assms by (auto simp: region_step_def region_ok_def mem_ok_def node_size_def)

lemma cl_setup_own:
  assumes "0 < s" "s \<le> 8" "region_ok m" "cur_addr m + node_size < end_addr m"
  shows "\<exists>m' c. cl_setup m s = Some (m', c) \<and> cl_own p s m' c 0 {cur_addr m} [] \<and>
    region_step {} m {cur_addr m} m' \<and> cur_addr m' = cur_addr m + node_size"
proof -
  have mk: "mem_ok m" using assms(3) by (simp add: region_ok_def)
  obtain m' c where S: "cl_setup m s = Some (m', c)" "cl_holds p s m' c 0 []" "c = six_bytes (cur_addr m)"
    "cur_addr m' = cur_addr m + node_size" "end_addr m' = end_addr m" "\<forall>x < cur_addr m. heap m' x = heap m x"
    using cl_setup_holds[OF assms(1,2) mk assms(4)] by blast
  note r = region_fresh[OF mk assms(4) S(4-6)]
  show ?thesis using S r cl_own_fresh[of p s m' "cur_addr m" "[]"]
    by (intro exI[of _ m'] exI[of _ c]) (simp add: node_size_def)
qed

lemma cl_setup_kv_own:
  assumes "kv_wf kvb" "entries kvb < max_entries kvb" "distinct (map fst (kv_items p kvb))"
    "region_ok m" "cur_addr m + node_size < end_addr m"
  shows "\<exists>m' c. cl_setup_kv m kvb = Some (m', c) \<and>
    cl_own p (suffix_bytes kvb) m' c 0 {cur_addr m} (sort_key fst (kv_items p kvb)) \<and>
    region_step {} m {cur_addr m} m' \<and> cur_addr m' = cur_addr m + node_size"
proof -
  have mk: "mem_ok m" using assms(4) by (simp add: region_ok_def)
  obtain m' c where S: "cl_setup_kv m kvb = Some (m', c)" "c = six_bytes (cur_addr m)"
    "cl_holds p (suffix_bytes kvb) m' c 0 (sort_key fst (kv_items p kvb))"
    "cur_addr m' = cur_addr m + node_size" "end_addr m' = end_addr m" "\<forall>x < cur_addr m. heap m' x = heap m x"
    using cl_setup_kv_holds[OF assms(1-3) mk assms(5)] by blast
  note r = region_fresh[OF mk assms(5) S(4-6)]
  show ?thesis using S r cl_own_fresh[of p "suffix_bytes kvb" m' "cur_addr m"]
    by (intro exI[of _ m'] exI[of _ c]) (simp add: node_size_def)
qed


text \<open>Reading all pairs, and those from a start key on.\<close>

lemma cl_scan_own:
  assumes "cl_own p s m c d as xs"
  shows "\<exists>it. cl_iter_begin (cl_fuel m) m c = Some it \<and> cl_iter_collect (cl_fuel m) (length xs) m p it = Some xs"
proof -
  obtain t where t: "cl_tree p s m d t" "c = six_bytes (ct_addr t)" "ct_flat t = xs"
    using assms by (auto simp: cl_own_def)
  show ?thesis using cl_iter_begin_tree[OF t(1) tree_fuel[OF t(1)]]
      iter_collect_rest[OF _ order_refl tree_fuel(2)[OF t(1)]] t(2,3) by blast
qed

lemma cl_scan_from_own:
  assumes "cl_own p s m c d as xs" "same_prefix (8 - s) p start" "\<forall>x \<in> set xs. p \<le> fst x"
  shows "\<exists>it. cl_iter_from (cl_fuel m) m c p start = Some it \<and>
    cl_iter_collect (cl_fuel m) (length xs) m p it = Some (filter (\<lambda>x. start \<le> fst x) xs)"
proof -
  obtain t where t: "cl_tree p s m d t" "c = six_bytes (ct_addr t)" "ct_flat t = xs"
    using assms(1) by (auto simp: cl_own_def)
  show ?thesis using cl_iter_from_tree[OF t(1) tree_fuel[OF t(1)] assms(2)]
      iter_collect_rest[OF _ length_filter_le tree_fuel(2)[OF t(1)]] t(2,3) assms(3) by blast
qed

subsection \<open>Runs of operations on one tree\<close>

datatype cl_op = OpPut u64 u64 | OpDelete u64

fun op_key :: "cl_op \<Rightarrow> u64" where
  "op_key (OpPut k v) = k"
| "op_key (OpDelete k) = k"

fun op_spec :: "(u64 \<Rightarrow> u64 option) \<Rightarrow> cl_op \<Rightarrow> (u64 \<Rightarrow> u64 option)" where
  "op_spec M (OpPut k v) = M(k \<mapsto> v)"
| "op_spec M (OpDelete k) = M(k := None)"

fun cl_exec :: "clmem \<times> clevel \<Rightarrow> cl_op \<Rightarrow> (clmem \<times> clevel) option" where
  "cl_exec (m, c) (OpPut k v) = map_option (\<lambda>(m', c', _). (m', c')) (cl_put (cl_fuel m) m c k v)"
| "cl_exec (m, c) (OpDelete k) = map_option (\<lambda>(m', _). (m', c)) (cl_delete (cl_fuel m) m c k)"

fun cl_run :: "clmem \<times> clevel \<Rightarrow> cl_op list \<Rightarrow> (clmem \<times> clevel) option" where
  "cl_run s [] = Some s"
| "cl_run s (op # ops) = do { s1 \<leftarrow> cl_exec s op; cl_run s1 ops }"

text \<open>The region \<open>n\<close> operations may need, starting with a tree of height \<open>d\<close>.\<close>

definition run_room :: "nat \<Rightarrow> nat \<Rightarrow> nat" where
  "run_room d n = n * ((d + n + 2) * node_size)"

lemma run_room_step:
  assumes "d' \<le> Suc d"
  shows "(d + 2) * node_size + run_room d' n \<le> run_room d (Suc n)"
proof -
  define r where "r = (d + Suc n + 2) * node_size"
  have "(d + 2) * node_size \<le> r" unfolding r_def by (intro mult_le_mono1) simp
  moreover have "n * ((d' + n + 2) * node_size) \<le> n * r"
    unfolding r_def using assms by (intro mult_le_mono mult_le_mono1) auto
  ultimately show ?thesis unfolding run_room_def r_def[symmetric] mult_Suc by (rule add_mono)
qed

lemma cl_exec_own:
  assumes "cl_own p s m c d as xs" "same_prefix (8 - s) p (op_key op)"
    "cur_addr m + (d + 2) * node_size < end_addr m"
  shows "\<exists>m' c' d' bs xs'. cl_exec (m, c) op = Some (m', c') \<and> cl_own p s m' c' d' bs xs' \<and>
    region_step as m bs m' \<and> map_of xs' = op_spec (map_of xs) op \<and> d' \<le> Suc d \<and>
    cur_addr m' \<le> cur_addr m + (d + 2) * node_size"
proof (cases op)
  case (OpPut k v)
  then obtain m' c' d' bs where P: "cl_put (cl_fuel m) m c k v = Some (m', c', True)"
    "cl_own p s m' c' d' bs (ins k v xs)" "region_step as m bs m'" "d' \<le> Suc d"
    "cur_addr m' \<le> cur_addr m + (d + 2) * node_size"
    using cl_put_own[OF assms(1) _ assms(3), of k v] assms(2) by auto
  have "map_of (ins k v xs) = op_spec (map_of xs) op"
    using ins_spec(2)[OF cl_own_sorted[OF assms(1)]] OpPut by simp
  then show ?thesis using P OpPut
    by (intro exI[of _ m'] exI[of _ c'] exI[of _ d'] exI[of _ bs] exI[of _ "ins k v xs"]) simp
next
  case (OpDelete k)
  then obtain m' where D: "cl_delete (cl_fuel m) m c k = Some (m', True, map_of xs k)"
    "cl_own p s m' c d as (filter (\<lambda>x. fst x \<noteq> k) xs)" "region_step as m as m'" "cur_addr m' = cur_addr m"
    using cl_delete_own[OF assms(1), of k] assms(2) by auto
  then show ?thesis using OpDelete map_of_filter_ne[of k xs]
    by (intro exI[of _ m'] exI[of _ c] exI[of _ d] exI[of _ as] exI[of _ "filter (\<lambda>x. fst x \<noteq> k) xs"]) simp
qed

lemma cl_run_own:
  assumes "cl_own p s m c d as xs" "\<forall>op \<in> set ops. same_prefix (8 - s) p (op_key op)"
    "cur_addr m + run_room d (length ops) < end_addr m"
  shows "\<exists>m' c' d' bs xs'. cl_run (m, c) ops = Some (m', c') \<and> cl_own p s m' c' d' bs xs' \<and>
    region_step as m bs m' \<and> map_of xs' = foldl op_spec (map_of xs) ops"
  using assms
proof (induction ops arbitrary: m c d as xs)
  case Nil
  then show ?case using region_step_refl[OF cl_own_region[OF Nil(1)]] by (auto intro!: exI)
next
  case (Cons op ops)
  have le: "(d + 2) * node_size + run_room (Suc d) (length ops) \<le> run_room d (length (op # ops))"
    using run_room_step[of "Suc d" d "length ops"] by simp
  then have "cur_addr m + (d + 2) * node_size < end_addr m" using Cons.prems(3) by linarith
  with Cons.prems(1,2) obtain m1 c1 d1 bs xs1 where E: "cl_exec (m, c) op = Some (m1, c1)"
    "cl_own p s m1 c1 d1 bs xs1" "region_step as m bs m1" "map_of xs1 = op_spec (map_of xs) op"
    "d1 \<le> Suc d" "cur_addr m1 \<le> cur_addr m + (d + 2) * node_size"
    using cl_exec_own[of p s m c d as xs op] by auto
  have "run_room d1 (length ops) \<le> run_room (Suc d) (length ops)"
    unfolding run_room_def using E(5) by (intro mult_le_mono mult_le_mono1) auto
  then have "cur_addr m1 + run_room d1 (length ops) < end_addr m1"
    using E(3,6) le Cons.prems(3) unfolding region_step_def by linarith
  with Cons.IH[OF E(2) _ this] Cons.prems(2) obtain m' c' d' bs' xs' where
    "cl_run (m1, c1) ops = Some (m', c')" "cl_own p s m' c' d' bs' xs'" "region_step bs m1 bs' m'"
    "map_of xs' = foldl op_spec (map_of xs1) ops" by auto
  then show ?case using E(1,4) region_step_trans[OF E(3)]
    by (intro exI[of _ m'] exI[of _ c'] exI[of _ d'] exI[of _ bs'] exI[of _ xs']) simp
qed

end
