(* ===== verification/BEntry.thy ===== *)
theory BEntry
  imports Forest
begin

text \<open>
  \<^verbatim>\<open>src/bentry.h\<close>, \<^verbatim>\<open>src/bentry.cc\<close>: the entries of the B-level.  \<^verbatim>\<open>NobufBEntry\<close>, the entry
  of the default build (\<^verbatim>\<open>NO_ENTRY_BUF\<close>), is a key and the C-level of its pairs.
  \<^verbatim>\<open>BEntry\<close> has a write buffer in front of the C-level and flushes it when it is full.

  Both are shown to act as a finite map on the keys that share the prefix of the entry,
  and to leave every other tree of the region alone (the frame of theory Forest).
\<close>

subsection \<open>NobufBEntry\<close>

text \<open>The union \<^verbatim>\<open>buf\<close> is four 4-bit fields; \<open>nb_meta\<close> is the 16-bit word they overlay.\<close>

record nobuf_entry =
  nb_key :: u64
  nb_clevel :: clevel
  nb_prefix :: nat
  nb_suffix :: nat
  nb_entries :: nat
  nb_max :: nat

definition nb_meta :: "nobuf_entry \<Rightarrow> nat" where
  "nb_meta e = nb_prefix e + 16 * nb_suffix e + 256 * nb_entries e + 4096 * nb_max e"

definition nb_is_valid :: "nobuf_entry \<Rightarrow> bool" where
  "nb_is_valid e \<longleftrightarrow> nb_meta e \<noteq> 0"

definition nb_set_invalid :: "nobuf_entry \<Rightarrow> nobuf_entry" where
  "nb_set_invalid e = e\<lparr>nb_prefix := 0, nb_suffix := 0, nb_entries := 0, nb_max := 0\<rparr>"

text \<open>The constructors; \<open>raw\<close> is the memory the entry is constructed in, whose
  \<^verbatim>\<open>entries\<close> and \<^verbatim>\<open>max_entries\<close> fields they leave as they are.\<close>

definition nb_new :: "clmem \<Rightarrow> nobuf_entry \<Rightarrow> u64 \<Rightarrow> nat \<Rightarrow> (clmem \<times> nobuf_entry) option" where
  "nb_new m raw key prefix_len =
     do {
       let e = raw\<lparr>nb_key := key, nb_clevel := cl_null, nb_prefix := bits4 (int prefix_len),
                   nb_suffix := bits4 (8 - int prefix_len)\<rparr>;
       (m1, c) \<leftarrow> cl_setup m (nb_suffix e);
       Some (m1, e\<lparr>nb_clevel := c\<rparr>)
     }"

definition nb_new_kv :: "clmem \<Rightarrow> nobuf_entry \<Rightarrow> u64 \<Rightarrow> u64 \<Rightarrow> nat \<Rightarrow> (clmem \<times> nobuf_entry) option" where
  "nb_new_kv m raw key value prefix_len =
     do {
       (m1, e) \<leftarrow> nb_new m raw key prefix_len;
       (m2, c, _) \<leftarrow> cl_put (cl_fuel m1) m1 (nb_clevel e) key value;
       Some (m2, e\<lparr>nb_clevel := c\<rparr>)
     }"

definition nb_put :: "clmem \<Rightarrow> nobuf_entry \<Rightarrow> u64 \<Rightarrow> u64 \<Rightarrow> (clmem \<times> nobuf_entry \<times> status) option" where
  "nb_put m e key value =
     do {
       (m1, c1) \<leftarrow> (if \<not> cl_has_setup (nb_clevel e) then cl_setup m (nb_suffix e) else Some (m, nb_clevel e));
       (m2, c2, ret) \<leftarrow> cl_put (cl_fuel m1) m1 c1 key value;
       Some (m2, e\<lparr>nb_clevel := c2\<rparr>, if ret then OK else Failed)
     }"

definition nb_update :: "clmem \<Rightarrow> nobuf_entry \<Rightarrow> u64 \<Rightarrow> u64 \<Rightarrow> (clmem \<times> bool) option" where
  "nb_update m e key value =
     (if \<not> cl_has_setup (nb_clevel e) then Some (m, False)
      else cl_update (cl_fuel m) m (nb_clevel e) key value)"

definition nb_get :: "clmem \<Rightarrow> nobuf_entry \<Rightarrow> u64 \<Rightarrow> (u64 option) option" where
  "nb_get m e key =
     (if \<not> cl_has_setup (nb_clevel e) then Some None else cl_get (cl_fuel m) m (nb_clevel e) key)"

definition nb_delete :: "clmem \<Rightarrow> nobuf_entry \<Rightarrow> u64 \<Rightarrow> (clmem \<times> bool \<times> u64 option) option" where
  "nb_delete m e key =
     (if \<not> cl_has_setup (nb_clevel e) then Some (m, False, None)
      else cl_delete (cl_fuel m) m (nb_clevel e) key)"

text \<open>\<^verbatim>\<open>NobufBEntry::Iter\<close>.  The loop of the constructor with a start key gets a bound on the
  pairs it may skip.\<close>

record nbiter =
  nbi_point :: bool
  nbi_citer :: cliter

definition nb_iter_none :: nbiter where
  "nb_iter_none = \<lparr>nbi_point = False, nbi_citer = \<lparr>it_cur = None, it_idx = 0\<rparr>\<rparr>"

definition nb_iter_end :: "nbiter \<Rightarrow> bool" where
  "nb_iter_end it \<longleftrightarrow> \<not> nbi_point it"

definition nb_iter_key :: "clmem \<Rightarrow> nobuf_entry \<Rightarrow> nbiter \<Rightarrow> u64 option" where
  "nb_iter_key m e it = cl_iter_key m (nb_key e) (nbi_citer it)"

definition nb_iter_value :: "clmem \<Rightarrow> nbiter \<Rightarrow> u64 option" where
  "nb_iter_value m it = cl_iter_value m (nbi_citer it)"

definition nb_iter_next :: "clmem \<Rightarrow> nbiter \<Rightarrow> (nbiter \<times> bool) option" where
  "nb_iter_next m it =
     (if nbi_point it then do {
        (ci, more) \<leftarrow> cl_iter_next (cl_fuel m) m (nbi_citer it);
        Some (it\<lparr>nbi_citer := ci, nbi_point := more\<rparr>, more)
      } else Some (it\<lparr>nbi_point := False\<rparr>, False))"

definition nb_iter_begin :: "clmem \<Rightarrow> nobuf_entry \<Rightarrow> nbiter option" where
  "nb_iter_begin m e =
     (if cl_has_setup (nb_clevel e) then do {
        ci \<leftarrow> cl_iter_begin (cl_fuel m) m (nb_clevel e);
        Some \<lparr>nbi_point = \<not> cl_iter_end ci, nbi_citer = ci\<rparr>
      } else Some nb_iter_none)"

fun nb_iter_seek :: "nat \<Rightarrow> clmem \<Rightarrow> nobuf_entry \<Rightarrow> u64 \<Rightarrow> nbiter \<Rightarrow> nbiter option" where
  "nb_iter_seek 0 m e start_key it = None"
| "nb_iter_seek (Suc n) m e start_key it =
     do {
       k \<leftarrow> nb_iter_key m e it;
       if k \<ge> start_key then Some it
       else do {
         (it', more) \<leftarrow> nb_iter_next m it;
         if more then nb_iter_seek n m e start_key it' else Some it'
       }
     }"

definition nb_iter_from :: "nat \<Rightarrow> clmem \<Rightarrow> nobuf_entry \<Rightarrow> u64 \<Rightarrow> nbiter option" where
  "nb_iter_from n m e start_key =
     (if cl_has_setup (nb_clevel e) then do {
        ci \<leftarrow> cl_iter_from (cl_fuel m) m (nb_clevel e) (nb_key e) start_key;
        let it = \<lparr>nbi_point = \<not> cl_iter_end ci, nbi_citer = ci\<rparr>;
        if \<not> nbi_point it then Some it else nb_iter_seek n m e start_key it
      } else Some nb_iter_none)"

text \<open>The pairs that a client loop reads until \<^verbatim>\<open>end()\<close>.\<close>

fun nb_iter_collect :: "nat \<Rightarrow> clmem \<Rightarrow> nobuf_entry \<Rightarrow> nbiter \<Rightarrow> kv list option" where
  "nb_iter_collect 0 m e it = (if nb_iter_end it then Some [] else None)"
| "nb_iter_collect (Suc n) m e it =
     (if nb_iter_end it then Some []
      else do {
        k \<leftarrow> nb_iter_key m e it;
        v \<leftarrow> nb_iter_value m it;
        (it', more) \<leftarrow> nb_iter_next m it;
        rest \<leftarrow> nb_iter_collect n m e it';
        Some ((k, v) # rest)
      })"

subsection \<open>BEntry\<close>

record bentry =
  be_key :: u64
  be_clevel :: clevel
  be_buf :: kvbuffer

definition be_is_valid :: "bentry \<Rightarrow> bool" where
  "be_is_valid e \<longleftrightarrow> prefix_bytes (be_buf e) + 16 * suffix_bytes (be_buf e) +
     256 * entries (be_buf e) + 4096 * max_entries (be_buf e) \<noteq> 0"

definition be_new :: "bytes \<Rightarrow> u64 \<Rightarrow> nat \<Rightarrow> bentry" where
  "be_new raw key prefix_len =
     (let b = \<lparr>prefix_bytes = bits4 (int prefix_len), suffix_bytes = bits4 (8 - int prefix_len),
               entries = 0, max_entries = 0, kv_buf = raw\<rparr>
      in \<lparr>be_key = key, be_clevel = cl_null,
          be_buf = b\<lparr>max_entries := bits4 (int (kv_max_entries b))\<rparr>\<rparr>)"

definition be_new_kv :: "bytes \<Rightarrow> u64 \<Rightarrow> u64 \<Rightarrow> nat \<Rightarrow> bentry" where
  "be_new_kv raw key value prefix_len =
     (let e = be_new raw key prefix_len in e\<lparr>be_buf := kv_put_append (be_buf e) 0 key value\<rparr>)"

text \<open>\<^verbatim>\<open>FlushToCLevel\<close>: the loop over the slots \<open>i\<close> on, and the whole.\<close>

fun be_flush_loop :: "clmem \<Rightarrow> clevel \<Rightarrow> kvbuffer \<Rightarrow> u64 \<Rightarrow> nat list \<Rightarrow> (clmem \<times> clevel) option" where
  "be_flush_loop m c b p [] = Some (m, c)"
| "be_flush_loop m c b p (i # is) =
     do {
       (m1, c1, ret) \<leftarrow> cl_put (cl_fuel m) m c (kv_key b i p) (kv_value b i);
       if ret then be_flush_loop m1 c1 b p is else None
     }"

definition be_flush :: "clmem \<Rightarrow> bentry \<Rightarrow> (clmem \<times> bentry) option" where
  "be_flush m e =
     do {
       (m1, c1) \<leftarrow> (if \<not> cl_has_setup (be_clevel e) then cl_setup_kv m (be_buf e)
                    else be_flush_loop m (be_clevel e) (be_buf e) (be_key e) [0..<entries (be_buf e)]);
       Some (m1, e\<lparr>be_clevel := c1, be_buf := kv_clear (be_buf e)\<rparr>)
     }"

definition be_put :: "clmem \<Rightarrow> bentry \<Rightarrow> u64 \<Rightarrow> u64 \<Rightarrow> (clmem \<times> bentry \<times> status) option" where
  "be_put m e key value =
     do {
       (m1, e1) \<leftarrow> (if (\<not> cl_has_setup (be_clevel e) \<and> int (entries (be_buf e)) = int (max_entries (be_buf e)) - 1) \<or>
                       kv_full (be_buf e)
                    then be_flush m e else Some (m, e));
       Some (m1, e1\<lparr>be_buf := kv_put_append (be_buf e1) (entries (be_buf e1)) key value\<rparr>, OK)
     }"

text \<open>With \<^verbatim>\<open>BUF_SORT\<close>: the update branch returns \<^verbatim>\<open>false\<close> as a status, which is \<open>OK\<close>.\<close>

definition be_put_sorted :: "clmem \<Rightarrow> bentry \<Rightarrow> u64 \<Rightarrow> u64 \<Rightarrow> (clmem \<times> bentry \<times> status) option" where
  "be_put_sorted m e key value =
     (let (pos, exist) = kv_find_sorted (be_buf e) key in
      if exist then Some (m, e\<lparr>be_buf := kv_update (be_buf e) (nat pos) value\<rparr>, OK)
      else do {
        (m1, e1, pos1) \<leftarrow> (if kv_full (be_buf e) then do { (m1, e1) \<leftarrow> be_flush m e; Some (m1, e1, 0) }
                           else Some (m, e, nat pos));
        Some (m1, e1\<lparr>be_buf := kv_put_sorted (be_buf e1) pos1 key value\<rparr>, OK)
      })"

definition be_update :: "clmem \<Rightarrow> bentry \<Rightarrow> u64 \<Rightarrow> u64 \<Rightarrow> (clmem \<times> bentry \<times> bool) option" where
  "be_update m e key value =
     (let (pos, exist) = kv_find_append (be_buf e) key in
      if exist then Some (m, e\<lparr>be_buf := kv_update (be_buf e) (nat pos) value\<rparr>, True)
      else if cl_has_setup (be_clevel e) then do {
        (m1, ret) \<leftarrow> cl_update (cl_fuel m) m (be_clevel e) key value;
        Some (m1, e, ret)
      } else None)"

definition be_get :: "clmem \<Rightarrow> bentry \<Rightarrow> u64 \<Rightarrow> (u64 option) option" where
  "be_get m e key =
     (let (pos, exist) = kv_find_append (be_buf e) key in
      if exist then Some (Some (kv_value (be_buf e) (nat pos)))
      else if cl_has_setup (be_clevel e) then cl_get (cl_fuel m) m (be_clevel e) key
      else Some None)"

definition be_delete :: "clmem \<Rightarrow> bentry \<Rightarrow> u64 \<Rightarrow> (clmem \<times> bentry \<times> bool \<times> u64 option) option" where
  "be_delete m e key =
     (let (pos, exist) = kv_find_append (be_buf e) key in
      if exist then
        Some (m, e\<lparr>be_buf := kv_delete_append (be_buf e) (nat pos)\<rparr>, True, Some (kv_value (be_buf e) (nat pos)))
      else if cl_has_setup (be_clevel e) then do {
        (m1, ret, val) \<leftarrow> cl_delete (cl_fuel m) m (be_clevel e) key;
        Some (m1, e, ret, val)
      } else Some (m, e, False, None))"


subsection \<open>NobufBEntry as a map\<close>

definition nb_ok :: "nobuf_entry \<Rightarrow> bool" where
  "nb_ok e \<longleftrightarrow> 0 < nb_suffix e \<and> nb_suffix e \<le> 8 \<and> nb_prefix e = 8 - nb_suffix e"

definition nb_own :: "clmem \<Rightarrow> nobuf_entry \<Rightarrow> nat \<Rightarrow> nat set \<Rightarrow> kv list \<Rightarrow> bool" where
  "nb_own m e d as xs \<longleftrightarrow> nb_ok e \<and> region_ok m \<and>
     (if cl_has_setup (nb_clevel e) then cl_own (nb_key e) (nb_suffix e) m (nb_clevel e) d as xs
      else d = 0 \<and> as = {} \<and> xs = [])"

text \<open>The keys an entry may hold.\<close>

definition nb_fits :: "nobuf_entry \<Rightarrow> u64 \<Rightarrow> bool" where
  "nb_fits e k \<longleftrightarrow> same_prefix (nb_prefix e) (nb_key e) k"

lemma nb_own_sorted: "nb_own m e d as xs \<Longrightarrow> keys_sorted xs"
  using cl_own_sorted by (auto simp: nb_own_def split: if_splits)

lemma nb_own_addrs: "nb_own m e d as xs \<Longrightarrow> x \<in> as \<Longrightarrow> x < cur_addr m"
  using cl_own_addrs by (auto simp: nb_own_def split: if_splits)

lemma nb_own_frame:
  assumes "nb_own m e d as xs" "region_step bs m bs' m'" "as \<inter> bs = {}"
  shows "nb_own m' e d as xs" "as \<inter> bs' = {}"
  using assms cl_own_frame[of "nb_key e" "nb_suffix e" m "nb_clevel e" d as xs bs bs' m']
  by (auto simp: nb_own_def region_step_def split: if_splits)

lemma nb_get_own:
  assumes "nb_own m e d as xs" "nb_fits e k"
  shows "nb_get m e k = Some (map_of xs k)"
  using assms cl_get_own by (auto simp: nb_own_def nb_get_def nb_fits_def nb_ok_def split: if_splits)

lemma nb_update_own:
  assumes "nb_own m e d as xs" "nb_fits e k"
  shows "map_of xs k \<noteq> None \<Longrightarrow> \<exists>m'. nb_update m e k v = Some (m', True) \<and>
      nb_own m' e d as (ins k v xs) \<and> region_step as m as m' \<and> cur_addr m' = cur_addr m"
    "map_of xs k = None \<Longrightarrow> nb_update m e k v = (if cl_has_setup (nb_clevel e) then None else Some (m, False))"
proof -
  have k: "same_prefix (8 - nb_suffix e) (nb_key e) k" and ok: "nb_ok e"
    using assms by (simp_all add: nb_fits_def nb_own_def nb_ok_def)
  show "nb_update m e k v = (if cl_has_setup (nb_clevel e) then None else Some (m, False))" if "map_of xs k = None"
    using assms(1) that cl_update_own(2)[OF _ k] by (auto simp: nb_update_def nb_own_def)
  assume p: "map_of xs k \<noteq> None"
  then have s: "cl_has_setup (nb_clevel e)" "cl_own (nb_key e) (nb_suffix e) m (nb_clevel e) d as xs"
    using assms(1) by (auto simp: nb_own_def split: if_splits)
  show "\<exists>m'. nb_update m e k v = Some (m', True) \<and>
      nb_own m' e d as (ins k v xs) \<and> region_step as m as m' \<and> cur_addr m' = cur_addr m"
    using cl_update_own(1)[OF s(2) k p, of v] s(1) ok by (auto simp: nb_update_def nb_own_def region_step_def)
qed

lemma nb_delete_own:
  assumes "nb_own m e d as xs" "nb_fits e k"
  shows "\<exists>m'. nb_delete m e k = Some (m', cl_has_setup (nb_clevel e), map_of xs k) \<and>
    nb_own m' e d as (filter (\<lambda>x. fst x \<noteq> k) xs) \<and> region_step as m as m' \<and> cur_addr m' = cur_addr m"
proof -
  have k: "same_prefix (8 - nb_suffix e) (nb_key e) k" and ok: "nb_ok e"
    using assms by (simp_all add: nb_fits_def nb_own_def nb_ok_def)
  show ?thesis
  proof (cases "cl_has_setup (nb_clevel e)")
    case True
    then have s: "cl_own (nb_key e) (nb_suffix e) m (nb_clevel e) d as xs" using assms(1) by (simp add: nb_own_def)
    show ?thesis using cl_delete_own[OF s k] True ok by (auto simp: nb_delete_def nb_own_def region_step_def)
  next
    case False
    then show ?thesis using assms(1) by (auto simp: nb_delete_def nb_own_def intro: region_step_refl)
  qed
qed

lemma nb_put_own:
  assumes "nb_own m e d as xs" "nb_fits e k" "cur_addr m + (d + 3) * node_size < end_addr m"
  shows "\<exists>m' c d' bs. nb_put m e k v = Some (m', e\<lparr>nb_clevel := c\<rparr>, OK) \<and>
    nb_own m' (e\<lparr>nb_clevel := c\<rparr>) d' bs (ins k v xs) \<and> region_step as m bs m' \<and> d' \<le> Suc d \<and>
    cur_addr m' \<le> cur_addr m + (d + 3) * node_size"
proof -
  have k: "same_prefix (8 - nb_suffix e) (nb_key e) k" and ok: "nb_ok e"
    using assms by (simp_all add: nb_fits_def nb_own_def nb_ok_def)
  define P where "P m1 c1 as1 \<longleftrightarrow> cl_own (nb_key e) (nb_suffix e) m1 c1 d as1 xs \<and> region_step as m as1 m1 \<and>
      cur_addr m1 \<le> cur_addr m + node_size" for m1 c1 as1
  have "\<exists>m1 c1 as1. (if \<not> cl_has_setup (nb_clevel e) then cl_setup m (nb_suffix e) else Some (m, nb_clevel e))
      = Some (m1, c1) \<and> P m1 c1 as1"
  proof (cases "cl_has_setup (nb_clevel e)")
    case True
    then have "P m (nb_clevel e) as" using assms(1) region_step_refl by (simp add: nb_own_def P_def)
    then show ?thesis using True by auto
  next
    case False
    have z: "d = 0" "as = {}" "xs = []" "region_ok m" "0 < nb_suffix e" "nb_suffix e \<le> 8"
      using False assms(1) ok by (auto simp: nb_own_def nb_ok_def)
    have "cur_addr m + node_size < end_addr m" using assms(3) by (simp add: node_size_def)
    from cl_setup_own[OF z(5,6,4) this, of "nb_key e"] show ?thesis using False z by (auto simp: P_def)
  qed
  then obtain m1 c1 as1 where S: "(if \<not> cl_has_setup (nb_clevel e) then cl_setup m (nb_suffix e)
      else Some (m, nb_clevel e)) = Some (m1, c1)" "cl_own (nb_key e) (nb_suffix e) m1 c1 d as1 xs"
    "region_step as m as1 m1" "cur_addr m1 \<le> cur_addr m + node_size" unfolding P_def by blast
  have room: "cur_addr m1 + (d + 2) * node_size < end_addr m1"
    using S(3,4) assms(3) by (simp add: region_step_def algebra_simps)
  obtain m' c' d' bs where C: "cl_put (cl_fuel m1) m1 c1 k v = Some (m', c', True)"
    "cl_own (nb_key e) (nb_suffix e) m' c' d' bs (ins k v xs)" "region_step as1 m1 bs m'" "d' \<le> Suc d"
    "cur_addr m' \<le> cur_addr m1 + (d + 2) * node_size" using cl_put_own[OF S(2) k room, of v] by blast
  have "nb_put m e k v = Some (m', e\<lparr>nb_clevel := c'\<rparr>, OK)"
    unfolding nb_put_def S(1) by (simp add: C(1))
  moreover have "nb_own m' (e\<lparr>nb_clevel := c'\<rparr>) d' bs (ins k v xs)"
    using C(2) ok cl_own_setup[OF C(2)] cl_own_region[OF C(2)] by (simp add: nb_own_def nb_ok_def)
  moreover have "region_step as m bs m'" using region_step_trans[OF S(3) C(3)] .
  ultimately show ?thesis using C(4,5) S(4) by (intro exI[of _ m'] exI[of _ c'] exI[of _ d'] exI[of _ bs]) (simp add: algebra_simps)
qed

lemma nb_new_own:
  assumes "prefix_len < 8" "region_ok m" "cur_addr m + node_size < end_addr m"
  shows "\<exists>m' e. nb_new m raw key prefix_len = Some (m', e) \<and> nb_key e = key \<and> nb_prefix e = prefix_len \<and>
    nb_own m' e 0 {cur_addr m} [] \<and> nb_is_valid e \<and> region_step {} m {cur_addr m} m' \<and>
    cur_addr m' = cur_addr m + node_size"
proof -
  have b: "bits4 (int prefix_len) = prefix_len" "bits4 (8 - int prefix_len) = 8 - prefix_len"
    using assms(1) by (auto simp: bits4_def)
  obtain m' c where S: "cl_setup m (8 - prefix_len) = Some (m', c)"
    "cl_own key (8 - prefix_len) m' c 0 {cur_addr m} []" "region_step {} m {cur_addr m} m'"
    "cur_addr m' = cur_addr m + node_size"
    using cl_setup_own[of "8 - prefix_len" m key] assms by auto
  show ?thesis using S assms(1) b cl_own_setup[OF S(2)] cl_own_region[OF S(2)]
    by (simp add: nb_new_def nb_own_def nb_ok_def nb_is_valid_def nb_meta_def)
qed

subsection \<open>Iteration over a NobufBEntry\<close>

definition nb_iter_at :: "clmem \<Rightarrow> nobuf_entry \<Rightarrow> nbiter \<Rightarrow> kv list \<Rightarrow> bool" where
  "nb_iter_at m e it rest \<longleftrightarrow> (nbi_point it \<longleftrightarrow> rest \<noteq> []) \<and>
     (rest \<noteq> [] \<longrightarrow> (\<exists>L < cl_fuel m. iter_at (nb_key e) (nb_suffix e) m (nbi_citer it) rest L))"

lemma iter_at_end: "iter_at p s m it rest L \<Longrightarrow> cl_iter_end it \<longleftrightarrow> rest = []"
  by (auto simp: iter_at_def cl_iter_end_def)

lemma nb_iter_at_citer:
  assumes "iter_at (nb_key e) (nb_suffix e) m ci rest L" "L < cl_fuel m"
  shows "nb_iter_at m e \<lparr>nbi_point = \<not> cl_iter_end ci, nbi_citer = ci\<rparr> rest"
  using assms iter_at_end[OF assms(1)] by (auto simp: nb_iter_at_def)

lemma nb_iter_at_values:
  assumes "nb_iter_at m e it (x # rest)"
  shows "nb_iter_key m e it = Some (fst x)" "nb_iter_value m it = Some (snd x)" "\<not> nb_iter_end it"
  using assms iter_at_values by (auto simp: nb_iter_at_def nb_iter_key_def nb_iter_value_def nb_iter_end_def)

lemma nb_iter_at_next:
  assumes "nb_iter_at m e it (x # rest)"
  shows "\<exists>it'. nb_iter_next m it = Some (it', rest \<noteq> []) \<and> nb_iter_at m e it' rest"
proof -
  obtain L where L: "L < cl_fuel m" "iter_at (nb_key e) (nb_suffix e) m (nbi_citer it) (x # rest) L" "nbi_point it"
    using assms by (auto simp: nb_iter_at_def)
  from iter_at_next[OF L(2) _ L(1)] obtain ci where "cl_iter_next (cl_fuel m) m (nbi_citer it) = Some (ci, rest \<noteq> [])"
    "iter_at (nb_key e) (nb_suffix e) m ci rest L" by auto
  then show ?thesis using L by (auto simp: nb_iter_next_def nb_iter_at_def)
qed

lemma nb_iter_collect_rest:
  "nb_iter_at m e it rest \<Longrightarrow> length rest \<le> n \<Longrightarrow> nb_iter_collect n m e it = Some rest"
proof (induction n arbitrary: it rest)
  case 0
  then show ?case by (simp add: nb_iter_at_def nb_iter_end_def)
next
  case (Suc n)
  show ?case
  proof (cases rest)
    case Nil
    then show ?thesis using Suc.prems by (simp add: nb_iter_at_def nb_iter_end_def)
  next
    case (Cons x xs)
    note at = Suc.prems(1)[unfolded Cons]
    obtain it' where n: "nb_iter_next m it = Some (it', xs \<noteq> [])" "nb_iter_at m e it' xs"
      using nb_iter_at_next[OF at] by blast
    show ?thesis using nb_iter_at_values[OF at] n(1) Suc.IH[OF n(2)] Suc.prems(2) Cons by simp
  qed
qed

lemma nb_iter_begin_own:
  assumes "nb_own m e d as xs"
  shows "\<exists>it. nb_iter_begin m e = Some it \<and> nb_iter_at m e it xs"
proof (cases "cl_has_setup (nb_clevel e)")
  case True
  then obtain t where t: "cl_tree (nb_key e) (nb_suffix e) m d t" "nb_clevel e = six_bytes (ct_addr t)" "ct_flat t = xs"
    using assms by (auto simp: nb_own_def cl_own_def)
  from cl_iter_begin_tree[OF t(1) tree_fuel[OF t(1)]] t nb_iter_at_citer tree_fuel(2)[OF t(1)] True
  show ?thesis by (fastforce simp: nb_iter_begin_def)
next
  case False
  then show ?thesis using assms by (auto simp: nb_iter_begin_def nb_own_def nb_iter_at_def nb_iter_none_def)
qed

lemma nb_iter_from_own:
  assumes "nb_own m e d as xs" "nb_fits e start" "\<forall>x \<in> set xs. nb_key e \<le> fst x"
  shows "\<exists>it. nb_iter_from (Suc n) m e start = Some it \<and> nb_iter_at m e it (filter (\<lambda>x. start \<le> fst x) xs)"
proof (cases "cl_has_setup (nb_clevel e)")
  case True
  then obtain t where t: "cl_tree (nb_key e) (nb_suffix e) m d t" "nb_clevel e = six_bytes (ct_addr t)" "ct_flat t = xs"
    using assms by (auto simp: nb_own_def cl_own_def)
  have k: "same_prefix (8 - nb_suffix e) (nb_key e) start"
    using assms(1,2) by (simp add: nb_own_def nb_fits_def nb_ok_def)
  let ?ys = "filter (\<lambda>x. start \<le> fst x) xs"
  obtain ci where C: "cl_iter_from (cl_fuel m) m (nb_clevel e) (nb_key e) start = Some ci"
    "iter_at (nb_key e) (nb_suffix e) m ci ?ys (cl_leaf_count t)"
    using cl_iter_from_tree[OF t(1) tree_fuel[OF t(1)] k] assms(3) t by auto
  note at = nb_iter_at_citer[OF C(2) tree_fuel(2)[OF t(1)]]
  show ?thesis
  proof (cases ?ys)
    case Nil
    then show ?thesis using True C(1) at by (auto simp: nb_iter_from_def nb_iter_at_def)
  next
    case (Cons x ys)
    have "x \<in> set ?ys" unfolding Cons by simp
    then have "start \<le> fst x" by simp
    then show ?thesis using True C(1) at nb_iter_at_values[OF at[unfolded Cons]] unfolding Cons
      by (auto simp: nb_iter_from_def nb_iter_end_def)
  qed
next
  case False
  then show ?thesis using assms by (auto simp: nb_iter_from_def nb_own_def nb_iter_at_def nb_iter_none_def)
qed


subsection \<open>BEntry as a map\<close>

text \<open>The pairs of the entry are those of the buffer and those of its C-level; no key is in
  both.  A buffer that has not been flushed yet keeps a free slot.\<close>

definition be_items :: "bentry \<Rightarrow> kv list \<Rightarrow> kv list" where
  "be_items e cs = kv_items (be_key e) (be_buf e) @ cs"

definition be_own :: "clmem \<Rightarrow> bentry \<Rightarrow> nat \<Rightarrow> nat set \<Rightarrow> kv list \<Rightarrow> bool" where
  "be_own m e d as cs \<longleftrightarrow> kv_wf (be_buf e) \<and> region_ok m \<and> distinct (map fst (be_items e cs)) \<and>
     (if cl_has_setup (be_clevel e) then cl_own (be_key e) (suffix_bytes (be_buf e)) m (be_clevel e) d as cs
      else d = 0 \<and> as = {} \<and> cs = [] \<and> entries (be_buf e) < max_entries (be_buf e))"

definition be_fits :: "bentry \<Rightarrow> u64 \<Rightarrow> bool" where
  "be_fits e k \<longleftrightarrow> same_prefix (prefix_bytes (be_buf e)) (be_key e) k"

lemma map_of_eq_set:
  assumes "distinct (map fst xs)" "distinct (map fst ys)" "set xs = set ys"
  shows "map_of xs = map_of ys"
  using map_of_inject_set[OF assms(1,2)] assms(3) by blast

lemma be_fits_suffix: "be_own m e d as cs \<Longrightarrow> be_fits e k \<Longrightarrow> same_prefix (8 - suffix_bytes (be_buf e)) (be_key e) k"
  by (metis be_own_def be_fits_def kv_wf_def add_diff_cancel_right')

lemma be_find:
  assumes "be_own m e d as cs" "be_fits e k" "kv_find_append (be_buf e) k = (pos, exist)"
  shows "map_of (kv_items (be_key e) (be_buf e)) k = (if exist then Some (kv_value (be_buf e) (nat pos)) else None)"
    "exist \<Longrightarrow> nat pos < entries (be_buf e)" "exist \<Longrightarrow> kv_key (be_buf e) (nat pos) (be_key e) = k"
proof -
  have w: "kv_wf (be_buf e)" "same_prefix (prefix_bytes (be_buf e)) (be_key e) k"
    and d: "distinct (map fst (kv_items (be_key e) (be_buf e)))"
    using assms(1,2) by (simp_all add: be_own_def be_items_def be_fits_def)
  have "map_of (rev (kv_items (be_key e) (be_buf e))) = map_of (kv_items (be_key e) (be_buf e))"
    using d by (intro map_of_eq_set) (simp_all flip: rev_map)
  then show m: "map_of (kv_items (be_key e) (be_buf e)) k = (if exist then Some (kv_value (be_buf e) (nat pos)) else None)"
    using kv_find_append_lookup(1)[OF w] assms(3) by simp
  show i: "nat pos < entries (be_buf e)" if "exist" using kv_find_append_lookup(2)[OF w] assms(3) that by simp
  show "kv_key (be_buf e) (nat pos) (be_key e) = k" if ex: "exist"
    using kv_find_back_spec[OF w, of "entries (be_buf e)"] assms(3) ex
    by (auto simp: kv_find_append_def split: option.splits)
qed

lemma be_get_own:
  assumes "be_own m e d as cs" "be_fits e k"
  shows "be_get m e k = Some (map_of (be_items e cs) k)"
proof -
  obtain pos exist where f: "kv_find_append (be_buf e) k = (pos, exist)" by fastforce
  note F = be_find[OF assms f]
  have "cl_has_setup (be_clevel e) \<Longrightarrow> cl_get (cl_fuel m) m (be_clevel e) k = Some (map_of cs k)"
    using cl_get_own[OF _ be_fits_suffix[OF assms]] assms(1) by (auto simp: be_own_def)
  then show ?thesis using F(1) assms(1)
    by (auto simp: be_get_def f be_items_def map_add_def be_own_def split: option.splits if_splits)
qed

lemma be_update_own:
  assumes "be_own m e d as cs" "be_fits e k" "map_of (be_items e cs) k \<noteq> None"
  shows "\<exists>m' e' cs'. be_update m e k v = Some (m', e', True) \<and> be_own m' e' d as cs' \<and>
    map_of (be_items e' cs') = (map_of (be_items e cs))(k \<mapsto> v) \<and> region_step as m as m' \<and>
    be_key e' = be_key e \<and> prefix_bytes (be_buf e') = prefix_bytes (be_buf e)"
proof -
  let ?xs = "kv_items (be_key e) (be_buf e)"
  obtain pos exist where f: "kv_find_append (be_buf e) k = (pos, exist)" by fastforce
  note F = be_find[OF assms(1,2) f]
  show ?thesis
  proof (cases exist)
    case True
    define e' where "e' = e\<lparr>be_buf := kv_update (be_buf e) (nat pos) v\<rparr>"
    have w: "kv_wf (be_buf e)" using assms(1) by (simp add: be_own_def)
    note i = F(2)[OF True]
    have it: "kv_items (be_key e) (be_buf e') = ?xs[nat pos := (k, v)]"
      using kv_update_refines(2)[OF w i, of "be_key e" v] F(3)[OF True] i by (simp add: e'_def nth_kv_items)
    have fst: "map fst (?xs[nat pos := (k, v)]) = map fst ?xs"
      using F(3)[OF True] i by (simp add: map_update nth_kv_items list_update_same_conv)
    have "map_of (be_items e' cs) = (map_of (be_items e cs))(k \<mapsto> v)"
    proof -
      have "be_items e' cs = (be_items e cs)[nat pos := (fst (be_items e cs ! nat pos), v)]"
        using it i F(3)[OF True] by (simp add: be_items_def e'_def list_update_append nth_append nth_kv_items)
      then show ?thesis using map_of_update_at[of "be_items e cs" "nat pos" v] assms(1) i F(3)[OF True]
        by (simp add: be_own_def be_items_def nth_append nth_kv_items)
    qed
    moreover have "be_own m e' d as cs"
      using assms(1) it fst kv_update_refines(1)[OF w i, of v]
      by (simp add: be_own_def be_items_def e'_def kv_update_def)
    ultimately show ?thesis using assms(1) f True
      by (intro exI[of _ m] exI[of _ e'] exI[of _ cs])
        (simp add: be_update_def e'_def region_step_refl be_own_def kv_update_def)
  next
    case False
    have c: "cl_has_setup (be_clevel e)" "map_of cs k \<noteq> None"
      using F(1) False assms(1,3) by (auto simp: be_items_def map_add_def be_own_def split: if_splits option.splits)
    then have o: "cl_own (be_key e) (suffix_bytes (be_buf e)) m (be_clevel e) d as cs"
      using assms(1) by (simp add: be_own_def)
    obtain m' where U: "cl_update (cl_fuel m) m (be_clevel e) k v = Some (m', True)"
      "cl_own (be_key e) (suffix_bytes (be_buf e)) m' (be_clevel e) d as (ins k v cs)" "region_step as m as m'"
      using cl_update_own(1)[OF o be_fits_suffix[OF assms(1,2)] c(2), of v] by blast
    note sp = ins_spec[OF cl_own_sorted[OF o], of k v]
    have k: "k \<notin> fst ` set ?xs" "k \<in> fst ` set cs" using F(1) False c(2) by (auto simp: map_of_eq_None_iff)
    have "dom (map_of (ins k v cs)) = dom (map_of cs)" using sp(2) c(2) by auto
    then have "fst ` set (ins k v cs) = fst ` set cs" by (simp add: dom_map_of_conv_image_fst)
    then have "distinct (map fst (be_items e (ins k v cs)))"
      using assms(1) keys_sorted_distinct[OF sp(1)] by (simp add: be_own_def be_items_def)
    moreover have "map_of (be_items e (ins k v cs)) = (map_of (be_items e cs))(k \<mapsto> v)"
      using sp(2) F(1) False by (simp add: be_items_def map_add_upd_left domIff)
    ultimately show ?thesis using U f False c(1) assms(1) cl_own_region[OF U(2)]
      by (intro exI[of _ m'] exI[of _ e] exI[of _ "ins k v cs"]) (simp add: be_update_def be_own_def)
  qed
qed


text \<open>Removing a slot by moving the last one into it.\<close>

lemma swap_remove:
  assumes "distinct (map fst xs)" "i < length xs"
  shows "set (butlast (xs[i := last xs])) = set xs - {xs ! i}" "distinct (map fst (butlast (xs[i := last xs])))"
proof -
  have "set (butlast (xs[i := last xs])) = set xs - {xs ! i} \<and> distinct (map fst (butlast (xs[i := last xs])))"
    using assms
  proof (induction xs rule: rev_induct)
    case (snoc z ys)
    have d: "distinct ys" "z \<notin> set ys" using snoc.prems(1) by (auto simp: distinct_map)
    show ?case
    proof (cases "i = length ys")
      case True
      then show ?thesis using snoc.prems d by auto
    next
      case False
      then have i: "i < length ys" using snoc.prems(2) by simp
      have b: "butlast ((ys @ [z])[i := z]) = ys[i := z]" using i by (simp add: list_update_append)
      have "set (ys[i := z]) = insert z (set ys - {ys ! i})" using d(1) i by (rule set_update_distinct)
      moreover have "distinct (map fst (ys[i := z]))"
        using snoc.prems(1) by (simp add: map_update distinct_list_update)
      moreover have "ys ! i \<noteq> z" using d(2) i by force
      moreover have "(ys @ [z]) ! i = ys ! i" using i by (simp add: nth_append)
      ultimately show ?thesis unfolding last_snoc b by (simp add: insert_Diff_if)
    qed
  qed simp
  then show "set (butlast (xs[i := last xs])) = set xs - {xs ! i}" "distinct (map fst (butlast (xs[i := last xs])))"
    by blast+
qed

lemma be_delete_own:
  assumes "be_own m e d as cs" "be_fits e k"
  shows "\<exists>m' e' cs' ret. be_delete m e k = Some (m', e', ret, map_of (be_items e cs) k) \<and> be_own m' e' d as cs' \<and>
    map_of (be_items e' cs') = (map_of (be_items e cs))(k := None) \<and> region_step as m as m' \<and>
    be_key e' = be_key e \<and> prefix_bytes (be_buf e') = prefix_bytes (be_buf e) \<and>
    (ret \<longleftrightarrow> k \<in> fst ` set (kv_items (be_key e) (be_buf e)) \<or> cl_has_setup (be_clevel e))"
proof -
  let ?xs = "kv_items (be_key e) (be_buf e)"
  obtain pos exist where f: "kv_find_append (be_buf e) k = (pos, exist)" by fastforce
  note F = be_find[OF assms f]
  have dist: "distinct (map fst ?xs)" "distinct (map fst cs)" "fst ` set ?xs \<inter> fst ` set cs = {}"
    using assms(1) by (auto simp: be_own_def be_items_def)
  show ?thesis
  proof (cases exist)
    case True
    define e' where "e' = e\<lparr>be_buf := kv_delete_append (be_buf e) (nat pos)\<rparr>"
    have w: "kv_wf (be_buf e)" using assms(1) by (simp add: be_own_def)
    note i = F(2)[OF True]
    have same: "prefix_bytes (be_buf e') = prefix_bytes (be_buf e)" "suffix_bytes (be_buf e') = suffix_bytes (be_buf e)"
      "max_entries (be_buf e') = max_entries (be_buf e)"
      by (simp_all add: e'_def kv_delete_append_def Let_def)
    have it: "kv_items (be_key e) (be_buf e') = butlast (?xs[nat pos := last ?xs])"
      using kv_delete_append_refines(2)[OF w i] by (simp add: e'_def)
    have ent: "entries (be_buf e') = entries (be_buf e) - 1"
      using arg_cong[OF it, of length] by simp
    have i': "nat pos < length ?xs" "?xs ! nat pos = (k, kv_value (be_buf e) (nat pos))"
      using i F(3)[OF True] by (simp_all add: nth_kv_items)
    note sr = swap_remove[OF dist(1) i'(1), unfolded i'(2), folded it]
    have kn: "k \<notin> fst ` set (kv_items (be_key e) (be_buf e'))"
    proof
      assume "k \<in> fst ` set (kv_items (be_key e) (be_buf e'))"
      then obtain y where y: "k = fst y" "y \<in> set ?xs - {(k, kv_value (be_buf e) (nat pos))}"
        unfolding sr(1) by (rule imageE)
      define v where "v = snd y"
      have v: "(k, v) \<in> set ?xs" "v \<noteq> kv_value (be_buf e) (nat pos)" using y by (auto simp: v_def prod_eq_iff)
      then have "map_of ?xs k = Some v" using dist(1) by simp
      then show False using F(1) True v(2) by simp
    qed
    have set: "set (be_items e' cs) = set (be_items e cs) - {(k, kv_value (be_buf e) (nat pos))}"
    proof -
      have "(k, kv_value (be_buf e) (nat pos)) \<in> set ?xs" using i' nth_mem by metis
      then have "k \<notin> fst ` set cs" using dist(3) by force
      then have "(k, kv_value (be_buf e) (nat pos)) \<notin> set cs" by force
      then show ?thesis using sr(1) by (auto simp: be_items_def e'_def)
    qed
    have d': "distinct (map fst (be_items e' cs))"
      using sr dist by (auto simp: be_items_def e'_def image_iff)
    have "map_of (be_items e' cs) = (map_of (be_items e cs))(k := None)"
    proof
      fix x
      have de: "distinct (map fst (be_items e cs))" using assms(1) by (simp add: be_own_def)
      show "map_of (be_items e' cs) x = ((map_of (be_items e cs))(k := None)) x"
      proof (cases "x = k")
        case True
        have "k \<notin> fst ` set cs" using dist(3) i' nth_mem[OF i'(1)] by force
        then show ?thesis using True kn by (simp add: be_items_def e'_def map_add_None map_of_eq_None_iff)
      next
        case False
        have "map_of (be_items e' cs) x = Some v \<longleftrightarrow> map_of (be_items e cs) x = Some v" for v
          using False d' de set by simp
        then show ?thesis using False by (metis fun_upd_other not_Some_eq)
      qed
    qed
    moreover have "be_own m e' d as cs"
      using assms(1) d' kv_delete_append_refines(1)[OF w i] same ent
      by (auto simp: be_own_def e'_def)
    moreover have "be_delete m e k = Some (m, e', True, map_of (be_items e cs) k)"
      using f True F(1) by (simp add: be_delete_def e'_def be_items_def map_add_def)
    moreover have "k \<in> fst ` set ?xs" using F(1) True by (metis map_of_eq_None_iff option.distinct(1))
    moreover have "region_ok m" "be_key e' = be_key e" using assms(1) by (simp_all add: be_own_def e'_def)
    ultimately show ?thesis using same(1) region_step_refl
      by (intro exI[of _ m] exI[of _ e'] exI[of _ cs] exI[of _ True]) simp
  next
    case False
    then have kn: "k \<notin> fst ` set ?xs" "map_of ?xs k = None" using F(1) by (auto simp: map_of_eq_None_iff)
    show ?thesis
    proof (cases "cl_has_setup (be_clevel e)")
      case True
      have o: "cl_own (be_key e) (suffix_bytes (be_buf e)) m (be_clevel e) d as cs"
        using assms(1) True by (simp add: be_own_def)
      obtain m' where D: "cl_delete (cl_fuel m) m (be_clevel e) k = Some (m', True, map_of cs k)"
        "cl_own (be_key e) (suffix_bytes (be_buf e)) m' (be_clevel e) d as (filter (\<lambda>x. fst x \<noteq> k) cs)"
        "region_step as m as m'" using cl_delete_own[OF o be_fits_suffix[OF assms]] by blast
      have mo: "map_of (be_items e (filter (\<lambda>x. fst x \<noteq> k) cs)) = (map_of (be_items e cs))(k := None)"
        using kn(2) map_of_filter_ne[of k cs] by (auto simp: be_items_def map_add_def fun_eq_iff split: option.splits)
      have "distinct (map fst (be_items e (filter (\<lambda>x. fst x \<noteq> k) cs)))"
        using assms(1) by (auto simp: be_own_def be_items_def distinct_map_filter)
      then show ?thesis using D f False True assms(1) mo kn cl_own_region[OF D(2)]
        by (intro exI[of _ m'] exI[of _ e] exI[of _ "filter (\<lambda>x. fst x \<noteq> k) cs"] exI[of _ True])
          (simp add: be_delete_def be_own_def be_items_def map_add_def)
    next
      case c: False
      have "cs = []" using assms(1) c by (simp add: be_own_def)
      then show ?thesis using f False c assms(1) kn
        by (intro exI[of _ m] exI[of _ e] exI[of _ cs] exI[of _ False])
          (simp add: be_delete_def be_items_def region_step_refl be_own_def fun_upd_idem)
    qed
  qed
qed


lemma be_flush_loop_own:
  assumes "cl_own (be_key e) s m c d as cs" "be_own m0 e d0 as0 cs0" "s = suffix_bytes (be_buf e)"
    "\<forall>i \<in> set is. i < entries (be_buf e) \<and> be_fits e (kv_key (be_buf e) i (be_key e))"
    "cur_addr m + length is * ((d + length is + 2) * node_size) < end_addr m"
  shows "\<exists>m' c' d' bs cs'. be_flush_loop m c (be_buf e) (be_key e) is = Some (m', c') \<and>
    cl_own (be_key e) s m' c' d' bs cs' \<and> region_step as m bs m' \<and> d' \<le> d + length is \<and>
    map_of cs' = map_of cs ++ map_of (rev (map (\<lambda>i. (kv_key (be_buf e) i (be_key e), kv_value (be_buf e) i)) is)) \<and>
    cur_addr m' \<le> cur_addr m + length is * ((d + length is + 2) * node_size)"
  using assms(1,4,5)
proof (induction "is" arbitrary: m c d as cs)
  case Nil
  then show ?case using region_step_refl[OF cl_own_region[OF Nil(1)]] by (auto intro!: exI)
next
  case (Cons i ii)
  let ?k = "kv_key (be_buf e) i (be_key e)" and ?v = "kv_value (be_buf e) i"
  let ?r = "(d + length (i # ii) + 2) * node_size"
  have k: "same_prefix (8 - s) (be_key e) ?k" using be_fits_suffix[OF assms(2)] Cons.prems(2) assms(3) by simp
  have le: "(d + 2) * node_size \<le> ?r" by (rule mult_le_mono1) simp
  then have room: "cur_addr m + (d + 2) * node_size < end_addr m" using Cons.prems(3) by simp
  obtain m1 c1 d1 bs where P: "cl_put (cl_fuel m) m c ?k ?v = Some (m1, c1, True)"
    "cl_own (be_key e) s m1 c1 d1 bs (ins ?k ?v cs)" "region_step as m bs m1" "d1 \<le> Suc d"
    "cur_addr m1 \<le> cur_addr m + (d + 2) * node_size" using cl_put_own[OF Cons.prems(1) k room, of ?v] by blast
  have r1: "length ii * ((d1 + length ii + 2) * node_size) \<le> length ii * ?r"
    using P(4) by (intro mult_le_mono mult_le_mono1) auto
  have sp: "length (i # ii) * ?r = ?r + length ii * ?r" by simp
  have room1: "cur_addr m1 + length ii * ((d1 + length ii + 2) * node_size) < end_addr m1"
    using P(3,5) le r1 sp Cons.prems(3) unfolding region_step_def by linarith
  obtain m' c' d' bs' cs' where R: "be_flush_loop m1 c1 (be_buf e) (be_key e) ii = Some (m', c')"
    "cl_own (be_key e) s m' c' d' bs' cs'" "region_step bs m1 bs' m'" "d' \<le> d1 + length ii"
    "map_of cs' = map_of (ins ?k ?v cs) ++
      map_of (rev (map (\<lambda>i. (kv_key (be_buf e) i (be_key e), kv_value (be_buf e) i)) ii))"
    "cur_addr m' \<le> cur_addr m1 + length ii * ((d1 + length ii + 2) * node_size)"
    using Cons.IH[OF P(2) _ room1] Cons.prems(2) by auto
  have "map_of cs' = map_of cs ++
      map_of (rev (map (\<lambda>i. (kv_key (be_buf e) i (be_key e), kv_value (be_buf e) i)) (i # ii)))"
    unfolding R(5) ins_spec(2)[OF cl_own_sorted[OF Cons.prems(1)]] by simp
  moreover have "cur_addr m' \<le> cur_addr m + length (i # ii) * ?r" using R(6) P(5) le r1 sp by linarith
  ultimately show ?case using P(1,4) R(1,2,4) region_step_trans[OF P(3) R(3)]
    by (intro exI[of _ m'] exI[of _ c'] exI[of _ d'] exI[of _ bs'] exI[of _ cs']) auto
qed


text \<open>The region a flush may need, for a tree of height \<open>d\<close>: a buffer has at most 12 pairs.\<close>

definition flush_room :: "nat \<Rightarrow> nat" where
  "flush_room d = 12 * ((d + 14) * node_size)"

lemma kv_wf_max: "kv_wf b \<Longrightarrow> max_entries b \<le> 12" "kv_wf b \<Longrightarrow> 7 \<le> max_entries b"
proof -
  assume w: "kv_wf b"
  then consider "suffix_bytes b = 1" | "suffix_bytes b = 2" | "suffix_bytes b = 3" | "suffix_bytes b = 4"
    | "suffix_bytes b = 5" | "suffix_bytes b = 6" | "suffix_bytes b = 7" | "suffix_bytes b = 8"
    unfolding kv_wf_def by linarith
  then show "max_entries b \<le> 12" "7 \<le> max_entries b"
    using w by (cases; simp add: kv_wf_def kv_max_entries_def kv_buf_size_def kv_value_size_def)+
qed

lemma kv_clear_items [simp]: "kv_items p (kv_clear b) = []"
  by (simp add: kv_items_def kv_clear_def)

lemma kv_clear_wf: "kv_wf b \<Longrightarrow> kv_wf (kv_clear b)"
  by (simp add: kv_wf_def kv_clear_def kv_max_entries_def)

lemma be_flush_own:
  assumes "be_own m e d as cs" "cur_addr m + flush_room d < end_addr m"
  shows "\<exists>m' c d' bs cs'. be_flush m e = Some (m', e\<lparr>be_clevel := c, be_buf := kv_clear (be_buf e)\<rparr>) \<and>
    be_own m' (e\<lparr>be_clevel := c, be_buf := kv_clear (be_buf e)\<rparr>) d' bs cs' \<and> region_step as m bs m' \<and>
    map_of (be_items (e\<lparr>be_clevel := c, be_buf := kv_clear (be_buf e)\<rparr>) cs') = map_of (be_items e cs) \<and>
    d' \<le> d + 12 \<and> cur_addr m' \<le> cur_addr m + flush_room d \<and> cl_has_setup c"
proof -
  let ?b = "be_buf e" and ?p = "be_key e"
  let ?xs = "kv_items ?p ?b"
  have w: "kv_wf ?b" and dx: "distinct (map fst ?xs)" "distinct (map fst (?xs @ cs))" and r: "region_ok m"
    using assms(1) by (simp_all add: be_own_def be_items_def)
  define G where "G m' c d' bs cs' \<longleftrightarrow> cl_own ?p (suffix_bytes ?b) m' c d' bs cs' \<and> region_step as m bs m' \<and>
    map_of cs' = map_of (?xs @ cs) \<and> d' \<le> d + 12 \<and> cur_addr m' \<le> cur_addr m + flush_room d" for m' c d' bs cs'
  have "\<exists>m' c d' bs cs'. (if \<not> cl_has_setup (be_clevel e) then cl_setup_kv m ?b
      else be_flush_loop m (be_clevel e) ?b ?p [0..<entries ?b]) = Some (m', c) \<and> G m' c d' bs cs'"
  proof (cases "cl_has_setup (be_clevel e)")
    case True
    then have o: "cl_own ?p (suffix_bytes ?b) m (be_clevel e) d as cs" using assms(1) by (simp add: be_own_def)
    have fits: "be_fits e (kv_key ?b i ?p)" for i
      unfolding be_fits_def kv_key_def using w
      by (intro same_prefix_sym[OF slot_key_same_prefix]) (simp add: kv_wf_def)
    have n: "entries ?b \<le> 12" using kv_wf_max(1)[OF w] w by (simp add: kv_wf_def)
    have le: "entries ?b * ((d + entries ?b + 2) * node_size) \<le> flush_room d"
      unfolding flush_room_def using n by (intro mult_le_mono mult_le_mono1) auto
    obtain m' c' d' bs cs' where L: "be_flush_loop m (be_clevel e) ?b ?p [0..<entries ?b] = Some (m', c')"
      "cl_own ?p (suffix_bytes ?b) m' c' d' bs cs'" "region_step as m bs m'" "d' \<le> d + entries ?b"
      "map_of cs' = map_of cs ++ map_of (rev ?xs)"
      "cur_addr m' \<le> cur_addr m + entries ?b * ((d + entries ?b + 2) * node_size)"
    proof -
      have "cur_addr m + length [0..<entries ?b] * ((d + length [0..<entries ?b] + 2) * node_size) < end_addr m"
        using le assms(2) by simp
      moreover have "\<forall>i \<in> set [0..<entries ?b]. i < entries ?b \<and> be_fits e (kv_key ?b i ?p)" using fits by simp
      ultimately show ?thesis
        using be_flush_loop_own[OF o assms(1) refl, of "[0..<entries ?b]", folded kv_items_def] that
        by (simp only: length_upt diff_zero) blast
    qed
    have "map_of (rev ?xs) = map_of ?xs" using dx(1) by (intro map_of_eq_set) (simp_all flip: rev_map)
    then have "G m' c' d' bs cs'" using L(2-6) le n by (simp add: G_def)
    then show ?thesis using True L(1) by auto
  next
    case False
    then have z: "d = 0" "as = {}" "cs = []" "entries ?b < max_entries ?b" using assms(1) by (simp_all add: be_own_def)
    have "cur_addr m + node_size < end_addr m" using assms(2) by (simp add: flush_room_def node_size_def)
    from cl_setup_kv_own[OF w z(4) dx(1) r this] obtain m' c where S: "cl_setup_kv m ?b = Some (m', c)"
      "cl_own ?p (suffix_bytes ?b) m' c 0 {cur_addr m} (sort_key fst ?xs)"
      "region_step {} m {cur_addr m} m'" "cur_addr m' = cur_addr m + node_size" by blast
    have "map_of (sort_key fst ?xs) = map_of ?xs"
      using dx(1) keys_sorted_distinct[OF cl_own_sorted[OF S(2)]] by (intro map_of_eq_set) simp_all
    then have "G m' c 0 {cur_addr m} (sort_key fst ?xs)"
      using S z by (simp add: G_def flush_room_def node_size_def)
    then show ?thesis using S(1) False by auto
  qed
  then obtain m' c d' bs cs' where S: "(if \<not> cl_has_setup (be_clevel e) then cl_setup_kv m ?b
      else be_flush_loop m (be_clevel e) ?b ?p [0..<entries ?b]) = Some (m', c)" "G m' c d' bs cs'" by blast
  then have o: "cl_own ?p (suffix_bytes ?b) m' c d' bs cs'" by (simp add: G_def)
  have "be_flush m e = Some (m', e\<lparr>be_clevel := c, be_buf := kv_clear ?b\<rparr>)" unfolding be_flush_def S(1) by simp
  moreover have "be_own m' (e\<lparr>be_clevel := c, be_buf := kv_clear ?b\<rparr>) d' bs cs'"
    using o w cl_own_region[OF o] cl_own_setup[OF o] keys_sorted_distinct[OF cl_own_sorted[OF o]]
    by (simp add: be_own_def be_items_def kv_clear_wf) (simp add: kv_clear_def)
  ultimately show ?thesis using S(2) cl_own_setup[OF o]
    by (intro exI[of _ m'] exI[of _ c] exI[of _ d'] exI[of _ bs] exI[of _ cs'])
      (simp add: G_def be_items_def)
qed

lemma be_append_own:
  assumes "be_own m e d as cs" "be_fits e k" "map_of (be_items e cs) k = None" "\<not> kv_full (be_buf e)"
    "cl_has_setup (be_clevel e) \<or> Suc (entries (be_buf e)) < max_entries (be_buf e)"
  shows "be_own m (e\<lparr>be_buf := kv_put_append (be_buf e) (entries (be_buf e)) k v\<rparr>) d as cs"
    "map_of (be_items (e\<lparr>be_buf := kv_put_append (be_buf e) (entries (be_buf e)) k v\<rparr>) cs) =
      (map_of (be_items e cs))(k \<mapsto> v)"
proof -
  let ?e = "e\<lparr>be_buf := kv_put_append (be_buf e) (entries (be_buf e)) k v\<rparr>"
  have w: "kv_wf (be_buf e)" "same_prefix (prefix_bytes (be_buf e)) (be_key e) k"
    using assms(1,2) by (simp_all add: be_own_def be_fits_def)
  note put = kv_put_append_refines[OF w(1) assms(4) w(2), of v]
  have kn: "k \<notin> fst ` set (be_items e cs)" using assms(3) by (simp add: map_of_eq_None_iff)
  have it: "be_items ?e cs = kv_items (be_key e) (be_buf e) @ (k, v) # cs" by (simp add: be_items_def put(2))
  have "entries (be_buf ?e) = Suc (entries (be_buf e))" using arg_cong[OF put(2), of length] by simp
  moreover have "suffix_bytes (be_buf ?e) = suffix_bytes (be_buf e)" "max_entries (be_buf ?e) = max_entries (be_buf e)"
    by (simp_all add: kv_put_append_def Let_def)
  moreover have "distinct (map fst (be_items ?e cs))" using assms(1) kn unfolding it by (auto simp: be_own_def be_items_def)
  ultimately show "be_own m ?e d as cs" using assms(1,5) put(1) by (auto simp: be_own_def)
  have "map_of (kv_items (be_key e) (be_buf e)) k = None" using kn by (simp add: be_items_def map_of_eq_None_iff image_Un)
  then show "map_of (be_items ?e cs) = (map_of (be_items e cs))(k \<mapsto> v)"
    unfolding it by (simp add: be_items_def map_add_upd_left domIff)
qed

lemma be_put_own:
  assumes "be_own m e d as cs" "be_fits e k" "map_of (be_items e cs) k = None"
    "cur_addr m + flush_room d < end_addr m"
  shows "\<exists>m' e' d' bs cs'. be_put m e k v = Some (m', e', OK) \<and> be_own m' e' d' bs cs' \<and>
    map_of (be_items e' cs') = (map_of (be_items e cs))(k \<mapsto> v) \<and> region_step as m bs m' \<and>
    be_key e' = be_key e \<and> prefix_bytes (be_buf e') = prefix_bytes (be_buf e) \<and> d' \<le> d + 12 \<and>
    cur_addr m' \<le> cur_addr m + flush_room d"
proof -
  let ?full = "(\<not> cl_has_setup (be_clevel e) \<and> int (entries (be_buf e)) = int (max_entries (be_buf e)) - 1) \<or>
                       kv_full (be_buf e)"
  have w: "kv_wf (be_buf e)" using assms(1) by (simp add: be_own_def)
  have pre: "prefix_bytes (kv_put_append b n k v) = prefix_bytes b" for b n by (simp add: kv_put_append_def Let_def)
  define K where "K e1 = e1\<lparr>be_buf := kv_put_append (be_buf e1) (entries (be_buf e1)) k v\<rparr>" for e1 :: bentry
  show ?thesis
  proof (cases ?full)
    case True
    obtain m' c d' bs cs' where F: "be_flush m e = Some (m', e\<lparr>be_clevel := c, be_buf := kv_clear (be_buf e)\<rparr>)"
      "be_own m' (e\<lparr>be_clevel := c, be_buf := kv_clear (be_buf e)\<rparr>) d' bs cs'" "region_step as m bs m'"
      "map_of (be_items (e\<lparr>be_clevel := c, be_buf := kv_clear (be_buf e)\<rparr>) cs') = map_of (be_items e cs)"
      "d' \<le> d + 12" "cur_addr m' \<le> cur_addr m + flush_room d" "cl_has_setup c"
      using be_flush_own[OF assms(1,4)] by blast
    define e1 where "e1 = e\<lparr>be_clevel := c, be_buf := kv_clear (be_buf e)\<rparr>"
    have e1: "be_own m' e1 d' bs cs'" "be_fits e1 k" "map_of (be_items e1 cs') k = None" "\<not> kv_full (be_buf e1)"
      "cl_has_setup (be_clevel e1)" "be_key e1 = be_key e" "prefix_bytes (be_buf e1) = prefix_bytes (be_buf e)"
      using F(2,4,7) assms(2,3) kv_wf_max(2)[OF w] by (simp_all add: e1_def be_fits_def kv_full_def kv_clear_def)
    have "be_put m e k v = Some (m', K e1, OK)"
      unfolding be_put_def K_def using True F(1) by (simp only: if_True e1_def) simp
    then show ?thesis using be_append_own[OF e1(1-4) disjI1[OF e1(5)], of v, folded K_def] F(3-6) e1(6,7)
      by (intro exI[of _ m'] exI[of _ "K e1"] exI[of _ d'] exI[of _ bs] exI[of _ cs'])
        (simp add: K_def pre e1_def)
  next
    case False
    then have nf: "\<not> kv_full (be_buf e)" by simp
    moreover have "cl_has_setup (be_clevel e) \<or> Suc (entries (be_buf e)) < max_entries (be_buf e)"
      using False by (cases "cl_has_setup (be_clevel e)") (auto simp: kv_full_def)
    ultimately have "cl_has_setup (be_clevel e) \<or> Suc (entries (be_buf e)) < max_entries (be_buf e)" "\<not> kv_full (be_buf e)"
      by blast+
    note A = be_append_own[OF assms(1-3) this(2,1), of v, folded K_def]
    have "be_put m e k v = Some (m, K e, OK)" unfolding be_put_def K_def if_not_P[OF False] by simp
    moreover have "region_ok m" using assms(1) by (simp add: be_own_def)
    moreover have "be_key (K e) = be_key e" "prefix_bytes (be_buf (K e)) = prefix_bytes (be_buf e)"
      by (simp_all add: K_def pre)
    ultimately show ?thesis using A region_step_refl
      by (intro exI[of _ m] exI[of _ "K e"] exI[of _ d] exI[of _ as] exI[of _ cs]) simp
  qed
qed

lemma be_new_own:
  assumes "region_ok m" "prefix_len < 8" "length raw = kv_buf_size"
  shows "be_own m (be_new raw key prefix_len) 0 {} []" "be_items (be_new raw key prefix_len) [] = []"
proof -
  have b: "bits4 (int prefix_len) = prefix_len" "bits4 (8 - int prefix_len) = 8 - prefix_len"
    using assms(2) by (auto simp: bits4_def)
  define bf where "bf = \<lparr>prefix_bytes = prefix_len, suffix_bytes = 8 - prefix_len,
               entries = 0, max_entries = kv_max_entries \<lparr>prefix_bytes = prefix_len, suffix_bytes = 8 - prefix_len,
               entries = 0, max_entries = 0, kv_buf = raw\<rparr>, kv_buf = raw\<rparr>"
  have w: "kv_wf bf" using assms(2,3) by (simp add: bf_def kv_wf_def kv_max_entries_def)
  then have "bits4 (int (max_entries bf)) = max_entries bf" using kv_wf_max(1)[OF w] by (simp add: bits4_def)
  then have e: "be_new raw key prefix_len = \<lparr>be_key = key, be_clevel = cl_null, be_buf = bf\<rparr>"
    by (simp add: be_new_def b bf_def Let_def)
  show "be_items (be_new raw key prefix_len) [] = []" unfolding e by (simp add: be_items_def bf_def kv_items_def)
  then show "be_own m (be_new raw key prefix_len) 0 {} []"
    using w kv_wf_max(2)[OF w] assms(1) unfolding e
    by (simp add: be_own_def cl_null_def cl_has_setup_def) (simp add: bf_def)
qed

end
