(* ===== verification/BLevel.thy ===== *)
theory BLevel
  imports BEntry
begin

text \<open>
  \<^verbatim>\<open>src/blevel.h\<close>, \<^verbatim>\<open>src/blevel.cc\<close> in the default build (\<^verbatim>\<open>BRANGE\<close>, \<^verbatim>\<open>NO_ENTRY_BUF\<close>,
  four expansion threads, four pairs per entry): the B-level, an array of entries sorted by
  key.  The array is filled by four threads, so it consists of four runs (\<^verbatim>\<open>BRange\<close>) with
  gaps between them; a logical index counts the entries of all runs.

  This theory holds the state, the index arithmetic, the searches and the operations on
  pairs.  All operations here are sequential; the locks of the entries and the threads are in theory
  BLevelLocks.  \<open>None\<close> is a failed assertion or an access outside the array.
\<close>

definition expand_threads :: nat where "expand_threads = 4"
definition expand_buf_key :: nat where "expand_buf_key = 4"

record brange =
  start_key :: u64
  logical_start :: nat
  physical_start :: nat
  range_entries :: nat

text \<open>\<open>bl_entries\<close> is the mapped array (its length is \<^verbatim>\<open>physical_nr_entries_\<close>), \<open>bl_sizes\<close> the
  counters \<^verbatim>\<open>size_per_interval_\<close>; the counters are 64-bit words and wrap.\<close>

record blevel =
  bl_entries :: "nobuf_entry list"
  bl_nr :: nat
  bl_size :: u64
  bl_mem :: clmem
  bl_ranges :: "brange list"
  bl_interval_size :: nat
  bl_intervals :: "nat list"
  bl_sizes :: "u64 list list"

definition physical_nr :: "blevel \<Rightarrow> nat" where
  "physical_nr b = length (bl_entries b)"

definition bl_entry :: "blevel \<Rightarrow> nat \<Rightarrow> nobuf_entry option" where
  "bl_entry b i = (if i < physical_nr b then Some (bl_entries b ! i) else None)"

definition bl_phys_key :: "blevel \<Rightarrow> nat \<Rightarrow> u64" where
  "bl_phys_key b i = nb_key (bl_entries b ! i)"

definition bl_set_entry :: "blevel \<Rightarrow> nat \<Rightarrow> nobuf_entry \<Rightarrow> blevel" where
  "bl_set_entry b i e = b\<lparr>bl_entries := (bl_entries b)[i := e]\<rparr>"

subsection \<open>Ranges\<close>

fun range_down :: "(nat \<Rightarrow> bool) \<Rightarrow> nat \<Rightarrow> nat option" where
  "range_down P 0 = None"
| "range_down P (Suc i) = (if P i then Some i else range_down P i)"

definition find_brange :: "blevel \<Rightarrow> nat \<Rightarrow> nat option" where
  "find_brange b logical_idx =
     range_down (\<lambda>i. logical_idx \<ge> logical_start (bl_ranges b ! i)) expand_threads"

definition find_brange_by_key :: "blevel \<Rightarrow> u64 \<Rightarrow> nat option" where
  "find_brange_by_key b key =
     range_down (\<lambda>i. key \<ge> start_key (bl_ranges b ! i)) expand_threads"

text \<open>\<^verbatim>\<open>HasPrevPhyIdx\<close> and \<^verbatim>\<open>HasNextPhyIdx\<close>.  The second loop stops at the first range that starts
  below the index, so it always ends at range 0 or, for index 0, past the array.\<close>

definition has_prev_phy :: "blevel \<Rightarrow> nat \<Rightarrow> bool option" where
  "has_prev_phy b phy_idx =
     map_option (\<lambda>i. phy_idx \<noteq> physical_start (bl_ranges b ! i))
       (range_down (\<lambda>i. phy_idx \<ge> physical_start (bl_ranges b ! i)) expand_threads)"

fun range_up :: "(nat \<Rightarrow> bool) \<Rightarrow> nat list \<Rightarrow> nat \<Rightarrow> nat" where
  "range_up P [] d = d"
| "range_up P (i # is) d = (if P i then range_up P is d else i)"

definition has_next_phy :: "blevel \<Rightarrow> nat \<Rightarrow> bool option" where
  "has_next_phy b phy_idx =
     (let idx = range_up (\<lambda>i. phy_idx \<le> physical_start (bl_ranges b ! i)) [0..<expand_threads] expand_threads
      in if idx = 0 then None
         else let r = bl_ranges b ! (idx - 1) in
           Some (int phy_idx - int (physical_start r) \<noteq> int (range_entries r)))"

definition get_physical :: "brange \<Rightarrow> nat \<Rightarrow> int" where
  "get_physical r logical_idx = int (physical_start r) + (int logical_idx - int (logical_start r))"

definition get_physical_logical :: "blevel \<Rightarrow> nat \<Rightarrow> int option" where
  "get_physical_logical b logical_idx =
     map_option (\<lambda>i. get_physical (bl_ranges b ! i) logical_idx) (find_brange b logical_idx)"

definition get_logical :: "brange \<Rightarrow> nat \<Rightarrow> int" where
  "get_logical r physical_idx = int (logical_start r) + (int physical_idx - int (physical_start r))"

definition entry_key :: "blevel \<Rightarrow> nat \<Rightarrow> u64 option" where
  "entry_key b logical_idx =
     (case get_physical_logical b logical_idx of
        Some i \<Rightarrow> map_option nb_key (bl_entry b (nat i))
      | None \<Rightarrow> None)"

subsection \<open>Searching an entry\<close>

text \<open>The two one-step scans of \<^verbatim>\<open>Find_\<close>: \<open>scan_up\<close> returns \<open>left\<close>, \<open>scan_down\<close> returns \<open>right\<close>.\<close>

function scan_up :: "(nat \<Rightarrow> 'k::linorder) \<Rightarrow> 'k \<Rightarrow> int \<Rightarrow> int \<Rightarrow> int" where
  "scan_up f t l r = (if l \<le> r \<and> f (nat l) \<le> t then scan_up f t (l + 1) r else l)"
  by pat_completeness auto
termination by (relation "measure (\<lambda>(f, t, l, r). nat (r - l + 1))") auto

function scan_down :: "(nat \<Rightarrow> 'k::linorder) \<Rightarrow> 'k \<Rightarrow> int \<Rightarrow> int \<Rightarrow> int" where
  "scan_down f t l r = (if l \<le> r \<and> t < f (nat r) then scan_down f t l (r - 1) else r)"
  by pat_completeness auto
termination by (relation "measure (\<lambda>(f, t, l, r). nat (r - l + 1))") auto

declare scan_up.simps [simp del] scan_down.simps [simp del]

text \<open>The physical window of \<^verbatim>\<open>Find_\<close> for a logical one, and what \<^verbatim>\<open>Find_\<close> does with it.\<close>

definition range_last :: "brange \<Rightarrow> int" where
  "range_last r = int (physical_start r) + int (range_entries r) - 1"

definition find_window :: "blevel \<Rightarrow> nat \<Rightarrow> nat \<Rightarrow> nat \<Rightarrow> int \<times> int" where
  "find_window b i begin_idx end_idx =
     (let r = bl_ranges b ! i in
      (if begin_idx \<ge> logical_start r then get_physical r begin_idx else int (physical_start r),
       if end_idx < logical_start (bl_ranges b ! (i + 1)) then get_physical r end_idx else range_last r))"

definition find_in :: "(nat \<Rightarrow> 'k::linorder) \<Rightarrow> 'k \<Rightarrow> int \<Rightarrow> int \<Rightarrow> int" where
  "find_in f key left right =
     (let middle = (left + right) div 2;
          mid_key = f (nat middle)
      in if mid_key = key then middle
         else if mid_key < key then scan_up f key (middle + 1) right - 1
         else scan_down f key left (middle - 1))"

text \<open>\<^verbatim>\<open>Find_\<close>: the physical index and the place of the interval counter.\<close>

definition interval_of :: "blevel \<Rightarrow> nat \<Rightarrow> int \<Rightarrow> nat \<times> nat" where
  "interval_of b i idx =
     (i, nat ((idx - int (physical_start (bl_ranges b ! i))) div int (bl_interval_size b)))"

definition bl_find :: "blevel \<Rightarrow> u64 \<Rightarrow> nat \<Rightarrow> nat \<Rightarrow> (int \<times> (nat \<times> nat)) option" where
  "bl_find b key begin_idx end_idx =
     do {
       target_range \<leftarrow> find_brange_by_key b key;
       let (left, right) = find_window b target_range begin_idx end_idx;
       if 0 \<le> left \<and> 0 \<le> right \<and> max ((left + right) div 2) right < int (physical_nr b) then do {
         let idx = find_in (bl_phys_key b) key left right;
         Some (idx, interval_of b target_range idx)
       } else None
     }"

text \<open>The clipped start position of \<^verbatim>\<open>FindNearPos_\<close> and \<^verbatim>\<open>NearPosRange_\<close>.\<close>

definition clip_pos :: "blevel \<Rightarrow> nat \<Rightarrow> nat \<Rightarrow> int" where
  "clip_pos b i pos =
     (if pos < logical_start (bl_ranges b ! (i + 1)) then get_physical (bl_ranges b ! i) pos
      else range_last (bl_ranges b ! i))"

function near_up :: "(nat \<Rightarrow> 'k::linorder) \<Rightarrow> 'k \<Rightarrow> int \<Rightarrow> int \<Rightarrow> int" where
  "near_up f t pos e = (if pos < e \<and> f (nat (pos + 1)) \<le> t then near_up f t (pos + 1) e else pos)"
  by pat_completeness auto
termination by (relation "measure (\<lambda>(f, t, pos, e). nat (e - pos))") auto

function near_down :: "(nat \<Rightarrow> 'k::linorder) \<Rightarrow> 'k \<Rightarrow> int \<Rightarrow> int \<Rightarrow> int" where
  "near_down f t b pos = (if b < pos \<and> t < f (nat pos) then near_down f t b (pos - 1) else pos)"
  by pat_completeness auto
termination by (relation "measure (\<lambda>(f, t, b, pos). nat (pos - b))") auto

declare near_up.simps [simp del] near_down.simps [simp del]

definition near_in :: "(nat \<Rightarrow> 'k::linorder) \<Rightarrow> 'k \<Rightarrow> int \<Rightarrow> int \<Rightarrow> int \<Rightarrow> int" where
  "near_in f key first_pos last_pos pos =
     (if f (nat pos) \<le> key then near_up f key pos last_pos else near_down f key first_pos (pos - 1))"

definition bl_find_near :: "blevel \<Rightarrow> u64 \<Rightarrow> nat \<Rightarrow> (int \<times> (nat \<times> nat)) option" where
  "bl_find_near b key pos =
     do {
       target_range \<leftarrow> find_brange_by_key b key;
       let p = clip_pos b target_range pos;
       let r = bl_ranges b ! target_range;
       if 0 \<le> p \<and> p < int (physical_nr b) \<and> range_last r < int (physical_nr b) then do {
         let idx = near_in (bl_phys_key b) key (int (physical_start r)) (range_last r) p;
         Some (idx, interval_of b target_range idx)
       } else None
     }"

text \<open>\<^verbatim>\<open>NearPosRange_\<close>: the exponential search around the position.\<close>

function gallop_up :: "(nat \<Rightarrow> 'k::linorder) \<Rightarrow> 'k \<Rightarrow> int \<Rightarrow> nat \<Rightarrow> int \<Rightarrow> int \<Rightarrow> int \<times> int" where
  "gallop_up f t e step l r =
     (if r < e \<and> f (nat r) \<le> t \<and> 0 < step then gallop_up f t e (step * 2) r (r + int (step * 2))
      else (l, r))"
  by pat_completeness auto
termination by (relation "measure (\<lambda>(f, t, e, step, l, r). nat (e - r))") auto

function gallop_down :: "(nat \<Rightarrow> 'k::linorder) \<Rightarrow> 'k \<Rightarrow> nat \<Rightarrow> int \<Rightarrow> int \<Rightarrow> int \<times> int" where
  "gallop_down f t step l r =
     (if 0 \<le> l \<and> t < f (nat l) \<and> 0 < step then gallop_down f t (step * 2) (l - int (step * 2)) l
      else (l, r))"
  by pat_completeness auto
termination by (relation "measure (\<lambda>(f, t, step, l, r). nat (l + 1))") auto

declare gallop_up.simps [simp del] gallop_down.simps [simp del]

definition near_range_in :: "(nat \<Rightarrow> 'k::linorder) \<Rightarrow> 'k \<Rightarrow> int \<Rightarrow> int \<Rightarrow> int \<times> int" where
  "near_range_in f key last_pos pos =
     (let (l, r) = (if f (nat pos) \<le> key
                    then let (l, r) = gallop_up f key last_pos 1 pos (pos + 1) in (l, min r last_pos)
                    else let (l, r) = gallop_down f key 1 (pos - 1) pos in (max l 0, r))
      in (min l r, r))"

definition bl_near_range :: "blevel \<Rightarrow> u64 \<Rightarrow> nat \<Rightarrow> (int \<times> int \<times> int) option" where
  "bl_near_range b key pos =
     do {
       target_range \<leftarrow> find_brange_by_key b key;
       let p = clip_pos b target_range pos;
       let e = range_last (bl_ranges b ! target_range);
       if 0 \<le> p \<and> p < int (physical_nr b) \<and> e < int (physical_nr b)
       then Some (p, near_range_in (bl_phys_key b) key e p) else None
     }"

text \<open>\<^verbatim>\<open>BinarySearch_\<close> and \<^verbatim>\<open>FindByRange_\<close>: both return \<open>right\<close> when the key is not there.\<close>

function bsearch_le :: "(nat \<Rightarrow> 'k::linorder) \<Rightarrow> 'k \<Rightarrow> int \<Rightarrow> int \<Rightarrow> int" where
  "bsearch_le f t l r =
     (if l \<le> r then
        let m = (l + r) div 2; mid_key = f (nat m) in
        if mid_key = t then m
        else if mid_key < t then bsearch_le f t (m + 1) r
        else bsearch_le f t l (m - 1)
      else r)"
  by pat_completeness auto
termination by (relation "measure (\<lambda>(f, t, l, r). nat (r - l + 1))") auto

declare bsearch_le.simps [simp del]

definition bl_binary_search :: "blevel \<Rightarrow> u64 \<Rightarrow> nat \<Rightarrow> nat \<Rightarrow> int option" where
  "bl_binary_search b key begin_idx end_idx =
     (if end_idx < physical_nr b
      then Some (bsearch_le (bl_phys_key b) key (int begin_idx) (int end_idx)) else None)"

definition bl_find_by_range :: "blevel \<Rightarrow> u64 \<Rightarrow> nat \<Rightarrow> nat \<Rightarrow> (int \<times> (nat \<times> nat)) option" where
  "bl_find_by_range b key i end_idx =
     (if end_idx < physical_nr b then
        let idx = bsearch_le (bl_phys_key b) key (int (physical_start (bl_ranges b ! i))) (int end_idx)
        in Some (idx, interval_of b i idx)
      else None)"

subsection \<open>Operations on pairs\<close>

definition add_interval :: "blevel \<Rightarrow> nat \<times> nat \<Rightarrow> u64 \<Rightarrow> blevel option" where
  "add_interval b ij d =
     (let (i, j) = ij in
      if i < length (bl_sizes b) \<and> j < length (bl_sizes b ! i)
      then Some (b\<lparr>bl_sizes := (bl_sizes b)[i := (bl_sizes b ! i)[j := bl_sizes b ! i ! j + d]]\<rparr>)
      else None)"

definition bl_put_at :: "blevel \<Rightarrow> u64 \<Rightarrow> u64 \<Rightarrow> int \<Rightarrow> nat \<times> nat \<Rightarrow> (blevel \<times> status) option" where
  "bl_put_at b key value idx interval =
     do {
       e \<leftarrow> (if 0 \<le> idx then bl_entry b (nat idx) else None);
       if \<not> nb_is_valid e then Some (b, Failed)
       else do {
         (m1, e1, ret) \<leftarrow> nb_put (bl_mem b) e key value;
         let b1 = bl_set_entry (b\<lparr>bl_mem := m1, bl_size := bl_size b + 1\<rparr>) (nat idx) e1;
         b2 \<leftarrow> add_interval b1 interval 1;
         Some (b2, ret)
       }
     }"

definition bl_update_at :: "blevel \<Rightarrow> u64 \<Rightarrow> u64 \<Rightarrow> int \<Rightarrow> (blevel \<times> bool) option" where
  "bl_update_at b key value idx =
     do {
       e \<leftarrow> (if 0 \<le> idx then bl_entry b (nat idx) else None);
       if \<not> nb_is_valid e then Some (b, False)
       else do {
         (m1, ret) \<leftarrow> nb_update (bl_mem b) e key value;
         Some (b\<lparr>bl_mem := m1\<rparr>, ret)
       }
     }"

definition bl_get_at :: "blevel \<Rightarrow> u64 \<Rightarrow> int \<Rightarrow> (u64 option) option" where
  "bl_get_at b key idx =
     do {
       e \<leftarrow> (if 0 \<le> idx then bl_entry b (nat idx) else None);
       if \<not> nb_is_valid e then Some None else nb_get (bl_mem b) e key
     }"

text \<open>\<^verbatim>\<open>Delete_\<close> drops the result of the entry and reports success.\<close>

definition bl_delete_at :: "blevel \<Rightarrow> u64 \<Rightarrow> int \<Rightarrow> nat \<times> nat \<Rightarrow> (blevel \<times> bool \<times> u64 option) option" where
  "bl_delete_at b key idx interval =
     do {
       e \<leftarrow> (if 0 \<le> idx then bl_entry b (nat idx) else None);
       if \<not> nb_is_valid e then Some (b, False, None)
       else do {
         (m1, _, val) \<leftarrow> nb_delete (bl_mem b) e key;
         b1 \<leftarrow> add_interval (b\<lparr>bl_mem := m1, bl_size := bl_size b - 1\<rparr>) interval (- 1);
         Some (b1, True, val)
       }
     }"

definition bl_put :: "blevel \<Rightarrow> u64 \<Rightarrow> u64 \<Rightarrow> nat \<Rightarrow> nat \<Rightarrow> (blevel \<times> status) option" where
  "bl_put b key value begin_idx end_idx =
     do { (idx, iv) \<leftarrow> bl_find b key begin_idx end_idx; bl_put_at b key value idx iv }"

definition bl_update :: "blevel \<Rightarrow> u64 \<Rightarrow> u64 \<Rightarrow> nat \<Rightarrow> nat \<Rightarrow> (blevel \<times> bool) option" where
  "bl_update b key value begin_idx end_idx =
     do { (idx, _) \<leftarrow> bl_find b key begin_idx end_idx; bl_update_at b key value idx }"

definition bl_get :: "blevel \<Rightarrow> u64 \<Rightarrow> nat \<Rightarrow> nat \<Rightarrow> (u64 option) option" where
  "bl_get b key begin_idx end_idx =
     do { (idx, _) \<leftarrow> bl_find b key begin_idx end_idx; bl_get_at b key idx }"

definition bl_delete :: "blevel \<Rightarrow> u64 \<Rightarrow> nat \<Rightarrow> nat \<Rightarrow> (blevel \<times> bool \<times> u64 option) option" where
  "bl_delete b key begin_idx end_idx =
     do { (idx, iv) \<leftarrow> bl_find b key begin_idx end_idx; bl_delete_at b key idx iv }"

definition bl_put_near :: "blevel \<Rightarrow> u64 \<Rightarrow> u64 \<Rightarrow> nat \<Rightarrow> (blevel \<times> status) option" where
  "bl_put_near b key value pos =
     do { (idx, iv) \<leftarrow> bl_find_near b key pos; bl_put_at b key value idx iv }"

definition bl_update_near :: "blevel \<Rightarrow> u64 \<Rightarrow> u64 \<Rightarrow> nat \<Rightarrow> (blevel \<times> bool) option" where
  "bl_update_near b key value pos =
     do { (idx, _) \<leftarrow> bl_find_near b key pos; bl_update_at b key value idx }"

definition bl_get_near :: "blevel \<Rightarrow> u64 \<Rightarrow> nat \<Rightarrow> (u64 option) option" where
  "bl_get_near b key pos =
     do { (idx, _) \<leftarrow> bl_find_near b key pos; bl_get_at b key idx }"

definition bl_delete_near :: "blevel \<Rightarrow> u64 \<Rightarrow> nat \<Rightarrow> (blevel \<times> bool \<times> u64 option) option" where
  "bl_delete_near b key pos =
     do { (idx, iv) \<leftarrow> bl_find_near b key pos; bl_delete_at b key idx iv }"

text \<open>The operations on a range that is being expanded.  \<^verbatim>\<open>PutRange\<close> searches with
  \<^verbatim>\<open>FindByRange_\<close>; the other three pass the number of the range to \<^verbatim>\<open>Find_\<close> as the first
  logical index of the window, and a physical index as the last.\<close>

definition bl_put_range :: "blevel \<Rightarrow> u64 \<Rightarrow> u64 \<Rightarrow> nat \<Rightarrow> nat \<Rightarrow> (blevel \<times> status) option" where
  "bl_put_range b key value i end_idx =
     do { (idx, iv) \<leftarrow> bl_find_by_range b key i end_idx; bl_put_at b key value idx iv }"

definition bl_update_range :: "blevel \<Rightarrow> u64 \<Rightarrow> u64 \<Rightarrow> nat \<Rightarrow> nat \<Rightarrow> (blevel \<times> bool) option" where
  "bl_update_range b key value i end_idx =
     do { (idx, _) \<leftarrow> bl_find b key i end_idx; bl_update_at b key value idx }"

definition bl_get_range :: "blevel \<Rightarrow> u64 \<Rightarrow> nat \<Rightarrow> nat \<Rightarrow> (u64 option) option" where
  "bl_get_range b key i end_idx =
     do { (idx, _) \<leftarrow> bl_find b key i end_idx; bl_get_at b key idx }"

definition bl_delete_range :: "blevel \<Rightarrow> u64 \<Rightarrow> nat \<Rightarrow> nat \<Rightarrow> (blevel \<times> bool \<times> u64 option) option" where
  "bl_delete_range b key i end_idx =
     do { (idx, iv) \<leftarrow> bl_find b key i end_idx; bl_delete_at b key idx iv }"

subsection \<open>Statistics\<close>

text \<open>\<^verbatim>\<open>CountCLevel\<close> reads the physical slots below the number of logical entries.\<close>

definition count_clevel :: "blevel \<Rightarrow> nat" where
  "count_clevel b = length (filter (\<lambda>e. cl_has_setup (nb_clevel e)) (take (bl_nr b) (bl_entries b)))"

definition prefix_counts :: "blevel \<Rightarrow> nat list" where
  "prefix_counts b = map (\<lambda>s. length (filter (\<lambda>e. nb_suffix e = s) (take (bl_nr b) (bl_entries b)))) [0..<9]"

definition bl_usage :: "blevel \<Rightarrow> nat" where
  "bl_usage b = cl_usage (bl_mem b) + physical_nr b * 16"

end
