(* ===== verification/BLevelSearch.thy ===== *)
theory BLevelSearch
  imports BLevel
begin

text \<open>
  The searches of the B-level find the entry of a key: the last live entry whose key is not
  greater.  \<open>le_pos\<close> is that position within one range, and each search loop is shown to
  return it.  \<open>bl_shape\<close> is the invariant of the ranges; under it \<^verbatim>\<open>Find_\<close> is right for every
  window that contains the entry and \<^verbatim>\<open>FindNearPos_\<close> for every predicted position, however
  wrong, that is not left of the range of the key.
\<close>

subsection \<open>The loops\<close>

definition le_pos :: "(nat \<Rightarrow> 'k::linorder) \<Rightarrow> 'k \<Rightarrow> int \<Rightarrow> int \<Rightarrow> int \<Rightarrow> bool" where
  "le_pos f t lo hi p \<longleftrightarrow> lo - 1 \<le> p \<and> p \<le> hi \<and> (\<forall>i. lo \<le> i \<and> i \<le> p \<longrightarrow> f (nat i) \<le> t) \<and>
     (\<forall>i. p < i \<and> i \<le> hi \<longrightarrow> t < f (nat i))"

definition strict_on :: "(nat \<Rightarrow> 'k::linorder) \<Rightarrow> int \<Rightarrow> int \<Rightarrow> bool" where
  "strict_on f lo hi \<longleftrightarrow> (\<forall>i j. lo \<le> i \<and> i < j \<and> j \<le> hi \<longrightarrow> f (nat i) < f (nat j))"

lemma le_pos_le: "le_pos f t lo hi p \<Longrightarrow> lo \<le> i \<Longrightarrow> i \<le> hi \<Longrightarrow> f (nat i) \<le> t \<longleftrightarrow> i \<le> p"
  unfolding le_pos_def by (meson leD not_le_imp_less)

lemma le_pos_hit:
  assumes "le_pos f t lo hi p" "strict_on f lo hi" "lo \<le> i" "i \<le> hi" "f (nat i) = t"
  shows "i = p"
proof -
  have "i \<le> p" using le_pos_le[OF assms(1,3,4)] assms(5) by simp
  moreover have "\<not> i < p"
  proof
    assume "i < p"
    then have "f (nat i) < f (nat p)" using assms(1-3) unfolding strict_on_def le_pos_def by blast
    moreover have "f (nat p) \<le> t" using le_pos_le[OF assms(1), of p] assms(1,3) \<open>i < p\<close> by (simp add: le_pos_def)
    ultimately show False using assms(5) by simp
  qed
  ultimately show ?thesis by simp
qed

lemma le_pos_unique: "le_pos f t lo hi p \<Longrightarrow> le_pos f t lo hi q \<Longrightarrow> p = q"
proof (induction p q rule: linorder_wlog)
  case (le p q)
  show ?case
  proof (rule ccontr)
    assume "p \<noteq> q"
    then have "t < f (nat q)" "f (nat q) \<le> t" using le by (auto simp: le_pos_def)
    then show False by simp
  qed
qed auto

lemma scan_up_eq:
  assumes "l \<le> p + 1" "p \<le> r" "\<forall>i. l \<le> i \<and> i \<le> p \<longrightarrow> f (nat i) \<le> t" "p < r \<longrightarrow> t < f (nat (p + 1))"
  shows "scan_up f t l r = p + 1"
  using assms
proof (induction f t l r rule: scan_up.induct)
  case (1 f t l r)
  show ?case
  proof (cases "l \<le> p")
    case True
    then have "f (nat l) \<le> t" "l \<le> r" using "1.prems" by auto
    then show ?thesis using "1.IH" "1.prems" True by (subst scan_up.simps) auto
  next
    case False
    then have "l = p + 1" using "1.prems"(1) by simp
    then show ?thesis using "1.prems" by (subst scan_up.simps) (auto simp: not_le)
  qed
qed

lemma scan_down_eq:
  assumes "l - 1 \<le> p" "p \<le> r" "\<forall>i. p < i \<and> i \<le> r \<longrightarrow> t < f (nat i)" "l \<le> p \<longrightarrow> f (nat p) \<le> t"
  shows "scan_down f t l r = p"
  using assms
proof (induction f t l r rule: scan_down.induct)
  case (1 f t l r)
  show ?case
  proof (cases "p < r")
    case True
    then have "t < f (nat r)" "l \<le> r" using "1.prems" by auto
    then show ?thesis using "1.IH" "1.prems" True by (subst scan_down.simps) auto
  next
    case False
    then have "p = r" using "1.prems"(2) by simp
    then show ?thesis using "1.prems" by (subst scan_down.simps) (auto simp: not_less)
  qed
qed

text \<open>One binary step, then a linear scan: right for any window around the position, and also
  when the position is one left of it.\<close>

lemma find_in_correct:
  assumes "le_pos f t lo hi p" "strict_on f lo hi" "lo \<le> left" "lo \<le> p" "right \<le> hi"
    "left - 1 \<le> p" "p \<le> right"
  shows "find_in f t left right = p"
proof -
  define m where "m = (left + right) div 2"
  have m: "left - 1 \<le> m" "m \<le> right" "lo \<le> m" using assms(3,4,6,7) by (auto simp: m_def)
  note le = le_pos_le[OF assms(1)]
  consider "f (nat m) = t" | "f (nat m) < t" | "t < f (nat m)" by fastforce
  then show ?thesis
  proof cases
    case 1
    then show ?thesis using le_pos_hit[OF assms(1,2), of m] m assms by (simp add: find_in_def m_def Let_def)
  next
    case 2
    then have "m \<le> p" using le[of m] m assms less_imp_le[OF 2] by simp
    then have "scan_up f t (m + 1) right = p + 1"
      using assms m by (intro scan_up_eq) (auto simp: le_pos_def)
    then show ?thesis using 2 by (auto simp: find_in_def m_def Let_def)
  next
    case 3
    then have "p < m" using le[of m] m assms 3 by (auto simp: not_le[symmetric])
    then have "scan_down f t left (m - 1) = p"
      using assms m by (intro scan_down_eq) (auto simp: le_pos_def)
    then have sd: "scan_down f t left (m - 1) = p" .
    have "\<not> f (nat m) < t" "f (nat m) \<noteq> t" using 3 by auto
    then show ?thesis using sd by (simp add: find_in_def m_def[symmetric] Let_def)
  qed
qed

lemma near_up_eq:
  assumes "pos \<le> p" "p \<le> e" "\<forall>i. pos < i \<and> i \<le> p \<longrightarrow> f (nat i) \<le> t" "p < e \<longrightarrow> t < f (nat (p + 1))"
  shows "near_up f t pos e = p"
  using assms
proof (induction f t pos e rule: near_up.induct)
  case (1 f t pos e)
  show ?case
  proof (cases "pos < p")
    case True
    then have "f (nat (pos + 1)) \<le> t" "pos < e" using "1.prems" by auto
    then show ?thesis using "1.IH" "1.prems" True by (subst near_up.simps) auto
  next
    case False
    then have "pos = p" using "1.prems"(1) by simp
    then show ?thesis using "1.prems" by (subst near_up.simps) (auto simp: not_le)
  qed
qed

lemma near_down_eq:
  assumes "b \<le> p" "p \<le> pos" "\<forall>i. p < i \<and> i \<le> pos \<longrightarrow> t < f (nat i)" "f (nat p) \<le> t"
  shows "near_down f t b pos = p"
  using assms
proof (induction f t b pos rule: near_down.induct)
  case (1 f t b pos)
  show ?case
  proof (cases "p < pos")
    case True
    then have "t < f (nat pos)" "b < pos" using "1.prems" by auto
    then show ?thesis using "1.IH" "1.prems" True by (subst near_down.simps) auto
  next
    case False
    then have "p = pos" using "1.prems"(2) by simp
    then show ?thesis using "1.prems" by (subst near_down.simps) (auto simp: not_less)
  qed
qed

lemma near_in_correct:
  assumes "le_pos f t lo hi p" "lo \<le> first_pos" "first_pos \<le> p" "lo \<le> pos" "pos \<le> hi"
  shows "near_in f t first_pos hi pos = p"
proof (cases "f (nat pos) \<le> t")
  case True
  then have "pos \<le> p" using le_pos_le[OF assms(1,4,5)] by simp
  then have "near_up f t pos hi = p" using assms by (intro near_up_eq) (auto simp: le_pos_def)
  then show ?thesis using True by (simp add: near_in_def)
next
  case False
  then have "p < pos" using le_pos_le[OF assms(1,4,5)] by simp
  moreover have "f (nat p) \<le> t" using assms by (simp add: le_pos_def)
  ultimately have "near_down f t first_pos (pos - 1) = p"
    using assms by (intro near_down_eq) (auto simp: le_pos_def)
  then show ?thesis using False by (simp add: near_in_def)
qed

lemma bsearch_le_correct:
  assumes "le_pos f t lo hi p" "strict_on f lo hi" "lo \<le> l" "r \<le> hi" "l - 1 \<le> p" "p \<le> r"
  shows "bsearch_le f t l r = p"
  using assms
proof (induction f t l r rule: bsearch_le.induct)
  case (1 f t l r)
  define m where "m = (l + r) div 2"
  show ?case
  proof (cases "l \<le> r")
    case False
    then show ?thesis using "1.prems" by (subst bsearch_le.simps) auto
  next
    case True
    then have m: "l \<le> m" "m \<le> r" by (auto simp: m_def)
    note le = le_pos_le[OF "1.prems"(1), of m]
    consider "f (nat m) = t" | "f (nat m) < t" | "t < f (nat m)" by fastforce
    then show ?thesis
    proof cases
      case 1
      then show ?thesis using le_pos_hit[OF "1.prems"(1,2), of m] m "1.prems" True
        by (subst bsearch_le.simps) (simp add: m_def[symmetric] Let_def)
    next
      case 2
      then have "m \<le> p" using le m "1.prems" less_imp_le[OF 2] by simp
      then have "bsearch_le f t (m + 1) r = p"
        using 2 m "1.prems" by (intro "1.IH"(1)[OF True m_def refl]) auto
      then show ?thesis using 2 True by (subst bsearch_le.simps) (auto simp: m_def[symmetric] Let_def)
    next
      case 3
      then have "p < m" using le m "1.prems" 3 by (auto simp: not_le[symmetric])
      then have "bsearch_le f t l (m - 1) = p"
        using 3 m "1.prems" by (intro "1.IH"(2)[OF True m_def refl]) auto
      then show ?thesis using 3 True by (subst bsearch_le.simps) (auto simp: m_def[symmetric] Let_def)
    qed
  qed
qed

text \<open>The exponential search brackets the position, and its loops end.\<close>

lemma gallop_up_bracket:
  assumes "le_pos f t lo hi p" "lo \<le> l" "l \<le> p" "l \<le> r" "0 < step" "lo \<le> r" "gallop_up f t hi step l r = (l', r')"
  shows "l' \<le> p \<and> p \<le> min r' hi \<and> l \<le> l' \<and> l' \<le> r'"
  using assms
proof (induction f t hi step l r rule: gallop_up.induct)
  case (1 f t hi step l r)
  show ?case
  proof (cases "r < hi \<and> f (nat r) \<le> t")
    case True
    then have "r \<le> p" using le_pos_le[OF "1.prems"(1), of r] "1.prems" by simp
    have u: "gallop_up f t hi (step * 2) r (r + int (step * 2)) = (l', r')"
      using "1.prems"(7) True "1.prems"(5) by (subst (asm) gallop_up.simps) simp
    show ?thesis using "1.IH"[OF _ "1.prems"(1) _ \<open>r \<le> p\<close> _ _ _ u] True "1.prems" by force
  next
    case False
    then have r: "l' = l" "r' = r" using "1.prems"(7) by (subst (asm) gallop_up.simps, auto)+
    have "p \<le> r" using False le_pos_le[OF "1.prems"(1), of r] "1.prems"
      by (cases "r < hi") (auto simp: le_pos_def)
    then show ?thesis using r "1.prems" by (auto simp: le_pos_def)
  qed
qed

lemma gallop_down_bracket:
  assumes "le_pos f t lo hi p" "p \<le> r" "r \<le> hi" "l \<le> r" "0 < step" "0 \<le> lo \<and> lo \<le> p" "gallop_down f t step l r = (l', r')"
    "\<forall>i. 0 \<le> i \<and> i < lo \<longrightarrow> f (nat i) \<le> t"
  shows "l' \<le> p \<and> p \<le> r' \<and> r' \<le> r \<and> l' \<le> r'"
  using assms
proof (induction f t step l r rule: gallop_down.induct)
  case (1 f t step l r)
  show ?case
  proof (cases "0 \<le> l \<and> t < f (nat l)")
    case True
    then have "lo \<le> l" using "1.prems"(8) by (meson leD not_le_imp_less)
    then have "p \<le> l" using le_pos_le[OF "1.prems"(1), of l] "1.prems" True by auto
    have u: "gallop_down f t (step * 2) (l - int (step * 2)) l = (l', r')"
      using "1.prems"(7) True "1.prems"(5) by (subst (asm) gallop_down.simps) simp
    show ?thesis using "1.IH"[OF _ "1.prems"(1) \<open>p \<le> l\<close> _ _ _ "1.prems"(6) u "1.prems"(8)] True "1.prems" by force
  next
    case False
    then have r: "l' = l" "r' = r" using "1.prems"(7) by (subst (asm) gallop_down.simps, auto)+
    have "l \<le> p"
      using False le_pos_le[OF "1.prems"(1), of l] "1.prems" by (cases "lo \<le> l") auto
    then show ?thesis using r "1.prems" by auto
  qed
qed


lemma near_range_bracket:
  assumes "le_pos f t lo hi p" "0 \<le> lo" "lo \<le> p" "lo \<le> pos" "pos \<le> hi"
    "\<forall>i. 0 \<le> i \<and> i < lo \<longrightarrow> f (nat i) \<le> t"
  shows "case near_range_in f t hi pos of (l, r) \<Rightarrow> 0 \<le> l \<and> l \<le> p \<and> p \<le> r \<and> r \<le> hi"
proof (cases "f (nat pos) \<le> t")
  case True
  then have "pos \<le> p" using le_pos_le[OF assms(1,4,5)] by simp
  obtain l r where g: "gallop_up f t hi 1 pos (pos + 1) = (l, r)" by fastforce
  from gallop_up_bracket[OF assms(1,4) \<open>pos \<le> p\<close> _ _ _ g] assms
  show ?thesis using True by (simp add: near_range_in_def g[simplified])
next
  case False
  then have p: "p < pos" using le_pos_le[OF assms(1,4,5)] by simp
  obtain l r where g: "gallop_down f t 1 (pos - 1) pos = (l, r)" by fastforce
  from gallop_down_bracket[OF assms(1) _ assms(5) _ _ _ g assms(6)] assms p
  show ?thesis using False by (simp add: near_range_in_def g[simplified])
qed

subsection \<open>The shape of a B-level\<close>

abbreviation rng :: "blevel \<Rightarrow> nat \<Rightarrow> brange" where
  "rng b i \<equiv> bl_ranges b ! i"

text \<open>The physical indices of the live entries, in logical order.\<close>

definition range_slots :: "brange \<Rightarrow> nat list" where
  "range_slots r = [physical_start r ..< physical_start r + range_entries r]"

definition bl_slots :: "blevel \<Rightarrow> nat list" where
  "bl_slots b = concat (map range_slots (take expand_threads (bl_ranges b)))"

definition ranges_ok :: "brange list \<Rightarrow> nat \<Rightarrow> bool" where
  "ranges_ok rs n \<longleftrightarrow> length rs = 5 \<and> logical_start (rs ! 0) = 0 \<and>
     (\<forall>i < 4. 0 < range_entries (rs ! i) \<and> physical_start (rs ! i) + range_entries (rs ! i) \<le> physical_start (rs ! (i + 1)) \<and>
       logical_start (rs ! (i + 1)) = logical_start (rs ! i) + range_entries (rs ! i)) \<and>
     physical_start (rs ! 4) \<le> n"

definition counters_ok :: "blevel \<Rightarrow> bool" where
  "counters_ok b \<longleftrightarrow> 0 < bl_interval_size b \<and> length (bl_sizes b) = 4 \<and>
     (\<forall>i < 4. range_entries (rng b i) \<le> length (bl_sizes b ! i) * bl_interval_size b)"

definition bl_shape :: "blevel \<Rightarrow> bool" where
  "bl_shape b \<longleftrightarrow> ranges_ok (bl_ranges b) (physical_nr b) \<and> bl_nr b = logical_start (rng b 4) \<and>
     (\<forall>i < 4. start_key (rng b i) = bl_phys_key b (physical_start (rng b i))) \<and> start_key (rng b 0) = 0 \<and>
     sorted_wrt (\<lambda>i j. bl_phys_key b i < bl_phys_key b j) (bl_slots b) \<and> counters_ok b"

lemma four_cases: "(i :: nat) < 4 \<Longrightarrow> i = 0 \<or> i = 1 \<or> i = 2 \<or> i = 3"
  by linarith

lemma take_four: "length rs = 5 \<Longrightarrow> take 4 rs = [rs ! 0, rs ! 1, rs ! 2, rs ! 3]"
  by (rule nth_equalityI) (auto simp: less_Suc_eq numeral_eq_Suc)

lemma bl_slots_eq:
  assumes "length (bl_ranges b) = 5"
  shows "bl_slots b = range_slots (rng b 0) @ range_slots (rng b 1) @ range_slots (rng b 2) @ range_slots (rng b 3)"
  using take_four[OF assms] by (simp add: bl_slots_def expand_threads_def)

lemma ranges_unfold:
  assumes "ranges_ok rs n"
  shows "length rs = 5" "logical_start (rs ! 0) = 0"
    "\<And>i. i < 4 \<Longrightarrow> 0 < range_entries (rs ! i)"
    "\<And>i. i < 4 \<Longrightarrow> physical_start (rs ! i) + range_entries (rs ! i) \<le> physical_start (rs ! (i + 1))"
    "\<And>i. i < 4 \<Longrightarrow> logical_start (rs ! (i + 1)) = logical_start (rs ! i) + range_entries (rs ! i)"
    "physical_start (rs ! 4) \<le> n"
  using assms by (simp_all add: ranges_ok_def)

lemma ranges_mono:
  assumes "ranges_ok rs n" "i < j" "j < 5"
  shows "physical_start (rs ! i) + range_entries (rs ! i) \<le> physical_start (rs ! j)"
    "logical_start (rs ! i) + range_entries (rs ! i) \<le> logical_start (rs ! j)"
proof -
  note u = ranges_unfold[OF assms(1)]
  have "physical_start (rs ! i) + range_entries (rs ! i) \<le> physical_start (rs ! j) \<and>
    logical_start (rs ! i) + range_entries (rs ! i) \<le> logical_start (rs ! j)"
    using assms(2,3)
  proof (induction j)
    case (Suc j)
    show ?case
    proof (cases "i = j")
      case True
      then show ?thesis using u(4)[of j] u(5)[of j] Suc.prems by simp
    next
      case False
      then show ?thesis using Suc u(4)[of j] u(5)[of j] by simp
    qed
  qed simp
  then show "physical_start (rs ! i) + range_entries (rs ! i) \<le> physical_start (rs ! j)"
    "logical_start (rs ! i) + range_entries (rs ! i) \<le> logical_start (rs ! j)" by blast+
qed

text \<open>Logical index \<open>logical_start + d\<close> of range \<open>i\<close> is slot \<open>physical_start + d\<close>.\<close>

lemma slot_of_logical:
  assumes "ranges_ok (bl_ranges b) n" "i < 4" "d < range_entries (rng b i)"
  shows "bl_slots b ! (logical_start (rng b i) + d) = physical_start (rng b i) + d"
    "logical_start (rng b i) + d < length (bl_slots b)"
proof -
  note u = ranges_unfold[OF assms(1)]
  have l: "logical_start (rng b 1) = range_entries (rng b 0)"
    "logical_start (rng b 2) = range_entries (rng b 0) + range_entries (rng b 1)"
    "logical_start (rng b 3) = range_entries (rng b 0) + range_entries (rng b 1) + range_entries (rng b 2)"
    using u(2) u(5)[of 0] u(5)[of 1] u(5)[of 2] by (simp_all add: numeral_2_eq_2 numeral_3_eq_3)
  show "bl_slots b ! (logical_start (rng b i) + d) = physical_start (rng b i) + d"
    "logical_start (rng b i) + d < length (bl_slots b)"
    using four_cases[OF assms(2)] assms(3) u(2) l
    by (auto simp: bl_slots_eq[OF u(1)] range_slots_def nth_append)
qed

lemma length_slots: "ranges_ok (bl_ranges b) n \<Longrightarrow> length (bl_slots b) = logical_start (rng b 4)"
  using ranges_unfold(2)[of "bl_ranges b" n] ranges_unfold(5)[of "bl_ranges b" n 0]
    ranges_unfold(5)[of "bl_ranges b" n 1] ranges_unfold(5)[of "bl_ranges b" n 2]
    ranges_unfold(5)[of "bl_ranges b" n 3]
  by (simp add: bl_slots_eq[OF ranges_unfold(1)] range_slots_def numeral_2_eq_2 numeral_3_eq_3 numeral_eq_Suc)

lemma slot_bounds: "ranges_ok (bl_ranges b) n \<Longrightarrow> i < 4 \<Longrightarrow> physical_start (rng b i) + range_entries (rng b i) \<le> n"
  using ranges_mono(1)[of "bl_ranges b" n i 4] ranges_unfold(6)[of "bl_ranges b" n] by simp

text \<open>Every live slot lies in one range.\<close>

lemma logical_range:
  assumes "ranges_ok (bl_ranges b) n" "j < length (bl_slots b)"
  shows "\<exists>i d. i < 4 \<and> d < range_entries (rng b i) \<and> j = logical_start (rng b i) + d"
proof -
  note u = ranges_unfold[OF assms(1)]
  have l: "logical_start (rng b 1) = range_entries (rng b 0)"
    "logical_start (rng b 2) = range_entries (rng b 0) + range_entries (rng b 1)"
    "logical_start (rng b 3) = range_entries (rng b 0) + range_entries (rng b 1) + range_entries (rng b 2)"
    "length (bl_slots b) = logical_start (rng b 3) + range_entries (rng b 3)"
    using u(2) u(5)[of 0] u(5)[of 1] u(5)[of 2] u(5)[of 3] length_slots[OF assms(1)]
    by (simp_all add: numeral_2_eq_2 numeral_3_eq_3 numeral_eq_Suc)
  consider "j < logical_start (rng b 1)" | "logical_start (rng b 1) \<le> j" "j < logical_start (rng b 2)"
    | "logical_start (rng b 2) \<le> j" "j < logical_start (rng b 3)" | "logical_start (rng b 3) \<le> j" by linarith
  then show ?thesis
  proof cases
    case 1
    then show ?thesis using u(2) l by (intro exI[of _ 0] exI[of _ j]) simp
  next
    case 2
    then show ?thesis using l by (intro exI[of _ 1] exI[of _ "j - logical_start (rng b 1)"]) simp
  next
    case 3
    then show ?thesis using l by (intro exI[of _ 2] exI[of _ "j - logical_start (rng b 2)"]) auto
  next
    case 4
    then show ?thesis using l assms(2) by (intro exI[of _ 3] exI[of _ "j - logical_start (rng b 3)"]) auto
  qed
qed


subsection \<open>The entry of a key\<close>

definition in_slot :: "blevel \<Rightarrow> nat \<Rightarrow> u64 \<Rightarrow> bool" where
  "in_slot b j k \<longleftrightarrow> j < length (bl_slots b) \<and> bl_phys_key b (bl_slots b ! j) \<le> k \<and>
     (Suc j < length (bl_slots b) \<longrightarrow> k < bl_phys_key b (bl_slots b ! Suc j))"

lemma slots_less:
  assumes "bl_shape b" "i < j" "j < length (bl_slots b)"
  shows "bl_phys_key b (bl_slots b ! i) < bl_phys_key b (bl_slots b ! j)"
  using assms by (auto simp: bl_shape_def sorted_wrt_iff_nth_less)

lemma phys_key_mono:
  assumes "bl_shape b" "i \<le> j" "j < length (bl_slots b)"
  shows "bl_phys_key b (bl_slots b ! i) \<le> bl_phys_key b (bl_slots b ! j)"
  using slots_less[OF assms(1) _ assms(3), of i] assms(2) by (cases "i = j") auto

lemma in_slot_exists:
  assumes "bl_shape b"
  shows "\<exists>j. in_slot b j k"
proof -
  have r: "ranges_ok (bl_ranges b) (physical_nr b)" using assms by (simp add: bl_shape_def)
  have z: "0 < length (bl_slots b)" "bl_phys_key b (bl_slots b ! 0) = 0"
    using slot_of_logical[OF r, of 0 0] ranges_unfold(2,3)[OF r] assms by (auto simp: bl_shape_def)
  define P where "P j \<longleftrightarrow> j < length (bl_slots b) \<and> bl_phys_key b (bl_slots b ! j) \<le> k" for j
  have "P 0" using z by (simp add: P_def)
  moreover have b: "\<forall>j. P j \<longrightarrow> j \<le> length (bl_slots b)" by (simp add: P_def)
  ultimately have g: "P (GREATEST j. P j)" "\<And>j. P j \<Longrightarrow> j \<le> (GREATEST j. P j)"
    using GreatestI_nat[of P 0 "length (bl_slots b)"] Greatest_le_nat[of P _ "length (bl_slots b)"] by auto
  define g where "g = (GREATEST j. P j)"
  have "\<not> P (Suc g)" using g(2)[of "Suc g"] by (auto simp: g_def)
  moreover have "P g" using g(1) by (simp add: g_def)
  ultimately have "in_slot b g k" unfolding in_slot_def P_def by (simp add: not_le)
  then show ?thesis by blast
qed

lemma in_slot_unique:
  assumes "bl_shape b" "in_slot b i k" "in_slot b j k"
  shows "i = j"
proof -
  have False if ij: "i < j" "in_slot b i k" "in_slot b j k" for i j
  proof -
    have "k < bl_phys_key b (bl_slots b ! Suc i)" "bl_phys_key b (bl_slots b ! j) \<le> k" "j < length (bl_slots b)"
      using ij by (auto simp: in_slot_def)
    then show False using phys_key_mono[OF assms(1), of "Suc i" j] ij(1) by simp
  qed
  then show ?thesis using assms(2,3) by (meson linorder_neqE_nat)
qed

lemma range_down_eq:
  assumes "i < n" "P i" "\<forall>j. i < j \<and> j < n \<longrightarrow> \<not> P j"
  shows "range_down P n = Some i"
  using assms by (induction n) (auto simp: less_Suc_eq)

text \<open>Range, offset and position of the entry of a key.\<close>

lemma in_slot_range:
  assumes "bl_shape b" "in_slot b j k"
  obtains i d where "i < 4" "d < range_entries (rng b i)" "j = logical_start (rng b i) + d"
    "bl_slots b ! j = physical_start (rng b i) + d" "find_brange_by_key b k = Some i"
    "le_pos (bl_phys_key b) k (int (physical_start (rng b i))) (range_last (rng b i)) (int (bl_slots b ! j))"
    "strict_on (bl_phys_key b) (int (physical_start (rng b i))) (range_last (rng b i))"
    "range_last (rng b i) < int (physical_nr b)"
proof -
  have r: "ranges_ok (bl_ranges b) (physical_nr b)" using assms by (simp add: bl_shape_def)
  have js: "j < length (bl_slots b)" "bl_phys_key b (bl_slots b ! j) \<le> k"
    "\<And>i. j < i \<Longrightarrow> i < length (bl_slots b) \<Longrightarrow> k < bl_phys_key b (bl_slots b ! i)"
  proof -
    show "j < length (bl_slots b)" "bl_phys_key b (bl_slots b ! j) \<le> k" using assms(2) by (auto simp: in_slot_def)
    fix i assume i: "j < i" "i < length (bl_slots b)"
    then have "k < bl_phys_key b (bl_slots b ! Suc j)" using assms(2) by (simp add: in_slot_def)
    also have "\<dots> \<le> bl_phys_key b (bl_slots b ! i)" using phys_key_mono[OF assms(1), of "Suc j" i] i by simp
    finally show "k < bl_phys_key b (bl_slots b ! i)" .
  qed
  obtain i d where id: "i < 4" "d < range_entries (rng b i)" "j = logical_start (rng b i) + d"
    using logical_range[OF r js(1)] by blast
  note sl = slot_of_logical[OF r id(1)]
  have start: "start_key (rng b i') = bl_phys_key b (bl_slots b ! logical_start (rng b i'))" if "i' < 4" for i'
    using slot_of_logical(1)[OF r that, of 0] ranges_unfold(3)[OF r that] assms(1) that by (simp add: bl_shape_def)
  have "find_brange_by_key b k = Some i"
    unfolding find_brange_by_key_def expand_threads_def
  proof (rule range_down_eq[OF id(1)])
    show "start_key (rng b i) \<le> k"
      using start[OF id(1)] phys_key_mono[OF assms(1), of "logical_start (rng b i)" j] id(3) js(1,2) by auto
    show "\<forall>i'. i < i' \<and> i' < 4 \<longrightarrow> \<not> start_key (rng b i') \<le> k"
    proof (intro allI impI)
      fix i' assume i': "i < i' \<and> i' < 4"
      have "j < logical_start (rng b i')" using ranges_mono(2)[OF r, of i i'] i' id(2,3) by simp
      moreover have "logical_start (rng b i') < length (bl_slots b)"
        using slot_of_logical(2)[OF r, of i' 0] ranges_unfold(3)[OF r, of i'] i' by simp
      ultimately have "k < start_key (rng b i')" using js(3) start[of i'] i' by simp
      then show "\<not> start_key (rng b i') \<le> k" by (simp add: not_le)
    qed
  qed
  moreover have key: "bl_phys_key b (nat (int (physical_start (rng b i)) + int d')) =
      bl_phys_key b (bl_slots b ! (logical_start (rng b i) + d'))"
    "logical_start (rng b i) + d' < length (bl_slots b)" if "d' < range_entries (rng b i)" for d'
    using sl[OF that] by (simp_all add: nat_int_add)
  have off: "\<exists>d'. x = int (physical_start (rng b i)) + int d' \<and> d' < range_entries (rng b i)"
    if "int (physical_start (rng b i)) \<le> x" "x \<le> range_last (rng b i)" for x
    using that by (intro exI[of _ "nat (x - int (physical_start (rng b i)))"]) (auto simp: range_last_def)
  have "le_pos (bl_phys_key b) k (int (physical_start (rng b i))) (range_last (rng b i)) (int (bl_slots b ! j))"
    unfolding le_pos_def
  proof (intro conjI allI impI)
    show "int (physical_start (rng b i)) - 1 \<le> int (bl_slots b ! j)" "int (bl_slots b ! j) \<le> range_last (rng b i)"
      using sl(1)[OF id(2)] id(2,3) by (auto simp: range_last_def)
  next
    fix x assume x: "int (physical_start (rng b i)) \<le> x \<and> x \<le> int (bl_slots b ! j)"
    then obtain d' where d': "x = int (physical_start (rng b i)) + int d'" "d' \<le> d"
      using sl(1)[OF id(2)] id(3) by (intro that[of "nat (x - int (physical_start (rng b i)))"]) auto
    then have "bl_phys_key b (nat x) \<le> bl_phys_key b (bl_slots b ! j)"
      using key[of d'] phys_key_mono[OF assms(1), of "logical_start (rng b i) + d'" j] id js(1) by simp
    then show "bl_phys_key b (nat x) \<le> k" using js(2) by simp
  next
    fix x assume x: "int (bl_slots b ! j) < x \<and> x \<le> range_last (rng b i)"
    have "int (physical_start (rng b i)) \<le> x" using x sl(1)[OF id(2)] id(3) by auto
    then obtain d' where d': "x = int (physical_start (rng b i)) + int d'" "d' < range_entries (rng b i)"
      using off x by blast
    then have "d < d'" using x sl(1)[OF id(2)] id(3) by auto
    then show "k < bl_phys_key b (nat x)"
      using key[OF d'(2)] js(3)[of "logical_start (rng b i) + d'"] d'(1) id(3) by simp
  qed
  moreover have "strict_on (bl_phys_key b) (int (physical_start (rng b i))) (range_last (rng b i))"
    unfolding strict_on_def
  proof (intro allI impI)
    fix x y assume xy: "int (physical_start (rng b i)) \<le> x \<and> x < y \<and> y \<le> range_last (rng b i)"
    then obtain d1 d2 where d: "x = int (physical_start (rng b i)) + int d1" "d1 < range_entries (rng b i)"
      "y = int (physical_start (rng b i)) + int d2" "d2 < range_entries (rng b i)"
      using off[of x] off[of y] by auto
    then show "bl_phys_key b (nat x) < bl_phys_key b (nat y)"
      using key[OF d(2)] key[OF d(4)] xy
        slots_less[OF assms(1), of "logical_start (rng b i) + d1" "logical_start (rng b i) + d2"] by simp
  qed
  moreover have "range_last (rng b i) < int (physical_nr b)"
    using slot_bounds[OF r id(1)] by (simp add: range_last_def)
  ultimately show thesis using that id sl(1)[OF id(2)] by simp
qed

text \<open>The counter of the interval that an index lies in.\<close>

definition counter_at :: "blevel \<Rightarrow> nat \<times> nat \<Rightarrow> bool" where
  "counter_at b ij \<longleftrightarrow> fst ij < length (bl_sizes b) \<and> snd ij < length (bl_sizes b ! fst ij)"

lemma interval_valid:
  assumes "bl_shape b" "i < 4" "d < range_entries (rng b i)"
  shows "counter_at b (interval_of b i (int (physical_start (rng b i) + d)))"
proof -
  have c: "0 < bl_interval_size b" "length (bl_sizes b) = 4"
    "range_entries (rng b i) \<le> length (bl_sizes b ! i) * bl_interval_size b"
    using assms(1,2) by (auto simp: bl_shape_def counters_ok_def)
  then have "d < length (bl_sizes b ! i) * bl_interval_size b" using assms(3) by simp
  then have "d div bl_interval_size b < length (bl_sizes b ! i)" using c(1) by (simp add: less_mult_imp_div_less)
  then show ?thesis using assms(2) c(2) by (simp add: counter_at_def interval_of_def zdiv_int[symmetric])
qed

theorem bl_find_correct:
  assumes "bl_shape b" "in_slot b j k" "begin_idx \<le> Suc j" "j \<le> end_idx"
  shows "\<exists>iv. bl_find b k begin_idx end_idx = Some (int (bl_slots b ! j), iv) \<and> counter_at b iv"
proof -
  obtain i d where S: "i < 4" "d < range_entries (rng b i)" "j = logical_start (rng b i) + d"
    "bl_slots b ! j = physical_start (rng b i) + d" "find_brange_by_key b k = Some i"
    "le_pos (bl_phys_key b) k (int (physical_start (rng b i))) (range_last (rng b i)) (int (bl_slots b ! j))"
    "strict_on (bl_phys_key b) (int (physical_start (rng b i))) (range_last (rng b i))"
    "range_last (rng b i) < int (physical_nr b)" using in_slot_range[OF assms(1,2)] .
  have r: "ranges_ok (bl_ranges b) (physical_nr b)" using assms by (simp add: bl_shape_def)
  obtain left right where w: "find_window b i begin_idx end_idx = (left, right)" by fastforce
  have lr: "int (physical_start (rng b i)) \<le> left" "left - 1 \<le> int (bl_slots b ! j)" "int (bl_slots b ! j) \<le> right"
    "right \<le> range_last (rng b i)"
    using w S(1-4) assms(3,4) ranges_unfold(5)[OF r S(1)]
    by (auto simp: find_window_def Let_def get_physical_def range_last_def split: if_splits)
  have "find_in (bl_phys_key b) k left right = int (bl_slots b ! j)"
    using lr S(4) by (intro find_in_correct[OF S(6,7)]) auto
  moreover have "(left + right) div 2 < int (physical_nr b)" "0 \<le> left" "0 \<le> right" "right < int (physical_nr b)"
    using lr S(8) by linarith+
  ultimately show ?thesis using S(1-5,8) w interval_valid[OF assms(1) S(1,2)]
    by (cases "interval_of b i (int (physical_start (rng b i) + d))") (simp add: bl_find_def Let_def)
qed

theorem bl_find_near_correct:
  assumes "bl_shape b" "in_slot b j k"
    "\<forall>i < 4. find_brange_by_key b k = Some i \<longrightarrow> logical_start (rng b i) \<le> pos"
  shows "\<exists>iv. bl_find_near b k pos = Some (int (bl_slots b ! j), iv) \<and> counter_at b iv"
proof -
  obtain i d where S: "i < 4" "d < range_entries (rng b i)" "j = logical_start (rng b i) + d"
    "bl_slots b ! j = physical_start (rng b i) + d" "find_brange_by_key b k = Some i"
    "le_pos (bl_phys_key b) k (int (physical_start (rng b i))) (range_last (rng b i)) (int (bl_slots b ! j))"
    "strict_on (bl_phys_key b) (int (physical_start (rng b i))) (range_last (rng b i))"
    "range_last (rng b i) < int (physical_nr b)" using in_slot_range[OF assms(1,2)] .
  have r: "ranges_ok (bl_ranges b) (physical_nr b)" using assms by (simp add: bl_shape_def)
  have c: "int (physical_start (rng b i)) \<le> clip_pos b i pos" "clip_pos b i pos \<le> range_last (rng b i)"
    using S(1,2,5) assms(3) ranges_unfold(5)[OF r S(1)]
    by (auto simp: clip_pos_def get_physical_def range_last_def)
  have "near_in (bl_phys_key b) k (int (physical_start (rng b i))) (range_last (rng b i)) (clip_pos b i pos)
      = int (bl_slots b ! j)"
    using c S(4) by (intro near_in_correct[OF S(6)]) auto
  then show ?thesis using S(1-5,8) c interval_valid[OF assms(1) S(1,2)]
    by (simp add: bl_find_near_def Let_def)
qed

theorem bl_find_by_range_correct:
  assumes "bl_shape b" "in_slot b j k" "find_brange_by_key b k = Some i" "end_idx < physical_nr b"
    "bl_slots b ! j \<le> end_idx" "int end_idx \<le> range_last (rng b i)"
  shows "\<exists>iv. bl_find_by_range b k i end_idx = Some (int (bl_slots b ! j), iv) \<and> counter_at b iv"
proof -
  obtain i' d where S: "i' < 4" "d < range_entries (rng b i')" "j = logical_start (rng b i') + d"
    "bl_slots b ! j = physical_start (rng b i') + d" "find_brange_by_key b k = Some i'"
    "le_pos (bl_phys_key b) k (int (physical_start (rng b i'))) (range_last (rng b i')) (int (bl_slots b ! j))"
    "strict_on (bl_phys_key b) (int (physical_start (rng b i'))) (range_last (rng b i'))"
    "range_last (rng b i') < int (physical_nr b)" using in_slot_range[OF assms(1,2)] .
  then have i: "i' = i" using assms(3) by simp
  have "bsearch_le (bl_phys_key b) k (int (physical_start (rng b i))) (int end_idx) = int (bl_slots b ! j)"
    using S(4,6,7) assms(5,6) unfolding i by (intro bsearch_le_correct) auto
  then show ?thesis using S(4) assms(4) interval_valid[OF assms(1) S(1,2)] unfolding i
    by (simp add: bl_find_by_range_def Let_def)
qed

end
