(* ===== verification/BLevelOps.thy ===== *)
theory BLevelOps
  imports BLevelSearch
begin

text \<open>
  The operations of the B-level as operations on a finite map.  \<open>bl_own\<close> is the invariant:
  the ranges have their shape, every live entry owns a C-level of its own in the shared
  region, and the keys of an entry lie between its key and the key of the next entry.
  \<open>bl_holds\<close> abstracts this to the map of all pairs.
\<close>

definition bl_live :: "blevel \<Rightarrow> nat \<Rightarrow> nobuf_entry" where
  "bl_live b j = bl_entries b ! (bl_slots b ! j)"

definition entry_ok :: "blevel \<Rightarrow> nat \<Rightarrow> nat \<Rightarrow> nat set \<Rightarrow> kv list \<Rightarrow> bool" where
  "entry_ok b j d as xs \<longleftrightarrow> nb_own (bl_mem b) (bl_live b j) d as xs \<and> nb_is_valid (bl_live b j) \<and>
     (\<forall>x \<in> set xs. in_slot b j (fst x)) \<and> (\<forall>k. in_slot b j k \<longrightarrow> nb_fits (bl_live b j) k)"

definition bl_own :: "blevel \<Rightarrow> nat list \<Rightarrow> nat set list \<Rightarrow> kv list list \<Rightarrow> bool" where
  "bl_own b ds ass xss \<longleftrightarrow> bl_shape b \<and> length ds = length (bl_slots b) \<and>
     length ass = length (bl_slots b) \<and> length xss = length (bl_slots b) \<and>
     (\<forall>j < length (bl_slots b). entry_ok b j (ds ! j) (ass ! j) (xss ! j)) \<and>
     (\<forall>i < length (bl_slots b). \<forall>j < length (bl_slots b). i \<noteq> j \<longrightarrow> ass ! i \<inter> ass ! j = {})"

text \<open>The map of all pairs, and a bound on the heights of the trees.\<close>

definition bl_holds :: "blevel \<Rightarrow> nat \<Rightarrow> (u64 \<Rightarrow> u64 option) \<Rightarrow> bool" where
  "bl_holds b D M \<longleftrightarrow> (\<exists>ds ass xss. bl_own b ds ass xss \<and> (\<forall>d \<in> set ds. d \<le> D) \<and> M = map_of (concat xss))"

lemma bl_holds_shape: "bl_holds b D M \<Longrightarrow> bl_shape b"
  by (auto simp: bl_holds_def bl_own_def)

subsection \<open>The pairs of an entry among all pairs\<close>

lemma bl_own_lookup:
  assumes "bl_own b ds ass xss" "in_slot b j k"
  shows "map_of (concat xss) k = map_of (xss ! j) k"
proof (rule map_of_concat)
  have l: "length xss = length (bl_slots b)" using assms(1) by (simp add: bl_own_def)
  then show "j < length xss" using assms(2) by (simp add: in_slot_def)
  show "\<forall>i < length xss. i \<noteq> j \<longrightarrow> k \<notin> fst ` set (xss ! i)"
  proof (intro allI impI notI)
    fix i assume i: "i < length xss" "i \<noteq> j" "k \<in> fst ` set (xss ! i)"
    then have si: "in_slot b i k" using assms(1) l by (auto simp: bl_own_def entry_ok_def)
    then show False using in_slot_unique[OF _ si assms(2)] i(2) assms(1) by (simp add: bl_own_def)
  qed
qed

subsection \<open>Replacing one entry\<close>

text \<open>A B-level that differs in the entry at one slot, the region and the counters only.\<close>

definition same_frame :: "blevel \<Rightarrow> blevel \<Rightarrow> nat \<Rightarrow> bool" where
  "same_frame b b' i \<longleftrightarrow> bl_ranges b' = bl_ranges b \<and> bl_nr b' = bl_nr b \<and> bl_interval_size b' = bl_interval_size b \<and>
     map length (bl_sizes b') = map length (bl_sizes b) \<and> length (bl_entries b') = length (bl_entries b) \<and>
     (\<forall>n. n \<noteq> i \<longrightarrow> bl_entries b' ! n = bl_entries b ! n) \<and> nb_key (bl_entries b' ! i) = nb_key (bl_entries b ! i)"

lemma same_frame_facts:
  assumes "same_frame b b' i"
  shows "bl_slots b' = bl_slots b" "bl_phys_key b' = bl_phys_key b" "in_slot b' = in_slot b"
    "bl_shape b \<Longrightarrow> bl_shape b'"
proof -
  show s: "bl_slots b' = bl_slots b" using assms by (simp add: same_frame_def bl_slots_def)
  have "bl_phys_key b' n = bl_phys_key b n" for n using assms by (cases "n = i") (auto simp: same_frame_def bl_phys_key_def)
  then show k: "bl_phys_key b' = bl_phys_key b" by (simp add: fun_eq_iff)
  show "in_slot b' = in_slot b" by (simp add: fun_eq_iff in_slot_def s k)
  have ml: "map length (bl_sizes b') = map length (bl_sizes b)" using assms by (simp add: same_frame_def)
  have l: "length (bl_sizes b') = length (bl_sizes b)" using map_eq_imp_length_eq[OF ml] .
  have "length (bl_sizes b' ! n) = length (bl_sizes b ! n)" if "n < length (bl_sizes b)" for n
    using arg_cong[OF ml, of "\<lambda>x. x ! n"] that l by simp
  moreover have "physical_nr b' = physical_nr b" using assms by (simp add: same_frame_def physical_nr_def)
  moreover have r: "bl_ranges b' = bl_ranges b" "bl_nr b' = bl_nr b" "bl_interval_size b' = bl_interval_size b"
    using assms by (simp_all add: same_frame_def)
  ultimately show "bl_shape b'" if "bl_shape b"
    using that l unfolding bl_shape_def counters_ok_def s k r by simp
qed

lemma slots_distinct: "bl_shape b \<Longrightarrow> distinct (bl_slots b)"
proof -
  assume sh: "bl_shape b"
  have "bl_slots b ! i \<noteq> bl_slots b ! j" if "i < length (bl_slots b)" "j < length (bl_slots b)" "i \<noteq> j" for i j
    using slots_less[OF sh, of i j] slots_less[OF sh, of j i] that by (cases "i < j") auto
  then show "distinct (bl_slots b)" by (simp add: distinct_conv_nth)
qed

lemma slot_in_array:
  assumes "bl_shape b" "j < length (bl_slots b)"
  shows "bl_slots b ! j < physical_nr b"
proof -
  have r: "ranges_ok (bl_ranges b) (physical_nr b)" using assms by (simp add: bl_shape_def)
  obtain i d where id: "i < 4" "d < range_entries (rng b i)" "j = logical_start (rng b i) + d"
    using logical_range[OF r assms(2)] by blast
  then show ?thesis using slot_of_logical(1)[OF r id(1,2)] slot_bounds[OF r id(1)] by simp
qed

text \<open>An operation on entry \<open>j\<close> that keeps to the nodes of its tree keeps the invariant.\<close>

lemma bl_own_replace:
  assumes "bl_own b ds ass xss" "j < length (bl_slots b)" "same_frame b b' (bl_slots b ! j)"
    "region_step (ass ! j) (bl_mem b) bs (bl_mem b')" "entry_ok b' j d bs ys"
  shows "bl_own b' (ds[j := d]) (ass[j := bs]) (xss[j := ys])"
proof -
  note sf = same_frame_facts[OF assms(3)]
  have sh: "bl_shape b" and len: "length ds = length (bl_slots b)" "length ass = length (bl_slots b)"
    "length xss = length (bl_slots b)" using assms(1) by (simp_all add: bl_own_def)
  have ent: "entry_ok b i (ds ! i) (ass ! i) (xss ! i)" if "i < length (bl_slots b)" for i
    using assms(1) that by (simp add: bl_own_def)
  have dis: "ass ! i \<inter> ass ! j = {}" if "i < length (bl_slots b)" "i \<noteq> j" for i
    using assms(1,2) that by (simp add: bl_own_def)
  have live: "bl_live b' i = bl_live b i" if "i < length (bl_slots b)" "i \<noteq> j" for i
  proof -
    have "bl_slots b ! i \<noteq> bl_slots b ! j" using slots_distinct[OF sh] that assms(2) by (simp add: nth_eq_iff_index_eq)
    then show ?thesis using assms(3) sf(1) by (simp add: bl_live_def same_frame_def)
  qed
  have fr: "nb_own (bl_mem b') (bl_live b' i) (ds ! i) (ass ! i) (xss ! i)" "ass ! i \<inter> bs = {}"
    if i: "i < length (bl_slots b)" "i \<noteq> j" for i
  proof -
    have "nb_own (bl_mem b) (bl_live b i) (ds ! i) (ass ! i) (xss ! i)" using ent[OF i(1)] by (simp add: entry_ok_def)
    from nb_own_frame[OF this assms(4) dis[OF i]] live[OF i]
    show "nb_own (bl_mem b') (bl_live b' i) (ds ! i) (ass ! i) (xss ! i)" "ass ! i \<inter> bs = {}" by simp_all
  qed
  have "entry_ok b' i (ds ! i) (ass ! i) (xss ! i)" if i: "i < length (bl_slots b)" "i \<noteq> j" for i
    using fr[OF i] ent[OF i(1)] live[OF i] sf(3) by (simp add: entry_ok_def)
  then show ?thesis
    using assms(1,2,5) sf(1) sf(4)[OF sh] len fr(2)
    by (auto simp: bl_own_def nth_list_update)
qed

text \<open>What the replacement does to the map of all pairs.\<close>

lemma bl_own_map_update:
  assumes "bl_own b ds ass xss" "bl_own b' ds' ass' (xss[j := ys])" "in_slot b j k" "in_slot b' = in_slot b"
    "bl_slots b' = bl_slots b" "map_of ys = (map_of (xss ! j))(k := v)"
  shows "map_of (concat (xss[j := ys])) = (map_of (concat xss))(k := v)"
proof
  fix x
  have j: "j < length xss" using assms(1,3) by (simp add: bl_own_def in_slot_def)
  have sh: "bl_shape b" using assms(1) by (simp add: bl_own_def)
  obtain i where i: "in_slot b i x" using in_slot_exists[OF sh] by blast
  have "map_of (concat (xss[j := ys])) x = map_of (xss[j := ys] ! i) x"
    using bl_own_lookup[OF assms(2)] i assms(4) by simp
  moreover have "map_of (concat xss) x = map_of (xss ! i) x" using bl_own_lookup[OF assms(1) i] .
  moreover have "x = k \<Longrightarrow> i = j" using in_slot_unique[OF sh i] assms(3) by simp
  ultimately show "map_of (concat (xss[j := ys])) x = ((map_of (concat xss))(k := v)) x"
    using assms(6) j by (cases "i = j") auto
qed

subsection \<open>The operations at a slot\<close>

lemma slot_entry:
  assumes "bl_own b ds ass xss" "in_slot b j k"
  shows "(if 0 \<le> int (bl_slots b ! j) then bl_entry b (nat (int (bl_slots b ! j))) else None) = Some (bl_live b j)"
    "entry_ok b j (ds ! j) (ass ! j) (xss ! j)" "j < length (bl_slots b)" "nb_fits (bl_live b j) k"
proof -
  show j: "j < length (bl_slots b)" using assms(2) by (simp add: in_slot_def)
  then show e: "entry_ok b j (ds ! j) (ass ! j) (xss ! j)" using assms(1) by (simp add: bl_own_def)
  show "nb_fits (bl_live b j) k" using e assms(2) by (simp add: entry_ok_def)
  show "(if 0 \<le> int (bl_slots b ! j) then bl_entry b (nat (int (bl_slots b ! j))) else None) = Some (bl_live b j)"
    using slot_in_array[OF _ j] assms(1) by (simp add: bl_entry_def bl_live_def bl_own_def)
qed

lemma bl_get_at_own:
  assumes "bl_own b ds ass xss" "in_slot b j k"
  shows "bl_get_at b k (int (bl_slots b ! j)) = Some (map_of (concat xss) k)"
proof -
  note E = slot_entry[OF assms]
  have "nb_get (bl_mem b) (bl_live b j) k = Some (map_of (xss ! j) k)"
    using nb_get_own[OF _ E(4)] E(2) by (auto simp: entry_ok_def)
  then show ?thesis using E bl_own_lookup[OF assms] unfolding bl_get_at_def E(1) by (simp add: entry_ok_def)
qed

lemma add_interval_ok:
  assumes "counter_at b iv"
  shows "\<exists>ss. add_interval b iv d = Some (b\<lparr>bl_sizes := ss\<rparr>) \<and> map length ss = map length (bl_sizes b)"
  using assms by (cases iv) (auto simp: add_interval_def counter_at_def map_update list_update_same_conv)

lemma ins_keys: "x \<in> set (ins k v xs) \<Longrightarrow> fst x = k \<or> x \<in> set xs"
  by (auto simp: ins_def dest: set_takeWhileD set_dropWhileD)

lemma bl_put_at_own:
  assumes "bl_own b ds ass xss" "in_slot b j k" "counter_at b iv"
    "cur_addr (bl_mem b) + (ds ! j + 3) * node_size < end_addr (bl_mem b)"
  shows "\<exists>b' d' bs. bl_put_at b k v (int (bl_slots b ! j)) iv = Some (b', OK) \<and>
    bl_own b' (ds[j := d']) (ass[j := bs]) (xss[j := ins k v (xss ! j)]) \<and>
    map_of (concat (xss[j := ins k v (xss ! j)])) = (map_of (concat xss))(k \<mapsto> v) \<and> d' \<le> Suc (ds ! j) \<and>
    same_frame b b' (bl_slots b ! j) \<and> bl_size b' = bl_size b + 1 \<and>
    end_addr (bl_mem b') = end_addr (bl_mem b) \<and>
    cur_addr (bl_mem b') \<le> cur_addr (bl_mem b) + (ds ! j + 3) * node_size"
proof -
  note E = slot_entry[OF assms(1,2)]
  let ?e = "bl_live b j" and ?q = "bl_slots b ! j"
  have o: "nb_own (bl_mem b) ?e (ds ! j) (ass ! j) (xss ! j)" using E(2) by (simp add: entry_ok_def)
  obtain m' c d' bs where P: "nb_put (bl_mem b) ?e k v = Some (m', ?e\<lparr>nb_clevel := c\<rparr>, OK)"
    "nb_own m' (?e\<lparr>nb_clevel := c\<rparr>) d' bs (ins k v (xss ! j))" "region_step (ass ! j) (bl_mem b) bs m'"
    "d' \<le> Suc (ds ! j)" "cur_addr m' \<le> cur_addr (bl_mem b) + (ds ! j + 3) * node_size"
    using nb_put_own[OF o E(4) assms(4), of v] by blast
  let ?b1 = "bl_set_entry (b\<lparr>bl_mem := m', bl_size := bl_size b + 1\<rparr>) ?q (?e\<lparr>nb_clevel := c\<rparr>)"
  have "counter_at ?b1 iv" using assms(3) by (simp add: counter_at_def bl_set_entry_def)
  from add_interval_ok[OF this, of 1] obtain ss where ss: "add_interval ?b1 iv 1 = Some (?b1\<lparr>bl_sizes := ss\<rparr>)"
    "map length ss = map length (bl_sizes b)" by (auto simp: bl_set_entry_def)
  define b' where "b' = ?b1\<lparr>bl_sizes := ss\<rparr>"
  have q: "?q < length (bl_entries b)" using slot_in_array[OF _ E(3)] assms(1) by (simp add: bl_own_def physical_nr_def)
  have put: "bl_put_at b k v (int ?q) iv = Some (b', OK)"
    unfolding bl_put_at_def E(1) using E(2) P(1) ss(1) by (simp add: entry_ok_def Let_def b'_def)
  have sf: "same_frame b b' ?q"
    using q ss(2) by (simp add: same_frame_def b'_def bl_set_entry_def bl_live_def)
  note F = same_frame_facts[OF sf]
  have l: "bl_live b' j = ?e\<lparr>nb_clevel := c\<rparr>" 
    unfolding bl_live_def[of b'] F(1) using q by (simp add: b'_def bl_set_entry_def)
  have m: "bl_mem b' = m'" by (simp add: b'_def bl_set_entry_def)
  have ok: "entry_ok b' j d' bs (ins k v (xss ! j))"
  proof -
    have "in_slot b j (fst x)" if "x \<in> set (ins k v (xss ! j))" for x
      using ins_keys[OF that] E(2) assms(2) by (auto simp: entry_ok_def)
    then show ?thesis using E(2) P(2) unfolding entry_ok_def l m F(3)
      by (simp add: nb_fits_def nb_is_valid_def nb_meta_def)
  qed
  note own = bl_own_replace[OF assms(1) E(3) sf P(3)[folded m] ok]
  have "map_of (ins k v (xss ! j)) = (map_of (xss ! j))(k := Some v)" using ins_spec(2)[OF nb_own_sorted[OF o]] .
  note mp = bl_own_map_update[OF assms(1) own assms(2) F(3,1) this]
  show ?thesis using put own mp P(4,5) sf P(3) by (intro exI[of _ b'] exI[of _ d'] exI[of _ bs])
    (simp add: b'_def bl_set_entry_def region_step_def)
qed

lemma bl_own_same_entry:
  assumes "bl_own b ds ass xss" "in_slot b j k" "region_step (ass ! j) (bl_mem b) (ass ! j) m'"
    "nb_own m' (bl_live b j) (ds ! j) (ass ! j) ys" "fst ` set ys \<subseteq> insert k (fst ` set (xss ! j))"
    "map_of ys = (map_of (xss ! j))(k := v)" "map length ss = map length (bl_sizes b)"
  shows "bl_own (b\<lparr>bl_mem := m', bl_size := z, bl_sizes := ss\<rparr>) ds ass (xss[j := ys])"
    "map_of (concat (xss[j := ys])) = (map_of (concat xss))(k := v)"
proof -
  let ?b' = "b\<lparr>bl_mem := m', bl_size := z, bl_sizes := ss\<rparr>"
  note E = slot_entry[OF assms(1,2)]
  have sf: "same_frame b ?b' (bl_slots b ! j)" using assms(7) by (simp add: same_frame_def)
  note F = same_frame_facts[OF sf]
  have l: "bl_live ?b' j = bl_live b j" using F(1) by (simp add: bl_live_def)
  have ks: "in_slot b j (fst x)" if "x \<in> set ys" for x
  proof -
    have "fst x = k \<or> fst x \<in> fst ` set (xss ! j)" using assms(5) that by blast
    then show ?thesis using E(2) assms(2) by (auto simp: entry_ok_def)
  qed
  have ok: "entry_ok ?b' j (ds ! j) (ass ! j) ys"
    using E(2) assms(4) ks unfolding entry_ok_def l F(3) by simp
  have "region_step (ass ! j) (bl_mem b) (ass ! j) (bl_mem ?b')" using assms(3) by simp
  from bl_own_replace[OF assms(1) E(3) sf this ok]
  show own: "bl_own ?b' ds ass (xss[j := ys])" by simp
  show "map_of (concat (xss[j := ys])) = (map_of (concat xss))(k := v)"
    using bl_own_map_update[OF assms(1) own assms(2) F(3,1) assms(6)] .
qed

lemma bl_update_at_own:
  assumes "bl_own b ds ass xss" "in_slot b j k" "map_of (concat xss) k \<noteq> None"
  shows "\<exists>m'. bl_update_at b k v (int (bl_slots b ! j)) = Some (b\<lparr>bl_mem := m'\<rparr>, True) \<and>
    bl_own (b\<lparr>bl_mem := m'\<rparr>) ds ass (xss[j := ins k v (xss ! j)]) \<and>
    map_of (concat (xss[j := ins k v (xss ! j)])) = (map_of (concat xss))(k \<mapsto> v) \<and>
    cur_addr m' = cur_addr (bl_mem b) \<and> end_addr m' = end_addr (bl_mem b)"
proof -
  note E = slot_entry[OF assms(1,2)]
  have o: "nb_own (bl_mem b) (bl_live b j) (ds ! j) (ass ! j) (xss ! j)" using E(2) by (simp add: entry_ok_def)
  have n: "map_of (xss ! j) k \<noteq> None" using bl_own_lookup[OF assms(1,2)] assms(3) by simp
  obtain m' where U: "nb_update (bl_mem b) (bl_live b j) k v = Some (m', True)"
    "nb_own m' (bl_live b j) (ds ! j) (ass ! j) (ins k v (xss ! j))"
    "region_step (ass ! j) (bl_mem b) (ass ! j) m'" "cur_addr m' = cur_addr (bl_mem b)"
    using nb_update_own(1)[OF o E(4) n, of v] by blast
  have sub: "fst ` set (ins k v (xss ! j)) \<subseteq> insert k (fst ` set (xss ! j))" using ins_keys by fastforce
  note S = bl_own_same_entry[OF assms(1,2) U(3,2) sub ins_spec(2)[OF nb_own_sorted[OF o]] refl]
  have eq: "b\<lparr>bl_mem := m', bl_size := bl_size b, bl_sizes := bl_sizes b\<rparr> = b\<lparr>bl_mem := m'\<rparr>" by simp
  have "bl_update_at b k v (int (bl_slots b ! j)) = Some (b\<lparr>bl_mem := m'\<rparr>, True)"
    unfolding bl_update_at_def E(1) using E(2) U(1) by (simp add: entry_ok_def)
  then show ?thesis using S(1)[of "bl_size b"] S(2) U(3,4) unfolding eq
    by (intro exI[of _ m']) (simp add: region_step_def)
qed

lemma bl_delete_at_own:
  assumes "bl_own b ds ass xss" "in_slot b j k" "counter_at b iv"
  shows "\<exists>b'. bl_delete_at b k (int (bl_slots b ! j)) iv = Some (b', True, map_of (concat xss) k) \<and>
    bl_own b' ds ass (xss[j := filter (\<lambda>x. fst x \<noteq> k) (xss ! j)]) \<and>
    map_of (concat (xss[j := filter (\<lambda>x. fst x \<noteq> k) (xss ! j)])) = (map_of (concat xss))(k := None) \<and>
    bl_size b' = bl_size b - 1 \<and> cur_addr (bl_mem b') = cur_addr (bl_mem b) \<and>
    end_addr (bl_mem b') = end_addr (bl_mem b) \<and> bl_ranges b' = bl_ranges b \<and> bl_phys_key b' = bl_phys_key b"
proof -
  note E = slot_entry[OF assms(1,2)]
  let ?ys = "filter (\<lambda>x. fst x \<noteq> k) (xss ! j)"
  have o: "nb_own (bl_mem b) (bl_live b j) (ds ! j) (ass ! j) (xss ! j)" using E(2) by (simp add: entry_ok_def)
  obtain m' where D: "nb_delete (bl_mem b) (bl_live b j) k =
      Some (m', cl_has_setup (nb_clevel (bl_live b j)), map_of (xss ! j) k)"
    "nb_own m' (bl_live b j) (ds ! j) (ass ! j) ?ys" "region_step (ass ! j) (bl_mem b) (ass ! j) m'"
    "cur_addr m' = cur_addr (bl_mem b)" using nb_delete_own[OF o E(4)] by blast
  let ?b1 = "b\<lparr>bl_mem := m', bl_size := bl_size b - 1\<rparr>"
  have "counter_at ?b1 iv" using assms(3) by (simp add: counter_at_def)
  from add_interval_ok[OF this, of "-1"] obtain ss where ss: "add_interval ?b1 iv (-1) = Some (?b1\<lparr>bl_sizes := ss\<rparr>)"
    "map length ss = map length (bl_sizes b)" by auto
  have sub: "fst ` set ?ys \<subseteq> insert k (fst ` set (xss ! j))" by auto
  note S = bl_own_same_entry[OF assms(1,2) D(3,2) sub map_of_filter_ne ss(2)]
  have "bl_delete_at b k (int (bl_slots b ! j)) iv = Some (?b1\<lparr>bl_sizes := ss\<rparr>, True, map_of (concat xss) k)"
    unfolding bl_delete_at_def E(1) using E(2) D(1) ss(1) bl_own_lookup[OF assms(1,2)]
    by (simp add: entry_ok_def)
  then show ?thesis using S(1)[of "bl_size b - 1"] S(2) D(3,4)
    by (intro exI[of _ "?b1\<lparr>bl_sizes := ss\<rparr>"]) (simp add: region_step_def bl_phys_key_def fun_eq_iff)
qed


subsection \<open>The operations of the interface\<close>

text \<open>\<open>reaches\<close>: the search has found the entry of the key, with a valid counter.\<close>

definition reaches :: "blevel \<Rightarrow> u64 \<Rightarrow> (int \<times> (nat \<times> nat)) option \<Rightarrow> bool" where
  "reaches b k r \<longleftrightarrow> (\<exists>j iv. in_slot b j k \<and> r = Some (int (bl_slots b ! j), iv) \<and> counter_at b iv)"

definition bl_room :: "blevel \<Rightarrow> nat \<Rightarrow> bool" where
  "bl_room b D \<longleftrightarrow> cur_addr (bl_mem b) + (D + 3) * node_size < end_addr (bl_mem b)"

text \<open>The slots below a range, gaps included, have keys up to its start key.  Then the search
  from a predicted position is right whatever the position.\<close>

definition gaps_ok :: "blevel \<Rightarrow> bool" where
  "gaps_ok b \<longleftrightarrow> physical_start (rng b 0) = 0 \<and>
     (\<forall>i < 4. logical_start (rng b i) \<le> physical_start (rng b i) \<and>
       (\<forall>n < physical_start (rng b i). bl_phys_key b n \<le> start_key (rng b i)))"

lemma gaps_ok_same: "bl_ranges b' = bl_ranges b \<Longrightarrow> bl_phys_key b' = bl_phys_key b \<Longrightarrow> gaps_ok b' = gaps_ok b"
  by (simp add: gaps_ok_def)

text \<open>A B-level in working order that holds \<open>M\<close>; \<open>D\<close> bounds the heights of the trees.  No operation
  on pairs moves an entry.\<close>

definition bl_good :: "blevel \<Rightarrow> nat \<Rightarrow> (u64 \<Rightarrow> u64 option) \<Rightarrow> bool" where
  "bl_good b D M \<longleftrightarrow> bl_holds b D M \<and> gaps_ok b"

definition keeps_layout :: "blevel \<Rightarrow> blevel \<Rightarrow> bool" where
  "keeps_layout b b' \<longleftrightarrow> bl_ranges b' = bl_ranges b \<and> bl_phys_key b' = bl_phys_key b \<and> bl_nr b' = bl_nr b \<and>
     end_addr (bl_mem b') = end_addr (bl_mem b)"

lemma keeps_layout_refl [simp]: "keeps_layout b b"
  by (simp add: keeps_layout_def)

lemma keeps_layout_trans: "keeps_layout a b \<Longrightarrow> keeps_layout b c \<Longrightarrow> keeps_layout a c"
  by (simp add: keeps_layout_def)

lemma bl_good_shape: "bl_good b D M \<Longrightarrow> bl_shape b"
  unfolding bl_good_def using bl_holds_shape by blast

lemma good_after:
  assumes "bl_good b D M" "bl_holds b' D' M'" "bl_ranges b' = bl_ranges b" "bl_phys_key b' = bl_phys_key b"
    "end_addr (bl_mem b') = end_addr (bl_mem b)"
  shows "bl_good b' D' M'" "keeps_layout b b'"
proof -
  show "bl_good b' D' M'" using assms gaps_ok_same[OF assms(3,4)] by (simp add: bl_good_def)
  have "bl_nr b' = bl_nr b"
    using bl_good_shape[OF assms(1)] bl_holds_shape[OF assms(2)] assms(3) by (simp add: bl_shape_def)
  then show "keeps_layout b b'" using assms(3-5) by (simp add: keeps_layout_def)
qed

text \<open>What a put, an update of a key that is there and a delete do.\<close>

definition put_result :: "blevel \<Rightarrow> nat \<Rightarrow> (u64 \<Rightarrow> u64 option) \<Rightarrow> u64 \<Rightarrow> u64 \<Rightarrow> (blevel \<times> status) option \<Rightarrow> bool" where
  "put_result b D M k v r \<longleftrightarrow> (\<exists>b'. r = Some (b', OK) \<and> bl_good b' (Suc D) (M(k \<mapsto> v)) \<and> bl_size b' = bl_size b + 1 \<and>
     keeps_layout b b' \<and> cur_addr (bl_mem b') \<le> cur_addr (bl_mem b) + (D + 3) * node_size)"

definition update_result :: "blevel \<Rightarrow> nat \<Rightarrow> (u64 \<Rightarrow> u64 option) \<Rightarrow> u64 \<Rightarrow> u64 \<Rightarrow> (blevel \<times> bool) option \<Rightarrow> bool" where
  "update_result b D M k v r \<longleftrightarrow> (\<exists>b'. r = Some (b', True) \<and> bl_good b' D (M(k \<mapsto> v)) \<and> bl_size b' = bl_size b \<and>
     keeps_layout b b' \<and> cur_addr (bl_mem b') = cur_addr (bl_mem b))"

definition delete_result ::
  "blevel \<Rightarrow> nat \<Rightarrow> (u64 \<Rightarrow> u64 option) \<Rightarrow> u64 \<Rightarrow> (blevel \<times> bool \<times> u64 option) option \<Rightarrow> bool" where
  "delete_result b D M k r \<longleftrightarrow> (\<exists>b'. r = Some (b', True, M k) \<and> bl_good b' D (M(k := None)) \<and>
     bl_size b' = bl_size b - 1 \<and> keeps_layout b b' \<and> cur_addr (bl_mem b') = cur_addr (bl_mem b))"

lemma put_reached:
  assumes "bl_good b D M" "in_slot b j k" "counter_at b iv" "bl_room b D"
  shows "put_result b D M k v (bl_put_at b k v (int (bl_slots b ! j)) iv)"
proof -
  obtain ds ass xss where H: "bl_own b ds ass xss" "\<forall>d \<in> set ds. d \<le> D" "M = map_of (concat xss)"
    using assms(1) by (auto simp: bl_holds_def bl_good_def)
  have j: "j < length ds" using assms(2) H(1) by (simp add: in_slot_def bl_own_def)
  then have "ds ! j \<le> D" using H(2) by simp
  then have le: "(ds ! j + 3) * node_size \<le> (D + 3) * node_size" by (intro mult_le_mono1) simp
  then have "cur_addr (bl_mem b) + (ds ! j + 3) * node_size < end_addr (bl_mem b)"
    using assms(4) unfolding bl_room_def by (rule le_less_trans[OF add_left_mono])
  from bl_put_at_own[OF H(1) assms(2,3) this, of v] obtain b' d' bs where
    P: "bl_put_at b k v (int (bl_slots b ! j)) iv = Some (b', OK)"
    "bl_own b' (ds[j := d']) (ass[j := bs]) (xss[j := ins k v (xss ! j)])"
    "map_of (concat (xss[j := ins k v (xss ! j)])) = (map_of (concat xss))(k \<mapsto> v)" "d' \<le> Suc (ds ! j)"
    "same_frame b b' (bl_slots b ! j)" "bl_size b' = bl_size b + 1" "end_addr (bl_mem b') = end_addr (bl_mem b)"
    "cur_addr (bl_mem b') \<le> cur_addr (bl_mem b) + (ds ! j + 3) * node_size" by blast
  have "\<forall>d \<in> set (ds[j := d']). d \<le> Suc D"
    using H(2) P(4) \<open>ds ! j \<le> D\<close> by (auto dest!: set_update_subset_insert[THEN subsetD] simp: le_SucI)
  then have "bl_holds b' (Suc D) (M(k \<mapsto> v))" using P(2,3) H(3) unfolding bl_holds_def by metis
  moreover have "bl_ranges b' = bl_ranges b" using P(5) by (simp add: same_frame_def)
  moreover have "cur_addr (bl_mem b') \<le> cur_addr (bl_mem b) + (D + 3) * node_size" using P(8) le by linarith
  ultimately show ?thesis unfolding put_result_def
    using P(1,6,7) same_frame_facts(2)[OF P(5)] good_after[OF assms(1), of b'] by blast
qed

lemma get_reached:
  assumes "bl_good b D M" "in_slot b j k"
  shows "bl_get_at b k (int (bl_slots b ! j)) = Some (M k)"
  using assms bl_get_at_own by (auto simp: bl_holds_def bl_good_def)

lemma update_reached:
  assumes "bl_good b D M" "in_slot b j k" "M k \<noteq> None"
  shows "update_result b D M k v (bl_update_at b k v (int (bl_slots b ! j)))"
proof -
  obtain ds ass xss where H: "bl_own b ds ass xss" "\<forall>d \<in> set ds. d \<le> D" "M = map_of (concat xss)"
    using assms(1) by (auto simp: bl_holds_def bl_good_def)
  from bl_update_at_own[OF H(1) assms(2), of v] assms(3) H(3) obtain m' where
    U: "bl_update_at b k v (int (bl_slots b ! j)) = Some (b\<lparr>bl_mem := m'\<rparr>, True)"
    "bl_own (b\<lparr>bl_mem := m'\<rparr>) ds ass (xss[j := ins k v (xss ! j)])"
    "map_of (concat (xss[j := ins k v (xss ! j)])) = (map_of (concat xss))(k \<mapsto> v)"
    "cur_addr m' = cur_addr (bl_mem b)" "end_addr m' = end_addr (bl_mem b)" by auto
  then have h: "bl_holds (b\<lparr>bl_mem := m'\<rparr>) D (M(k \<mapsto> v))" using H(2,3) unfolding bl_holds_def by metis
  have "bl_phys_key (b\<lparr>bl_mem := m'\<rparr>) = bl_phys_key b" by (simp add: bl_phys_key_def fun_eq_iff)
  then show ?thesis using U(1,4,5) good_after[OF assms(1) h]
    by (auto simp: update_result_def intro!: exI[of _ "b\<lparr>bl_mem := m'\<rparr>"])
qed

lemma delete_reached:
  assumes "bl_good b D M" "in_slot b j k" "counter_at b iv"
  shows "delete_result b D M k (bl_delete_at b k (int (bl_slots b ! j)) iv)"
proof -
  obtain ds ass xss where H: "bl_own b ds ass xss" "\<forall>d \<in> set ds. d \<le> D" "M = map_of (concat xss)"
    using assms(1) by (auto simp: bl_holds_def bl_good_def)
  from bl_delete_at_own[OF H(1) assms(2,3)] obtain b' where
    U: "bl_delete_at b k (int (bl_slots b ! j)) iv = Some (b', True, map_of (concat xss) k)"
    "bl_own b' ds ass (xss[j := filter (\<lambda>x. fst x \<noteq> k) (xss ! j)])"
    "map_of (concat (xss[j := filter (\<lambda>x. fst x \<noteq> k) (xss ! j)])) = (map_of (concat xss))(k := None)"
    "bl_size b' = bl_size b - 1" "cur_addr (bl_mem b') = cur_addr (bl_mem b)"
    "end_addr (bl_mem b') = end_addr (bl_mem b)" "bl_ranges b' = bl_ranges b" "bl_phys_key b' = bl_phys_key b" by blast
  then have h: "bl_holds b' D (M(k := None))" using H(2,3) unfolding bl_holds_def by metis
  show ?thesis unfolding delete_result_def using U good_after[OF assms(1) h] H(3) by blast
qed

text \<open>When a search reaches the entry: a window that contains it, a predicted position.\<close>

lemma find_reaches:
  assumes "bl_shape b" "in_slot b j k" "begin_idx \<le> Suc j" "j \<le> end_idx"
  shows "reaches b k (bl_find b k begin_idx end_idx)"
  using bl_find_correct[OF assms] assms(2) by (auto simp: reaches_def)

subsection \<open>Any predicted position\<close>

lemma bl_find_near_any:
  assumes "bl_shape b" "gaps_ok b" "in_slot b j k"
  shows "\<exists>iv. bl_find_near b k pos = Some (int (bl_slots b ! j), iv) \<and> counter_at b iv"
proof -
  obtain i d where S: "i < 4" "d < range_entries (rng b i)" "j = logical_start (rng b i) + d"
    "bl_slots b ! j = physical_start (rng b i) + d" "find_brange_by_key b k = Some i"
    "le_pos (bl_phys_key b) k (int (physical_start (rng b i))) (range_last (rng b i)) (int (bl_slots b ! j))"
    "strict_on (bl_phys_key b) (int (physical_start (rng b i))) (range_last (rng b i))"
    "range_last (rng b i) < int (physical_nr b)" using in_slot_range[OF assms(1,3)] .
  have r: "ranges_ok (bl_ranges b) (physical_nr b)" using assms by (simp add: bl_shape_def)
  have g: "logical_start (rng b i) \<le> physical_start (rng b i)"
    "\<And>n. n < physical_start (rng b i) \<Longrightarrow> bl_phys_key b n \<le> start_key (rng b i)"
    using assms(2) S(1) by (auto simp: gaps_ok_def)
  have sk: "start_key (rng b i) \<le> k"
  proof -
    have "start_key (rng b i) = bl_phys_key b (physical_start (rng b i))" using assms(1) S(1) by (simp add: bl_shape_def)
    also have "\<dots> \<le> k" using S(2,4,6) by (auto simp: le_pos_def dest!: spec[of _ "int (physical_start (rng b i))"])
    finally show ?thesis .
  qed
  have lp: "le_pos (bl_phys_key b) k 0 (range_last (rng b i)) (int (bl_slots b ! j))"
    unfolding le_pos_def
  proof (intro conjI allI impI)
    fix x assume x: "0 \<le> x \<and> x \<le> int (bl_slots b ! j)"
    show "bl_phys_key b (nat x) \<le> k"
    proof (cases "x < int (physical_start (rng b i))")
      case True
      then have "nat x < physical_start (rng b i)" using x by linarith
      from g(2)[OF this] sk show ?thesis by (rule order_trans)
    qed (use S(6) x in \<open>simp add: le_pos_def\<close>)
  qed (use S(6) in \<open>auto simp: le_pos_def\<close>)
  have c: "0 \<le> clip_pos b i pos" "clip_pos b i pos \<le> range_last (rng b i)"
    using S(1,2) g(1) ranges_unfold(5)[OF r S(1)] by (auto simp: clip_pos_def get_physical_def range_last_def)
  have "near_in (bl_phys_key b) k (int (physical_start (rng b i))) (range_last (rng b i)) (clip_pos b i pos)
      = int (bl_slots b ! j)"
    using c S(4) by (intro near_in_correct[OF lp]) auto
  then show ?thesis using S(1-5,8) c interval_valid[OF assms(1) S(1,2)]
    by (cases "interval_of b i (int (physical_start (rng b i) + d))") (simp add: bl_find_near_def Let_def)
qed

lemma near_reaches:
  assumes "bl_good b D M"
  obtains j iv where "in_slot b j k" "bl_find_near b k pos = Some (int (bl_slots b ! j), iv)" "counter_at b iv"
proof -
  have sh: "bl_shape b" using bl_good_shape[OF assms] .
  have g: "gaps_ok b" using assms by (simp add: bl_good_def)
  obtain j where j: "in_slot b j k" using in_slot_exists[OF sh] by blast
  obtain iv where "bl_find_near b k pos = Some (int (bl_slots b ! j), iv)" "counter_at b iv"
    using bl_find_near_any[OF sh g j, of pos] by blast
  then show thesis using that j by blast
qed

lemma near_ops_good:
  assumes "bl_good b D M"
  shows "bl_get_near b k pos = Some (M k)"
    "bl_room b D \<Longrightarrow> put_result b D M k v (bl_put_near b k v pos)"
    "M k \<noteq> None \<Longrightarrow> update_result b D M k v (bl_update_near b k v pos)"
    "delete_result b D M k (bl_delete_near b k pos)"
proof -
  obtain j iv where J: "in_slot b j k" "bl_find_near b k pos = Some (int (bl_slots b ! j), iv)" "counter_at b iv"
    using near_reaches[OF assms] .
  show "bl_get_near b k pos = Some (M k)" using get_reached[OF assms J(1)] J(2) by (simp add: bl_get_near_def)
  show "put_result b D M k v (bl_put_near b k v pos)" if "bl_room b D"
    using put_reached[OF assms J(1,3) that, of v] J(2) by (simp add: bl_put_near_def)
  show "update_result b D M k v (bl_update_near b k v pos)" if "M k \<noteq> None"
    using update_reached[OF assms J(1) that, of v] J(2) by (simp add: bl_update_near_def)
  show "delete_result b D M k (bl_delete_near b k pos)"
    using delete_reached[OF assms J(1,3)] J(2) by (simp add: bl_delete_near_def)
qed

text \<open>The same from a window of logical indices; the window may also begin one past the slot.\<close>

definition window_ok :: "blevel \<Rightarrow> u64 \<Rightarrow> nat \<Rightarrow> nat \<Rightarrow> bool" where
  "window_ok b k begin_idx end_idx \<longleftrightarrow> (\<forall>j < length (bl_slots b). in_slot b j k \<longrightarrow> begin_idx \<le> Suc j \<and> j \<le> end_idx)"

lemma window_ops_good:
  assumes "bl_good b D M" "window_ok b k begin_idx end_idx"
  shows "bl_get b k begin_idx end_idx = Some (M k)"
    "bl_room b D \<Longrightarrow> put_result b D M k v (bl_put b k v begin_idx end_idx)"
    "M k \<noteq> None \<Longrightarrow> update_result b D M k v (bl_update b k v begin_idx end_idx)"
    "delete_result b D M k (bl_delete b k begin_idx end_idx)"
proof -
  note sh = bl_good_shape[OF assms(1)]
  obtain j where j: "in_slot b j k" using in_slot_exists[OF sh] by blast
  have w: "begin_idx \<le> Suc j" "j \<le> end_idx" using assms(2) j by (auto simp: window_ok_def in_slot_def)
  obtain iv where F: "bl_find b k begin_idx end_idx = Some (int (bl_slots b ! j), iv)" "counter_at b iv"
    using bl_find_correct[OF sh j w] by blast
  show "bl_get b k begin_idx end_idx = Some (M k)" using get_reached[OF assms(1) j] F(1) by (simp add: bl_get_def)
  show "put_result b D M k v (bl_put b k v begin_idx end_idx)" if "bl_room b D"
    using put_reached[OF assms(1) j F(2) that, of v] F(1) by (simp add: bl_put_def)
  show "update_result b D M k v (bl_update b k v begin_idx end_idx)" if "M k \<noteq> None"
    using update_reached[OF assms(1) j that, of v] F(1) by (simp add: bl_update_def)
  show "delete_result b D M k (bl_delete b k begin_idx end_idx)"
    using delete_reached[OF assms(1) j F(2)] F(1) by (simp add: bl_delete_def)
qed

end
