(* ===== verification/BLevelExpand.thy ===== *)
theory BLevelExpand
  imports BLevelOps
begin

text \<open>
  \<^verbatim>\<open>src/blevel.cc\<close>, lines 27 to 511: construction and expansion of the B-level.  A B-level is
  filled by \<^verbatim>\<open>ExpandPut_\<close>, which collects four pairs and then constructs one entry, either
  from a sorted vector (the first B-level) or from the entries of the old B-level, which is
  cut into four parts of similar size.  The four threads write disjoint parts of the array; they
  are run one after the other here.  The mapped file of the array is new, hence zero.

  The members that the constructor leaves uninitialised are \<open>[]\<close> (or an argument where code
  may read them).  \<open>None\<close> is a failed assertion, an access outside an array, or the unsigned
  \<^verbatim>\<open>intervals_ - 1\<close> of a range without entries.
\<close>

subsection \<open>Common prefixes\<close>

definition clz64 :: "u64 \<Rightarrow> nat" where
  "clz64 w = length (takeWhile (\<lambda>i. \<not> bit w i) (rev [0..<64]))"

definition common_prefix_bytes :: "u64 \<Rightarrow> u64 \<Rightarrow> nat" where
  "common_prefix_bytes a b = (if a XOR b = 0 then 64 else clz64 (a XOR b)) div 8"

subsection \<open>State\<close>

text \<open>\<open>ex_new\<close> and \<open>ex_max\<close> are the pointers into the array of entries as indices; \<open>ex_max_key\<close>
  and \<open>ex_expanded\<close> are the atomic counters the structure points to.\<close>

record expand_data =
  ex_new :: nat
  ex_max :: nat
  ex_keys :: "u64 list"
  ex_values :: "u64 list"
  ex_clevel_data :: int
  ex_clevel_count :: nat
  ex_bentry_max :: nat
  ex_size :: u64
  ex_begin_range :: nat
  ex_begin_interval :: nat
  ex_end_range :: nat
  ex_end_interval :: nat
  ex_target :: nat
  ex_entry_key :: u64
  ex_last_key :: u64
  ex_buf_count :: nat
  ex_max_key :: u64
  ex_expanded :: nat

definition ex_data :: "nat \<Rightarrow> nat \<Rightarrow> u64 \<Rightarrow> expand_data" where
  "ex_data first_addr limit_addr first_entry_key =
     \<lparr>ex_new = first_addr, ex_max = limit_addr, ex_keys = replicate expand_buf_key 0,
      ex_values = replicate expand_buf_key 0, ex_clevel_data = 0, ex_clevel_count = 0, ex_bentry_max = 0,
      ex_size = 0, ex_begin_range = 0, ex_begin_interval = 0, ex_end_range = 0, ex_end_interval = 0,
      ex_target = 0, ex_entry_key = first_entry_key, ex_last_key = 0, ex_buf_count = 0,
      ex_max_key = 0, ex_expanded = 0\<rparr>"

definition zero_entry :: nobuf_entry where
  "zero_entry = \<lparr>nb_key = 0, nb_clevel = six_bytes 0, nb_prefix = 0, nb_suffix = 0, nb_entries = 0, nb_max = 0\<rparr>"

definition bl_new :: "nat \<Rightarrow> clmem \<Rightarrow> blevel" where
  "bl_new data_size m =
     (let physical_nr_entries = ((data_size + 1 + expand_buf_key - 1) div expand_buf_key) * 12 div 10
      in \<lparr>bl_entries = replicate physical_nr_entries zero_entry, bl_nr = 0, bl_size = 0, bl_mem = m,
          bl_ranges = [], bl_interval_size = 0, bl_intervals = [], bl_sizes = []\<rparr>)"

subsection \<open>Filling entries\<close>

text \<open>Putting the buffered pairs into an entry; the values are buffered from the end.\<close>

fun ex_put_buffered :: "clmem \<Rightarrow> nobuf_entry \<Rightarrow> expand_data \<Rightarrow> nat list \<Rightarrow> (clmem \<times> nobuf_entry) option" where
  "ex_put_buffered m e d [] = Some (m, e)"
| "ex_put_buffered m e d (i # is) =
     do {
       (m1, e1, _) \<leftarrow> nb_put m e (ex_keys d ! i) (ex_values d ! (expand_buf_key - i - 1));
       ex_put_buffered m1 e1 d is
     }"

definition flush_to_entry :: "clmem \<Rightarrow> nobuf_entry \<Rightarrow> expand_data \<Rightarrow> (clmem \<times> nobuf_entry \<times> expand_data) option" where
  "flush_to_entry m e d =
     do {
       (m1, e1) \<leftarrow> ex_put_buffered m e d [0..<ex_buf_count d];
       Some (m1, e1, d\<lparr>ex_buf_count := 0\<rparr>)
     }"

text \<open>The two branches: a new entry, or the last entry of a full array.\<close>

definition ex_new_entry :: "blevel \<Rightarrow> expand_data \<Rightarrow> u64 \<Rightarrow> (blevel \<times> expand_data) option" where
  "ex_new_entry b d next_key =
     do {
       let prefix_len = common_prefix_bytes (ex_entry_key d) next_key;
       raw \<leftarrow> bl_entry b (ex_new d);
       (m1, e1) \<leftarrow> nb_new (bl_mem b) raw (ex_entry_key d) prefix_len;
       (m2, e2, d2) \<leftarrow> flush_to_entry m1 e1 d;
       Some (bl_set_entry (b\<lparr>bl_mem := m2\<rparr>) (ex_new d) e2, d2\<lparr>ex_expanded := ex_expanded d + 1, ex_new := ex_new d + 1\<rparr>)
     }"

definition ex_last_entry :: "blevel \<Rightarrow> expand_data \<Rightarrow> (blevel \<times> expand_data) option" where
  "ex_last_entry b d =
     do {
       e \<leftarrow> (if ex_new d = 0 then None else bl_entry b (ex_new d - 1));
       (m1, e1) \<leftarrow> ex_put_buffered (bl_mem b) e d [0..<ex_buf_count d];
       Some (bl_set_entry (b\<lparr>bl_mem := m1\<rparr>) (ex_new d - 1) e1, d\<lparr>ex_buf_count := 0\<rparr>)
     }"

definition ex_spill :: "blevel \<Rightarrow> expand_data \<Rightarrow> u64 \<Rightarrow> (blevel \<times> expand_data) option" where
  "ex_spill b d key =
     do {
       (b1, d1) \<leftarrow> (if ex_new d < ex_max d then do {
           (b1, d1) \<leftarrow> ex_new_entry b d (if ex_new d = ex_max d - 1 then ex_last_key d else key);
           Some (b1, d1\<lparr>ex_entry_key := key\<rparr>)
         } else ex_last_entry b d);
       Some (b1, d1\<lparr>ex_max_key := key\<rparr>)
     }"

definition expand_put :: "blevel \<Rightarrow> expand_data \<Rightarrow> u64 \<Rightarrow> u64 \<Rightarrow> (blevel \<times> expand_data) option" where
  "expand_put b d key value =
     do {
       (b1, d1) \<leftarrow> (if ex_buf_count d = expand_buf_key then ex_spill b d key else Some (b, d));
       Some (b1, d1\<lparr>ex_keys := (ex_keys d1)[ex_buf_count d1 := key],
                    ex_values := (ex_values d1)[expand_buf_key - ex_buf_count d1 - 1 := value],
                    ex_buf_count := ex_buf_count d1 + 1, ex_size := ex_size d1 + 1\<rparr>)
     }"

definition expand_finish :: "blevel \<Rightarrow> expand_data \<Rightarrow> (blevel \<times> expand_data) option" where
  "expand_finish b d =
     (if ex_buf_count d \<noteq> 0 then do {
        (b1, d1) \<leftarrow> (if ex_new d < ex_max d then ex_new_entry b d (ex_last_key d) else ex_last_entry b d);
        Some (b1, d1\<lparr>ex_max_key := ex_last_key d1\<rparr>)
      } else Some (b, d))"

fun expand_put_all :: "blevel \<Rightarrow> expand_data \<Rightarrow> kv list \<Rightarrow> (blevel \<times> expand_data) option" where
  "expand_put_all b d [] = Some (b, d)"
| "expand_put_all b d (x # xs) = do { (b1, d1) \<leftarrow> expand_put b d (fst x) (snd x); expand_put_all b1 d1 xs }"

subsection \<open>The first B-level\<close>

definition range_sentinel :: nat where "range_sentinel = 2 ^ 32 - 1"

text \<open>The counters of a range: full intervals, and the rest in the last one.\<close>

definition interval_counters :: "nat \<Rightarrow> nat \<Rightarrow> nat \<Rightarrow> u64 list" where
  "interval_counters isize n ni =
     replicate (ni - 1) (of_nat (isize * expand_buf_key)) @ [of_nat ((n - isize * (ni - 1)) * expand_buf_key)]"

text \<open>The four ranges: equal parts, the last one takes the rest; they follow one another.\<close>

definition load_counts :: "nat \<Rightarrow> nat list" where
  "load_counts entry_count =
     (let range_size = entry_count div expand_threads
      in map (\<lambda>i. if i < expand_threads - 1 then range_size
                  else entry_count - (expand_threads - 1) * range_size) [0..<expand_threads])"

definition load_ranges :: "blevel \<Rightarrow> nat list \<Rightarrow> brange list" where
  "load_ranges b counts =
     map (\<lambda>i. let nr = sum_list (take i counts)
              in \<lparr>start_key = bl_phys_key b nr, logical_start = nr, physical_start = nr, range_entries = counts ! i\<rparr>)
         [0..<expand_threads] @
     [\<lparr>start_key = -1, logical_start = sum_list counts, physical_start = sum_list counts,
       range_entries = range_sentinel\<rparr>]"

definition bl_load :: "blevel \<Rightarrow> kv list \<Rightarrow> blevel option" where
  "bl_load b data =
     (if data = [] then Some b
      else do {
        let d0 = (ex_data 0 (physical_nr b) 0)\<lparr>ex_last_key := -1\<rparr>;
        (b1, d1) \<leftarrow> expand_put_all b d0 data;
        (b2, d2) \<leftarrow> expand_finish b1 d1;
        let entry_count = ex_expanded d2;
        let isize = max 4 (entry_count div expand_threads div 128);
        let counts = load_counts entry_count;
        let intervals = map (\<lambda>n. (n + isize - 1) div isize) counts;
        if 0 \<in> set intervals then None
        else do {
          let b3 = b2\<lparr>bl_ranges := load_ranges b2 counts, bl_interval_size := isize, bl_intervals := intervals,
                     bl_sizes := map (\<lambda>i. interval_counters isize (counts ! i) (intervals ! i)) [0..<expand_threads],
                     bl_nr := entry_count, bl_size := bl_size b2 + ex_size d2\<rparr>;
          if bl_size b3 = of_nat (length data) then Some b3 else None
        }
      })"

subsection \<open>Cutting the old B-level into four parts\<close>

text \<open>The loop of \<^verbatim>\<open>PrepareExpansion\<close> runs over the intervals of the old B-level with the running
  sums of their sizes.\<close>

fun interval_sums :: "u64 \<Rightarrow> u64 list \<Rightarrow> u64 list" where
  "interval_sums s [] = []"
| "interval_sums s (x # xs) = (s + x) # interval_sums (s + x) xs"

definition old_intervals :: "blevel \<Rightarrow> (nat \<times> nat) list" where
  "old_intervals old = concat (map (\<lambda>i. map (\<lambda>j. (i, j)) [0..<bl_intervals old ! i]) [0..<expand_threads])"

record prep =
  pr_range :: nat
  pr_size :: u64
  pr_min :: u64
  pr_ranges :: "brange list"
  pr_data :: "expand_data list"

definition diff64 :: "u64 \<Rightarrow> u64 \<Rightarrow> u64" where
  "diff64 a b = (if a > b then a - b else b - a)"

definition range_data :: "brange list \<Rightarrow> nat \<Rightarrow> expand_data" where
  "range_data rs i = ex_data (physical_start (rs ! i)) (physical_start (rs ! (i + 1))) (start_key (rs ! i))"

definition prep_step :: "blevel \<Rightarrow> u64 \<Rightarrow> (nat \<times> nat) \<times> u64 \<Rightarrow> prep \<Rightarrow> prep option" where
  "prep_step old range_size ijs s =
     (let ((i, j), cnt) = ijs;
          cur_diff = diff64 cnt (pr_size s);
          cur = pr_range s
      in if cur_diff < pr_min s then Some (s\<lparr>pr_min := cur_diff\<rparr>)
         else if (j = 0 \<and> i = 0) \<or> cur + 1 \<ge> expand_threads then None
         else let (er, ei) = (if j = 0 then (i - 1, bl_intervals old ! (i - 1) - 1) else (i, j - 1));
                  cut = (pr_data s)[cur := (pr_data s ! cur)\<lparr>ex_end_range := er, ex_end_interval := ei\<rparr>];
                  nxt = cur + 1;
                  size = (if nxt = expand_threads - 1 then -1 else pr_size s + range_size);
                  key = bl_phys_key old (physical_start (bl_ranges old ! i) + bl_interval_size old * j);
                  rs = (pr_ranges s)[nxt := (pr_ranges s ! nxt)\<lparr>start_key := key\<rparr>]
              in Some \<lparr>pr_range = nxt, pr_size = size, pr_min = diff64 cnt size, pr_ranges = rs,
                       pr_data = cut[nxt := (range_data rs nxt)\<lparr>ex_begin_range := i, ex_begin_interval := j,
                                                               ex_target := nxt\<rparr>]\<rparr>)"

fun prep_loop :: "blevel \<Rightarrow> u64 \<Rightarrow> ((nat \<times> nat) \<times> u64) list \<Rightarrow> prep \<Rightarrow> prep option" where
  "prep_loop old range_size [] s = Some s"
| "prep_loop old range_size (x # xs) s = do { s1 \<leftarrow> prep_step old range_size x s; prep_loop old range_size xs s1 }"

text \<open>\<^verbatim>\<open>PrepareExpansion\<close>.  \<open>stale\<close> stands for the logical starts, which are not written before
  \<^verbatim>\<open>FinishExpansion_\<close>, and \<open>stale_data\<close> for the old contents of the static array.\<close>

definition prepare_expansion ::
  "nat list \<Rightarrow> expand_data list \<Rightarrow> blevel \<Rightarrow> blevel \<Rightarrow> (blevel \<times> expand_data list) option" where
  "prepare_expansion stale stale_data b old =
     do {
       let isize = max 8 (physical_nr b div expand_threads div 128);
       let per_range = physical_nr b div expand_threads;
       let counts = map (\<lambda>i. if i \<noteq> expand_threads - 1 then per_range
                             else physical_nr b - (expand_threads - 1) * per_range) [0..<expand_threads];
       let intervals = map (\<lambda>n. (n + isize - 1) div isize) counts;
       let ranges0 = map (\<lambda>i. \<lparr>start_key = 0, logical_start = stale ! i, physical_start = i * per_range,
                               range_entries = counts ! i\<rparr>) [0..<expand_threads] @
                     [\<lparr>start_key = 0, logical_start = stale ! expand_threads, physical_start = physical_nr b,
                       range_entries = range_sentinel\<rparr>];
       let ivs = old_intervals old;
       let sums = interval_sums 0 (map (\<lambda>(i, j). bl_sizes old ! i ! j) ivs);
       let range_size = (if sums = [] then 0 else last sums) div of_nat expand_threads;
       s \<leftarrow> prep_loop old range_size (zip ivs sums)
              \<lparr>pr_range = 0, pr_size = range_size, pr_min = -1, pr_ranges = ranges0,
               pr_data = stale_data[0 := range_data ranges0 0]\<rparr>;
       if pr_range s = expand_threads - 1 then do {
         let lst = expand_threads - 1;
         let rs = (pr_ranges s)[expand_threads := (pr_ranges s ! expand_threads)\<lparr>start_key := -1\<rparr>];
         let ds = (pr_data s)[lst := (pr_data s ! lst)\<lparr>ex_end_range := lst,
                                                    ex_end_interval := bl_intervals old ! lst - 1\<rparr>];
         Some (b\<lparr>bl_ranges := rs, bl_interval_size := isize, bl_intervals := intervals,
                bl_sizes := map (\<lambda>n. replicate n 0) intervals\<rparr>,
               map (\<lambda>i. (ds ! i)\<lparr>ex_expanded := 0, ex_max_key := 0, ex_last_key := start_key (rs ! (i + 1))\<rparr>)
                 [0..<expand_threads])
       } else None
     }"

subsection \<open>Expanding\<close>

text \<open>The loop over the pairs of one old entry, a \<^verbatim>\<open>do\<close> loop: it reads a pair before it tests.
  The fuel bounds the pairs of the old entry.\<close>

fun expand_entry_loop ::
  "nat \<Rightarrow> blevel \<Rightarrow> expand_data \<Rightarrow> clmem \<Rightarrow> nobuf_entry \<Rightarrow> nbiter \<Rightarrow> nat \<Rightarrow> (blevel \<times> expand_data \<times> nat) option" where
  "expand_entry_loop 0 b d om e it cnt = None"
| "expand_entry_loop (Suc n) b d om e it cnt =
     do {
       k \<leftarrow> nb_iter_key om e it;
       v \<leftarrow> nb_iter_value om it;
       (b1, d1) \<leftarrow> expand_put b d k v;
       (it1, more) \<leftarrow> nb_iter_next om it;
       if more then expand_entry_loop n b1 d1 om e it1 (cnt + 1) else Some (b1, d1, cnt + 1)
     }"

definition entry_fuel :: "clmem \<Rightarrow> nat" where
  "entry_fuel m = 16 * cl_fuel m"

definition expand_entry :: "blevel \<Rightarrow> expand_data \<Rightarrow> clmem \<Rightarrow> nobuf_entry \<Rightarrow> (blevel \<times> expand_data) option" where
  "expand_entry b d om e =
     (if cl_has_setup (nb_clevel e) then do {
        it \<leftarrow> nb_iter_begin om e;
        (b1, d1, cnt) \<leftarrow> expand_entry_loop (entry_fuel om) b (d\<lparr>ex_clevel_count := ex_clevel_count d + 1\<rparr>) om e it 0;
        Some (b1, d1\<lparr>ex_clevel_data := ex_clevel_data d1 + (int cnt - int (nb_entries e)),
                    ex_bentry_max := max (ex_bentry_max d1) cnt\<rparr>)
      } else Some (b, d))"

definition move_entry :: "blevel \<Rightarrow> expand_data \<Rightarrow> blevel \<Rightarrow> nat \<Rightarrow> (blevel \<times> expand_data \<times> blevel) option" where
  "move_entry b d old i =
     do {
       e \<leftarrow> bl_entry old i;
       (b1, d1) \<leftarrow> expand_entry b d (bl_mem old) e;
       Some (b1, d1, bl_set_entry old i (nb_set_invalid e))
     }"

fun expand_entries :: "blevel \<Rightarrow> expand_data \<Rightarrow> blevel \<Rightarrow> nat list \<Rightarrow> (blevel \<times> expand_data \<times> blevel) option" where
  "expand_entries b d old [] = Some (b, d, old)"
| "expand_entries b d old (i # is) = do { (b1, d1, old1) \<leftarrow> move_entry b d old i; expand_entries b1 d1 old1 is }"

text \<open>The physical indices that a thread moves.\<close>

definition old_indices :: "blevel \<Rightarrow> expand_data \<Rightarrow> nat list" where
  "old_indices old d =
     (let br = ex_begin_range d; er = ex_end_range d;
          rs = bl_ranges old;
          pb = physical_start (rs ! br) + ex_begin_interval d * bl_interval_size old;
          pe = physical_start (rs ! er) + min (range_entries (rs ! er)) ((ex_end_interval d + 1) * bl_interval_size old)
      in concat (map (\<lambda>r. [if r = br then pb else physical_start (rs ! r) ..<
                           if r = er then pe else physical_start (rs ! r) + range_entries (rs ! r)])
                 [br..<er + 1]))"

definition close_range :: "blevel \<Rightarrow> expand_data \<Rightarrow> blevel option" where
  "close_range b d =
     (let t = ex_target d;
          n = ex_expanded d;
          ni = (n + bl_interval_size b - 1) div bl_interval_size b
      in if ni = 0 \<or> ni > length (bl_sizes b ! t) then None
         else Some (b\<lparr>bl_ranges := (bl_ranges b)[t := (bl_ranges b ! t)\<lparr>range_entries := n\<rparr>],
                      bl_size := bl_size b + ex_size d,
                      bl_intervals := (bl_intervals b)[t := ni],
                      bl_sizes := (bl_sizes b)[t := map2 (+) (take ni (bl_sizes b ! t))
                                     (interval_counters (bl_interval_size b) n ni) @ drop ni (bl_sizes b ! t)]\<rparr>))"

definition expand_range ::
  "blevel \<Rightarrow> expand_data list \<Rightarrow> blevel \<Rightarrow> nat \<Rightarrow> (blevel \<times> expand_data list \<times> blevel) option" where
  "expand_range b ds old tid =
     do {
       (b1, d1, old1) \<leftarrow> expand_entries b (ds ! tid) old (old_indices old (ds ! tid));
       (b2, d2) \<leftarrow> expand_finish b1 d1;
       b3 \<leftarrow> close_range b2 d2;
       Some (b3, ds[tid := d2], old1)
     }"

definition finish_expansion :: "blevel \<Rightarrow> blevel option" where
  "finish_expansion b =
     (let counts = map range_entries (take expand_threads (bl_ranges b));
          rs = map (\<lambda>i. (bl_ranges b ! i)\<lparr>logical_start := sum_list (take i counts)\<rparr>) [0..<expand_threads + 1]
      in if list_all (\<lambda>i. physical_start (rs ! i) < physical_nr b \<and>
                          start_key (rs ! i) = bl_phys_key b (physical_start (rs ! i))) [0..<expand_threads]
         then Some (b\<lparr>bl_ranges := rs, bl_nr := sum_list counts\<rparr>) else None)"

fun expand_ranges ::
  "blevel \<Rightarrow> expand_data list \<Rightarrow> blevel \<Rightarrow> nat list \<Rightarrow> (blevel \<times> expand_data list \<times> blevel) option" where
  "expand_ranges b ds old [] = Some (b, ds, old)"
| "expand_ranges b ds old (i # is) =
     do { (b1, ds1, old1) \<leftarrow> expand_range b ds old i; expand_ranges b1 ds1 old1 is }"

definition bl_expand :: "blevel \<Rightarrow> expand_data list \<Rightarrow> blevel \<Rightarrow> (blevel \<times> expand_data list \<times> blevel) option" where
  "bl_expand b ds old =
     do {
       (b1, ds1, old1) \<leftarrow> expand_ranges b ds old [0..<expand_threads];
       b2 \<leftarrow> finish_expansion b1;
       Some (b2, ds1, old1)
     }"

text \<open>\<^verbatim>\<open>IsKeyExpanded\<close>: the range of the key, and the last entry that is complete in it when the
  key is already in the new B-level.\<close>

definition is_key_expanded :: "blevel \<Rightarrow> expand_data list \<Rightarrow> u64 \<Rightarrow> (nat \<times> nat option) option" where
  "is_key_expanded b ds key =
     map_option (\<lambda>i. (i, if key < ex_max_key (ds ! i)
                         then Some (physical_start (bl_ranges b ! i) + ex_expanded (ds ! i) - 1) else None))
       (find_brange_by_key b key)"

end
