(* ===== verification/BLevelLoad.thy ===== *)
theory BLevelLoad
  imports BLevelExpand
begin

text \<open>
  The first B-level: loading strictly sorted pairs gives a B-level that satisfies the
  invariant of BLevelOps and holds exactly these pairs.  The middle part follows one expansion
  thread: a run of entries that grows by four pairs at a time (\<open>ex_run\<close>).
\<close>

subsection \<open>The common prefix of a range of keys\<close>

lemma clz64_high: "i < 64 \<Longrightarrow> 64 - clz64 w \<le> i \<Longrightarrow> \<not> bit w i"
proof -
  assume i: "i < 64" "64 - clz64 w \<le> i"
  let ?ts = "takeWhile (\<lambda>i. \<not> bit w i) (rev [0..<64])"
  have l: "63 - i < length ?ts" using i by (auto simp: clz64_def)
  then have "?ts ! (63 - i) = rev [0..<64] ! (63 - i)" by (rule takeWhile_nth)
  also have "\<dots> = i" using i by (subst rev_nth) simp_all
  finally have "i \<in> set ?ts" using l nth_mem by metis
  then show "\<not> bit w i" by (auto dest: set_takeWhileD)
qed

lemma clz64_low: "w \<noteq> 0 \<Longrightarrow> clz64 w < 64"
proof -
  assume "w \<noteq> 0"
  then obtain i where i: "bit w i" by (auto simp: bit_eq_iff)
  then have "i < 64" using bit_imp_le_length[of w i] by simp
  with i have ne: "takeWhile (\<lambda>i. \<not> bit w i) (rev [0..<64]) \<noteq> rev [0..<64]"
    by (auto simp: takeWhile_eq_all_conv)
  have "clz64 w \<le> 64" using length_takeWhile_le[of "\<lambda>i. \<not> bit w i" "rev [0..<64]"] by (simp add: clz64_def)
  moreover have "clz64 w \<noteq> 64"
    using ne takeWhile_eq_take[of "\<lambda>i. \<not> bit w i" "rev [0..<64]"] by (auto simp: clz64_def)
  ultimately show "clz64 w < 64" by simp
qed

lemma xor_zero: "a XOR b = 0 \<longleftrightarrow> a = (b :: u64)"
proof
  assume "a XOR b = 0"
  then have "(a XOR b) XOR b = b" by simp
  then show "a = b" by (simp add: xor.assoc)
qed simp

lemma common_prefix_less: "a \<noteq> b \<Longrightarrow> common_prefix_bytes a b < 8"
  using clz64_low[of "a XOR b"] by (auto simp: common_prefix_bytes_def xor_zero)

lemma common_prefix_le: "common_prefix_bytes a b \<le> 8"
  using common_prefix_less[of a b] by (cases "a = b") (auto simp: common_prefix_bytes_def)

lemma common_prefix_covers:
  assumes "a \<le> k" "k \<le> b"
  shows "same_prefix (common_prefix_bytes a b) a k"
proof -
  define c where "c = common_prefix_bytes a b"
  define n where "n = 8 * (8 - c)"
  have c8: "c \<le> 8" using common_prefix_le by (simp add: c_def)
  have hi: "bit a i = bit b i" if "i < 64" "n \<le> i" for i
  proof (cases "a XOR b = 0")
    case True
    then show ?thesis by (simp add: xor_zero)
  next
    case False
    have "8 * c \<le> clz64 (a XOR b)" using False by (simp add: c_def common_prefix_bytes_def)
    then have "64 - clz64 (a XOR b) \<le> i" using that(2) unfolding n_def by linarith
    then have "\<not> bit (a XOR b) i" using clz64_high that(1) by blast
    then show ?thesis by (simp add: bit_simps)
  qed
  have "bit a (n + j) = bit b (n + j)" for j
    using hi[of "n + j"] bit_imp_le_length[of a "n + j"] bit_imp_le_length[of b "n + j"] by (cases "n + j < 64") auto
  then have "drop_bit n a = drop_bit n b" by (intro bit_word_eqI) (simp add: bit_simps)
  then have "drop_bit n (unat a) = drop_bit n (unat b)" by (metis unat_drop_bit_eq)
  then have "unat a div 2 ^ n = unat b div 2 ^ n" by (simp add: drop_bit_eq_div)
  moreover have "unat a div 2 ^ n \<le> unat k div 2 ^ n" "unat k div 2 ^ n \<le> unat b div 2 ^ n"
    using assms by (auto intro!: div_le_mono simp: word_le_nat_alt)
  ultimately have "drop_bit n (unat a) = drop_bit n (unat k)" by (simp add: drop_bit_eq_div)
  then have "unat (drop_bit n a) = unat (drop_bit n k)" by (simp only: unat_drop_bit_eq)
  then have e: "drop_bit n a = drop_bit n k" by (rule word_unat_eq_iff[THEN iffD2])
  have "bit a i = bit k i" if "i < 64" "n \<le> i" for i
    using arg_cong[OF e, of "\<lambda>w. bit w (i - n)"] that by (simp add: bit_simps)
  then show ?thesis using same_prefix_bits[of c "8 - c" a k] c8 by (simp add: n_def c_def)
qed

subsection \<open>Filling one entry\<close>

lemma ins_append: "\<forall>x \<in> set xs. fst x < k \<Longrightarrow> ins k v xs = xs @ [(k, v)]"
  using ins_below[of xs k v "[]"] by (simp add: ins_def)

definition ex_pair :: "expand_data \<Rightarrow> nat \<Rightarrow> kv" where
  "ex_pair d i = (ex_keys d ! i, ex_values d ! (expand_buf_key - i - 1))"

definition ex_buffer :: "expand_data \<Rightarrow> kv list" where
  "ex_buffer d = map (ex_pair d) [0..<ex_buf_count d]"

definition puts_room :: "nat \<Rightarrow> nat \<Rightarrow> nat" where
  "puts_room dp n = n * ((dp + n + 3) * node_size)"

lemma puts_room_step: "d' \<le> Suc dp \<Longrightarrow> (dp + 3) * node_size + puts_room d' n \<le> puts_room dp (Suc n)"
proof -
  assume d: "d' \<le> Suc dp"
  define r where "r = (dp + Suc n + 3) * node_size"
  have "(dp + 3) * node_size \<le> r" unfolding r_def by (intro mult_le_mono1) simp
  moreover have "n * ((d' + n + 3) * node_size) \<le> n * r"
    unfolding r_def using d by (intro mult_le_mono mult_le_mono1) auto
  moreover have "puts_room dp (Suc n) = r + n * r" by (simp add: puts_room_def r_def)
  moreover have "puts_room d' n = n * ((d' + n + 3) * node_size)" by (simp add: puts_room_def)
  ultimately show ?thesis by linarith
qed

lemma ex_put_buffered_own:
  assumes "nb_own m e dp as xs" "\<forall>i \<in> set is. nb_fits e (ex_keys d ! i)"
    "keys_sorted (xs @ map (ex_pair d) is)" "cur_addr m + puts_room dp (length is) < end_addr m"
  shows "\<exists>m' c d' bs. ex_put_buffered m e d is = Some (m', e\<lparr>nb_clevel := c\<rparr>) \<and>
    nb_own m' (e\<lparr>nb_clevel := c\<rparr>) d' bs (xs @ map (ex_pair d) is) \<and> region_step as m bs m' \<and>
    d' \<le> dp + length is \<and> cur_addr m' \<le> cur_addr m + puts_room dp (length is)"
  using assms
proof (induction "is" arbitrary: m e dp as xs)
  case Nil
  have "e\<lparr>nb_clevel := nb_clevel e\<rparr> = e" by simp
  moreover have "region_ok m" using Nil.prems(1) by (simp add: nb_own_def)
  ultimately show ?case using Nil.prems region_step_refl
    by (intro exI[of _ m] exI[of _ "nb_clevel e"] exI[of _ dp] exI[of _ as]) simp
next
  case (Cons i "is")
  let ?k = "ex_keys d ! i" and ?v = "ex_values d ! (expand_buf_key - i - 1)"
  have step: "(dp + 3) * node_size + puts_room d' (length is) \<le> puts_room dp (length (i # is))" if "d' \<le> Suc dp" for d'
    using puts_room_step[OF that] by simp
  have room: "cur_addr m + (dp + 3) * node_size < end_addr m" using Cons.prems(4) step[of dp] by linarith
  have fit: "nb_fits e ?k" using Cons.prems(2) by simp
  have "keys_sorted (xs @ [ex_pair d i])" 
    using Cons.prems(3) by (auto simp: keys_sorted_append keys_sorted_Cons)
  then have ins: "ins ?k ?v xs = xs @ [ex_pair d i]"
    using ins_append[of xs ?k ?v] by (simp add: ex_pair_def keys_sorted_append)
  obtain m1 c1 d1 bs1 where P: "nb_put m e ?k ?v = Some (m1, e\<lparr>nb_clevel := c1\<rparr>, OK)"
    "nb_own m1 (e\<lparr>nb_clevel := c1\<rparr>) d1 bs1 (xs @ [ex_pair d i])" "region_step as m bs1 m1" "d1 \<le> Suc dp"
    "cur_addr m1 \<le> cur_addr m + (dp + 3) * node_size"
    using nb_put_own[OF Cons.prems(1) fit room, of ?v] unfolding ins by blast
  let ?e1 = "e\<lparr>nb_clevel := c1\<rparr>"
  have "\<forall>i \<in> set is. nb_fits ?e1 (ex_keys d ! i)" using Cons.prems(2) by (simp add: nb_fits_def)
  moreover have "keys_sorted ((xs @ [ex_pair d i]) @ map (ex_pair d) is)" using Cons.prems(3) by simp
  moreover have "cur_addr m1 + puts_room d1 (length is) < end_addr m1"
    using P(3,5) Cons.prems(4) step[OF P(4)] by (simp add: region_step_def)
  ultimately obtain m' c d' bs where Q: "ex_put_buffered m1 ?e1 d is = Some (m', ?e1\<lparr>nb_clevel := c\<rparr>)"
    "nb_own m' (?e1\<lparr>nb_clevel := c\<rparr>) d' bs ((xs @ [ex_pair d i]) @ map (ex_pair d) is)"
    "region_step bs1 m1 bs m'" "d' \<le> d1 + length is" "cur_addr m' \<le> cur_addr m1 + puts_room d1 (length is)"
    using Cons.IH[OF P(2)] by blast
  have "cur_addr m' \<le> cur_addr m + puts_room dp (length (i # is))" using Q(5) P(5) step[OF P(4)] by linarith
  then show ?case using P(1,4) Q region_step_trans[OF P(3) Q(3)]
    by (intro exI[of _ m'] exI[of _ c] exI[of _ d'] exI[of _ bs]) simp
qed

text \<open>An entry whose keys reach up to \<open>u\<close>.\<close>

definition run_entry :: "clmem \<Rightarrow> nobuf_entry \<Rightarrow> u64 \<Rightarrow> nat \<Rightarrow> nat set \<Rightarrow> kv list \<Rightarrow> bool" where
  "run_entry m e u d as xs \<longleftrightarrow> nb_own m e d as xs \<and> nb_is_valid e \<and>
     (\<forall>k. nb_key e \<le> k \<longrightarrow> k \<le> u \<longrightarrow> nb_fits e k) \<and> (\<forall>x \<in> set xs. nb_key e \<le> fst x \<and> fst x \<le> u)"

lemma run_entry_frame:
  assumes "run_entry m e u d as xs" "region_step bs m bs' m'" "as \<inter> bs = {}"
  shows "run_entry m' e u d as xs" "as \<inter> bs' = {}"
proof -
  have o: "nb_own m e d as xs" using assms(1) by (simp add: run_entry_def)
  note F = nb_own_frame[OF o assms(2,3)]
  show "run_entry m' e u d as xs" using F(1) assms(1) by (simp add: run_entry_def)
  show "as \<inter> bs' = {}" by (rule F(2))
qed

lemma run_entry_put:
  assumes "run_entry m e u dp as xs" "\<forall>i \<in> set is. nb_key e \<le> ex_keys d ! i \<and> ex_keys d ! i \<le> u"
    "keys_sorted (xs @ map (ex_pair d) is)" "cur_addr m + puts_room dp (length is) < end_addr m"
  shows "\<exists>m' e' d' bs. ex_put_buffered m e d is = Some (m', e') \<and> nb_key e' = nb_key e \<and>
    run_entry m' e' u d' bs (xs @ map (ex_pair d) is) \<and> region_step as m bs m' \<and>
    d' \<le> dp + length is \<and> cur_addr m' \<le> cur_addr m + puts_room dp (length is)"
proof -
  have o: "nb_own m e dp as xs" "\<forall>i \<in> set is. nb_fits e (ex_keys d ! i)"
    using assms(1,2) by (auto simp: run_entry_def)
  from ex_put_buffered_own[OF o assms(3,4)] obtain m' c d' bs where
    P: "ex_put_buffered m e d is = Some (m', e\<lparr>nb_clevel := c\<rparr>)"
    "nb_own m' (e\<lparr>nb_clevel := c\<rparr>) d' bs (xs @ map (ex_pair d) is)" "region_step as m bs m'"
    "d' \<le> dp + length is" "cur_addr m' \<le> cur_addr m + puts_room dp (length is)" by blast
  moreover have "run_entry m' (e\<lparr>nb_clevel := c\<rparr>) u d' bs (xs @ map (ex_pair d) is)"
    using assms(1,2) P(2) by (auto simp: run_entry_def nb_fits_def nb_is_valid_def nb_meta_def ex_pair_def)
  ultimately show ?thesis by (intro exI[of _ m'] exI[of _ "e\<lparr>nb_clevel := c\<rparr>"] exI[of _ d'] exI[of _ bs]) simp
qed

subsection \<open>A run of entries\<close>

definition entry_top :: "nobuf_entry list \<Rightarrow> u64 \<Rightarrow> nat \<Rightarrow> u64" where
  "entry_top es hi j = (if Suc j < length es then nb_key (es ! Suc j) else hi)"

definition run_of :: "clmem \<Rightarrow> nobuf_entry list \<Rightarrow> u64 \<Rightarrow> u64 \<Rightarrow> nat list \<Rightarrow> nat set list \<Rightarrow> kv list list \<Rightarrow> bool" where
  "run_of m es k0 hi ds ass xss \<longleftrightarrow> length ds = length es \<and> length ass = length es \<and> length xss = length es \<and>
     (\<forall>j < length es. xss ! j \<noteq> [] \<and> nb_key (es ! j) = (if j = 0 then k0 else fst (hd (xss ! j))) \<and>
        run_entry m (es ! j) (entry_top es hi j) (ds ! j) (ass ! j) (xss ! j)) \<and>
     (\<forall>i < length es. \<forall>j < length es. i \<noteq> j \<longrightarrow> ass ! i \<inter> ass ! j = {})"

lemma run_of_Nil [simp]: "run_of m [] k0 hi [] [] []"
  by (simp add: run_of_def)

text \<open>Adding an entry, or (with \<open>as\<close> its old nodes) putting back the last one.\<close>

lemma run_of_snoc:
  assumes "run_of m es k0 hi ds ass xss" "\<forall>i < length es. ass ! i \<inter> as = {}" "region_step as m bs m'"
    "run_entry m' e hi' dd bs ys" "ys \<noteq> []" "nb_key e = (if es = [] then k0 else fst (hd ys))"
    "es \<noteq> [] \<Longrightarrow> hi = nb_key e"
  shows "run_of m' (es @ [e]) k0 hi' (ds @ [dd]) (ass @ [bs]) (xss @ [ys])"
proof -
  let ?n = "length es"
  have len: "length ds = ?n" "length ass = ?n" "length xss = ?n" using assms(1) by (simp_all add: run_of_def)
  have old: "xss ! j \<noteq> []" "nb_key (es ! j) = (if j = 0 then k0 else fst (hd (xss ! j)))"
    "run_entry m (es ! j) (entry_top es hi j) (ds ! j) (ass ! j) (xss ! j)" if "j < ?n" for j
    using assms(1) that by (auto simp: run_of_def)
  have tops: "entry_top (es @ [e]) hi' j = entry_top es hi j" if "j < ?n" for j
  proof -
    have "es \<noteq> []" using that by auto
    then show ?thesis using that assms(7) by (auto simp: entry_top_def nth_append)
  qed
  have fr: "run_entry m' (es ! j) (entry_top es hi j) (ds ! j) (ass ! j) (xss ! j)" "ass ! j \<inter> bs = {}" if "j < ?n" for j
    using run_entry_frame[OF old(3)[OF that] assms(3)] assms(2) that by auto
  have lst: "run_entry m' ((es @ [e]) ! ?n) (entry_top (es @ [e]) hi' ?n) ((ds @ [dd]) ! ?n) ((ass @ [bs]) ! ?n) ((xss @ [ys]) ! ?n)"
    using assms(4) len by (simp add: entry_top_def nth_append)
  show ?thesis unfolding run_of_def
  proof (intro conjI allI impI)
    fix j assume j: "j < length (es @ [e])"
    show "(xss @ [ys]) ! j \<noteq> []" using j old(1) assms(5) len by (cases "j < ?n") (auto simp: nth_append)
    show "nb_key ((es @ [e]) ! j) = (if j = 0 then k0 else fst (hd ((xss @ [ys]) ! j)))"
      using j old(2) assms(6) len by (cases "j < ?n") (auto simp: nth_append)
    show "run_entry m' ((es @ [e]) ! j) (entry_top (es @ [e]) hi' j) ((ds @ [dd]) ! j) ((ass @ [bs]) ! j) ((xss @ [ys]) ! j)"
    proof (cases "j < ?n")
      case True
      then show ?thesis using fr(1)[OF True] tops[OF True] len by (simp add: nth_append)
    next
      case False
      then have "j = ?n" using j by simp
      then show ?thesis using lst by simp
    qed
  next
    fix i j assume ij: "i < length (es @ [e])" "j < length (es @ [e])" "i \<noteq> j"
    have "ass ! x \<inter> ass ! y = {}" if "x < ?n" "y < ?n" "x \<noteq> y" for x y
      using assms(1) that by (simp add: run_of_def)
    then show "(ass @ [bs]) ! i \<inter> (ass @ [bs]) ! j = {}" using ij fr(2) len
      by (cases "i < ?n"; cases "j < ?n") (auto simp: nth_append)
  qed (simp_all add: len)
qed

lemma run_of_init:
  assumes "run_of m (es @ [e]) k0 hi (ds @ [dd]) (ass @ [as]) (xss @ [ys])" "length ds = length es"
    "length ass = length es" "length xss = length es"
  shows "run_of m es k0 (nb_key e) ds ass xss" "run_entry m e hi dd as ys" "\<forall>i < length es. ass ! i \<inter> as = {}"
    "ys \<noteq> []" "nb_key e = (if es = [] then k0 else fst (hd ys))"
proof -
  let ?n = "length es"
  have all: "(xss @ [ys]) ! j \<noteq> []" "nb_key ((es @ [e]) ! j) = (if j = 0 then k0 else fst (hd ((xss @ [ys]) ! j)))"
    "run_entry m ((es @ [e]) ! j) (entry_top (es @ [e]) hi j) ((ds @ [dd]) ! j) ((ass @ [as]) ! j) ((xss @ [ys]) ! j)"
    if "j < Suc ?n" for j using assms(1) that by (simp_all add: run_of_def)
  have dis: "(ass @ [as]) ! i \<inter> (ass @ [as]) ! j = {}" if "i < Suc ?n" "j < Suc ?n" "i \<noteq> j" for i j
    using assms(1) that unfolding run_of_def by simp
  show "run_entry m e hi dd as ys" "ys \<noteq> []" "nb_key e = (if es = [] then k0 else fst (hd ys))"
    using all[of ?n] assms(2-4) by (auto simp: nth_append entry_top_def)
  show "\<forall>i < length es. ass ! i \<inter> as = {}" using dis[of _ ?n] assms(3) by (auto simp: nth_append)
  have tops: "entry_top (es @ [e]) hi j = entry_top es (nb_key e) j" if "j < ?n" for j
    using that by (auto simp: entry_top_def nth_append not_less intro!: arg_cong[of _ _ nb_key])
  have "xss ! j \<noteq> [] \<and> nb_key (es ! j) = (if j = 0 then k0 else fst (hd (xss ! j))) \<and>
      run_entry m (es ! j) (entry_top es (nb_key e) j) (ds ! j) (ass ! j) (xss ! j)" if "j < ?n" for j
    using all[of j] that assms(2-4) tops[OF that] by (auto simp: nth_append)
  moreover have "ass ! i \<inter> ass ! j = {}" if "i < ?n" "j < ?n" "i \<noteq> j" for i j
    using dis[of i j] that assms(3) by (simp add: nth_append)
  ultimately show "run_of m es k0 (nb_key e) ds ass xss" using assms(2-4) by (simp add: run_of_def)
qed

subsection \<open>The steps of a thread\<close>

text \<open>What a thread may change: the entries from \<open>lo\<close> to \<open>hi\<close> and the region.\<close>

definition ex_frame :: "nat \<Rightarrow> nat \<Rightarrow> blevel \<Rightarrow> blevel \<Rightarrow> bool" where
  "ex_frame lo hi b b' \<longleftrightarrow> b' = b\<lparr>bl_entries := bl_entries b', bl_mem := bl_mem b'\<rparr> \<and>
     length (bl_entries b') = length (bl_entries b) \<and>
     (\<forall>i. i < lo \<or> hi \<le> i \<longrightarrow> bl_entries b' ! i = bl_entries b ! i)"

lemma ex_frame_refl [simp]: "ex_frame lo hi b b"
  by (simp add: ex_frame_def)

lemma ex_frame_trans: "ex_frame lo hi b b1 \<Longrightarrow> ex_frame lo hi b1 b2 \<Longrightarrow> ex_frame lo hi b b2"
proof -
  assume a: "ex_frame lo hi b b1" "ex_frame lo hi b1 b2"
  then have "b2 = b1\<lparr>bl_entries := bl_entries b2, bl_mem := bl_mem b2\<rparr>"
    "b1 = b\<lparr>bl_entries := bl_entries b1, bl_mem := bl_mem b1\<rparr>" by (simp_all add: ex_frame_def)
  then have "b2 = b\<lparr>bl_entries := bl_entries b1, bl_mem := bl_mem b1\<rparr>\<lparr>bl_entries := bl_entries b2, bl_mem := bl_mem b2\<rparr>"
    by metis
  then have "b2 = b\<lparr>bl_entries := bl_entries b2, bl_mem := bl_mem b2\<rparr>" by simp
  then show ?thesis using a by (simp add: ex_frame_def)
qed

lemma ex_frame_rest:
  assumes "ex_frame lo hi b b'"
  shows "bl_size b' = bl_size b" "bl_ranges b' = bl_ranges b" "bl_interval_size b' = bl_interval_size b"
    "bl_intervals b' = bl_intervals b" "bl_sizes b' = bl_sizes b" "bl_nr b' = bl_nr b"
proof -
  have e: "b' = b\<lparr>bl_entries := bl_entries b', bl_mem := bl_mem b'\<rparr>" using assms by (simp add: ex_frame_def)
  show "bl_size b' = bl_size b" "bl_ranges b' = bl_ranges b" "bl_interval_size b' = bl_interval_size b"
    "bl_intervals b' = bl_intervals b" "bl_sizes b' = bl_sizes b" "bl_nr b' = bl_nr b"
    by (subst e, simp)+
qed

definition slice :: "nat \<Rightarrow> nat \<Rightarrow> blevel \<Rightarrow> nobuf_entry list" where
  "slice lo n b = take n (drop lo (bl_entries b))"

lemma length_slice: "lo + n \<le> physical_nr b \<Longrightarrow> length (slice lo n b) = n"
  by (simp add: slice_def physical_nr_def)

lemma nth_slice: "j < n \<Longrightarrow> lo + n \<le> physical_nr b \<Longrightarrow> slice lo n b ! j = bl_entries b ! (lo + j)"
  by (simp add: slice_def physical_nr_def)

lemma slice_extend:
  assumes "lo + n < physical_nr b" "bl_entries b' = (bl_entries b)[lo + n := e]"
  shows "slice lo (Suc n) b' = slice lo n b @ [e]"
  using assms by (simp add: slice_def physical_nr_def take_Suc_conv_app_nth drop_update_swap)

lemma slice_last:
  assumes "lo + n < physical_nr b"
  shows "slice lo (Suc n) b = slice lo n b @ [bl_entries b ! (lo + n)]"
  using assms by (simp add: slice_def physical_nr_def take_Suc_conv_app_nth)

lemma ex_buffer_keys: "\<forall>x \<in> set (ex_buffer d). P (fst x) \<Longrightarrow> \<forall>i \<in> set [0..<ex_buf_count d]. P (ex_keys d ! i)"
  by (auto simp: ex_buffer_def ex_pair_def)

definition entry_room :: "nat \<Rightarrow> nat \<Rightarrow> nat" where
  "entry_room dp n = node_size + puts_room dp n"

lemma ex_new_entry_run:
  assumes "run_of (bl_mem b) (slice lo n b) k0 (ex_entry_key d) ds ass xss" "ex_new d = lo + n" "lo + n < physical_nr b"
    "keys_sorted (ex_buffer d)" "ex_buffer d \<noteq> []" "\<forall>x \<in> set (ex_buffer d). ex_entry_key d \<le> fst x \<and> fst x \<le> nk"
    "ex_entry_key d \<noteq> nk" "ex_entry_key d = (if n = 0 then k0 else fst (hd (ex_buffer d)))"
    "region_ok (bl_mem b)" "cur_addr (bl_mem b) + entry_room 0 (ex_buf_count d) < end_addr (bl_mem b)"
  shows "\<exists>b' dd bs. ex_new_entry b d nk =
      Some (b', d\<lparr>ex_buf_count := 0, ex_expanded := ex_expanded d + 1, ex_new := ex_new d + 1\<rparr>) \<and>
    run_of (bl_mem b') (slice lo (Suc n) b') k0 nk (ds @ [dd]) (ass @ [bs]) (xss @ [ex_buffer d]) \<and>
    ex_frame lo (Suc (lo + n)) b b' \<and> region_step {} (bl_mem b) bs (bl_mem b') \<and> dd \<le> ex_buf_count d \<and>
    cur_addr (bl_mem b') \<le> cur_addr (bl_mem b) + entry_room 0 (ex_buf_count d)"
proof -
  let ?m = "bl_mem b" and ?k = "ex_entry_key d" and ?p = "common_prefix_bytes (ex_entry_key d) nk"
  let ?raw = "bl_entries b ! (lo + n)" and ?is = "[0..<ex_buf_count d]"
  have "cur_addr ?m + node_size < end_addr ?m" using assms(10) by (simp add: entry_room_def)
  then obtain m1 e1 where N: "nb_new ?m ?raw ?k ?p = Some (m1, e1)" "nb_key e1 = ?k" "nb_prefix e1 = ?p"
    "nb_own m1 e1 0 {cur_addr ?m} []" "nb_is_valid e1" "region_step {} ?m {cur_addr ?m} m1"
    "cur_addr m1 = cur_addr ?m + node_size"
    using nb_new_own[OF common_prefix_less[OF assms(7)] assms(9)] by blast
  have "run_entry m1 e1 nk 0 {cur_addr ?m} []"
    using N(2-5) common_prefix_covers by (auto simp: run_entry_def nb_fits_def)
  moreover have "\<forall>i \<in> set ?is. nb_key e1 \<le> ex_keys d ! i \<and> ex_keys d ! i \<le> nk"
    using ex_buffer_keys[of d "\<lambda>k. nb_key e1 \<le> k \<and> k \<le> nk"] assms(6) N(2) by simp
  moreover have "keys_sorted ([] @ map (ex_pair d) ?is)" using assms(4) by (simp add: ex_buffer_def)
  moreover have "cur_addr m1 + puts_room 0 (length ?is) < end_addr m1"
    using N(6,7) assms(10) by (simp add: entry_room_def region_step_def)
  ultimately obtain m2 e2 dd bs where P: "ex_put_buffered m1 e1 d ?is = Some (m2, e2)" "nb_key e2 = nb_key e1"
    "run_entry m2 e2 nk dd bs (ex_buffer d)" "region_step {cur_addr ?m} m1 bs m2" "dd \<le> ex_buf_count d"
    "cur_addr m2 \<le> cur_addr m1 + puts_room 0 (ex_buf_count d)"
    using run_entry_put[of m1 e1 nk 0 "{cur_addr ?m}" "[]" ?is d] by (auto simp: ex_buffer_def)
  define b' where "b' = bl_set_entry (b\<lparr>bl_mem := m2\<rparr>) (lo + n) e2"
  have st: "region_step {} ?m bs m2" using region_step_trans[OF N(6) P(4)] .
  have ex: "ex_new_entry b d nk =
      Some (b', d\<lparr>ex_buf_count := 0, ex_expanded := ex_expanded d + 1, ex_new := ex_new d + 1\<rparr>)"
    using assms(2,3) N(1) P(1) by (simp add: ex_new_entry_def flush_to_entry_def bl_entry_def b'_def)
  have len: "length (slice lo n b) = n" using length_slice assms(3) by simp
  have sl: "slice lo (Suc n) b' = slice lo n b @ [e2]"
    using slice_extend[OF assms(3)] by (simp add: b'_def bl_set_entry_def)
  have k2: "nb_key e2 = ?k" using P(2) N(2) by simp
  have k3: "nb_key e2 = (if slice lo n b = [] then k0 else fst (hd (ex_buffer d)))"
    using assms(8) len k2 by (cases "n = 0") auto
  have "run_of m2 (slice lo n b @ [e2]) k0 nk (ds @ [dd]) (ass @ [bs]) (xss @ [ex_buffer d])"
    using run_of_snoc[OF assms(1) _ st P(3) assms(5) k3] k2 by simp
  moreover have "bl_mem b' = m2" by (simp add: b'_def bl_set_entry_def)
  moreover have "ex_frame lo (Suc (lo + n)) b b'" by (simp add: ex_frame_def b'_def bl_set_entry_def)
  moreover have "cur_addr m2 \<le> cur_addr ?m + entry_room 0 (ex_buf_count d)"
    using P(6) N(7) by (simp add: entry_room_def)
  ultimately show ?thesis using ex st P(5) sl by (intro exI[of _ b'] exI[of _ dd] exI[of _ bs]) simp
qed

text \<open>The array is full: the last entry takes the pairs.\<close>

lemma ex_last_entry_run:
  assumes "run_of (bl_mem b) (slice lo (Suc n) b) k0 hi (ds @ [dd]) (ass @ [as]) (xss @ [ys])" "ex_new d = Suc (lo + n)"
    "length ds = n" "length ass = n" "length xss = n" "lo + n < physical_nr b" "keys_sorted (ys @ ex_buffer d)"
    "\<forall>x \<in> set (ex_buffer d). fst x \<le> hi" "cur_addr (bl_mem b) + puts_room dd (ex_buf_count d) < end_addr (bl_mem b)"
  shows "\<exists>b' dd' bs. ex_last_entry b d = Some (b', d\<lparr>ex_buf_count := 0\<rparr>) \<and>
    run_of (bl_mem b') (slice lo (Suc n) b') k0 hi (ds @ [dd']) (ass @ [bs]) (xss @ [ys @ ex_buffer d]) \<and>
    ex_frame lo (Suc (lo + n)) b b' \<and> region_step as (bl_mem b) bs (bl_mem b') \<and> dd' \<le> dd + ex_buf_count d \<and>
    cur_addr (bl_mem b') \<le> cur_addr (bl_mem b) + puts_room dd (ex_buf_count d)"
proof -
  let ?m = "bl_mem b" and ?e = "bl_entries b ! (lo + n)" and ?is = "[0..<ex_buf_count d]"
  have len: "length (slice lo n b) = n" using length_slice assms(6) by simp
  have "run_of ?m (slice lo n b @ [?e]) k0 hi (ds @ [dd]) (ass @ [as]) (xss @ [ys])"
    using assms(1) slice_last[OF assms(6)] by simp
  note I = run_of_init[OF this] 
  have I1: "run_of ?m (slice lo n b) k0 (nb_key ?e) ds ass xss" and I2: "run_entry ?m ?e hi dd as ys"
    and I3: "\<forall>i < length (slice lo n b). ass ! i \<inter> as = {}" and I4: "ys \<noteq> []"
    and I5: "nb_key ?e = (if slice lo n b = [] then k0 else fst (hd ys))"
    using I assms(3-5) len by simp_all
  have "nb_key ?e \<le> fst x" if x: "x \<in> set (ex_buffer d)" for x
  proof -
    have "nb_key ?e \<le> fst (hd ys)" using I2 I4 by (simp add: run_entry_def)
    moreover have "fst (hd ys) < fst x" using assms(7) I4 x by (cases ys) (auto simp: keys_sorted_append keys_sorted_Cons)
    ultimately show ?thesis by simp
  qed
  then have "\<forall>i \<in> set ?is. nb_key ?e \<le> ex_keys d ! i \<and> ex_keys d ! i \<le> hi"
    using ex_buffer_keys[of d "\<lambda>k. nb_key ?e \<le> k \<and> k \<le> hi"] assms(8) by simp
  moreover have "keys_sorted (ys @ map (ex_pair d) ?is)" using assms(7) by (simp add: ex_buffer_def)
  moreover have "cur_addr ?m + puts_room dd (length ?is) < end_addr ?m" using assms(9) by simp
  ultimately obtain m2 e2 dd' bs where P: "ex_put_buffered ?m ?e d ?is = Some (m2, e2)" "nb_key e2 = nb_key ?e"
    "run_entry m2 e2 hi dd' bs (ys @ ex_buffer d)" "region_step as ?m bs m2" "dd' \<le> dd + ex_buf_count d"
    "cur_addr m2 \<le> cur_addr ?m + puts_room dd (ex_buf_count d)"
    using run_entry_put[OF I2, of ?is d] by (auto simp: ex_buffer_def)
  define b' where "b' = bl_set_entry (b\<lparr>bl_mem := m2\<rparr>) (lo + n) e2"
  have ex: "ex_last_entry b d = Some (b', d\<lparr>ex_buf_count := 0\<rparr>)"
    using assms(2,6) P(1) by (simp add: ex_last_entry_def bl_entry_def b'_def)
  have sl: "slice lo (Suc n) b' = slice lo n b @ [e2]"
    using slice_extend[OF assms(6)] by (simp add: b'_def bl_set_entry_def)
  have k3: "nb_key e2 = (if slice lo n b = [] then k0 else fst (hd (ys @ ex_buffer d)))"
    using I5 P(2) I4 by simp
  have "run_of m2 (slice lo n b @ [e2]) k0 hi (ds @ [dd']) (ass @ [bs]) (xss @ [ys @ ex_buffer d])"
    using run_of_snoc[OF I1 I3 P(4,3) _ k3] I4 P(2) by simp
  moreover have "bl_mem b' = m2" by (simp add: b'_def bl_set_entry_def)
  moreover have "ex_frame lo (Suc (lo + n)) b b'" by (simp add: ex_frame_def b'_def bl_set_entry_def)
  ultimately show ?thesis using ex P(4-6) sl by (intro exI[of _ b'] exI[of _ dd'] exI[of _ bs]) simp
qed

text \<open>The state of a thread: the entries built so far and the buffered pairs are the pairs put.\<close>

definition run_top :: "expand_data \<Rightarrow> u64" where
  "run_top d = (if ex_new d < ex_max d then ex_entry_key d else ex_last_key d)"

definition ex_core :: "nat \<Rightarrow> u64 \<Rightarrow> nat \<Rightarrow> blevel \<Rightarrow> expand_data \<Rightarrow> nat list \<Rightarrow> nat set list \<Rightarrow> kv list list \<Rightarrow> kv list \<Rightarrow> bool" where
  "ex_core lo k0 D b d ds ass xss pre \<longleftrightarrow>
     run_of (bl_mem b) (slice lo (length xss) b) k0 (run_top d) ds ass xss \<and> (\<forall>x \<in> set ds. x \<le> D) \<and> 4 \<le> D \<and>
     ex_new d = lo + length xss \<and> ex_new d \<le> ex_max d \<and> lo < ex_max d \<and> ex_max d \<le> physical_nr b \<and>
     length (ex_keys d) = 4 \<and> length (ex_values d) = 4 \<and> ex_buf_count d \<le> 4 \<and>
     concat xss @ ex_buffer d = pre \<and> keys_sorted pre \<and> (\<forall>x \<in> set pre. k0 \<le> fst x \<and> fst x < ex_last_key d) \<and>
     region_ok (bl_mem b) \<and> ex_expanded d = length xss \<and> ex_size d = of_nat (length pre)"

definition ex_inv :: "nat \<Rightarrow> u64 \<Rightarrow> nat \<Rightarrow> blevel \<Rightarrow> expand_data \<Rightarrow> nat list \<Rightarrow> nat set list \<Rightarrow> kv list list \<Rightarrow> kv list \<Rightarrow> bool" where
  "ex_inv lo k0 D b d ds ass xss pre \<longleftrightarrow> ex_core lo k0 D b d ds ass xss pre \<and>
     (ex_new d < ex_max d \<longrightarrow> ex_entry_key d = (if xss = [] then k0 else fst (hd (ex_buffer d)))) \<and>
     (ex_buffer d = [] \<longrightarrow> xss = [])"

definition ex_to :: "nat \<Rightarrow> blevel \<Rightarrow> expand_data \<Rightarrow> nat set list \<Rightarrow> blevel \<Rightarrow> expand_data \<Rightarrow> nat set list \<Rightarrow> bool" where
  "ex_to lo b d ass b' d' ass' \<longleftrightarrow> ex_frame lo (ex_max d) b b' \<and>
     region_step (\<Union> (set ass)) (bl_mem b) (\<Union> (set ass')) (bl_mem b') \<and>
     ex_max d' = ex_max d \<and> ex_last_key d' = ex_last_key d \<and> ex_target d' = ex_target d"

lemma ex_to_trans: "ex_to lo b d ass b1 d1 ass1 \<Longrightarrow> ex_to lo b1 d1 ass1 b2 d2 ass2 \<Longrightarrow> ex_to lo b d ass b2 d2 ass2"
  using ex_frame_trans[of lo "ex_max d" b b1 b2] region_step_trans by (fastforce simp: ex_to_def)

lemma region_step_mono: "region_step as m bs m' \<Longrightarrow> region_step (as \<union> cs) m (bs \<union> cs) m'"
  by (auto simp: region_step_def)

lemma ex_frame_wider: "ex_frame lo hi b b' \<Longrightarrow> hi \<le> hi' \<Longrightarrow> ex_frame lo hi' b b'"
  by (auto simp: ex_frame_def)

lemma physical_frame: "ex_frame lo hi b b' \<Longrightarrow> physical_nr b' = physical_nr b"
  by (simp add: ex_frame_def physical_nr_def)

lemma puts_room_mono: "dp \<le> D \<Longrightarrow> n \<le> N \<Longrightarrow> puts_room dp n \<le> puts_room D N"
  unfolding puts_room_def by (intro mult_le_mono) auto

text \<open>Putting a pair into the buffer.\<close>

definition ex_push :: "expand_data \<Rightarrow> u64 \<Rightarrow> u64 \<Rightarrow> expand_data" where
  "ex_push d key value = d\<lparr>ex_keys := (ex_keys d)[ex_buf_count d := key],
      ex_values := (ex_values d)[expand_buf_key - ex_buf_count d - 1 := value],
      ex_buf_count := ex_buf_count d + 1, ex_size := ex_size d + 1\<rparr>"

lemma ex_push_buffer:
  assumes "length (ex_keys d) = 4" "length (ex_values d) = 4" "ex_buf_count d < 4"
  shows "ex_buffer (ex_push d k v) = ex_buffer d @ [(k, v)]"
proof -
  have "ex_pair (ex_push d k v) i = ex_pair d i" if "i < ex_buf_count d" for i
    using that assms by (simp add: ex_pair_def ex_push_def expand_buf_key_def)
  moreover have "ex_pair (ex_push d k v) (ex_buf_count d) = (k, v)"
    using assms by (simp add: ex_pair_def ex_push_def expand_buf_key_def)
  ultimately show ?thesis by (simp add: ex_buffer_def ex_push_def)
qed

lemma ex_push_core:
  assumes "ex_core lo k0 D b d ds ass xss pre" "ex_buf_count d < 4" "keys_sorted (pre @ [(k, v)])"
    "k0 \<le> k" "k < ex_last_key d"
  shows "ex_core lo k0 D b (ex_push d k v) ds ass xss (pre @ [(k, v)])"
proof -
  have len: "length (ex_keys d) = 4" "length (ex_values d) = 4" using assms(1) by (simp_all add: ex_core_def)
  note buf = ex_push_buffer[OF len assms(2), of k v]
  have "concat xss @ ex_buffer (ex_push d k v) = pre @ [(k, v)]" using assms(1) buf by (auto simp: ex_core_def)
  then show ?thesis using assms by (auto simp: ex_core_def ex_push_def run_top_def)
qed

lemma ex_spill_new:
  assumes "ex_inv lo k0 D b d ds ass xss pre" "ex_buf_count d = 4" "ex_new d < ex_max d"
    "keys_sorted (pre @ [(k, v)])" "k0 \<le> k" "k < ex_last_key d" "k0 < ex_last_key d"
    "cur_addr (bl_mem b) + entry_room D 4 < end_addr (bl_mem b)"
  shows "\<exists>b' d' ds' ass' xss'. ex_spill b d k = Some (b', d') \<and> ex_core lo k0 D b' d' ds' ass' xss' pre \<and>
    ex_buf_count d' = 0 \<and> ex_entry_key d' = k \<and> ex_to lo b d ass b' d' ass' \<and> length xss' = Suc (length xss) \<and>
    cur_addr (bl_mem b') \<le> cur_addr (bl_mem b) + entry_room D 4"
proof -
  let ?nk = "if ex_new d = ex_max d - 1 then ex_last_key d else k" and ?n = "length xss"
  note C = assms(1)[unfolded ex_inv_def ex_core_def]
  have top: "run_top d = ex_entry_key d" using assms(3) by (simp add: run_top_def)
  have r: "run_of (bl_mem b) (slice lo ?n b) k0 (ex_entry_key d) ds ass xss" using C top by simp
  have dl: "length ds = ?n" "length ass = ?n" using C by (auto simp: run_of_def)
  have n: "ex_new d = lo + ?n" "lo + ?n < physical_nr b" using C assms(3) by auto
  have buf: "ex_buffer d \<noteq> []" "keys_sorted (ex_buffer d)" using assms(2) C by (auto simp: ex_buffer_def keys_sorted_append)
  have ek: "ex_entry_key d = (if ?n = 0 then k0 else fst (hd (ex_buffer d)))" using C assms(3) by simp
  have bounds: "ex_entry_key d \<le> fst x \<and> fst x \<le> ?nk" if x: "x \<in> set (ex_buffer d)" for x
  proof -
    have "x \<in> set pre" "hd (ex_buffer d) \<in> set pre" using x C buf(1) by auto
    moreover have "fst (hd (ex_buffer d)) \<le> fst x" using x buf by (cases "ex_buffer d") (auto simp: keys_sorted_Cons)
    ultimately show ?thesis using C ek assms(4) by (auto simp: keys_sorted_append less_imp_le)
  qed
  have ne: "ex_entry_key d \<noteq> ?nk"
  proof -
    have h: "hd (ex_buffer d) \<in> set pre" using C buf(1) by auto
    then have "fst (hd (ex_buffer d)) < k" "fst (hd (ex_buffer d)) < ex_last_key d" "k0 \<le> fst (hd (ex_buffer d))"
      using assms(4) C by (auto simp: keys_sorted_append)
    then show ?thesis using ek assms(7) by (cases "?n = 0") auto
  qed
  have pr: "entry_room 0 4 \<le> entry_room D 4" by (simp add: entry_room_def puts_room_mono)
  have rm: "cur_addr (bl_mem b) + entry_room 0 (ex_buf_count d) < end_addr (bl_mem b)"
    using assms(2,8) pr by simp
  obtain b' dd bs where E: "ex_new_entry b d ?nk =
      Some (b', d\<lparr>ex_buf_count := 0, ex_expanded := ex_expanded d + 1, ex_new := ex_new d + 1\<rparr>)"
    "run_of (bl_mem b') (slice lo (Suc ?n) b') k0 ?nk (ds @ [dd]) (ass @ [bs]) (xss @ [ex_buffer d])"
    "ex_frame lo (Suc (lo + ?n)) b b'" "region_step {} (bl_mem b) bs (bl_mem b')" "dd \<le> ex_buf_count d"
    "cur_addr (bl_mem b') \<le> cur_addr (bl_mem b) + entry_room 0 (ex_buf_count d)"
    using ex_new_entry_run[OF r n buf(2,1) _ ne ek _ rm] bounds C by blast
  define d' where "d' = d\<lparr>ex_buf_count := 0, ex_expanded := ex_expanded d + 1, ex_new := ex_new d + 1,
      ex_entry_key := k, ex_max_key := k\<rparr>"
  have sp: "ex_spill b d k = Some (b', d')" using assms(3) E(1) by (simp add: ex_spill_def d'_def)
  have top': "run_top d' = ?nk" using assms(3) by (auto simp: run_top_def d'_def)
  have fr: "ex_frame lo (ex_max d) b b'" using ex_frame_wider[OF E(3)] n(1) assms(3) by simp
  have "region_step (\<Union> (set ass)) (bl_mem b) (\<Union> (set (ass @ [bs]))) (bl_mem b')"
    using region_step_mono[OF E(4), of "\<Union> (set ass)"] by (simp add: Un_commute)
  then have to: "ex_to lo b d ass b' d' (ass @ [bs])" using fr by (simp add: ex_to_def d'_def)
  have "ex_core lo k0 D b' d' (ds @ [dd]) (ass @ [bs]) (xss @ [ex_buffer d]) pre"
    unfolding ex_core_def top'
    using E(2,4,5) C assms(2,3) physical_frame[OF fr] by (auto simp: d'_def ex_buffer_def region_step_def)
  moreover have "cur_addr (bl_mem b') \<le> cur_addr (bl_mem b) + entry_room D 4" using E(6) assms(2) pr by simp
  ultimately show ?thesis using sp to
    by (intro exI[of _ b'] exI[of _ d'] exI[of _ "ds @ [dd]"] exI[of _ "ass @ [bs]"] exI[of _ "xss @ [ex_buffer d]"])
      (simp add: d'_def)
qed

text \<open>The branch that puts the pairs into the last entry, with and without a next key.\<close>

lemma ex_last_core:
  assumes "ex_inv lo k0 D b d ds ass xss pre" "\<not> ex_new d < ex_max d"
    "cur_addr (bl_mem b) + entry_room D 4 < end_addr (bl_mem b)"
  shows "\<exists>b' ds' ass' xss'. ex_last_entry b d = Some (b', d\<lparr>ex_buf_count := 0\<rparr>) \<and>
    ex_core lo k0 (D + 4) b' (d\<lparr>ex_buf_count := 0\<rparr>) ds' ass' xss' pre \<and>
    ex_to lo b d ass b' (d\<lparr>ex_buf_count := 0\<rparr>) ass' \<and> length xss' = length xss \<and>
    cur_addr (bl_mem b') \<le> cur_addr (bl_mem b) + entry_room D 4"
proof -
  note C = assms(1)[unfolded ex_inv_def ex_core_def]
  define n where "n = length xss - 1"
  have ln: "length xss = Suc n" using C assms(2) by (auto simp: n_def)
  have dl: "length ds = Suc n" "length ass = Suc n" using C ln by (auto simp: run_of_def length_slice)
  obtain ds0 dd where ds: "ds = ds0 @ [dd]" "length ds0 = n" using dl(1) by (cases ds rule: rev_cases) auto
  obtain ass0 as where as: "ass = ass0 @ [as]" "length ass0 = n" using dl(2) by (cases ass rule: rev_cases) auto
  obtain xss0 ys where xs: "xss = xss0 @ [ys]" "length xss0 = n" using ln by (cases xss rule: rev_cases) auto
  have top: "run_top d = ex_last_key d" using assms(2) by (simp add: run_top_def)
  have r: "run_of (bl_mem b) (slice lo (Suc n) b) k0 (ex_last_key d) (ds0 @ [dd]) (ass0 @ [as]) (xss0 @ [ys])"
    using C top ds as xs ln by simp
  have nn: "ex_new d = Suc (lo + n)" "lo + n < physical_nr b" using C ln by auto
  have pre: "pre = concat xss0 @ (ys @ ex_buffer d)" using C xs by simp
  then have srt: "keys_sorted (ys @ ex_buffer d)" using C by (simp add: keys_sorted_append)
  have "\<forall>x \<in> set pre. fst x < ex_last_key d" "set (ex_buffer d) \<subseteq> set pre" using C pre by auto
  then have le: "\<forall>x \<in> set (ex_buffer d). fst x \<le> ex_last_key d" by (blast intro: less_imp_le)
  have dD: "dd \<le> D" using C ds by auto
  have b4: "ex_buf_count d \<le> 4" using C by simp
  have pr: "puts_room dd (ex_buf_count d) \<le> entry_room D 4"
    using puts_room_mono[OF dD b4] by (simp add: entry_room_def)
  have rm: "cur_addr (bl_mem b) + puts_room dd (ex_buf_count d) < end_addr (bl_mem b)" using pr assms(3) by linarith
  obtain b' dd' bs where E: "ex_last_entry b d = Some (b', d\<lparr>ex_buf_count := 0\<rparr>)"
    "run_of (bl_mem b') (slice lo (Suc n) b') k0 (ex_last_key d) (ds0 @ [dd']) (ass0 @ [bs]) (xss0 @ [ys @ ex_buffer d])"
    "ex_frame lo (Suc (lo + n)) b b'" "region_step as (bl_mem b) bs (bl_mem b')" "dd' \<le> dd + ex_buf_count d"
    "cur_addr (bl_mem b') \<le> cur_addr (bl_mem b) + puts_room dd (ex_buf_count d)"
    using ex_last_entry_run[OF r nn(1) ds(2) as(2) xs(2) nn(2) srt le rm] by blast
  have fr: "ex_frame lo (ex_max d) b b'" using ex_frame_wider[OF E(3)] nn(1) C by simp
  have "region_step (\<Union> (set ass)) (bl_mem b) (\<Union> (set (ass0 @ [bs]))) (bl_mem b')"
    using region_step_mono[OF E(4), of "\<Union> (set ass0)"] as(1) by (simp add: Un_commute)
  then have to: "ex_to lo b d ass b' (d\<lparr>ex_buf_count := 0\<rparr>) (ass0 @ [bs])" using fr by (simp add: ex_to_def)
  have "\<forall>x \<in> set (ds0 @ [dd']). x \<le> D + 4" using C ds E(5) dD b4 by auto
  then have "ex_core lo k0 (D + 4) b' (d\<lparr>ex_buf_count := 0\<rparr>) (ds0 @ [dd']) (ass0 @ [bs]) (xss0 @ [ys @ ex_buffer d]) pre"
    unfolding ex_core_def using E(2,4) C top xs(2) ln pre physical_frame[OF fr]
    by (auto simp: ex_buffer_def region_step_def run_top_def)
  moreover have "cur_addr (bl_mem b') \<le> cur_addr (bl_mem b) + entry_room D 4" using E(6) pr by linarith
  ultimately show ?thesis using E(1) to xs(2) ln
    by (intro exI[of _ b'] exI[of _ "ds0 @ [dd']"] exI[of _ "ass0 @ [bs]"] exI[of _ "xss0 @ [ys @ ex_buffer d]"]) simp
qed

text \<open>One \<^verbatim>\<open>ExpandPut_\<close>.  The bound on the heights grows only when the array is full.\<close>

definition grown :: "expand_data \<Rightarrow> nat \<Rightarrow> nat" where
  "grown d D = (if ex_new d < ex_max d then D else D + 4)"

lemma ex_core_weaken: "ex_core lo k0 D b d ds ass xss pre \<Longrightarrow> D \<le> D' \<Longrightarrow> ex_core lo k0 D' b d ds ass xss pre"
  by (auto simp: ex_core_def)

lemma ex_spill_core:
  assumes "ex_inv lo k0 D b d ds ass xss pre" "ex_buf_count d = 4"
    "keys_sorted (pre @ [(k, v)])" "k0 \<le> k" "k < ex_last_key d" "k0 < ex_last_key d"
    "cur_addr (bl_mem b) + entry_room D 4 < end_addr (bl_mem b)"
  shows "\<exists>b' d' ds' ass' xss'. ex_spill b d k = Some (b', d') \<and> ex_core lo k0 (grown d D) b' d' ds' ass' xss' pre \<and>
    ex_buf_count d' = 0 \<and> (ex_new d' < ex_max d' \<longrightarrow> ex_entry_key d' = k) \<and> xss' \<noteq> [] \<and> ex_to lo b d ass b' d' ass' \<and>
    length xss' = (if ex_new d < ex_max d then Suc (length xss) else length xss) \<and>
    cur_addr (bl_mem b') \<le> cur_addr (bl_mem b) + entry_room D 4"
proof (cases "ex_new d < ex_max d")
  case True
  then show ?thesis using ex_spill_new[OF assms(1,2) True assms(3-7)] by (fastforce simp: grown_def)
next
  case False
  obtain b' ds' ass' xss' where L: "ex_last_entry b d = Some (b', d\<lparr>ex_buf_count := 0\<rparr>)"
    "ex_core lo k0 (D + 4) b' (d\<lparr>ex_buf_count := 0\<rparr>) ds' ass' xss' pre"
    "ex_to lo b d ass b' (d\<lparr>ex_buf_count := 0\<rparr>) ass'" "length xss' = length xss"
    "cur_addr (bl_mem b') \<le> cur_addr (bl_mem b) + entry_room D 4"
    using ex_last_core[OF assms(1) False assms(7)] by blast
  let ?d = "d\<lparr>ex_buf_count := 0, ex_max_key := k\<rparr>"
  have "ex_spill b d k = Some (b', ?d)" using False L(1) by (simp add: ex_spill_def)
  moreover have "ex_core lo k0 (grown d D) b' ?d ds' ass' xss' pre"
    using L(2) False by (simp add: ex_core_def grown_def run_top_def ex_buffer_def)
  moreover have "ex_to lo b d ass b' ?d ass'" using L(3) by (simp add: ex_to_def)
  moreover have "xss' \<noteq> []" using L(2) False by (auto simp: ex_core_def)
  ultimately show ?thesis using L(4,5) False by (intro exI[of _ b'] exI[of _ ?d] exI[of _ ds'] exI[of _ ass'] exI[of _ xss']) simp
qed

lemma expand_put_inv:
  assumes "ex_inv lo k0 D b d ds ass xss pre" "keys_sorted (pre @ [(k, v)])" "k0 \<le> k" "k < ex_last_key d"
    "cur_addr (bl_mem b) + entry_room D 4 < end_addr (bl_mem b)"
  shows "\<exists>b' d' ds' ass' xss'. expand_put b d k v = Some (b', d') \<and>
    ex_inv lo k0 (if ex_buf_count d = 4 then grown d D else D) b' d' ds' ass' xss' (pre @ [(k, v)]) \<and>
    ex_to lo b d ass b' d' ass' \<and>
    length xss' = (if ex_buf_count d = 4 \<and> ex_new d < ex_max d then Suc (length xss) else length xss) \<and>
    ex_buf_count d' = (if ex_buf_count d = 4 then 1 else Suc (ex_buf_count d)) \<and>
    cur_addr (bl_mem b') \<le> cur_addr (bl_mem b) + (if ex_buf_count d = 4 then entry_room D 4 else 0)"
proof (cases "ex_buf_count d = 4")
  case True
  have "k0 < ex_last_key d" using assms(3,4) by simp
  from ex_spill_core[OF assms(1) True assms(2-4) this assms(5)] obtain b' d' ds' ass' xss' where
    S: "ex_spill b d k = Some (b', d')" "ex_core lo k0 (grown d D) b' d' ds' ass' xss' pre" "ex_buf_count d' = 0"
    "ex_new d' < ex_max d' \<longrightarrow> ex_entry_key d' = k" "xss' \<noteq> []" "ex_to lo b d ass b' d' ass'"
    "length xss' = (if ex_new d < ex_max d then Suc (length xss) else length xss)"
    "cur_addr (bl_mem b') \<le> cur_addr (bl_mem b) + entry_room D 4" by blast
  have last: "ex_last_key d' = ex_last_key d" using S(6) by (simp add: ex_to_def)
  have core: "ex_core lo k0 (grown d D) b' (ex_push d' k v) ds' ass' xss' (pre @ [(k, v)])"
    using ex_push_core[OF S(2) _ assms(2,3)] S(3) assms(4) last by simp
  have "length (ex_keys d') = 4" "length (ex_values d') = 4" using S(2) by (simp_all add: ex_core_def)
  from ex_push_buffer[OF this] have buf: "ex_buffer (ex_push d' k v) = [(k, v)]" using S(3) by (simp add: ex_buffer_def)
  have "ex_inv lo k0 (grown d D) b' (ex_push d' k v) ds' ass' xss' (pre @ [(k, v)])"
    unfolding ex_inv_def using core buf S(4,5) by (simp add: ex_push_def)
  moreover have "expand_put b d k v = Some (b', ex_push d' k v)"
    using S(1) True by (simp add: expand_put_def expand_buf_key_def ex_push_def)
  moreover have "ex_to lo b d ass b' (ex_push d' k v) ass'" using S(6) by (simp add: ex_to_def ex_push_def)
  ultimately show ?thesis using S(3,7,8) True
    by (intro exI[of _ b'] exI[of _ "ex_push d' k v"] exI[of _ ds'] exI[of _ ass'] exI[of _ xss']) (simp add: ex_push_def)
next
  case False
  have core: "ex_core lo k0 D b d ds ass xss pre" using assms(1) by (simp add: ex_inv_def)
  then have lt: "ex_buf_count d < 4" using False by (simp add: ex_core_def)
  have "length (ex_keys d) = 4" "length (ex_values d) = 4" using core by (simp_all add: ex_core_def)
  note buf = ex_push_buffer[OF this lt, of k v]
  note core2 = ex_push_core[OF core lt assms(2-4)]
  have ek: "ex_entry_key d = fst (hd (ex_buffer d @ [(k, v)]))" if "ex_new d < ex_max d" "xss \<noteq> []"
    using assms(1) that by (cases "ex_buffer d") (auto simp: ex_inv_def)
  have "ex_inv lo k0 D b (ex_push d k v) ds ass xss (pre @ [(k, v)])"
    unfolding ex_inv_def buf using core2 ek assms(1) by (auto simp: ex_push_def ex_inv_def)
  moreover have "expand_put b d k v = Some (b, ex_push d k v)"
    using False by (simp add: expand_put_def expand_buf_key_def ex_push_def)
  moreover have "region_ok (bl_mem b)" using core by (simp add: ex_core_def)
  then have "ex_to lo b d ass b (ex_push d k v) ass" using region_step_refl by (simp add: ex_to_def ex_push_def)
  ultimately show ?thesis using False
    by (intro exI[of _ b] exI[of _ "ex_push d k v"] exI[of _ ds] exI[of _ ass] exI[of _ xss]) (simp add: ex_push_def)
qed

text \<open>\<^verbatim>\<open>ExpandFinish_\<close>: the rest of the pairs.  Afterwards all pairs are in entries.\<close>

definition ex_done :: "nat \<Rightarrow> u64 \<Rightarrow> blevel \<Rightarrow> expand_data \<Rightarrow> nat list \<Rightarrow> nat set list \<Rightarrow> kv list list \<Rightarrow> kv list \<Rightarrow> bool" where
  "ex_done lo k0 b d ds ass xss pre \<longleftrightarrow>
     run_of (bl_mem b) (slice lo (length xss) b) k0 (ex_last_key d) ds ass xss \<and> concat xss = pre \<and>
     ex_expanded d = length xss \<and> lo + length xss \<le> ex_max d \<and> ex_size d = of_nat (length pre) \<and> region_ok (bl_mem b)"

lemma expand_finish_inv:
  assumes "ex_inv lo k0 D b d ds ass xss pre" "pre \<noteq> []" "k0 < ex_last_key d"
    "cur_addr (bl_mem b) + entry_room D 4 < end_addr (bl_mem b)"
  shows "\<exists>b' d' ds' ass' xss'. expand_finish b d = Some (b', d') \<and> ex_done lo k0 b' d' ds' ass' xss' pre \<and>
    (\<forall>x \<in> set ds'. x \<le> grown d D) \<and> ex_to lo b d ass b' d' ass' \<and>
    length xss' = (if ex_new d < ex_max d then Suc (length xss) else length xss) \<and>
    cur_addr (bl_mem b') \<le> cur_addr (bl_mem b) + entry_room D 4"
proof -
  note C = assms(1)[unfolded ex_inv_def ex_core_def]
  let ?n = "length xss"
  have buf: "ex_buffer d \<noteq> []" using C assms(2) by auto
  then have bc: "ex_buf_count d \<noteq> 0" by (auto simp: ex_buffer_def)
  show ?thesis
  proof (cases "ex_new d < ex_max d")
    case True
    have r: "run_of (bl_mem b) (slice lo ?n b) k0 (ex_entry_key d) ds ass xss" using C True by (auto simp: run_top_def)
    have n: "ex_new d = lo + ?n" "lo + ?n < physical_nr b" using C True by auto
    have sb: "keys_sorted (ex_buffer d)" and sub: "set (ex_buffer d) \<subseteq> set pre" using C by (auto simp: keys_sorted_append)
    have ek: "ex_entry_key d = (if ?n = 0 then k0 else fst (hd (ex_buffer d)))" using C True by simp
    have hd: "k0 \<le> fst (hd (ex_buffer d))" "fst (hd (ex_buffer d)) < ex_last_key d"
      using C sub list.set_sel(1)[OF buf] by blast+
    have bounds: "\<forall>x \<in> set (ex_buffer d). ex_entry_key d \<le> fst x \<and> fst x \<le> ex_last_key d"
    proof
      fix x assume x: "x \<in> set (ex_buffer d)"
      have "fst (hd (ex_buffer d)) \<le> fst x" using x buf sb by (cases "ex_buffer d") (auto simp: keys_sorted_Cons)
      moreover have "fst x < ex_last_key d" using C sub x by blast
      ultimately show "ex_entry_key d \<le> fst x \<and> fst x \<le> ex_last_key d" using ek hd(1) by auto
    qed
    have ne: "ex_entry_key d \<noteq> ex_last_key d" using ek hd assms(3) by auto
    have b4: "ex_buf_count d \<le> 4" using C by simp
    have pr: "entry_room 0 (ex_buf_count d) \<le> entry_room D 4" using puts_room_mono[OF le0 b4] by (simp add: entry_room_def)
    have rm: "cur_addr (bl_mem b) + entry_room 0 (ex_buf_count d) < end_addr (bl_mem b)" using assms(4) pr by linarith
    obtain b' dd bs where E: "ex_new_entry b d (ex_last_key d) =
        Some (b', d\<lparr>ex_buf_count := 0, ex_expanded := ex_expanded d + 1, ex_new := ex_new d + 1\<rparr>)"
      "run_of (bl_mem b') (slice lo (Suc ?n) b') k0 (ex_last_key d) (ds @ [dd]) (ass @ [bs]) (xss @ [ex_buffer d])"
      "ex_frame lo (Suc (lo + ?n)) b b'" "region_step {} (bl_mem b) bs (bl_mem b')" "dd \<le> ex_buf_count d"
      "cur_addr (bl_mem b') \<le> cur_addr (bl_mem b) + entry_room 0 (ex_buf_count d)"
      using ex_new_entry_run[OF r n sb buf bounds ne ek _ rm] C by blast
    define d' where "d' = d\<lparr>ex_buf_count := 0, ex_expanded := ex_expanded d + 1, ex_new := ex_new d + 1,
        ex_max_key := ex_last_key d\<rparr>"
    have fin: "expand_finish b d = Some (b', d')" using True bc E(1) by (simp add: expand_finish_def d'_def)
    have fr: "ex_frame lo (ex_max d) b b'" using ex_frame_wider[OF E(3)] n(1) True by simp
    have "region_step (\<Union> (set ass)) (bl_mem b) (\<Union> (set (ass @ [bs]))) (bl_mem b')"
      using region_step_mono[OF E(4), of "\<Union> (set ass)"] by (simp add: Un_commute)
    then have "ex_to lo b d ass b' d' (ass @ [bs])" using fr by (simp add: ex_to_def d'_def)
    moreover have "ex_done lo k0 b' d' (ds @ [dd]) (ass @ [bs]) (xss @ [ex_buffer d]) pre"
      using E(2,4) C True n(1) by (simp add: ex_done_def d'_def region_step_def)
    moreover have "\<forall>x \<in> set (ds @ [dd]). x \<le> grown d D" using C E(5) b4 by (auto simp: grown_def)
    moreover have "cur_addr (bl_mem b') \<le> cur_addr (bl_mem b) + entry_room D 4" using E(6) pr by linarith
    ultimately show ?thesis using fin True
      by (intro exI[of _ b'] exI[of _ d'] exI[of _ "ds @ [dd]"] exI[of _ "ass @ [bs]"] exI[of _ "xss @ [ex_buffer d]"]) simp
  next
    case False
    obtain b' ds' ass' xss' where L: "ex_last_entry b d = Some (b', d\<lparr>ex_buf_count := 0\<rparr>)"
      "ex_core lo k0 (D + 4) b' (d\<lparr>ex_buf_count := 0\<rparr>) ds' ass' xss' pre"
      "ex_to lo b d ass b' (d\<lparr>ex_buf_count := 0\<rparr>) ass'" "length xss' = length xss"
      "cur_addr (bl_mem b') \<le> cur_addr (bl_mem b) + entry_room D 4"
      using ex_last_core[OF assms(1) False assms(4)] by blast
    let ?d = "d\<lparr>ex_buf_count := 0, ex_max_key := ex_last_key d\<rparr>"
    have "expand_finish b d = Some (b', ?d)" using False bc L(1) by (simp add: expand_finish_def)
    moreover have "ex_done lo k0 b' ?d ds' ass' xss' pre"
      using L(2) False by (simp add: ex_core_def ex_done_def run_top_def ex_buffer_def)
    moreover have "ex_to lo b d ass b' ?d ass'" using L(3) by (simp add: ex_to_def)
    moreover have "\<forall>x \<in> set ds'. x \<le> grown d D" using L(2) False by (simp add: ex_core_def grown_def)
    ultimately show ?thesis using L(4,5) False
      by (intro exI[of _ b'] exI[of _ ?d] exI[of _ ds'] exI[of _ ass'] exI[of _ xss']) simp
  qed
qed

text \<open>A whole list of pairs.  \<open>spills\<close> counts the entries written on the way, \<open>load_height\<close> bounds
  the heights: they grow only by the spills that find the array full.\<close>

definition spills :: "nat \<Rightarrow> nat \<Rightarrow> nat" where
  "spills c n = (c + n - 1) div 4"

definition load_height :: "expand_data \<Rightarrow> nat \<Rightarrow> nat \<Rightarrow> nat" where
  "load_height d D n = D + 4 * (spills (ex_buf_count d) n - (ex_max d - ex_new d))"

lemma spills_Suc:
  "c \<le> 4 \<Longrightarrow> spills c (Suc n) = (if c = 4 then Suc (spills 1 n) else spills (Suc c) n)"
  by (auto simp: spills_def)

lemma entry_room_mono: "D \<le> D' \<Longrightarrow> entry_room D n \<le> entry_room D' n"
  by (simp add: entry_room_def puts_room_mono)

lemma expand_put_all_inv:
  assumes "ex_inv lo k0 D b d ds ass xss pre" "keys_sorted (pre @ xs)" "\<forall>x \<in> set xs. k0 \<le> fst x \<and> fst x < ex_last_key d"
    "cur_addr (bl_mem b) + (spills (ex_buf_count d) (length xs)) * entry_room (load_height d D (length xs)) 4
      + entry_room (load_height d D (length xs)) 4 < end_addr (bl_mem b)"
  shows "\<exists>b' d' ds' ass' xss'. expand_put_all b d xs = Some (b', d') \<and>
    ex_inv lo k0 (load_height d D (length xs)) b' d' ds' ass' xss' (pre @ xs) \<and> ex_to lo b d ass b' d' ass' \<and>
    length xss' = length xss + min (spills (ex_buf_count d) (length xs)) (ex_max d - ex_new d) \<and>
    cur_addr (bl_mem b') \<le> cur_addr (bl_mem b) + spills (ex_buf_count d) (length xs) * entry_room (load_height d D (length xs)) 4"
  using assms
proof (induction xs arbitrary: D b d ds ass xss pre)
  case Nil
  have core: "ex_core lo k0 D b d ds ass xss pre" using Nil.prems(1) by (simp add: ex_inv_def)
  then have "region_ok (bl_mem b)" "ex_buf_count d \<le> 4" by (simp_all add: ex_core_def)
  then have "spills (ex_buf_count d) 0 = 0" by (simp add: spills_def)
  moreover have "ex_to lo b d ass b d ass" using \<open>region_ok (bl_mem b)\<close> region_step_refl by (simp add: ex_to_def)
  ultimately show ?case using Nil.prems(1)
    by (intro exI[of _ b] exI[of _ d] exI[of _ ds] exI[of _ ass] exI[of _ xss]) (simp add: load_height_def)
next
  case (Cons x xs)
  let ?S = "spills (ex_buf_count d) (length (x # xs))" and ?T = "load_height d D (length (x # xs))"
  have core: "ex_core lo k0 D b d ds ass xss pre" using Cons.prems(1) by (simp add: ex_inv_def)
  then have c4: "ex_buf_count d \<le> 4" "ex_new d = lo + length xss" "ex_new d \<le> ex_max d" by (simp_all add: ex_core_def)
  have kv: "keys_sorted (pre @ [(fst x, snd x)])" using Cons.prems(2) by (auto simp: keys_sorted_append keys_sorted_Cons)
  have dT: "D \<le> ?T" by (simp add: load_height_def)
  have "cur_addr (bl_mem b) + entry_room D 4 < end_addr (bl_mem b)"
    using Cons.prems(4) entry_room_mono[OF dT, of 4] by linarith
  with expand_put_inv[OF Cons.prems(1) kv] Cons.prems(3) obtain b1 d1 ds1 ass1 xss1 where
    P: "expand_put b d (fst x) (snd x) = Some (b1, d1)"
      "ex_inv lo k0 (if ex_buf_count d = 4 then grown d D else D) b1 d1 ds1 ass1 xss1 (pre @ [(fst x, snd x)])"
      "ex_to lo b d ass b1 d1 ass1"
      "length xss1 = (if ex_buf_count d = 4 \<and> ex_new d < ex_max d then Suc (length xss) else length xss)"
      "ex_buf_count d1 = (if ex_buf_count d = 4 then 1 else Suc (ex_buf_count d))"
      "cur_addr (bl_mem b1) \<le> cur_addr (bl_mem b) + (if ex_buf_count d = 4 then entry_room D 4 else 0)" by auto
  let ?D1 = "if ex_buf_count d = 4 then grown d D else D"
  have mx: "ex_max d1 = ex_max d" "ex_last_key d1 = ex_last_key d" "end_addr (bl_mem b1) = end_addr (bl_mem b)"
    using P(3) by (simp_all add: ex_to_def region_step_def)
  have new1: "ex_new d1 = lo + length xss1" using P(2) by (simp add: ex_inv_def ex_core_def)
  have S: "?S = (if ex_buf_count d = 4 then Suc (spills (ex_buf_count d1) (length xs)) else spills (ex_buf_count d1) (length xs))"
    using spills_Suc[OF c4(1), of "length xs"] P(5) by simp
  have T: "load_height d1 ?D1 (length xs) = ?T"
    unfolding load_height_def S using new1 P(4) c4 mx by (auto simp: grown_def)
  have "cur_addr (bl_mem b1) + spills (ex_buf_count d1) (length xs) * entry_room ?T 4 \<le> 
      cur_addr (bl_mem b) + ?S * entry_room ?T 4"
    using P(6) S entry_room_mono[OF dT, of 4] by (cases "ex_buf_count d = 4") auto
  note le = this
  then have "cur_addr (bl_mem b1) + spills (ex_buf_count d1) (length xs) * entry_room (load_height d1 ?D1 (length xs)) 4
      + entry_room (load_height d1 ?D1 (length xs)) 4 < end_addr (bl_mem b1)"
    using Cons.prems(4) unfolding T mx(3) by linarith
  moreover have "keys_sorted ((pre @ [(fst x, snd x)]) @ xs)" using Cons.prems(2) by simp
  moreover have "\<forall>y \<in> set xs. k0 \<le> fst y \<and> fst y < ex_last_key d1" using Cons.prems(3) mx by simp
  ultimately obtain b' d' ds' ass' xss' where Q: "expand_put_all b1 d1 xs = Some (b', d')"
    "ex_inv lo k0 ?T b' d' ds' ass' xss' ((pre @ [(fst x, snd x)]) @ xs)" "ex_to lo b1 d1 ass1 b' d' ass'"
    "length xss' = length xss1 + min (spills (ex_buf_count d1) (length xs)) (ex_max d1 - ex_new d1)"
    "cur_addr (bl_mem b') \<le> cur_addr (bl_mem b1) + spills (ex_buf_count d1) (length xs) * entry_room ?T 4"
    using Cons.IH[OF P(2)] unfolding T by blast
  have "length xss' = length xss + min ?S (ex_max d - ex_new d)" using Q(4) P(4) S new1 mx c4 by (auto simp: min_def)
  moreover have "cur_addr (bl_mem b') \<le> cur_addr (bl_mem b) + ?S * entry_room ?T 4" using Q(5) le by linarith
  ultimately show ?case using P(1) Q(1,2) ex_to_trans[OF P(3) Q(3)]
    by (intro exI[of _ b'] exI[of _ d'] exI[of _ ds'] exI[of _ ass'] exI[of _ xss']) simp
qed

subsection \<open>From runs to the invariant of the B-level\<close>

text \<open>Consecutive entries with increasing keys, each with the pairs between its key and the next.\<close>

definition seg :: "clmem \<Rightarrow> nobuf_entry list \<Rightarrow> u64 \<Rightarrow> nat list \<Rightarrow> nat set list \<Rightarrow> kv list list \<Rightarrow> bool" where
  "seg m es hi ds ass xss \<longleftrightarrow> length ds = length es \<and> length ass = length es \<and> length xss = length es \<and>
     (\<forall>j < length es. run_entry m (es ! j) (entry_top es hi j) (ds ! j) (ass ! j) (xss ! j)) \<and>
     (\<forall>j. Suc j < length es \<longrightarrow> nb_key (es ! j) < nb_key (es ! Suc j) \<and>
        (\<forall>x \<in> set (xss ! j). fst x < nb_key (es ! Suc j))) \<and>
     (\<forall>i < length es. \<forall>j < length es. i \<noteq> j \<longrightarrow> ass ! i \<inter> ass ! j = {})"

lemma keys_sorted_concat:
  "keys_sorted (concat xss) \<Longrightarrow> i < j \<Longrightarrow> j < length xss \<Longrightarrow> x \<in> set (xss ! i) \<Longrightarrow> y \<in> set (xss ! j) \<Longrightarrow> fst x < fst y"
proof (induction xss arbitrary: i j)
  case (Cons xs xss)
  then show ?case
  proof (cases i)
    case 0
    then have "xss ! (j - 1) \<in> set xss" using Cons.prems by (cases j) auto
    moreover have "y \<in> set (xss ! (j - 1))" using Cons.prems 0 by (cases j) auto
    ultimately have "y \<in> set (concat xss)" by auto
    moreover have "x \<in> set xs" using Cons.prems 0 by simp
    ultimately show ?thesis using Cons.prems(1) unfolding concat.simps keys_sorted_append by blast
  next
    case (Suc i')
    then show ?thesis using Cons.IH[of i' "j - 1"] Cons.prems by (cases j) (auto simp: keys_sorted_append)
  qed
qed simp

lemma run_of_seg:
  assumes "run_of m es k0 hi ds ass xss" "keys_sorted (concat xss)"
  shows "seg m es hi ds ass xss"
proof -
  note R = assms(1)[unfolded run_of_def]
  have "nb_key (es ! j) < nb_key (es ! Suc j)" "\<forall>x \<in> set (xss ! j). fst x < nb_key (es ! Suc j)" if j: "Suc j < length es" for j
  proof -
    have ne: "xss ! j \<noteq> []" "xss ! Suc j \<noteq> []" using R j by auto
    then have h: "hd (xss ! j) \<in> set (xss ! j)" "hd (xss ! Suc j) \<in> set (xss ! Suc j)" by simp_all
    have k: "nb_key (es ! Suc j) = fst (hd (xss ! Suc j))" using R j by auto
    have "run_entry m (es ! j) (entry_top es hi j) (ds ! j) (ass ! j) (xss ! j)" using R j by auto
    then have le: "nb_key (es ! j) \<le> fst (hd (xss ! j))" using h by (auto simp: run_entry_def)
    have lt: "fst x < fst (hd (xss ! Suc j))" if "x \<in> set (xss ! j)" for x
      using keys_sorted_concat[OF assms(2), of j "Suc j" x] that h(2) j R by auto
    show "nb_key (es ! j) < nb_key (es ! Suc j)" unfolding k using le lt[OF h(1)] by (rule le_less_trans)
    show "\<forall>x \<in> set (xss ! j). fst x < nb_key (es ! Suc j)" using lt k by simp
  qed
  then show ?thesis using R by (simp add: seg_def)
qed

lemma seg_sorted: "seg m es hi ds ass xss \<Longrightarrow> sorted_wrt (<) (map nb_key es)"
  by (auto simp: seg_def sorted_wrt_iff_nth_Suc_transp[OF transp_on_less])

lemma seg_own:
  assumes "seg (bl_mem b) (map ((!) (bl_entries b)) (bl_slots b)) (-1) ds ass xss" "bl_shape b"
  shows "bl_own b ds ass xss"
proof -
  let ?es = "map ((!) (bl_entries b)) (bl_slots b)"
  note S = assms(1)[unfolded seg_def]
  have live: "?es ! j = bl_live b j" "nb_key (?es ! j) = bl_phys_key b (bl_slots b ! j)" if "j < length (bl_slots b)" for j
    using that by (simp_all add: bl_live_def bl_phys_key_def)
  have "entry_ok b j (ds ! j) (ass ! j) (xss ! j)" if j: "j < length (bl_slots b)" for j
  proof -
    have r: "run_entry (bl_mem b) (bl_live b j) (entry_top ?es (-1) j) (ds ! j) (ass ! j) (xss ! j)"
      using S j live(1)[OF j] by auto
    have nxt: "nb_key (?es ! Suc j) = bl_phys_key b (bl_slots b ! Suc j)" if "Suc j < length (bl_slots b)"
      using live(2)[OF that] .
    have top: "k \<le> entry_top ?es (-1) j" if "in_slot b j k" for k
      using that nxt by (auto simp: entry_top_def in_slot_def word_order.extremum[of k] less_imp_le)
    have "in_slot b j (fst x)" if x: "x \<in> set (xss ! j)" for x
    proof -
      have "nb_key (bl_live b j) \<le> fst x" using r x by (simp add: run_entry_def)
      moreover have "Suc j < length (bl_slots b) \<Longrightarrow> fst x < bl_phys_key b (bl_slots b ! Suc j)"
        using S x nxt by auto
      ultimately show ?thesis using j live[OF j] by (auto simp: in_slot_def)
    qed
    moreover have "nb_fits (bl_live b j) k" if "in_slot b j k" for k
      using r top[OF that] that live[OF j] by (auto simp: run_entry_def in_slot_def)
    ultimately show ?thesis using r by (auto simp: entry_ok_def run_entry_def)
  qed
  then show ?thesis using S assms(2) by (simp add: bl_own_def)
qed

subsection \<open>Loading\<close>

lemma load_counts_eq: "load_counts n = [n div 4, n div 4, n div 4, n - 3 * (n div 4)]"
  by (simp add: load_counts_def expand_threads_def upt_rec Let_def)

lemma load_ranges_nth:
  assumes "q = n div 4" "4 \<le> n"
  shows "load_ranges b (load_counts n) =
    [\<lparr>start_key = bl_phys_key b 0, logical_start = 0, physical_start = 0, range_entries = q\<rparr>,
     \<lparr>start_key = bl_phys_key b q, logical_start = q, physical_start = q, range_entries = q\<rparr>,
     \<lparr>start_key = bl_phys_key b (2 * q), logical_start = 2 * q, physical_start = 2 * q, range_entries = q\<rparr>,
     \<lparr>start_key = bl_phys_key b (3 * q), logical_start = 3 * q, physical_start = 3 * q, range_entries = n - 3 * q\<rparr>,
     \<lparr>start_key = -1, logical_start = n, physical_start = n, range_entries = range_sentinel\<rparr>]"
proof -
  have e: "n div 4 + n div 4 = 2 * (n div 4)" "n div 4 + (n div 4 + n div 4) = 3 * (n div 4)" by simp_all
  show ?thesis using assms(2)
    by (simp add: load_ranges_def load_counts_eq expand_threads_def upt_rec Let_def assms(1) take_Cons' e)
qed

lemma upt_split: "i \<le> j \<Longrightarrow> j \<le> k \<Longrightarrow> [i..<k] = [i..<j] @ [j..<k]"
  using upt_add_eq_append[of i j "k - j"] by simp

lemma interval_count_covers:
  assumes "0 < isize" "0 < (n :: nat)" "ni = (n + isize - 1) div isize"
  shows "0 < ni" "n \<le> ni * isize"
proof -
  have "isize \<le> n + isize - 1" using assms(2) by linarith
  then have "isize div isize \<le> ni" unfolding assms(3) by (rule div_le_mono)
  then show "0 < ni" using assms(1) by simp
  have "n + isize - 1 < (ni + 1) * isize" unfolding assms(3) using assms(1) dividend_less_div_times by (simp add: add.commute)
  then show "n \<le> ni * isize" using assms(1) by simp
qed

lemma length_interval_counters: "0 < ni \<Longrightarrow> length (interval_counters isize n ni) = ni"
  by (simp add: interval_counters_def)

lemma load_shape:
  assumes n: "4 \<le> n" "n \<le> physical_nr b" and srt: "sorted_wrt (<) (map nb_key (slice 0 n b))"
    and k0: "bl_phys_key b 0 = 0" and isz: "0 < isize"
    and b3: "b3 = b\<lparr>bl_ranges := load_ranges b (load_counts n), bl_interval_size := isize, bl_intervals := ivs,
       bl_sizes := map (\<lambda>i. interval_counters isize (load_counts n ! i) ((load_counts n ! i + isize - 1) div isize)) [0..<4],
       bl_nr := n, bl_size := z\<rparr>"
  shows "bl_shape b3" "bl_slots b3 = [0..<n]" "gaps_ok b3"
proof -
  define q where "q = n div 4"
  have q: "0 < q" "4 * q \<le> n" using n(1) by (auto simp: q_def)
  note R = load_ranges_nth[OF q_def n(1), of b]
  have rs: "bl_ranges b3 = load_ranges b (load_counts n)" by (simp add: b3)
  have five: "length (bl_ranges b3) = 5" unfolding rs R by simp
  have r: "rng b3 0 = \<lparr>start_key = bl_phys_key b 0, logical_start = 0, physical_start = 0, range_entries = q\<rparr>"
    "rng b3 1 = \<lparr>start_key = bl_phys_key b q, logical_start = q, physical_start = q, range_entries = q\<rparr>"
    "rng b3 2 = \<lparr>start_key = bl_phys_key b (2 * q), logical_start = 2 * q, physical_start = 2 * q, range_entries = q\<rparr>"
    "rng b3 3 = \<lparr>start_key = bl_phys_key b (3 * q), logical_start = 3 * q, physical_start = 3 * q, range_entries = n - 3 * q\<rparr>"
    "rng b3 4 = \<lparr>start_key = -1, logical_start = n, physical_start = n, range_entries = range_sentinel\<rparr>"
    unfolding rs R by simp_all
  show sl: "bl_slots b3 = [0..<n]"
  proof -
    have e: "q + q = 2 * q" "2 * q + q = 3 * q" "3 * q + (n - 3 * q) = n" using q by auto
    have "[0..<n] = [0..<q] @ [q..<2 * q] @ [2 * q..<3 * q] @ [3 * q..<n]"
      using q upt_split[of 0 q n] upt_split[of q "2 * q" n] upt_split[of "2 * q" "3 * q" n] by simp
    then show ?thesis unfolding bl_slots_eq[OF five] r range_slots_def by (simp add: e)
  qed
  have ent: "bl_entries b3 = bl_entries b" "physical_nr b3 = physical_nr b" by (simp_all add: b3 physical_nr_def)
  then have pk: "bl_phys_key b3 = bl_phys_key b" by (simp add: bl_phys_key_def fun_eq_iff)
  have "ranges_ok (bl_ranges b3) (physical_nr b3)"
    unfolding ranges_ok_def using five r r(3)[unfolded numeral_2_eq_2] q n(2) ent(2) by (auto dest!: four_cases)
  moreover have "\<forall>i < 4. start_key (rng b3 i) = bl_phys_key b3 (physical_start (rng b3 i))"
    using r pk by (auto dest!: four_cases)
  moreover have "sorted_wrt (\<lambda>i j. bl_phys_key b3 i < bl_phys_key b3 j) (bl_slots b3)"
    unfolding sl pk using srt n(2) by (auto simp: sorted_wrt_iff_nth_less nth_slice length_slice bl_phys_key_def)
  moreover have "counters_ok b3"
    unfolding counters_ok_def
  proof (intro conjI allI impI)
    show "0 < bl_interval_size b3" "length (bl_sizes b3) = 4" using isz by (simp_all add: b3)
    fix i :: nat assume i: "i < 4"
    have c: "range_entries (rng b3 i) = load_counts n ! i" "0 < load_counts n ! i"
      using i r q by (auto dest!: four_cases simp: load_counts_eq q_def[symmetric])
    note ic = interval_count_covers[OF isz c(2) refl]
    have "length (bl_sizes b3 ! i) = (load_counts n ! i + isize - 1) div isize"
      using i length_interval_counters[OF ic(1)] by (simp add: b3)
    then show "range_entries (rng b3 i) \<le> length (bl_sizes b3 ! i) * bl_interval_size b3"
      using ic(2) c(1) by (simp add: b3)
  qed
  moreover have "bl_nr b3 = logical_start (rng b3 4)" "start_key (rng b3 0) = 0" using r k0 by (simp_all add: b3)
  ultimately show "bl_shape b3" by (simp add: bl_shape_def)
  have lt: "bl_phys_key b i \<le> bl_phys_key b j" if "i < j" "j < n" for i j
    using srt n(2) that by (auto simp: sorted_wrt_iff_nth_less nth_slice length_slice bl_phys_key_def less_imp_le)
  have "logical_start (rng b3 i) = physical_start (rng b3 i) \<and> physical_start (rng b3 i) < n \<and>
      start_key (rng b3 i) = bl_phys_key b (physical_start (rng b3 i))" if "i < 4" for i
    using that r q by (auto dest!: four_cases)
  then show "gaps_ok b3" using r(1) lt pk by (simp add: gaps_ok_def)
qed

text \<open>The entries a load needs, and the region it may use.\<close>

definition load_entries :: "nat \<Rightarrow> nat" where
  "load_entries n = (n + 3) div 4"

definition load_room :: "nat \<Rightarrow> nat" where
  "load_room n = (load_entries n + 1) * entry_room 4 4"

lemma slice_map: "n \<le> physical_nr b \<Longrightarrow> slice 0 n b = map ((!) (bl_entries b)) [0..<n]"
  by (rule nth_equalityI) (simp_all add: length_slice nth_slice)

lemma ex_data_simps [simp]:
  "ex_new (ex_data i j k) = i" "ex_max (ex_data i j k) = j" "ex_buf_count (ex_data i j k) = 0"
  "ex_entry_key (ex_data i j k) = k"
  by (simp_all add: ex_data_def)

lemma ex_init_inv:
  assumes "0 < physical_nr b" "region_ok (bl_mem b)"
  shows "ex_inv 0 0 4 b ((ex_data 0 (physical_nr b) 0)\<lparr>ex_last_key := -1\<rparr>) [] [] [] []"
  using assms by (simp add: ex_inv_def ex_core_def ex_data_def expand_buf_key_def ex_buffer_def slice_def)

theorem bl_load_good:
  assumes "keys_sorted data" "\<forall>x \<in> set data. fst x < -1" "13 \<le> length data" "region_ok m"
    "cur_addr m + load_room (length data) < end_addr m"
  shows "\<exists>b. bl_load (bl_new (length data) m) data = Some b \<and> bl_good b 4 (map_of data) \<and>
    bl_size b = of_nat (length data) \<and> bl_nr b = load_entries (length data) \<and>
    cur_addr (bl_mem b) \<le> cur_addr m + load_room (length data) \<and> end_addr (bl_mem b) = end_addr m"
proof -
  let ?N = "length data" and ?b = "bl_new (length data) m"
  let ?d = "(ex_data 0 (physical_nr ?b) 0)\<lparr>ex_last_key := -1\<rparr>" and ?E = "entry_room 4 4"
  have ph: "physical_nr ?b = ((?N + 4) div 4) * 12 div 10" "bl_mem ?b = m" "bl_size ?b = 0"
    by (simp_all add: bl_new_def physical_nr_def Let_def expand_buf_key_def add.commute)
  then have big: "(?N + 4) div 4 \<le> physical_nr ?b" by linarith
  have sp: "spills 0 ?N = (?N - 1) div 4" by (simp add: spills_def)
  have ln: "load_entries ?N = Suc ((?N - 1) div 4)" using assms(3) by (simp add: load_entries_def)
  have d0: "ex_buf_count ?d = 0" "ex_max ?d - ex_new ?d = physical_nr ?b" "ex_last_key ?d = -1" "ex_max ?d = physical_nr ?b"
    by (simp_all add: ex_data_def)
  have small: "spills 0 ?N \<le> physical_nr ?b" "Suc (spills 0 ?N) \<le> physical_nr ?b" using big sp by linarith+
  then have lh: "load_height ?d 4 ?N = 4" unfolding load_height_def d0(1,2) by simp
  have room: "load_room ?N = spills 0 ?N * ?E + ?E + ?E" by (simp add: load_room_def ln sp)
  have inv: "ex_inv 0 0 4 ?b ?d [] [] [] []" using ex_init_inv small ph(2) assms(4) by simp
  have "cur_addr (bl_mem ?b) + spills (ex_buf_count ?d) ?N * entry_room (load_height ?d 4 ?N) 4 + entry_room (load_height ?d 4 ?N) 4
      < end_addr (bl_mem ?b)" unfolding lh d0(1) ph(2) using assms(5) room by linarith
  with expand_put_all_inv[OF inv, of data] obtain b1 d1 ds1 ass1 xss1 where
    P: "expand_put_all ?b ?d data = Some (b1, d1)" "ex_inv 0 0 4 b1 d1 ds1 ass1 xss1 data" "ex_to 0 ?b ?d [] b1 d1 ass1"
    "length xss1 = min (spills 0 ?N) (physical_nr ?b)" "cur_addr (bl_mem b1) \<le> cur_addr m + spills 0 ?N * ?E"
    using assms(1,2) unfolding lh d0 ph(2) by auto
  have d1: "ex_last_key d1 = -1" "ex_max d1 = physical_nr ?b" "end_addr (bl_mem b1) = end_addr m" "physical_nr b1 = physical_nr ?b"
    using P(3) d0 ph(2) physical_frame by (auto simp: ex_to_def region_step_def)
  have l1: "length xss1 = spills 0 ?N" using P(4) small by simp
  have new1: "ex_new d1 < ex_max d1" using P(2) l1 small(2) d1(2) by (simp add: ex_inv_def ex_core_def)
  have rm1: "cur_addr (bl_mem b1) + ?E < end_addr (bl_mem b1)" unfolding d1(3) using P(5) assms(5) room by linarith
  have ne: "data \<noteq> []" "0 < ex_last_key d1" using assms(3) d1(1) by (auto simp: word_gt_0)
  have gr: "grown d1 4 = 4" using new1 by (simp add: grown_def)
  obtain b2 d2 ds ass xss where
    F: "expand_finish b1 d1 = Some (b2, d2)" "ex_done 0 0 b2 d2 ds ass xss data" "\<forall>x \<in> set ds. x \<le> 4"
    "ex_to 0 b1 d1 ass1 b2 d2 ass" "length xss = Suc (length xss1)" "cur_addr (bl_mem b2) \<le> cur_addr (bl_mem b1) + ?E"
    using expand_finish_inv[OF P(2) ne rm1] new1 unfolding gr by auto
  define n where "n = length xss"
  have ph2: "physical_nr b2 = physical_nr ?b" using F(4) d1(4) physical_frame by (auto simp: ex_to_def)
  have n1: "n = Suc (spills 0 ?N)" using F(5) l1 by (simp add: n_def)
  then have n: "n = load_entries ?N" "n \<le> physical_nr b2" using ln sp small(2) ph2 by simp_all
  have n4: "4 \<le> n" using assms(3) n(1) unfolding load_entries_def by linarith
  note n = n(1) n4 n(2)
  have D: "run_of (bl_mem b2) (slice 0 n b2) 0 (-1) ds ass xss" "concat xss = data" "ex_expanded d2 = n"
    "ex_size d2 = of_nat ?N" using F(2,4) d1(1) by (simp_all add: ex_done_def n_def ex_to_def)
  have sg: "seg (bl_mem b2) (slice 0 n b2) (-1) ds ass xss" using run_of_seg[OF D(1)] D(2) assms(1) by simp
  have "nb_key (slice 0 n b2 ! 0) = 0" using D(1) n length_slice[of 0 n b2] by (auto simp: run_of_def)
  then have k0: "bl_phys_key b2 0 = 0" using n nth_slice[of 0 n 0 b2] by (simp add: bl_phys_key_def)
  define isize where "isize = max 4 (n div 4 div 128)"
  have isz: "0 < isize" by (simp add: isize_def)
  define ivs where "ivs = map (\<lambda>n. (n + isize - 1) div isize) (load_counts n)"
  define b3 where "b3 = b2\<lparr>bl_ranges := load_ranges b2 (load_counts n), bl_interval_size := isize, bl_intervals := ivs,
       bl_sizes := map (\<lambda>i. interval_counters isize (load_counts n ! i) ((load_counts n ! i + isize - 1) div isize)) [0..<4],
       bl_nr := n, bl_size := of_nat ?N\<rparr>"
  note S = load_shape[OF n(2,3) seg_sorted[OF sg] k0 isz b3_def]
  have m3: "bl_mem b3 = bl_mem b2" "bl_entries b3 = bl_entries b2" by (simp_all add: b3_def)
  have "seg (bl_mem b3) (map ((!) (bl_entries b3)) (bl_slots b3)) (-1) ds ass xss"
    using sg slice_map[OF n(3)] by (simp add: m3 S(2))
  from seg_own[OF this S(1)] have hold: "bl_good b3 4 (map_of data)" using F(3) D(2) S(3) by (auto simp: bl_holds_def bl_good_def)
  have "0 < load_counts n ! i" if "i < 4" for i using n(2) that by (auto dest!: four_cases simp: load_counts_eq)
  note pos = this
  have lc: "length (load_counts n) = 4" by (simp add: load_counts_eq)
  then have iv1: "ivs ! i = (load_counts n ! i + isize - 1) div isize" if "i < 4" for i using that by (simp add: ivs_def)
  then have iv: "ivs ! i = (load_counts n ! i + isize - 1) div isize" "0 < ivs ! i" if "i < 4" for i
    using that interval_count_covers(1)[OF isz pos[OF that] refl] by simp_all
  have "length ivs = 4" by (simp add: ivs_def load_counts_eq)
  with iv(2) have nz: "0 \<notin> set ivs" by (auto simp: in_set_conv_nth)
  have sz2: "bl_size b2 = 0" using P(3) F(4) ph(3) ex_frame_rest(1) by (auto simp: ex_to_def)
  have szs: "map (\<lambda>i. interval_counters isize (load_counts n ! i) (ivs ! i)) [0..<expand_threads] =
      map (\<lambda>i. interval_counters isize (load_counts n ! i) ((load_counts n ! i + isize - 1) div isize)) [0..<4]"
    using iv(1) by (simp add: expand_threads_def)
  have "bl_load ?b data = Some (b2\<lparr>bl_ranges := load_ranges b2 (load_counts n), bl_interval_size := isize, bl_intervals := ivs,
       bl_sizes := map (\<lambda>i. interval_counters isize (load_counts n ! i) (ivs ! i)) [0..<expand_threads],
       bl_nr := n, bl_size := of_nat ?N\<rparr>)"
    using ne(1) P(1) F(1) nz D(3,4) sz2 by (simp add: bl_load_def Let_def isize_def ivs_def expand_threads_def)
  then have "bl_load ?b data = Some b3" unfolding szs b3_def .
  moreover have "cur_addr (bl_mem b3) \<le> cur_addr m + load_room ?N" unfolding m3 using F(6) P(5) room by linarith
  moreover have "end_addr (bl_mem b3) = end_addr m" unfolding m3 using F(4) d1(3) by (simp add: ex_to_def region_step_def)
  ultimately show ?thesis using hold n(1) by (intro exI[of _ b3]) (simp add: b3_def)
qed

end
