(* ===== verification/BLevelIter.thy ===== *)
theory BLevelIter
  imports BLevelLoad
begin

text \<open>
  \<^verbatim>\<open>src/blevel.h\<close>, lines 89 to 231 and 589 to 676: the iterator over the pairs of a B-level and
  the iterator over its entry keys.  \<^verbatim>\<open>NobufBEntry::NoSortIter\<close> is \<^verbatim>\<open>NobufBEntry::Iter\<close>, so
  the text of \<^verbatim>\<open>BLevel::NoSortIter\<close>, a copy of \<^verbatim>\<open>BLevel::Iter\<close>, denotes the same functions in
  this build.  The shared locks an iterator holds on its entry are in theory BLevelLocks.

  The scan of an unmodified B-level is proved to deliver all pairs from the start key on, in
  key order.
\<close>

subsection \<open>Iterating over the pairs\<close>

record bliter =
  bi_iter :: nbiter
  bi_idx :: nat
  bi_end :: nat
  bi_range :: nat

definition bl_iter_end :: "bliter \<Rightarrow> bool" where
  "bl_iter_end it \<longleftrightarrow> bi_range it \<ge> expand_threads"

definition bl_iter_key :: "blevel \<Rightarrow> bliter \<Rightarrow> u64 option" where
  "bl_iter_key b it = do { e \<leftarrow> bl_entry b (bi_idx it); nb_iter_key (bl_mem b) e (bi_iter it) }"

definition bl_iter_value :: "blevel \<Rightarrow> bliter \<Rightarrow> u64 option" where
  "bl_iter_value b it = nb_iter_value (bl_mem b) (bi_iter it)"

definition next_index :: "blevel \<Rightarrow> bliter \<Rightarrow> bliter \<times> bool" where
  "next_index b it =
     (let idx = bi_idx it + 1 in
      if idx < bi_end it then (it\<lparr>bi_idx := idx\<rparr>, True)
      else let r = bi_range it + 1 in
        if r = expand_threads then (it\<lparr>bi_idx := idx, bi_range := r\<rparr>, False)
        else let s = physical_start (bl_ranges b ! r) in
          (it\<lparr>bi_idx := s, bi_end := s + range_entries (bl_ranges b ! r), bi_range := r\<rparr>, True))"

text \<open>The loop that skips entries without pairs; \<open>mk\<close> makes the iterator of an entry, the fuel
  bounds the number of entries.\<close>

fun skip_entries :: "nat \<Rightarrow> (nobuf_entry \<Rightarrow> nbiter option) \<Rightarrow> blevel \<Rightarrow> bliter \<Rightarrow> bliter option" where
  "skip_entries 0 mk b it = None"
| "skip_entries (Suc n) mk b it =
     (if nb_iter_end (bi_iter it) then
        let (it1, more) = next_index b it in
        if more then do {
          e \<leftarrow> bl_entry b (bi_idx it1);
          ei \<leftarrow> mk e;
          skip_entries n mk b (it1\<lparr>bi_iter := ei\<rparr>)
        } else Some it1
      else Some it)"

definition entries_fuel :: "blevel \<Rightarrow> nat" where
  "entries_fuel b = physical_nr b + 1"

definition bl_iter_begin :: "blevel \<Rightarrow> bliter option" where
  "bl_iter_begin b =
     do {
       e \<leftarrow> bl_entry b 0;
       ei \<leftarrow> nb_iter_begin (bl_mem b) e;
       skip_entries (entries_fuel b) (nb_iter_begin (bl_mem b)) b
         \<lparr>bi_iter = ei, bi_idx = 0, bi_end = range_entries (bl_ranges b ! 0), bi_range = 0\<rparr>
     }"

definition bl_iter_from :: "blevel \<Rightarrow> u64 \<Rightarrow> nat \<Rightarrow> nat \<Rightarrow> bliter option" where
  "bl_iter_from b start begin_idx end_idx =
     do {
       r \<leftarrow> find_brange_by_key b start;
       let (lo, hi) = find_window b r begin_idx end_idx;
       if 0 \<le> lo \<and> 0 \<le> hi \<and> hi < int (physical_nr b) then do {
         let idx = bsearch_le (bl_phys_key b) start lo hi;
         let mk = nb_iter_from (entry_fuel (bl_mem b)) (bl_mem b);
         e \<leftarrow> (if 0 \<le> idx then bl_entry b (nat idx) else None);
         ei \<leftarrow> mk e start;
         skip_entries (entries_fuel b) (\<lambda>e. mk e start) b
           \<lparr>bi_iter = ei, bi_idx = nat idx, bi_end = physical_start (bl_ranges b ! r) + range_entries (bl_ranges b ! r),
            bi_range = r\<rparr>
       } else None
     }"

definition bl_iter_next :: "blevel \<Rightarrow> bliter \<Rightarrow> (bliter \<times> bool) option" where
  "bl_iter_next b it =
     do {
       (ei, more) \<leftarrow> nb_iter_next (bl_mem b) (bi_iter it);
       if more then Some (it\<lparr>bi_iter := ei\<rparr>, True)
       else do {
         it1 \<leftarrow> skip_entries (entries_fuel b) (nb_iter_begin (bl_mem b)) b (it\<lparr>bi_iter := ei\<rparr>);
         Some (it1, \<not> bl_iter_end it1)
       }
     }"

text \<open>\<^verbatim>\<open>NoSortIter\<close>.\<close>

type_synonym bl_nosort_iter = bliter

definition bl_nosort_begin :: "blevel \<Rightarrow> bl_nosort_iter option" where
  "bl_nosort_begin b = bl_iter_begin b"

definition bl_nosort_from :: "blevel \<Rightarrow> u64 \<Rightarrow> nat \<Rightarrow> nat \<Rightarrow> bl_nosort_iter option" where
  "bl_nosort_from b start begin_idx end_idx = bl_iter_from b start begin_idx end_idx"

definition bl_nosort_next :: "blevel \<Rightarrow> bl_nosort_iter \<Rightarrow> (bl_nosort_iter \<times> bool) option" where
  "bl_nosort_next b it = bl_iter_next b it"

subsection \<open>Iterating over the entry keys\<close>

text \<open>\<^verbatim>\<open>IndexIter\<close>: a logical index, 64 bits wide.  \<^verbatim>\<open>operator>\<close> compares with \<open><\<close>, and the bounds check
  of \<^verbatim>\<open>operator[]\<close> lets the index one past the end through.\<close>

type_synonym index_iter = u64

definition ix_deref :: "blevel \<Rightarrow> index_iter \<Rightarrow> u64 option" where
  "ix_deref b i = entry_key b (unat i)"

definition ix_at :: "blevel \<Rightarrow> index_iter \<Rightarrow> u64 \<Rightarrow> u64 option" where
  "ix_at b i k = (if k + i > of_nat (bl_nr b) then entry_key b 0 else entry_key b (unat (k + i)))"

definition ix_less :: "index_iter \<Rightarrow> index_iter \<Rightarrow> bool" where "ix_less i j \<longleftrightarrow> i < j"
definition ix_greater :: "index_iter \<Rightarrow> index_iter \<Rightarrow> bool" where "ix_greater i j \<longleftrightarrow> i < j"
definition ix_le :: "index_iter \<Rightarrow> index_iter \<Rightarrow> bool" where "ix_le i j \<longleftrightarrow> ix_less i j \<or> i = j"
definition ix_ge :: "index_iter \<Rightarrow> index_iter \<Rightarrow> bool" where "ix_ge i j \<longleftrightarrow> ix_greater i j \<or> i = j"

definition ix_distance :: "index_iter \<Rightarrow> index_iter \<Rightarrow> u64" where
  "ix_distance i j = (if j < i then 0 else j - i)"

definition ix_next :: "index_iter \<Rightarrow> index_iter" where "ix_next i = i + 1"
definition ix_prev :: "index_iter \<Rightarrow> index_iter" where "ix_prev i = i - 1"

subsection \<open>A scan of the B-level\<close>

text \<open>An entry that begins after the start key delivers all its pairs.\<close>

lemma nb_iter_from_before:
  assumes "nb_own m e d as xs" "start \<le> nb_key e" "\<forall>x \<in> set xs. nb_key e \<le> fst x"
  shows "\<exists>it. nb_iter_from (Suc n) m e start = Some it \<and> nb_iter_at m e it xs"
proof -
  have "nb_fits e (nb_key e)" by (simp add: nb_fits_def)
  then obtain it where it: "nb_iter_from (Suc n) m e (nb_key e) = Some it" "nb_iter_at m e it (filter (\<lambda>x. nb_key e \<le> fst x) xs)"
    using nb_iter_from_own[OF assms(1) _ assms(3)] by blast
  have f: "filter (\<lambda>x. nb_key e \<le> fst x) xs = xs" using assms(3) by (simp add: filter_id_conv)
  note at = it(2)[unfolded f]
  have cl: "cl_iter_from (cl_fuel m) m (nb_clevel e) (nb_key e) start = cl_iter_from (cl_fuel m) m (nb_clevel e) (nb_key e) (nb_key e)"
    using assms(2) by (simp add: cl_iter_from_def)
  show ?thesis
  proof (cases "cl_has_setup (nb_clevel e)")
    case True
    then obtain ci where ci: "cl_iter_from (cl_fuel m) m (nb_clevel e) (nb_key e) (nb_key e) = Some ci"
      using it(1) by (auto simp: nb_iter_from_def split: bind_splits)
    let ?it = "\<lparr>nbi_point = \<not> cl_iter_end ci, nbi_citer = ci\<rparr>"
    show ?thesis
    proof (cases "cl_iter_end ci")
      case e: True
      then show ?thesis using it(1) at True ci cl by (auto simp: nb_iter_from_def)
    next
      case ne: False
      then have seek: "nb_iter_seek (Suc n) m e (nb_key e) ?it = Some it" using it(1) True ci by (simp add: nb_iter_from_def Let_def)
      then obtain k where k: "nb_iter_key m e ?it = Some k" by (auto split: bind_splits)
      have same: "it = ?it"
      proof (cases "nb_key e \<le> k")
        case True
        then show ?thesis using seek k by simp
      next
        case False
        obtain t where t: "cl_tree (nb_key e) (nb_suffix e) m d t" "nb_clevel e = six_bytes (ct_addr t)" "ct_flat t = xs"
          using assms(1) True by (auto simp: nb_own_def cl_own_def)
        obtain ci' where C: "cl_iter_from (cl_fuel m) m (nb_clevel e) (nb_key e) (nb_key e) = Some ci'"
          "iter_at (nb_key e) (nb_suffix e) m ci' xs (cl_leaf_count t)"
          using cl_iter_from_tree[OF t(1) tree_fuel[OF t(1)], of "nb_key e"] assms(3) t f by auto
        have "nb_iter_at m e ?it xs" using nb_iter_at_citer[OF C(2) tree_fuel(2)[OF t(1)]] C(1) ci by simp
        then have "\<exists>x ys. xs = x # ys \<and> k = fst x" using ne k nb_iter_at_values(1)[of m e ?it]
          by (cases xs) (auto simp: nb_iter_at_def)
        then show ?thesis using assms(3) False by auto
      qed
      have "start \<le> k"
      proof -
        obtain x ys where "xs = x # ys" using at same ne by (cases xs) (auto simp: nb_iter_at_def)
        then have "k = fst x" "nb_key e \<le> fst x" using nb_iter_at_values(1)[of m e it] at same k assms(3) by auto
        then show ?thesis using assms(2) by simp
      qed
      then show ?thesis using True ci cl ne k at same by (intro exI[of _ it]) (simp add: nb_iter_from_def Let_def)
    qed
  next
    case False
    then show ?thesis using it(1) at by (auto simp: nb_iter_from_def)
  qed
qed

text \<open>The iterator stands on the entry of slot \<open>j\<close>.\<close>

definition at_slot :: "blevel \<Rightarrow> bliter \<Rightarrow> nat \<Rightarrow> bool" where
  "at_slot b it j \<longleftrightarrow> (\<exists>d. bi_range it < 4 \<and> d < range_entries (rng b (bi_range it)) \<and>
     j = logical_start (rng b (bi_range it)) + d \<and> bi_idx it = physical_start (rng b (bi_range it)) + d \<and>
     bi_end it = physical_start (rng b (bi_range it)) + range_entries (rng b (bi_range it)))"

lemma at_slot_entry:
  assumes "bl_shape b" "at_slot b it j"
  shows "bi_idx it = bl_slots b ! j" "j < length (bl_slots b)" "bl_entry b (bi_idx it) = Some (bl_live b j)"
    "\<not> bl_iter_end it"
proof -
  have r: "ranges_ok (bl_ranges b) (physical_nr b)" using assms(1) by (simp add: bl_shape_def)
  show i: "bi_idx it = bl_slots b ! j" and l: "j < length (bl_slots b)"
    using assms(2) slot_of_logical[OF r] by (auto simp: at_slot_def)
  show "bl_entry b (bi_idx it) = Some (bl_live b j)"
    using slot_in_array[OF assms(1) l] by (simp add: i bl_entry_def bl_live_def)
  show "\<not> bl_iter_end it" using assms(2) by (auto simp: at_slot_def bl_iter_end_def expand_threads_def)
qed

lemma next_index_slot:
  assumes "bl_shape b" "at_slot b it j" "next_index b it = (it', go)"
  shows "go \<longleftrightarrow> Suc j < length (bl_slots b)" "go \<Longrightarrow> at_slot b it' (Suc j)" "\<not> go \<Longrightarrow> bl_iter_end it'"
    "bi_iter it' = bi_iter it"
proof -
  have r: "ranges_ok (bl_ranges b) (physical_nr b)" using assms(1) by (simp add: bl_shape_def)
  let ?i = "bi_range it"
  obtain d where D: "?i < 4" "d < range_entries (rng b ?i)" "j = logical_start (rng b ?i) + d"
    "bi_idx it = physical_start (rng b ?i) + d" "bi_end it = physical_start (rng b ?i) + range_entries (rng b ?i)"
    using assms(2) by (auto simp: at_slot_def)
  note nxt = ranges_unfold(5)[OF r D(1)]
  have "(go \<longleftrightarrow> Suc j < length (bl_slots b)) \<and> (go \<longrightarrow> at_slot b it' (Suc j)) \<and> (\<not> go \<longrightarrow> bl_iter_end it') \<and>
      bi_iter it' = bi_iter it"
  proof (cases "Suc d < range_entries (rng b ?i)")
    case True
    then have "next_index b it = (it\<lparr>bi_idx := bi_idx it + 1\<rparr>, True)" using D by (simp add: next_index_def Let_def)
    moreover have "Suc j < length (bl_slots b)" using slot_of_logical(2)[OF r D(1) True] D(3) by simp
    ultimately show ?thesis using assms(3) D True by (auto simp: at_slot_def)
  next
    case False
    then have d: "Suc d = range_entries (rng b ?i)" using D(2) by simp
    show ?thesis
    proof (cases "?i = 3")
      case True
      then have "next_index b it = (it\<lparr>bi_idx := bi_idx it + 1, bi_range := 4\<rparr>, False)"
        using D d by (simp add: next_index_def Let_def expand_threads_def)
      moreover have "Suc j = length (bl_slots b)" using length_slots[OF r] nxt D(3) d True by simp
      ultimately show ?thesis using assms(3) by (auto simp: bl_iter_end_def expand_threads_def)
    next
      case ne: False
      then have i4: "Suc ?i < 4" using D(1) by simp
      let ?s = "physical_start (rng b (Suc ?i))"
      have "next_index b it = (it\<lparr>bi_idx := ?s, bi_end := ?s + range_entries (rng b (Suc ?i)), bi_range := Suc ?i\<rparr>, True)"
        using D d i4 by (simp add: next_index_def Let_def expand_threads_def)
      moreover have "Suc j = logical_start (rng b (Suc ?i))" using nxt D(3) d by simp
      ultimately show ?thesis using assms(3) i4 ranges_unfold(3)[OF r i4] slot_of_logical(2)[OF r i4, of 0]
        by (auto simp: at_slot_def)
    qed
  qed
  then show "go \<longleftrightarrow> Suc j < length (bl_slots b)" "go \<Longrightarrow> at_slot b it' (Suc j)" "\<not> go \<Longrightarrow> bl_iter_end it'"
    "bi_iter it' = bi_iter it" by blast+
qed

text \<open>The pairs still to come.\<close>

definition bl_iter_at :: "blevel \<Rightarrow> kv list list \<Rightarrow> bliter \<Rightarrow> kv list \<Rightarrow> bool" where
  "bl_iter_at b xss it rest \<longleftrightarrow> (rest = [] \<and> bl_iter_end it) \<or>
     (\<exists>j r. at_slot b it j \<and> nb_iter_at (bl_mem b) (bl_live b j) (bi_iter it) r \<and> r \<noteq> [] \<and>
        rest = r @ concat (drop (Suc j) xss))"

lemma skip_entries_at:
  assumes "bl_shape b" "length xss = length (bl_slots b)" "at_slot b it j"
    "nb_iter_at (bl_mem b) (bl_live b j) (bi_iter it) r" "length xss - j < n"
    "\<forall>i. j < i \<and> i < length xss \<longrightarrow> (\<exists>ei. mk (bl_live b i) = Some ei \<and> nb_iter_at (bl_mem b) (bl_live b i) ei (xss ! i))"
  shows "\<exists>it'. skip_entries n mk b it = Some it' \<and> bl_iter_at b xss it' (r @ concat (drop (Suc j) xss))"
  using assms(3-6)
proof (induction n arbitrary: it j r)
  case (Suc n)
  have j: "j < length (bl_slots b)" using at_slot_entry(2)[OF assms(1) Suc.prems(1)] .
  show ?case
  proof (cases "r = []")
    case False
    then have "\<not> nb_iter_end (bi_iter it)" using Suc.prems(2) by (simp add: nb_iter_at_def nb_iter_end_def)
    then show ?thesis using False Suc.prems(1,2) by (auto simp: bl_iter_at_def)
  next
    case True
    then have e: "nb_iter_end (bi_iter it)" using Suc.prems(2) by (simp add: nb_iter_at_def nb_iter_end_def)
    obtain it1 more where nx: "next_index b it = (it1, more)" by fastforce
    note N = next_index_slot[OF assms(1) Suc.prems(1) nx]
    show ?thesis
    proof (cases more)
      case m: True
      then have sj: "Suc j < length xss" "at_slot b it1 (Suc j)" using N assms(2) by auto
      obtain ei where mk: "mk (bl_live b (Suc j)) = Some ei" "nb_iter_at (bl_mem b) (bl_live b (Suc j)) ei (xss ! Suc j)"
        using Suc.prems(4) sj by blast
      have "at_slot b (it1\<lparr>bi_iter := ei\<rparr>) (Suc j)" using sj(2) by (simp add: at_slot_def)
      moreover have "\<forall>i. Suc j < i \<and> i < length xss \<longrightarrow>
          (\<exists>ei. mk (bl_live b i) = Some ei \<and> nb_iter_at (bl_mem b) (bl_live b i) ei (xss ! i))" using Suc.prems(4) by simp
      moreover have "length xss - Suc j < n" using Suc.prems(3) sj(1) by linarith
      ultimately obtain it' where "skip_entries n mk b (it1\<lparr>bi_iter := ei\<rparr>) = Some it'"
        "bl_iter_at b xss it' (xss ! Suc j @ concat (drop (Suc (Suc j)) xss))"
        using Suc.IH[of "it1\<lparr>bi_iter := ei\<rparr>" "Suc j" "xss ! Suc j"] mk(2) by auto
      moreover have "concat (drop (Suc j) xss) = xss ! Suc j @ concat (drop (Suc (Suc j)) xss)"
        using sj(1) by (simp flip: Cons_nth_drop_Suc)
      ultimately show ?thesis using True e nx m mk(1) at_slot_entry(3)[OF assms(1) sj(2)] by (simp add: Let_def)
    next
      case m: False
      then have "Suc j \<ge> length xss" using N(1) assms(2) by simp
      then show ?thesis using True e nx m N(3) by (simp add: bl_iter_at_def)
    qed
  qed
qed simp

lemma own_slot_keys:
  assumes "bl_own b ds ass xss" "i < length (bl_slots b)"
  shows "nb_own (bl_mem b) (bl_live b i) (ds ! i) (ass ! i) (xss ! i)" "\<forall>x \<in> set (xss ! i). in_slot b i (fst x)"
    "\<forall>x \<in> set (xss ! i). nb_key (bl_live b i) \<le> fst x"
  using assms by (auto simp: bl_own_def entry_ok_def in_slot_def bl_live_def bl_phys_key_def)

lemma in_slot_less:
  assumes "bl_shape b" "in_slot b i k" "in_slot b j l" "i < j"
  shows "k < l"
proof -
  have "k < bl_phys_key b (bl_slots b ! Suc i)" using assms(2-4) by (auto simp: in_slot_def)
  also have "\<dots> \<le> bl_phys_key b (bl_slots b ! j)" using phys_key_mono[OF assms(1), of "Suc i" j] assms(3,4) by (simp add: in_slot_def)
  also have "\<dots> \<le> l" using assms(3) by (simp add: in_slot_def)
  finally show ?thesis .
qed

lemma bl_own_sorted:
  assumes "bl_own b ds ass xss"
  shows "keys_sorted (concat xss)"
proof -
  have sh: "bl_shape b" and l: "length xss = length (bl_slots b)" using assms by (simp_all add: bl_own_def)
  have "keys_sorted (concat (drop i xss))" if "i \<le> length xss" for i
    using that
  proof (induction "length xss - i" arbitrary: i)
    case (Suc n)
    then have i: "i < length (bl_slots b)" using l by simp
    have d: "drop i xss = xss ! i # drop (Suc i) xss" using i l by (simp add: Cons_nth_drop_Suc)
    have "fst x < fst y" if xy: "x \<in> set (xss ! i)" "y \<in> set (concat (drop (Suc i) xss))" for x y
    proof -
      obtain ys where ys: "ys \<in> set (drop (Suc i) xss)" "y \<in> set ys" using xy(2) by auto
      obtain k where "k < length xss - Suc i" "ys = xss ! (Suc i + k)" using ys(1) by (auto simp: in_set_conv_nth)
      then have "k < length xss - Suc i" "y \<in> set (xss ! (Suc i + k))" using ys(2) by auto
      then show ?thesis using in_slot_less[OF sh, of i "fst x" "Suc i + k" "fst y"] own_slot_keys(2)[OF assms] xy(1) i l by auto
    qed
    moreover have "keys_sorted (xss ! i)" using nb_own_sorted[OF own_slot_keys(1)[OF assms i]] .
    ultimately show ?case using Suc by (simp add: d keys_sorted_append)
  qed simp
  from this[of 0] show ?thesis by simp
qed

text \<open>The pairs from the start key on, entry by entry.\<close>

lemma filter_slots:
  assumes "bl_own b ds ass xss" "in_slot b j start"
  shows "filter (\<lambda>x. start \<le> fst x) (concat xss) = filter (\<lambda>x. start \<le> fst x) (xss ! j) @ concat (drop (Suc j) xss)"
    "\<And>i. j < i \<Longrightarrow> i < length xss \<Longrightarrow> start \<le> nb_key (bl_live b i)"
proof -
  have sh: "bl_shape b" and l: "length xss = length (bl_slots b)" using assms by (simp_all add: bl_own_def)
  have j: "j < length xss" using assms(2) l by (simp add: in_slot_def)
  show above: "start \<le> nb_key (bl_live b i)" if "j < i" "i < length xss" for i
  proof -
    have "start < bl_phys_key b (bl_slots b ! Suc j)" using assms(2) that l by (simp add: in_slot_def)
    also have "\<dots> \<le> bl_phys_key b (bl_slots b ! i)" using phys_key_mono[OF sh, of "Suc j" i] that l by simp
    finally show ?thesis by (simp add: bl_live_def bl_phys_key_def)
  qed
  have "filter (\<lambda>x. start \<le> fst x) y = []" if y: "y \<in> set (take j xss)" for y
  proof -
    obtain i where i: "i < j" "y = xss ! i" using y j by (auto simp: in_set_conv_nth)
    have "fst x < start" if "x \<in> set y" for x
      using in_slot_less[OF sh _ assms(2), of i "fst x"] own_slot_keys(2)[OF assms(1), of i] i j l that by auto
    then show ?thesis by (auto simp: filter_empty_conv not_le)
  qed
  then have 1: "filter (\<lambda>x. start \<le> fst x) (concat (take j xss)) = []" by (auto simp: filter_empty_conv)
  have "filter (\<lambda>x. start \<le> fst x) y = y" if y: "y \<in> set (drop (Suc j) xss)" for y
  proof -
    obtain k where k: "k < length xss - Suc j" "y = xss ! (Suc j + k)" using y by (auto simp: in_set_conv_nth)
    have i: "j < Suc j + k" "Suc j + k < length xss" "Suc j + k < length (bl_slots b)" using k(1) l by simp_all
    have "start \<le> fst x" if "x \<in> set y" for x
      using order_trans[OF above[OF i(1,2)]] own_slot_keys(3)[OF assms(1) i(3)] k(2) that by blast
    then show ?thesis by (simp add: filter_id_conv)
  qed
  then have 2: "filter (\<lambda>x. start \<le> fst x) (concat (drop (Suc j) xss)) = concat (drop (Suc j) xss)"
    by (auto simp: filter_id_conv)
  have "concat xss = concat (take j xss) @ xss ! j @ concat (drop (Suc j) xss)"
    using id_take_nth_drop[OF j] by (metis concat.simps(2) concat_append)
  then show "filter (\<lambda>x. start \<le> fst x) (concat xss) = filter (\<lambda>x. start \<le> fst x) (xss ! j) @ concat (drop (Suc j) xss)"
    using 1 2 by simp
qed

lemma slots_fuel: "bl_shape b \<Longrightarrow> length (bl_slots b) < entries_fuel b"
proof -
  assume sh: "bl_shape b"
  have "set (bl_slots b) \<subseteq> {..<physical_nr b}" using slot_in_array[OF sh] by (auto simp: in_set_conv_nth)
  then have "card (set (bl_slots b)) \<le> physical_nr b" using card_mono[of "{..<physical_nr b}"] by simp
  then show ?thesis using distinct_card[OF slots_distinct[OF sh]] by (simp add: entries_fuel_def)
qed

lemma entry_fuel_Suc: "\<exists>n. entry_fuel m = Suc n"
  by (auto simp: entry_fuel_def cl_fuel_def)

lemma bl_iter_from_at:
  assumes "bl_own b ds ass xss" "in_slot b j start" "begin_idx \<le> j" "j \<le> end_idx"
  shows "\<exists>it. bl_iter_from b start begin_idx end_idx = Some it \<and>
    bl_iter_at b xss it (filter (\<lambda>x. start \<le> fst x) (concat xss))"
proof -
  have sh: "bl_shape b" and l: "length xss = length (bl_slots b)" using assms by (simp_all add: bl_own_def)
  obtain i d where S: "i < 4" "d < range_entries (rng b i)" "j = logical_start (rng b i) + d"
    "bl_slots b ! j = physical_start (rng b i) + d" "find_brange_by_key b start = Some i"
    "le_pos (bl_phys_key b) start (int (physical_start (rng b i))) (range_last (rng b i)) (int (bl_slots b ! j))"
    "strict_on (bl_phys_key b) (int (physical_start (rng b i))) (range_last (rng b i))"
    "range_last (rng b i) < int (physical_nr b)" using in_slot_range[OF sh assms(2)] .
  have r: "ranges_ok (bl_ranges b) (physical_nr b)" using sh by (simp add: bl_shape_def)
  obtain left right where w: "find_window b i begin_idx end_idx = (left, right)" by fastforce
  have lr: "int (physical_start (rng b i)) \<le> left" "left \<le> int (bl_slots b ! j)" "int (bl_slots b ! j) \<le> right"
    "right \<le> range_last (rng b i)"
    using w S(1-4) assms(3,4) ranges_unfold(5)[OF r S(1)]
    by (auto simp: find_window_def Let_def get_physical_def range_last_def split: if_splits)
  have idx: "bsearch_le (bl_phys_key b) start left right = int (bl_slots b ! j)"
    using lr by (intro bsearch_le_correct[OF S(6,7)]) auto
  have j: "j < length (bl_slots b)" using assms(2) by (simp add: in_slot_def)
  obtain fn where fn: "entry_fuel (bl_mem b) = Suc fn" using entry_fuel_Suc by blast
  let ?mk = "\<lambda>e. nb_iter_from (entry_fuel (bl_mem b)) (bl_mem b) e start"
  have fit: "nb_fits (bl_live b j) start" using slot_entry(4)[OF assms(1,2)] .
  obtain ei where ei: "?mk (bl_live b j) = Some ei"
    "nb_iter_at (bl_mem b) (bl_live b j) ei (filter (\<lambda>x. start \<le> fst x) (xss ! j))"
    using nb_iter_from_own[OF own_slot_keys(1)[OF assms(1) j] fit own_slot_keys(3)[OF assms(1) j]] fn by fastforce
  define it where "it = \<lparr>bi_iter = ei, bi_idx = bl_slots b ! j,
      bi_end = physical_start (rng b i) + range_entries (rng b i), bi_range = i\<rparr>"
  have at: "at_slot b it j" using S(1-4) by (simp add: at_slot_def it_def)
  have mk: "\<forall>i. j < i \<and> i < length xss \<longrightarrow> (\<exists>ei. ?mk (bl_live b i) = Some ei \<and> nb_iter_at (bl_mem b) (bl_live b i) ei (xss ! i))"
    using nb_iter_from_before[OF own_slot_keys(1)[OF assms(1)] filter_slots(2)[OF assms(1,2)] own_slot_keys(3)[OF assms(1)]] fn l
    by auto
  have fuel: "length xss - j < entries_fuel b" using slots_fuel[OF sh] l by simp
  obtain it' where "skip_entries (entries_fuel b) ?mk b it = Some it'"
    "bl_iter_at b xss it' (filter (\<lambda>x. start \<le> fst x) (xss ! j) @ concat (drop (Suc j) xss))"
    using skip_entries_at[OF sh l at _ fuel mk] ei(2) by (auto simp: it_def)
  moreover have "bl_entry b (bl_slots b ! j) = Some (bl_live b j)"
    using slot_in_array[OF sh j] by (simp add: bl_entry_def bl_live_def)
  ultimately show ?thesis using S(5,8) w lr idx ei(1) filter_slots(1)[OF assms(1,2)]
    by (simp add: bl_iter_from_def Let_def it_def)
qed

lemma bl_iter_begin_at:
  assumes "bl_own b ds ass xss" "physical_start (rng b 0) = 0"
  shows "\<exists>it. bl_iter_begin b = Some it \<and> bl_iter_at b xss it (concat xss)"
proof -
  have sh: "bl_shape b" and l: "length xss = length (bl_slots b)" using assms by (simp_all add: bl_own_def)
  have r: "ranges_ok (bl_ranges b) (physical_nr b)" using sh by (simp add: bl_shape_def)
  have z: "bl_slots b ! 0 = 0" "0 < length (bl_slots b)"
    using slot_of_logical[OF r, of 0 0] ranges_unfold(2,3)[OF r] assms(2) by auto
  have fuel: "length xss - 0 < entries_fuel b" using slots_fuel[OF sh] l by simp
  have mk: "\<forall>i. 0 < i \<and> i < length xss \<longrightarrow>
      (\<exists>ei. nb_iter_begin (bl_mem b) (bl_live b i) = Some ei \<and> nb_iter_at (bl_mem b) (bl_live b i) ei (xss ! i))"
    using nb_iter_begin_own[OF own_slot_keys(1)[OF assms(1)]] l by auto
  obtain ei where ei: "nb_iter_begin (bl_mem b) (bl_live b 0) = Some ei" "nb_iter_at (bl_mem b) (bl_live b 0) ei (xss ! 0)"
    using nb_iter_begin_own[OF own_slot_keys(1)[OF assms(1) z(2)]] by blast
  define it where "it = \<lparr>bi_iter = ei, bi_idx = 0, bi_end = range_entries (rng b 0), bi_range = 0\<rparr>"
  have at: "at_slot b it 0" using assms(2) ranges_unfold(2,3)[OF r] by (simp add: at_slot_def it_def)
  obtain it' where "skip_entries (entries_fuel b) (nb_iter_begin (bl_mem b)) b it = Some it'"
    "bl_iter_at b xss it' (xss ! 0 @ concat (drop (Suc 0) xss))"
    using skip_entries_at[OF sh l at _ fuel mk] ei(2) by (auto simp: it_def)
  moreover have "xss ! 0 @ concat (drop (Suc 0) xss) = concat xss" using z(2) l by (cases xss) auto
  moreover have "bl_entry b 0 = Some (bl_live b 0)"
    using slot_in_array[OF sh z(2)] z(1) by (simp add: bl_entry_def bl_live_def)
  ultimately show ?thesis using ei(1) by (simp add: bl_iter_begin_def it_def)
qed

lemma bl_iter_at_values:
  assumes "bl_shape b" "bl_iter_at b xss it (x # rest)"
  shows "bl_iter_key b it = Some (fst x)" "bl_iter_value b it = Some (snd x)" "\<not> bl_iter_end it"
proof -
  obtain j r where J: "at_slot b it j" "nb_iter_at (bl_mem b) (bl_live b j) (bi_iter it) r" "r \<noteq> []"
    "x # rest = r @ concat (drop (Suc j) xss)" using assms(2) by (auto simp: bl_iter_at_def)
  then obtain r' where r: "r = x # r'" by (cases r) auto
  note V = nb_iter_at_values[OF J(2)[unfolded r]]
  show "bl_iter_key b it = Some (fst x)" "bl_iter_value b it = Some (snd x)" "\<not> bl_iter_end it"
    using V at_slot_entry[OF assms(1) J(1)] by (simp_all add: bl_iter_key_def bl_iter_value_def)
qed

lemma bl_iter_at_next:
  assumes "bl_own b ds ass xss" "bl_iter_at b xss it (x # rest)"
  shows "\<exists>it'. bl_iter_next b it = Some (it', rest \<noteq> []) \<and> bl_iter_at b xss it' rest"
proof -
  have sh: "bl_shape b" and l: "length xss = length (bl_slots b)" using assms by (simp_all add: bl_own_def)
  obtain j r where J: "at_slot b it j" "nb_iter_at (bl_mem b) (bl_live b j) (bi_iter it) r" "r \<noteq> []"
    "x # rest = r @ concat (drop (Suc j) xss)" using assms(2) by (auto simp: bl_iter_at_def)
  then obtain r' where r: "r = x # r'" "rest = r' @ concat (drop (Suc j) xss)" by (cases r) auto
  obtain ei where ei: "nb_iter_next (bl_mem b) (bi_iter it) = Some (ei, r' \<noteq> [])" "nb_iter_at (bl_mem b) (bl_live b j) ei r'"
    using nb_iter_at_next[OF J(2)[unfolded r(1)]] by blast
  have at: "at_slot b (it\<lparr>bi_iter := ei\<rparr>) j" using J(1) by (simp add: at_slot_def)
  show ?thesis
  proof (cases "r' = []")
    case False
    then have "bl_iter_at b xss (it\<lparr>bi_iter := ei\<rparr>) rest" using at ei(2) r(2) by (auto simp: bl_iter_at_def)
    then show ?thesis using False ei(1) r(2) by (simp add: bl_iter_next_def)
  next
    case True
    have fuel: "length xss - j < entries_fuel b" using slots_fuel[OF sh] l by simp
    have mk: "\<forall>i. j < i \<and> i < length xss \<longrightarrow>
        (\<exists>ei. nb_iter_begin (bl_mem b) (bl_live b i) = Some ei \<and> nb_iter_at (bl_mem b) (bl_live b i) ei (xss ! i))"
      using nb_iter_begin_own[OF own_slot_keys(1)[OF assms(1)]] l by auto
    obtain it' where K: "skip_entries (entries_fuel b) (nb_iter_begin (bl_mem b)) b (it\<lparr>bi_iter := ei\<rparr>) = Some it'"
      "bl_iter_at b xss it' rest" using skip_entries_at[OF sh l at _ fuel mk] ei(2) r(2) by auto
    have "bl_iter_end it' \<longleftrightarrow> rest = []"
      using K(2) at_slot_entry(4)[OF sh] by (auto simp: bl_iter_at_def)
    then show ?thesis using True ei(1) K by (simp add: bl_iter_next_def)
  qed
qed

text \<open>A client that reads at most \<open>n\<close> pairs.\<close>

fun bl_iter_collect :: "nat \<Rightarrow> blevel \<Rightarrow> bliter \<Rightarrow> kv list option" where
  "bl_iter_collect 0 b it = Some []"
| "bl_iter_collect (Suc n) b it =
     (if bl_iter_end it then Some []
      else do {
        k \<leftarrow> bl_iter_key b it;
        v \<leftarrow> bl_iter_value b it;
        (it', _) \<leftarrow> bl_iter_next b it;
        rest \<leftarrow> bl_iter_collect n b it';
        Some ((k, v) # rest)
      })"

lemma bl_iter_collect_at:
  "bl_own b ds ass xss \<Longrightarrow> bl_iter_at b xss it rest \<Longrightarrow> bl_iter_collect n b it = Some (take n rest)"
proof (induction n arbitrary: it rest)
  case (Suc n)
  have sh: "bl_shape b" using Suc.prems(1) by (simp add: bl_own_def)
  show ?case
  proof (cases rest)
    case Nil
    then show ?thesis using Suc.prems(2) by (auto simp: bl_iter_at_def)
  next
    case (Cons x xs)
    note at = Suc.prems(2)[unfolded Cons]
    obtain it' where n: "bl_iter_next b it = Some (it', xs \<noteq> [])" "bl_iter_at b xss it' xs"
      using bl_iter_at_next[OF Suc.prems(1) at] by blast
    show ?thesis using bl_iter_at_values[OF sh at] n(1) Suc.IH[OF Suc.prems(1) n(2)] Cons by simp
  qed
qed simp

lemma bl_scan_holds:
  assumes "bl_holds b D M" "in_slot b j start" "begin_idx \<le> j" "j \<le> end_idx"
  shows "\<exists>xs it. keys_sorted xs \<and> map_of xs = M \<and> bl_iter_from b start begin_idx end_idx = Some it \<and>
    bl_iter_collect n b it = Some (take n (filter (\<lambda>x. start \<le> fst x) xs))"
proof -
  obtain ds ass xss where H: "bl_own b ds ass xss" "M = map_of (concat xss)" using assms(1) by (auto simp: bl_holds_def)
  obtain it where "bl_iter_from b start begin_idx end_idx = Some it"
    "bl_iter_at b xss it (filter (\<lambda>x. start \<le> fst x) (concat xss))" using bl_iter_from_at[OF H(1) assms(2-4)] by blast
  then show ?thesis using bl_own_sorted[OF H(1)] H(2) bl_iter_collect_at[OF H(1)] by blast
qed

end
