(* ===== verification/IndexLayer.thy ===== *)
theory IndexLayer
  imports BLevelIter
begin

text \<open>
  The layer that maps a key to a position of the B-level: \<^verbatim>\<open>src/learn_index.h\<close> and \<^verbatim>\<open>.cc\<close> (the
  index that ComboTree uses), \<^verbatim>\<open>src/rmi_index.h\<close> and \<^verbatim>\<open>.cc\<close>, \<^verbatim>\<open>src/pgm_index.h\<close> and \<^verbatim>\<open>.cc\<close>, and
  \<^verbatim>\<open>src/alevel.h\<close> and \<^verbatim>\<open>.cc\<close>.

  The trained models are floating-point linear models of the vendored PGM and RMI code; here they are
  arguments: \<open>train\<close> maps the list of the entry keys to the prediction function, \<open>cdf\<close> is the
  floating-point expression of \<^verbatim>\<open>ALevel::CDFIndex_\<close>.  What is proved holds for all of them, or under
  a named condition on the window they return.
\<close>

subsection \<open>Entry keys by logical index\<close>

definition entry_keys :: "blevel \<Rightarrow> u64 list option" where
  "entry_keys b = those (map (entry_key b) [0..<bl_nr b])"

lemma entry_key_slot:
  assumes "bl_shape b" "j < length (bl_slots b)"
  shows "entry_key b j = Some (bl_phys_key b (bl_slots b ! j))"
proof -
  have r: "ranges_ok (bl_ranges b) (physical_nr b)" using assms(1) by (simp add: bl_shape_def)
  obtain i d where D: "i < 4" "d < range_entries (rng b i)" "j = logical_start (rng b i) + d"
    using logical_range[OF r assms(2)] by blast
  have "find_brange b j = Some i"
    unfolding find_brange_def expand_threads_def
  proof (rule range_down_eq[OF D(1)])
    show "logical_start (rng b i) \<le> j" using D(3) by simp
    show "\<forall>i'. i < i' \<and> i' < 4 \<longrightarrow> \<not> logical_start (rng b i') \<le> j"
      using ranges_mono(2)[OF r, of i] D by (fastforce simp: not_le)
  qed
  moreover have "get_physical (rng b i) j = int (bl_slots b ! j)"
    using slot_of_logical(1)[OF r D(1,2)] D(3) by (simp add: get_physical_def)
  ultimately show ?thesis using slot_in_array[OF assms]
    by (simp add: entry_key_def get_physical_logical_def bl_entry_def bl_phys_key_def)
qed

lemma length_slots_nr: "bl_shape b \<Longrightarrow> bl_nr b = length (bl_slots b)"
  using length_slots by (auto simp: bl_shape_def)

subsection \<open>Learn\_Index\<close>

record approx_pos =
  ap_pos :: nat
  ap_lo :: nat
  ap_hi :: nat

record learn_index =
  li_min_key :: u64
  li_max_key :: u64
  li_nr_blevel :: nat
  li_nr_entry :: nat
  li_search :: "u64 \<Rightarrow> approx_pos"

definition li_new :: "(u64 list \<Rightarrow> u64 \<Rightarrow> approx_pos) \<Rightarrow> blevel \<Rightarrow> learn_index option" where
  "li_new train b =
     (if bl_nr b = 0 then None
      else do {
        let nr_blevel_entry = bl_nr b - 1;
        min_key \<leftarrow> entry_key b 1;
        max_key \<leftarrow> entry_key b nr_blevel_entry;
        keys \<leftarrow> entry_keys b;
        Some \<lparr>li_min_key = min_key, li_max_key = max_key, li_nr_blevel = nr_blevel_entry,
              li_nr_entry = nr_blevel_entry + 1, li_search = train keys\<rparr>
      })"

definition li_range :: "learn_index \<Rightarrow> u64 \<Rightarrow> nat \<times> nat" where
  "li_range li key =
     (if key < li_min_key li then (0, 0)
      else if key \<ge> li_max_key li then (li_nr_blevel li, li_nr_blevel li)
      else (ap_lo (li_search li key), ap_hi (li_search li key)))"

definition li_near :: "learn_index \<Rightarrow> u64 \<Rightarrow> nat" where
  "li_near li key =
     (if key < li_min_key li then 0
      else if key \<ge> li_max_key li then li_nr_blevel li
      else ap_pos (li_search li key))"

definition li_put :: "learn_index \<Rightarrow> blevel \<Rightarrow> u64 \<Rightarrow> u64 \<Rightarrow> (blevel \<times> status) option" where
  "li_put li b key value = bl_put_near b key value (li_near li key)"

definition li_update :: "learn_index \<Rightarrow> blevel \<Rightarrow> u64 \<Rightarrow> u64 \<Rightarrow> (blevel \<times> bool) option" where
  "li_update li b key value = (let (lo, hi) = li_range li key in bl_update b key value lo hi)"

definition li_get :: "learn_index \<Rightarrow> blevel \<Rightarrow> u64 \<Rightarrow> (u64 option) option" where
  "li_get li b key = bl_get_near b key (li_near li key)"

definition li_delete :: "learn_index \<Rightarrow> blevel \<Rightarrow> u64 \<Rightarrow> (blevel \<times> bool \<times> u64 option) option" where
  "li_delete li b key = (let (lo, hi) = li_range li key in bl_delete b key lo hi)"

definition li_size :: "blevel \<Rightarrow> u64" where "li_size b = bl_size b"
definition li_usage :: "learn_index \<Rightarrow> nat" where "li_usage li = li_nr_entry li"

subsection \<open>RMI\_Index\<close>

record rmi_index =
  ri_min_key :: u64
  ri_max_key :: u64
  ri_nr_blevel :: nat
  ri_predict :: "u64 \<Rightarrow> nat"

definition rmi_new :: "(u64 list \<Rightarrow> u64 \<Rightarrow> nat) \<Rightarrow> blevel \<Rightarrow> rmi_index option" where
  "rmi_new train b =
     (if bl_nr b = 0 then None
      else do {
        let nr_blevel_entry = bl_nr b - 1;
        min_key \<leftarrow> entry_key b 1;
        max_key \<leftarrow> entry_key b nr_blevel_entry;
        keys \<leftarrow> entry_keys b;
        Some \<lparr>ri_min_key = min_key, ri_max_key = max_key, ri_nr_blevel = nr_blevel_entry, ri_predict = train keys\<rparr>
      })"

text \<open>The two doubling loops of \<^verbatim>\<open>GetBLevelRange_\<close>; the array has fewer than \<^verbatim>\<open>2^31\<close> entries.\<close>

function rmi_down :: "blevel \<Rightarrow> u64 \<Rightarrow> nat \<Rightarrow> int \<Rightarrow> int \<Rightarrow> (int \<times> int) option" where
  "rmi_down b key step bgn e =
     (if 0 \<le> bgn \<and> 0 < step then
        case entry_key b (nat bgn) of
          None \<Rightarrow> None
        | Some k \<Rightarrow> if key \<le> k then rmi_down b key (step * 2) (bgn - int (step * 2)) bgn else Some (bgn, e)
      else Some (bgn, e))"
  by pat_completeness auto
termination by (relation "measure (\<lambda>(b, key, step, bgn, e). nat (bgn + 1))") auto

function rmi_up :: "blevel \<Rightarrow> u64 \<Rightarrow> nat \<Rightarrow> nat \<Rightarrow> nat \<Rightarrow> nat \<Rightarrow> (nat \<times> nat) option" where
  "rmi_up b key nr step bgn e =
     (if e \<le> nr \<and> 0 < step then
        case entry_key b e of
          None \<Rightarrow> None
        | Some k \<Rightarrow> if k < key then rmi_up b key nr (step * 2) e (e + step * 2) else Some (bgn, e)
      else Some (bgn, e))"
  by pat_completeness auto
termination by (relation "measure (\<lambda>(b, key, nr, step, bgn, e). Suc nr - e)") auto

declare rmi_down.simps [simp del] rmi_up.simps [simp del]

definition rmi_range :: "rmi_index \<Rightarrow> blevel \<Rightarrow> u64 \<Rightarrow> (nat \<times> nat) option" where
  "rmi_range ri b key =
     (if key < ri_min_key ri then Some (0, 0)
      else if key \<ge> ri_max_key ri then Some (ri_nr_blevel ri, ri_nr_blevel ri)
      else do {
        let predict_pos = ri_predict ri key;
        k \<leftarrow> entry_key b predict_pos;
        if key < k then do {
          (bgn, e) \<leftarrow> rmi_down b key 1 (int predict_pos - 1) (int predict_pos);
          Some (nat (max bgn 0), nat e)
        } else do {
          (bgn, e) \<leftarrow> rmi_up b key (ri_nr_blevel ri) 1 predict_pos (predict_pos + 1);
          Some (bgn, min e (ri_nr_blevel ri))
        }
      })"

definition rmi_near :: "rmi_index \<Rightarrow> u64 \<Rightarrow> nat" where
  "rmi_near ri key =
     (if key < ri_min_key ri then 0 else if key \<ge> ri_max_key ri then ri_nr_blevel ri else ri_predict ri key)"

definition rmi_put :: "rmi_index \<Rightarrow> blevel \<Rightarrow> u64 \<Rightarrow> u64 \<Rightarrow> (blevel \<times> bool) option" where
  "rmi_put ri b key value = map_option (\<lambda>(b1, ret). (b1, status_bool ret)) (bl_put_near b key value (rmi_near ri key))"

definition rmi_update :: "rmi_index \<Rightarrow> blevel \<Rightarrow> u64 \<Rightarrow> u64 \<Rightarrow> (blevel \<times> bool) option" where
  "rmi_update ri b key value = bl_update_near b key value (rmi_near ri key)"

definition rmi_get :: "rmi_index \<Rightarrow> blevel \<Rightarrow> u64 \<Rightarrow> (u64 option) option" where
  "rmi_get ri b key = bl_get_near b key (rmi_near ri key)"

definition rmi_delete :: "rmi_index \<Rightarrow> blevel \<Rightarrow> u64 \<Rightarrow> (blevel \<times> bool \<times> u64 option) option" where
  "rmi_delete ri b key = bl_delete_near b key (rmi_near ri key)"

subsection \<open>PGM\_Index\<close>

record pgm_index =
  pi_min_key :: u64
  pi_max_key :: u64
  pi_nr_blevel :: nat
  pi_search :: "u64 \<Rightarrow> approx_pos"

definition pgm_new :: "(u64 list \<Rightarrow> u64 \<Rightarrow> approx_pos) \<Rightarrow> blevel \<Rightarrow> pgm_index option" where
  "pgm_new train b =
     (if bl_nr b = 0 then None
      else do {
        let nr_blevel_entry = bl_nr b - 1;
        min_key \<leftarrow> entry_key b 1;
        max_key \<leftarrow> entry_key b nr_blevel_entry;
        keys \<leftarrow> entry_keys b;
        Some \<lparr>pi_min_key = min_key, pi_max_key = max_key, pi_nr_blevel = nr_blevel_entry, pi_search = train keys\<rparr>
      })"

definition pgm_range :: "pgm_index \<Rightarrow> u64 \<Rightarrow> nat \<times> nat" where
  "pgm_range i key =
     (if key < pi_min_key i then (0, 0)
      else if key \<ge> pi_max_key i then (pi_nr_blevel i, pi_nr_blevel i)
      else (ap_lo (pi_search i key), ap_hi (pi_search i key)))"

definition pgm_put :: "pgm_index \<Rightarrow> blevel \<Rightarrow> u64 \<Rightarrow> u64 \<Rightarrow> (blevel \<times> bool) option" where
  "pgm_put i b key value =
     (let (lo, hi) = pgm_range i key
      in map_option (\<lambda>(b1, ret). (b1, status_bool ret)) (bl_put b key value lo hi))"

definition pgm_update :: "pgm_index \<Rightarrow> blevel \<Rightarrow> u64 \<Rightarrow> u64 \<Rightarrow> (blevel \<times> bool) option" where
  "pgm_update i b key value = (let (lo, hi) = pgm_range i key in bl_update b key value lo hi)"

definition pgm_get :: "pgm_index \<Rightarrow> blevel \<Rightarrow> u64 \<Rightarrow> (u64 option) option" where
  "pgm_get i b key = (let (lo, hi) = pgm_range i key in bl_get b key lo hi)"

definition pgm_delete :: "pgm_index \<Rightarrow> blevel \<Rightarrow> u64 \<Rightarrow> (blevel \<times> bool \<times> u64 option) option" where
  "pgm_delete i b key = (let (lo, hi) = pgm_range i key in bl_delete b key lo hi)"

subsection \<open>ALevel\<close>

record aentry =
  a_key :: u64
  a_offset :: nat

record alevel =
  al_span :: nat
  al_min_key :: u64
  al_max_key :: u64
  al_nr_blevel :: nat
  al_nr_entry :: nat
  al_entry :: "aentry list"

type_synonym cdf_fun = "u64 \<Rightarrow> u64 \<Rightarrow> nat \<Rightarrow> nat \<Rightarrow> u64 \<Rightarrow> nat"

text \<open>\<^verbatim>\<open>CDFIndex_\<close>; \<open>cdf min max n span key\<close> is the value of its floating-point expression.\<close>

definition cdf_index :: "cdf_fun \<Rightarrow> alevel \<Rightarrow> u64 \<Rightarrow> nat" where
  "cdf_index cdf a key =
     (if key < al_min_key a then 0
      else if key > al_max_key a then al_nr_entry a - 1
      else cdf (al_min_key a) (al_max_key a) (al_nr_blevel a) (al_span a) key)"

text \<open>The loop that fills the unused entries below an index.\<close>

fun fill_back :: "aentry \<Rightarrow> nat \<Rightarrow> aentry list \<Rightarrow> aentry list" where
  "fill_back e 0 es = es"
| "fill_back e (Suc i) es = (if a_key (es ! Suc i) \<noteq> 0 then es else fill_back e i (es[Suc i := e]))"

definition al_place :: "cdf_fun \<Rightarrow> alevel \<Rightarrow> u64 \<Rightarrow> nat \<Rightarrow> alevel option" where
  "al_place cdf a cur_key off =
     (let idx = cdf_index cdf a cur_key; e = \<lparr>a_key = cur_key, a_offset = off\<rparr>
      in if idx \<ge> length (al_entry a) then None
         else if a_key (al_entry a ! idx) = 0
         then Some (a\<lparr>al_entry := fill_back e (idx - 1) ((al_entry a)[idx := e])\<rparr>) else Some a)"

fun al_place_all :: "cdf_fun \<Rightarrow> blevel \<Rightarrow> alevel \<Rightarrow> nat list \<Rightarrow> alevel option" where
  "al_place_all cdf b a [] = Some a"
| "al_place_all cdf b a (off # offs) =
     do { k \<leftarrow> entry_key b off; a1 \<leftarrow> al_place cdf a k off; al_place_all cdf b a1 offs }"

definition al_new :: "cdf_fun \<Rightarrow> blevel \<Rightarrow> nat \<Rightarrow> alevel option" where
  "al_new cdf b span =
     (if bl_nr b = 0 \<or> span = 0 then None
      else do {
        let nr_blevel_entry = bl_nr b - 1;
        min_key \<leftarrow> entry_key b 1;
        max_key \<leftarrow> entry_key b nr_blevel_entry;
        let nr_entry = (nr_blevel_entry + 1) div span + 1;
        let es0 = replicate nr_entry \<lparr>a_key = 0, a_offset = 0\<rparr>;
        a \<leftarrow> al_place_all cdf b
               \<lparr>al_span = span, al_min_key = min_key, al_max_key = max_key, al_nr_blevel = nr_blevel_entry,
                al_nr_entry = nr_entry, al_entry = es0[0 := \<lparr>a_key = min_key, a_offset = 1\<rparr>]\<rparr>
               [2..<bl_nr b];
        Some (a\<lparr>al_entry := (al_entry a)[nr_entry - 1 := \<lparr>a_key = max_key, a_offset = nr_blevel_entry\<rparr>]\<rparr>)
      })"

definition al_range :: "cdf_fun \<Rightarrow> alevel \<Rightarrow> u64 \<Rightarrow> (nat \<times> nat) option" where
  "al_range cdf a key =
     (let lst = a_offset (al_entry a ! (al_nr_entry a - 1)) in
      if key < al_min_key a then Some (0, 0)
      else if key \<ge> al_max_key a then Some (lst, lst)
      else let c = cdf_index cdf a key in
        if c \<ge> length (al_entry a) then None
        else if key \<ge> a_key (al_entry a ! c) then
          let b = a_offset (al_entry a ! c)
          in Some (b, if c = al_nr_entry a - 1 then b else a_offset (al_entry a ! (c + 1)))
        else if c = 0 then None
        else let b = a_offset (al_entry a ! (c - 1)); e = a_offset (al_entry a ! c)
          in Some (if b = e then b - 1 else b, e))"

definition al_put :: "cdf_fun \<Rightarrow> alevel \<Rightarrow> blevel \<Rightarrow> u64 \<Rightarrow> u64 \<Rightarrow> (blevel \<times> bool) option" where
  "al_put cdf a b key value =
     do { (lo, hi) \<leftarrow> al_range cdf a key; (b1, ret) \<leftarrow> bl_put b key value lo hi; Some (b1, status_bool ret) }"

definition al_update :: "cdf_fun \<Rightarrow> alevel \<Rightarrow> blevel \<Rightarrow> u64 \<Rightarrow> u64 \<Rightarrow> (blevel \<times> bool) option" where
  "al_update cdf a b key value = do { (lo, hi) \<leftarrow> al_range cdf a key; bl_update b key value lo hi }"

definition al_get :: "cdf_fun \<Rightarrow> alevel \<Rightarrow> blevel \<Rightarrow> u64 \<Rightarrow> (u64 option) option" where
  "al_get cdf a b key = do { (lo, hi) \<leftarrow> al_range cdf a key; bl_get b key lo hi }"

definition al_delete :: "cdf_fun \<Rightarrow> alevel \<Rightarrow> blevel \<Rightarrow> u64 \<Rightarrow> (blevel \<times> bool \<times> u64 option) option" where
  "al_delete cdf a b key = do { (lo, hi) \<leftarrow> al_range cdf a key; bl_delete b key lo hi }"

definition al_usage :: "alevel \<Rightarrow> nat" where "al_usage a = al_nr_entry a * 16"

end
