(* ===== verification/IndexProofs.thy ===== *)
theory IndexProofs
  imports IndexLayer
begin

text \<open>
  What the indexes promise to the B-level: the window they return contains the entry of the key
  (or begins one after it, which \<^verbatim>\<open>Find_\<close> tolerates).  For \<^verbatim>\<open>RMI_Index\<close> this holds for any predicted
  position, for \<^verbatim>\<open>ALevel\<close> for any monotone estimate of the distribution, for \<^verbatim>\<open>Learn_Index\<close> and
  \<^verbatim>\<open>PGM_Index\<close> it is the guarantee of the PGM index between the smallest and the largest key.
\<close>

subsection \<open>Slots and keys\<close>

definition ekey :: "blevel \<Rightarrow> nat \<Rightarrow> u64" where
  "ekey b j = bl_phys_key b (bl_slots b ! j)"

lemma ekey_less: "bl_shape b \<Longrightarrow> i < j \<Longrightarrow> j < length (bl_slots b) \<Longrightarrow> ekey b i < ekey b j"
  by (simp add: ekey_def slots_less)

lemma ekey_le_iff:
  assumes "bl_shape b" "in_slot b j k" "i < length (bl_slots b)"
  shows "ekey b i \<le> k \<longleftrightarrow> i \<le> j"
proof
  assume "i \<le> j"
  then have "ekey b i \<le> ekey b j" using phys_key_mono[OF assms(1)] assms(2) by (simp add: ekey_def in_slot_def)
  also have "\<dots> \<le> k" using assms(2) by (simp add: ekey_def in_slot_def)
  finally show "ekey b i \<le> k" .
next
  assume k: "ekey b i \<le> k"
  show "i \<le> j"
  proof (rule ccontr)
    assume "\<not> i \<le> j"
    then have j: "Suc j \<le> i" by simp
    then have "k < ekey b (Suc j)" using assms(2,3) by (simp add: ekey_def in_slot_def)
    also have "\<dots> \<le> ekey b i" using phys_key_mono[OF assms(1) j assms(3)] by (simp add: ekey_def)
    finally show False using k by simp
  qed
qed

lemma entry_key_ekey: "bl_shape b \<Longrightarrow> j < length (bl_slots b) \<Longrightarrow> entry_key b j = Some (ekey b j)"
  by (simp add: entry_key_slot ekey_def)

lemma entry_keys_slots:
  assumes "bl_shape b"
  shows "entry_keys b = Some (map (ekey b) [0..<length (bl_slots b)])"
proof -
  have "those (map (entry_key b) xs) = Some (map (ekey b) xs)" if "set xs \<subseteq> {..<length (bl_slots b)}" for xs
    using that by (induction xs) (auto simp: entry_key_ekey[OF assms])
  from this[of "[0..<length (bl_slots b)]"] show ?thesis
    using length_slots_nr[OF assms] by (simp add: entry_keys_def atLeast0LessThan)
qed

lemma slots_ge_four: "bl_shape b \<Longrightarrow> 4 \<le> length (bl_slots b)"
proof -
  assume "bl_shape b"
  then have r: "ranges_ok (bl_ranges b) (physical_nr b)" by (simp add: bl_shape_def)
  have s: "logical_start (rng b (i + 1)) \<ge> logical_start (rng b i) + 1" if "i < 4" for i
    using ranges_unfold(3)[OF r that] ranges_unfold(5)[OF r that] by linarith
  show ?thesis using s[of 0] s[of 1] s[of 2] s[of 3] length_slots[OF r] by (simp add: numeral_2_eq_2 numeral_3_eq_3 numeral_eq_Suc)
qed

lemma first_last_window:
  assumes "bl_shape b"
  shows "k < ekey b 1 \<Longrightarrow> window_ok b k 0 0"
    "ekey b (length (bl_slots b) - 1) \<le> k \<Longrightarrow> window_ok b k (length (bl_slots b) - 1) (length (bl_slots b) - 1)"
proof -
  have n: "1 < length (bl_slots b)" using slots_ge_four[OF assms] by simp
  show "window_ok b k 0 0" if "k < ekey b 1"
    using ekey_le_iff[OF assms _ n] that by (auto simp: window_ok_def not_le[symmetric])
  have l: "length (bl_slots b) - 1 < length (bl_slots b)" using n by linarith
  show "window_ok b k (length (bl_slots b) - 1) (length (bl_slots b) - 1)" if k: "ekey b (length (bl_slots b) - 1) \<le> k"
    unfolding window_ok_def
  proof (intro allI impI)
    fix j assume "j < length (bl_slots b)" "in_slot b j k"
    then show "length (bl_slots b) - 1 \<le> Suc j \<and> j \<le> length (bl_slots b) - 1"
      using ekey_le_iff[OF assms _ l] k by fastforce
  qed
qed

subsection \<open>Learn\_Index and PGM\_Index\<close>

lemma li_new_some:
  assumes "bl_shape b"
  shows "li_new train b = Some \<lparr>li_min_key = ekey b 1, li_max_key = ekey b (length (bl_slots b) - 1),
    li_nr_blevel = length (bl_slots b) - 1, li_nr_entry = length (bl_slots b),
    li_search = train (map (ekey b) [0..<length (bl_slots b)])\<rparr>"
proof -
  have n: "1 < length (bl_slots b)" "length (bl_slots b) - 1 < length (bl_slots b)" "bl_nr b = length (bl_slots b)"
    "length (bl_slots b) \<noteq> 0"
    using slots_ge_four[OF assms] length_slots_nr[OF assms] by linarith+
  show ?thesis unfolding li_new_def
    by (simp only: Let_def n(3) n(4) entry_keys_slots[OF assms] entry_key_ekey[OF assms n(1)] entry_key_ekey[OF assms n(2)]
        if_False bind.bind_lunit) (use n(1) in simp)
qed

text \<open>The guarantee of the PGM index: \<open>[lo, hi]\<close> contains the position of the key.\<close>

definition search_ok :: "u64 list \<Rightarrow> (u64 \<Rightarrow> approx_pos) \<Rightarrow> bool" where
  "search_ok keys s \<longleftrightarrow> (\<forall>k j. Suc j < length keys \<longrightarrow> keys ! j \<le> k \<longrightarrow> k < keys ! Suc j \<longrightarrow>
     ap_lo (s k) \<le> Suc j \<and> j \<le> ap_hi (s k))"

lemma li_window:
  assumes "bl_shape b" "li_new train b = Some li" "search_ok (map (ekey b) [0..<length (bl_slots b)]) (li_search li)"
    "li_range li k = (lo, hi)"
  shows "window_ok b k lo hi"
proof -
  note L = li_new_some[OF assms(1), of train]
  let ?n = "length (bl_slots b)"
  have n: "4 \<le> ?n" using slots_ge_four[OF assms(1)] .
  consider "k < ekey b 1" | "ekey b (?n - 1) \<le> k" "\<not> k < ekey b 1" | "\<not> k < ekey b 1" "k < ekey b (?n - 1)"
    by fastforce
  then show ?thesis
  proof cases
    case 3
    have "lo \<le> Suc j \<and> j \<le> hi" if j: "in_slot b j k" for j
    proof -
      have l: "?n - 1 < ?n" using n by linarith
      have "j < ?n - 1" using ekey_le_iff[OF assms(1) j l] 3(2) by (metis not_le)
      then have "ekey b j \<le> k" "k < ekey b (Suc j)" "Suc j < ?n"
        using j n by (auto simp: in_slot_def ekey_def)
      moreover have "search_ok (map (ekey b) [0..<?n]) (li_search li)" using assms(3) .
      ultimately have "ap_lo (li_search li k) \<le> Suc j \<and> j \<le> ap_hi (li_search li k)"
        unfolding search_ok_def by (elim allE[of _ k] allE[of _ j]) auto
      moreover have "li_min_key li = ekey b 1" "li_max_key li = ekey b (?n - 1)" using assms(2) L by auto
      ultimately show ?thesis using assms(4) 3 by (auto simp: li_range_def not_le[symmetric] split: if_splits)
    qed
    then show ?thesis by (simp add: window_ok_def)
  qed (use first_last_window[OF assms(1), of k] assms(2,4) L in \<open>auto simp: li_range_def\<close>)
qed

text \<open>A scan needs the stricter bound: the window begins at the entry of the key or before.\<close>

definition search_strict :: "u64 list \<Rightarrow> (u64 \<Rightarrow> approx_pos) \<Rightarrow> bool" where
  "search_strict keys s \<longleftrightarrow> (\<forall>k j. Suc j < length keys \<longrightarrow> keys ! j \<le> k \<longrightarrow> k < keys ! Suc j \<longrightarrow>
     ap_lo (s k) \<le> j \<and> j \<le> ap_hi (s k))"

lemma search_strict_ok: "search_strict keys s \<Longrightarrow> search_ok keys s"
  unfolding search_strict_def search_ok_def by (meson le_SucI)

lemma li_window_strict:
  assumes "bl_shape b" "li_new train b = Some li" "search_strict (map (ekey b) [0..<length (bl_slots b)]) (li_search li)"
    "in_slot b j k"
  shows "fst (li_range li k) \<le> j \<and> j \<le> snd (li_range li k)"
proof -
  let ?n = "length (bl_slots b)"
  have n: "1 < ?n" "?n - 1 < ?n" using slots_ge_four[OF assms(1)] by linarith+
  have L: "li_min_key li = ekey b 1" "li_max_key li = ekey b (?n - 1)" "li_nr_blevel li = ?n - 1"
    using assms(2) li_new_some[OF assms(1), of train] by auto
  have j: "j < ?n" using assms(4) by (simp add: in_slot_def)
  note I = ekey_le_iff[OF assms(1,4)]
  consider "j = 0" "k < ekey b 1" | "j = ?n - 1" "ekey b (?n - 1) \<le> k" "\<not> k < ekey b 1"
    | "\<not> k < ekey b 1" "\<not> ekey b (?n - 1) \<le> k" "Suc j < ?n"
    using I[OF n(1)] I[OF n(2)] j n by fastforce
  then show ?thesis
  proof cases
    case 3
    then have "ekey b j \<le> k" "k < ekey b (Suc j)" using assms(4) by (auto simp: in_slot_def ekey_def)
    then have "ap_lo (li_search li k) \<le> j \<and> j \<le> ap_hi (li_search li k)"
      using assms(3) 3(3) unfolding search_strict_def by (elim allE[of _ k] allE[of _ j]) auto
    then show ?thesis using 3 L by (simp add: li_range_def)
  qed (simp_all add: li_range_def L)
qed

subsection \<open>RMI\_Index\<close>

lemma rmi_down_window:
  assumes "bl_shape b" "in_slot b j k" "j \<le> nat e" "e < int (length (bl_slots b))" "bgn < e" "0 < step" "0 \<le> e"
  shows "\<exists>lo hi. rmi_down b k step bgn e = Some (lo, hi) \<and> lo \<le> int j \<and> j \<le> nat hi \<and> 0 \<le> hi"
  using assms(3-7)
proof (induction "nat (bgn + 1)" arbitrary: step bgn e rule: less_induct)
  case less
  show ?case
  proof (cases "0 \<le> bgn")
    case True
    then have l: "nat bgn < length (bl_slots b)" using less.prems by linarith
    note K = entry_key_ekey[OF assms(1) l]
    note I = ekey_le_iff[OF assms(1,2) l]
    show ?thesis
    proof (cases "k \<le> ekey b (nat bgn)")
      case down: True
      have "j \<le> nat bgn"
      proof (rule ccontr)
        assume j: "\<not> j \<le> nat bgn"
        then have "ekey b (nat bgn) < ekey b j" using ekey_less[OF assms(1)] assms(2) by (simp add: in_slot_def)
        also have "\<dots> \<le> k" using assms(2) by (simp add: in_slot_def ekey_def)
        finally show False using down by simp
      qed
      then have "\<exists>lo hi. rmi_down b k (step * 2) (bgn - int (step * 2)) bgn = Some (lo, hi) \<and> lo \<le> int j \<and> j \<le> nat hi \<and> 0 \<le> hi"
        using less.prems True by (intro less.hyps) auto
      then show ?thesis using True down K less.prems by (simp add: rmi_down.simps[of b k step])
    next
      case False
      then have "ekey b (nat bgn) \<le> k" by simp
      then have "nat bgn \<le> j" using I by blast
      then show ?thesis using True False K less.prems by (simp add: rmi_down.simps[of b k step])
    qed
  qed (use less.prems in \<open>simp add: rmi_down.simps[of b k step]\<close>)
qed

lemma rmi_up_window:
  assumes "bl_shape b" "in_slot b j k" "bgn \<le> j" "bgn < e" "0 < step" "nr = length (bl_slots b) - 1"
  shows "\<exists>lo hi. rmi_up b k nr step bgn e = Some (lo, hi) \<and> lo \<le> j \<and> j \<le> min hi nr"
  using assms(3-5)
proof (induction "Suc nr - e" arbitrary: step bgn e rule: less_induct)
  case less
  have "j < length (bl_slots b)" using assms(2) by (simp add: in_slot_def)
  then have j: "j \<le> nr" using assms(6) by linarith
  show ?case
  proof (cases "e \<le> nr")
    case True
    then have l: "e < length (bl_slots b)" using assms(2,6) by (auto simp: in_slot_def)
    note K = entry_key_ekey[OF assms(1) l]
    note I = ekey_le_iff[OF assms(1,2) l]
    show ?thesis
    proof (cases "ekey b e < k")
      case up: True
      then have "ekey b e \<le> k" by simp
      then have "e \<le> j" using I by blast
      then have "\<exists>lo hi. rmi_up b k nr (step * 2) e (e + step * 2) = Some (lo, hi) \<and> lo \<le> j \<and> j \<le> min hi nr"
        using less.prems True by (intro less.hyps) auto
      then show ?thesis using True up K less.prems by (simp add: rmi_up.simps[of b k nr step])
    next
      case False
      have "j \<le> e"
      proof (rule ccontr)
        assume "\<not> j \<le> e"
        then have "ekey b e < ekey b j" using ekey_less[OF assms(1)] assms(2) by (simp add: in_slot_def)
        also have "\<dots> \<le> k" using assms(2) by (simp add: in_slot_def ekey_def)
        finally show False using False by simp
      qed
      then show ?thesis using True False K less.prems j by (simp add: rmi_up.simps[of b k nr step])
    qed
  next
    case False
    then show ?thesis using less.prems j by (simp add: rmi_up.simps[of b k nr step])
  qed
qed

lemma rmi_new_some:
  assumes "bl_shape b"
  shows "rmi_new train b = Some \<lparr>ri_min_key = ekey b 1, ri_max_key = ekey b (length (bl_slots b) - 1),
    ri_nr_blevel = length (bl_slots b) - 1, ri_predict = train (map (ekey b) [0..<length (bl_slots b)])\<rparr>"
proof -
  have n: "1 < length (bl_slots b)" "length (bl_slots b) - 1 < length (bl_slots b)" "bl_nr b = length (bl_slots b)"
    "length (bl_slots b) \<noteq> 0"
    using slots_ge_four[OF assms] length_slots_nr[OF assms] by linarith+
  show ?thesis unfolding rmi_new_def
    by (simp only: Let_def n(3) n(4) entry_keys_slots[OF assms] entry_key_ekey[OF assms n(1)] entry_key_ekey[OF assms n(2)]
        if_False bind.bind_lunit)
qed

lemma rmi_window:
  assumes "bl_shape b" "rmi_new train b = Some ri" "\<And>k. ri_predict ri k < length (bl_slots b)"
  shows "\<exists>lo hi. rmi_range ri b k = Some (lo, hi) \<and> window_ok b k lo hi"
proof -
  let ?n = "length (bl_slots b)"
  let ?p = "ri_predict ri k"
  have n: "4 \<le> ?n" using slots_ge_four[OF assms(1)] .
  have R: "ri_min_key ri = ekey b 1" "ri_max_key ri = ekey b (?n - 1)" "ri_nr_blevel ri = ?n - 1"
    using assms(2) rmi_new_some[OF assms(1), of train] by auto
  obtain j where j: "in_slot b j k" using in_slot_exists[OF assms(1)] by blast
  have uniq: "j' = j" if "in_slot b j' k" for j'
  proof -
    have "ekey b j' \<le> k" "ekey b j \<le> k" "j < ?n" "j' < ?n"
      using j that by (auto simp: in_slot_def ekey_def)
    then show ?thesis using ekey_le_iff[OF assms(1) j] ekey_le_iff[OF assms(1) that] by (meson le_antisym)
  qed
  have W: "window_ok b k lo hi" if "lo \<le> j" "j \<le> hi" for lo hi
    using that uniq by (auto simp: window_ok_def)
  note K = entry_key_ekey[OF assms(1) assms(3)[of k]]
  note I = ekey_le_iff[OF assms(1) j assms(3)[of k]]
  consider "k < ekey b 1" | "ekey b (?n - 1) \<le> k" "\<not> k < ekey b 1"
    | (down) "\<not> k < ekey b 1" "\<not> ekey b (?n - 1) \<le> k" "k < ekey b ?p"
    | (up) "\<not> k < ekey b 1" "\<not> ekey b (?n - 1) \<le> k" "\<not> k < ekey b ?p"
    by blast
  then show ?thesis
  proof cases
    case down
    then have jp: "j < ?p" using I by (auto simp: not_le[symmetric])
    obtain lo hi where "rmi_down b k 1 (int ?p - 1) (int ?p) = Some (lo, hi)" "lo \<le> int j" "j \<le> nat hi"
      using rmi_down_window[OF assms(1) j, of "int ?p" "int ?p - 1" 1] jp assms(3)[of k] by auto
    then show ?thesis using down R K W[of "nat (max lo 0)" "nat hi"] by (auto simp: rmi_range_def Let_def)
  next
    case up
    then have "ekey b ?p \<le> k" by (simp add: not_less)
    then have jp: "?p \<le> j" using I by blast
    obtain lo hi where "rmi_up b k (?n - 1) 1 ?p (?p + 1) = Some (lo, hi)" "lo \<le> j" "j \<le> min hi (?n - 1)"
      using rmi_up_window[OF assms(1) j jp, of "?p + 1" 1 "?n - 1"] by auto
    then show ?thesis using up R K W[of lo "min hi (?n - 1)"] by (auto simp: rmi_range_def Let_def)
  qed (use first_last_window[OF assms(1), of k] R in \<open>auto simp: rmi_range_def\<close>)
qed

subsection \<open>The interface of an index\<close>

text \<open>An index answers by the position or the window it derives from the key; it stays right as long
  as no entry moves, which no operation on pairs does.\<close>

lemma keeps_slots:
  assumes "keeps_layout b b'"
  shows "bl_slots b' = bl_slots b" "ekey b' = ekey b" "in_slot b' j k = in_slot b j k"
  using assms by (simp_all add: keeps_layout_def bl_slots_def ekey_def fun_eq_iff in_slot_def)

lemma window_kept: "keeps_layout b b' \<Longrightarrow> window_ok b' k lo hi = window_ok b k lo hi"
  by (simp add: window_ok_def keeps_slots)

datatype kv_op = KPut u64 u64 | KUpdate u64 u64 | KDelete u64

fun kv_spec :: "(u64 \<Rightarrow> u64 option) \<Rightarrow> kv_op \<Rightarrow> (u64 \<Rightarrow> u64 option)" where
  "kv_spec M (KPut k v) = M(k \<mapsto> v)"
| "kv_spec M (KUpdate k v) = M(k \<mapsto> v)"
| "kv_spec M (KDelete k) = M(k := None)"

fun kv_pre :: "(u64 \<Rightarrow> u64 option) \<Rightarrow> kv_op \<Rightarrow> bool" where
  "kv_pre M (KUpdate k v) = (M k \<noteq> None)"
| "kv_pre M op = True"

fun kv_pres :: "(u64 \<Rightarrow> u64 option) \<Rightarrow> kv_op list \<Rightarrow> bool" where
  "kv_pres M [] = True"
| "kv_pres M (op # ops) = (kv_pre M op \<and> kv_pres (kv_spec M op) ops)"

fun index_exec ::
  "(blevel \<Rightarrow> u64 \<Rightarrow> u64 \<Rightarrow> (blevel \<times> 's) option) \<Rightarrow> (blevel \<Rightarrow> u64 \<Rightarrow> u64 \<Rightarrow> (blevel \<times> bool) option) \<Rightarrow>
   (blevel \<Rightarrow> u64 \<Rightarrow> (blevel \<times> bool \<times> u64 option) option) \<Rightarrow> blevel \<Rightarrow> kv_op list \<Rightarrow> blevel option" where
  "index_exec p u d b [] = Some b"
| "index_exec p u d b (KPut k v # ops) = do { (b1, _) \<leftarrow> p b k v; index_exec p u d b1 ops }"
| "index_exec p u d b (KUpdate k v # ops) = do { (b1, _) \<leftarrow> u b k v; index_exec p u d b1 ops }"
| "index_exec p u d b (KDelete k # ops) = do { (b1, _) \<leftarrow> d b k; index_exec p u d b1 ops }"

definition bl_run_room :: "nat \<Rightarrow> nat \<Rightarrow> nat" where
  "bl_run_room D n = n * ((D + n + 3) * node_size)"

lemma bl_run_room_Suc: "(D + 3) * node_size + bl_run_room (Suc D) n \<le> bl_run_room D (Suc n)"
proof -
  have "(D + 3) * node_size \<le> (D + Suc n + 3) * node_size" by (intro mult_le_mono1) simp
  then show ?thesis unfolding bl_run_room_def mult_Suc by simp
qed

lemma bl_run_room_skip: "bl_run_room D n \<le> bl_run_room D (Suc n)"
  unfolding bl_run_room_def by (intro mult_le_mono mult_le_mono1) simp_all

locale level_index =
  fixes valid :: "'i \<Rightarrow> blevel \<Rightarrow> bool"
    and iput :: "'i \<Rightarrow> blevel \<Rightarrow> u64 \<Rightarrow> u64 \<Rightarrow> (blevel \<times> 's) option"
    and iupdate :: "'i \<Rightarrow> blevel \<Rightarrow> u64 \<Rightarrow> u64 \<Rightarrow> (blevel \<times> bool) option"
    and iget :: "'i \<Rightarrow> blevel \<Rightarrow> u64 \<Rightarrow> (u64 option) option"
    and idelete :: "'i \<Rightarrow> blevel \<Rightarrow> u64 \<Rightarrow> (blevel \<times> bool \<times> u64 option) option"
    and result :: "status \<Rightarrow> 's"
  assumes get_law: "valid i b \<Longrightarrow> bl_good b D M \<Longrightarrow> iget i b k = Some (M k)"
    and put_law: "valid i b \<Longrightarrow> bl_good b D M \<Longrightarrow> bl_room b D \<Longrightarrow>
      \<exists>r. put_result b D M k v r \<and> iput i b k v = map_option (\<lambda>(b', s). (b', result s)) r"
    and update_law: "valid i b \<Longrightarrow> bl_good b D M \<Longrightarrow> M k \<noteq> None \<Longrightarrow> update_result b D M k v (iupdate i b k v)"
    and delete_law: "valid i b \<Longrightarrow> bl_good b D M \<Longrightarrow> delete_result b D M k (idelete i b k)"
    and valid_kept: "valid i b \<Longrightarrow> keeps_layout b b' \<Longrightarrow> valid i b'"
begin

lemma put_good:
  assumes "valid i b" "bl_good b D M" "bl_room b D"
  obtains b' where "iput i b k v = Some (b', result OK)" "bl_good b' (Suc D) (M(k \<mapsto> v))" "bl_size b' = bl_size b + 1"
    "keeps_layout b b'" "cur_addr (bl_mem b') \<le> cur_addr (bl_mem b) + (D + 3) * node_size" "valid i b'"
  using put_law[OF assms, of k v] valid_kept[OF assms(1)] by (auto simp: put_result_def)

lemma run_good:
  assumes "valid i b" "bl_good b D M" "kv_pres M ops"
    "cur_addr (bl_mem b) + bl_run_room D (length ops) < end_addr (bl_mem b)"
  shows "\<exists>b' D'. index_exec (iput i) (iupdate i) (idelete i) b ops = Some b' \<and> bl_good b' D' (foldl kv_spec M ops) \<and>
    keeps_layout b b' \<and> valid i b'"
  using assms
proof (induction ops arbitrary: b D M)
  case (Cons op ops)
  have step: ?case if "bl_good b1 D1 (kv_spec M op)" "keeps_layout b b1"
    "cur_addr (bl_mem b1) + bl_run_room D1 (length ops) < end_addr (bl_mem b)"
    "index_exec (iput i) (iupdate i) (idelete i) b (op # ops) = index_exec (iput i) (iupdate i) (idelete i) b1 ops"
    for b1 D1
  proof -
    have "valid i b1" "cur_addr (bl_mem b1) + bl_run_room D1 (length ops) < end_addr (bl_mem b1)"
      using that(2,3) valid_kept[OF Cons.prems(1)] by (simp_all add: keeps_layout_def)
    from Cons.IH[OF this(1) that(1) _ this(2)] show ?thesis
      using Cons.prems(3) that(4) keeps_layout_trans[OF that(2)] by auto
  qed
  have room: "cur_addr (bl_mem b) + bl_run_room D (length ops) < end_addr (bl_mem b)"
    using Cons.prems(4) bl_run_room_skip[of D "length ops"] by simp
  show ?case
  proof (cases op)
    case (KPut k v)
    have r: "cur_addr (bl_mem b) + ((D + 3) * node_size + bl_run_room (Suc D) (length ops)) < end_addr (bl_mem b)"
      using Cons.prems(4) bl_run_room_Suc[of D "length ops"] by simp
    then have "bl_room b D" by (simp add: bl_room_def)
    from put_good[OF Cons.prems(1,2) this, of k v] obtain b1 where P: "iput i b k v = Some (b1, result OK)"
      "bl_good b1 (Suc D) (M(k \<mapsto> v))" "keeps_layout b b1"
      "cur_addr (bl_mem b1) \<le> cur_addr (bl_mem b) + (D + 3) * node_size" by blast
    show ?thesis using P r KPut by (intro step[of b1 "Suc D"]) auto
  next
    case (KUpdate k v)
    then have "M k \<noteq> None" using Cons.prems(3) by simp
    from update_law[OF Cons.prems(1,2) this, of v] show ?thesis unfolding update_result_def
      using room KUpdate by (elim exE conjE) (rule step[of _ D], auto)
  next
    case (KDelete k)
    from delete_law[OF Cons.prems(1,2), of k] show ?thesis unfolding delete_result_def
      using room KDelete by (elim exE conjE) (rule step[of _ D], auto)
  qed
qed auto

end

text \<open>\<^verbatim>\<open>Learn_Index\<close>: the position is only a hint; the window needs the guarantee of the model.
  \<^verbatim>\<open>RMI_Index\<close> uses positions only.  \<^verbatim>\<open>PGM_Index\<close> uses windows only.\<close>

definition li_valid :: "learn_index \<Rightarrow> blevel \<Rightarrow> bool" where
  "li_valid li b \<longleftrightarrow> (\<forall>k. window_ok b k (fst (li_range li k)) (snd (li_range li k)))"

definition pgm_valid :: "pgm_index \<Rightarrow> blevel \<Rightarrow> bool" where
  "pgm_valid i b \<longleftrightarrow> (\<forall>k. window_ok b k (fst (pgm_range i k)) (snd (pgm_range i k)))"

interpretation li: level_index li_valid li_put li_update li_get li_delete "\<lambda>s. s"
proof unfold_locales
  fix li b D M k v
  assume v: "li_valid li b" and g: "bl_good b D M"
  obtain lo hi where lh: "li_range li k = (lo, hi)" by fastforce
  then have w: "window_ok b k lo hi" using v by (auto simp: li_valid_def dest: spec[of _ k])
  show "li_get li b k = Some (M k)" unfolding li_get_def by (rule near_ops_good(1)[OF g])
  show "M k \<noteq> None \<Longrightarrow> update_result b D M k v (li_update li b k v)"
    using window_ops_good(3)[OF g w] by (simp add: li_update_def lh)
  show "delete_result b D M k (li_delete li b k)" using window_ops_good(4)[OF g w] by (simp add: li_delete_def lh)
  show "bl_room b D \<Longrightarrow> \<exists>r. put_result b D M k v r \<and> li_put li b k v = map_option (\<lambda>(b', s). (b', s)) r"
    using near_ops_good(2)[OF g, of k v "li_near li k"]
    by (intro exI[of _ "bl_put_near b k v (li_near li k)"]) (simp add: li_put_def option.map_id)
next
  fix li b b' show "li_valid li b \<Longrightarrow> keeps_layout b b' \<Longrightarrow> li_valid li b'" by (simp add: li_valid_def window_kept)
qed

interpretation ri: level_index "\<lambda>_ _. True" rmi_put rmi_update rmi_get rmi_delete status_bool
proof unfold_locales
  fix ri :: rmi_index and b D M k v
  assume g: "bl_good b D M"
  show "bl_room b D \<Longrightarrow> \<exists>r. put_result b D M k v r \<and> rmi_put ri b k v = map_option (\<lambda>(b', s). (b', status_bool s)) r"
    using near_ops_good(2)[OF g, of k v "rmi_near ri k"] by (auto simp: rmi_put_def)
qed (simp_all add: rmi_get_def rmi_update_def rmi_delete_def near_ops_good)

interpretation pgm: level_index pgm_valid pgm_put pgm_update pgm_get pgm_delete status_bool
proof unfold_locales
  fix i b D M k v
  assume v: "pgm_valid i b" and g: "bl_good b D M"
  obtain lo hi where lh: "pgm_range i k = (lo, hi)" by fastforce
  then have w: "window_ok b k lo hi" using v by (auto simp: pgm_valid_def dest: spec[of _ k])
  show "pgm_get i b k = Some (M k)" using window_ops_good(1)[OF g w] by (simp add: pgm_get_def lh)
  show "M k \<noteq> None \<Longrightarrow> update_result b D M k v (pgm_update i b k v)"
    using window_ops_good(3)[OF g w] by (simp add: pgm_update_def lh)
  show "delete_result b D M k (pgm_delete i b k)" using window_ops_good(4)[OF g w] by (simp add: pgm_delete_def lh)
  show "bl_room b D \<Longrightarrow> \<exists>r. put_result b D M k v r \<and> pgm_put i b k v = map_option (\<lambda>(b', s). (b', status_bool s)) r"
    using window_ops_good(2)[OF g w] by (auto simp: pgm_put_def lh)
next
  fix i b b' show "pgm_valid i b \<Longrightarrow> keeps_layout b b' \<Longrightarrow> pgm_valid i b'" by (simp add: pgm_valid_def window_kept)
qed

lemma li_valid_new:
  assumes "bl_shape b" "li_new train b = Some li" "search_ok (map (ekey b) [0..<length (bl_slots b)]) (li_search li)"
  shows "li_valid li b"
  unfolding li_valid_def using li_window[OF assms] by (metis prod.collapse)

end
