(* ===== verification/PmemKV.thy ===== *)
theory PmemKV
  imports Prelude
begin

text \<open>
  \<^verbatim>\<open>src/pmemkv.h\<close>, lines 84 to 194 (the in-memory variant; \<^verbatim>\<open>USE_PMEMKV\<close> is off): the store of the
  first phase, a \<^verbatim>\<open>std::map\<close> keyed by \<^verbatim>\<open>int64_t\<close>, with reference counts of readers and writers
  and two validity flags.  The map is the list of its pairs in the order of the map, which is the
  signed order of the keys.  The flags are static members; there is one \<^verbatim>\<open>PmemKV\<close>.
\<close>

record pmemkv =
  pm_data :: "kv list"
  pm_write_ref :: int
  pm_read_ref :: int
  pm_write_valid :: bool
  pm_read_valid :: bool

definition pm_new :: pmemkv where
  "pm_new = \<lparr>pm_data = [], pm_write_ref = 0, pm_read_ref = 0, pm_write_valid = True, pm_read_valid = True\<rparr>"

text \<open>\<^verbatim>\<open>kv_data[key] = value\<close>, \<^verbatim>\<open>find\<close> and \<^verbatim>\<open>erase\<close>.\<close>

fun smap_put :: "u64 \<Rightarrow> u64 \<Rightarrow> kv list \<Rightarrow> kv list" where
  "smap_put k v [] = [(k, v)]"
| "smap_put k v ((k', v') # xs) =
     (if sint k < sint k' then (k, v) # (k', v') # xs
      else if k = k' then (k, v) # xs
      else (k', v') # smap_put k v xs)"

fun smap_erase :: "u64 \<Rightarrow> kv list \<Rightarrow> kv list" where
  "smap_erase k [] = []"
| "smap_erase k ((k', v') # xs) = (if k = k' then xs else (k', v') # smap_erase k xs)"

definition write_ref :: "pmemkv \<Rightarrow> pmemkv" where "write_ref p = p\<lparr>pm_write_ref := pm_write_ref p + 1\<rparr>"
definition write_unref :: "pmemkv \<Rightarrow> pmemkv" where "write_unref p = p\<lparr>pm_write_ref := pm_write_ref p - 1\<rparr>"
definition read_ref :: "pmemkv \<Rightarrow> pmemkv" where "read_ref p = p\<lparr>pm_read_ref := pm_read_ref p + 1\<rparr>"
definition read_unref :: "pmemkv \<Rightarrow> pmemkv" where "read_unref p = p\<lparr>pm_read_ref := pm_read_ref p - 1\<rparr>"

definition no_write_ref :: "pmemkv \<Rightarrow> bool" where "no_write_ref p \<longleftrightarrow> pm_write_ref p = 0"
definition no_read_ref :: "pmemkv \<Rightarrow> bool" where "no_read_ref p \<longleftrightarrow> pm_read_ref p = 0"

text \<open>The writers return early, with their reference taken, when writing is no longer valid.\<close>

definition pm_put :: "pmemkv \<Rightarrow> u64 \<Rightarrow> u64 \<Rightarrow> pmemkv \<times> status" where
  "pm_put p key value =
     (let p1 = write_ref p in
      if \<not> pm_write_valid p1 then (p1, Failed)
      else (write_unref (p1\<lparr>pm_data := smap_put key value (pm_data p1)\<rparr>), OK))"

definition pm_update :: "pmemkv \<Rightarrow> u64 \<Rightarrow> u64 \<Rightarrow> pmemkv \<times> bool" where
  "pm_update p key value =
     (let p1 = write_ref p in
      if \<not> pm_write_valid p1 then (p1, False)
      else (write_unref (p1\<lparr>pm_data := smap_put key value (pm_data p1)\<rparr>), True))"

text \<open>\<^verbatim>\<open>Get\<close> always returns true; \<open>None\<close> is a value that is not written.\<close>

definition pm_get :: "pmemkv \<Rightarrow> u64 \<Rightarrow> pmemkv \<times> bool \<times> u64 option" where
  "pm_get p key = (read_unref (read_ref p), True, map_of (pm_data p) key)"

definition pm_delete :: "pmemkv \<Rightarrow> u64 \<Rightarrow> pmemkv \<times> bool" where
  "pm_delete p key =
     (let p1 = write_ref p in
      if \<not> pm_write_valid p1 then (p1, False)
      else (write_unref (p1\<lparr>pm_data := smap_erase key (pm_data p1)\<rparr>), True))"

text \<open>\<^verbatim>\<open>Scan\<close> copies the map and sorts the pairs as unsigned; it does not use the two bounds.\<close>

definition pm_scan :: "pmemkv \<Rightarrow> u64 \<Rightarrow> u64 \<Rightarrow> nat \<Rightarrow> pmemkv \<times> kv list" where
  "pm_scan p min_key max_key max_size =
     (let kvs = sort_key fst (pm_data p)
      in (read_unref (read_ref p), if length kvs > max_size then take max_size kvs else kvs))"

definition pm_scan_callback :: "pmemkv \<Rightarrow> u64 \<Rightarrow> u64 \<Rightarrow> nat \<Rightarrow> ('a \<Rightarrow> kv \<Rightarrow> 'a) \<Rightarrow> 'a \<Rightarrow> pmemkv \<times> 'a \<times> nat" where
  "pm_scan_callback p min_key max_key max_size callback arg =
     (let (p1, kvs) = pm_scan p min_key max_key max_size in (p1, foldl callback arg kvs, length kvs))"

text \<open>\<^verbatim>\<open>Size\<close> returns \<^verbatim>\<open>-1\<close> as \<^verbatim>\<open>size_t\<close>, with its reference taken, when reading is no longer valid.\<close>

definition pm_size :: "pmemkv \<Rightarrow> pmemkv \<times> u64" where
  "pm_size p =
     (let p1 = read_ref p in
      if \<not> pm_read_valid p1 then (p1, - 1) else (read_unref p1, of_nat (length (pm_data p1))))"

definition set_write_valid :: "pmemkv \<Rightarrow> pmemkv" where "set_write_valid p = p\<lparr>pm_write_valid := True\<rparr>"
definition set_write_unvalid :: "pmemkv \<Rightarrow> pmemkv" where "set_write_unvalid p = p\<lparr>pm_write_valid := False\<rparr>"
definition set_read_valid :: "pmemkv \<Rightarrow> pmemkv" where "set_read_valid p = p\<lparr>pm_read_valid := True\<rparr>"
definition set_read_unvalid :: "pmemkv \<Rightarrow> pmemkv" where "set_read_unvalid p = p\<lparr>pm_read_valid := False\<rparr>"

subsection \<open>The store is a map\<close>

definition smap_ok :: "kv list \<Rightarrow> bool" where
  "smap_ok xs \<longleftrightarrow> sorted_wrt (\<lambda>a b. sint (fst a) < sint (fst b)) xs"

lemma smap_ok_Cons: "smap_ok (x # xs) \<longleftrightarrow> (\<forall>y \<in> set xs. sint (fst x) < sint (fst y)) \<and> smap_ok xs"
  by (simp add: smap_ok_def)

lemma smap_put_keys: "fst ` set (smap_put k v xs) = insert k (fst ` set xs)"
  by (induction k v xs rule: smap_put.induct) auto

lemma smap_put_ok: "smap_ok xs \<Longrightarrow> smap_ok (smap_put k v xs)"
proof (induction k v xs rule: smap_put.induct)
  case (2 k v k' v' xs)
  have "\<forall>y \<in> set (smap_put k v xs). fst y = k \<or> fst y \<in> fst ` set xs" using smap_put_keys[of k v xs] by blast
  moreover have "\<not> sint k < sint k' \<Longrightarrow> k \<noteq> k' \<Longrightarrow> sint k' < sint k"
    by (metis linorder_neqE_linordered_idom signed_word_eqI)
  ultimately show ?case using 2 by (fastforce simp: smap_ok_Cons intro: less_trans)
qed (simp add: smap_ok_def)

lemma smap_put_map: "smap_ok xs \<Longrightarrow> map_of (smap_put k v xs) = (map_of xs)(k \<mapsto> v)"
  by (induction k v xs rule: smap_put.induct) (auto simp: smap_ok_Cons fun_eq_iff)

lemma smap_put_length: "length (smap_put k v xs) \<le> Suc (length xs)"
  by (induction k v xs rule: smap_put.induct) auto

lemma smap_erase_subset: "set (smap_erase k xs) \<subseteq> set xs"
  by (induction k xs rule: smap_erase.induct) auto

lemma smap_erase_ok: "smap_ok xs \<Longrightarrow> smap_ok (smap_erase k xs)"
  using smap_erase_subset by (induction k xs rule: smap_erase.induct) (fastforce simp: smap_ok_Cons)+

lemma smap_distinct: "smap_ok xs \<Longrightarrow> distinct (map fst xs)"
  by (induction xs) (auto simp: smap_ok_Cons)

lemma smap_erase_map: "smap_ok xs \<Longrightarrow> map_of (smap_erase k xs) = (map_of xs)(k := None)"
proof (induction k xs rule: smap_erase.induct)
  case (2 k k' v' xs)
  have "k = k' \<Longrightarrow> map_of xs k = None" using 2(2) by (fastforce simp: smap_ok_Cons map_of_eq_None_iff)
  then show ?case using 2 by (auto simp: smap_ok_Cons fun_eq_iff)
qed simp

lemma sort_smap:
  assumes "smap_ok xs"
  shows "keys_sorted (sort_key fst xs)" "map_of (sort_key fst xs) = map_of xs" "length (sort_key fst xs) = length xs"
proof -
  have d: "distinct (map fst (sort_key fst xs))" using smap_distinct[OF assms] by (simp add: distinct_map)
  then show "keys_sorted (sort_key fst xs)" by (simp add: keys_sorted_def strict_sorted_iff)
  show "map_of (sort_key fst xs) = map_of xs" using d smap_distinct[OF assms] by (intro map_of_eqI) (auto simp: distinct_map)
qed simp

text \<open>The invariant, and the operations on the map while writing is valid.\<close>

definition pm_ok :: "pmemkv \<Rightarrow> bool" where
  "pm_ok p \<longleftrightarrow> smap_ok (pm_data p) \<and> 0 \<le> pm_write_ref p \<and> 0 \<le> pm_read_ref p"

definition pm_map :: "pmemkv \<Rightarrow> u64 \<Rightarrow> u64 option" where
  "pm_map p = map_of (pm_data p)"

lemma pm_put_valid:
  assumes "pm_ok p" "pm_write_valid p" "pm_put p k v = (p', r)"
  shows "r = OK" "pm_ok p'" "pm_map p' = (pm_map p)(k \<mapsto> v)" "pm_write_ref p' = pm_write_ref p"
    "pm_read_ref p' = pm_read_ref p" "pm_write_valid p'" "pm_read_valid p' = pm_read_valid p"
  using assms smap_put_ok smap_put_map
  by (auto simp: pm_put_def Let_def write_ref_def write_unref_def pm_ok_def pm_map_def)

lemma pm_delete_valid:
  assumes "pm_ok p" "pm_write_valid p" "pm_delete p k = (p', r)"
  shows "r" "pm_ok p'" "pm_map p' = (pm_map p)(k := None)" "pm_write_ref p' = pm_write_ref p"
    "pm_read_ref p' = pm_read_ref p" "pm_write_valid p'" "pm_read_valid p' = pm_read_valid p"
  using assms smap_erase_ok smap_erase_map
  by (auto simp: pm_delete_def Let_def write_ref_def write_unref_def pm_ok_def pm_map_def)

lemma pm_get_same: "pm_get p k = (p, True, pm_map p k)"
  by (simp add: pm_get_def read_ref_def read_unref_def pm_map_def)

lemma pm_scan_all:
  assumes "pm_ok p" "length (pm_data p) \<le> n" "pm_scan p lo hi n = (p', xs)"
  shows "p' = p" "keys_sorted xs" "map_of xs = pm_map p" "length xs = length (pm_data p)"
  using assms sort_smap by (auto simp: pm_scan_def Let_def pm_ok_def read_ref_def read_unref_def pm_map_def)

lemma pm_size_valid: "pm_read_valid p \<Longrightarrow> pm_size p = (p, of_nat (length (pm_data p)))"
  by (simp add: pm_size_def Let_def read_ref_def read_unref_def)

text \<open>A writer that comes after \<^verbatim>\<open>SetWriteUnvalid\<close> changes nothing but leaves a reference behind.\<close>

lemma pm_put_invalid:
  assumes "\<not> pm_write_valid p"
  shows "pm_put p k v = (p\<lparr>pm_write_ref := pm_write_ref p + 1\<rparr>, Failed)"
  using assms by (simp add: pm_put_def Let_def write_ref_def)

end
