(* ===== verification/ComboTree.thy ===== *)
theory ComboTree
  imports IndexProofs PmemKV
begin

text \<open>
  \<^verbatim>\<open>src/combotree.cc\<close>, \<^verbatim>\<open>include/combotree/combotree.h\<close>, \<^verbatim>\<open>src/manifest.h\<close>: the store as a client
  sees it.  It starts on \<open>PmemKV\<close>, moves its pairs to a B-level when there are enough, and replaces
  the B-level by a larger one when it is full, while the clients go on.

  A call of an operation repeats attempts; one attempt is one round of its \<^verbatim>\<open>while\<close> loop, which looks
  at the status once and then acts.  An attempt that ends with \<open>Again\<close> leads to the next round.  The
  migration and the expansion are cut into the phases between their changes of the status, the
  expansion also between the entries it moves, so that attempts of other threads can come between
  them.  \<open>None\<close> is a failed assertion or a null pointer.
\<close>

subsection \<open>The manifest\<close>

record manifest =
  mf_dir :: string
  mf_seq :: int
  mf_is_combo :: int

definition mf_new :: "string \<Rightarrow> manifest" where
  "mf_new dir = \<lparr>mf_dir = dir, mf_seq = 0, mf_is_combo = 0\<rparr>"

definition mf_set_combo :: "manifest \<Rightarrow> int \<Rightarrow> manifest" where
  "mf_set_combo mf i = mf\<lparr>mf_is_combo := i\<rparr>"

definition mf_is_combo_tree :: "manifest \<Rightarrow> bool" where
  "mf_is_combo_tree mf \<longleftrightarrow> mf_is_combo mf \<noteq> 0"

definition mf_pmemkv_path :: "manifest \<Rightarrow> string" where
  "mf_pmemkv_path mf = mf_dir mf @ ''pmemkv''"

definition mf_blevel_path :: "manifest \<Rightarrow> string" where
  "mf_blevel_path mf = mf_dir mf @ ''blevel''"

text \<open>\<^verbatim>\<open>std::to_string\<close> of a number that is not negative, and its inverse.\<close>

fun digits :: "nat \<Rightarrow> string" where
  "digits n = (if n < 10 then [] else digits (n div 10)) @ [char_of (48 + n mod 10)]"

declare digits.simps [simp del]

definition undigits :: "string \<Rightarrow> nat" where
  "undigits ds = foldl (\<lambda>n c. n * 10 + (of_char c - 48)) 0 ds"

definition mf_clevel_path :: "manifest \<Rightarrow> string" where
  "mf_clevel_path mf = mf_dir mf @ ''clevel'' @ ''-'' @ digits (nat (mf_seq mf))"

text \<open>\<^verbatim>\<open>NewComboTreePath\<close> removes the files of the old and of the new tree; \<open>fs\<close> is the set of
  files.  The overflow of the sequence number is undefined.\<close>

definition mf_new_combo_tree_path :: "manifest \<Rightarrow> string set \<Rightarrow> (manifest \<times> string set) option" where
  "mf_new_combo_tree_path mf fs =
     (let fs1 = fs - {mf_clevel_path mf}
      in if mf_seq mf + 1 \<ge> 2 ^ 31 then None
         else let mf1 = mf\<lparr>mf_seq := mf_seq mf + 1\<rparr> in Some (mf1, fs1 - {mf_clevel_path mf1}))"

lemma undigits_digits [simp]: "undigits (digits n) = n"
proof (induction n rule: digits.induct)
  case (1 n)
  have d: "undigits (ds @ [char_of (48 + n mod 10)]) = undigits ds * 10 + n mod 10" for ds
    by (simp add: undigits_def of_char_of)
  show ?case
  proof (cases "n < 10")
    case True
    then show ?thesis by (subst digits.simps) (simp add: d, simp add: undigits_def)
  next
    case False
    then show ?thesis using 1 by (subst digits.simps) (simp add: d)
  qed
qed

text \<open>The trees of one directory have different paths, and a new tree begins without a file.\<close>

lemma mf_clevel_path_new:
  assumes "mf_new_combo_tree_path mf fs = Some (mf1, fs1)" "0 \<le> mf_seq mf"
  shows "mf_clevel_path mf1 \<noteq> mf_clevel_path mf" "mf_clevel_path mf1 \<notin> fs1" "mf_clevel_path mf \<notin> fs1"
    "mf_pmemkv_path mf1 = mf_pmemkv_path mf" "mf_is_combo_tree mf1 = mf_is_combo_tree mf"
proof -
  have m: "mf1 = mf\<lparr>mf_seq := mf_seq mf + 1\<rparr>" "fs1 = fs - {mf_clevel_path mf} - {mf_clevel_path mf1}"
    using assms(1) by (auto simp: mf_new_combo_tree_path_def Let_def split: if_splits)
  then show "mf_clevel_path mf1 \<notin> fs1" "mf_clevel_path mf \<notin> fs1" "mf_pmemkv_path mf1 = mf_pmemkv_path mf"
    "mf_is_combo_tree mf1 = mf_is_combo_tree mf" by (simp_all add: mf_pmemkv_path_def mf_is_combo_tree_def)
  have "digits a \<noteq> digits b" if "a \<noteq> b" for a b using undigits_digits[of a] undigits_digits[of b] that by metis
  then show "mf_clevel_path mf1 \<noteq> mf_clevel_path mf" using assms(2) m(1) by (simp add: mf_clevel_path_def)
qed

text \<open>\<^verbatim>\<open>ValidPoolDir_\<close>; \<open>dir_exists\<close> is the query of the file system.\<close>

definition valid_pool_dir :: "(string \<Rightarrow> bool) \<Rightarrow> string \<Rightarrow> string \<times> bool" where
  "valid_pool_dir dir_exists dir =
     (if dir = [] then (dir, False)
      else if \<not> dir_exists dir then (dir, False)
      else if last dir \<noteq> CHR ''/'' then (dir @ ''/'', True) else (dir, True))"

subsection \<open>State\<close>

datatype ct_state =
  USING_PMEMKV | PMEMKV_TO_COMBO_TREE | USING_COMBO_TREE | PREPARE_EXPANDING | COMBO_TREE_EXPANDING

text \<open>\<open>ct_old\<close> is \<^verbatim>\<open>old_blevel_\<close> when it is not the object of \<^verbatim>\<open>blevel_\<close>.  \<open>ct_expand\<close> is the
  static array \<^verbatim>\<open>BLevel::expand_data_\<close>.  The last four fields are the positions of the threads:
  how many have found the status \<^verbatim>\<open>USING_PMEMKV\<close> and go on to write, how many are about to call
  \<^verbatim>\<open>ChangeToComboTree_\<close>, how many run \<^verbatim>\<open>ExpandComboTree_\<close> and have not looked at the status, and
  the entries that each thread of the expansion has still to move (\<open>None\<close> when it is done).\<close>

record combotree =
  ct_status :: ct_state
  ct_pmemkv :: "pmemkv option"
  ct_blevel :: "blevel option"
  ct_old :: "blevel option"
  ct_index :: "learn_index option"
  ct_expand :: "expand_data list"
  ct_manifest :: manifest
  ct_permit_delete :: bool
  ct_sleeped :: nat
  ct_need_sleep :: bool
  ct_writers :: nat
  ct_changers :: nat
  ct_expanders :: nat
  ct_todo :: "nat list option list"

text \<open>The environment: training of the index, the size of the region of the C-levels, and the
  memory contents where the code leaves members uninitialised.\<close>

record ct_env =
  env_train :: "u64 list \<Rightarrow> u64 \<Rightarrow> approx_pos"
  env_region :: nat
  env_stale :: "nat list"

definition ct_new :: "(string \<Rightarrow> bool) \<Rightarrow> string \<Rightarrow> combotree" where
  "ct_new dir_exists dir =
     \<lparr>ct_status = USING_PMEMKV, ct_pmemkv = Some pm_new, ct_blevel = None, ct_old = None, ct_index = None,
      ct_expand = replicate expand_threads (ex_data 0 0 0),
      ct_manifest = mf_new (fst (valid_pool_dir dir_exists dir)), ct_permit_delete = True, ct_sleeped = 0,
      ct_need_sleep = False, ct_writers = 0, ct_changers = 0, ct_expanders = 0, ct_todo = []\<rparr>"

definition mem_new :: "nat \<Rightarrow> clmem" where
  "mem_new region = \<lparr>cur_addr = 0, end_addr = region, heap = \<lambda>_. None\<rparr>"

definition pmemkv_threshold :: u64 where "pmemkv_threshold = 10000"
definition expansion_factor :: nat where "expansion_factor = 2"

text \<open>The B-level that \<^verbatim>\<open>learn_index_\<close> refers to.\<close>

definition ct_indexed :: "combotree \<Rightarrow> blevel option" where
  "ct_indexed t = (case ct_old t of Some b \<Rightarrow> Some b | None \<Rightarrow> ct_blevel t)"

definition ct_set_indexed :: "combotree \<Rightarrow> blevel \<Rightarrow> combotree" where
  "ct_set_indexed t b = (case ct_old t of Some _ \<Rightarrow> t\<lparr>ct_old := Some b\<rparr> | None \<Rightarrow> t\<lparr>ct_blevel := Some b\<rparr>)"

subsection \<open>Size and statistics\<close>

definition in_first_phase :: "combotree \<Rightarrow> bool" where
  "in_first_phase t \<longleftrightarrow> ct_status t = USING_PMEMKV \<or> ct_status t = PMEMKV_TO_COMBO_TREE"

definition ct_size :: "combotree \<Rightarrow> (combotree \<times> u64) option" where
  "ct_size t =
     (if in_first_phase t then do {
        p \<leftarrow> ct_pmemkv t;
        let (p1, n) = pm_size p;
        Some (t\<lparr>ct_pmemkv := Some p1\<rparr>, n)
      } else do {
        _ \<leftarrow> ct_index t;
        b \<leftarrow> ct_indexed t;
        Some (t, li_size b)
      })"

definition ct_clevel_count :: "combotree \<Rightarrow> nat option" where
  "ct_clevel_count t = map_option count_clevel (ct_blevel t)"

definition ct_blevel_entries :: "combotree \<Rightarrow> nat option" where
  "ct_blevel_entries t = map_option bl_nr (ct_blevel t)"

definition ct_usage :: "combotree \<Rightarrow> nat option" where
  "ct_usage t = do { li \<leftarrow> ct_index t; b \<leftarrow> ct_blevel t; Some (li_usage li + bl_usage b) }"

definition ct_compression :: "combotree \<Rightarrow> nat list option" where
  "ct_compression t = map_option prefix_counts (ct_blevel t)"

definition ct_is_expanding :: "combotree \<Rightarrow> bool" where
  "ct_is_expanding t \<longleftrightarrow> \<not> ct_permit_delete t"

subsection \<open>One round of an operation\<close>

datatype 'a attempt = Done 'a | Again

text \<open>A thread that finds an expansion joins the sleepers while they are wanted.\<close>

definition ct_sleep :: "combotree \<Rightarrow> combotree" where
  "ct_sleep t =
     (if ct_need_sleep t \<and> ct_sleeped t < expand_threads
      then t\<lparr>ct_sleeped := ct_sleeped t + 1, ct_need_sleep := ct_sleeped t + 1 \<noteq> expand_threads\<rparr> else t)"

text \<open>The branch of a writer that has found \<^verbatim>\<open>USING_PMEMKV\<close>: the status may have changed since.\<close>

definition ct_write_pmemkv :: "(pmemkv \<Rightarrow> pmemkv \<times> 'a) \<Rightarrow> combotree \<Rightarrow> (combotree \<times> 'a) option" where
  "ct_write_pmemkv f t = do { p \<leftarrow> ct_pmemkv t; let (p1, r) = f p; Some (t\<lparr>ct_pmemkv := Some p1\<rparr>, r) }"

definition ct_check_change :: "combotree \<Rightarrow> combotree option" where
  "ct_check_change t =
     do { (t1, n) \<leftarrow> ct_size t; Some (if n \<ge> pmemkv_threshold then t1\<lparr>ct_changers := ct_changers t1 + 1\<rparr> else t1) }"

definition ct_put_pmemkv :: "u64 \<Rightarrow> u64 \<Rightarrow> combotree \<Rightarrow> (combotree \<times> status) option" where
  "ct_put_pmemkv key value t =
     do { (t1, ret) \<leftarrow> ct_write_pmemkv (\<lambda>p. pm_put p key value) t; t2 \<leftarrow> ct_check_change t1; Some (t2, ret) }"

definition ct_learned_put :: "u64 \<Rightarrow> u64 \<Rightarrow> combotree \<Rightarrow> (combotree \<times> status) option" where
  "ct_learned_put key value t =
     do { li \<leftarrow> ct_index t; b \<leftarrow> ct_indexed t; (b1, ret) \<leftarrow> li_put li b key value; Some (ct_set_indexed t b1, ret) }"

definition ct_learned_update :: "u64 \<Rightarrow> u64 \<Rightarrow> combotree \<Rightarrow> (combotree \<times> bool) option" where
  "ct_learned_update key value t =
     do { li \<leftarrow> ct_index t; b \<leftarrow> ct_indexed t; (b1, ret) \<leftarrow> li_update li b key value; Some (ct_set_indexed t b1, ret) }"

definition ct_put_combo :: "u64 \<Rightarrow> u64 \<Rightarrow> combotree \<Rightarrow> (combotree \<times> status attempt) option" where
  "ct_put_combo key value t =
     do {
       (t1, ret) \<leftarrow> ct_learned_put key value t;
       if ret = Full then Some (t1\<lparr>ct_expanders := ct_expanders t1 + 1\<rparr>, Again)
       else do {
         (t2, n) \<leftarrow> ct_size t1;
         entries \<leftarrow> ct_blevel_entries t2;
         Some (if n \<ge> of_nat (expansion_factor * expand_buf_key * entries)
               then t2\<lparr>ct_expanders := ct_expanders t2 + 1\<rparr> else t2, Done OK)
       }
     }"

definition ct_put_expanding :: "u64 \<Rightarrow> u64 \<Rightarrow> combotree \<Rightarrow> (combotree \<times> status attempt) option" where
  "ct_put_expanding key value t =
     (if ct_need_sleep t then Some (ct_sleep t, Again)
      else do {
        b \<leftarrow> ct_blevel t;
        (range, e) \<leftarrow> is_key_expanded b (ct_expand t) key;
        (t1, ret) \<leftarrow> (case e of
            Some end_idx \<Rightarrow> do { (b1, ret) \<leftarrow> bl_put_range b key value range end_idx; Some (t\<lparr>ct_blevel := Some b1\<rparr>, ret) }
          | None \<Rightarrow> ct_learned_put key value t);
        Some (t1, if ret \<noteq> OK then Again else Done ret)
      })"

definition ct_put_try :: "u64 \<Rightarrow> u64 \<Rightarrow> combotree \<Rightarrow> (combotree \<times> status attempt) option" where
  "ct_put_try key value t =
     (case ct_status t of
        USING_PMEMKV \<Rightarrow> map_option (\<lambda>(t1, ret). (t1, Done ret)) (ct_put_pmemkv key value t)
      | PMEMKV_TO_COMBO_TREE \<Rightarrow> Some (t, Again)
      | USING_COMBO_TREE \<Rightarrow> ct_put_combo key value t
      | PREPARE_EXPANDING \<Rightarrow> Some (ct_sleep t, Again)
      | COMBO_TREE_EXPANDING \<Rightarrow> ct_put_expanding key value t)"

text \<open>\<^verbatim>\<open>Update\<close> puts in the first phase and converts the status to \<open>bool\<close>.\<close>

definition ct_update_expanding :: "u64 \<Rightarrow> u64 \<Rightarrow> combotree \<Rightarrow> (combotree \<times> bool attempt) option" where
  "ct_update_expanding key value t =
     (if ct_need_sleep t then Some (ct_sleep t, Again)
      else do {
        b \<leftarrow> ct_blevel t;
        (range, e) \<leftarrow> is_key_expanded b (ct_expand t) key;
        (t1, ret) \<leftarrow> (case e of
            Some end_idx \<Rightarrow> do { (b1, ret) \<leftarrow> bl_update_range b key value range end_idx; Some (t\<lparr>ct_blevel := Some b1\<rparr>, ret) }
          | None \<Rightarrow> ct_learned_update key value t);
        Some (t1, if \<not> ret then Again else Done ret)
      })"

definition ct_update_try :: "u64 \<Rightarrow> u64 \<Rightarrow> combotree \<Rightarrow> (combotree \<times> bool attempt) option" where
  "ct_update_try key value t =
     (case ct_status t of
        USING_PMEMKV \<Rightarrow> map_option (\<lambda>(t1, ret). (t1, Done (status_bool ret))) (ct_put_pmemkv key value t)
      | PMEMKV_TO_COMBO_TREE \<Rightarrow> Some (t, Again)
      | USING_COMBO_TREE \<Rightarrow>
          map_option (\<lambda>(t1, ret). (t1, if \<not> ret then Again else Done ret)) (ct_learned_update key value t)
      | PREPARE_EXPANDING \<Rightarrow> Some (ct_sleep t, Again)
      | COMBO_TREE_EXPANDING \<Rightarrow> ct_update_expanding key value t)"

text \<open>\<^verbatim>\<open>Get\<close> and \<^verbatim>\<open>Delete\<close> wait for the end of an expansion.  The result of \<^verbatim>\<open>Get\<close> is the returned
  truth value with the value that is written, if one is.\<close>

definition ct_get_try :: "u64 \<Rightarrow> combotree \<Rightarrow> (combotree \<times> (bool \<times> u64 option) attempt) option" where
  "ct_get_try key t =
     (case ct_status t of
        PREPARE_EXPANDING \<Rightarrow> Some (t, Again)
      | COMBO_TREE_EXPANDING \<Rightarrow> Some (t, Again)
      | USING_COMBO_TREE \<Rightarrow> do {
          li \<leftarrow> ct_index t; b \<leftarrow> ct_indexed t; r \<leftarrow> li_get li b key;
          Some (t, Done (r \<noteq> None, r))
        }
      | _ \<Rightarrow> map_option (\<lambda>(t1, r). (t1, Done r)) (ct_write_pmemkv (\<lambda>p. pm_get p key) t))"

definition ct_delete_try :: "u64 \<Rightarrow> combotree \<Rightarrow> (combotree \<times> bool attempt) option" where
  "ct_delete_try key t =
     (case ct_status t of
        USING_PMEMKV \<Rightarrow> map_option (\<lambda>(t1, r). (t1, Done r)) (ct_write_pmemkv (\<lambda>p. pm_delete p key) t)
      | USING_COMBO_TREE \<Rightarrow> do {
          li \<leftarrow> ct_index t; b \<leftarrow> ct_indexed t; (b1, ret, _) \<leftarrow> li_delete li b key;
          Some (ct_set_indexed t b1, Done ret)
        }
      | _ \<Rightarrow> Some (t, Again))"

subsection \<open>Migration: \<^verbatim>\<open>ChangeToComboTree_\<close>\<close>

text \<open>The first thread that finds \<^verbatim>\<open>USING_PMEMKV\<close> goes on, the others return.\<close>

definition ct_change_begin :: "combotree \<Rightarrow> combotree" where
  "ct_change_begin t =
     (if ct_status t \<noteq> USING_PMEMKV then t
      else t\<lparr>ct_status := PMEMKV_TO_COMBO_TREE, ct_permit_delete := False,
             ct_pmemkv := map_option set_write_unvalid (ct_pmemkv t)\<rparr>)"

text \<open>\<open>Again\<close> while a writer still holds a reference.\<close>

definition ct_change_finish :: "ct_env \<Rightarrow> combotree \<Rightarrow> combotree attempt option" where
  "ct_change_finish env t =
     do {
       p \<leftarrow> ct_pmemkv t;
       if \<not> no_write_ref p then Some Again
       else do {
         let (p1, exist_kv) = pm_scan p 0 (-1) (2 ^ 64 - 1);
         b \<leftarrow> bl_load (bl_new (length exist_kv) (mem_new (env_region env))) exist_kv;
         li \<leftarrow> li_new (env_train env) b;
         let p2 = set_read_unvalid p1;
         if \<not> no_read_ref p2 then Some Again
         else Some (Done (t\<lparr>ct_status := USING_COMBO_TREE, ct_pmemkv := None, ct_blevel := Some b, ct_old := None,
                           ct_index := Some li, ct_manifest := mf_set_combo (ct_manifest t) 1,
                           ct_permit_delete := True\<rparr>))
       }
     }"

subsection \<open>Expansion: \<^verbatim>\<open>ExpandComboTree_\<close>\<close>

definition ct_expand_begin :: "combotree \<Rightarrow> combotree" where
  "ct_expand_begin t =
     (if ct_status t \<noteq> USING_COMBO_TREE then t
      else t\<lparr>ct_status := PREPARE_EXPANDING, ct_permit_delete := False, ct_sleeped := 1, ct_need_sleep := True\<rparr>)"

definition ct_expand_prepare :: "ct_env \<Rightarrow> combotree \<Rightarrow> combotree option" where
  "ct_expand_prepare env t =
     do {
       old \<leftarrow> ct_blevel t;
       (b, ds) \<leftarrow> prepare_expansion (env_stale env) (ct_expand t)
                    (bl_new (unat (bl_size old)) (mem_new (env_region env))) old;
       Some (t\<lparr>ct_status := COMBO_TREE_EXPANDING, ct_need_sleep := False, ct_blevel := Some b, ct_old := Some old,
              ct_expand := ds, ct_todo := map (\<lambda>d. Some (old_indices old d)) ds\<rparr>)
     }"

text \<open>One thread of the expansion moves its next entry, or closes its range after the last.\<close>

definition ct_expand_move :: "nat \<Rightarrow> combotree \<Rightarrow> combotree option" where
  "ct_expand_move tid t =
     (case ct_todo t ! tid of
        None \<Rightarrow> None
      | Some [] \<Rightarrow> do {
          b \<leftarrow> ct_blevel t;
          (b1, d1) \<leftarrow> expand_finish b (ct_expand t ! tid);
          b2 \<leftarrow> close_range b1 d1;
          Some (t\<lparr>ct_blevel := Some b2, ct_expand := (ct_expand t)[tid := d1], ct_todo := (ct_todo t)[tid := None]\<rparr>)
        }
      | Some (i # is) \<Rightarrow> do {
          b \<leftarrow> ct_blevel t;
          old \<leftarrow> ct_old t;
          (b1, d1, old1) \<leftarrow> move_entry b (ct_expand t ! tid) old i;
          Some (t\<lparr>ct_blevel := Some b1, ct_old := Some old1, ct_expand := (ct_expand t)[tid := d1],
                 ct_todo := (ct_todo t)[tid := Some is]\<rparr>)
        })"

definition ct_expand_finish :: "ct_env \<Rightarrow> combotree \<Rightarrow> combotree option" where
  "ct_expand_finish env t =
     (if ct_todo t \<noteq> replicate expand_threads None then None
      else do {
        b \<leftarrow> ct_blevel t;
        b1 \<leftarrow> finish_expansion b;
        li \<leftarrow> li_new (env_train env) b1;
        Some (t\<lparr>ct_status := USING_COMBO_TREE, ct_need_sleep := False, ct_blevel := Some b1, ct_old := None,
               ct_index := Some li, ct_permit_delete := True, ct_todo := []\<rparr>)
      })"

subsection \<open>Iterators and Scan\<close>

definition ct_iter_begin :: "combotree \<Rightarrow> bliter option" where
  "ct_iter_begin t = do { b \<leftarrow> ct_blevel t; bl_iter_begin b }"

definition ct_iter_from :: "combotree \<Rightarrow> u64 \<Rightarrow> bliter option" where
  "ct_iter_from t start =
     do {
       b \<leftarrow> ct_blevel t;
       li \<leftarrow> ct_index t;
       let (lo, hi) = li_range li start;
       bl_iter_from b start lo hi
     }"

definition ct_iter_key :: "combotree \<Rightarrow> bliter \<Rightarrow> u64 option" where
  "ct_iter_key t it = do { b \<leftarrow> ct_blevel t; bl_iter_key b it }"

definition ct_iter_value :: "combotree \<Rightarrow> bliter \<Rightarrow> u64 option" where
  "ct_iter_value t it = do { b \<leftarrow> ct_blevel t; bl_iter_value b it }"

definition ct_iter_next :: "combotree \<Rightarrow> bliter \<Rightarrow> (bliter \<times> bool) option" where
  "ct_iter_next t it = do { b \<leftarrow> ct_blevel t; bl_iter_next b it }"

definition ct_iter_end :: "bliter \<Rightarrow> bool" where
  "ct_iter_end it = bl_iter_end it"

definition ct_nosort_begin :: "combotree \<Rightarrow> bl_nosort_iter option" where
  "ct_nosort_begin t = do { b \<leftarrow> ct_blevel t; bl_nosort_begin b }"

definition ct_nosort_from :: "combotree \<Rightarrow> u64 \<Rightarrow> bl_nosort_iter option" where
  "ct_nosort_from t start =
     do {
       b \<leftarrow> ct_blevel t;
       li \<leftarrow> ct_index t;
       let (lo, hi) = li_range li start;
       bl_nosort_from b start lo hi
     }"

definition ct_nosort_next :: "combotree \<Rightarrow> bl_nosort_iter \<Rightarrow> (bl_nosort_iter \<times> bool) option" where
  "ct_nosort_next t it = do { b \<leftarrow> ct_blevel t; bl_nosort_next b it }"

text \<open>\<^verbatim>\<open>Scan\<close> reads a pair before it tests for the end.\<close>

fun ct_scan_loop :: "combotree \<Rightarrow> nat \<Rightarrow> bliter \<Rightarrow> kv list option" where
  "ct_scan_loop t 0 it = Some []"
| "ct_scan_loop t (Suc n) it =
     do {
       k \<leftarrow> ct_iter_key t it;
       v \<leftarrow> ct_iter_value t it;
       (it1, more) \<leftarrow> ct_iter_next t it;
       if more then map_option ((#) (k, v)) (ct_scan_loop t n it1) else Some [(k, v)]
     }"

definition ct_scan :: "combotree \<Rightarrow> u64 \<Rightarrow> nat \<Rightarrow> kv list option" where
  "ct_scan t start max_size = do { it \<leftarrow> ct_iter_from t start; ct_scan_loop t max_size it }"

end
