(* ===== verification/ComboProofs.thy ===== *)
theory ComboProofs
  imports ComboTree
begin

text \<open>
  The store as a state machine: the steps of all threads, the invariant of the reachable states, the
  order of the statuses, and the writer that comes too late.  Then its contents: what the
  operations do to the pairs in the first phase and over the B-level, and that the migration keeps
  them.
\<close>

subsection \<open>Steps\<close>

inductive ct_step :: "ct_env \<Rightarrow> combotree \<Rightarrow> combotree \<Rightarrow> bool" for env where
  put: "ct_put_try k v t = Some (t', r1) \<Longrightarrow> ct_step env t t'"
| update: "ct_update_try k v t = Some (t', r2) \<Longrightarrow> ct_step env t t'"
| get: "ct_get_try k t = Some (t', r3) \<Longrightarrow> ct_step env t t'"
| delete: "ct_delete_try k t = Some (t', r4) \<Longrightarrow> ct_step env t t'"
| arrive: "ct_status t = USING_PMEMKV \<Longrightarrow> ct_step env t (t\<lparr>ct_writers := ct_writers t + 1\<rparr>)"
| late_put: "0 < ct_writers t \<Longrightarrow> ct_put_pmemkv k v (t\<lparr>ct_writers := ct_writers t - 1\<rparr>) = Some (t', r5) \<Longrightarrow>
    ct_step env t t'"
| late_delete: "0 < ct_writers t \<Longrightarrow>
    ct_write_pmemkv (\<lambda>p. pm_delete p k) (t\<lparr>ct_writers := ct_writers t - 1\<rparr>) = Some (t', r6) \<Longrightarrow> ct_step env t t'"
| change_begin: "0 < ct_changers t \<Longrightarrow> ct_step env t (ct_change_begin (t\<lparr>ct_changers := ct_changers t - 1\<rparr>))"
| change_finish: "ct_status t = PMEMKV_TO_COMBO_TREE \<Longrightarrow> ct_change_finish env t = Some (Done t') \<Longrightarrow> ct_step env t t'"
| expand_begin: "0 < ct_expanders t \<Longrightarrow> ct_step env t (ct_expand_begin (t\<lparr>ct_expanders := ct_expanders t - 1\<rparr>))"
| expand_prepare: "ct_status t = PREPARE_EXPANDING \<Longrightarrow> ct_expand_prepare env t = Some t' \<Longrightarrow> ct_step env t t'"
| expand_move: "ct_status t = COMBO_TREE_EXPANDING \<Longrightarrow> tid < expand_threads \<Longrightarrow> ct_expand_move tid t = Some t' \<Longrightarrow>
    ct_step env t t'"
| expand_finish: "ct_status t = COMBO_TREE_EXPANDING \<Longrightarrow> ct_expand_finish env t = Some t' \<Longrightarrow> ct_step env t t'"

definition ct_steps :: "ct_env \<Rightarrow> combotree \<Rightarrow> combotree \<Rightarrow> bool" where
  "ct_steps env = (ct_step env)\<^sup>*\<^sup>*"

subsection \<open>The parts of the state and the status\<close>

text \<open>Which objects exist in which status, and what the two flags say.\<close>

definition pm_counts :: "pmemkv \<Rightarrow> bool" where
  "pm_counts p \<longleftrightarrow> 0 \<le> pm_write_ref p \<and> 0 \<le> pm_read_ref p \<and> smap_ok (pm_data p)"

definition ct_wf :: "combotree \<Rightarrow> bool" where
  "ct_wf t \<longleftrightarrow>
     (case ct_status t of
        USING_PMEMKV \<Rightarrow> (\<exists>p. ct_pmemkv t = Some p \<and> pm_ok p \<and> pm_write_valid p \<and> pm_read_valid p)
      | PMEMKV_TO_COMBO_TREE \<Rightarrow> (\<exists>p. ct_pmemkv t = Some p \<and> pm_ok p \<and> \<not> pm_write_valid p \<and> pm_read_valid p)
      | _ \<Rightarrow> ct_pmemkv t = None) \<and>
     (in_first_phase t \<longrightarrow> ct_blevel t = None \<and> ct_index t = None) \<and>
     (\<not> in_first_phase t \<longrightarrow> ct_blevel t \<noteq> None \<and> ct_index t \<noteq> None) \<and>
     (ct_old t \<noteq> None \<longleftrightarrow> ct_status t = COMBO_TREE_EXPANDING) \<and>
     (ct_permit_delete t \<longleftrightarrow> ct_status t = USING_PMEMKV \<or> ct_status t = USING_COMBO_TREE) \<and>
     (mf_is_combo_tree (ct_manifest t) \<longleftrightarrow> \<not> in_first_phase t)"

text \<open>The order of the statuses.\<close>

fun ct_edge :: "ct_state \<Rightarrow> ct_state \<Rightarrow> bool" where
  "ct_edge USING_PMEMKV s = (s = PMEMKV_TO_COMBO_TREE)"
| "ct_edge PMEMKV_TO_COMBO_TREE s = (s = USING_COMBO_TREE)"
| "ct_edge USING_COMBO_TREE s = (s = PREPARE_EXPANDING)"
| "ct_edge PREPARE_EXPANDING s = (s = COMBO_TREE_EXPANDING)"
| "ct_edge COMBO_TREE_EXPANDING s = (s = USING_COMBO_TREE)"

text \<open>What the steps of an operation leave alone.\<close>

definition same_phase :: "combotree \<Rightarrow> combotree \<Rightarrow> bool" where
  "same_phase t t' \<longleftrightarrow> ct_status t' = ct_status t \<and> (ct_blevel t' = None \<longleftrightarrow> ct_blevel t = None) \<and>
     (ct_old t' = None \<longleftrightarrow> ct_old t = None) \<and> ct_index t' = ct_index t \<and> ct_manifest t' = ct_manifest t \<and>
     ct_permit_delete t' = ct_permit_delete t"

definition same_store :: "pmemkv option \<Rightarrow> pmemkv option \<Rightarrow> bool" where
  "same_store x y \<longleftrightarrow> (x = None \<longleftrightarrow> y = None) \<and> (\<forall>p q. x = Some p \<longrightarrow> y = Some q \<longrightarrow> (pm_ok p \<longrightarrow> pm_ok q) \<and>
     pm_write_valid q = pm_write_valid p \<and> pm_read_valid q = pm_read_valid p)"

lemma same_phase_refl [simp]: "same_phase t t" by (simp add: same_phase_def)
lemma same_store_refl [simp]: "same_store x x" by (auto simp: same_store_def)

lemma same_phase_trans: "same_phase a b \<Longrightarrow> same_phase b c \<Longrightarrow> same_phase a c"
  by (simp add: same_phase_def)

lemma same_store_trans:
  assumes "same_store a b" "same_store b c"
  shows "same_store a c"
  using assms by (cases b) (auto simp: same_store_def)

lemma ct_wf_same:
  assumes "ct_wf t" "same_phase t t'" "same_store (ct_pmemkv t) (ct_pmemkv t')"
  shows "ct_wf t'"
proof -
  have f: "in_first_phase t' = in_first_phase t" using assms(2) by (simp add: same_phase_def in_first_phase_def)
  show ?thesis using assms f unfolding ct_wf_def same_phase_def
    by (cases "ct_status t") (auto simp: same_store_def)
qed

lemma counters_phase [simp]:
  "same_phase t (t'\<lparr>ct_changers := x\<rparr>) = same_phase t t'" "same_phase t (t'\<lparr>ct_expanders := x\<rparr>) = same_phase t t'"
  "same_phase t (t'\<lparr>ct_writers := x\<rparr>) = same_phase t t'" "same_phase (t\<lparr>ct_writers := x\<rparr>) t' = same_phase t t'"
  by (simp_all add: same_phase_def)

lemma set_indexed_phase: "ct_indexed t \<noteq> None \<Longrightarrow> same_phase t (ct_set_indexed t b)"
  by (auto simp: same_phase_def ct_set_indexed_def ct_indexed_def split: option.splits)

lemma set_indexed_store [simp]: "ct_pmemkv (ct_set_indexed t b) = ct_pmemkv t"
  by (simp add: ct_set_indexed_def split: option.splits)

lemma pm_size_store: "pm_size p = (q, n) \<Longrightarrow> same_store (Some p) (Some q)"
  by (auto simp: pm_size_def Let_def same_store_def pm_ok_def read_ref_def read_unref_def split: if_splits)

lemma pm_put_store: "pm_put p k v = (q, r) \<Longrightarrow> same_store (Some p) (Some q)"
  using smap_put_ok
  by (auto simp: pm_put_def Let_def same_store_def pm_ok_def write_ref_def write_unref_def split: if_splits)

lemma pm_delete_store: "pm_delete p k = (q, r) \<Longrightarrow> same_store (Some p) (Some q)"
  using smap_erase_ok
  by (auto simp: pm_delete_def Let_def same_store_def pm_ok_def write_ref_def write_unref_def split: if_splits)

lemma write_phase:
  assumes "ct_write_pmemkv f t = Some (t', r)" "\<And>p q s. f p = (q, s) \<Longrightarrow> same_store (Some p) (Some q)"
  shows "same_phase t t'" "same_store (ct_pmemkv t) (ct_pmemkv t')"
  using assms by (auto simp: ct_write_pmemkv_def same_phase_def split: bind_splits prod.splits)

lemma size_phase:
  assumes "ct_size t = Some (t', n)"
  shows "same_phase t t'" "same_store (ct_pmemkv t) (ct_pmemkv t')"
  using assms pm_size_store
  by (auto simp: ct_size_def same_phase_def split: if_splits bind_splits prod.splits)

lemma check_phase:
  assumes "ct_check_change t = Some t'"
  shows "same_phase t t'" "same_store (ct_pmemkv t) (ct_pmemkv t')"
  using assms size_phase by (auto simp: ct_check_change_def split: bind_splits if_splits)

lemma put_pmemkv_phase:
  assumes "ct_put_pmemkv k v t = Some (t', r)"
  shows "same_phase t t'" "same_store (ct_pmemkv t) (ct_pmemkv t')"
proof -
  obtain t1 where W: "ct_write_pmemkv (\<lambda>p. pm_put p k v) t = Some (t1, r)" "ct_check_change t1 = Some t'"
    using assms by (auto simp: ct_put_pmemkv_def split: bind_splits)
  show "same_phase t t'" "same_store (ct_pmemkv t) (ct_pmemkv t')"
    using write_phase[OF W(1)] pm_put_store check_phase[OF W(2)] by (meson same_phase_trans same_store_trans)+
qed

lemma learned_phase:
  "ct_learned_put k v t = Some (t', r) \<Longrightarrow> same_phase t t' \<and> ct_pmemkv t' = ct_pmemkv t"
  "ct_learned_update k v t = Some (t', r') \<Longrightarrow> same_phase t t' \<and> ct_pmemkv t' = ct_pmemkv t"
  by (auto simp: ct_learned_put_def ct_learned_update_def set_indexed_phase split: bind_splits)

lemma sleep_phase: "same_phase t (ct_sleep t)" "ct_pmemkv (ct_sleep t) = ct_pmemkv t"
  by (simp_all add: ct_sleep_def same_phase_def)

lemma expanding_phase:
  "ct_put_expanding k v t = Some (t', r) \<Longrightarrow> same_phase t t' \<and> ct_pmemkv t' = ct_pmemkv t"
  "ct_update_expanding k v t = Some (t', r') \<Longrightarrow> same_phase t t' \<and> ct_pmemkv t' = ct_pmemkv t"
proof -
  have b: "same_phase t (t\<lparr>ct_blevel := Some x\<rparr>)" if "ct_blevel t = Some y" for x y
    using that by (simp add: same_phase_def)
  show "same_phase t t' \<and> ct_pmemkv t' = ct_pmemkv t" if "ct_put_expanding k v t = Some (t', r)"
    using that unfolding ct_put_expanding_def
    by (cases "ct_need_sleep t") (auto simp: sleep_phase b dest: learned_phase(1) split: bind_splits option.splits)
  show "same_phase t t' \<and> ct_pmemkv t' = ct_pmemkv t" if "ct_update_expanding k v t = Some (t', r')"
    using that unfolding ct_update_expanding_def
    by (cases "ct_need_sleep t") (auto simp: sleep_phase b dest: learned_phase(2) split: bind_splits option.splits)
qed

lemma put_phase:
  assumes "ct_put_try k v t = Some (t', r)"
  shows "same_phase t t' \<and> same_store (ct_pmemkv t) (ct_pmemkv t')"
proof (cases "ct_status t")
  case USING_PMEMKV
  then show ?thesis using assms put_pmemkv_phase by (auto simp: ct_put_try_def)
next
  case USING_COMBO_TREE
  then obtain t1 s where T: "ct_learned_put k v t = Some (t1, s)"
    "t' = t1\<lparr>ct_expanders := ct_expanders t1 + 1\<rparr> \<or> (\<exists>t2 n. ct_size t1 = Some (t2, n) \<and>
      (t' = t2 \<or> t' = t2\<lparr>ct_expanders := ct_expanders t2 + 1\<rparr>))"
    using assms by (auto simp: ct_put_try_def ct_put_combo_def split: bind_splits if_splits)
  have "same_phase t t1 \<and> same_store (ct_pmemkv t) (ct_pmemkv t1)" using learned_phase(1)[OF T(1)] by simp
  moreover have "same_phase t1 t' \<and> same_store (ct_pmemkv t1) (ct_pmemkv t')"
    using T(2)
  proof (elim disjE exE conjE)
    fix t2 n assume "ct_size t1 = Some (t2, n)" "t' = t2\<lparr>ct_expanders := ct_expanders t2 + 1\<rparr>"
    then show ?thesis using size_phase by (fastforce simp: same_phase_def)
  qed (auto simp: same_phase_def dest: size_phase)
  ultimately show ?thesis using same_phase_trans same_store_trans by blast
next
  case COMBO_TREE_EXPANDING
  then show ?thesis using assms expanding_phase(1) by (simp add: ct_put_try_def)
qed (use assms in \<open>auto simp: ct_put_try_def sleep_phase\<close>)

lemma update_phase:
  assumes "ct_update_try k v t = Some (t', r)"
  shows "same_phase t t' \<and> same_store (ct_pmemkv t) (ct_pmemkv t')"
proof (cases "ct_status t")
  case USING_PMEMKV
  then show ?thesis using assms put_pmemkv_phase by (auto simp: ct_update_try_def)
next
  case USING_COMBO_TREE
  then show ?thesis using assms learned_phase(2) by (auto simp: ct_update_try_def)
next
  case COMBO_TREE_EXPANDING
  then show ?thesis using assms expanding_phase(2) by (simp add: ct_update_try_def)
qed (use assms in \<open>auto simp: ct_update_try_def sleep_phase\<close>)

lemma get_phase:
  assumes "ct_get_try k t = Some (t', r)"
  shows "t' = t"
  using assms by (auto simp: ct_get_try_def ct_write_pmemkv_def pm_get_same split: ct_state.splits bind_splits)

lemma delete_phase:
  assumes "ct_delete_try k t = Some (t', r)"
  shows "same_phase t t' \<and> same_store (ct_pmemkv t) (ct_pmemkv t')"
proof (cases "ct_status t")
  case USING_PMEMKV
  then show ?thesis using assms write_phase[OF _ pm_delete_store] by (fastforce simp: ct_delete_try_def)
next
  case USING_COMBO_TREE
  then show ?thesis using assms by (auto simp: ct_delete_try_def set_indexed_phase split: bind_splits)
qed (use assms in \<open>auto simp: ct_delete_try_def\<close>)

subsection \<open>The invariant\<close>

lemma change_finish_shape:
  assumes "ct_change_finish env t = Some (Done t')"
  shows "\<exists>b li. t' = t\<lparr>ct_status := USING_COMBO_TREE, ct_pmemkv := None, ct_blevel := Some b, ct_old := None,
    ct_index := Some li, ct_manifest := mf_set_combo (ct_manifest t) 1, ct_permit_delete := True\<rparr>"
  using assms by (auto simp: ct_change_finish_def Let_def split: bind_splits if_splits prod.splits)

lemma expand_prepare_shape:
  assumes "ct_expand_prepare env t = Some t'"
  shows "\<exists>b old ds todo. ct_blevel t = Some old \<and> t' = t\<lparr>ct_status := COMBO_TREE_EXPANDING, ct_need_sleep := False,
    ct_blevel := Some b, ct_old := Some old, ct_expand := ds, ct_todo := todo\<rparr>"
  using assms by (auto simp: ct_expand_prepare_def split: bind_splits)

lemma expand_move_shape:
  assumes "ct_expand_move tid t = Some t'"
  shows "(ct_old t = None \<longrightarrow> ct_old t' = None) \<and> (\<exists>b old ds todo. ct_blevel t \<noteq> None \<and> (ct_old t \<noteq> None \<longrightarrow> old \<noteq> None) \<and>
    t' = t\<lparr>ct_blevel := Some b, ct_old := old, ct_expand := ds, ct_todo := todo\<rparr>)"
proof (cases "ct_todo t ! tid")
  case (Some xs)
  show ?thesis
  proof (cases xs)
    case Nil
    then obtain b2 d1 where "t' = t\<lparr>ct_blevel := Some b2, ct_expand := (ct_expand t)[tid := d1], ct_todo := (ct_todo t)[tid := None]\<rparr>"
      "ct_blevel t \<noteq> None" using assms Some by (auto simp: ct_expand_move_def split: bind_splits)
    then show ?thesis by (intro conjI exI[of _ b2] exI[of _ "ct_old t"] exI[of _ "(ct_expand t)[tid := d1]"]
          exI[of _ "(ct_todo t)[tid := None]"]) auto
  next
    case (Cons i rest)
    then show ?thesis using assms Some by (fastforce simp: ct_expand_move_def split: bind_splits)
  qed
qed (use assms in \<open>simp add: ct_expand_move_def\<close>)

lemma expand_finish_shape:
  assumes "ct_expand_finish env t = Some t'"
  shows "\<exists>b li. t' = t\<lparr>ct_status := USING_COMBO_TREE, ct_need_sleep := False, ct_blevel := Some b, ct_old := None,
    ct_index := Some li, ct_permit_delete := True, ct_todo := []\<rparr>"
  using assms by (auto simp: ct_expand_finish_def split: bind_splits if_splits)

lemma change_begin_wf: "ct_wf t \<Longrightarrow> ct_wf (ct_change_begin t)"
  by (auto simp: ct_change_begin_def ct_wf_def in_first_phase_def set_write_unvalid_def pm_ok_def)

lemma expand_begin_wf: "ct_wf t \<Longrightarrow> ct_wf (ct_expand_begin t)"
  by (auto simp: ct_expand_begin_def ct_wf_def in_first_phase_def)

lemma wf_counters [simp]:
  "ct_wf (t\<lparr>ct_changers := x\<rparr>) = ct_wf t" "ct_wf (t\<lparr>ct_expanders := x\<rparr>) = ct_wf t" "ct_wf (t\<lparr>ct_writers := x\<rparr>) = ct_wf t"
  by (cases "ct_status t"; simp add: ct_wf_def in_first_phase_def)+

text \<open>Every step keeps the invariant and the status, or takes one edge of the cycle.\<close>

lemma step_wf_edge:
  assumes "ct_step env t t'" "ct_wf t"
  shows "ct_wf t' \<and> (ct_status t' = ct_status t \<or> ct_edge (ct_status t) (ct_status t'))"
  using assms
proof (induction rule: ct_step.induct)
  case (put k v t t' r)
  then show ?case using put_phase[OF put(1)] ct_wf_same by (auto simp: same_phase_def)
next
  case (update k v t t' r)
  then show ?case using update_phase[OF update(1)] ct_wf_same by (auto simp: same_phase_def)
next
  case (get k t t' r)
  then show ?case using get_phase by auto
next
  case (delete k t t' r)
  then show ?case using delete_phase[OF delete(1)] ct_wf_same by (auto simp: same_phase_def)
next
  case (late_put t k v t' r)
  note P = put_pmemkv_phase[OF late_put(2)]
  have "ct_wf t'" using ct_wf_same[OF _ P] late_put(3) by simp
  then show ?case using P(1) by (simp add: same_phase_def)
next
  case (late_delete t k t' r)
  note P = write_phase[OF late_delete(2) pm_delete_store]
  have "ct_wf t'" using ct_wf_same[of "t\<lparr>ct_writers := ct_writers t - 1\<rparr>" t'] P late_delete(3) by simp
  then show ?case using P(1) by (simp add: same_phase_def)
next
  case (change_begin t)
  then show ?case using change_begin_wf[of "t\<lparr>ct_changers := ct_changers t - 1\<rparr>"]
    by (cases "ct_status t") (auto simp: ct_change_begin_def)
next
  case (change_finish t t')
  then show ?case using change_finish_shape[OF change_finish(2)]
    by (auto simp: ct_wf_def in_first_phase_def mf_set_combo_def mf_is_combo_tree_def)
next
  case (expand_begin t)
  then show ?case using expand_begin_wf[of "t\<lparr>ct_expanders := ct_expanders t - 1\<rparr>"]
    by (cases "ct_status t") (auto simp: ct_expand_begin_def)
next
  case (expand_prepare t t')
  then show ?case using expand_prepare_shape[OF expand_prepare(2)]
    by (auto simp: ct_wf_def in_first_phase_def)
next
  case (expand_move t tid t')
  then show ?case using expand_move_shape[OF expand_move(3)]
    by (auto simp: ct_wf_def in_first_phase_def)
next
  case (expand_finish t t')
  then show ?case using expand_finish_shape[OF expand_finish(2)]
    by (auto simp: ct_wf_def in_first_phase_def)
qed simp_all

lemma steps_wf: "ct_steps env t t' \<Longrightarrow> ct_wf t \<Longrightarrow> ct_wf t'"
  unfolding ct_steps_def by (induction rule: rtranclp_induct) (use step_wf_edge in blast)+

lemma new_wf: "ct_wf (ct_new dir_exists dir)"
  by (simp add: ct_new_def ct_wf_def in_first_phase_def pm_new_def pm_ok_def smap_ok_def mf_new_def mf_is_combo_tree_def)

subsection \<open>A writer that comes too late\<close>

text \<open>A writer that has found \<^verbatim>\<open>USING_PMEMKV\<close> and writes after the migration has begun keeps its reference.\<close>

definition ct_blocked :: "combotree \<Rightarrow> bool" where
  "ct_blocked t \<longleftrightarrow> ct_status t = PMEMKV_TO_COMBO_TREE \<and>
     (\<exists>p. ct_pmemkv t = Some p \<and> 0 < pm_write_ref p \<and> \<not> pm_write_valid p)"

definition more_writers :: "pmemkv option \<Rightarrow> pmemkv option \<Rightarrow> bool" where
  "more_writers x y \<longleftrightarrow> (\<forall>p. x = Some p \<longrightarrow> \<not> pm_write_valid p \<longrightarrow>
     (\<exists>q. y = Some q \<and> \<not> pm_write_valid q \<and> pm_write_ref p \<le> pm_write_ref q))"

lemma more_writers_refl [simp]: "more_writers x x" by (simp add: more_writers_def)

lemma more_writers_trans:
  assumes "more_writers x y" "more_writers y z"
  shows "more_writers x z"
  unfolding more_writers_def
proof (intro allI impI)
  fix p assume "x = Some p" "\<not> pm_write_valid p"
  then obtain q where q: "y = Some q" "\<not> pm_write_valid q" "pm_write_ref p \<le> pm_write_ref q"
    using assms(1) unfolding more_writers_def by blast
  obtain r where "z = Some r" "\<not> pm_write_valid r" "pm_write_ref q \<le> pm_write_ref r"
    using assms(2) q(1,2) unfolding more_writers_def by blast
  then show "\<exists>q. z = Some q \<and> \<not> pm_write_valid q \<and> pm_write_ref p \<le> pm_write_ref q" using q(3) by simp
qed

lemma size_writers: "ct_size t = Some (t', n) \<Longrightarrow> more_writers (ct_pmemkv t) (ct_pmemkv t')"
  by (auto simp: ct_size_def more_writers_def pm_size_def Let_def read_ref_def read_unref_def
      split: if_splits bind_splits)

lemma put_pmemkv_writers:
  assumes "ct_put_pmemkv k v t = Some (t', r)"
  shows "more_writers (ct_pmemkv t) (ct_pmemkv t')"
proof -
  obtain t1 where W: "ct_write_pmemkv (\<lambda>p. pm_put p k v) t = Some (t1, r)" "ct_check_change t1 = Some t'"
    using assms by (auto simp: ct_put_pmemkv_def split: bind_splits)
  have "more_writers (ct_pmemkv t) (ct_pmemkv t1)"
    using W(1) by (auto simp: ct_write_pmemkv_def more_writers_def pm_put_invalid split: bind_splits)
  moreover have "more_writers (ct_pmemkv t1) (ct_pmemkv t')"
    using W(2) size_writers by (auto simp: ct_check_change_def split: bind_splits if_splits)
  ultimately show ?thesis by (rule more_writers_trans)
qed

lemma delete_pmemkv_writers:
  "ct_write_pmemkv (\<lambda>p. pm_delete p k) t = Some (t', r) \<Longrightarrow> more_writers (ct_pmemkv t) (ct_pmemkv t')"
  by (auto simp: ct_write_pmemkv_def more_writers_def pm_delete_def Let_def write_ref_def split: bind_splits)

lemma blocked_more: "ct_blocked t \<Longrightarrow> ct_status t' = ct_status t \<Longrightarrow> more_writers (ct_pmemkv t) (ct_pmemkv t') \<Longrightarrow> ct_blocked t'"
  unfolding ct_blocked_def more_writers_def by force

lemma blocked_step:
  assumes "ct_step env t t'" "ct_blocked t"
  shows "ct_blocked t'"
  using assms
proof (induction rule: ct_step.induct)
  case (late_put t k v t' r)
  have "ct_status t' = ct_status t" using put_pmemkv_phase(1)[OF late_put(2)] by (simp add: same_phase_def)
  then show ?case using blocked_more[OF late_put(3)] put_pmemkv_writers[OF late_put(2)] by simp
next
  case (late_delete t k t' r)
  have "ct_status t' = ct_status t" using write_phase(1)[OF late_delete(2) pm_delete_store] by (simp add: same_phase_def)
  then show ?case using blocked_more[OF late_delete(3)] delete_pmemkv_writers[OF late_delete(2)] by simp
next
  case (change_finish t t')
  then show ?case by (auto simp: ct_blocked_def ct_change_finish_def no_write_ref_def)
next
  case (put k v t t' r)
  then show ?case by (simp add: ct_blocked_def ct_put_try_def)
next
  case (update k v t t' r)
  then show ?case by (simp add: ct_blocked_def ct_update_try_def)
next
  case (get k t t' r)
  then show ?case using get_phase by blast
next
  case (delete k t t' r)
  then show ?case by (simp add: ct_blocked_def ct_delete_try_def)
qed (simp_all add: ct_blocked_def ct_change_begin_def ct_expand_begin_def)

lemma blocked_steps: "ct_steps env t t' \<Longrightarrow> ct_blocked t \<Longrightarrow> ct_blocked t'"
  unfolding ct_steps_def by (induction rule: rtranclp_induct) (use blocked_step in blast)+

lemma late_put_blocks:
  assumes "ct_wf t" "ct_status t = PMEMKV_TO_COMBO_TREE" "ct_put_pmemkv k v t = Some (t', r)"
  shows "r = Failed \<and> ct_blocked t'"
proof -
  obtain t1 where W: "ct_write_pmemkv (\<lambda>p. pm_put p k v) t = Some (t1, r)" "ct_check_change t1 = Some t'"
    using assms(3) by (auto simp: ct_put_pmemkv_def split: bind_splits)
  obtain p where p: "ct_pmemkv t = Some p" "\<not> pm_write_valid p" "0 \<le> pm_write_ref p"
    using assms(1,2) by (auto simp: ct_wf_def pm_ok_def)
  then have T: "t1 = t\<lparr>ct_pmemkv := Some (p\<lparr>pm_write_ref := pm_write_ref p + 1\<rparr>)\<rparr>" "r = Failed"
    using W(1) by (auto simp: ct_write_pmemkv_def pm_put_invalid)
  then have "ct_blocked t1" using assms(2) p by (simp add: ct_blocked_def)
  moreover have "more_writers (ct_pmemkv t1) (ct_pmemkv t')"
    using W(2) size_writers by (auto simp: ct_check_change_def split: bind_splits if_splits)
  moreover have "ct_status t' = ct_status t1" using check_phase(1)[OF W(2)] by (simp add: same_phase_def)
  ultimately show ?thesis using T(2) blocked_more by blast
qed

subsection \<open>Contents\<close>

text \<open>The first phase holds \<open>M\<close>; the B-level and its index serve \<open>M\<close>.\<close>

definition ct_stores :: "combotree \<Rightarrow> (u64 \<Rightarrow> u64 option) \<Rightarrow> bool" where
  "ct_stores t M \<longleftrightarrow> ct_status t = USING_PMEMKV \<and> (\<exists>p. ct_pmemkv t = Some p \<and> pm_ok p \<and> pm_write_valid p \<and>
     pm_read_valid p \<and> pm_write_ref p = 0 \<and> pm_read_ref p = 0 \<and> pm_map p = M)"

definition ct_serves :: "combotree \<Rightarrow> nat \<Rightarrow> (u64 \<Rightarrow> u64 option) \<Rightarrow> bool" where
  "ct_serves t D M \<longleftrightarrow> ct_status t = USING_COMBO_TREE \<and> ct_old t = None \<and>
     (\<exists>b li. ct_blevel t = Some b \<and> ct_index t = Some li \<and> li_valid li b \<and> bl_good b D M)"

definition ct_room :: "combotree \<Rightarrow> nat \<Rightarrow> nat \<Rightarrow> bool" where
  "ct_room t D n \<longleftrightarrow> (\<forall>b. ct_blevel t = Some b \<longrightarrow> cur_addr (bl_mem b) + bl_run_room D n < end_addr (bl_mem b))"

lemma new_stores: "ct_stores (ct_new dir_exists dir) Map.empty"
  by (simp add: ct_stores_def ct_new_def pm_new_def pm_ok_def smap_ok_def pm_map_def)

text \<open>In the first phase \<^verbatim>\<open>Put\<close> succeeds, \<^verbatim>\<open>Update\<close> also inserts and always returns false, \<^verbatim>\<open>Get\<close> always
  returns true.\<close>

lemma stores_put:
  assumes "ct_stores t M"
  shows "\<exists>t'. ct_put_try k v t = Some (t', Done OK) \<and> ct_update_try k v t = Some (t', Done False) \<and>
    ct_stores t' (M(k \<mapsto> v)) \<and>
    (ct_changers t' \<noteq> ct_changers t \<longrightarrow> ct_changers t' = ct_changers t + 1 \<and>
      (\<exists>p. ct_pmemkv t' = Some p \<and> pmemkv_threshold \<le> of_nat (length (pm_data p))))"
proof -
  obtain p where p: "ct_status t = USING_PMEMKV" "ct_pmemkv t = Some p" "pm_ok p" "pm_write_valid p" "pm_read_valid p"
    "pm_write_ref p = 0" "pm_read_ref p = 0" "pm_map p = M" using assms by (auto simp: ct_stores_def)
  obtain q r where q: "pm_put p k v = (q, r)" by fastforce
  note P = pm_put_valid[OF p(3,4) q]
  let ?t = "t\<lparr>ct_pmemkv := Some q\<rparr>"
  have "pm_read_valid q" using P(7) p(5) by simp
  then have sz: "ct_size ?t = Some (?t, of_nat (length (pm_data q)))"
    using p(1) by (simp add: ct_size_def in_first_phase_def pm_size_valid)
  let ?t' = "if pmemkv_threshold \<le> of_nat (length (pm_data q)) then ?t\<lparr>ct_changers := ct_changers t + 1\<rparr> else ?t"
  have "ct_put_pmemkv k v t = Some (?t', OK)"
    using p(2) q P(1) sz by (simp add: ct_put_pmemkv_def ct_write_pmemkv_def ct_check_change_def)
  moreover have "ct_stores ?t' (M(k \<mapsto> v))" using P p by (simp add: ct_stores_def)
  ultimately show ?thesis using p(1)
    by (intro exI[of _ ?t']) (simp add: ct_put_try_def ct_update_try_def status_bool_iff)
qed

lemma stores_get: "ct_stores t M \<Longrightarrow> ct_get_try k t = Some (t, Done (True, M k))"
  by (auto simp: ct_stores_def ct_get_try_def ct_write_pmemkv_def pm_get_same)

lemma stores_delete:
  assumes "ct_stores t M"
  shows "\<exists>t'. ct_delete_try k t = Some (t', Done True) \<and> ct_stores t' (M(k := None)) \<and> ct_changers t' = ct_changers t"
proof -
  obtain p where p: "ct_status t = USING_PMEMKV" "ct_pmemkv t = Some p" "pm_ok p" "pm_write_valid p" "pm_read_valid p"
    "pm_write_ref p = 0" "pm_read_ref p = 0" "pm_map p = M" using assms by (auto simp: ct_stores_def)
  obtain q r where q: "pm_delete p k = (q, r)" by fastforce
  note P = pm_delete_valid[OF p(3,4) q]
  show ?thesis using P p q
    by (intro exI[of _ "t\<lparr>ct_pmemkv := Some q\<rparr>"]) (simp add: ct_delete_try_def ct_write_pmemkv_def ct_stores_def)
qed

text \<open>Over the B-level.\<close>

lemma servesE:
  assumes "ct_serves t D M"
  obtains b li where "ct_status t = USING_COMBO_TREE" "ct_old t = None" "ct_blevel t = Some b" "ct_index t = Some li"
    "li_valid li b" "bl_good b D M" "ct_indexed t = Some b" "ct_set_indexed t = (\<lambda>b'. t\<lparr>ct_blevel := Some b'\<rparr>)"
  using assms by (auto simp: ct_serves_def ct_indexed_def ct_set_indexed_def fun_eq_iff)

lemma serves_after:
  assumes "ct_serves t D M" "ct_blevel t = Some b" "bl_good b' D' M'" "keeps_layout b b'"
  shows "ct_serves (t\<lparr>ct_blevel := Some b'\<rparr>) D' M'"
  using assms li.valid_kept by (auto simp: ct_serves_def)

lemma serves_put:
  assumes "ct_serves t D M" "ct_room t D (Suc n)"
  shows "\<exists>t'. ct_put_try k v t = Some (t', Done OK) \<and> ct_serves t' (Suc D) (M(k \<mapsto> v)) \<and> ct_room t' (Suc D) n \<and>
    ct_changers t' = ct_changers t"
proof -
  obtain b li where S: "ct_status t = USING_COMBO_TREE" "ct_old t = None" "ct_blevel t = Some b" "ct_index t = Some li"
    "li_valid li b" "bl_good b D M" "ct_indexed t = Some b" "ct_set_indexed t = (\<lambda>b'. t\<lparr>ct_blevel := Some b'\<rparr>)"
    using servesE[OF assms(1)] .
  have room: "cur_addr (bl_mem b) + ((D + 3) * node_size + bl_run_room (Suc D) n) < end_addr (bl_mem b)"
    using assms(2) S(3) bl_run_room_Suc[of D n] by (simp add: ct_room_def)
  then have "bl_room b D" by (simp add: bl_room_def)
  from li.put_good[OF S(5,6) this, of k v] obtain b' where P: "li_put li b k v = Some (b', OK)"
    "bl_good b' (Suc D) (M(k \<mapsto> v))" "keeps_layout b b'"
    "cur_addr (bl_mem b') \<le> cur_addr (bl_mem b) + (D + 3) * node_size" by blast
  let ?t = "t\<lparr>ct_blevel := Some b'\<rparr>"
  have L: "ct_learned_put k v t = Some (?t, OK)" using S P(1) by (simp add: ct_learned_put_def)
  have sz: "ct_size ?t = Some (?t, li_size b')"
    using S by (simp add: ct_size_def in_first_phase_def ct_indexed_def)
  obtain t' where T: "ct_put_combo k v t = Some (t', Done OK)" "t' = ?t \<or> t' = ?t\<lparr>ct_expanders := ct_expanders t + 1\<rparr>"
    using L sz by (simp add: ct_put_combo_def ct_blevel_entries_def)
  have sv: "ct_serves ?t (Suc D) (M(k \<mapsto> v))" using serves_after[OF assms(1) S(3) P(2,3)] .
  then have "ct_serves t' (Suc D) (M(k \<mapsto> v))" using T(2) by (auto simp: ct_serves_def)
  moreover have "cur_addr (bl_mem b') + bl_run_room (Suc D) n < end_addr (bl_mem b')"
    using P(3,4) room by (simp add: keeps_layout_def)
  then have "ct_room t' (Suc D) n" using T(2) by (auto simp: ct_room_def)
  ultimately show ?thesis using S(1) T by (auto simp: ct_put_try_def)
qed

lemma serves_get: "ct_serves t D M \<Longrightarrow> ct_get_try k t = Some (t, Done (M k \<noteq> None, M k))"
  using li.get_law by (auto simp: ct_get_try_def elim!: servesE)

lemma serves_update:
  assumes "ct_serves t D M" "ct_room t D (Suc n)" "M k \<noteq> None"
  shows "\<exists>t'. ct_update_try k v t = Some (t', Done True) \<and> ct_serves t' D (M(k \<mapsto> v)) \<and> ct_room t' D n \<and>
    ct_changers t' = ct_changers t"
proof -
  obtain b li where S: "ct_status t = USING_COMBO_TREE" "ct_old t = None" "ct_blevel t = Some b" "ct_index t = Some li"
    "li_valid li b" "bl_good b D M" "ct_indexed t = Some b" "ct_set_indexed t = (\<lambda>b'. t\<lparr>ct_blevel := Some b'\<rparr>)"
    using servesE[OF assms(1)] .
  from li.update_law[OF S(5,6) assms(3), of v] obtain b' where P: "li_update li b k v = Some (b', True)"
    "bl_good b' D (M(k \<mapsto> v))" "keeps_layout b b'" "cur_addr (bl_mem b') = cur_addr (bl_mem b)"
    by (auto simp: update_result_def)
  let ?t = "t\<lparr>ct_blevel := Some b'\<rparr>"
  have "ct_room ?t D n" using assms(2) S(3) P(3,4) bl_run_room_skip[of D n] by (simp add: ct_room_def keeps_layout_def)
  then show ?thesis using S P(1) serves_after[OF assms(1) S(3) P(2,3)]
    by (intro exI[of _ ?t]) (simp add: ct_update_try_def ct_learned_update_def)
qed

lemma serves_delete:
  assumes "ct_serves t D M" "ct_room t D (Suc n)"
  shows "\<exists>t'. ct_delete_try k t = Some (t', Done True) \<and> ct_serves t' D (M(k := None)) \<and> ct_room t' D n \<and>
    ct_changers t' = ct_changers t"
proof -
  obtain b li where S: "ct_status t = USING_COMBO_TREE" "ct_old t = None" "ct_blevel t = Some b" "ct_index t = Some li"
    "li_valid li b" "bl_good b D M" "ct_indexed t = Some b" "ct_set_indexed t = (\<lambda>b'. t\<lparr>ct_blevel := Some b'\<rparr>)"
    using servesE[OF assms(1)] .
  from li.delete_law[OF S(5,6), of k] obtain b' where P: "li_delete li b k = Some (b', True, M k)"
    "bl_good b' D (M(k := None))" "keeps_layout b b'" "cur_addr (bl_mem b') = cur_addr (bl_mem b)"
    by (auto simp: delete_result_def)
  let ?t = "t\<lparr>ct_blevel := Some b'\<rparr>"
  have "ct_room ?t D n" using assms(2) S(3) P(3,4) bl_run_room_skip[of D n] by (simp add: ct_room_def keeps_layout_def)
  then show ?thesis using S P(1) serves_after[OF assms(1) S(3) P(2,3)]
    by (intro exI[of _ ?t]) (simp add: ct_delete_try_def)
qed

subsection \<open>Migration\<close>

text \<open>What the trained index guarantees for every sorted list of entry keys.\<close>

definition trained :: "ct_env \<Rightarrow> bool" where
  "trained env \<longleftrightarrow> (\<forall>keys. sorted_wrt (<) keys \<longrightarrow> search_ok keys (env_train env keys))"

lemma ekeys_sorted:
  assumes "bl_shape b"
  shows "sorted_wrt (<) (map (ekey b) [0..<length (bl_slots b)])"
  unfolding sorted_wrt_iff_nth_less using ekey_less[OF assms] by simp

lemma region_ok_new: "region \<le> 2 ^ 48 \<Longrightarrow> region_ok (mem_new region)"
  by (simp add: mem_new_def region_ok_def mem_ok_def)

lemma smap_length:
  assumes "smap_ok xs"
  shows "length xs = card (dom (map_of xs))"
  using distinct_card[OF smap_distinct[OF assms]] by (simp add: dom_map_of_conv_image_fst)

lemma max_key: "(k :: u64) \<noteq> -1 \<Longrightarrow> k < -1"
  by (rule word_order.not_eq_extremum[THEN iffD1])

lemma card_keys:
  assumes "\<forall>k :: u64 \<in> S. k < -1"
  shows "card S \<le> 2 ^ 64 - 1"
proof -
  have "card S \<le> card (UNIV - {-1 :: u64})" using assms by (intro card_mono) auto
  then show ?thesis by (simp add: card_Diff_singleton card_word)
qed

lemma change_finish_serves:
  assumes "trained env" "ct_status t = PMEMKV_TO_COMBO_TREE" "ct_pmemkv t = Some p" "pm_ok p"
    "pm_write_ref p = 0" "pm_read_ref p = 0" "\<forall>k \<in> dom (pm_map p). k < -1" "13 \<le> card (dom (pm_map p))"
    "load_room (card (dom (pm_map p))) < env_region env" "env_region env \<le> 2 ^ 48"
  shows "\<exists>t' b. ct_change_finish env t = Some (Done t') \<and> ct_serves t' 4 (pm_map p) \<and> ct_changers t' = ct_changers t \<and>
    ct_blevel t' = Some b \<and> cur_addr (bl_mem b) \<le> load_room (card (dom (pm_map p))) \<and>
    end_addr (bl_mem b) = env_region env \<and> ct_index t' = li_new (env_train env) b \<and> ct_pmemkv t' = None"
proof -
  obtain p1 xs where sc: "pm_scan p 0 (-1) (2 ^ 64 - 1) = (p1, xs)" by fastforce
  have sm: "smap_ok (pm_data p)" using assms(4) by (simp add: pm_ok_def)
  have len: "length (pm_data p) = card (dom (pm_map p))" using smap_length[OF sm] by (simp add: pm_map_def)
  have "length (pm_data p) \<le> 2 ^ 64 - 1" unfolding len by (rule card_keys[OF assms(7)])
  note S = pm_scan_all[OF assms(4) this sc]
  have xl: "length xs = card (dom (pm_map p))" using S(4) len by simp
  have keys: "\<forall>x \<in> set xs. fst x < -1"
    using assms(7) S(3) by (metis dom_map_of_conv_image_fst imageI)
  have m: "cur_addr (mem_new (env_region env)) = 0" "end_addr (mem_new (env_region env)) = env_region env"
    by (simp_all add: mem_new_def)
  obtain b where B: "bl_load (bl_new (length xs) (mem_new (env_region env))) xs = Some b" "bl_good b 4 (map_of xs)"
    "cur_addr (bl_mem b) \<le> load_room (length xs)" "end_addr (bl_mem b) = env_region env"
    using bl_load_good[OF S(2) keys _ region_ok_new[OF assms(10)]] assms(8,9) unfolding xl m by auto
  note sh = bl_good_shape[OF B(2)]
  obtain li where L: "li_new (env_train env) b = Some li"
    "li_search li = env_train env (map (ekey b) [0..<length (bl_slots b)])" using li_new_some[OF sh] by simp
  have "li_valid li b"
    using li_valid_new[OF sh L(1)] L(2) assms(1) ekeys_sorted[OF sh] by (simp add: trained_def)
  then show ?thesis
    using assms(3,5,6) sc S(1,3) B L(1) xl
    by (auto simp: ct_change_finish_def Let_def no_write_ref_def no_read_ref_def set_read_unvalid_def ct_serves_def)
qed

subsection \<open>A client\<close>

text \<open>One client alone: a call makes one attempt, and runs the migration when it is due.  Threads that
  a put has started for an expansion have not run yet.\<close>

fun ct_attempt :: "kv_op \<Rightarrow> combotree \<Rightarrow> (combotree \<times> bool) option" where
  "ct_attempt (KPut k v) t = map_option (\<lambda>(t1, r). (t1, r \<noteq> Again)) (ct_put_try k v t)"
| "ct_attempt (KUpdate k v) t = map_option (\<lambda>(t1, r). (t1, r \<noteq> Again)) (ct_update_try k v t)"
| "ct_attempt (KDelete k) t = map_option (\<lambda>(t1, r). (t1, r \<noteq> Again)) (ct_delete_try k t)"

definition ct_migrate :: "ct_env \<Rightarrow> combotree \<Rightarrow> combotree option" where
  "ct_migrate env t =
     (if ct_changers t = 0 then Some t
      else let t1 = ct_change_begin (t\<lparr>ct_changers := ct_changers t - 1\<rparr>) in
        if ct_status t = USING_PMEMKV
        then (case ct_change_finish env t1 of Some (Done t2) \<Rightarrow> Some t2 | _ \<Rightarrow> None) else Some t1)"

fun ct_calls :: "ct_env \<Rightarrow> combotree \<Rightarrow> kv_op list \<Rightarrow> combotree option" where
  "ct_calls env t [] = Some t"
| "ct_calls env t (op # ops) =
     do { (t1, done) \<leftarrow> ct_attempt op t; t2 \<leftarrow> ct_migrate env t1; if done then ct_calls env t2 ops else None }"

fun kvop_key :: "kv_op \<Rightarrow> u64" where
  "kvop_key (KPut k v) = k"
| "kvop_key (KUpdate k v) = k"
| "kvop_key (KDelete k) = k"

definition ct_contents :: "combotree \<Rightarrow> (u64 \<Rightarrow> u64 option) \<Rightarrow> nat \<Rightarrow> bool" where
  "ct_contents t M n \<longleftrightarrow> ct_stores t M \<or> (\<exists>D. ct_serves t D M \<and> ct_room t D n)"

lemma load_room_mono: "m \<le> n \<Longrightarrow> load_room m \<le> load_room n"
  unfolding load_room_def load_entries_def by (intro mult_le_mono1 add_le_mono div_le_mono) simp_all

lemma migrate_contents:
  assumes "trained env" "env_region env \<le> 2 ^ 48" "ct_contents t M n" "\<forall>k \<in> dom M. k < -1"
    "load_room (card (dom M)) + bl_run_room 4 n < env_region env" "ct_changers t = 0 \<or> ct_changers t = 1"
    "ct_changers t = 1 \<Longrightarrow> ct_stores t M \<and> 10000 \<le> card (dom M)"
  shows "\<exists>t'. ct_migrate env t = Some t' \<and> ct_contents t' M n \<and> ct_changers t' = 0"
proof (cases "ct_changers t = 0")
  case True
  then show ?thesis using assms(3) by (simp add: ct_migrate_def)
next
  case False
  then have one: "ct_changers t = 1" using assms(6) by simp
  then have st: "ct_stores t M" and big: "10000 \<le> card (dom M)" using assms(7) by auto
  then obtain p where p: "ct_status t = USING_PMEMKV" "ct_pmemkv t = Some p" "pm_ok p" "pm_write_ref p = 0"
    "pm_read_ref p = 0" "pm_map p = M" by (auto simp: ct_stores_def)
  let ?t = "ct_change_begin (t\<lparr>ct_changers := ct_changers t - 1\<rparr>)"
  have q: "ct_status ?t = PMEMKV_TO_COMBO_TREE" "ct_pmemkv ?t = Some (set_write_unvalid p)" "ct_changers ?t = 0"
    using p(1,2) one by (simp_all add: ct_change_begin_def)
  have w: "pm_ok (set_write_unvalid p)" "pm_write_ref (set_write_unvalid p) = 0" "pm_read_ref (set_write_unvalid p) = 0"
    "pm_map (set_write_unvalid p) = M" using p(3-6) by (simp_all add: set_write_unvalid_def pm_ok_def pm_map_def)
  have room: "load_room (card (dom M)) < env_region env" using assms(5) by linarith
  obtain t' b where F: "ct_change_finish env ?t = Some (Done t')" "ct_serves t' 4 M" "ct_changers t' = 0"
    "ct_blevel t' = Some b" "cur_addr (bl_mem b) \<le> load_room (card (dom M))" "end_addr (bl_mem b) = env_region env"
    using change_finish_serves[OF assms(1) q(1,2) w(1-3)] assms(2,4) big room unfolding w(4) q(3) by auto
  have "ct_room t' 4 n" using F(4-6) assms(5) by (simp add: ct_room_def)
  then show ?thesis using F(1-3) False p(1) by (auto simp: ct_migrate_def ct_contents_def Let_def)
qed

lemma attempt_contents:
  assumes "ct_contents t M (Suc n)" "kv_pre M op" "ct_changers t = 0"
  shows "\<exists>t'. ct_attempt op t = Some (t', True) \<and> ct_contents t' (kv_spec M op) n \<and>
    (ct_changers t' = 0 \<or> (ct_changers t' = 1 \<and> ct_stores t' (kv_spec M op) \<and> 10000 \<le> card (dom (kv_spec M op))))"
  using assms(1)[unfolded ct_contents_def]
proof (elim disjE exE conjE)
  assume s: "ct_stores t M"
  have big: "10000 \<le> card (dom M')" if "ct_stores t' M'" "ct_pmemkv t' = Some p" "pmemkv_threshold \<le> of_nat (length (pm_data p))"
    for t' M' p
  proof -
    have "smap_ok (pm_data p)" "M' = map_of (pm_data p)" using that(1,2) by (auto simp: ct_stores_def pm_ok_def pm_map_def)
    then have "length (pm_data p) = card (dom M')" using smap_length by simp
    moreover have "10000 \<le> unat (of_nat (length (pm_data p)) :: u64)"
      using that(3) by (simp add: pmemkv_threshold_def word_le_nat_alt)
    moreover have "unat (of_nat (length (pm_data p)) :: u64) \<le> length (pm_data p)"
      by (simp add: unat_of_nat take_bit_eq_mod)
    ultimately show ?thesis by linarith
  qed
  have put: "\<exists>t'. ct_put_try k v t = Some (t', Done OK) \<and> ct_update_try k v t = Some (t', Done False) \<and>
    ct_stores t' (M(k \<mapsto> v)) \<and> (ct_changers t' = 0 \<or> (ct_changers t' = 1 \<and> 10000 \<le> card (dom (M(k \<mapsto> v)))))" for k v
  proof -
    obtain t1 where T: "ct_put_try k v t = Some (t1, Done OK)" "ct_update_try k v t = Some (t1, Done False)"
      "ct_stores t1 (M(k \<mapsto> v))" "ct_changers t1 \<noteq> ct_changers t \<longrightarrow> ct_changers t1 = ct_changers t + 1 \<and>
        (\<exists>p. ct_pmemkv t1 = Some p \<and> pmemkv_threshold \<le> of_nat (length (pm_data p)))"
      using stores_put[OF s, of k v] by blast
    have "ct_changers t1 = 0 \<or> (ct_changers t1 = 1 \<and> 10000 \<le> card (dom (M(k \<mapsto> v))))"
    proof (cases "ct_changers t1 = 0")
      case False
      then obtain p where "ct_changers t1 = 1" "ct_pmemkv t1 = Some p" "pmemkv_threshold \<le> of_nat (length (pm_data p))"
        using T(4) assms(3) by auto
      then show ?thesis using big[OF T(3)] by blast
    qed simp
    then show ?thesis using T(1-3) by blast
  qed
  show ?thesis
  proof (cases op)
    case (KPut k v)
    from put[of k v] show ?thesis unfolding KPut by (auto simp: ct_contents_def)
  next
    case (KUpdate k v)
    from put[of k v] show ?thesis unfolding KUpdate by (auto simp: ct_contents_def)
  next
    case (KDelete k)
    from stores_delete[OF s, of k] show ?thesis using KDelete assms(3) by (auto simp: ct_contents_def)
  qed
next
  fix D assume s: "ct_serves t D M" "ct_room t D (Suc n)"
  show ?thesis
  proof (cases op)
    case (KPut k v)
    from serves_put[OF s, of k v] show ?thesis using KPut assms(3) by (auto simp: ct_contents_def)
  next
    case (KUpdate k v)
    from serves_update[OF s, of k v] show ?thesis using KUpdate assms(2,3) by (auto simp: ct_contents_def)
  next
    case (KDelete k)
    from serves_delete[OF s, of k] show ?thesis using KDelete assms(3) by (auto simp: ct_contents_def)
  qed
qed

lemma card_dom_spec: "finite (dom M) \<Longrightarrow> card (dom (kv_spec M op)) \<le> Suc (card (dom M)) \<and> finite (dom (kv_spec M op))"
  by (cases op) (auto simp: card_insert_if intro: le_SucI card_Diff1_le[THEN order_trans])

lemma bl_run_room_mono: "m \<le> n \<Longrightarrow> bl_run_room D m \<le> bl_run_room D n"
  unfolding bl_run_room_def by (intro mult_le_mono mult_le_mono1) simp_all

lemma calls_contents:
  assumes "trained env" "env_region env \<le> 2 ^ 48" "ct_contents t M (length ops)" "ct_changers t = 0" "finite (dom M)"
    "\<forall>k \<in> dom M. k < -1" "\<forall>op \<in> set ops. kvop_key op < -1" "kv_pres M ops"
    "load_room (card (dom M) + length ops) + bl_run_room 4 (length ops) < env_region env"
  shows "\<exists>t'. ct_calls env t ops = Some t' \<and> ct_contents t' (foldl kv_spec M ops) 0"
  using assms(3-)
proof (induction ops arbitrary: t M)
  case (Cons op ops)
  let ?M = "kv_spec M op" and ?n = "length ops"
  have pre: "kv_pre M op" "kv_pres ?M ops" using Cons.prems(6) by simp_all
  obtain t1 where A: "ct_attempt op t = Some (t1, True)" "ct_contents t1 ?M ?n"
    "ct_changers t1 = 0 \<or> (ct_changers t1 = 1 \<and> ct_stores t1 ?M \<and> 10000 \<le> card (dom ?M))"
    using attempt_contents[of t M ?n op] Cons.prems(1,2) pre(1) by auto
  have card: "card (dom ?M) \<le> Suc (card (dom M))" "finite (dom ?M)" using card_dom_spec[OF Cons.prems(3)] by auto
  have keys: "\<forall>k \<in> dom ?M. k < -1" using Cons.prems(4,5) by (cases op) auto
  have mono: "load_room (card (dom ?M) + ?n) \<le> load_room (card (dom M) + length (op # ops))"
    "load_room (card (dom ?M)) \<le> load_room (card (dom M) + length (op # ops))"
    "bl_run_room 4 ?n \<le> bl_run_room 4 (length (op # ops))"
    using card(1) by (auto intro!: load_room_mono bl_run_room_mono)
  then have room: "load_room (card (dom ?M)) + bl_run_room 4 ?n < env_region env"
    "load_room (card (dom ?M) + ?n) + bl_run_room 4 ?n < env_region env" using Cons.prems(7) by linarith+
  obtain t2 where G: "ct_migrate env t1 = Some t2" "ct_contents t2 ?M ?n" "ct_changers t2 = 0"
    using migrate_contents[OF assms(1,2) A(2) keys room(1)] A(3) by auto
  have "\<forall>op \<in> set ops. kvop_key op < -1" using Cons.prems(5) by simp
  from Cons.IH[OF G(2,3) card(2) keys this pre(2) room(2)] show ?case using A(1) G(1) by simp
qed (auto intro: exI)

lemma contents_get:
  assumes "ct_contents t M n"
  shows "\<exists>r. ct_get_try k t = Some (t, Done (r, M k))"
  using assms stores_get serves_get by (auto simp: ct_contents_def)

subsection \<open>Scan\<close>

text \<open>A scan needs more from the window than a lookup: it must not begin behind the entry of the start
  key, and there must be a pair from the start key on.\<close>

definition scan_window :: "combotree \<Rightarrow> u64 \<Rightarrow> bool" where
  "scan_window t start \<longleftrightarrow> (\<forall>b li j. ct_blevel t = Some b \<longrightarrow> ct_index t = Some li \<longrightarrow> in_slot b j start \<longrightarrow>
     fst (li_range li start) \<le> j \<and> j \<le> snd (li_range li start))"

lemma scan_window_new:
  assumes "ct_blevel t = Some b" "ct_index t = Some li" "bl_shape b" "li_new train b = Some li"
    "\<And>keys. search_strict keys (train keys)"
  shows "scan_window t start"
proof -
  have "search_strict (map (ekey b) [0..<length (bl_slots b)]) (li_search li)"
    using li_new_some[OF assms(3), of train] assms(4,5) by auto
  then show ?thesis using li_window_strict[OF assms(3,4)] assms(1,2) by (simp add: scan_window_def)
qed

lemma scan_loop_at:
  "bl_own b ds ass xss \<Longrightarrow> ct_blevel t = Some b \<Longrightarrow> bl_iter_at b xss it rest \<Longrightarrow> rest \<noteq> [] \<Longrightarrow>
    ct_scan_loop t n it = Some (take n rest)"
proof (induction n arbitrary: it rest)
  case (Suc n)
  have sh: "bl_shape b" using Suc.prems(1) by (simp add: bl_own_def)
  obtain x xs where Cons: "rest = x # xs" using Suc.prems(4) by (cases rest) auto
  note pos = Suc.prems(3)[unfolded Cons]
  obtain it' where n: "bl_iter_next b it = Some (it', xs \<noteq> [])" "bl_iter_at b xss it' xs"
    using bl_iter_at_next[OF Suc.prems(1) pos] by blast
  show ?case using bl_iter_at_values[OF sh pos] n(1) Suc.IH[OF Suc.prems(1,2) n(2)] Cons Suc.prems(2)
    by (cases "xs = []") (simp_all add: ct_iter_key_def ct_iter_value_def ct_iter_next_def)
qed simp

lemma serves_scan:
  assumes "ct_serves t D M" "scan_window t start" "\<exists>k. start \<le> k \<and> M k \<noteq> None"
  shows "\<exists>xs. keys_sorted xs \<and> map_of xs = M \<and> ct_scan t start n = Some (take n (filter (\<lambda>x. start \<le> fst x) xs))"
proof -
  obtain b li where S: "ct_blevel t = Some b" "ct_index t = Some li" "bl_good b D M"
    using assms(1) by (auto simp: ct_serves_def)
  obtain lo hi where lh: "li_range li start = (lo, hi)" by fastforce
  obtain j where j: "in_slot b j start" using in_slot_exists[OF bl_good_shape[OF S(3)]] by blast
  have w: "lo \<le> j" "j \<le> hi" using assms(2) S(1,2) j lh by (auto simp: scan_window_def)
  obtain ds ass xss where H: "bl_own b ds ass xss" "M = map_of (concat xss)"
    using S(3) by (auto simp: bl_holds_def bl_good_def)
  obtain it where I: "bl_iter_from b start lo hi = Some it"
    "bl_iter_at b xss it (filter (\<lambda>x. start \<le> fst x) (concat xss))" using bl_iter_from_at[OF H(1) j w] by blast
  obtain k where k: "start \<le> k" "M k \<noteq> None" using assms(3) by blast
  then obtain v where "(k, v) \<in> set (concat xss)" using map_of_SomeD H(2) by fastforce
  then have "filter (\<lambda>x. start \<le> fst x) (concat xss) \<noteq> []" using k(1) unfolding filter_empty_conv by fastforce
  from scan_loop_at[OF H(1) S(1) I(2) this, of n] have
    "ct_scan t start n = Some (take n (filter (\<lambda>x. start \<le> fst x) (concat xss)))"
    using S(1,2) lh I(1) by (simp add: ct_scan_def ct_iter_from_def)
  then show ?thesis using bl_own_sorted[OF H(1)] H(2) by blast
qed

end
