(* ===== verification/BEntryIter.thy ===== *)
theory BEntryIter
  imports BEntry
begin

text \<open>
  The iterators of \<^verbatim>\<open>src/bentry.h\<close> over an entry with a write buffer: \<^verbatim>\<open>BEntry::Iter\<close> merges the buffer, in the order
  of \<^verbatim>\<open>GetSortedIndex\<close>, with the C-level; \<^verbatim>\<open>BEntry::NoSortIter\<close> takes the buffer first.  Where it stands between
  them are two flags.  \<open>None\<close> is the use of a position of the index array that has not been written.
\<close>

subsection \<open>Iter\<close>

record beiter =
  bi_idx :: nat
  bi_has :: bool
  bi_point :: bool
  bi_citer :: cliter
  bi_order :: "nat list"

definition bi_key_at :: "bentry \<Rightarrow> beiter \<Rightarrow> nat \<Rightarrow> u64 option" where
  "bi_key_at e it i = (if i < length (bi_order it) then Some (kv_key (be_buf e) (bi_order it ! i) (be_key e)) else None)"

definition bi_value_at :: "bentry \<Rightarrow> beiter \<Rightarrow> nat \<Rightarrow> u64 option" where
  "bi_value_at e it i = (if i < length (bi_order it) then Some (kv_value (be_buf e) (bi_order it ! i)) else None)"

definition be_iter_key :: "clmem \<Rightarrow> bentry \<Rightarrow> beiter \<Rightarrow> u64 option" where
  "be_iter_key m e it = (if bi_point it then cl_iter_key m (be_key e) (bi_citer it) else bi_key_at e it (bi_idx it))"

definition be_iter_value :: "clmem \<Rightarrow> bentry \<Rightarrow> beiter \<Rightarrow> u64 option" where
  "be_iter_value m e it = (if bi_point it then cl_iter_value m (bi_citer it) else bi_value_at e it (bi_idx it))"

definition be_iter_end :: "bentry \<Rightarrow> beiter \<Rightarrow> bool" where
  "be_iter_end e it \<longleftrightarrow> bi_idx it \<ge> entries (be_buf e) \<and> \<not> bi_point it"

text \<open>Whether the C-level is next.\<close>

definition be_iter_turn :: "clmem \<Rightarrow> bentry \<Rightarrow> beiter \<Rightarrow> bool option" where
  "be_iter_turn m e it =
     (if bi_idx it \<ge> entries (be_buf e) then Some True
      else do { ck \<leftarrow> cl_iter_key m (be_key e) (bi_citer it); bk \<leftarrow> bi_key_at e it (bi_idx it); Some (ck < bk) })"

definition be_iter_next :: "clmem \<Rightarrow> bentry \<Rightarrow> beiter \<Rightarrow> (beiter \<times> bool) option" where
  "be_iter_next m e it =
     (if bi_point it then do {
        (ci, more) \<leftarrow> cl_iter_next (cl_fuel m) m (bi_citer it);
        let it1 = it\<lparr>bi_citer := ci\<rparr>;
        if \<not> more then Some (it1\<lparr>bi_has := False, bi_point := False\<rparr>, bi_idx it < entries (be_buf e))
        else do { p \<leftarrow> be_iter_turn m e it1; Some (it1\<lparr>bi_point := p\<rparr>, True) }
      }
      else let it1 = it\<lparr>bi_idx := bi_idx it + 1\<rparr> in
        if bi_has it then do { p \<leftarrow> be_iter_turn m e it1; Some (it1\<lparr>bi_point := p\<rparr>, True) }
        else Some (it1, bi_idx it1 < entries (be_buf e)))"

text \<open>The constructors: with the iterator of the C-level, and without one.\<close>

definition be_iter_with :: "clmem \<Rightarrow> bentry \<Rightarrow> cliter \<Rightarrow> beiter option" where
  "be_iter_with m e ci =
     (let it = \<lparr>bi_idx = 0, bi_has = \<not> cl_iter_end ci, bi_point = False, bi_citer = ci, bi_order = kv_get_sorted_index (be_buf e)\<rparr>
      in if bi_has it then do { p \<leftarrow> be_iter_turn m e it; Some (it\<lparr>bi_point := p\<rparr>) } else Some it)"

definition be_iter_without :: "bentry \<Rightarrow> beiter" where
  "be_iter_without e =
     \<lparr>bi_idx = 0, bi_has = False, bi_point = False, bi_citer = \<lparr>it_cur = None, it_idx = 0\<rparr>, bi_order = kv_get_sorted_index (be_buf e)\<rparr>"

definition be_iter_begin :: "clmem \<Rightarrow> bentry \<Rightarrow> beiter option" where
  "be_iter_begin m e =
     (if cl_has_setup (be_clevel e) then do {
        ci \<leftarrow> cl_iter_begin (cl_fuel m) m (be_clevel e);
        be_iter_with m e ci
      } else Some (be_iter_without e))"

text \<open>\<^verbatim>\<open>do { if (key() >= start_key) return; } while (next())\<close>.\<close>

fun be_iter_seek :: "nat \<Rightarrow> clmem \<Rightarrow> bentry \<Rightarrow> u64 \<Rightarrow> beiter \<Rightarrow> beiter option" where
  "be_iter_seek 0 m e start_key it = None"
| "be_iter_seek (Suc n) m e start_key it =
     do {
       k \<leftarrow> be_iter_key m e it;
       if k \<ge> start_key then Some it
       else do {
         (it', more) \<leftarrow> be_iter_next m e it;
         if more then be_iter_seek n m e start_key it' else Some it'
       }
     }"

definition be_iter_from :: "nat \<Rightarrow> clmem \<Rightarrow> bentry \<Rightarrow> u64 \<Rightarrow> beiter option" where
  "be_iter_from n m e start_key =
     (if start_key \<le> be_key e then be_iter_begin m e
      else do {
        it \<leftarrow> (if cl_has_setup (be_clevel e) then do {
                  ci \<leftarrow> cl_iter_from (cl_fuel m) m (be_clevel e) (be_key e) start_key;
                  be_iter_with m e ci
                } else Some (be_iter_without e));
        be_iter_seek n m e start_key it
      })"

text \<open>What a client loop reads.\<close>

fun be_iter_collect :: "nat \<Rightarrow> clmem \<Rightarrow> bentry \<Rightarrow> beiter \<Rightarrow> kv list option" where
  "be_iter_collect 0 m e it = (if be_iter_end e it then Some [] else None)"
| "be_iter_collect (Suc n) m e it =
     (if be_iter_end e it then Some []
      else do {
        k \<leftarrow> be_iter_key m e it;
        v \<leftarrow> be_iter_value m e it;
        (it', more) \<leftarrow> be_iter_next m e it;
        rest \<leftarrow> be_iter_collect n m e it';
        Some ((k, v) # rest)
      })"

subsection \<open>NoSortIter\<close>

record bniter =
  bn_idx :: nat
  bn_has :: bool
  bn_point :: bool
  bn_citer :: cliter

definition bn_with :: "bentry \<Rightarrow> cliter \<Rightarrow> bniter" where
  "bn_with e ci =
     \<lparr>bn_idx = 0, bn_has = \<not> cl_iter_end ci, bn_point = (\<not> cl_iter_end ci \<and> entries (be_buf e) = 0), bn_citer = ci\<rparr>"

definition bn_without :: bniter where
  "bn_without = \<lparr>bn_idx = 0, bn_has = False, bn_point = False, bn_citer = \<lparr>it_cur = None, it_idx = 0\<rparr>\<rparr>"

definition bn_begin :: "clmem \<Rightarrow> bentry \<Rightarrow> bniter option" where
  "bn_begin m e =
     (if cl_has_setup (be_clevel e)
      then map_option (bn_with e) (cl_iter_begin (cl_fuel m) m (be_clevel e)) else Some bn_without)"

definition bn_from :: "clmem \<Rightarrow> bentry \<Rightarrow> u64 \<Rightarrow> bniter option" where
  "bn_from m e start_key =
     (if cl_has_setup (be_clevel e)
      then map_option (bn_with e) (cl_nosort_iter_from (cl_fuel m) m (be_clevel e) start_key) else Some bn_without)"

definition bn_key :: "clmem \<Rightarrow> bentry \<Rightarrow> bniter \<Rightarrow> u64 option" where
  "bn_key m e it =
     (if bn_point it then cl_iter_key m (be_key e) (bn_citer it) else Some (kv_key (be_buf e) (bn_idx it) (be_key e)))"

definition bn_value :: "clmem \<Rightarrow> bentry \<Rightarrow> bniter \<Rightarrow> u64 option" where
  "bn_value m e it = (if bn_point it then cl_iter_value m (bn_citer it) else Some (kv_value (be_buf e) (bn_idx it)))"

text \<open>The indices are signed.\<close>

definition bn_next :: "clmem \<Rightarrow> bentry \<Rightarrow> bniter \<Rightarrow> (bniter \<times> bool) option" where
  "bn_next m e it =
     (let i = int (bn_idx it); last = int (entries (be_buf e)) - 1; it1 = it\<lparr>bn_idx := bn_idx it + 1\<rparr> in
      if i < last then Some (it1, True)
      else if i = last then if bn_has it then Some (it1\<lparr>bn_point := True\<rparr>, True) else Some (it1, False)
      else if bn_point it then do {
        (ci, more) \<leftarrow> cl_iter_next (cl_fuel m) m (bn_citer it);
        Some (it\<lparr>bn_citer := ci, bn_point := more\<rparr>, more)
      }
      else Some (it, False))"

definition bn_end :: "bentry \<Rightarrow> bniter \<Rightarrow> bool" where
  "bn_end e it \<longleftrightarrow> bn_idx it \<ge> entries (be_buf e) \<and> \<not> bn_point it"

subsection \<open>Iter delivers the pairs in key order\<close>

fun be_merge :: "kv list \<Rightarrow> kv list \<Rightarrow> kv list" where
  "be_merge [] cs = cs"
| "be_merge bs [] = bs"
| "be_merge (b # bs) (c # cs) = (if fst c < fst b then c # be_merge (b # bs) cs else b # be_merge bs (c # cs))"

lemma be_merge_Nil2 [simp]: "be_merge bs [] = bs"
  by (cases bs) simp_all

lemma set_be_merge [simp]: "set (be_merge bs cs) = set bs \<union> set cs"
  by (induction bs cs rule: be_merge.induct) auto

lemma length_be_merge [simp]: "length (be_merge bs cs) = length bs + length cs"
  by (induction bs cs rule: be_merge.induct) auto

lemma keys_sorted_merge:
  "keys_sorted bs \<Longrightarrow> keys_sorted cs \<Longrightarrow> fst ` set bs \<inter> fst ` set cs = {} \<Longrightarrow> keys_sorted (be_merge bs cs)"
proof (induction bs cs rule: be_merge.induct)
  case (3 b bs c cs)
  show ?case
  proof (cases "fst c < fst b")
    case True
    then have "\<forall>x \<in> set (be_merge (b # bs) cs). fst c < fst x" using "3.prems"(1,2) by (auto simp: keys_sorted_Cons)
    moreover have "keys_sorted (be_merge (b # bs) cs)" using "3.IH"(1)[OF True] "3.prems" by (simp add: keys_sorted_Cons)
    ultimately show ?thesis using True by (simp add: keys_sorted_Cons)
  next
    case False
    then have "fst b < fst c" using "3.prems"(3) by (auto simp: not_less order_le_less)
    then have "\<forall>x \<in> set (be_merge bs (c # cs)). fst b < fst x" using "3.prems"(1,2) by (auto simp: keys_sorted_Cons)
    moreover have "keys_sorted (be_merge bs (c # cs))" using "3.IH"(2)[OF False] "3.prems" by (simp add: keys_sorted_Cons)
    ultimately show ?thesis using False by (simp add: keys_sorted_Cons)
  qed
qed simp_all

text \<open>The buffer in key order.\<close>

definition be_sorted :: "bentry \<Rightarrow> kv list" where
  "be_sorted e = map (\<lambda>i. (kv_key (be_buf e) i (be_key e), kv_value (be_buf e) i)) (kv_get_sorted_index (be_buf e))"

lemma be_sorted_items:
  assumes "kv_wf (be_buf e)" "distinct (map fst (kv_items (be_key e) (be_buf e)))"
  shows "keys_sorted (be_sorted e)" "set (be_sorted e) = set (kv_items (be_key e) (be_buf e))"
    "length (kv_get_sorted_index (be_buf e)) = entries (be_buf e)"
proof -
  let ?f = "\<lambda>i. kv_key (be_buf e) i (be_key e)"
  note S = kv_get_sorted_index_eq[OF assms(1), of "be_key e"]
  have m: "map fst (be_sorted e) = map ?f (sort_key ?f [0..<entries (be_buf e)])" by (simp add: be_sorted_def S comp_def)
  have "distinct (map ?f [0..<entries (be_buf e)])" using assms(2) by (simp add: kv_items_def comp_def)
  then have "distinct (map fst (be_sorted e))" unfolding m by (simp add: distinct_map)
  moreover have "sorted (map fst (be_sorted e))" unfolding m by (rule sorted_sort_key)
  ultimately show "keys_sorted (be_sorted e)" by (simp add: keys_sorted_def strict_sorted_iff)
  show "set (be_sorted e) = set (kv_items (be_key e) (be_buf e))" by (simp add: be_sorted_def S kv_items_def)
  show "length (kv_get_sorted_index (be_buf e)) = entries (be_buf e)" by (simp add: S)
qed

text \<open>The position of the iterator: \<open>bs\<close> and \<open>cs\<close> are the pairs of the buffer and of the C-level still to come.\<close>

definition be_iter_pos :: "clmem \<Rightarrow> bentry \<Rightarrow> beiter \<Rightarrow> kv list \<Rightarrow> kv list \<Rightarrow> bool" where
  "be_iter_pos m e it bs cs \<longleftrightarrow> bi_order it = kv_get_sorted_index (be_buf e) \<and> length (kv_get_sorted_index (be_buf e)) = entries (be_buf e) \<and>
     bs = drop (bi_idx it) (be_sorted e) \<and> (bi_has it \<longleftrightarrow> cs \<noteq> []) \<and>
     (cs \<noteq> [] \<longrightarrow> (\<exists>L < cl_fuel m. iter_at (be_key e) (suffix_bytes (be_buf e)) m (bi_citer it) cs L))"

definition be_iter_at :: "clmem \<Rightarrow> bentry \<Rightarrow> beiter \<Rightarrow> kv list \<Rightarrow> kv list \<Rightarrow> bool" where
  "be_iter_at m e it bs cs \<longleftrightarrow> be_iter_pos m e it bs cs \<and>
     (bi_point it \<longleftrightarrow> cs \<noteq> [] \<and> (bs = [] \<or> fst (hd cs) < fst (hd bs)))"

lemma be_pos_buffer:
  assumes "be_iter_pos m e it bs cs"
  shows "entries (be_buf e) \<le> bi_idx it \<longleftrightarrow> bs = []"
    "bs \<noteq> [] \<Longrightarrow> bi_key_at e it (bi_idx it) = Some (fst (hd bs)) \<and> bi_value_at e it (bi_idx it) = Some (snd (hd bs))"
    "bs \<noteq> [] \<Longrightarrow> tl bs = drop (Suc (bi_idx it)) (be_sorted e)"
proof -
  have A: "bi_order it = kv_get_sorted_index (be_buf e)" "length (kv_get_sorted_index (be_buf e)) = entries (be_buf e)" "bs = drop (bi_idx it) (be_sorted e)"
    using assms by (simp_all add: be_iter_pos_def)
  have l: "length (be_sorted e) = entries (be_buf e)" using A(2) by (simp add: be_sorted_def)
  show "entries (be_buf e) \<le> bi_idx it \<longleftrightarrow> bs = []" using A(3) l by simp
  assume ne: "bs \<noteq> []"
  then have i: "bi_idx it < length (be_sorted e)" using A(3) by simp
  then have "hd bs = be_sorted e ! bi_idx it" using A(3) by (simp add: hd_drop_conv_nth)
  then show "bi_key_at e it (bi_idx it) = Some (fst (hd bs)) \<and> bi_value_at e it (bi_idx it) = Some (snd (hd bs))"
    using i A(1) by (simp add: bi_key_at_def bi_value_at_def be_sorted_def)
  show "tl bs = drop (Suc (bi_idx it)) (be_sorted e)" using A(3) by (simp add: drop_Suc tl_drop)
qed

lemma be_turn:
  assumes "be_iter_pos m e it bs cs" "cs \<noteq> []"
  shows "be_iter_turn m e it = Some (bs = [] \<or> fst (hd cs) < fst (hd bs))"
proof -
  obtain L where "iter_at (be_key e) (suffix_bytes (be_buf e)) m (bi_citer it) cs L" using assms by (auto simp: be_iter_pos_def)
  note v = iter_at_values[OF this assms(2)]
  note b = be_pos_buffer[OF assms(1)]
  show ?thesis
  proof (cases "bs = []")
    case True
    then show ?thesis using b(1) by (simp add: be_iter_turn_def)
  next
    case False
    then show ?thesis using b(1) b(2)[OF False] v(1) by (simp add: be_iter_turn_def)
  qed
qed

lemma be_at_values:
  assumes "be_iter_at m e it bs cs" "be_merge bs cs \<noteq> []"
  shows "be_iter_key m e it = Some (fst (hd (be_merge bs cs)))" "be_iter_value m e it = Some (snd (hd (be_merge bs cs)))"
    "\<not> be_iter_end e it"
proof -
  have P: "be_iter_pos m e it bs cs" "bi_point it \<longleftrightarrow> cs \<noteq> [] \<and> (bs = [] \<or> fst (hd cs) < fst (hd bs))"
    using assms(1) by (simp_all add: be_iter_at_def)
  note b = be_pos_buffer[OF P(1)]
  have "be_iter_key m e it = Some (fst (hd (be_merge bs cs))) \<and> be_iter_value m e it = Some (snd (hd (be_merge bs cs))) \<and> \<not> be_iter_end e it"
  proof (cases "bi_point it")
    case True
    then have c: "cs \<noteq> []" "bs = [] \<or> fst (hd cs) < fst (hd bs)" using P(2) by auto
    obtain L where "iter_at (be_key e) (suffix_bytes (be_buf e)) m (bi_citer it) cs L" using P(1) c(1) by (auto simp: be_iter_pos_def)
    note v = iter_at_values[OF this c(1)]
    have "hd (be_merge bs cs) = hd cs" using c by (cases bs; cases cs) auto
    then show ?thesis using True v by (simp add: be_iter_key_def be_iter_value_def be_iter_end_def)
  next
    case False
    then have n: "bs \<noteq> []" using P(2) assms(2) by auto
    have "hd (be_merge bs cs) = hd bs" using False P(2) n by (cases bs; cases cs) auto
    then show ?thesis using False b(1) b(2)[OF n] n by (simp add: be_iter_key_def be_iter_value_def be_iter_end_def)
  qed
  then show "be_iter_key m e it = Some (fst (hd (be_merge bs cs)))" "be_iter_value m e it = Some (snd (hd (be_merge bs cs)))"
    "\<not> be_iter_end e it" by simp_all
qed

lemma be_at_end: "be_iter_at m e it [] [] \<Longrightarrow> be_iter_end e it"
  using be_pos_buffer(1)[of m e it "[]" "[]"] by (auto simp: be_iter_at_def be_iter_end_def)


lemma be_at_next:
  assumes "be_iter_at m e it bs cs" "be_merge bs cs \<noteq> []"
  obtains it' bs' cs' where "be_iter_next m e it = Some (it', be_merge bs' cs' \<noteq> [])" "be_iter_at m e it' bs' cs'"
    "be_merge bs' cs' = tl (be_merge bs cs)"
proof -
  have P: "be_iter_pos m e it bs cs" "bi_point it \<longleftrightarrow> cs \<noteq> [] \<and> (bs = [] \<or> fst (hd cs) < fst (hd bs))"
    using assms(1) by (simp_all add: be_iter_at_def)
  note b = be_pos_buffer[OF P(1)]
  show thesis
  proof (cases "bi_point it")
    case True
    then have c: "cs \<noteq> []" "bs = [] \<or> fst (hd cs) < fst (hd bs)" using P(2) by auto
    obtain L where L: "iter_at (be_key e) (suffix_bytes (be_buf e)) m (bi_citer it) cs L" "L < cl_fuel m"
      using P(1) c(1) by (auto simp: be_iter_pos_def)
    obtain ci where N: "cl_iter_next (cl_fuel m) m (bi_citer it) = Some (ci, tl cs \<noteq> [])"
      "iter_at (be_key e) (suffix_bytes (be_buf e)) m ci (tl cs) L" using iter_at_next[OF L(1) c(1) L(2)] by blast
    have t: "be_merge bs (tl cs) = tl (be_merge bs cs)" using c by (cases bs; cases cs) auto
    show thesis
    proof (cases "tl cs = []")
      case last: True
      let ?it = "it\<lparr>bi_citer := ci, bi_has := False, bi_point := False\<rparr>"
      have "be_iter_next m e it = Some (?it, be_merge bs (tl cs) \<noteq> [])"
        using True N(1) last b(1) by (simp add: be_iter_next_def Let_def not_le[symmetric])
      moreover have "be_iter_at m e ?it bs (tl cs)" using P(1) last by (simp add: be_iter_at_def be_iter_pos_def)
      ultimately show thesis using that t by blast
    next
      case False
      let ?it = "it\<lparr>bi_citer := ci\<rparr>"
      have pos: "be_iter_pos m e ?it bs (tl cs)" using P(1) N(2) L(2) False c(1) by (auto simp: be_iter_pos_def)
      note tn = be_turn[OF pos False]
      have "be_iter_next m e it = Some (?it\<lparr>bi_point := (bs = [] \<or> fst (hd (tl cs)) < fst (hd bs))\<rparr>, be_merge bs (tl cs) \<noteq> [])"
        using True N(1) False tn by (cases "be_merge bs (tl cs)") (auto simp: be_iter_next_def Let_def simp flip: set_empty)
      moreover have "be_iter_at m e (?it\<lparr>bi_point := (bs = [] \<or> fst (hd (tl cs)) < fst (hd bs))\<rparr>) bs (tl cs)"
        using pos False by (simp add: be_iter_at_def be_iter_pos_def)
      ultimately show thesis using that t by blast
    qed
  next
    case False
    then have n: "bs \<noteq> []" using P(2) assms(2) by auto
    have t: "be_merge (tl bs) cs = tl (be_merge bs cs)" using False P(2) n by (cases bs; cases cs) auto
    let ?it = "it\<lparr>bi_idx := bi_idx it + 1\<rparr>"
    have pos: "be_iter_pos m e ?it (tl bs) cs" using P(1) b(3)[OF n] by (simp add: be_iter_pos_def)
    show thesis
    proof (cases "cs = []")
      case True
      then have h: "\<not> bi_has it" using P(1) by (simp add: be_iter_pos_def)
      have "be_iter_next m e it = Some (?it, be_merge (tl bs) cs \<noteq> [])"
        using False h be_pos_buffer(1)[OF pos] True by (simp add: be_iter_next_def Let_def not_le[symmetric])
      moreover have "be_iter_at m e ?it (tl bs) cs" using pos False True by (simp add: be_iter_at_def)
      ultimately show thesis using that t by blast
    next
      case ne: False
      then have h: "bi_has it" using P(1) by (simp add: be_iter_pos_def)
      note tn = be_turn[OF pos ne]
      have mn: "be_merge (tl bs) cs \<noteq> []" using ne by (metis length_0_conv length_be_merge add_is_0)
      have "be_iter_next m e it = Some (?it\<lparr>bi_point := (tl bs = [] \<or> fst (hd cs) < fst (hd (tl bs)))\<rparr>, be_merge (tl bs) cs \<noteq> [])"
        using False h tn mn by (simp add: be_iter_next_def Let_def)
      moreover have "be_iter_at m e (?it\<lparr>bi_point := (tl bs = [] \<or> fst (hd cs) < fst (hd (tl bs)))\<rparr>) (tl bs) cs"
        using pos ne by (simp add: be_iter_at_def be_iter_pos_def)
      ultimately show thesis using that t by blast
    qed
  qed
qed

lemma be_iter_collect_rest:
  "be_iter_at m e it bs cs \<Longrightarrow> length (be_merge bs cs) \<le> n \<Longrightarrow> be_iter_collect n m e it = Some (be_merge bs cs)"
proof (induction n arbitrary: it bs cs)
  case 0
  then have "bs = []" "cs = []" by simp_all
  then show ?case using "0.prems"(1) be_at_end by simp
next
  case (Suc n)
  show ?case
  proof (cases "be_merge bs cs")
    case Nil
    then have "bs = []" "cs = []" by (metis length_be_merge list.size(3) length_0_conv add_is_0)+
    then show ?thesis using Suc.prems(1) be_at_end by simp
  next
    case (Cons x xs)
    then have ne: "be_merge bs cs \<noteq> []" by simp
    obtain it' bs' cs' where N: "be_iter_next m e it = Some (it', be_merge bs' cs' \<noteq> [])" "be_iter_at m e it' bs' cs'"
      "be_merge bs' cs' = tl (be_merge bs cs)" by (rule be_at_next[OF Suc.prems(1) ne])
    have l: "length (be_merge bs' cs') \<le> n" using N(3) Suc.prems(2) Cons by simp
    note IH = Suc.IH[OF N(2) l]
    show ?thesis using be_at_values[OF Suc.prems(1) ne] N(1,3) IH Cons by simp
  qed
qed

lemma be_iter_with_at:
  assumes "kv_wf (be_buf e)" "distinct (map fst (kv_items (be_key e) (be_buf e)))"
    "iter_at (be_key e) (suffix_bytes (be_buf e)) m ci cs L" "L < cl_fuel m"
  obtains it where "be_iter_with m e ci = Some it" "be_iter_at m e it (be_sorted e) cs"
proof -
  let ?it = "\<lparr>bi_idx = 0, bi_has = \<not> cl_iter_end ci, bi_point = False, bi_citer = ci, bi_order = kv_get_sorted_index (be_buf e)\<rparr>"
  have h: "cl_iter_end ci \<longleftrightarrow> cs = []" by (rule iter_at_end[OF assms(3)])
  have pos: "be_iter_pos m e ?it (be_sorted e) cs"
    using assms(3,4) h be_sorted_items(3)[OF assms(1,2)] by (auto simp: be_iter_pos_def)
  show thesis
  proof (cases "cs = []")
    case True
    then have "be_iter_at m e ?it (be_sorted e) cs" using pos by (simp add: be_iter_at_def)
    then show thesis using that True h by (simp add: be_iter_with_def Let_def)
  next
    case False
    note tn = be_turn[OF pos False]
    have "be_iter_at m e (?it\<lparr>bi_point := (be_sorted e = [] \<or> fst (hd cs) < fst (hd (be_sorted e)))\<rparr>) (be_sorted e) cs"
      using pos False by (simp add: be_iter_at_def be_iter_pos_def)
    then show thesis using that False h tn by (simp add: be_iter_with_def Let_def)
  qed
qed

lemma be_iter_without_at:
  assumes "kv_wf (be_buf e)" "distinct (map fst (kv_items (be_key e) (be_buf e)))"
  shows "be_iter_at m e (be_iter_without e) (be_sorted e) []"
  using be_sorted_items(3)[OF assms] by (simp add: be_iter_at_def be_iter_pos_def be_iter_without_def)

lemma be_iter_begin_own:
  assumes "be_own m e d as cs"
  obtains it where "be_iter_begin m e = Some it" "be_iter_at m e it (be_sorted e) cs"
proof -
  have W: "kv_wf (be_buf e)" "distinct (map fst (kv_items (be_key e) (be_buf e)))"
    using assms by (simp_all add: be_own_def be_items_def)
  show thesis
  proof (cases "cl_has_setup (be_clevel e)")
    case True
    then obtain t where t: "cl_tree (be_key e) (suffix_bytes (be_buf e)) m d t" "be_clevel e = six_bytes (ct_addr t)" "ct_flat t = cs"
      using assms by (auto simp: be_own_def cl_own_def)
    from cl_iter_begin_tree[OF t(1) tree_fuel[OF t(1)]] obtain ci where C:
      "cl_iter_begin (cl_fuel m) m (be_clevel e) = Some ci" "iter_at (be_key e) (suffix_bytes (be_buf e)) m ci cs (cl_leaf_count t)"
      using t by auto
    obtain it where "be_iter_with m e ci = Some it" "be_iter_at m e it (be_sorted e) cs"
      by (rule be_iter_with_at[OF W C(2) tree_fuel(2)[OF t(1)]])
    then show thesis using that True C(1) by (simp add: be_iter_begin_def)
  next
    case False
    then have "cs = []" using assms by (simp add: be_own_def)
    then show thesis using that be_iter_without_at[OF W] False by (simp add: be_iter_begin_def)
  qed
qed

lemma be_own_sorted:
  assumes "be_own m e d as cs"
  shows "keys_sorted (be_merge (be_sorted e) cs)" "set (be_merge (be_sorted e) cs) = set (be_items e cs)"
proof -
  have W: "kv_wf (be_buf e)" "distinct (map fst (be_items e cs))" using assms by (simp_all add: be_own_def)
  then have D: "distinct (map fst (kv_items (be_key e) (be_buf e)))" by (simp add: be_items_def)
  note B = be_sorted_items[OF W(1) D]
  have c: "keys_sorted cs"
  proof (cases "cl_has_setup (be_clevel e)")
    case True
    then show ?thesis using assms by (auto simp: be_own_def dest: cl_own_sorted)
  next
    case False
    then show ?thesis using assms by (simp add: be_own_def keys_sorted_def)
  qed
  have "fst ` set (be_sorted e) \<inter> fst ` set cs = {}" using W(2) B(2) by (simp add: be_items_def)
  then show "keys_sorted (be_merge (be_sorted e) cs)" by (rule keys_sorted_merge[OF B(1) c])
  show "set (be_merge (be_sorted e) cs) = set (be_items e cs)" using B(2) by (simp add: be_items_def)
qed


lemma be_seek_at:
  assumes "be_iter_at m e it bs cs" "be_merge bs cs \<noteq> []" "length (be_merge bs cs) \<le> n"
  shows "\<exists>it' bs' cs'. be_iter_seek n m e start it = Some it' \<and> be_iter_at m e it' bs' cs' \<and>
    be_merge bs' cs' = dropWhile (\<lambda>x. fst x < start) (be_merge bs cs)"
  using assms
proof (induction n arbitrary: it bs cs)
  case (Suc n)
  note v = be_at_values[OF Suc.prems(1,2)]
  obtain x xs where x: "be_merge bs cs = x # xs" using Suc.prems(2) by (cases "be_merge bs cs") auto
  show ?case
  proof (cases "start \<le> fst x")
    case True
    then show ?thesis using v(1) x Suc.prems(1) by (intro exI[of _ it] exI[of _ bs] exI[of _ cs]) simp
  next
    case False
    obtain it' bs' cs' where N: "be_iter_next m e it = Some (it', be_merge bs' cs' \<noteq> [])" "be_iter_at m e it' bs' cs'"
      "be_merge bs' cs' = tl (be_merge bs cs)" by (rule be_at_next[OF Suc.prems(1,2)])
    have m: "be_merge bs' cs' = xs" using N(3) x by simp
    show ?thesis
    proof (cases "xs = []")
      case True
      then show ?thesis using v(1) x N(1,2) m False by (intro exI[of _ it'] exI[of _ bs'] exI[of _ cs']) simp
    next
      case ne: False
      have "be_merge bs' cs' \<noteq> []" "length (be_merge bs' cs') \<le> n" using ne m Suc.prems(3) x by simp_all
      from Suc.IH[OF N(2) this] obtain it2 bs2 cs2 where R: "be_iter_seek n m e start it' = Some it2" "be_iter_at m e it2 bs2 cs2"
        "be_merge bs2 cs2 = dropWhile (\<lambda>x. fst x < start) (be_merge bs' cs')" by (elim exE conjE) (rule that)
      have "be_iter_seek (Suc n) m e start it = Some it2" using v(1) x N(1) m False ne R(1) by simp
      moreover have "be_merge bs2 cs2 = dropWhile (\<lambda>x. fst x < start) (be_merge bs cs)" using R(3) m x False by simp
      ultimately show ?thesis using R(2) by blast
    qed
  qed
qed simp

lemma keys_sorted_filter: "keys_sorted xs \<Longrightarrow> keys_sorted (filter P xs)"
  by (induction xs) (auto simp: keys_sorted_Cons)

lemma be_iter_from_own:
  assumes "be_own m e d as cs" "be_fits e start" "\<forall>x \<in> set (be_items e cs). be_key e \<le> fst x"
    "entries (be_buf e) \<noteq> 0 \<or> (\<exists>x \<in> set cs. start \<le> fst x)" "length (be_items e cs) \<le> n"
  obtains it bs cs' where "be_iter_from n m e start = Some it" "be_iter_at m e it bs cs'" "keys_sorted (be_merge bs cs')"
    "set (be_merge bs cs') = {x \<in> set (be_items e cs). start \<le> fst x}" "length (be_merge bs cs') \<le> length (be_items e cs)"
proof -
  have W: "kv_wf (be_buf e)" "distinct (map fst (kv_items (be_key e) (be_buf e)))"
    using assms(1) by (simp_all add: be_own_def be_items_def)
  note B = be_sorted_items[OF W] and O = be_own_sorted[OF assms(1)]
  have lb: "length (be_sorted e) = entries (be_buf e)" using B(3) by (simp add: be_sorted_def)
  have li: "length (be_items e cs) = entries (be_buf e) + length cs" by (simp add: be_items_def kv_items_def)
  show thesis
  proof (cases "start \<le> be_key e")
    case True
    obtain it where "be_iter_begin m e = Some it" "be_iter_at m e it (be_sorted e) cs" by (rule be_iter_begin_own[OF assms(1)])
    moreover have "set (be_merge (be_sorted e) cs) = {x \<in> set (be_items e cs). start \<le> fst x}"
      unfolding O(2) using assms(3) True by (auto intro: order_trans)
    ultimately show thesis using that[of it "be_sorted e" cs] O(1) True lb li by (simp add: be_iter_from_def)
  next
    case False
    let ?cs = "filter (\<lambda>x. start \<le> fst x) cs"
    obtain it where I: "(if cl_has_setup (be_clevel e) then do {
          ci \<leftarrow> cl_iter_from (cl_fuel m) m (be_clevel e) (be_key e) start; be_iter_with m e ci } else Some (be_iter_without e)) = Some it"
      "be_iter_at m e it (be_sorted e) ?cs"
    proof (cases "cl_has_setup (be_clevel e)")
      case True
      then obtain t where t: "cl_tree (be_key e) (suffix_bytes (be_buf e)) m d t" "be_clevel e = six_bytes (ct_addr t)" "ct_flat t = cs"
        using assms(1) by (auto simp: be_own_def cl_own_def)
      have "\<forall>x \<in> set (ct_flat t). be_key e \<le> fst x" using assms(3) t(3) by (simp add: be_items_def)
      from cl_iter_from_tree[OF t(1) tree_fuel[OF t(1)] be_fits_suffix[OF assms(1,2)] this] obtain ci where C:
        "cl_iter_from (cl_fuel m) m (be_clevel e) (be_key e) start = Some ci"
        "iter_at (be_key e) (suffix_bytes (be_buf e)) m ci ?cs (cl_leaf_count t)" using t by auto
      obtain it where "be_iter_with m e ci = Some it" "be_iter_at m e it (be_sorted e) ?cs"
        by (rule be_iter_with_at[OF W C(2) tree_fuel(2)[OF t(1)]])
      then show thesis using that True C(1) by simp
    next
      case no: False
      then have "cs = []" using assms(1) by (simp add: be_own_def)
      then show thesis using that be_iter_without_at[OF W] no by simp
    qed
    have ne: "be_merge (be_sorted e) ?cs \<noteq> []"
    proof
      assume "be_merge (be_sorted e) ?cs = []"
      then have "length (be_merge (be_sorted e) ?cs) = 0" by (simp only: list.size(3))
      then show False using assms(4) lb by (auto simp: filter_empty_conv)
    qed
    have len: "length (be_merge (be_sorted e) ?cs) \<le> n" using assms(5) lb li length_filter_le[of "\<lambda>x. start \<le> fst x" cs] unfolding length_be_merge by linarith
    obtain it' bs' cs' where S: "be_iter_seek n m e start it = Some it'" "be_iter_at m e it' bs' cs'"
      "be_merge bs' cs' = dropWhile (\<lambda>x. fst x < start) (be_merge (be_sorted e) ?cs)" using be_seek_at[OF I(2) ne len] by blast
    have cs: "keys_sorted ?cs" "fst ` set (be_sorted e) \<inter> fst ` set ?cs = {}"
    proof -
      have "keys_sorted cs"
      proof (cases "cl_has_setup (be_clevel e)")
        case True
        then show ?thesis using assms(1) by (auto simp: be_own_def dest: cl_own_sorted)
      next
        case no: False
        then show ?thesis using assms(1) by (simp add: be_own_def keys_sorted_def)
      qed
      then show "keys_sorted ?cs" by (rule keys_sorted_filter)
      have "fst ` set (be_sorted e) \<inter> fst ` set cs = {}" using assms(1) B(2) by (simp add: be_own_def be_items_def)
      then show "fst ` set (be_sorted e) \<inter> fst ` set ?cs = {}" by auto
    qed
    have M: "keys_sorted (be_merge (be_sorted e) ?cs)" by (rule keys_sorted_merge[OF B(1) cs])
    have eq: "be_merge bs' cs' = filter (\<lambda>x. start \<le> fst x) (be_merge (be_sorted e) ?cs)" using S(3) dropWhile_sorted[OF M] by simp
    have F: "be_iter_from n m e start = Some it'" using False I(1) S(1) by (simp add: be_iter_from_def)
    have srt: "keys_sorted (be_merge bs' cs')" unfolding eq by (rule keys_sorted_filter[OF M])
    have st: "set (be_merge bs' cs') = {x \<in> set (be_items e cs). start \<le> fst x}" unfolding eq using B(2) by (auto simp: be_items_def)
    have "length (be_merge bs' cs') \<le> length (be_merge (be_sorted e) ?cs)" unfolding eq by (rule length_filter_le)
    also have "\<dots> \<le> length (be_items e cs)" using lb li by simp
    finally show thesis by (rule that[OF F S(2) srt st])
  qed
qed


end
