(* ===== verification/BLevelLocks.thy ===== *)
theory BLevelLocks
  imports BLevelIter
begin

text \<open>
  The locks of the B-level: \<^verbatim>\<open>src/blevel.h\<close>, lines 89 to 195 and 519 to 587, and the section of
  \<^verbatim>\<open>ExpandRange_\<close> (\<^verbatim>\<open>src/blevel.cc\<close>, line 404) that moves an old entry.  Any number of threads searches without a
  lock, then locks the entry that was found, tests \<^verbatim>\<open>IsValid\<close>, works on the entry, adds to two atomic
  counters and unlocks.  \<^verbatim>\<open>Get_\<close> and the iterators lock shared.  \<open>bc_step\<close> interleaves the threads at these
  points; a thread keeps the entry it has read in its control point, so that only the lock makes
  the later work on it right.  The accesses to the tree of the entry, which no other entry shares
  (\<open>nb_own\<close>), are one step.

  Proved: a lock is held by one writer or by readers, a thread gives back only what it holds, and no thread
  waits for a lock whose holder waits.
\<close>

subsection \<open>\<^verbatim>\<open>std::shared_mutex\<close>\<close>

text \<open>\<open>None\<close>: the caller blocks, or unlocks what it does not hold.\<close>

record shared_mutex =
  mx_owner :: "nat option"
  mx_sharers :: "nat set"

definition mx_free :: shared_mutex where
  "mx_free = \<lparr>mx_owner = None, mx_sharers = {}\<rparr>"

definition mx_lock :: "nat \<Rightarrow> shared_mutex \<Rightarrow> shared_mutex option" where
  "mx_lock t l = (if mx_owner l = None \<and> mx_sharers l = {} then Some (l\<lparr>mx_owner := Some t\<rparr>) else None)"

definition mx_lock_shared :: "nat \<Rightarrow> shared_mutex \<Rightarrow> shared_mutex option" where
  "mx_lock_shared t l = (if mx_owner l = None then Some (l\<lparr>mx_sharers := insert t (mx_sharers l)\<rparr>) else None)"

definition mx_unlock :: "nat \<Rightarrow> shared_mutex \<Rightarrow> shared_mutex option" where
  "mx_unlock t l = (if mx_owner l = Some t then Some (l\<lparr>mx_owner := None\<rparr>) else None)"

definition mx_unlock_shared :: "nat \<Rightarrow> shared_mutex \<Rightarrow> shared_mutex option" where
  "mx_unlock_shared t l = (if t \<in> mx_sharers l then Some (l\<lparr>mx_sharers := mx_sharers l - {t}\<rparr>) else None)"

subsection \<open>Calls\<close>

text \<open>\<open>CallMove\<close> is the section that moves an entry to the next B-level.\<close>

datatype bl_call = CallPut u64 u64 | CallUpdate u64 u64 | CallGet u64 | CallDelete u64 | CallMove

datatype bl_answer = AnsStatus status | AnsBool bool | AnsGet "u64 option" | AnsDelete bool "u64 option" | AnsMoved "kv list"

fun call_key :: "bl_call \<Rightarrow> u64 option" where
  "call_key (CallPut k v) = Some k"
| "call_key (CallUpdate k v) = Some k"
| "call_key (CallGet k) = Some k"
| "call_key (CallDelete k) = Some k"
| "call_key CallMove = None"

fun reads_only :: "bl_call \<Rightarrow> bool" where
  "reads_only (CallGet k) = True"
| "reads_only _ = False"

fun refused :: "bl_call \<Rightarrow> bl_answer" where
  "refused (CallPut k v) = AnsStatus Failed"
| "refused (CallUpdate k v) = AnsBool False"
| "refused (CallGet k) = AnsGet None"
| "refused (CallDelete k) = AnsDelete False None"
| "refused CallMove = AnsMoved []"

text \<open>The test of \<^verbatim>\<open>IsValid\<close>, which the expansion does not make.\<close>

definition turned_away :: "bl_call \<Rightarrow> nobuf_entry \<Rightarrow> bool" where
  "turned_away c e \<longleftrightarrow> c \<noteq> CallMove \<and> \<not> nb_is_valid e"

text \<open>The pairs of an old entry, read by a \<^verbatim>\<open>do\<close> loop.\<close>

fun old_pairs :: "nat \<Rightarrow> clmem \<Rightarrow> nobuf_entry \<Rightarrow> nbiter \<Rightarrow> kv list option" where
  "old_pairs 0 m e it = None"
| "old_pairs (Suc n) m e it =
     do {
       k \<leftarrow> nb_iter_key m e it;
       v \<leftarrow> nb_iter_value m it;
       (it1, more) \<leftarrow> nb_iter_next m it;
       rest \<leftarrow> (if more then old_pairs n m e it1 else Some []);
       Some ((k, v) # rest)
     }"

text \<open>The work on a valid entry \<open>e\<close> read from slot \<open>i\<close>, without the counters, and what is to be added to these.\<close>

fun bl_work :: "blevel \<Rightarrow> nat \<Rightarrow> nobuf_entry \<Rightarrow> bl_call \<Rightarrow> (blevel \<times> bl_answer \<times> u64) option" where
  "bl_work b i e (CallPut k v) =
     do { (m1, e1, ret) \<leftarrow> nb_put (bl_mem b) e k v; Some (bl_set_entry (b\<lparr>bl_mem := m1\<rparr>) i e1, AnsStatus ret, 1) }"
| "bl_work b i e (CallUpdate k v) =
     do { (m1, ret) \<leftarrow> nb_update (bl_mem b) e k v; Some (b\<lparr>bl_mem := m1\<rparr>, AnsBool ret, 0) }"
| "bl_work b i e (CallGet k) = do { r \<leftarrow> nb_get (bl_mem b) e k; Some (b, AnsGet r, 0) }"
| "bl_work b i e (CallDelete k) =
     do { (m1, _, val) \<leftarrow> nb_delete (bl_mem b) e k; Some (b\<lparr>bl_mem := m1\<rparr>, AnsDelete True val, - 1) }"
| "bl_work b i e CallMove =
     do {
       xs \<leftarrow> (if cl_has_setup (nb_clevel e) then do {
                it \<leftarrow> nb_iter_begin (bl_mem b) e; old_pairs (entry_fuel (bl_mem b)) (bl_mem b) e it
              } else Some []);
       Some (bl_set_entry b i (nb_set_invalid e), AnsMoved xs, 0)
     }"

subsection \<open>Threads\<close>

text \<open>The control points of a call, and of an iterator: \<open>ScanWait\<close> holds no lock, \<open>ScanIn\<close> has locked the entry,
  \<open>ScanAt\<close> has the iterator of the entry.  The start key is that of the constructor, for its loop.\<close>

datatype bl_pc =
    Idle
  | WaitLock bl_call nat "nat \<times> nat"
  | Inside bl_call nat "nat \<times> nat"
  | Loaded bl_call nat "nat \<times> nat" nobuf_entry
  | AddSize bl_call nat "nat \<times> nat" u64
  | AddInterval bl_call nat "nat \<times> nat" u64
  | Leaving bl_call nat
  | ScanWait bliter "u64 option"
  | ScanIn bliter "u64 option"
  | ScanAt bliter "u64 option"

record bl_event =
  ev_call :: bl_call
  ev_slot :: nat
  ev_interval :: "nat \<times> nat"
  ev_answer :: bl_answer

text \<open>The log of the answers, in the order of the work steps, is a ghost.\<close>

record bl_conc =
  bc_level :: blevel
  bc_locks :: "nat \<Rightarrow> shared_mutex"
  bc_pc :: "nat \<Rightarrow> bl_pc"
  bc_threads :: nat
  bc_log :: "bl_event list"

definition bc_new :: "nat \<Rightarrow> blevel \<Rightarrow> bl_conc" where
  "bc_new n b = \<lparr>bc_level = b, bc_locks = (\<lambda>i. mx_free), bc_pc = (\<lambda>t. Idle), bc_threads = n, bc_log = []\<rparr>"

definition bc_go :: "bl_conc \<Rightarrow> nat \<Rightarrow> bl_pc \<Rightarrow> bl_conc" where
  "bc_go s t p = s\<lparr>bc_pc := (bc_pc s)(t := p)\<rparr>"

definition bc_set_lock :: "bl_conc \<Rightarrow> nat \<Rightarrow> shared_mutex \<Rightarrow> bl_conc" where
  "bc_set_lock s i l = s\<lparr>bc_locks := (bc_locks s)(i := l)\<rparr>"

text \<open>The search of a call, before it locks: from a predicted position, or in a window.  The expansion goes
  through the entries of all ranges.\<close>

definition bl_found :: "blevel \<Rightarrow> bl_call \<Rightarrow> nat \<Rightarrow> nat \<times> nat \<Rightarrow> bool" where
  "bl_found b c i iv \<longleftrightarrow> (case call_key c of
       None \<Rightarrow> i \<in> set (bl_slots b)
     | Some k \<Rightarrow> (\<exists>pos. bl_find_near b k pos = Some (int i, iv)) \<or>
                 (\<exists>lo hi. window_ok b k lo hi \<and> bl_find b k lo hi = Some (int i, iv)))"

definition mx_enter :: "bl_call \<Rightarrow> nat \<Rightarrow> shared_mutex \<Rightarrow> shared_mutex option" where
  "mx_enter c t l = (if reads_only c then mx_lock_shared t l else mx_lock t l)"

definition mx_leave :: "bl_call \<Rightarrow> nat \<Rightarrow> shared_mutex \<Rightarrow> shared_mutex option" where
  "mx_leave c t l = (if reads_only c then mx_unlock_shared t l else mx_unlock t l)"

text \<open>Where the two constructors of the iterator begin.\<close>

definition scan_first :: "blevel \<Rightarrow> bliter" where
  "scan_first b = \<lparr>bi_iter = nb_iter_none, bi_idx = 0, bi_end = range_entries (bl_ranges b ! 0), bi_range = 0\<rparr>"

definition scan_seek :: "blevel \<Rightarrow> u64 \<Rightarrow> nat \<Rightarrow> nat \<Rightarrow> bliter option" where
  "scan_seek b start begin_idx end_idx =
     do {
       r \<leftarrow> find_brange_by_key b start;
       let (lo, hi) = find_window b r begin_idx end_idx;
       if 0 \<le> lo \<and> 0 \<le> hi \<and> hi < int (physical_nr b)
       then Some \<lparr>bi_iter = nb_iter_none, bi_idx = nat (bsearch_le (bl_phys_key b) start lo hi),
                  bi_end = physical_start (bl_ranges b ! r) + range_entries (bl_ranges b ! r), bi_range = r\<rparr>
       else None
     }"

definition scan_open :: "clmem \<Rightarrow> nobuf_entry \<Rightarrow> u64 option \<Rightarrow> nbiter option" where
  "scan_open m e start = (case start of None \<Rightarrow> nb_iter_begin m e | Some k \<Rightarrow> nb_iter_from (entry_fuel m) m e k)"

text \<open>The steps of thread \<open>t\<close>.\<close>

inductive bc_step :: "nat \<Rightarrow> bl_conc \<Rightarrow> bl_conc \<Rightarrow> bool" for t where
  search: "bc_pc s t = Idle \<Longrightarrow> bl_found (bc_level s) c i iv \<Longrightarrow> bc_step t s (bc_go s t (WaitLock c i iv))"
| enter: "bc_pc s t = WaitLock c i iv \<Longrightarrow> mx_enter c t (bc_locks s i) = Some l \<Longrightarrow>
    bc_step t s (bc_go (bc_set_lock s i l) t (Inside c i iv))"
| refuse: "bc_pc s t = Inside c i iv \<Longrightarrow> bl_entry (bc_level s) i = Some e \<Longrightarrow> turned_away c e \<Longrightarrow>
    bc_step t s (bc_go (s\<lparr>bc_log := bc_log s @ [\<lparr>ev_call = c, ev_slot = i, ev_interval = iv, ev_answer = refused c\<rparr>]\<rparr>)
      t (Leaving c i))"
| load: "bc_pc s t = Inside c i iv \<Longrightarrow> bl_entry (bc_level s) i = Some e \<Longrightarrow> \<not> turned_away c e \<Longrightarrow>
    bc_step t s (bc_go s t (Loaded c i iv e))"
| work: "bc_pc s t = Loaded c i iv e \<Longrightarrow> bl_work (bc_level s) i e c = Some (b, a, d) \<Longrightarrow>
    bc_step t s (bc_go (s\<lparr>bc_level := b,
        bc_log := bc_log s @ [\<lparr>ev_call = c, ev_slot = i, ev_interval = iv, ev_answer = a\<rparr>]\<rparr>)
      t (if d = 0 then Leaving c i else AddSize c i iv d))"
| add_size: "bc_pc s t = AddSize c i iv d \<Longrightarrow>
    bc_step t s (bc_go (s\<lparr>bc_level := (bc_level s)\<lparr>bl_size := bl_size (bc_level s) + d\<rparr>\<rparr>) t (AddInterval c i iv d))"
| add_interval: "bc_pc s t = AddInterval c i iv d \<Longrightarrow> add_interval (bc_level s) iv d = Some b \<Longrightarrow>
    bc_step t s (bc_go (s\<lparr>bc_level := b\<rparr>) t (Leaving c i))"
| leave: "bc_pc s t = Leaving c i \<Longrightarrow> mx_leave c t (bc_locks s i) = Some l \<Longrightarrow>
    bc_step t s (bc_go (bc_set_lock s i l) t Idle)"
| scan_all: "bc_pc s t = Idle \<Longrightarrow> bc_step t s (bc_go s t (ScanWait (scan_first (bc_level s)) None))"
| scan_from: "bc_pc s t = Idle \<Longrightarrow> scan_seek (bc_level s) k lo hi = Some it \<Longrightarrow>
    bc_step t s (bc_go s t (ScanWait it (Some k)))"
| scan_enter: "bc_pc s t = ScanWait it k \<Longrightarrow> mx_lock_shared t (bc_locks s (bi_idx it)) = Some l \<Longrightarrow>
    bc_step t s (bc_go (bc_set_lock s (bi_idx it) l) t (ScanIn it k))"
| scan_open: "bc_pc s t = ScanIn it k \<Longrightarrow> bl_entry (bc_level s) (bi_idx it) = Some e \<Longrightarrow>
    scan_open (bl_mem (bc_level s)) e k = Some ei \<Longrightarrow> bc_step t s (bc_go s t (ScanAt (it\<lparr>bi_iter := ei\<rparr>) k))"
| scan_next: "bc_pc s t = ScanAt it k \<Longrightarrow> \<not> nb_iter_end (bi_iter it) \<Longrightarrow>
    nb_iter_next (bl_mem (bc_level s)) (bi_iter it) = Some (ei, again) \<Longrightarrow>
    bc_step t s (bc_go s t (ScanAt (it\<lparr>bi_iter := ei\<rparr>) None))"
| scan_over: "bc_pc s t = ScanAt it k \<Longrightarrow> nb_iter_end (bi_iter it) \<Longrightarrow> next_index (bc_level s) it = (it1, again) \<Longrightarrow>
    mx_unlock_shared t (bc_locks s (bi_idx it)) = Some l \<Longrightarrow>
    bc_step t s (bc_go (bc_set_lock s (bi_idx it) l) t (if again then ScanWait it1 k else Idle))"
| scan_destroy: "bc_pc s t = ScanAt it k \<Longrightarrow> \<not> nb_iter_end (bi_iter it) \<Longrightarrow>
    mx_unlock_shared t (bc_locks s (bi_idx it)) = Some l \<Longrightarrow> bc_step t s (bc_go (bc_set_lock s (bi_idx it) l) t Idle)"

inductive_cases bc_stepE: "bc_step t s s'"

inductive bc_steps :: "bl_conc \<Rightarrow> bl_conc \<Rightarrow> bool" where
  start: "bc_steps s s"
| step: "bc_steps s s1 \<Longrightarrow> t < bc_threads s1 \<Longrightarrow> bc_step t s1 s2 \<Longrightarrow> bc_steps s s2"


subsection \<open>Who holds a lock\<close>

fun owns :: "bl_pc \<Rightarrow> nat option" where
  "owns (Inside c i iv) = (if reads_only c then None else Some i)"
| "owns (Loaded c i iv e) = (if reads_only c then None else Some i)"
| "owns (AddSize c i iv d) = (if reads_only c then None else Some i)"
| "owns (AddInterval c i iv d) = (if reads_only c then None else Some i)"
| "owns (Leaving c i) = (if reads_only c then None else Some i)"
| "owns _ = None"

fun shares :: "bl_pc \<Rightarrow> nat option" where
  "shares (Inside c i iv) = (if reads_only c then Some i else None)"
| "shares (Loaded c i iv e) = (if reads_only c then Some i else None)"
| "shares (AddSize c i iv d) = (if reads_only c then Some i else None)"
| "shares (AddInterval c i iv d) = (if reads_only c then Some i else None)"
| "shares (Leaving c i) = (if reads_only c then Some i else None)"
| "shares (ScanIn it k) = Some (bi_idx it)"
| "shares (ScanAt it k) = Some (bi_idx it)"
| "shares _ = None"

definition locks_ok :: "bl_conc \<Rightarrow> bool" where
  "locks_ok s \<longleftrightarrow> (\<forall>i t. (mx_owner (bc_locks s i) = Some t \<longleftrightarrow> owns (bc_pc s t) = Some i) \<and>
     (t \<in> mx_sharers (bc_locks s i) \<longleftrightarrow> shares (bc_pc s t) = Some i)) \<and>
     (\<forall>i. mx_owner (bc_locks s i) = None \<or> mx_sharers (bc_locks s i) = {})"

lemma locks_okD:
  assumes "locks_ok s"
  shows "mx_owner (bc_locks s i) = Some t \<longleftrightarrow> owns (bc_pc s t) = Some i"
    "t \<in> mx_sharers (bc_locks s i) \<longleftrightarrow> shares (bc_pc s t) = Some i"
    "mx_owner (bc_locks s i) = None \<or> mx_sharers (bc_locks s i) = {}"
  using assms by (simp_all add: locks_ok_def)

lemma bc_sel [simp]:
  "bc_pc (bc_go s t p) = (bc_pc s)(t := p)" "bc_locks (bc_go s t p) = bc_locks s" "bc_level (bc_go s t p) = bc_level s"
  "bc_log (bc_go s t p) = bc_log s" "bc_threads (bc_go s t p) = bc_threads s"
  "bc_pc (bc_set_lock s i l) = bc_pc s" "bc_locks (bc_set_lock s i l) = (bc_locks s)(i := l)"
  "bc_level (bc_set_lock s i l) = bc_level s" "bc_log (bc_set_lock s i l) = bc_log s"
  "bc_threads (bc_set_lock s i l) = bc_threads s"
  by (simp_all add: bc_go_def bc_set_lock_def)

text \<open>A step that keeps what its thread holds, one that takes a lock, one that gives it back.\<close>

lemma locks_ok_stay:
  assumes "locks_ok s" "bc_locks s' = bc_locks s" "bc_pc s' = (bc_pc s)(t := p)" "owns p = owns (bc_pc s t)"
    "shares p = shares (bc_pc s t)"
  shows "locks_ok s'"
  using assms by (simp add: locks_ok_def)

lemma locks_ok_own:
  assumes "locks_ok s" "owns (bc_pc s t) = None" "shares (bc_pc s t) = None" "owns p = Some i" "shares p = None"
    "mx_lock t (bc_locks s i) = Some l"
  shows "locks_ok (bc_go (bc_set_lock s i l) t p)"
proof -
  have f: "mx_owner (bc_locks s i) = None" "mx_sharers (bc_locks s i) = {}" "l = (bc_locks s i)\<lparr>mx_owner := Some t\<rparr>"
    using assms(6) by (auto simp: mx_lock_def split: if_splits)
  then have n: "owns (bc_pc s u) \<noteq> Some i" "shares (bc_pc s u) \<noteq> Some i" for u
    using locks_okD(1)[OF assms(1), of i u] locks_okD(2)[OF assms(1), of u i] by auto
  then show ?thesis using assms f locks_okD[OF assms(1)] by (auto simp: locks_ok_def)
qed

lemma locks_ok_share:
  assumes "locks_ok s" "owns (bc_pc s t) = None" "shares (bc_pc s t) = None" "owns p = None" "shares p = Some i"
    "mx_lock_shared t (bc_locks s i) = Some l"
  shows "locks_ok (bc_go (bc_set_lock s i l) t p)"
proof -
  have f: "mx_owner (bc_locks s i) = None" "l = (bc_locks s i)\<lparr>mx_sharers := insert t (mx_sharers (bc_locks s i))\<rparr>"
    using assms(6) by (auto simp: mx_lock_shared_def split: if_splits)
  then have n: "owns (bc_pc s u) \<noteq> Some i" for u using locks_okD(1)[OF assms(1), of i u] by auto
  then show ?thesis using assms f locks_okD[OF assms(1)] by (auto simp: locks_ok_def)
qed

lemma locks_ok_disown:
  assumes "locks_ok s" "owns (bc_pc s t) = Some i" "shares (bc_pc s t) = None" "owns p = None" "shares p = None"
    "mx_unlock t (bc_locks s i) = Some l"
  shows "locks_ok (bc_go (bc_set_lock s i l) t p)"
proof -
  have f: "mx_owner (bc_locks s i) = Some t" "l = (bc_locks s i)\<lparr>mx_owner := None\<rparr>"
    using assms(6) by (auto simp: mx_unlock_def split: if_splits)
  then have n: "u \<noteq> t \<Longrightarrow> owns (bc_pc s u) \<noteq> Some i" for u using locks_okD(1)[OF assms(1), of i u] by auto
  then show ?thesis using assms f locks_okD[OF assms(1)] by (auto simp: locks_ok_def)
qed

lemma locks_ok_unshare:
  assumes "locks_ok s" "shares (bc_pc s t) = Some i" "owns (bc_pc s t) = None" "owns p = None" "shares p = None"
    "mx_unlock_shared t (bc_locks s i) = Some l"
  shows "locks_ok (bc_go (bc_set_lock s i l) t p)"
proof -
  have f: "l = (bc_locks s i)\<lparr>mx_sharers := mx_sharers (bc_locks s i) - {t}\<rparr>"
    using assms(6) by (auto simp: mx_unlock_shared_def split: if_splits)
  moreover have "owns (bc_pc s u) \<noteq> Some i" for u
    using locks_okD(1)[OF assms(1), of i u] locks_okD(2)[OF assms(1), of t i] locks_okD(3)[OF assms(1), of i] assms(2) by auto
  ultimately show ?thesis using assms locks_okD[OF assms(1)] by (auto simp: locks_ok_def)
qed

lemma locks_ok_step:
  assumes "bc_step t s s'" "locks_ok s"
  shows "locks_ok s'"
  using assms(1)
proof (cases rule: bc_step.cases)
  case (enter c i iv l)
  then show ?thesis using locks_ok_share[OF assms(2), of t "Inside c i iv" i l] locks_ok_own[OF assms(2), of t "Inside c i iv" i l]
    by (auto simp: mx_enter_def split: if_splits)
next
  case (leave c i l)
  then show ?thesis using locks_ok_unshare[OF assms(2), of t i Idle l] locks_ok_disown[OF assms(2), of t i Idle l]
    by (auto simp: mx_leave_def split: if_splits)
next
  case (scan_enter it k l)
  then show ?thesis using locks_ok_share[OF assms(2), of t "ScanIn it k" "bi_idx it" l] by simp
next
  case (scan_over it k it1 again l)
  then show ?thesis using locks_ok_unshare[OF assms(2), of t "bi_idx it" _ l] by simp
next
  case (scan_destroy it k l)
  then show ?thesis using locks_ok_unshare[OF assms(2), of t "bi_idx it" Idle l] by simp
qed (auto intro!: locks_ok_stay[OF assms(2), of _ t])

lemma locks_ok_new: "locks_ok (bc_new n b)"
  by (simp add: locks_ok_def bc_new_def mx_free_def)

lemma locks_ok_steps: "bc_steps s s' \<Longrightarrow> locks_ok s \<Longrightarrow> locks_ok s'"
  by (induction rule: bc_steps.induct) (auto intro: locks_ok_step)

lemma locks_exclusive:
  assumes "locks_ok s" "owns (bc_pc s t) = Some i" "u \<noteq> t"
  shows "owns (bc_pc s u) \<noteq> Some i" "shares (bc_pc s u) \<noteq> Some i"
proof -
  have o: "mx_owner (bc_locks s i) = Some t" using locks_okD(1)[OF assms(1)] assms(2) by simp
  then show "owns (bc_pc s u) \<noteq> Some i" using locks_okD(1)[OF assms(1), of i u] assms(3) by auto
  have "mx_sharers (bc_locks s i) = {}" using locks_okD(3)[OF assms(1), of i] o by simp
  then show "shares (bc_pc s u) \<noteq> Some i" using locks_okD(2)[OF assms(1), of u i] by auto
qed

subsection \<open>No deadlock\<close>

definition blocked :: "bl_conc \<Rightarrow> nat \<Rightarrow> bool" where
  "blocked s t \<longleftrightarrow> (case bc_pc s t of
       WaitLock c i iv \<Rightarrow> mx_enter c t (bc_locks s i) = None
     | ScanWait it k \<Rightarrow> mx_lock_shared t (bc_locks s (bi_idx it)) = None
     | _ \<Rightarrow> False)"

lemma lock_taken:
  "mx_enter c t l = None \<Longrightarrow> mx_owner l \<noteq> None \<or> mx_sharers l \<noteq> {}" "mx_lock_shared t l = None \<Longrightarrow> mx_owner l \<noteq> None"
  by (auto simp: mx_enter_def mx_lock_def mx_lock_shared_def split: if_splits)

lemma holder_runs: "owns p = Some i \<or> shares p = Some i \<Longrightarrow> bc_pc s u = p \<Longrightarrow> p \<noteq> Idle \<and> \<not> blocked s u"
  by (cases p) (auto simp: blocked_def)

fun waits :: "bl_pc \<Rightarrow> nat option" where
  "waits (WaitLock c i iv) = Some i"
| "waits (ScanWait it k) = Some (bi_idx it)"
| "waits _ = None"

text \<open>The holder of a lock that somebody waits for is not waiting itself.\<close>

lemma blocked_by_runner:
  assumes "locks_ok s" "blocked s t"
  shows "\<exists>u i. waits (bc_pc s t) = Some i \<and> (owns (bc_pc s u) = Some i \<or> shares (bc_pc s u) = Some i) \<and>
    bc_pc s u \<noteq> Idle \<and> \<not> blocked s u"
proof -
  have "\<exists>i. waits (bc_pc s t) = Some i \<and> (mx_owner (bc_locks s i) \<noteq> None \<or> mx_sharers (bc_locks s i) \<noteq> {})"
  proof (cases "bc_pc s t")
    case (WaitLock c i iv)
    then show ?thesis using assms(2) lock_taken(1)[of c t "bc_locks s i"] by (auto simp: blocked_def)
  next
    case (ScanWait it k)
    then show ?thesis using assms(2) lock_taken(2)[of t "bc_locks s (bi_idx it)"] by (auto simp: blocked_def)
  qed (use assms(2) in \<open>auto simp: blocked_def\<close>)
  then obtain i where i: "waits (bc_pc s t) = Some i" "mx_owner (bc_locks s i) \<noteq> None \<or> mx_sharers (bc_locks s i) \<noteq> {}" by blast
  then obtain u where u: "owns (bc_pc s u) = Some i \<or> shares (bc_pc s u) = Some i"
    using locks_okD(1,2)[OF assms(1)] by blast
  show ?thesis by (rule exI[of _ u], rule exI[of _ i]) (use u i(1) holder_runs[OF u refl] in simp)
qed

text \<open>A thread gives back only what it holds.\<close>

lemma release_defined:
  assumes "locks_ok s"
  shows "bc_pc s t = Leaving c i \<Longrightarrow> mx_leave c t (bc_locks s i) \<noteq> None"
    "bc_pc s t = ScanAt it k \<Longrightarrow> mx_unlock_shared t (bc_locks s (bi_idx it)) \<noteq> None"
  using locks_okD[OF assms] by (auto simp: mx_leave_def mx_unlock_def mx_unlock_shared_def)

end
