(* ===== verification/BLevelSerial.thy ===== *)
theory BLevelSerial
  imports BLevelLocks
begin

text \<open>
  What the threads of theory BLevelLocks leave behind.  \<open>bl_serial\<close> runs the calls of a log one after the other:
  every interleaving leaves what this run leaves (\<open>run_serial\<close>), because a lock keeps the entry that was read and
  additions to the counters commute.  \<open>follows\<close> says which answers a log may have: calls act on
  a finite map, a move takes all pairs of its entry, and a moved entry turns every call away (\<open>run_follows\<close>).
  \<open>finish_call\<close>: a thread whose lock is free finishes alone.
\<close>

subsection \<open>A sequential run\<close>

fun bl_apply :: "blevel \<Rightarrow> nat \<Rightarrow> nat \<times> nat \<Rightarrow> bl_call \<Rightarrow> (blevel \<times> bl_answer) option" where
  "bl_apply b i iv (CallPut k v) = do { (b1, r) \<leftarrow> bl_put_at b k v (int i) iv; Some (b1, AnsStatus r) }"
| "bl_apply b i iv (CallUpdate k v) = do { (b1, r) \<leftarrow> bl_update_at b k v (int i); Some (b1, AnsBool r) }"
| "bl_apply b i iv (CallGet k) = do { r \<leftarrow> bl_get_at b k (int i); Some (b, AnsGet r) }"
| "bl_apply b i iv (CallDelete k) = do { (b1, r, val) \<leftarrow> bl_delete_at b k (int i) iv; Some (b1, AnsDelete r val) }"
| "bl_apply b i iv CallMove = do { e \<leftarrow> bl_entry b i; (b1, a, _) \<leftarrow> bl_work b i e CallMove; Some (b1, a) }"

text \<open>The calls of a log one after the other; every answer has to be the recorded one.\<close>

fun bl_serial :: "blevel \<Rightarrow> bl_event list \<Rightarrow> blevel option" where
  "bl_serial b [] = Some b"
| "bl_serial b (ev # evs) =
     do {
       (b1, a) \<leftarrow> bl_apply b (ev_slot ev) (ev_interval ev) (ev_call ev);
       if a = ev_answer ev then bl_serial b1 evs else None
     }"

lemma bl_serial_append: "bl_serial b (xs @ ys) = do { b1 \<leftarrow> bl_serial b xs; bl_serial b1 ys }"
  by (induction xs arbitrary: b) (auto split: bind_splits)

definition bump :: "blevel \<Rightarrow> nat \<times> nat \<Rightarrow> u64 \<Rightarrow> blevel option" where
  "bump b iv d = (if d = 0 then Some b else add_interval (b\<lparr>bl_size := bl_size b + d\<rparr>) iv d)"

lemma size_entries_commute: "b\<lparr>bl_size := z, bl_entries := es\<rparr> = b\<lparr>bl_entries := es, bl_size := z\<rparr>"
  by (cases b) simp

lemma bl_apply_work:
  assumes "bl_entry b i = Some e"
  shows "bl_apply b i iv c = (if turned_away c e then Some (b, refused c)
    else do { (b1, a, d) \<leftarrow> bl_work b i e c; b2 \<leftarrow> bump b1 iv d; Some (b2, a) })"
  using assms
  by (cases c) (auto simp: turned_away_def bump_def bl_put_at_def bl_update_at_def bl_get_at_def bl_delete_at_def
      bl_set_entry_def Let_def size_entries_commute split: bind_splits prod.splits)

text \<open>Work changes one entry and the region, and keeps the keys of the entries.\<close>

definition same_layout :: "blevel \<Rightarrow> blevel \<Rightarrow> bool" where
  "same_layout b b' \<longleftrightarrow> bl_ranges b' = bl_ranges b \<and> bl_nr b' = bl_nr b \<and> bl_interval_size b' = bl_interval_size b \<and>
     bl_intervals b' = bl_intervals b \<and> map length (bl_sizes b') = map length (bl_sizes b) \<and>
     length (bl_entries b') = length (bl_entries b) \<and> bl_phys_key b' = bl_phys_key b"

lemma same_layout_trans: "same_layout a b \<Longrightarrow> same_layout b c \<Longrightarrow> same_layout a c"
  by (simp add: same_layout_def)

lemma same_layout_refl [simp]: "same_layout b b"
  by (simp add: same_layout_def)

lemma map_length_nth:
  assumes "map length xs = map length ys"
  shows "length xs = length ys" "n < length xs \<Longrightarrow> length (xs ! n) = length (ys ! n)"
proof -
  show l: "length xs = length ys" using map_eq_imp_length_eq[OF assms] .
  show "n < length xs \<Longrightarrow> length (xs ! n) = length (ys ! n)" using arg_cong[OF assms, of "\<lambda>x. x ! n"] l by simp
qed

lemma same_layout_facts:
  assumes "same_layout b b'"
  shows "bl_slots b' = bl_slots b" "in_slot b' = in_slot b" "counter_at b' = counter_at b" "physical_nr b' = physical_nr b"
    "bl_shape b \<Longrightarrow> bl_shape b'" "gaps_ok b \<Longrightarrow> gaps_ok b'"
proof -
  show s: "bl_slots b' = bl_slots b" using assms by (simp add: same_layout_def bl_slots_def)
  have k: "bl_phys_key b' = bl_phys_key b" using assms by (simp add: same_layout_def)
  show "in_slot b' = in_slot b" by (simp add: fun_eq_iff in_slot_def s k)
  have ml: "map length (bl_sizes b') = map length (bl_sizes b)" using assms by (simp add: same_layout_def)
  note L = map_length_nth[OF ml]
  show "counter_at b' = counter_at b" using L by (auto simp: counter_at_def fun_eq_iff)
  show n: "physical_nr b' = physical_nr b" using assms by (simp add: same_layout_def physical_nr_def)
  have r: "bl_ranges b' = bl_ranges b" "bl_nr b' = bl_nr b" "bl_interval_size b' = bl_interval_size b"
    using assms by (simp_all add: same_layout_def)
  show "bl_shape b'" if "bl_shape b" using that L n unfolding bl_shape_def counters_ok_def s k r by simp
  show "gaps_ok b'" if "gaps_ok b" using that gaps_ok_same[OF r(1) k] by simp
qed

lemma nb_put_key: "nb_put m e k v = Some (m1, e1, r) \<Longrightarrow> nb_key e1 = nb_key e"
  by (auto simp: nb_put_def split: bind_splits)

lemma set_entry_layout:
  assumes "bl_entry b i = Some e" "nb_key e1 = nb_key e"
  shows "same_layout b (bl_set_entry (b\<lparr>bl_mem := m\<rparr>) i e1)" "same_layout b (bl_set_entry b i e1)"
proof -
  have "bl_phys_key (bl_set_entry b' i e1) n = bl_phys_key b n" if "bl_entries b' = bl_entries b" for b' n
    using assms that
    by (cases "n = i") (auto simp: bl_phys_key_def bl_set_entry_def bl_entry_def physical_nr_def split: if_splits)
  then show "same_layout b (bl_set_entry (b\<lparr>bl_mem := m\<rparr>) i e1)" "same_layout b (bl_set_entry b i e1)"
    by (simp_all add: same_layout_def fun_eq_iff) (simp_all add: bl_set_entry_def)
qed

lemma bl_work_frame:
  assumes "bl_work b i e c = Some (b', a, d)" "bl_entry b i = Some e"
  shows "same_layout b b'" "j \<noteq> i \<Longrightarrow> bl_entries b' ! j = bl_entries b ! j" "reads_only c \<Longrightarrow> b' = b"
    "bl_size b' = bl_size b" "bl_sizes b' = bl_sizes b" "length (bl_entries b') = length (bl_entries b)"
proof -
  have m: "same_layout b (b\<lparr>bl_mem := m\<rparr>)" for m by (simp add: same_layout_def bl_phys_key_def fun_eq_iff)
  show "same_layout b b'"
    using assms m set_entry_layout[OF assms(2)] nb_put_key
    by (cases c) (auto simp: nb_set_invalid_def split: bind_splits)
  show "j \<noteq> i \<Longrightarrow> bl_entries b' ! j = bl_entries b ! j" "reads_only c \<Longrightarrow> b' = b"
    "bl_size b' = bl_size b" "bl_sizes b' = bl_sizes b" "length (bl_entries b') = length (bl_entries b)"
    using assms(1) by (cases c; auto simp: bl_set_entry_def split: bind_splits)+
qed

subsection \<open>Where a call goes\<close>

definition hits :: "blevel \<Rightarrow> bl_call \<Rightarrow> nat \<Rightarrow> nat \<times> nat \<Rightarrow> bool" where
  "hits b c i iv \<longleftrightarrow> (case call_key c of
       None \<Rightarrow> i \<in> set (bl_slots b)
     | Some k \<Rightarrow> \<exists>j. in_slot b j k \<and> i = bl_slots b ! j \<and> counter_at b iv)"

lemma found_hits:
  assumes "bl_shape b" "gaps_ok b" "bl_found b c i iv"
  shows "hits b c i iv"
proof (cases "call_key c")
  case (Some k)
  obtain j where j: "in_slot b j k" using in_slot_exists[OF assms(1)] by blast
  have "i = bl_slots b ! j \<and> counter_at b iv" if q: "bl_find_near b k pos = Some (int i, iv)" for pos
    using bl_find_near_any[OF assms(1,2) j, of pos] q by auto
  moreover have "i = bl_slots b ! j \<and> counter_at b iv" if q: "window_ok b k lo hi" "bl_find b k lo hi = Some (int i, iv)" for lo hi
  proof -
    have "lo \<le> Suc j" "j \<le> hi" using q(1) j by (auto simp: window_ok_def in_slot_def)
    then show ?thesis using bl_find_correct[OF assms(1) j, of lo hi] q(2) by auto
  qed
  ultimately show ?thesis using assms(3) Some j by (auto simp: bl_found_def hits_def)
qed (use assms(3) in \<open>simp add: bl_found_def hits_def\<close>)

lemma hits_layout:
  assumes "same_layout b b'"
  shows "hits b' = hits b"
  by (intro ext) (simp only: hits_def same_layout_facts(1-4)[OF assms])

lemma hits_facts:
  assumes "bl_shape b" "hits b c i iv"
  shows "i < physical_nr b" "c \<noteq> CallMove \<Longrightarrow> counter_at b iv"
proof -
  show "i < physical_nr b"
    using assms slot_in_array[OF assms(1)] by (auto simp: hits_def in_slot_def in_set_conv_nth split: option.splits)
  show "c \<noteq> CallMove \<Longrightarrow> counter_at b iv" using assms(2) by (cases c) (auto simp: hits_def)
qed

subsection \<open>Counters on their way\<close>

fun pend_size :: "bl_pc \<Rightarrow> u64" where
  "pend_size (AddSize c i iv d) = d"
| "pend_size _ = 0"

fun pend_at :: "nat \<times> nat \<Rightarrow> bl_pc \<Rightarrow> u64" where
  "pend_at ij (AddSize c i iv d) = (if iv = ij then d else 0)"
| "pend_at ij (AddInterval c i iv d) = (if iv = ij then d else 0)"
| "pend_at _ _ = 0"

definition pending :: "(bl_pc \<Rightarrow> u64) \<Rightarrow> bl_conc \<Rightarrow> u64" where
  "pending f s = (\<Sum>t < bc_threads s. f (bc_pc s t))"

lemma sum_fun_upd:
  fixes f :: "'b \<Rightarrow> 'a :: ab_group_add"
  assumes "(t :: nat) < n"
  shows "(\<Sum>u < n. f ((g(t := p)) u)) = (\<Sum>u < n. f (g u)) - f (g t) + f p"
proof -
  have "(\<Sum>u < n. f ((g(t := p)) u)) = f p + (\<Sum>u \<in> {..<n} - {t}. f ((g(t := p)) u))"
    using assms by (subst sum.remove[of _ t]) auto
  also have "(\<Sum>u \<in> {..<n} - {t}. f ((g(t := p)) u)) = (\<Sum>u \<in> {..<n} - {t}. f (g u))" by (rule sum.cong) auto
  also have "(\<Sum>u < n. f (g u)) = f (g t) + (\<Sum>u \<in> {..<n} - {t}. f (g u))" using assms by (subst sum.remove[of _ t]) auto
  ultimately show ?thesis by (simp add: algebra_simps)
qed

lemma pending_go:
  "t < bc_threads s \<Longrightarrow> bc_threads s' = bc_threads s \<Longrightarrow> bc_pc s' = (bc_pc s)(t := p) \<Longrightarrow>
   pending f s' = pending f s - f (bc_pc s t) + f p"
  by (simp add: pending_def sum_fun_upd del: fun_upd_apply)

text \<open>The sequential B-level \<open>b'\<close> is ahead of \<open>b\<close> by the additions that are on their way.\<close>

definition agrees :: "blevel \<Rightarrow> blevel \<Rightarrow> u64 \<Rightarrow> (nat \<times> nat \<Rightarrow> u64) \<Rightarrow> bool" where
  "agrees b b' z f \<longleftrightarrow> bl_entries b' = bl_entries b \<and> bl_mem b' = bl_mem b \<and> bl_ranges b' = bl_ranges b \<and>
     bl_nr b' = bl_nr b \<and> bl_interval_size b' = bl_interval_size b \<and> bl_intervals b' = bl_intervals b \<and>
     map length (bl_sizes b') = map length (bl_sizes b) \<and> bl_size b' = bl_size b + z \<and>
     (\<forall>i j. counter_at b (i, j) \<longrightarrow> bl_sizes b' ! i ! j = bl_sizes b ! i ! j + f (i, j))"

lemma agrees_zero: "agrees b b' 0 (\<lambda>ij. 0) \<Longrightarrow> b' = b"
proof -
  assume a: "agrees b b' 0 (\<lambda>ij. 0)"
  then have ml: "map length (bl_sizes b') = map length (bl_sizes b)" by (simp add: agrees_def)
  note L = map_length_nth[OF ml]
  have "bl_sizes b' = bl_sizes b"
  proof (rule nth_equalityI[OF L(1)])
    fix i assume i: "i < length (bl_sizes b')"
    show "bl_sizes b' ! i = bl_sizes b ! i"
      using a i L by (intro nth_equalityI) (auto simp: agrees_def counter_at_def)
  qed
  with a show ?thesis by (simp add: agrees_def)
qed

lemma add_interval_spec:
  assumes "counter_at b iv"
  shows "\<exists>ss. add_interval b iv d = Some (b\<lparr>bl_sizes := ss\<rparr>) \<and> map length ss = map length (bl_sizes b) \<and>
    (\<forall>i j. counter_at b (i, j) \<longrightarrow> ss ! i ! j = bl_sizes b ! i ! j + (if iv = (i, j) then d else 0))"
  using assms
  by (cases iv) (auto simp: add_interval_def counter_at_def map_update list_update_same_conv nth_list_update)

lemma agrees_work:
  assumes "agrees b b' z f" "bl_work b i e c = Some (b1, a, d)"
  shows "\<exists>w. bl_work b' i e c = Some (w, a, d) \<and> agrees b1 w z f"
  using assms
  by (cases c) (auto simp: agrees_def bl_set_entry_def counter_at_def split: bind_splits)

lemma agrees_bump:
  assumes "agrees b b' z f" "counter_at b iv \<or> d = 0"
  shows "\<exists>w. bump b' iv d = Some w \<and> agrees b w (z + d) (f(iv := f iv + d))"
proof (cases "d = 0")
  case False
  then have c: "counter_at b iv" using assms(2) by simp
  have ml: "map length (bl_sizes b') = map length (bl_sizes b)" using assms(1) by (simp add: agrees_def)
  have "counter_at b' = counter_at b" using map_length_nth[OF ml] by (auto simp: counter_at_def fun_eq_iff)
  moreover have "counter_at (b'\<lparr>bl_size := bl_size b' + d\<rparr>) = counter_at b'" by (simp add: counter_at_def fun_eq_iff)
  ultimately have "counter_at (b'\<lparr>bl_size := bl_size b' + d\<rparr>) = counter_at b" by simp
  with add_interval_spec[of "b'\<lparr>bl_size := bl_size b' + d\<rparr>" iv d] c obtain ss where
    "add_interval (b'\<lparr>bl_size := bl_size b' + d\<rparr>) iv d = Some (b'\<lparr>bl_size := bl_size b' + d, bl_sizes := ss\<rparr>)"
    "map length ss = map length (bl_sizes b')"
    "\<forall>i j. counter_at b (i, j) \<longrightarrow> ss ! i ! j = bl_sizes b' ! i ! j + (if iv = (i, j) then d else 0)" by auto
  then show ?thesis using assms(1) False by (auto simp: bump_def agrees_def)
qed (use assms in \<open>simp add: bump_def\<close>)

lemma agrees_add_size: "agrees b b' (z + d) f \<Longrightarrow> agrees (b\<lparr>bl_size := bl_size b + d\<rparr>) b' z f"
  by (simp add: agrees_def counter_at_def algebra_simps)

lemma agrees_add_interval:
  assumes "agrees b b' z f" "add_interval b iv d = Some b1" "f = g(iv := g iv + d)"
  shows "agrees b1 b' z g" "same_layout b b1" "bl_entries b1 = bl_entries b"
proof -
  have c: "counter_at b iv" using assms(2) by (auto simp: add_interval_def counter_at_def split: if_splits prod.splits)
  obtain ss where "b1 = b\<lparr>bl_sizes := ss\<rparr>" "map length ss = map length (bl_sizes b)"
    "\<forall>i j. counter_at b (i, j) \<longrightarrow> ss ! i ! j = bl_sizes b ! i ! j + (if iv = (i, j) then d else 0)"
    using add_interval_spec[OF c, of d] assms(2) by auto
  moreover from this have "counter_at b1 = counter_at b"
    using map_length_nth[of "bl_sizes b1" "bl_sizes b"] by (auto simp: counter_at_def fun_eq_iff)
  ultimately show "agrees b1 b' z g" "same_layout b b1" "bl_entries b1 = bl_entries b"
    using assms(1,3) by (auto simp: agrees_def same_layout_def bl_phys_key_def fun_eq_iff)
qed

subsection \<open>Every interleaving is a sequential run\<close>

fun thread_ok :: "blevel \<Rightarrow> bl_pc \<Rightarrow> bool" where
  "thread_ok b (WaitLock c i iv) \<longleftrightarrow> hits b c i iv"
| "thread_ok b (Inside c i iv) \<longleftrightarrow> hits b c i iv"
| "thread_ok b (Loaded c i iv e) \<longleftrightarrow> hits b c i iv \<and> bl_entry b i = Some e \<and> \<not> turned_away c e"
| "thread_ok b (AddSize c i iv d) \<longleftrightarrow> counter_at b iv"
| "thread_ok b (AddInterval c i iv d) \<longleftrightarrow> counter_at b iv"
| "thread_ok b _ \<longleftrightarrow> True"

definition serial_ok :: "blevel \<Rightarrow> bl_conc \<Rightarrow> bool" where
  "serial_ok b0 s \<longleftrightarrow> locks_ok s \<and> same_layout b0 (bc_level s) \<and> (\<forall>t. thread_ok (bc_level s) (bc_pc s t)) \<and>
     (\<forall>ev \<in> set (bc_log s). hits b0 (ev_call ev) (ev_slot ev) (ev_interval ev)) \<and>
     (\<exists>b'. bl_serial b0 (bc_log s) = Some b' \<and>
       agrees (bc_level s) b' (pending pend_size s) (\<lambda>ij. pending (pend_at ij) s))"

lemma thread_ok_frame:
  assumes "same_layout b b'" "thread_ok b p" "\<And>c i iv e. p = Loaded c i iv e \<Longrightarrow> bl_entries b' ! i = bl_entries b ! i"
  shows "thread_ok b' p"
  using assms(2,3) hits_layout[OF assms(1)] same_layout_facts(3,4)[OF assms(1)]
  by (cases p) (auto simp: bl_entry_def split: if_splits)

text \<open>A step that changes neither the B-level nor the log, nor what is on its way.\<close>

lemma serial_ok_quiet:
  assumes "serial_ok b0 s" "locks_ok s'" "bc_level s' = bc_level s" "bc_log s' = bc_log s" "bc_threads s' = bc_threads s"
    "bc_pc s' = (bc_pc s)(t := p)" "t < bc_threads s" "thread_ok (bc_level s) p"
    "pend_size p = 0" "pend_size (bc_pc s t) = 0" "\<And>ij. pend_at ij p = 0" "\<And>ij. pend_at ij (bc_pc s t) = 0"
  shows "serial_ok b0 s'"
proof -
  have "pending pend_size s' = pending pend_size s" "pending (pend_at ij) s' = pending (pend_at ij) s" for ij
    using pending_go[OF assms(7,5,6)] assms(9-12) by simp_all
  then show ?thesis using assms(1-4,6,8) by (simp add: serial_ok_def)
qed

text \<open>The test fails: the sequential run is turned away as well.\<close>

lemma serial_ok_refuse:
  assumes "serial_ok b0 s" "t < bc_threads s" "bc_pc s t = Inside c i iv" "bl_entry (bc_level s) i = Some e" "turned_away c e"
    "s' = bc_go (s\<lparr>bc_log := bc_log s @ [\<lparr>ev_call = c, ev_slot = i, ev_interval = iv, ev_answer = refused c\<rparr>]\<rparr>) t (Leaving c i)"
    "locks_ok s'"
  shows "serial_ok b0 s'"
proof -
  obtain b' where b': "bl_serial b0 (bc_log s) = Some b'"
    "agrees (bc_level s) b' (pending pend_size s) (\<lambda>ij. pending (pend_at ij) s)" using assms(1) by (auto simp: serial_ok_def)
  have "bl_entry b' i = Some e" using b'(2) assms(4) by (auto simp: agrees_def bl_entry_def physical_nr_def split: if_splits)
  then have "bl_apply b' i iv c = Some (b', refused c)" using assms(5) by (simp add: bl_apply_work)
  then have s': "bl_serial b0 (bc_log s') = Some b'" using b'(1) by (simp add: assms(6) bl_serial_append)
  have p: "pending pend_size s' = pending pend_size s" "pending (pend_at ij) s' = pending (pend_at ij) s" for ij
    using pending_go[OF assms(2), of s' "Leaving c i"] assms(3) by (simp_all add: assms(6))
  have h: "hits b0 c i iv" using assms(1,3) hits_layout[of b0 "bc_level s"]
    by (auto simp: serial_ok_def dest!: spec[of _ t])
  show ?thesis using assms(1,7) s' b'(2) p h unfolding serial_ok_def by (simp add: assms(6))
qed

text \<open>The work step.  The lock is why the entry that was read is still the entry in the array.\<close>

lemma work_delta: "bl_work b i e c = Some (b', a, d) \<Longrightarrow> d \<noteq> 0 \<Longrightarrow> c \<noteq> CallMove \<and> \<not> reads_only c"
  by (cases c) (auto split: bind_splits)

lemma work_keeps_others:
  assumes "serial_ok b0 s" "bc_pc s t = Loaded c i iv e" "bl_work (bc_level s) i e c = Some (b, a, d)" "u \<noteq> t"
  shows "thread_ok b (bc_pc s u)"
proof -
  have T: "thread_ok (bc_level s) (bc_pc s u)" "bl_entry (bc_level s) i = Some e" "locks_ok s"
    using assms(1,2) by (auto simp: serial_ok_def dest: spec[of _ t])
  note F = bl_work_frame[OF assms(3) T(2)]
  show ?thesis
  proof (rule thread_ok_frame[OF F(1) T(1)])
    fix c' i' iv' e' assume p: "bc_pc s u = Loaded c' i' iv' e'"
    show "bl_entries b ! i' = bl_entries (bc_level s) ! i'"
    proof (cases "reads_only c")
      case False
      then have "owns (bc_pc s t) = Some i" using assms(2) by simp
      from locks_exclusive[OF T(3) this assms(4)] p have "i' \<noteq> i" by (auto split: if_splits)
      then show ?thesis by (rule F(2))
    qed (simp add: F(3))
  qed
qed

lemma serial_ok_work:
  assumes "serial_ok b0 s" "bl_shape b0" "t < bc_threads s" "bc_pc s t = Loaded c i iv e"
    "bl_work (bc_level s) i e c = Some (b, a, d)" "locks_ok s'"
    "s' = bc_go (s\<lparr>bc_level := b, bc_log := bc_log s @ [\<lparr>ev_call = c, ev_slot = i, ev_interval = iv, ev_answer = a\<rparr>]\<rparr>)
      t (if d = 0 then Leaving c i else AddSize c i iv d)"
  shows "serial_ok b0 s'"
proof -
  let ?l = "bc_level s"
  obtain b' where b': "bl_serial b0 (bc_log s) = Some b'"
    "agrees ?l b' (pending pend_size s) (\<lambda>ij. pending (pend_at ij) s)" using assms(1) by (auto simp: serial_ok_def)
  have T: "hits ?l c i iv" "bl_entry ?l i = Some e" "\<not> turned_away c e" "same_layout b0 ?l"
    using assms(1,4) by (auto simp: serial_ok_def dest: spec[of _ t])
  note F = bl_work_frame[OF assms(5) T(2)]
  have c: "counter_at ?l iv \<or> d = 0"
    using hits_facts(2)[OF _ T(1)] same_layout_facts(5)[OF T(4) assms(2)] work_delta[OF assms(5)] by blast
  obtain w where w: "bl_work b' i e c = Some (w, a, d)" "agrees b w (pending pend_size s) (\<lambda>ij. pending (pend_at ij) s)"
    using agrees_work[OF b'(2) assms(5)] by blast
  have c': "counter_at b iv \<or> d = 0" using c same_layout_facts(3)[OF F(1)] by simp
  obtain x where x: "bump w iv d = Some x"
    "agrees b x (pending pend_size s + d) ((\<lambda>ij. pending (pend_at ij) s)(iv := pending (pend_at iv) s + d))"
    using agrees_bump[OF w(2) c'] by blast
  have "bl_entry b' i = Some e" using b'(2) T(2) by (auto simp: agrees_def bl_entry_def physical_nr_def split: if_splits)
  then have "bl_apply b' i iv c = Some (x, a)" using T(3) w(1) x(1) by (simp add: bl_apply_work)
  then have run: "bl_serial b0 (bc_log s') = Some x" using b'(1) by (simp add: assms(7) bl_serial_append)
  have pe: "bc_pc s' = (bc_pc s)(t := if d = 0 then Leaving c i else AddSize c i iv d)" "bc_threads s' = bc_threads s"
    by (simp_all add: assms(7))
  have "pending pend_size s' = pending pend_size s + d"
    "(\<lambda>ij. pending (pend_at ij) s') = (\<lambda>ij. pending (pend_at ij) s)(iv := pending (pend_at iv) s + d)"
    using pending_go[OF assms(3) pe(2,1)] assms(4) by (simp_all add: fun_eq_iff)
  then have ag: "agrees (bc_level s') x (pending pend_size s') (\<lambda>ij. pending (pend_at ij) s')" using x(2) by (simp add: assms(7))
  have th: "thread_ok (bc_level s') (bc_pc s' u)" for u
    using work_keeps_others[OF assms(1,4,5), of u] c' by (cases "u = t") (auto simp: assms(7))
  have "hits b0 c i iv" using T(1) hits_layout[OF T(4)] by simp
  then show ?thesis using assms(1,6) run ag th same_layout_trans[OF T(4) F(1)] unfolding serial_ok_def
    by (simp add: assms(7))
qed

text \<open>The two additions.\<close>

lemma serial_ok_add_size:
  assumes "serial_ok b0 s" "t < bc_threads s" "bc_pc s t = AddSize c i iv d" "locks_ok s'"
    "s' = bc_go (s\<lparr>bc_level := (bc_level s)\<lparr>bl_size := bl_size (bc_level s) + d\<rparr>\<rparr>) t (AddInterval c i iv d)"
  shows "serial_ok b0 s'"
proof -
  obtain b' where b': "bl_serial b0 (bc_log s) = Some b'"
    "agrees (bc_level s) b' (pending pend_size s) (\<lambda>ij. pending (pend_at ij) s)" using assms(1) by (auto simp: serial_ok_def)
  have lay: "same_layout (bc_level s) (bc_level s')" by (simp add: assms(5) same_layout_def bl_phys_key_def fun_eq_iff)
  have "thread_ok (bc_level s') (bc_pc s u)" for u
    using assms(1) by (intro thread_ok_frame[OF lay]) (auto simp: serial_ok_def assms(5))
  moreover have "counter_at (bc_level s) iv" using assms(1,3) by (auto simp: serial_ok_def dest: spec[of _ t])
  ultimately have th: "thread_ok (bc_level s') (bc_pc s' u)" for u
    using same_layout_facts(3)[OF lay] by (simp add: assms(5))
  have pe: "bc_pc s' = (bc_pc s)(t := AddInterval c i iv d)" "bc_threads s' = bc_threads s" by (simp_all add: assms(5))
  have "pending pend_size s = pending pend_size s' + d" "\<And>ij. pending (pend_at ij) s' = pending (pend_at ij) s"
    using pending_go[OF assms(2) pe(2,1)] assms(3) by simp_all
  then have "agrees (bc_level s') b' (pending pend_size s') (\<lambda>ij. pending (pend_at ij) s')"
    using agrees_add_size[of "bc_level s" b' "pending pend_size s'" d] b'(2) by (simp add: assms(5))
  then show ?thesis using assms(1,4) b'(1) th same_layout_trans[OF _ lay] unfolding serial_ok_def by (simp add: assms(5))
qed

lemma serial_ok_add_interval:
  assumes "serial_ok b0 s" "t < bc_threads s" "bc_pc s t = AddInterval c i iv d" "add_interval (bc_level s) iv d = Some b"
    "locks_ok s'" "s' = bc_go (s\<lparr>bc_level := b\<rparr>) t (Leaving c i)"
  shows "serial_ok b0 s'"
proof -
  obtain b' where b': "bl_serial b0 (bc_log s) = Some b'"
    "agrees (bc_level s) b' (pending pend_size s) (\<lambda>ij. pending (pend_at ij) s)" using assms(1) by (auto simp: serial_ok_def)
  have pe: "bc_pc s' = (bc_pc s)(t := Leaving c i)" "bc_threads s' = bc_threads s" by (simp_all add: assms(6))
  have p: "pending pend_size s' = pending pend_size s"
    "(\<lambda>ij. pending (pend_at ij) s) = (\<lambda>ij. pending (pend_at ij) s')(iv := pending (pend_at iv) s' + d)"
    using pending_go[OF assms(2) pe(2,1)] assms(3) by (simp_all add: fun_eq_iff)
  note A = agrees_add_interval[OF b'(2) assms(4) p(2)]
  have "thread_ok b (bc_pc s u)" for u
    using assms(1) by (intro thread_ok_frame[OF A(2)]) (auto simp: serial_ok_def A(3))
  then have th: "thread_ok (bc_level s') (bc_pc s' u)" for u by (simp add: assms(6))
  show ?thesis using assms(1,5) b'(1) th A(1) same_layout_trans[OF _ A(2)] unfolding serial_ok_def p(1) by (simp add: assms(6))
qed

lemma serial_ok_step:
  assumes "bc_step t s s'" "serial_ok b0 s" "bl_shape b0" "gaps_ok b0" "t < bc_threads s"
  shows "serial_ok b0 s'"
proof -
  have lk: "locks_ok s'" using locks_ok_step[OF assms(1)] assms(2) by (simp add: serial_ok_def)
  have lay: "same_layout b0 (bc_level s)" and th: "thread_ok (bc_level s) (bc_pc s t)"
    using assms(2) by (simp_all add: serial_ok_def)
  note quiet = serial_ok_quiet[OF assms(2) lk _ _ _ _ assms(5)]
  from assms(1) show ?thesis
  proof (cases rule: bc_step.cases)
    case (search c i iv)
    have "hits (bc_level s) c i iv"
      using found_hits[OF same_layout_facts(5,6)[OF lay]] assms(3,4) search(3) by blast
    then show ?thesis using quiet[of "WaitLock c i iv"] search by simp
  next
    case (enter c i iv l)
    then show ?thesis using quiet[of "Inside c i iv"] th by simp
  next
    case (refuse c i iv e)
    then show ?thesis using serial_ok_refuse[OF assms(2,5)] lk by simp
  next
    case (load c i iv e)
    then show ?thesis using quiet[of "Loaded c i iv e"] th by simp
  next
    case (work c i iv e b a d)
    then show ?thesis using serial_ok_work[OF assms(2,3,5)] lk by simp
  next
    case (add_size c i iv d)
    then show ?thesis using serial_ok_add_size[OF assms(2,5)] lk by simp
  next
    case (add_interval c i iv d b)
    then show ?thesis using serial_ok_add_interval[OF assms(2,5)] lk by simp
  next
    case (leave c i l)
    then show ?thesis using quiet[of Idle] by simp
  next
    case scan_all
    then show ?thesis using quiet[of "ScanWait (scan_first (bc_level s)) None"] by simp
  next
    case (scan_from k lo hi it)
    then show ?thesis using quiet[of "ScanWait it (Some k)"] by simp
  next
    case (scan_enter it k l)
    then show ?thesis using quiet[of "ScanIn it k"] by simp
  next
    case (scan_open it k e ei)
    then show ?thesis using quiet[of "ScanAt (it\<lparr>bi_iter := ei\<rparr>) k"] by simp
  next
    case (scan_next it k ei again)
    then show ?thesis using quiet[of "ScanAt (it\<lparr>bi_iter := ei\<rparr>) None"] by simp
  next
    case (scan_over it k it1 again l)
    then show ?thesis using quiet[of "if again then ScanWait it1 k else Idle"] by simp
  next
    case (scan_destroy it k l)
    then show ?thesis using quiet[of Idle] by simp
  qed
qed

lemma serial_ok_new: "serial_ok b (bc_new n b)"
proof -
  have "pending f (bc_new n b) = 0" if "f Idle = 0" for f using that by (simp add: pending_def bc_new_def)
  then have "agrees b b (pending pend_size (bc_new n b)) (\<lambda>ij. pending (pend_at ij) (bc_new n b))" by (simp add: agrees_def)
  moreover have "bc_level (bc_new n b) = b" "bc_log (bc_new n b) = []" "bc_pc (bc_new n b) t = Idle" for t
    by (simp_all add: bc_new_def)
  ultimately show ?thesis using locks_ok_new[of n b] by (simp add: serial_ok_def)
qed

lemma steps_threads: "bc_steps s s' \<Longrightarrow> bc_threads s' = bc_threads s"
  by (induction rule: bc_steps.induct) (auto elim!: bc_stepE simp: bc_go_def bc_set_lock_def)

lemma serial_ok_steps: "bc_steps s s' \<Longrightarrow> serial_ok b0 s \<Longrightarrow> bl_shape b0 \<Longrightarrow> gaps_ok b0 \<Longrightarrow> serial_ok b0 s'"
  by (induction rule: bc_steps.induct) (auto intro: serial_ok_step)

text \<open>When no addition is on its way the B-level is the one of the sequential run.\<close>

definition settled :: "bl_conc \<Rightarrow> bool" where
  "settled s \<longleftrightarrow> (\<forall>t < bc_threads s. pend_size (bc_pc s t) = 0 \<and> (\<forall>ij. pend_at ij (bc_pc s t) = 0))"

lemma settled_idle: "(\<And>t. t < bc_threads s \<Longrightarrow> bc_pc s t = Idle) \<Longrightarrow> settled s"
  by (simp add: settled_def)

lemma run_serial:
  assumes "bl_good b D M" "bc_steps (bc_new n b) s"
  shows "\<exists>b'. bl_serial b (bc_log s) = Some b' \<and> bl_entries b' = bl_entries (bc_level s) \<and> bl_mem b' = bl_mem (bc_level s) \<and>
      (settled s \<longrightarrow> b' = bc_level s)"
    "\<forall>ev \<in> set (bc_log s). hits b (ev_call ev) (ev_slot ev) (ev_interval ev)" "locks_ok s"
proof -
  have "serial_ok b s"
    using serial_ok_steps[OF assms(2) serial_ok_new] bl_good_shape[OF assms(1)] assms(1) by (simp add: bl_good_def)
  then show "\<forall>ev \<in> set (bc_log s). hits b (ev_call ev) (ev_slot ev) (ev_interval ev)" "locks_ok s"
    and "\<exists>b'. bl_serial b (bc_log s) = Some b' \<and> bl_entries b' = bl_entries (bc_level s) \<and> bl_mem b' = bl_mem (bc_level s) \<and>
      (settled s \<longrightarrow> b' = bc_level s)"
    using agrees_zero by (auto simp: serial_ok_def settled_def pending_def agrees_def)
qed

subsection \<open>The run as operations on a finite map\<close>

lemma add_interval_layout:
  assumes "add_interval b iv d = Some b'"
  shows "same_layout b b' \<and> bl_entries b' = bl_entries b"
proof -
  have c: "counter_at b iv" using assms by (auto simp: add_interval_def counter_at_def split: if_splits prod.splits)
  show ?thesis using add_interval_spec[OF c, of d] assms
    by (auto simp: same_layout_def bl_phys_key_def fun_eq_iff)
qed

lemma bump_layout: "bump b iv d = Some b' \<Longrightarrow> same_layout b b' \<and> bl_entries b' = bl_entries b"
  using add_interval_layout[of "b\<lparr>bl_size := bl_size b + d\<rparr>" iv d b']
  by (auto simp: bump_def same_layout_def bl_phys_key_def fun_eq_iff split: if_splits)

lemma apply_layout:
  assumes "bl_apply b i iv c = Some (b', a)" "i < physical_nr b"
  shows "same_layout b b'"
proof -
  obtain e where e: "bl_entry b i = Some e" using assms(2) by (simp add: bl_entry_def)
  show ?thesis
  proof (cases "turned_away c e")
    case False
    then obtain w d where w: "bl_work b i e c = Some (w, a, d)" "bump w iv d = Some b'"
      using assms(1) by (auto simp: bl_apply_work[OF e] split: bind_splits)
    then show ?thesis using bl_work_frame(1)[OF w(1) e] bump_layout[OF w(2)] same_layout_trans by blast
  qed (use assms(1) in \<open>simp add: bl_apply_work[OF e]\<close>)
qed

text \<open>An update of a key that is not there fails an assertion or reports it.\<close>

lemma update_unreached:
  assumes "bl_good b D M" "in_slot b j k" "M k = None" "bl_update_at b k v (int (bl_slots b ! j)) = Some (b', r)"
  shows "b' = b \<and> r = False"
proof -
  obtain ds ass xss where H: "bl_own b ds ass xss" "M = map_of (concat xss)"
    using assms(1) by (auto simp: bl_holds_def bl_good_def)
  note E = slot_entry[OF H(1) assms(2)]
  have o: "nb_own (bl_mem b) (bl_live b j) (ds ! j) (ass ! j) (xss ! j)" using E(2) by (simp add: entry_ok_def)
  have "map_of (xss ! j) k = None" using bl_own_lookup[OF H(1) assms(2)] assms(3) H(2) by simp
  from nb_update_own(2)[OF o E(4) this, of v] show ?thesis
    using assms(4) E(2) unfolding bl_update_at_def E(1) by (auto simp: entry_ok_def split: if_splits bind_splits)
qed

text \<open>What a call is to do on the map.\<close>

fun call_spec :: "bl_call \<Rightarrow> (u64 \<Rightarrow> u64 option) \<Rightarrow> (u64 \<Rightarrow> u64 option) \<times> bl_answer" where
  "call_spec (CallPut k v) M = (M(k \<mapsto> v), AnsStatus OK)"
| "call_spec (CallUpdate k v) M = (if M k = None then (M, AnsBool False) else (M(k \<mapsto> v), AnsBool True))"
| "call_spec (CallGet k) M = (M, AnsGet (M k))"
| "call_spec (CallDelete k) M = (M(k := None), AnsDelete True (M k))"
| "call_spec CallMove M = (M, AnsMoved [])"

lemma apply_spec:
  assumes "bl_good b D M" "hits b c i iv" "c \<noteq> CallMove" "bl_apply b i iv c = Some (b', a)" "bl_room b D"
  shows "\<exists>M' D'. call_spec c M = (M', a) \<and> bl_good b' D' M' \<and> D' \<le> Suc D \<and> end_addr (bl_mem b') = end_addr (bl_mem b) \<and>
    cur_addr (bl_mem b') \<le> cur_addr (bl_mem b) + (D + 3) * node_size"
proof (cases c)
  case (CallPut k v)
  then obtain j where j: "in_slot b j k" "i = bl_slots b ! j" "counter_at b iv" using assms(2) by (auto simp: hits_def)
  from put_reached[OF assms(1) j(1,3) assms(5), of v] show ?thesis
    using assms(4) CallPut j(2) by (auto simp: put_result_def keeps_layout_def)
next
  case (CallUpdate k v)
  then obtain j where j: "in_slot b j k" "i = bl_slots b ! j" using assms(2) by (auto simp: hits_def)
  obtain r where r: "bl_update_at b k v (int (bl_slots b ! j)) = Some (b', r)" "a = AnsBool r"
    using assms(4) CallUpdate j(2) by (auto split: bind_splits)
  show ?thesis
  proof (cases "M k")
    case None
    from update_unreached[OF assms(1) j(1) None r(1)] show ?thesis
      using assms(1) CallUpdate None r(2) by (intro exI[of _ M] exI[of _ D]) simp
  next
    case (Some x)
    from update_reached[OF assms(1) j(1), of v] Some r show ?thesis
      using CallUpdate by (auto simp: update_result_def keeps_layout_def)
  qed
next
  case (CallGet k)
  then obtain j where j: "in_slot b j k" "i = bl_slots b ! j" using assms(2) by (auto simp: hits_def)
  from get_reached[OF assms(1) j(1)] show ?thesis
    using assms(1,4) CallGet j(2) by (intro exI[of _ M] exI[of _ D]) simp
next
  case (CallDelete k)
  then obtain j where j: "in_slot b j k" "i = bl_slots b ! j" "counter_at b iv" using assms(2) by (auto simp: hits_def)
  from delete_reached[OF assms(1) j(1,3)] show ?thesis
    using assms(4) CallDelete j(2) by (auto simp: delete_result_def keeps_layout_def)
qed (use assms(3) in simp)

text \<open>The pairs that the expansion reads from an entry are all its pairs.\<close>

lemma old_pairs_at:
  "nb_iter_at m e it xs \<Longrightarrow> old_pairs n m e it = Some ys \<Longrightarrow> xs \<noteq> [] \<Longrightarrow> ys = xs"
proof (induction n arbitrary: it xs ys)
  case (Suc n)
  then obtain x rest where x: "xs = x # rest" by (cases xs) auto
  have at: "nb_iter_at m e it (x # rest)" using Suc.prems(1) x by simp
  obtain it' where N: "nb_iter_next m it = Some (it', rest \<noteq> [])" "nb_iter_at m e it' rest" using nb_iter_at_next[OF at] by blast
  from Suc.prems(2) N(1) nb_iter_at_values[OF at] obtain zs where
    zs: "(if rest \<noteq> [] then old_pairs n m e it' else Some []) = Some zs" "ys = x # zs"
    by (auto split: bind_splits)
  have "zs = rest" using zs(1) Suc.IH[OF N(2)] by (auto split: if_splits)
  then show ?case using zs(2) x by simp
qed simp

lemma old_pairs_none: "nb_iter_key m e it = None \<Longrightarrow> old_pairs n m e it = None"
  by (cases n) simp_all

text \<open>A thread whose lock is free finishes its call alone, as a sequential call.\<close>

lemma steps_trans: "bc_steps s2 s3 \<Longrightarrow> bc_steps s1 s2 \<Longrightarrow> bc_steps s1 s3"
  by (induction rule: bc_steps.induct) (auto intro: bc_steps.step)

lemma steps_one: "t < bc_threads s \<Longrightarrow> bc_step t s s' \<Longrightarrow> bc_steps s s'"
  by (rule bc_steps.step[OF bc_steps.start])

lemma enter_leave:
  "mx_enter c t mx_free = Some (if reads_only c then \<lparr>mx_owner = None, mx_sharers = {t}\<rparr> else \<lparr>mx_owner = Some t, mx_sharers = {}\<rparr>)"
  "mx_leave c t (if reads_only c then \<lparr>mx_owner = None, mx_sharers = {t}\<rparr> else \<lparr>mx_owner = Some t, mx_sharers = {}\<rparr>) = Some mx_free"
  by (simp_all add: mx_enter_def mx_leave_def mx_free_def mx_lock_def mx_lock_shared_def mx_unlock_def mx_unlock_shared_def)

lemma leave_alone:
  assumes "bc_pc s t = Leaving c i" "t < bc_threads s"
    "bc_locks s i = (if reads_only c then \<lparr>mx_owner = None, mx_sharers = {t}\<rparr> else \<lparr>mx_owner = Some t, mx_sharers = {}\<rparr>)"
  shows "bc_steps s (bc_go (bc_set_lock s i mx_free) t Idle)"
  using bc_step.leave[OF assms(1), of mx_free] enter_leave(2)[of c t] assms by (intro steps_one) simp_all

lemma finish_call:
  assumes "bc_pc s t = WaitLock c i iv" "t < bc_threads s" "bc_locks s i = mx_free" "i < physical_nr (bc_level s)"
    "bl_apply (bc_level s) i iv c = Some (b, a)"
  shows "\<exists>s'. bc_steps s s' \<and> bc_level s' = b \<and> bc_pc s' = (bc_pc s)(t := Idle) \<and> bc_locks s' = bc_locks s \<and>
    bc_threads s' = bc_threads s \<and>
    bc_log s' = bc_log s @ [\<lparr>ev_call = c, ev_slot = i, ev_interval = iv, ev_answer = a\<rparr>]"
proof -
  obtain e where e: "bl_entry (bc_level s) i = Some e" using assms(4) by (simp add: bl_entry_def)
  define l where "l = (if reads_only c then \<lparr>mx_owner = None, mx_sharers = {t}\<rparr> else \<lparr>mx_owner = Some t, mx_sharers = {}\<rparr>)"
  define ev where "ev = \<lparr>ev_call = c, ev_slot = i, ev_interval = iv, ev_answer = a\<rparr>"
  define s1 where "s1 = bc_go (bc_set_lock s i l) t (Inside c i iv)"
  have s1: "bc_steps s s1" using bc_step.enter[OF assms(1), of l] enter_leave(1)[of c t] assms(2,3)
    by (intro steps_one) (simp_all add: s1_def l_def)
  have at1: "bc_pc s1 t = Inside c i iv" "t < bc_threads s1" "bc_level s1 = bc_level s" using assms(2) by (simp_all add: s1_def)
  have "\<exists>s2. bc_steps s1 s2 \<and> bc_level s2 = b \<and> bc_pc s2 = (bc_pc s)(t := Leaving c i) \<and>
    bc_locks s2 = (bc_locks s)(i := l) \<and> bc_threads s2 = bc_threads s \<and> bc_log s2 = bc_log s @ [ev]"
  proof (cases "turned_away c e")
    case True
    define s2 where "s2 = bc_go (s1\<lparr>bc_log := bc_log s1 @ [\<lparr>ev_call = c, ev_slot = i, ev_interval = iv, ev_answer = refused c\<rparr>]\<rparr>)
      t (Leaving c i)"
    have "bc_step t s1 s2" unfolding s2_def using e True at1 by (intro bc_step.refuse) auto
    from steps_one[OF at1(2) this] show ?thesis using True assms(5)
      by (intro exI[of _ s2]) (simp add: s2_def s1_def ev_def bl_apply_work[OF e])
  next
    case False
    then obtain w d where w: "bl_work (bc_level s) i e c = Some (w, a, d)" "bump w iv d = Some b"
      using assms(5) by (auto simp: bl_apply_work[OF e] split: bind_splits)
    define s2 where "s2 = bc_go s1 t (Loaded c i iv e)"
    define s3 where "s3 = bc_go (s2\<lparr>bc_level := w, bc_log := bc_log s2 @ [ev]\<rparr>) t (if d = 0 then Leaving c i else AddSize c i iv d)"
    have "bc_step t s1 s2" unfolding s2_def using e False at1 by (intro bc_step.load) auto
    note s2 = steps_one[OF at1(2) this]
    have "bc_step t s2 s3" unfolding s3_def ev_def using w(1) at1(3) by (intro bc_step.work) (auto simp: s2_def)
    from bc_steps.step[OF s2 _ this] have s3: "bc_steps s1 s3" using at1(2) by (simp add: s2_def)
    show ?thesis
    proof (cases "d = 0")
      case True
      then show ?thesis using s3 w(2) by (intro exI[of _ s3]) (simp add: s3_def s2_def s1_def bump_def)
    next
      case nz: False
      then have w2: "add_interval (w\<lparr>bl_size := bl_size w + d\<rparr>) iv d = Some b" using w(2) by (simp add: bump_def)
      define s4 where "s4 = bc_go (s3\<lparr>bc_level := (bc_level s3)\<lparr>bl_size := bl_size (bc_level s3) + d\<rparr>\<rparr>) t (AddInterval c i iv d)"
      define s5 where "s5 = bc_go (s4\<lparr>bc_level := b\<rparr>) t (Leaving c i)"
      have "bc_step t s3 s4" unfolding s4_def using nz by (intro bc_step.add_size) (simp add: s3_def)
      from bc_steps.step[OF s3 _ this] have s4: "bc_steps s1 s4" using at1(2) by (simp add: s3_def s2_def)
      have "bc_step t s4 s5" unfolding s5_def using w2 by (intro bc_step.add_interval) (auto simp: s4_def s3_def)
      from bc_steps.step[OF s4 _ this] have "bc_steps s1 s5" using at1(2) by (simp add: s4_def s3_def s2_def)
      then show ?thesis by (intro exI[of _ s5]) (simp add: s5_def s4_def s3_def s2_def s1_def)
    qed
  qed
  then obtain s2 where s2: "bc_steps s1 s2" "bc_level s2 = b" "bc_pc s2 = (bc_pc s)(t := Leaving c i)"
    "bc_locks s2 = (bc_locks s)(i := l)" "bc_threads s2 = bc_threads s" "bc_log s2 = bc_log s @ [ev]" by blast
  have "bc_steps s2 (bc_go (bc_set_lock s2 i mx_free) t Idle)"
    using leave_alone[of s2 t c i] s2(3-5) assms(2) by (simp add: l_def)
  then have "bc_steps s (bc_go (bc_set_lock s2 i mx_free) t Idle)" using steps_trans s1 s2(1) by blast
  then show ?thesis using s2 assms(3)
    by (intro exI[of _ "bc_go (bc_set_lock s2 i mx_free) t Idle"]) (simp add: ev_def fun_upd_idem_iff)
qed

subsection \<open>The expansion loses no update\<close>

lemma nb_iter_begin_key:
  assumes "nb_iter_begin m e = Some it" "nb_iter_end it"
  shows "nb_iter_key m e it = None"
  using assms
  by (auto simp: nb_iter_begin_def nb_iter_none_def nb_iter_key_def cl_iter_key_def nb_iter_end_def cl_iter_end_def
      split: if_splits bind_splits)

lemma move_answer:
  assumes "bl_good b D M" "j < length (bl_slots b)" "bl_apply b (bl_slots b ! j) iv CallMove = Some (b', a)"
  obtains xs where "a = AnsMoved xs" "keys_sorted xs" "\<And>k. in_slot b j k \<Longrightarrow> map_of xs k = M k"
    "\<not> nb_is_valid (bl_entries b' ! (bl_slots b ! j))"
proof -
  obtain ds ass xss where H: "bl_own b ds ass xss" "M = map_of (concat xss)"
    using assms(1) by (auto simp: bl_holds_def bl_good_def)
  let ?e = "bl_live b j" and ?i = "bl_slots b ! j"
  have o: "nb_own (bl_mem b) ?e (ds ! j) (ass ! j) (xss ! j)" using H(1) assms(2) by (simp add: bl_own_def entry_ok_def)
  have i: "?i < physical_nr b" using slot_in_array[OF bl_good_shape[OF assms(1)] assms(2)] .
  then have e: "bl_entry b ?i = Some ?e" by (simp add: bl_entry_def bl_live_def)
  have b': "b' = bl_set_entry b ?i (nb_set_invalid ?e)" using assms(3) e by (auto split: bind_splits)
  have inv: "\<not> nb_is_valid (bl_entries b' ! ?i)"
    using i by (simp add: b' bl_set_entry_def physical_nr_def nb_set_invalid_def nb_is_valid_def nb_meta_def)
  have "a = AnsMoved (xss ! j)"
  proof (cases "cl_has_setup (nb_clevel ?e)")
    case True
    obtain it where it: "nb_iter_begin (bl_mem b) ?e = Some it" "nb_iter_at (bl_mem b) ?e it (xss ! j)"
      using nb_iter_begin_own[OF o] by blast
    then obtain ys where ys: "old_pairs (entry_fuel (bl_mem b)) (bl_mem b) ?e it = Some ys" "a = AnsMoved ys"
      using assms(3) e True by (auto split: bind_splits)
    have "xss ! j \<noteq> []"
    proof
      assume "xss ! j = []"
      then have "nb_iter_end it" using it(2) by (simp add: nb_iter_at_def nb_iter_end_def)
      from old_pairs_none[OF nb_iter_begin_key[OF it(1) this]] ys(1) show False by simp
    qed
    then show ?thesis using old_pairs_at[OF it(2) ys(1)] ys(2) by simp
  next
    case False
    then have "xss ! j = []" using o by (simp add: nb_own_def)
    then show ?thesis using assms(3) e False by (auto split: bind_splits)
  qed
  then show thesis using that[of "xss ! j"] nb_own_sorted[OF o] bl_own_lookup[OF H(1)] H(2) inv by metis
qed

text \<open>The answers that a log may have.  \<open>S\<close> are the entries that have been moved; \<open>K i\<close> tells the keys of entry \<open>i\<close>.
  A call on a moved entry is turned away, a move takes all pairs of its entry, and every other call acts
  on the map.\<close>

fun follows :: "(nat \<Rightarrow> u64 \<Rightarrow> bool) \<Rightarrow> (u64 \<Rightarrow> u64 option) \<Rightarrow> nat set \<Rightarrow> bl_event list \<Rightarrow> bool" where
  "follows K M S [] \<longleftrightarrow> True"
| "follows K M S (ev # evs) \<longleftrightarrow>
     (if ev_call ev = CallMove then
        (ev_slot ev \<notin> S \<longrightarrow> (\<exists>xs. ev_answer ev = AnsMoved xs \<and> keys_sorted xs \<and>
           (\<forall>k. K (ev_slot ev) k \<longrightarrow> map_of xs k = M k))) \<and>
        follows K M (insert (ev_slot ev) S) evs
      else if ev_slot ev \<in> S then ev_answer ev = refused (ev_call ev) \<and> follows K M S evs
      else ev_answer ev = snd (call_spec (ev_call ev) M) \<and> follows K (fst (call_spec (ev_call ev) M)) S evs)"

definition slot_keys :: "blevel \<Rightarrow> nat \<Rightarrow> u64 \<Rightarrow> bool" where
  "slot_keys b i k \<longleftrightarrow> (\<exists>j. in_slot b j k \<and> i = bl_slots b ! j)"

lemma slot_keys_layout: "same_layout b b' \<Longrightarrow> slot_keys b' = slot_keys b"
  by (intro ext) (simp only: slot_keys_def same_layout_facts(1,2)[of b b'])

text \<open>\<open>bx\<close> is \<open>b\<close> as it would be if the entries of \<open>S\<close> had not been moved.\<close>

definition shadows :: "nat set \<Rightarrow> blevel \<Rightarrow> blevel \<Rightarrow> bool" where
  "shadows S b bx \<longleftrightarrow> (\<exists>es. bx = b\<lparr>bl_entries := es\<rparr> \<and> length es = length (bl_entries b) \<and> bl_phys_key bx = bl_phys_key b \<and>
     (\<forall>n. n \<notin> S \<longrightarrow> es ! n = bl_entries b ! n) \<and> (\<forall>n \<in> S. \<not> nb_is_valid (bl_entries b ! n)))"

lemma shadows_layout: "shadows S b bx \<Longrightarrow> same_layout b bx"
  by (auto simp: shadows_def same_layout_def)

lemma shadows_entry: "shadows S b bx \<Longrightarrow> i \<notin> S \<Longrightarrow> bl_entry bx i = bl_entry b i"
  by (auto simp: shadows_def bl_entry_def physical_nr_def)

lemma shadows_work:
  assumes "shadows S b bx" "i \<notin> S" "bl_entry b i = Some e" "bl_work b i e c = Some (w, a, d)" "c \<noteq> CallMove"
  shows "\<exists>wx. bl_work bx i e c = Some (wx, a, d) \<and> shadows S w wx"
proof -
  obtain es where es: "bx = b\<lparr>bl_entries := es\<rparr>" "length es = length (bl_entries b)" "bl_phys_key bx = bl_phys_key b"
    "\<forall>n. n \<notin> S \<longrightarrow> es ! n = bl_entries b ! n" "\<forall>n \<in> S. \<not> nb_is_valid (bl_entries b ! n)" using assms(1) by (auto simp: shadows_def)
  have ex: "bl_entry bx i = Some e" using shadows_entry[OF assms(1,2)] assms(3) by simp
  have key: "bl_phys_key wx = bl_phys_key w" if "bl_work bx i e c = Some (wx, a, d)" for wx
    using bl_work_frame(1)[OF that ex] bl_work_frame(1)[OF assms(4,3)] es(3) by (simp add: same_layout_def)
  have "\<exists>wx esx. bl_work bx i e c = Some (wx, a, d) \<and> wx = w\<lparr>bl_entries := esx\<rparr> \<and> length esx = length (bl_entries w) \<and>
    (\<forall>n. n \<notin> S \<longrightarrow> esx ! n = bl_entries w ! n) \<and> (\<forall>n \<in> S. \<not> nb_is_valid (bl_entries w ! n))"
  proof (cases c)
    case (CallPut k v)
    then obtain m1 e1 ret where P: "nb_put (bl_mem b) e k v = Some (m1, e1, ret)" "a = AnsStatus ret" "d = 1"
      "w = bl_set_entry (b\<lparr>bl_mem := m1\<rparr>) i e1" using assms(4) by (auto split: bind_splits)
    have "bl_entries w ! n = (if n = i then e1 else bl_entries b ! n)" for n
      using assms(3) P(4) by (auto simp: bl_set_entry_def bl_entry_def physical_nr_def split: if_splits)
    then have "n \<in> S \<Longrightarrow> \<not> nb_is_valid (bl_entries w ! n)" for n using es(5) assms(2) by auto
    moreover have "es[i := e1] ! n = bl_entries w ! n" if "n \<notin> S" for n
      using es(2,4) that P(4) assms(3)
      by (cases "n = i") (auto simp: bl_set_entry_def bl_entry_def physical_nr_def split: if_splits)
    ultimately show ?thesis using P es(1,2) CallPut
      by (intro exI[of _ "bl_set_entry (bx\<lparr>bl_mem := m1\<rparr>) i e1"] exI[of _ "es[i := e1]"]) (simp add: bl_set_entry_def)
  next
    case (CallUpdate k v)
    then obtain m1 r where "nb_update (bl_mem b) e k v = Some (m1, r)" "w = b\<lparr>bl_mem := m1\<rparr>" "a = AnsBool r" "d = 0"
      using assms(4) by (auto split: bind_splits)
    then show ?thesis using es CallUpdate by (intro exI[of _ "bx\<lparr>bl_mem := m1\<rparr>"] exI[of _ es]) simp
  next
    case (CallGet k)
    then show ?thesis using assms(4) es by (intro exI[of _ bx] exI[of _ es]) (auto split: bind_splits)
  next
    case (CallDelete k)
    then obtain m1 r v where "nb_delete (bl_mem b) e k = Some (m1, r, v)" "w = b\<lparr>bl_mem := m1\<rparr>" "a = AnsDelete True v" "d = - 1"
      using assms(4) by (auto split: bind_splits)
    then show ?thesis using es CallDelete by (intro exI[of _ "bx\<lparr>bl_mem := m1\<rparr>"] exI[of _ es]) simp
  qed (use assms(5) in simp)
  then show ?thesis using key unfolding shadows_def by blast
qed

lemma shadows_bump:
  assumes "shadows S b bx" "bump b iv d = Some w"
  shows "\<exists>wx. bump bx iv d = Some wx \<and> shadows S w wx"
proof -
  obtain es where es: "bx = b\<lparr>bl_entries := es\<rparr>" "length es = length (bl_entries b)" "bl_phys_key bx = bl_phys_key b"
    "\<forall>n. n \<notin> S \<longrightarrow> es ! n = bl_entries b ! n" "\<forall>n \<in> S. \<not> nb_is_valid (bl_entries b ! n)" using assms(1) by (auto simp: shadows_def)
  obtain z ss where w: "w = b\<lparr>bl_size := z, bl_sizes := ss\<rparr>" "bump bx iv d = Some (bx\<lparr>bl_size := z, bl_sizes := ss\<rparr>)"
  proof (cases "d = 0")
    case True
    then show thesis using that[of "bl_sizes b" "bl_size b"] assms(2) es(1) by (simp add: bump_def)
  next
    case False
    then show thesis using that assms(2) es(1) by (cases iv) (auto simp: bump_def add_interval_def Let_def split: if_splits)
  qed
  have "bl_phys_key (bx\<lparr>bl_size := z, bl_sizes := ss\<rparr>) = bl_phys_key w"
    using es(3) by (simp add: w(1) bl_phys_key_def fun_eq_iff)
  then have "shadows S w (bx\<lparr>bl_size := z, bl_sizes := ss\<rparr>)"
    using es unfolding shadows_def by (intro exI[of _ es]) (simp add: w(1))
  with w(2) show ?thesis by blast
qed

lemma shadows_move:
  assumes "shadows S b bx" "bl_entry b i = Some e"
  shows "shadows (insert i S) (bl_set_entry b i (nb_set_invalid e)) bx"
proof -
  let ?w = "bl_set_entry b i (nb_set_invalid e)"
  have i: "i < length (bl_entries b)" using assms(2) by (auto simp: bl_entry_def physical_nr_def split: if_splits)
  have n: "\<not> nb_is_valid (nb_set_invalid e)" by (simp add: nb_is_valid_def nb_meta_def nb_set_invalid_def)
  have k: "bl_phys_key ?w = bl_phys_key b"
    using set_entry_layout(2)[OF assms(2), of "nb_set_invalid e"] by (simp add: same_layout_def nb_set_invalid_def)
  obtain es where es: "bx = b\<lparr>bl_entries := es\<rparr>" "length es = length (bl_entries b)" "bl_phys_key bx = bl_phys_key b"
    "\<forall>n. n \<notin> S \<longrightarrow> es ! n = bl_entries b ! n" "\<forall>n \<in> S. \<not> nb_is_valid (bl_entries b ! n)" using assms(1) by (auto simp: shadows_def)
  have "bl_entries ?w ! m = (if m = i then nb_set_invalid e else bl_entries b ! m)" for m using i by (simp add: bl_set_entry_def)
  then show ?thesis using es n k unfolding shadows_def by (intro exI[of _ es]) (auto simp: bl_set_entry_def)
qed

text \<open>A call on an entry that is still there acts the same on both.\<close>

lemma shadows_apply:
  assumes "shadows S b bx" "i \<notin> S" "i < physical_nr b" "bl_apply b i iv c = Some (b', a)"
  shows "c \<noteq> CallMove \<Longrightarrow> \<exists>bx'. bl_apply bx i iv c = Some (bx', a) \<and> shadows S b' bx'"
    "c = CallMove \<Longrightarrow> \<exists>bx'. bl_apply bx i iv c = Some (bx', a) \<and> shadows (insert i S) b' bx"
proof -
  obtain e where e: "bl_entry b i = Some e" using assms(3) by (simp add: bl_entry_def)
  then have ex: "bl_entry bx i = Some e" using shadows_entry[OF assms(1,2)] by simp
  show "\<exists>bx'. bl_apply bx i iv c = Some (bx', a) \<and> shadows S b' bx'" if c: "c \<noteq> CallMove"
  proof (cases "turned_away c e")
    case True
    then show ?thesis using assms(1,4) by (simp add: bl_apply_work[OF e] bl_apply_work[OF ex])
  next
    case False
    then obtain w d where w: "bl_work b i e c = Some (w, a, d)" "bump w iv d = Some b'"
      using assms(4) by (auto simp: bl_apply_work[OF e] split: bind_splits)
    obtain wx where wx: "bl_work bx i e c = Some (wx, a, d)" "shadows S w wx" using shadows_work[OF assms(1,2) e w(1) c] by blast
    obtain wy where "bump wx iv d = Some wy" "shadows S b' wy" using shadows_bump[OF wx(2) w(2)] by blast
    then show ?thesis using wx(1) False by (simp add: bl_apply_work[OF ex])
  qed
  show "\<exists>bx'. bl_apply bx i iv c = Some (bx', a) \<and> shadows (insert i S) b' bx" if c: "c = CallMove"
  proof -
    have m: "bl_mem bx = bl_mem b" using assms(1) by (auto simp: shadows_def)
    have "b' = bl_set_entry b i (nb_set_invalid e)" using assms(4) e c by (auto split: bind_splits)
    moreover have "\<exists>bx'. bl_apply bx i iv CallMove = Some (bx', a)" using assms(4) e ex m c by (auto split: bind_splits)
    ultimately show ?thesis using shadows_move[OF assms(1) e] c by simp
  qed
qed

lemma shadows_turned:
  assumes "shadows S b bx" "i \<in> S" "i < physical_nr b" "bl_apply b i iv c = Some (b', a)"
  shows "c \<noteq> CallMove \<Longrightarrow> b' = b \<and> a = refused c" "c = CallMove \<Longrightarrow> shadows S b' bx"
proof -
  obtain e where e: "bl_entry b i = Some e" using assms(3) by (simp add: bl_entry_def)
  have "\<not> nb_is_valid e" using assms(1-3) e by (auto simp: shadows_def bl_entry_def)
  then show "c \<noteq> CallMove \<Longrightarrow> b' = b \<and> a = refused c" using assms(4) by (simp add: bl_apply_work[OF e] turned_away_def)
  show "shadows S b' bx" if c: "c = CallMove"
  proof -
    have "b' = bl_set_entry b i (nb_set_invalid e)" using assms(4) e c by (auto split: bind_splits)
    then show ?thesis using shadows_move[OF assms(1) e] assms(2) by (simp add: insert_absorb)
  qed
qed

lemma serial_follows:
  assumes "shadows S b bx" "bl_good bx D M" "\<forall>ev \<in> set evs. hits b (ev_call ev) (ev_slot ev) (ev_interval ev)"
    "bl_serial b evs = Some b'" "D + length evs \<le> H"
    "cur_addr (bl_mem b) + length evs * ((H + 3) * node_size) < end_addr (bl_mem b)"
  shows "follows (slot_keys b) M S evs"
  using assms
proof (induction evs arbitrary: b bx D M S)
  case (Cons ev evs)
  let ?z = "(H + 3) * node_size" and ?i = "ev_slot ev" and ?c = "ev_call ev" and ?iv = "ev_interval ev"
  obtain b1 where A: "bl_apply b ?i ?iv ?c = Some (b1, ev_answer ev)" "bl_serial b1 evs = Some b'"
    using Cons.prems(4) by (auto split: bind_splits if_splits simp del: bl_apply.simps)
  have lx: "same_layout b bx" using shadows_layout[OF Cons.prems(1)] .
  have shx: "bl_shape bx" using bl_good_shape[OF Cons.prems(2)] .
  have mx: "bl_mem bx = bl_mem b" using Cons.prems(1) by (auto simp: shadows_def)
  have h: "hits bx ?c ?i ?iv" using Cons.prems(3) hits_layout[OF lx] by simp
  have i: "?i < physical_nr b" using hits_facts(1)[OF shx h] same_layout_facts(4)[OF lx] by simp
  have l1: "same_layout b b1" using apply_layout[OF A(1) i] .
  have h1: "\<forall>ev \<in> set evs. hits b1 (ev_call ev) (ev_slot ev) (ev_interval ev)" using Cons.prems(3) hits_layout[OF l1] by simp
  have le: "(D + 3) * node_size \<le> ?z" using Cons.prems(5) by (intro mult_le_mono1) simp
  have len: "length (ev # evs) * ?z = ?z + length evs * ?z" by simp
  have step: "follows (slot_keys b) M' S' evs"
    if q: "shadows S' b1 bx'" "bl_good bx' D' M'" "D' \<le> Suc D" "end_addr (bl_mem b1) = end_addr (bl_mem b)"
      "cur_addr (bl_mem b1) \<le> cur_addr (bl_mem b) + (D + 3) * node_size" for bx' S' D' M'
  proof -
    have "follows (slot_keys b1) M' S' evs"
    proof (rule Cons.IH[OF q(1,2) h1 A(2)])
      show "D' + length evs \<le> H" using Cons.prems(5) q(3) by simp
      show "cur_addr (bl_mem b1) + length evs * ?z < end_addr (bl_mem b1)"
        using Cons.prems(6) q(4,5) le len by linarith
    qed
    then show ?thesis using slot_keys_layout[OF l1] by simp
  qed
  show ?case
  proof (cases "?c = CallMove")
    case True
    have m1: "bl_mem b1 = bl_mem b"
      using A(1) True by (auto simp: bl_set_entry_def split: bind_splits)
    show ?thesis
    proof (cases "?i \<in> S")
      case s: True
      then show ?thesis using step[OF shadows_turned(2)[OF Cons.prems(1) s i A(1) True] Cons.prems(2)] True m1
        by (simp add: insert_absorb)
    next
      case False
      obtain bx' where X: "bl_apply bx ?i ?iv ?c = Some (bx', ev_answer ev)" "shadows (insert ?i S) b1 bx"
        using shadows_apply(2)[OF Cons.prems(1) False i A(1) True] by blast
      obtain j where j: "j < length (bl_slots bx)" "?i = bl_slots bx ! j" using h True by (auto simp: hits_def in_set_conv_nth)
      obtain xs where P: "ev_answer ev = AnsMoved xs" "keys_sorted xs" "\<And>k. in_slot bx j k \<Longrightarrow> map_of xs k = M k"
        using move_answer[OF Cons.prems(2) j(1) X(1)[unfolded j(2) True]] by blast
      have "map_of xs k = M k" if k: "slot_keys b ?i k" for k
      proof -
        obtain j' where j': "in_slot bx j' k" "?i = bl_slots bx ! j'" using k same_layout_facts(1,2)[OF lx] by (auto simp: slot_keys_def)
        have "j' < length (bl_slots bx)" using j'(1) by (simp add: in_slot_def)
        then have "j' = j" using j j'(2) slots_distinct[OF shx] by (simp add: nth_eq_iff_index_eq)
        then show ?thesis using P(3) j'(1) by simp
      qed
      then show ?thesis using step[OF X(2) Cons.prems(2)] True P(1,2) m1 by simp
    qed
  next
    case False
    show ?thesis
    proof (cases "?i \<in> S")
      case s: True
      then show ?thesis using step[of S bx D M] shadows_turned(1)[OF Cons.prems(1) s i A(1) False] Cons.prems(1,2) False by simp
    next
      case s: False
      obtain bx' where X: "bl_apply bx ?i ?iv ?c = Some (bx', ev_answer ev)" "shadows S b1 bx'"
        using shadows_apply(1)[OF Cons.prems(1) s i A(1) False] by blast
      have "?z \<le> length (ev # evs) * ?z" by simp
      then have rm: "bl_room bx D" using Cons.prems(6) le unfolding bl_room_def mx by linarith
      have m1: "bl_mem bx' = bl_mem b1" using X(2) by (auto simp: shadows_def)
      obtain M' D' where S: "call_spec ?c M = (M', ev_answer ev)" "bl_good bx' D' M'" "D' \<le> Suc D"
        "end_addr (bl_mem bx') = end_addr (bl_mem bx)" "cur_addr (bl_mem bx') \<le> cur_addr (bl_mem bx) + (D + 3) * node_size"
        using apply_spec[OF Cons.prems(2) h False X(1) rm] by blast
      then show ?thesis using step[OF X(2) S(2,3)] False s by (simp add: m1 mx)
    qed
  qed
qed simp

lemma shadows_self: "shadows {} b b"
  by (auto simp: shadows_def intro!: exI[of _ "bl_entries b"])

lemma run_follows:
  assumes "bl_good b D M" "bc_steps (bc_new n b) s"
    "cur_addr (bl_mem b) + length (bc_log s) * ((D + length (bc_log s) + 3) * node_size) < end_addr (bl_mem b)"
  shows "follows (slot_keys b) M {} (bc_log s)"
  using run_serial[OF assms(1,2)] serial_follows[OF shadows_self assms(1) _ _ order_refl assms(3)] by blast

subsection \<open>Calls that come too late\<close>

text \<open>The move of an entry that holds a pair returns: the bound on the pairs is never reached.\<close>

lemma flat_of_length:
  assumes "\<forall>l \<in> set ls. length (fst (snd l)) \<le> n"
  shows "length (flat_of ls) \<le> n * length ls"
  using assms by (induction ls) auto

lemma own_length:
  assumes "nb_own m e d as xs"
  shows "length xs \<le> entry_fuel m"
proof (cases "cl_has_setup (nb_clevel e)")
  case True
  then obtain t where t: "cl_tree (nb_key e) (nb_suffix e) m d t" "ct_flat t = xs"
    using assms by (auto simp: nb_own_def cl_own_def)
  have "length ys \<le> 12" if "leaf_at (nb_key e) (nb_suffix e) m a ys n" for a ys n
    using that by (auto simp: leaf_at_def node_ok_def sb_wf_def)
  then have "\<forall>l \<in> set (ct_leaves t). length (fst (snd l)) \<le> 12" using tree_leaf_run[OF t(1)] by (force simp: leaf_run_def)
  from flat_of_length[OF this] have "length xs \<le> 12 * cl_leaf_count t" using t(2) by (simp add: flat_of_leaves cl_leaf_count_def)
  then show ?thesis using tree_fuel(2)[OF t(1)] by (simp add: entry_fuel_def)
qed (use assms in \<open>simp add: nb_own_def\<close>)

lemma old_pairs_run: "nb_iter_at m e it xs \<Longrightarrow> xs \<noteq> [] \<Longrightarrow> length xs \<le> n \<Longrightarrow> old_pairs n m e it = Some xs"
proof (induction n arbitrary: it xs)
  case (Suc n)
  then obtain x rest where x: "xs = x # rest" by (cases xs) auto
  have at: "nb_iter_at m e it (x # rest)" using Suc.prems(1) x by simp
  obtain it' where N: "nb_iter_next m it = Some (it', rest \<noteq> [])" "nb_iter_at m e it' rest" using nb_iter_at_next[OF at] by blast
  have "rest \<noteq> [] \<Longrightarrow> old_pairs n m e it' = Some rest" using Suc.IH[OF N(2)] Suc.prems(3) x by simp
  then show ?case using N(1) nb_iter_at_values[OF at] x by simp
qed simp

lemma move_returns:
  assumes "bl_good b D M" "in_slot b j k" "M k \<noteq> None"
  shows "\<exists>b' xs. bl_apply b (bl_slots b ! j) iv CallMove = Some (b', AnsMoved xs) \<and> map_of xs k = M k \<and>
    same_layout b b' \<and> \<not> nb_is_valid (bl_entries b' ! (bl_slots b ! j))"
proof -
  obtain ds ass xss where H: "bl_own b ds ass xss" "M = map_of (concat xss)"
    using assms(1) by (auto simp: bl_holds_def bl_good_def)
  let ?e = "bl_live b j" and ?i = "bl_slots b ! j"
  note E = slot_entry[OF H(1) assms(2)]
  have o: "nb_own (bl_mem b) ?e (ds ! j) (ass ! j) (xss ! j)" using E(2) by (simp add: entry_ok_def)
  have i: "?i < physical_nr b" using slot_in_array[OF bl_good_shape[OF assms(1)] E(3)] .
  have e: "bl_entry b ?i = Some ?e" using i by (simp add: bl_entry_def bl_live_def)
  have ne: "xss ! j \<noteq> []" using bl_own_lookup[OF H(1) assms(2)] assms(3) H(2) by auto
  then have su: "cl_has_setup (nb_clevel ?e)" using o by (auto simp: nb_own_def split: if_splits)
  obtain it where it: "nb_iter_begin (bl_mem b) ?e = Some it" "nb_iter_at (bl_mem b) ?e it (xss ! j)"
    using nb_iter_begin_own[OF o] by blast
  have A: "bl_apply b ?i iv CallMove = Some (bl_set_entry b ?i (nb_set_invalid ?e), AnsMoved (xss ! j))"
    using e su it(1) old_pairs_run[OF it(2) ne own_length[OF o]] by simp
  from move_answer[OF assms(1) E(3) A] assms(2) have "map_of (xss ! j) k = M k"
    "\<not> nb_is_valid (bl_entries (bl_set_entry b ?i (nb_set_invalid ?e)) ! ?i)" by blast+
  then show ?thesis using A apply_layout[OF A i] by blast
qed

text \<open>A thread that has searched before the expansion moves the entry is turned away, whatever the entry held.\<close>

lemma late_call:
  assumes "bl_good b D M" "bl_found b c i iv" "call_key c = Some k" "M k \<noteq> None" "2 \<le> n"
  shows "\<exists>s xs. bc_steps (bc_new n b) s \<and> (\<forall>t < n. bc_pc s t = Idle) \<and> map_of xs k = M k \<and>
    map (\<lambda>ev. (ev_call ev, ev_answer ev)) (bc_log s) = [(CallMove, AnsMoved xs), (c, refused c)]"
proof -
  have g: "bl_shape b" "gaps_ok b" using bl_good_shape[OF assms(1)] assms(1) by (simp_all add: bl_good_def)
  obtain j where j: "in_slot b j k" "i = bl_slots b ! j" using found_hits[OF g assms(2)] assms(3) by (auto simp: hits_def)
  have jl: "j < length (bl_slots b)" using j(1) by (simp add: in_slot_def)
  have i: "i < physical_nr b" using slot_in_array[OF g(1) jl] j(2) by simp
  let ?s0 = "bc_new n b"
  define s1 where "s1 = bc_go ?s0 0 (WaitLock c i iv)"
  have "bc_step 0 ?s0 s1" unfolding s1_def using assms(2) by (intro bc_step.search) (simp_all add: bc_new_def)
  with assms(5) have s1: "bc_steps ?s0 s1" by (intro steps_one) (simp_all add: bc_new_def)
  define s2 where "s2 = bc_go s1 1 (WaitLock CallMove i (0, 0))"
  have "bl_found b CallMove i (0, 0)" using j(2) jl by (simp add: bl_found_def)
  then have "bc_step 1 s1 s2" unfolding s2_def by (intro bc_step.search) (simp_all add: s1_def bc_new_def)
  from bc_steps.step[OF s1 _ this] assms(5) have s2: "bc_steps ?s0 s2" by (simp add: s1_def bc_new_def)
  have f2: "bc_locks s2 i = mx_free" "bc_threads s2 = n" "bc_level s2 = b" "bc_log s2 = []"
    "bc_pc s2 0 = WaitLock c i iv" "bc_pc s2 1 = WaitLock CallMove i (0, 0)" "\<And>t. 1 < t \<Longrightarrow> bc_pc s2 t = Idle"
    by (simp_all add: s2_def s1_def bc_new_def)
  obtain b' xs where m: "bl_apply b i (0, 0) CallMove = Some (b', AnsMoved xs)" "map_of xs k = M k" "same_layout b b'"
    "\<not> nb_is_valid (bl_entries b' ! i)" using move_returns[OF assms(1) j(1) assms(4)] j(2) by blast
  obtain s3 where s3: "bc_steps s2 s3" "bc_level s3 = b'" "bc_pc s3 = (bc_pc s2)(1 := Idle)" "bc_locks s3 = bc_locks s2"
    "bc_threads s3 = n" "map (\<lambda>ev. (ev_call ev, ev_answer ev)) (bc_log s3) = [(CallMove, AnsMoved xs)]"
    using finish_call[of s2 1 CallMove i "(0, 0)" b' "AnsMoved xs"] f2 i m(1) assms(5) by (auto simp del: bl_apply.simps)
  have i': "i < physical_nr b'" using i same_layout_facts(4)[OF m(3)] by simp
  have "bl_entry b' i = Some (bl_entries b' ! i)" using i' by (simp add: bl_entry_def)
  from bl_apply_work[OF this] m(4) assms(3) have "bl_apply b' i iv c = Some (b', refused c)" by (auto simp: turned_away_def)
  then obtain s4 where s4: "bc_steps s3 s4" "bc_pc s4 = (bc_pc s3)(0 := Idle)"
    "map (\<lambda>ev. (ev_call ev, ev_answer ev)) (bc_log s4) = [(CallMove, AnsMoved xs), (c, refused c)]"
    using finish_call[of s3 0 c i iv b' "refused c"] s3 f2 i' assms(5) by (auto simp del: bl_apply.simps)
  have "bc_steps ?s0 s4" using s2 s3(1) s4(1) steps_trans by blast
  moreover have "bc_pc s4 t = Idle" for t using s4(2) s3(3) f2(7)[of t] by (cases "t = 0 \<or> t = 1") auto
  ultimately show ?thesis using m(2) s4(3) by (intro exI[of _ s4] exI[of _ xs]) simp
qed

subsection \<open>The layout of an entry\<close>

text \<open>The sixteen bytes of an entry: a key, four fields of four bits, a pointer of six bytes.\<close>

definition nb_typed :: "nobuf_entry \<Rightarrow> bool" where
  "nb_typed e \<longleftrightarrow> nb_prefix e < 16 \<and> nb_suffix e < 16 \<and> nb_entries e < 16 \<and> nb_max e < 16 \<and> take_bit 48 (nb_clevel e) = nb_clevel e"

definition bl_typed :: "blevel \<Rightarrow> bool" where
  "bl_typed b \<longleftrightarrow> list_all nb_typed (bl_entries b)"

lemma six_bytes_typed [simp]: "take_bit 48 (six_bytes a) = six_bytes a"
  by (simp add: six_bytes_def)

lemma bits4_typed [simp]: "bits4 i < 16"
  by (simp add: bits4_def)

lemma cl_setup_typed: "cl_setup m s = Some (m1, c) \<Longrightarrow> take_bit 48 c = c"
  by (auto simp: cl_setup_def split: bind_splits)

lemma cl_put_typed: "cl_put f m c k v = Some (m1, c1, r) \<Longrightarrow> take_bit 48 c = c \<Longrightarrow> take_bit 48 c1 = c1"
  by (auto simp: cl_put_def Let_def split: bind_splits if_splits)

lemma nb_put_typed:
  assumes "nb_put m e k v = Some (m1, e1, r)" "nb_typed e"
  shows "nb_typed e1"
proof -
  obtain m0 c0 c2 ret where c: "(if \<not> cl_has_setup (nb_clevel e) then cl_setup m (nb_suffix e) else Some (m, nb_clevel e)) = Some (m0, c0)"
    "cl_put (cl_fuel m0) m0 c0 k v = Some (m1, c2, ret)" "e1 = e\<lparr>nb_clevel := c2\<rparr>"
    using assms(1) by (auto simp: nb_put_def split: bind_splits)
  have "take_bit 48 c0 = c0" using c(1) assms(2) cl_setup_typed by (auto simp: nb_typed_def split: if_splits)
  then show ?thesis using cl_put_typed[OF c(2)] assms(2) c(3) by (simp add: nb_typed_def)
qed

lemma nb_new_typed: "nb_new m raw k p = Some (m1, e) \<Longrightarrow> nb_typed raw \<Longrightarrow> nb_typed e"
  using cl_setup_typed by (auto simp: nb_new_def nb_typed_def Let_def split: bind_splits)

lemma nb_invalid_typed: "nb_typed e \<Longrightarrow> nb_typed (nb_set_invalid e)"
  by (simp add: nb_typed_def nb_set_invalid_def)

lemma bl_typed_entry: "bl_typed b \<Longrightarrow> bl_entry b i = Some e \<Longrightarrow> nb_typed e"
  by (auto simp: bl_typed_def bl_entry_def physical_nr_def list_all_length split: if_splits)

lemma bl_typed_set: "bl_typed b \<Longrightarrow> nb_typed e \<Longrightarrow> bl_typed (bl_set_entry b i e)"
  by (cases "i < length (bl_entries b)") (auto simp: bl_typed_def bl_set_entry_def list_all_length nth_list_update)

lemma bl_typed_mem [simp]: "bl_typed (b\<lparr>bl_mem := m\<rparr>) = bl_typed b" "bl_typed (b\<lparr>bl_size := z\<rparr>) = bl_typed b"
  by (simp_all add: bl_typed_def)

text \<open>Building and expanding keep the layout.\<close>

lemma ex_put_buffered_typed: "ex_put_buffered m e d is = Some (m1, e1) \<Longrightarrow> nb_typed e \<Longrightarrow> nb_typed e1"
  by (induction "is" arbitrary: m e) (auto split: bind_splits dest: nb_put_typed)

lemma ex_new_entry_typed:
  assumes "ex_new_entry b d k = Some (b1, d1)" "bl_typed b"
  shows "bl_typed b1"
proof -
  obtain raw m1 e1 m2 e2 where s: "bl_entry b (ex_new d) = Some raw"
    "nb_new (bl_mem b) raw (ex_entry_key d) (common_prefix_bytes (ex_entry_key d) k) = Some (m1, e1)"
    "ex_put_buffered m1 e1 d [0..<ex_buf_count d] = Some (m2, e2)" "b1 = bl_set_entry (b\<lparr>bl_mem := m2\<rparr>) (ex_new d) e2"
    using assms(1) by (auto simp: ex_new_entry_def flush_to_entry_def Let_def split: bind_splits)
  have "nb_typed e2" using ex_put_buffered_typed[OF s(3) nb_new_typed[OF s(2) bl_typed_entry[OF assms(2) s(1)]]] .
  then show ?thesis using bl_typed_set assms(2) s(4) by simp
qed

lemma ex_last_entry_typed:
  assumes "ex_last_entry b d = Some (b1, d1)" "bl_typed b"
  shows "bl_typed b1"
proof -
  obtain e m1 e1 where s: "bl_entry b (ex_new d - 1) = Some e"
    "ex_put_buffered (bl_mem b) e d [0..<ex_buf_count d] = Some (m1, e1)" "b1 = bl_set_entry (b\<lparr>bl_mem := m1\<rparr>) (ex_new d - 1) e1"
    using assms(1) by (auto simp: ex_last_entry_def split: bind_splits if_splits)
  have "nb_typed e1" using ex_put_buffered_typed[OF s(2) bl_typed_entry[OF assms(2) s(1)]] .
  then show ?thesis using bl_typed_set assms(2) s(3) by simp
qed

lemma expand_put_typed: "expand_put b d k v = Some (b1, d1) \<Longrightarrow> bl_typed b \<Longrightarrow> bl_typed b1"
  using ex_new_entry_typed ex_last_entry_typed
  by (auto simp: expand_put_def ex_spill_def split: bind_splits if_splits)

lemma expand_finish_typed: "expand_finish b d = Some (b1, d1) \<Longrightarrow> bl_typed b \<Longrightarrow> bl_typed b1"
  using ex_new_entry_typed ex_last_entry_typed by (auto simp: expand_finish_def split: bind_splits if_splits)

lemma expand_put_all_typed: "expand_put_all b d xs = Some (b1, d1) \<Longrightarrow> bl_typed b \<Longrightarrow> bl_typed b1"
  by (induction xs arbitrary: b d) (auto split: bind_splits dest: expand_put_typed)

lemma bl_new_typed: "bl_typed (bl_new n m)"
  by (simp add: bl_new_def bl_typed_def list_all_length Let_def zero_entry_def nb_typed_def six_bytes_def)

lemma bl_load_typed:
  assumes "bl_load b data = Some b1" "bl_typed b"
  shows "bl_typed b1"
proof (cases "data = []")
  case False
  then obtain b2 d2 b3 d3 where s: "expand_put_all b ((ex_data 0 (physical_nr b) 0)\<lparr>ex_last_key := - 1\<rparr>) data = Some (b2, d2)"
    "expand_finish b2 d2 = Some (b3, d3)" "bl_entries b1 = bl_entries b3"
    using assms(1) by (auto simp: bl_load_def Let_def split: bind_splits if_splits)
  then show ?thesis using expand_put_all_typed[OF s(1) assms(2)] expand_finish_typed[OF s(2)] by (simp add: bl_typed_def)
qed (use assms in \<open>simp add: bl_load_def\<close>)

lemma bl_work_typed:
  assumes "bl_work b i e c = Some (b1, a, d)" "bl_typed b" "nb_typed e"
  shows "bl_typed b1"
proof (cases c)
  case (CallPut k v)
  then obtain m1 e1 r where p: "nb_put (bl_mem b) e k v = Some (m1, e1, r)" "b1 = bl_set_entry (b\<lparr>bl_mem := m1\<rparr>) i e1"
    using assms(1) by (auto split: bind_splits)
  then show ?thesis using bl_typed_set[OF _ nb_put_typed[OF p(1) assms(3)]] assms(2) by simp
next
  case CallMove
  then have "b1 = bl_set_entry b i (nb_set_invalid e)" using assms(1) by (auto split: bind_splits)
  then show ?thesis using bl_typed_set[OF assms(2) nb_invalid_typed[OF assms(3)]] by simp
qed (use assms in \<open>auto split: bind_splits\<close>)

text \<open>So does every step of a thread, which keeps typed copies of entries.\<close>

definition conc_typed :: "bl_conc \<Rightarrow> bool" where
  "conc_typed s \<longleftrightarrow> bl_typed (bc_level s) \<and> (\<forall>t c i iv e. bc_pc s t = Loaded c i iv e \<longrightarrow> nb_typed e)"

lemma conc_typed_step:
  assumes "bc_step t s s'" "conc_typed s"
  shows "conc_typed s'"
  using assms
proof (cases rule: bc_step.cases)
  case (load c i iv e)
  then show ?thesis using assms(2) bl_typed_entry by (auto simp: conc_typed_def)
next
  case (work c i iv e b a d)
  then have e: "nb_typed e" "bl_typed (bc_level s)" using assms(2) unfolding conc_typed_def by blast+
  then have "bl_typed b" using bl_work_typed[OF work(3)] by blast
  then show ?thesis using assms(2) work by (auto simp: conc_typed_def)
next
  case (add_interval c i iv d b)
  then have "bl_entries b = bl_entries (bc_level s)" using add_interval_layout by blast
  then show ?thesis using assms(2) add_interval by (auto simp: conc_typed_def bl_typed_def)
qed (auto simp: conc_typed_def)

lemma conc_typed_steps: "bc_steps s s' \<Longrightarrow> conc_typed s \<Longrightarrow> conc_typed s'"
  by (induction rule: bc_steps.induct) (auto intro: conc_typed_step)

end
