(* ===== verification/LeafContract.thy ===== *)
theory LeafContract
  imports Prelude "HOL-Library.Monad_Syntax"
begin

text \<open>
  What the three leaves of \<^verbatim>\<open>src/pointer_bentry.h\<close> have in common, so that the type \<^verbatim>\<open>buncket_t\<close> can name any one of
  them: a new key is stored while there is room and refused with \<open>Full\<close> after that, and a lookup
  gives the value of the pair.  \<open>put_all\<close> calls \<^verbatim>\<open>Put\<close> for the pairs of a list, as the splits of the
  leaves do; its contract is proved once for every leaf.  Keys and values are not 0, which marks removed
  records in two of the leaves.
\<close>

fun put_all :: "('s \<Rightarrow> u64 \<Rightarrow> u64 \<Rightarrow> ('s \<times> status) option) \<Rightarrow> 's \<Rightarrow> kv list \<Rightarrow> ('s \<times> status list) option" where
  "put_all put s [] = Some (s, [])"
| "put_all put s ((k, v) # xs) =
     do { (s1, ret) \<leftarrow> put s k v; (s2, rets) \<leftarrow> put_all put s1 xs; Some (s2, ret # rets) }"

lemma keys_sorted_unique:
  assumes "keys_sorted xs" "keys_sorted ys" "set xs = set ys"
  shows "xs = ys"
proof (rule map_sorted_distinct_set_unique)
  show "inj_on fst (set xs \<union> set ys)" using keys_sorted_distinct[OF assms(1)] assms(3) by (simp add: distinct_map)
qed (use assms keys_sorted_def strict_sorted_iff in blast)+

locale kv_leaf =
  fixes inv :: "'s \<Rightarrow> bool"
    and items :: "'s \<Rightarrow> kv list"
    and room :: nat
    and put :: "'s \<Rightarrow> u64 \<Rightarrow> u64 \<Rightarrow> ('s \<times> status) option"
  assumes inv_distinct: "inv s \<Longrightarrow> distinct (map fst (items s))"
    and inv_room: "inv s \<Longrightarrow> length (items s) \<le> room"
    and put_fresh: "inv s \<Longrightarrow> length (items s) < room \<Longrightarrow> k \<noteq> 0 \<Longrightarrow> map_of (items s) k = None \<Longrightarrow>
      \<exists>s'. put s k v = Some (s', OK) \<and> inv s' \<and> set (items s') = insert (k, v) (set (items s))"
    and put_full: "inv s \<Longrightarrow> length (items s) = room \<Longrightarrow> map_of (items s) k = None \<Longrightarrow> put s k v = Some (s, Full)"
begin

lemma put_fresh_length:
  assumes "inv s" "inv s'" "map_of (items s) k = None" "set (items s') = insert (k, v) (set (items s))"
  shows "length (items s') = Suc (length (items s))"
proof -
  have "(k, v) \<notin> set (items s)" using assms(3) by (force simp: map_of_eq_None_iff)
  then have "card (set (items s')) = Suc (card (set (items s)))" using assms(4) by simp
  then show ?thesis using inv_distinct[OF assms(1)] inv_distinct[OF assms(2)] by (simp add: distinct_map distinct_card)
qed

lemma put_all_fills:
  assumes "inv s" "distinct (map fst xs)" "fst ` set xs \<inter> fst ` set (items s) = {}" "0 \<notin> fst ` set xs"
  shows "\<exists>s'. put_all put s xs = Some (s', map (\<lambda>i. if length (items s) + i < room then OK else Full) [0..<length xs]) \<and>
    inv s' \<and> set (items s') = set (items s) \<union> set (take (room - length (items s)) xs)"
  using assms
proof (induction xs arbitrary: s)
  case (Cons x xs)
  obtain k v where x: "x = (k, v)" by fastforce
  have k: "k \<noteq> 0" "map_of (items s) k = None" using Cons.prems(3,4) x by (auto simp: map_of_eq_None_iff)
  have up: "[0..<length (x # xs)] = 0 # map Suc [0..<length xs]" by (simp add: map_Suc_upt upt_conv_Cons del: upt_Suc)
  show ?case
  proof (cases "length (items s) < room")
    case True
    obtain s1 where s1: "put s k v = Some (s1, OK)" "inv s1" "set (items s1) = insert (k, v) (set (items s))"
      using put_fresh[OF Cons.prems(1) True k] by blast
    have l: "length (items s1) = Suc (length (items s))" by (rule put_fresh_length[OF Cons.prems(1) s1(2) k(2) s1(3)])
    have "fst ` set xs \<inter> fst ` set (items s1) = {}" using Cons.prems(2,3) s1(3) x by auto
    with Cons.IH[OF s1(2)] Cons.prems(2,4) obtain s' where s': "inv s'"
        "put_all put s1 xs = Some (s', map (\<lambda>i. if length (items s1) + i < room then OK else Full) [0..<length xs])"
        "set (items s') = set (items s1) \<union> set (take (room - length (items s1)) xs)" by auto
    have t: "set (take (room - length (items s)) (x # xs)) = insert x (set (take (room - length (items s1)) xs))"
      using True l by (simp add: take_Cons')
    show ?thesis using s1 s' t l True x unfolding up by (intro exI[of _ s']) (auto simp: comp_def)
  next
    case False
    then have f: "length (items s) = room" using inv_room[OF Cons.prems(1)] by simp
    have "fst ` set xs \<inter> fst ` set (items s) = {}" using Cons.prems(3) by auto
    with Cons.IH[OF Cons.prems(1)] Cons.prems(2,4) obtain s' where s': "inv s'"
        "put_all put s xs = Some (s', map (\<lambda>i. if length (items s) + i < room then OK else Full) [0..<length xs])"
        "set (items s') = set (items s) \<union> set (take (room - length (items s)) xs)" by auto
    show ?thesis using put_full[OF Cons.prems(1) f k(2)] s' f x unfolding up by (intro exI[of _ s']) (auto simp: comp_def)
  qed
qed auto

end

locale leaf_lookup = kv_leaf inv items room put
  for inv :: "'s \<Rightarrow> bool" and items room put +
  fixes get :: "'s \<Rightarrow> u64 \<Rightarrow> u64 option"
  assumes get_map: "inv s \<Longrightarrow> k \<noteq> 0 \<Longrightarrow> 0 \<notin> snd ` set (items s) \<Longrightarrow> get s k = map_of (items s) k"
begin

text \<open>A new leaf holds the first pairs, as many as there is room for.\<close>

lemma filled_leaf_reads:
  assumes "inv s" "items s = []" "distinct (map fst xs)" "0 \<notin> fst ` set xs" "0 \<notin> snd ` set xs"
  shows "\<exists>s'. put_all put s xs = Some (s', replicate (min room (length xs)) OK @ replicate (length xs - room) Full) \<and>
    inv s' \<and> (\<forall>k. k \<noteq> 0 \<longrightarrow> get s' k = map_of (take room xs) k)"
proof -
  obtain s' where s': "put_all put s xs = Some (s', map (\<lambda>i. if i < room then OK else Full) [0..<length xs])" "inv s'"
    "set (items s') = set (take room xs)" using put_all_fills[OF assms(1,3)] assms(2,4) by auto
  have "map (\<lambda>i. if i < room then OK else Full) [0..<length xs] = replicate (min room (length xs)) OK @ replicate (length xs - room) Full"
    by (intro nth_equalityI) (auto simp: nth_append)
  moreover have "get s' k = map_of (take room xs) k" if "k \<noteq> 0" for k
  proof -
    have "0 \<notin> snd ` set (items s')" using assms(5) s'(3) by (auto dest: in_set_takeD)
    then have "get s' k = map_of (items s') k" using get_map[OF s'(2) that] by simp
    also have "\<dots> = map_of (take room xs) k"
      using map_of_inject_set[OF inv_distinct[OF s'(2)], of "take room xs"] assms(3) s'(3) by (simp add: take_map[symmetric])
    finally show ?thesis .
  qed
  ultimately show ?thesis using s' by auto
qed

end

end
