(* ===== verification/SortBuncket.thy ===== *)
theory SortBuncket
  imports Search LeafContract
begin

text \<open>
  \<^verbatim>\<open>src/pointer_bentry.h\<close>, lines 800 to 1430: \<^verbatim>\<open>SortBuncket<256, 8>\<close>, the leaf of the pointer entries: fifteen
  records in key order, a link to the next leaf, and the numbers of records and of positions in
  use.  A deleted record stays as a tombstone with key 0 (\<^verbatim>\<open>USE_DELETE_0\<close>).  Leaves lie in a
  bump-allocated region; addresses are offsets from \<^verbatim>\<open>BaseAddr()\<close>.  \<open>raw\<close> is what the memory of a
  new leaf holds, as the constructors do not write the records.  Flushes and fences have no effect
  on the contents.  An insertion behind the fifteen records is \<open>None\<close>.

  The lemmas: on a leaf without tombstones all operations act on the sorted list of its pairs;
  with tombstones lookups stay right, but the next insertion may break the order.
\<close>

subsection \<open>State\<close>

definition sk_slots :: nat where "sk_slots = 15"
definition sk_size :: nat where "sk_size = 256"

record sbuncket =
  sk_next :: "nat option"
  sk_last :: nat
  sk_entries :: nat
  sk_max :: nat
  sk_rec :: "kv list"

record skmem =
  sm_cur :: nat
  sm_end :: nat
  sm_heap :: "nat \<Rightarrow> sbuncket option"
  sm_raw :: "nat \<Rightarrow> kv list"
  sm_expands :: u64

definition sk_key :: "sbuncket \<Rightarrow> nat \<Rightarrow> u64" where "sk_key b i = fst (sk_rec b ! i)"
definition sk_value :: "sbuncket \<Rightarrow> nat \<Rightarrow> u64" where "sk_value b i = snd (sk_rec b ! i)"

definition sk_new :: "kv list \<Rightarrow> sbuncket" where
  "sk_new raw = \<lparr>sk_next = None, sk_last = 0, sk_entries = 0, sk_max = min ((sk_size - (8 + 4)) div 16) 256, sk_rec = raw\<rparr>"

subsection \<open>Insertion\<close>

text \<open>The highest tombstone below a position; closing it shifts the records behind it down.  The last
  record read may lie behind the array; its copy lies behind the last position then.\<close>

fun sk_hole :: "kv list \<Rightarrow> nat \<Rightarrow> nat option" where
  "sk_hole r 0 = None"
| "sk_hole r (Suc i) = (if fst (r ! i) = 0 then Some i else sk_hole r i)"

fun sk_close :: "kv list \<Rightarrow> nat list \<Rightarrow> kv list" where
  "sk_close r [] = r"
| "sk_close r (i # is) = sk_close (if Suc i < length r then r[i := r ! Suc i] else r) is"

lemma length_sk_close [simp]: "length (sk_close r is) = length r"
  by (induction r "is" rule: sk_close.induct) simp_all

definition sk_compact :: "sbuncket \<Rightarrow> sbuncket" where
  "sk_compact b =
     (let r = (case sk_hole (sk_rec b) (sk_last b) of
                 Some i \<Rightarrow> sk_close (sk_rec b) [i..<sk_last b]
               | None \<Rightarrow> sk_rec b)
      in b\<lparr>sk_rec := r, sk_last := sk_last b - 1\<rparr>)"

text \<open>The shifting loop; it ends at the first record that is not greater, or at the front.\<close>

fun sk_insert :: "u64 \<Rightarrow> u64 \<Rightarrow> nat \<Rightarrow> kv list \<Rightarrow> kv list" where
  "sk_insert k v 0 r = r[0 := (k, v)]"
| "sk_insert k v (Suc i) r =
     (if k < fst (r ! i) then sk_insert k v i (r[Suc i := r ! i]) else r[Suc i := (k, v)])"

definition sk_put_buf :: "sbuncket \<Rightarrow> u64 \<Rightarrow> u64 \<Rightarrow> (sbuncket \<times> status) option" where
  "sk_put_buf b new_key value =
     (if sk_entries b \<ge> sk_max b then Some (b, Full)
      else if sk_entries b = 0
      then Some (b\<lparr>sk_rec := (sk_rec b)[0 := (new_key, value), 1 := (fst (sk_rec b ! 1), 0)]\<rparr>, OK)
      else let b1 = (if sk_last b \<ge> sk_max b - 1 \<and> sk_last b \<noteq> sk_entries b then sk_compact b else b)
           in if sk_last b1 < length (sk_rec b1)
              then Some (b1\<lparr>sk_rec := sk_insert new_key value (sk_last b1) (sk_rec b1)\<rparr>, OK) else None)"

text \<open>The counters are bit fields of eight bits.\<close>

definition sk_count_up :: "sbuncket \<Rightarrow> sbuncket" where
  "sk_count_up b = b\<lparr>sk_entries := (sk_entries b + 1) mod 256, sk_last := (sk_last b + 1) mod 256\<rparr>"

definition sk_put :: "sbuncket \<Rightarrow> u64 \<Rightarrow> u64 \<Rightarrow> (sbuncket \<times> status) option" where
  "sk_put b key value =
     do { (b1, ret) \<leftarrow> sk_put_buf b key value; Some (if ret \<noteq> OK then (b1, ret) else (sk_count_up b1, OK)) }"

definition sk_new_put :: "kv list \<Rightarrow> u64 \<Rightarrow> u64 \<Rightarrow> sbuncket option" where
  "sk_new_put raw key value = map_option fst (sk_put (sk_new raw) key value)"

text \<open>\<^verbatim>\<open>Load\<close>: the values come in reverse order.  \<open>None\<close> is the failed assertion.\<close>

definition sk_load :: "sbuncket \<Rightarrow> u64 list \<Rightarrow> u64 list \<Rightarrow> nat \<Rightarrow> sbuncket option" where
  "sk_load b keys values count =
     (if sk_entries b = 0 \<and> count < sk_max b
      then Some (b\<lparr>sk_rec := map (\<lambda>i. (keys ! i, values ! (count - i - 1))) [0..<count] @ drop count (sk_rec b),
                   sk_entries := sk_entries b + count, sk_last := sk_last b + count\<rparr>)
      else None)"

subsection \<open>Searches\<close>

definition sk_find :: "sbuncket \<Rightarrow> u64 \<Rightarrow> int \<times> bool" where
  "sk_find b target = bsearch (sk_key b) target 0 (int (sk_entries b) - 1)"

function sk_linear :: "sbuncket \<Rightarrow> u64 \<Rightarrow> nat \<Rightarrow> nat" where
  "sk_linear b target i = (if i < sk_last b \<and> sk_key b i < target then sk_linear b target (Suc i) else i)"
  by pat_completeness auto
termination by (relation "measure (\<lambda>(b, target, i). sk_last b - i)") auto

declare sk_linear.simps [simp del]

definition sk_linear_find :: "sbuncket \<Rightarrow> u64 \<Rightarrow> nat \<times> bool" where
  "sk_linear_find b target =
     (let i = sk_linear b target 0 in (i, i < sk_last b \<and> target = sk_key b i))"

text \<open>\<^verbatim>\<open>min_key\<close> falls off its end when the first record is a tombstone.\<close>

definition sk_min_key :: "sbuncket \<Rightarrow> u64 option" where
  "sk_min_key b = (if sk_key b 0 \<noteq> 0 then Some (sk_key b 0) else None)"

subsection \<open>The other operations\<close>

definition sk_set_value :: "sbuncket \<Rightarrow> nat \<Rightarrow> u64 \<Rightarrow> sbuncket" where
  "sk_set_value b pos value = b\<lparr>sk_rec := (sk_rec b)[pos := (sk_key b pos, value)]\<rparr>"

definition sk_update :: "sbuncket \<Rightarrow> u64 \<Rightarrow> u64 \<Rightarrow> sbuncket \<times> status" where
  "sk_update b key value =
     (let (pos, find) = sk_find b key
      in if \<not> find \<or> sk_value b (nat pos) = 0 then (b, NoExist) else (sk_set_value b (nat pos) value, OK))"

definition sk_get :: "sbuncket \<Rightarrow> u64 \<Rightarrow> u64 option" where
  "sk_get b key =
     (let (pos, find) = sk_linear_find b key
      in if \<not> find \<or> sk_value b pos = 0 then None else Some (sk_value b pos))"

text \<open>\<^verbatim>\<open>remove_key\<close> stops at the first tombstone.\<close>

function sk_remove :: "sbuncket \<Rightarrow> u64 \<Rightarrow> nat \<Rightarrow> sbuncket option" where
  "sk_remove b key i =
     (if i < sk_last b \<and> sk_key b i \<noteq> 0 then
        if sk_key b i = key then Some (b\<lparr>sk_rec := (sk_rec b)[i := (0, 0)]\<rparr>) else sk_remove b key (Suc i)
      else None)"
  by pat_completeness auto
termination by (relation "measure (\<lambda>(b, key, i). sk_last b - i)") auto

declare sk_remove.simps [simp del]

text \<open>\<^verbatim>\<open>entries--\<close> of a field of eight bits.\<close>

definition sk_delete :: "sbuncket \<Rightarrow> u64 \<Rightarrow> sbuncket \<times> status" where
  "sk_delete b key =
     (case sk_remove b key 0 of
        None \<Rightarrow> (b, NoExist)
      | Some b1 \<Rightarrow> (b1\<lparr>sk_entries := (sk_entries b1 + 255) mod 256\<rparr>, OK))"

subsection \<open>Splitting\<close>

definition sk_allocate :: "skmem \<Rightarrow> (skmem \<times> nat) option" where
  "sk_allocate m =
     (if sm_cur m + sk_size < sm_end m then Some (m\<lparr>sm_cur := sm_cur m + sk_size\<rparr>, sm_cur m) else None)"

fun sk_push_all :: "sbuncket \<Rightarrow> kv list \<Rightarrow> sbuncket option" where
  "sk_push_all b [] = Some b"
| "sk_push_all b ((k, v) # xs) =
     (if k \<noteq> 0 then do { (b1, _) \<leftarrow> sk_put_buf b k v; sk_push_all (sk_count_up b1) xs } else sk_push_all b xs)"

text \<open>\<^verbatim>\<open>Expand_\<close> of the leaf at an address: the new leaf and the split key.  \<open>None\<close> when positions behind the
  records are in use.\<close>

definition sk_expand :: "skmem \<Rightarrow> nat \<Rightarrow> (skmem \<times> nat \<times> u64) option" where
  "sk_expand m a =
     do {
       b \<leftarrow> sm_heap m a;
       (m1, n) \<leftarrow> sk_allocate m;
       let mid = sk_last b div 2;
       let split_key = sk_key b mid;
       nx \<leftarrow> (if sk_last b \<le> length (sk_rec b)
               then sk_push_all (sk_new (sm_raw m n)) (map ((!) (sk_rec b)) [mid..<sk_last b]) else None);
       let nx1 = nx\<lparr>sk_next := sk_next b\<rparr>;
       let b1 = b\<lparr>sk_rec := (sk_rec b)[mid := (sk_key b mid, 0)], sk_next := Some n,
                  sk_entries := (sk_entries b + 256 - sk_entries nx1) mod 256, sk_last := mid\<rparr>;
       Some (m1\<lparr>sm_heap := (sm_heap m1)(n \<mapsto> nx1, a \<mapsto> b1), sm_expands := sm_expands m1 + 1\<rparr>, n, split_key)
     }"

subsection \<open>Scan and iteration\<close>

text \<open>\<^verbatim>\<open>Scan\<close>.  The position of the start key goes to a variable that is shadowed, so the records are
  read from the first one on.  \<open>fuel\<close> bounds the leaves that are followed.\<close>

fun sk_take :: "sbuncket \<Rightarrow> nat list \<Rightarrow> nat \<Rightarrow> kv list" where
  "sk_take b [] len = []"
| "sk_take b (i # is) len =
     (if len = 0 then [] else if sk_key b i \<noteq> 0 then (sk_key b i, sk_value b i) # sk_take b is (len - 1)
      else sk_take b is len)"

fun sk_scan_next :: "nat \<Rightarrow> skmem \<Rightarrow> nat \<Rightarrow> nat \<Rightarrow> kv list option" where
  "sk_scan_next 0 m a len = None"
| "sk_scan_next (Suc f) m a len =
     (if len = 0 then Some []
      else do {
        b \<leftarrow> sm_heap m a;
        let xs = sk_take b [0..<sk_last b] len;
        case sk_next b of
          None \<Rightarrow> Some xs
        | Some a1 \<Rightarrow> map_option ((@) xs) (sk_scan_next f m a1 (len - length xs))
      })"

definition sk_scan :: "nat \<Rightarrow> skmem \<Rightarrow> sbuncket \<Rightarrow> u64 \<Rightarrow> nat \<Rightarrow> (kv list \<times> status) option" where
  "sk_scan fuel m b start len =
     (if start \<noteq> 0 \<and> (let (pos, find) = sk_linear_find b start in \<not> find \<or> sk_value b pos = 0)
      then Some ([], NoExist)
      else let xs = sk_take b [0..<sk_last b] len in
        case sk_next b of
          None \<Rightarrow> Some (xs, if length xs < len then Failed else OK)
        | Some a \<Rightarrow> map_option (\<lambda>ys. (xs @ ys, if length (xs @ ys) < len then Failed else OK))
                      (sk_scan_next fuel m a (len - length xs)))"

text \<open>The iterator is a position; \<^verbatim>\<open>next\<close> skips tombstones.\<close>

definition sk_iter_from :: "sbuncket \<Rightarrow> u64 \<Rightarrow> u64 \<Rightarrow> nat" where
  "sk_iter_from b prefix_key start = (if start \<le> prefix_key then 0 else nat (fst (sk_find b start)))"

definition sk_iter_begin :: "sbuncket \<Rightarrow> nat" where "sk_iter_begin b = 0"

function sk_skip :: "sbuncket \<Rightarrow> nat \<Rightarrow> nat" where
  "sk_skip b i = (if i < sk_last b \<and> sk_key b i = 0 then sk_skip b (Suc i) else i)"
  by pat_completeness auto
termination by (relation "measure (\<lambda>(b, i). sk_last b - i)") auto

declare sk_skip.simps [simp del]

definition sk_iter_next :: "sbuncket \<Rightarrow> nat \<Rightarrow> nat \<times> bool" where
  "sk_iter_next b i = (let j = sk_skip b (Suc i) in (j, j < sk_last b))"

definition sk_iter_end :: "sbuncket \<Rightarrow> nat \<Rightarrow> bool" where
  "sk_iter_end b i \<longleftrightarrow> i \<ge> sk_last b"

subsection \<open>A leaf without tombstones\<close>

definition sk_items :: "sbuncket \<Rightarrow> kv list" where
  "sk_items b = take (sk_last b) (sk_rec b)"

definition sk_wf :: "sbuncket \<Rightarrow> bool" where
  "sk_wf b \<longleftrightarrow> length (sk_rec b) = sk_slots \<and> sk_max b = sk_slots \<and> sk_last b = sk_entries b \<and> sk_last b \<le> sk_slots \<and>
     keys_sorted (sk_items b) \<and> (\<forall>x \<in> set (sk_items b). fst x \<noteq> 0)"

lemma sk_new_wf: "length raw = sk_slots \<Longrightarrow> sk_wf (sk_new raw) \<and> sk_items (sk_new raw) = []"
  by (simp add: sk_wf_def sk_items_def sk_new_def sk_slots_def sk_size_def)

lemma length_sk_items: "sk_wf b \<Longrightarrow> length (sk_items b) = sk_last b"
  by (simp add: sk_wf_def sk_items_def)

lemma nth_sk_items: "i < sk_last b \<Longrightarrow> sk_items b ! i = sk_rec b ! i"
  by (simp add: sk_items_def)

lemma sk_key_items: "i < sk_last b \<Longrightarrow> sk_key b i = fst (sk_items b ! i)"
  by (simp add: sk_key_def nth_sk_items)

lemma sk_insert_items:
  assumes "n < length r" "keys_sorted (take n r)"
  shows "\<exists>p \<le> n. take (Suc n) (sk_insert k v n r) = insert_at p (k, v) (take n r) \<and>
    (\<forall>x \<in> set (take p (take n r)). fst x \<le> k) \<and> (\<forall>x \<in> set (drop p (take n r)). k < fst x) \<and>
    length (sk_insert k v n r) = length r \<and> drop (Suc n) (sk_insert k v n r) = drop (Suc n) r"
  using assms
proof (induction n arbitrary: r)
  case 0
  then show ?case by (cases r) (auto simp: insert_at_def)
next
  case (Suc i)
  have i: "i < length r" using Suc.prems(1) by simp
  have t: "take (Suc i) r = take i r @ [r ! i]" using i by (simp add: take_Suc_conv_app_nth)
  show ?case
  proof (cases "k < fst (r ! i)")
    case True
    let ?r = "r[Suc i := r ! i]"
    have "keys_sorted (take i ?r)" using Suc.prems(2) t by (simp add: keys_sorted_append)
    from Suc.IH[OF _ this] i obtain p where P: "p \<le> i" "take (Suc i) (sk_insert k v i ?r) = insert_at p (k, v) (take i r)"
      "\<forall>x \<in> set (take p (take i r)). fst x \<le> k" "\<forall>x \<in> set (drop p (take i r)). k < fst x"
      "length (sk_insert k v i ?r) = length r" "drop (Suc i) (sk_insert k v i ?r) = drop (Suc i) ?r" by auto
    let ?X = "sk_insert k v i ?r"
    have nx: "?X ! Suc i = r ! i"
    proof -
      have "?X ! Suc i = hd (drop (Suc i) ?X)" using P(5) Suc.prems(1) by (simp add: hd_drop_conv_nth)
      also have "\<dots> = ?r ! Suc i" unfolding P(6) using Suc.prems(1) by (simp add: hd_drop_conv_nth del: drop_update_swap)
      finally show ?thesis using Suc.prems(1) by simp
    qed
    have pl: "p \<le> length (take i r)" using P(1) i by simp
    have "take (Suc (Suc i)) ?X = take (Suc i) ?X @ [r ! i]"
      using P(5) Suc.prems(1) nx by (simp add: take_Suc_conv_app_nth[of "Suc i"])
    also have "\<dots> = insert_at p (k, v) (take (Suc i) r)" using P(2) pl t by (simp add: insert_at_def)
    finally have 1: "take (Suc (Suc i)) ?X = insert_at p (k, v) (take (Suc i) r)" .
    have "drop (Suc (Suc i)) ?X = drop 1 (drop (Suc i) ?X)" by simp
    also have "\<dots> = drop (Suc (Suc i)) r" unfolding P(6) by (simp add: drop_update_swap)
    finally have 2: "drop (Suc (Suc i)) ?X = drop (Suc (Suc i)) r" .
    show ?thesis using True P(1,3,4,5) 1 2 t pl by (intro exI[of _ p]) auto
  next
    case False
    have "fst x \<le> k" if "x \<in> set (take (Suc i) r)" for x
    proof -
      have "fst x \<le> fst (r ! i)" using that Suc.prems(2) unfolding t keys_sorted_append by auto
      then show ?thesis using False by simp
    qed
    then show ?thesis using False Suc.prems(1)
      by (intro exI[of _ "Suc i"]) (auto simp: insert_at_def take_Suc_conv_app_nth[of "Suc i"])
  qed
qed

lemma sk_put_wf:
  assumes "sk_wf b" "sk_entries b < sk_slots" "k \<noteq> 0" "map_of (sk_items b) k = None"
  obtains b' p where "sk_put b k v = Some (b', OK)" "sk_wf b'" "sk_items b' = insert_at p (k, v) (sk_items b)"
    "map_of (sk_items b') = (map_of (sk_items b))(k \<mapsto> v)" "p \<le> sk_last b" "sk_next b' = sk_next b"
    "sk_last b' = Suc (sk_last b)" "\<forall>x \<in> set (drop p (sk_items b)). k < fst x"
proof -
  let ?n = "sk_last b" and ?r = "sk_rec b"
  have W: "length ?r = 15" "sk_max b = 15" "?n = sk_entries b" "keys_sorted (take ?n ?r)" "?n < 15"
    "\<forall>x \<in> set (take ?n ?r). fst x \<noteq> 0"
    using assms(1,2) by (auto simp: sk_wf_def sk_slots_def sk_items_def)
  obtain r' where R: "sk_put_buf b k v = Some (b\<lparr>sk_rec := r'\<rparr>, OK)" "length r' = 15"
    "\<exists>p \<le> ?n. take (Suc ?n) r' = insert_at p (k, v) (take ?n ?r) \<and>
      (\<forall>x \<in> set (take p (take ?n ?r)). fst x \<le> k) \<and> (\<forall>x \<in> set (drop p (take ?n ?r)). k < fst x)"
  proof (cases "sk_entries b = 0")
    case True
    then show ?thesis using that[of "?r[0 := (k, v), 1 := (fst (?r ! 1), 0)]"] W
      by (cases ?r) (auto simp: sk_put_buf_def insert_at_def)
  next
    case False
    then show ?thesis using that[of "sk_insert k v ?n ?r"] W sk_insert_items[of ?n ?r k v]
      by (fastforce simp: sk_put_buf_def)
  qed
  then obtain p where p: "p \<le> ?n" "take (Suc ?n) r' = insert_at p (k, v) (sk_items b)"
    "\<forall>x \<in> set (take p (sk_items b)). fst x \<le> k" "\<forall>x \<in> set (drop p (sk_items b)). k < fst x"
    by (auto simp: sk_items_def)
  have ne: "\<forall>x \<in> set (sk_items b). fst x \<noteq> k" using assms(4) by (metis map_of_eq_None_iff image_eqI)
  then have lt: "\<forall>x \<in> set (take p (sk_items b)). fst x < k" using p(3) by (meson in_set_takeD order_le_neq_trans)
  let ?b = "b\<lparr>sk_rec := r', sk_entries := sk_entries b + 1, sk_last := ?n + 1\<rparr>"
  have I: "sk_items ?b = insert_at p (k, v) (sk_items b)" using p(2) by (simp add: sk_items_def)
  have S: "keys_sorted (sk_items ?b)"
    unfolding I using W(4) lt p(4) by (intro keys_sorted_insert_at) (simp_all add: sk_items_def)
  have "sk_wf ?b" using W R(2) S assms(3) unfolding sk_wf_def I by (auto simp: sk_slots_def sk_items_def)
  moreover have "map_of (sk_items ?b) = (map_of (sk_items b))(k \<mapsto> v)" unfolding I by (rule map_of_insert_at[OF ne])
  moreover have "sk_put b k v = Some (?b, OK)" using R(1) W(3,5) by (simp add: sk_put_def sk_count_up_def)
  ultimately show thesis using that I p(1,4) by fastforce
qed

lemma sk_put_full: "sk_wf b \<Longrightarrow> sk_entries b = sk_slots \<Longrightarrow> sk_put b k v = Some (b, Full)"
  by (simp add: sk_put_def sk_put_buf_def sk_wf_def)

text \<open>\<^verbatim>\<open>Find\<close> and \<^verbatim>\<open>Update\<close>.\<close>

interpretation sk_order: ordered_slots sk_wf sk_entries sk_key
proof unfold_locales
  fix b i j assume b: "sk_wf b" and ij: "i < j" "j < sk_entries b"
  then have l: "j < sk_last b" by (simp add: sk_wf_def)
  have "fst (sk_items b ! i) < fst (sk_items b ! j)"
    using b ij(1) l length_sk_items[OF b] by (intro keys_sorted_nth) (simp_all add: sk_wf_def)
  then show "sk_key b i < sk_key b j" using ij(1) l by (simp add: sk_key_items)
qed

lemma sk_find_correct: "sk_wf b \<Longrightarrow> search_result (sk_key b) (sk_entries b) k (sk_find b k)"
  unfolding sk_find_def by (rule sk_order.bsearch_gen) auto

lemma sk_find_hit:
  assumes "sk_wf b" "sk_find b k = (p, True)"
  shows "nat p < sk_last b" "fst (sk_items b ! nat p) = k" "map_of (sk_items b) k = Some (sk_value b (nat p))"
proof -
  have p: "0 \<le> p" "nat p < sk_entries b" "sk_key b (nat p) = k"
    using sk_find_correct[OF assms(1), of k] assms(2) by (auto simp: search_result_def)
  then show l: "nat p < sk_last b" using assms(1) by (simp add: sk_wf_def)
  show k: "fst (sk_items b ! nat p) = k" using p(3) l by (simp add: sk_key_items)
  have "nat p < length (sk_items b)" using l length_sk_items[OF assms(1)] by simp
  moreover have "distinct (map fst (sk_items b))" using assms(1) by (simp add: sk_wf_def keys_sorted_distinct)
  ultimately have "map_of (sk_items b) (fst (sk_items b ! nat p)) = Some (snd (sk_items b ! nat p))"
    by (intro map_of_nth_eq)
  then show "map_of (sk_items b) k = Some (sk_value b (nat p))" using k l by (simp add: sk_value_def nth_sk_items)
qed

lemma sk_find_miss:
  assumes "sk_wf b" "sk_find b k = (p, False)"
  shows "map_of (sk_items b) k = None"
proof (rule map_of_notin_range, rule ballI)
  fix x assume "x \<in> set (sk_items b)"
  then obtain i where i: "i < sk_last b" "x = sk_items b ! i"
    using length_sk_items[OF assms(1)] by (metis in_set_conv_nth)
  have e: "i < sk_entries b" using i(1) assms(1) by (simp add: sk_wf_def)
  have "sk_key b i < k \<or> k < sk_key b i"
    using sk_find_correct[OF assms(1), of k] assms(2) e by (cases "i < nat p") (auto simp: search_result_def)
  then show "fst x \<noteq> k" using sk_key_items[OF i(1)] i(2) by auto
qed

lemma sk_update_wf:
  assumes "sk_wf b" "map_of (sk_items b) k = Some w" "w \<noteq> 0"
  shows "\<exists>b'. sk_update b k v = (b', OK) \<and> sk_wf b' \<and> map_of (sk_items b') = (map_of (sk_items b))(k \<mapsto> v) \<and>
    sk_next b' = sk_next b \<and> map fst (sk_items b') = map fst (sk_items b)"
proof -
  obtain p where F: "sk_find b k = (p, True)"
    using sk_find_miss[OF assms(1)] assms(2) by (metis option.distinct(1) surj_pair)
  note H = sk_find_hit[OF assms(1) F]
  let ?b = "sk_set_value b (nat p) v"
  have I: "sk_items ?b = (sk_items b)[nat p := (fst (sk_items b ! nat p), v)]"
    using H(1) by (simp add: sk_items_def sk_set_value_def take_update_swap sk_key_def)
  have l: "nat p < length (sk_items b)" using H(1) length_sk_items[OF assms(1)] by simp
  have s: "keys_sorted (sk_items b)" using assms(1) by (simp add: sk_wf_def)
  have m: "map fst (sk_items ?b) = map fst (sk_items b)"
    unfolding I using l by (simp add: map_update list_update_same_conv)
  have "0 \<notin> set (map fst (sk_items b))" using assms(1) by (auto simp: sk_wf_def)
  then have "0 \<notin> set (map fst (sk_items ?b))" unfolding m .
  then have "\<forall>x \<in> set (sk_items ?b). fst x \<noteq> 0" by force
  moreover have "keys_sorted (sk_items ?b)" unfolding I by (rule keys_sorted_update[OF s l])
  ultimately have "sk_wf ?b" using assms(1) by (simp add: sk_wf_def sk_set_value_def)
  moreover have "map_of (sk_items ?b) = (map_of (sk_items b))(k \<mapsto> v)"
    unfolding I using map_of_update_at[OF keys_sorted_distinct[OF s] l] H(2) by simp
  moreover have "sk_value b (nat p) \<noteq> 0" using H(3) assms(2,3) by simp
  ultimately show ?thesis using F m by (simp add: sk_update_def sk_set_value_def)
qed

subsection \<open>Lookups and deletions\<close>

text \<open>With tombstones: the live records are sorted.  \<^verbatim>\<open>LinearFind\<close> steps over tombstones.\<close>

definition sk_live :: "sbuncket \<Rightarrow> kv list" where
  "sk_live b = filter (\<lambda>x. fst x \<noteq> 0) (sk_items b)"

lemma sk_live_items: "sk_wf b \<Longrightarrow> sk_live b = sk_items b"
  by (simp add: sk_live_def sk_wf_def)

lemma sk_linear_takeWhile:
  assumes "i \<le> sk_last b" "sk_last b \<le> length (sk_rec b)"
  shows "sk_linear b t i = i + length (takeWhile (\<lambda>x. fst x < t) (drop i (sk_items b)))"
  using assms
proof (induction b t i rule: sk_linear.induct)
  case (1 b t i)
  have l: "length (sk_items b) = sk_last b" using "1.prems"(2) by (simp add: sk_items_def)
  show ?case
  proof (cases "i < sk_last b")
    case True
    then have d: "drop i (sk_items b) = sk_items b ! i # drop (Suc i) (sk_items b)" using l by (simp add: Cons_nth_drop_Suc)
    show ?thesis using True "1.IH" "1.prems" d sk_key_items[OF True] by (simp add: sk_linear.simps[of b t i])
  next
    case False
    then have "i = sk_last b" using "1.prems"(1) by simp
    then show ?thesis using l by (subst sk_linear.simps) simp
  qed
qed

lemma takeWhile_live:
  assumes "keys_sorted (filter (\<lambda>x. fst x \<noteq> 0) xs)" "(t :: u64) \<noteq> 0" "p = length (takeWhile (\<lambda>x. fst x < t) xs)"
  shows "map_of (filter (\<lambda>x. fst x \<noteq> 0) xs) t = (if p < length xs \<and> fst (xs ! p) = t then Some (snd (xs ! p)) else None)"
  using assms
proof (induction xs arbitrary: p)
  case (Cons x xs)
  show ?case
  proof (cases "fst x < t")
    case True
    have "keys_sorted (filter (\<lambda>x. fst x \<noteq> 0) xs)" using Cons.prems(1) by (auto simp: keys_sorted_Cons split: if_splits)
    from Cons.IH[OF this Cons.prems(2) refl] show ?thesis using True Cons.prems(3) by (cases x) auto
  next
    case False
    show ?thesis
    proof (cases "fst x = t")
      case True
      then show ?thesis using Cons.prems(2,3) by (cases x) auto
    next
      case ne: False
      then have gt: "t < fst x" "fst x \<noteq> 0" using False Cons.prems(2) by (auto simp: word_gt_0)
      then have "\<forall>y \<in> set (filter (\<lambda>x. fst x \<noteq> 0) xs). fst x < fst y"
        using Cons.prems(1) by (simp add: keys_sorted_Cons)
      then have "\<forall>y \<in> set (filter (\<lambda>x. fst x \<noteq> 0) xs). fst y \<noteq> t" using gt(1) by fastforce
      then have "map_of (filter (\<lambda>x. fst x \<noteq> 0) xs) t = None" by (rule map_of_notin_range)
      then show ?thesis using ne False gt(2) Cons.prems(3) by (cases x) auto
    qed
  qed
qed simp

lemma sk_get_live:
  assumes "sk_last b \<le> length (sk_rec b)" "keys_sorted (sk_live b)" "k \<noteq> 0"
  shows "sk_get b k = (case map_of (sk_live b) k of None \<Rightarrow> None | Some v \<Rightarrow> if v = 0 then None else Some v)"
proof -
  let ?p = "length (takeWhile (\<lambda>x. fst x < k) (sk_items b))"
  have l: "length (sk_items b) = sk_last b" using assms(1) by (simp add: sk_items_def)
  have "sk_linear b k 0 = ?p" using sk_linear_takeWhile[of 0 b k] assms(1) by simp
  moreover have "map_of (sk_live b) k =
      (if ?p < sk_last b \<and> fst (sk_items b ! ?p) = k then Some (snd (sk_items b ! ?p)) else None)"
    using takeWhile_live[OF assms(2)[unfolded sk_live_def] assms(3) refl] unfolding sk_live_def l .
  ultimately show ?thesis
    by (auto simp: sk_get_def sk_linear_find_def sk_key_def sk_value_def nth_sk_items)
qed

lemma sk_remove_at:
  assumes "\<forall>j < sk_last b. sk_key b j \<noteq> 0" "i \<le> p" "p < sk_last b" "sk_key b p = k" "\<forall>j < p. sk_key b j \<noteq> k"
  shows "sk_remove b k i = Some (b\<lparr>sk_rec := (sk_rec b)[p := (0, 0)]\<rparr>)"
  using assms
proof (induction b k i rule: sk_remove.induct)
  case (1 b k i)
  then show ?case
  proof (cases "i = p")
    case True
    then show ?thesis using "1.prems" by (subst sk_remove.simps) auto
  next
    case False
    then have i: "i < sk_last b" "sk_key b i \<noteq> 0" "sk_key b i \<noteq> k" "Suc i \<le> p" using "1.prems" by auto
    then show ?thesis using "1.IH"[OF _ i(3) "1.prems"(1) i(4) "1.prems"(3-5)] by (subst sk_remove.simps) simp
  qed
qed

lemma sk_remove_none:
  assumes "\<forall>j < sk_last b. sk_key b j \<noteq> k"
  shows "sk_remove b k i = None"
  using assms by (induction b k i rule: sk_remove.induct) (subst sk_remove.simps, auto)

lemma count_down: "0 < n \<Longrightarrow> n \<le> 256 \<Longrightarrow> (n + 255) mod 256 = (n :: nat) - 1"
  by (cases n) simp_all

lemma sk_delete_wf:
  assumes "sk_wf b" "map_of (sk_items b) k = Some v"
  shows "\<exists>b'. sk_delete b k = (b', OK) \<and> sk_entries b' = sk_entries b - 1 \<and> keys_sorted (sk_live b') \<and>
    map_of (sk_live b') = (map_of (sk_items b))(k := None) \<and> sk_last b' \<le> length (sk_rec b')"
proof -
  note l = length_sk_items[OF assms(1)]
  have s: "keys_sorted (sk_items b)" "\<forall>x \<in> set (sk_items b). fst x \<noteq> 0" "sk_last b \<le> length (sk_rec b)"
    using assms(1) by (simp_all add: sk_wf_def)
  obtain p where p: "p < sk_last b" "sk_items b ! p = (k, v)"
    using map_of_SomeD[OF assms(2)] l by (metis in_set_conv_nth)
  have kp: "sk_key b p = k" using p by (simp add: sk_key_items)
  have nz: "\<forall>j < sk_last b. sk_key b j \<noteq> 0" using s(2) l by (simp add: sk_key_items)
  have ne: "\<forall>j < p. sk_key b j \<noteq> k"
    using sk_order.slots_sorted[OF assms(1), of _ p] p(1) kp assms(1) by (fastforce simp: sk_wf_def)
  let ?b = "b\<lparr>sk_rec := (sk_rec b)[p := (0, 0)], sk_entries := sk_entries b - 1\<rparr>"
  have "0 < sk_entries b" "sk_entries b \<le> 15" using p(1) assms(1) by (simp_all add: sk_wf_def sk_slots_def)
  then have "(sk_entries b + 255) mod 256 = sk_entries b - 1" by (intro count_down) simp_all
  then have D: "sk_delete b k = (?b, OK)" using sk_remove_at[OF nz _ p(1) kp ne, of 0] by (simp add: sk_delete_def)
  have pl: "p < length (sk_items b)" using p(1) l by simp
  have "sk_items ?b = (sk_items b)[p := (0, 0)]" using p(1) by (simp add: sk_items_def take_update_swap)
  also have "\<dots> = take p (sk_items b) @ (0, 0) # drop (Suc p) (sk_items b)" using pl by (simp add: upd_conv_take_nth_drop)
  finally have "sk_live ?b = filter (\<lambda>x. fst x \<noteq> 0) (take p (sk_items b)) @ filter (\<lambda>x. fst x \<noteq> 0) (drop (Suc p) (sk_items b))"
    by (simp add: sk_live_def)
  also have "\<dots> = remove_at p (sk_items b)"
  proof -
    have "\<forall>x \<in> set (take p (sk_items b)). fst x \<noteq> 0" "\<forall>x \<in> set (drop (Suc p) (sk_items b)). fst x \<noteq> 0"
      using s(2) by (blast dest: in_set_takeD in_set_dropD)+
    then show ?thesis by (simp add: remove_at_def)
  qed
  finally have L: "sk_live ?b = remove_at p (sk_items b)" .
  have "map_of (sk_live ?b) = (map_of (sk_items b))(k := None)"
    unfolding L using map_of_remove_at[OF keys_sorted_distinct[OF s(1)] pl] p(2) by simp
  moreover have "keys_sorted (sk_live ?b)" unfolding L by (rule keys_sorted_remove_at[OF s(1)])
  ultimately show ?thesis using D s(3) by (intro exI[of _ ?b]) simp
qed

interpretation sk_leaf: leaf_lookup sk_wf sk_items sk_slots sk_put sk_get
proof unfold_locales
  fix b :: sbuncket and k v :: u64
  assume b: "sk_wf b"
  note l = length_sk_items[OF b]
  show "distinct (map fst (sk_items b))" using b by (simp add: sk_wf_def keys_sorted_distinct)
  show "length (sk_items b) \<le> sk_slots" using b l by (simp add: sk_wf_def)
  have e: "sk_last b = sk_entries b" using b by (simp add: sk_wf_def)
  show "\<exists>b'. sk_put b k v = Some (b', OK) \<and> sk_wf b' \<and> set (sk_items b') = insert (k, v) (set (sk_items b))"
    if len: "length (sk_items b) < sk_slots" and k: "k \<noteq> 0" "map_of (sk_items b) k = None"
  proof -
    have "sk_entries b < sk_slots" using len l e by simp
    from sk_put_wf[OF b this k, of v] obtain b' p where "sk_put b k v = Some (b', OK)" "sk_wf b'"
      "sk_items b' = insert_at p (k, v) (sk_items b)" by metis
    then show ?thesis by simp
  qed
  show "sk_put b k v = Some (b, Full)" if "length (sk_items b) = sk_slots"
    using sk_put_full[OF b, of k v] that l e by simp
  show "sk_get b k = map_of (sk_items b) k" if "k \<noteq> 0" "0 \<notin> snd ` set (sk_items b)"
    using sk_get_live[of b k] b that sk_live_items[OF b]
    by (auto simp: sk_wf_def split: option.splits dest: map_of_SomeD intro: rev_image_eqI)
qed

subsection \<open>Splitting\<close>

lemma sk_push_all_wf:
  assumes "sk_wf b" "keys_sorted (sk_items b @ xs)" "\<forall>x \<in> set xs. fst x \<noteq> 0" "length (sk_items b @ xs) \<le> sk_slots"
  shows "\<exists>b'. sk_push_all b xs = Some b' \<and> sk_wf b' \<and> sk_items b' = sk_items b @ xs"
  using assms
proof (induction xs arbitrary: b)
  case (Cons x xs)
  obtain k v where x: "x = (k, v)" by fastforce
  have k: "k \<noteq> 0" using Cons.prems(3) x by simp
  have lt: "\<forall>y \<in> set (sk_items b). fst y < k" using Cons.prems(2) x by (simp add: keys_sorted_append)
  have "map_of (sk_items b) k = None" using lt by (intro map_of_notin_range) auto
  moreover have "sk_entries b < sk_slots" using Cons.prems(1,4) length_sk_items[OF Cons.prems(1)] by (simp add: sk_wf_def)
  ultimately obtain b' p where P: "sk_put b k v = Some (b', OK)" "sk_wf b'" "sk_items b' = insert_at p (k, v) (sk_items b)"
    "p \<le> sk_last b" "\<forall>y \<in> set (drop p (sk_items b)). k < fst y"
    using sk_put_wf[OF Cons.prems(1) _ k, of v] by metis
  have "drop p (sk_items b) = []"
  proof (rule ccontr)
    assume "drop p (sk_items b) \<noteq> []"
    then obtain y where "y \<in> set (drop p (sk_items b))" by (meson last_in_set)
    then show False using P(5) lt by (meson in_set_dropD less_asym')
  qed
  then have I: "sk_items b' = sk_items b @ [x]" using P(3) x by (simp add: insert_at_def)
  obtain b1 where b1: "sk_put_buf b k v = Some (b1, OK)" "b' = sk_count_up b1"
    using P(1) by (auto simp: sk_put_def split: bind_splits if_splits)
  have "\<exists>c. sk_push_all b' xs = Some c \<and> sk_wf c \<and> sk_items c = sk_items b' @ xs"
    using Cons.prems by (intro Cons.IH[OF P(2)]) (simp_all add: I)
  then show ?case using x k I b1 by simp
qed simp

lemma sk_expand_wf:
  assumes "sm_heap m a = Some b" "sk_wf b" "2 \<le> sk_last b" "a < sm_cur m" "sm_cur m + sk_size < sm_end m"
    "length (sm_raw m (sm_cur m)) = sk_slots"
  shows "\<exists>m' b1 b2. sk_expand m a = Some (m', sm_cur m, fst (sk_items b ! (sk_last b div 2))) \<and>
    sm_heap m' = (sm_heap m)(sm_cur m \<mapsto> b2, a \<mapsto> b1) \<and> sk_wf b1 \<and> sk_wf b2 \<and>
    sk_items b1 = take (sk_last b div 2) (sk_items b) \<and> sk_items b2 = drop (sk_last b div 2) (sk_items b) \<and>
    sk_next b1 = Some (sm_cur m) \<and> sk_next b2 = sk_next b \<and> sm_cur m' = sm_cur m + sk_size \<and> sm_end m' = sm_end m \<and>
    sm_raw m' = sm_raw m"
proof -
  let ?h = "sk_last b div 2" and ?n = "sm_cur m"
  note l = length_sk_items[OF assms(2)]
  have W: "keys_sorted (sk_items b)" "\<forall>x \<in> set (sk_items b). fst x \<noteq> 0" "sk_last b \<le> sk_slots" "length (sk_rec b) = sk_slots"
    "sk_last b = sk_entries b" "sk_max b = sk_slots" using assms(2) by (simp_all add: sk_wf_def)
  have h: "?h < sk_last b" using assms(3) by linarith
  have xs: "map ((!) (sk_rec b)) [?h..<sk_last b] = drop ?h (sk_items b)"
    by (rule nth_equalityI) (simp_all add: l nth_sk_items)
  have e: "sk_wf (sk_new (sm_raw m ?n))" "sk_items (sk_new (sm_raw m ?n)) = []" using sk_new_wf[OF assms(6)] by auto
  have "\<exists>nx. sk_push_all (sk_new (sm_raw m ?n)) (drop ?h (sk_items b)) = Some nx \<and> sk_wf nx \<and>
      sk_items nx = sk_items (sk_new (sm_raw m ?n)) @ drop ?h (sk_items b)"
    using W l by (intro sk_push_all_wf[OF e(1)]) (auto simp: e(2) keys_sorted_drop dest: in_set_dropD)
  then obtain nx where nx: "sk_push_all (sk_new (sm_raw m ?n)) (drop ?h (sk_items b)) = Some nx"
    and N: "sk_wf nx \<and> sk_items nx = sk_items (sk_new (sm_raw m ?n)) @ drop ?h (sk_items b)" by blast
  then have nl: "sk_last nx = sk_last b - ?h" using length_sk_items[of nx] by (simp add: e(2) l)
  let ?b2 = "nx\<lparr>sk_next := sk_next b\<rparr>"
  let ?b1 = "b\<lparr>sk_rec := (sk_rec b)[?h := (sk_key b ?h, 0)], sk_next := Some ?n,
    sk_entries := (sk_entries b + 256 - sk_entries ?b2) mod 256, sk_last := ?h\<rparr>"
  have b2: "sk_wf ?b2" "sk_items ?b2 = drop ?h (sk_items b)" using N unfolding e(2) by (auto simp: sk_wf_def sk_items_def)
  have "sk_entries nx = sk_last b - ?h" using N nl by (simp add: sk_wf_def)
  then have "sk_entries b + 256 - sk_entries ?b2 = ?h + 256" using W(5) h by simp
  then have en: "sk_entries ?b1 = ?h" using W(3) by (simp add: sk_slots_def)
  have b1i: "sk_items ?b1 = take ?h (sk_items b)" using h by (simp add: sk_items_def)
  then have b1: "sk_wf ?b1" using W en h unfolding sk_wf_def b1i
    by (auto simp: keys_sorted_take dest: in_set_takeD)
  have "sk_expand m a = Some (m\<lparr>sm_cur := ?n + sk_size, sm_heap := (sm_heap m)(?n \<mapsto> ?b2, a \<mapsto> ?b1),
      sm_expands := sm_expands m + 1\<rparr>, ?n, sk_key b ?h)"
    using assms(1,5) W(3,4) nx by (simp add: sk_expand_def sk_allocate_def Let_def xs)
  then show ?thesis using b1 b2 b1i h by (intro exI conjI) (assumption | simp add: sk_key_items)+
qed

subsection \<open>Positions that are never reused\<close>

text \<open>Removing the last record leaves its position in use, and the next insertion takes record 0 and one more
  position, so the number of positions grows although the leaf is empty each time.\<close>

fun sk_cycles :: "u64 \<Rightarrow> u64 \<Rightarrow> nat \<Rightarrow> sbuncket \<Rightarrow> sbuncket option" where
  "sk_cycles k v 0 b = Some b"
| "sk_cycles k v (Suc n) b =
     do {
       (b1, ret) \<leftarrow> sk_put b k v;
       let (b2, ret2) = sk_delete b1 k;
       if ret = OK \<and> ret2 = OK then sk_cycles k v n b2 else None
     }"

definition sk_drained :: "nat \<Rightarrow> sbuncket \<Rightarrow> bool" where
  "sk_drained n b \<longleftrightarrow> sk_entries b = 0 \<and> sk_last b = n \<and> sk_max b = sk_slots \<and> length (sk_rec b) = sk_slots"

lemma sk_cycle_step:
  assumes "sk_drained n b" "n < 255" "k \<noteq> 0"
  shows "\<exists>b1 b2. sk_put b k v = Some (b1, OK) \<and> sk_delete b1 k = (b2, OK) \<and> sk_drained (Suc n) b2"
  using assms
  by (simp add: sk_drained_def sk_put_def sk_put_buf_def sk_count_up_def sk_slots_def sk_delete_def sk_remove.simps[of _ _ 0] sk_key_def)

lemma sk_cycle_run:
  assumes "sk_drained m b" "k \<noteq> 0" "m + n \<le> 255"
  shows "\<exists>c. sk_cycles k v n b = Some c \<and> sk_drained (m + n) c"
  using assms(1,3)
proof (induction n arbitrary: m b)
  case (Suc n)
  then obtain b1 b2 where B: "sk_put b k v = Some (b1, OK)" "sk_delete b1 k = (b2, OK)" "sk_drained (Suc m) b2"
    using sk_cycle_step[OF Suc.prems(1) _ assms(2)] by fastforce
  then show ?case using Suc.IH[OF B(3)] Suc.prems(2) by simp
qed simp

text \<open>The second record put after that lies behind the array.\<close>

lemma sk_drained_overflow:
  assumes "sk_drained n b" "15 \<le> n" "n < 255"
  shows "\<exists>b1. sk_put b k v = Some (b1, OK) \<and> sk_put b1 j w = None"
proof -
  let ?b = "b\<lparr>sk_rec := (sk_rec b)[0 := (k, v), 1 := (fst (sk_rec b ! 1), 0)], sk_entries := 1, sk_last := Suc n\<rparr>"
  have 1: "sk_put b k v = Some (?b, OK)" using assms by (simp add: sk_drained_def sk_put_def sk_put_buf_def sk_count_up_def sk_slots_def)
  have "sk_last (sk_compact ?b) = n" by (simp add: sk_compact_def Let_def)
  moreover have "length (sk_rec (sk_compact ?b)) = 15"
    using assms(1) by (simp add: sk_compact_def Let_def sk_drained_def sk_slots_def length_sk_close split: option.split)
  ultimately have "sk_put ?b j w = None" using assms by (simp add: sk_put_def sk_put_buf_def sk_drained_def sk_slots_def Let_def)
  with 1 show ?thesis by blast
qed

subsection \<open>An insertion before a tombstone\<close>

text \<open>The shift stops at a tombstone, as no key is below 0.\<close>

lemma sk_insert_hole:
  assumes "p < n" "n < length r" "fst (r ! p) = 0" "\<forall>i. p < i \<longrightarrow> i < n \<longrightarrow> k < fst (r ! i)"
  shows "take (Suc p) (sk_insert k v n r) = take (Suc p) r \<and> sk_insert k v n r ! Suc p = (k, v) \<and>
    length (sk_insert k v n r) = length r"
  using assms
proof (induction n arbitrary: r)
  case (Suc i)
  show ?case
  proof (cases "p = i")
    case True
    then show ?thesis using Suc.prems by simp
  next
    case False
    then have p: "p < i" using Suc.prems(1) by simp
    let ?r = "r[Suc i := r ! i]"
    have "k < fst (r ! i)" using Suc.prems(4) p by simp
    moreover have "take (Suc p) ?r = take (Suc p) r" using p by simp
    moreover have "take (Suc p) (sk_insert k v i ?r) = take (Suc p) ?r \<and> sk_insert k v i ?r ! Suc p = (k, v) \<and>
        length (sk_insert k v i ?r) = length ?r"
      by (rule Suc.IH) (use Suc.prems p in auto)
    ultimately show ?thesis by simp
  qed
qed simp

lemma sk_hidden:
  assumes "sk_wf b" "sk_last b < 14" "map_of (sk_items b) d = Some w" "map_of (sk_items b) j = Some u" "k < j" "j < d"
    "map_of (sk_items b) k = None"
  shows "\<exists>b1 b2. sk_delete b d = (b1, OK) \<and> sk_put b1 k v = Some (b2, OK) \<and> (k, v) \<in> set (sk_items b2) \<and> sk_get b2 k = None"
proof -
  note l = length_sk_items[OF assms(1)]
  have W: "length (sk_rec b) = 15" "sk_max b = 15" "sk_last b = sk_entries b" "\<forall>x \<in> set (sk_items b). fst x \<noteq> 0"
    using assms(1) by (simp_all add: sk_wf_def sk_slots_def)
  obtain p q where p: "p < sk_last b" "sk_items b ! p = (d, w)" and q: "q < sk_last b" "sk_items b ! q = (j, u)"
    using map_of_SomeD[OF assms(3)] map_of_SomeD[OF assms(4)] l by (metis in_set_conv_nth)
  have kp: "sk_key b p = d" "sk_key b q = j" using p q by (simp_all add: sk_key_items)
  have up: "sk_key b i < sk_key b i'" if "i < i'" "i' < sk_last b" for i i'
    using sk_order.slots_sorted[OF assms(1), of i i'] that W(3) by simp
  have qp: "q < p"
  proof (rule ccontr)
    assume "\<not> q < p"
    then have "p < q \<or> p = q" by auto
    then show False using up[of p q] kp q(1) assms(6) by auto
  qed
  have nz: "\<forall>i < sk_last b. sk_key b i \<noteq> 0" using W(4) l by (simp add: sk_key_items)
  have ne: "\<forall>i < p. sk_key b i \<noteq> d" using up[of _ p] p(1) kp(1) by fastforce
  let ?r = "(sk_rec b)[p := (0, 0)]" and ?n = "sk_last b"
  let ?b1 = "b\<lparr>sk_rec := ?r, sk_entries := sk_entries b - 1\<rparr>"
  have cnt: "(sk_entries b + 255) mod 256 = sk_entries b - 1" using p(1) W(3) assms(2) by (intro count_down) simp_all
  then have D: "sk_delete b d = (?b1, OK)" using sk_remove_at[OF nz _ p(1) kp(1) ne, of 0] by (simp add: sk_delete_def)
  have big: "\<forall>i. p < i \<longrightarrow> i < ?n \<longrightarrow> k < fst (?r ! i)"
  proof (intro allI impI)
    fix i assume i: "p < i" "i < ?n"
    have "d < fst (sk_rec b ! i)" using up[OF i] kp(1) by (simp add: sk_key_def)
    then show "k < fst (?r ! i)" using i assms(5,6) by simp
  qed
  let ?x = "sk_insert k v ?n ?r"
  have I: "take (Suc p) ?x = take (Suc p) ?r" "?x ! Suc p = (k, v)" "length ?x = 15"
    using sk_insert_hole[OF p(1) _ _ big] W(1) assms(2) p(1) by simp_all
  let ?b2 = "b\<lparr>sk_rec := ?x, sk_last := Suc ?n\<rparr>"
  have P: "sk_put ?b1 k v = Some (?b2, OK)"
  proof -
    have "2 \<le> sk_entries b" using qp p(1) W(3) by linarith
    then show ?thesis using W assms(2) by (simp add: sk_put_def sk_put_buf_def sk_count_up_def)
  qed
  have it: "sk_items ?b2 = take (Suc ?n) ?x" by (simp add: sk_items_def)
  have sp: "Suc p < Suc ?n" "Suc p < length (sk_items ?b2)" using p(1) I(3) assms(2) by (simp_all add: sk_items_def)
  have mem: "(k, v) \<in> set (sk_items ?b2)" using nth_mem[OF sp(2)] I(2) sp(1) by (simp add: it)
  let ?t = "length (takeWhile (\<lambda>x. fst x < k) (sk_items ?b2))"
  have same: "sk_rec ?b2 ! i = sk_rec b ! i" if "i < p" for i
  proof -
    have "?x ! i = take (Suc p) ?x ! i" using that by simp
    also have "\<dots> = sk_rec b ! i" unfolding I(1) using that by simp
    finally show ?thesis by simp
  qed
  have t: "?t \<le> q"
  proof (rule ccontr)
    assume "\<not> ?t \<le> q"
    then have "q < ?t" by simp
    then have "takeWhile (\<lambda>x. fst x < k) (sk_items ?b2) ! q = sk_items ?b2 ! q"
      "takeWhile (\<lambda>x. fst x < k) (sk_items ?b2) ! q \<in> set (takeWhile (\<lambda>x. fst x < k) (sk_items ?b2))"
      by (rule takeWhile_nth, rule nth_mem)
    then have "fst (sk_items ?b2 ! q) < k" by (auto dest: set_takeWhileD)
    moreover have "sk_items ?b2 ! q = sk_items b ! q" using same[OF qp] q(1) by (simp add: it nth_sk_items)
    ultimately show False using q(2) assms(5) by simp
  qed
  have "sk_linear ?b2 k 0 = ?t" using sk_linear_takeWhile[of 0 ?b2 k] I(3) assms(2) by simp
  moreover have "sk_key ?b2 ?t \<noteq> k"
  proof
    have tl: "?t < sk_last b" "?t < p" using t q(1) qp by simp_all
    assume "sk_key ?b2 ?t = k"
    then have "fst (sk_items b ! ?t) = k" using same[OF tl(2)] tl(1) by (simp add: sk_key_def nth_sk_items)
    moreover have "sk_items b ! ?t \<in> set (sk_items b)" using tl(1) l by simp
    ultimately have "k \<in> fst ` set (sk_items b)" by (rule rev_image_eqI[OF _ sym, rotated])
    then show False using assms(7) by (simp add: map_of_eq_None_iff)
  qed
  ultimately have "sk_get ?b2 k = None" by (simp add: sk_get_def sk_linear_find_def)
  then show ?thesis using D P mem by blast
qed

end
