(* ===== verification/PointerBEntry.thy ===== *)
theory PointerBEntry
  imports SortBuncket
begin

text \<open>
  \<^verbatim>\<open>src/pointer_bentry.h\<close>, lines 1889 to 2366: \<^verbatim>\<open>PointerBEntry\<close>, an array of twelve pairs of a first key and a
  pointer to a leaf, of which the first \<^verbatim>\<open>buf.entries\<close> are in use.  \<^verbatim>\<open>entry_key\<close> and \<^verbatim>\<open>buf\<close> of the
  structure are those of the first pair.  A pointer is a six-byte offset into the region.
  \<open>None\<close> is a failed assertion, an access to unallocated memory, or a loop of \<^verbatim>\<open>Scan\<close> that does not end.
\<close>

subsection \<open>State\<close>

definition pb_count :: nat where "pb_count = 12"

record pentry =
  pe_key :: u64
  pe_ptr :: nat
  pe_prefix :: nat
  pe_suffix :: nat
  pe_entries :: nat
  pe_max :: nat

type_synonym pbentry = "pentry list"

definition pe_zero :: pentry where
  "pe_zero = \<lparr>pe_key = 0, pe_ptr = 0, pe_prefix = 0, pe_suffix = 0, pe_entries = 0, pe_max = 0\<rparr>"

definition pe_valid :: "pentry \<Rightarrow> bool" where
  "pe_valid e \<longleftrightarrow> pe_prefix e \<noteq> 0 \<or> pe_suffix e \<noteq> 0 \<or> pe_entries e \<noteq> 0 \<or> pe_max e \<noteq> 0"

definition pe_set_invalid :: "pentry \<Rightarrow> pentry" where
  "pe_set_invalid e = e\<lparr>pe_prefix := 0, pe_suffix := 0, pe_entries := 0, pe_max := 0\<rparr>"

definition pb_nr :: "pbentry \<Rightarrow> nat" where "pb_nr e = pe_entries (e ! 0)"

definition pe_data_count :: "skmem \<Rightarrow> pentry \<Rightarrow> nat option" where
  "pe_data_count m e = map_option sk_entries (sm_heap m (pe_ptr e))"

text \<open>\<^verbatim>\<open>BuncketPointer\<close>: bit 0 of the offset says that it is null.\<close>

definition pe_has_setup :: "pentry \<Rightarrow> bool" where "pe_has_setup e \<longleftrightarrow> even (pe_ptr e)"

definition pe_setup_at :: "nat \<Rightarrow> pentry \<Rightarrow> pentry" where
  "pe_setup_at a e = e\<lparr>pe_ptr := a mod 2 ^ 48\<rparr>"

definition pe_setup :: "skmem \<Rightarrow> pentry \<Rightarrow> (skmem \<times> pentry) option" where
  "pe_setup m e =
     do {
       (m1, a) \<leftarrow> sk_allocate m;
       Some (m1\<lparr>sm_heap := (sm_heap m1)(a \<mapsto> sk_new (sm_raw m a))\<rparr>, pe_setup_at a e)
     }"

text \<open>The three constructors; the lengths go to fields of four bits.\<close>

definition pb_first :: "u64 \<Rightarrow> nat \<Rightarrow> pentry" where
  "pb_first key prefix_len =
     pe_zero\<lparr>pe_key := key, pe_prefix := prefix_len mod 16, pe_suffix := nat ((8 - int prefix_len) mod 16), pe_entries := 1\<rparr>"

definition pb_new :: "skmem \<Rightarrow> u64 \<Rightarrow> nat \<Rightarrow> (skmem \<times> pbentry) option" where
  "pb_new m key prefix_len =
     do {
       (m1, e) \<leftarrow> pe_setup m (pb_first key prefix_len);
       Some (m1, (replicate pb_count pe_zero)[0 := e])
     }"

definition leaf_set :: "skmem \<Rightarrow> nat \<Rightarrow> sbuncket \<Rightarrow> skmem" where
  "leaf_set m a b = m\<lparr>sm_heap := (sm_heap m)(a \<mapsto> b)\<rparr>"

definition pb_new_put :: "skmem \<Rightarrow> u64 \<Rightarrow> u64 \<Rightarrow> nat \<Rightarrow> (skmem \<times> pbentry) option" where
  "pb_new_put m key value prefix_len =
     do {
       (m1, e) \<leftarrow> pb_new m key prefix_len;
       b \<leftarrow> sm_heap m1 (pe_ptr (e ! 0));
       (b1, _) \<leftarrow> sk_put b key value;
       Some (leaf_set m1 (pe_ptr (e ! 0)) b1, e)
     }"

definition pb_of_entry :: "pentry \<Rightarrow> pbentry" where
  "pb_of_entry e = (replicate pb_count pe_zero)[0 := e\<lparr>pe_entries := 1\<rparr>]"

definition pb_adjust_key :: "skmem \<Rightarrow> pbentry \<Rightarrow> pbentry option" where
  "pb_adjust_key m e =
     do {
       b \<leftarrow> sm_heap m (pe_ptr (e ! 0));
       k \<leftarrow> sk_min_key b;
       Some (e[0 := (e ! 0)\<lparr>pe_key := k\<rparr>])
     }"

subsection \<open>Operations\<close>

fun pb_pos :: "pbentry \<Rightarrow> u64 \<Rightarrow> nat list \<Rightarrow> nat \<Rightarrow> nat" where
  "pb_pos e key [] pos = pos"
| "pb_pos e key (i # is) pos = (if pe_valid (e ! i) \<and> pe_key (e ! i) \<le> key then pb_pos e key is (Suc i) else pos)"

definition pb_find_pos :: "pbentry \<Rightarrow> u64 \<Rightarrow> nat" where
  "pb_find_pos e key = (let pos = pb_pos e key [0..<pb_nr e] 0 in if pos = 0 then pos else pos - 1)"

text \<open>The array after the split of a leaf: the pairs behind it move up, the new leaf comes next.\<close>

definition pb_split_array :: "pbentry \<Rightarrow> nat \<Rightarrow> u64 \<Rightarrow> nat \<Rightarrow> pbentry" where
  "pb_split_array e pos split_key a =
     (let n = pb_nr e;
          e1 = map (\<lambda>i. if pos + 1 < i \<and> i \<le> n then e ! (i - 1) else e ! i) [0..<length e];
          e2 = e1[pos + 1 := pe_setup_at a ((e1 ! (pos + 1))\<lparr>pe_key := split_key, pe_prefix := 0, pe_suffix := 8\<rparr>)]
      in e2[0 := (e2 ! 0)\<lparr>pe_entries := pe_entries (e2 ! 0) + 1\<rparr>])"

definition pb_lower_key :: "pbentry \<Rightarrow> u64 \<Rightarrow> pbentry" where
  "pb_lower_key e key = (if pe_key (e ! 0) > key then e[0 := (e ! 0)\<lparr>pe_key := key\<rparr>] else e)"

text \<open>\<^verbatim>\<open>Put\<close>: every \<^verbatim>\<open>goto retry\<close> follows a split, and there are at most twelve pairs.\<close>

fun pb_put_retry :: "nat \<Rightarrow> skmem \<Rightarrow> pbentry \<Rightarrow> u64 \<Rightarrow> u64 \<Rightarrow> bool \<Rightarrow> (skmem \<times> pbentry \<times> status \<times> bool) option" where
  "pb_put_retry 0 m e key value split = None"
| "pb_put_retry (Suc f) m e key value split =
     do {
       let pos = pb_find_pos e key;
       (m1, e1) \<leftarrow> (if \<not> pe_valid (e ! pos)
                     then map_option (\<lambda>(m1, x). (m1, e[pos := x])) (pe_setup m (e ! pos)) else Some (m, e));
       let a = pe_ptr (e1 ! pos);
       b \<leftarrow> sm_heap m1 a;
       (b1, ret) \<leftarrow> sk_put b key value;
       let m2 = leaf_set m1 a b1;
       if ret = Full \<and> pb_nr e1 < pb_count then do {
         (m3, a1, split_key) \<leftarrow> sk_expand m2 a;
         pb_put_retry f m3 (pb_split_array e1 pos split_key a1) key value True
       } else Some (m2, if ret = OK then pb_lower_key e1 key else e1, ret, split)
     }"

definition pb_put :: "skmem \<Rightarrow> pbentry \<Rightarrow> u64 \<Rightarrow> u64 \<Rightarrow> (skmem \<times> pbentry \<times> status \<times> bool) option" where
  "pb_put m e key value = pb_put_retry (Suc (pb_count - pb_nr e)) m e key value False"

definition pb_update :: "skmem \<Rightarrow> pbentry \<Rightarrow> u64 \<Rightarrow> u64 \<Rightarrow> (skmem \<times> bool) option" where
  "pb_update m e key value =
     (let pos = pb_find_pos e key in
      if pos \<ge> pb_count \<or> \<not> pe_valid (e ! pos) then Some (m, False)
      else do {
        b \<leftarrow> sm_heap m (pe_ptr (e ! pos));
        let (b1, ret) = sk_update b key value;
        Some (leaf_set m (pe_ptr (e ! pos)) b1, ret = OK)
      })"

definition pb_get :: "skmem \<Rightarrow> pbentry \<Rightarrow> u64 \<Rightarrow> (u64 option) option" where
  "pb_get m e key =
     (let pos = pb_find_pos e key in
      if pos \<ge> pb_count \<or> \<not> pe_valid (e ! pos) then Some None
      else map_option (\<lambda>b. sk_get b key) (sm_heap m (pe_ptr (e ! pos))))"

definition pb_delete :: "skmem \<Rightarrow> pbentry \<Rightarrow> u64 \<Rightarrow> (skmem \<times> bool) option" where
  "pb_delete m e key =
     (let pos = pb_find_pos e key in
      if pos \<ge> pb_count \<or> \<not> pe_valid (e ! pos) then Some (m, False)
      else do {
        b \<leftarrow> sm_heap m (pe_ptr (e ! pos));
        let (b1, ret) = sk_delete b key;
        Some (leaf_set m (pe_ptr (e ! pos)) b1, ret = OK)
      })"

text \<open>\<^verbatim>\<open>Scan\<close>.  The second loop does not advance: it reads the second leaf again and again while the length is
  not reached.  \<open>lf\<close> bounds the leaves of one scan, the fuel bounds the rounds.\<close>

fun pb_scan_loop :: "nat \<Rightarrow> nat \<Rightarrow> skmem \<Rightarrow> nat \<Rightarrow> u64 \<Rightarrow> nat \<Rightarrow> kv list \<Rightarrow> (kv list \<times> status) option" where
  "pb_scan_loop 0 lf m a start len acc = None"
| "pb_scan_loop (Suc f) lf m a start len acc =
     do {
       b \<leftarrow> sm_heap m a;
       (xs, ret) \<leftarrow> sk_scan lf m b start len;
       if ret = Failed then pb_scan_loop f lf m a start (len - length xs) (acc @ xs) else Some (acc @ xs, ret)
     }"

definition pb_scan :: "nat \<Rightarrow> nat \<Rightarrow> skmem \<Rightarrow> pbentry \<Rightarrow> u64 \<Rightarrow> nat \<Rightarrow> bool \<Rightarrow> (kv list \<times> bool) option" where
  "pb_scan f lf m e start len if_first =
     (let pos = (if if_first then 0 else pb_find_pos e start) in
      if \<not> if_first \<and> (pos \<ge> pb_count \<or> \<not> pe_valid (e ! pos)) then Some ([], False)
      else do {
        b \<leftarrow> sm_heap m (pe_ptr (e ! pos));
        (xs, ret) \<leftarrow> sk_scan lf m b (if if_first then 0 else start) len;
        (ys, ret1) \<leftarrow> (if ret = Failed \<and> 1 < pb_nr e
                        then pb_scan_loop f lf m (pe_ptr (e ! 1)) start (len - length xs) xs else Some (xs, ret));
        Some (ys, ret1 = OK)
      })"

definition pb_load :: "skmem \<Rightarrow> pbentry \<Rightarrow> u64 list \<Rightarrow> u64 list \<Rightarrow> nat \<Rightarrow> skmem option" where
  "pb_load m e keys values count =
     (if pb_nr e = 1 then do {
        b \<leftarrow> sm_heap m (pe_ptr (e ! 0));
        b1 \<leftarrow> sk_load b keys values count;
        Some (leaf_set m (pe_ptr (e ! 0)) b1)
      } else None)"

definition pb_set_invalid :: "pbentry \<Rightarrow> pbentry" where "pb_set_invalid e = e[0 := pe_set_invalid (e ! 0)]"
definition pb_is_valid :: "pbentry \<Rightarrow> bool" where "pb_is_valid e \<longleftrightarrow> pe_valid (e ! 0)"

subsection \<open>Iterators\<close>

record pbiter =
  pi_idx :: nat
  pi_leaf :: nat
  pi_pos :: nat

text \<open>The constructors pass the number of prefix bytes for the prefix key.\<close>

definition pb_iter_begin :: "pbentry \<Rightarrow> pbiter" where
  "pb_iter_begin e = \<lparr>pi_idx = 0, pi_leaf = pe_ptr (e ! 0), pi_pos = 0\<rparr>"

definition pb_iter_key :: "skmem \<Rightarrow> pbiter \<Rightarrow> u64 option" where
  "pb_iter_key m it = map_option (\<lambda>b. sk_key b (pi_pos it)) (sm_heap m (pi_leaf it))"

definition pb_iter_value :: "skmem \<Rightarrow> pbiter \<Rightarrow> u64 option" where
  "pb_iter_value m it = map_option (\<lambda>b. sk_value b (pi_pos it)) (sm_heap m (pi_leaf it))"

definition pb_iter_next :: "skmem \<Rightarrow> pbentry \<Rightarrow> pbiter \<Rightarrow> (pbiter \<times> bool) option" where
  "pb_iter_next m e it =
     do {
       b \<leftarrow> sm_heap m (pi_leaf it);
       let (j, more) = (if pi_idx it < pb_nr e then sk_iter_next b (pi_pos it) else (pi_pos it, False));
       if more then Some (it\<lparr>pi_pos := j\<rparr>, True)
       else if pi_idx it + 1 < pb_nr e then do {
         let i = pi_idx it + 1;
         b1 \<leftarrow> sm_heap m (pe_ptr (e ! i));
         Some (\<lparr>pi_idx = i, pi_leaf = pe_ptr (e ! i), pi_pos = 0\<rparr>, \<not> sk_iter_end b1 0)
       } else Some (it\<lparr>pi_idx := pb_nr e, pi_pos := j\<rparr>, False)
     }"

definition pb_iter_from :: "skmem \<Rightarrow> pbentry \<Rightarrow> u64 \<Rightarrow> pbiter option" where
  "pb_iter_from m e start =
     (let pos = pb_find_pos e start in
      if \<not> pe_valid (e ! pos) then Some \<lparr>pi_idx = pb_count, pi_leaf = 0, pi_pos = 0\<rparr>
      else do {
        b \<leftarrow> sm_heap m (pe_ptr (e ! pos));
        let p = sk_iter_from b (of_nat (pe_prefix (e ! pos))) start;
        let it = \<lparr>pi_idx = pos, pi_leaf = pe_ptr (e ! pos), pi_pos = p\<rparr>;
        if sk_iter_end b p then map_option fst (pb_iter_next m e it) else Some it
      })"

definition pb_iter_end :: "pbentry \<Rightarrow> pbiter \<Rightarrow> bool" where
  "pb_iter_end e it \<longleftrightarrow> pi_idx it \<ge> pb_nr e"

text \<open>\<^verbatim>\<open>EntryIter\<close> runs over the pairs of the array.\<close>

definition pe_iter_next :: "pbentry \<Rightarrow> nat \<Rightarrow> nat \<times> bool" where
  "pe_iter_next e i = (if Suc i < pb_nr e then (Suc i, True) else (pb_nr e, False))"

definition pe_iter_end :: "pbentry \<Rightarrow> nat \<Rightarrow> bool" where
  "pe_iter_end e i \<longleftrightarrow> i \<ge> pb_nr e"

subsection \<open>Merging neighbours\<close>

text \<open>\<^verbatim>\<open>MergePointerBEntry\<close>: one pair moves to the left or to the right neighbour, then the new pair of key and
  value goes into one of them.  Making room in the right array is \<^verbatim>\<open>std::copy\<close> to a higher position, which is
  defined only if the ranges do not overlap, that is for at most one pair; removing the first pair of an
  array without pairs is undefined as well.\<close>

fun copy_down :: "pentry list \<Rightarrow> nat list \<Rightarrow> pentry list" where
  "copy_down e [] = e"
| "copy_down e (i # is) = copy_down (e[i - 1 := e ! i]) is"

definition pb_move_right :: "pbentry \<Rightarrow> pbentry \<Rightarrow> (pbentry \<times> pbentry) option" where
  "pb_move_right l r =
     (if pb_nr r \<le> 1 then
        let r1 = (if pb_nr r = 1 then r[1 := r ! 0] else r)[0 := l ! (pb_nr l - 1)];
            r2 = r1[0 := (r1 ! 0)\<lparr>pe_entries := pe_entries (r1 ! 1) + 1\<rparr>];
            l1 = l[pb_nr l - 1 := pe_set_invalid (l ! (pb_nr l - 1))]
        in Some (l1[0 := (l1 ! 0)\<lparr>pe_entries := pe_entries (l1 ! 0) - 1\<rparr>], r2)
      else None)"

definition pb_move_left :: "pbentry \<Rightarrow> pbentry \<Rightarrow> (pbentry \<times> pbentry) option" where
  "pb_move_left l r =
     (if pb_nr r \<ge> 1 then
        let l1 = l[pb_nr l := r ! 0];
            l2 = l1[0 := (l1 ! 0)\<lparr>pe_entries := pe_entries (l1 ! 0) + 1\<rparr>];
            rn = pb_nr r;
            r1 = copy_down r [1..<rn];
            r2 = r1[rn - 1 := pe_set_invalid (r1 ! (rn - 1))]
        in Some (l2, r2[0 := (r2 ! 0)\<lparr>pe_entries := rn - 1\<rparr>])
      else None)"

definition pb_merge :: "skmem \<Rightarrow> pbentry \<Rightarrow> pbentry \<Rightarrow> u64 \<Rightarrow> u64 \<Rightarrow> (skmem \<times> pbentry \<times> pbentry \<times> status) option" where
  "pb_merge m l r key value =
     do {
       (l1, r1) \<leftarrow> (if pb_nr l = pb_count then pb_move_right l r else pb_move_left l r);
       if key < pe_key (r1 ! 0)
       then map_option (\<lambda>(m1, l2, ret, _). (m1, l2, r1, ret)) (pb_put m l1 key value)
       else map_option (\<lambda>(m1, r2, ret, _). (m1, l1, r2, ret)) (pb_put m r1 key value)
     }"

end
