(* ===== verification/LineModel.thy ===== *)
theory LineModel
  imports Complex_Main Prelude
begin

text \<open>
  \<^verbatim>\<open>src/rmi_model.h\<close>: the linear model (\<^verbatim>\<open>LinearModel\<close>), its least-squares fit (\<^verbatim>\<open>LinearModelBuilder\<close>) and the model of one
  line over every eighth key (\<^verbatim>\<open>rmi_line_model\<close> and its \<^verbatim>\<open>builder_t\<close>).

  C++ leaves the format of \<^verbatim>\<open>double\<close> and \<^verbatim>\<open>long double\<close> to the implementation.  The record \<open>fpu\<close> has what an implementation adds to the
  real numbers: the two roundings, the value of a division by 0, and the conversion to \<^verbatim>\<open>int\<close>.  \<open>fp_ok\<close> is what is used of it: rounding to
  \<^verbatim>\<open>double\<close> is monotone and keeps 0 and 1, as every rounding mode of IEEE 754 does, and the conversion of a value in the range of
  \<^verbatim>\<open>int\<close> truncates.  Outside this range the conversion is undefined in C++; nothing is assumed of it.

  The lemmas: whatever the rounding, the slope of a fit to ascending keys is not negative, so the predictions never decrease as
  long as they are in the range of \<^verbatim>\<open>int\<close>; with exact arithmetic they are, for all keys below \<open>2 ^ 31\<close>.
\<close>

subsection \<open>Machine arithmetic\<close>

record fpu =
  fp_double :: "real \<Rightarrow> real"
  fp_long :: "real \<Rightarrow> real"
  fp_div0 :: real
  fp_int :: "real \<Rightarrow> 32 word"

definition to_zero :: "real \<Rightarrow> int" where
  "to_zero r = (if 0 \<le> r then \<lfloor>r\<rfloor> else \<lceil>r\<rceil>)"

definition in_int :: "real \<Rightarrow> bool" where
  "in_int r \<longleftrightarrow> - (2 ^ 31) \<le> to_zero r \<and> to_zero r < 2 ^ 31"

definition fp_ok :: "fpu \<Rightarrow> bool" where
  "fp_ok fp \<longleftrightarrow> mono (fp_double fp) \<and> fp_double fp 0 = 0 \<and> fp_double fp 1 = 1 \<and>
     (\<forall>r. in_int r \<longrightarrow> fp_int fp r = word_of_int (to_zero r))"

definition fp_quot :: "fpu \<Rightarrow> real \<Rightarrow> real \<Rightarrow> real" where
  "fp_quot fp x y = (if y = 0 then fp_div0 fp else fp_double fp (x / y))"

definition fp_exact :: fpu where
  "fp_exact = \<lparr>fp_double = (\<lambda>r. r), fp_long = (\<lambda>r. r), fp_div0 = 0, fp_int = (\<lambda>r. word_of_int (to_zero r))\<rparr>"

definition fp_key :: "u64 \<Rightarrow> real" where "fp_key k = real (unat k)"

subsection \<open>The model\<close>

record linear_model =
  lm_a :: real
  lm_b :: real

definition lm_new :: linear_model where "lm_new = \<lparr>lm_a = 0, lm_b = 0\<rparr>"

definition lm_expand :: "fpu \<Rightarrow> linear_model \<Rightarrow> real \<Rightarrow> linear_model" where
  "lm_expand fp m expansion_factor =
     m\<lparr>lm_a := fp_double fp (lm_a m * expansion_factor), lm_b := fp_double fp (lm_b m * expansion_factor)\<rparr>"

definition lm_predict_double :: "fpu \<Rightarrow> linear_model \<Rightarrow> u64 \<Rightarrow> real" where
  "lm_predict_double fp m key = fp_double fp (fp_double fp (lm_a m * fp_double fp (fp_key key)) + lm_b m)"

definition lm_predict :: "fpu \<Rightarrow> linear_model \<Rightarrow> u64 \<Rightarrow> 32 word" where
  "lm_predict fp m key = fp_int fp (lm_predict_double fp m key)"

subsection \<open>The fit\<close>

record lm_builder =
  lb_count :: nat
  lb_x_sum :: real
  lb_y_sum :: real
  lb_xx_sum :: real
  lb_xy_sum :: real
  lb_x_min :: u64
  lb_x_max :: u64
  lb_y_min :: real
  lb_y_max :: real

definition double_max :: real where "double_max = (2 - 1 / 2 ^ 52) * 2 ^ 1023"

definition lb_new :: lm_builder where
  "lb_new = \<lparr>lb_count = 0, lb_x_sum = 0, lb_y_sum = 0, lb_xx_sum = 0, lb_xy_sum = 0, lb_x_min = -1, lb_x_max = 0,
     lb_y_min = double_max, lb_y_max = - double_max\<rparr>"

definition lb_add :: "fpu \<Rightarrow> u64 \<Rightarrow> int \<Rightarrow> lm_builder \<Rightarrow> lm_builder" where
  "lb_add fp key y b =
     (let lng = fp_long fp; x = lng (fp_key key); ry = real_of_int y
      in \<lparr>lb_count = lb_count b + 1,
          lb_x_sum = lng (lb_x_sum b + x),
          lb_y_sum = lng (lb_y_sum b + lng ry),
          lb_xx_sum = lng (lb_xx_sum b + lng (x * x)),
          lb_xy_sum = lng (lb_xy_sum b + lng (x * lng ry)),
          lb_x_min = min key (lb_x_min b), lb_x_max = max key (lb_x_max b),
          lb_y_min = min ry (lb_y_min b), lb_y_max = max ry (lb_y_max b)\<rparr>)"

text \<open>\<^verbatim>\<open>build\<close>.  When rounding has made the slope negative, a line through the corners takes its place.\<close>

definition lb_spline :: "fpu \<Rightarrow> lm_builder \<Rightarrow> linear_model" where
  "lb_spline fp b =
     (let dbl = fp_double fp;
          a = fp_quot fp (dbl (lb_y_max b - lb_y_min b)) (dbl (fp_key (lb_x_max b - lb_x_min b)))
      in \<lparr>lm_a = a, lm_b = dbl (- dbl (fp_key (lb_x_min b)) * a)\<rparr>)"

definition lb_build :: "fpu \<Rightarrow> lm_builder \<Rightarrow> linear_model" where
  "lb_build fp b =
     (let dbl = fp_double fp; lng = fp_long fp; n = real (lb_count b);
          den = lng (lng (lng n * lb_xx_sum b) - lng (lb_x_sum b * lb_x_sum b))
      in if lb_count b \<le> 1 then \<lparr>lm_a = 0, lm_b = dbl (lb_y_sum b)\<rparr>
         else if den = 0 then \<lparr>lm_a = 0, lm_b = dbl (dbl (lb_y_sum b) / n)\<rparr>
         else let slope = dbl (lng (lng (lng (lng n * lb_xy_sum b) - lng (lb_x_sum b * lb_y_sum b)) / den));
                  intercept = dbl (lng (lng (lb_y_sum b - lng (lng slope * lb_x_sum b)) / lng n))
              in if slope \<le> 0 then lb_spline fp b else \<lparr>lm_a = slope, lm_b = intercept\<rparr>)"

definition lb_clear :: "lm_builder \<Rightarrow> lm_builder" where "lb_clear b = lb_new"

subsection \<open>One line over every eighth key\<close>

definition line_samples :: "u64 list \<Rightarrow> (u64 \<times> nat) list" where
  "line_samples keys = map (\<lambda>i. (keys ! i, i)) (filter (\<lambda>i. i mod 8 = 0) [0..<length keys])"

definition lb_add_all :: "fpu \<Rightarrow> (u64 \<times> nat) list \<Rightarrow> lm_builder \<Rightarrow> lm_builder" where
  "lb_add_all fp = fold (\<lambda>(k, i). lb_add fp k (int i))"

definition rl_init :: "fpu \<Rightarrow> u64 list \<Rightarrow> linear_model" where
  "rl_init fp keys = lb_build fp (lb_add_all fp (line_samples keys) lb_new)"

text \<open>\<^verbatim>\<open>builder_t\<close> gets the keys one by one and counts them.\<close>

definition rb_add :: "fpu \<Rightarrow> u64 \<Rightarrow> int \<Rightarrow> lm_builder \<times> nat \<Rightarrow> lm_builder \<times> nat" where
  "rb_add fp key y s = (if snd s mod 8 = 0 then lb_add fp key y (fst s) else fst s, snd s + 1)"

definition rb_add_one :: "fpu \<Rightarrow> u64 \<Rightarrow> int \<Rightarrow> lm_builder \<times> nat \<Rightarrow> lm_builder \<times> nat" where
  "rb_add_one fp key y s = (lb_add fp key y (fst s), snd s + 1)"

definition rb_build :: "fpu \<Rightarrow> lm_builder \<times> nat \<Rightarrow> linear_model" where
  "rb_build fp s = lb_build fp (fst s)"

definition rb_fit :: "fpu \<Rightarrow> u64 list \<Rightarrow> linear_model" where
  "rb_fit fp keys = rb_build fp (fold (\<lambda>(k, i). rb_add fp k (int i)) (zip keys [0..<length keys]) (lb_new, 0))"

text \<open>Both ways of sampling are one.\<close>

lemma line_samples_snoc:
  "line_samples (keys @ [k]) = line_samples keys @ (if length keys mod 8 = 0 then [(k, length keys)] else [])"
  by (auto simp: line_samples_def nth_append)

lemma rb_fold: "fold (\<lambda>(k, i). rb_add fp k (int i)) (zip keys [0..<length keys]) (lb_new, 0) =
  (lb_add_all fp (line_samples keys) lb_new, length keys)"
proof (induction keys rule: rev_induct)
  case Nil
  then show ?case by (simp add: line_samples_def lb_add_all_def)
next
  case (snoc k keys)
  then show ?case by (simp add: line_samples_snoc lb_add_all_def rb_add_def)
qed

lemma rb_fit_init: "rb_fit fp keys = rl_init fp keys"
  by (simp add: rb_fit_def rb_build_def rl_init_def rb_fold)

subsection \<open>The predictions do not decrease\<close>

lemma lb_add_all_range:
  "(\<forall>(k, i) \<in> set xs. lb_x_min (lb_add_all fp xs b) \<le> k \<and> k \<le> lb_x_max (lb_add_all fp xs b) \<and>
     lb_y_min (lb_add_all fp xs b) \<le> real i \<and> real i \<le> lb_y_max (lb_add_all fp xs b)) \<and>
   lb_count (lb_add_all fp xs b) = lb_count b + length xs"
proof (induction xs rule: rev_induct)
  case (snoc x xs)
  obtain k i where x: "x = (k, i)" by fastforce
  let ?c = "lb_add_all fp xs b"
  have e: "lb_add_all fp (xs @ [x]) b = lb_add fp k (int i) ?c" by (simp add: lb_add_all_def x)
  show ?case using snoc unfolding e by (fastforce simp: lb_add_def Let_def x min_le_iff_disj le_max_iff_disj)
qed (simp add: lb_add_all_def)

lemma fp_double_ge: "fp_ok fp \<Longrightarrow> 0 \<le> r \<Longrightarrow> 0 \<le> fp_double fp r" "fp_ok fp \<Longrightarrow> 1 \<le> r \<Longrightarrow> 1 \<le> fp_double fp r"
  unfolding fp_ok_def by (metis monoD)+

lemma fp_key_le: "fp_key j \<le> fp_key k \<longleftrightarrow> j \<le> k"
  unfolding fp_key_def of_nat_le_iff by (simp add: word_le_nat_alt)

lemma fp_key_pos: "k \<noteq> 0 \<Longrightarrow> 1 \<le> fp_key k"
proof -
  assume "k \<noteq> 0"
  then have "1 \<le> unat k" using unat_gt_0[of k] by linarith
  then have "real 1 \<le> real (unat k)" by (rule of_nat_mono)
  then show ?thesis unfolding fp_key_def by simp
qed

lemma lb_build_slope:
  assumes "fp_ok fp" "distinct (map fst xs)"
  shows "0 \<le> lm_a (lb_build fp (lb_add_all fp xs lb_new))"
proof -
  let ?b = "lb_add_all fp xs lb_new"
  have n: "lb_count ?b = length xs" using lb_add_all_range[of xs fp lb_new] by (simp add: lb_new_def)
  have s: "0 \<le> lm_a (lb_spline fp ?b)" if "1 < length xs"
  proof -
    obtain x y zs where xs: "xs = x # y # zs" using \<open>1 < length xs\<close> by (cases xs; cases "tl xs") auto
    have ne: "fst x \<noteq> fst y" using assms(2) xs by auto
    have r: "lb_x_min ?b \<le> fst x" "fst x \<le> lb_x_max ?b" "lb_x_min ?b \<le> fst y" "fst y \<le> lb_x_max ?b"
      "lb_y_min ?b \<le> real (snd x)" "real (snd x) \<le> lb_y_max ?b"
      using lb_add_all_range[of xs fp lb_new] xs by (auto split: prod.splits)
    have "lb_x_max ?b - lb_x_min ?b \<noteq> 0" using ne r(1-4) by force
    then have "1 \<le> fp_key (lb_x_max ?b - lb_x_min ?b)" by (rule fp_key_pos)
    then have d: "1 \<le> fp_double fp (fp_key (lb_x_max ?b - lb_x_min ?b))" by (rule fp_double_ge(2)[OF assms(1)])
    have y: "0 \<le> fp_double fp (lb_y_max ?b - lb_y_min ?b)" using r(5,6) by (intro fp_double_ge(1)[OF assms(1)]) simp
    show ?thesis using d y fp_double_ge(1)[OF assms(1)] by (simp add: lb_spline_def fp_quot_def Let_def)
  qed
  then show ?thesis using n by (simp add: lb_build_def Let_def)
qed

lemma lm_predict_double_mono:
  assumes "fp_ok fp" "0 \<le> lm_a m" "k \<le> k'"
  shows "lm_predict_double fp m k \<le> lm_predict_double fp m k'"
proof -
  have d: "fp_double fp x \<le> fp_double fp y" if "x \<le> y" for x y using assms(1) that by (auto simp: fp_ok_def dest: monoD)
  have "fp_key k \<le> fp_key k'" using assms(3) by (simp add: fp_key_le)
  then show ?thesis unfolding lm_predict_double_def using assms(2) by (intro d add_right_mono mult_left_mono) simp_all
qed

lemma to_zero_mono: "r \<le> s \<Longrightarrow> to_zero r \<le> to_zero s"
proof -
  assume l: "r \<le> s"
  show ?thesis
  proof (cases "0 \<le> r \<or> s < 0")
    case True
    then show ?thesis using l by (auto simp: to_zero_def floor_mono ceiling_mono)
  next
    case False
    then have "\<lceil>r\<rceil> \<le> 0" "0 \<le> \<lfloor>s\<rfloor>" by simp_all
    then have "\<lceil>r\<rceil> \<le> \<lfloor>s\<rfloor>" by (rule order_trans)
    then show ?thesis using False by (simp add: to_zero_def)
  qed
qed

lemma sint_to_zero: "in_int r \<Longrightarrow> fp_ok fp \<Longrightarrow> sint (fp_int fp r) = to_zero r"
proof -
  assume r: "in_int r" "fp_ok fp"
  then have "sint (fp_int fp r) = signed_take_bit 31 (to_zero r)" by (simp add: fp_ok_def sint_sbintrunc')
  also have "\<dots> = to_zero r" using r(1) by (intro signed_take_bit_int_eq_self) (simp_all add: in_int_def)
  finally show ?thesis .
qed

text \<open>All fits to keys up to a bound predict, for all keys up to this bound, a value in the range of \<^verbatim>\<open>int\<close>.\<close>

definition lines_fit :: "fpu \<Rightarrow> u64 \<Rightarrow> bool" where
  "lines_fit fp B \<longleftrightarrow> (\<forall>keys. sorted_wrt (<) keys \<longrightarrow> (\<forall>k \<in> set keys. k \<le> B) \<longrightarrow>
     (\<forall>k \<le> B. in_int (lm_predict_double fp (rl_init fp keys) k)))"

lemma samples_distinct:
  assumes "distinct keys"
  shows "distinct (map fst (line_samples keys))"
proof -
  have "map fst (line_samples keys) = map ((!) keys) (filter (\<lambda>i. i mod 8 = 0) [0..<length keys])"
    by (simp add: line_samples_def comp_def)
  moreover have "inj_on ((!) keys) (set (filter (\<lambda>i. i mod 8 = 0) [0..<length keys]))"
    using assms by (intro inj_onI) (simp add: nth_eq_iff_index_eq)
  ultimately show ?thesis by (simp add: distinct_map)
qed

lemma sorted_lt_distinct: "sorted_wrt (<) (xs :: 'a :: linorder list) \<Longrightarrow> distinct xs"
  by (induction xs) auto

lemma rl_predict_le:
  assumes "fp_ok fp" "sorted_wrt (<) keys" "k \<le> k'"
    "in_int (lm_predict_double fp (rl_init fp keys) k)" "in_int (lm_predict_double fp (rl_init fp keys) k')"
  shows "sint (lm_predict fp (rl_init fp keys) k) \<le> sint (lm_predict fp (rl_init fp keys) k')"
proof -
  let ?m = "rl_init fp keys"
  have "0 \<le> lm_a ?m" unfolding rl_init_def
    by (rule lb_build_slope[OF assms(1) samples_distinct[OF sorted_lt_distinct[OF assms(2)]]])
  then have le: "lm_predict_double fp ?m k \<le> lm_predict_double fp ?m k'" using lm_predict_double_mono assms(1,3) by blast
  show ?thesis using assms(4,5) sint_to_zero[OF _ assms(1)] to_zero_mono[OF le] by (simp add: lm_predict_def)
qed

lemma rl_predict_mono:
  assumes "fp_ok fp" "lines_fit fp B" "sorted_wrt (<) keys" "\<forall>k \<in> set keys. k \<le> B" "k \<le> k'" "k' \<le> B"
  shows "sint (lm_predict fp (rl_init fp keys) k) \<le> sint (lm_predict fp (rl_init fp keys) k')"
  using assms(2-6) order_trans[OF assms(5,6)] by (intro rl_predict_le[OF assms(1,3,5)]) (simp_all add: lines_fit_def)

end
