(* ===== verification/LeTree.thy ===== *)
theory LeTree
  imports PointerBEntry LineModel
begin

text \<open>
  \<^verbatim>\<open>src/letree.h\<close>: the tree over pointer entries.  A linear model maps a key
  to a group, the model of the group maps it to an entry, and the entry to a leaf.  A full entry makes its
  group expand, so that every leaf gets an entry of its own; a group with too many entries makes the tree
  expand, which distributes the leaves over new groups.

  The lines are those of \<open>LineModel\<close>, fitted with the arithmetic \<open>fp\<close>; a group and the tree keep the line as the function from a
  key to its prediction, a
  C \<open>int\<close>.  A block of entries is a list as long as the block; \<open>[]\<close> is an entry not yet constructed.  \<open>None\<close> is
  an access outside an array, a failed allocation in the region, or exhausted fuel.
\<close>

subsection \<open>Models\<close>

type_synonym line = "u64 \<Rightarrow> 32 word"

definition max_group_entries :: nat where "max_group_entries = 4096"
definition min_group_entries :: nat where "min_group_entries = 64"

text \<open>\<^verbatim>\<open>model.predict(key) / min_entry_count\<close>: the divisor is unsigned, so the prediction is converted to 64 unsigned bits,
  and the quotient back to \<open>int\<close>; then it is clipped.\<close>

definition line_group :: "32 word \<Rightarrow> int" where
  "line_group p = sint (ucast ((scast p :: u64) div word_of_nat min_group_entries) :: 32 word)"

definition clip :: "int \<Rightarrow> nat \<Rightarrow> int" where
  "clip i n = min (max 0 i) (int n - 1)"

subsection \<open>Groups\<close>

record egroup =
  eg_nr :: nat
  eg_next :: nat
  eg_min :: u64
  eg_space :: "pbentry list"
  eg_model :: line

text \<open>Zero-filled memory.\<close>

definition eg_zero :: egroup where
  "eg_zero = \<lparr>eg_nr = 0, eg_next = 0, eg_min = 0, eg_space = [], eg_model = (\<lambda>_. 0)\<rparr>"

definition entry_key_of :: "pbentry \<Rightarrow> u64" where "entry_key_of e = pe_key (e ! 0)"
definition eg_key :: "egroup \<Rightarrow> nat \<Rightarrow> u64" where "eg_key g i = entry_key_of (eg_space g ! i)"

definition eg_entry :: "egroup \<Rightarrow> nat \<Rightarrow> pbentry option" where
  "eg_entry g i = (if i < length (eg_space g) then Some (eg_space g ! i) else None)"

definition eg_train :: "fpu \<Rightarrow> pbentry list \<Rightarrow> line" where
  "eg_train fp es = lm_predict fp (rl_init fp (map entry_key_of es))"

definition eg_init :: "fpu \<Rightarrow> skmem \<Rightarrow> egroup \<Rightarrow> (skmem \<times> egroup) option" where
  "eg_init fp m g =
     do {
       (m1, e) \<leftarrow> pb_new m 0 8;
       Some (m1, g\<lparr>eg_nr := 1, eg_next := 1, eg_space := [e], eg_model := eg_train fp [e]\<rparr>)
     }"

text \<open>Bulk loading.  The first form passes the value where the constructor takes the length of the prefix.\<close>

fun eg_load_keys :: "skmem \<Rightarrow> kv list \<Rightarrow> (skmem \<times> pbentry list) option" where
  "eg_load_keys m [] = Some (m, [])"
| "eg_load_keys m ((k, v) # xs) =
     do {
       (m1, e) \<leftarrow> pb_new m k (unat v mod 16);
       (m2, es) \<leftarrow> eg_load_keys m1 xs;
       Some (m2, e # es)
     }"

definition eg_bulk_load_all :: "fpu \<Rightarrow> skmem \<Rightarrow> egroup \<Rightarrow> kv list \<Rightarrow> (skmem \<times> egroup) option" where
  "eg_bulk_load_all fp m g data =
     do {
       (m1, es) \<leftarrow> eg_load_keys m data;
       Some (m1, g\<lparr>eg_nr := length data, eg_next := length data, eg_space := es, eg_model := eg_train fp es\<rparr>)
     }"

fun eg_load_pairs :: "skmem \<Rightarrow> kv list \<Rightarrow> (skmem \<times> pbentry list) option" where
  "eg_load_pairs m [] = Some (m, [])"
| "eg_load_pairs m ((k, v) # xs) =
     do {
       (m1, e) \<leftarrow> pb_new_put m k v 0;
       (m2, es) \<leftarrow> eg_load_pairs m1 xs;
       Some (m2, e # es)
     }"

definition eg_bulk_load :: "fpu \<Rightarrow> skmem \<Rightarrow> egroup \<Rightarrow> kv list \<Rightarrow> nat \<Rightarrow> nat \<Rightarrow> (skmem \<times> egroup) option" where
  "eg_bulk_load fp m g data start count =
     (if start + count \<le> length data \<and> count \<le> length (eg_space g) \<and> data \<noteq> [] then do {
        (m1, es) \<leftarrow> eg_load_pairs m (take count (drop start data));
        Some (m1, g\<lparr>eg_nr := count, eg_next := count, eg_min := fst (data ! 0),
                    eg_space := es @ drop count (eg_space g), eg_model := eg_train fp es\<rparr>)
      } else None)"

definition eg_append :: "egroup \<Rightarrow> pentry \<Rightarrow> egroup option" where
  "eg_append g x =
     (if eg_nr g < length (eg_space g)
      then Some (g\<lparr>eg_space := (eg_space g)[eg_nr g := pb_of_entry x], eg_nr := eg_nr g + 1\<rparr>) else None)"

definition eg_inc :: "egroup \<Rightarrow> egroup" where "eg_inc g = g\<lparr>eg_next := eg_next g + 1\<rparr>"
definition eg_reserve :: "egroup \<Rightarrow> egroup" where "eg_reserve g = g\<lparr>eg_space := replicate (eg_next g) []\<rparr>"

definition eg_retrain :: "fpu \<Rightarrow> egroup \<Rightarrow> egroup option" where
  "eg_retrain fp g =
     (if eg_nr g \<le> eg_next g \<and> eg_space g \<noteq> []
      then Some (g\<lparr>eg_model := eg_train fp (take (eg_nr g) (eg_space g)), eg_min := eg_key g 0\<rparr>) else None)"

subsection \<open>Search of an entry\<close>

text \<open>\<open>ub\<close> in the names: the first position whose key is greater.\<close>

function grow_left :: "(nat \<Rightarrow> u64) \<Rightarrow> u64 \<Rightarrow> nat \<Rightarrow> nat \<Rightarrow> nat" where
  "grow_left f key m bound = (if 0 < bound \<and> bound < m \<and> key < f (m - bound) then grow_left f key m (bound * 2) else bound)"
  by pat_completeness auto
termination by (relation "measure (\<lambda>(f, key, m, bound). m - bound)") auto

function grow_right :: "(nat \<Rightarrow> u64) \<Rightarrow> u64 \<Rightarrow> nat \<Rightarrow> nat \<Rightarrow> nat \<Rightarrow> nat" where
  "grow_right f key m sz bound =
     (if 0 < bound \<and> bound < sz \<and> f (m + bound) \<le> key then grow_right f key m sz (bound * 2) else bound)"
  by pat_completeness auto
termination by (relation "measure (\<lambda>(f, key, m, sz, bound). sz - bound)") auto

function ub_linear :: "(nat \<Rightarrow> u64) \<Rightarrow> u64 \<Rightarrow> nat \<Rightarrow> nat \<Rightarrow> nat" where
  "ub_linear f key l r = (if l < r \<and> f l \<le> key then ub_linear f key (Suc l) r else l)"
  by pat_completeness auto
termination by (relation "measure (\<lambda>(f, key, l, r). r - l)") auto

function ub_binary :: "(nat \<Rightarrow> u64) \<Rightarrow> u64 \<Rightarrow> nat \<Rightarrow> nat \<Rightarrow> nat" where
  "ub_binary f key l r =
     (if l < r then
        let mid = l + (r - l) div 2 in
        if f mid \<le> key then ub_binary f key (mid + 1) r else ub_binary f key l mid
      else l)"
  by pat_completeness auto
termination by (relation "measure (\<lambda>(f, key, l, r). r - l)") auto

function lb_binary :: "(nat \<Rightarrow> u64) \<Rightarrow> u64 \<Rightarrow> nat \<Rightarrow> nat \<Rightarrow> nat" where
  "lb_binary f key l r =
     (if l < r then
        let mid = l + (r - l) div 2 in
        if f mid < key then lb_binary f key (mid + 1) r else lb_binary f key l mid
      else l)"
  by pat_completeness auto
termination by (relation "measure (\<lambda>(f, key, l, r). r - l)") auto

declare grow_left.simps [simp del] grow_right.simps [simp del] ub_linear.simps [simp del] ub_binary.simps [simp del]
  lb_binary.simps [simp del]

definition exponential_search :: "(nat \<Rightarrow> u64) \<Rightarrow> nat \<Rightarrow> nat \<Rightarrow> u64 \<Rightarrow> nat" where
  "exponential_search f n m key =
     (let (l, r) =
        (if key < f m then
           let bound = grow_left f key m 1 in (m - min bound m, m - bound div 2)
         else
           let sz = n - m; bound = grow_right f key m sz 1 in (m + bound div 2, m + min bound sz))
      in if r - l < 6 then ub_linear f key l r - 1 else ub_binary f key l r - 1)"

definition eg_find :: "egroup \<Rightarrow> u64 \<Rightarrow> nat" where
  "eg_find g key = exponential_search (eg_key g) (eg_nr g) (nat (clip (sint (eg_model g key)) (eg_nr g))) key"

subsection \<open>Expansion and operations of a group\<close>

text \<open>The pairs of one entry, as \<^verbatim>\<open>PointerBEntry::EntryIter\<close> visits them.\<close>

function pe_walk :: "pbentry \<Rightarrow> nat \<Rightarrow> pentry list" where
  "pe_walk e i = (if pe_iter_end e i then [] else e ! i # pe_walk e (fst (pe_iter_next e i)))"
  by pat_completeness auto
termination by (relation "measure (\<lambda>(e, i). pb_nr e - i)") (auto simp: pe_iter_end_def pe_iter_next_def)

declare pe_walk.simps [simp del]

definition eg_adjust :: "skmem \<Rightarrow> egroup \<Rightarrow> egroup option" where
  "eg_adjust m g =
     do {
       e \<leftarrow> eg_entry g 0;
       e1 \<leftarrow> pb_adjust_key m e;
       Some (g\<lparr>eg_space := (eg_space g)[0 := e1]\<rparr>)
     }"

definition eg_expand :: "fpu \<Rightarrow> skmem \<Rightarrow> egroup \<Rightarrow> (skmem \<times> egroup) option" where
  "eg_expand fp m g =
     do {
       g1 \<leftarrow> eg_adjust m g;
       let pairs = concat (map (\<lambda>i. pe_walk (eg_space g1 ! i) 0) [0..<eg_nr g1]);
       let es = map pb_of_entry pairs;
       if eg_nr g1 \<le> length (eg_space g1) \<and> length pairs \<le> eg_next g1
       then Some (m\<lparr>sm_expands := sm_expands m + 1\<rparr>,
                  g1\<lparr>eg_space := es @ replicate (eg_next g1 - length pairs) [], eg_model := eg_train fp es,
                     eg_nr := length pairs, eg_next := length pairs\<rparr>)
       else None
     }"

text \<open>\<^verbatim>\<open>Put\<close>; after an expansion every entry has room, so the second round is the last one.\<close>

fun eg_put :: "nat \<Rightarrow> fpu \<Rightarrow> skmem \<Rightarrow> egroup \<Rightarrow> u64 \<Rightarrow> u64 \<Rightarrow> (skmem \<times> egroup \<times> status) option" where
  "eg_put 0 fp m g key value = None"
| "eg_put (Suc f) fp m g key value =
     do {
       let i = eg_find g key;
       e \<leftarrow> eg_entry g i;
       (m1, e1, ret, split) \<leftarrow> pb_put m e key value;
       let g1 = g\<lparr>eg_space := (eg_space g)[i := e1], eg_next := eg_next g + (if split then 1 else 0)\<rparr>;
       if ret = Full then
         if eg_next g1 > max_group_entries then Some (m1, g1, Full)
         else do {
           (m2, g2) \<leftarrow> eg_expand fp m1 g1;
           eg_put f fp m2 g2 key value
         }
       else Some (m1, g1, ret)
     }"

definition eg_get :: "skmem \<Rightarrow> egroup \<Rightarrow> u64 \<Rightarrow> (u64 option) option" where
  "eg_get m g key = do { e \<leftarrow> eg_entry g (eg_find g key); pb_get m e key }"

definition eg_update :: "skmem \<Rightarrow> egroup \<Rightarrow> u64 \<Rightarrow> u64 \<Rightarrow> (skmem \<times> bool) option" where
  "eg_update m g key value = do { e \<leftarrow> eg_entry g (eg_find g key); pb_update m e key value }"

definition eg_delete :: "skmem \<Rightarrow> egroup \<Rightarrow> u64 \<Rightarrow> (skmem \<times> bool) option" where
  "eg_delete m g key = do { e \<leftarrow> eg_entry g (eg_find g key); pb_delete m e key }"

text \<open>\<^verbatim>\<open>Scan\<close>: the entries from the first one, or from the one of the start key, until one reports success.  The
  numbers \<open>f\<close> and \<open>lf\<close> bound the loops inside an entry.\<close>

fun eg_scan_loop :: "nat \<Rightarrow> nat \<Rightarrow> skmem \<Rightarrow> pbentry list \<Rightarrow> u64 \<Rightarrow> nat \<Rightarrow> kv list \<Rightarrow> (kv list \<times> bool) option" where
  "eg_scan_loop f lf m [] start len acc = Some (acc, False)"
| "eg_scan_loop f lf m (e # es) start len acc =
     do {
       (xs, ret) \<leftarrow> pb_scan f lf m e start len False;
       if ret then Some (acc @ xs, True) else eg_scan_loop f lf m es start (len - length xs) (acc @ xs)
     }"

definition eg_scan :: "nat \<Rightarrow> nat \<Rightarrow> skmem \<Rightarrow> egroup \<Rightarrow> u64 \<Rightarrow> nat \<Rightarrow> bool \<Rightarrow> (kv list \<times> bool) option" where
  "eg_scan f lf m g start len if_first =
     do {
       let i = (if if_first then 0 else eg_find g start);
       e \<leftarrow> eg_entry g i;
       (xs, ret) \<leftarrow> pb_scan f lf m e start len if_first;
       if ret then Some (xs, True)
       else eg_scan_loop f lf m (drop (Suc i) (take (eg_nr g) (eg_space g))) start (len - length xs) xs
     }"

definition eg_fast_get :: "skmem \<Rightarrow> egroup \<Rightarrow> u64 \<Rightarrow> (u64 option) option" where
  "eg_fast_get m g key = (if eg_nr g = 0 \<or> key < eg_min g then Some None else eg_get m g key)"

definition eg_scan_here :: "egroup \<Rightarrow> u64 \<Rightarrow> bool" where
  "eg_scan_here g key \<longleftrightarrow> \<not> (eg_nr g = 0 \<or> key < eg_min g)"

subsection \<open>Iterators of a group\<close>

text \<open>\<^verbatim>\<open>group::EntryIter\<close>: the number of the entry and the position in it.\<close>

definition ge_next :: "egroup \<Rightarrow> nat \<times> nat \<Rightarrow> (nat \<times> nat) \<times> bool" where
  "ge_next g = (\<lambda>(i, j).
     let (j1, more) = (if i < eg_nr g then pe_iter_next (eg_space g ! i) j else (j, False))
     in if more then ((i, j1), True)
        else if i + 1 \<ge> eg_nr g then ((i + 1, j1), False) else ((i + 1, 0), True))"

definition ge_end :: "egroup \<Rightarrow> nat \<times> nat \<Rightarrow> bool" where
  "ge_end g it \<longleftrightarrow> fst it \<ge> eg_nr g"

definition ge_pair :: "egroup \<Rightarrow> nat \<times> nat \<Rightarrow> pentry" where
  "ge_pair g it = eg_space g ! fst it ! snd it"

text \<open>All pairs it visits.\<close>

function ge_walk :: "egroup \<Rightarrow> nat \<times> nat \<Rightarrow> pentry list" where
  "ge_walk g it = (if ge_end g it then [] else ge_pair g it # ge_walk g (fst (ge_next g it)))"
  by pat_completeness auto
termination
  by (relation "measures [\<lambda>(g, it). eg_nr g - fst it, \<lambda>(g, it). pb_nr (eg_space g ! fst it) - snd it]")
    (auto simp: ge_end_def ge_next_def pe_iter_next_def Let_def split: if_splits)

declare ge_walk.simps [simp del]

text \<open>\<^verbatim>\<open>group::BEntryIter\<close>: the bound of the subscript admits the position behind the last entry.\<close>

definition gb_key :: "egroup \<Rightarrow> nat \<Rightarrow> u64 option" where
  "gb_key g i = map_option entry_key_of (eg_entry g i)"

definition gb_at :: "egroup \<Rightarrow> nat \<Rightarrow> nat \<Rightarrow> u64 option" where
  "gb_at g i k = (if k + i > eg_nr g then gb_key g (eg_nr g - 1) else gb_key g (k + i))"

text \<open>\<^verbatim>\<open>group::Iter\<close>.\<close>

type_synonym giter = "nat \<times> pbiter"

definition gi_begin :: "egroup \<Rightarrow> giter option" where
  "gi_begin g =
     (if eg_nr g = 0 then Some (0, \<lparr>pi_idx = 0, pi_leaf = 0, pi_pos = 0\<rparr>)
      else do { e \<leftarrow> eg_entry g 0; Some (0, pb_iter_begin e) })"

definition gi_next :: "skmem \<Rightarrow> egroup \<Rightarrow> giter \<Rightarrow> (giter \<times> bool) option" where
  "gi_next m g it =
     do {
       (b, more) \<leftarrow> (if fst it < eg_nr g then do { e \<leftarrow> eg_entry g (fst it); pb_iter_next m e (snd it) } else Some (snd it, False));
       if more then Some ((fst it, b), True)
       else let i = fst it + 1 in
         if i < eg_nr g then do { e \<leftarrow> eg_entry g i; Some ((i, pb_iter_begin e), True) } else Some ((i, b), False)
     }"

definition gi_from :: "skmem \<Rightarrow> egroup \<Rightarrow> u64 \<Rightarrow> giter option" where
  "gi_from m g start =
     do {
       let i = eg_find g start;
       e \<leftarrow> eg_entry g i;
       b \<leftarrow> pb_iter_from m e start;
       if pb_iter_end e b then map_option fst (gi_next m g (i, b)) else Some (i, b)
     }"

definition gi_end :: "egroup \<Rightarrow> giter \<Rightarrow> bool" where "gi_end g it \<longleftrightarrow> fst it \<ge> eg_nr g"
definition gi_key :: "skmem \<Rightarrow> giter \<Rightarrow> u64 option" where "gi_key m it = pb_iter_key m (snd it)"
definition gi_value :: "skmem \<Rightarrow> giter \<Rightarrow> u64 option" where "gi_value m it = pb_iter_value m (snd it)"

subsection \<open>The tree\<close>

record letree =
  lt_groups :: "egroup list"
  lt_nr :: nat
  lt_model :: line
  lt_mem :: skmem
  lt_expands :: u64

definition lt_new :: "skmem \<Rightarrow> letree" where
  "lt_new m = \<lparr>lt_groups = [], lt_nr = 0, lt_model = (\<lambda>_. 0), lt_mem = m, lt_expands = 0\<rparr>"

text \<open>The groups of this constructor are memory that nobody has initialised.\<close>

definition lt_new_groups :: "skmem \<Rightarrow> egroup list \<Rightarrow> nat \<Rightarrow> letree" where
  "lt_new_groups m raw groups = \<lparr>lt_groups = take groups raw, lt_nr = groups, lt_model = (\<lambda>_. 0), lt_mem = m, lt_expands = 0\<rparr>"

text \<open>\<^verbatim>\<open>Init\<close>; the memory of the group is not cleared, so its smallest key is the one that was there.\<close>

definition lt_init :: "fpu \<Rightarrow> letree \<Rightarrow> egroup \<Rightarrow> letree option" where
  "lt_init fp t raw =
     do {
       (m1, g) \<leftarrow> eg_init fp (lt_mem t) raw;
       Some (t\<lparr>lt_groups := [g], lt_nr := 1, lt_mem := m1\<rparr>)
     }"

definition lt_group_of :: "letree \<Rightarrow> u64 \<Rightarrow> int" where
  "lt_group_of t key = clip (line_group (lt_model t key)) (lt_nr t)"

text \<open>\<^verbatim>\<open>find_group\<close>: to the left over empty groups and groups behind the key, then to the right over empty groups.\<close>

fun group_left :: "egroup list \<Rightarrow> u64 \<Rightarrow> nat \<Rightarrow> nat" where
  "group_left gs key 0 = 0"
| "group_left gs key (Suc i) =
     (if eg_nr (gs ! Suc i) = 0 \<or> key < eg_key (gs ! Suc i) 0 then group_left gs key i else Suc i)"

function group_right :: "egroup list \<Rightarrow> nat \<Rightarrow> nat option" where
  "group_right gs i = (if i < length gs then if eg_nr (gs ! i) = 0 then group_right gs (Suc i) else Some i else None)"
  by pat_completeness auto
termination by (relation "measure (\<lambda>(gs, i). length gs - i)") auto

declare group_right.simps [simp del]

definition lt_find_group :: "letree \<Rightarrow> u64 \<Rightarrow> nat option" where
  "lt_find_group t key =
     (let gid = lt_group_of t key
      in if 0 \<le> gid \<and> nat gid < length (lt_groups t)
         then group_right (lt_groups t) (group_left (lt_groups t) key (nat gid)) else None)"

definition lt_set_group :: "letree \<Rightarrow> nat \<Rightarrow> skmem \<Rightarrow> egroup \<Rightarrow> letree" where
  "lt_set_group t i m g = t\<lparr>lt_groups := (lt_groups t)[i := g], lt_mem := m\<rparr>"

text \<open>\<^verbatim>\<open>ExpandTree\<close>: the first keys are adjusted, the model is fitted to the keys of all pairs, the pairs are counted for
  each new group and then appended to it.\<close>

fun lt_adjust_all :: "skmem \<Rightarrow> egroup list \<Rightarrow> egroup list option" where
  "lt_adjust_all m [] = Some []"
| "lt_adjust_all m (g # gs) =
     do {
       g1 \<leftarrow> (if eg_next g = 0 then Some g else eg_adjust m g);
       gs1 \<leftarrow> lt_adjust_all m gs;
       Some (g1 # gs1)
     }"

fun lt_count :: "line \<Rightarrow> u64 list \<Rightarrow> egroup list \<Rightarrow> egroup list option" where
  "lt_count model [] gs = Some gs"
| "lt_count model (k # ks) gs =
     (let i = clip (line_group (model k)) (length gs)
      in if 0 \<le> i then lt_count model ks (gs[nat i := eg_inc (gs ! nat i)]) else None)"

fun lt_append_all :: "line \<Rightarrow> pentry list \<Rightarrow> egroup list \<Rightarrow> egroup list option" where
  "lt_append_all model [] gs = Some gs"
| "lt_append_all model (x # xs) gs =
     (let i = clip (line_group (model (pe_key x))) (length gs)
      in if 0 \<le> i then do {
           g \<leftarrow> eg_append (gs ! nat i) x;
           lt_append_all model xs (gs[nat i := g])
         } else None)"

fun lt_retrain_all :: "fpu \<Rightarrow> egroup list \<Rightarrow> egroup list option" where
  "lt_retrain_all fp [] = Some []"
| "lt_retrain_all fp (g # gs) =
     do {
       g1 \<leftarrow> (if eg_next g = 0 then Some g else eg_retrain fp g);
       gs1 \<leftarrow> lt_retrain_all fp gs;
       Some (g1 # gs1)
     }"

definition lt_expand :: "fpu \<Rightarrow> letree \<Rightarrow> letree option" where
  "lt_expand fp t =
     do {
       gs \<leftarrow> lt_adjust_all (lt_mem t) (take (lt_nr t) (lt_groups t));
       let live = filter (\<lambda>g. eg_next g \<noteq> 0) gs;
       let entry_count = sum_list (map eg_next live);
       let model = lm_predict fp (rb_fit fp (map pe_key (concat (map (\<lambda>g. ge_walk g (0, 0)) live))));
       let nr = (entry_count + min_group_entries - 1) div min_group_entries;
       let pairs = concat (map (\<lambda>g. ge_walk g (0, 0)) gs);
       gs1 \<leftarrow> lt_count model (map pe_key pairs) (replicate nr eg_zero);
       let gs2 = map (\<lambda>g. if eg_next g = 0 then g else eg_reserve g) gs1;
       gs3 \<leftarrow> lt_append_all model pairs gs2;
       gs4 \<leftarrow> lt_retrain_all fp gs3;
       Some (t\<lparr>lt_groups := gs4, lt_nr := nr, lt_model := model\<rparr>)
     }"

subsection \<open>Bulk loading\<close>

fun lt_load_groups :: "fpu \<Rightarrow> skmem \<Rightarrow> kv list \<Rightarrow> nat \<Rightarrow> egroup list \<Rightarrow> (skmem \<times> egroup list) option" where
  "lt_load_groups fp m data start [] = Some (m, [])"
| "lt_load_groups fp m data start (g # gs) =
     do {
       (m1, g1) \<leftarrow> (if eg_next g = 0 then Some (m, g)
                    else eg_bulk_load fp m (eg_reserve g) data start (eg_next g));
       (m2, gs1) \<leftarrow> lt_load_groups fp m1 data (start + eg_next g) gs;
       Some (m2, g1 # gs1)
     }"

definition lt_bulk_load :: "fpu \<Rightarrow> letree \<Rightarrow> kv list \<Rightarrow> letree option" where
  "lt_bulk_load fp t data =
     do {
       let model = lm_predict fp (rl_init fp (map fst data));
       let nr = length data div min_group_entries;
       gs \<leftarrow> lt_count model (map fst data) (replicate nr eg_zero);
       (m1, gs1) \<leftarrow> lt_load_groups fp (lt_mem t) data 0 gs;
       Some (t\<lparr>lt_groups := gs1, lt_nr := nr, lt_model := model, lt_mem := m1\<rparr>)
     }"

definition lt_bulk_load_array :: "fpu \<Rightarrow> letree \<Rightarrow> kv list \<Rightarrow> nat \<Rightarrow> letree option" where
  "lt_bulk_load_array fp t data sz = (if sz \<le> length data then lt_bulk_load fp t (take sz data) else None)"

subsection \<open>Operations of the tree\<close>

fun lt_put :: "nat \<Rightarrow> fpu \<Rightarrow> letree \<Rightarrow> u64 \<Rightarrow> u64 \<Rightarrow> (letree \<times> status) option" where
  "lt_put 0 fp t key value = None"
| "lt_put (Suc f) fp t key value =
     do {
       i \<leftarrow> lt_find_group t key;
       (m1, g1, ret) \<leftarrow> eg_put 2 fp (lt_mem t) (lt_groups t ! i) key value;
       let t1 = lt_set_group t i m1 g1;
       if ret = Full then do {
         t2 \<leftarrow> lt_expand fp (t1\<lparr>lt_expands := lt_expands t1 + 1\<rparr>);
         lt_put f fp t2 key value
       } else Some (t1, ret)
     }"

definition lt_update :: "letree \<Rightarrow> u64 \<Rightarrow> u64 \<Rightarrow> (letree \<times> bool) option" where
  "lt_update t key value =
     do {
       i \<leftarrow> lt_find_group t key;
       (m1, ret) \<leftarrow> eg_update (lt_mem t) (lt_groups t ! i) key value;
       Some (t\<lparr>lt_mem := m1\<rparr>, ret)
     }"

definition lt_delete :: "letree \<Rightarrow> u64 \<Rightarrow> (letree \<times> bool) option" where
  "lt_delete t key =
     do {
       i \<leftarrow> lt_find_group t key;
       (m1, ret) \<leftarrow> eg_delete (lt_mem t) (lt_groups t ! i) key;
       Some (t\<lparr>lt_mem := m1\<rparr>, ret)
     }"

definition lt_find_fast :: "letree \<Rightarrow> u64 \<Rightarrow> (u64 option) option" where
  "lt_find_fast t key =
     (let i = lt_group_of t key
      in if 0 \<le> i \<and> nat i < length (lt_groups t) then eg_fast_get (lt_mem t) (lt_groups t ! nat i) key else None)"

definition lt_find_slow :: "letree \<Rightarrow> u64 \<Rightarrow> (u64 option) option" where
  "lt_find_slow t key = do { i \<leftarrow> lt_find_group t key; eg_get (lt_mem t) (lt_groups t ! i) key }"

definition lt_get :: "letree \<Rightarrow> u64 \<Rightarrow> (u64 option) option" where
  "lt_get t key =
     do {
       r \<leftarrow> lt_find_fast t key;
       if r \<noteq> None then Some r else lt_find_slow t key
     }"

text \<open>\<^verbatim>\<open>scan_slow\<close> starts at the first entry of the group of the start key, and its result is always false.\<close>

fun lt_scan_loop :: "nat \<Rightarrow> nat \<Rightarrow> letree \<Rightarrow> nat \<Rightarrow> nat \<Rightarrow> u64 \<Rightarrow> nat \<Rightarrow> kv list \<Rightarrow> (kv list) option" where
  "lt_scan_loop f lf t 0 i start len acc = None"
| "lt_scan_loop f lf t (Suc n) i start len acc =
     (if i + 1 < lt_nr t then do {
        j \<leftarrow> group_right (lt_groups t) (Suc i);
        (xs, ret) \<leftarrow> eg_scan f lf (lt_mem t) (lt_groups t ! j) start len False;
        if ret then Some (acc @ xs) else lt_scan_loop f lf t n j start (len - length xs) (acc @ xs)
      } else Some acc)"

definition lt_scan_slow :: "nat \<Rightarrow> nat \<Rightarrow> letree \<Rightarrow> u64 \<Rightarrow> nat \<Rightarrow> nat \<Rightarrow> (kv list \<times> bool) option" where
  "lt_scan_slow f lf t start len fast =
     do {
       i \<leftarrow> (if fast \<noteq> 0 then Some fast else lt_find_group t start);
       (xs, ret) \<leftarrow> eg_scan f lf (lt_mem t) (lt_groups t ! i) start len True;
       ys \<leftarrow> (if ret then Some xs else lt_scan_loop f lf t (Suc (lt_nr t)) i start (len - length xs) xs);
       Some (ys, False)
     }"

definition lt_scan :: "nat \<Rightarrow> nat \<Rightarrow> letree \<Rightarrow> u64 \<Rightarrow> nat \<Rightarrow> (kv list \<times> bool) option" where
  "lt_scan f lf t start len =
     (let i = lt_group_of t start
      in if \<not> (0 \<le> i \<and> nat i < length (lt_groups t)) then None
         else if eg_scan_here (lt_groups t ! nat i) start
         then map_option (\<lambda>(xs, _). (xs, True)) (lt_scan_slow f lf t start len (nat i))
         else lt_scan_slow f lf t start len 0)"

subsection \<open>Iterator of the tree\<close>

type_synonym ltiter = "nat \<times> giter"

text \<open>Over groups that are at their end.\<close>

fun lt_skip :: "letree \<Rightarrow> nat \<Rightarrow> nat \<Rightarrow> giter \<Rightarrow> ltiter option" where
  "lt_skip t 0 i it = None"
| "lt_skip t (Suc n) i it =
     (if i \<ge> lt_nr t \<or> gi_end (lt_groups t ! i) it then
        if i + 1 \<ge> lt_nr t then Some (i + 1, it)
        else do { it1 \<leftarrow> gi_begin (lt_groups t ! (i + 1)); lt_skip t n (i + 1) it1 }
      else Some (i, it))"

definition lt_iter_begin :: "letree \<Rightarrow> ltiter option" where
  "lt_iter_begin t = do { it \<leftarrow> gi_begin (lt_groups t ! 0); lt_skip t (Suc (lt_nr t)) 0 it }"

definition lt_iter_from :: "letree \<Rightarrow> u64 \<Rightarrow> ltiter option" where
  "lt_iter_from t start =
     do { i \<leftarrow> lt_find_group t start; it \<leftarrow> gi_from (lt_mem t) (lt_groups t ! i) start; Some (i, it) }"

definition lt_iter_end :: "letree \<Rightarrow> ltiter \<Rightarrow> bool" where "lt_iter_end t it \<longleftrightarrow> fst it \<ge> lt_nr t"
definition lt_iter_key :: "letree \<Rightarrow> ltiter \<Rightarrow> u64 option" where "lt_iter_key t it = gi_key (lt_mem t) (snd it)"
definition lt_iter_value :: "letree \<Rightarrow> ltiter \<Rightarrow> u64 option" where "lt_iter_value t it = gi_value (lt_mem t) (snd it)"

definition lt_iter_next :: "letree \<Rightarrow> ltiter \<Rightarrow> (ltiter \<times> bool) option" where
  "lt_iter_next t it =
     do {
       (g, more) \<leftarrow> (if fst it < lt_nr t then gi_next (lt_mem t) (lt_groups t ! fst it) (snd it) else Some (snd it, False));
       if more then Some ((fst it, g), True)
       else do {
         it1 \<leftarrow> lt_skip t (Suc (lt_nr t)) (fst it) g;
         Some (it1, fst it1 < lt_nr t)
       }
     }"

end
