(* ===== verification/PointerProofs.thy ===== *)
theory PointerProofs
  imports PointerBEntry
begin

text \<open>
  The pointer entry as a finite map.  \<open>pb_own\<close> ties the pairs of an array to the leaves in the heap: the
  first keys ascend, the keys of a leaf lie between its first key and that of the next leaf, no two pairs
  share a leaf, and no leaf has a tombstone.  The proofs work on the list of used pairs, \<open>pb_used\<close>; the
  split of a leaf is an insertion into this list.
\<close>

subsection \<open>The invariant\<close>

definition pb_used :: "pbentry \<Rightarrow> (u64 \<times> nat) list" where
  "pb_used e = map (\<lambda>x. (pe_key x, pe_ptr x)) (take (pb_nr e) e)"

definition sk_leaf :: "skmem \<Rightarrow> nat \<Rightarrow> kv list \<Rightarrow> bool" where
  "sk_leaf m a xs \<longleftrightarrow> (\<exists>b. sm_heap m a = Some b \<and> sk_wf b \<and> sk_items b = xs) \<and> a < sm_cur m"

definition used_ok :: "skmem \<Rightarrow> (u64 \<times> nat) list \<Rightarrow> kv list list \<Rightarrow> bool" where
  "used_ok m ps xss \<longleftrightarrow> length xss = length ps \<and>
     (\<forall>i < length ps. sk_leaf m (snd (ps ! i)) (xss ! i) \<and> (\<forall>x \<in> set (xss ! i). fst (ps ! i) \<le> fst x)) \<and>
     (\<forall>j < length ps. \<forall>i < j. fst (ps ! i) < fst (ps ! j) \<and> snd (ps ! i) \<noteq> snd (ps ! j) \<and>
       (\<forall>x \<in> set (xss ! i). fst x < fst (ps ! j)))"

lemma used_okD:
  assumes "used_ok m ps xss"
  shows "length xss = length ps"
    "\<And>i. i < length ps \<Longrightarrow> sk_leaf m (snd (ps ! i)) (xss ! i)"
    "\<And>i x. i < length ps \<Longrightarrow> x \<in> set (xss ! i) \<Longrightarrow> fst (ps ! i) \<le> fst x"
    "\<And>i j. i < j \<Longrightarrow> j < length ps \<Longrightarrow> fst (ps ! i) < fst (ps ! j)"
    "\<And>i j. i < j \<Longrightarrow> j < length ps \<Longrightarrow> snd (ps ! i) \<noteq> snd (ps ! j)"
    "\<And>i j x. i < j \<Longrightarrow> j < length ps \<Longrightarrow> x \<in> set (xss ! i) \<Longrightarrow> fst x < fst (ps ! j)"
  using assms unfolding used_ok_def by blast+

lemma used_ok_Nil [simp]: "used_ok m [] xss \<longleftrightarrow> xss = []"
  by (simp add: used_ok_def)

lemma used_ok_Cons:
  "used_ok m (p # ps) xss \<longleftrightarrow> (\<exists>xs yss. xss = xs # yss \<and> sk_leaf m (snd p) xs \<and> (\<forall>x \<in> set xs. fst p \<le> fst x) \<and>
     (\<forall>q \<in> set ps. fst p < fst q \<and> snd p \<noteq> snd q \<and> (\<forall>x \<in> set xs. fst x < fst q)) \<and> used_ok m ps yss)"
proof (cases xss)
  case (Cons xs yss)
  have "used_ok m (p # ps) (xs # yss) \<longleftrightarrow> sk_leaf m (snd p) xs \<and> (\<forall>x \<in> set xs. fst p \<le> fst x) \<and>
     (\<forall>q \<in> set ps. fst p < fst q \<and> snd p \<noteq> snd q \<and> (\<forall>x \<in> set xs. fst x < fst q)) \<and> used_ok m ps yss"
    unfolding used_ok_def all_set_conv_all_nth[of ps]
    by (simp only: length_Cons nat.inject All_less_Suc2 nth_Cons_0 nth_Cons_Suc) blast
  then show ?thesis using Cons by auto
qed (simp add: used_ok_def)

definition sm_ok :: "skmem \<Rightarrow> bool" where
  "sm_ok m \<longleftrightarrow> sm_end m \<le> 2 ^ 48 \<and> (\<forall>a. length (sm_raw m a) = sk_slots)"

definition pb_own :: "skmem \<Rightarrow> pbentry \<Rightarrow> kv list list \<Rightarrow> bool" where
  "pb_own m e xss \<longleftrightarrow> sm_ok m \<and> length e = pb_count \<and> 1 \<le> pb_nr e \<and> pb_nr e \<le> pb_count \<and>
     (\<forall>i < pb_nr e. pe_valid (e ! i)) \<and> used_ok m (pb_used e) xss"

lemma length_pb_used: "pb_own m e xss \<Longrightarrow> length (pb_used e) = pb_nr e"
  by (simp add: pb_own_def pb_used_def)

lemma pb_used_nth: "pb_own m e xss \<Longrightarrow> i < pb_nr e \<Longrightarrow> pb_used e ! i = (pe_key (e ! i), pe_ptr (e ! i))"
  by (simp add: pb_own_def pb_used_def)

subsection \<open>The pair of a key\<close>

text \<open>The position the search returns: the last pair whose first key is not greater, or the first pair.\<close>

definition used_pos :: "(u64 \<times> nat) list \<Rightarrow> u64 \<Rightarrow> nat \<Rightarrow> bool" where
  "used_pos ps k i \<longleftrightarrow> i < length ps \<and> (0 < i \<longrightarrow> fst (ps ! i) \<le> k) \<and> (Suc i < length ps \<longrightarrow> k < fst (ps ! Suc i))"

lemma pb_pos_spec:
  assumes "\<forall>i < n. pe_valid (e ! i)" "i \<le> n"
  shows "i \<le> pb_pos e k [i..<n] i \<and> pb_pos e k [i..<n] i \<le> n \<and>
    (\<forall>j. i \<le> j \<longrightarrow> j < pb_pos e k [i..<n] i \<longrightarrow> pe_key (e ! j) \<le> k) \<and>
    (pb_pos e k [i..<n] i < n \<longrightarrow> k < pe_key (e ! pb_pos e k [i..<n] i))"
  using assms(2)
proof (induction "n - i" arbitrary: i)
  case 0
  then show ?case by simp
next
  case (Suc d)
  then have i: "i < n" by simp
  then have u: "[i..<n] = i # [Suc i..<n]" by (simp add: upt_rec)
  show ?case
  proof (cases "pe_key (e ! i) \<le> k")
    case True
    have "d = n - Suc i" "Suc i \<le> n" using Suc.hyps(2) i by auto
    note IH = Suc.hyps(1)[OF this]
    have "pe_key (e ! j) \<le> k" if "i \<le> j" "j < pb_pos e k [Suc i..<n] (Suc i)" for j
      using IH that True by (cases "j = i") auto
    then show ?thesis using IH True assms(1) i by (simp add: u)
  next
    case False
    then show ?thesis using i by (simp add: u)
  qed
qed

lemma pb_find_pos_used:
  assumes "pb_own m e xss"
  shows "used_pos (pb_used e) k (pb_find_pos e k)" "pb_find_pos e k < pb_nr e"
proof -
  let ?n = "pb_nr e"
  have O: "1 \<le> ?n" "\<forall>i < ?n. pe_valid (e ! i)" using assms by (auto simp: pb_own_def)
  note P = pb_pos_spec[OF O(2), of 0 k, simplified]
  show l: "pb_find_pos e k < ?n" using P O(1) by (auto simp: pb_find_pos_def Let_def)
  show "used_pos (pb_used e) k (pb_find_pos e k)"
  proof (cases "pb_pos e k [0..<?n] 0 = 0")
    case True
    have "pe_key (e ! 0) \<le> pe_key (e ! 1)" if "1 < ?n"
    proof -
      have "fst (pb_used e ! 0) < fst (pb_used e ! 1)"
        using assms that length_pb_used[OF assms] unfolding pb_own_def used_ok_def by auto
      then show ?thesis using pb_used_nth[OF assms, of 0] pb_used_nth[OF assms, of 1] that by simp
    qed
    then have "k < pe_key (e ! 1)" if "1 < ?n" using P True that O(1) by force
    then show ?thesis using True O(1) pb_used_nth[OF assms, of 1]
      by (simp add: pb_find_pos_def used_pos_def length_pb_used[OF assms])
  next
    case False
    then show ?thesis using P l pb_used_nth[OF assms]
      by (auto simp: pb_find_pos_def used_pos_def length_pb_used[OF assms] Let_def)
  qed
qed

lemma used_elsewhere:
  assumes "used_ok m ps xss" "used_pos ps k i"
  shows "\<forall>j < length xss. j \<noteq> i \<longrightarrow> k \<notin> fst ` set (xss ! j)"
proof (intro allI impI notI)
  fix j assume j: "j < length xss" "j \<noteq> i" "k \<in> fst ` set (xss ! j)"
  have l: "j < length ps" using j(1) assms(1) by (simp add: used_ok_def)
  show False
  proof (cases "j < i")
    case True
    then have "k < fst (ps ! i)" using used_okD(6)[OF assms(1) True] assms(2) j(3) by (auto simp: used_pos_def)
    then show False using True assms(2) by (auto simp: used_pos_def)
  next
    case False
    then have s: "Suc i \<le> j" using j(2) by simp
    have "fst (ps ! Suc i) \<le> fst (ps ! j)"
      using used_okD(4)[OF assms(1), of "Suc i" j] s l by (cases "Suc i = j") auto
    moreover have "fst (ps ! j) \<le> k" using used_okD(3)[OF assms(1) l] j(3) by auto
    moreover have "k < fst (ps ! Suc i)" using assms(2) s l by (simp add: used_pos_def)
    ultimately show False by simp
  qed
qed

lemma used_lookup:
  assumes "used_ok m ps xss" "used_pos ps k i"
  shows "map_of (concat xss) k = map_of (xss ! i) k"
  using assms(1,2) by (intro map_of_concat used_elsewhere[OF assms]) (simp add: used_ok_def used_pos_def)

lemma pb_own_leaf:
  assumes "pb_own m e xss" "i < pb_nr e"
  obtains b where "sm_heap m (pe_ptr (e ! i)) = Some b" "sk_wf b" "sk_items b = xss ! i" "pe_ptr (e ! i) < sm_cur m"
    "pe_valid (e ! i)" "i < pb_count" "i < length xss"
proof -
  have "sk_leaf m (pe_ptr (e ! i)) (xss ! i)" "length xss = pb_nr e"
    using assms pb_used_nth[OF assms] length_pb_used[OF assms(1)] unfolding pb_own_def used_ok_def by auto
  then show thesis using assms that by (auto simp: sk_leaf_def pb_own_def)
qed

lemma pb_get_map:
  assumes "pb_own m e xss" "k \<noteq> 0"
  shows "pb_get m e k = Some (case map_of (concat xss) k of None \<Rightarrow> None | Some v \<Rightarrow> if v = 0 then None else Some v)"
proof -
  let ?i = "pb_find_pos e k"
  note F = pb_find_pos_used[OF assms(1), of k]
  obtain b where B: "sm_heap m (pe_ptr (e ! ?i)) = Some b" "sk_wf b" "sk_items b = xss ! ?i" "pe_valid (e ! ?i)" "?i < pb_count"
    using pb_own_leaf[OF assms(1) F(2)] by metis
  have "map_of (concat xss) k = map_of (xss ! ?i) k"
    using used_lookup[OF _ F(1)] assms(1) by (auto simp: pb_own_def)
  moreover have "sk_last b \<le> length (sk_rec b)" "keys_sorted (sk_live b)"
    using B(2) by (auto simp: sk_live_items sk_wf_def)
  ultimately show ?thesis using sk_get_live[of b k] assms(2) B by (simp add: pb_get_def Let_def sk_live_items)
qed

subsection \<open>Changing a leaf\<close>

lemma used_ok_leaf:
  assumes "used_ok m ps xss" "i < length ps" "sk_wf b" "sk_items b = ys"
    "\<forall>x \<in> set ys. fst (ps ! i) \<le> fst x \<and> (\<forall>j < length ps. i < j \<longrightarrow> fst x < fst (ps ! j))"
  shows "used_ok (leaf_set m (snd (ps ! i)) b) ps (xss[i := ys])"
proof -
  note D = used_okD[OF assms(1)]
  have L: "sk_leaf (leaf_set m (snd (ps ! i)) b) (snd (ps ! j)) (xss[i := ys] ! j)" if "j < length ps" for j
  proof (cases "j = i")
    case True
    then show ?thesis using D(1) D(2)[OF assms(2)] assms(2-4) by (auto simp: sk_leaf_def leaf_set_def)
  next
    case False
    then have "snd (ps ! j) \<noteq> snd (ps ! i)" using D(5)[of i j] D(5)[of j i] that assms(2) by (metis linorder_neqE_nat)
    then show ?thesis using D(2)[OF that] False by (auto simp: sk_leaf_def leaf_set_def)
  qed
  have B: "fst (ps ! j) \<le> fst x" if "j < length ps" "x \<in> set (xss[i := ys] ! j)" for j x
    using D(1) D(3)[OF that(1)] that assms(2,5) by (cases "j = i") auto
  have C: "fst x < fst (ps ! j)" if "j < length ps" "h < j" "x \<in> set (xss[i := ys] ! h)" for h j x
    using D(1) D(6)[OF that(2,1)] that assms(2,5) by (cases "h = i") auto
  show ?thesis unfolding used_ok_def using D(1,4,5) L B C by auto
qed

text \<open>A smaller first key for the first pair.\<close>

lemma used_ok_lower:
  assumes "used_ok m ps xss" "0 < length ps" "k \<le> fst (ps ! 0)"
  shows "used_ok m (ps[0 := (k, snd (ps ! 0))]) xss"
proof -
  note D = used_okD[OF assms(1)]
  let ?p = "ps[0 := (k, snd (ps ! 0))]"
  have s: "snd (?p ! i) = snd (ps ! i)" for i using assms(2) by (cases "i = 0") auto
  have f: "fst (?p ! i) \<le> fst (ps ! i)" for i using assms(2,3) by (cases "i = 0") auto
  have "fst (?p ! i) < fst (?p ! j)" if "i < j" "j < length ps" for i j
    using D(4)[OF that] f[of i] that by (auto intro: order_le_less_trans)
  moreover have "fst (?p ! i) \<le> fst x" if "i < length ps" "x \<in> set (xss ! i)" for i x
    by (rule order_trans[OF f D(3)[OF that]])
  moreover have "fst x < fst (?p ! j)" if "i < j" "j < length ps" "x \<in> set (xss ! i)" for i j x
    using D(6)[OF that] that(1) by (cases j) auto
  ultimately show ?thesis unfolding used_ok_def using D(1,2,5) s by auto
qed

subsection \<open>What an operation may change\<close>

text \<open>Leaves of others stay; the leaves used afterwards were used before or are new; new keys come from \<open>K\<close>, new first
  keys from \<open>K\<close> or from the keys of the leaves.\<close>

definition keys_of :: "kv list list \<Rightarrow> u64 set" where "keys_of xss = fst ` set (concat xss)"

definition pb_step :: "skmem \<Rightarrow> skmem \<Rightarrow> (u64 \<times> nat) list \<Rightarrow> (u64 \<times> nat) list \<Rightarrow> kv list list \<Rightarrow> kv list list \<Rightarrow> u64 set \<Rightarrow> bool" where
  "pb_step m m' ps ps' xss xss' K \<longleftrightarrow> sm_raw m' = sm_raw m \<and> sm_end m' = sm_end m \<and> sm_cur m \<le> sm_cur m' \<and>
     (\<forall>a < sm_cur m. a \<notin> snd ` set ps \<longrightarrow> sm_heap m' a = sm_heap m a) \<and>
     snd ` set ps' \<subseteq> snd ` set ps \<union> {sm_cur m..} \<and> keys_of xss' \<subseteq> K \<union> keys_of xss \<and>
     fst ` set ps' \<subseteq> K \<union> fst ` set ps \<union> keys_of xss"

lemma pb_step_trans:
  assumes "pb_step m m1 ps ps1 xss xss1 K" "pb_step m1 m2 ps1 ps2 xss1 xss2 K"
  shows "pb_step m m2 ps ps2 xss xss2 K"
proof -
  have "sm_heap m2 a = sm_heap m a" if "a < sm_cur m" "a \<notin> snd ` set ps" for a
  proof -
    have "a \<notin> snd ` set ps1" using that assms(1) by (auto simp: pb_step_def)
    moreover have "a < sm_cur m1" using that assms(1) by (auto simp: pb_step_def)
    ultimately have "sm_heap m2 a = sm_heap m1 a" using assms(2) by (auto simp: pb_step_def)
    then show ?thesis using that assms(1) by (auto simp: pb_step_def)
  qed
  moreover have "snd ` set ps2 \<subseteq> snd ` set ps \<union> {sm_cur m..}"
  proof -
    have "snd ` set ps2 \<subseteq> snd ` set ps1 \<union> {sm_cur m1..}" "snd ` set ps1 \<subseteq> snd ` set ps \<union> {sm_cur m..}" "sm_cur m \<le> sm_cur m1"
      using assms by (simp_all add: pb_step_def)
    then show ?thesis by (auto dest!: subsetD)
  qed
  moreover have "keys_of xss2 \<subseteq> K \<union> keys_of xss" using assms by (auto simp: pb_step_def)
  moreover have "fst ` set ps2 \<subseteq> K \<union> fst ` set ps \<union> keys_of xss"
  proof -
    have "fst ` set ps2 \<subseteq> K \<union> fst ` set ps1 \<union> keys_of xss1" "fst ` set ps1 \<subseteq> K \<union> fst ` set ps \<union> keys_of xss"
      "keys_of xss1 \<subseteq> K \<union> keys_of xss" using assms by (simp_all add: pb_step_def)
    then show ?thesis by blast
  qed
  ultimately show ?thesis using assms by (auto simp: pb_step_def)
qed

lemma keys_of_update: "i < length xss \<Longrightarrow> keys_of (xss[i := ys]) \<subseteq> fst ` set ys \<union> keys_of xss"
proof -
  have "set (xss[i := ys]) \<subseteq> insert ys (set xss)" by (rule set_update_subset_insert)
  then show ?thesis unfolding keys_of_def by fastforce
qed

subsection \<open>Splitting a leaf\<close>

lemma concat_split:
  assumes "i < length xss" "xss ! i = ys @ zs"
  shows "concat (insert_at (Suc i) zs (xss[i := ys])) = concat xss"
proof -
  have "concat xss = concat (take i xss) @ ys @ zs @ concat (drop (Suc i) xss)"
    using id_take_nth_drop[OF assms(1)] assms(2) by (metis append.assoc concat.simps(2) concat_append)
  moreover have "take (Suc i) (xss[i := ys]) = take i xss @ [ys]" using assms(1) by (simp add: take_Suc_conv_app_nth)
  ultimately show ?thesis by (simp add: insert_at_def)
qed

lemma used_ok_split:
  assumes "used_ok m ps xss" "i < length ps" "h < length (xss ! i)" "0 < h" "keys_sorted (xss ! i)"
    "heap' = (sm_heap m)(a \<mapsto> b2, snd (ps ! i) \<mapsto> b1)" "a = sm_cur m" "sm_heap m' = heap'" "a < sm_cur m'"
    "sk_wf b1" "sk_wf b2" "sk_items b1 = take h (xss ! i)" "sk_items b2 = drop h (xss ! i)"
  shows "used_ok m' (insert_at (Suc i) (fst (xss ! i ! h), a) ps) (insert_at (Suc i) (drop h (xss ! i)) (xss[i := take h (xss ! i)]))"
    (is "used_ok m' ?ps ?xss")
proof -
  note D = used_okD[OF assms(1)]
  let ?k = "fst (xss ! i ! h)"
  have l: "length ?ps = Suc (length ps)" "length ?xss = Suc (length ps)" using D(1) by simp_all
  have P: "?ps ! j = (if j < Suc i then ps ! j else if j = Suc i then (?k, a) else ps ! (j - 1))" if "j < Suc (length ps)" for j
    using that assms(2) by (intro nth_insert_at) auto
  have X: "?xss ! j = (if j < i then xss ! j else if j = i then take h (xss ! i) else if j = Suc i then drop h (xss ! i) else xss ! (j - 1))"
    if "j < Suc (length ps)" for j
    using that assms(2) D(1) by (subst nth_insert_at) (auto simp: nth_list_update)
  have fresh: "snd (ps ! j) < a" "snd (ps ! j) < sm_cur m'" if "j < length ps" for j
    using D(2)[OF that] assms(7,9) by (auto simp: sk_leaf_def)
  have hd: "fst (ps ! i) < ?k"
  proof -
    have "fst (ps ! i) \<le> fst (xss ! i ! 0)" using assms(2-4) by (intro D(3) nth_mem) auto
    also have "\<dots> < ?k" by (rule keys_sorted_nth[OF assms(5,4,3)])
    finally show ?thesis .
  qed
  have kin: "xss ! i ! h \<in> set (xss ! i)" using assms(3) by simp
  have lo: "fst x < ?k" if "x \<in> set (take h (xss ! i))" for x
    using that keys_sorted_nth[OF assms(5) _ assms(3)] assms(3) by (auto simp: in_set_conv_nth)
  have up: "?k \<le> fst x" if x: "x \<in> set (drop h (xss ! i))" for x
  proof -
    obtain j where j: "j < length (xss ! i) - h" "x = xss ! i ! (h + j)" using x assms(3) by (auto simp: in_set_conv_nth)
    then have "h + j < length (xss ! i)" by simp
    with j(2) show ?thesis using keys_sorted_nth[OF assms(5), of h "h + j"] by (cases "j = 0") auto
  qed
  have other: "snd (ps ! j) \<noteq> snd (ps ! i)" if "j < length ps" "j \<noteq> i" for j
    using D(5)[of i j] D(5)[of j i] that assms(2) by (metis linorder_neqE_nat)
  have keep: "sk_leaf m' (snd (ps ! j)) (xss ! j)" if "j < length ps" "j \<noteq> i" for j
    using D(2)[OF that(1)] fresh[OF that(1)] other[OF that] assms(6,8) by (auto simp: sk_leaf_def)
  have A: "sk_leaf m' (snd (?ps ! j)) (?xss ! j)" if j: "j < Suc (length ps)" for j
  proof -
    consider "j < i" | "j = i" | "j = Suc i" | "Suc i < j" by linarith
    then show ?thesis
    proof cases
      case 2
      then show ?thesis using P[OF j] X[OF j] fresh[OF assms(2)] assms(6,8,10,12) by (auto simp: sk_leaf_def)
    next
      case 3
      then show ?thesis using P[OF j] X[OF j] fresh[OF assms(2)] assms(6,8,9,11,13) by (auto simp: sk_leaf_def)
    qed (use P[OF j] X[OF j] j assms(2) keep in auto)
  qed
  have B: "fst (?ps ! j) \<le> fst x" if j: "j < Suc (length ps)" and x: "x \<in> set (?xss ! j)" for j x
    using P[OF j] X[OF j] x D(3)[of j x] D(3)[of i x] D(3)[of "j - 1" x] up[of x] j assms(2)
    by (cases "j = i"; cases "j = Suc i") (auto split: if_splits dest: in_set_takeD)
  have K: "fst (?ps ! g) < fst (?ps ! j)" if j: "j < Suc (length ps)" and g: "g < j" for g j
  proof -
    have g': "g < Suc (length ps)" using j g by simp
    consider "j \<le> i" | "j = Suc i" "g = i" | "j = Suc i" "g < i" | "Suc i < j" "g = Suc i" | "Suc i < j" "g \<le> i" | "Suc i < g"
      using g by linarith
    then show ?thesis
    proof cases
      case 1 then show ?thesis using P[OF j] P[OF g'] D(4)[OF g] assms(2) g by auto
    next
      case 2 then show ?thesis using P[OF j] P[OF g'] hd by simp
    next
      case 3
      then show ?thesis using P[OF j] P[OF g'] D(4)[of g i] assms(2) hd by auto
    next
      case 4
      then show ?thesis using P[OF j] P[OF g'] D(6)[of i "j - 1", OF _ _ kin] j by auto
    next
      case 5
      then show ?thesis using P[OF j] P[OF g'] D(4)[of g "j - 1"] j by auto
    next
      case 6
      then show ?thesis using P[OF j] P[OF g'] D(4)[of "g - 1" "j - 1"] j g by auto
    qed
  qed
  have N: "snd (?ps ! g) \<noteq> snd (?ps ! j)" if j: "j < Suc (length ps)" and g: "g < j" for g j
  proof -
    have g': "g < Suc (length ps)" using j g by simp
    consider "j \<le> i" | "j = Suc i" | "Suc i < j" "g = Suc i" | "Suc i < j" "g \<le> i" | "Suc i < g" using g by linarith
    then show ?thesis
    proof cases
      case 1 then show ?thesis using P[OF j] P[OF g'] D(5)[OF g] assms(2) g by auto
    next
      case 2 then show ?thesis using P[OF j] P[OF g'] fresh(1)[of g] assms(2) g by auto
    next
      case 3
      then have "j - 1 < length ps" using j by linarith
      then show ?thesis using P[OF j] P[OF g'] fresh(1)[of "j - 1"] 3 by auto
    next
      case 4 then show ?thesis using P[OF j] P[OF g'] D(5)[of g "j - 1"] j by auto
    next
      case 5 then show ?thesis using P[OF j] P[OF g'] D(5)[of "g - 1" "j - 1"] j g by auto
    qed
  qed
  have U: "fst x < fst (?ps ! Suc g)" if g: "Suc g < Suc (length ps)" and x: "x \<in> set (?xss ! g)" for g x
  proof -
    have g': "g < Suc (length ps)" using g by simp
    consider "g < i" | "g = i" | "g = Suc i" | "Suc i < g" by linarith
    then show ?thesis
    proof cases
      case 1 then show ?thesis using P[OF g] X[OF g'] x D(6)[of g "Suc g" x] assms(2) by auto
    next
      case 2 then show ?thesis using P[OF g] X[OF g'] x lo by auto
    next
      case 3 then show ?thesis using P[OF g] X[OF g'] x D(6)[of i "Suc i" x] g by (auto dest: in_set_dropD)
    next
      case 4 then show ?thesis using P[OF g] X[OF g'] x D(6)[of "g - 1" g x] g by auto
    qed
  qed
  have C: "fst x < fst (?ps ! j)" if j: "j < Suc (length ps)" and g: "g < j" and x: "x \<in> set (?xss ! g)" for g j x
    using U[of g x] K[OF j, of "Suc g"] g j x by (cases "Suc g = j") (auto intro: order_less_trans)
  show ?thesis unfolding used_ok_def l using A B K N C by auto
qed

lemma pb_split_array_used:
  assumes "pb_own m e xss" "pos < pb_nr e" "pb_nr e < pb_count" "a < 2 ^ 48"
  shows "pb_used (pb_split_array e pos k a) = insert_at (Suc pos) (k, a) (pb_used e)"
    "pb_nr (pb_split_array e pos k a) = Suc (pb_nr e)" "length (pb_split_array e pos k a) = pb_count"
    "\<forall>i < Suc (pb_nr e). pe_valid (pb_split_array e pos k a ! i)"
proof -
  let ?n = "pb_nr e" and ?e = "pb_split_array e pos k a"
  have O: "length e = pb_count" "1 \<le> ?n" "\<forall>i < ?n. pe_valid (e ! i)" using assms(1) by (auto simp: pb_own_def)
  show l: "length ?e = pb_count" by (simp add: pb_split_array_def Let_def O(1))
  have N: "?e ! i = (if i = 0 then (e ! 0)\<lparr>pe_entries := Suc ?n\<rparr>
      else if i = pos + 1 then pe_setup_at a ((e ! i)\<lparr>pe_key := k, pe_prefix := 0, pe_suffix := 8\<rparr>)
      else if i \<le> pos then e ! i else e ! (i - 1))" if "i \<le> ?n" for i
    using that assms(2,3) O by (auto simp: pb_split_array_def Let_def pb_nr_def nth_list_update)
  show n: "pb_nr ?e = Suc ?n" using N[of 0] by (simp add: pb_nr_def)
  show "\<forall>i < Suc ?n. pe_valid (?e ! i)" using N O(3) assms(2) by (auto simp: pe_valid_def pe_setup_at_def)
  show "pb_used ?e = insert_at (Suc pos) (k, a) (pb_used e)"
  proof (rule nth_list_ext)
    show "length (pb_used ?e) = length (insert_at (Suc pos) (k, a) (pb_used e))"
      using n l O(1) assms(3) by (simp add: pb_used_def)
    fix i assume "i < length (insert_at (Suc pos) (k, a) (pb_used e))"
    then have i: "i \<le> ?n" using length_pb_used[OF assms(1)] by simp
    have "pb_used ?e ! i = (pe_key (?e ! i), pe_ptr (?e ! i))" using i n l assms(3) by (simp add: pb_used_def)
    moreover have "insert_at (Suc pos) (k, a) (pb_used e) ! i =
        (if i < Suc pos then pb_used e ! i else if i = Suc pos then (k, a) else pb_used e ! (i - 1))"
      using i assms(2) length_pb_used[OF assms(1)] by (intro nth_insert_at) auto
    ultimately show "pb_used ?e ! i = insert_at (Suc pos) (k, a) (pb_used e) ! i"
      using N[OF i] i assms(2,4) pb_used_nth[OF assms(1), of i] pb_used_nth[OF assms(1), of "i - 1"]
      by (auto simp: pe_setup_at_def)
  qed
qed

text \<open>Splitting the leaf of one pair keeps all pairs of keys and values.\<close>

lemma pb_split_own:
  assumes "pb_own m e xss" "pos < pb_nr e" "pb_nr e < pb_count" "2 \<le> length (xss ! pos)" "sm_cur m + sk_size < sm_end m"
  obtains m' k xss' where "sk_expand m (pe_ptr (e ! pos)) = Some (m', sm_cur m, k)"
    "pb_own m' (pb_split_array e pos k (sm_cur m)) xss'" "concat xss' = concat xss"
    "xss' = insert_at (Suc pos) (drop (length (xss ! pos) div 2) (xss ! pos)) (xss[pos := take (length (xss ! pos) div 2) (xss ! pos)])"
    "sm_cur m' = sm_cur m + sk_size" "sm_end m' = sm_end m"
    "pb_step m m' (pb_used e) (pb_used (pb_split_array e pos k (sm_cur m))) xss xss' K"
proof -
  obtain b where B: "sm_heap m (pe_ptr (e ! pos)) = Some b" "sk_wf b" "sk_items b = xss ! pos" "pe_ptr (e ! pos) < sm_cur m"
    "pos < length xss" using pb_own_leaf[OF assms(1,2)] by metis
  have O: "sm_ok m" "used_ok m (pb_used e) xss" "length e = pb_count" using assms(1) by (auto simp: pb_own_def)
  have l: "sk_last b = length (xss ! pos)" using length_sk_items[OF B(2)] B(3) by simp
  let ?h = "length (xss ! pos) div 2" and ?a = "sm_cur m"
  let ?k = "fst (xss ! pos ! ?h)"
  obtain m' b1 b2 where E: "sk_expand m (pe_ptr (e ! pos)) = Some (m', ?a, ?k)"
    "sm_heap m' = (sm_heap m)(?a \<mapsto> b2, pe_ptr (e ! pos) \<mapsto> b1)" "sk_wf b1" "sk_wf b2"
    "sk_items b1 = take ?h (xss ! pos)" "sk_items b2 = drop ?h (xss ! pos)"
    "sm_cur m' = ?a + sk_size" "sm_end m' = sm_end m" "sm_raw m' = sm_raw m"
    using sk_expand_wf[OF B(1,2) _ B(4) assms(5)] O(1) assms(4) unfolding l B(3) sm_ok_def by metis
  have ptr: "snd (pb_used e ! pos) = pe_ptr (e ! pos)" using pb_used_nth[OF assms(1,2)] by simp
  let ?xss = "insert_at (Suc pos) (drop ?h (xss ! pos)) (xss[pos := take ?h (xss ! pos)])"
  have a: "?a < 2 ^ 48" using assms(5) O(1) by (simp add: sm_ok_def)
  note S = pb_split_array_used[OF assms(1-3) a, of ?k]
  have "keys_sorted (xss ! pos)" using B(2,3) by (simp add: sk_wf_def)
  then have "used_ok m' (insert_at (Suc pos) (?k, ?a) (pb_used e)) ?xss"
    using assms(2,4) E length_pb_used[OF assms(1)] ptr
    by (intro used_ok_split[OF O(2), where ?b1.0 = b1 and ?b2.0 = b2]) (auto simp: sk_size_def)
  then have "pb_own m' (pb_split_array e pos ?k ?a) ?xss"
    using S assms(3) E(8,9) O(1) by (simp add: pb_own_def sm_ok_def)
  moreover have c: "concat ?xss = concat xss" using B(5) by (intro concat_split) auto
  moreover have "pb_step m m' (pb_used e) (pb_used (pb_split_array e pos ?k ?a)) xss ?xss K"
  proof -
    have "pos < length (pb_used e)" using assms(2) length_pb_used[OF assms(1)] by simp
    then have p: "pe_ptr (e ! pos) \<in> snd ` set (pb_used e)" using ptr by (metis image_eqI nth_mem)
    have "xss ! pos ! ?h \<in> set (concat xss)" using B(5) assms(4) by (auto intro!: bexI[of _ "xss ! pos"])
    then have "?k \<in> keys_of xss" by (auto simp: keys_of_def)
    then show ?thesis unfolding pb_step_def S(1) using E(2,7-9) p c by (auto simp: keys_of_def)
  qed
  ultimately show thesis using that E by blast
qed

subsection \<open>Insertion\<close>

lemma used_pos_range:
  assumes "used_ok m ps xss" "used_pos ps k i" "0 < i \<or> fst (ps ! 0) \<le> k"
  shows "fst (ps ! i) \<le> k \<and> (\<forall>j < length ps. i < j \<longrightarrow> k < fst (ps ! j))"
proof -
  have "k < fst (ps ! j)" if j: "j < length ps" "i < j" for j
  proof -
    have "k < fst (ps ! Suc i)" using assms(2) j by (simp add: used_pos_def)
    also have "\<dots> \<le> fst (ps ! j)" using used_okD(4)[OF assms(1), of "Suc i" j] j by (cases "Suc i = j") auto
    finally show ?thesis .
  qed
  then show ?thesis using assms(2,3) by (auto simp: used_pos_def)
qed

lemma map_of_concat_update:
  fixes xss :: "kv list list"
  assumes "i < length xss" "\<forall>j < length xss. j \<noteq> i \<longrightarrow> k \<notin> fst ` set (xss ! j)" "map_of ys = (map_of (xss ! i))(k \<mapsto> v)"
  shows "map_of (concat (xss[i := ys])) = (map_of (concat xss))(k \<mapsto> v)"
proof -
  have c: "concat zss = concat (take i zss) @ zss ! i @ concat (drop (Suc i) zss)" if "i < length zss" for zss :: "kv list list"
    using id_take_nth_drop[OF that] by (metis concat.simps(2) concat_append)
  have "k \<notin> fst ` set zs" if zs: "zs \<in> set (take i xss)" for zs
  proof -
    obtain j where "j < length (take i xss)" "zs = take i xss ! j" using zs unfolding in_set_conv_nth by blast
    then have "j < length xss" "j \<noteq> i" "zs = xss ! j" using assms(1) by auto
    then show ?thesis using assms(2) by blast
  qed
  then have n: "map_of (concat (take i xss)) k = None" by (auto simp: map_of_eq_None_iff)
  have l: "i < length (xss[i := ys])" using assms(1) by simp
  show ?thesis
    unfolding c[OF assms(1)] c[OF l]
    using assms(1,3) n by (auto simp: fun_eq_iff map_add_def split: option.splits)
qed

lemma pb_lower_key_own:
  assumes "pb_own m e xss"
  shows "pb_own m (pb_lower_key e k) xss" "pb_nr (pb_lower_key e k) = pb_nr e"
    "pe_key (pb_lower_key e k ! 0) = min k (pe_key (e ! 0))"
proof -
  have O: "length e = pb_count" "1 \<le> pb_nr e" "used_ok m (pb_used e) xss" "\<forall>i < pb_nr e. pe_valid (e ! i)"
    using assms by (auto simp: pb_own_def)
  have ne: "e \<noteq> []" using O(1) by (auto simp: pb_count_def)
  show n: "pb_nr (pb_lower_key e k) = pb_nr e" using ne by (simp add: pb_lower_key_def pb_nr_def)
  show "pe_key (pb_lower_key e k ! 0) = min k (pe_key (e ! 0))" using ne by (auto simp: pb_lower_key_def min_def)
  show "pb_own m (pb_lower_key e k) xss"
  proof (cases "pe_key (e ! 0) > k")
    case True
    have P: "pb_used (pb_lower_key e k) = (pb_used e)[0 := (k, snd (pb_used e ! 0))]"
    proof (rule nth_list_ext)
      show "length (pb_used (pb_lower_key e k)) = length ((pb_used e)[0 := (k, snd (pb_used e ! 0))])"
        using n by (simp add: pb_used_def pb_lower_key_def)
      fix i assume "i < length ((pb_used e)[0 := (k, snd (pb_used e ! 0))])"
      then have i: "i < pb_nr e" using length_pb_used[OF assms] by simp
      show "pb_used (pb_lower_key e k) ! i = (pb_used e)[0 := (k, snd (pb_used e ! 0))] ! i"
        using i n O(1) True pb_used_nth[OF assms] assms
        by (cases "i = 0") (auto simp: pb_used_def pb_lower_key_def pb_own_def)
    qed
    have "k \<le> fst (pb_used e ! 0)" using True pb_used_nth[OF assms, of 0] O(2) by simp
    from used_ok_lower[OF O(3) _ this] O(2) length_pb_used[OF assms]
    have "used_ok m (pb_used (pb_lower_key e k)) xss" unfolding P by simp
    moreover have "\<forall>i < pb_nr e. pe_valid (pb_lower_key e k ! i)"
      using O(4) True ne by (auto simp: pb_lower_key_def nth_list_update pe_valid_def)
    ultimately show ?thesis using assms n by (simp add: pb_own_def pb_lower_key_def)
  next
    case False
    then show ?thesis using assms by (simp add: pb_lower_key_def)
  qed
qed

lemma pb_put_room:
  assumes "pb_own m e xss" "k \<noteq> 0" "map_of (concat xss) k = None" "length (xss ! pb_find_pos e k) < sk_slots"
  obtains m' e' xss' where "pb_put_retry (Suc f) m e k v s = Some (m', e', OK, s)" "pb_own m' e' xss'"
    "map_of (concat xss') = (map_of (concat xss))(k \<mapsto> v)" "sm_cur m' = sm_cur m" "sm_end m' = sm_end m"
    "pb_nr e' = pb_nr e" "pb_step m m' (pb_used e) (pb_used e') xss xss' {k}" "pe_key (e' ! 0) = min k (pe_key (e ! 0))"
    "[] \<notin> set xss \<longrightarrow> [] \<notin> set xss'"
proof -
  let ?i = "pb_find_pos e k" and ?e = "pb_lower_key e k"
  note F = pb_find_pos_used[OF assms(1), of k]
  note L = pb_lower_key_own[OF assms(1), of k]
  have O: "used_ok m (pb_used e) xss" "length e = pb_count" using assms(1) by (auto simp: pb_own_def)
  have U: "used_ok m (pb_used ?e) xss" using L(1) by (simp add: pb_own_def)
  obtain b where B: "sm_heap m (pe_ptr (e ! ?i)) = Some b" "sk_wf b" "sk_items b = xss ! ?i" "pe_ptr (e ! ?i) < sm_cur m"
    "pe_valid (e ! ?i)" "?i < length xss" using pb_own_leaf[OF assms(1) F(2)] by metis
  have ptr: "snd (pb_used ?e ! ?i) = pe_ptr (e ! ?i)"
    using pb_used_nth[OF L(1), of ?i] F(2) L(2) O(2) by (cases "?i = 0") (auto simp: pb_lower_key_def pb_count_def)
  have key: "fst (pb_used ?e ! j) = (if j = 0 then min k (pe_key (e ! 0)) else fst (pb_used e ! j))" if "j < pb_nr e" for j
    using pb_used_nth[OF L(1), of j] pb_used_nth[OF assms(1), of j] L(2,3) that by (auto simp: pb_lower_key_def)
  have n: "map_of (sk_items b) k = None" using used_lookup[OF O(1) F(1)] assms(3) B(3) by simp
  have e: "sk_entries b < sk_slots" using assms(4) B(2,3) length_sk_items[OF B(2)] by (simp add: sk_wf_def)
  obtain b' where P: "sk_put b k v = Some (b', OK)" "sk_wf b'" "map_of (sk_items b') = (map_of (sk_items b))(k \<mapsto> v)"
    using sk_put_wf[OF B(2) e assms(2) n, of v] by metis
  have keys: "fst ` set (sk_items b') = insert k (fst ` set (xss ! ?i))"
    using arg_cong[OF P(3), of dom] by (simp add: dom_map_of_conv_image_fst B(3))
  have up: "used_pos (pb_used ?e) k ?i" unfolding used_pos_def length_pb_used[OF L(1)] L(2)
    using F length_pb_used[OF assms(1)] by (auto simp: used_pos_def key)
  have r: "fst (pb_used ?e ! ?i) \<le> k \<and> (\<forall>j < length (pb_used ?e). ?i < j \<longrightarrow> k < fst (pb_used ?e ! j))"
    using F(2) by (intro used_pos_range[OF U up]) (auto simp: key)
  have il: "?i < length (pb_used ?e)" using F(2) L(2) length_pb_used[OF L(1)] by simp
  have rng: "\<forall>x \<in> set (sk_items b'). fst (pb_used ?e ! ?i) \<le> fst x \<and>
      (\<forall>j < length (pb_used ?e). ?i < j \<longrightarrow> fst x < fst (pb_used ?e ! j))"
  proof (rule ballI)
    fix x assume "x \<in> set (sk_items b')"
    then consider "fst x = k" | y where "y \<in> set (xss ! ?i)" "fst y = fst x" using keys by force
    then show "fst (pb_used ?e ! ?i) \<le> fst x \<and> (\<forall>j < length (pb_used ?e). ?i < j \<longrightarrow> fst x < fst (pb_used ?e ! j))"
      using r used_okD(3,6)[OF U] il by cases metis+
  qed
  let ?m = "leaf_set m (pe_ptr (e ! ?i)) b'" and ?x = "xss[?i := sk_items b']"
  have "used_ok ?m (pb_used ?e) ?x" using used_ok_leaf[OF U il P(2) refl rng] ptr by simp
  then have own: "pb_own ?m ?e ?x" using L(1) by (auto simp: pb_own_def sm_ok_def leaf_set_def)
  have "k \<notin> fst ` set (xss ! j)" if "j < length xss" for j
  proof
    assume "k \<in> fst ` set (xss ! j)"
    then have "k \<in> fst ` set (concat xss)" using nth_mem[OF that] by force
    then show False using assms(3) by (simp add: map_of_eq_None_iff)
  qed
  then have M: "map_of (concat ?x) = (map_of (concat xss))(k \<mapsto> v)"
    using B(6) P(3) by (intro map_of_concat_update) (auto simp: B(3))
  have ret: "pb_put_retry (Suc f) m e k v s = Some (?m, ?e, OK, s)" using B(1,5) P(1) by (simp add: Let_def)
  have st: "pb_step m ?m (pb_used e) (pb_used ?e) xss ?x {k}"
  proof -
    have nr: "pb_nr ?e = pb_nr e" by (rule L(2))
    have snds: "map snd (pb_used ?e) = map snd (pb_used e)"
    proof (rule nth_list_ext)
      show "length (map snd (pb_used ?e)) = length (map snd (pb_used e))"
        using nr by (simp add: length_pb_used[OF assms(1)] length_pb_used[OF L(1)])
      fix j assume "j < length (map snd (pb_used e))"
      then have j: "j < pb_nr e" by (simp add: length_pb_used[OF assms(1)])
      then have "pb_used ?e ! j = (pe_key (?e ! j), pe_ptr (?e ! j))" using pb_used_nth[OF L(1)] nr by simp
      moreover have "pe_ptr (?e ! j) = pe_ptr (e ! j)" using O(2) by (cases j) (auto simp: pb_lower_key_def pb_count_def)
      ultimately show "map snd (pb_used ?e) ! j = map snd (pb_used e) ! j"
        using j nr pb_used_nth[OF assms(1) j] by (simp add: length_pb_used[OF assms(1)] length_pb_used[OF L(1)])
    qed
    have "fst p \<in> {k} \<union> fst ` set (pb_used e)" if p: "p \<in> set (pb_used ?e)" for p
    proof -
      obtain j where j: "j < pb_nr e" "p = pb_used ?e ! j"
        using p nr length_pb_used[OF L(1)] unfolding in_set_conv_nth by metis
      have "fst (pb_used e ! 0) = pe_key (e ! 0)" using pb_used_nth[OF assms(1), of 0] j(1) by simp
      moreover have "fst (pb_used e ! j) \<in> fst ` set (pb_used e)" "fst (pb_used e ! 0) \<in> fst ` set (pb_used e)"
        using j(1) length_pb_used[OF assms(1)] by (auto intro!: imageI)
      ultimately show ?thesis using key[OF j(1)] j(2) by (auto simp: min_def)
    qed
    moreover have "snd ` set (pb_used ?e) = snd ` set (pb_used e)" using snds by (metis list.set_map)
    moreover have "pe_ptr (e ! ?i) \<in> snd ` set (pb_used e)"
      using F(2) length_pb_used[OF assms(1)] pb_used_nth[OF assms(1) F(2)] by (metis image_eqI nth_mem snd_conv)
    moreover have "keys_of ?x \<subseteq> {k} \<union> keys_of xss"
    proof -
      have "set (xss ! ?i) \<subseteq> set (concat xss)" using nth_mem[OF B(6)] by auto
      then have "fst ` set (xss ! ?i) \<subseteq> keys_of xss" unfolding keys_of_def by (rule image_mono)
      then show ?thesis using keys_of_update[OF B(6), of "sk_items b'"] unfolding keys by blast
    qed
    ultimately show ?thesis unfolding pb_step_def by (auto simp: leaf_set_def)
  qed
  have "sk_items b' \<noteq> []" using keys by auto
  then have ne: "[] \<notin> set xss \<longrightarrow> [] \<notin> set ?x"
    using set_update_subset_insert[of xss ?i "sk_items b'"] by auto
  show thesis by (rule that[OF ret own M _ _ L(2) st L(3) ne]) (simp_all add: leaf_set_def)
qed

lemma pb_put_full:
  assumes "pb_own m e xss" "length (xss ! pb_find_pos e k) = sk_slots"
  shows "pb_nr e = pb_count \<Longrightarrow> \<exists>m'. pb_put_retry (Suc f) m e k v s = Some (m', e, Full, s) \<and> pb_own m' e xss"
    "pb_nr e < pb_count \<Longrightarrow> pb_put_retry (Suc f) m e k v s =
      do { (m', a, sk) \<leftarrow> sk_expand m (pe_ptr (e ! pb_find_pos e k)); pb_put_retry f m' (pb_split_array e (pb_find_pos e k) sk a) k v True }"
proof -
  let ?i = "pb_find_pos e k"
  note F = pb_find_pos_used[OF assms(1), of k]
  obtain b where B: "sm_heap m (pe_ptr (e ! ?i)) = Some b" "sk_wf b" "sk_items b = xss ! ?i" "pe_valid (e ! ?i)"
    using pb_own_leaf[OF assms(1) F(2)] by metis
  have "sk_entries b = sk_slots" using B(2,3) assms(2) length_sk_items[OF B(2)] by (simp add: sk_wf_def)
  then have P: "sk_put b k v = Some (b, Full)" by (rule sk_put_full[OF B(2)])
  have S: "leaf_set m (pe_ptr (e ! ?i)) b = m" using B(1) by (simp add: leaf_set_def fun_upd_idem)
  show "\<exists>m'. pb_put_retry (Suc f) m e k v s = Some (m', e, Full, s) \<and> pb_own m' e xss" if "pb_nr e = pb_count"
    using that B P S assms(1) by (simp add: Let_def)
  show "pb_put_retry (Suc f) m e k v s =
      do { (m', a, sk) \<leftarrow> sk_expand m (pe_ptr (e ! ?i)); pb_put_retry f m' (pb_split_array e ?i sk a) k v True }"
    if "pb_nr e < pb_count" using that B P S by (simp add: Let_def)
qed

text \<open>Room for every leaf the entry can still get.\<close>

definition pb_space :: "skmem \<Rightarrow> pbentry \<Rightarrow> bool" where
  "pb_space m e \<longleftrightarrow> sm_cur m + sk_size * (pb_count - pb_nr e) < sm_end m"

lemma used_pos_unique:
  assumes "used_ok m ps xss" "used_pos ps k i" "used_pos ps k j"
  shows "i = j"
proof -
  have "\<not> i < j" if "used_pos ps k i" "used_pos ps k j" for i j
  proof
    assume l: "i < j"
    have "k < fst (ps ! Suc i)" using that l by (simp add: used_pos_def)
    also have "\<dots> \<le> fst (ps ! j)" using used_okD(4)[OF assms(1), of "Suc i" j] that(2) l by (cases "Suc i = j") (auto simp: used_pos_def)
    also have "\<dots> \<le> k" using that(2) l by (simp add: used_pos_def)
    finally show False by simp
  qed
  then show ?thesis using assms(2,3) by (metis linorder_neqE_nat)
qed

lemma pb_put_step:
  assumes "pb_own m e xss" "pb_nr e < pb_count \<longrightarrow> sm_cur m + sk_size < sm_end m" "k \<noteq> 0" "map_of (concat xss) k = None"
  obtains m' e' xss' ret s where "pb_put m e k v = Some (m', e', ret, s)" "pb_own m' e' xss'"
    "pb_step m m' (pb_used e) (pb_used e') xss xss' {k}" "pb_nr e' = pb_nr e + (if s then 1 else 0)"
    "sm_cur m' = sm_cur m + (if s then sk_size else 0)" "[] \<notin> set xss \<longrightarrow> [] \<notin> set xss'"
    "ret = OK \<and> map_of (concat xss') = (map_of (concat xss))(k \<mapsto> v) \<and> pe_key (e' ! 0) = min k (pe_key (e ! 0)) \<or>
     ret = Full \<and> pb_nr e = pb_count \<and> e' = e \<and> m' = m \<and> xss' = xss"
proof -
  let ?i = "pb_find_pos e k"
  note F = pb_find_pos_used[OF assms(1), of k]
  obtain b where B: "sm_heap m (pe_ptr (e ! ?i)) = Some b" "sk_wf b" "sk_items b = xss ! ?i" "?i < length xss"
    using pb_own_leaf[OF assms(1) F(2)] by metis
  have le: "length (xss ! ?i) \<le> sk_slots" using B(2,3) length_sk_items[OF B(2)] by (simp add: sk_wf_def)
  have nr: "pb_nr e \<le> pb_count" using assms(1) by (simp add: pb_own_def)
  show thesis
  proof (cases "length (xss ! ?i) < sk_slots")
    case True
    obtain m' e' xss' where R: "pb_put_retry (Suc (pb_count - pb_nr e)) m e k v False = Some (m', e', OK, False)"
      "pb_own m' e' xss'" "map_of (concat xss') = (map_of (concat xss))(k \<mapsto> v)" "sm_cur m' = sm_cur m"
      "sm_end m' = sm_end m" "pb_nr e' = pb_nr e" "pb_step m m' (pb_used e) (pb_used e') xss xss' {k}"
      "pe_key (e' ! 0) = min k (pe_key (e ! 0))" "[] \<notin> set xss \<longrightarrow> [] \<notin> set xss'"
      using pb_put_room[OF assms(1,3,4) True] by blast
    have "pb_put m e k v = Some (m', e', OK, False)" unfolding pb_put_def by (rule R(1))
    then show thesis using that[of m' e' OK False xss'] R(2-9) by simp
  next
    case False
    then have full: "length (xss ! ?i) = sk_slots" using le by simp
    show thesis
    proof (cases "pb_nr e = pb_count")
      case True
      have "sk_entries b = sk_slots" using B(2,3) full length_sk_items[OF B(2)] by (simp add: sk_wf_def)
      then have "sk_put b k v = Some (b, Full)" by (rule sk_put_full[OF B(2)])
      then have "pb_put m e k v = Some (m, e, Full, False)"
        using True B(1) pb_own_leaf[OF assms(1) F(2)] by (simp add: pb_put_def Let_def leaf_set_def fun_upd_idem) (metis option.inject)
      moreover have "pb_step m m (pb_used e) (pb_used e) xss xss {k}" by (auto simp: pb_step_def)
      ultimately show thesis using that[of m e Full False xss] assms(1) True by simp
    next
      case False
      then have lt: "pb_nr e < pb_count" using nr by simp
      then obtain c where c: "pb_count - pb_nr e = Suc c" by (metis Suc_diff_Suc)
      have sp: "sm_cur m + sk_size < sm_end m" using assms(2) lt by simp
      have "2 \<le> length (xss ! ?i)" using full by (simp add: sk_slots_def)
      from pb_split_own[OF assms(1) F(2) lt this sp] obtain m1 sk xss1 where S:
        "sk_expand m (pe_ptr (e ! ?i)) = Some (m1, sm_cur m, sk)" "pb_own m1 (pb_split_array e ?i sk (sm_cur m)) xss1"
        "concat xss1 = concat xss"
        "xss1 = insert_at (Suc ?i) (drop (length (xss ! ?i) div 2) (xss ! ?i)) (xss[?i := take (length (xss ! ?i) div 2) (xss ! ?i)])"
        "sm_cur m1 = sm_cur m + sk_size" "sm_end m1 = sm_end m"
        "pb_step m m1 (pb_used e) (pb_used (pb_split_array e ?i sk (sm_cur m))) xss xss1 {k}" by metis
      let ?e = "pb_split_array e ?i sk (sm_cur m)"
      have a: "sm_cur m < 2 ^ 48" using sp assms(1) by (simp add: pb_own_def sm_ok_def)
      note A = pb_split_array_used[OF assms(1) F(2) lt a, of sk]
      let ?j = "if sk \<le> k then Suc ?i else ?i"
      have l: "length (pb_used e) = pb_nr e" by (rule length_pb_used[OF assms(1)])
      have n: "pb_used ?e ! j = (if j < Suc ?i then pb_used e ! j else if j = Suc ?i then (sk, sm_cur m) else pb_used e ! (j - 1))"
        if "j \<le> pb_nr e" for j unfolding A(1) using that F(2) l by (intro nth_insert_at) auto
      have "used_pos (pb_used ?e) k ?j"
        using F n l length_pb_used[OF S(2)] A(2) by (auto simp: used_pos_def)
      then have j: "pb_find_pos ?e k = ?j"
        using used_pos_unique[OF _ pb_find_pos_used(1)[OF S(2)]] S(2) by (auto simp: pb_own_def)
      have "length (xss1 ! ?j) < sk_slots" unfolding S(4) using B(4) full by (auto simp: nth_insert_at sk_slots_def)
      then have "length (xss1 ! pb_find_pos ?e k) < sk_slots" using j by simp
      from pb_put_room[OF S(2) assms(3) _ this, of c v True] assms(4) S(3) obtain m2 e2 xss2 where R:
        "pb_put_retry (Suc c) m1 ?e k v True = Some (m2, e2, OK, True)" "pb_own m2 e2 xss2"
        "map_of (concat xss2) = (map_of (concat xss))(k \<mapsto> v)" "sm_cur m2 = sm_cur m1" "sm_end m2 = sm_end m1" "pb_nr e2 = pb_nr ?e"
        "pb_step m1 m2 (pb_used ?e) (pb_used e2) xss1 xss2 {k}" "pe_key (e2 ! 0) = min k (pe_key (?e ! 0))"
        "[] \<notin> set xss1 \<longrightarrow> [] \<notin> set xss2" by metis
      have "pb_put m e k v = Some (m2, e2, OK, True)"
        unfolding pb_put_def c using pb_put_full(2)[OF assms(1) full lt, of "Suc c" v False] S(1) R(1) by simp
      moreover have "pb_step m m2 (pb_used e) (pb_used e2) xss xss2 {k}" by (rule pb_step_trans[OF S(7) R(7)])
      moreover have "pe_key (?e ! 0) = pe_key (e ! 0)"
        using n[of 0] pb_used_nth[OF S(2), of 0] pb_used_nth[OF assms(1), of 0] A(2) F(2) by simp
      moreover have "[] \<notin> set xss \<longrightarrow> [] \<notin> set xss1"
      proof
        assume ne: "[] \<notin> set xss"
        have "set xss1 = insert (drop (length (xss ! ?i) div 2) (xss ! ?i)) (set (xss[?i := take (length (xss ! ?i) div 2) (xss ! ?i)]))"
          unfolding S(4) by simp
        then have "set xss1 \<subseteq> {drop (length (xss ! ?i) div 2) (xss ! ?i), take (length (xss ! ?i) div 2) (xss ! ?i)} \<union> set xss"
          using set_update_subset_insert[of xss ?i "take (length (xss ! ?i) div 2) (xss ! ?i)"] by auto
        then show "[] \<notin> set xss1" using ne full by (auto simp: sk_slots_def)
      qed
      ultimately show thesis using that[of m2 e2 OK True xss2] R S(5,6) A(2) by simp
    qed
  qed
qed

lemma pb_put_own:
  assumes "pb_own m e xss" "pb_space m e" "k \<noteq> 0" "map_of (concat xss) k = None"
  obtains m' e' xss' ret s where "pb_put m e k v = Some (m', e', ret, s)" "pb_own m' e' xss'" "pb_space m' e'"
    "ret = OK \<and> map_of (concat xss') = (map_of (concat xss))(k \<mapsto> v) \<and> pb_nr e \<le> pb_nr e' \<or>
     ret = Full \<and> pb_nr e = pb_count \<and> e' = e \<and> m' = m \<and> xss' = xss"
proof -
  have "pb_nr e < pb_count \<longrightarrow> sm_cur m + sk_size < sm_end m"
  proof
    assume lt: "pb_nr e < pb_count"
    obtain c where "pb_count - pb_nr e = Suc c" using lt by (metis Suc_diff_Suc)
    then show "sm_cur m + sk_size < sm_end m" using assms(2) by (simp add: pb_space_def)
  qed
  from pb_put_step[OF assms(1) this assms(3,4)] obtain m' e' xss' ret s where R: "pb_put m e k v = Some (m', e', ret, s)"
    "pb_own m' e' xss'" "pb_step m m' (pb_used e) (pb_used e') xss xss' {k}" "pb_nr e' = pb_nr e + (if s then 1 else 0)"
    "sm_cur m' = sm_cur m + (if s then sk_size else 0)"
    "ret = OK \<and> map_of (concat xss') = (map_of (concat xss))(k \<mapsto> v) \<and> pe_key (e' ! 0) = min k (pe_key (e ! 0)) \<or>
     ret = Full \<and> pb_nr e = pb_count \<and> e' = e \<and> m' = m \<and> xss' = xss" by metis
  have "pb_space m' e'"
  proof (cases s)
    case True
    then have "pb_nr e < pb_count" using R(2,4) by (simp add: pb_own_def)
    then obtain c where c: "pb_count - pb_nr e = Suc c" by (metis Suc_diff_Suc)
    then have "pb_count - Suc (pb_nr e) = c" by simp
    then show ?thesis using True R(3-5) assms(2) c by (simp add: pb_space_def pb_step_def)
  next
    case False
    then show ?thesis using R(3-5) assms(2) by (simp add: pb_space_def pb_step_def)
  qed
  then show thesis using that R by auto
qed

subsection \<open>Construction and update\<close>

lemma pb_new_own:
  assumes "sm_ok m" "sm_cur m + sk_size * pb_count < sm_end m"
  obtains m' e where "pb_new m key len = Some (m', e)" "pb_own m' e [[]]" "pb_space m' e"
proof -
  have c: "sm_cur m + sk_size < sm_end m" using assms(2) by (simp add: pb_count_def)
  let ?b = "sk_new (sm_raw m (sm_cur m))"
  have b: "sk_wf ?b" "sk_items ?b = []" using sk_new_wf assms(1) by (auto simp: sm_ok_def)
  let ?m = "m\<lparr>sm_cur := sm_cur m + sk_size, sm_heap := (sm_heap m)(sm_cur m \<mapsto> ?b)\<rparr>"
  let ?e = "(replicate pb_count pe_zero)[0 := pe_setup_at (sm_cur m) (pb_first key len)]"
  have a: "sm_cur m mod 2 ^ 48 = sm_cur m" using c assms(1) by (simp add: sm_ok_def)
  have N: "pb_new m key len = Some (?m, ?e)" using c by (simp add: pb_new_def pe_setup_def sk_allocate_def)
  have n: "pb_nr ?e = 1" by (simp add: pb_nr_def pb_count_def pe_setup_at_def pb_first_def)
  have "take (Suc 0) ?e = [?e ! 0]" using take_Suc_conv_app_nth[of 0 ?e] by (simp add: pb_count_def)
  then have "pb_used ?e = [(key, sm_cur m)]" unfolding pb_used_def n
    using a by (simp add: pb_count_def pe_setup_at_def pb_first_def)
  then have "used_ok ?m (pb_used ?e) [[]]" using b by (simp add: used_ok_def sk_leaf_def sk_size_def)
  moreover have "pe_valid (?e ! 0)" by (simp add: pb_count_def pe_valid_def pe_setup_at_def pb_first_def)
  ultimately have "pb_own ?m ?e [[]]" using n assms(1) by (simp add: pb_own_def sm_ok_def pb_count_def)
  moreover have "pb_space ?m ?e" using n assms(2) by (simp add: pb_space_def pb_count_def)
  ultimately show thesis using that N by blast
qed

lemma pb_update_own:
  assumes "pb_own m e xss" "map_of (concat xss) k = Some w" "w \<noteq> 0"
  obtains m' xss' where "pb_update m e k v = Some (m', True)" "pb_own m' e xss'"
    "map_of (concat xss') = (map_of (concat xss))(k \<mapsto> v)" "sm_cur m' = sm_cur m" "sm_end m' = sm_end m"
    "pb_step m m' (pb_used e) (pb_used e) xss xss' {}" "[] \<notin> set xss \<longrightarrow> [] \<notin> set xss'"
proof -
  let ?i = "pb_find_pos e k"
  note F = pb_find_pos_used[OF assms(1), of k]
  obtain b where B: "sm_heap m (pe_ptr (e ! ?i)) = Some b" "sk_wf b" "sk_items b = xss ! ?i" "pe_valid (e ! ?i)"
    "?i < pb_count" "?i < length xss" using pb_own_leaf[OF assms(1) F(2)] by metis
  have U: "used_ok m (pb_used e) xss" using assms(1) by (simp add: pb_own_def)
  have il: "?i < length (pb_used e)" using F(2) length_pb_used[OF assms(1)] by simp
  have k: "map_of (sk_items b) k = Some w" using used_lookup[OF U F(1)] assms(2) B(3) by simp
  from sk_update_wf[OF B(2) k assms(3), of v] obtain b' where P: "sk_update b k v = (b', OK)" "sk_wf b'"
    "map_of (sk_items b') = (map_of (sk_items b))(k \<mapsto> v)" "map fst (sk_items b') = map fst (sk_items b)" by blast
  have keys: "fst ` set (sk_items b') = fst ` set (xss ! ?i)" using P(4) B(3) by (metis list.set_map)
  have rng: "\<forall>x \<in> set (sk_items b'). fst (pb_used e ! ?i) \<le> fst x \<and>
      (\<forall>j < length (pb_used e). ?i < j \<longrightarrow> fst x < fst (pb_used e ! j))"
  proof (rule ballI)
    fix x assume "x \<in> set (sk_items b')"
    then obtain y where y: "y \<in> set (xss ! ?i)" "fst y = fst x" using keys by force
    then show "fst (pb_used e ! ?i) \<le> fst x \<and> (\<forall>j < length (pb_used e). ?i < j \<longrightarrow> fst x < fst (pb_used e ! j))"
      using used_okD(3,6)[OF U] il by metis
  qed
  let ?m = "leaf_set m (pe_ptr (e ! ?i)) b'" and ?x = "xss[?i := sk_items b']"
  have "used_ok ?m (pb_used e) ?x" using used_ok_leaf[OF U il P(2) refl rng] pb_used_nth[OF assms(1) F(2)] by simp
  then have own: "pb_own ?m e ?x" using assms(1) by (auto simp: pb_own_def sm_ok_def leaf_set_def)
  have ne: "\<forall>j < length xss. j \<noteq> ?i \<longrightarrow> k \<notin> fst ` set (xss ! j)" by (rule used_elsewhere[OF U F(1)])
  have "map_of (concat ?x) = (map_of (concat xss))(k \<mapsto> v)" using B(3,6) P(3) ne by (intro map_of_concat_update) auto
  moreover have "pb_update m e k v = Some (?m, True)" using B P(1) by (simp add: pb_update_def Let_def)
  moreover have "sm_cur ?m = sm_cur m" "sm_end ?m = sm_end m" by (simp_all add: leaf_set_def)
  moreover have "pb_step m ?m (pb_used e) (pb_used e) xss ?x {}"
  proof -
    have "set (xss ! ?i) \<subseteq> set (concat xss)" using nth_mem[OF B(6)] by auto
    then have "fst ` set (xss ! ?i) \<subseteq> keys_of xss" unfolding keys_of_def by (rule image_mono)
    then have "keys_of ?x \<subseteq> keys_of xss" using keys_of_update[OF B(6), of "sk_items b'"] unfolding keys by blast
    moreover have "pe_ptr (e ! ?i) \<in> snd ` set (pb_used e)"
      using F(2) length_pb_used[OF assms(1)] pb_used_nth[OF assms(1) F(2)] by (metis image_eqI nth_mem snd_conv)
    ultimately show ?thesis unfolding pb_step_def by (auto simp: leaf_set_def)
  qed
  moreover have "sk_items b' \<noteq> []" using P(4) k by auto
  then have "[] \<notin> set xss \<longrightarrow> [] \<notin> set ?x" using set_update_subset_insert[of xss ?i "sk_items b'"] by auto
  ultimately show thesis using that own by blast
qed

lemma sk_update_absent:
  assumes "sk_wf b" "map_of (sk_items b) k = None"
  shows "sk_update b k v = (b, NoExist)"
proof -
  obtain p f where F: "sk_find b k = (p, f)" by fastforce
  then have "\<not> f" using sk_find_hit(3)[OF assms(1), of k p] assms(2) by auto
  then show ?thesis using F by (simp add: sk_update_def)
qed

lemma pb_update_absent:
  assumes "pb_own m e xss" "map_of (concat xss) k = None"
  shows "pb_update m e k v = Some (m, False)"
proof -
  note F = pb_find_pos_used[OF assms(1), of k]
  obtain b where B: "sm_heap m (pe_ptr (e ! pb_find_pos e k)) = Some b" "sk_wf b" "sk_items b = xss ! pb_find_pos e k"
    using pb_own_leaf[OF assms(1) F(2)] by metis
  have "map_of (sk_items b) k = None" using used_lookup[OF _ F(1)] assms B(3) by (auto simp: pb_own_def)
  then show ?thesis using B(1) sk_update_absent[OF B(2)] by (auto simp: pb_update_def Let_def leaf_set_def fun_upd_idem)
qed

subsection \<open>Runs of insertions and updates\<close>

datatype pb_op = PutKey u64 u64 | UpdateKey u64 u64

fun put_keys :: "pb_op list \<Rightarrow> u64 list" where
  "put_keys [] = []"
| "put_keys (PutKey k v # ops) = k # put_keys ops"
| "put_keys (UpdateKey k v # ops) = put_keys ops"

fun op_values :: "pb_op \<Rightarrow> u64" where
  "op_values (PutKey k v) = v"
| "op_values (UpdateKey k v) = v"

text \<open>The entry and what its answers tell a client: the pairs of the operations that reported success.\<close>

fun pb_run :: "skmem \<Rightarrow> pbentry \<Rightarrow> pb_op list \<Rightarrow> (u64 \<rightharpoonup> u64) \<Rightarrow> (skmem \<times> pbentry \<times> (u64 \<rightharpoonup> u64)) option" where
  "pb_run m e [] M = Some (m, e, M)"
| "pb_run m e (PutKey k v # ops) M =
     (case pb_put m e k v of
        None \<Rightarrow> None
      | Some (m1, e1, ret, _) \<Rightarrow> pb_run m1 e1 ops (if ret = OK then M(k \<mapsto> v) else M))"
| "pb_run m e (UpdateKey k v # ops) M =
     (case pb_update m e k v of
        None \<Rightarrow> None
      | Some (m1, ok) \<Rightarrow> pb_run m1 e ops (if ok then M(k \<mapsto> v) else M))"

lemma pb_run_own:
  assumes "pb_own m e xss" "pb_space m e" "0 \<notin> set (put_keys ops)" "0 \<notin> op_values ` set ops" "distinct (put_keys ops)"
    "set (put_keys ops) \<inter> dom (map_of (concat xss)) = {}" "0 \<notin> ran (map_of (concat xss))"
  shows "\<exists>m' e' xss'. pb_run m e ops (map_of (concat xss)) = Some (m', e', map_of (concat xss')) \<and> pb_own m' e' xss' \<and>
    0 \<notin> ran (map_of (concat xss')) \<and> pb_nr e \<le> pb_nr e' \<and>
    (pb_nr e' < pb_count \<longrightarrow> dom (map_of (concat xss')) = dom (map_of (concat xss)) \<union> set (put_keys ops))"
  using assms
proof (induction ops arbitrary: m e xss)
  case (Cons op ops)
  show ?case
  proof (cases op)
    case (PutKey k v)
    have k: "k \<noteq> 0" "map_of (concat xss) k = None" using Cons.prems(3,6) PutKey by auto
    obtain m1 e1 xss1 ret s where P: "pb_put m e k v = Some (m1, e1, ret, s)" "pb_own m1 e1 xss1" "pb_space m1 e1"
      "ret = OK \<and> map_of (concat xss1) = (map_of (concat xss))(k \<mapsto> v) \<and> pb_nr e \<le> pb_nr e1 \<or>
       ret = Full \<and> pb_nr e = pb_count \<and> e1 = e \<and> m1 = m \<and> xss1 = xss"
      using pb_put_own[OF Cons.prems(1,2) k, of v] by metis
    have M: "map_of (concat xss1) = (if ret = OK then (map_of (concat xss))(k \<mapsto> v) else map_of (concat xss))" using P(4) by auto
    have v: "v \<noteq> 0" using Cons.prems(4) PutKey by auto
    have "0 \<notin> ran (map_of (concat xss1))" using Cons.prems(7) v k(2) by (auto simp: M)
    moreover have "set (put_keys ops) \<inter> dom (map_of (concat xss1)) = {}" using Cons.prems(5,6) PutKey by (auto simp: M)
    ultimately obtain m' e' xss' where R: "pb_run m1 e1 ops (map_of (concat xss1)) = Some (m', e', map_of (concat xss'))"
      "pb_own m' e' xss'" "0 \<notin> ran (map_of (concat xss'))" "pb_nr e1 \<le> pb_nr e'"
      "pb_nr e' < pb_count \<longrightarrow> dom (map_of (concat xss')) = dom (map_of (concat xss1)) \<union> set (put_keys ops)"
      using Cons.IH[OF P(2,3)] Cons.prems(3-5) PutKey by auto
    have "pb_run m e (op # ops) (map_of (concat xss)) = Some (m', e', map_of (concat xss'))"
      using R(1) P(1) PutKey by (simp add: M)
    moreover have "pb_nr e \<le> pb_nr e'" using P(4) R(4) by auto
    moreover have "dom (map_of (concat xss')) = dom (map_of (concat xss)) \<union> set (put_keys (op # ops))" if "pb_nr e' < pb_count"
    proof -
      have "ret = OK" using P(4) that R(4) by auto
      then show ?thesis using R(5) that PutKey by (auto simp: M)
    qed
    ultimately show ?thesis using R(2,3) by blast
  next
    case (UpdateKey k v)
    have v: "v \<noteq> 0" using Cons.prems(4) UpdateKey by auto
    obtain m1 xss1 ok where P: "pb_update m e k v = Some (m1, ok)" "pb_own m1 e xss1" "pb_space m1 e"
      "map_of (concat xss1) = (if ok then (map_of (concat xss))(k \<mapsto> v) else map_of (concat xss))"
      "dom (map_of (concat xss1)) = dom (map_of (concat xss))"
    proof (cases "map_of (concat xss) k")
      case None
      then show thesis using that pb_update_absent[OF Cons.prems(1) None] Cons.prems(1,2) by force
    next
      case (Some w)
      then have "w \<noteq> 0" using Cons.prems(7) by (metis ranI)
      from pb_update_own[OF Cons.prems(1) Some this, of v] obtain m1 xss1 where
        U: "pb_update m e k v = Some (m1, True)" "pb_own m1 e xss1" "map_of (concat xss1) = (map_of (concat xss))(k \<mapsto> v)"
        "sm_cur m1 = sm_cur m" "sm_end m1 = sm_end m" by metis
      moreover have "dom (map_of (concat xss1)) = dom (map_of (concat xss))" using Some by (auto simp: U(3))
      ultimately show thesis using that[of m1 True xss1] Cons.prems(2) by (simp add: pb_space_def)
    qed
    have "0 \<notin> ran (map_of (concat xss1))"
    proof
      assume "0 \<in> ran (map_of (concat xss1))"
      then show False using Cons.prems(7) v unfolding P(4) by (auto simp: ran_def split: if_splits)
    qed
    then obtain m' e' xss' where R: "pb_run m1 e ops (map_of (concat xss1)) = Some (m', e', map_of (concat xss'))"
      "pb_own m' e' xss'" "0 \<notin> ran (map_of (concat xss'))" "pb_nr e \<le> pb_nr e'"
      "pb_nr e' < pb_count \<longrightarrow> dom (map_of (concat xss')) = dom (map_of (concat xss1)) \<union> set (put_keys ops)"
      using Cons.IH[OF P(2,3)] Cons.prems(3-6) UpdateKey P(5) by auto
    have "pb_run m e (op # ops) (map_of (concat xss)) = Some (m', e', map_of (concat xss'))"
      using R(1) P(1) UpdateKey by (simp add: P(4))
    then show ?thesis using R(2-5) P(5) UpdateKey by auto
  qed
qed auto

end
