(* ===== verification/LeTreeSearch.thy ===== *)
theory LeTreeSearch
  imports LeTree PointerProofs
begin

text \<open>
  The searches of the tree.  Over ascending first keys, the exponential search of a group returns the last
  entry whose key is not greater, or the first entry, whatever position the model predicts; the conversions
  around the root model amount to a division that rounds down.
\<close>

subsection \<open>The entry of a key\<close>

text \<open>The first position whose key is greater.\<close>

definition ub_at :: "(nat \<Rightarrow> u64) \<Rightarrow> u64 \<Rightarrow> nat \<Rightarrow> nat \<Rightarrow> bool" where
  "ub_at f k n u \<longleftrightarrow> u \<le> n \<and> (\<forall>i < u. f i \<le> k) \<and> (\<forall>i. u \<le> i \<longrightarrow> i < n \<longrightarrow> k < f i)"

definition rising :: "(nat \<Rightarrow> u64) \<Rightarrow> nat \<Rightarrow> bool" where
  "rising f n \<longleftrightarrow> (\<forall>j < n. \<forall>i < j. f i < f j)"

lemma rising_le: "rising f n \<Longrightarrow> i \<le> j \<Longrightarrow> j < n \<Longrightarrow> f i \<le> f j"
  by (cases "i = j") (auto simp: rising_def order_le_less)

text \<open>\<open>[l, r]\<close> contains that position.\<close>

definition brackets :: "(nat \<Rightarrow> u64) \<Rightarrow> u64 \<Rightarrow> nat \<Rightarrow> nat \<Rightarrow> nat \<Rightarrow> bool" where
  "brackets f k n l r \<longleftrightarrow> l \<le> r \<and> r \<le> n \<and> (\<forall>i < l. f i \<le> k) \<and> (\<forall>i. r \<le> i \<longrightarrow> i < n \<longrightarrow> k < f i)"

lemma ub_linear_at: "brackets f k n l r \<Longrightarrow> rising f n \<Longrightarrow> ub_at f k n (ub_linear f k l r)"
proof (induction f k l r rule: ub_linear.induct)
  case (1 f k l r)
  show ?case
  proof (cases "l < r \<and> f l \<le> k")
    case True
    then have "brackets f k n (Suc l) r" using "1.prems"(1) by (auto simp: brackets_def less_Suc_eq)
    then show ?thesis using "1.IH" True "1.prems"(2) by (subst ub_linear.simps) simp
  next
    case False
    have "k < f i" if i: "l \<le> i" "i < n" for i
    proof (cases "l < r")
      case True
      then have "k < f l" using False by simp
      also have "\<dots> \<le> f i" by (rule rising_le[OF "1.prems"(2) i])
      finally show ?thesis .
    next
      case ge: False
      then show ?thesis using "1.prems"(1) i by (auto simp: brackets_def)
    qed
    then show ?thesis using False "1.prems"(1) by (subst ub_linear.simps) (auto simp: ub_at_def brackets_def)
  qed
qed

lemma ub_binary_at: "brackets f k n l r \<Longrightarrow> rising f n \<Longrightarrow> ub_at f k n (ub_binary f k l r)"
proof (induction f k l r rule: ub_binary.induct)
  case (1 f k l r)
  let ?m = "l + (r - l) div 2"
  show ?case
  proof (cases "l < r")
    case True
    then have m: "l \<le> ?m" "?m < r" "?m < n" using "1.prems"(1) by (auto simp: brackets_def)
    show ?thesis
    proof (cases "f ?m \<le> k")
      case le: True
      have "f i \<le> k" if "i < ?m + 1" for i using rising_le[OF "1.prems"(2), of i ?m] that m(3) le by (auto intro: order_trans)
      then have "brackets f k n (?m + 1) r" using "1.prems"(1) m by (auto simp: brackets_def)
      then show ?thesis using "1.IH"(1)[OF True refl le] True le "1.prems"(2) by (subst ub_binary.simps) (simp add: Let_def)
    next
      case gt: False
      have "k < f i" if "?m \<le> i" "i < n" for i using rising_le[OF "1.prems"(2) that] gt by simp
      then have "brackets f k n l ?m" using "1.prems"(1) m by (auto simp: brackets_def)
      then show ?thesis using "1.IH"(2)[OF True refl gt] True gt "1.prems"(2) by (subst ub_binary.simps) (simp add: Let_def)
    qed
  next
    case False
    then show ?thesis using "1.prems"(1) by (subst ub_binary.simps) (auto simp: ub_at_def brackets_def)
  qed
qed

text \<open>The doubling loops: half of the bound is on the near side, the bound on the far side or past the end.\<close>

lemma grow_left_bound:
  assumes "0 < b" "k < f (m - b div 2)" "b div 2 \<le> m"
  shows "let b' = grow_left f k m b in 0 < b' \<and> k < f (m - b' div 2) \<and> b' div 2 \<le> m \<and> (b' < m \<longrightarrow> f (m - b') \<le> k)"
  using assms
proof (induction f k m b rule: grow_left.induct)
  case (1 f k m b)
  show ?case
  proof (cases "b < m \<and> k < f (m - b)")
    case True
    then have "let b' = grow_left f k m (b * 2) in 0 < b' \<and> k < f (m - b' div 2) \<and> b' div 2 \<le> m \<and> (b' < m \<longrightarrow> f (m - b') \<le> k)"
      using "1.prems" by (intro "1.IH") auto
    then show ?thesis using True "1.prems"(1) by (subst grow_left.simps) simp
  next
    case False
    then show ?thesis using "1.prems" by (subst grow_left.simps) (auto simp: Let_def)
  qed
qed

lemma grow_right_bound:
  assumes "0 < b" "f (m + b div 2) \<le> k" "b div 2 < sz"
  shows "let b' = grow_right f k m sz b in 0 < b' \<and> f (m + b' div 2) \<le> k \<and> b' div 2 < sz \<and> (b' < sz \<longrightarrow> k < f (m + b'))"
  using assms
proof (induction f k m sz b rule: grow_right.induct)
  case (1 f k m sz b)
  show ?case
  proof (cases "b < sz \<and> f (m + b) \<le> k")
    case True
    then have "let b' = grow_right f k m sz (b * 2) in 0 < b' \<and> f (m + b' div 2) \<le> k \<and> b' div 2 < sz \<and> (b' < sz \<longrightarrow> k < f (m + b'))"
      using "1.prems" by (intro "1.IH") auto
    then show ?thesis using True "1.prems"(1) by (subst grow_right.simps) simp
  next
    case False
    then show ?thesis using "1.prems" by (subst grow_right.simps) (auto simp: Let_def)
  qed
qed

lemma exponential_search_at:
  assumes "rising f n" "m < n"
  obtains u where "ub_at f k n u" "exponential_search f n m k = u - 1"
proof -
  define lr where "lr = (if k < f m then
      let bound = grow_left f k m 1 in (m - min bound m, m - bound div 2)
    else let sz = n - m; bound = grow_right f k m sz 1 in (m + bound div 2, m + min bound sz))"
  obtain l r where lr': "lr = (l, r)" by fastforce
  have "brackets f k n l r"
  proof (cases "k < f m")
    case True
    let ?b = "grow_left f k m 1"
    have B: "0 < ?b" "k < f (m - ?b div 2)" "?b div 2 \<le> m" "?b < m \<longrightarrow> f (m - ?b) \<le> k"
      using grow_left_bound[of 1 k f m] True by (auto simp: Let_def)
    have e: "l = m - min ?b m" "r = m - ?b div 2" using lr' True by (auto simp: lr_def Let_def)
    have "f i \<le> k" if "i < l" for i
    proof -
      have "?b < m" "i \<le> m - ?b" using that e(1) by (auto simp: min_def split: if_splits)
      then have "f i \<le> f (m - ?b)" using assms(2) by (intro rising_le[OF assms(1)]) auto
      then show ?thesis using B(4) \<open>?b < m\<close> by auto
    qed
    moreover have "k < f i" if "r \<le> i" "i < n" for i
      using rising_le[OF assms(1), of r i] B(2) that e(2) by auto
    moreover have "l \<le> r" "r \<le> n" using e assms(2) by (auto simp: min_def)
    ultimately show ?thesis by (simp add: brackets_def)
  next
    case False
    let ?s = "n - m"
    let ?b = "grow_right f k m ?s 1"
    have B: "0 < ?b" "f (m + ?b div 2) \<le> k" "?b div 2 < ?s" "?b < ?s \<longrightarrow> k < f (m + ?b)"
      using grow_right_bound[of 1 f m k ?s] False assms(2) by (auto simp: Let_def)
    have e: "l = m + ?b div 2" "r = m + min ?b ?s" using lr' False by (auto simp: lr_def Let_def)
    have "f i \<le> k" if "i < l" for i
    proof -
      have "f i \<le> f l" using that B(3) e(1) by (intro rising_le[OF assms(1)]) auto
      then show ?thesis using B(2) e(1) by auto
    qed
    moreover have "k < f i" if i: "r \<le> i" "i < n" for i
    proof -
      have b: "?b < ?s" using i e(2) by (auto simp: min_def split: if_splits)
      have "f (m + ?b) \<le> f i" using i b e(2) by (intro rising_le[OF assms(1)]) auto
      then show ?thesis using B(4) b by auto
    qed
    moreover have "?b div 2 \<le> min ?b ?s" using B(3) by simp
    then have "l \<le> r" using e by simp
    moreover have "min ?b ?s \<le> n - m" by simp
    then have "r \<le> n" using e(2) assms(2) by linarith
    ultimately show ?thesis by (simp add: brackets_def)
  qed
  note br = this
  have "exponential_search f n m k = (if r - l < 6 then ub_linear f k l r - 1 else ub_binary f k l r - 1)"
    using lr' unfolding exponential_search_def lr_def by (simp add: Let_def)
  then show thesis
    using that[OF ub_linear_at[OF br assms(1)]] that[OF ub_binary_at[OF br assms(1)]] by (auto split: if_splits)
qed

text \<open>The last entry that is not greater, or the first one.\<close>

lemma exponential_search_found:
  assumes "rising f n" "m < n" "p = exponential_search f n m k"
  shows "p < n" "0 < p \<or> f 0 \<le> k \<Longrightarrow> f p \<le> k" "\<And>i. p < i \<Longrightarrow> i < n \<Longrightarrow> k < f i"
proof -
  obtain u where u: "ub_at f k n u" "p = u - 1" using exponential_search_at[OF assms(1,2)] assms(3) by metis
  show "p < n" using u assms(2) by (auto simp: ub_at_def)
  show "f p \<le> k" if "0 < p \<or> f 0 \<le> k"
    using that u by (cases u) (auto simp: ub_at_def)
  show "k < f i" if "p < i" "i < n" for i using u that by (auto simp: ub_at_def)
qed

subsection \<open>The group of a key\<close>

lemma uint_scast_32: "uint (scast (p :: 32 word) :: u64) = take_bit 64 (sint p)"
proof -
  have "(scast p :: u64) = word_of_int (sint p)" by transfer simp
  then have "uint (scast p :: u64) = uint (word_of_int (sint p) :: u64)" by (rule arg_cong)
  also have "\<dots> = take_bit 64 (sint p)" by (subst uint_word_of_int) (simp add: take_bit_eq_mod)
  finally show ?thesis .
qed

lemma sint_ucast_64: "sint (ucast (q :: u64) :: 32 word) = signed_take_bit 31 (uint q)"
proof -
  have "(ucast q :: 32 word) = word_of_int (uint q)" by transfer simp
  then have "sint (ucast q :: 32 word) = sint (word_of_int (uint q) :: 32 word)" by (rule arg_cong)
  also have "\<dots> = signed_take_bit 31 (uint q)" by (subst sint_sbintrunc') simp
  finally show ?thesis .
qed

text \<open>A negative prediction gives a negative group, as the unsigned division wraps back.\<close>

lemma line_group_div: "line_group p = sint p div 64"
proof -
  let ?x = "sint p"
  have r: "- (2 ^ 31) \<le> ?x" "?x < 2 ^ 31" using sint_greater_eq[of p] sint_less[of p] by simp_all
  have "uint ((scast p :: u64) div word_of_nat min_group_entries) = take_bit 64 ?x div 64"
    by (simp add: uint_div uint_scast_32 min_group_entries_def)
  also have "\<dots> = take_bit 58 (?x div 64)" using drop_bit_take_bit[of 6 64 ?x] by (simp add: drop_bit_eq_div)
  finally have "line_group p = signed_take_bit 31 (?x div 64)"
    unfolding line_group_def sint_ucast_64 by (simp add: signed_take_bit_take_bit)
  also have "\<dots> = ?x div 64" using r by (intro signed_take_bit_int_eq_self) auto
  finally show ?thesis .
qed

text \<open>The predictions for the keys up to a bound do not decrease.\<close>

definition line_mono :: "u64 \<Rightarrow> line \<Rightarrow> bool" where
  "line_mono B f \<longleftrightarrow> (\<forall>k k'. k \<le> k' \<longrightarrow> k' \<le> B \<longrightarrow> sint (f k) \<le> sint (f k'))"

lemma line_mono_fit:
  assumes "fp_ok fp" "lines_fit fp B" "sorted_wrt (<) keys" "\<forall>k \<in> set keys. k \<le> B"
  shows "line_mono B (lm_predict fp (rl_init fp keys))"
  using rl_predict_mono[OF assms] by (simp add: line_mono_def)

lemma clip_range: "0 < n \<Longrightarrow> 0 \<le> clip i n \<and> clip i n < int n"
  by (auto simp: clip_def)

lemma clip_mono: "i \<le> j \<Longrightarrow> clip i n \<le> clip j n"
  by (auto simp: clip_def)

lemma group_mono: "line_mono B f \<Longrightarrow> k \<le> k' \<Longrightarrow> k' \<le> B \<Longrightarrow> clip (line_group (f k)) n \<le> clip (line_group (f k')) n"
  by (intro clip_mono) (auto simp: line_group_div line_mono_def intro: zdiv_mono1)

text \<open>\<open>live_before\<close>: group \<open>i\<close> has entries and its first key is not greater.\<close>

definition live_le :: "egroup list \<Rightarrow> u64 \<Rightarrow> nat \<Rightarrow> bool" where
  "live_le gs k i \<longleftrightarrow> eg_nr (gs ! i) \<noteq> 0 \<and> eg_key (gs ! i) 0 \<le> k"

lemma group_left_last:
  "let j = group_left gs k i in j \<le> i \<and> (\<forall>h. j < h \<longrightarrow> h \<le> i \<longrightarrow> \<not> live_le gs k h) \<and> (0 < j \<longrightarrow> live_le gs k j)"
proof (induction i)
  case (Suc i)
  then show ?case by (auto simp: Let_def live_le_def le_Suc_eq)
qed simp

lemma group_right_first:
  assumes "j < length gs" "i \<le> j" "eg_nr (gs ! j) \<noteq> 0" "\<forall>h. i \<le> h \<longrightarrow> h < j \<longrightarrow> eg_nr (gs ! h) = 0"
  shows "group_right gs i = Some j"
  using assms
proof (induction gs i rule: group_right.induct)
  case (1 gs i)
  show ?case
  proof (cases "i = j")
    case True
    then show ?thesis using "1.prems" by (subst group_right.simps) auto
  next
    case False
    then have "i < length gs" "eg_nr (gs ! i) = 0" "Suc i \<le> j" using "1.prems" by auto
    then show ?thesis using "1.IH" "1.prems" by (subst group_right.simps) auto
  qed
qed

end
