(* ===== verification/LeTreeProofs.thy ===== *)
theory LeTreeProofs
  imports LeTreeSearch
begin

text \<open>
  Entries in a row.  \<open>es_own\<close> says that a list of entries, taken together, satisfies the invariant of one long
  array of pairs of a first key and a leaf; the splitting of a group or of the tree into entries does not
  matter for it.  So an expansion, which gives every leaf an entry of its own, changes nothing, and an
  insertion into one entry keeps the rest.
\<close>

subsection \<open>Entries in a row\<close>

definition pe_shape :: "pbentry \<Rightarrow> bool" where
  "pe_shape e \<longleftrightarrow> length e = pb_count \<and> 1 \<le> pb_nr e \<and> pb_nr e \<le> pb_count \<and> (\<forall>i < pb_nr e. pe_valid (e ! i))"

lemma pb_own_shape: "pb_own m e xss \<longleftrightarrow> sm_ok m \<and> pe_shape e \<and> used_ok m (pb_used e) xss"
  by (auto simp: pb_own_def pe_shape_def)

definition es_used :: "pbentry list \<Rightarrow> (u64 \<times> nat) list" where
  "es_used es = concat (map pb_used es)"

lemma es_used_simps [simp]: "es_used [] = []" "es_used (e # es) = pb_used e @ es_used es" "es_used (es @ fs) = es_used es @ es_used fs"
  by (simp_all add: es_used_def)

definition es_own :: "skmem \<Rightarrow> pbentry list \<Rightarrow> kv list list \<Rightarrow> bool" where
  "es_own m es xss \<longleftrightarrow> sm_ok m \<and> (\<forall>e \<in> set es. pe_shape e) \<and> used_ok m (es_used es) xss"

lemma pe_shape_used: "pe_shape e \<Longrightarrow> length (pb_used e) = pb_nr e \<and> pb_used e \<noteq> [] \<and> fst (hd (pb_used e)) = entry_key_of e"
proof -
  assume s: "pe_shape e"
  then have l: "length (pb_used e) = pb_nr e" by (simp add: pb_used_def pe_shape_def)
  moreover have ne: "pb_used e \<noteq> []" using s l by (auto simp: pe_shape_def)
  moreover have "pb_used e ! 0 = (pe_key (e ! 0), pe_ptr (e ! 0))" using s by (simp add: pb_used_def pe_shape_def)
  ultimately show ?thesis by (simp add: hd_conv_nth entry_key_of_def)
qed

lemma used_ok_append:
  assumes "length xs = length ps"
  shows "used_ok m (ps @ qs) (xs @ ys) \<longleftrightarrow> used_ok m ps xs \<and> used_ok m qs ys \<and>
    (\<forall>p \<in> set ps. \<forall>q \<in> set qs. fst p < fst q \<and> snd p \<noteq> snd q) \<and> (\<forall>x \<in> keys_of xs. \<forall>q \<in> set qs. x < fst q)"
  using assms
proof (induction ps arbitrary: xs)
  case Nil
  then show ?case by (simp add: keys_of_def)
next
  case (Cons p ps)
  then obtain x xs' where x: "xs = x # xs'" "length xs' = length ps" by (cases xs) auto
  have k: "keys_of (x # xs') = fst ` set x \<union> keys_of xs'" by (auto simp: keys_of_def)
  have c: "used_ok m (p # zs) (x # zss) \<longleftrightarrow> sk_leaf m (snd p) x \<and> (\<forall>y \<in> set x. fst p \<le> fst y) \<and>
     (\<forall>q \<in> set zs. fst p < fst q \<and> snd p \<noteq> snd q) \<and> (\<forall>y \<in> set x. \<forall>q \<in> set zs. fst y < fst q) \<and> used_ok m zs zss" for zs zss
    unfolding used_ok_Cons by blast
  show ?case unfolding x(1) append_Cons c Cons.IH[OF x(2)] k set_append list.set
    by (simp only: ball_Un ball_simps ball_conj_distrib) (intro iffI conjI; (elim conjE; assumption))
qed

lemma used_ok_split_at:
  assumes "used_ok m (ps @ qs) xss"
  obtains xs ys where "xss = xs @ ys" "length xs = length ps" "length ys = length qs"
  using that[of "take (length ps) xss" "drop (length ps) xss"] assms by (auto simp: used_ok_def)

lemma used_ok_frame:
  assumes "used_ok m ps xss" "\<forall>a \<in> snd ` set ps. sm_heap m' a = sm_heap m a" "sm_cur m \<le> sm_cur m'"
  shows "used_ok m' ps xss"
proof -
  have "sk_leaf m' (snd (ps ! i)) (xss ! i)" if "i < length ps" for i
    using used_okD(2)[OF assms(1) that] assms(2,3) nth_mem[OF that] by (auto simp: sk_leaf_def)
  then show ?thesis using assms(1) by (auto simp: used_ok_def)
qed

lemma used_ok_lower_bound:
  assumes "used_ok m ps xss" "ps \<noteq> []"
  shows "\<forall>p \<in> set ps. fst (hd ps) \<le> fst p" "\<forall>x \<in> keys_of xss. fst (hd ps) \<le> x"
proof -
  have h: "fst (hd ps) \<le> fst (ps ! i)" if "i < length ps" for i
    using used_okD(4)[OF assms(1), of 0 i] that assms(2) by (cases "i = 0") (auto simp: hd_conv_nth)
  then show "\<forall>p \<in> set ps. fst (hd ps) \<le> fst p" by (metis in_set_conv_nth)
  show "\<forall>x \<in> keys_of xss. fst (hd ps) \<le> x"
  proof
    fix x assume "x \<in> keys_of xss"
    then obtain y xs where y: "y \<in> set xs" "xs \<in> set xss" "x = fst y" by (auto simp: keys_of_def)
    obtain i where i: "i < length ps" "xs = xss ! i" using y(2) used_okD(1)[OF assms(1)] by (metis in_set_conv_nth)
    have "fst (ps ! i) \<le> fst y" using used_okD(3)[OF assms(1) i(1)] y(1) i(2) by simp
    then show "fst (hd ps) \<le> x" using h[OF i(1)] y(3) by simp
  qed
qed

lemma used_ok_below_cur:
  "used_ok m ps xss \<Longrightarrow> p \<in> set ps \<Longrightarrow> snd p < sm_cur m"
  using used_okD(2) by (metis in_set_conv_nth sk_leaf_def)

text \<open>Replacing the pairs in the middle.\<close>

lemma used_ok_glue:
  assumes "used_ok m (A @ P @ C) (xa @ xp @ xc)" "length xa = length A" "length xp = length P" "P \<noteq> []"
    "used_ok m' P' xp'" "pb_step m m' P P' xp xp' K"
    "\<forall>k \<in> K. (\<forall>p \<in> set A. fst p < k) \<and> (\<forall>x \<in> keys_of xa. x < k) \<and> (\<forall>q \<in> set C. k < fst q)"
  shows "used_ok m' (A @ P' @ C) (xa @ xp' @ xc)"
proof -
  have U: "used_ok m A xa" "used_ok m (P @ C) (xp @ xc)"
    "\<forall>p \<in> set A. \<forall>q \<in> set (P @ C). fst p < fst q \<and> snd p \<noteq> snd q" "\<forall>x \<in> keys_of xa. \<forall>q \<in> set (P @ C). x < fst q"
    using assms(1) unfolding used_ok_append[OF assms(2)] by blast+
  have V: "used_ok m P xp" "used_ok m C xc" "\<forall>p \<in> set P. \<forall>q \<in> set C. fst p < fst q \<and> snd p \<noteq> snd q"
    "\<forall>x \<in> keys_of xp. \<forall>q \<in> set C. x < fst q"
    using U(2) unfolding used_ok_append[OF assms(3)] by blast+
  have S: "sm_cur m \<le> sm_cur m'" "\<forall>a < sm_cur m. a \<notin> snd ` set P \<longrightarrow> sm_heap m' a = sm_heap m a"
    "snd ` set P' \<subseteq> snd ` set P \<union> {sm_cur m..}" "keys_of xp' \<subseteq> K \<union> keys_of xp" "fst ` set P' \<subseteq> K \<union> fst ` set P \<union> keys_of xp"
    using assms(6) by (simp_all add: pb_step_def)
  have hP: "hd P \<in> set P" using assms(4) by simp
  have low: "fst (hd P) \<le> x" if "x \<in> fst ` set P \<union> keys_of xp" for x
    using used_ok_lower_bound[OF V(1) assms(4)] that by auto
  have fr: "used_ok m' ps ys" if "used_ok m ps ys" "\<forall>p \<in> set ps. \<forall>q \<in> set P. snd p \<noteq> snd q" for ps ys
    using that(2) used_ok_below_cur[OF that(1)] S(2) by (intro used_ok_frame[OF that(1) _ S(1)]) fastforce
  have A: "used_ok m' A xa" using U(3) by (intro fr[OF U(1)]) auto
  have C: "used_ok m' C xc" using V(3) by (intro fr[OF V(2)]) metis
  have lP: "length xp' = length P'" using assms(5) by (simp add: used_ok_def)
  have pc: "fst p < fst q \<and> snd p \<noteq> snd q" if "p \<in> set P'" "q \<in> set C" for p q
  proof
    have "fst p \<in> K \<union> fst ` set P \<union> keys_of xp" using S(5) that(1) by auto
    then show "fst p < fst q" using assms(7) V(3,4) that(2) by auto
    have "snd p \<in> snd ` set P \<or> sm_cur m \<le> snd p" using S(3) that(1) by auto
    then show "snd p \<noteq> snd q"
    proof
      assume "snd p \<in> snd ` set P"
      then show "snd p \<noteq> snd q" using V(3) that(2) by (metis imageE)
    next
      assume "sm_cur m \<le> snd p"
      then show "snd p \<noteq> snd q" using used_ok_below_cur[OF V(2) that(2)] by simp
    qed
  qed
  have xc: "x < fst q" if "x \<in> keys_of xp'" "q \<in> set C" for x q
    using S(4) that assms(7) V(4) by auto
  have PC: "used_ok m' (P' @ C) (xp' @ xc)" unfolding used_ok_append[OF lP] using assms(5) C pc xc by blast
  have ap: "fst p < fst q \<and> snd p \<noteq> snd q" if "p \<in> set A" "q \<in> set (P' @ C)" for p q
  proof (cases "q \<in> set C")
    case True
    then show ?thesis using U(3) that(1) by auto
  next
    case False
    then have q: "q \<in> set P'" using that(2) by simp
    have h: "fst p < fst (hd P)" using U(3) that(1) hP by auto
    have "fst q \<in> K \<or> fst q \<in> fst ` set P \<union> keys_of xp" using S(5) q by auto
    then have "fst p < fst q"
    proof
      assume "fst q \<in> K"
      then show ?thesis using assms(7) that(1) by blast
    next
      assume "fst q \<in> fst ` set P \<union> keys_of xp"
      then show ?thesis using low h by (blast intro: order_less_le_trans)
    qed
    moreover have "snd q \<in> snd ` set P \<or> sm_cur m \<le> snd q" using S(3) q by auto
    then have "snd p \<noteq> snd q"
    proof
      assume "snd q \<in> snd ` set P"
      then obtain q' where q': "q' \<in> set P" "snd q' = snd q" by auto
      then have "snd p \<noteq> snd q'" using U(3) that(1) unfolding set_append by blast
      then show "snd p \<noteq> snd q" using q'(2) by simp
    next
      assume "sm_cur m \<le> snd q"
      then show "snd p \<noteq> snd q" using used_ok_below_cur[OF U(1) that(1)] by simp
    qed
    ultimately show ?thesis by simp
  qed
  have xa: "x < fst q" if "x \<in> keys_of xa" "q \<in> set (P' @ C)" for x q
  proof (cases "q \<in> set C")
    case True
    then show ?thesis using U(4) that(1) by auto
  next
    case False
    then have "fst q \<in> K \<or> fst q \<in> fst ` set P \<union> keys_of xp" using S(5) that(2) by auto
    then show ?thesis
    proof
      assume "fst q \<in> K"
      then show ?thesis using assms(7) that(1) by blast
    next
      have "x < fst (hd P)" using U(4) that(1) hP by auto
      moreover assume "fst q \<in> fst ` set P \<union> keys_of xp"
      ultimately show ?thesis using low by (blast intro: order_less_le_trans)
    qed
  qed
  show ?thesis unfolding used_ok_append[OF assms(2)] using A PC ap xa by blast
qed

subsection \<open>The entry of a key\<close>

definition es_pos :: "pbentry list \<Rightarrow> kv list list \<Rightarrow> u64 \<Rightarrow> nat \<Rightarrow> bool" where
  "es_pos es xss k i \<longleftrightarrow> i < length es \<and> (\<forall>q \<in> set (es_used (take i es)). fst q < k) \<and>
     (\<forall>x \<in> keys_of (take (length (es_used (take i es))) xss). x < k) \<and> (\<forall>q \<in> set (es_used (drop (Suc i) es)). k < fst q)"

text \<open>The pairs of one entry among all pairs.\<close>

definition es_focus :: "skmem \<Rightarrow> pbentry list \<Rightarrow> kv list list \<Rightarrow> nat \<Rightarrow> kv list list \<Rightarrow> kv list list \<Rightarrow> kv list list \<Rightarrow> bool" where
  "es_focus m es xss i xa xp xc \<longleftrightarrow> xss = xa @ xp @ xc \<and> length xa = length (es_used (take i es)) \<and>
     length xp = length (pb_used (es ! i)) \<and> pb_own m (es ! i) xp \<and>
     used_ok m (es_used (take i es) @ pb_used (es ! i) @ es_used (drop (Suc i) es)) (xa @ xp @ xc)"

lemma es_used_at: "i < length es \<Longrightarrow> es_used es = es_used (take i es) @ pb_used (es ! i) @ es_used (drop (Suc i) es)"
  using id_take_nth_drop[of i es] by (metis es_used_simps(2,3))

lemma es_focus_ex:
  assumes "es_own m es xss" "i < length es"
  obtains xa xp xc where "es_focus m es xss i xa xp xc"
proof -
  let ?A = "es_used (take i es)" and ?P = "pb_used (es ! i)" and ?C = "es_used (drop (Suc i) es)"
  have U: "used_ok m (?A @ ?P @ ?C) xss" using assms(1) es_used_at[OF assms(2)] by (simp add: es_own_def)
  obtain xa xr where a: "xss = xa @ xr" "length xa = length ?A" "length xr = length (?P @ ?C)"
    using used_ok_split_at[OF U] by metis
  obtain xp xc where p: "xr = xp @ xc" "length xp = length ?P"
    using that a(3) by (metis append_take_drop_id length_append length_take min.absorb4 min.cobounded2 le_add1 min.absorb2)
  have "used_ok m ?P xp" using U unfolding a(1) p(1) used_ok_append[OF a(2)] used_ok_append[OF p(2)] by blast
  then have "pb_own m (es ! i) xp" using assms by (simp add: pb_own_shape es_own_def)
  then show thesis using that a p U by (simp add: es_focus_def)
qed

lemma es_shape: "es_own m es xss \<Longrightarrow> e \<in> set es \<Longrightarrow> pe_shape e"
  by (simp add: es_own_def)

lemma es_first_key:
  assumes "es_own m es xss" "q \<in> set (es_used es)"
  shows "\<exists>e \<in> set es. q \<in> set (pb_used e) \<and> entry_key_of e \<le> fst q"
proof -
  obtain e where e: "e \<in> set es" "q \<in> set (pb_used e)" using assms(2) by (auto simp: es_used_def)
  obtain i where i: "i < length es" "e = es ! i" using e(1) by (metis in_set_conv_nth)
  from es_focus_ex[OF assms(1) i(1)] obtain xa xp xc where F: "es_focus m es xss i xa xp xc" .
  note s = pe_shape_used[OF es_shape[OF assms(1) e(1)]]
  have "used_ok m (pb_used e) xp" using F i(2) by (simp add: es_focus_def pb_own_shape)
  from used_ok_lower_bound(1)[OF this] have "entry_key_of e \<le> fst q" using s e(2) by auto
  then show ?thesis using e by blast
qed

lemma es_focus_outside:
  assumes "es_own m es xss" "es_pos es xss k i" "es_focus m es xss i xa xp xc"
  shows "k \<notin> keys_of xa \<and> k \<notin> keys_of xc"
proof -
  have F: "xss = xa @ xp @ xc" "length xa = length (es_used (take i es))" "length xp = length (pb_used (es ! i))"
    "used_ok m (es_used (take i es) @ pb_used (es ! i) @ es_used (drop (Suc i) es)) (xa @ xp @ xc)"
    using assms(3) by (simp_all add: es_focus_def)
  have "x < k" if "x \<in> keys_of xa" for x using assms(2) that F(1,2) by (simp add: es_pos_def)
  moreover have C: "used_ok m (es_used (drop (Suc i) es)) xc"
    using F(4) unfolding used_ok_append[OF F(2)] used_ok_append[OF F(3)] by blast
  have "k < x" if "x \<in> keys_of xc" for x
  proof -
    have ne: "es_used (drop (Suc i) es) \<noteq> []" using that C by (auto simp: keys_of_def)
    then have "k < fst (hd (es_used (drop (Suc i) es)))" using assms(2) by (simp add: es_pos_def)
    also have "\<dots> \<le> x" using used_ok_lower_bound(2)[OF C ne] that by simp
    finally show ?thesis .
  qed
  ultimately show ?thesis by auto
qed

lemma map_of_keys_of: "k \<notin> keys_of xss \<Longrightarrow> map_of (concat xss) k = None"
  by (simp add: keys_of_def map_of_eq_None_iff)

lemma es_lookup:
  assumes "es_own m es xss" "es_pos es xss k i" "es_focus m es xss i xa xp xc"
  shows "map_of (concat xss) k = map_of (concat xp) k"
proof -
  have "map_of (concat xa) k = None" "map_of (concat xc) k = None"
    using es_focus_outside[OF assms] map_of_keys_of by auto
  moreover have "xss = xa @ xp @ xc" using assms(3) by (simp add: es_focus_def)
  ultimately show ?thesis by (simp add: map_add_def split: option.splits)
qed

lemma map_of_middle:
  assumes "k \<notin> keys_of xa \<and> k \<notin> keys_of xc" "map_of (concat xp') = (map_of (concat xp))(k \<mapsto> v)"
  shows "map_of (concat (xa @ xp' @ xc)) = (map_of (concat (xa @ xp @ xc)))(k \<mapsto> v)"
proof
  fix j
  show "map_of (concat (xa @ xp' @ xc)) j = ((map_of (concat (xa @ xp @ xc)))(k \<mapsto> v)) j"
    using map_of_keys_of[of k xa] map_of_keys_of[of k xc] assms by (simp add: map_add_def split: option.splits)
qed

text \<open>Changing one entry.\<close>

lemma es_replace:
  assumes "es_own m es xss" "i < length es" "es_focus m es xss i xa xp xc" "pb_own m' e' xp'"
    "pb_step m m' (pb_used (es ! i)) (pb_used e') xp xp' K" "\<forall>k \<in> K. es_pos es xss k i"
  shows "es_own m' (es[i := e']) (xa @ xp' @ xc)"
proof -
  have F: "xss = xa @ xp @ xc" "length xa = length (es_used (take i es))" "length xp = length (pb_used (es ! i))"
    "used_ok m (es_used (take i es) @ pb_used (es ! i) @ es_used (drop (Suc i) es)) (xa @ xp @ xc)"
    using assms(3) by (simp_all add: es_focus_def)
  note s = pe_shape_used[OF es_shape[OF assms(1) nth_mem[OF assms(2)]]]
  have o: "used_ok m' (pb_used e') xp'" "sm_ok m'" "pe_shape e'" using assms(4) by (simp_all add: pb_own_shape)
  have sh: "\<forall>e \<in> set es. pe_shape e" using assms(1) by (simp add: es_own_def)
  have "\<forall>k \<in> K. (\<forall>q \<in> set (es_used (take i es)). fst q < k) \<and> (\<forall>x \<in> keys_of xa. x < k) \<and>
      (\<forall>q \<in> set (es_used (drop (Suc i) es)). k < fst q)"
    using assms(6) F(1,2) by (simp add: es_pos_def)
  from used_ok_glue[OF F(4,2,3) _ o(1) assms(5) this] s
  have "used_ok m' (es_used (take i es) @ pb_used e' @ es_used (drop (Suc i) es)) (xa @ xp' @ xc)" by simp
  moreover have "es_used (es[i := e']) = es_used (take i es) @ pb_used e' @ es_used (drop (Suc i) es)"
    using assms(2) by (simp add: upd_conv_take_nth_drop)
  moreover have "\<forall>e \<in> set (es[i := e']). pe_shape e" using sh o(3) set_update_subset_insert[of es i e'] by auto
  ultimately show ?thesis using o(2) by (simp add: es_own_def)
qed

subsection \<open>Operations on one entry of a row\<close>

lemma es_put:
  assumes "es_own m es xss" "es_pos es xss k i" "k \<noteq> 0" "map_of (concat xss) k = None"
    "pb_nr (es ! i) < pb_count \<longrightarrow> sm_cur m + sk_size < sm_end m"
  obtains m' e' xss' ret s where "pb_put m (es ! i) k v = Some (m', e', ret, s)" "es_own m' (es[i := e']) xss'"
    "pb_nr e' = pb_nr (es ! i) + (if s then 1 else 0)" "sm_cur m' = sm_cur m + (if s then sk_size else 0)" "sm_end m' = sm_end m"
    "[] \<notin> set xss \<longrightarrow> [] \<notin> set xss'"
    "ret = OK \<and> map_of (concat xss') = (map_of (concat xss))(k \<mapsto> v) \<and> entry_key_of e' = min k (entry_key_of (es ! i)) \<or>
     ret = Full \<and> pb_nr (es ! i) = pb_count \<and> e' = es ! i \<and> m' = m \<and> xss' = xss"
proof -
  have i: "i < length es" using assms(2) by (simp add: es_pos_def)
  obtain xa xp xc where F: "es_focus m es xss i xa xp xc" using es_focus_ex[OF assms(1) i] .
  then have x: "xss = xa @ xp @ xc" "pb_own m (es ! i) xp" by (simp_all add: es_focus_def)
  have n: "map_of (concat xp) k = None" using es_lookup[OF assms(1,2) F] assms(4) by simp
  obtain m' e' xp' ret s where P:
    "pb_put m (es ! i) k v = Some (m', e', ret, s)" "pb_own m' e' xp'"
    "pb_step m m' (pb_used (es ! i)) (pb_used e') xp xp' {k}" "pb_nr e' = pb_nr (es ! i) + (if s then 1 else 0)"
    "sm_cur m' = sm_cur m + (if s then sk_size else 0)" "[] \<notin> set xp \<longrightarrow> [] \<notin> set xp'"
    "ret = OK \<and> map_of (concat xp') = (map_of (concat xp))(k \<mapsto> v) \<and> pe_key (e' ! 0) = min k (pe_key (es ! i ! 0)) \<or>
     ret = Full \<and> pb_nr (es ! i) = pb_count \<and> e' = es ! i \<and> m' = m \<and> xp' = xp"
    by (rule pb_put_step[OF x(2) assms(5,3) n, of v]) (rule that; assumption)
  have own: "es_own m' (es[i := e']) (xa @ xp' @ xc)" by (rule es_replace[OF assms(1) i F P(2,3)]) (simp add: assms(2))
  have M: "map_of (concat (xa @ xp' @ xc)) = (map_of (concat xss))(k \<mapsto> v)"
    if "map_of (concat xp') = (map_of (concat xp))(k \<mapsto> v)"
    unfolding x(1) by (rule map_of_middle[OF es_focus_outside[OF assms(1,2) F] that])
  have en: "sm_end m' = sm_end m" using P(3) by (simp add: pb_step_def)
  have ne: "[] \<notin> set xss \<longrightarrow> [] \<notin> set (xa @ xp' @ xc)" using P(6) unfolding x(1) by auto
  have d: "ret = OK \<and> map_of (concat (xa @ xp' @ xc)) = (map_of (concat xss))(k \<mapsto> v) \<and> entry_key_of e' = min k (entry_key_of (es ! i)) \<or>
     ret = Full \<and> pb_nr (es ! i) = pb_count \<and> e' = es ! i \<and> m' = m \<and> xa @ xp' @ xc = xss"
  proof (cases "ret = OK")
    case True
    then have "map_of (concat xp') = (map_of (concat xp))(k \<mapsto> v)" "pe_key (e' ! 0) = min k (pe_key (es ! i ! 0))" using P(7) by auto
    then show ?thesis using True M by (simp add: entry_key_of_def)
  next
    case False
    then have "ret = Full \<and> pb_nr (es ! i) = pb_count \<and> e' = es ! i \<and> m' = m \<and> xp' = xp" using P(7) by blast
    then show ?thesis using x(1) by simp
  qed
  show thesis by (rule that[OF P(1) own P(4,5) en ne d])
qed

lemma es_get:
  assumes "es_own m es xss" "es_pos es xss k i" "k \<noteq> 0"
  shows "pb_get m (es ! i) k = Some (case map_of (concat xss) k of None \<Rightarrow> None | Some v \<Rightarrow> if v = 0 then None else Some v)"
proof -
  have i: "i < length es" using assms(2) by (simp add: es_pos_def)
  obtain xa xp xc where F: "es_focus m es xss i xa xp xc" using es_focus_ex[OF assms(1) i] .
  then have "pb_own m (es ! i) xp" by (simp add: es_focus_def)
  from pb_get_map[OF this assms(3)] show ?thesis using es_lookup[OF assms(1,2) F] by simp
qed

lemma es_update_absent:
  assumes "es_own m es xss" "es_pos es xss k i" "map_of (concat xss) k = None"
  shows "pb_update m (es ! i) k v = Some (m, False)"
proof -
  have i: "i < length es" using assms(2) by (simp add: es_pos_def)
  obtain xa xp xc where F: "es_focus m es xss i xa xp xc" using es_focus_ex[OF assms(1) i] .
  then have "pb_own m (es ! i) xp" by (simp add: es_focus_def)
  from pb_update_absent[OF this] show ?thesis using es_lookup[OF assms(1,2) F] assms(3) by simp
qed

lemma es_update:
  assumes "es_own m es xss" "es_pos es xss k i" "map_of (concat xss) k = Some w" "w \<noteq> 0"
  obtains m' xss' where "pb_update m (es ! i) k v = Some (m', True)" "es_own m' es xss'" "sm_cur m' = sm_cur m" "sm_end m' = sm_end m"
    "[] \<notin> set xss \<longrightarrow> [] \<notin> set xss'" "map_of (concat xss') = (map_of (concat xss))(k \<mapsto> v)"
proof -
  have i: "i < length es" using assms(2) by (simp add: es_pos_def)
  obtain xa xp xc where F: "es_focus m es xss i xa xp xc" using es_focus_ex[OF assms(1) i] .
  then have x: "xss = xa @ xp @ xc" "pb_own m (es ! i) xp" by (simp_all add: es_focus_def)
  have n: "map_of (concat xp) k = Some w" using es_lookup[OF assms(1,2) F] assms(3) by simp
  obtain m' xp' where P: "pb_update m (es ! i) k v = Some (m', True)"
    "pb_own m' (es ! i) xp'" "map_of (concat xp') = (map_of (concat xp))(k \<mapsto> v)" "sm_cur m' = sm_cur m" "sm_end m' = sm_end m"
    "pb_step m m' (pb_used (es ! i)) (pb_used (es ! i)) xp xp' {}" "[] \<notin> set xp \<longrightarrow> [] \<notin> set xp'"
    by (rule pb_update_own[OF x(2) n assms(4), of v]) (rule that; assumption)
  have "es_own m' (es[i := es ! i]) (xa @ xp' @ xc)" by (rule es_replace[OF assms(1) i F P(2,6)]) simp
  then have own: "es_own m' es (xa @ xp' @ xc)" by simp
  have M: "map_of (concat (xa @ xp' @ xc)) = (map_of (concat xss))(k \<mapsto> v)"
    unfolding x(1) by (rule map_of_middle[OF es_focus_outside[OF assms(1,2) F] P(3)])
  have ne: "[] \<notin> set xss \<longrightarrow> [] \<notin> set (xa @ xp' @ xc)" using P(7) unfolding x(1) by auto
  show thesis by (rule that[OF P(1) own P(4,5) ne M])
qed

end
