(* ===== verification/LeTreeGroup.thy ===== *)
theory LeTreeGroup
  imports LeTreeProofs
begin

text \<open>
  The operations of a group, with the entries of other groups on both sides: the search finds the entry of a
  key for any prediction, an expansion keeps the pairs, and an insertion acts as a map update.
\<close>

subsection \<open>First keys\<close>

lemma hd_used_in: "pe_shape e \<Longrightarrow> e \<in> set es \<Longrightarrow> hd (pb_used e) \<in> set (es_used es)"
  using pe_shape_used[of e] unfolding es_used_def by (metis UN_I hd_in_set image_eqI list.set_map set_concat)

lemma es_cross:
  assumes "es_own m (es @ fs) xss" "e \<in> set es" "f \<in> set fs"
  shows "entry_key_of e < entry_key_of f"
proof -
  have "used_ok m (es_used es @ es_used fs) xss" using assms(1) by (simp add: es_own_def)
  then obtain xs ys where U: "used_ok m (es_used es @ es_used fs) (xs @ ys)" "length xs = length (es_used es)"
    using used_ok_split_at by metis
  have s: "pe_shape e" "pe_shape f" using assms by (auto simp: es_own_def)
  have "hd (pb_used e) \<in> set (es_used es)" "hd (pb_used f) \<in> set (es_used fs)"
    using hd_used_in[OF s(1) assms(2)] hd_used_in[OF s(2) assms(3)] by simp_all
  then have "fst (hd (pb_used e)) < fst (hd (pb_used f))" using U(1) unfolding used_ok_append[OF U(2)] by blast
  then show ?thesis using pe_shape_used[OF s(1)] pe_shape_used[OF s(2)] by simp
qed

lemma es_rising:
  assumes "es_own m es xss"
  shows "rising (\<lambda>i. entry_key_of (es ! i)) (length es)"
  unfolding rising_def
proof (intro allI impI)
  fix i j assume ij: "j < length es" "i < j"
  have "es_own m (take j es @ drop j es) xss" using assms by simp
  moreover have "es ! i \<in> set (take j es)" using ij by (metis in_set_conv_nth length_take min.absorb4 nth_take)
  moreover have "es ! j \<in> set (drop j es)" using Cons_nth_drop_Suc[OF ij(1)] by (metis list.set_intros(1))
  ultimately show "entry_key_of (es ! i) < entry_key_of (es ! j)" by (rule es_cross)
qed

lemma es_own_middle:
  assumes "es_own m (E @ G @ F) xss"
  obtains xa xg xc where "xss = xa @ xg @ xc" "length xa = length (es_used E)" "length xg = length (es_used G)" "es_own m G xg"
    "used_ok m (es_used E @ es_used G @ es_used F) (xa @ xg @ xc)"
proof -
  have U: "used_ok m (es_used E @ es_used G @ es_used F) xss" using assms by (simp add: es_own_def)
  obtain xa xr where a: "xss = xa @ xr" "length xa = length (es_used E)" "length xr = length (es_used G @ es_used F)"
    using used_ok_split_at[OF U] by metis
  let ?xg = "take (length (es_used G)) xr" and ?xc = "drop (length (es_used G)) xr"
  have g: "xr = ?xg @ ?xc" "length ?xg = length (es_used G)" using a(3) by simp_all
  have V: "used_ok m (es_used E @ es_used G @ es_used F) (xa @ ?xg @ ?xc)" using U a(1) by simp
  then have "used_ok m (es_used G) ?xg" unfolding used_ok_append[OF a(2)] used_ok_append[OF g(2)] by blast
  then have "es_own m G ?xg" using assms by (simp add: es_own_def)
  then show thesis using that[of xa ?xg ?xc] a g V by simp
qed

text \<open>Everything in front of a group is below a key.\<close>

definition es_above :: "pbentry list \<Rightarrow> kv list list \<Rightarrow> u64 \<Rightarrow> bool" where
  "es_above E xss k \<longleftrightarrow> (\<forall>q \<in> set (es_used E). fst q < k) \<and> (\<forall>x \<in> keys_of (take (length (es_used E)) xss). x < k)"

lemma es_above_Nil [simp]: "es_above [] xss k"
  by (simp add: es_above_def keys_of_def)

lemma es_above_key:
  assumes "es_own m (E @ G) xss" "e \<in> set G" "entry_key_of e \<le> k"
  shows "es_above E xss k"
proof -
  have U: "used_ok m (es_used E @ es_used G) xss" using assms(1) by (simp add: es_own_def)
  obtain xa xr where a: "xss = xa @ xr" "length xa = length (es_used E)" using used_ok_split_at[OF U] by metis
  have s: "pe_shape e" using assms(1,2) by (simp add: es_own_def)
  have "hd (pb_used e) \<in> set (es_used G)" by (rule hd_used_in[OF s assms(2)])
  then have "(\<forall>p \<in> set (es_used E). fst p < entry_key_of e) \<and> (\<forall>x \<in> keys_of xa. x < entry_key_of e)"
    using U pe_shape_used[OF s] unfolding a(1) used_ok_append[OF a(2)] by (metis (no_types, lifting))
  then show ?thesis using assms(3) a by (auto simp: es_above_def intro: order_less_le_trans)
qed

lemma es_below_key:
  assumes "es_own m es xss" "\<forall>e \<in> set es. k < entry_key_of e" "q \<in> set (es_used es)"
  shows "k < fst q"
  using es_first_key[OF assms(1,3)] assms(2) by (meson order_less_le_trans)

lemma es_pos_group:
  assumes "es_own m (E @ G @ F) xss" "es_above E xss k" "\<forall>e \<in> set F. k < entry_key_of e" "i < length G"
    "0 < i \<longrightarrow> entry_key_of (G ! i) \<le> k" "\<forall>j. i < j \<longrightarrow> j < length G \<longrightarrow> k < entry_key_of (G ! j)"
  shows "es_pos (E @ G @ F) xss k (length E + i)"
proof -
  let ?es = "E @ G @ F"
  have t: "take (length E + i) ?es = E @ take i G" "drop (Suc (length E + i)) ?es = drop (Suc i) G @ F"
    using assms(4) by simp_all
  have ab: "es_above (E @ take i G) xss k"
  proof (cases "i = 0")
    case True
    then show ?thesis using assms(2) by simp
  next
    case False
    have "?es = (E @ take i G) @ (drop i G @ F)" by simp
    then have "es_own m ((E @ take i G) @ (drop i G @ F)) xss" using assms(1) by (simp only:)
    moreover have "G ! i \<in> set (drop i G @ F)" using assms(4) by (simp add: Cons_nth_drop_Suc[symmetric])
    ultimately show ?thesis using es_above_key False assms(5) by blast
  qed
  have "\<forall>e \<in> set (drop (Suc i) G @ F). k < entry_key_of e"
  proof
    fix e assume "e \<in> set (drop (Suc i) G @ F)"
    then consider "e \<in> set F" | j where "j < length G - Suc i" "e = G ! (Suc i + j)" by (auto simp: in_set_conv_nth)
    then show "k < entry_key_of e" using assms(3,6) by cases auto
  qed
  moreover have "?es = (E @ take (Suc i) G) @ (drop (Suc i) G @ F) @ []" by simp
  then have "es_own m ((E @ take (Suc i) G) @ (drop (Suc i) G @ F) @ []) xss" using assms(1) by (simp only:)
  then obtain xg where "es_own m (drop (Suc i) G @ F) xg" using es_own_middle by metis
  ultimately have "\<forall>q \<in> set (es_used (drop (Suc i) G @ F)). k < fst q" using es_below_key by blast
  then show ?thesis using ab assms(4) unfolding es_pos_def t es_above_def by simp
qed

subsection \<open>The search in a group\<close>

definition eg_entries :: "egroup \<Rightarrow> pbentry list" where
  "eg_entries g = take (eg_nr g) (eg_space g)"

definition eg_ok :: "egroup \<Rightarrow> bool" where
  "eg_ok g \<longleftrightarrow> eg_nr g \<le> length (eg_space g) \<and> eg_next g = length (es_used (eg_entries g))"

lemma length_eg_entries: "eg_ok g \<Longrightarrow> length (eg_entries g) = eg_nr g"
  by (simp add: eg_ok_def eg_entries_def)

lemma eg_entries_nth: "i < eg_nr g \<Longrightarrow> eg_entries g ! i = eg_space g ! i"
  by (simp add: eg_entries_def)

lemma eg_find_entry:
  assumes "es_own m (eg_entries g) xg" "eg_ok g" "0 < eg_nr g"
  shows "eg_find g k < eg_nr g" "0 < eg_find g k \<longrightarrow> entry_key_of (eg_entries g ! eg_find g k) \<le> k"
    "\<forall>j. eg_find g k < j \<longrightarrow> j < eg_nr g \<longrightarrow> k < entry_key_of (eg_entries g ! j)"
proof -
  have e: "entry_key_of (eg_entries g ! i) = eg_key g i" if "i < eg_nr g" for i
    using that by (simp add: eg_key_def eg_entries_nth)
  then have "rising (eg_key g) (eg_nr g)"
    using es_rising[OF assms(1)] unfolding length_eg_entries[OF assms(2)] rising_def by auto
  moreover have "nat (clip (sint (eg_model g k)) (eg_nr g)) < eg_nr g"
    using clip_range[OF assms(3)] by (simp add: nat_less_iff)
  ultimately have F: "eg_find g k < eg_nr g" "0 < eg_find g k \<or> eg_key g 0 \<le> k \<Longrightarrow> eg_key g (eg_find g k) \<le> k"
    "\<And>i. eg_find g k < i \<Longrightarrow> i < eg_nr g \<Longrightarrow> k < eg_key g i"
    using exponential_search_found[of "eg_key g" "eg_nr g" _ "eg_find g k" k] unfolding eg_find_def by blast+
  show "eg_find g k < eg_nr g" by (rule F(1))
  show "0 < eg_find g k \<longrightarrow> entry_key_of (eg_entries g ! eg_find g k) \<le> k" using F(1,2) e by simp
  show "\<forall>j. eg_find g k < j \<longrightarrow> j < eg_nr g \<longrightarrow> k < entry_key_of (eg_entries g ! j)" using F(3) e by simp
qed

lemma eg_find_pos:
  assumes "es_own m (E @ eg_entries g @ F) xss" "eg_ok g" "0 < eg_nr g" "es_above E xss k" "\<forall>e \<in> set F. k < entry_key_of e"
  shows "es_pos (E @ eg_entries g @ F) xss k (length E + eg_find g k)" "eg_find g k < eg_nr g"
    "eg_entry g (eg_find g k) = Some ((E @ eg_entries g @ F) ! (length E + eg_find g k))"
proof -
  obtain xg where "es_own m (eg_entries g) xg" using es_own_middle[OF assms(1)] by metis
  note P = eg_find_entry[OF this assms(2,3), of k]
  show "eg_find g k < eg_nr g" by (rule P(1))
  show "es_pos (E @ eg_entries g @ F) xss k (length E + eg_find g k)"
    using P by (intro es_pos_group[OF assms(1,4,5)]) (simp_all add: length_eg_entries[OF assms(2)])
  have "(E @ eg_entries g @ F) ! (length E + eg_find g k) = eg_space g ! eg_find g k"
    using P(1) by (simp add: nth_append length_eg_entries[OF assms(2)] eg_entries_nth)
  then show "eg_entry g (eg_find g k) = Some ((E @ eg_entries g @ F) ! (length E + eg_find g k))"
    using P(1) assms(2) by (simp add: eg_entry_def eg_ok_def)
qed

subsection \<open>Expansion of a group\<close>

lemma pe_walk_drop: "i \<le> pb_nr e \<Longrightarrow> pb_nr e \<le> length e \<Longrightarrow> pe_walk e i = drop i (take (pb_nr e) e)"
proof (induction e i rule: pe_walk.induct)
  case (1 e i)
  show ?case
  proof (cases "i < pb_nr e")
    case True
    then have "fst (pe_iter_next e i) = Suc i" by (auto simp: pe_iter_next_def)
    moreover have "drop i (take (pb_nr e) e) = e ! i # drop (Suc i) (take (pb_nr e) e)"
      using True "1.prems"(2) Cons_nth_drop_Suc[of i "take (pb_nr e) e"] by simp
    ultimately show ?thesis using "1.IH" True "1.prems"(2) by (subst pe_walk.simps) (simp add: pe_iter_end_def)
  next
    case False
    then show ?thesis using "1.prems" by (subst pe_walk.simps) (simp add: pe_iter_end_def)
  qed
qed

definition es_pairs :: "pbentry list \<Rightarrow> pentry list" where
  "es_pairs es = concat (map (\<lambda>e. take (pb_nr e) e) es)"

lemma pb_of_entry_shape: "pe_shape (pb_of_entry x)" "pb_used (pb_of_entry x) = [(pe_key x, pe_ptr x)]"
  "entry_key_of (pb_of_entry x) = pe_key x" "pb_nr (pb_of_entry x) = 1"
proof -
  let ?e = "(replicate pb_count pe_zero)[0 := x\<lparr>pe_entries := 1\<rparr>]"
  have n: "?e ! 0 = x\<lparr>pe_entries := 1\<rparr>" by (simp add: pb_count_def)
  then show nr: "pb_nr (pb_of_entry x) = 1" "entry_key_of (pb_of_entry x) = pe_key x"
    unfolding pb_of_entry_def pb_nr_def entry_key_of_def by simp_all
  have "take 1 ?e = [?e ! 0]" using take_Suc_conv_app_nth[of 0 ?e] by (simp add: pb_count_def)
  then show "pb_used (pb_of_entry x) = [(pe_key x, pe_ptr x)]"
    unfolding pb_used_def nr(1) unfolding pb_of_entry_def using n by simp
  show "pe_shape (pb_of_entry x)" unfolding pe_shape_def nr(1) using n
    by (simp add: pb_of_entry_def pb_count_def pe_valid_def)
qed

lemma es_used_pairs: "es_used es = map (\<lambda>x. (pe_key x, pe_ptr x)) (es_pairs es)"
  by (induction es) (simp_all add: es_pairs_def pb_used_def)

lemma es_used_singles: "es_used (map pb_of_entry xs) = map (\<lambda>x. (pe_key x, pe_ptr x)) xs"
  by (induction xs) (simp_all add: pb_of_entry_shape)

text \<open>Entries of one leaf each, in the place of a group.\<close>

lemma es_own_singles:
  assumes "es_own m (E @ G @ F) xss"
  shows "es_own m (E @ map pb_of_entry (es_pairs G) @ F) xss"
  using assms by (auto simp: es_own_def es_used_singles es_used_pairs[of G] pb_of_entry_shape)

text \<open>\<^verbatim>\<open>AdjustEntryKey\<close> may raise the first key up to the smallest key of the first leaf.\<close>

lemma used_ok_raise:
  assumes "used_ok m ps xss" "ps \<noteq> []" "[] \<notin> set xss" "keys_sorted (hd xss)"
  shows "used_ok m ((fst (hd (hd xss)), snd (hd ps)) # tl ps) xss" "fst (hd ps) \<le> fst (hd (hd xss))" "fst (hd (hd xss)) \<in> keys_of xss"
proof -
  obtain p qs where p: "ps = p # qs" using assms(2) by (cases ps) auto
  obtain xs yss where x: "xss = xs # yss" "sk_leaf m (snd p) xs" "\<forall>x \<in> set xs. fst p \<le> fst x"
    "\<forall>q \<in> set qs. fst p < fst q \<and> snd p \<noteq> snd q \<and> (\<forall>x \<in> set xs. fst x < fst q)" "used_ok m qs yss"
    using assms(1) unfolding p used_ok_Cons by blast
  obtain y ys where y: "xs = y # ys" using assms(3) x(1) by (cases xs) auto
  have "\<forall>x \<in> set xs. fst y \<le> fst x" using assms(4) unfolding x(1) y by (auto simp: keys_sorted_Cons intro: less_imp_le)
  then show "used_ok m ((fst (hd (hd xss)), snd (hd ps)) # tl ps) xss" using x y unfolding p by (simp add: used_ok_Cons)
  show "fst (hd ps) \<le> fst (hd (hd xss))" using x(1,3) y p by simp
  show "fst (hd (hd xss)) \<in> keys_of xss" using x(1) y by (simp add: keys_of_def)
qed

lemma es_adjust:
  assumes "es_own m es xss" "i < length es" "[] \<notin> set xss"
  obtains e' where "pb_adjust_key m (es ! i) = Some e'" "es_own m (es[i := e']) xss" "entry_key_of (es ! i) \<le> entry_key_of e'"
    "pb_nr e' = pb_nr (es ! i)"
proof -
  let ?e = "es ! i"
  obtain xa xp xc where F: "es_focus m es xss i xa xp xc" using es_focus_ex[OF assms(1,2)] .
  then have x: "xss = xa @ xp @ xc" "pb_own m ?e xp" by (simp_all add: es_focus_def)
  have O: "sm_ok m" "pe_shape ?e" "used_ok m (pb_used ?e) xp" using x(2) by (simp_all add: pb_own_shape)
  have n: "0 < pb_nr ?e" "length ?e = pb_count" using O(2) by (auto simp: pe_shape_def)
  obtain b where B: "sm_heap m (pe_ptr (?e ! 0)) = Some b" "sk_wf b" "sk_items b = xp ! 0" "0 < length xp"
    using pb_own_leaf[OF x(2) n(1)] by metis
  have hd: "hd xp = xp ! 0" using B(4) by (simp add: hd_conv_nth)
  have ne: "[] \<notin> set xp" using assms(3) x(1) by auto
  then have "xp ! 0 \<noteq> []" using B(4) by (metis nth_mem)
  then have l: "0 < sk_last b" using length_sk_items[OF B(2)] B(3) by (metis length_greater_0_conv)
  let ?k = "fst (hd (hd xp))"
  have k: "sk_key b 0 = ?k" using sk_key_items[OF l] B(3) hd \<open>xp ! 0 \<noteq> []\<close> by (simp add: hd_conv_nth)
  have "fst (hd (xp ! 0)) \<noteq> 0" using B(2,3) \<open>xp ! 0 \<noteq> []\<close> by (auto simp: sk_wf_def)
  then have mk: "sk_min_key b = Some ?k" using k hd by (simp add: sk_min_key_def)
  let ?e' = "?e[0 := (?e ! 0)\<lparr>pe_key := ?k\<rparr>]"
  have A: "pb_adjust_key m ?e = Some ?e'" using B(1) mk by (simp add: pb_adjust_key_def)
  have l0: "0 < length ?e" using n(2) by (simp add: pb_count_def)
  have nr: "pb_nr ?e' = pb_nr ?e" using l0 by (simp add: pb_nr_def)
  have ks: "keys_sorted (hd xp)" using B(2,3) hd by (simp add: sk_wf_def)
  note pu = pe_shape_used[OF O(2)]
  note R = used_ok_raise[OF O(3) _ ne ks]
  have u': "pb_used ?e' = (?k, snd (hd (pb_used ?e))) # tl (pb_used ?e)"
  proof -
    obtain y ys where y: "?e = y # ys" using l0 by (cases ?e) auto
    obtain c where c: "pb_nr ?e = Suc c" using n(1) by (cases "pb_nr ?e") auto
    have "pb_used ?e' = (?k, pe_ptr y) # map (\<lambda>x. (pe_key x, pe_ptr x)) (take c ys)"
      unfolding pb_used_def nr c unfolding y by simp
    moreover have "pb_used ?e = (pe_key y, pe_ptr y) # map (\<lambda>x. (pe_key x, pe_ptr x)) (take c ys)"
      unfolding pb_used_def c unfolding y by simp
    ultimately show ?thesis by simp
  qed
  have "pe_shape ?e'" unfolding pe_shape_def nr using O(2) by (auto simp: pe_shape_def nth_list_update pe_valid_def)
  then have own: "pb_own m ?e' xp" using O(1) R(1) pu u' by (simp add: pb_own_shape)
  have pp: "pb_used ?e = hd (pb_used ?e) # tl (pb_used ?e)" using pu by simp
  have "set (pb_used ?e') \<subseteq> insert (?k, snd (hd (pb_used ?e))) (set (pb_used ?e))"
    unfolding u' using pp by (metis list.set_sel(2) insert_mono list.simps(15) pu subsetI)
  then have st: "pb_step m m (pb_used ?e) (pb_used ?e') xp xp {}"
    using R(3) pu hd_in_set[of "pb_used ?e"] unfolding pb_step_def by auto
  have "es_own m (es[i := ?e']) (xa @ xp @ xc)" by (rule es_replace[OF assms(1,2) F own st]) simp
  then have "es_own m (es[i := ?e']) xss" using x(1) by simp
  moreover have "entry_key_of ?e \<le> entry_key_of ?e'" using R(2) pu l0 by (simp add: entry_key_of_def)
  ultimately show thesis using that[OF A] nr by simp
qed

definition eg_first :: "egroup \<Rightarrow> u64" where
  "eg_first g = entry_key_of (eg_space g ! 0)"

lemma eg_first_nth: "0 < eg_nr g \<Longrightarrow> eg_first g = entry_key_of (eg_entries g ! 0)"
  by (simp add: eg_first_def eg_entries_nth)

lemma es_own_expands [simp]: "es_own (m\<lparr>sm_expands := n\<rparr>) es xss = es_own m es xss"
proof -
  have "sk_leaf (m\<lparr>sm_expands := n\<rparr>) a xs = sk_leaf m a xs" for a xs by (simp add: sk_leaf_def)
  then show ?thesis by (simp add: es_own_def used_ok_def sm_ok_def)
qed

lemma length_es_used:
  assumes "\<forall>e \<in> set es. pe_shape e"
  shows "length (es_used es) = sum_list (map pb_nr es)"
  using assms by (induction es) (simp_all add: pe_shape_used)

lemma map_nr_update: "pb_nr e' = pb_nr (es ! i) \<Longrightarrow> map pb_nr (es[i := e']) = map pb_nr es"
  by (metis list_update_id map_update)

lemma eg_set_entry:
  assumes "eg_ok g" "i < eg_nr g"
  shows "eg_entries (g\<lparr>eg_space := (eg_space g)[i := e]\<rparr>) = (eg_entries g)[i := e]"
    "eg_entries (g\<lparr>eg_space := (eg_space g)[i := e], eg_next := n\<rparr>) = (eg_entries g)[i := e]"
  using assms by (simp_all add: eg_entries_def take_update_swap)

lemma list_update_middle: "i < length G \<Longrightarrow> (E @ G @ F)[length E + i := x] = E @ G[i := x] @ F"
  by (simp add: list_update_append)

lemma eg_adjust_own:
  assumes "es_own m (E @ eg_entries g @ F) xss" "eg_ok g" "0 < eg_nr g" "[] \<notin> set xss"
  obtains g1 where "eg_adjust m g = Some g1" "es_own m (E @ eg_entries g1 @ F) xss" "eg_ok g1" "eg_nr g1 = eg_nr g"
    "eg_next g1 = eg_next g" "eg_first g \<le> eg_first g1"
proof -
  have l: "length E < length (E @ eg_entries g @ F)" "0 < length (eg_entries g)"
    using assms(2,3) by (simp_all add: length_eg_entries)
  have at: "(E @ eg_entries g @ F) ! length E = eg_space g ! 0" using l(2) assms(3) by (simp add: nth_append eg_entries_nth)
  obtain e' where A: "pb_adjust_key m (eg_space g ! 0) = Some e'" "es_own m ((E @ eg_entries g @ F)[length E + 0 := e']) xss"
    "entry_key_of (eg_space g ! 0) \<le> entry_key_of e'" "pb_nr e' = pb_nr (eg_space g ! 0)"
    using es_adjust[OF assms(1) l(1) assms(4)] unfolding at by (metis add_0_right)
  let ?g = "g\<lparr>eg_space := (eg_space g)[0 := e']\<rparr>"
  have en: "eg_entries ?g = (eg_entries g)[0 := e']" by (rule eg_set_entry[OF assms(2,3)])
  have own: "es_own m (E @ eg_entries ?g @ F) xss" using A(2) unfolding list_update_middle[OF l(2)] en .
  have sp: "0 < length (eg_space g)" using assms(2,3) unfolding eg_ok_def by linarith
  have sh: "\<forall>e \<in> set (eg_entries g). pe_shape e" "\<forall>e \<in> set (eg_entries ?g). pe_shape e"
    using assms(1) own by (auto simp: es_own_def)
  have "length (es_used (eg_entries ?g)) = length (es_used (eg_entries g))"
    unfolding length_es_used[OF sh(1)] length_es_used[OF sh(2)] unfolding en
    using map_nr_update[of e' "eg_entries g" 0] A(4) assms(3) by (simp add: eg_entries_nth)
  then have "eg_ok ?g" using assms(2) by (simp add: eg_ok_def)
  moreover have "eg_adjust m g = Some ?g" using A(1) sp by (simp add: eg_adjust_def eg_entry_def)
  moreover have "eg_first g \<le> eg_first ?g" using A(3) sp by (simp add: eg_first_def)
  ultimately show thesis using that[of ?g] own by simp
qed

lemma eg_pairs:
  assumes "eg_ok g" "\<forall>e \<in> set (eg_entries g). pe_shape e"
  shows "concat (map (\<lambda>i. pe_walk (eg_space g ! i) 0) [0..<eg_nr g]) = es_pairs (eg_entries g)"
proof -
  have "map (\<lambda>i. pe_walk (eg_space g ! i) 0) [0..<eg_nr g] = map (\<lambda>e. take (pb_nr e) e) (eg_entries g)"
  proof (rule nth_list_ext)
    show "length (map (\<lambda>i. pe_walk (eg_space g ! i) 0) [0..<eg_nr g]) = length (map (\<lambda>e. take (pb_nr e) e) (eg_entries g))"
      by (simp add: length_eg_entries[OF assms(1)])
    fix i assume "i < length (map (\<lambda>e. take (pb_nr e) e) (eg_entries g))"
    then have i: "i < eg_nr g" by (simp add: length_eg_entries[OF assms(1)])
    then have "pe_shape (eg_space g ! i)" using assms(2) length_eg_entries[OF assms(1)] by (metis eg_entries_nth nth_mem)
    then have "pe_walk (eg_space g ! i) 0 = take (pb_nr (eg_space g ! i)) (eg_space g ! i)"
      using pe_walk_drop[of 0 "eg_space g ! i"] by (simp add: pe_shape_def)
    then show "map (\<lambda>i. pe_walk (eg_space g ! i) 0) [0..<eg_nr g] ! i = map (\<lambda>e. take (pb_nr e) e) (eg_entries g) ! i"
      using i by (simp add: length_eg_entries[OF assms(1)] eg_entries_nth)
  qed
  then show ?thesis by (simp add: es_pairs_def)
qed

lemma eg_expand_own:
  assumes "es_own m (E @ eg_entries g @ F) xss" "eg_ok g" "0 < eg_nr g" "[] \<notin> set xss"
  obtains m' g' where "eg_expand fp m g = Some (m', g')" "es_own m' (E @ eg_entries g' @ F) xss" "eg_ok g'" "0 < eg_nr g'"
    "eg_next g' = eg_next g" "\<forall>e \<in> set (eg_entries g'). pb_nr e = 1" "sm_cur m' = sm_cur m" "sm_end m' = sm_end m"
    "eg_first g \<le> eg_first g'"
proof -
  obtain g1 where A: "eg_adjust m g = Some g1" "es_own m (E @ eg_entries g1 @ F) xss" "eg_ok g1" "eg_nr g1 = eg_nr g"
    "eg_next g1 = eg_next g" "eg_first g \<le> eg_first g1" using eg_adjust_own[OF assms] .
  have sh: "\<forall>e \<in> set (eg_entries g1). pe_shape e" using A(2) by (auto simp: es_own_def)
  let ?ps = "es_pairs (eg_entries g1)"
  let ?es = "map pb_of_entry ?ps"
  have n: "length ?ps = eg_next g1" using A(3) es_used_pairs[of "eg_entries g1"] by (simp add: eg_ok_def)
  let ?g = "g1\<lparr>eg_space := ?es @ replicate (eg_next g1 - length ?ps) [], eg_model := eg_train fp ?es,
    eg_nr := length ?ps, eg_next := length ?ps\<rparr>"
  have X: "eg_expand fp m g = Some (m\<lparr>sm_expands := sm_expands m + 1\<rparr>, ?g)"
    using A(1,3) n by (simp add: eg_expand_def eg_pairs[OF A(3) sh] Let_def eg_ok_def)
  have en: "eg_entries ?g = ?es" by (simp add: eg_entries_def)
  have own: "es_own m (E @ eg_entries ?g @ F) xss" unfolding en by (rule es_own_singles[OF A(2)])
  have ok: "eg_ok ?g" unfolding eg_ok_def en by (simp add: es_used_singles)
  have ne: "eg_entries g1 \<noteq> []" using A(3,4) assms(3) length_eg_entries[of g1] by auto
  then obtain e es where e: "eg_entries g1 = e # es" by (cases "eg_entries g1") auto
  have s: "pe_shape e" using sh e by simp
  then obtain y ys where y: "take (pb_nr e) e = y # ys" "y = e ! 0" by (cases e; cases "pb_nr e") (auto simp: pe_shape_def)
  then have ps: "?ps = y # ys @ es_pairs es" by (simp add: e es_pairs_def)
  then have "eg_first ?g = pe_key y" by (simp add: eg_first_def pb_of_entry_shape)
  moreover have "eg_first g1 = pe_key y" using e y(2) A(3,4) assms(3) eg_first_nth[of g1] by (simp add: entry_key_of_def)
  ultimately have "eg_first g \<le> eg_first ?g" using A(6) by simp
  moreover have "0 < eg_nr ?g" using ps by simp
  moreover have "\<forall>e \<in> set (eg_entries ?g). pb_nr e = 1" unfolding en by (auto simp: pb_of_entry_shape)
  ultimately show thesis using that[OF X _ ok] own n A(5) by simp
qed

subsection \<open>Insertion into a group\<close>

lemma eg_put_round:
  assumes "es_own m (E @ eg_entries g @ F) xss" "eg_ok g" "0 < eg_nr g" "es_above E xss k" "\<forall>e \<in> set F. k < entry_key_of e"
    "k \<noteq> 0" "map_of (concat xss) k = None" "sm_cur m + sk_size < sm_end m"
  obtains e m1 e1 ret s g1 xss1 where "eg_entry g (eg_find g k) = Some e" "pb_put m e k v = Some (m1, e1, ret, s)"
    "g1 = g\<lparr>eg_space := (eg_space g)[eg_find g k := e1], eg_next := eg_next g + (if s then 1 else 0)\<rparr>"
    "es_own m1 (E @ eg_entries g1 @ F) xss1" "eg_ok g1" "eg_nr g1 = eg_nr g" "sm_cur m1 \<le> sm_cur m + sk_size" "sm_end m1 = sm_end m"
    "[] \<notin> set xss \<longrightarrow> [] \<notin> set xss1"
    "ret = OK \<and> map_of (concat xss1) = (map_of (concat xss))(k \<mapsto> v) \<and> eg_first g1 = min k (eg_first g) \<or>
     ret = Full \<and> pb_nr e = pb_count \<and> e \<in> set (eg_entries g) \<and> g1 = g \<and> m1 = m \<and> xss1 = xss"
proof -
  let ?es = "E @ eg_entries g @ F" and ?i = "eg_find g k"
  note P = eg_find_pos[OF assms(1-5)]
  have il: "?i < length (eg_entries g)" using P(2) length_eg_entries[OF assms(2)] by simp
  have at: "?es ! (length E + ?i) = eg_entries g ! ?i" using il by (simp add: nth_append)
  have sp: "pb_nr (?es ! (length E + ?i)) < pb_count \<longrightarrow> sm_cur m + sk_size < sm_end m" using assms(8) by simp
  obtain m1 e1 xss1 ret s where R: "pb_put m (?es ! (length E + ?i)) k v = Some (m1, e1, ret, s)"
    "es_own m1 (?es[length E + ?i := e1]) xss1" "pb_nr e1 = pb_nr (?es ! (length E + ?i)) + (if s then 1 else 0)"
    "sm_cur m1 = sm_cur m + (if s then sk_size else 0)" "sm_end m1 = sm_end m" "[] \<notin> set xss \<longrightarrow> [] \<notin> set xss1"
    "ret = OK \<and> map_of (concat xss1) = (map_of (concat xss))(k \<mapsto> v) \<and> entry_key_of e1 = min k (entry_key_of (?es ! (length E + ?i))) \<or>
     ret = Full \<and> pb_nr (?es ! (length E + ?i)) = pb_count \<and> e1 = ?es ! (length E + ?i) \<and> m1 = m \<and> xss1 = xss"
    by (rule es_put[OF assms(1) P(1) assms(6,7) sp, of v]) (rule that; assumption)
  let ?e = "eg_entries g ! ?i"
  let ?g = "g\<lparr>eg_space := (eg_space g)[?i := e1], eg_next := eg_next g + (if s then 1 else 0)\<rparr>"
  have en: "eg_entries ?g = (eg_entries g)[?i := e1]" by (rule eg_set_entry(2)[OF assms(2) P(2)])
  have own: "es_own m1 (E @ eg_entries ?g @ F) xss1" using R(2) unfolding list_update_middle[OF il] en .
  have sh: "\<forall>e \<in> set (eg_entries g). pe_shape e" "\<forall>e \<in> set ((eg_entries g)[?i := e1]). pe_shape e"
    using assms(1) own unfolding en by (auto simp: es_own_def)
  have "sum_list (map pb_nr ((eg_entries g)[?i := e1])) = sum_list (map pb_nr (eg_entries g)) + (if s then 1 else 0)"
    using il R(3) unfolding at by (simp add: map_update sum_list_update member_le_sum_list)
  then have ok: "eg_ok ?g" using assms(2) P(2) unfolding eg_ok_def en
    by (simp add: length_es_used[OF sh(1)] length_es_used[OF sh(2)])
  have sp0: "eg_find g k < length (eg_space g)" using P(2) assms(2) by (simp add: eg_ok_def)
  have fi: "eg_first ?g = min k (eg_first g)" if "entry_key_of e1 = min k (entry_key_of ?e)"
  proof (cases "?i = 0")
    case True
    then show ?thesis using that sp0 P(2) eg_first_nth[of g] by (simp add: eg_first_def eg_entries_nth)
  next
    case False
    obtain xg where G: "es_own m (eg_entries g) xg" using es_own_middle[OF assms(1)] by metis
    have "entry_key_of (eg_entries g ! 0) < entry_key_of ?e" using es_rising[OF G] il False by (simp add: rising_def)
    also have "\<dots> \<le> k" using eg_find_entry(2)[OF G assms(2,3), of k] False by simp
    finally have "eg_first g < k" using eg_first_nth[OF assms(3)] by simp
    then show ?thesis using False by (auto simp: eg_first_def min_def)
  qed
  have same: "?g = g" if "e1 = ?e"
  proof -
    have "s = False" using that R(3) unfolding at by (simp split: if_splits)
    moreover have "(eg_space g)[?i := ?e] = eg_space g" using P(2) by (simp add: eg_entries_nth)
    ultimately show ?thesis using that by simp
  qed
  have d: "ret = OK \<and> map_of (concat xss1) = (map_of (concat xss))(k \<mapsto> v) \<and> eg_first ?g = min k (eg_first g) \<or>
     ret = Full \<and> pb_nr ?e = pb_count \<and> ?e \<in> set (eg_entries g) \<and> ?g = g \<and> m1 = m \<and> xss1 = xss"
  proof (cases "ret = OK")
    case True
    then show ?thesis using R(7) fi unfolding at by simp
  next
    case False
    then show ?thesis using R(7) same il unfolding at by auto
  qed
  have ge: "eg_entry g ?i = Some ?e" "pb_put m ?e k v = Some (m1, e1, ret, s)" using P(3) R(1) unfolding at by simp_all
  show thesis by (rule that[OF ge refl own ok _ _ R(5,6) d]) (simp_all add: R(4))
qed

lemma eg_put_own:
  assumes "es_own m (E @ eg_entries g @ F) xss" "eg_ok g" "0 < eg_nr g" "es_above E xss k" "\<forall>e \<in> set F. k < entry_key_of e"
    "k \<noteq> 0" "map_of (concat xss) k = None" "sm_cur m + sk_size < sm_end m" "[] \<notin> set xss"
  obtains m' g' ret xss' where "eg_put (Suc (Suc f)) fp m g k v = Some (m', g', ret)" "es_own m' (E @ eg_entries g' @ F) xss'"
    "eg_ok g'" "0 < eg_nr g'" "sm_cur m' \<le> sm_cur m + sk_size" "sm_end m' = sm_end m" "[] \<notin> set xss'" "min k (eg_first g) \<le> eg_first g'"
    "ret = OK \<and> map_of (concat xss') = (map_of (concat xss))(k \<mapsto> v) \<or>
     ret = Full \<and> max_group_entries < eg_next g \<and> g' = g \<and> m' = m \<and> xss' = xss"
    "ret = Full \<longrightarrow> \<not> (\<forall>e \<in> set (eg_entries g). pb_nr e = 1)"
proof -
  obtain e m1 e1 ret s g1 xss1 where R: "eg_entry g (eg_find g k) = Some e" "pb_put m e k v = Some (m1, e1, ret, s)"
    "g1 = g\<lparr>eg_space := (eg_space g)[eg_find g k := e1], eg_next := eg_next g + (if s then 1 else 0)\<rparr>"
    "es_own m1 (E @ eg_entries g1 @ F) xss1" "eg_ok g1" "eg_nr g1 = eg_nr g" "sm_cur m1 \<le> sm_cur m + sk_size" "sm_end m1 = sm_end m"
    "[] \<notin> set xss \<longrightarrow> [] \<notin> set xss1"
    "ret = OK \<and> map_of (concat xss1) = (map_of (concat xss))(k \<mapsto> v) \<and> eg_first g1 = min k (eg_first g) \<or>
     ret = Full \<and> pb_nr e = pb_count \<and> e \<in> set (eg_entries g) \<and> g1 = g \<and> m1 = m \<and> xss1 = xss"
    by (rule eg_put_round[OF assms(1-8), of v]) (rule that; assumption)
  show thesis
  proof (cases "ret = OK")
    case True
    have "eg_put (Suc (Suc f)) fp m g k v = Some (m1, g1, OK)" using R(1,2,3) True by (simp add: Let_def)
    then show thesis using that[of m1 g1 OK xss1] R True assms(3,9) by auto
  next
    case False
    then have F: "ret = Full" "pb_nr e = pb_count" "e \<in> set (eg_entries g)" "g1 = g" "m1 = m" "xss1 = xss" using R(10) by auto
    have nz: "\<not> (\<forall>e \<in> set (eg_entries g). pb_nr e = 1)" using F(2,3) by (intro notI) (auto simp: pb_count_def)
    show thesis
    proof (cases "max_group_entries < eg_next g")
      case True
      have "eg_put (Suc (Suc f)) fp m g k v = Some (m, g, Full)" using R(1,2,3) F True by (simp add: Let_def)
      then show thesis using that[of m g Full xss] assms(1-3,9) True nz by simp
    next
      case le: False
      obtain m2 g2 where X: "eg_expand fp m g = Some (m2, g2)" "es_own m2 (E @ eg_entries g2 @ F) xss" "eg_ok g2" "0 < eg_nr g2"
        "eg_next g2 = eg_next g" "\<forall>e \<in> set (eg_entries g2). pb_nr e = 1" "sm_cur m2 = sm_cur m" "sm_end m2 = sm_end m"
        "eg_first g \<le> eg_first g2" using eg_expand_own[OF assms(1-3,9)] .
      have sp: "sm_cur m2 + sk_size < sm_end m2" using assms(8) X(7,8) by simp
      obtain e' m3 e3 ret3 s3 g3 xss3 where T: "eg_entry g2 (eg_find g2 k) = Some e'" "pb_put m2 e' k v = Some (m3, e3, ret3, s3)"
        "g3 = g2\<lparr>eg_space := (eg_space g2)[eg_find g2 k := e3], eg_next := eg_next g2 + (if s3 then 1 else 0)\<rparr>"
        "es_own m3 (E @ eg_entries g3 @ F) xss3" "eg_ok g3" "eg_nr g3 = eg_nr g2" "sm_cur m3 \<le> sm_cur m2 + sk_size" "sm_end m3 = sm_end m2"
        "[] \<notin> set xss \<longrightarrow> [] \<notin> set xss3"
        "ret3 = OK \<and> map_of (concat xss3) = (map_of (concat xss))(k \<mapsto> v) \<and> eg_first g3 = min k (eg_first g2) \<or>
         ret3 = Full \<and> pb_nr e' = pb_count \<and> e' \<in> set (eg_entries g2) \<and> g3 = g2 \<and> m3 = m2 \<and> xss3 = xss"
        by (rule eg_put_round[OF X(2-4) assms(4-7) sp, of v]) (rule that; assumption)
      have "ret3 = OK" using T(10) X(6) by (auto simp: pb_count_def)
      then have U: "ret3 = OK" "map_of (concat xss3) = (map_of (concat xss))(k \<mapsto> v)" "eg_first g3 = min k (eg_first g2)" using T(10) by auto
      have e2: "eg_put (Suc f) fp m2 g2 k v = Some (m3, g3, OK)" using T(1,2,3) U(1) by (simp add: Let_def)
      have "eg_next g1 = eg_next g + (if s then 1 else 0)" using R(3) by simp
      then have ns: "\<not> s" using F(4) by (simp split: if_splits)
      then have gg: "g\<lparr>eg_space := (eg_space g)[eg_find g k := e1]\<rparr> = g" using R(3) F(4) by simp
      have "eg_put (Suc (Suc f)) fp m g k v = eg_put (Suc f) fp m2 g2 k v"
        unfolding eg_put.simps(2)[of "Suc f" fp m g k v]
        by (simp add: Let_def R(1,2) R(3)[symmetric] F(1,4,5) le X(1) ns gg del: eg_put.simps)
      from this e2 have put: "eg_put (Suc (Suc f)) fp m g k v = Some (m3, g3, OK)" by (rule trans)
      have mn: "min k (eg_first g) \<le> eg_first g3" unfolding U(3) using X(9) by (auto simp: min_def)
      have n: "0 < eg_nr g3" "sm_cur m3 \<le> sm_cur m + sk_size" "sm_end m3 = sm_end m" "[] \<notin> set xss3"
        using T(6-9) X(4,7,8) assms(9) by simp_all
      show thesis by (rule that[OF put T(4,5) n mn]) (simp_all add: U(2))
    qed
  qed
qed

end
