(* ===== verification/LeTreeTop.thy ===== *)
theory LeTreeTop
  imports LeTreeGroup
begin

text \<open>
  The tree as a finite map.  \<open>lt_own B\<close> ties the entries of all groups, in their order, to the pairs, whose keys are at most \<open>B\<close>; the
  model does not decrease up to \<open>B\<close>, and the group that it predicts for the first key of a group is not to the left of this group
  (unless all groups before it are empty).  Under it \<^verbatim>\<open>find_group\<close> is right, insertions act as map updates, also when the
  group or the tree expands, and lookups find what was stored.
\<close>

subsection \<open>The invariant\<close>

definition lt_entries :: "egroup list \<Rightarrow> pbentry list" where
  "lt_entries gs = concat (map eg_entries gs)"

lemma lt_entries_simps [simp]: "lt_entries [] = []" "lt_entries (g # gs) = eg_entries g @ lt_entries gs"
  "lt_entries (gs @ hs) = lt_entries gs @ lt_entries hs"
  by (simp_all add: lt_entries_def)

definition placed :: "line \<Rightarrow> egroup list \<Rightarrow> bool" where
  "placed f gs \<longleftrightarrow> (\<forall>i < length gs. eg_nr (gs ! i) \<noteq> 0 \<longrightarrow> (\<exists>h < i. eg_nr (gs ! h) \<noteq> 0) \<longrightarrow>
     int i \<le> clip (line_group (f (eg_first (gs ! i)))) (length gs))"

definition lt_own :: "u64 \<Rightarrow> letree \<Rightarrow> kv list list \<Rightarrow> bool" where
  "lt_own B t xss \<longleftrightarrow> lt_nr t = length (lt_groups t) \<and> es_own (lt_mem t) (lt_entries (lt_groups t)) xss \<and>
     (\<forall>g \<in> set (lt_groups t). eg_ok g) \<and> (\<exists>g \<in> set (lt_groups t). eg_nr g \<noteq> 0) \<and> [] \<notin> set xss \<and>
     keys_of xss \<subseteq> {..B} \<and> line_mono B (lt_model t) \<and> placed (lt_model t) (lt_groups t)"

lemma es_key_bound:
  assumes "es_own m es xss" "[] \<notin> set xss" "keys_of xss \<subseteq> {..B}"
  shows "p \<in> set (es_used es) \<Longrightarrow> fst p \<le> B" "e \<in> set es \<Longrightarrow> entry_key_of e \<le> B"
proof -
  have U: "used_ok m (es_used es) xss" using assms(1) by (simp add: es_own_def)
  show b: "fst p \<le> B" if p: "p \<in> set (es_used es)" for p
  proof -
    obtain i where i: "i < length (es_used es)" "p = es_used es ! i" using p unfolding in_set_conv_nth by blast
    have il: "i < length xss" using i(1) used_okD(1)[OF U] by simp
    then have "xss ! i \<in> set xss" by simp
    then have "xss ! i \<noteq> []" using assms(2) by metis
    then obtain x where x: "x \<in> set (xss ! i)" using hd_in_set by blast
    have "x \<in> set (concat xss)" using x nth_mem[OF il] unfolding set_concat by blast
    then have "fst x \<in> keys_of xss" unfolding keys_of_def by (rule imageI)
    then have "fst x \<le> B" using assms(3) by auto
    moreover have "fst p \<le> fst x" unfolding i(2) by (rule used_okD(3)[OF U i(1) x])
    ultimately show ?thesis by (rule order_trans[rotated])
  qed
  show "entry_key_of e \<le> B" if "e \<in> set es"
  proof -
    have e: "pe_shape e" using assms(1) that by (simp add: es_own_def)
    have "hd (pb_used e) \<in> set (es_used es)" using that pe_shape_used[OF e] hd_in_set by (fastforce simp: es_used_def)
    then show ?thesis using b pe_shape_used[OF e] by metis
  qed
qed

lemma keys_of_dom: "keys_of xss = dom (map_of (concat xss))"
  by (simp add: keys_of_def dom_map_of_conv_image_fst)

lemma lt_entries_at: "i < length gs \<Longrightarrow> lt_entries gs = lt_entries (take i gs) @ eg_entries (gs ! i) @ lt_entries (drop (Suc i) gs)"
  using id_take_nth_drop[of i gs] by (metis lt_entries_simps(2,3))

lemma lt_entries_update: "i < length gs \<Longrightarrow> lt_entries (gs[i := g]) = lt_entries (take i gs) @ eg_entries g @ lt_entries (drop (Suc i) gs)"
  by (simp add: upd_conv_take_nth_drop)

lemma lt_entries_empty: "(\<forall>g \<in> set gs. eg_nr g = 0) \<Longrightarrow> lt_entries gs = []"
  by (auto simp: lt_entries_def eg_entries_def)

subsection \<open>The group of a key\<close>

text \<open>The last group with entries whose first key is not greater, or the first group with entries.\<close>

definition group_pos :: "egroup list \<Rightarrow> u64 \<Rightarrow> nat \<Rightarrow> bool" where
  "group_pos gs k i \<longleftrightarrow> i < length gs \<and> eg_nr (gs ! i) \<noteq> 0 \<and> ((\<forall>h < i. eg_nr (gs ! h) = 0) \<or> eg_first (gs ! i) \<le> k) \<and>
     (\<forall>j. i < j \<longrightarrow> j < length gs \<longrightarrow> eg_nr (gs ! j) \<noteq> 0 \<longrightarrow> k < eg_first (gs ! j))"

lemma first_live:
  assumes "i0 < length gs \<and> eg_nr (gs ! i0) \<noteq> 0"
  obtains i where "i < length gs" "eg_nr (gs ! i) \<noteq> 0" "\<forall>h < i. eg_nr (gs ! h) = 0"
proof -
  let ?P = "\<lambda>i. i < length gs \<and> eg_nr (gs ! i) \<noteq> 0"
  have P: "?P (LEAST i. ?P i)" using assms by (rule LeastI)
  moreover have "eg_nr (gs ! h) = 0" if "h < (LEAST i. ?P i)" for h
  proof -
    have "\<not> ?P h" by (rule not_less_Least[OF that])
    then show ?thesis using P that by simp
  qed
  ultimately show thesis using that by blast
qed

lemma lt_find_group_pos:
  assumes "lt_own B t xss" "k \<le> B"
  obtains i where "lt_find_group t k = Some i" "group_pos (lt_groups t) k i"
proof -
  let ?gs = "lt_groups t" and ?c = "lt_group_of t k"
  have T: "lt_nr t = length ?gs" "line_mono B (lt_model t)" "placed (lt_model t) ?gs" "\<exists>g \<in> set ?gs. eg_nr g \<noteq> 0"
    using assms(1) by (simp_all add: lt_own_def)
  have n: "0 < length ?gs" using T(4) by (cases ?gs) auto
  have c: "0 \<le> ?c" "?c < int (length ?gs)" using clip_range[OF n] T(1) by (simp_all add: lt_group_of_def)
  let ?L = "group_left ?gs k (nat ?c)"
  have L: "?L \<le> nat ?c" "\<And>h. ?L < h \<Longrightarrow> h \<le> nat ?c \<Longrightarrow> \<not> live_le ?gs k h" "0 < ?L \<Longrightarrow> live_le ?gs k ?L"
    using group_left_last[of ?gs k "nat ?c"] by (simp_all add: Let_def)
  have F: "lt_find_group t k = group_right ?gs ?L" using c by (simp add: lt_find_group_def Let_def nat_less_iff)
  have far: "k < eg_first (?gs ! j)"
    if j: "?L < j" "j < length ?gs" "eg_nr (?gs ! j) \<noteq> 0" "\<exists>h < j. eg_nr (?gs ! h) \<noteq> 0" for j
  proof (cases "j \<le> nat ?c")
    case True
    then show ?thesis using L(2)[OF j(1) True] j(3) by (simp add: live_le_def eg_first_def eg_key_def)
  next
    case False
    show ?thesis
    proof (rule ccontr)
      assume "\<not> k < eg_first (?gs ! j)"
      then have "clip (line_group (lt_model t (eg_first (?gs ! j)))) (length ?gs) \<le> ?c"
        using group_mono[OF T(2), of "eg_first (?gs ! j)" k "length ?gs"] T(1) assms(2) by (simp add: lt_group_of_def)
      moreover have "int j \<le> clip (line_group (lt_model t (eg_first (?gs ! j)))) (length ?gs)"
        using T(3) j(2-4) by (simp add: placed_def)
      ultimately show False using False by linarith
    qed
  qed
  show thesis
  proof (cases "eg_nr (?gs ! ?L) = 0")
    case False
    have l: "?L < length ?gs" using L(1) c by linarith
    have "group_right ?gs ?L = Some ?L" using False l by (subst group_right.simps) simp
    moreover have d: "?L = 0 \<or> eg_first (?gs ! ?L) \<le> k" using L(3) by (auto simp: live_le_def eg_first_def eg_key_def)
    have "k < eg_first (?gs ! j)" if "?L < j" "j < length ?gs" "eg_nr (?gs ! j) \<noteq> 0" for j
      by (rule far[OF that]) (rule exI[of _ ?L], simp add: that(1) False)
    then have "group_pos ?gs k ?L" using l False d by (auto simp: group_pos_def)
    ultimately show thesis using that F by simp
  next
    case True
    then have z: "?L = 0" using L(3) by (auto simp: live_le_def)
    obtain i0 where "i0 < length ?gs \<and> eg_nr (?gs ! i0) \<noteq> 0" using T(4) by (auto simp: in_set_conv_nth)
    then obtain i where i: "i < length ?gs" "eg_nr (?gs ! i) \<noteq> 0" "\<forall>h < i. eg_nr (?gs ! h) = 0" by (rule first_live)
    have "group_right ?gs ?L = Some i" unfolding z using i by (intro group_right_first) auto
    moreover have "k < eg_first (?gs ! j)" if j: "i < j" "j < length ?gs" "eg_nr (?gs ! j) \<noteq> 0" for j
    proof (rule far[OF _ j(2,3)])
      show "?L < j" using j(1) z by simp
      show "\<exists>h < j. eg_nr (?gs ! h) \<noteq> 0" using i(2) j(1) by blast
    qed
    then have "group_pos ?gs k i" using i by (simp add: group_pos_def)
    ultimately show thesis using that F by simp
  qed
qed

lemma group_pos_sides:
  assumes "lt_own B t xss" "group_pos (lt_groups t) k i"
  shows "es_own (lt_mem t) (lt_entries (take i (lt_groups t)) @ eg_entries (lt_groups t ! i) @ lt_entries (drop (Suc i) (lt_groups t))) xss"
    "es_above (lt_entries (take i (lt_groups t))) xss k" "\<forall>e \<in> set (lt_entries (drop (Suc i) (lt_groups t))). k < entry_key_of e"
    "eg_ok (lt_groups t ! i)" "0 < eg_nr (lt_groups t ! i)"
proof -
  let ?gs = "lt_groups t"
  have i: "i < length ?gs" "0 < eg_nr (?gs ! i)" using assms(2) by (simp_all add: group_pos_def)
  have T: "es_own (lt_mem t) (lt_entries ?gs) xss" "\<forall>g \<in> set ?gs. eg_ok g" using assms(1) by (simp_all add: lt_own_def)
  show own: "es_own (lt_mem t) (lt_entries (take i ?gs) @ eg_entries (?gs ! i) @ lt_entries (drop (Suc i) ?gs)) xss"
    using T(1) lt_entries_at[OF i(1)] by simp
  show ok: "eg_ok (?gs ! i)" using T(2) i(1) by simp
  show "0 < eg_nr (?gs ! i)" by (rule i(2))
  have first: "eg_first g = entry_key_of (eg_entries g ! 0) \<and> eg_entries g ! 0 \<in> set (eg_entries g)" if "g \<in> set ?gs" "0 < eg_nr g" for g
    using eg_first_nth[OF that(2)] length_eg_entries[of g] T(2) that by simp
  show "es_above (lt_entries (take i ?gs)) xss k"
  proof (cases "\<forall>h < i. eg_nr (?gs ! h) = 0")
    case True
    then have "lt_entries (take i ?gs) = []" by (intro lt_entries_empty) (auto simp: in_set_conv_nth)
    then show ?thesis by simp
  next
    case False
    then have "eg_first (?gs ! i) \<le> k" using assms(2) by (auto simp: group_pos_def)
    then show ?thesis using first[of "?gs ! i"] i by (intro es_above_key[OF own, of "eg_entries (?gs ! i) ! 0"]) auto
  qed
  show "\<forall>e \<in> set (lt_entries (drop (Suc i) ?gs)). k < entry_key_of e"
  proof
    fix e assume "e \<in> set (lt_entries (drop (Suc i) ?gs))"
    then obtain g where g: "g \<in> set (drop (Suc i) ?gs)" "e \<in> set (eg_entries g)" unfolding lt_entries_def by auto
    obtain d where "d < length (drop (Suc i) ?gs)" "g = drop (Suc i) ?gs ! d" using g(1) unfolding in_set_conv_nth by blast
    then obtain j where j: "i < j" "j < length ?gs" "g = ?gs ! j" by (intro that[of "Suc i + d"]) auto
    have nz: "0 < eg_nr g" using g(2) by (cases "eg_nr g") (simp_all add: eg_entries_def)
    then have k: "k < eg_first g" using assms(2) j by (auto simp: group_pos_def)
    have gs: "g \<in> set ?gs" using j by simp
    have "es_own (lt_mem t) (lt_entries (take j ?gs) @ eg_entries g @ lt_entries (drop (Suc j) ?gs)) xss"
      using T(1) lt_entries_at[OF j(2)] j(3) by simp
    then obtain xg where G: "es_own (lt_mem t) (eg_entries g) xg" using es_own_middle by metis
    obtain h where h: "h < length (eg_entries g)" "e = eg_entries g ! h" using g(2) by (metis in_set_conv_nth)
    have "entry_key_of (eg_entries g ! 0) \<le> entry_key_of e" using rising_le[OF es_rising[OF G], of 0 h] h by simp
    then show "k < entry_key_of e" using k first[OF gs nz] by simp
  qed
qed

end
