(* ===== verification/LeTreeLoad.thy ===== *)
theory LeTreeLoad
  imports LeTreeTop
begin

text \<open>
  Distributing pairs over new groups.  Because the predictions do not decrease, the pairs of the groups, one group after
  the other, are the pairs in their order: so \<^verbatim>\<open>ExpandTree\<close> keeps every leaf, and bulk loading puts each pair
  into the group that the model predicts.
\<close>

subsection \<open>Slices by group\<close>

definition grp :: "line \<Rightarrow> nat \<Rightarrow> u64 \<Rightarrow> nat" where
  "grp f n k = nat (clip (line_group (f k)) n)"

lemma grp_less: "0 < n \<Longrightarrow> grp f n k < n"
  using clip_range[of n "line_group (f k)"] by (simp add: grp_def nat_less_iff)

lemma grp_int: "0 < n \<Longrightarrow> clip (line_group (f k)) n = int (grp f n k) \<and> 0 \<le> clip (line_group (f k)) n"
  using clip_range[of n "line_group (f k)"] by (simp add: grp_def)

lemma grp_mono: "line_mono B f \<Longrightarrow> k \<le> k' \<Longrightarrow> k' \<le> B \<Longrightarrow> grp f n k \<le> grp f n k'"
  using group_mono[of B f k k' n] by (simp add: grp_def nat_mono)

lemma filter_less_Suc:
  "sorted (map h xs) \<Longrightarrow> filter (\<lambda>x. h x < Suc n) xs = filter (\<lambda>x. h x < n) xs @ filter (\<lambda>x. h x = n) xs"
proof (induction xs)
  case (Cons x xs)
  then have IH: "filter (\<lambda>x. h x < Suc n) xs = filter (\<lambda>x. h x < n) xs @ filter (\<lambda>x. h x = n) xs" by simp
  have ge: "\<forall>y \<in> set xs. h x \<le> h y" using Cons.prems by simp
  show ?case
  proof (cases "h x < n")
    case False
    then have "filter (\<lambda>x. h x < n) xs = []" using ge by (auto simp: filter_empty_conv)
    then show ?thesis using IH False by auto
  qed (use IH in simp)
qed simp

lemma slices:
  fixes h :: "'a \<Rightarrow> nat"
  assumes "sorted (map h xs)" "\<forall>x \<in> set xs. h x < n"
  shows "concat (map (\<lambda>i. filter (\<lambda>x. h x = i) xs) [0..<n]) = xs"
proof -
  have "concat (map (\<lambda>i. filter (\<lambda>x. h x = i) xs) [0..<m]) = filter (\<lambda>x. h x < m) xs" for m
    by (induction m) (simp_all add: filter_less_Suc[OF assms(1)])
  then show ?thesis using assms(2) by (simp add: filter_id_conv)
qed

subsection \<open>Counting and appending\<close>

lemma lt_count_spec:
  assumes "0 < n" "length gs = n"
  shows "lt_count f ks gs = Some (map (\<lambda>i. (gs ! i)\<lparr>eg_next := eg_next (gs ! i) + length (filter (\<lambda>k. grp f n k = i) ks)\<rparr>) [0..<n])"
  using assms(2)
proof (induction ks arbitrary: gs)
  case Nil
  then show ?case by (simp add: list_eq_iff_nth_eq)
next
  case (Cons k ks)
  let ?i = "grp f n k"
  have i: "?i < n" "nat (clip (line_group (f k)) (length gs)) = ?i" using grp_less[OF assms(1)] Cons.prems by (simp_all add: grp_def)
  have p: "0 \<le> clip (line_group (f k)) (length gs)" using grp_int[OF assms(1)] Cons.prems by simp
  have "lt_count f (k # ks) gs = lt_count f ks (gs[?i := eg_inc (gs ! ?i)])" using p i(2) by (simp add: Let_def)
  also have "\<dots> = Some (map (\<lambda>j. (gs ! j)\<lparr>eg_next := eg_next (gs ! j) + length (filter (\<lambda>k. grp f n k = j) (k # ks))\<rparr>) [0..<n])"
    unfolding Cons.IH[of "gs[?i := eg_inc (gs ! ?i)]", simplified, OF Cons.prems]
    using i(1) Cons.prems by (simp add: eg_inc_def nth_list_update)
  finally show ?case .
qed

definition grp_state :: "nat \<Rightarrow> pentry list \<Rightarrow> egroup" where
  "grp_state c ys = \<lparr>eg_nr = length ys, eg_next = c, eg_min = 0,
     eg_space = map pb_of_entry ys @ replicate (c - length ys) [], eg_model = (\<lambda>_. 0)\<rparr>"

lemma grp_state_empty: "(if c = 0 then eg_zero\<lparr>eg_next := c\<rparr> else eg_reserve (eg_zero\<lparr>eg_next := c\<rparr>)) = grp_state c []"
  by (simp add: grp_state_def eg_zero_def eg_reserve_def)

lemma eg_append_state:
  assumes "length ys < c"
  shows "eg_append (grp_state c ys) x = Some (grp_state c (ys @ [x]))"
proof -
  obtain d where d: "c - length ys = Suc d" "c - length (ys @ [x]) = d" using assms by (cases "c - length ys") auto
  show ?thesis unfolding eg_append_def grp_state_def d by (simp add: list_update_append)
qed

lemma lt_append_all_spec:
  assumes "0 < n" "\<forall>i < n. c i = length (filter (\<lambda>x. grp f n (pe_key x) = i) (ys @ xs))"
  shows "lt_append_all f xs (map (\<lambda>i. grp_state (c i) (filter (\<lambda>x. grp f n (pe_key x) = i) ys)) [0..<n]) =
    Some (map (\<lambda>i. grp_state (c i) (filter (\<lambda>x. grp f n (pe_key x) = i) (ys @ xs))) [0..<n])"
  using assms(2)
proof (induction xs arbitrary: ys)
  case (Cons x xs)
  let ?i = "grp f n (pe_key x)"
  let ?gs = "\<lambda>ys. map (\<lambda>i. grp_state (c i) (filter (\<lambda>x. grp f n (pe_key x) = i) ys)) [0..<n]"
  have i: "?i < n" "nat (clip (line_group (f (pe_key x))) (length (?gs ys))) = ?i"
    "0 \<le> clip (line_group (f (pe_key x))) (length (?gs ys))"
    using grp_less[OF assms(1)] clip_range[OF assms(1)] by (simp_all add: grp_def)
  have "length (filter (\<lambda>y. grp f n (pe_key y) = ?i) ys) < c ?i" using Cons.prems i(1) by simp
  from eg_append_state[OF this, of x]
  have A: "eg_append (?gs ys ! ?i) x = Some (grp_state (c ?i) (filter (\<lambda>y. grp f n (pe_key y) = ?i) (ys @ [x])))"
    using i(1) by simp
  have U: "(?gs ys)[?i := grp_state (c ?i) (filter (\<lambda>y. grp f n (pe_key y) = ?i) (ys @ [x]))] = ?gs (ys @ [x])"
  proof (rule nth_list_ext)
    fix j assume "j < length (?gs (ys @ [x]))"
    then have j: "j < n" by simp
    show "((?gs ys)[?i := grp_state (c ?i) (filter (\<lambda>y. grp f n (pe_key y) = ?i) (ys @ [x]))]) ! j = ?gs (ys @ [x]) ! j"
      using j i(1) by (cases "?i = j") simp_all
  qed simp
  have "lt_append_all f (x # xs) (?gs ys) = lt_append_all f xs (?gs (ys @ [x]))"
    unfolding lt_append_all.simps(2) i(2) Let_def A bind.simps U using i(3) by simp
  also have "\<dots> = Some (?gs ((ys @ [x]) @ xs))" by (rule Cons.IH) (use Cons.prems in simp)
  finally show ?case by simp
qed simp

lemma lt_retrain_all_spec:
  assumes "\<forall>g \<in> set gs. eg_nr g = eg_next g \<and> length (eg_space g) = eg_nr g"
  shows "\<exists>gs'. lt_retrain_all fp gs = Some gs' \<and> list_all2 (\<lambda>g g'. eg_nr g' = eg_nr g \<and> eg_next g' = eg_next g \<and> eg_space g' = eg_space g) gs gs'"
  using assms
proof (induction gs)
  case (Cons g gs)
  then obtain gs' where R: "lt_retrain_all fp gs = Some gs'"
    "list_all2 (\<lambda>g g'. eg_nr g' = eg_nr g \<and> eg_next g' = eg_next g \<and> eg_space g' = eg_space g) gs gs'" by auto
  show ?case
  proof (cases "eg_next g = 0")
    case True
    then show ?thesis using R by simp
  next
    case False
    then have "eg_space g \<noteq> []" using Cons.prems by auto
    then show ?thesis using R False Cons.prems by (simp add: eg_retrain_def)
  qed
qed simp

subsection \<open>Expansion of the tree\<close>

lemma ge_walk_from:
  assumes "eg_ok g" "\<forall>e \<in> set (eg_entries g). pe_shape e" "i < eg_nr g" "j < pb_nr (eg_space g ! i)"
  shows "ge_walk g (i, j) = drop j (take (pb_nr (eg_space g ! i)) (eg_space g ! i)) @ es_pairs (drop (Suc i) (eg_entries g))"
  using assms
proof (induction g "(i, j)" arbitrary: i j rule: ge_walk.induct)
  case (1 g i j)
  note ok = "1.prems"(1) and shp = "1.prems"(2) and ij = "1.prems"(3,4)
  let ?e = "eg_space g ! i"
  have sh: "pe_shape (eg_space g ! h)" if "h < eg_nr g" for h
    using shp that length_eg_entries[OF ok] by (metis eg_entries_nth nth_mem)
  have l: "pb_nr ?e \<le> length ?e" using sh[OF ij(1)] by (simp add: pe_shape_def)
  have nend: "\<not> ge_end g (i, j)" using ij by (simp add: ge_end_def)
  have IH: "ge_walk g (i', j') = drop j' (take (pb_nr (eg_space g ! i')) (eg_space g ! i')) @ es_pairs (drop (Suc i') (eg_entries g))"
    if "fst (ge_next g (i, j)) = (i', j')" "i' < eg_nr g" "j' < pb_nr (eg_space g ! i')" for i' j'
    using "1.hyps"[OF nend that(1) ok shp that(2,3)] .
  have step: "drop j (take (pb_nr ?e) ?e) = ?e ! j # drop (Suc j) (take (pb_nr ?e) ?e)"
    using ij(2) l Cons_nth_drop_Suc[of j "take (pb_nr ?e) ?e"] by simp
  have walk: "ge_walk g (i, j) = ?e ! j # ge_walk g (fst (ge_next g (i, j)))"
    using nend by (subst ge_walk.simps) (simp add: ge_pair_def)
  show ?case
  proof (cases "Suc j < pb_nr ?e")
    case True
    then have "fst (ge_next g (i, j)) = (i, Suc j)" using ij by (simp add: ge_next_def pe_iter_next_def)
    with IH[OF this ij(1) True] walk step show ?thesis by simp
  next
    case False
    then have d: "drop (Suc j) (take (pb_nr ?e) ?e) = []" using ij(2) by simp
    show ?thesis
    proof (cases "Suc i < eg_nr g")
      case more: True
      have n: "fst (ge_next g (i, j)) = (Suc i, 0)" using False more ij by (simp add: ge_next_def pe_iter_next_def)
      have z: "0 < pb_nr (eg_space g ! Suc i)" using sh[OF more] by (simp add: pe_shape_def)
      have "es_pairs (drop (Suc i) (eg_entries g)) =
          take (pb_nr (eg_space g ! Suc i)) (eg_space g ! Suc i) @ es_pairs (drop (Suc (Suc i)) (eg_entries g))"
        using Cons_nth_drop_Suc[of "Suc i" "eg_entries g"] more length_eg_entries[OF ok]
        by (simp add: es_pairs_def eg_entries_nth flip: Cons_nth_drop_Suc)
      then show ?thesis using walk step d IH[OF n more z] n by simp
    next
      case last: False
      then have "ge_end g (fst (ge_next g (i, j)))" using False "1.prems"
        by (auto simp: ge_next_def pe_iter_next_def ge_end_def)
      then have "ge_walk g (fst (ge_next g (i, j))) = []" by (subst ge_walk.simps) simp
      moreover have "es_pairs (drop (Suc i) (eg_entries g)) = []" using last length_eg_entries[OF ok] by (simp add: es_pairs_def)
      ultimately show ?thesis using walk step d by simp
    qed
  qed
qed

lemma ge_walk_pairs:
  assumes "eg_ok g" "\<forall>e \<in> set (eg_entries g). pe_shape e"
  shows "ge_walk g (0, 0) = es_pairs (eg_entries g)"
proof (cases "eg_nr g")
  case 0
  then show ?thesis by (subst ge_walk.simps) (simp add: ge_end_def es_pairs_def eg_entries_def)
next
  case (Suc n)
  then have i: "0 < eg_nr g" by simp
  obtain e es where e: "eg_entries g = e # es" using i length_eg_entries[OF assms(1)] by (cases "eg_entries g") auto
  then have e0: "eg_space g ! 0 = e" using eg_entries_nth[OF i] by simp
  have "0 < pb_nr e" using assms(2) e by (simp add: pe_shape_def)
  then show ?thesis using ge_walk_from[OF assms i, of 0] e e0 by (simp add: es_pairs_def)
qed

lemma es_pairs_append [simp]: "es_pairs (es @ fs) = es_pairs es @ es_pairs fs"
  by (simp add: es_pairs_def)

lemma lt_walk_pairs:
  assumes "\<forall>g \<in> set gs. eg_ok g" "\<forall>e \<in> set (lt_entries gs). pe_shape e"
  shows "concat (map (\<lambda>g. ge_walk g (0, 0)) gs) = es_pairs (lt_entries gs)"
  using assms
proof (induction gs)
  case (Cons g gs)
  then show ?case using ge_walk_pairs[of g] by simp
qed (simp add: es_pairs_def)

lemma eg_next_nr:
  assumes "eg_ok g" "\<forall>e \<in> set (eg_entries g). pe_shape e"
  shows "eg_next g = 0 \<longleftrightarrow> eg_nr g = 0"
proof -
  have "es_used (eg_entries g) = [] \<longleftrightarrow> eg_entries g = []"
    using assms(2) pe_shape_used by (cases "eg_entries g") auto
  then show ?thesis using assms(1) length_eg_entries[OF assms(1)] by (auto simp: eg_ok_def)
qed

lemma lt_adjust_all_own:
  assumes "es_own m (E @ lt_entries gs) xss" "\<forall>g \<in> set gs. eg_ok g" "[] \<notin> set xss"
  shows "\<exists>gs'. lt_adjust_all m gs = Some gs' \<and> es_own m (E @ lt_entries gs') xss \<and> (\<forall>g \<in> set gs'. eg_ok g) \<and>
    map eg_nr gs' = map eg_nr gs \<and> length gs' = length gs"
  using assms(1,2)
proof (induction gs arbitrary: E)
  case (Cons g gs)
  have own: "es_own m (E @ eg_entries g @ lt_entries gs) xss" using Cons.prems(1) by simp
  have ok: "eg_ok g" using Cons.prems(2) by simp
  have sh: "\<forall>e \<in> set (eg_entries g). pe_shape e" using own by (simp add: es_own_def)
  obtain g1 where G: "(if eg_next g = 0 then Some g else eg_adjust m g) = Some g1"
    "es_own m (E @ eg_entries g1 @ lt_entries gs) xss" "eg_ok g1" "eg_nr g1 = eg_nr g"
  proof (cases "eg_next g = 0")
    case True
    then show thesis using that[of g] own ok by simp
  next
    case False
    then have "0 < eg_nr g" using eg_next_nr[OF ok sh] by simp
    then obtain g1 where "eg_adjust m g = Some g1" "es_own m (E @ eg_entries g1 @ lt_entries gs) xss" "eg_ok g1" "eg_nr g1 = eg_nr g"
      by (rule eg_adjust_own[OF own ok _ assms(3)])
    then show thesis using that[of g1] False by simp
  qed
  have "es_own m ((E @ eg_entries g1) @ lt_entries gs) xss" using G(2) by simp
  from Cons.IH[OF this] obtain gs' where R: "lt_adjust_all m gs = Some gs'" "es_own m (E @ eg_entries g1 @ lt_entries gs') xss"
    "\<forall>g \<in> set gs'. eg_ok g" "map eg_nr gs' = map eg_nr gs" "length gs' = length gs" using Cons.prems(2) by auto
  then show ?case using G by simp
qed simp

lemma placed_grp:
  assumes "length gs = n" "\<forall>i < n. eg_nr (gs ! i) \<noteq> 0 \<longrightarrow> grp f n (eg_first (gs ! i)) = i"
  shows "placed f gs"
  unfolding placed_def
proof (intro allI impI)
  fix i assume i: "i < length gs" "eg_nr (gs ! i) \<noteq> 0"
  then have g: "nat (clip (line_group (f (eg_first (gs ! i)))) (length gs)) = i" using assms by (simp add: grp_def)
  have "0 < length gs" using i(1) by linarith
  then have "0 \<le> clip (line_group (f (eg_first (gs ! i)))) (length gs)" using clip_range by simp
  then show "int i \<le> clip (line_group (f (eg_first (gs ! i)))) (length gs)" using g by linarith
qed

lemma es_pairs_sorted:
  assumes "es_own m es xss"
  shows "sorted_wrt (<) (map pe_key (es_pairs es))"
proof -
  have U: "used_ok m (map (\<lambda>x. (pe_key x, pe_ptr x)) (es_pairs es)) xss" using assms by (simp add: es_own_def es_used_pairs)
  have "pe_key (es_pairs es ! i) < pe_key (es_pairs es ! j)" if "i < j" "j < length (es_pairs es)" for i j
    using used_okD(4)[OF U that(1)] that by simp
  then show ?thesis by (simp add: sorted_wrt_iff_nth_less)
qed

lemma sorted_grp: "line_mono B f \<Longrightarrow> sorted ks \<Longrightarrow> \<forall>k \<in> set ks. k \<le> B \<Longrightarrow> sorted (map (grp f n) ks)"
  by (induction ks) (auto intro: grp_mono)

text \<open>The groups after the distribution of the pairs, before and after the fitting of their models.\<close>

lemma lt_distribute:
  assumes "0 < n" "line_mono B f" "sorted (map pe_key ps)" "\<forall>x \<in> set ps. pe_key x \<le> B"
  obtains gs1 gs3 gs4 where "lt_count f (map pe_key ps) (replicate n eg_zero) = Some gs1"
    "lt_append_all f ps (map (\<lambda>g. if eg_next g = 0 then g else eg_reserve g) gs1) = Some gs3"
    "lt_retrain_all fp gs3 = Some gs4" "length gs4 = n" "lt_entries gs4 = map pb_of_entry ps" "\<forall>g \<in> set gs4. eg_ok g"
    "placed f gs4" "\<forall>i < n. \<forall>e \<in> set (eg_entries (gs4 ! i)). pb_nr e = 1 \<and> grp f n (entry_key_of e) = i"
proof -
  let ?h = "\<lambda>x. grp f n (pe_key x)"
  let ?F = "\<lambda>i. filter (\<lambda>x. ?h x = i) ps"
  let ?c = "\<lambda>i. length (?F i)"
  let ?gs1 = "map (\<lambda>i. eg_zero\<lparr>eg_next := ?c i\<rparr>) [0..<n]"
  have c: "length (filter (\<lambda>k. grp f n k = i) (map pe_key ps)) = ?c i" for i by (simp add: filter_map comp_def)
  have C: "lt_count f (map pe_key ps) (replicate n eg_zero) = Some ?gs1"
    unfolding lt_count_spec[OF assms(1) length_replicate] c by (simp add: eg_zero_def)
  have M: "map (\<lambda>g. if eg_next g = 0 then g else eg_reserve g) ?gs1 =
      map (\<lambda>i. grp_state (?c i) (filter (\<lambda>x. ?h x = i) [])) [0..<n]"
    unfolding map_map comp_def filter.simps grp_state_empty[symmetric] by (rule map_cong) auto
  have A: "lt_append_all f ps (map (\<lambda>g. if eg_next g = 0 then g else eg_reserve g) ?gs1) =
      Some (map (\<lambda>i. grp_state (?c i) (?F i)) [0..<n])"
    unfolding M by (rule lt_append_all_spec[OF assms(1), of ?c f "[]" ps, unfolded append_Nil]) simp
  let ?gs3 = "map (\<lambda>i. grp_state (?c i) (?F i)) [0..<n]"
  have "\<forall>g \<in> set ?gs3. eg_nr g = eg_next g \<and> length (eg_space g) = eg_nr g" by (auto simp: grp_state_def)
  from lt_retrain_all_spec[OF this, of fp] obtain gs4 where R: "lt_retrain_all fp ?gs3 = Some gs4"
    "list_all2 (\<lambda>g g'. eg_nr g' = eg_nr g \<and> eg_next g' = eg_next g \<and> eg_space g' = eg_space g) ?gs3 gs4"
    by (elim exE conjE) (rule that)
  have l: "length gs4 = n" using list_all2_lengthD[OF R(2)] by simp
  have g: "eg_nr (gs4 ! i) = ?c i" "eg_next (gs4 ! i) = ?c i" "eg_space (gs4 ! i) = map pb_of_entry (?F i)" if "i < n" for i
    using list_all2_nthD[OF R(2), of i] that by (simp_all add: grp_state_def)
  have e: "eg_entries (gs4 ! i) = map pb_of_entry (?F i)" if "i < n" for i using g[OF that] by (simp add: eg_entries_def)
  have s: "sorted (map ?h ps)" using sorted_grp[OF assms(2,3), of n] assms(4) by (simp add: comp_def)
  have "map eg_entries gs4 = map (\<lambda>i. map pb_of_entry (?F i)) [0..<n]" by (rule nth_list_ext) (simp_all add: l e)
  then have "lt_entries gs4 = map pb_of_entry (concat (map ?F [0..<n]))" by (simp add: lt_entries_def map_concat comp_def)
  also have "concat (map ?F [0..<n]) = ps" by (rule slices[OF s]) (simp add: grp_less[OF assms(1)])
  finally have en: "lt_entries gs4 = map pb_of_entry ps" .
  have "eg_ok (gs4 ! i)" if "i < n" for i using g[OF that] e[OF that] by (simp add: eg_ok_def es_used_singles)
  then have ok: "\<forall>g \<in> set gs4. eg_ok g" using l by (metis in_set_conv_nth)
  have "placed f gs4"
  proof (rule placed_grp[OF l], intro allI impI)
    fix i assume i: "i < n" "eg_nr (gs4 ! i) \<noteq> 0"
    then obtain x xs where x: "?F i = x # xs" using g(1)[OF i(1)] by (cases "?F i") auto
    then have "x \<in> set (?F i)" by (metis list.set_intros(1))
    then have "?h x = i" by simp
    moreover have "eg_first (gs4 ! i) = pe_key x" unfolding eg_first_def g(3)[OF i(1)] x by (simp add: pb_of_entry_shape)
    ultimately show "grp f n (eg_first (gs4 ! i)) = i" by simp
  qed
  moreover have "\<forall>i < n. \<forall>y \<in> set (eg_entries (gs4 ! i)). pb_nr y = 1 \<and> grp f n (entry_key_of y) = i"
    using e by (auto simp: pb_of_entry_shape)
  ultimately show thesis using that[OF C A R(1) l en ok] by simp
qed

lemma lt_own_shapes: "lt_own B t xss \<Longrightarrow> \<forall>e \<in> set (lt_entries (lt_groups t)). pe_shape e"
  by (simp add: lt_own_def es_own_def)

lemma lt_entries_live:
  assumes "\<forall>g \<in> set gs. eg_ok g" "\<forall>e \<in> set (lt_entries gs). pe_shape e"
  shows "lt_entries (filter (\<lambda>g. eg_next g \<noteq> 0) gs) = lt_entries gs"
  using assms
proof (induction gs)
  case (Cons g gs)
  have "eg_entries g = []" if "eg_next g = 0" using eg_next_nr[of g] Cons.prems that by (simp add: eg_entries_def)
  then show ?case using Cons by auto
qed simp

lemma lt_expand_own:
  assumes "lt_own B t xss" "fp_ok fp" "lines_fit fp B"
  obtains t' where "lt_expand fp t = Some t'" "lt_own B t' xss" "lt_mem t' = lt_mem t"
    "\<forall>i < length (lt_groups t'). \<forall>e \<in> set (eg_entries (lt_groups t' ! i)). pb_nr e = 1 \<and> lt_group_of t' (entry_key_of e) = int i"
proof -
  have T: "lt_nr t = length (lt_groups t)" "es_own (lt_mem t) ([] @ lt_entries (lt_groups t)) xss" "\<forall>g \<in> set (lt_groups t). eg_ok g"
    "\<exists>g \<in> set (lt_groups t). eg_nr g \<noteq> 0" "[] \<notin> set xss" "keys_of xss \<subseteq> {..B}" using assms(1) by (simp_all add: lt_own_def)
  from lt_adjust_all_own[OF T(2,3,5)] obtain gs where G: "lt_adjust_all (lt_mem t) (lt_groups t) = Some gs"
    "es_own (lt_mem t) (lt_entries gs) xss" "\<forall>g \<in> set gs. eg_ok g" "map eg_nr gs = map eg_nr (lt_groups t)" "length gs = length (lt_groups t)"
    by auto
  have sh: "\<forall>e \<in> set (lt_entries gs). pe_shape e" using G(2) by (simp add: es_own_def)
  let ?ps = "es_pairs (lt_entries gs)"
  have W: "concat (map (\<lambda>g. ge_walk g (0, 0)) gs) = ?ps" by (rule lt_walk_pairs[OF G(3) sh])
  have "set (map eg_nr gs) = set (map eg_nr (lt_groups t))" using G(4) by simp
  then obtain g where g: "g \<in> set gs" "eg_nr g \<noteq> 0" using T(4) by (metis (mono_tags, lifting) image_iff list.set_map)
  then obtain a b where ab: "gs = a @ g # b" by (metis split_list)
  have shg: "\<forall>e \<in> set (eg_entries g). pe_shape e" using sh unfolding ab by simp
  have nx: "eg_next g \<noteq> 0" using eg_next_nr[OF _ shg] g G(3) by blast
  let ?live = "filter (\<lambda>g. eg_next g \<noteq> 0) gs"
  let ?cnt = "sum_list (map eg_next ?live)"
  let ?n = "(?cnt + min_group_entries - 1) div min_group_entries"
  have "eg_next g \<le> ?cnt" using g(1) nx by (intro member_le_sum_list) auto
  then have n: "0 < ?n" using nx by (simp add: min_group_entries_def div_greater_zero_iff)
  let ?f = "lm_predict fp (rb_fit fp (map pe_key (concat (map (\<lambda>g. ge_walk g (0, 0)) ?live))))"
  have le: "lt_entries ?live = lt_entries gs" by (rule lt_entries_live[OF G(3) sh])
  have "concat (map (\<lambda>g. ge_walk g (0, 0)) ?live) = ?ps"
    unfolding le[symmetric] by (rule lt_walk_pairs) (use G(3) in simp, use sh in \<open>simp only: le\<close>)
  then have WL: "map pe_key (concat (map (\<lambda>g. ge_walk g (0, 0)) ?live)) = map pe_key ?ps" by simp
  note so = es_pairs_sorted[OF G(2)]
  have kb: "\<forall>x \<in> set ?ps. pe_key x \<le> B"
  proof
    fix x assume "x \<in> set ?ps"
    then have "(pe_key x, pe_ptr x) \<in> set (es_used (lt_entries gs))" by (simp add: es_used_pairs)
    then show "pe_key x \<le> B" using es_key_bound(1)[OF G(2) T(5,6)] by fastforce
  qed
  have f: "line_mono B ?f" unfolding WL rb_fit_init using kb by (intro line_mono_fit[OF assms(2,3) so]) simp
  have so': "sorted (map pe_key ?ps)" using so by (rule strict_sorted_imp_sorted)
  obtain gs1 gs3 gs4 where D: "lt_count ?f (map pe_key ?ps) (replicate ?n eg_zero) = Some gs1"
    "lt_append_all ?f ?ps (map (\<lambda>g. if eg_next g = 0 then g else eg_reserve g) gs1) = Some gs3"
    "lt_retrain_all fp gs3 = Some gs4" "length gs4 = ?n" "lt_entries gs4 = map pb_of_entry ?ps" "\<forall>g \<in> set gs4. eg_ok g"
    "placed ?f gs4" "\<forall>i < ?n. \<forall>e \<in> set (eg_entries (gs4 ! i)). pb_nr e = 1 \<and> grp ?f ?n (entry_key_of e) = i"
    by (rule lt_distribute[OF n f so' kb])
  let ?t = "t\<lparr>lt_groups := gs4, lt_nr := ?n, lt_model := ?f\<rparr>"
  have X: "lt_expand fp t = Some ?t" using G(1) D(1-3) T(1) by (simp add: lt_expand_def Let_def W)
  have own: "es_own (lt_mem t) (lt_entries gs4) xss" using es_own_singles[of _ "[]" _ "[]"] G(2) unfolding D(5) by simp
  have "lt_entries gs4 \<noteq> []"
  proof
    assume "lt_entries gs4 = []"
    then have "es_used (eg_entries g) = []" using D(5) es_used_pairs[of "lt_entries gs"] unfolding ab by simp
    then show False using nx g(1) G(3) by (auto simp: eg_ok_def)
  qed
  then have lv: "\<exists>g \<in> set gs4. eg_nr g \<noteq> 0" using lt_entries_empty by blast
  have "lt_own B ?t xss" using own D(4,6,7) f lv T(5,6) by (simp add: lt_own_def)
  moreover have "\<forall>i < length (lt_groups ?t). \<forall>e \<in> set (eg_entries (lt_groups ?t ! i)). pb_nr e = 1 \<and> lt_group_of ?t (entry_key_of e) = int i"
    using D(4,8) grp_int[OF n, of ?f] by (simp add: lt_group_of_def)
  ultimately show thesis using that[OF X] by simp
qed

subsection \<open>Insertion\<close>

lemma lt_own_expands [simp]: "lt_own B (t\<lparr>lt_expands := n\<rparr>) xss = lt_own B t xss"
  by (simp add: lt_own_def)

text \<open>The group of the key takes the place of the old one.\<close>

lemma lt_set_group_own:
  assumes "lt_own B t xss" "group_pos (lt_groups t) k i"
    "es_own m (lt_entries (take i (lt_groups t)) @ eg_entries g @ lt_entries (drop (Suc i) (lt_groups t))) xss'" "eg_ok g" "0 < eg_nr g"
    "[] \<notin> set xss'" "min k (eg_first (lt_groups t ! i)) \<le> eg_first g" "keys_of xss' \<subseteq> {..B}"
  shows "lt_own B (lt_set_group t i m g) xss'"
proof -
  let ?gs = "lt_groups t"
  have i: "i < length ?gs" "eg_nr (?gs ! i) \<noteq> 0" "(\<forall>h < i. eg_nr (?gs ! h) = 0) \<or> eg_first (?gs ! i) \<le> k"
    using assms(2) by (simp_all add: group_pos_def)
  have T: "lt_nr t = length ?gs" "\<forall>g \<in> set ?gs. eg_ok g" "line_mono B (lt_model t)" "placed (lt_model t) ?gs"
    using assms(1) by (simp_all add: lt_own_def)
  have "eg_entries g ! 0 \<in> set (eg_entries g)" using length_eg_entries[OF assms(4)] assms(5) by simp
  then have fb: "eg_first g \<le> B" using es_key_bound(2)[OF assms(3,6,8)] eg_first_nth[OF assms(5)] by simp
  let ?p = "\<lambda>g. clip (line_group (lt_model t (eg_first g))) (length ?gs)"
  have nr: "(eg_nr (?gs[i := g] ! h) \<noteq> 0) = (eg_nr (?gs ! h) \<noteq> 0)" for h
    using i assms(5) by (cases "h = i") simp_all
  have "placed (lt_model t) (?gs[i := g])"
    unfolding placed_def
  proof (intro allI impI)
    fix j assume j: "j < length (?gs[i := g])" "eg_nr (?gs[i := g] ! j) \<noteq> 0" "\<exists>h < j. eg_nr (?gs[i := g] ! h) \<noteq> 0"
    have j': "j < length ?gs" "eg_nr (?gs ! j) \<noteq> 0" "\<exists>h < j. eg_nr (?gs ! h) \<noteq> 0" using j unfolding nr by simp_all
    have P: "int j \<le> ?p (?gs ! j)" using T(4) j' unfolding placed_def by blast
    show "int j \<le> clip (line_group (lt_model t (eg_first (?gs[i := g] ! j)))) (length (?gs[i := g]))"
    proof (cases "j = i")
      case False
      then show ?thesis using P by simp
    next
      case True
      then have "eg_first (?gs ! i) \<le> k" using i(3) j'(3) by auto
      then have "eg_first (?gs ! i) \<le> eg_first g" using assms(7) by (simp add: min_absorb2)
      then have "?p (?gs ! i) \<le> ?p g" by (rule group_mono[OF T(3) _ fb])
      then show ?thesis using P True i(1) by simp
    qed
  qed
  moreover have "\<forall>g' \<in> set (?gs[i := g]). eg_ok g'" using T(2) assms(4) set_update_subset_insert[of ?gs i g] by blast
  moreover have "\<exists>g' \<in> set (?gs[i := g]). eg_nr g' \<noteq> 0"
    using set_update_memI[OF i(1), of g] assms(5) by (intro bexI[of _ g]) simp_all
  moreover have "es_own m (lt_entries (?gs[i := g])) xss'" using assms(3) unfolding lt_entries_update[OF i(1)] .
  ultimately show ?thesis using T assms(6,8) by (simp add: lt_own_def lt_set_group_def)
qed

lemma lt_put_round:
  assumes "lt_own B t xss" "k \<noteq> 0" "map_of (concat xss) k = None" "sm_cur (lt_mem t) + sk_size < sm_end (lt_mem t)" "k \<le> B"
  obtains i m1 g1 ret xss1 where "lt_find_group t k = Some i" "eg_put 2 fp (lt_mem t) (lt_groups t ! i) k v = Some (m1, g1, ret)"
    "lt_own B (lt_set_group t i m1 g1) xss1" "sm_cur m1 \<le> sm_cur (lt_mem t) + sk_size" "sm_end m1 = sm_end (lt_mem t)"
    "ret = OK \<and> map_of (concat xss1) = (map_of (concat xss))(k \<mapsto> v) \<or> ret = Full \<and> m1 = lt_mem t \<and> xss1 = xss"
    "ret = Full \<longrightarrow> \<not> (\<forall>e \<in> set (lt_entries (lt_groups t)). pb_nr e = 1)"
proof -
  obtain i where i: "lt_find_group t k = Some i" "group_pos (lt_groups t) k i" using lt_find_group_pos[OF assms(1,5)] .
  note S = group_pos_sides[OF assms(1) i(2)]
  have ne: "[] \<notin> set xss" using assms(1) by (simp add: lt_own_def)
  obtain m' g' ret xss' where P: "eg_put (Suc (Suc 0)) fp (lt_mem t) (lt_groups t ! i) k v = Some (m', g', ret)"
    "es_own m' (lt_entries (take i (lt_groups t)) @ eg_entries g' @ lt_entries (drop (Suc i) (lt_groups t))) xss'"
    "eg_ok g'" "0 < eg_nr g'" "sm_cur m' \<le> sm_cur (lt_mem t) + sk_size" "sm_end m' = sm_end (lt_mem t)" "[] \<notin> set xss'"
    "min k (eg_first (lt_groups t ! i)) \<le> eg_first g'"
    "ret = OK \<and> map_of (concat xss') = (map_of (concat xss))(k \<mapsto> v) \<or>
     ret = Full \<and> max_group_entries < eg_next (lt_groups t ! i) \<and> g' = lt_groups t ! i \<and> m' = lt_mem t \<and> xss' = xss"
    "ret = Full \<longrightarrow> \<not> (\<forall>e \<in> set (eg_entries (lt_groups t ! i)). pb_nr e = 1)"
    by (rule eg_put_own[OF S(1,4,5,2,3) assms(2-4) ne, of 0 fp v]) (rule that; assumption)
  have kb: "keys_of xss' \<subseteq> {..B}" using P(9)
  proof
    assume "ret = OK \<and> map_of (concat xss') = (map_of (concat xss))(k \<mapsto> v)"
    then have "keys_of xss' = insert k (keys_of xss)" by (simp add: keys_of_dom)
    then show ?thesis using assms(1,5) by (simp add: lt_own_def)
  qed (use assms(1) in \<open>simp add: lt_own_def\<close>)
  have own: "lt_own B (lt_set_group t i m' g') xss'" by (rule lt_set_group_own[OF assms(1) i(2) P(2,3,4,7,8) kb])
  have d: "ret = OK \<and> map_of (concat xss') = (map_of (concat xss))(k \<mapsto> v) \<or> ret = Full \<and> m' = lt_mem t \<and> xss' = xss"
    using P(9) by blast
  have il: "i < length (lt_groups t)" using i(2) by (simp add: group_pos_def)
  have "set (eg_entries (lt_groups t ! i)) \<subseteq> set (lt_entries (lt_groups t))" unfolding lt_entries_at[OF il] by auto
  then have f: "ret = Full \<longrightarrow> \<not> (\<forall>e \<in> set (lt_entries (lt_groups t)). pb_nr e = 1)" using P(10) by blast
  have two: "Suc (Suc 0) = (2 :: nat)" by simp
  show thesis by (rule that[OF i(1) P(1)[unfolded two] own P(5,6) d f])
qed

lemma lt_put_own:
  assumes "lt_own B t xss" "k \<noteq> 0" "map_of (concat xss) k = None" "sm_cur (lt_mem t) + sk_size < sm_end (lt_mem t)" "k \<le> B"
    "fp_ok fp" "lines_fit fp B"
  obtains t' xss' where "lt_put (Suc (Suc f)) fp t k v = Some (t', OK)" "lt_own B t' xss'"
    "map_of (concat xss') = (map_of (concat xss))(k \<mapsto> v)" "sm_cur (lt_mem t') \<le> sm_cur (lt_mem t) + sk_size"
    "sm_end (lt_mem t') = sm_end (lt_mem t)"
proof -
  obtain i m1 g1 ret xss1 where R: "lt_find_group t k = Some i" "eg_put 2 fp (lt_mem t) (lt_groups t ! i) k v = Some (m1, g1, ret)"
    "lt_own B (lt_set_group t i m1 g1) xss1" "sm_cur m1 \<le> sm_cur (lt_mem t) + sk_size" "sm_end m1 = sm_end (lt_mem t)"
    "ret = OK \<and> map_of (concat xss1) = (map_of (concat xss))(k \<mapsto> v) \<or> ret = Full \<and> m1 = lt_mem t \<and> xss1 = xss"
    "ret = Full \<longrightarrow> \<not> (\<forall>e \<in> set (lt_entries (lt_groups t)). pb_nr e = 1)"
    by (rule lt_put_round[OF assms(1-5), of fp v]) (rule that; assumption)
  have mem: "lt_mem (lt_set_group t i m g) = m" for t i m g by (simp add: lt_set_group_def)
  show thesis
  proof (cases "ret = OK")
    case True
    then have "lt_put (Suc (Suc f)) fp t k v = Some (lt_set_group t i m1 g1, OK)" using R(1,2) by (simp add: Let_def del: eg_put.simps)
    then show thesis using that[OF _ R(3)] True R(4-6) by (simp add: mem)
  next
    case False
    then have F: "ret = Full" "m1 = lt_mem t" "xss1 = xss" using R(6) by auto
    let ?t1 = "(lt_set_group t i m1 g1)\<lparr>lt_expands := lt_expands (lt_set_group t i m1 g1) + 1\<rparr>"
    have "lt_own B ?t1 xss" using R(3) F(3) by simp
    then obtain t2 where X: "lt_expand fp ?t1 = Some t2" "lt_own B t2 xss" "lt_mem t2 = lt_mem ?t1"
      "\<forall>i < length (lt_groups t2). \<forall>e \<in> set (eg_entries (lt_groups t2 ! i)). pb_nr e = 1 \<and> lt_group_of t2 (entry_key_of e) = int i"
      by (rule lt_expand_own[OF _ assms(6,7)])
    have one: "\<forall>e \<in> set (lt_entries (lt_groups t2)). pb_nr e = 1"
    proof
      fix e assume "e \<in> set (lt_entries (lt_groups t2))"
      then obtain g where "g \<in> set (lt_groups t2)" "e \<in> set (eg_entries g)" by (auto simp: lt_entries_def)
      then obtain i where "i < length (lt_groups t2)" "e \<in> set (eg_entries (lt_groups t2 ! i))" by (auto simp: in_set_conv_nth)
      then show "pb_nr e = 1" using X(4) by blast
    qed
    have m2: "lt_mem t2 = lt_mem t" using X(3) F(2) by (simp add: mem)
    have sp: "sm_cur (lt_mem t2) + sk_size < sm_end (lt_mem t2)" using assms(4) m2 by simp
    obtain j m3 g3 ret3 xss3 where S: "lt_find_group t2 k = Some j" "eg_put 2 fp (lt_mem t2) (lt_groups t2 ! j) k v = Some (m3, g3, ret3)"
      "lt_own B (lt_set_group t2 j m3 g3) xss3" "sm_cur m3 \<le> sm_cur (lt_mem t2) + sk_size" "sm_end m3 = sm_end (lt_mem t2)"
      "ret3 = OK \<and> map_of (concat xss3) = (map_of (concat xss))(k \<mapsto> v) \<or> ret3 = Full \<and> m3 = lt_mem t2 \<and> xss3 = xss"
      "ret3 = Full \<longrightarrow> \<not> (\<forall>e \<in> set (lt_entries (lt_groups t2)). pb_nr e = 1)"
      by (rule lt_put_round[OF X(2) assms(2,3) sp assms(5), of fp v]) (rule that; assumption)
    have ok: "ret3 = OK" "map_of (concat xss3) = (map_of (concat xss))(k \<mapsto> v)" using S(6,7) one by blast+
    have "lt_put (Suc f) fp t2 k v = Some (lt_set_group t2 j m3 g3, OK)" using S(1,2) ok(1) by (simp add: Let_def del: eg_put.simps)
    then have "lt_put (Suc (Suc f)) fp t k v = Some (lt_set_group t2 j m3 g3, OK)"
      using R(1,2) F(1) X(1) unfolding lt_put.simps(2)[of "Suc f"] by (simp add: Let_def del: eg_put.simps lt_put.simps)
    then show thesis using that[OF _ S(3)] ok(2) S(4,5) m2 by (simp add: mem)
  qed
qed

subsection \<open>Lookup and update\<close>

lemma lt_mid:
  assumes "lt_own B t xss" "i < length (lt_groups t)"
  obtains xa xg xc where "xss = xa @ xg @ xc" "es_own (lt_mem t) ([] @ eg_entries (lt_groups t ! i) @ []) xg"
proof -
  have "es_own (lt_mem t) (lt_entries (take i (lt_groups t)) @ eg_entries (lt_groups t ! i) @ lt_entries (drop (Suc i) (lt_groups t))) xss"
    using assms lt_entries_at[OF assms(2)] by (simp add: lt_own_def)
  then show thesis by (rule es_own_middle) (rule that, simp_all)
qed

lemma eg_get_own:
  assumes "es_own m (E @ eg_entries g @ F) xss" "eg_ok g" "0 < eg_nr g" "es_above E xss k" "\<forall>e \<in> set F. k < entry_key_of e" "k \<noteq> 0"
  shows "eg_get m g k = Some (case map_of (concat xss) k of None \<Rightarrow> None | Some v \<Rightarrow> if v = 0 then None else Some v)"
proof -
  note P = eg_find_pos[OF assms(1-5)]
  show ?thesis using P(3) es_get[OF assms(1) P(1) assms(6)] by (simp add: eg_get_def)
qed

lemma lt_live_group: "lt_own B t xss \<Longrightarrow> 0 < length (lt_groups t) \<and> lt_nr t = length (lt_groups t)"
  by (auto simp: lt_own_def)

lemma lt_group_lookup:
  assumes "lt_own B t xss" "i < length (lt_groups t)" "0 < eg_nr (lt_groups t ! i)" "k \<noteq> 0"
    "eg_get (lt_mem t) (lt_groups t ! i) k = Some (Some v)"
  shows "map_of (concat xss) k = Some v"
proof -
  let ?g = "lt_groups t ! i"
  have "es_own (lt_mem t) (lt_entries (take i (lt_groups t)) @ eg_entries ?g @ lt_entries (drop (Suc i) (lt_groups t))) xss"
    using assms(1) lt_entries_at[OF assms(2)] by (simp add: lt_own_def)
  then obtain xa xg xc where x: "xss = xa @ xg @ xc" "length xa = length (es_used (lt_entries (take i (lt_groups t))))"
    "length xg = length (es_used (eg_entries ?g))" "es_own (lt_mem t) (eg_entries ?g) xg"
    "used_ok (lt_mem t) (es_used (lt_entries (take i (lt_groups t))) @ es_used (eg_entries ?g) @
       es_used (lt_entries (drop (Suc i) (lt_groups t)))) (xa @ xg @ xc)"
    by (rule es_own_middle) (rule that; assumption)
  have ok: "eg_ok ?g" using assms(1,2) by (simp add: lt_own_def)
  have "es_own (lt_mem t) ([] @ eg_entries ?g @ []) xg" using x(4) by simp
  from eg_get_own[OF this ok assms(3) _ _ assms(4)] assms(5) have v: "map_of (concat xg) k = Some v"
    by (simp split: option.splits if_splits)
  then have kg: "k \<in> keys_of xg" by (force simp: keys_of_def dest: map_of_SomeD)
  have U: "\<forall>x \<in> keys_of xa. \<forall>q \<in> set (es_used (eg_entries ?g)). x < fst q" using x(5) unfolding used_ok_append[OF x(2)] by auto
  have ug: "used_ok (lt_mem t) (es_used (eg_entries ?g)) xg" using x(4) by (simp add: es_own_def)
  have ne: "es_used (eg_entries ?g) \<noteq> []" using kg x(3) by (auto simp: keys_of_def)
  have "fst (hd (es_used (eg_entries ?g))) \<le> k" using used_ok_lower_bound(2)[OF ug ne] kg by blast
  then have "k \<notin> keys_of xa" using U hd_in_set[OF ne] by (meson leD)
  then have "map_of (concat xa) k = None" by (force simp: keys_of_def map_of_eq_None_iff)
  then show ?thesis unfolding x(1) using v by (simp add: map_add_def)
qed

lemma lt_get_own:
  assumes "lt_own B t xss" "k \<noteq> 0" "k \<le> B"
  shows "lt_get t k = Some (case map_of (concat xss) k of None \<Rightarrow> None | Some v \<Rightarrow> if v = 0 then None else Some v)"
proof -
  note n = lt_live_group[OF assms(1)]
  let ?i = "lt_group_of t k"
  have i: "0 \<le> ?i" "nat ?i < length (lt_groups t)" using clip_range n by (simp_all add: lt_group_of_def nat_less_iff)
  let ?g = "lt_groups t ! nat ?i"
  have F: "lt_find_fast t k = eg_fast_get (lt_mem t) ?g k" using i by (simp add: lt_find_fast_def)
  obtain j where j: "lt_find_group t k = Some j" "group_pos (lt_groups t) k j" using lt_find_group_pos[OF assms(1,3)] .
  note S = group_pos_sides[OF assms(1) j(2)]
  have slow: "lt_find_slow t k = Some (case map_of (concat xss) k of None \<Rightarrow> None | Some v \<Rightarrow> if v = 0 then None else Some v)"
    using eg_get_own[OF S(1,4,5,2,3) assms(2)] j(1) by (simp add: lt_find_slow_def)
  show ?thesis
  proof (cases "eg_nr ?g = 0 \<or> k < eg_min ?g")
    case True
    then have "lt_find_fast t k = Some None" using F by (simp add: eg_fast_get_def)
    then show ?thesis using slow by (simp add: lt_get_def)
  next
    case False
    have ok: "eg_ok ?g" using assms(1) i(2) by (simp add: lt_own_def)
    have nz: "0 < eg_nr ?g" using False by simp
    obtain xa xg xc where x: "es_own (lt_mem t) ([] @ eg_entries ?g @ []) xg" using lt_mid[OF assms(1) i(2)] .
    obtain r where r: "eg_get (lt_mem t) ?g k = Some r" using eg_get_own[OF x ok nz _ _ assms(2)] by simp
    then have f: "lt_find_fast t k = Some r" using F False by (simp add: eg_fast_get_def)
    show ?thesis
    proof (cases r)
      case None
      then show ?thesis using f slow by (simp add: lt_get_def)
    next
      case (Some v)
      then have v: "map_of (concat xss) k = Some v" using lt_group_lookup[OF assms(1) i(2) nz assms(2)] r by simp
      have "v \<noteq> 0" using r Some eg_get_own[OF x ok nz _ _ assms(2)] by (auto split: option.splits if_splits)
      then show ?thesis using f Some v by (simp add: lt_get_def)
    qed
  qed
qed

lemma lt_update_own:
  assumes "lt_own B t xss" "map_of (concat xss) k = Some w" "w \<noteq> 0" "k \<le> B"
  obtains t' xss' where "lt_update t k v = Some (t', True)" "lt_own B t' xss'" "map_of (concat xss') = (map_of (concat xss))(k \<mapsto> v)"
    "sm_cur (lt_mem t') = sm_cur (lt_mem t)" "sm_end (lt_mem t') = sm_end (lt_mem t)"
proof -
  obtain i where i: "lt_find_group t k = Some i" "group_pos (lt_groups t) k i" using lt_find_group_pos[OF assms(1,4)] .
  note S = group_pos_sides[OF assms(1) i(2)]
  note P = eg_find_pos[OF S(1,4,5,2,3)]
  have il: "i < length (lt_groups t)" using i(2) by (simp add: group_pos_def)
  let ?es = "lt_entries (take i (lt_groups t)) @ eg_entries (lt_groups t ! i) @ lt_entries (drop (Suc i) (lt_groups t))"
  let ?e = "?es ! (length (lt_entries (take i (lt_groups t))) + eg_find (lt_groups t ! i) k)"
  obtain m' xss' where U: "pb_update (lt_mem t) ?e k v = Some (m', True)" "es_own m' ?es xss'"
    "sm_cur m' = sm_cur (lt_mem t)" "sm_end m' = sm_end (lt_mem t)" "[] \<notin> set xss \<longrightarrow> [] \<notin> set xss'"
    "map_of (concat xss') = (map_of (concat xss))(k \<mapsto> v)"
    by (rule es_update[OF S(1) P(1) assms(2,3), of v]) (rule that; assumption)
  have kk: "keys_of xss' = insert k (keys_of xss)" by (simp add: keys_of_dom U(6))
  have "lt_update t k v = Some (t\<lparr>lt_mem := m'\<rparr>, True)" using i(1) P(3) U(1) by (simp add: lt_update_def eg_update_def)
  moreover have "lt_own B (t\<lparr>lt_mem := m'\<rparr>) xss'" using assms(1,4) U(2,5) kk lt_entries_at[OF il] by (simp add: lt_own_def)
  ultimately show thesis using that U(3,4,6) by simp
qed

lemma lt_update_absent:
  assumes "lt_own B t xss" "map_of (concat xss) k = None" "k \<le> B"
  shows "lt_update t k v = Some (t, False)"
proof -
  obtain i where i: "lt_find_group t k = Some i" "group_pos (lt_groups t) k i" using lt_find_group_pos[OF assms(1,3)] .
  note S = group_pos_sides[OF assms(1) i(2)]
  note P = eg_find_pos[OF S(1,4,5,2,3)]
  show ?thesis using i(1) P(3) es_update_absent[OF S(1) P(1) assms(2)] by (simp add: lt_update_def eg_update_def)
qed


subsection \<open>Bulk loading\<close>

lemma pb_new_put_own:
  assumes "es_own m E xss" "k \<noteq> 0" "\<forall>q \<in> set (es_used E). fst q < k" "\<forall>y \<in> keys_of xss. y < k" "sm_cur m + sk_size < sm_end m"
  obtains m' e where "pb_new_put m k v 0 = Some (m', e)" "es_own m' (E @ [e]) (xss @ [[(k, v)]])" "pb_used e = [(k, sm_cur m)]"
    "entry_key_of e = k" "pb_nr e = 1" "sm_cur m' = sm_cur m + sk_size" "sm_end m' = sm_end m"
proof -
  let ?a = "sm_cur m" and ?b = "sk_new (sm_raw m (sm_cur m))"
  have ok: "sm_ok m" "\<forall>e \<in> set E. pe_shape e" "used_ok m (es_used E) xss" using assms(1) by (simp_all add: es_own_def)
  have b: "sk_wf ?b" "sk_items ?b = []" using sk_new_wf ok(1) by (auto simp: sm_ok_def)
  have l: "sk_last ?b = 0" using length_sk_items[OF b(1)] b(2) by simp
  have en: "sk_entries ?b < sk_slots" using b(1) l by (simp add: sk_wf_def sk_slots_def)
  have z: "map_of (sk_items ?b) k = None" using b(2) by simp
  obtain b' p where P: "sk_put ?b k v = Some (b', OK)" "sk_wf b'" "sk_items b' = insert_at p (k, v) (sk_items ?b)" "p \<le> sk_last ?b"
    by (rule sk_put_wf[OF b(1) en assms(2) z, of v]) (rule that; assumption)
  have it: "sk_items b' = [(k, v)]" using P(3,4) b(2) l by (simp add: insert_at_def)
  have a: "?a mod 2 ^ 48 = ?a" using assms(5) ok(1) by (simp add: sm_ok_def)
  let ?m1 = "m\<lparr>sm_cur := ?a + sk_size, sm_heap := (sm_heap m)(?a \<mapsto> ?b)\<rparr>"
  let ?m = "leaf_set ?m1 ?a b'"
  let ?e = "(replicate pb_count pe_zero)[0 := pe_setup_at ?a (pb_first k 0)]"
  have e0: "?e ! 0 = pe_setup_at ?a (pb_first k 0)" by (simp add: pb_count_def)
  have ptr: "pe_ptr (?e ! 0) = ?a" unfolding e0 using a by (simp add: pe_setup_at_def)
  have N: "pb_new m k 0 = Some (?m1, ?e)" using assms(5) by (simp add: pb_new_def pe_setup_def sk_allocate_def)
  have R: "pb_new_put m k v 0 = Some (?m, ?e)" unfolding pb_new_put_def N using ptr P(1) by simp
  have nr: "pb_nr ?e = 1" unfolding pb_nr_def e0 by (simp add: pe_setup_at_def pb_first_def)
  have "take (Suc 0) ?e = [?e ! 0]" using take_Suc_conv_app_nth[of 0 ?e] by (simp add: pb_count_def)
  then have us: "pb_used ?e = [(k, ?a)]" unfolding pb_used_def nr using ptr unfolding e0 by (simp add: pe_setup_at_def pb_first_def)
  have ek: "entry_key_of ?e = k" unfolding entry_key_of_def e0 by (simp add: pe_setup_at_def pb_first_def)
  have sh: "pe_shape ?e" unfolding pe_shape_def nr using e0 by (simp add: pb_count_def pe_valid_def pe_setup_at_def pb_first_def)
  have below: "snd q < ?a" if "q \<in> set (es_used E)" for q using used_ok_below_cur[OF ok(3) that] .
  have U: "used_ok ?m (es_used E) xss"
    by (rule used_ok_frame[OF ok(3)]) (use below in \<open>fastforce simp: leaf_set_def\<close>, simp add: leaf_set_def)
  have leaf: "sk_leaf ?m ?a [(k, v)]" using P(2) it by (simp add: sk_leaf_def leaf_set_def sk_size_def)
  have lx: "length xss = length (es_used E)" using ok(3) by (simp add: used_ok_def)
  have "used_ok ?m (es_used E @ [(k, ?a)]) (xss @ [[(k, v)]])"
    unfolding used_ok_append[OF lx] using U leaf assms(3,4) below by (fastforce simp: used_ok_Cons)
  moreover have "sm_ok ?m" using ok(1) by (simp add: sm_ok_def leaf_set_def)
  ultimately have own: "es_own ?m (E @ [?e]) (xss @ [[(k, v)]])" using ok(2) sh us by (simp add: es_own_def)
  show thesis by (rule that[OF R own us ek nr]) (simp_all add: leaf_set_def)
qed

lemma keys_of_append [simp]: "keys_of (xs @ ys) = keys_of xs \<union> keys_of ys"
  by (auto simp: keys_of_def)

lemma eg_load_pairs_own:
  assumes "es_own m E xss" "keys_sorted xs" "\<forall>x \<in> set xs. fst x \<noteq> 0"
    "\<forall>x \<in> set xs. (\<forall>q \<in> set (es_used E). fst q < fst x) \<and> (\<forall>y \<in> keys_of xss. y < fst x)" "sm_cur m + sk_size * length xs < sm_end m"
  shows "\<exists>m' es. eg_load_pairs m xs = Some (m', es) \<and> es_own m' (E @ es) (xss @ map (\<lambda>x. [x]) xs) \<and> map entry_key_of es = map fst xs \<and>
    map fst (es_used es) = map fst xs \<and> (\<forall>e \<in> set es. pb_nr e = 1) \<and> sm_cur m' = sm_cur m + sk_size * length xs \<and> sm_end m' = sm_end m"
  using assms
proof (induction xs arbitrary: m E xss)
  case (Cons x xs)
  obtain k v where x: "x = (k, v)" by fastforce
  have pre: "k \<noteq> 0" "\<forall>q \<in> set (es_used E). fst q < k" "\<forall>y \<in> keys_of xss. y < k" "sm_cur m + sk_size < sm_end m"
    using Cons.prems(3-5) x by auto
  obtain m1 e where P: "pb_new_put m k v 0 = Some (m1, e)" "es_own m1 (E @ [e]) (xss @ [[(k, v)]])" "pb_used e = [(k, sm_cur m)]"
    "entry_key_of e = k" "pb_nr e = 1" "sm_cur m1 = sm_cur m + sk_size" "sm_end m1 = sm_end m"
    by (rule pb_new_put_own[OF Cons.prems(1) pre, of v]) (rule that; assumption)
  have lt: "\<forall>y \<in> set xs. k < fst y" "keys_sorted xs" using Cons.prems(2) x by (auto simp: keys_sorted_Cons)
  have gt: "\<forall>x \<in> set xs. (\<forall>q \<in> set (es_used (E @ [e])). fst q < fst x) \<and> (\<forall>y \<in> keys_of (xss @ [[(k, v)]]). y < fst x)"
    using Cons.prems(4) lt(1) P(3) by (auto simp: keys_of_def)
  have sp: "sm_cur m1 + sk_size * length xs < sm_end m1" using Cons.prems(5) P(6,7) by simp
  obtain m' es where R: "eg_load_pairs m1 xs = Some (m', es)" "es_own m' ((E @ [e]) @ es) ((xss @ [[(k, v)]]) @ map (\<lambda>x. [x]) xs)"
    "map entry_key_of es = map fst xs" "map fst (es_used es) = map fst xs" "\<forall>e \<in> set es. pb_nr e = 1"
    "sm_cur m' = sm_cur m1 + sk_size * length xs" "sm_end m' = sm_end m1"
    using Cons.IH[OF P(2) lt(2) _ gt sp] Cons.prems(3) by auto
  show ?case using R P(1,3-7) by (intro exI[of _ m'] exI[of _ "e # es"]) (simp add: x)
qed simp


lemma concat_singles [simp]: "concat (map (\<lambda>x. [x]) xs) = xs"
  by (induction xs) simp_all

lemma keys_of_singles [simp]: "keys_of (map (\<lambda>x. [x]) xs) = fst ` set xs"
  by (auto simp: keys_of_def)

lemma eg_bulk_load_own:
  assumes "es_own m E xss" "take (length xs) (drop start data) = xs" "xs \<noteq> []" "keys_sorted xs" "\<forall>x \<in> set xs. fst x \<noteq> 0"
    "\<forall>x \<in> set xs. (\<forall>q \<in> set (es_used E). fst q < fst x) \<and> (\<forall>y \<in> keys_of xss. y < fst x)" "sm_cur m + sk_size * length xs < sm_end m"
  obtains m' g where "eg_bulk_load fp m (eg_reserve (eg_zero\<lparr>eg_next := length xs\<rparr>)) data start (length xs) = Some (m', g)"
    "es_own m' (E @ eg_entries g) (xss @ map (\<lambda>x. [x]) xs)" "eg_ok g" "eg_nr g = length xs" "eg_first g = fst (hd xs)"
    "map fst (es_used (eg_entries g)) = map fst xs" "sm_cur m' = sm_cur m + sk_size * length xs" "sm_end m' = sm_end m"
proof -
  obtain m' es where R: "eg_load_pairs m xs = Some (m', es)" "es_own m' (E @ es) (xss @ map (\<lambda>x. [x]) xs)" "map entry_key_of es = map fst xs"
    "map fst (es_used es) = map fst xs" "sm_cur m' = sm_cur m + sk_size * length xs" "sm_end m' = sm_end m"
    using eg_load_pairs_own[OF assms(1,4-7)] by auto
  have le: "length es = length xs" using arg_cong[OF R(3), of length] by simp
  have lu: "length (es_used es) = length xs" using arg_cong[OF R(4), of length] by simp
  have "length (take (length xs) (drop start data)) = length xs" using assms(2) by simp
  then have "length xs \<le> length data - start" by (simp only: length_take length_drop min_def split: if_splits)
  moreover have "0 < length xs" using assms(3) by simp
  ultimately have b: "start + length xs \<le> length data" "data \<noteq> []" by (linarith, auto)
  let ?g = "\<lparr>eg_nr = length xs, eg_next = length xs, eg_min = fst (data ! 0), eg_space = es, eg_model = eg_train fp es\<rparr>"
  have B: "eg_bulk_load fp m (eg_reserve (eg_zero\<lparr>eg_next := length xs\<rparr>)) data start (length xs) = Some (m', ?g)"
    using b R(1) assms(2) by (simp add: eg_bulk_load_def eg_reserve_def eg_zero_def)
  have en: "eg_entries ?g = es" using le by (simp add: eg_entries_def)
  have ok: "eg_ok ?g" unfolding eg_ok_def en using le lu by simp
  obtain y ys where "es = y # ys" using le assms(3) by (cases es) auto
  then have fi: "eg_first ?g = fst (hd xs)" using R(3) assms(3) by (cases xs) (simp_all add: eg_first_def)
  show thesis by (rule that[OF B _ ok _ fi _ R(5,6)]) (use en R(2,4) in simp_all)
qed

lemma lt_load_groups_own:
  assumes "es_own m E xss" "drop start data = concat Fs" "keys_sorted (concat Fs)" "\<forall>x \<in> set (concat Fs). fst x \<noteq> 0"
    "\<forall>x \<in> set (concat Fs). (\<forall>q \<in> set (es_used E). fst q < fst x) \<and> (\<forall>y \<in> keys_of xss. y < fst x)"
    "sm_cur m + sk_size * length (concat Fs) < sm_end m"
  shows "\<exists>m' gs. lt_load_groups fp m data start (map (\<lambda>F. eg_zero\<lparr>eg_next := length F\<rparr>) Fs) = Some (m', gs) \<and>
    es_own m' (E @ lt_entries gs) (xss @ map (\<lambda>x. [x]) (concat Fs)) \<and> (\<forall>g \<in> set gs. eg_ok g) \<and>
    list_all2 (\<lambda>F g. eg_nr g = length F \<and> (F \<noteq> [] \<longrightarrow> eg_first g = fst (hd F))) Fs gs \<and>
    sm_cur m' = sm_cur m + sk_size * length (concat Fs) \<and> sm_end m' = sm_end m"
  using assms
proof (induction Fs arbitrary: m E xss start)
  case (Cons F Fs)
  let ?z = "eg_zero\<lparr>eg_next := length F\<rparr>"
  have "drop (start + length F) data = drop (length F) (drop start data)" by (simp add: add.commute)
  then have st: "take (length F) (drop start data) = F" "drop (start + length F) data = concat Fs"
    unfolding Cons.prems(2) by simp_all
  have srt: "keys_sorted F" "keys_sorted (concat Fs)" "\<forall>a \<in> set F. \<forall>b \<in> set (concat Fs). fst a < fst b"
    using Cons.prems(3) unfolding concat.simps keys_sorted_append by blast+
  have nz: "\<forall>x \<in> set F. fst x \<noteq> 0" "\<forall>x \<in> set (concat Fs). fst x \<noteq> 0" using Cons.prems(4) by auto
  have ab: "\<forall>x \<in> set F. (\<forall>q \<in> set (es_used E). fst q < fst x) \<and> (\<forall>y \<in> keys_of xss. y < fst x)"
    "\<forall>x \<in> set (concat Fs). (\<forall>q \<in> set (es_used E). fst q < fst x) \<and> (\<forall>y \<in> keys_of xss. y < fst x)"
    using Cons.prems(5) unfolding concat.simps set_append by blast+
  have sp: "sm_cur m + sk_size * length F + sk_size * length (concat Fs) < sm_end m" using Cons.prems(6) by (simp add: algebra_simps)
  obtain m1 g1 where G: "(if eg_next ?z = 0 then Some (m, ?z) else eg_bulk_load fp m (eg_reserve ?z) data start (eg_next ?z)) = Some (m1, g1)"
    "es_own m1 (E @ eg_entries g1) (xss @ map (\<lambda>x. [x]) F)" "eg_ok g1" "eg_nr g1 = length F \<and> (F \<noteq> [] \<longrightarrow> eg_first g1 = fst (hd F))"
    "map fst (es_used (eg_entries g1)) = map fst F" "sm_cur m1 = sm_cur m + sk_size * length F" "sm_end m1 = sm_end m"
  proof (cases "F = []")
    case True
    have "eg_entries ?z = []" by (simp add: eg_entries_def eg_zero_def)
    then show thesis using that[of m ?z] True Cons.prems(1) by (simp add: eg_zero_def eg_ok_def eg_entries_def)
  next
    case False
    have s: "sm_cur m + sk_size * length F < sm_end m" using sp by simp
    obtain m1 g1 where B: "eg_bulk_load fp m (eg_reserve ?z) data start (length F) = Some (m1, g1)"
      "es_own m1 (E @ eg_entries g1) (xss @ map (\<lambda>x. [x]) F)" "eg_ok g1" "eg_nr g1 = length F" "eg_first g1 = fst (hd F)"
      "map fst (es_used (eg_entries g1)) = map fst F" "sm_cur m1 = sm_cur m + sk_size * length F" "sm_end m1 = sm_end m"
      by (rule eg_bulk_load_own[OF Cons.prems(1) st(1) False srt(1) nz(1) ab(1) s, of fp]) (rule that; assumption)
    show thesis by (rule that[OF _ B(2,3) _ B(6-8)]) (use False B(1,4,5) in simp_all)
  qed
  have "set (map fst (es_used (eg_entries g1))) = set (map fst F)" using G(5) by simp
  then have uf: "fst ` set (es_used (eg_entries g1)) = fst ` set F" by simp
  have ab2: "\<forall>x \<in> set (concat Fs). (\<forall>q \<in> set (es_used (E @ eg_entries g1)). fst q < fst x) \<and> (\<forall>y \<in> keys_of (xss @ map (\<lambda>x. [x]) F). y < fst x)"
  proof
    fix x assume x: "x \<in> set (concat Fs)"
    have "y < fst x" if "y \<in> fst ` set F" for y using srt(3) x that by blast
    then show "(\<forall>q \<in> set (es_used (E @ eg_entries g1)). fst q < fst x) \<and> (\<forall>y \<in> keys_of (xss @ map (\<lambda>x. [x]) F). y < fst x)"
      using ab(2) x uf by (metis Un_iff es_used_simps(3) image_eqI keys_of_append keys_of_singles set_append)
  qed
  have "sm_cur m1 + sk_size * length (concat Fs) < sm_end m1" using sp G(6,7) by simp
  from Cons.IH[OF G(2) st(2) srt(2) nz(2) ab2 this] obtain m' gs where R:
    "lt_load_groups fp m1 data (start + length F) (map (\<lambda>F. eg_zero\<lparr>eg_next := length F\<rparr>) Fs) = Some (m', gs)"
    "es_own m' ((E @ eg_entries g1) @ lt_entries gs) ((xss @ map (\<lambda>x. [x]) F) @ map (\<lambda>x. [x]) (concat Fs))" "\<forall>g \<in> set gs. eg_ok g"
    "list_all2 (\<lambda>F g. eg_nr g = length F \<and> (F \<noteq> [] \<longrightarrow> eg_first g = fst (hd F))) Fs gs"
    "sm_cur m' = sm_cur m1 + sk_size * length (concat Fs)" "sm_end m' = sm_end m1" by (elim exE conjE) (rule that)
  have nx: "eg_next ?z = length F" by simp
  have "lt_load_groups fp m data start (map (\<lambda>F. eg_zero\<lparr>eg_next := length F\<rparr>) (F # Fs)) = Some (m', g1 # gs)"
    unfolding list.map lt_load_groups.simps G(1) unfolding nx by (simp add: R(1))
  moreover have "es_own m' (E @ lt_entries (g1 # gs)) (xss @ map (\<lambda>x. [x]) (concat (F # Fs)))" using R(2) by simp
  moreover have "sm_cur m' = sm_cur m + sk_size * length (concat (F # Fs))" using R(5) G(6) by (simp add: algebra_simps)
  ultimately show ?case using R(3,4,6) G(3,4,7) by (intro exI[of _ m'] exI[of _ "g1 # gs"]) simp
qed simp


lemma lt_bulk_load_own:
  assumes "64 \<le> length data" "keys_sorted data" "\<forall>x \<in> set data. fst x \<noteq> 0" "sm_ok m" "sm_cur m + sk_size * length data < sm_end m"
    "fp_ok fp" "lines_fit fp B" "\<forall>x \<in> set data. fst x \<le> B"
  obtains t where "lt_bulk_load fp (lt_new m) data = Some t" "lt_own B t (map (\<lambda>x. [x]) data)"
    "sm_cur (lt_mem t) = sm_cur m + sk_size * length data" "sm_end (lt_mem t) = sm_end m"
proof -
  let ?f = "lm_predict fp (rl_init fp (map fst data))" and ?n = "length data div min_group_entries"
  let ?h = "\<lambda>x. grp ?f ?n (fst x)"
  let ?F = "\<lambda>i. filter (\<lambda>x. ?h x = i) data"
  have n: "0 < ?n" using assms(1) by (simp add: min_group_entries_def div_greater_zero_iff)
  have c: "length (filter (\<lambda>k. grp ?f ?n k = i) (map fst data)) = length (?F i)" for i by (simp add: filter_map comp_def)
  have C: "lt_count ?f (map fst data) (replicate ?n eg_zero) = Some (map (\<lambda>F. eg_zero\<lparr>eg_next := length F\<rparr>) (map ?F [0..<?n]))"
    unfolding lt_count_spec[OF n length_replicate] c by (simp add: eg_zero_def)
  have srt: "sorted_wrt (<) (map fst data)" using assms(2) by (simp add: keys_sorted_def)
  have kb: "\<forall>k \<in> set (map fst data). k \<le> B" using assms(8) by simp
  have f: "line_mono B ?f" by (rule line_mono_fit[OF assms(6,7) srt kb])
  have s: "sorted (map ?h data)" using sorted_grp[OF f strict_sorted_imp_sorted[OF srt] kb, of ?n] by (simp add: comp_def)
  have D: "drop 0 data = concat (map ?F [0..<?n])" using slices[OF s] grp_less[OF n] by simp
  have cc: "concat (map ?F [0..<?n]) = data" using D by simp
  have e0: "es_own m [] []" using assms(4) by (simp add: es_own_def)
  obtain m' gs where R: "lt_load_groups fp m data 0 (map (\<lambda>F. eg_zero\<lparr>eg_next := length F\<rparr>) (map ?F [0..<?n])) = Some (m', gs)"
    "es_own m' ([] @ lt_entries gs) ([] @ map (\<lambda>x. [x]) (concat (map ?F [0..<?n])))" "\<forall>g \<in> set gs. eg_ok g"
    "list_all2 (\<lambda>F g. eg_nr g = length F \<and> (F \<noteq> [] \<longrightarrow> eg_first g = fst (hd F))) (map ?F [0..<?n]) gs"
    "sm_cur m' = sm_cur m + sk_size * length (concat (map ?F [0..<?n]))" "sm_end m' = sm_end m"
    using lt_load_groups_own[OF e0 D, of fp] assms(2,3,5) unfolding cc by (auto simp: keys_of_def)
  let ?t = "(lt_new m)\<lparr>lt_groups := gs, lt_nr := ?n, lt_model := ?f, lt_mem := m'\<rparr>"
  have X: "lt_bulk_load fp (lt_new m) data = Some ?t" unfolding lt_bulk_load_def Let_def C bind.simps using R(1) by (simp add: lt_new_def)
  have l: "length gs = ?n" using list_all2_lengthD[OF R(4)] by simp
  have g: "eg_nr (gs ! i) = length (?F i) \<and> (?F i \<noteq> [] \<longrightarrow> eg_first (gs ! i) = fst (hd (?F i)))" if "i < ?n" for i
  proof -
    have "map ?F [0..<?n] ! i = ?F i" using that by simp
    then show ?thesis using list_all2_nthD[OF R(4), of i] that by simp
  qed
  have P: "placed ?f gs"
  proof (rule placed_grp[OF l], intro allI impI)
    fix i assume i: "i < ?n" "eg_nr (gs ! i) \<noteq> 0"
    then have ne: "?F i \<noteq> []" using g[OF i(1)] by (metis list.size(3))
    have "hd (?F i) \<in> set (?F i)" using ne by (rule hd_in_set)
    then have "?h (hd (?F i)) = i" by simp
    then show "grp ?f ?n (eg_first (gs ! i)) = i" using g[OF i(1)] ne by simp
  qed
  have own: "es_own m' (lt_entries gs) (map (\<lambda>x. [x]) data)" using R(2) unfolding cc by simp
  have "lt_entries gs \<noteq> []"
  proof
    assume "lt_entries gs = []"
    then have "data = []" using own by (simp add: es_own_def)
    then show False using assms(1) by simp
  qed
  then have lv: "\<exists>g \<in> set gs. eg_nr g \<noteq> 0" using lt_entries_empty by blast
  have "lt_own B ?t (map (\<lambda>x. [x]) data)" using own l R(3) P lv f assms(8) by (auto simp: lt_own_def image_iff keys_of_def)
  then show thesis using that[OF X] R(5,6) by (simp add: cc)
qed

subsection \<open>Runs\<close>

text \<open>The tree and what its answers tell a client.\<close>

fun lt_run :: "fpu \<Rightarrow> letree \<Rightarrow> pb_op list \<Rightarrow> (u64 \<rightharpoonup> u64) \<Rightarrow> (letree \<times> (u64 \<rightharpoonup> u64)) option" where
  "lt_run fp t [] M = Some (t, M)"
| "lt_run fp t (PutKey k v # ops) M =
     (case lt_put 2 fp t k v of
        None \<Rightarrow> None
      | Some (t1, ret) \<Rightarrow> lt_run fp t1 ops (if ret = OK then M(k \<mapsto> v) else M))"
| "lt_run fp t (UpdateKey k v # ops) M =
     (case lt_update t k v of
        None \<Rightarrow> None
      | Some (t1, ok) \<Rightarrow> lt_run fp t1 ops (if ok then M(k \<mapsto> v) else M))"

lemma lt_put_two:
  assumes "lt_own B t xss" "k \<noteq> 0" "map_of (concat xss) k = None" "sm_cur (lt_mem t) + sk_size < sm_end (lt_mem t)" "k \<le> B"
    "fp_ok fp" "lines_fit fp B"
  obtains t' xss' where "lt_put 2 fp t k v = Some (t', OK)" "lt_own B t' xss'"
    "map_of (concat xss') = (map_of (concat xss))(k \<mapsto> v)" "sm_cur (lt_mem t') \<le> sm_cur (lt_mem t) + sk_size"
    "sm_end (lt_mem t') = sm_end (lt_mem t)"
  using lt_put_own[OF assms, of 0 v] that by (simp only: numeral_2_eq_2) blast

text \<open>What a finite map does.\<close>

fun pb_op_key :: "pb_op \<Rightarrow> u64" where
  "pb_op_key (PutKey k v) = k"
| "pb_op_key (UpdateKey k v) = k"

fun op_map :: "pb_op \<Rightarrow> (u64 \<rightharpoonup> u64) \<Rightarrow> (u64 \<rightharpoonup> u64)" where
  "op_map (PutKey k v) M = M(k \<mapsto> v)"
| "op_map (UpdateKey k v) M = (if M k = None then M else M(k \<mapsto> v))"

lemma lt_run_own:
  assumes "lt_own B t xss" "sm_cur (lt_mem t) + sk_size * (length (put_keys ops) + 1) \<le> sm_end (lt_mem t)" "0 \<notin> set (put_keys ops)"
    "0 \<notin> op_values ` set ops" "distinct (put_keys ops)" "set (put_keys ops) \<inter> dom (map_of (concat xss)) = {}"
    "0 \<notin> ran (map_of (concat xss))" "fp_ok fp" "lines_fit fp B" "\<forall>op \<in> set ops. pb_op_key op \<le> B"
  shows "\<exists>t' xss'. lt_run fp t ops (map_of (concat xss)) = Some (t', map_of (concat xss')) \<and> lt_own B t' xss' \<and>
    0 \<notin> ran (map_of (concat xss')) \<and> map_of (concat xss') = fold op_map ops (map_of (concat xss))"
  using assms
proof (induction ops arbitrary: t xss)
  case (Cons op ops)
  have kBs: "\<forall>op \<in> set ops. pb_op_key op \<le> B" using Cons.prems(10) by simp
  show ?case
  proof (cases op)
    case (PutKey k v)
    have kB: "k \<le> B" using Cons.prems(10) PutKey by simp
    have k: "k \<noteq> 0" "map_of (concat xss) k = None" "k \<notin> set (put_keys ops)" using Cons.prems(3,5,6) PutKey by auto
    have sp: "sm_cur (lt_mem t) + sk_size < sm_end (lt_mem t)" using Cons.prems(2) PutKey by (simp add: sk_size_def)
    obtain t1 xss1 where P: "lt_put 2 fp t k v = Some (t1, OK)" "lt_own B t1 xss1" "map_of (concat xss1) = (map_of (concat xss))(k \<mapsto> v)"
      "sm_cur (lt_mem t1) \<le> sm_cur (lt_mem t) + sk_size" "sm_end (lt_mem t1) = sm_end (lt_mem t)"
      by (rule lt_put_two[OF Cons.prems(1) k(1,2) sp kB Cons.prems(8,9), of v])
    have r: "0 \<notin> ran (map_of (concat xss1))" using Cons.prems(4,7) PutKey k(2) P(3) by auto
    have d: "dom (map_of (concat xss1)) = insert k (dom (map_of (concat xss)))" using P(3) by simp
    have s1: "sm_cur (lt_mem t1) + sk_size * (length (put_keys ops) + 1) \<le> sm_end (lt_mem t1)"
      using Cons.prems(2) PutKey P(4,5) by simp
    have c: "0 \<notin> set (put_keys ops)" "0 \<notin> op_values ` set ops" "distinct (put_keys ops)" "set (put_keys ops) \<inter> dom (map_of (concat xss1)) = {}"
      using Cons.prems(3-6) d k(3) PutKey by auto
    obtain t' xss' where R: "lt_run fp t1 ops (map_of (concat xss1)) = Some (t', map_of (concat xss'))" "lt_own B t' xss'"
      "0 \<notin> ran (map_of (concat xss'))" "map_of (concat xss') = fold op_map ops (map_of (concat xss1))"
      using Cons.IH[OF P(2) s1 c r Cons.prems(8,9) kBs] by (elim exE conjE) (rule that)
    show ?thesis using R P(1,3) PutKey by (intro exI[of _ t'] exI[of _ xss']) simp
  next
    case (UpdateKey k v)
    have kB: "k \<le> B" using Cons.prems(10) UpdateKey by simp
    have s: "sm_cur (lt_mem t) + sk_size * (length (put_keys ops) + 1) \<le> sm_end (lt_mem t)" using Cons.prems(2) UpdateKey by simp
    show ?thesis
    proof (cases "map_of (concat xss) k")
      case None
      have U: "lt_update t k v = Some (t, False)" by (rule lt_update_absent[OF Cons.prems(1) None kB])
      have "\<exists>t' xss'. lt_run fp t ops (map_of (concat xss)) = Some (t', map_of (concat xss')) \<and> lt_own B t' xss' \<and>
          0 \<notin> ran (map_of (concat xss')) \<and> map_of (concat xss') = fold op_map ops (map_of (concat xss))"
        using Cons.prems(3-6) UpdateKey by (intro Cons.IH[OF Cons.prems(1) s _ _ _ _ Cons.prems(7,8,9) kBs]) simp_all
      then show ?thesis using U None UpdateKey by simp
    next
      case (Some w)
      have w: "w \<noteq> 0" using Some Cons.prems(7) by (auto simp: ran_def)
      obtain t1 xss1 where P: "lt_update t k v = Some (t1, True)" "lt_own B t1 xss1" "map_of (concat xss1) = (map_of (concat xss))(k \<mapsto> v)"
        "sm_cur (lt_mem t1) = sm_cur (lt_mem t)" "sm_end (lt_mem t1) = sm_end (lt_mem t)"
        by (rule lt_update_own[OF Cons.prems(1) Some w kB, of v])
      have r: "0 \<notin> ran (map_of (concat xss1))" using Cons.prems(4,7) UpdateKey P(3) by (auto simp: ran_def)
      have d: "dom (map_of (concat xss1)) = dom (map_of (concat xss))" using P(3) Some by auto
      have s1: "sm_cur (lt_mem t1) + sk_size * (length (put_keys ops) + 1) \<le> sm_end (lt_mem t1)" using s P(4,5) by simp
      have c: "0 \<notin> set (put_keys ops)" "0 \<notin> op_values ` set ops" "distinct (put_keys ops)" "set (put_keys ops) \<inter> dom (map_of (concat xss1)) = {}"
        using Cons.prems(3-6) d UpdateKey by auto
      obtain t' xss' where R: "lt_run fp t1 ops (map_of (concat xss1)) = Some (t', map_of (concat xss'))" "lt_own B t' xss'"
        "0 \<notin> ran (map_of (concat xss'))" "map_of (concat xss') = fold op_map ops (map_of (concat xss1))"
        using Cons.IH[OF P(2) s1 c r Cons.prems(8,9) kBs] by (elim exE conjE) (rule that)
      show ?thesis using R Some P(1,3) UpdateKey by (intro exI[of _ t'] exI[of _ xss']) simp
    qed
  qed
qed (auto intro: exI)

end
