(* ===== verification/LineExact.thy ===== *)
theory LineExact
  imports LineModel
begin

text \<open>
  The least-squares line in exact arithmetic: over ascending keys its slope lies between 0 and 1, because from key to key the position
  grows by no more than the key; so the prediction for a key up to a bound is between the negative bound and the bound.
  This discharges the range condition of the tree (\<open>lines_fit\<close>) for all keys below \<open>2 ^ 31\<close>.
\<close>

subsection \<open>Sums\<close>

lemma lagrange:
  fixes X Y :: "nat \<Rightarrow> real"
  shows "(\<Sum>i<n. \<Sum>j<n. (X i - X j) * (Y i - Y j)) = 2 * (real n * (\<Sum>i<n. X i * Y i) - (\<Sum>i<n. X i) * (\<Sum>i<n. Y i))"
proof -
  have "(\<Sum>i<n. \<Sum>j<n. (X i - X j) * (Y i - Y j)) =
      (\<Sum>i<n. \<Sum>j<n. X i * Y i) - (\<Sum>i<n. \<Sum>j<n. X i * Y j) - (\<Sum>i<n. \<Sum>j<n. X j * Y i) + (\<Sum>i<n. \<Sum>j<n. X j * Y j)"
    by (simp add: algebra_simps sum.distrib sum_subtractf)
  moreover have "(\<Sum>i<n. \<Sum>j<n. X i * Y j) = (\<Sum>i<n. X i) * (\<Sum>i<n. Y i)" by (simp add: sum_product)
  moreover have "(\<Sum>i<n. \<Sum>j<n. X j * Y i) = (\<Sum>i<n. X i) * (\<Sum>i<n. Y i)" by (subst sum.swap) (simp add: sum_product)
  moreover have "(\<Sum>i<n. \<Sum>j<n. X i * Y i) = real n * (\<Sum>i<n. X i * Y i)" by (simp add: sum_distrib_left)
  ultimately show ?thesis by simp
qed

lemma slope_bounds:
  fixes X Y :: "nat \<Rightarrow> real"
  assumes "\<forall>i < n. \<forall>j < n. i < j \<longrightarrow> 0 < Y j - Y i \<and> Y j - Y i \<le> X j - X i" "2 \<le> n"
  defines "num \<equiv> real n * (\<Sum>i<n. X i * Y i) - (\<Sum>i<n. X i) * (\<Sum>i<n. Y i)"
    and "den \<equiv> real n * (\<Sum>i<n. X i * X i) - (\<Sum>i<n. X i) * (\<Sum>i<n. X i)"
  shows "0 < num \<and> num \<le> den"
proof -
  have q: "0 \<le> (X i - X j) * (Y i - Y j) \<and> (X i - X j) * (Y i - Y j) \<le> (X i - X j) * (X i - X j)"
    if "i < n" "j < n" for i j
  proof -
    consider "i < j" | "i = j" | "j < i" by linarith
    then show ?thesis
    proof cases
      case 1
      then have "0 < Y j - Y i \<and> Y j - Y i \<le> X j - X i" using assms(1) that by blast
      then have "X i - X j \<le> 0" "Y i - Y j \<le> 0" "X i - X j \<le> Y i - Y j" by linarith+
      then show ?thesis by (simp add: mult_nonpos_nonpos mult_left_mono_neg)
    next
      case 3
      then have "0 < Y i - Y j \<and> Y i - Y j \<le> X i - X j" using assms(1) that by blast
      then have "0 \<le> X i - X j" "0 \<le> Y i - Y j" "Y i - Y j \<le> X i - X j" by linarith+
      then show ?thesis by (simp add: mult_left_mono)
    qed simp
  qed
  note p = q[THEN conjunct1] q[THEN conjunct2]
  have "2 * num = (\<Sum>i<n. \<Sum>j<n. (X i - X j) * (Y i - Y j))" unfolding num_def lagrange ..
  also have "\<dots> \<le> (\<Sum>i<n. \<Sum>j<n. (X i - X j) * (X i - X j))" using p(2) by (intro sum_mono) simp
  also have "\<dots> = 2 * den" unfolding den_def lagrange ..
  finally have le: "num \<le> den" by simp
  have n: "0 < n" "1 < n" using assms(2) by simp_all
  have d: "0 < Y 1 - Y 0" "Y 1 - Y 0 \<le> X 1 - X 0" using assms(1) n by auto
  have "0 < (X 0 - X 1) * (Y 0 - Y 1)" using d by (intro mult_neg_neg) simp_all
  also have "\<dots> \<le> (\<Sum>j<n. (X 0 - X j) * (Y 0 - Y j))" using p(1) n by (intro member_le_sum) auto
  also have "\<dots> \<le> (\<Sum>i<n. \<Sum>j<n. (X i - X j) * (Y i - Y j))"
    using p(1) n by (intro member_le_sum[of 0 _ "\<lambda>i. \<Sum>j<n. (X i - X j) * (Y i - Y j)"] sum_nonneg) auto
  also have "\<dots> = 2 * num" unfolding num_def lagrange ..
  finally show ?thesis using le by simp
qed

subsection \<open>The fit\<close>

lemma exact_ok: "fp_ok fp_exact"
  by (simp add: fp_ok_def fp_exact_def mono_def)

lemma exact_sums:
  "lb_count (lb_add_all fp_exact xs b) = lb_count b + length xs"
  "lb_x_sum (lb_add_all fp_exact xs b) = lb_x_sum b + sum_list (map (\<lambda>x. fp_key (fst x)) xs)"
  "lb_y_sum (lb_add_all fp_exact xs b) = lb_y_sum b + sum_list (map (\<lambda>x. real (snd x)) xs)"
  "lb_xx_sum (lb_add_all fp_exact xs b) = lb_xx_sum b + sum_list (map (\<lambda>x. fp_key (fst x) * fp_key (fst x)) xs)"
  "lb_xy_sum (lb_add_all fp_exact xs b) = lb_xy_sum b + sum_list (map (\<lambda>x. fp_key (fst x) * real (snd x)) xs)"
proof (induction xs arbitrary: b)
  case (Cons x xs)
  case 1 show ?case using Cons(1) by (simp add: lb_add_all_def lb_add_def fp_exact_def Let_def split: prod.splits)
  case 2 show ?case using Cons(2) by (simp add: lb_add_all_def lb_add_def fp_exact_def Let_def split: prod.splits)
  case 3 show ?case using Cons(3) by (simp add: lb_add_all_def lb_add_def fp_exact_def Let_def split: prod.splits)
  case 4 show ?case using Cons(4) by (simp add: lb_add_all_def lb_add_def fp_exact_def Let_def split: prod.splits)
  case 5 show ?case using Cons(5) by (simp add: lb_add_all_def lb_add_def fp_exact_def Let_def split: prod.splits)
qed (simp_all add: lb_add_all_def)

text \<open>Samples whose positions grow by no more than their keys.\<close>

definition slow_samples :: "(u64 \<times> nat) list \<Rightarrow> bool" where
  "slow_samples xs \<longleftrightarrow> (\<forall>i < length xs. \<forall>j < length xs. i < j \<longrightarrow> snd (xs ! i) < snd (xs ! j) \<and>
     real (snd (xs ! j)) - real (snd (xs ! i)) \<le> fp_key (fst (xs ! j)) - fp_key (fst (xs ! i))) \<and>
     (\<forall>i < length xs. real (snd (xs ! i)) \<le> fp_key (fst (xs ! i)))"

lemma exact_build:
  assumes "2 \<le> length xs" "slow_samples xs"
  defines "n \<equiv> length xs" and "X \<equiv> \<lambda>i. fp_key (fst (xs ! i))" and "Y \<equiv> \<lambda>i. real (snd (xs ! i))"
  defines "a \<equiv> (real n * (\<Sum>i<n. X i * Y i) - (\<Sum>i<n. X i) * (\<Sum>i<n. Y i)) / (real n * (\<Sum>i<n. X i * X i) - (\<Sum>i<n. X i) * (\<Sum>i<n. X i))"
  shows "lb_build fp_exact (lb_add_all fp_exact xs lb_new) = \<lparr>lm_a = a, lm_b = ((\<Sum>i<n. Y i) - a * (\<Sum>i<n. X i)) / real n\<rparr>"
proof -
  let ?b = "lb_add_all fp_exact xs lb_new"
  have B: "lb_count ?b = n" "lb_x_sum ?b = (\<Sum>i<n. X i)" "lb_y_sum ?b = (\<Sum>i<n. Y i)" "lb_xx_sum ?b = (\<Sum>i<n. X i * X i)"
    "lb_xy_sum ?b = (\<Sum>i<n. X i * Y i)"
    by (simp_all add: exact_sums lb_new_def X_def Y_def n_def sum_list_sum_nth atLeast0LessThan)
  define num where "num = real n * (\<Sum>i<n. X i * Y i) - (\<Sum>i<n. X i) * (\<Sum>i<n. Y i)"
  define den where "den = real n * (\<Sum>i<n. X i * X i) - (\<Sum>i<n. X i) * (\<Sum>i<n. X i)"
  have "\<forall>i < n. \<forall>j < n. i < j \<longrightarrow> 0 < Y j - Y i \<and> Y j - Y i \<le> X j - X i"
    using assms(2) by (simp add: slow_samples_def X_def Y_def n_def)
  then have nd: "0 < num" "num \<le> den" using slope_bounds[of n Y X] assms(1) by (simp_all add: num_def den_def n_def)
  have a: "a = num / den" by (simp add: a_def num_def den_def)
  then have "0 < a" using nd by simp
  then show ?thesis using assms(1) B nd unfolding lb_build_def Let_def
    by (simp add: fp_exact_def num_def[symmetric] den_def[symmetric] a[symmetric] n_def[symmetric])
qed

lemma exact_prediction:
  assumes "slow_samples xs" "\<forall>x \<in> set xs. fp_key (fst x) \<le> C" "fp_key k \<le> C"
  shows "\<bar>lm_predict_double fp_exact (lb_build fp_exact (lb_add_all fp_exact xs lb_new)) k\<bar> \<le> C"
proof -
  let ?n = "length xs" and ?b = "lb_add_all fp_exact xs lb_new"
  define X where "X i = fp_key (fst (xs ! i))" for i
  define Y where "Y i = real (snd (xs ! i))" for i
  define SX where "SX = (\<Sum>i<?n. X i)"
  define SY where "SY = (\<Sum>i<?n. Y i)"
  have pos: "0 \<le> fp_key j" for j unfolding fp_key_def by (rule of_nat_0_le_iff)
  have C0: "0 \<le> fp_key k" "0 \<le> C" using assms(3) pos[of k] by linarith+
  have B: "lb_count ?b = ?n" "lb_x_sum ?b = SX" "lb_y_sum ?b = SY" "lb_xx_sum ?b = (\<Sum>i<?n. X i * X i)" "lb_xy_sum ?b = (\<Sum>i<?n. X i * Y i)"
    by (simp_all add: exact_sums lb_new_def X_def Y_def SX_def SY_def sum_list_sum_nth atLeast0LessThan)
  have X: "0 \<le> X i" "X i \<le> C" "Y i \<le> X i" "0 \<le> Y i" if "i < ?n" for i
    using assms(1,2) that pos by (simp_all add: X_def Y_def slow_samples_def)
  show ?thesis
  proof (cases "?n \<le> 1")
    case True
    then consider "xs = []" | "?n = 1" by (cases xs) auto
    then show ?thesis
    proof cases
      case 1
      then show ?thesis using B C0 by (simp add: lb_build_def Let_def lm_predict_double_def fp_exact_def SY_def)
    next
      case 2
      then have "SY = Y 0" by (simp add: SY_def)
      then show ?thesis using B 2 X[of 0] by (simp add: lb_build_def Let_def lm_predict_double_def fp_exact_def)
    qed
  next
    case False
    define num where "num = real ?n * (\<Sum>i<?n. X i * Y i) - SX * SY"
    define den where "den = real ?n * (\<Sum>i<?n. X i * X i) - SX * SX"
    have "\<forall>i < ?n. \<forall>j < ?n. i < j \<longrightarrow> 0 < Y j - Y i \<and> Y j - Y i \<le> X j - X i"
      using assms(1) by (simp add: slow_samples_def X_def Y_def)
    then have nd: "0 < num" "num \<le> den" using slope_bounds[of ?n Y X] False by (simp_all add: num_def den_def SX_def SY_def)
    define a where "a = num / den"
    have a: "0 < a" "a \<le> 1" using nd by (simp_all add: a_def)
    have M: "lb_build fp_exact ?b = \<lparr>lm_a = a, lm_b = (SY - a * SX) / real ?n\<rparr>"
      using exact_build[OF _ assms(1)] False by (simp add: a_def num_def den_def SX_def SY_def X_def Y_def)
    let ?mx = "SX / real ?n" and ?my = "SY / real ?n"
    have n: "0 < real ?n" using False by (simp only: of_nat_0_less_iff)
    have "SX \<le> (\<Sum>i<?n. C)" unfolding SX_def using X by (intro sum_mono) simp
    then have "?mx \<le> C" using n by (simp add: pos_divide_le_eq mult.commute)
    moreover have "0 \<le> SX" unfolding SX_def using X by (intro sum_nonneg) simp
    ultimately have mx: "?mx \<le> C" "0 \<le> ?mx" by (simp_all add: divide_nonneg_nonneg)
    have "SY \<le> SX" "0 \<le> SY" unfolding SX_def SY_def using X by (auto intro!: sum_mono sum_nonneg)
    then have my: "?my \<le> ?mx" "0 \<le> ?my" using n by (simp_all add: divide_right_mono)
    have P: "lm_predict_double fp_exact (lb_build fp_exact ?b) k = ?my + a * (fp_key k - ?mx)"
      unfolding M by (simp add: lm_predict_double_def fp_exact_def diff_divide_distrib algebra_simps)
    have lin: "\<bar>y + a * (x - m)\<bar> \<le> C" if "0 \<le> y" "y \<le> m" "0 \<le> x" "x \<le> C" "m \<le> C" for x y m :: real
    proof (cases "m \<le> x")
      case True
      define t where "t = a * (x - m)"
      have "0 \<le> t" using a True by (simp add: t_def)
      moreover have "t \<le> 1 * (x - m)" unfolding t_def using a True by (intro mult_right_mono) simp_all
      ultimately have "y + t \<le> C" "0 \<le> y + t" using that by simp_all
      then show ?thesis by (simp add: t_def)
    next
      case False
      define t where "t = a * (m - x)"
      have "0 \<le> t" using a False by (simp add: t_def)
      moreover have "t \<le> 1 * (m - x)" unfolding t_def using a False by (intro mult_right_mono) simp_all
      ultimately have "y - t \<le> C" "- C \<le> y - t" using that by simp_all
      then have "\<bar>y - t\<bar> \<le> C" by (simp add: abs_le_iff)
      then show ?thesis by (simp add: t_def algebra_simps)
    qed
    show ?thesis unfolding P by (rule lin[OF my(2,1) C0(1) assms(3) mx(1)])
  qed
qed

lemma ascending_gap:
  assumes "sorted_wrt (<) (keys :: u64 list)" "i \<le> j" "j < length keys"
  shows "real j - real i \<le> fp_key (keys ! j) - fp_key (keys ! i)"
  using assms(2,3)
proof (induction j)
  case (Suc j)
  show ?case
  proof (cases "i = Suc j")
    case False
    then have ij: "i \<le> j" using Suc.prems(1) by simp
    have "keys ! j < keys ! Suc j" using assms(1) Suc.prems(2) by (simp add: sorted_wrt_nth_less)
    then have "unat (keys ! j) + 1 \<le> unat (keys ! Suc j)" by (simp add: word_less_nat_alt)
    then have "real (unat (keys ! j) + 1) \<le> real (unat (keys ! Suc j))" by (rule of_nat_mono)
    then have "fp_key (keys ! j) + 1 \<le> fp_key (keys ! Suc j)" unfolding fp_key_def of_nat_add by simp
    then show ?thesis using Suc.IH[OF ij] Suc.prems(2) by simp
  qed simp
qed simp

lemma line_samples_slow:
  assumes "sorted_wrt (<) keys"
  shows "slow_samples (line_samples keys)"
proof -
  define js where "js = filter (\<lambda>i. i mod 8 = 0) [0..<length keys]"
  have s: "line_samples keys = map (\<lambda>i. (keys ! i, i)) js" by (simp add: line_samples_def js_def)
  have r: "js ! i < length keys" if "i < length js" for i using nth_mem[OF that] by (simp add: js_def)
  have "sorted_wrt (<) js" unfolding js_def by (simp add: sorted_wrt_filter)
  then have lt: "js ! i < js ! j" if "i < j" "j < length js" for i j using that by (simp add: sorted_wrt_nth_less)
  have pos: "0 \<le> fp_key j" for j unfolding fp_key_def by (rule of_nat_0_le_iff)
  have "real i \<le> fp_key (keys ! i)" if "i < length keys" for i
    using ascending_gap[OF assms, of 0 i] that pos[of "keys ! 0"] by simp
  then show ?thesis unfolding slow_samples_def s using lt r ascending_gap[OF assms] by (simp add: less_imp_le)
qed

lemma fp_key_bound:
  assumes "B < 2 ^ 31"
  shows "fp_key B \<le> 2 ^ 31 - 1"
proof -
  have "unat B < 2 ^ 31" using assms by (simp add: word_less_nat_alt)
  then have "real (unat B) \<le> real (2 ^ 31 - 1)" by (intro of_nat_mono) simp
  then show ?thesis unfolding fp_key_def by simp
qed

lemma to_zero_bound:
  assumes "- real_of_int n \<le> x" "x \<le> real_of_int n"
  shows "\<bar>to_zero x\<bar> \<le> n"
proof (cases "0 \<le> x")
  case True
  have "\<lfloor>x\<rfloor> \<le> n" using assms(2) by (simp add: floor_le_iff)
  then show ?thesis using True by (simp add: to_zero_def)
next
  case False
  have "- n \<le> \<lceil>x\<rceil>" "\<lceil>x\<rceil> \<le> 0" using assms(1) False by (simp_all add: le_ceiling_iff)
  then show ?thesis using False by (simp add: to_zero_def)
qed

lemma exact_range:
  assumes "B < 2 ^ 31" "sorted_wrt (<) keys" "\<forall>k \<in> set keys. k \<le> B" "k \<le> B"
  shows "in_int (lm_predict_double fp_exact (rl_init fp_exact keys) k) \<and>
    \<bar>sint (lm_predict fp_exact (rl_init fp_exact keys) k)\<bar> \<le> uint B"
proof -
  let ?p = "lm_predict_double fp_exact (rl_init fp_exact keys) k"
  have "\<forall>x \<in> set (line_samples keys). fp_key (fst x) \<le> fp_key B"
    using assms(3) by (auto simp: line_samples_def fp_key_le)
  then have p: "\<bar>?p\<bar> \<le> fp_key B"
    unfolding rl_init_def using assms(4) by (intro exact_prediction[OF line_samples_slow[OF assms(2)]]) (simp_all add: fp_key_le)
  have B: "uint B < 2 ^ 31" using assms(1) by (simp add: word_less_def)
  have "fp_key B = real_of_int (uint B)" unfolding fp_key_def uint_nat of_int_of_nat_eq ..
  then have "- real_of_int (uint B) \<le> ?p" "?p \<le> real_of_int (uint B)" using p by linarith+
  then have z: "\<bar>to_zero ?p\<bar> \<le> uint B" by (rule to_zero_bound)
  have r: "in_int ?p" unfolding in_int_def using z B unfolding abs_le_iff by simp
  show ?thesis using z r sint_to_zero[OF r exact_ok] by (simp add: lm_predict_def)
qed

lemma exact_lines_fit: "B < 2 ^ 31 \<Longrightarrow> lines_fit fp_exact B"
  using exact_range by (simp add: lines_fit_def)

text \<open>Consecutive keys: the line has slope 1 and predicts the distance from the first key.\<close>

lemma exact_consecutive:
  assumes "9 \<le> n" "unat c + n \<le> 2 ^ 64"
  shows "lm_predict_double fp_exact (rl_init fp_exact (map (\<lambda>i. c + word_of_nat i) [0..<n])) k = fp_key k - fp_key c"
proof -
  let ?keys = "map (\<lambda>i. c + word_of_nat i) [0..<n] :: u64 list"
  let ?xs = "line_samples ?keys"
  have u: "unat (c + word_of_nat i :: u64) = unat c + i" if "i < n" for i
  proof -
    have "unat (word_of_nat i :: u64) = i" using that assms(2) by (simp add: unat_of_nat take_bit_eq_mod)
    then show ?thesis using that assms(2) by (simp add: unat_word_ariths(1))
  qed
  have "sorted_wrt (<) ?keys" by (simp add: sorted_wrt_map sorted_wrt_iff_nth_less word_less_nat_alt u)
  note slow = line_samples_slow[OF this]
  define js where "js = filter (\<lambda>i. i mod 8 = 0) [0..<n]"
  have xs: "?xs = map (\<lambda>i. (c + word_of_nat i, i)) js" by (auto simp: line_samples_def js_def)
  have l: "2 \<le> length ?xs"
  proof -
    have "[0..<n] = [0..<9] @ [9..<n]" using upt_add_eq_append[of 0 9 "n - 9"] assms(1) by simp
    moreover have "filter (\<lambda>i. i mod 8 = 0) [0..<9] = [0, 8 :: nat]" by code_simp
    ultimately have "2 \<le> length js" unfolding js_def by simp
    then show ?thesis unfolding xs by simp
  qed
  have ne: "?xs \<noteq> []" using l by auto
  let ?m = "length ?xs" and ?X = "\<lambda>i. fp_key (fst (?xs ! i))" and ?Y = "\<lambda>i. real (snd (?xs ! i))"
  have XY: "?X i = fp_key c + ?Y i" if "i < ?m" for i
  proof -
    have j: "js ! i < n" using that nth_mem[of i js] by (simp add: xs js_def)
    have "real (unat c + js ! i) = real (unat c) + real (js ! i)" by (rule of_nat_add)
    then show ?thesis using that j unfolding fp_key_def xs by (simp only: nth_map length_map fst_conv snd_conv u)
  qed
  define num where "num = real ?m * (\<Sum>i<?m. ?X i * ?Y i) - (\<Sum>i<?m. ?X i) * (\<Sum>i<?m. ?Y i)"
  define den where "den = real ?m * (\<Sum>i<?m. ?X i * ?X i) - (\<Sum>i<?m. ?X i) * (\<Sum>i<?m. ?X i)"
  have "2 * num = (\<Sum>i<?m. \<Sum>j<?m. (?X i - ?X j) * (?Y i - ?Y j))" unfolding num_def lagrange ..
  also have "\<dots> = (\<Sum>i<?m. \<Sum>j<?m. (?X i - ?X j) * (?X i - ?X j))" by (intro sum.cong refl) (simp add: XY)
  also have "\<dots> = 2 * den" unfolding den_def lagrange ..
  finally have nd: "num = den" by simp
  have "\<forall>i < ?m. \<forall>j < ?m. i < j \<longrightarrow> 0 < ?Y j - ?Y i \<and> ?Y j - ?Y i \<le> ?X j - ?X i" using slow by (simp add: slow_samples_def)
  then have "0 < num" using slope_bounds[of ?m ?Y ?X] l by (simp add: num_def)
  then have one: "num / den = 1" using nd by simp
  have "(\<Sum>i<?m. ?X i) = (\<Sum>i<?m. fp_key c + ?Y i)" by (intro sum.cong refl) (simp add: XY)
  also have "\<dots> = real ?m * fp_key c + (\<Sum>i<?m. ?Y i)" by (simp add: sum.distrib)
  finally have "((\<Sum>i<?m. ?Y i) - 1 * (\<Sum>i<?m. ?X i)) / real ?m = - fp_key c" using l ne by (simp add: field_simps)
  then have "lb_build fp_exact (lb_add_all fp_exact ?xs lb_new) = \<lparr>lm_a = 1, lm_b = - fp_key c\<rparr>"
    using exact_build[OF l slow] unfolding num_def[symmetric] den_def[symmetric] one by simp
  then show ?thesis by (simp add: rl_init_def lm_predict_double_def fp_exact_def)
qed

lemma consecutive_far:
  assumes "9 \<le> n" "unat c + n \<le> 2 ^ 64"
  shows "i < n \<Longrightarrow> i < 2 ^ 31 \<Longrightarrow>
      sint (lm_predict fp_exact (rl_init fp_exact (map (\<lambda>i. c + word_of_nat i) [0..<n])) (c + word_of_nat i)) = int i"
    "unat c + 2 ^ 31 \<le> unat k \<Longrightarrow> \<not> in_int (lm_predict_double fp_exact (rl_init fp_exact (map (\<lambda>i. c + word_of_nat i) [0..<n])) k)"
proof -
  note P = exact_consecutive[OF assms]
  show "sint (lm_predict fp_exact (rl_init fp_exact (map (\<lambda>i. c + word_of_nat i) [0..<n])) (c + word_of_nat i)) = int i"
    if i: "i < n" "i < 2 ^ 31"
  proof -
    let ?k = "c + word_of_nat i :: u64"
    have "unat (word_of_nat i :: u64) = i" using i(1) assms(2) by (simp add: unat_of_nat take_bit_eq_mod)
    then have "unat ?k = unat c + i" using i(1) assms(2) by (simp add: unat_word_ariths(1))
    then have k: "fp_key ?k - fp_key c = real i" unfolding fp_key_def by (simp only: of_nat_add)
    have z: "to_zero (real i) = int i" by (simp add: to_zero_def)
    have "in_int (real i)" using i(2) by (simp add: in_int_def z)
    from sint_to_zero[OF this exact_ok] show ?thesis unfolding lm_predict_def P k z .
  qed
  show "\<not> in_int (lm_predict_double fp_exact (rl_init fp_exact (map (\<lambda>i. c + word_of_nat i) [0..<n])) k)"
    if k: "unat c + 2 ^ 31 \<le> unat k"
  proof -
    have "real (unat c + 2 ^ 31) \<le> real (unat k)" by (rule of_nat_mono[OF k])
    then have "2 ^ 31 \<le> fp_key k - fp_key c" unfolding fp_key_def of_nat_add by simp
    then have "2 ^ 31 \<le> to_zero (fp_key k - fp_key c)" by (simp add: to_zero_def le_floor_iff)
    then show ?thesis unfolding P in_int_def by simp
  qed
qed

end
