(* ===== verification/NvmAlloc.thy ===== *)
theory NvmAlloc
  imports Prelude
begin

text \<open>
  \<^verbatim>\<open>include/nvm_alloc.h\<close>: the bump allocator that hands out the memory of the groups and of the arrays of entries.
  Addresses and sizes are natural numbers; the wrap-around of 64 bits is written out.  \<open>None\<close> is a failed
  assertion.  The mapping of the file is a parameter (its address and length).
\<close>

subsection \<open>State and operations\<close>

record nvm =
  na_base :: nat
  na_len :: nat
  na_cur :: nat
  na_used :: nat
  na_freed :: nat

definition wrap64 :: "nat \<Rightarrow> nat" where "wrap64 n = n mod 2 ^ 64"

definition na_new :: "nat \<Rightarrow> nat \<Rightarrow> nvm" where
  "na_new base len = \<lparr>na_base = base, na_len = len, na_cur = base, na_used = 0, na_freed = 0\<rparr>"

definition na_alloc :: "nvm \<Rightarrow> nat \<Rightarrow> (nvm \<times> nat) option" where
  "na_alloc n sz =
     (let n1 = n\<lparr>na_used := wrap64 (na_used n + sz), na_cur := wrap64 (na_cur n + sz)\<rparr>
      in if na_used n1 \<le> na_len n1 then Some (n1, na_cur n) else None)"

definition na_reserve :: "nvm \<Rightarrow> nat \<Rightarrow> nat" where
  "na_reserve n align = (if na_cur n mod align = 0 then 0 else align - na_cur n mod align)"

definition na_alloc_aligned :: "nvm \<Rightarrow> nat \<Rightarrow> nat \<Rightarrow> (nvm \<times> nat) option" where
  "na_alloc_aligned n sz align =
     (let r = na_reserve n align;
          n1 = n\<lparr>na_used := wrap64 (na_used n + wrap64 (sz + r)), na_cur := wrap64 (na_cur n + sz)\<rparr>
      in if na_used n1 \<le> na_len n1 then Some (n1, wrap64 (na_cur n + r)) else None)"

definition na_free :: "nvm \<Rightarrow> nat \<Rightarrow> nat \<Rightarrow> nvm" where
  "na_free n p sz =
     (if p = 0 then n
      else if wrap64 (p + sz) = na_cur n then n\<lparr>na_cur := p, na_used := wrap64 (na_used n + (2 ^ 64 - sz))\<rparr>
      else n\<lparr>na_freed := wrap64 (na_freed n + sz)\<rparr>)"

text \<open>\<^verbatim>\<open>Mem_persist\<close> counts at least a cache line.\<close>

definition na_persist :: "nat \<Rightarrow> nat \<Rightarrow> nat" where
  "na_persist pmem_size len = wrap64 (if len < 64 then pmem_size + 64 else pmem_size + len)"

subsection \<open>Runs of a client\<close>

text \<open>The client keeps its blocks, the newest first; it frees one of them by its number, with its size.\<close>

datatype na_op = Alloc nat | AllocAligned nat | FreeBlock nat

fun na_size :: "na_op \<Rightarrow> nat" where
  "na_size (Alloc sz) = sz"
| "na_size (AllocAligned sz) = sz"
| "na_size (FreeBlock i) = 0"

fun na_run :: "nvm \<Rightarrow> (nat \<times> nat) list \<Rightarrow> na_op list \<Rightarrow> (nvm \<times> (nat \<times> nat) list) option" where
  "na_run n bs [] = Some (n, bs)"
| "na_run n bs (Alloc sz # ops) =
     (case na_alloc n sz of None \<Rightarrow> None | Some (n1, p) \<Rightarrow> na_run n1 ((p, sz) # bs) ops)"
| "na_run n bs (AllocAligned sz # ops) =
     (case na_alloc_aligned n sz 64 of None \<Rightarrow> None | Some (n1, p) \<Rightarrow> na_run n1 ((p, sz) # bs) ops)"
| "na_run n bs (FreeBlock i # ops) =
     (if i < length bs then na_run (na_free n (fst (bs ! i)) (snd (bs ! i))) (take i bs @ drop (Suc i) bs) ops
      else na_run n bs ops)"

definition apart :: "nat \<times> nat \<Rightarrow> nat \<times> nat \<Rightarrow> bool" where
  "apart b c \<longleftrightarrow> fst b + snd b \<le> fst c \<or> fst c + snd c \<le> fst b"

definition na_ok :: "bool \<Rightarrow> nat \<Rightarrow> nvm \<Rightarrow> (nat \<times> nat) list \<Rightarrow> bool" where
  "na_ok aligned room n bs \<longleftrightarrow> 0 < na_base n \<and> na_base n + na_len n < 2 ^ 64 \<and> na_cur n = na_base n + na_used n \<and>
     na_used n + room \<le> na_len n \<and> (aligned \<longrightarrow> 64 dvd na_cur n) \<and>
     (\<forall>b \<in> set bs. 0 < snd b \<and> na_base n \<le> fst b \<and> fst b + snd b \<le> na_cur n \<and> (aligned \<longrightarrow> 64 dvd fst b)) \<and>
     sorted_wrt apart bs"

lemma apart_sym: "apart b c \<Longrightarrow> apart c b"
  by (auto simp: apart_def)

lemma wrap64_small [simp]: "n < 2 ^ 64 \<Longrightarrow> wrap64 n = n"
  by (simp add: wrap64_def)

lemma na_alloc_ok:
  assumes "na_ok al (sz + room) n bs" "0 < sz" "al \<longrightarrow> 64 dvd sz"
  obtains n' p where "na_alloc n sz = Some (n', p)" "na_ok al room n' ((p, sz) # bs)" "na_base n' = na_base n" "na_len n' = na_len n"
proof -
  have b: "na_used n + sz \<le> na_len n" "na_cur n + sz < 2 ^ 64" "na_used n + sz < 2 ^ 64" using assms(1) by (simp_all add: na_ok_def)
  let ?n = "n\<lparr>na_used := na_used n + sz, na_cur := na_cur n + sz\<rparr>"
  have A: "na_alloc n sz = Some (?n, na_cur n)" using b by (simp add: na_alloc_def Let_def del: power_numeral)
  have "na_ok al room ?n ((na_cur n, sz) # bs)" using assms by (auto simp: na_ok_def apart_def intro: order_trans)
  then show thesis using that[OF A] by simp
qed

lemma na_alloc_aligned_same:
  assumes "64 dvd na_cur n" "sz < 2 ^ 64" "na_cur n < 2 ^ 64"
  shows "na_alloc_aligned n sz 64 = na_alloc n sz"
proof -
  have "na_reserve n 64 = 0" using assms(1) by (simp add: na_reserve_def)
  then show ?thesis using assms(2,3) by (simp add: na_alloc_aligned_def na_alloc_def del: power_numeral)
qed

lemma sorted_wrt_remove:
  assumes "sorted_wrt P bs"
  shows "sorted_wrt P (take i bs @ drop (Suc i) bs)"
proof -
  have "sorted_wrt P (take i bs @ drop i bs)" using assms by simp
  then have "sorted_wrt P (take i bs)" "\<forall>x \<in> set (take i bs). \<forall>y \<in> set (drop i bs). P x y" unfolding sorted_wrt_append by blast+
  moreover have "set (drop (Suc i) bs) \<subseteq> set (drop i bs)" by (rule set_drop_subset_set_drop) simp
  moreover have "sorted_wrt P (drop (Suc i) bs)" using assms by (rule sorted_wrt_drop)
  ultimately show ?thesis unfolding sorted_wrt_append by blast
qed

lemma na_free_ok:
  assumes "na_ok al room n bs" "i < length bs"
  shows "na_ok al room (na_free n (fst (bs ! i)) (snd (bs ! i))) (take i bs @ drop (Suc i) bs)"
proof -
  obtain p sz where b: "bs ! i = (p, sz)" by fastforce
  let ?bs = "take i bs @ drop (Suc i) bs"
  have N: "0 < na_base n" "na_base n + na_len n < 2 ^ 64" "na_cur n = na_base n + na_used n" "na_used n + room \<le> na_len n"
    using assms(1) by (simp_all add: na_ok_def)
  have "(p, sz) \<in> set bs" using assms(2) b by (metis nth_mem)
  then have P: "0 < sz" "na_base n \<le> p" "p + sz \<le> na_cur n" "al \<longrightarrow> 64 dvd p" using assms(1) by (auto simp: na_ok_def)
  have sub: "set ?bs \<subseteq> set bs" by (auto dest: in_set_takeD in_set_dropD)
  have srt: "sorted_wrt apart bs" using assms(1) by (simp add: na_ok_def)
  have S: "sorted_wrt apart ?bs" by (rule sorted_wrt_remove[OF srt])
  have E: "bs = take i bs @ (p, sz) # drop (Suc i) bs" using id_take_nth_drop[OF assms(2)] b by simp
  have A: "apart (p, sz) c" if "c \<in> set ?bs" for c
  proof -
    have "sorted_wrt apart (take i bs @ (p, sz) # drop (Suc i) bs)" using srt E by simp
    then show ?thesis using that by (auto simp: sorted_wrt_append intro: apart_sym)
  qed
  show ?thesis
  proof (cases "p + sz = na_cur n")
    case True
    have u: "na_used n + (2 ^ 64 - sz) = 2 ^ 64 + (p - na_base n)" using True N(2-4) P(2) by simp
    have "wrap64 (na_used n + (2 ^ 64 - sz)) = p - na_base n" unfolding u using True N(2-4) by (simp add: wrap64_def)
    then have F: "na_free n p sz = n\<lparr>na_cur := p, na_used := p - na_base n\<rparr>"
      using True N P(2) by (simp add: na_free_def del: power_numeral)
    have "\<forall>c \<in> set ?bs. 0 < snd c \<and> na_base n \<le> fst c \<and> fst c + snd c \<le> p \<and> (al \<longrightarrow> 64 dvd fst c)"
    proof
      fix c assume c: "c \<in> set ?bs"
      then have "0 < snd c \<and> na_base n \<le> fst c \<and> fst c + snd c \<le> na_cur n \<and> (al \<longrightarrow> 64 dvd fst c)"
        using sub assms(1) unfolding na_ok_def by blast
      then show "0 < snd c \<and> na_base n \<le> fst c \<and> fst c + snd c \<le> p \<and> (al \<longrightarrow> 64 dvd fst c)" using A[OF c] True by (auto simp: apart_def)
    qed
    then show ?thesis unfolding b fst_conv snd_conv F using N P True S by (simp add: na_ok_def)
  next
    case False
    then have "na_free n p sz = n\<lparr>na_freed := wrap64 (na_freed n + sz)\<rparr>" using N P by (simp add: na_free_def del: power_numeral)
    moreover have "\<forall>c \<in> set ?bs. 0 < snd c \<and> na_base n \<le> fst c \<and> fst c + snd c \<le> na_cur n \<and> (al \<longrightarrow> 64 dvd fst c)"
      using sub assms(1) unfolding na_ok_def by blast
    moreover have "al \<longrightarrow> 64 dvd na_cur n" using assms(1) unfolding na_ok_def by blast
    ultimately show ?thesis unfolding b fst_conv snd_conv using N S unfolding na_ok_def by simp
  qed
qed

lemma na_run_ok:
  assumes "na_ok al (sum_list (map na_size ops)) n bs" "\<forall>sz. Alloc sz \<in> set ops \<or> AllocAligned sz \<in> set ops \<longrightarrow> 0 < sz \<and> (al \<longrightarrow> 64 dvd sz)"
    "\<not> al \<longrightarrow> (\<forall>sz. AllocAligned sz \<notin> set ops)"
  shows "\<exists>n' bs'. na_run n bs ops = Some (n', bs') \<and> na_ok al 0 n' bs' \<and> na_base n' = na_base n \<and> na_len n' = na_len n"
  using assms
proof (induction ops arbitrary: n bs)
  case (Cons op ops)
  have rest: "\<forall>sz. Alloc sz \<in> set ops \<or> AllocAligned sz \<in> set ops \<longrightarrow> 0 < sz \<and> (al \<longrightarrow> 64 dvd sz)"
    "\<not> al \<longrightarrow> (\<forall>sz. AllocAligned sz \<notin> set ops)" using Cons.prems(2,3) by auto
  have alloc: "\<exists>n' bs'. (case na_alloc n sz of None \<Rightarrow> None | Some (n1, p) \<Rightarrow> na_run n1 ((p, sz) # bs) ops) = Some (n', bs') \<and>
      na_ok al 0 n' bs' \<and> na_base n' = na_base n \<and> na_len n' = na_len n"
    if s: "na_size op = sz" "0 < sz" "al \<longrightarrow> 64 dvd sz" for sz
  proof -
    have "na_ok al (sz + sum_list (map na_size ops)) n bs" using Cons.prems(1) s(1) by simp
    then obtain n' p where A: "na_alloc n sz = Some (n', p)" "na_ok al (sum_list (map na_size ops)) n' ((p, sz) # bs)"
      "na_base n' = na_base n" "na_len n' = na_len n" by (rule na_alloc_ok[OF _ s(2,3)])
    then show ?thesis using Cons.IH[OF A(2) rest] by simp
  qed
  show ?case
  proof (cases op)
    case (Alloc sz)
    then show ?thesis using alloc[of sz] Cons.prems(2) by simp
  next
    case (AllocAligned sz)
    then have al: "al" "0 < sz" "64 dvd sz" using Cons.prems(2,3) by auto
    have "na_cur n < 2 ^ 64" "sz < 2 ^ 64" "64 dvd na_cur n" using Cons.prems(1) AllocAligned al(1) by (auto simp: na_ok_def)
    from na_alloc_aligned_same[OF this(3,2,1)] show ?thesis using alloc[of sz] AllocAligned al by simp
  next
    case (FreeBlock i)
    have base: "na_base (na_free n p sz) = na_base n" "na_len (na_free n p sz) = na_len n" for p sz by (simp_all add: na_free_def)
    have ok: "na_ok al (sum_list (map na_size ops)) n bs" using Cons.prems(1) FreeBlock by simp
    show ?thesis
    proof (cases "i < length bs")
      case True
      show ?thesis using Cons.IH[OF na_free_ok[OF ok True] rest] True FreeBlock base by simp
    next
      case False
      then show ?thesis using Cons.IH[OF ok rest] FreeBlock by simp
    qed
  qed
qed (auto simp: na_ok_def)

end
