(* ===== verification/Slab.thy ===== *)
theory Slab
  imports Prelude
begin

text \<open>
  \<^verbatim>\<open>src/slab.h\<close>: arrays of equal objects that many threads allocate from.  \<^verbatim>\<open>Allocate\<close> has two atomic parts: under
  the shared lock it takes the next number, under the exclusive lock it starts a new array if nobody was faster.
  A thread between them keeps the number it expects, \<open>sl_pc\<close>.  The objects that have been handed out are the
  pairs of an array and a position, \<open>sl_given\<close>.  The counter is an \<^verbatim>\<open>int\<close>; its wrap-around is written out.
\<close>

subsection \<open>State and atomic steps\<close>

record slab =
  sl_size :: nat
  sl_arrays :: nat
  sl_next :: int
  sl_pc :: "nat \<Rightarrow> int option"
  sl_given :: "(nat \<times> int) list"

definition wrap32 :: "int \<Rightarrow> int" where "wrap32 i = (i + 2 ^ 31) mod 2 ^ 32 - 2 ^ 31"

definition sl_new :: "nat \<Rightarrow> slab option" where
  "sl_new sz = (if 5 < sz then Some \<lparr>sl_size = sz, sl_arrays = 1, sl_next = 0, sl_pc = (\<lambda>_. None), sl_given = []\<rparr> else None)"

definition sl_fetch :: "slab \<Rightarrow> nat \<Rightarrow> slab" where
  "sl_fetch s t =
     (let n = sl_next s; s1 = s\<lparr>sl_next := wrap32 (n + 1)\<rparr>
      in if n < int (sl_size s) then s1\<lparr>sl_given := (sl_arrays s - 1, n) # sl_given s\<rparr>
         else s1\<lparr>sl_pc := (sl_pc s)(t \<mapsto> wrap32 (n + 1))\<rparr>)"

text \<open>\<^verbatim>\<open>compare_exchange_strong\<close>; when it fails the thread sleeps and starts again.\<close>

definition sl_swap :: "slab \<Rightarrow> nat \<Rightarrow> int \<Rightarrow> slab" where
  "sl_swap s t e =
     (let s1 = s\<lparr>sl_pc := (sl_pc s)(t := None)\<rparr>
      in if sl_next s = e
         then s1\<lparr>sl_next := 1, sl_arrays := sl_arrays s + 1, sl_given := (sl_arrays s, 0) # sl_given s\<rparr> else s1)"

inductive sl_step :: "slab \<Rightarrow> slab \<Rightarrow> bool" where
  fetch: "sl_pc s t = None \<Longrightarrow> sl_step s (sl_fetch s t)"
| swap: "sl_pc s t = Some e \<Longrightarrow> sl_step s (sl_swap s t e)"

inductive_cases sl_stepE: "sl_step s s'"

inductive sl_steps :: "slab \<Rightarrow> nat \<Rightarrow> slab \<Rightarrow> bool" where
  start: "sl_steps s 0 s"
| step: "sl_steps s n s1 \<Longrightarrow> sl_step s1 s2 \<Longrightarrow> sl_steps s (Suc n) s2"

subsection \<open>No object is handed out twice\<close>

definition sl_ok :: "nat \<Rightarrow> slab \<Rightarrow> bool" where
  "sl_ok n s \<longleftrightarrow> 5 < sl_size s \<and> 1 \<le> sl_arrays s \<and> 0 \<le> sl_next s \<and> sl_next s \<le> int (sl_size s + n) \<and> distinct (sl_given s) \<and>
     (\<forall>(a, i) \<in> set (sl_given s). a < sl_arrays s \<and> 0 \<le> i \<and> i < int (sl_size s) \<and> (a = sl_arrays s - 1 \<longrightarrow> i < sl_next s))"

lemma wrap32_small: "0 \<le> i \<Longrightarrow> i < 2 ^ 31 \<Longrightarrow> wrap32 i = i"
  by (simp add: wrap32_def)

lemma sl_fetch_ok:
  assumes "sl_ok n s" "sl_size s + Suc n < 2 ^ 31"
  shows "sl_ok (Suc n) (sl_fetch s t)"
proof -
  have w: "wrap32 (sl_next s + 1) = sl_next s + 1" using assms by (intro wrap32_small) (auto simp: sl_ok_def)
  show ?thesis
  proof (cases "sl_next s < int (sl_size s)")
    case True
    have "(sl_arrays s - 1, sl_next s) \<notin> set (sl_given s)" using assms(1) by (auto simp: sl_ok_def)
    moreover have "sl_arrays s - 1 < sl_arrays s" using assms(1) by (simp add: sl_ok_def)
    ultimately show ?thesis using assms(1) True by (auto simp: sl_fetch_def sl_ok_def Let_def w)
  next
    case False
    then show ?thesis using assms(1) by (auto simp: sl_fetch_def sl_ok_def Let_def w)
  qed
qed

lemma sl_swap_ok:
  assumes "sl_ok n s"
  shows "sl_ok (Suc n) (sl_swap s t e)"
proof (cases "sl_next s = e")
  case True
  have "(sl_arrays s, 0) \<notin> set (sl_given s)" using assms by (auto simp: sl_ok_def)
  then show ?thesis using assms True by (auto simp: sl_swap_def sl_ok_def Let_def)
next
  case False
  then show ?thesis using assms by (auto simp: sl_swap_def sl_ok_def Let_def)
qed

lemma sl_size_step: "sl_step s s' \<Longrightarrow> sl_size s' = sl_size s"
  by (auto elim!: sl_stepE simp: sl_fetch_def sl_swap_def Let_def)

lemma sl_steps_ok:
  "sl_steps s n s' \<Longrightarrow> sl_ok 0 s \<Longrightarrow> sl_size s + n < 2 ^ 31 \<Longrightarrow> sl_ok n s' \<and> sl_size s' = sl_size s"
proof (induction rule: sl_steps.induct)
  case (step s n s1 s2)
  then have IH: "sl_ok n s1" "sl_size s1 = sl_size s" by simp_all
  have z: "sl_size s1 + Suc n < 2 ^ 31" using step.prems(2) IH(2) by simp
  from step.hyps(2) show ?case
  proof (cases rule: sl_step.cases)
    case (fetch t)
    then show ?thesis using sl_fetch_ok[OF IH(1) z] IH(2) sl_size_step[OF step.hyps(2)] by simp
  next
    case (swap t e)
    then show ?thesis using sl_swap_ok[OF IH(1)] IH(2) sl_size_step[OF step.hyps(2)] by simp
  qed
qed simp

lemma sl_new_ok: "sl_new sz = Some s \<Longrightarrow> sl_ok 0 s \<and> sl_size s = sz"
  by (auto simp: sl_new_def sl_ok_def split: if_splits)

text \<open>A thread that runs alone gets an object after at most two steps.\<close>

lemma sl_alone:
  assumes "sl_pc s t = None" "sl_given (sl_fetch s t) = sl_given s"
  obtains e where "sl_pc (sl_fetch s t) t = Some e" "sl_given (sl_swap (sl_fetch s t) t e) = (sl_arrays s, 0) # sl_given s"
proof -
  have "\<not> sl_next s < int (sl_size s)" using assms(2) by (auto simp: sl_fetch_def Let_def)
  then have F: "sl_fetch s t = s\<lparr>sl_next := wrap32 (sl_next s + 1), sl_pc := (sl_pc s)(t \<mapsto> wrap32 (sl_next s + 1))\<rparr>"
    by (simp add: sl_fetch_def Let_def)
  show thesis by (rule that[of "wrap32 (sl_next s + 1)"]) (simp_all add: F sl_swap_def Let_def)
qed

end
