(* ===== verification/Bitops.thy ===== *)
theory Bitops
  imports Prelude
begin

text \<open>
  \<^verbatim>\<open>include/bitops.h\<close>: bitmaps of 32-bit words, used by the leaves with an index array.  A bitmap is a list of words;
  \<open>None\<close> is an access behind it.  \<^verbatim>\<open>num\<close> is a 64-bit word in the two searches for the first bit and a 32-bit
  word in the search for the next one, as in the code.
\<close>

subsection \<open>Single bits\<close>

definition bit_set :: "32 word list \<Rightarrow> nat \<Rightarrow> 32 word list option" where
  "bit_set ws nr =
     (if nr div 32 < length ws then Some (ws[nr div 32 := or (ws ! (nr div 32)) (push_bit (nr mod 32) 1)]) else None)"

definition bit_clear :: "32 word list \<Rightarrow> nat \<Rightarrow> 32 word list option" where
  "bit_clear ws nr =
     (if nr div 32 < length ws then Some (ws[nr div 32 := and (ws ! (nr div 32)) (not (push_bit (nr mod 32) 1))]) else None)"

definition bit_test :: "32 word list \<Rightarrow> nat \<Rightarrow> bool option" where
  "bit_test ws nr = (if nr div 32 < length ws then Some (odd (drop_bit (nr mod 32) (ws ! (nr div 32)))) else None)"

subsection \<open>Searches\<close>

text \<open>\<^verbatim>\<open>find_bit\<close>; zero never reaches the loop.\<close>

function find_bit_loop :: "32 word \<Rightarrow> nat \<Rightarrow> nat" where
  "find_bit_loop num offset = (if num = 0 \<or> odd num then offset else find_bit_loop (drop_bit 1 num) (Suc offset))"
  by pat_completeness auto
termination
proof (relation "measure (\<lambda>(num, offset). unat num)")
  fix num :: "32 word" and offset :: nat
  assume "\<not> (num = 0 \<or> odd num)"
  then have "0 < unat num" by (simp add: unat_gt_0)
  then have "unat num div 2 < unat num" by simp
  moreover have "unat (drop_bit 1 num) = unat num div 2" unfolding unat_drop_bit_eq by (simp add: drop_bit_eq_div)
  ultimately show "((drop_bit 1 num, Suc offset), (num, offset)) \<in> measure (\<lambda>(num, offset). unat num)"
    by (simp only: in_measure prod.case)
qed simp

declare find_bit_loop.simps [simp del]

definition find_bit :: "32 word \<Rightarrow> nat" where
  "find_bit num = (if num = 0 then 32 else find_bit_loop num 0)"

text \<open>The loop over the words stops at the first one that is not zero, with its position, or behind the last one.\<close>

fun scan_words :: "(32 word \<Rightarrow> bool) \<Rightarrow> 32 word list \<Rightarrow> nat \<Rightarrow> nat \<Rightarrow> (32 word option \<times> nat) option" where
  "scan_words stop [] n j = None"
| "scan_words stop (w # ws) n j =
     (if stop w then Some (Some w, Suc j)
      else if n - 1 = 0 then Some (None, Suc j) else scan_words stop ws (n - 1) (Suc j))"

definition low_bit :: "32 word \<Rightarrow> 32 word" where
  "low_bit w = (let num = ucast w :: 64 word in ucast (and num (- num)))"

definition find_first_bit :: "32 word list \<Rightarrow> nat \<Rightarrow> nat option" where
  "find_first_bit ws sz =
     (if sz = 0 then Some 0 else
        map_option
          (\<lambda>(w, p). let res = (case w of None \<Rightarrow> 32 | Some w \<Rightarrow> find_bit (low_bit w)) + (p * 4 - 4) * 8 in if res < sz then res else sz)
          (scan_words (\<lambda>w. (ucast w :: 64 word) \<noteq> 0) ws ((sz + 31) div 32) 0))"

text \<open>The negation is that of 64 bits, of a word whose upper half is zero.\<close>

definition find_first_zero_bit :: "32 word list \<Rightarrow> nat \<Rightarrow> nat option" where
  "find_first_zero_bit ws sz =
     (if sz = 0 then Some 0 else
        map_option
          (\<lambda>(w, p). let res = (case w of None \<Rightarrow> 32 | Some w \<Rightarrow> find_bit (ucast (not (ucast w :: 64 word)))) + (p * 4 - 4) * 8
             in if res < sz then res else sz)
          (scan_words (\<lambda>w. not (ucast w :: 64 word) \<noteq> 0) ws ((sz + 31) div 32) 0))"

definition find_next_bit :: "32 word list \<Rightarrow> nat \<Rightarrow> nat \<Rightarrow> nat option" where
  "find_next_bit ws sz offset =
     (if offset \<ge> sz then Some sz
      else let b = offset mod 32; i = offset div 32 in
        if b \<noteq> 0 then
          if i < length ws then
            let num = and (ws ! i) (push_bit b (not 0)); tmp = and num (- num); start = offset - b;
                res = (if tmp = 0 then 32 else find_bit tmp)
            in if res < 32 then Some (if start + res < sz then start + res else sz)
               else if start + 32 \<ge> sz then Some sz
               else map_option (\<lambda>r. start + 32 + r) (find_first_bit (drop (Suc i) ws) (sz - (start + 32)))
          else None
        else map_option (\<lambda>r. offset + r) (find_first_bit (drop i ws) (sz - offset)))"

subsection \<open>The first zero bit\<close>

lemma find_bit_loop_least:
  "num \<noteq> 0 \<Longrightarrow> (\<exists>k. find_bit_loop num offset = offset + k \<and> bit num k \<and> (\<forall>j < k. \<not> bit num j))"
proof (induction num offset rule: find_bit_loop.induct)
  case (1 num offset)
  show ?case
  proof (cases "odd num")
    case True
    then show ?thesis by (intro exI[of _ 0]) (simp add: find_bit_loop.simps bit_0)
  next
    case False
    have nz: "drop_bit 1 num \<noteq> 0"
    proof
      assume "drop_bit 1 num = 0"
      then have "num = 0" using False by (metis bits_ident One_nat_def drop_bit_Suc drop_bit_0 id_apply even_iff_mod_2_eq_zero div_mult_mod_eq add_0 mult_zero_left drop_bit_eq_div power_one_right)
      then show False using "1.prems" by simp
    qed
    then obtain k where k: "find_bit_loop (drop_bit 1 num) (Suc offset) = Suc offset + k" "bit (drop_bit 1 num) k" "\<forall>j < k. \<not> bit (drop_bit 1 num) j"
      using "1.IH" "1.prems" False by auto
    have "\<not> bit num j" if "j < Suc k" for j
      using that k(3) False by (cases j) (auto simp: bit_0 bit_drop_bit_eq)
    moreover have "find_bit_loop num offset = offset + Suc k" using k(1) False "1.prems" by (subst find_bit_loop.simps) simp
    moreover have "bit num (Suc k)" using k(2) by (simp add: bit_drop_bit_eq)
    ultimately show ?thesis by blast
  qed
qed

lemma find_bit_least:
  assumes "num \<noteq> 0"
  shows "bit num (find_bit num)" "\<And>j. j < find_bit num \<Longrightarrow> \<not> bit num j" "find_bit num < 32"
proof -
  obtain k where k: "find_bit_loop num 0 = 0 + k" "bit num k" "\<forall>j < k. \<not> bit num j" using find_bit_loop_least[OF assms] by blast
  then have f: "find_bit num = k" using assms by (simp add: find_bit_def)
  show "bit num (find_bit num)" "\<And>j. j < find_bit num \<Longrightarrow> \<not> bit num j" using k f by simp_all
  show "find_bit num < 32" using k(2) f bit_imp_le_length[of num k] by simp
qed

lemma not_ucast_nz: "not (ucast (w :: 32 word) :: 64 word) \<noteq> 0"
proof
  assume "not (ucast w :: 64 word) = 0"
  then have "bit (not (ucast w :: 64 word)) 63 = bit (0 :: 64 word) 63" by simp
  then show False using bit_imp_le_length[of w 63] by (auto simp: bit_not_iff bit_ucast_iff)
qed

lemma not_ucast: "ucast (not (ucast (w :: 32 word) :: 64 word)) = not w"
  by (rule bit_word_eqI) (simp add: bit_not_iff bit_ucast_iff)

lemma find_first_zero_bit_word:
  assumes "0 < sz"
  shows "find_first_zero_bit (w # ws) sz = Some (min (find_bit (not w)) sz)"
  using assms not_ucast_nz[of w] by (simp add: find_first_zero_bit_def not_ucast min_def Let_def)

lemma bit_test_word: "k < 32 \<Longrightarrow> bit_test (w # ws) k = Some (bit w k)"
  by (simp add: bit_test_def bit_iff_odd_drop_bit)

end
