(* ===== verification/UnSortBuncket.thy ===== *)
theory UnSortBuncket
  imports LeafContract "HOL-Library.Multiset"
begin

text \<open>
  \<^verbatim>\<open>src/pointer_bentry.h\<close>, lines 1432 to 1887: \<^verbatim>\<open>UnSortBuncket<256, 8>\<close>, the leaf that keeps its fifteen
  records in the order of their insertion.  It stands in the place of \<open>SortBuncket\<close> when the type
  \<^verbatim>\<open>buncket_t\<close> is switched to it.  Memory, addresses and \<open>raw\<close> are as in the theory of the sorted
  leaf.  \<^verbatim>\<open>std::sort\<close> is a stable sort here; the theorems about it assume distinct keys, where
  every sort gives the same result.

  The lemmas: a lookup is that of the association list of the records, for any contents; with distinct
  keys insertion, update, removal and the split act on the finite map of the records.
\<close>

subsection \<open>State\<close>

definition us_slots :: nat where "us_slots = 15"
definition us_size :: nat where "us_size = 256"

record usbuncket =
  us_next :: "nat option"
  us_entries :: nat
  us_max :: nat
  us_rec :: "kv list"

record usmem =
  um_cur :: nat
  um_end :: nat
  um_heap :: "nat \<Rightarrow> usbuncket option"
  um_raw :: "nat \<Rightarrow> kv list"
  um_expands :: u64

definition us_key :: "usbuncket \<Rightarrow> nat \<Rightarrow> u64" where "us_key b i = fst (us_rec b ! i)"
definition us_value :: "usbuncket \<Rightarrow> nat \<Rightarrow> u64" where "us_value b i = snd (us_rec b ! i)"

definition us_new :: "kv list \<Rightarrow> usbuncket" where
  "us_new raw = \<lparr>us_next = None, us_entries = 0, us_max = min ((us_size - (8 + 4)) div 16) 64, us_rec = raw\<rparr>"

subsection \<open>Operations\<close>

definition us_put_buf :: "usbuncket \<Rightarrow> u64 \<Rightarrow> u64 \<Rightarrow> nat \<Rightarrow> usbuncket \<times> status" where
  "us_put_buf b new_key value data_index =
     (if data_index \<ge> us_max b then (b, Full) else (b\<lparr>us_rec := (us_rec b)[data_index := (new_key, value)]\<rparr>, OK))"

text \<open>The counter is a bit field of eight bits.\<close>

definition us_put :: "usbuncket \<Rightarrow> u64 \<Rightarrow> u64 \<Rightarrow> usbuncket \<times> status" where
  "us_put b key value =
     (let (b1, ret) = us_put_buf b key value (us_entries b)
      in if ret \<noteq> OK then (b1, ret) else (b1\<lparr>us_entries := (us_entries b1 + 1) mod 256\<rparr>, OK))"

definition us_new_put :: "kv list \<Rightarrow> u64 \<Rightarrow> u64 \<Rightarrow> usbuncket" where
  "us_new_put raw key value = fst (us_put (us_new raw) key value)"

definition us_load :: "usbuncket \<Rightarrow> u64 list \<Rightarrow> u64 list \<Rightarrow> nat \<Rightarrow> usbuncket option" where
  "us_load b keys values cnt =
     (if us_entries b = 0 \<and> cnt < us_max b
      then Some (b\<lparr>us_rec := map (\<lambda>i. (keys ! i, values ! (cnt - i - 1))) [0..<cnt] @ drop cnt (us_rec b),
                   us_entries := us_entries b + cnt\<rparr>)
      else None)"

function us_find_from :: "usbuncket \<Rightarrow> u64 \<Rightarrow> nat \<Rightarrow> nat \<times> bool" where
  "us_find_from b target i =
     (if i < us_entries b then if us_key b i = target then (i, True) else us_find_from b target (Suc i)
      else (us_entries b, False))"
  by pat_completeness auto
termination by (relation "measure (\<lambda>(b, target, i). us_entries b - i)") auto

declare us_find_from.simps [simp del]

definition us_find :: "usbuncket \<Rightarrow> u64 \<Rightarrow> nat \<times> bool" where
  "us_find b target = us_find_from b target 0"

definition us_min_key :: "usbuncket \<Rightarrow> u64" where
  "us_min_key b = foldl (\<lambda>m i. if us_key b i < m then us_key b i else m) (us_key b 0) [1..<us_entries b]"

definition us_set_value :: "usbuncket \<Rightarrow> nat \<Rightarrow> u64 \<Rightarrow> usbuncket" where
  "us_set_value b pos value = b\<lparr>us_rec := (us_rec b)[pos := (us_key b pos, value)]\<rparr>"

definition us_update :: "usbuncket \<Rightarrow> u64 \<Rightarrow> u64 \<Rightarrow> usbuncket \<times> status" where
  "us_update b key value =
     (let (pos, find) = us_find b key in if \<not> find then (b, NoExist) else (us_set_value b pos value, OK))"

definition us_get :: "usbuncket \<Rightarrow> u64 \<Rightarrow> u64 option" where
  "us_get b key = (let (pos, find) = us_find b key in if \<not> find then None else Some (us_value b pos))"

text \<open>\<^verbatim>\<open>remove_key\<close>: the last of the first \<open>idx\<close> records goes to the place of the removed one.  The second result is what is
  written to the caller's value: nothing when the key is that of the last record.\<close>

definition us_remove :: "usbuncket \<Rightarrow> u64 \<Rightarrow> nat \<Rightarrow> usbuncket \<times> u64 option \<times> bool" where
  "us_remove b key idx =
     (let (pos, find) = us_find b key
      in if find then
           if pos + 1 = idx then (b, None, True)
           else (b\<lparr>us_rec := (us_rec b)[pos := us_rec b ! (idx - 1)]\<rparr>, Some (us_value b pos), True)
         else (b, None, False))"

definition us_delete :: "usbuncket \<Rightarrow> u64 \<Rightarrow> usbuncket \<times> status \<times> u64 option" where
  "us_delete b key =
     (case us_remove b key (us_entries b) of
        (b1, v, ret) \<Rightarrow> if \<not> ret then (b1, NoExist, v) else (b1\<lparr>us_entries := us_entries b1 - 1\<rparr>, OK, v))"

subsection \<open>Splitting\<close>

definition us_sorted_index :: "usbuncket \<Rightarrow> nat list" where
  "us_sorted_index b = sort_key (us_key b) [0..<us_entries b]"

definition us_allocate :: "usmem \<Rightarrow> (usmem \<times> nat) option" where
  "us_allocate m =
     (if um_cur m + us_size < um_end m then Some (m\<lparr>um_cur := um_cur m + us_size\<rparr>, um_cur m) else None)"

text \<open>The two loops of \<^verbatim>\<open>Expand_\<close>.  The second one reads the keys at the sorted positions while it moves records.\<close>

fun us_move :: "usbuncket \<Rightarrow> usbuncket \<Rightarrow> nat list \<Rightarrow> nat \<Rightarrow> usbuncket" where
  "us_move b nx [] idx = nx"
| "us_move b nx (i # is) idx = us_move b (fst (us_put_buf nx (us_key b i) (us_value b i) idx)) is (idx + 1)"

fun us_remove_all :: "usbuncket \<Rightarrow> nat list \<Rightarrow> nat \<Rightarrow> usbuncket" where
  "us_remove_all b [] idx = b"
| "us_remove_all b (i # is) idx = us_remove_all (fst (us_remove b (us_key b i) idx)) is (idx - 1)"

text \<open>An empty leaf has no sorted position to read; \<open>None\<close> is also the failed assertion and the full region.\<close>

definition us_expand :: "usmem \<Rightarrow> nat \<Rightarrow> (usmem \<times> nat \<times> u64) option" where
  "us_expand m a =
     do {
       b \<leftarrow> um_heap m a;
       let sx = us_sorted_index b;
       let mid = us_entries b div 2;
       let split_key = us_key b (sx ! mid);
       (if 0 < us_entries b \<and> us_key b (sx ! 0) < split_key then Some () else None);
       (m1, n) \<leftarrow> us_allocate m;
       let nx = us_move b (us_new (um_raw m n)) (drop mid sx) 0;
       let nx1 = nx\<lparr>us_entries := us_entries b - mid, us_next := us_next b\<rparr>;
       let b1 = (us_remove_all b (drop mid sx) (us_entries b))\<lparr>us_entries := mid, us_next := Some n\<rparr>;
       Some (m1\<lparr>um_heap := (um_heap m1)(n \<mapsto> nx1, a \<mapsto> b1), um_expands := um_expands m1 + 1\<rparr>, n, split_key)
     }"

subsection \<open>Scan and iteration\<close>

text \<open>The loop from the start key begins at the position \<^verbatim>\<open>sorted_index_[0]\<close>, which an empty leaf does not have.  In a following
  leaf that holds more than is wanted, the loop never advances: it reads the first record each time.\<close>

fun us_scan_loop :: "usbuncket \<Rightarrow> nat list \<Rightarrow> u64 \<Rightarrow> nat list \<Rightarrow> nat \<Rightarrow> kv list" where
  "us_scan_loop b sx start [] len = []"
| "us_scan_loop b sx start (i # is) len =
     (if len = 0 then []
      else if us_key b (sx ! i) \<ge> start then (us_key b (sx ! i), us_value b (sx ! i)) # us_scan_loop b sx start is (len - 1)
      else us_scan_loop b sx start is len)"

definition us_scan :: "usbuncket \<Rightarrow> u64 \<Rightarrow> nat \<Rightarrow> bool \<Rightarrow> (kv list \<times> status) option" where
  "us_scan b start len if_first =
     map_option (\<lambda>xs. (xs, if length xs < len then Failed else OK))
       (if if_first then
          let sx = us_sorted_index b
          in if us_entries b = 0 then None else Some (us_scan_loop b sx start [sx ! 0..<us_entries b] len)
        else if len \<ge> us_entries b then Some (map (\<lambda>pos. (us_key b pos, us_value b pos)) [0..<us_entries b])
        else Some (replicate len (us_key b 0, us_value b 0)))"

text \<open>The iterator: the sorted positions at its creation, and an index into them.\<close>

definition us_iter_from :: "usbuncket \<Rightarrow> u64 \<Rightarrow> u64 \<Rightarrow> nat list \<times> nat" where
  "us_iter_from b prefix_key start =
     (let sx = us_sorted_index b
      in (sx, if start \<le> prefix_key then 0 else length (takeWhile (\<lambda>i. us_key b i < start) sx)))"

definition us_iter_begin :: "usbuncket \<Rightarrow> nat list \<times> nat" where
  "us_iter_begin b = (us_sorted_index b, 0)"

definition us_iter_key :: "usbuncket \<Rightarrow> nat list \<times> nat \<Rightarrow> u64" where
  "us_iter_key b it = (if snd it < us_entries b then us_key b (fst it ! snd it) else 0)"

definition us_iter_value :: "usbuncket \<Rightarrow> nat list \<times> nat \<Rightarrow> u64" where
  "us_iter_value b it = (if snd it < us_entries b then us_value b (fst it ! snd it) else 0)"

text \<open>At the last record \<^verbatim>\<open>next\<close> answers no and stays.\<close>

definition us_iter_next :: "usbuncket \<Rightarrow> nat list \<times> nat \<Rightarrow> (nat list \<times> nat) \<times> bool" where
  "us_iter_next b it = (if int (snd it) \<ge> int (us_entries b) - 1 then (it, False) else ((fst it, snd it + 1), True))"

definition us_iter_end :: "usbuncket \<Rightarrow> nat list \<times> nat \<Rightarrow> bool" where
  "us_iter_end b it \<longleftrightarrow> snd it \<ge> us_entries b"

subsection \<open>Lookups\<close>

definition us_items :: "usbuncket \<Rightarrow> kv list" where
  "us_items b = take (us_entries b) (us_rec b)"

definition us_wf :: "usbuncket \<Rightarrow> bool" where
  "us_wf b \<longleftrightarrow> length (us_rec b) = us_slots \<and> us_max b = us_slots \<and> us_entries b \<le> us_slots \<and> distinct (map fst (us_items b))"

lemma us_new_wf: "length raw = us_slots \<Longrightarrow> us_wf (us_new raw) \<and> us_items (us_new raw) = []"
  by (simp add: us_wf_def us_items_def us_new_def us_slots_def us_size_def)

lemma length_us_items: "us_wf b \<Longrightarrow> length (us_items b) = us_entries b"
  by (simp add: us_wf_def us_items_def)

lemma us_wf_room: "us_wf b \<Longrightarrow> us_entries b \<le> length (us_rec b)"
  by (simp add: us_wf_def)

lemma nth_us_items: "i < us_entries b \<Longrightarrow> us_items b ! i = us_rec b ! i"
  by (simp add: us_items_def)

text \<open>The loop finds the first record with the key.\<close>

lemma us_find_from_first:
  assumes "\<forall>j < i. us_key b j \<noteq> t"
  shows "case us_find_from b t i of (p, f) \<Rightarrow>
    if f then p < us_entries b \<and> us_key b p = t \<and> (\<forall>j < p. us_key b j \<noteq> t) else \<forall>j < us_entries b. us_key b j \<noteq> t"
  using assms
proof (induction b t i rule: us_find_from.induct)
  case (1 b t i)
  show ?case
  proof (cases "i < us_entries b \<and> us_key b i \<noteq> t")
    case True
    then have e: "us_find_from b t i = us_find_from b t (Suc i)" by (subst us_find_from.simps) simp
    have s: "\<forall>j < Suc i. us_key b j \<noteq> t" using True "1.prems" less_Suc_eq by auto
    from True have "i < us_entries b" "us_key b i \<noteq> t" by simp_all
    from "1.IH"[OF this s] show ?thesis unfolding e .
  next
    case False
    then have e: "us_find_from b t i = (if i < us_entries b then (i, True) else (us_entries b, False))"
      by (subst us_find_from.simps) simp
    show ?thesis using False "1.prems" unfolding e by (simp split: if_split)
  qed
qed

lemma us_find_hit: "us_find b t = (p, True) \<Longrightarrow> p < us_entries b \<and> us_key b p = t \<and> (\<forall>j < p. us_key b j \<noteq> t)"
  using us_find_from_first[of 0 b t] by (simp add: us_find_def)

lemma us_find_miss: "us_find b t = (p, False) \<Longrightarrow> \<forall>j < us_entries b. us_key b j \<noteq> t"
  using us_find_from_first[of 0 b t] by (simp add: us_find_def)

lemma map_of_first:
  assumes "p < length xs" "fst (xs ! p) = k" "\<forall>j < p. fst (xs ! j) \<noteq> k"
  shows "map_of xs k = Some (snd (xs ! p))"
proof -
  have "\<forall>x \<in> set (take p xs). fst x \<noteq> k" using assms(1,3) by (fastforce simp: in_set_conv_nth)
  then have "map_of (take p xs) k = None" by (rule map_of_notin_range)
  moreover have "map_of xs k = map_of (take p xs @ xs ! p # drop (Suc p) xs) k" using assms(1) by (simp add: id_take_nth_drop[symmetric])
  ultimately show ?thesis using assms(2) by (cases "xs ! p") (simp add: map_add_def)
qed

lemma us_find_map:
  assumes "us_entries b \<le> length (us_rec b)"
  shows "us_find b k = (p, True) \<Longrightarrow> map_of (us_items b) k = Some (us_value b p)"
    and "us_find b k = (p, False) \<Longrightarrow> map_of (us_items b) k = None"
proof -
  have l: "length (us_items b) = us_entries b" using assms by (simp add: us_items_def)
  show "map_of (us_items b) k = Some (us_value b p)" if f: "us_find b k = (p, True)"
  proof -
    note H = us_find_hit[OF f]
    then have "map_of (us_items b) k = Some (snd (us_items b ! p))"
      using l by (intro map_of_first) (auto simp: us_key_def nth_us_items)
    then show ?thesis using H by (simp add: us_value_def nth_us_items)
  qed
  show "map_of (us_items b) k = None" if f: "us_find b k = (p, False)"
    using us_find_miss[OF f] l by (intro map_of_notin_range) (fastforce simp: in_set_conv_nth us_key_def nth_us_items)
qed

lemma us_get_map: "us_entries b \<le> length (us_rec b) \<Longrightarrow> us_get b k = map_of (us_items b) k"
  using us_find_map[of b k] by (cases "us_find b k") (auto simp: us_get_def)

subsection \<open>Insertion, update and removal\<close>

lemma us_put_items:
  assumes "us_entries b < us_max b" "us_max b \<le> length (us_rec b)" "us_max b < 256"
  shows "\<exists>b'. us_put b k v = (b', OK) \<and> us_items b' = us_items b @ [(k, v)] \<and> us_entries b' = Suc (us_entries b) \<and>
    us_max b' = us_max b \<and> length (us_rec b') = length (us_rec b) \<and> us_next b' = us_next b"
  using assms by (simp add: us_put_def us_put_buf_def us_items_def take_Suc_conv_app_nth)

lemma us_put_wf:
  assumes "us_wf b" "us_entries b < us_slots" "map_of (us_items b) k = None"
  shows "\<exists>b'. us_put b k v = (b', OK) \<and> us_wf b' \<and> us_items b' = us_items b @ [(k, v)] \<and> us_next b' = us_next b"
proof -
  obtain b' where b': "us_put b k v = (b', OK)" "us_items b' = us_items b @ [(k, v)]" "us_entries b' = Suc (us_entries b)"
    "us_max b' = us_max b" "length (us_rec b') = length (us_rec b)" "us_next b' = us_next b"
    using us_put_items[of b k v] assms(1,2) by (auto simp: us_wf_def us_slots_def)
  have "k \<notin> fst ` set (us_items b)" using assms(3) by (simp add: map_of_eq_None_iff)
  then have "us_wf b'" using assms(1,2) b' by (simp add: us_wf_def)
  then show ?thesis using b' by blast
qed

lemma us_put_full: "us_wf b \<Longrightarrow> us_entries b = us_slots \<Longrightarrow> us_put b k v = (b, Full)"
  by (simp add: us_put_def us_put_buf_def us_wf_def)

text \<open>\<^verbatim>\<open>Put\<close> does not look for the key: a second record of a key is never read.\<close>

lemma us_put_duplicate:
  assumes "us_entries b < us_max b" "us_max b \<le> length (us_rec b)" "us_max b < 256" "us_get b k = Some w"
  shows "\<exists>b'. us_put b k v = (b', OK) \<and> us_get b' = us_get b \<and> us_entries b' = Suc (us_entries b)"
proof -
  obtain b' where b': "us_put b k v = (b', OK)" "us_items b' = us_items b @ [(k, v)]" "us_entries b' = Suc (us_entries b)"
    "length (us_rec b') = length (us_rec b)" using us_put_items[OF assms(1-3)] by blast
  have "us_get b' x = us_get b x" for x
    using assms b' by (auto simp: us_get_map map_add_def split: option.splits)
  then show ?thesis using b' by blast
qed

lemma us_update_wf:
  assumes "us_wf b"
  shows "us_update b k v =
    (case map_of (us_items b) k of None \<Rightarrow> (b, NoExist) | Some w \<Rightarrow> (us_set_value b (fst (us_find b k)) v, OK))"
    and "map_of (us_items b) k \<noteq> None \<Longrightarrow> us_wf (us_set_value b (fst (us_find b k)) v) \<and>
      map_of (us_items (us_set_value b (fst (us_find b k)) v)) = (map_of (us_items b))(k \<mapsto> v)"
proof -
  obtain p f where F: "us_find b k = (p, f)" by fastforce
  note M = us_find_map[OF us_wf_room[OF assms], of k p] and l = length_us_items[OF assms]
  show "us_update b k v =
      (case map_of (us_items b) k of None \<Rightarrow> (b, NoExist) | Some w \<Rightarrow> (us_set_value b (fst (us_find b k)) v, OK))"
    using F M by (cases f) (simp_all add: us_update_def)
  assume "map_of (us_items b) k \<noteq> None"
  then have F: "us_find b k = (p, True)" using F M by (cases f) auto
  note H = us_find_hit[OF F]
  let ?b = "us_set_value b p v"
  have I: "us_items ?b = (us_items b)[p := (fst (us_items b ! p), v)]"
    using H by (simp add: us_items_def us_set_value_def take_update_swap us_key_def)
  have pl: "p < length (us_items b)" using H l by simp
  have d: "distinct (map fst (us_items b))" using assms by (simp add: us_wf_def)
  have "map fst (us_items ?b) = map fst (us_items b)"
    unfolding I using pl by (simp add: map_update list_update_same_conv)
  then have "us_wf ?b" using assms d by (simp add: us_wf_def us_set_value_def)
  moreover have "map_of (us_items ?b) = (map_of (us_items b))(k \<mapsto> v)"
    unfolding I using map_of_update_at[OF d pl] H by (simp add: us_key_def nth_us_items)
  ultimately show "us_wf (us_set_value b (fst (us_find b k)) v) \<and>
      map_of (us_items (us_set_value b (fst (us_find b k)) v)) = (map_of (us_items b))(k \<mapsto> v)" by (simp add: F)
qed

text \<open>Filling the place of a record with the last one of the first \<open>n\<close> removes it from them.\<close>

lemma mset_fill_hole:
  assumes "p < n" "n \<le> length r"
  shows "mset (take (n - 1) (if p + 1 = n then r else r[p := r ! (n - 1)])) = mset (take n r) - {#r ! p#}"
proof -
  obtain m where n: "n = Suc m" using assms(1) by (cases n) auto
  have t: "take n r = take m r @ [r ! m]" using assms(2) by (simp add: n take_Suc_conv_app_nth)
  show ?thesis
  proof (cases "p = m")
    case True
    then show ?thesis using t n by simp
  next
    case False
    then have p: "p < length (take m r)" using assms n by simp
    then have "mset ((take m r)[p := r ! m]) = add_mset (r ! m) (mset (take m r) - {#take m r ! p#})" by (rule mset_update)
    moreover have "r ! p \<in># mset (take m r)" using p nth_mem[OF p] by simp
    ultimately show ?thesis using False t n p by (simp add: take_update_swap)
  qed
qed

lemma us_delete_wf:
  assumes "us_wf b" "map_of (us_items b) k = Some v"
  shows "\<exists>b' out. us_delete b k = (b', OK, out) \<and> us_wf b' \<and> mset (us_items b') = mset (us_items b) - {#(k, v)#} \<and>
    map_of (us_items b') = (map_of (us_items b))(k := None) \<and> us_next b' = us_next b \<and>
    out = (if us_items b ! (us_entries b - 1) = (k, v) then None else Some v)"
proof -
  note l = length_us_items[OF assms(1)] and room = us_wf_room[OF assms(1)]
  have d: "distinct (map fst (us_items b))" using assms(1) by (simp add: us_wf_def)
  obtain p where F: "us_find b k = (p, True)"
    using us_find_map(2)[OF room, of k] assms(2) by (metis (full_types) option.distinct(1) surj_pair)
  note H = us_find_hit[OF F]
  have pv: "us_items b ! p = (k, v)" "us_rec b ! p = (k, v)"
    using us_find_map(1)[OF room F] assms(2) H by (simp_all add: us_value_def us_key_def prod_eq_iff nth_us_items)
  let ?n = "us_entries b"
  let ?r = "if p + 1 = ?n then us_rec b else (us_rec b)[p := us_rec b ! (?n - 1)]"
  let ?b = "b\<lparr>us_rec := ?r, us_entries := ?n - 1\<rparr>"
  have D: "us_delete b k = (?b, OK, if p + 1 = ?n then None else Some v)"
    using F H pv by (auto simp: us_delete_def us_remove_def us_value_def)
  have M: "mset (us_items ?b) = mset (us_items b) - {#(k, v)#}"
    using mset_fill_hole[of p ?n "us_rec b"] H room pv by (simp add: us_items_def)
  have kv: "(k, v) \<in># mset (us_items b)" using assms(2) map_of_SomeD by fastforce
  then have "mset (map fst (us_items b)) = add_mset k (mset (map fst (us_items ?b)))"
    unfolding mset_map M by (metis fst_conv image_mset_add_mset insert_DiffM)
  then have "mset (map fst (us_items b)) = mset (k # map fst (us_items ?b))" by simp
  then have d': "distinct (k # map fst (us_items ?b))" using d mset_eq_imp_distinct_iff by blast
  then have wf: "us_wf ?b" using assms(1) by (auto simp: us_wf_def)
  have S: "set (us_items b) = insert (k, v) (set (us_items ?b))"
    by (metis M insert_DiffM kv set_mset_add_mset_insert set_mset_mset)
  have "map_of (us_items ?b) x = ((map_of (us_items b))(k := None)) x" for x
  proof (cases "x = k")
    case True
    then show ?thesis using d' by (simp add: map_of_eq_None_iff)
  next
    case False
    have "map_of (us_items ?b) x = Some y \<longleftrightarrow> map_of (us_items b) x = Some y" for y
      using False d d' S by (simp add: map_of_eq_Some_iff)
    then show ?thesis using False by (metis fun_upd_other not_Some_eq)
  qed
  then have "map_of (us_items ?b) = (map_of (us_items b))(k := None)" by blast
  moreover have "us_items b ! (?n - 1) = (k, v) \<longleftrightarrow> p + 1 = ?n"
  proof
    assume e: "us_items b ! (?n - 1) = (k, v)"
    have i: "p < length (map fst (us_items b))" "?n - 1 < length (map fst (us_items b))" using H l by auto
    have "map fst (us_items b) ! (?n - 1) = map fst (us_items b) ! p" using e pv i by simp
    then have "?n - 1 = p" using nth_eq_iff_index_eq[OF d] i by blast
    then show "p + 1 = ?n" using H by linarith
  next
    assume "p + 1 = ?n"
    then have "?n - 1 = p" by simp
    then show "us_items b ! (?n - 1) = (k, v)" using pv(1) by simp
  qed
  ultimately show ?thesis using D wf M by (intro exI[of _ ?b] exI[of _ "if p + 1 = ?n then None else Some v"]) simp
qed

lemma us_delete_absent: "us_wf b \<Longrightarrow> map_of (us_items b) k = None \<Longrightarrow> us_delete b k = (b, NoExist, None)"
  using us_find_map[OF us_wf_room, of b k] by (cases "us_find b k") (auto simp: us_delete_def us_remove_def)

interpretation us_leaf: leaf_lookup us_wf us_items us_slots "\<lambda>b k v. Some (us_put b k v)" us_get
proof unfold_locales
  fix b :: usbuncket and k v :: u64
  assume b: "us_wf b"
  note l = length_us_items[OF b]
  show "distinct (map fst (us_items b))" using b by (simp add: us_wf_def)
  show "length (us_items b) \<le> us_slots" using b l by (simp add: us_wf_def)
  show "\<exists>b'. Some (us_put b k v) = Some (b', OK) \<and> us_wf b' \<and> set (us_items b') = insert (k, v) (set (us_items b))"
    if "length (us_items b) < us_slots" "map_of (us_items b) k = None"
    using us_put_wf[OF b, of k v] that l by auto
  show "Some (us_put b k v) = Some (b, Full)" if "length (us_items b) = us_slots"
    using us_put_full[OF b, of k v] that l by simp
  show "us_get b k = map_of (us_items b) k" by (rule us_get_map[OF us_wf_room[OF b]])
qed

text \<open>The smallest key.\<close>

lemma us_min_fold:
  "foldl (\<lambda>m i. if f i < m then f i else m) (x :: u64) is = Min (insert x (f ` set is))"
proof (induction "is" arbitrary: x)
  case (Cons i "is")
  show ?case unfolding foldl_Cons Cons.IH by (cases "is = []") (auto simp: min_def)
qed simp

lemma us_min_key_least:
  assumes "us_entries b \<le> length (us_rec b)" "0 < us_entries b"
  shows "us_min_key b = Min (fst ` set (us_items b))"
proof -
  have "set (us_items b) = (!) (us_rec b) ` {0..<us_entries b}"
    using nth_image[OF assms(1)] by (simp add: us_items_def atLeast0LessThan)
  also have "{0..<us_entries b} = insert 0 {1..<us_entries b}" using assms(2) by auto
  finally show ?thesis unfolding us_min_key_def us_min_fold by (simp add: image_image us_key_def)
qed

subsection \<open>Splitting\<close>

definition us_sorted :: "usbuncket \<Rightarrow> kv list" where
  "us_sorted b = sort_key fst (us_items b)"

lemma us_sorted_index_items:
  assumes "us_entries b \<le> length (us_rec b)"
  shows "map ((!) (us_rec b)) (us_sorted_index b) = us_sorted b"
proof -
  have "map ((!) (us_rec b)) [0..<us_entries b] = us_items b"
    using assms by (intro nth_equalityI) (simp_all add: us_items_def)
  then show ?thesis
    using map_sort_key[of "(!) (us_rec b)" fst "[0..<us_entries b]"]
    by (simp add: us_sorted_index_def us_sorted_def us_key_def[abs_def] comp_def)
qed

lemma us_sorted_facts:
  assumes "us_wf b"
  shows "keys_sorted (us_sorted b)" "mset (us_sorted b) = mset (us_items b)" "length (us_sorted b) = us_entries b"
proof -
  have "mset (map fst (us_sorted b)) = mset (map fst (us_items b))" by (simp add: us_sorted_def)
  from mset_eq_imp_distinct_iff[OF this] have "distinct (map fst (us_sorted b))" using assms by (simp add: us_wf_def)
  then show "keys_sorted (us_sorted b)" by (simp add: keys_sorted_def strict_sorted_iff us_sorted_def)
qed (simp_all add: us_sorted_def length_us_items[OF assms])

lemma us_move_rec:
  assumes "us_max nx \<le> length (us_rec nx)" "idx + length is \<le> us_max nx"
  shows "us_rec (us_move b nx is idx) = take idx (us_rec nx) @ map ((!) (us_rec b)) is @ drop (idx + length is) (us_rec nx) \<and>
    us_max (us_move b nx is idx) = us_max nx"
  using assms
proof (induction b nx "is" idx rule: us_move.induct)
  case (2 b nx i "is" idx)
  have i: "idx < us_max nx" "idx < length (us_rec nx)" using "2.prems" by auto
  then have p: "fst (us_put_buf nx (us_key b i) (us_value b i) idx) = nx\<lparr>us_rec := (us_rec nx)[idx := us_rec b ! i]\<rparr>"
    by (simp add: us_put_buf_def us_key_def us_value_def)
  show ?case using "2.IH" "2.prems" i unfolding us_move.simps(2) p by (simp add: take_Suc_conv_app_nth)
qed simp

text \<open>The removals: while records move, the positions that are still to come keep their keys.\<close>

lemma us_remove_all_rec:
  assumes "idx \<le> us_entries b" "us_entries b \<le> length (us_rec b)" "\<forall>i \<in> set is. us_rec b ! i = f i"
    and "mset (take idx (us_rec b)) = mset (lo @ map f is)" "distinct (map fst (lo @ map f is))"
  shows "mset (take (idx - length is) (us_rec (us_remove_all b is idx))) = mset lo \<and>
    length (us_rec (us_remove_all b is idx)) = length (us_rec b) \<and> us_max (us_remove_all b is idx) = us_max b"
  using assms
proof (induction "is" arbitrary: b idx)
  case (Cons i "is")
  have fi: "us_rec b ! i = f i" using Cons.prems(3) by simp
  let ?k = "us_key b i"
  have lt: "length (take idx (us_rec b)) = idx" using Cons.prems(1,2) by simp
  have "f i \<in># mset (take idx (us_rec b))" unfolding Cons.prems(4) by simp
  then obtain q where q: "q < idx" "us_rec b ! q = f i" using lt by (auto simp: in_set_conv_nth)
  have dt: "distinct (map fst (take idx (us_rec b)))"
    using Cons.prems(4,5) by (metis mset_eq_imp_distinct_iff mset_map)
  obtain p where F: "us_find b ?k = (p, True)"
    proof -
    obtain p f where pf: "us_find b ?k = (p, f)" by fastforce
    have "us_key b q = ?k" "q < us_entries b" using q fi Cons.prems(1) by (simp_all add: us_key_def)
    then have f using us_find_miss[of b ?k p] pf by (cases f) auto
    then show thesis using that pf by simp
  qed
  note H = us_find_hit[OF F]
  have "p \<le> q" using H q fi by (metis leI us_key_def)
  then have "p = q" using H q fi nth_eq_iff_index_eq[OF dt, of p q] lt by (simp add: us_key_def)
  then have p: "p < idx" "us_rec b ! p = f i" using q by auto
  let ?r = "if p + 1 = idx then us_rec b else (us_rec b)[p := us_rec b ! (idx - 1)]"
  let ?b = "b\<lparr>us_rec := ?r\<rparr>"
  have b: "fst (us_remove b ?k idx) = ?b" using F by (simp add: us_remove_def)
  have keep: "\<forall>j \<in> set is. us_rec ?b ! j = f j"
  proof
    fix j assume j: "j \<in> set is"
    have "fst (f i) \<notin> set (map fst (map f is))" using Cons.prems(5) by simp
    then have "fst (f j) \<noteq> fst (f i)" using j by (metis image_eqI list.set_map)
    moreover have "us_rec b ! j = f j" using Cons.prems(3) j by simp
    ultimately show "us_rec ?b ! j = f j" using p by (cases "j = p") simp_all
  qed
  have "mset (take (idx - 1) (us_rec ?b)) = mset (take idx (us_rec b)) - {#f i#}"
    using mset_fill_hole[of p idx "us_rec b"] p Cons.prems(1,2) by simp
  also have "\<dots> = mset (lo @ map f is)" unfolding Cons.prems(4) by simp
  finally have m: "mset (take (idx - 1) (us_rec ?b)) = mset (lo @ map f is)" .
  have "mset (take (idx - 1 - length is) (us_rec (us_remove_all ?b is (idx - 1)))) = mset lo \<and>
      length (us_rec (us_remove_all ?b is (idx - 1))) = length (us_rec ?b) \<and> us_max (us_remove_all ?b is (idx - 1)) = us_max ?b"
    by (rule Cons.IH[OF _ _ keep m]) (use Cons.prems in auto)
  then show ?case by (simp add: b)
qed simp

lemma us_expand_wf:
  assumes "um_heap m a = Some b" "us_wf b" "2 \<le> us_entries b" "um_cur m + us_size < um_end m"
    "length (um_raw m (um_cur m)) = us_slots"
  shows "\<exists>m' b1 b2. us_expand m a = Some (m', um_cur m, fst (us_sorted b ! (us_entries b div 2))) \<and>
    um_heap m' = (um_heap m)(um_cur m \<mapsto> b2, a \<mapsto> b1) \<and> us_wf b1 \<and> us_wf b2 \<and>
    mset (us_items b1) = mset (take (us_entries b div 2) (us_sorted b)) \<and> us_items b2 = drop (us_entries b div 2) (us_sorted b) \<and>
    us_next b1 = Some (um_cur m) \<and> us_next b2 = us_next b \<and> um_cur m' = um_cur m + us_size"
proof -
  let ?n = "us_entries b" and ?sx = "us_sorted_index b" and ?S = "us_sorted b" and ?N = "um_cur m"
  let ?h = "?n div 2"
  note room = us_wf_room[OF assms(2)] and SF = us_sorted_facts[OF assms(2)]
  have W: "length (us_rec b) = us_slots" "us_max b = us_slots" "?n \<le> us_slots" using assms(2) by (simp_all add: us_wf_def)
  have SX: "map ((!) (us_rec b)) ?sx = ?S" by (rule us_sorted_index_items[OF room])
  have lsx: "length ?sx = ?n" using arg_cong[OF SX, of length] SF(3) by simp
  have h: "0 < ?h" "?h < ?n" using assms(3) by auto
  have key: "us_key b (?sx ! i) = fst (?S ! i)" if "i < ?n" for i
    using that lsx by (simp add: SX[symmetric] us_key_def)
  have less: "us_key b (?sx ! 0) < us_key b (?sx ! ?h)"
    using keys_sorted_nth[OF SF(1) h(1)] h SF(3) by (simp add: key)
  have du: "map ((!) (us_rec b)) (drop ?h ?sx) = drop ?h ?S" using SX by (simp add: drop_map[symmetric])
  let ?nx = "us_new (um_raw m ?N)"
  have nx: "us_max ?nx = us_slots" "us_rec ?nx = um_raw m ?N" by (simp_all add: us_new_def us_slots_def us_size_def)
  have MV: "us_rec (us_move b ?nx (drop ?h ?sx) 0) = drop ?h ?S @ drop (?n - ?h) (um_raw m ?N) \<and> us_max (us_move b ?nx (drop ?h ?sx) 0) = us_slots"
    using us_move_rec[of ?nx 0 "drop ?h ?sx" b] nx assms(5) W lsx du by simp
  let ?b2 = "(us_move b ?nx (drop ?h ?sx) 0)\<lparr>us_entries := ?n - ?h, us_next := us_next b\<rparr>"
  have b2i: "us_items ?b2 = drop ?h ?S" using MV SF(3) by (simp add: us_items_def)
  have dS: "distinct (map fst ?S)" using SF(1) by (rule keys_sorted_distinct)
  have "length (us_rec ?b2) = us_slots" using MV assms(5) SF(3) W h by simp
  then have b2: "us_wf ?b2" unfolding us_wf_def b2i using MV W dS by (simp add: drop_map[symmetric])
  let ?rb = "us_remove_all b (drop ?h ?sx) ?n"
  have RA: "mset (take (?n - length (drop ?h ?sx)) (us_rec ?rb)) = mset (take ?h ?S) \<and>
      length (us_rec ?rb) = length (us_rec b) \<and> us_max ?rb = us_max b"
  proof (rule us_remove_all_rec)
    show "mset (take ?n (us_rec b)) = mset (take ?h ?S @ map ((!) (us_rec b)) (drop ?h ?sx))"
      unfolding du using SF(2) by (simp add: us_items_def)
    show "distinct (map fst (take ?h ?S @ map ((!) (us_rec b)) (drop ?h ?sx)))" unfolding du using dS by simp
  qed (use room in auto)
  let ?b1 = "?rb\<lparr>us_entries := ?h, us_next := Some ?N\<rparr>"
  have "?n - (?n - ?h) = ?h" using h by simp
  then have b1m: "mset (us_items ?b1) = mset (take ?h ?S)" using RA lsx by (simp add: us_items_def)
  then have "mset (map fst (us_items ?b1)) = mset (map fst (take ?h ?S))" by simp
  then have "distinct (map fst (us_items ?b1))" using dS mset_eq_imp_distinct_iff by (metis distinct_take take_map)
  then have b1: "us_wf ?b1" unfolding us_wf_def using RA W h by simp
  have "us_expand m a = Some (m\<lparr>um_cur := ?N + us_size, um_heap := (um_heap m)(?N \<mapsto> ?b2, a \<mapsto> ?b1),
      um_expands := um_expands m + 1\<rparr>, ?N, us_key b (?sx ! ?h))"
    using assms(1,4) less h by (simp add: us_expand_def us_allocate_def Let_def)
  then show ?thesis using b1 b2 b1m b2i h key[of ?h] by (intro exI conjI) (assumption | simp)+
qed

text \<open>The halves of a split, as lookups.\<close>

lemma map_of_halves:
  assumes "keys_sorted xs" "h < length xs"
  shows "map_of (take h xs) k = (if k < fst (xs ! h) then map_of xs k else None)"
    "map_of (drop h xs) k = (if fst (xs ! h) \<le> k then map_of xs k else None)"
proof -
  let ?s = "fst (xs ! h)"
  have "\<forall>x \<in> set (take h xs). fst x < ?s"
    using keys_sorted_nth[OF assms(1) _ assms(2)] by (metis in_set_conv_nth length_take min_less_iff_conj nth_take)
  then have lo: "map_of (take h xs) k = None" if "?s \<le> k" for k using that by (intro map_of_notin_range) auto
  have "drop h xs = xs ! h # drop (Suc h) xs" using assms(2) by (simp add: Cons_nth_drop_Suc)
  moreover have "keys_sorted (drop h xs)" by (rule keys_sorted_drop[OF assms(1)])
  ultimately have "\<forall>x \<in> set (drop h xs). ?s \<le> fst x" by (auto simp: keys_sorted_Cons less_imp_le)
  then have hi: "map_of (drop h xs) k = None" if "k < ?s" for k using that by (intro map_of_notin_range) auto
  have "map_of xs k = map_of (take h xs @ drop h xs) k" by simp
  then have m: "map_of xs k = (case map_of (take h xs) k of None \<Rightarrow> map_of (drop h xs) k | Some v \<Rightarrow> Some v)"
    using lo hi unfolding map_of_append by (cases "k < ?s") (auto simp: map_add_def not_less split: option.splits)
  show "map_of (take h xs) k = (if k < ?s then map_of xs k else None)"
    using m lo hi by (auto split: option.splits simp: not_less)
  show "map_of (drop h xs) k = (if ?s \<le> k then map_of xs k else None)"
    using m lo hi by (auto split: option.splits simp: not_le)
qed

lemma us_expand_lookups:
  assumes "um_heap m a = Some b" "us_wf b" "2 \<le> us_entries b" "um_cur m + us_size < um_end m"
    "length (um_raw m (um_cur m)) = us_slots"
  shows "\<exists>m' b1 b2 s. us_expand m a = Some (m', um_cur m, s) \<and> um_heap m' = (um_heap m)(um_cur m \<mapsto> b2, a \<mapsto> b1) \<and>
    us_wf b1 \<and> us_wf b2 \<and> us_next b1 = Some (um_cur m) \<and> us_next b2 = us_next b \<and>
    us_get b1 = (\<lambda>k. if k < s then us_get b k else None) \<and> us_get b2 = (\<lambda>k. if s \<le> k then us_get b k else None) \<and>
    us_entries b1 = us_entries b div 2 \<and> us_entries b2 = us_entries b - us_entries b div 2"
proof -
  let ?h = "us_entries b div 2" and ?S = "us_sorted b"
  note SF = us_sorted_facts[OF assms(2)]
  obtain m' b1 b2 where E: "us_expand m a = Some (m', um_cur m, fst (?S ! ?h))"
    "um_heap m' = (um_heap m)(um_cur m \<mapsto> b2, a \<mapsto> b1)" "us_wf b1" "us_wf b2"
    "mset (us_items b1) = mset (take ?h ?S)" "us_items b2 = drop ?h ?S"
    "us_next b1 = Some (um_cur m)" "us_next b2 = us_next b"
    using us_expand_wf[OF assms] by blast
  have h: "?h < length ?S" using assms(3) SF(3) by simp
  have dS: "distinct (map fst ?S)" by (rule keys_sorted_distinct[OF SF(1)])
  have get: "us_get x = map_of (us_items x)" if "us_wf x" for x using us_get_map[OF us_wf_room[OF that]] by blast
  have d: "distinct (map fst (us_items x))" if "us_wf x" for x using that by (simp add: us_wf_def)
  have "set (us_items b) = set ?S" using SF(2) by (metis set_mset_mset)
  then have S: "map_of (us_items b) = map_of ?S" using map_of_inject_set[OF d[OF assms(2)] dS] by simp
  have "set (us_items b1) = set (take ?h ?S)" using E(5) by (metis set_mset_mset)
  then have "map_of (us_items b1) = map_of (take ?h ?S)"
    using map_of_inject_set[OF d[OF E(3)], of "take ?h ?S"] dS by (simp add: take_map[symmetric])
  then have "us_get b1 = (\<lambda>k. if k < fst (?S ! ?h) then us_get b k else None)"
    using map_of_halves(1)[OF SF(1) h] by (auto simp: get E(3) assms(2) S)
  moreover have "us_get b2 = (\<lambda>k. if fst (?S ! ?h) \<le> k then us_get b k else None)"
    using map_of_halves(2)[OF SF(1) h] by (auto simp: get E(4,6) assms(2) S)
  moreover have "us_entries b1 = ?h" using length_us_items[OF E(3)] mset_eq_length[OF E(5)] h by simp
  moreover have "us_entries b2 = us_entries b - ?h" using length_us_items[OF E(4)] E(6) SF(3) by simp
  ultimately show ?thesis using E(1,2,3,4,7,8) by blast
qed

subsection \<open>Scan and iteration\<close>

lemma us_scan_loop_take:
  "us_scan_loop b sx start is len = take len (filter (\<lambda>x. start \<le> fst x) (map (\<lambda>i. us_rec b ! (sx ! i)) is))"
  by (induction b sx start "is" len rule: us_scan_loop.induct) (auto simp: us_key_def us_value_def take_Cons')

text \<open>A scan from the start key leaves out as many of the smallest records as the place of the smallest one tells.\<close>

lemma us_scan_skips:
  assumes "us_wf b" "0 < us_entries b"
  shows "\<exists>p < us_entries b. us_rec b ! p = us_sorted b ! 0 \<and>
    map_option fst (us_scan b start len True) = Some (take len (filter (\<lambda>x. start \<le> fst x) (drop p (us_sorted b))))"
proof -
  let ?sx = "us_sorted_index b" and ?S = "us_sorted b"
  have SX: "map ((!) (us_rec b)) ?sx = ?S" by (rule us_sorted_index_items[OF us_wf_room[OF assms(1)]])
  have l: "length ?sx = us_entries b" by (simp add: us_sorted_index_def)
  let ?p = "?sx ! 0"
  have "?p \<in> set ?sx" using l assms(2) by (intro nth_mem) simp
  then have p: "?p < us_entries b" by (simp add: us_sorted_index_def)
  have "map (\<lambda>i. us_rec b ! (?sx ! i)) [?p..<us_entries b] = drop ?p ?S"
    using l by (intro nth_equalityI) (simp_all add: SX[symmetric])
  then have "map_option fst (us_scan b start len True) = Some (take len (filter (\<lambda>x. start \<le> fst x) (drop ?p ?S)))"
    using assms(2) by (simp add: us_scan_def us_scan_loop_take Let_def)
  moreover have "us_rec b ! ?p = ?S ! 0" using l assms(2) by (simp add: SX[symmetric])
  ultimately show ?thesis using p by blast
qed

lemma us_scan_next_repeats:
  "us_scan b start len False = Some (if us_entries b \<le> len
     then (map ((!) (us_rec b)) [0..<us_entries b], if us_entries b < len then Failed else OK)
     else (replicate len (us_rec b ! 0), OK))"
  by (simp add: us_scan_def us_key_def us_value_def)

text \<open>The iterator reads the records in key order; it never reaches its end.\<close>

lemma us_iter_steps:
  assumes "snd it < us_entries b"
  shows "((\<lambda>it. fst (us_iter_next b it)) ^^ n) it = (fst it, min (snd it + n) (us_entries b - 1))"
  using assms by (induction n) (auto simp: us_iter_next_def prod_eq_iff)

lemma us_iter_never_ends: "snd it < us_entries b \<Longrightarrow> \<not> us_iter_end b (((\<lambda>it. fst (us_iter_next b it)) ^^ n) it)"
  by (simp add: us_iter_steps us_iter_end_def min_def) linarith

lemma us_iter_reads:
  assumes "us_wf b" "n < us_entries b"
  shows "let it = ((\<lambda>it. fst (us_iter_next b it)) ^^ n) (us_iter_begin b)
    in (us_iter_key b it, us_iter_value b it) = us_sorted b ! n \<and> snd (us_iter_next b it) = (n + 1 < us_entries b)"
proof -
  have "length (us_sorted_index b) = us_entries b" by (simp add: us_sorted_index_def)
  moreover have "((\<lambda>it. fst (us_iter_next b it)) ^^ n) (us_iter_begin b) = (us_sorted_index b, n)"
    using assms(2) us_iter_steps[of "us_iter_begin b" b n] by (simp add: us_iter_begin_def)
  ultimately show ?thesis using assms(2) us_sorted_index_items[OF us_wf_room[OF assms(1)]]
    by (auto simp: us_iter_key_def us_iter_value_def us_iter_next_def us_key_def us_value_def)
      (metis nth_map prod.collapse)
qed

lemma takeWhile_index: "length (takeWhile P (map f xs)) = length (takeWhile (\<lambda>i. P (f i)) xs)"
  by (simp add: takeWhile_map comp_def)

lemma us_iter_from_start:
  assumes "us_wf b" "prefix_key < start"
  shows "drop (snd (us_iter_from b prefix_key start)) (us_sorted b) = filter (\<lambda>x. start \<le> fst x) (us_sorted b)"
proof -
  have "snd (us_iter_from b prefix_key start) = length (takeWhile (\<lambda>x. fst x < start) (us_sorted b))"
    using assms(2) us_sorted_index_items[OF us_wf_room[OF assms(1)], symmetric]
      takeWhile_index[of "\<lambda>x. fst x < start" "(!) (us_rec b)" "us_sorted_index b"]
    by (auto simp: us_iter_from_def us_key_def Let_def)
  then show ?thesis using dropWhile_sorted[OF us_sorted_facts(1)[OF assms(1)], of start] by (simp add: dropWhile_eq_drop)
qed

end
