(* ===== verification/IndexBuncket.thy ===== *)
theory IndexBuncket
  imports Search Bitops LeafContract
begin

text \<open>
  \<^verbatim>\<open>src/pointer_bentry.h\<close>, lines 446 to 798: \<^verbatim>\<open>Buncket<256, 8>\<close> as it is compiled without prefix compression, the leaf
  that leaves its fourteen records where they were put: a bitmap tells the slots in use, and an array
  of slot numbers gives the records in key order.  It stands in the place of \<open>SortBuncket\<close> when the
  type \<^verbatim>\<open>buncket_t\<close> is switched to it.  Of the bitmap's six bytes the model has the first 32-bit word: the
  search for a zero bit looks at no other one, and a slot behind the fourteen records is outside the
  memory of the leaf, \<open>None\<close>.

  The lemmas: the slots in use are those of the index array, so a free slot is found whenever there is
  room, and all operations act on the sorted list of pairs.
\<close>

subsection \<open>State\<close>

definition bk_slots :: nat where "bk_slots = 14"
definition bk_size :: nat where "bk_size = 256"

record buncket =
  bk_next :: "nat option"
  bk_entries :: nat
  bk_max :: nat
  bk_bitmap :: u32
  bk_index :: "nat list"
  bk_buf :: "kv list"

record bkmem =
  bm_cur :: nat
  bm_end :: nat
  bm_heap :: "nat \<Rightarrow> buncket option"
  bm_raw :: "nat \<Rightarrow> nat list \<times> kv list"

definition bk_key :: "buncket \<Rightarrow> nat \<Rightarrow> u64" where "bk_key b i = fst (bk_buf b ! (bk_index b ! i))"
definition bk_value :: "buncket \<Rightarrow> nat \<Rightarrow> u64" where "bk_value b i = snd (bk_buf b ! (bk_index b ! i))"

definition bk_new :: "nat list \<times> kv list \<Rightarrow> buncket" where
  "bk_new raw = \<lparr>bk_next = None, bk_entries = 0, bk_max = min ((bk_size - (16 + 16)) div 16) 16, bk_bitmap = 0,
                 bk_index = fst raw, bk_buf = snd raw\<rparr>"

subsection \<open>Operations\<close>

definition bk_set_bit :: "buncket \<Rightarrow> nat \<Rightarrow> buncket option" where
  "bk_set_bit b i = map_option (\<lambda>ws. b\<lparr>bk_bitmap := hd ws\<rparr>) (bit_set [bk_bitmap b] i)"

definition bk_delete_pos :: "buncket \<Rightarrow> nat \<Rightarrow> buncket option" where
  "bk_delete_pos b pos = map_option (\<lambda>ws. b\<lparr>bk_bitmap := hd ws\<rparr>) (bit_clear [bk_bitmap b] pos)"

text \<open>The result: the leaf, the status and the slot.\<close>

definition bk_put_buf :: "buncket \<Rightarrow> u64 \<Rightarrow> u64 \<Rightarrow> (buncket \<times> status \<times> nat) option" where
  "bk_put_buf b new_key value =
     do {
       target \<leftarrow> find_first_zero_bit [bk_bitmap b] 40;
       if bk_entries b \<ge> bk_max b then Some (b, Full, 0)
       else if target < length (bk_buf b) then do {
         b1 \<leftarrow> bk_set_bit (b\<lparr>bk_buf := (bk_buf b)[target := (new_key, value)]\<rparr>) target;
         Some (b1, OK, target)
       }
       else None
     }"

definition bk_find :: "buncket \<Rightarrow> u64 \<Rightarrow> int \<times> bool" where
  "bk_find b target = bsearch (bk_key b) target 0 (int (bk_entries b) - 1)"

definition bk_min_key :: "buncket \<Rightarrow> u64" where "bk_min_key b = bk_key b 0"

text \<open>\<^verbatim>\<open>memmove\<close> of the index array, of \<open>n\<close> entries in use before the move: one position up from \<open>pos\<close> on, with the
  slot put there, and one position down onto \<open>pos\<close>, where the entry behind the last one keeps its copy.\<close>

definition index_insert :: "nat list \<Rightarrow> nat \<Rightarrow> nat \<Rightarrow> nat \<Rightarrow> nat list" where
  "index_insert xs n pos slot = take pos xs @ slot # drop pos (take n xs) @ drop (n + 1) xs"

definition index_remove :: "nat list \<Rightarrow> nat \<Rightarrow> nat \<Rightarrow> nat list" where
  "index_remove xs n pos = take pos xs @ drop (pos + 1) (take n xs) @ drop (n - 1) xs"

definition bk_put :: "buncket \<Rightarrow> u64 \<Rightarrow> u64 \<Rightarrow> (buncket \<times> status) option" where
  "bk_put b key value =
     (let (pos, find) = bk_find b key
      in if find then Some (b, Exist)
         else do {
           (b1, ret, idx) \<leftarrow> bk_put_buf b key value;
           if ret \<noteq> OK then Some (b1, ret)
           else Some (b1\<lparr>bk_entries := (bk_entries b1 + 1) mod 256,
                         bk_index := index_insert (bk_index b1) (bk_entries b1) (nat pos) idx\<rparr>, OK)
         })"

definition bk_new_put :: "nat list \<times> kv list \<Rightarrow> u64 \<Rightarrow> u64 \<Rightarrow> buncket option" where
  "bk_new_put raw key value = map_option fst (bk_put (bk_new raw) key value)"

definition bk_set_value :: "buncket \<Rightarrow> nat \<Rightarrow> u64 \<Rightarrow> buncket" where
  "bk_set_value b slot value = b\<lparr>bk_buf := (bk_buf b)[slot := (fst (bk_buf b ! slot), value)]\<rparr>"

definition bk_update :: "buncket \<Rightarrow> u64 \<Rightarrow> u64 \<Rightarrow> buncket \<times> status" where
  "bk_update b key value =
     (let (pos, find) = bk_find b key
      in if \<not> find \<or> bk_value b (nat pos) = 0 then (b, NoExist)
         else (bk_set_value b (bk_index b ! nat pos) value, OK))"

definition bk_get :: "buncket \<Rightarrow> u64 \<Rightarrow> u64 option" where
  "bk_get b key =
     (let (pos, find) = bk_find b key
      in if \<not> find \<or> bk_value b (nat pos) = 0 then None else Some (bk_value b (nat pos)))"

text \<open>\<^verbatim>\<open>Delete\<close>: the value is read at the position of the key after the index array has been moved.\<close>

definition bk_delete :: "buncket \<Rightarrow> u64 \<Rightarrow> (buncket \<times> status \<times> u64 option) option" where
  "bk_delete b key =
     (let (pos, find) = bk_find b key
      in if \<not> find \<or> bk_value b (nat pos) = 0 then Some (b, NoExist, None)
         else do {
           b1 \<leftarrow> bk_delete_pos b (bk_index b ! nat pos);
           let b2 = (if nat pos + 1 < bk_entries b1
                     then b1\<lparr>bk_index := index_remove (bk_index b1) (bk_entries b1) (nat pos)\<rparr> else b1);
           let b3 = b2\<lparr>bk_entries := bk_entries b2 - 1\<rparr>;
           Some (b3, OK, Some (bk_value b3 (nat pos)))
         })"

text \<open>\<^verbatim>\<open>Load\<close>: the values come in reverse order.\<close>

fun bk_load_loop :: "buncket \<Rightarrow> u64 list \<Rightarrow> u64 list \<Rightarrow> nat \<Rightarrow> nat list \<Rightarrow> buncket option" where
  "bk_load_loop b keys values count [] = Some b"
| "bk_load_loop b keys values count (i # is) =
     do {
       b1 \<leftarrow> bk_set_bit (b\<lparr>bk_buf := (bk_buf b)[i := (keys ! i, values ! (count - i - 1))]\<rparr>) i;
       bk_load_loop (b1\<lparr>bk_index := (bk_index b1)[i := i], bk_entries := bk_entries b1 + 1\<rparr>) keys values count is
     }"

definition bk_load :: "buncket \<Rightarrow> u64 list \<Rightarrow> u64 list \<Rightarrow> nat \<Rightarrow> buncket option" where
  "bk_load b keys values count =
     (if bk_entries b = 0 \<and> count < bk_max b then bk_load_loop b keys values count [0..<count] else None)"

subsection \<open>Splitting\<close>

definition bk_allocate :: "bkmem \<Rightarrow> (bkmem \<times> nat) option" where
  "bk_allocate m =
     (if bm_cur m + bk_size < bm_end m then Some (m\<lparr>bm_cur := bm_cur m + bk_size\<rparr>, bm_cur m) else None)"

fun bk_push_all :: "buncket \<Rightarrow> kv list \<Rightarrow> buncket option" where
  "bk_push_all b [] = Some b"
| "bk_push_all b ((k, v) # xs) = do { (b1, ret) \<leftarrow> bk_put b k v; bk_push_all b1 xs }"

fun bk_clear_all :: "buncket \<Rightarrow> nat list \<Rightarrow> buncket option" where
  "bk_clear_all b [] = Some b"
| "bk_clear_all b (s # ss) = do { b1 \<leftarrow> bk_delete_pos b s; bk_clear_all b1 ss }"

definition bk_expand :: "bkmem \<Rightarrow> nat \<Rightarrow> (bkmem \<times> nat \<times> u64) option" where
  "bk_expand m a =
     do {
       b \<leftarrow> bm_heap m a;
       let mid = bk_entries b div 2;
       (m1, n) \<leftarrow> bk_allocate m;
       let split_key = bk_key b mid;
       nx \<leftarrow> bk_push_all (bk_new (bm_raw m n)) (map (\<lambda>i. (bk_key b i, bk_value b i)) [mid..<bk_entries b]);
       let nx1 = nx\<lparr>bk_next := bk_next b\<rparr>;
       b1 \<leftarrow> bk_clear_all (b\<lparr>bk_next := Some n\<rparr>) (map ((!) (bk_index b)) [mid..<bk_entries b]);
       let b2 = b1\<lparr>bk_entries := mid\<rparr>;
       Some (m1\<lparr>bm_heap := (bm_heap m1)(n \<mapsto> nx1, a \<mapsto> b2)\<rparr>, n, split_key)
     }"

subsection \<open>Iteration\<close>

text \<open>The iterator is a position.\<close>

definition bk_iter_from :: "buncket \<Rightarrow> u64 \<Rightarrow> u64 \<Rightarrow> nat" where
  "bk_iter_from b prefix_key start = (if start \<le> prefix_key then 0 else nat (fst (bk_find b start)))"

definition bk_iter_begin :: "buncket \<Rightarrow> nat" where "bk_iter_begin b = 0"

definition bk_iter_next :: "buncket \<Rightarrow> nat \<Rightarrow> nat \<times> bool" where
  "bk_iter_next b i = (i + 1, i + 1 < bk_entries b)"

definition bk_iter_end :: "buncket \<Rightarrow> nat \<Rightarrow> bool" where "bk_iter_end b i \<longleftrightarrow> i \<ge> bk_entries b"

subsection \<open>The bitmap\<close>

lemma bit_single: "i < 32 \<Longrightarrow> bit (push_bit i (1 :: u32)) j \<longleftrightarrow> j = i"
  by (auto simp: bit_push_bit_iff bit_1_iff simp del: push_bit_of_1)

lemma bk_set_bit_word:
  assumes "i < 32"
  shows "\<exists>w. bk_set_bit b i = Some (b\<lparr>bk_bitmap := w\<rparr>) \<and> (\<forall>j. bit w j \<longleftrightarrow> bit (bk_bitmap b) j \<or> j = i)"
proof (intro exI conjI allI)
  show "bk_set_bit b i = Some (b\<lparr>bk_bitmap := or (bk_bitmap b) (push_bit i 1)\<rparr>)"
    using assms by (simp add: bk_set_bit_def bit_set_def)
  show "bit (or (bk_bitmap b) (push_bit i 1)) j \<longleftrightarrow> bit (bk_bitmap b) j \<or> j = i" for j
    using bit_single[OF assms] by (simp only: bit_or_iff)
qed

lemma bk_delete_pos_word:
  assumes "i < 32"
  shows "\<exists>w. bk_delete_pos b i = Some (b\<lparr>bk_bitmap := w\<rparr>) \<and> (\<forall>j. bit w j \<longleftrightarrow> bit (bk_bitmap b) j \<and> j \<noteq> i)"
proof (intro exI conjI allI)
  show "bk_delete_pos b i = Some (b\<lparr>bk_bitmap := and (bk_bitmap b) (not (push_bit i 1))\<rparr>)"
    using assms by (simp add: bk_delete_pos_def bit_clear_def)
  show "bit (and (bk_bitmap b) (not (push_bit i 1))) j \<longleftrightarrow> bit (bk_bitmap b) j \<and> j \<noteq> i" for j
    unfolding bit_and_iff bit_not_iff bit_single[OF assms] by (auto dest: bit_imp_le_length)
qed

lemma first_zero_below:
  assumes "\<not> bit w j" "j < 32"
  shows "\<exists>i \<le> j. find_first_zero_bit [w] 40 = Some i \<and> \<not> bit w i"
proof -
  have j: "bit (not w) j" using assms by (simp add: bit_not_iff)
  then have nz: "not w \<noteq> 0" by auto
  note L = find_bit_least[OF nz]
  have "find_bit (not w) \<le> j" using L(2) j by (meson leI)
  moreover have "\<not> bit w (find_bit (not w))" using L(1,3) by (simp add: bit_not_iff)
  ultimately show ?thesis using find_first_zero_bit_word[of 40 w "[]"] L(3) by auto
qed

subsection \<open>The sorted list of the pairs\<close>

definition bk_used :: "buncket \<Rightarrow> nat list" where
  "bk_used b = take (bk_entries b) (bk_index b)"

definition bk_items :: "buncket \<Rightarrow> kv list" where
  "bk_items b = map ((!) (bk_buf b)) (bk_used b)"

definition bk_wf :: "buncket \<Rightarrow> bool" where
  "bk_wf b \<longleftrightarrow> length (bk_buf b) = bk_slots \<and> length (bk_index b) = 16 \<and> bk_max b = bk_slots \<and> bk_entries b \<le> bk_slots \<and>
     distinct (bk_used b) \<and> set (bk_used b) \<subseteq> {0..<bk_slots} \<and> (\<forall>i. bit (bk_bitmap b) i \<longleftrightarrow> i \<in> set (bk_used b)) \<and>
     keys_sorted (bk_items b)"

lemma bk_new_wf:
  "length (fst raw) = 16 \<Longrightarrow> length (snd raw) = bk_slots \<Longrightarrow> bk_wf (bk_new raw) \<and> bk_items (bk_new raw) = [] \<and> bk_entries (bk_new raw) = 0"
  by (simp add: bk_wf_def bk_new_def bk_items_def bk_used_def bk_slots_def bk_size_def)

lemma length_bk_used: "bk_wf b \<Longrightarrow> length (bk_used b) = bk_entries b"
  by (simp add: bk_wf_def bk_used_def bk_slots_def)

lemma length_bk_items: "bk_wf b \<Longrightarrow> length (bk_items b) = bk_entries b"
  by (simp add: bk_items_def length_bk_used)

lemma nth_bk_items:
  assumes "bk_wf b" "i < bk_entries b"
  shows "bk_items b ! i = bk_buf b ! (bk_index b ! i)" "bk_items b ! i = (bk_key b i, bk_value b i)"
    "bk_used b ! i = bk_index b ! i" "bk_index b ! i < bk_slots"
proof -
  show u: "bk_used b ! i = bk_index b ! i" using assms(2) by (simp add: bk_used_def)
  have "i < length (bk_used b)" using assms by (simp add: length_bk_used)
  then show 1: "bk_items b ! i = bk_buf b ! (bk_index b ! i)" using u by (simp add: bk_items_def)
  then show "bk_items b ! i = (bk_key b i, bk_value b i)" by (simp add: bk_key_def bk_value_def)
  have "bk_used b ! i \<in> set (bk_used b)" using \<open>i < length (bk_used b)\<close> by (rule nth_mem)
  then show "bk_index b ! i < bk_slots" using assms(1) u by (auto simp: bk_wf_def)
qed

interpretation bk_order: ordered_slots bk_wf bk_entries bk_key
proof unfold_locales
  fix b i j assume b: "bk_wf b" and ij: "i < j" "j < bk_entries b"
  have "fst (bk_items b ! i) < fst (bk_items b ! j)"
    using b ij length_bk_items[OF b] by (intro keys_sorted_nth) (simp_all add: bk_wf_def)
  then show "bk_key b i < bk_key b j" using ij nth_bk_items(2)[OF b] by simp
qed

lemma bk_find_correct: "bk_wf b \<Longrightarrow> search_result (bk_key b) (bk_entries b) k (bk_find b k)"
  unfolding bk_find_def by (rule bk_order.bsearch_gen) auto

lemma bk_find_hit:
  assumes "bk_wf b" "bk_find b k = (p, True)"
  shows "nat p < bk_entries b" "bk_key b (nat p) = k" "map_of (bk_items b) k = Some (bk_value b (nat p))"
proof -
  show p: "nat p < bk_entries b" "bk_key b (nat p) = k"
    using bk_find_correct[OF assms(1), of k] assms(2) by (auto simp: search_result_def)
  have "distinct (map fst (bk_items b))" using assms(1) by (simp add: bk_wf_def keys_sorted_distinct)
  from map_of_nth_eq[OF this, of "nat p"] show "map_of (bk_items b) k = Some (bk_value b (nat p))"
    using p nth_bk_items(2)[OF assms(1) p(1)] length_bk_items[OF assms(1)] by simp
qed

lemma bk_find_miss:
  assumes "bk_wf b" "bk_find b k = (p, False)"
  shows "nat p \<le> bk_entries b" "\<forall>x \<in> set (take (nat p) (bk_items b)). fst x < k" "\<forall>x \<in> set (drop (nat p) (bk_items b)). k < fst x"
    "map_of (bk_items b) k = None"
proof -
  note l = length_bk_items[OF assms(1)]
  have R: "nat p \<le> bk_entries b" "\<forall>i < nat p. bk_key b i < k" "\<forall>i. nat p \<le> i \<and> i < bk_entries b \<longrightarrow> k < bk_key b i"
    using bk_find_correct[OF assms(1), of k] assms(2) by (auto simp: search_result_def)
  show "nat p \<le> bk_entries b" by (rule R(1))
  have key: "fst (bk_items b ! i) = bk_key b i" if "i < bk_entries b" for i using nth_bk_items(2)[OF assms(1) that] by simp
  show t: "\<forall>x \<in> set (take (nat p) (bk_items b)). fst x < k"
  proof
    fix x assume "x \<in> set (take (nat p) (bk_items b))"
    then obtain i where i: "i < nat p" "x = bk_items b ! i" by (auto simp: in_set_conv_nth)
    then show "fst x < k" using R(1,2) key by simp
  qed
  show d: "\<forall>x \<in> set (drop (nat p) (bk_items b)). k < fst x"
  proof
    fix x assume "x \<in> set (drop (nat p) (bk_items b))"
    then obtain i where i: "nat p + i < bk_entries b" "x = bk_items b ! (nat p + i)" using l R(1) by (auto simp: in_set_conv_nth less_diff_conv add.commute)
    then show "k < fst x" using R(3) key by simp
  qed
  show "map_of (bk_items b) k = None"
  proof (rule map_of_notin_range, rule ballI)
    fix x assume "x \<in> set (bk_items b)"
    then have "x \<in> set (take (nat p) (bk_items b)) \<or> x \<in> set (drop (nat p) (bk_items b))"
      by (metis Un_iff append_take_drop_id set_append)
    then show "fst x \<noteq> k" using t d by fastforce
  qed
qed

subsection \<open>Insertion\<close>

lemma index_insert_used:
  assumes "pos \<le> n" "n < length xs"
  shows "take (n + 1) (index_insert xs n pos slot) = insert_at pos slot (take n xs)" "length (index_insert xs n pos slot) = length xs"
  using assms by (simp_all add: index_insert_def insert_at_def take_Cons' Suc_diff_le)

lemma bk_put_fresh:
  assumes "bk_wf b" "bk_entries b < bk_slots" "map_of (bk_items b) k = None"
  shows "\<exists>b' p. bk_put b k v = Some (b', OK) \<and> bk_wf b' \<and> p \<le> bk_entries b \<and> bk_items b' = insert_at p (k, v) (bk_items b) \<and>
    map_of (bk_items b') = (map_of (bk_items b))(k \<mapsto> v) \<and> bk_next b' = bk_next b \<and> bk_entries b' = Suc (bk_entries b) \<and>
    (\<forall>x \<in> set (drop p (bk_items b)). k < fst x)"
proof -
  let ?n = "bk_entries b" and ?u = "bk_used b"
  note lu = length_bk_used[OF assms(1)]
  have W: "length (bk_buf b) = bk_slots" "length (bk_index b) = 16" "bk_max b = bk_slots" "distinct ?u" "set ?u \<subseteq> {0..<bk_slots}"
    "\<And>i. bit (bk_bitmap b) i \<longleftrightarrow> i \<in> set ?u" "keys_sorted (bk_items b)" using assms(1) by (simp_all add: bk_wf_def)
  have sm: "bk_slots < 16" by (simp add: bk_slots_def)
  have "card (set ?u) < card {0..<bk_slots}" using lu W(4) assms(2) by (simp add: distinct_card)
  then have "\<not> {0..<bk_slots} \<subseteq> set ?u" by (metis card_mono finite_set leD)
  then obtain j where j: "j < bk_slots" "j \<notin> set ?u" by (meson atLeastLessThan_iff subsetI)
  obtain s where s: "s \<le> j" "find_first_zero_bit [bk_bitmap b] 40 = Some s" "s \<notin> set ?u"
    using first_zero_below[of "bk_bitmap b" j] j sm W(6) by auto
  have sl: "s < bk_slots" "s < 32" using s(1) j(1) sm by auto
  let ?c = "b\<lparr>bk_buf := (bk_buf b)[s := (k, v)]\<rparr>"
  obtain w where w: "bk_set_bit ?c s = Some (?c\<lparr>bk_bitmap := w\<rparr>)" "\<And>i. bit w i \<longleftrightarrow> bit (bk_bitmap b) i \<or> i = s"
    using bk_set_bit_word[OF sl(2), of ?c] by auto
  obtain p f where F: "bk_find b k = (p, f)" by fastforce
  have "f = False" using bk_find_hit(3)[OF assms(1), of k p] F assms(3) by (cases f) auto
  then have F: "bk_find b k = (p, False)" using F by simp
  note M = bk_find_miss[OF assms(1) F]
  let ?b = "b\<lparr>bk_buf := (bk_buf b)[s := (k, v)], bk_bitmap := w, bk_entries := Suc ?n, bk_index := index_insert (bk_index b) ?n (nat p) s\<rparr>"
  have P: "bk_put b k v = Some (?b, OK)"
    using F s(2) w(1) sl(1) assms(2) W(1,3) sm by (simp add: bk_put_def bk_put_buf_def)
  have nl: "?n < length (bk_index b)" using W(2) assms(2) sm by simp
  have U: "bk_used ?b = insert_at (nat p) s ?u" using index_insert_used(1)[OF M(1) nl, of s] by (simp add: bk_used_def)
  have same: "map ((!) ((bk_buf b)[s := (k, v)])) ?u = bk_items b"
    unfolding bk_items_def using s(3) by (intro map_cong refl) (metis nth_list_update_neq)
  have I: "bk_items ?b = insert_at (nat p) (k, v) (bk_items b)"
  proof -
    have "bk_items ?b = insert_at (nat p) ((bk_buf b)[s := (k, v)] ! s) (map ((!) ((bk_buf b)[s := (k, v)])) ?u)"
      unfolding bk_items_def U by (simp add: map_insert_at)
    then show ?thesis unfolding same using sl(1) W(1) by simp
  qed
  have "keys_sorted (bk_items ?b)" unfolding I using W(7) M(2,3) by (rule keys_sorted_insert_at)
  moreover have "distinct (bk_used ?b)"
  proof -
    have "distinct (take (nat p) ?u @ drop (nat p) ?u)" using W(4) by simp
    then show ?thesis unfolding U insert_at_def using s(3) by (auto dest: in_set_takeD in_set_dropD simp del: append_take_drop_id)
  qed
  moreover have "bit w i \<longleftrightarrow> i \<in> set (bk_used ?b)" for i unfolding U using w(2) W(6) by auto
  moreover have "length (bk_index ?b) = 16" using index_insert_used(2)[OF M(1) nl] W(2) by simp
  ultimately have wf: "bk_wf ?b" unfolding bk_wf_def using W(1,3,5) assms(2) sl(1) U by simp
  have "map_of (bk_items ?b) = (map_of (bk_items b))(k \<mapsto> v)"
  proof -
    have "\<forall>x \<in> set (bk_items b). fst x \<noteq> k" using assms(3) by (metis map_of_eq_None_iff image_eqI)
    then show ?thesis unfolding I by (rule map_of_insert_at)
  qed
  then show ?thesis using P wf I M(1,3) by (intro exI[of _ ?b] exI[of _ "nat p"]) simp
qed

lemma bk_put_full: "bk_wf b \<Longrightarrow> bk_entries b = bk_slots \<Longrightarrow> map_of (bk_items b) k = None \<Longrightarrow> bk_put b k v = Some (b, Full)"
  using bk_find_hit(3)[of b k] find_first_zero_bit_word[of 40 "bk_bitmap b" "[]"]
  by (cases "bk_find b k") (auto simp: bk_put_def bk_put_buf_def bk_wf_def)

lemma bk_put_exist: "bk_wf b \<Longrightarrow> map_of (bk_items b) k = Some w \<Longrightarrow> bk_put b k v = Some (b, Exist)"
  using bk_find_miss(4)[of b k] by (cases "bk_find b k") (auto simp: bk_put_def)

subsection \<open>Lookups, updates, removals\<close>

lemma bk_get_map:
  "bk_wf b \<Longrightarrow> bk_get b k = (case map_of (bk_items b) k of None \<Rightarrow> None | Some v \<Rightarrow> if v = 0 then None else Some v)"
  using bk_find_hit(3)[of b k] bk_find_miss(4)[of b k] by (cases "bk_find b k"; cases "snd (bk_find b k)") (simp_all add: bk_get_def)

lemma bk_update_wf:
  assumes "bk_wf b" "map_of (bk_items b) k = Some w" "w \<noteq> 0"
  shows "\<exists>b'. bk_update b k v = (b', OK) \<and> bk_wf b' \<and> map_of (bk_items b') = (map_of (bk_items b))(k \<mapsto> v) \<and> bk_next b' = bk_next b"
proof -
  obtain p where F: "bk_find b k = (p, True)"
    using bk_find_miss(4)[OF assms(1), of k] assms(2) by (metis (full_types) option.distinct(1) surj_pair)
  note H = bk_find_hit[OF assms(1) F] and N = nth_bk_items[OF assms(1)]
  let ?s = "bk_index b ! nat p"
  let ?b = "bk_set_value b ?s v"
  have W: "length (bk_buf b) = bk_slots" "distinct (bk_used b)" "keys_sorted (bk_items b)" using assms(1) by (simp_all add: bk_wf_def)
  note lu = length_bk_used[OF assms(1)] and li = length_bk_items[OF assms(1)]
  have U: "bk_used ?b = bk_used b" by (simp add: bk_used_def bk_set_value_def)
  have I: "bk_items ?b = (bk_items b)[nat p := (fst (bk_items b ! nat p), v)]"
  proof (rule nth_equalityI)
    show "length (bk_items ?b) = length ((bk_items b)[nat p := (fst (bk_items b ! nat p), v)])"
      unfolding bk_items_def U by simp
    fix i assume "i < length (bk_items ?b)"
    then have i: "i < bk_entries b" using lu unfolding bk_items_def U by simp
    have "bk_items ?b ! i = bk_buf ?b ! (bk_used b ! i)" unfolding bk_items_def U using i lu by simp
    moreover have "bk_used b ! i = ?s \<longleftrightarrow> i = nat p"
      using nth_eq_iff_index_eq[OF W(2)] i H(1) lu N(3)[OF H(1)] by metis
    ultimately show "bk_items ?b ! i = (bk_items b)[nat p := (fst (bk_items b ! nat p), v)] ! i"
      using i H(1) li W(1) N(1)[OF i] N(1)[OF H(1)] N(3)[OF i] N(4)[OF H(1)]
      by (cases "i = nat p") (simp_all add: bk_set_value_def)
  qed
  have l: "nat p < length (bk_items b)" using H(1) li by simp
  have "keys_sorted (bk_items ?b)" unfolding I by (rule keys_sorted_update[OF W(3) l])
  then have wf: "bk_wf ?b" using assms(1) U by (simp add: bk_wf_def bk_set_value_def)
  have "map_of (bk_items ?b) = (map_of (bk_items b))(k \<mapsto> v)"
    unfolding I using map_of_update_at[OF keys_sorted_distinct[OF W(3)] l] N(2)[OF H(1)] H(2) by simp
  moreover have "bk_value b (nat p) \<noteq> 0" using H(3) assms(2,3) by simp
  ultimately show ?thesis using F wf by (simp add: bk_update_def bk_set_value_def)
qed

lemma index_remove_used:
  assumes "pos < n" "n \<le> length xs"
  shows "take (n - 1) (if pos + 1 < n then index_remove xs n pos else xs) = remove_at pos (take n xs)"
    "length (if pos + 1 < n then index_remove xs n pos else xs) = length xs"
    "(if pos + 1 < n then index_remove xs n pos else xs) ! pos = (if pos + 1 < n then xs ! (pos + 1) else xs ! pos)"
  using assms by (cases "n = Suc pos"; auto simp: index_remove_def remove_at_def nth_append)+

lemma bk_delete_wf:
  assumes "bk_wf b" "map_of (bk_items b) k = Some v" "v \<noteq> 0"
  shows "\<exists>b' p. p < bk_entries b \<and> bk_items b ! p = (k, v) \<and>
    bk_delete b k = Some (b', OK, Some (if p + 1 < bk_entries b then snd (bk_items b ! (p + 1)) else v)) \<and>
    bk_wf b' \<and> bk_items b' = remove_at p (bk_items b) \<and> map_of (bk_items b') = (map_of (bk_items b))(k := None) \<and> bk_next b' = bk_next b"
proof -
  let ?n = "bk_entries b" and ?u = "bk_used b"
  note N = nth_bk_items[OF assms(1)] and lu = length_bk_used[OF assms(1)] and li = length_bk_items[OF assms(1)]
  have W: "length (bk_buf b) = bk_slots" "length (bk_index b) = 16" "bk_max b = bk_slots" "distinct ?u" "set ?u \<subseteq> {0..<bk_slots}"
    "\<And>i. bit (bk_bitmap b) i \<longleftrightarrow> i \<in> set ?u" "keys_sorted (bk_items b)" "?n \<le> bk_slots" using assms(1) by (simp_all add: bk_wf_def)
  obtain p0 where F: "bk_find b k = (p0, True)"
    using bk_find_miss(4)[OF assms(1), of k] assms(2) by (metis (full_types) option.distinct(1) surj_pair)
  define p where "p = nat p0"
  have H: "p < ?n" "bk_key b p = k" "bk_value b p = v" using bk_find_hit[OF assms(1) F] assms(2) by (simp_all add: p_def)
  let ?s = "bk_index b ! p"
  have "?s < 32" using N(4)[OF H(1)] by (simp add: bk_slots_def)
  then obtain w where w: "bk_delete_pos b ?s = Some (b\<lparr>bk_bitmap := w\<rparr>)" "\<And>i. bit w i \<longleftrightarrow> bit (bk_bitmap b) i \<and> i \<noteq> ?s"
    using bk_delete_pos_word by blast
  have nl: "?n \<le> length (bk_index b)" using W(2,8) by (simp add: bk_slots_def)
  let ?x = "if p + 1 < ?n then index_remove (bk_index b) ?n p else bk_index b"
  note R = index_remove_used[OF H(1) nl]
  let ?b = "b\<lparr>bk_bitmap := w, bk_index := ?x, bk_entries := ?n - 1\<rparr>"
  have V: "bk_value ?b p = (if p + 1 < ?n then snd (bk_items b ! (p + 1)) else v)"
    using R(3) N(1)[of "p + 1"] H(3) by (auto simp: bk_value_def)
  have D: "bk_delete b k = Some (?b, OK, Some (bk_value ?b p))"
    using F w(1) H assms(3) by (simp add: bk_delete_def p_def[symmetric] Let_def)
  have U: "bk_used ?b = remove_at p ?u" using R(1) by (simp add: bk_used_def)
  have I: "bk_items ?b = remove_at p (bk_items b)" unfolding bk_items_def U by (simp add: map_remove_at)
  have split: "?u = take p ?u @ ?s # drop (Suc p) ?u" using H(1) lu N(3)[OF H(1)] by (metis id_take_nth_drop)
  then have "distinct (take p ?u @ ?s # drop (Suc p) ?u)" using W(4) by simp
  then have d: "distinct (bk_used ?b)" "?s \<notin> set (bk_used ?b)" unfolding U remove_at_def by simp_all
  have "set ?u = insert ?s (set (bk_used ?b))" unfolding U remove_at_def by (subst split) auto
  then have bits: "bit w i \<longleftrightarrow> i \<in> set (bk_used ?b)" for i using w(2) W(6) d(2) by auto
  have "keys_sorted (bk_items ?b)" unfolding I by (rule keys_sorted_remove_at[OF W(7)])
  moreover have "set (bk_used ?b) \<subseteq> {0..<bk_slots}" using W(5) set_remove_at_subset unfolding U by (rule subset_trans[rotated])
  ultimately have wf: "bk_wf ?b" unfolding bk_wf_def using W(1,2,3,8) R(2) d(1) bits by simp
  have pl: "p < length (bk_items b)" using H(1) li by simp
  have "map_of (bk_items ?b) = (map_of (bk_items b))(k := None)"
    unfolding I using map_of_remove_at[OF keys_sorted_distinct[OF W(7)] pl] N(2)[OF H(1)] H(2) by simp
  then show ?thesis using D wf I H N(2)[OF H(1)] unfolding V by (intro exI[of _ ?b] exI[of _ p]) simp
qed

subsection \<open>Loading, splitting, iterating\<close>

interpretation bk_leaf: leaf_lookup bk_wf bk_items bk_slots bk_put bk_get
proof unfold_locales
  fix b :: buncket and k v :: u64
  assume b: "bk_wf b"
  show "distinct (map fst (bk_items b))" using b by (simp add: bk_wf_def keys_sorted_distinct)
  show "length (bk_items b) \<le> bk_slots" using b length_bk_items[OF b] by (simp add: bk_wf_def)
  show "\<exists>b'. bk_put b k v = Some (b', OK) \<and> bk_wf b' \<and> set (bk_items b') = insert (k, v) (set (bk_items b))"
    if "length (bk_items b) < bk_slots" "map_of (bk_items b) k = None"
    using bk_put_fresh[OF b, of k v] that length_bk_items[OF b] by fastforce
  show "bk_put b k v = Some (b, Full)" if "length (bk_items b) = bk_slots" "map_of (bk_items b) k = None"
    using bk_put_full[OF b] that length_bk_items[OF b] by simp
  show "bk_get b k = map_of (bk_items b) k" if "0 \<notin> snd ` set (bk_items b)"
    using bk_get_map[OF b, of k] that by (auto split: option.splits dest: map_of_SomeD intro: rev_image_eqI)
qed

lemma bk_push_all_put_all: "bk_push_all b xs = map_option fst (put_all bk_put b xs)"
  by (induction b xs rule: bk_push_all.induct) (auto split: bind_splits)

lemma bk_push_all_sorted:
  assumes "bk_wf b" "bk_items b = []" "keys_sorted xs" "0 \<notin> fst ` set xs" "length xs \<le> bk_slots"
  shows "\<exists>b'. bk_push_all b xs = Some b' \<and> bk_wf b' \<and> bk_items b' = xs"
proof -
  obtain b' where b': "bk_push_all b xs = Some b'" "bk_wf b'" "set (bk_items b') = set xs"
    using bk_leaf.put_all_fills[OF assms(1) keys_sorted_distinct[OF assms(3)]] assms(2,4,5)
    by (auto simp: bk_push_all_put_all)
  have "bk_items b' = xs" using b'(2,3) assms(3) by (intro keys_sorted_unique) (simp_all add: bk_wf_def)
  then show ?thesis using b' by blast
qed

lemma bk_clear_all_word:
  assumes "\<forall>s \<in> set ss. s < 32"
  shows "\<exists>w. bk_clear_all b ss = Some (b\<lparr>bk_bitmap := w\<rparr>) \<and> (\<forall>j. bit w j \<longleftrightarrow> bit (bk_bitmap b) j \<and> j \<notin> set ss)"
  using assms
proof (induction ss arbitrary: b)
  case Nil
  show ?case by (intro exI[of _ "bk_bitmap b"]) simp
next
  case (Cons s ss)
  obtain w where w: "bk_delete_pos b s = Some (b\<lparr>bk_bitmap := w\<rparr>)" "\<forall>j. bit w j \<longleftrightarrow> bit (bk_bitmap b) j \<and> j \<noteq> s"
    using bk_delete_pos_word[of s b] Cons.prems by auto
  obtain w' where "bk_clear_all (b\<lparr>bk_bitmap := w\<rparr>) ss = Some (b\<lparr>bk_bitmap := w'\<rparr>)" "\<forall>j. bit w' j \<longleftrightarrow> bit w j \<and> j \<notin> set ss"
    using Cons.IH[of "b\<lparr>bk_bitmap := w\<rparr>"] Cons.prems by auto
  then show ?case using w by (intro exI[of _ w']) auto
qed

lemma bk_expand_wf:
  assumes "bm_heap m a = Some b" "bk_wf b" "0 \<notin> fst ` set (bk_items b)" "0 < bk_entries b" "bm_cur m + bk_size < bm_end m"
    "length (fst (bm_raw m (bm_cur m))) = 16" "length (snd (bm_raw m (bm_cur m))) = bk_slots"
  shows "\<exists>m' b1 b2. bk_expand m a = Some (m', bm_cur m, fst (bk_items b ! (bk_entries b div 2))) \<and>
    bm_heap m' = (bm_heap m)(bm_cur m \<mapsto> b2, a \<mapsto> b1) \<and> bk_wf b1 \<and> bk_wf b2 \<and>
    bk_items b1 = take (bk_entries b div 2) (bk_items b) \<and> bk_items b2 = drop (bk_entries b div 2) (bk_items b) \<and>
    bk_next b1 = Some (bm_cur m) \<and> bk_next b2 = bk_next b \<and> bm_cur m' = bm_cur m + bk_size"
proof -
  let ?n = "bk_entries b" and ?u = "bk_used b" and ?N = "bm_cur m"
  let ?h = "?n div 2"
  note N = nth_bk_items[OF assms(2)] and lu = length_bk_used[OF assms(2)] and li = length_bk_items[OF assms(2)]
  have W: "length (bk_buf b) = bk_slots" "length (bk_index b) = 16" "bk_max b = bk_slots" "distinct ?u" "set ?u \<subseteq> {0..<bk_slots}"
    "\<And>i. bit (bk_bitmap b) i \<longleftrightarrow> i \<in> set ?u" "keys_sorted (bk_items b)" "?n \<le> bk_slots" using assms(2) by (simp_all add: bk_wf_def)
  have h: "?h < ?n" using assms(4) by simp
  have xs: "map (\<lambda>i. (bk_key b i, bk_value b i)) [?h..<?n] = drop ?h (bk_items b)"
    using li N(2) by (intro nth_equalityI) simp_all
  have ss: "map ((!) (bk_index b)) [?h..<?n] = drop ?h ?u" using lu N(3) by (intro nth_equalityI) simp_all
  have e: "bk_wf (bk_new (bm_raw m ?N))" "bk_items (bk_new (bm_raw m ?N)) = []" using bk_new_wf[OF assms(6,7)] by auto
  obtain nx where nx: "bk_push_all (bk_new (bm_raw m ?N)) (drop ?h (bk_items b)) = Some nx" "bk_wf nx" "bk_items nx = drop ?h (bk_items b)"
  proof -
    have "0 \<notin> fst ` set (drop ?h (bk_items b))" using assms(3) by (blast dest: in_set_dropD)
    moreover have "length (drop ?h (bk_items b)) \<le> bk_slots" using li W(8) by simp
    ultimately show ?thesis using bk_push_all_sorted[OF e keys_sorted_drop[OF W(7)], of ?h] that by blast
  qed
  let ?b2 = "nx\<lparr>bk_next := bk_next b\<rparr>"
  have b2: "bk_wf ?b2" "bk_items ?b2 = drop ?h (bk_items b)" using nx(2,3) by (simp_all add: bk_wf_def bk_items_def bk_used_def)
  have "\<forall>s \<in> set (drop ?h ?u). s < 32" using W(5) by (auto simp: bk_slots_def dest!: in_set_dropD)
  from bk_clear_all_word[OF this, of "b\<lparr>bk_next := Some ?N\<rparr>"] obtain w where
    w: "bk_clear_all (b\<lparr>bk_next := Some ?N\<rparr>) (drop ?h ?u) = Some (b\<lparr>bk_next := Some ?N, bk_bitmap := w\<rparr>)"
      "\<And>j. bit w j \<longleftrightarrow> bit (bk_bitmap b) j \<and> j \<notin> set (drop ?h ?u)" by auto
  let ?b1 = "b\<lparr>bk_next := Some ?N, bk_bitmap := w, bk_entries := ?h\<rparr>"
  have U: "bk_used ?b1 = take ?h ?u" using h by (simp add: bk_used_def)
  have I: "bk_items ?b1 = take ?h (bk_items b)" unfolding bk_items_def U by (simp add: take_map)
  have "set ?u = set (take ?h ?u) \<union> set (drop ?h ?u)" by (metis append_take_drop_id set_append)
  moreover have "set (take ?h ?u) \<inter> set (drop ?h ?u) = {}" using W(4) by (metis append_take_drop_id distinct_append)
  ultimately have bits: "bit w j \<longleftrightarrow> j \<in> set (bk_used ?b1)" for j unfolding U using w(2) W(6) by auto
  have "keys_sorted (bk_items ?b1)" unfolding I by (rule keys_sorted_take[OF W(7)])
  moreover have "distinct (bk_used ?b1)" "set (bk_used ?b1) \<subseteq> {0..<bk_slots}"
    unfolding U using W(4,5) by (auto dest: in_set_takeD)
  ultimately have b1: "bk_wf ?b1" unfolding bk_wf_def using W(1,2,3,8) h bits by simp
  have "bk_expand m a = Some (m\<lparr>bm_cur := ?N + bk_size, bm_heap := (bm_heap m)(?N \<mapsto> ?b2, a \<mapsto> ?b1)\<rparr>, ?N, bk_key b ?h)"
    using assms(1,5) nx(1) w(1) by (simp add: bk_expand_def bk_allocate_def Let_def xs ss)
  then show ?thesis using b1 b2 I N(2)[OF h] by (intro exI conjI) (assumption | simp)+
qed

text \<open>The iterator reads the pairs in key order.\<close>

lemma bk_iter_steps: "((\<lambda>i. fst (bk_iter_next b i)) ^^ n) i = i + n"
  by (induction n) (simp_all add: bk_iter_next_def)

lemma bk_iter_reads:
  assumes "bk_wf b" "\<not> bk_iter_end b i"
  shows "(bk_key b i, bk_value b i) = bk_items b ! i" "snd (bk_iter_next b i) = (\<not> bk_iter_end b (i + 1))"
  using assms nth_bk_items(2)[OF assms(1), of i] by (auto simp: bk_iter_end_def bk_iter_next_def)

lemma bk_iter_from_start:
  assumes "bk_wf b" "prefix_key < start"
  shows "drop (bk_iter_from b prefix_key start) (bk_items b) = filter (\<lambda>x. start \<le> fst x) (bk_items b)"
proof -
  let ?p = "bk_iter_from b prefix_key start"
  note li = length_bk_items[OF assms(1)]
  have p: "?p = nat (fst (bk_find b start))" using assms(2) by (auto simp: bk_iter_from_def)
  have R: "?p \<le> bk_entries b" "\<forall>i < ?p. bk_key b i < start" "\<forall>i. ?p \<le> i \<and> i < bk_entries b \<longrightarrow> start \<le> bk_key b i"
  proof -
    have S: "search_result (bk_key b) (bk_entries b) start (bk_find b start)" by (rule bk_find_correct[OF assms(1)])
    show "?p \<le> bk_entries b" using S unfolding p search_result_def by (auto split: if_splits)
    show "\<forall>i < ?p. bk_key b i < start"
    proof (cases "snd (bk_find b start)")
      case True
      then have e: "bk_key b ?p = start" "?p < bk_entries b" using S unfolding p search_result_def by auto
      show ?thesis using bk_order.slots_sorted[OF assms(1) _ e(2)] unfolding e(1) by simp
    qed (use S in \<open>auto simp: p search_result_def\<close>)
    show "\<forall>i. ?p \<le> i \<and> i < bk_entries b \<longrightarrow> start \<le> bk_key b i"
    proof (cases "snd (bk_find b start)")
      case True
      then have e: "bk_key b ?p = start" using S unfolding p search_result_def by auto
      show ?thesis using bk_order.slots_le[OF assms(1), of ?p] unfolding e by simp
    qed (use S in \<open>auto simp: p search_result_def less_imp_le\<close>)
  qed
  have key: "fst (bk_items b ! i) = bk_key b i" if "i < bk_entries b" for i using nth_bk_items(2)[OF assms(1) that] by simp
  have "\<not> start \<le> fst x" if x: "x \<in> set (take ?p (bk_items b))" for x
  proof -
    obtain i where i: "i < ?p" "x = bk_items b ! i" using x by (auto simp: in_set_conv_nth)
    then have "fst x = bk_key b i" using R(1) key[of i] by simp
    moreover have "bk_key b i < start" using R(2) i(1) by blast
    ultimately show ?thesis by simp
  qed
  then have "filter (\<lambda>x. start \<le> fst x) (take ?p (bk_items b)) = []" by (simp add: filter_empty_conv)
  moreover have "start \<le> fst x" if x: "x \<in> set (drop ?p (bk_items b))" for x
  proof -
    obtain i where i: "?p + i < bk_entries b" "x = bk_items b ! (?p + i)"
      using x li by (auto simp: in_set_conv_nth less_diff_conv add.commute)
    then have "fst x = bk_key b (?p + i)" using key[of "?p + i"] by simp
    moreover have "start \<le> bk_key b (?p + i)" using R(3) i(1) by (meson le_add1)
    ultimately show ?thesis by simp
  qed
  then have "filter (\<lambda>x. start \<le> fst x) (drop ?p (bk_items b)) = drop ?p (bk_items b)" by (simp add: filter_id_conv)
  ultimately show ?thesis by (metis append_Nil append_take_drop_id filter_append)
qed

end
