(* ===== verification/Spec2Isabelle.thy ===== *)
theory Spec2Isabelle
  imports ComboProofs BEntryIter BLevelSerial LeTreeLoad LineExact NvmAlloc Slab Bitops UnSortBuncket IndexBuncket
begin

text \<open>
  \<^bold>\<open>ComboTree\<close>: a verification development for a persistent-memory key-value store.

  \<^bold>\<open>The program.\<close>  A store maps 64-bit keys to 64-bit values.  It starts on a plain map (\<^verbatim>\<open>PmemKV\<close>); when that
  has grown to a threshold, its sorted pairs are loaded into a three-level structure.  The B-level is a
  sorted array of entries, each with the smallest key it is responsible for; every entry owns a C-level, a
  B+ tree of 128-byte nodes that holds the pairs of the entry; the A-level is a learned index (a trained
  model) that maps a key to a window of the B-level.  When the B-level holds too many pairs it is replaced by
  a new one with more entries, filled by four threads while the clients go on.  Beside this stands a second
  kind of entry, an array of pointers to sorted leaves, and the trees that are built from it.

  \<^bold>\<open>Theories and source files.\<close>  (all paths under \<^verbatim>\<open>src/\<close>)
  \<^item> Prelude, Search: machine types, status codes, lists of pairs sorted by key; the search loops that several
    containers share, under the locales \<open>ordered_slots\<close> and \<open>ordered_buffer\<close>.
  \<^item> Bytes, SlotBuffer, KVBuffer: \<^verbatim>\<open>src/kvbuffer.h\<close>.  The bytes of a node are a byte list; loads, stores and moves
    are those of the code, with key suffixes from the left and values from the right.
  \<^item> SortBuffer: \<^verbatim>\<open>src/sortbuffer.h\<close>.  The header is one 64-bit word whose nibbles are a permutation of the slots.
  \<^item> CLevel, CLevelTree, CLevelProofs, CLevelTop, Forest: \<^verbatim>\<open>src/clevel.h\<close>, \<^verbatim>\<open>src/clevel.cc\<close>.  The region is a heap
    from offsets to nodes with a bump allocator.  CLevelTree has the abstract trees, CLevelProofs the
    representation relation \<open>rep\<close> and the operations on nodes, CLevelTop the operations on a tree as operations on
    the sorted list of its pairs, Forest the frame rule for many trees in one region.
  \<^item> BEntry, BEntryIter: \<^verbatim>\<open>src/bentry.h\<close>, \<^verbatim>\<open>src/bentry.cc\<close> (\<open>nb_\<close>: \<^verbatim>\<open>NobufBEntry\<close>; \<open>be_\<close>: \<^verbatim>\<open>BEntry\<close>; the merging iterator of
    \<^verbatim>\<open>BEntry\<close>, \<open>bn_\<close>: the one that does not sort).
  \<^item> BLevel, BLevelSearch, BLevelOps, BLevelExpand, BLevelLoad, BLevelIter: \<^verbatim>\<open>src/blevel.h\<close>, \<^verbatim>\<open>src/blevel.cc\<close>.  State and
    operations; the searches; the operations as operations on a map (\<open>bl_holds\<close>); construction and expansion;
    correctness of the first load; the iterators.
  \<^item> BLevelLocks, BLevelSerial: the same files with any number of threads.  \<open>bc_step\<close> is the step relation of a thread that
    searches, locks the entry, works on it, adds to the counters and unlocks, of an iterator, and of the expansion that moves an
    entry; the log of the answers, a ghost, is compared with a sequential run and with a finite map.
  \<^item> IndexLayer, IndexProofs: \<^verbatim>\<open>src/learn_index\<close>, \<^verbatim>\<open>src/rmi_index\<close>, \<^verbatim>\<open>src/pgm_index\<close>, \<^verbatim>\<open>src/alevel\<close> (\<^verbatim>\<open>.h\<close> and \<^verbatim>\<open>.cc\<close>).  The locale
    \<open>level_index\<close> is what an index promises to the B-level, with an interpretation for every index.
  \<^item> PmemKV: \<^verbatim>\<open>src/pmemkv.h\<close>.
  \<^item> ComboTree, ComboProofs: \<^verbatim>\<open>src/combotree.cc\<close>, \<^verbatim>\<open>include/combotree/combotree.h\<close>, \<^verbatim>\<open>src/manifest.h\<close>.  One attempt of an
    operation is one round of its loop; \<open>ct_step\<close> is the step relation of all threads, with the migration and the
    expansion cut at their changes of the status.
  \<^item> SortBuncket, PointerBEntry, PointerProofs: \<^verbatim>\<open>src/pointer_bentry.h\<close> (the leaf \<^verbatim>\<open>SortBuncket<256, 8>\<close>; the pointer
    entries and the merge of two neighbours; the entry as a finite map, \<open>pb_own\<close>).
  \<^item> LeafContract, UnSortBuncket, IndexBuncket: the two other leaves of this file that the type \<^verbatim>\<open>buncket_t\<close> can name, without order
    (\<open>us_\<close>) and with an index array and a bitmap (\<open>bk_\<close>).  The locales \<open>kv_leaf\<close> and \<open>leaf_lookup\<close> are what all three leaves
    promise, with an interpretation for each.
  \<^item> LeTree: \<^verbatim>\<open>src/letree.h\<close>, the samples of \<^verbatim>\<open>src/rmi_model.h\<close>.  A tree is a list of groups with a fitted line, a group
    (\<open>eg_\<close>) a list of pointer entries with a fitted line.  LeTreeSearch: the searches; LeTreeProofs: entries in a row
    (\<open>es_own\<close>); LeTreeGroup: the operations of a group; LeTreeTop: the invariant of the tree (\<open>lt_own\<close>) and the group of a
    key; LeTreeLoad: expansion, bulk loading and runs.

  \<^item> NvmAlloc, Slab, Bitops: \<^verbatim>\<open>include/nvm_alloc.h\<close> (the bump allocator of the arrays of entries), \<^verbatim>\<open>src/slab.h\<close> (as a
    step relation of threads), \<^verbatim>\<open>include/bitops.h\<close>.

  \<^bold>\<open>Conventions.\<close>  \<^verbatim>\<open>uint64_t\<close> is \<open>64 word\<close>; bit fields are natural numbers with the truncation of their width where
  code can reach it; indices that may become -1 are integers.  \<open>option\<close> results: \<open>None\<close> is a failed assertion, an
  access outside an array or the region, undefined behaviour, or a loop that ran out of fuel.  A theorem about
  a result therefore says that it is \<open>Some\<close>.

  \<^bold>\<open>Lemma groups and properties.\<close>
  \<^item> Containers: read-over-write laws of the byte layout; the items of a buffer after every operation
    (\<open>kv_append_lookup\<close>, \<open>kv_sorted_insert\<close>, \<open>kv_stores_in_bounds\<close>, \<open>rotate_roundtrip\<close>, \<open>sb_insert_refines\<close>,
    \<open>sb_from_kvbuffer_sorts\<close>).
  \<^item> Trees: every run of operations on a new tree answers as a finite map (\<open>cl_run_refines\<close>), scans end and are in
    key order (\<open>cl_scan_ordered\<close>), an operation on one tree leaves all others alone (\<open>nb_put_isolated\<close>).
  \<^item> Entries and the B-level: \<open>be_put_refines\<close>, \<open>be_delete_refines\<close>, \<open>be_scan_ordered\<close>, \<open>nb_scan_ordered\<close>, \<open>bl_load_refines\<close>, \<open>bl_put_near_refines\<close>.
  \<^item> Threads: an interleaving leaves what a sequential run leaves (\<open>bl_threads_serial\<close>) and answers as a map while entries are
    moved (\<open>bl_threads_follow\<close>); the locks are exclusive and nobody waits in a circle (\<open>bl_threads_locks\<close>).
  \<^item> Indexes: \<open>rmi_range_finds\<close> (a window for any prediction), \<open>rmi_run_refines\<close>.
  \<^item> The store: the invariant of its states (\<open>ct_reachable_wf\<close>), the order of its statuses (\<open>ct_status_order\<close>), the
    contents through the migration (\<open>ct_migration_keeps\<close>) and for a client (\<open>ct_client_refines\<close>), scans (\<open>ct_scan_ordered\<close>).
  \<^item> Leaves and pointer entries: \<open>sk_put_refines\<close>, \<open>sk_delete_lookup\<close>, \<open>pb_put_refines\<close>; the three leaves agree (\<open>leaves_agree\<close>);
    the split of the leaf without order, whose records move while it runs (\<open>us_expand_splits\<close>).
  \<^item> The tree over pointer entries: \<open>lt_run_refines\<close>, \<open>lt_expand_keeps\<close>, \<open>eg_find_reference\<close>.
  \<^item> Memory: \<open>na_run_disjoint\<close>, \<open>sl_objects_unique\<close> (any interleaving), \<open>first_zero_first_word\<close>.
  \<^item> Deviations that modelling showed, as theorems: \<open>cl_delete_absent\<close>, \<open>bl_delete_absent\<close>, \<open>ct_late_writer_blocks\<close>,
    \<open>ct_first_phase_returns\<close>, \<open>sk_tombstone_hides\<close>, \<open>sk_positions_leak\<close>, \<open>lt_scan_wrong_pairs\<close>, \<open>lt_small_load_fails\<close>,
    \<open>na_aligned_overlap\<close>, \<open>bl_late_call_refused\<close>; as lemmas of the leaves: \<open>bk_delete_wf\<close>, \<open>us_delete_wf\<close>, \<open>us_put_duplicate\<close>,
    \<open>us_scan_skips\<close>, \<open>us_scan_next_repeats\<close>, \<open>us_iter_never_ends\<close>.

  \<^bold>\<open>Bounds and fuel.\<close>  The height of a tree and the length of its leaf chain are below the number of nodes in the
  region (\<open>cl_fuel\<close>), so the recursion bound derived from \<^verbatim>\<open>cur_addr_\<close> is never reached on a well-formed tree.  The
  walks over entries are bounded by the number of entries (\<open>entry_fuel\<close>, \<open>entries_fuel\<close>).  \<^verbatim>\<open>goto retry\<close> of the pointer entry follows a split, of
  which there are at most as many as free pairs.  Memory: an insertion needs at most one node per level and
  one root; the theorems ask for that much room, and the witnesses use regions that have it.

  \<^bold>\<open>Parameters.\<close>  Trained models (floating-point code of vendored headers) are functions; what is proved holds for
  every prediction (\<^verbatim>\<open>RMI_Index\<close>) or under the documented error bound of the PGM index (\<open>search_ok\<close>), or for lines
  that never decrease (\<open>line_mono\<close>, a fit to ascending keys).  The size
  of a memory region and the contents of fresh leaf memory are parameters.

  \<^bold>\<open>Not modelled.\<close>  The interleaving of instructions inside the tree of one entry, which the lock of the entry makes
  one step; a thread that calls an operation while it holds an iterator, whose lock it would wait for; the lock of the learned
  index; sequentially consistent atomics are assumed; cache-line flushes and fences, which do not change the contents; mapped
  files and recovery after a crash; timers and printing; \<^verbatim>\<open>src/learn_group.h\<close> (the predecessor of \<^verbatim>\<open>letree.h\<close>) and
  \<^verbatim>\<open>src/bucket.h\<close> (of \<open>Buncket\<close>), which no build uses; the leaf with compressed prefixes, which is not compiled; the vendored index structures (ALEX, LIPP, XIndex,
  stx, FAST-FAIR, the PGM library); the build variants without \<^verbatim>\<open>BRANGE\<close> and with \<^verbatim>\<open>POINTER_BENTRY\<close> or
  \<^verbatim>\<open>REUSE_MEMCTR\<close> of the B-level.
\<close>

section \<open>The buffers\<close>

definition buffer_lookup :: "kvbuffer \<Rightarrow> u64 \<Rightarrow> u64 option" where
  "buffer_lookup b k =
     (if snd (kv_find_append b k) then Some (kv_value b (nat (fst (kv_find_append b k)))) else None)"

definition sample_buffer :: kvbuffer where
  "sample_buffer = be_buf (be_new (replicate 112 0) 0x1200 6)"

lemma sample_buffer_ok: "kv_wf sample_buffer" "\<not> kv_full sample_buffer" "prefix_bytes sample_buffer = 6"
  "entries sample_buffer = 0" "max_entries sample_buffer = 11" "suffix_bytes sample_buffer = 2"
  by (simp_all add: sample_buffer_def be_new_def bits4_def kv_wf_def kv_full_def kv_max_entries_def
      kv_buf_size_def kv_value_size_def)

text \<open>Appending a pair to a write buffer with room makes a lookup of its key return the new
  value and leaves the lookup of every other key of the entry as it was.\<close>

theorem kv_append_lookup:
  assumes "kv_wf b" "\<not> kv_full b" "same_prefix (prefix_bytes b) p k" "same_prefix (prefix_bytes b) p j"
  shows "kv_wf (kv_put_append b (entries b) k v) \<and>
    buffer_lookup (kv_put_append b (entries b) k v) j = (if j = k then Some v else buffer_lookup b j)"
proof -
  let ?b = "kv_put_append b (entries b) k v"
  note put = kv_put_append_refines[OF assms(1-3), of v]
  have "prefix_bytes ?b = prefix_bytes b" by (simp add: kv_put_append_def Let_def)
  then have "map_of (rev (kv_items p ?b)) j = buffer_lookup ?b j"
    using kv_find_append_lookup(1)[OF put(1), of p j] assms(4) by (simp add: buffer_lookup_def)
  moreover have "map_of (rev (kv_items p b)) j = buffer_lookup b j"
    using kv_find_append_lookup(1)[OF assms(1,4)] by (simp add: buffer_lookup_def)
  ultimately show ?thesis using put by auto
qed

theorem kv_append_lookup_witness:
  "buffer_lookup (kv_put_append sample_buffer 0 0x1203 7) 0x1203 = Some 7"
  using kv_append_lookup[of sample_buffer "0x1200" "0x1203" "0x1203" 7] sample_buffer_ok
  by (simp add: same_prefix_def prefix_mask_def)

text \<open>With \<^verbatim>\<open>BUF_SORT\<close>: when \<^verbatim>\<open>Find\<close> misses, inserting at the position it returned keeps the
  slots strictly sorted and adds exactly the new pair.\<close>

theorem kv_sorted_insert:
  assumes "kv_wf b" "keys_sorted (kv_items p b)" "\<not> kv_full b" "same_prefix (prefix_bytes b) p k"
    "kv_find_sorted b k = (pos, False)"
  shows "kv_wf (kv_put_sorted b (nat pos) k v) \<and> keys_sorted (kv_items p (kv_put_sorted b (nat pos) k v)) \<and>
    map_of (kv_items p (kv_put_sorted b (nat pos) k v)) = (map_of (kv_items p b))(k \<mapsto> v)"
  using kv_ordered.put_miss[of "(p, b)" k v pos] assms by auto

theorem kv_sorted_insert_witness:
  "map_of (kv_items 0x1200 (kv_put_sorted sample_buffer 0 0x1203 7)) = [0x1203 \<mapsto> 7]"
  using kv_sorted_insert[of sample_buffer "0x1200" "0x1203" 0 7] sample_buffer_ok
  by (simp add: same_prefix_def prefix_mask_def kv_items_def kv_find_sorted_def bsearch.simps)

text \<open>C40 The two rotations of the sort header undo each other above a common start bit.\<close>

theorem rotate_roundtrip:
  assumes "0 < n" "0 < start" "start + n < 64"
  shows "circular_rshift (circular_lshift w start n) start n = w"
proof (rule bit_word_eqI)
  fix k assume "k < LENGTH(64)"
  then have k: "k < 64" by simp
  have l: "bit (circular_lshift w start n) i \<longleftrightarrow>
    (if i < start then bit w i else if i < start + n then bit w (64 + i - start - n) else bit w (i - n))"
    if "i < 64" for i using bit_circular_lshift[of n start i w] assms that by simp
  have e: "64 + (k - (64 - start - n)) - start - n = k" if "\<not> k < 64 - n" using that assms k by simp
  show "bit (circular_rshift (circular_lshift w start n) start n) k = bit w k"
    using bit_circular_rshift[of n start k "circular_lshift w start n"] assms k l e by auto
qed

theorem rotate_roundtrip_witness:
  "circular_rshift (circular_lshift 0x0123456789AB0280 20 4) 20 4 = 0x0123456789AB0280"
  by (rule rotate_roundtrip) simp_all

text \<open>C23 \<^verbatim>\<open>SortBuffer::Put\<close> at the position of a missed \<^verbatim>\<open>Find\<close> finds a free slot, keeps the
  invariant (the nibbles are a permutation of the slots, the free slots are where Put takes them)
  and adds exactly the new pair in key order.\<close>

theorem sb_insert_refines:
  assumes "sb_wf vs b" "keys_sorted (sb_items vs p b)" "\<not> sb_full b"
    "same_prefix (sb_prefix_bytes b) p k" "value_fits vs v" "sb_find b k = (pos, False)"
  shows "\<exists>b'. sb_put vs b (nat pos) k v = Some b' \<and> sb_wf vs b' \<and> keys_sorted (sb_items vs p b') \<and>
    map_of (sb_items vs p b') = (map_of (sb_items vs p b))(k \<mapsto> v)"
  using sb_ordered.put_miss[of "(vs, p, b)" k v pos] assms by auto

theorem sb_insert_refines_witness:
  "\<exists>b'. sb_put 8 (new_node_buf 2) 0 0x1203 7 = Some b' \<and> sb_wf 8 b' \<and>
    map_of (sb_items 8 0x1200 b') = [0x1203 \<mapsto> 7]"
proof -
  have n: "node_ok 8 2 (new_node_buf 2)" "sb_items 8 0x1200 (new_node_buf 2) = []"
    by (rule new_node_buf_ok; simp)+
  then have e: "sb_entries (new_node_buf 2) = 0" by (metis length_sb_items list.size(3))
  show ?thesis
    using sb_insert_refines[of 8 "new_node_buf 2" "0x1200" "0x1203" 7 0] n e
    by (simp add: node_ok_def sb_full_def sb_find_def bsearch.simps same_prefix_def prefix_mask_def
        value_fits_def max_of_def kv_buf_size_def) (metis n(2))
qed

text \<open>C34 \<^verbatim>\<open>FromKVBuffer\<close> turns an append buffer into a sorted node: the pairs in key order.\<close>

theorem sb_from_kvbuffer_sorts:
  assumes "kv_wf kvb" "sb_wf 8 b" "sb_prefix_bytes b = prefix_bytes kvb" "sb_max_entries b = max_entries kvb"
  shows "sb_wf 8 (sb_from_kvbuffer b kvb) \<and>
    sb_items 8 p (sb_from_kvbuffer b kvb) = sort_key fst (kv_items p kvb)"
  using sb_from_kvbuffer_refines(1,2)[OF assms] by simp

theorem sb_from_kvbuffer_sorts_witness:
  "sb_items 8 0x1200 (sb_from_kvbuffer (new_node_buf 2) (kv_put_append (kv_put_append sample_buffer 0 0x1209 1) 1 0x1203 2))
    = [(0x1203, 2), (0x1209, 1)]"
proof -
  define b1 where "b1 = kv_put_append sample_buffer 0 0x1209 1"
  define b2 where "b2 = kv_put_append b1 1 0x1203 2"
  have p: "same_prefix 6 0x1200 (0x1209 :: u64)" "same_prefix 6 0x1200 (0x1203 :: u64)"
    by (simp_all add: same_prefix_def prefix_mask_def)
  have 1: "kv_wf b1" "kv_items 0x1200 b1 = [(0x1209, 1)]"
    using kv_put_append_refines[OF sample_buffer_ok(1,2), of "0x1200" "0x1209" 1] p sample_buffer_ok
    by (simp_all add: b1_def kv_items_def)
  then have "entries b1 = 1" using length_kv_items[of "0x1200" b1] by simp
  moreover have m: "max_entries b1 = 11" "prefix_bytes b1 = 6" "suffix_bytes b1 = 2"
    using sample_buffer_ok by (simp_all add: b1_def kv_put_append_def Let_def)
  ultimately have 2: "kv_wf b2" "kv_items 0x1200 b2 = [(0x1209, 1), (0x1203, 2)]"
    using kv_put_append_refines[OF 1(1), of "0x1200" "0x1203" 2] p 1(2) by (simp_all add: b2_def kv_full_def)
  have m2: "max_entries b2 = 11" "prefix_bytes b2 = 6" using m by (simp_all add: b2_def kv_put_append_def Let_def)
  have n: "node_ok 8 2 (new_node_buf 2)" using new_node_buf_ok(1)[of 2 8] by simp
  show ?thesis using sb_from_kvbuffer_sorts[OF 2(1), of "new_node_buf 2" "0x1200"] n m2 2(2)
    by (simp add: node_ok_def max_of_def kv_buf_size_def b2_def b1_def)
qed


section \<open>The C-level\<close>

definition sample_mem :: clmem where
  "sample_mem = \<lparr>cur_addr = 0, end_addr = 1048576, heap = (\<lambda>_. None)\<rparr>"

lemma sample_mem_ok: "region_ok sample_mem" "cur_addr sample_mem = 0" "end_addr sample_mem = 1048576"
  by (simp_all add: sample_mem_def region_ok_def mem_ok_def)

lemma sample_prefix: "same_prefix 6 0x1200 (0x1203 :: u64)" "same_prefix 6 0x1200 (0x1205 :: u64)"
  by (simp_all add: same_prefix_def prefix_mask_def)

text \<open>C7 A freshly set-up C-level that executes any sequence of insertions and deletions of keys
  with its prefix never fails, given enough free space in the region, and afterwards answers
  every lookup as the finite map that the same sequence produces.\<close>

theorem cl_run_refines:
  assumes "0 < s" "s \<le> 8" "region_ok m" "\<forall>op \<in> set ops. same_prefix (8 - s) p (op_key op)"
    "cur_addr m + node_size + run_room 0 (length ops) < end_addr m"
  shows "\<exists>m0 c0 m1 c1. cl_setup m s = Some (m0, c0) \<and> cl_run (m0, c0) ops = Some (m1, c1) \<and>
    (\<forall>k. same_prefix (8 - s) p k \<longrightarrow>
      cl_get (cl_fuel m1) m1 c1 k = Some (foldl op_spec (\<lambda>_. None) ops k))"
proof -
  have "cur_addr m + node_size < end_addr m" using assms(5) by simp
  then obtain m0 c0 where S: "cl_setup m s = Some (m0, c0)" "cl_own p s m0 c0 0 {cur_addr m} []"
    "region_step {} m {cur_addr m} m0" "cur_addr m0 = cur_addr m + node_size"
    using cl_setup_own[OF assms(1-3)] by blast
  have "cur_addr m0 + run_room 0 (length ops) < end_addr m0" using S(3,4) assms(5) by (simp add: region_step_def)
  from cl_run_own[OF S(2) assms(4) this] obtain m1 c1 d bs xs where
    R: "cl_run (m0, c0) ops = Some (m1, c1)" "cl_own p s m1 c1 d bs xs"
      "map_of xs = foldl op_spec (map_of []) ops" by blast
  then show ?thesis using S(1) cl_get_own[OF R(2)] by auto
qed

theorem cl_run_refines_witness:
  "\<exists>m0 c0 m1 c1. cl_setup sample_mem 2 = Some (m0, c0) \<and>
    cl_run (m0, c0) [OpPut 0x1203 7, OpPut 0x1205 8, OpDelete 0x1203] = Some (m1, c1) \<and>
    cl_get (cl_fuel m1) m1 c1 0x1205 = Some (Some 8) \<and> cl_get (cl_fuel m1) m1 c1 0x1203 = Some None"
proof -
  have "cur_addr sample_mem + node_size + run_room 0 (length [OpPut 0x1203 7, OpPut 0x1205 8, OpDelete 0x1203])
      < end_addr sample_mem" by (simp add: sample_mem_ok run_room_def node_size_def)
  with cl_run_refines[of 2 sample_mem "[OpPut 0x1203 7, OpPut 0x1205 8, OpDelete 0x1203]" "0x1200"]
  obtain m0 c0 m1 c1 where "cl_setup sample_mem 2 = Some (m0, c0)"
    "cl_run (m0, c0) [OpPut 0x1203 7, OpPut 0x1205 8, OpDelete 0x1203] = Some (m1, c1)"
    "\<forall>k. same_prefix 6 0x1200 k \<longrightarrow> cl_get (cl_fuel m1) m1 c1 k =
      Some (foldl op_spec (\<lambda>_. None) [OpPut 0x1203 7, OpPut 0x1205 8, OpDelete 0x1203] k)"
    using sample_prefix sample_mem_ok by auto
  then show ?thesis using sample_prefix
    by (intro exI[of _ m0] exI[of _ c0] exI[of _ m1] exI[of _ c1]) simp
qed

text \<open>C16 Iterating over a C-level from a start key delivers exactly the pairs whose key is not
  smaller, in key order, and every loop of the iterator ends.  The keys of the C-level are not below the prefix
  key of its entry.\<close>

theorem cl_scan_ordered:
  assumes "cl_own p s m c d as xs" "same_prefix (8 - s) p start" "\<forall>x \<in> set xs. p \<le> fst x"
  shows "keys_sorted xs \<and> (\<exists>it. cl_iter_from (cl_fuel m) m c p start = Some it \<and>
    cl_iter_collect (cl_fuel m) (length xs) m p it = Some (filter (\<lambda>x. start \<le> fst x) xs))"
  using cl_scan_from_own[OF assms] cl_own_sorted[OF assms(1)] by blast

theorem cl_scan_ordered_witness:
  "\<exists>m c it. cl_run (the (cl_setup sample_mem 2)) [OpPut 0x1205 8, OpPut 0x1203 7] = Some (m, c) \<and>
    cl_iter_from (cl_fuel m) m c 0x1200 0x1204 = Some it \<and>
    cl_iter_collect (cl_fuel m) 2 m 0x1200 it = Some [(0x1205, 8)]"
proof -
  have "cur_addr sample_mem + node_size < end_addr sample_mem" by (simp add: sample_mem_ok node_size_def)
  then obtain m0 c0 where S: "cl_setup sample_mem 2 = Some (m0, c0)" "cl_own 0x1200 2 m0 c0 0 {0} []"
    "region_step {} sample_mem {0} m0" "cur_addr m0 = node_size"
    using cl_setup_own[OF _ _ sample_mem_ok(1), of 2 "0x1200"] sample_mem_ok by auto
  have r: "cur_addr m0 + (0 + 2) * node_size < end_addr m0"
    using S(3,4) sample_mem_ok by (simp add: region_step_def node_size_def)
  have pf: "same_prefix (8 - 2) 0x1200 (0x1205 :: u64)" "same_prefix (8 - 2) 0x1200 (0x1203 :: u64)"
    "same_prefix (8 - 2) 0x1200 (0x1204 :: u64)" by (simp_all add: same_prefix_def prefix_mask_def)
  obtain m1 c1 d1 b1 where P: "cl_put (cl_fuel m0) m0 c0 0x1205 8 = Some (m1, c1, True)"
    "cl_own 0x1200 2 m1 c1 d1 b1 (ins 0x1205 8 [])" "region_step {0} m0 b1 m1" "d1 \<le> Suc 0"
    "cur_addr m1 \<le> cur_addr m0 + (0 + 2) * node_size" using cl_put_own[OF S(2) pf(1) r, of 8] by blast
  have r1: "cur_addr m1 + (d1 + 2) * node_size < end_addr m1"
    using P(3-5) S(3,4) sample_mem_ok by (simp add: region_step_def node_size_def)
  obtain m2 c2 d2 b2 where Q: "cl_put (cl_fuel m1) m1 c1 0x1203 7 = Some (m2, c2, True)"
    "cl_own 0x1200 2 m2 c2 d2 b2 (ins 0x1203 7 (ins 0x1205 8 []))"
    using cl_put_own[OF P(2) pf(2) r1, of 7] by blast
  have xs: "ins 0x1203 7 (ins 0x1205 8 []) = [(0x1203, 7), (0x1205 :: u64, 8 :: u64)]" by (simp add: ins_def)
  have fl: "filter (\<lambda>x. 0x1204 \<le> fst x) [(0x1203, 7), (0x1205 :: u64, 8 :: u64)] = [(0x1205, 8)]" by simp
  have len: "length [(0x1203, 7), (0x1205 :: u64, 8 :: u64)] = 2" by simp
  from cl_scan_ordered[OF Q(2) pf(3), unfolded xs fl len] obtain it where
    "cl_iter_from (cl_fuel m2) m2 c2 0x1200 0x1204 = Some it"
    "cl_iter_collect (cl_fuel m2) 2 m2 0x1200 it = Some [(0x1205, 8)]" by auto
  moreover have "cl_run (the (cl_setup sample_mem 2)) [OpPut 0x1205 8, OpPut 0x1203 7] = Some (m2, c2)"
    using P(1) Q(1) S(1) by simp
  ultimately show ?thesis by blast
qed

text \<open>\<^verbatim>\<open>Delete\<close> of a C-level reports success for a key that is not there, and changes no pair.\<close>

theorem cl_delete_absent:
  assumes "cl_own p s m c d as xs" "same_prefix (8 - s) p k" "map_of xs k = None"
  shows "\<exists>m'. cl_delete (cl_fuel m) m c k = Some (m', True, None) \<and> cl_own p s m' c d as xs"
proof -
  have "filter (\<lambda>x. fst x \<noteq> k) xs = xs" using assms(3) by (auto simp: map_of_eq_None_iff filter_id_conv)
  then show ?thesis using cl_delete_own[OF assms(1,2)] assms(3) by auto
qed

theorem cl_delete_absent_witness:
  "\<exists>m c m'. cl_setup sample_mem 2 = Some (m, c) \<and> cl_delete (cl_fuel m) m c 0x1203 = Some (m', True, None)"
proof -
  have "cur_addr sample_mem + node_size < end_addr sample_mem" by (simp add: sample_mem_ok node_size_def)
  then obtain m0 c0 where S: "cl_setup sample_mem 2 = Some (m0, c0)" "cl_own 0x1200 2 m0 c0 0 {0} []"
    using cl_setup_own[OF _ _ sample_mem_ok(1), of 2 "0x1200"] sample_mem_ok by auto
  from cl_delete_absent[OF S(2), of "0x1203"] S(1) sample_prefix show ?thesis by auto
qed


section \<open>The entries\<close>

text \<open>C27 An insertion into an entry without write buffer returns OK, acts as a map update, and
  leaves what every other entry of the region answers untouched.\<close>

theorem nb_put_isolated:
  assumes "nb_own m e d as xs" "nb_own m e2 d2 as2 ys" "as \<inter> as2 = {}" "nb_fits e k" "nb_fits e2 j"
    "cur_addr m + (d + 3) * node_size < end_addr m"
  shows "\<exists>m' e'. nb_put m e k v = Some (m', e', OK) \<and> nb_get m' e' k = Some (Some v) \<and>
    (\<forall>i. nb_fits e i \<longrightarrow> i \<noteq> k \<longrightarrow> nb_get m' e' i = nb_get m e i) \<and> nb_get m' e2 j = nb_get m e2 j"
proof -
  obtain m' c d' bs where P: "nb_put m e k v = Some (m', e\<lparr>nb_clevel := c\<rparr>, OK)"
    "nb_own m' (e\<lparr>nb_clevel := c\<rparr>) d' bs (ins k v xs)" "region_step as m bs m'"
    using nb_put_own[OF assms(1,4,6), of v] by blast
  note sp = ins_spec(2)[OF nb_own_sorted[OF assms(1)], of k v]
  have fit: "nb_fits (e\<lparr>nb_clevel := c\<rparr>) i = nb_fits e i" for i by (simp add: nb_fits_def)
  have "nb_get m' e2 j = nb_get m e2 j"
    using nb_get_own[OF nb_own_frame(1)[OF assms(2) P(3)] assms(5)] nb_get_own[OF assms(2,5)] assms(3) by auto
  then show ?thesis using P(1) nb_get_own[OF P(2)] nb_get_own[OF assms(1)] sp fit assms(4)
    by (intro exI[of _ m'] exI[of _ "e\<lparr>nb_clevel := c\<rparr>"]) simp
qed

definition blank_entry :: nobuf_entry where
  "blank_entry = \<lparr>nb_key = 0, nb_clevel = cl_null, nb_prefix = 0, nb_suffix = 0, nb_entries = 0, nb_max = 0\<rparr>"

theorem nb_put_isolated_witness:
  "\<exists>m1 e1 m2 e2 m3 e3. nb_new sample_mem blank_entry 0x1200 6 = Some (m1, e1) \<and>
    nb_new m1 blank_entry 0x5600 6 = Some (m2, e2) \<and> nb_put m2 e1 0x1203 7 = Some (m3, e3, OK) \<and>
    nb_get m3 e3 0x1203 = Some (Some 7) \<and> nb_get m3 e2 0x5601 = nb_get m2 e2 0x5601"
proof -
  obtain m1 e1 where A: "nb_new sample_mem blank_entry 0x1200 6 = Some (m1, e1)" "nb_key e1 = 0x1200"
    "nb_prefix e1 = 6" "nb_own m1 e1 0 {0} []" "region_step {} sample_mem {0} m1" "cur_addr m1 = node_size"
    using nb_new_own[of 6 sample_mem blank_entry "0x1200"] sample_mem_ok by (auto simp: node_size_def)
  have m1: "region_ok m1" "end_addr m1 = 1048576" using A(5) sample_mem_ok by (simp_all add: region_step_def)
  obtain m2 e2 where B: "nb_new m1 blank_entry 0x5600 6 = Some (m2, e2)" "nb_key e2 = 0x5600"
    "nb_prefix e2 = 6" "nb_own m2 e2 0 {node_size} []" "region_step {} m1 {node_size} m2"
    "cur_addr m2 = 2 * node_size"
    using nb_new_own[of 6 m1 blank_entry "0x5600"] m1 A(6) by (auto simp: node_size_def)
  have own: "nb_own m2 e1 0 {0} []" using nb_own_frame(1)[OF A(4) B(5)] by simp
  have "nb_fits e1 0x1203" "nb_fits e2 0x5601"
    using A(2,3) B(2,3) by (simp_all add: nb_fits_def same_prefix_def prefix_mask_def)
  moreover have "cur_addr m2 + (0 + 3) * node_size < end_addr m2"
    using B(5,6) m1(2) by (simp add: region_step_def node_size_def)
  ultimately show ?thesis using nb_put_isolated[OF own B(4), of "0x1203" "0x5601" 7] A(1) B(1)
    by (auto simp: node_size_def)
qed

text \<open>Scanning an entry from a key on delivers exactly the pairs with keys not smaller, in order.\<close>

theorem nb_scan_ordered:
  assumes "nb_own m e d as xs" "nb_fits e start" "\<forall>x \<in> set xs. nb_key e \<le> fst x"
  shows "\<exists>it. nb_iter_from 1 m e start = Some it \<and>
    nb_iter_collect (length xs) m e it = Some (filter (\<lambda>x. start \<le> fst x) xs)"
  using nb_iter_from_own[OF assms, of 0] nb_iter_collect_rest[of m e _ "filter (\<lambda>x. start \<le> fst x) xs" "length xs"]
  by auto

theorem nb_scan_ordered_witness:
  "\<exists>m e it. nb_new sample_mem blank_entry 0x1200 6 = Some (m, e) \<and>
    nb_iter_from 1 m e 0x1203 = Some it \<and> nb_iter_collect 0 m e it = Some []"
proof -
  obtain m1 e1 where A: "nb_new sample_mem blank_entry 0x1200 6 = Some (m1, e1)" "nb_key e1 = 0x1200"
    "nb_prefix e1 = 6" "nb_own m1 e1 0 {0} []"
    using nb_new_own[of 6 sample_mem blank_entry "0x1200"] sample_mem_ok by (auto simp: node_size_def)
  have "nb_fits e1 0x1203" using A(2,3) by (simp add: nb_fits_def same_prefix_def prefix_mask_def)
  from nb_scan_ordered[OF A(4) this] A(1) show ?thesis by auto
qed

lemma sample_entry_own: "be_own sample_mem (be_new (replicate 112 0) 0x1200 6) 0 {} []"
  "be_items (be_new (replicate 112 0) 0x1200 6) [] = []"
  using be_new_own[OF sample_mem_ok(1), of 6 "replicate 112 0"] by (simp_all add: kv_buf_size_def)

lemma sample_entry_fits: "be_fits (be_new (replicate 112 0) 0x1200 6) 0x1203" "be_fits (be_new (replicate 112 0) 0x1200 6) 0x1209"
proof -
  have "be_key (be_new (replicate 112 0) 0x1200 6) = 0x1200" by (simp add: be_new_def Let_def)
  then show "be_fits (be_new (replicate 112 0) 0x1200 6) 0x1203" "be_fits (be_new (replicate 112 0) 0x1200 6) 0x1209"
    using sample_buffer_ok(3) by (simp_all add: be_fits_def sample_buffer_def same_prefix_def prefix_mask_def)
qed

text \<open>C13 A write-buffered entry: inserting a key that is not there, also when the buffer has to be
  flushed to the C-level first, returns OK and acts as a map update on the pairs of buffer and C-level.\<close>

theorem be_put_refines:
  assumes "be_own m e d as cs" "be_fits e k" "be_get m e k = Some None" "cur_addr m + flush_room d < end_addr m"
  shows "\<exists>m' e' d' bs cs'. be_put m e k v = Some (m', e', OK) \<and> be_own m' e' d' bs cs' \<and>
    (\<forall>j. be_fits e j \<longrightarrow> be_get m' e' j = (if j = k then Some (Some v) else be_get m e j))"
proof -
  have n: "map_of (be_items e cs) k = None" using be_get_own[OF assms(1,2)] assms(3) by simp
  obtain m' e' d' bs cs' where P: "be_put m e k v = Some (m', e', OK)" "be_own m' e' d' bs cs'"
    "map_of (be_items e' cs') = (map_of (be_items e cs))(k \<mapsto> v)" "be_key e' = be_key e"
    "prefix_bytes (be_buf e') = prefix_bytes (be_buf e)" using be_put_own[OF assms(1,2) n assms(4), of v] by blast
  then show ?thesis using be_get_own[OF P(2)] be_get_own[OF assms(1)]
    by (intro exI[of _ m'] exI[of _ e'] exI[of _ d'] exI[of _ bs] exI[of _ cs']) (simp add: be_fits_def)
qed

theorem be_put_refines_witness:
  "\<exists>m e. be_put sample_mem (be_new (replicate 112 0) 0x1200 6) 0x1203 7 = Some (m, e, OK) \<and>
    be_get m e 0x1203 = Some (Some 7)"
proof -
  note o = sample_entry_own and f = sample_entry_fits
  have "be_get sample_mem (be_new (replicate 112 0) 0x1200 6) 0x1203 = Some None" using be_get_own[OF o(1) f(1)] o(2) by simp
  from be_put_refines[OF o(1) f(1) this, of 7] f(1) show ?thesis
    by (auto simp: flush_room_def sample_mem_ok node_size_def)
qed

text \<open>C33 Deleting from a write-buffered entry removes the key, wherever its pair lies, returns
  the old value, and changes no other key.\<close>

theorem be_delete_refines:
  assumes "be_own m e d as cs" "be_fits e k"
  shows "\<exists>m' e' ret. be_delete m e k = Some (m', e', ret, the (be_get m e k)) \<and>
    (\<forall>j. be_fits e j \<longrightarrow> be_get m' e' j = (if j = k then Some None else be_get m e j))"
proof -
  obtain m' e' cs' ret where P: "be_delete m e k = Some (m', e', ret, map_of (be_items e cs) k)"
    "be_own m' e' d as cs'" "map_of (be_items e' cs') = (map_of (be_items e cs))(k := None)"
    "be_key e' = be_key e" "prefix_bytes (be_buf e') = prefix_bytes (be_buf e)"
    using be_delete_own[OF assms] by blast
  then show ?thesis using be_get_own[OF P(2)] be_get_own[OF assms(1)] assms(2)
    by (intro exI[of _ m'] exI[of _ e'] exI[of _ ret]) (simp add: be_fits_def)
qed

theorem be_delete_refines_witness:
  "\<exists>m e ret. be_delete sample_mem (be_new (replicate 112 0) 0x1200 6) 0x1203 = Some (m, e, ret, None) \<and>
    be_get m e 0x1203 = Some None"
proof -
  note o = sample_entry_own and f = sample_entry_fits
  have "be_get sample_mem (be_new (replicate 112 0) 0x1200 6) 0x1203 = Some None" using be_get_own[OF o(1) f(1)] o(2) by simp
  from be_delete_refines[OF o(1) f(1)] f(1) this show ?thesis by auto
qed

text \<open>C31 The iterator of a write-buffered entry merges the buffer and the C-level: from a start key on it delivers exactly
  the pairs with keys not smaller, in key order, if there is a pair for it to stand on.\<close>

theorem be_scan_ordered:
  assumes "be_own m e d as cs" "be_fits e start" "\<forall>x \<in> set (be_items e cs). be_key e \<le> fst x"
    and "entries (be_buf e) \<noteq> 0 \<or> (\<exists>x \<in> set cs. start \<le> fst x)"
  shows "\<exists>it ys. be_iter_from (length (be_items e cs)) m e start = Some it \<and>
    be_iter_collect (length (be_items e cs)) m e it = Some ys \<and> keys_sorted ys \<and>
    set ys = {x \<in> set (be_items e cs). start \<le> fst x}"
proof -
  obtain it bs cs' where I: "be_iter_from (length (be_items e cs)) m e start = Some it" "be_iter_at m e it bs cs'"
    "keys_sorted (be_merge bs cs')" "set (be_merge bs cs') = {x \<in> set (be_items e cs). start \<le> fst x}"
    "length (be_merge bs cs') \<le> length (be_items e cs)" by (rule be_iter_from_own[OF assms order_refl])
  show ?thesis using I(1,3,4) be_iter_collect_rest[OF I(2,5)] by blast
qed

definition two_pairs :: bentry where
  "two_pairs =
     (let e = be_new (replicate 112 0) 0x1200 6; e1 = e\<lparr>be_buf := kv_put_append (be_buf e) (entries (be_buf e)) 0x1209 9\<rparr>
      in e1\<lparr>be_buf := kv_put_append (be_buf e1) (entries (be_buf e1)) 0x1203 7\<rparr>)"

theorem be_scan_ordered_witness:
  "\<exists>n it ys. be_iter_from n sample_mem two_pairs 0x1201 = Some it \<and> be_iter_collect n sample_mem two_pairs it = Some ys \<and>
    keys_sorted ys \<and> set ys = {(0x1203, 7), (0x1209, 9)}"
proof -
  let ?e = "be_new (replicate 112 0) 0x1200 6"
  let ?e1 = "?e\<lparr>be_buf := kv_put_append (be_buf ?e) (entries (be_buf ?e)) 0x1209 9\<rparr>"
  have b: "entries (be_buf ?e) = 0" "max_entries (be_buf ?e) = 11" "\<not> kv_full (be_buf ?e)"
    using sample_buffer_ok(2,4,5) by (simp_all add: sample_buffer_def)
  note A = be_append_own[OF sample_entry_own(1) sample_entry_fits(2) _ b(3), of 9]
  have a: "be_own sample_mem ?e1 0 {} []" "map_of (be_items ?e1 []) = [0x1209 \<mapsto> 9]" using A b sample_entry_own(2) by simp_all
  have p: "prefix_bytes (kv_put_append c i k v) = prefix_bytes c" "entries (kv_put_append c i k v) = bits4 (int (entries c) + 1)"
    "max_entries (kv_put_append c i k v) = max_entries c" for c i k v by (simp_all add: kv_put_append_def Let_def)
  have f1: "be_fits ?e1 0x1203" using sample_entry_fits(1) by (simp add: be_fits_def p)
  have n1: "entries (be_buf ?e1) = 1" "max_entries (be_buf ?e1) = 11" using b by (simp_all add: p bits4_def)
  have nf: "\<not> kv_full (be_buf ?e1)" using n1 by (simp add: kv_full_def)
  note B = be_append_own[OF a(1) f1 _ nf, of 7]
  have t: "two_pairs = ?e1\<lparr>be_buf := kv_put_append (be_buf ?e1) (entries (be_buf ?e1)) 0x1203 7\<rparr>"
    unfolding two_pairs_def Let_def ..
  have o: "be_own sample_mem two_pairs 0 {} []" "map_of (be_items two_pairs []) = [0x1209 \<mapsto> 9, 0x1203 \<mapsto> 7]"
    unfolding t using B a(2) n1 by simp_all
  have d: "distinct (map fst (be_items two_pairs []))" using o(1) by (simp add: be_own_def)
  have s: "x \<in> set (be_items two_pairs []) \<longleftrightarrow> x = (0x1203, 7) \<or> x = (0x1209, 9)" for x
  proof -
    obtain k v where x: "x = (k, v)" by fastforce
    have "x \<in> set (be_items two_pairs []) \<longleftrightarrow> map_of (be_items two_pairs []) k = Some v" using d x by simp
    then show ?thesis using o(2) x by auto
  qed
  have k: "be_key two_pairs = 0x1200" "entries (be_buf two_pairs) \<noteq> 0" using n1 unfolding t by (simp_all add: be_new_def Let_def p bits4_def)
  have f: "be_fits two_pairs 0x1201"
    unfolding t using sample_buffer_ok(3) by (simp add: be_fits_def p sample_buffer_def) (simp add: be_new_def Let_def same_prefix_def prefix_mask_def)
  have "\<forall>x \<in> set (be_items two_pairs []). be_key two_pairs \<le> fst x" using s k(1) by auto
  from be_scan_ordered[OF o(1) f this] k(2) obtain it ys where R:
    "be_iter_from (length (be_items two_pairs [])) sample_mem two_pairs 0x1201 = Some it"
    "be_iter_collect (length (be_items two_pairs [])) sample_mem two_pairs it = Some ys" "keys_sorted ys"
    "set ys = {x \<in> set (be_items two_pairs []). 0x1201 \<le> fst x}" by blast
  have "set ys = {(0x1203, 7), (0x1209, 9)}" unfolding R(4) using s by auto
  then show ?thesis using R(1-3) by blast
qed

section \<open>The B-level\<close>

definition sample_pairs :: "kv list" where
  "sample_pairs = [(10, 1), (20, 2), (30, 3), (40, 4), (50, 5), (60, 6), (70, 7), (80, 8), (90, 9), (100, 10),
     (110, 11), (120, 12), (130, 13), (140, 14)]"

lemma sample_pairs_ok: "keys_sorted sample_pairs" "\<forall>x \<in> set sample_pairs. fst x < -1" "length sample_pairs = 14"
  by (simp_all add: sample_pairs_def keys_sorted_def max_key)

lemma sample_room: "load_room 14 = 28800"
  by (simp add: load_room_def load_entries_def entry_room_def puts_room_def node_size_def)

lemma sample_level:
  obtains b where "bl_load (bl_new 14 sample_mem) sample_pairs = Some b" "bl_good b 4 (map_of sample_pairs)" "bl_room b 4"
  using bl_load_good[OF sample_pairs_ok(1,2) _ sample_mem_ok(1)]
  by (auto simp: sample_pairs_ok(3) sample_mem_ok sample_room bl_room_def node_size_def)

text \<open>C3 Loading a sorted vector of at least thirteen pairs fills an array of entries such that a
  lookup finds every pair, and no other, whatever position the index predicts.\<close>

theorem bl_load_refines:
  assumes "keys_sorted data" "\<forall>x \<in> set data. fst x < -1" "13 \<le> length data" "region_ok m"
    "cur_addr m + load_room (length data) < end_addr m"
  shows "\<exists>b. bl_load (bl_new (length data) m) data = Some b \<and> bl_size b = of_nat (length data) \<and>
    bl_nr b = (length data + 3) div 4 \<and> (\<forall>k pos. bl_get_near b k pos = Some (map_of data k))"
  using bl_load_good[OF assms] near_ops_good(1) by (auto simp: load_entries_def)

theorem bl_load_refines_witness:
  "\<exists>b. bl_load (bl_new 14 sample_mem) sample_pairs = Some b \<and> bl_nr b = 4 \<and>
    bl_get_near b 70 1000 = Some (Some 7) \<and> bl_get_near b 75 0 = Some None"
  using bl_load_refines[OF sample_pairs_ok(1,2) _ sample_mem_ok(1)]
  by (auto simp: sample_pairs_ok(3) sample_mem_ok sample_room) (auto simp: sample_pairs_def)

text \<open>C6 An insertion at any predicted position acts as a map update: every later lookup, from any
  position or any window that contains the entry of its key, sees exactly that.\<close>

theorem bl_put_near_refines:
  assumes "bl_good b D M" "bl_room b D"
  shows "\<exists>b'. bl_put_near b k v pos = Some (b', OK) \<and> bl_size b' = bl_size b + 1 \<and>
    (\<forall>j q. bl_get_near b' j q = Some (if j = k then Some v else M j)) \<and>
    (\<forall>j lo hi. window_ok b j lo hi \<longrightarrow> bl_get b' j lo hi = Some (if j = k then Some v else M j))"
proof -
  obtain b' where P: "bl_put_near b k v pos = Some (b', OK)" "bl_good b' (Suc D) (M(k \<mapsto> v))"
    "bl_size b' = bl_size b + 1" "keeps_layout b b'"
    using near_ops_good(2)[OF assms, of k v pos] by (auto simp: put_result_def)
  then show ?thesis using near_ops_good(1)[OF P(2)] window_ops_good(1)[OF P(2)] window_kept[OF P(4)]
    by (intro exI[of _ b']) simp
qed

theorem bl_put_near_refines_witness:
  "\<exists>b b'. bl_load (bl_new 14 sample_mem) sample_pairs = Some b \<and> bl_put_near b 75 8 0 = Some (b', OK) \<and>
    bl_get_near b' 75 3 = Some (Some 8) \<and> bl_get_near b' 70 2 = Some (Some 7)"
proof -
  obtain b where B: "bl_load (bl_new 14 sample_mem) sample_pairs = Some b" "bl_good b 4 (map_of sample_pairs)" "bl_room b 4"
    using sample_level .
  from bl_put_near_refines[OF B(2,3), of 75 8 0] B(1) show ?thesis by (auto simp: sample_pairs_def)
qed

text \<open>C28 Deleting a key that is not there, through the window of an index: the B-level reports success
  and counts one pair less, though its pairs are the same.\<close>

theorem bl_delete_absent:
  assumes "bl_good b D M" "window_ok b k lo hi" "M k = None"
  shows "\<exists>b'. bl_delete b k lo hi = Some (b', True, None) \<and> bl_size b' = bl_size b - 1 \<and>
    (\<forall>j pos. bl_get_near b' j pos = bl_get_near b j pos)"
proof -
  obtain b' where P: "bl_delete b k lo hi = Some (b', True, M k)" "bl_good b' D (M(k := None))" "bl_size b' = bl_size b - 1"
    using window_ops_good(4)[OF assms(1,2)] by (auto simp: delete_result_def)
  have "M(k := None) = M" using assms(3) by auto
  then show ?thesis using P assms(3) near_ops_good(1)[OF P(2)] near_ops_good(1)[OF assms(1)] by auto
qed

theorem bl_delete_absent_witness:
  "\<exists>b b'. bl_load (bl_new 14 sample_mem) sample_pairs = Some b \<and> bl_delete b 75 0 1000 = Some (b', True, None) \<and>
    bl_size b' = bl_size b - 1"
proof -
  obtain b where B: "bl_load (bl_new 14 sample_mem) sample_pairs = Some b" "bl_good b 4 (map_of sample_pairs)" "bl_room b 4"
    using sample_level .
  have "bl_nr b = 4" using bl_load_good[OF sample_pairs_ok(1,2) _ sample_mem_ok(1)] B(1)
    by (auto simp: sample_pairs_ok(3) sample_mem_ok sample_room load_entries_def)
  then have "length (bl_slots b) = 4" using length_slots_nr[OF bl_good_shape[OF B(2)]] by simp
  then have "window_ok b 75 0 1000" by (simp add: window_ok_def)
  from bl_delete_absent[OF B(2) this] B(1) show ?thesis by (auto simp: sample_pairs_def)
qed

section \<open>The threads of the B-level\<close>

text \<open>C5 Concurrent calls on a loaded B-level, with the locks of \<^verbatim>\<open>blevel.h\<close>: after any interleaving of searches, locking, work
  on the entry, additions to the counters, unlocking and scans of any number of threads, the B-level is, counters included, what the
  calls leave when they run one after the other in the order of their work, with the same answers.\<close>

theorem bl_threads_serial:
  assumes "bl_good b D M" "bc_steps (bc_new n b) s" "\<forall>t < n. bc_pc s t = Idle"
  shows "bl_serial b (bc_log s) = Some (bc_level s)"
proof -
  have "settled s" using assms(3) steps_threads[OF assms(2)] by (intro settled_idle) (simp add: bc_new_def)
  then show ?thesis using run_serial(1)[OF assms(1,2)] by blast
qed

lemma two_threads:
  obtains b s where "bl_load (bl_new 14 sample_mem) sample_pairs = Some b" "bl_good b 4 (map_of sample_pairs)"
    "bc_steps (bc_new 2 b) s" "\<forall>t < 2. bc_pc s t = Idle" "map ev_call (bc_log s) = [CallGet 75, CallPut 75 8]"
    "cur_addr (bl_mem b) + 2304 < end_addr (bl_mem b)"
proof -
  obtain b where B: "bl_load (bl_new 14 sample_mem) sample_pairs = Some b" "bl_good b 4 (map_of sample_pairs)" "bl_room b 4"
    "cur_addr (bl_mem b) + 2304 < end_addr (bl_mem b)"
    using bl_load_good[OF sample_pairs_ok(1,2) _ sample_mem_ok(1)]
    by (auto simp: sample_pairs_ok(3) sample_mem_ok sample_room bl_room_def node_size_def)
  obtain j iv where J: "in_slot b j 75" "bl_find_near b 75 0 = Some (int (bl_slots b ! j), iv)" "counter_at b iv"
    using near_reaches[OF B(2), of 75 0] by blast
  let ?i = "bl_slots b ! j" and ?s0 = "bc_new 2 b"
  have i: "?i < physical_nr b" using slot_in_array[OF bl_good_shape[OF B(2)]] J(1) by (simp add: in_slot_def)
  have F: "bl_found b (CallPut 75 8) ?i iv" "bl_found b (CallGet 75) ?i iv" using J(2) by (auto simp: bl_found_def)
  define s1 where "s1 = bc_go ?s0 0 (WaitLock (CallPut 75 8) ?i iv)"
  have s1: "bc_steps ?s0 s1" unfolding s1_def using F(1)
    by (intro steps_one[of 0] bc_step.search) (simp_all add: bc_new_def)
  define s2 where "s2 = bc_go s1 1 (WaitLock (CallGet 75) ?i iv)"
  have "bc_step 1 s1 s2" unfolding s2_def using F(2) by (intro bc_step.search) (simp_all add: s1_def bc_new_def)
  from bc_steps.step[OF s1 _ this] have s2: "bc_steps ?s0 s2" by (simp add: s1_def bc_new_def)
  have f2: "bc_locks s2 ?i = mx_free" "bc_threads s2 = 2" "bc_level s2 = b" "bc_log s2 = []"
    "bc_pc s2 0 = WaitLock (CallPut 75 8) ?i iv" "bc_pc s2 1 = WaitLock (CallGet 75) ?i iv"
    by (simp_all add: s2_def s1_def bc_new_def)
  have "bl_apply b ?i iv (CallGet 75) = Some (b, AnsGet (map_of sample_pairs 75))" using get_reached[OF B(2) J(1)] by simp
  then obtain s3 where s3: "bc_steps s2 s3" "bc_level s3 = b" "bc_pc s3 = (bc_pc s2)(1 := Idle)" "bc_locks s3 = bc_locks s2"
    "bc_threads s3 = 2" "map ev_call (bc_log s3) = [CallGet 75]"
    using finish_call[of s2 1 "CallGet 75" ?i iv b] f2 i by (auto simp del: bl_apply.simps)
  obtain b' where "bl_apply b ?i iv (CallPut 75 8) = Some (b', AnsStatus OK)"
    using put_reached[OF B(2) J(1,3) B(3), of 8] by (auto simp: put_result_def)
  then obtain s4 where s4: "bc_steps s3 s4" "bc_pc s4 = (bc_pc s3)(0 := Idle)" "map ev_call (bc_log s4) = [CallGet 75, CallPut 75 8]"
    using finish_call[of s3 0 "CallPut 75 8" ?i iv b' "AnsStatus OK"] s3 f2 i by (auto simp del: bl_apply.simps)
  have "bc_steps ?s0 s4" using s2 s3(1) s4(1) steps_trans by blast
  moreover have "\<forall>t < 2. bc_pc s4 t = Idle" using s4(2) s3(3) by (auto simp: less_2_cases_iff)
  ultimately show thesis using B(1,2,4) s4(3) by (intro that[of b s4])
qed

theorem bl_threads_serial_witness:
  "\<exists>b s. bl_load (bl_new 14 sample_mem) sample_pairs = Some b \<and> bc_steps (bc_new 2 b) s \<and>
    map ev_call (bc_log s) = [CallGet 75, CallPut 75 8] \<and> bl_serial b (bc_log s) = Some (bc_level s)"
proof -
  obtain b s where S: "bl_load (bl_new 14 sample_mem) sample_pairs = Some b" "bl_good b 4 (map_of sample_pairs)"
    "bc_steps (bc_new 2 b) s" "\<forall>t < 2. bc_pc s t = Idle" "map ev_call (bc_log s) = [CallGet 75, CallPut 75 8]"
    using two_threads by metis
  from bl_threads_serial[OF S(2-4)] S show ?thesis by (intro exI[of _ b] exI[of _ s]) simp
qed

text \<open>C4 The answers of concurrent calls, while the expansion moves entries: in the order of their work, the calls on
  entries that are still there act on a finite map, the move of an entry takes exactly the pairs that the map then
  has for its keys, and every later call on the moved entry is turned away.  So no update is lost.\<close>

theorem bl_threads_follow:
  assumes "bl_good b D M" "bc_steps (bc_new n b) s"
    "cur_addr (bl_mem b) + length (bc_log s) * ((D + length (bc_log s) + 3) * node_size) < end_addr (bl_mem b)"
  shows "follows (slot_keys b) M {} (bc_log s)"
  using run_follows[OF assms] .

theorem bl_threads_follow_witness:
  "\<exists>b s. bl_load (bl_new 14 sample_mem) sample_pairs = Some b \<and> bc_steps (bc_new 2 b) s \<and>
    map ev_answer (bc_log s) = [AnsGet None, AnsStatus OK]"
proof -
  obtain b s where S: "bl_load (bl_new 14 sample_mem) sample_pairs = Some b" "bl_good b 4 (map_of sample_pairs)"
    "bc_steps (bc_new 2 b) s" "map ev_call (bc_log s) = [CallGet 75, CallPut 75 8]"
    "cur_addr (bl_mem b) + 2304 < end_addr (bl_mem b)"
    using two_threads by metis
  from S(4) obtain x y where xy: "bc_log s = [x, y]" "ev_call x = CallGet 75" "ev_call y = CallPut 75 8" by auto
  have "follows (slot_keys b) (map_of sample_pairs) {} (bc_log s)"
    using bl_threads_follow[OF S(2,3)] S(5) xy(1) by (simp add: node_size_def)
  then have "map ev_answer (bc_log s) = [AnsGet None, AnsStatus OK]" using xy by (simp add: sample_pairs_def)
  then show ?thesis using S(1,3) by (intro exI[of _ b] exI[of _ s]) simp
qed



text \<open>C12 A call that was under way when an expansion began: whatever its kind, on a key that is there, it may search before and
  lock after the move of its entry.  It is then turned away as if the key were absent, although the move took the pair.\<close>

theorem bl_late_call_refused:
  assumes "bl_good b D M" "bl_found b c i iv" "call_key c = Some k" "M k \<noteq> None" "2 \<le> n"
  shows "\<exists>s xs. bc_steps (bc_new n b) s \<and> (\<forall>t < n. bc_pc s t = Idle) \<and> map_of xs k = M k \<and>
    map (\<lambda>ev. (ev_call ev, ev_answer ev)) (bc_log s) = [(CallMove, AnsMoved xs), (c, refused c)]"
  using late_call[OF assms] .

theorem bl_late_call_refused_witness:
  "\<exists>b s xs. bl_load (bl_new 14 sample_mem) sample_pairs = Some b \<and> bl_get_near b 70 0 = Some (Some 7) \<and>
    bc_steps (bc_new 2 b) s \<and> map_of xs 70 = Some 7 \<and>
    map (\<lambda>ev. (ev_call ev, ev_answer ev)) (bc_log s) = [(CallMove, AnsMoved xs), (CallGet 70, AnsGet None)]"
proof -
  obtain b where B: "bl_load (bl_new 14 sample_mem) sample_pairs = Some b" "bl_good b 4 (map_of sample_pairs)"
    using sample_level .
  obtain j iv where J: "bl_find_near b 70 0 = Some (int (bl_slots b ! j), iv)" using near_reaches[OF B(2), of 70 0] by blast
  have F: "bl_found b (CallGet 70) (bl_slots b ! j) iv" using J by (auto simp: bl_found_def)
  have v: "map_of sample_pairs 70 = Some 7" by (simp add: sample_pairs_def)
  obtain s xs where "bc_steps (bc_new 2 b) s" "map_of xs 70 = map_of sample_pairs 70"
    "map (\<lambda>ev. (ev_call ev, ev_answer ev)) (bc_log s) = [(CallMove, AnsMoved xs), (CallGet 70, refused (CallGet 70))]"
    using bl_late_call_refused[OF B(2) F, of 70 2] v by auto
  then show ?thesis using B(1) v near_ops_good(1)[OF B(2), of 70 0] by (intro exI[of _ b] exI[of _ s] exI[of _ xs]) simp
qed

section \<open>The index layer\<close>

text \<open>C14 \<^verbatim>\<open>RMI_Index\<close>: for any position the model predicts, the doubling search of
  \<^verbatim>\<open>GetBLevelRange_\<close> ends and returns a window with which the B-level finds the key.\<close>

theorem rmi_range_finds:
  assumes "bl_good b D M" "rmi_new train b = Some ri" "\<And>k. ri_predict ri k < bl_nr b"
  shows "\<exists>lo hi. rmi_range ri b k = Some (lo, hi) \<and> bl_get b k lo hi = Some (M k)"
proof -
  note sh = bl_good_shape[OF assms(1)]
  have "ri_predict ri k < length (bl_slots b)" for k using assms(3) length_slots_nr[OF sh] by simp
  from rmi_window[OF sh assms(2) this] show ?thesis using window_ops_good(1)[OF assms(1)] by blast
qed

theorem rmi_range_finds_witness:
  "\<exists>b ri lo hi. bl_load (bl_new 14 sample_mem) sample_pairs = Some b \<and>
    rmi_new (\<lambda>keys k. unat k mod length keys) b = Some ri \<and> rmi_range ri b 70 = Some (lo, hi) \<and>
    bl_get b 70 lo hi = Some (Some 7)"
proof -
  obtain b where B: "bl_load (bl_new 14 sample_mem) sample_pairs = Some b" "bl_good b 4 (map_of sample_pairs)" "bl_room b 4"
    using sample_level .
  note sh = bl_good_shape[OF B(2)]
  have pos: "0 < length (bl_slots b)" using slots_ge_four[OF sh] by linarith
  obtain ri where R: "rmi_new (\<lambda>keys k. unat k mod length keys) b = Some ri"
    "ri_predict ri = (\<lambda>k. unat k mod length (bl_slots b))" using rmi_new_some[OF sh] by simp
  have "\<And>k. ri_predict ri k < bl_nr b" using R(2) pos length_slots_nr[OF sh] by simp
  from rmi_range_finds[OF B(2) R(1) this, of 70] B(1) R(1) show ?thesis by (auto simp: sample_pairs_def)
qed

text \<open>C9 A client of \<^verbatim>\<open>RMI_Index\<close>: any sequence of insertions, updates of keys that are there and
  deletions runs through, and the lookups afterwards are those of the map.\<close>

theorem rmi_run_refines:
  assumes "bl_good b D M" "kv_pres M ops" "cur_addr (bl_mem b) + bl_run_room D (length ops) < end_addr (bl_mem b)"
  shows "\<exists>b'. index_exec (rmi_put ri) (rmi_update ri) (rmi_delete ri) b ops = Some b' \<and>
    (\<forall>k. rmi_get ri b' k = Some (foldl kv_spec M ops k))"
  using ri.run_good[OF TrueI assms, of ri] ri.get_law by blast

theorem rmi_run_refines_witness:
  "\<forall>ri. \<exists>b b'. bl_load (bl_new 14 sample_mem) sample_pairs = Some b \<and>
    index_exec (rmi_put ri) (rmi_update ri) (rmi_delete ri) b [KPut 75 8, KUpdate 80 9, KDelete 10] = Some b' \<and>
    rmi_get ri b' 80 = Some (Some 9) \<and> rmi_get ri b' 10 = Some None"
proof
  fix ri
  obtain b where B: "bl_load (bl_new 14 sample_mem) sample_pairs = Some b" "bl_good b 4 (map_of sample_pairs)"
    "cur_addr (bl_mem b) \<le> load_room 14" "end_addr (bl_mem b) = end_addr sample_mem"
    using bl_load_good[OF sample_pairs_ok(1,2) _ sample_mem_ok(1)]
    by (auto simp: sample_pairs_ok(3) sample_mem_ok sample_room)
  have "kv_pres (map_of sample_pairs) [KPut 75 8, KUpdate 80 9, KDelete 10]" by (simp add: sample_pairs_def)
  moreover have "cur_addr (bl_mem b) + bl_run_room 4 (length [KPut 75 8, KUpdate 80 9, KDelete 10]) < end_addr (bl_mem b)"
    using B(3,4) by (simp add: sample_room sample_mem_ok bl_run_room_def node_size_def)
  ultimately obtain b' where
    R: "index_exec (rmi_put ri) (rmi_update ri) (rmi_delete ri) b [KPut 75 8, KUpdate 80 9, KDelete 10] = Some b'"
    "\<And>k. rmi_get ri b' k = Some (foldl kv_spec (map_of sample_pairs) [KPut 75 8, KUpdate 80 9, KDelete 10] k)"
    using rmi_run_refines[OF B(2)] by blast
  show "\<exists>b b'. bl_load (bl_new 14 sample_mem) sample_pairs = Some b \<and>
    index_exec (rmi_put ri) (rmi_update ri) (rmi_delete ri) b [KPut 75 8, KUpdate 80 9, KDelete 10] = Some b' \<and>
    rmi_get ri b' 80 = Some (Some 9) \<and> rmi_get ri b' 10 = Some None" using B(1) R(1) R(2)[of 80] R(2)[of 10] by (intro exI conjI) (assumption, assumption, simp_all)
qed

section \<open>The store\<close>

text \<open>\<^verbatim>\<open>PmemKV\<close> while writing is valid: a put succeeds, and a scan delivers the pairs in the
  unsigned order of the keys, though the map below orders them as signed numbers.\<close>

theorem pm_put_scan:
  assumes "pm_ok p" "pm_write_valid p" "length (pm_data p) < n"
  shows "\<exists>p' xs. pm_put p k v = (p', OK) \<and> pm_scan p' lo hi n = (p', xs) \<and> keys_sorted xs \<and>
    map_of xs = (map_of (pm_data p))(k \<mapsto> v)"
proof -
  obtain p' r where P: "pm_put p k v = (p', r)" by fastforce
  note Q = pm_put_valid[OF assms(1,2) P]
  have "pm_data p' = smap_put k v (pm_data p)"
    using P assms(2) by (auto simp: pm_put_def Let_def write_ref_def write_unref_def)
  then have "length (pm_data p') \<le> n" using smap_put_length[of k v "pm_data p"] assms(3) by simp
  moreover obtain p2 xs where S: "pm_scan p' lo hi n = (p2, xs)" by fastforce
  ultimately have "p2 = p'" "keys_sorted xs" "map_of xs = pm_map p'" using pm_scan_all[OF Q(2)] by blast+
  then show ?thesis using P Q(1,3) S by (simp add: pm_map_def)
qed

theorem pm_put_scan_witness:
  "\<exists>p xs. pm_put (fst (pm_put pm_new (-1) 1)) 5 2 = (p, OK) \<and> pm_scan p 0 0 9 = (p, xs) \<and> keys_sorted xs \<and>
    map_of xs = [-1 \<mapsto> 1, 5 \<mapsto> 2]"
proof -
  let ?p = "fst (pm_put pm_new (-1) 1)"
  have n: "pm_ok pm_new" "pm_write_valid pm_new" by (simp_all add: pm_new_def pm_ok_def smap_ok_def)
  obtain r where "pm_put pm_new (-1) 1 = (?p, r)" by (metis prod.collapse)
  note P = pm_put_valid[OF n this]
  have d: "pm_data ?p = [(-1, 1)]" by (simp add: pm_put_def pm_new_def write_ref_def write_unref_def)
  from pm_put_scan[OF P(2,6), of 9 5 2 0 0] show ?thesis by (simp add: d)
qed


definition sample_dir :: combotree where
  "sample_dir = ct_new (\<lambda>_. True) ''/pool''"


text \<open>C26 The status only moves along the cycle: first phase, migration, B-level, preparation of an
  expansion, expansion, and back to the B-level.\<close>

theorem ct_status_order:
  assumes "ct_steps env (ct_new dir_exists dir) t" "ct_step env t t'"
  shows "ct_status t' = ct_status t \<or> ct_edge (ct_status t) (ct_status t')"
  using step_wf_edge[OF assms(2)] steps_wf[OF assms(1) new_wf] by blast

theorem ct_status_order_witness:
  "\<exists>t. ct_put_try 5 7 sample_dir = Some (t, Done OK) \<and> (ct_status t = USING_PMEMKV \<or> ct_edge USING_PMEMKV (ct_status t))"
proof -
  obtain t where t: "ct_put_try 5 7 sample_dir = Some (t, Done OK)"
    using stores_put[OF new_stores] unfolding sample_dir_def by blast
  have "ct_steps env sample_dir sample_dir" "ct_step env sample_dir t" for env
    using t by (auto simp: ct_steps_def intro: ct_step.put)
  from ct_status_order[OF this[unfolded sample_dir_def]] have
    "ct_status t = ct_status sample_dir \<or> ct_edge (ct_status sample_dir) (ct_status t)" unfolding sample_dir_def .
  then show ?thesis using t by (simp add: sample_dir_def ct_new_def)
qed



text \<open>C2 The migration: when no writer holds a reference and there are at least thirteen pairs with
  keys below \<^verbatim>\<open>UINT64_MAX\<close>, \<^verbatim>\<open>ChangeToComboTree_\<close> ends in \<^verbatim>\<open>USING_COMBO_TREE\<close> without the first-phase
  store, and the B-level answers for every key what the first-phase store held.\<close>

theorem ct_migration_keeps:
  assumes "trained env" "ct_status t = PMEMKV_TO_COMBO_TREE" "ct_pmemkv t = Some p" "pm_ok p"
    "pm_write_ref p = 0" "pm_read_ref p = 0" "\<forall>k \<in> dom (pm_map p). k < -1" "13 \<le> card (dom (pm_map p))"
    "load_room (card (dom (pm_map p))) < env_region env" "env_region env \<le> 2 ^ 48"
  shows "\<exists>t'. ct_change_finish env t = Some (Done t') \<and> ct_status t' = USING_COMBO_TREE \<and> ct_pmemkv t' = None \<and>
    (\<forall>k. ct_get_try k t' = Some (t', Done (pm_map p k \<noteq> None, pm_map p k)))"
proof -
  obtain t' where "ct_change_finish env t = Some (Done t')" "ct_serves t' 4 (pm_map p)" "ct_pmemkv t' = None"
    using change_finish_serves[OF assms] by blast
  then show ?thesis using serves_get by (auto simp: ct_serves_def)
qed

definition sample_env :: ct_env where
  "sample_env = \<lparr>env_train = \<lambda>keys k. \<lparr>ap_pos = 0, ap_lo = 0, ap_hi = length keys\<rparr>, env_region = 1048576, env_stale = []\<rparr>"

definition sample_kv :: pmemkv where
  "sample_kv = pm_new\<lparr>pm_data := sample_pairs\<rparr>"

definition sample_store :: combotree where
  "sample_store = ct_change_begin (sample_dir\<lparr>ct_pmemkv := Some sample_kv\<rparr>)"

lemma sample_strict: "search_strict keys (env_train sample_env keys)"
  by (simp add: search_strict_def sample_env_def)

lemma sample_store_ok:
  "trained sample_env" "ct_status sample_store = PMEMKV_TO_COMBO_TREE"
  "ct_pmemkv sample_store = Some (set_write_unvalid sample_kv)" "pm_ok (set_write_unvalid sample_kv)"
  "pm_write_ref (set_write_unvalid sample_kv) = 0" "pm_read_ref (set_write_unvalid sample_kv) = 0"
  "\<forall>k \<in> dom (pm_map (set_write_unvalid sample_kv)). k < -1" "13 \<le> card (dom (pm_map (set_write_unvalid sample_kv)))"
  "load_room (card (dom (pm_map (set_write_unvalid sample_kv)))) < env_region sample_env" "env_region sample_env \<le> 2 ^ 48"
  "pm_map (set_write_unvalid sample_kv) = map_of sample_pairs"
proof -
  let ?q = "set_write_unvalid sample_kv"
  show "trained sample_env" using search_strict_ok[OF sample_strict] by (simp add: trained_def)
  show m: "pm_map ?q = map_of sample_pairs" by (simp add: pm_map_def sample_kv_def set_write_unvalid_def)
  have s: "smap_ok sample_pairs" by (simp add: smap_ok_def sample_pairs_def)
  show "pm_ok ?q" using s by (simp add: pm_ok_def sample_kv_def set_write_unvalid_def pm_new_def)
  show "pm_write_ref ?q = 0" "pm_read_ref ?q = 0" by (simp_all add: sample_kv_def set_write_unvalid_def pm_new_def)
  have c: "card (dom (map_of sample_pairs)) = 14" using smap_length[OF s] sample_pairs_ok(3) by simp
  show "13 \<le> card (dom (pm_map ?q))" "load_room (card (dom (pm_map ?q))) < env_region sample_env"
    unfolding m c sample_room by (simp_all add: sample_env_def)
  show "\<forall>k \<in> dom (pm_map ?q). k < -1"
    unfolding m dom_map_of_conv_image_fst using sample_pairs_ok(2) by blast
qed (simp_all add: sample_store_def ct_change_begin_def sample_dir_def ct_new_def sample_env_def)

theorem ct_migration_keeps_witness:
  "\<exists>t'. ct_change_finish sample_env sample_store = Some (Done t') \<and> ct_status t' = USING_COMBO_TREE \<and>
    ct_get_try 70 t' = Some (t', Done (True, Some 7)) \<and> ct_get_try 75 t' = Some (t', Done (False, None))"
  using ct_migration_keeps[OF sample_store_ok(1-10)] unfolding sample_store_ok(11) by (auto simp: sample_pairs_def)



text \<open>C15 \<^verbatim>\<open>Scan\<close> over the B-level: when the window of the index does not begin behind the entry of the start
  key, and there is a pair from the start key on, the scan ends and delivers the first pairs from
  the start key on, in key order.\<close>

theorem ct_scan_ordered:
  assumes "ct_serves t D M" "scan_window t start" "start \<le> k" "M k \<noteq> None"
  shows "\<exists>xs. keys_sorted xs \<and> map_of xs = M \<and> ct_scan t start n = Some (take n (filter (\<lambda>x. start \<le> fst x) xs))"
  using serves_scan[OF assms(1,2)] assms(3,4) by blast

theorem ct_scan_ordered_witness:
  "\<exists>t xs. ct_change_finish sample_env sample_store = Some (Done t) \<and> keys_sorted xs \<and> map_of xs = map_of sample_pairs \<and>
    ct_scan t 75 3 = Some (take 3 (filter (\<lambda>x. 75 \<le> fst x) xs))"
proof -
  obtain t b where T: "ct_change_finish sample_env sample_store = Some (Done t)" "ct_serves t 4 (map_of sample_pairs)"
    "ct_blevel t = Some b" "ct_index t = li_new (env_train sample_env) b"
    using change_finish_serves[OF sample_store_ok(1-10)] unfolding sample_store_ok(11) by blast
  obtain b' li where S: "ct_blevel t = Some b'" "ct_index t = Some li" "bl_good b' 4 (map_of sample_pairs)"
    using T(2) by (auto simp: ct_serves_def)
  then have "bl_good b 4 (map_of sample_pairs)" "li_new (env_train sample_env) b = Some li" using T(3,4) by auto
  then have w: "scan_window t 75"
    using scan_window_new[OF T(3) S(2) bl_good_shape _ sample_strict] by blast
  have "(75 :: u64) \<le> 80" "map_of sample_pairs 80 \<noteq> None" by (simp_all add: sample_pairs_def)
  from ct_scan_ordered[OF T(2) w this, of 3] T(1) show ?thesis by blast
qed

text \<open>C37 In the first phase \<^verbatim>\<open>Update\<close> stores the pair but returns false, because it converts the status
  \<^verbatim>\<open>OK\<close>, which is zero; and \<^verbatim>\<open>Get\<close> returns true for every key, also one that is not stored.\<close>

theorem ct_first_phase_returns:
  assumes "ct_stores t M"
  shows "\<exists>t'. ct_update_try k v t = Some (t', Done False) \<and>
    (\<forall>j. ct_get_try j t' = Some (t', Done (True, if j = k then Some v else M j)))"
proof -
  obtain t' where "ct_update_try k v t = Some (t', Done False)" "ct_stores t' (M(k \<mapsto> v))"
    using stores_put[OF assms, of k v] by blast
  then show ?thesis using stores_get[of t'] by auto
qed

theorem ct_first_phase_returns_witness:
  "\<exists>t'. ct_update_try 5 7 sample_dir = Some (t', Done False) \<and> ct_get_try 5 t' = Some (t', Done (True, Some 7)) \<and>
    ct_get_try 6 t' = Some (t', Done (True, None))"
  using ct_first_phase_returns[OF new_stores, of 5 7 "\<lambda>_. True" "''/pool''"] unfolding sample_dir_def by auto

section \<open>Leaves behind pointer entries\<close>

definition leaf_of :: "kv list \<Rightarrow> sbuncket" where
  "leaf_of xs = fst (the (put_all sk_put (sk_new (replicate 15 (0, 0))) xs))"

lemma leaf_of_wf:
  "sk_wf (leaf_of [(5, 50), (7, 70), (9, 90)])" "sk_entries (leaf_of [(5, 50), (7, 70), (9, 90)]) = 3"
  "sk_items (leaf_of [(5, 50), (7, 70), (9, 90)]) = [(5, 50), (7, 70), (9, 90)]"
  by (code_simp | simp)+

text \<open>C35 Inserting a new key into a leaf without tombstones that has room succeeds, keeps the records sorted and
  adds exactly this pair; a full leaf answers \<^verbatim>\<open>Full\<close> and stays as it was.\<close>

theorem sk_put_refines:
  assumes "sk_wf b" "k \<noteq> 0" "map_of (sk_items b) k = None"
  shows "if sk_entries b < 15
    then \<exists>b'. sk_put b k v = Some (b', OK) \<and> sk_wf b' \<and> map_of (sk_items b') = (map_of (sk_items b))(k \<mapsto> v)
    else sk_put b k v = Some (b, Full)"
proof (cases "sk_entries b < 15")
  case True
  then show ?thesis using sk_put_wf[OF assms(1) _ assms(2,3), of v] by (metis sk_slots_def)
next
  case False
  moreover have "sk_entries b \<le> sk_slots" using assms(1) by (simp add: sk_wf_def)
  ultimately have "sk_entries b = sk_slots" by (simp add: sk_slots_def)
  then show ?thesis using sk_put_full[OF assms(1)] by (simp add: sk_slots_def)
qed

theorem sk_put_refines_witness:
  "\<exists>b'. sk_put (leaf_of [(5, 50), (7, 70), (9, 90)]) 6 60 = Some (b', OK) \<and> sk_wf b' \<and>
    map_of (sk_items b') = (map_of [(5, 50), (7, 70), (9, 90)])(6 \<mapsto> 60)"
  using sk_put_refines[of "leaf_of [(5, 50), (7, 70), (9, 90)]" 6 60] by (simp add: leaf_of_wf)

text \<open>Deleting a key from a leaf without tombstones leaves a tombstone: lookups of every other key find what
  they found before, the lookup of the key finds nothing, and the number of records decreases.\<close>

theorem sk_delete_lookup:
  assumes "sk_wf b" "map_of (sk_items b) k = Some v" "j \<noteq> 0"
  shows "\<exists>b'. sk_delete b k = (b', OK) \<and> sk_entries b' = sk_entries b - 1 \<and>
    sk_get b' j = (if j = k then None else sk_get b j)"
proof -
  obtain b' where B: "sk_delete b k = (b', OK)" "sk_entries b' = sk_entries b - 1" "keys_sorted (sk_live b')"
    "map_of (sk_live b') = (map_of (sk_items b))(k := None)" "sk_last b' \<le> length (sk_rec b')"
    using sk_delete_wf[OF assms(1,2)] by blast
  have "sk_last b \<le> length (sk_rec b)" "keys_sorted (sk_live b)" using assms(1) by (auto simp: sk_live_items sk_wf_def)
  from sk_get_live[OF this assms(3)] sk_get_live[OF B(5,3) assms(3)] show ?thesis
    using B(1,2,4) by (auto simp: sk_live_items[OF assms(1)])
qed

theorem sk_delete_lookup_witness:
  "\<exists>b'. sk_delete (leaf_of [(5, 50), (7, 70), (9, 90)]) 7 = (b', OK) \<and> sk_entries b' = 2 \<and>
    sk_get b' 9 = sk_get (leaf_of [(5, 50), (7, 70), (9, 90)]) 9"
  using sk_delete_lookup[of "leaf_of [(5, 50), (7, 70), (9, 90)]" 7 70 9] by (simp add: leaf_of_wf)





section \<open>The three leaves\<close>

definition put_unsorted :: "usbuncket \<Rightarrow> u64 \<Rightarrow> u64 \<Rightarrow> (usbuncket \<times> status) option" where
  "put_unsorted b k v = Some (us_put b k v)"

lemma put_leaf_defs: "put_unsorted = (\<lambda>b k v. Some (us_put b k v))"
  by (simp add: put_unsorted_def[abs_def])

text \<open>C18 The three leaves that \<^verbatim>\<open>buncket_t\<close> can name agree: new leaves that are given the same pairs, with distinct keys and with keys and values other than 0, answer every \<^verbatim>\<open>Put\<close>
  with \<^verbatim>\<open>OK\<close> up to their capacity and with \<^verbatim>\<open>Full\<close> after it, and then every \<^verbatim>\<open>Get\<close> as the map of the pairs that were
  taken, whatever was in the memory before; the capacity is 15, but 14 for the leaf with the index array.\<close>

theorem leaves_agree:
  assumes "distinct (map fst xs)" "0 \<notin> fst ` set xs" "0 \<notin> snd ` set xs"
    and "length r1 = 15" "length r2 = 15" "length ixs = 16" "length r3 = 14"
  shows "\<exists>b1 b2 b3.
    put_all sk_put (sk_new r1) xs = Some (b1, replicate (min 15 (length xs)) OK @ replicate (length xs - 15) Full) \<and>
    put_all put_unsorted (us_new r2) xs = Some (b2, replicate (min 15 (length xs)) OK @ replicate (length xs - 15) Full) \<and>
    put_all bk_put (bk_new (ixs, r3)) xs = Some (b3, replicate (min 14 (length xs)) OK @ replicate (length xs - 14) Full) \<and>
    (\<forall>k. k \<noteq> 0 \<longrightarrow> sk_get b1 k = map_of (take 15 xs) k \<and> us_get b2 k = map_of (take 15 xs) k \<and> bk_get b3 k = map_of (take 14 xs) k)"
proof -
  have s: "sk_wf (sk_new r1)" "sk_items (sk_new r1) = []" using sk_new_wf[of r1] assms(4) by (simp_all add: sk_slots_def)
  have u: "us_wf (us_new r2)" "us_items (us_new r2) = []" using us_new_wf[of r2] assms(5) by (simp_all add: us_slots_def)
  have i: "bk_wf (bk_new (ixs, r3))" "bk_items (bk_new (ixs, r3)) = []"
    using bk_new_wf[of "(ixs, r3)"] assms(6,7) by (simp_all add: bk_slots_def)
  show ?thesis
    using sk_leaf.filled_leaf_reads[OF s assms(1-3)] us_leaf.filled_leaf_reads[OF u assms(1-3)]
      bk_leaf.filled_leaf_reads[OF i assms(1-3)]
    unfolding sk_slots_def us_slots_def bk_slots_def put_leaf_defs by blast
qed

theorem leaves_agree_witness:
  "\<exists>b1 b2 b3. put_all sk_put (sk_new (replicate 15 (9, 9))) [(5, 1), (3, 2)] = Some (b1, [OK, OK]) \<and>
    put_all put_unsorted (us_new (replicate 15 (9, 9))) [(5, 1), (3, 2)] = Some (b2, [OK, OK]) \<and>
    put_all bk_put (bk_new (replicate 16 9, replicate 14 (9, 9))) [(5, 1), (3, 2)] = Some (b3, [OK, OK]) \<and>
    sk_get b1 3 = Some 2 \<and> us_get b2 3 = Some 2 \<and> bk_get b3 3 = Some 2 \<and> sk_get b1 9 = None \<and> us_get b2 9 = None \<and> bk_get b3 9 = None"
proof -
  let ?xs = "[(5, 1), (3, 2)] :: kv list"
  have n: "replicate (min 15 (length ?xs)) OK @ replicate (length ?xs - 15) Full = [OK, OK]"
    "replicate (min 14 (length ?xs)) OK @ replicate (length ?xs - 14) Full = [OK, OK]" by code_simp+
  obtain b1 b2 b3 where B: "put_all sk_put (sk_new (replicate 15 (9, 9))) ?xs = Some (b1, [OK, OK])"
    "put_all put_unsorted (us_new (replicate 15 (9, 9))) ?xs = Some (b2, [OK, OK])"
    "put_all bk_put (bk_new (replicate 16 9, replicate 14 (9, 9))) ?xs = Some (b3, [OK, OK])"
    "\<forall>k. k \<noteq> 0 \<longrightarrow> sk_get b1 k = map_of (take 15 ?xs) k \<and> us_get b2 k = map_of (take 15 ?xs) k \<and> bk_get b3 k = map_of (take 14 ?xs) k"
    using leaves_agree[of ?xs "replicate 15 (9, 9)" "replicate 15 (9, 9)" "replicate 16 9" "replicate 14 (9, 9)", unfolded n] by auto
  from B(4) have "sk_get b1 3 = Some 2 \<and> us_get b2 3 = Some 2 \<and> bk_get b3 3 = Some 2"
    "sk_get b1 9 = None \<and> us_get b2 9 = None \<and> bk_get b3 9 = None" by simp_all
  then show ?thesis using B(1-3) by blast
qed

text \<open>C32 Splitting the leaf without order: although the records move while the greater half is removed by keys read at positions of
  the time before, the leaf keeps exactly its pairs below the split key and the new leaf holds the others, each half in a well-formed
  leaf of the right length, linked in order.\<close>

theorem us_expand_splits:
  assumes "um_heap m a = Some b" "us_wf b" "2 \<le> us_entries b" "um_cur m + 256 < um_end m" "length (um_raw m (um_cur m)) = 15"
  shows "\<exists>m' b1 b2 s. us_expand m a = Some (m', um_cur m, s) \<and> um_heap m' = (um_heap m)(um_cur m \<mapsto> b2, a \<mapsto> b1) \<and>
    us_wf b1 \<and> us_wf b2 \<and> us_next b1 = Some (um_cur m) \<and> us_next b2 = us_next b \<and>
    us_get b1 = (\<lambda>k. if k < s then us_get b k else None) \<and> us_get b2 = (\<lambda>k. if s \<le> k then us_get b k else None) \<and>
    us_entries b1 = us_entries b div 2 \<and> us_entries b2 = us_entries b - us_entries b div 2"
  using us_expand_lookups[OF assms(1-3)] assms(4,5) by (simp add: us_size_def us_slots_def)

definition sample_unsorted :: usbuncket where
  "sample_unsorted = \<lparr>us_next = None, us_entries = 4, us_max = 15, us_rec = [(7, 1), (2, 2), (9, 3), (4, 4)] @ replicate 11 (0, 0)\<rparr>"

definition unsorted_region :: usmem where
  "unsorted_region = \<lparr>um_cur = 256, um_end = 1024, um_heap = [0 \<mapsto> sample_unsorted], um_raw = (\<lambda>_. replicate 15 (0, 0)), um_expands = 0\<rparr>"

theorem us_expand_splits_witness:
  "\<exists>m' b1 b2. us_expand unsorted_region 0 = Some (m', 256, 7) \<and> um_heap m' 0 = Some b1 \<and> um_heap m' 256 = Some b2 \<and>
    us_get b1 4 = Some 4 \<and> us_get b1 9 = None \<and> us_get b2 9 = Some 3 \<and> us_get b2 4 = None"
proof -
  have w: "us_wf sample_unsorted" by (simp add: us_wf_def us_items_def sample_unsorted_def us_slots_def)
  have g: "us_get sample_unsorted k = map_of (us_items sample_unsorted) k" for k by (rule us_get_map[OF us_wf_room[OF w]])
  have m: "um_heap unsorted_region 0 = Some sample_unsorted" "2 \<le> us_entries sample_unsorted" "um_cur unsorted_region = 256"
    "um_cur unsorted_region + 256 < um_end unsorted_region" "length (um_raw unsorted_region (um_cur unsorted_region)) = 15"
    by (simp_all add: unsorted_region_def sample_unsorted_def)
  have "fst (us_sorted sample_unsorted ! (us_entries sample_unsorted div 2)) = 7" by code_simp
  then obtain m1 where "us_expand unsorted_region 0 = Some (m1, 256, 7)"
    using us_expand_wf[OF m(1) w m(2)] m(3-5) by (auto simp: us_size_def us_slots_def)
  moreover obtain m' b1 b2 s where E: "us_expand unsorted_region 0 = Some (m', 256, s)"
    "um_heap m' = (um_heap unsorted_region)(256 \<mapsto> b2, 0 \<mapsto> b1)"
    "us_get b1 = (\<lambda>k. if k < s then us_get sample_unsorted k else None)" "us_get b2 = (\<lambda>k. if s \<le> k then us_get sample_unsorted k else None)"
    using us_expand_splits[OF m(1) w m(2,4,5)] unfolding m(3) by blast
  ultimately have s: "s = 7" by simp
  have i: "us_items sample_unsorted = [(7, 1), (2, 2), (9, 3), (4, 4)]" by (simp add: us_items_def sample_unsorted_def)
  show ?thesis using E unfolding s by (simp add: g i)
qed

section \<open>Entries behind pointers\<close>

text \<open>C17 A pointer entry built by its constructor, with room for its twelve leaves, that executes any sequence of
  insertions of new keys and of updates, splits included, with keys and values other than 0, which marks a deleted record: no operation fails, and every lookup answers the value of
  the last operation on its key that reported success.  An insertion is refused only when all twelve pairs are used.\<close>

theorem pb_put_refines:
  assumes "sm_end m \<le> 2 ^ 48" "\<forall>a. length (sm_raw m a) = 15" "sm_cur m + 256 * 12 < sm_end m"
    and "distinct (put_keys ops)" "0 \<notin> set (put_keys ops)" "0 \<notin> op_values ` set ops"
  shows "\<exists>m1 e1 m2 e2 M. pb_new m key len = Some (m1, e1) \<and> pb_run m1 e1 ops Map.empty = Some (m2, e2, M) \<and>
    (\<forall>k. k \<noteq> 0 \<longrightarrow> pb_get m2 e2 k = Some (M k)) \<and> (pb_nr e2 < 12 \<longrightarrow> dom M = set (put_keys ops))"
proof -
  have "sm_ok m" "sm_cur m + sk_size * pb_count < sm_end m"
    using assms(1-3) by (simp_all add: sm_ok_def sk_slots_def sk_size_def pb_count_def)
  then obtain m1 e1 where N: "pb_new m key len = Some (m1, e1)" "pb_own m1 e1 [[]]" "pb_space m1 e1"
    using pb_new_own by metis
  obtain m2 e2 xss where R: "pb_run m1 e1 ops Map.empty = Some (m2, e2, map_of (concat xss))" "pb_own m2 e2 xss"
    "0 \<notin> ran (map_of (concat xss))" "pb_nr e2 < pb_count \<longrightarrow> dom (map_of (concat xss)) = set (put_keys ops)"
    using pb_run_own[OF N(2,3) assms(5,6,4)] by auto
  have "pb_get m2 e2 k = Some (map_of (concat xss) k)" if "k \<noteq> 0" for k
    using pb_get_map[OF R(2) that] R(3) by (auto split: option.splits simp: ran_def)
  then show ?thesis using N(1) R(1,4) by (auto simp: pb_count_def)
qed

definition leaf_region :: skmem where
  "leaf_region = \<lparr>sm_cur = 0, sm_end = 4096, sm_heap = Map.empty, sm_raw = (\<lambda>_. replicate 15 (0, 0)), sm_expands = 0\<rparr>"

definition twenty_keys :: "pb_op list" where
  "twenty_keys = map (\<lambda>i. PutKey (word_of_nat (7 * i mod 23 + 1)) (word_of_nat (i + 1))) [0..<20] @ [UpdateKey 8 99]"

theorem pb_put_refines_witness:
  "\<exists>m1 e1 m2 e2 M. pb_new leaf_region 5 0 = Some (m1, e1) \<and> pb_run m1 e1 twenty_keys Map.empty = Some (m2, e2, M) \<and>
    (\<forall>k. k \<noteq> 0 \<longrightarrow> pb_get m2 e2 k = Some (M k)) \<and> (pb_nr e2 < 12 \<longrightarrow> dom M = set (put_keys twenty_keys))"
proof (rule pb_put_refines)
  show "distinct (put_keys twenty_keys)" "0 \<notin> set (put_keys twenty_keys)" "0 \<notin> op_values ` set twenty_keys"
    by code_simp+
qed (simp_all add: leaf_region_def)

section \<open>The tree over pointer entries\<close>








text \<open>C19 A tree that bulk loading built from at least 64 sorted pairs executes any sequence of insertions of new keys
  and of updates, with all splits of leaves, expansions of groups and expansions of the tree: no operation fails, the
  answers are those of a finite map, and so is every lookup afterwards.  The lines are the fits of \<^verbatim>\<open>LinearModelBuilder\<close>, in any arithmetic
  whose rounding is monotone.  The keys are at most \<open>B\<close>, and fits to keys up to \<open>B\<close> predict, for keys up to \<open>B\<close>, values in the
  range of \<^verbatim>\<open>int\<close>, so that no conversion is undefined; keys and values are not 0.\<close>

theorem lt_run_refines:
  assumes "64 \<le> length data" "keys_sorted data" "\<forall>(k, v) \<in> set data. k \<noteq> 0 \<and> v \<noteq> 0"
    and "sm_end m \<le> 2 ^ 48" "\<forall>a. length (sm_raw m a) = 15"
    "sm_cur m + 256 * (length data + length (put_keys ops) + 1) \<le> sm_end m"
    and "distinct (put_keys ops)" "0 \<notin> set (put_keys ops)" "0 \<notin> op_values ` set ops" "set (put_keys ops) \<inter> fst ` set data = {}"
    and "fp_ok fp" "lines_fit fp B" "\<forall>x \<in> set data. fst x \<le> B" "\<forall>op \<in> set ops. pb_op_key op \<le> B"
  shows "\<exists>t t'. lt_bulk_load fp (lt_new m) data = Some t \<and>
    lt_run fp t ops (map_of data) = Some (t', fold op_map ops (map_of data)) \<and>
    (\<forall>k \<le> B. k \<noteq> 0 \<longrightarrow> lt_get t' k = Some (fold op_map ops (map_of data) k))"
proof -
  have m: "sm_ok m" using assms(4,5) by (simp add: sm_ok_def sk_slots_def)
  have d: "\<forall>x \<in> set data. fst x \<noteq> 0" using assms(3) by auto
  have sp: "sm_cur m + sk_size * length data < sm_end m" using assms(6) by (simp add: sk_size_def)
  obtain t where T: "lt_bulk_load fp (lt_new m) data = Some t" "lt_own B t (map (\<lambda>x. [x]) data)"
    "sm_cur (lt_mem t) = sm_cur m + sk_size * length data" "sm_end (lt_mem t) = sm_end m"
    by (rule lt_bulk_load_own[OF assms(1,2) d m sp assms(11,12,13)])
  have r: "0 \<notin> ran (map_of (concat (map (\<lambda>x. [x]) data)))" using assms(3) by (auto simp: ran_def dest: map_of_SomeD)
  have sp2: "sm_cur (lt_mem t) + sk_size * (length (put_keys ops) + 1) \<le> sm_end (lt_mem t)"
    using assms(6) T(3,4) by (simp add: sk_size_def)
  have dj: "set (put_keys ops) \<inter> dom (map_of (concat (map (\<lambda>x. [x]) data))) = {}" using assms(10) by (simp add: dom_map_of_conv_image_fst)
  obtain t' xss where R: "lt_run fp t ops (map_of data) = Some (t', map_of (concat xss))" "lt_own B t' xss"
    "0 \<notin> ran (map_of (concat xss))" "map_of (concat xss) = fold op_map ops (map_of data)"
    using lt_run_own[OF T(2) sp2 assms(8,9,7) dj r assms(11,12,14)] by auto
  have "lt_get t' k = Some (fold op_map ops (map_of data) k)" if "k \<le> B" "k \<noteq> 0" for k
    using lt_get_own[OF R(2) that(2,1)] R(3,4) by (auto split: option.splits simp: ran_def)
  then show ?thesis using T(1) R(1,4) by auto
qed

definition hundred_pairs :: "kv list" where
  "hundred_pairs = map (\<lambda>i. (word_of_nat (5 * i + 2), word_of_nat (i + 1))) [0..<100]"

lemma hundred_pairs_ok: "64 \<le> length hundred_pairs" "length hundred_pairs = 100" "keys_sorted hundred_pairs"
  "\<forall>(k, v) \<in> set hundred_pairs. k \<noteq> 0 \<and> v \<noteq> 0" "\<forall>(k, v) \<in> set hundred_pairs. k mod 5 = 2" "\<forall>x \<in> set hundred_pairs. fst x \<le> 1000"
proof -
  have u: "unat (word_of_nat n :: u64) = n" if "n < 2 ^ 64" for n using that by (simp add: unsigned_of_nat take_bit_nat_eq_self)
  show "64 \<le> length hundred_pairs" "length hundred_pairs = 100" by (simp_all add: hundred_pairs_def)
  show "keys_sorted hundred_pairs"
    by (simp add: hundred_pairs_def keys_sorted_def sorted_wrt_iff_nth_less word_less_nat_alt u del: of_nat_add of_nat_mult of_nat_simps)
  show "\<forall>(k, v) \<in> set hundred_pairs. k \<noteq> 0 \<and> v \<noteq> 0"
    by (auto simp: hundred_pairs_def u word_unat_eq_iff simp del: of_nat_add of_nat_mult of_nat_simps)
  have m: "Suc (Suc (5 * x)) mod 5 = 2" for x :: nat by presburger
  show "\<forall>(k, v) \<in> set hundred_pairs. k mod 5 = 2"
    by (auto simp: hundred_pairs_def u m word_unat_eq_iff unat_mod simp del: of_nat_add of_nat_mult of_nat_simps)
  show "\<forall>x \<in> set hundred_pairs. fst x \<le> 1000"
    by (auto simp: hundred_pairs_def u word_le_nat_alt simp del: of_nat_add of_nat_mult of_nat_simps)
qed

lemma exact_thousand: "lines_fit fp_exact 1000"
  by (rule exact_lines_fit) simp

theorem lt_run_refines_witness:
  "\<exists>t t'. lt_bulk_load fp_exact (lt_new (leaf_region\<lparr>sm_end := 2 ^ 20\<rparr>)) hundred_pairs = Some t \<and>
    lt_run fp_exact t [PutKey 3 7, UpdateKey 2 9, PutKey 1 4] (map_of hundred_pairs) =
      Some (t', fold op_map [PutKey 3 7, UpdateKey 2 9, PutKey 1 4] (map_of hundred_pairs)) \<and>
    (\<forall>k \<le> 1000. k \<noteq> 0 \<longrightarrow> lt_get t' k = Some (fold op_map [PutKey 3 7, UpdateKey 2 9, PutKey 1 4] (map_of hundred_pairs) k))"
proof (rule lt_run_refines)
  have "(3 :: u64) mod 5 \<noteq> 2" "(1 :: u64) mod 5 \<noteq> 2" by simp_all
  then show "set (put_keys [PutKey 3 7, UpdateKey 2 9, PutKey 1 4]) \<inter> fst ` set hundred_pairs = {}"
    using hundred_pairs_ok(5) by fastforce
qed (simp_all add: leaf_region_def hundred_pairs_ok exact_ok exact_thousand)

text \<open>C22 The search of an entry inside a group: whatever the fitted line predicts, the exponential search finds the last
  entry whose key is not greater, or the first entry; that is, one less than the number of such entries.\<close>

theorem eg_find_reference:
  assumes "0 < eg_nr g" "\<forall>j < eg_nr g. \<forall>i < j. eg_key g i < eg_key g j"
  shows "eg_find g key = length (filter (\<lambda>i. eg_key g i \<le> key) [0..<eg_nr g]) - 1"
proof -
  have "nat (clip (sint (eg_model g key)) (eg_nr g)) < eg_nr g" using clip_range[OF assms(1)] by (simp add: nat_less_iff)
  moreover have "rising (eg_key g) (eg_nr g)" using assms(2) by (simp add: rising_def)
  ultimately obtain u where u: "ub_at (eg_key g) key (eg_nr g) u" "eg_find g key = u - 1"
    unfolding eg_find_def by (metis exponential_search_at)
  have U: "u \<le> eg_nr g" "\<forall>i < u. eg_key g i \<le> key" "\<forall>i. u \<le> i \<longrightarrow> i < eg_nr g \<longrightarrow> key < eg_key g i"
    using u(1) by (simp_all add: ub_at_def)
  have "[0..<eg_nr g] = [0..<u] @ [u..<eg_nr g]" using U(1) by (metis le_iff_add upt_add_eq_append zero_le)
  moreover have "filter (\<lambda>i. eg_key g i \<le> key) [0..<u] = [0..<u]" using U(2) by simp
  moreover have "filter (\<lambda>i. eg_key g i \<le> key) [u..<eg_nr g] = []" using U(3) by (auto simp: filter_empty_conv)
  ultimately show ?thesis using u(2) by simp
qed

definition five_entries :: egroup where
  "five_entries = eg_zero\<lparr>eg_nr := 5, eg_next := 5, eg_space := map (\<lambda>k. pb_of_entry (pb_first k 0)) [10, 20, 30, 40, 50], eg_model := (\<lambda>_. 4)\<rparr>"

theorem eg_find_reference_witness: "eg_find five_entries 25 = 1"
proof -
  have n: "eg_nr five_entries = 5" by (simp add: five_entries_def)
  have f: "filter (\<lambda>i. eg_key five_entries i \<le> 25) [0..<5] = [0, 1]" by code_simp
  have "\<forall>j \<in> set [0..<5]. \<forall>i \<in> set [0..<j]. eg_key five_entries i < eg_key five_entries j" by code_simp
  then have "\<forall>j < 5. \<forall>i < j. eg_key five_entries i < eg_key five_entries j" by simp
  then show ?thesis using eg_find_reference[of five_entries 25] n f by simp
qed

text \<open>C20 The expansion of the tree loses nothing: for a well-formed tree over keys up to \<open>B\<close>, and an arithmetic in which fits to such
  keys predict values in the range of \<^verbatim>\<open>int\<close>, the new tree is well formed and holds the same leaves with the same pairs,
  every leaf has an entry of its own, and every entry lies in the group that the new line predicts for its key.\<close>

theorem lt_expand_keeps:
  assumes "lt_own B t xss" "fp_ok fp" "lines_fit fp B"
  shows "\<exists>t'. lt_expand fp t = Some t' \<and> lt_own B t' xss \<and> lt_mem t' = lt_mem t \<and>
    (\<forall>i < length (lt_groups t'). \<forall>e \<in> set (eg_entries (lt_groups t' ! i)). pb_nr e = 1 \<and> lt_group_of t' (entry_key_of e) = int i)"
  using lt_expand_own[OF assms] by metis

theorem lt_expand_keeps_witness:
  "\<exists>t t'. lt_bulk_load fp_exact (lt_new (leaf_region\<lparr>sm_end := 2 ^ 20\<rparr>)) hundred_pairs = Some t \<and>
    lt_expand fp_exact t = Some t' \<and> lt_own 1000 t' (map (\<lambda>x. [x]) hundred_pairs)"
proof -
  have d: "64 \<le> length hundred_pairs" "keys_sorted hundred_pairs" "\<forall>x \<in> set hundred_pairs. fst x \<noteq> 0"
    using hundred_pairs_ok by auto
  have m: "sm_ok (leaf_region\<lparr>sm_end := 2 ^ 20\<rparr>)" by (simp add: sm_ok_def leaf_region_def sk_slots_def)
  have sp: "sm_cur (leaf_region\<lparr>sm_end := 2 ^ 20\<rparr>) + sk_size * length hundred_pairs < sm_end (leaf_region\<lparr>sm_end := 2 ^ 20\<rparr>)"
    by (simp add: leaf_region_def hundred_pairs_ok sk_size_def)
  obtain t where "lt_bulk_load fp_exact (lt_new (leaf_region\<lparr>sm_end := 2 ^ 20\<rparr>)) hundred_pairs = Some t"
    "lt_own 1000 t (map (\<lambda>x. [x]) hundred_pairs)" by (rule lt_bulk_load_own[OF d m sp exact_ok exact_thousand hundred_pairs_ok(6)])
  then show ?thesis using lt_expand_keeps[OF _ exact_ok exact_thousand] by blast
qed

text \<open>Bulk loading of fewer than 64 pairs makes no groups, and the first pair is counted in a group before the array.\<close>

theorem lt_small_load_fails:
  assumes "data \<noteq> []" "length data < 64"
  shows "lt_bulk_load fp t data = None"
proof -
  obtain x xs where x: "data = x # xs" using assms(1) by (cases data) auto
  have "length data div min_group_entries = 0" using assms(2) by (simp add: min_group_entries_def)
  then show ?thesis unfolding x by (simp add: lt_bulk_load_def clip_def Let_def)
qed

definition entry_at :: "u64 \<Rightarrow> nat \<Rightarrow> pbentry" where
  "entry_at k a = pb_of_entry ((pb_first k 8)\<lparr>pe_ptr := a\<rparr>)"

definition small_tree :: letree where
  "small_tree =
     \<lparr>lt_groups = [eg_zero\<lparr>eg_nr := 2, eg_next := 2, eg_space := [entry_at 0 0, entry_at 20 256]\<rparr>], lt_nr = 1, lt_model = (\<lambda>_. 0),
      lt_mem = \<lparr>sm_cur = 512, sm_end = 4096, sm_heap = [0 \<mapsto> leaf_of [(5, 50), (9, 90)], 256 \<mapsto> leaf_of [(20, 200), (30, 300)]],
        sm_raw = (\<lambda>_. replicate 15 (0, 0)), sm_expands = 0\<rparr>, lt_expands = 0\<rparr>"

text \<open>A tree on which \<^verbatim>\<open>Scan\<close> goes wrong: the result starts with a pair whose key is smaller than the start key, and the pairs of
  the next entry are missing although three were asked for and a lookup finds them.\<close>

theorem lt_scan_wrong_pairs:
  "lt_own 100 small_tree [[(5, 50), (9, 90)], [(20, 200), (30, 300)]] \<and> lt_get small_tree 20 = Some (Some 200) \<and>
   lt_scan 9 99 small_tree 9 3 = Some ([(5, 50), (9, 90)], True)"
proof (intro conjI)
  have l: "sk_wf (leaf_of [(5, 50), (9, 90)])" "sk_items (leaf_of [(5, 50), (9, 90)]) = [(5, 50), (9, 90)]"
    "sk_wf (leaf_of [(20, 200), (30, 300)])" "sk_items (leaf_of [(20, 200), (30, 300)]) = [(20, 200), (30, 300)]"
    by (code_simp | simp)+
  have e: "pb_used (entry_at k a) = [(k, a)]" "pe_shape (entry_at k a)" for k a
    by (simp_all add: entry_at_def pb_of_entry_shape pb_first_def)
  have g: "eg_ok g" "eg_entries g = [entry_at 0 0, entry_at 20 256]" if "g \<in> set (lt_groups small_tree)" for g
    using that e by (simp_all add: small_tree_def eg_ok_def eg_entries_def)
  have n: "lt_entries (lt_groups small_tree) = [entry_at 0 0, entry_at 20 256]" using g(2) by (simp add: lt_entries_def small_tree_def)
  have "es_own (lt_mem small_tree) [entry_at 0 0, entry_at 20 256] [[(5, 50), (9, 90)], [(20, 200), (30, 300)]]"
    using e l by (simp add: es_own_def used_ok_Cons sk_leaf_def sm_ok_def small_tree_def sk_slots_def)
  then show "lt_own 100 small_tree [[(5, 50), (9, 90)], [(20, 200), (30, 300)]]"
    using g n by (simp add: lt_own_def placed_def line_mono_def) (simp add: small_tree_def keys_of_def)
qed (code_simp+)

section \<open>Memory\<close>

text \<open>C25 The allocator of the groups and entries: in any run of allocations, aligned or not, and of releases of blocks,
  whose requests fit into the region together, no request fails and the blocks that are not released are apart and
  inside the region.  Aligned requests need a base and sizes that are multiples of the alignment, as those of the
  groups are.\<close>

theorem na_run_disjoint:
  assumes "0 < base" "base + len < 2 ^ 64" "sum_list (map na_size ops) \<le> len"
    and "\<forall>sz. Alloc sz \<in> set ops \<or> AllocAligned sz \<in> set ops \<longrightarrow> 0 < sz"
    and "(\<forall>sz. AllocAligned sz \<notin> set ops) \<or> 64 dvd base \<and> (\<forall>op \<in> set ops. 64 dvd na_size op)"
  shows "\<exists>n bs. na_run (na_new base len) [] ops = Some (n, bs) \<and>
    (\<forall>(p, sz) \<in> set bs. base \<le> p \<and> p + sz \<le> base + len) \<and>
    (\<forall>i j. i < j \<longrightarrow> j < length bs \<longrightarrow> fst (bs ! i) + snd (bs ! i) \<le> fst (bs ! j) \<or> fst (bs ! j) + snd (bs ! j) \<le> fst (bs ! i))"
proof -
  define al where "al = (64 dvd base \<and> (\<forall>op \<in> set ops. 64 dvd na_size op))"
  have ok: "na_ok al (sum_list (map na_size ops)) (na_new base len) []" using assms(1-3) by (simp add: na_ok_def na_new_def al_def)
  have sz: "\<forall>sz. Alloc sz \<in> set ops \<or> AllocAligned sz \<in> set ops \<longrightarrow> 0 < sz \<and> (al \<longrightarrow> 64 dvd sz)"
    using assms(4) by (auto simp: al_def dest: bspec)
  have na: "\<not> al \<longrightarrow> (\<forall>sz. AllocAligned sz \<notin> set ops)" using assms(5) by (auto simp: al_def)
  obtain n bs where R: "na_run (na_new base len) [] ops = Some (n, bs)" "na_ok al 0 n bs" "na_base n = base" "na_len n = len"
    using na_run_ok[OF ok sz na] by (auto simp: na_new_def)
  have "base \<le> p \<and> p + sz \<le> base + len" if "(p, sz) \<in> set bs" for p sz using R(2-4) that by (fastforce simp: na_ok_def)
  moreover have "sorted_wrt apart bs" using R(2) by (simp add: na_ok_def)
  ultimately show ?thesis using R(1) by (auto simp: sorted_wrt_iff_nth_less apart_def)
qed

theorem na_run_disjoint_witness:
  "\<exists>n bs. na_run (na_new 128 4096) [] [AllocAligned 64, Alloc 192, FreeBlock 0, AllocAligned 128, FreeBlock 1] = Some (n, bs) \<and>
    (\<forall>(p, sz) \<in> set bs. 128 \<le> p \<and> p + sz \<le> 128 + 4096) \<and>
    (\<forall>i j. i < j \<longrightarrow> j < length bs \<longrightarrow> fst (bs ! i) + snd (bs ! i) \<le> fst (bs ! j) \<or> fst (bs ! j) + snd (bs ! j) \<le> fst (bs ! i))"
  by (rule na_run_disjoint) auto

text \<open>C30 \<^verbatim>\<open>alloc_aligned\<close> forgets the padding when it advances the address: from an address that is not aligned, the next
  block begins before the end of the aligned one.\<close>

theorem na_aligned_overlap:
  assumes "na_cur n mod align \<noteq> 0" "0 < align" "align \<le> sz" "0 < sz2"
    and "na_used n + sz + align + sz2 \<le> na_len n" "na_len n < 2 ^ 63" "na_cur n + sz + align < 2 ^ 64"
  shows "\<exists>n1 p n2 q. na_alloc_aligned n sz align = Some (n1, p) \<and> na_alloc n1 sz2 = Some (n2, q) \<and>
    p mod align = 0 \<and> p < q \<and> q < p + sz"
proof -
  define d where "d = align - na_cur n mod align"
  have r: "na_reserve n align = d" "0 < d" "d < align"
    using assms(1,2) by (simp_all add: na_reserve_def d_def)
  have w: "wrap64 (sz + d) = sz + d" "wrap64 (na_used n + (sz + d)) = na_used n + (sz + d)" "wrap64 (na_cur n + sz) = na_cur n + sz"
    "wrap64 (na_cur n + d) = na_cur n + d" "wrap64 (na_used n + (sz + d) + sz2) = na_used n + (sz + d) + sz2"
    using r(3) assms(5-7) by (simp_all add: wrap64_def)
  let ?n1 = "n\<lparr>na_used := na_used n + (sz + d), na_cur := na_cur n + sz\<rparr>"
  have A: "na_alloc_aligned n sz align = Some (?n1, na_cur n + d)"
    using r assms(5) by (simp add: na_alloc_aligned_def Let_def w)
  have B: "\<exists>n2. na_alloc ?n1 sz2 = Some (n2, na_cur n + sz)" using r assms(5) by (simp add: na_alloc_def Let_def w)
  have m: "na_cur n + d = (na_cur n div align + 1) * align"
  proof -
    have "na_cur n mod align + d = align" using mod_less_divisor[OF assms(2), of "na_cur n"] by (simp add: d_def)
    then have "na_cur n + d = na_cur n div align * align + align" using div_mult_mod_eq[of "na_cur n" align] by linarith
    then show ?thesis by (simp add: algebra_simps)
  qed
  have z: "(na_cur n + d) mod align = 0" unfolding m by simp
  have l: "na_cur n + d < na_cur n + sz" "na_cur n + sz < na_cur n + d + sz" using r assms(3) by simp_all
  from B obtain n2 where "na_alloc ?n1 sz2 = Some (n2, na_cur n + sz)" ..
  then show ?thesis using A z l by (intro exI[of _ ?n1] exI[of _ "na_cur n + d"] exI[of _ n2] exI[of _ "na_cur n + sz"] conjI)
qed

theorem na_aligned_overlap_witness:
  "\<exists>n1 p n2 q. na_alloc_aligned ((na_new 128 4096)\<lparr>na_cur := 136, na_used := 8\<rparr>) 64 64 = Some (n1, p) \<and>
    na_alloc n1 16 = Some (n2, q) \<and> p mod 64 = 0 \<and> p < q \<and> q < p + 64"
  by (rule na_aligned_overlap) (simp_all add: na_new_def)

text \<open>C24 The slab: however the two parts of \<^verbatim>\<open>Allocate\<close> of any number of threads are interleaved, every object that is
  handed out lies inside its array and none is handed out twice, as long as the numbers of objects and steps together stay below
  the range of \<^verbatim>\<open>int\<close>.\<close>

theorem sl_objects_unique:
  assumes "sl_new sz = Some s" "sl_steps s n s'" "sz + n < 2 ^ 31"
  shows "distinct (sl_given s') \<and> (\<forall>(a, i) \<in> set (sl_given s'). a < sl_arrays s' \<and> 0 \<le> i \<and> i < int sz)"
proof -
  have "sl_ok n s'" "sl_size s' = sz" using sl_steps_ok[OF assms(2)] sl_new_ok[OF assms(1)] assms(3) by simp_all
  then show ?thesis by (auto simp: sl_ok_def)
qed

definition slab_after :: slab where
  "slab_after = sl_fetch (sl_fetch (the (sl_new 6)) 1) 2"

theorem sl_objects_unique_witness:
  "distinct (sl_given slab_after) \<and> sl_given slab_after \<noteq> []"
proof -
  have "sl_pc (the (sl_new 6)) 1 = None" by (simp add: sl_new_def)
  from sl_steps.step[OF sl_steps.start sl_step.fetch[OF this]]
  have a: "sl_steps (the (sl_new 6)) (Suc 0) (sl_fetch (the (sl_new 6)) 1)" .
  have "sl_pc (sl_fetch (the (sl_new 6)) 1) 2 = None" by (simp add: sl_new_def sl_fetch_def Let_def)
  from sl_steps.step[OF a sl_step.fetch[OF this]] have b: "sl_steps (the (sl_new 6)) (Suc (Suc 0)) slab_after"
    by (simp add: slab_after_def)
  have "distinct (sl_given slab_after)" using sl_objects_unique[OF _ b, of 6] by (simp add: sl_new_def)
  then show ?thesis by (simp add: slab_after_def sl_new_def sl_fetch_def Let_def)
qed

text \<open>\<^verbatim>\<open>find_first_zero_bit\<close> searches the first word only: inside it the result is the first zero bit, but when this
  word is full the result is 32, whatever the next word holds.\<close>

theorem first_zero_first_word:
  assumes "find_first_zero_bit (w # ws) sz = Some r" "0 < sz"
  shows "(w \<noteq> - 1 \<and> r < sz \<longrightarrow> bit_test (w # ws) r = Some False \<and> (\<forall>j < r. bit_test (w # ws) j = Some True)) \<and>
    (w = - 1 \<longrightarrow> r = min 32 sz)"
proof (intro conjI impI)
  have r: "r = min (find_bit (not w)) sz" using assms by (simp add: find_first_zero_bit_word)
  {
    assume w: "w \<noteq> - 1 \<and> r < sz"
    then have "not w \<noteq> 0" by (metis bit.compl_zero bit.double_compl)
    note F = find_bit_least[OF this]
    have e: "r = find_bit (not w)" using r w by (simp add: min_def split: if_splits)
    show "bit_test (w # ws) r = Some False" using F(1,3) by (simp add: e bit_test_word bit_not_iff)
    show "\<forall>j < r. bit_test (w # ws) j = Some True" using F(2,3) by (auto simp: e bit_test_word bit_not_iff)
  }
  assume "w = - 1"
  then show "r = min 32 sz" using r by (simp add: find_bit_def)
qed

theorem first_zero_first_word_witness:
  "find_first_zero_bit [- 1, 255] 40 = Some 32 \<and> bit_test [- 1, 255] 32 = Some True"
proof -
  obtain r where r: "find_first_zero_bit [- 1, 255] 40 = Some r" using find_first_zero_bit_word[of 40 "- 1" "[255]"] by simp
  then have "r = 32" using first_zero_first_word[OF r] by simp
  then show ?thesis using r by (simp add: bit_test_def)
qed

end
